(* ===== verification/Prelude.thy ===== *)
theory Prelude
  imports Main "HOL-Library.Word" "HOL-Library.Multiset" "HOL-Library.List_Lexorder"
    "HOL-Library.Char_ord" "HOL-Library.Product_Lexorder" "HOL-Library.Sublist"
begin

text \<open>
  Shared vocabulary of the development: machine integer types, the I/O result type with its
  sequencing operation, ordered maps (Rust's \<open>BTreeMap\<close>) as strictly ascending association
  lists behind a map interface, the searching and sorting operations of Rust's slices, and the
  generic lemmas on sorted lists the components use.
\<close>

section \<open>Machine integers\<close>

type_synonym u8 = "8 word"
type_synonym u16 = "16 word"
type_synonym u32 = "32 word"
type_synonym u64 = "64 word"

named_theorems result_simps \<open>unfolding of the result monad\<close>
named_theorems pl_intros \<open>preservation of the posting list invariant\<close>
named_theorems codec_simps \<open>round trips of encoders and decoders\<close>
named_theorems stats_simps \<open>bookkeeping of per-field statistics\<close>

lemma unat_u64_lt: "unat (w :: u64) < 18446744073709551616"
  by (rule less_le_trans [OF unsigned_less]) simp

lemma unat_u32_lt: "unat (w :: u32) < 4294967296"
  by (rule less_le_trans [OF unsigned_less]) simp

lemma unat_u16_lt: "unat (w :: u16) < 65536"
  by (rule less_le_trans [OF unsigned_less]) simp

lemma unat_u8_lt: "unat (w :: u8) < 256"
  by (rule less_le_trans [OF unsigned_less]) simp

lemmas unat_bounds = unat_u64_lt unat_u32_lt unat_u16_lt unat_u8_lt

unbundle bit_operations_syntax

lemma unat_word_eqI: "unat a = unat b \<Longrightarrow> a = b" for a b :: "'a::len word"
  by (simp add: unsigned_word_eqI)

lemma unat_ucast_up: "unat w < 2 ^ LENGTH('b) \<Longrightarrow> unat (ucast w :: 'b::len word) = unat w"
  for w :: "'a::len word"
  by (simp add: unsigned_ucast_eq take_bit_nat_eq_self)

lemma take_bit_self: "unat w < 2 ^ n \<Longrightarrow> take_bit n w = w" for w :: "'a::len word"
  by (rule unat_word_eqI) (simp add: unsigned_take_bit_eq take_bit_nat_eq_self)

lemma drop_push_or:
  fixes a b :: "'a::len word"
  assumes "a = take_bit m a" and "b = take_bit n b" and "m + n \<le> LENGTH('a)"
  shows "drop_bit n (push_bit n a OR b) = a"
proof -
  have "drop_bit n (push_bit n (take_bit m a) OR take_bit n b) = take_bit m a"
    using assms(3) by (intro bit_word_eqI) (auto simp: bit_simps)
  with assms(1,2) show ?thesis by metis
qed

lemma take_push_or:
  fixes a b :: "'a::len word"
  assumes "b = take_bit n b"
  shows "take_bit n (push_bit n a OR b) = b"
proof -
  have "take_bit n (push_bit n a OR take_bit n b) = take_bit n b"
    by (intro bit_word_eqI) (auto simp: bit_simps)
  with assms show ?thesis by metis
qed

text \<open>\<open>saturating_add\<close> and \<open>saturating_mul\<close>.\<close>

definition saturating_add_u64 :: "u64 \<Rightarrow> u64 \<Rightarrow> u64" where
  "saturating_add_u64 a b = (if unat a + unat b < 2 ^ 64 then a + b else - 1)"

definition saturating_mul_u64 :: "u64 \<Rightarrow> u64 \<Rightarrow> u64" where
  "saturating_mul_u64 a b = (if unat a * unat b < 2 ^ 64 then a * b else - 1)"

section \<open>I/O results\<close>

text \<open>The kinds of \<open>io::Error\<close> the modelled code builds, with their fixed message text.\<close>

datatype io_error =
    UnexpectedEof string
  | InvalidData string
  | InvalidInput string
  | NotFound string
  | AlreadyExists string
  | OtherError string

type_synonym 'a result = "io_error + 'a"

text \<open>The failure of a call into the file system: how many bytes got through, and the error.\<close>

type_synonym fault = "(nat \<times> io_error) option"

text \<open>The \<open>?\<close> operator: go on with the value, or return the error.\<close>

definition and_then :: "'a result \<Rightarrow> ('a \<Rightarrow> 'b result) \<Rightarrow> 'b result" where
  "and_then r f = (case r of Inl e \<Rightarrow> Inl e | Inr v \<Rightarrow> f v)"

lemma and_then_simps [simp, result_simps]:
  "and_then (Inl e) f = Inl e"
  "and_then (Inr v) f = f v"
  by (simp_all add: and_then_def)

lemma and_then_eq_Inr [result_simps]:
  "and_then r f = Inr y \<longleftrightarrow> (\<exists>v. r = Inr v \<and> f v = Inr y)"
  by (cases r) auto

lemma and_then_assoc: "and_then (and_then r f) g = and_then r (\<lambda>v. and_then (f v) g)"
  by (cases r) auto

definition ok_or :: "io_error \<Rightarrow> 'a option \<Rightarrow> 'a result" where
  "ok_or e x = (case x of None \<Rightarrow> Inl e | Some v \<Rightarrow> Inr v)"

lemma ok_or_simps [simp, result_simps]:
  "ok_or e None = Inl e"
  "ok_or e (Some v) = Inr v"
  by (simp_all add: ok_or_def)

definition is_ok :: "'a result \<Rightarrow> bool" where
  "is_ok r = (case r of Inl _ \<Rightarrow> False | Inr _ \<Rightarrow> True)"

lemma is_ok_simps [simp, result_simps]:
  "\<not> is_ok (Inl e)"
  "is_ok (Inr v)"
  by (simp_all add: is_ok_def)

section \<open>Strictly ascending lists\<close>

abbreviation ascending :: "'a::linorder list \<Rightarrow> bool" where
  "ascending \<equiv> sorted_wrt (<)"

lemma ascending_distinct: "ascending (xs :: 'a::linorder list) \<Longrightarrow> distinct xs"
  by (simp add: strict_sorted_iff)

lemma ascending_sorted: "ascending (xs :: 'a::linorder list) \<Longrightarrow> sorted xs"
  by (simp add: strict_sorted_iff)

lemma ascending_eqI:
  "ascending xs \<Longrightarrow> ascending ys \<Longrightarrow> set xs = set ys \<Longrightarrow> xs = (ys :: 'a::linorder list)"
  by (metis sorted_distinct_set_unique strict_sorted_iff)

lemma ascending_filter: "ascending (map f xs) \<Longrightarrow> ascending (map f (filter P xs))"
  for f :: "'b \<Rightarrow> 'a::linorder"
  by (induction xs) auto

lemma ascending_remdups_adj: "sorted xs \<Longrightarrow> ascending (remdups_adj xs)"
  for xs :: "'a::linorder list"
  by (induction xs rule: remdups_adj.induct) auto

lemma ascending_remdups_adj_sort: "ascending (remdups_adj (sort xs))"
  for xs :: "'a::linorder list"
  by (simp add: ascending_remdups_adj)

text \<open>\<open>sort_unstable\<close> followed by \<open>dedup\<close> on a vector of totally ordered values.\<close>

definition sort_dedup :: "'a::linorder list \<Rightarrow> 'a list" where
  "sort_dedup xs = remdups_adj (sort xs)"

lemma set_sort_dedup [simp]: "set (sort_dedup xs) = set xs"
  by (simp add: sort_dedup_def)

lemma ascending_sort_dedup [simp]: "ascending (sort_dedup xs)"
  by (simp add: sort_dedup_def ascending_remdups_adj_sort)

lemma sort_dedup_idem: "ascending xs \<Longrightarrow> sort_dedup xs = xs"
  by (rule ascending_eqI) simp_all

lemma sort_dedup_eq_iff: "sort_dedup xs = sort_dedup ys \<longleftrightarrow> set xs = set ys"
  by (metis ascending_eqI ascending_sort_dedup set_sort_dedup)

lemma sort_dedup_eq_Nil [simp]: "sort_dedup xs = [] \<longleftrightarrow> xs = []"
  by (metis set_empty set_sort_dedup)

lemma fold_max_ge_init: "(a::'a::linorder) \<le> fold max xs a"
proof (induction xs arbitrary: a)
  case (Cons x xs)
  from Cons [of "max x a"] show ?case by simp
qed simp

lemma fold_max_ge: "x \<in> set xs \<Longrightarrow> (x::'a::linorder) \<le> fold max xs a"
proof (induction xs arbitrary: a)
  case (Cons y ys)
  then show ?case
    using fold_max_ge_init [of "max y a" ys] by auto
qed simp

lemma fold_max_mem: "fold max xs (a::'a::linorder) \<in> insert a (set xs)"
proof (induction xs arbitrary: a)
  case (Cons y ys)
  from Cons [of "max y a"] show ?case by (auto simp: max_def split: if_splits)
qed simp

lemma sort_dedup_snoc_max:
  assumes "\<And>x. x \<in> set xs \<Longrightarrow> x \<le> d"
  shows "sort_dedup (xs @ [d]) = (if d \<in> set xs then sort_dedup xs else sort_dedup xs @ [d])"
proof (rule ascending_eqI)
  show "ascending (if d \<in> set xs then sort_dedup xs else sort_dedup xs @ [d])"
    using assms by (auto simp: sorted_wrt_append order.strict_iff_order)
qed auto

lemma sorted_le_last: "sorted xs \<Longrightarrow> x \<in> set xs \<Longrightarrow> x \<le> last xs"
  by (induction xs) auto

lemma sort_dedup_last:
  assumes "\<And>x. x \<in> set xs \<Longrightarrow> x \<le> d" and "d \<in> set xs"
  shows "sort_dedup xs = butlast (sort_dedup xs) @ [d]"
proof -
  have ne: "sort_dedup xs \<noteq> []" using assms(2) by auto
  have "last (sort_dedup xs) = d"
  proof (rule antisym)
    show "last (sort_dedup xs) \<le> d"
      using assms(1) last_in_set [OF ne] by simp
    show "d \<le> last (sort_dedup xs)"
      using assms(2) by (intro sorted_le_last ascending_sorted) simp_all
  qed
  with ne show ?thesis by (metis append_butlast_last_id)
qed

section \<open>Searching in slices\<close>

text \<open>\<open>Vec::insert\<close> and \<open>Vec::remove\<close>.\<close>

definition vec_insert :: "nat \<Rightarrow> 'a \<Rightarrow> 'a list \<Rightarrow> 'a list" where
  "vec_insert i x xs = take i xs @ x # drop i xs"

definition vec_remove :: "nat \<Rightarrow> 'a list \<Rightarrow> 'a list" where
  "vec_remove i xs = take i xs @ drop (Suc i) xs"

text \<open>
  \<open>partition_point\<close> on a slice partitioned by the predicate, and \<open>binary_search_by_key\<close> on a
  slice sorted by the key: \<open>Inr i\<close> is \<open>Ok(i)\<close> (found) and \<open>Inl i\<close> is \<open>Err(i)\<close> (where to
  insert).  Their results on other slices are not specified by the standard library, and every
  use in the modelled code is on a sorted slice.
\<close>

definition partition_point :: "('a \<Rightarrow> bool) \<Rightarrow> 'a list \<Rightarrow> nat" where
  "partition_point p xs = length (takeWhile p xs)"

definition binary_search_by_key :: "'k::linorder \<Rightarrow> ('a \<Rightarrow> 'k) \<Rightarrow> 'a list \<Rightarrow> nat + nat" where
  "binary_search_by_key k f xs =
     (let i = partition_point (\<lambda>x. f x < k) xs
      in if i < length xs \<and> f (xs ! i) = k then Inr i else Inl i)"

lemma partition_point_le [simp]: "partition_point p xs \<le> length xs"
  by (simp add: partition_point_def length_takeWhile_le)

lemma partition_point_lessD: "i < partition_point p xs \<Longrightarrow> p (xs ! i)"
  unfolding partition_point_def
  by (metis nth_mem set_takeWhileD takeWhile_nth)

lemma partition_point_stop: "partition_point p xs < length xs \<Longrightarrow> \<not> p (xs ! partition_point p xs)"
  by (simp add: partition_point_def nth_length_takeWhile)

lemma partition_point_sorted:
  assumes "sorted (map f xs)" and "\<And>x y. f x \<le> f y \<Longrightarrow> p y \<Longrightarrow> p x" and "i < length xs"
  shows "i < partition_point p xs \<longleftrightarrow> p (xs ! i)"
proof
  assume "i < partition_point p xs"
  then show "p (xs ! i)" by (rule partition_point_lessD)
next
  assume p: "p (xs ! i)"
  show "i < partition_point p xs"
  proof (rule ccontr)
    assume "\<not> i < partition_point p xs"
    then have le: "partition_point p xs \<le> i" by simp
    with assms(1,3) have "f (xs ! partition_point p xs) \<le> f (xs ! i)"
      by (simp add: sorted_iff_nth_mono)
    with p assms(2) have "p (xs ! partition_point p xs)" by blast
    with le assms(3) partition_point_stop [of p xs] show False by simp
  qed
qed

lemma take_partition_point: "take (partition_point p xs) xs = takeWhile p xs"
  unfolding partition_point_def by (metis takeWhile_eq_take)

lemma drop_partition_point: "drop (partition_point p xs) xs = dropWhile p xs"
  by (simp add: partition_point_def dropWhile_eq_drop)

lemma takeWhile_eq_filter_sorted:
  assumes "sorted (map f xs)" and down: "\<And>x y. f x \<le> f y \<Longrightarrow> p y \<Longrightarrow> p x"
  shows "takeWhile p xs = filter p xs"
  using assms(1)
proof (induction xs)
  case (Cons a xs)
  show ?case
  proof (cases "p a")
    case True
    with Cons show ?thesis by simp
  next
    case False
    with Cons.prems down have "\<forall>x \<in> set xs. \<not> p x" by auto
    with False show ?thesis by (simp add: filter_empty_conv)
  qed
qed simp

lemma dropWhile_eq_filter_sorted:
  assumes "sorted (map f xs)" and down: "\<And>x y. f x \<le> f y \<Longrightarrow> p y \<Longrightarrow> p x"
  shows "dropWhile p xs = filter (\<lambda>x. \<not> p x) xs"
  using assms(1)
proof (induction xs)
  case (Cons a xs)
  show ?case
  proof (cases "p a")
    case True
    with Cons show ?thesis by simp
  next
    case False
    with Cons.prems down have "\<forall>x \<in> set xs. \<not> p x" by auto
    with False show ?thesis by (simp add: filter_id_conv)
  qed
qed simp

lemma sorted_by_key_split:
  assumes "sorted (map f xs)"
  shows "xs = filter (\<lambda>x. f x < k) xs @ filter (\<lambda>x. \<not> f x < k) xs"
proof -
  have "takeWhile (\<lambda>x. f x < k) xs = filter (\<lambda>x. f x < k) xs"
    using assms by (rule takeWhile_eq_filter_sorted) auto
  moreover have "dropWhile (\<lambda>x. f x < k) xs = filter (\<lambda>x. \<not> f x < k) xs"
    using assms by (rule dropWhile_eq_filter_sorted) auto
  ultimately show ?thesis
    by (metis takeWhile_dropWhile_id)
qed

lemma slice_between:
  assumes s: "sorted (map f xs)"
    and p: "\<And>x y. f x \<le> f y \<Longrightarrow> p y \<Longrightarrow> p x" and q: "\<And>x y. f x \<le> f y \<Longrightarrow> q y \<Longrightarrow> q x"
  shows "take (partition_point q xs - partition_point p xs) (drop (partition_point p xs) xs)
    = filter (\<lambda>x. \<not> p x \<and> q x) xs"
proof -
  let ?a = "partition_point p xs" and ?b = "partition_point q xs"
  have ip: "i < ?a \<longleftrightarrow> p (xs ! i)" and iq: "i < ?b \<longleftrightarrow> q (xs ! i)" if "i < length xs" for i
    using partition_point_sorted [OF s _ that, of p] partition_point_sorted [OF s _ that, of q] p q by blast+
  have ip': "\<not> p (xs ! (?a + i))" if "i < length xs - ?a" for i
    using ip [of "?a + i"] that by auto
  have iq': "q (xs ! (?a + i))" if "i < length xs - ?a" "i < ?b - ?a" for i
    using iq [of "?a + i"] that by (simp add: less_diff_conv add.commute)
  have iq'': "\<not> q (xs ! (?a + (?b - ?a) + i))" if "i < length xs - (?a + (?b - ?a))" for i
  proof -
    have "?a + (?b - ?a) + i < length xs" "\<not> ?a + (?b - ?a) + i < ?b" using that by linarith+
    with iq show ?thesis by blast
  qed
  have parts: "xs = take ?a xs @ take (?b - ?a) (drop ?a xs) @ drop (?b - ?a) (drop ?a xs)"
    by (simp only: append_take_drop_id)
  have "filter (\<lambda>x. \<not> p x \<and> q x) (take ?a xs) = []"
    using partition_point_lessD [of _ p xs] by (auto simp: filter_empty_conv in_set_conv_nth)
  moreover have "filter (\<lambda>x. \<not> p x \<and> q x) (take (?b - ?a) (drop ?a xs)) = take (?b - ?a) (drop ?a xs)"
    using ip' iq' by (auto simp: filter_id_conv in_set_conv_nth)
  moreover have "filter (\<lambda>x. \<not> p x \<and> q x) (drop (?b - ?a) (drop ?a xs)) = []"
    using iq'' by (auto simp: filter_empty_conv in_set_conv_nth add_ac)
  ultimately show ?thesis
    using arg_cong [OF parts, of "filter (\<lambda>x. \<not> p x \<and> q x)"] by (simp only: filter_append append_Nil append_Nil2)
qed

lemma partition_point_const [simp]:
  "partition_point (\<lambda>_. False) xs = 0" "partition_point (\<lambda>_. True) xs = length xs"
  by (induction xs) (simp_all add: partition_point_def)

lemma fold_min_Min: "fold min xs (x::'a::linorder) = Min (insert x (set xs))"
  by (simp flip: Min.set_eq_fold)

lemma fold_max_Max: "fold max xs (x::'a::linorder) = Max (insert x (set xs))"
  by (simp flip: Max.set_eq_fold)

lemma binary_search_found:
  assumes "ascending (map f xs)" and "i < length xs" and "f (xs ! i) = k"
  shows "binary_search_by_key k f xs = Inr i"
proof -
  have le: "partition_point (\<lambda>x. f x < k) xs \<le> i"
    using partition_point_lessD [of i "\<lambda>x. f x < k" xs] assms(3) by (meson less_irrefl not_le_imp_less)
  moreover have "\<not> partition_point (\<lambda>x. f x < k) xs < i"
  proof
    assume lt: "partition_point (\<lambda>x. f x < k) xs < i"
    then have "f (xs ! partition_point (\<lambda>x. f x < k) xs) < f (xs ! i)"
      using assms(1,2) by (simp add: sorted_wrt_iff_nth_less)
    with partition_point_stop [of "\<lambda>x. f x < k" xs] lt assms(2,3) show False by simp
  qed
  ultimately show ?thesis
    using assms(2,3) by (simp add: binary_search_by_key_def Let_def)
qed

lemma binary_search_absent:
  "k \<notin> f ` set xs \<Longrightarrow> \<exists>i. binary_search_by_key k f xs = Inl i"
proof -
  assume "k \<notin> f ` set xs"
  then have "f (xs ! i) \<noteq> k" if "i < length xs" for i
    using nth_mem [OF that] by auto
  then show ?thesis by (auto simp: binary_search_by_key_def Let_def)
qed

lemma sort_key_mset_eq:
  assumes "mset xs = mset ys" and "distinct (map f xs)"
  shows "sort_key f xs = sort_key f ys"
proof -
  have sets: "set xs = set ys" using assms(1) by (rule mset_eq_setD)
  have dist: "distinct (map f (sort_key f zs))" if "mset zs = mset xs" for zs
    using assms(2) that by (metis mset_eq_imp_distinct_iff mset_map mset_sort)
  show ?thesis
    using assms dist [of xs] dist [of ys] sets
    by (intro map_sorted_distinct_set_unique [of f]) (auto simp: distinct_map)
qed

lemma insort_key_map: "insort_key f (g x) (map g xs) = map g (insort_key (f \<circ> g) x xs)"
  by (induction xs) simp_all

lemma sort_key_map: "sort_key f (map g xs) = map g (sort_key (f \<circ> g) xs)"
  by (induction xs) (simp_all add: insort_key_map comp_def)

lemma insort_key_cong: "(\<And>y. y \<in> insert x (set xs) \<Longrightarrow> f y = g y) \<Longrightarrow> insort_key f x xs = insort_key g x xs"
  by (induction xs) auto

lemma sort_key_cong: "(\<And>x. x \<in> set xs \<Longrightarrow> f x = g x) \<Longrightarrow> sort_key f xs = sort_key g xs"
  by (induction xs) (auto intro!: insort_key_cong)

lemma length_member_concat: "x \<in> set xs \<Longrightarrow> length (f x) \<le> length (concat (map f xs))"
  by (induction xs) auto

lemma concat_groups:
  assumes "sorted (map fst ms)"
  shows "concat (map (\<lambda>x. filter (\<lambda>m. fst m = x) ms) (sort_dedup (map fst ms))) = ms"
  using assms
proof (induction ms rule: rev_induct)
  case (snoc m ms)
  let ?g = "\<lambda>ms x. filter (\<lambda>m. fst m = x) ms" and ?S = "sort_dedup (map fst ms)"
  have le: "\<And>x. x \<in> set (map fst ms) \<Longrightarrow> x \<le> fst m" using snoc.prems by (auto simp: sorted_append)
  have IH: "concat (map (?g ms) ?S) = ms" using snoc by (simp add: sorted_append)
  have skip: "map (?g (ms @ [m])) xs = map (?g ms) xs" if "fst m \<notin> set xs" for xs
    using that by (induction xs) auto
  show ?case
  proof (cases "fst m \<in> set (map fst ms)")
    case True
    have S: "?S = butlast ?S @ [fst m]" by (rule sort_dedup_last [OF le True])
    moreover have "distinct ?S" by (simp add: ascending_distinct)
    ultimately have notin: "fst m \<notin> set (butlast ?S)" by (metis distinct_append IntI empty_iff list.set_intros(1))
    have "concat (map (?g (ms @ [m])) (butlast ?S @ [fst m])) = concat (map (?g ms) (butlast ?S @ [fst m])) @ [m]"
      unfolding map_append concat_append skip [OF notin] by simp
    then have "concat (map (?g (ms @ [m])) ?S) = concat (map (?g ms) ?S) @ [m]" using S by metis
    moreover have "sort_dedup (map fst (ms @ [m])) = ?S"
      using sort_dedup_snoc_max [of "map fst ms", OF le] True by simp
    ultimately show ?thesis using IH by simp
  next
    case False
    have empty: "?g ms (fst m) = []" using False by (auto simp: filter_empty_conv) (metis fst_conv image_eqI)
    have notin: "fst m \<notin> set ?S" using False by simp
    have "map (?g (ms @ [m])) (?S @ [fst m]) = map (?g ms) ?S @ [[m]]"
      unfolding map_append skip [OF notin] using empty by simp
    then have "concat (map (?g (ms @ [m])) (?S @ [fst m])) = ms @ [m]" by (simp only: concat_append IH) simp
    then show ?thesis
      using sort_dedup_snoc_max [of "map fst ms", OF le] False by simp
  qed
qed simp

end
