(* ===== verification/Ordered_Map.thy ===== *)
theory Ordered_Map
  imports Prelude
begin

text \<open>
  Rust's \<open>BTreeMap\<close>: an association list strictly ascending in its keys, so that iteration
  order is key order and two maps with the same entries are equal.  \<open>HashMap\<close>s whose iteration
  order the modelled code never lets through are kept in the same form.  The laws a client may
  rely on are the locale \<open>map_store\<close>; it is interpreted on the list operations below.
\<close>

section \<open>The interface\<close>

locale map_store =
  fixes empty :: "'m"
    and get :: "'m \<Rightarrow> 'k \<Rightarrow> 'v option"
    and insert_at :: "'k \<Rightarrow> 'v \<Rightarrow> 'm \<Rightarrow> 'm"
    and remove_at :: "'k \<Rightarrow> 'm \<Rightarrow> 'm"
    and ok :: "'m \<Rightarrow> bool"
  assumes get_empty: "get empty k = None"
    and get_insert: "ok m \<Longrightarrow> get (insert_at k v m) k' = (if k' = k then Some v else get m k')"
    and get_remove: "ok m \<Longrightarrow> get (remove_at k m) k' = (if k' = k then None else get m k')"
    and ok_empty: "ok empty"
    and ok_insert: "ok m \<Longrightarrow> ok (insert_at k v m)"
    and ok_remove: "ok m \<Longrightarrow> ok (remove_at k m)"
begin

lemma ok_fold: "ok m \<Longrightarrow> ok (fold (\<lambda>(k, v). insert_at k v) kvs m)"
  by (induction kvs arbitrary: m) (auto simp: ok_insert)

lemma get_fold:
  "ok m \<Longrightarrow> get (fold (\<lambda>(k, v). insert_at k v) kvs m) k =
     (case map_of (rev kvs) k of Some v \<Rightarrow> Some v | None \<Rightarrow> get m k)"
proof (induction kvs arbitrary: m)
  case (Cons kv kvs)
  obtain k0 v0 where kv: "kv = (k0, v0)" by (cases kv)
  have "ok (insert_at k0 v0 m)"
    using Cons.prems by (rule ok_insert)
  from Cons.IH [OF this] show ?case
    using Cons.prems by (simp add: kv get_insert map_add_def split: option.split)
qed simp

lemma get_insert_same: "ok m \<Longrightarrow> get (insert_at k v m) k = Some v"
  by (simp add: get_insert)

lemma get_insert_other: "ok m \<Longrightarrow> k' \<noteq> k \<Longrightarrow> get (insert_at k v m) k' = get m k'"
  by (simp add: get_insert)

end

section \<open>The ordered association list\<close>

type_synonym ('k, 'v) omap = "('k \<times> 'v) list"

definition omap_ok :: "('k::linorder, 'v) omap \<Rightarrow> bool" where
  "omap_ok m \<longleftrightarrow> ascending (map fst m)"

abbreviation omap_get :: "('k, 'v) omap \<Rightarrow> 'k \<Rightarrow> 'v option" where
  "omap_get \<equiv> map_of"

fun omap_insert :: "'k::linorder \<Rightarrow> 'v \<Rightarrow> ('k, 'v) omap \<Rightarrow> ('k, 'v) omap" where
  "omap_insert k v [] = [(k, v)]"
| "omap_insert k v ((k', v') # m) =
     (if k < k' then (k, v) # (k', v') # m
      else if k = k' then (k, v) # m
      else (k', v') # omap_insert k v m)"

definition omap_remove :: "'k \<Rightarrow> ('k, 'v) omap \<Rightarrow> ('k, 'v) omap" where
  "omap_remove k m = filter (\<lambda>(k', _). k' \<noteq> k) m"

text \<open>\<open>entry(k).or_default()\<close> followed by an update in place.\<close>

definition omap_entry :: "'k::linorder \<Rightarrow> 'v \<Rightarrow> ('v \<Rightarrow> 'v) \<Rightarrow> ('k, 'v) omap \<Rightarrow> ('k, 'v) omap" where
  "omap_entry k d f m = omap_insert k (f (case omap_get m k of None \<Rightarrow> d | Some v \<Rightarrow> v)) m"

definition omap_extend :: "('k::linorder, 'v) omap \<Rightarrow> ('k \<times> 'v) list \<Rightarrow> ('k, 'v) omap" where
  "omap_extend m kvs = fold (\<lambda>(k, v). omap_insert k v) kvs m"

text \<open>\<open>range(k..)\<close>.\<close>

definition omap_from :: "'k::linorder \<Rightarrow> ('k, 'v) omap \<Rightarrow> ('k, 'v) omap" where
  "omap_from k m = dropWhile (\<lambda>(k', _). k' < k) m"

lemma omap_keys_insert: "set (map fst (omap_insert k v m)) = insert k (set (map fst m))"
  by (induction k v m rule: omap_insert.induct) auto

lemma omap_fst_insert: "fst ` set (omap_insert k v m) = insert k (fst ` set m)"
  using omap_keys_insert [of k v m] by simp

lemma omap_ok_Nil [simp]: "omap_ok []"
  by (simp add: omap_ok_def)

lemma omap_ok_Cons: "omap_ok ((k, v) # m) \<longleftrightarrow> (\<forall>k' \<in> fst ` set m. k < k') \<and> omap_ok m"
  by (auto simp: omap_ok_def)

lemma omap_ok_insert: "omap_ok m \<Longrightarrow> omap_ok (omap_insert k v m)"
proof (induction k v m rule: omap_insert.induct)
  case (2 k v k' v' m)
  then show ?case
    by (auto simp: omap_ok_Cons omap_fst_insert)
qed (simp add: omap_ok_Cons)

lemma omap_get_insert:
  "omap_ok m \<Longrightarrow> omap_get (omap_insert k v m) k' = (if k' = k then Some v else omap_get m k')"
proof (induction k v m rule: omap_insert.induct)
  case (2 k v k0 v0 m)
  then show ?case
    by (auto simp: omap_ok_Cons)
qed simp

lemma omap_ok_filter: "omap_ok m \<Longrightarrow> omap_ok (filter P m)"
  unfolding omap_ok_def by (rule ascending_filter)

lemma omap_get_filter_key: "omap_get (filter (\<lambda>(k', _). k' \<noteq> k) m) k' = (if k' = k then None else omap_get m k')"
  by (induction m) auto

interpretation om: map_store "[]" omap_get omap_insert omap_remove omap_ok
  by unfold_locales
    (simp_all add: omap_get_insert omap_ok_insert omap_remove_def omap_ok_filter omap_get_filter_key)

lemmas omap_ok_remove = om.ok_remove
lemmas omap_get_remove = om.get_remove

section \<open>Derived laws\<close>

lemma omap_distinct: "omap_ok m \<Longrightarrow> distinct (map fst m)"
  unfolding omap_ok_def by (rule ascending_distinct)

lemma omap_get_iff: "omap_ok m \<Longrightarrow> omap_get m k = Some v \<longleftrightarrow> (k, v) \<in> set m"
  by (simp add: omap_distinct)

lemma omap_ok_entry: "omap_ok m \<Longrightarrow> omap_ok (omap_entry k d f m)"
  by (simp add: omap_entry_def omap_ok_insert)

lemma omap_get_entry:
  "omap_ok m \<Longrightarrow> omap_get (omap_entry k d f m) k' =
     (if k' = k then Some (f (case omap_get m k of None \<Rightarrow> d | Some v \<Rightarrow> v)) else omap_get m k')"
  by (simp add: omap_entry_def omap_get_insert)

lemma omap_ok_extend: "omap_ok m \<Longrightarrow> omap_ok (omap_extend m kvs)"
  unfolding omap_extend_def by (rule om.ok_fold)

lemma omap_get_extend:
  "omap_ok m \<Longrightarrow> omap_get (omap_extend m kvs) k =
     (case map_of (rev kvs) k of Some v \<Rightarrow> Some v | None \<Rightarrow> omap_get m k)"
  unfolding omap_extend_def by (rule om.get_fold)

lemma map_of_rev_distinct: "distinct (map fst kvs) \<Longrightarrow> map_of (rev kvs) = map_of kvs"
proof (rule ext)
  fix k
  assume d: "distinct (map fst kvs)"
  then have "distinct (map fst (rev kvs))"
    by (simp flip: rev_map)
  with d show "map_of (rev kvs) k = map_of kvs k"
    by (metis map_of_eq_Some_iff not_None_eq set_rev)
qed

lemma omap_get_extend_omap:
  "omap_ok m \<Longrightarrow> omap_ok m' \<Longrightarrow> omap_get (omap_extend m m') k =
     (case omap_get m' k of Some v \<Rightarrow> Some v | None \<Rightarrow> omap_get m k)"
  by (simp add: omap_get_extend map_of_rev_distinct omap_distinct)

lemma omap_ext:
  assumes "omap_ok m" and "omap_ok m'" and "\<And>k. omap_get m k = omap_get m' k"
  shows "m = m'"
proof -
  have "set m = set m'"
    using assms by (metis omap_get_iff subrelI subset_antisym)
  moreover from assms(1,2) have "sorted_wrt (\<lambda>x y. fst x < fst y) m" "sorted_wrt (\<lambda>x y. fst x < fst y) m'"
    by (simp_all add: omap_ok_def sorted_wrt_map)
  ultimately show ?thesis
    by (metis (no_types, lifting) assms(1,2) ascending_eqI distinct_map map_inj_on
        omap_distinct omap_ok_def set_map sup.idem)
qed

lemma omap_extend_Nil_id: "omap_ok m \<Longrightarrow> omap_extend [] m = m"
  by (rule omap_ext) (simp_all add: omap_ok_extend omap_get_extend_omap split: option.split)

lemma omap_extend_keys: "set (map fst (omap_extend m kvs)) = set (map fst m) \<union> set (map fst kvs)"
  unfolding omap_extend_def
proof (induction kvs arbitrary: m)
  case (Cons kv kvs)
  then show ?case by (cases kv) (auto simp: omap_fst_insert)
qed simp

lemma omap_insert_last:
  "(\<And>k'. k' \<in> fst ` set m \<Longrightarrow> k' < k) \<Longrightarrow> omap_insert k v m = m @ [(k, v)]"
  by (induction k v m rule: omap_insert.induct) force+

text \<open>Collecting an ascending sequence of entries is the identity: the disk reader rebuilds maps
  this way.\<close>

lemma omap_extend_ascending:
  "omap_ok (m @ kvs) \<Longrightarrow> omap_extend m kvs = m @ kvs"
proof (induction kvs arbitrary: m)
  case Nil
  then show ?case by (simp add: omap_extend_def)
next
  case (Cons kv kvs)
  obtain k v where kv: "kv = (k, v)" by (cases kv)
  from Cons.prems have "omap_insert k v m = m @ [(k, v)]"
    by (intro omap_insert_last) (auto simp: kv omap_ok_def sorted_wrt_append)
  with Cons.IH [of "m @ [(k, v)]"] Cons.prems show ?case
    by (simp add: omap_extend_def kv)
qed

lemma omap_from_filter: "omap_ok m \<Longrightarrow> omap_from k m = filter (\<lambda>(k', _). k \<le> k') m"
proof (induction m)
  case (Cons e m)
  obtain k0 v0 where e: "e = (k0, v0)" by (cases e)
  show ?case
  proof (cases "k0 < k")
    case True
    with Cons show ?thesis by (simp add: omap_from_def e omap_ok_Cons)
  next
    case False
    with Cons.prems have "\<forall>x \<in> set m. k \<le> fst x"
      by (force simp: e omap_ok_Cons)
    with False show ?thesis
      by (auto simp: omap_from_def e intro!: filter_True [symmetric])
  qed
qed (simp add: omap_from_def)

section \<open>Merging\<close>

text \<open>Going through the entries of a newer map and combining each with the older map's: the
  \<open>Occupied\<close> and \<open>Vacant\<close> arms of an \<open>entry\<close> match.\<close>

definition omap_merge :: "('v \<Rightarrow> 'v \<Rightarrow> 'v) \<Rightarrow> ('k::linorder, 'v) omap \<Rightarrow> ('k, 'v) omap \<Rightarrow> ('k, 'v) omap" where
  "omap_merge c newer m =
     fold (\<lambda>(k, v) m. omap_insert k (case omap_get m k of None \<Rightarrow> v | Some old \<Rightarrow> c old v) m) newer m"

lemma omap_ok_merge: "omap_ok m \<Longrightarrow> omap_ok (omap_merge c newer m)"
  unfolding omap_merge_def
  by (induction newer arbitrary: m) (auto simp: omap_ok_insert)

lemma omap_get_merge:
  assumes "omap_ok m" and "distinct (map fst newer)"
  shows "omap_get (omap_merge c newer m) k =
    (case omap_get newer k of None \<Rightarrow> omap_get m k
     | Some v \<Rightarrow> Some (case omap_get m k of None \<Rightarrow> v | Some old \<Rightarrow> c old v))"
  using assms
proof (induction newer arbitrary: m)
  case (Cons e newer)
  obtain k0 v0 where e: "e = (k0, v0)" by (cases e)
  let ?m = "omap_insert k0 (case omap_get m k0 of None \<Rightarrow> v0 | Some old \<Rightarrow> c old v0) m"
  have "omap_get (omap_merge c (e # newer) m) k = omap_get (omap_merge c newer ?m) k"
    by (simp add: omap_merge_def e)
  moreover have "omap_get newer k0 = None"
    using Cons.prems(2) by (simp add: e map_of_eq_None_iff)
  ultimately show ?case
    using Cons.IH [of ?m] Cons.prems by (auto simp: e omap_ok_insert omap_get_insert split: option.split)
qed (simp add: omap_merge_def)

lemma omap_merge_Nil: "omap_ok newer \<Longrightarrow> omap_merge c newer [] = newer"
  by (rule omap_ext) (simp_all add: omap_ok_merge omap_get_merge omap_distinct split: option.split)

lemma omap_merge_entry:
  assumes "\<And>k v old. (k, v) \<in> set newer \<Longrightarrow> g v old = c old v" and "\<And>k v. (k, v) \<in> set newer \<Longrightarrow> c e v = v"
  shows "fold (\<lambda>(k, v). omap_entry k e (g v)) newer m = omap_merge c newer m"
  unfolding omap_merge_def omap_entry_def
  by (rule fold_cong) (auto simp: fun_eq_iff assms split: option.split)

end
