(* ===== verification/Ids.thy ===== *)
theory Ids
  imports Ordered_Map
begin

text \<open>
  \<^verbatim>\<open>crates/core-index/src/types.rs\<close> and \<^verbatim>\<open>hash.rs\<close>: packed token positions, packed document
  ids, dictionary keys and per-field statistics.
\<close>

unbundle bit_operations_syntax

type_synonym position = u32
type_synonym xpath_id = u32
type_synonym array_row_id = u64
type_synonym local_doc_id = u64
type_synonym shard_id = u16

section \<open>Dictionary keys\<close>

datatype term_key = TermKey (key_xpath: xpath_id) (key_term: string)

text \<open>The derived order: by field, then by term.\<close>

instantiation term_key :: linorder
begin

definition less_eq_term_key :: "term_key \<Rightarrow> term_key \<Rightarrow> bool" where
  "less_eq_term_key a b \<longleftrightarrow> (key_xpath a, key_term a) \<le> (key_xpath b, key_term b)"

definition less_term_key :: "term_key \<Rightarrow> term_key \<Rightarrow> bool" where
  "less_term_key a b \<longleftrightarrow> (key_xpath a, key_term a) < (key_xpath b, key_term b)"

instance
proof
  fix a b c :: term_key
  show "a < b \<longleftrightarrow> a \<le> b \<and> \<not> b \<le> a"
    by (auto simp: less_eq_term_key_def less_term_key_def)
  show "a \<le> a"
    by (simp add: less_eq_term_key_def)
  show "a \<le> b \<Longrightarrow> b \<le> c \<Longrightarrow> a \<le> c"
    unfolding less_eq_term_key_def by (rule order_trans)
  show "a \<le> b \<Longrightarrow> b \<le> a \<Longrightarrow> a = b"
    unfolding less_eq_term_key_def
    by (metis order_antisym prod.inject term_key.collapse)
  show "a \<le> b \<or> b \<le> a"
    by (auto simp: less_eq_term_key_def)
qed

end

lemma term_key_less [simp]:
  "TermKey x s < TermKey y t \<longleftrightarrow> x < y \<or> x = y \<and> s < t"
  by (auto simp: less_term_key_def)

lemma term_key_le [simp]:
  "TermKey x s \<le> TermKey y t \<longleftrightarrow> x < y \<or> x = y \<and> s \<le> t"
  by (auto simp: less_eq_term_key_def)

section \<open>Token positions\<close>

definition SPAN_BITS :: nat where
  "SPAN_BITS = 4"

definition MAX_SPAN :: u32 where
  "MAX_SPAN = push_bit SPAN_BITS 1"

definition encode_position :: "u32 \<Rightarrow> u32 \<Rightarrow> position" where
  "encode_position start span =
     push_bit SPAN_BITS (min start (drop_bit SPAN_BITS (- 1))) OR (max 1 (min span MAX_SPAN) - 1)"

definition position_start :: "position \<Rightarrow> u32" where
  "position_start p = drop_bit SPAN_BITS p"

definition position_span :: "position \<Rightarrow> u32" where
  "position_span p = (p AND (MAX_SPAN - 1)) + 1"

section \<open>Field statistics\<close>

record field_stats =
  doc_count :: u64
  total_doc_len :: u64

definition field_stats_default :: field_stats where
  "field_stats_default = \<lparr>doc_count = 0, total_doc_len = 0\<rparr>"

definition field_stats_add :: "field_stats \<Rightarrow> field_stats \<Rightarrow> field_stats" where
  "field_stats_add s other =
     \<lparr>doc_count = doc_count s + doc_count other,
      total_doc_len = total_doc_len s + total_doc_len other\<rparr>"

section \<open>Document ids\<close>

definition SHARD_BITS :: nat where
  "SHARD_BITS = 16"

definition LOCAL_BITS :: nat where
  "LOCAL_BITS = 48"

definition MAX_LOCAL_DOC_ID :: local_doc_id where
  "MAX_LOCAL_DOC_ID = push_bit LOCAL_BITS 1 - 1"

text \<open>\<open>None\<close> is the failed assertion on an out-of-range local id.\<close>

definition make_doc_id :: "shard_id \<Rightarrow> local_doc_id \<Rightarrow> u64 option" where
  "make_doc_id shard loc =
     (if loc \<le> MAX_LOCAL_DOC_ID then Some (push_bit LOCAL_BITS (ucast shard) OR loc) else None)"

definition shard_of :: "u64 \<Rightarrow> shard_id" where
  "shard_of doc = ucast (drop_bit LOCAL_BITS doc)"

definition local_of :: "u64 \<Rightarrow> local_doc_id" where
  "local_of doc = doc AND (push_bit LOCAL_BITS 1 - 1)"

text \<open>\<open>ShardId::try_from(usize)\<close>.\<close>

definition shard_id_try_from :: "nat \<Rightarrow> shard_id option" where
  "shard_id_try_from v = (if v < 65536 then Some (word_of_nat v) else None)"

section \<open>The stable hash\<close>

definition FNV_OFFSET_BASIS :: u64 where
  "FNV_OFFSET_BASIS = 0xcbf29ce484222325"

definition FNV_PRIME :: u64 where
  "FNV_PRIME = 0x100000001b3"

definition fnv1a64 :: "u8 list \<Rightarrow> u64" where
  "fnv1a64 bytes = foldl (\<lambda>hash byte. (hash XOR ucast byte) * FNV_PRIME) FNV_OFFSET_BASIS bytes"

definition xorshift33 :: "u64 \<Rightarrow> u64" where
  "xorshift33 v = v XOR drop_bit 33 v"

definition fmix64 :: "u64 \<Rightarrow> u64" where
  "fmix64 value =
     xorshift33 (xorshift33 (xorshift33 value * 0xff51afd7ed558ccd) * 0xc4ceb9fe1a85ec53)"

definition stable_hash64 :: "u8 list \<Rightarrow> u64" where
  "stable_hash64 bytes = fmix64 (fnv1a64 bytes)"

section \<open>Properties\<close>

lemma span_minus_one_lt: "max 1 (min span 16) - 1 < (16 :: u32)"
  by (simp add: max_def min_def) (unat_arith)

lemma mask_28: "mask 28 = (0xfffffff :: u32)"
  by (simp add: mask_eq_exp_minus_1)

lemma drop_bit_max: "drop_bit 4 (- 1 :: u32) = 0xfffffff"
  by (simp add: mask_eq_exp_minus_1)

lemma position_start_encode:
  "position_start (encode_position start span) = min start 0xfffffff"
proof -
  have a: "min start 0xfffffff = take_bit 28 (min start (0xfffffff :: u32))"
    by (rule take_bit_self [symmetric]) (simp add: min_def word_le_nat_alt)
  have b: "max 1 (min span 16) - 1 = take_bit 4 (max 1 (min span 16) - (1 :: u32))"
    using span_minus_one_lt [of span] by (intro take_bit_self [symmetric]) (simp add: word_less_nat_alt)
  from drop_push_or [OF a b] show ?thesis
    by (simp add: position_start_def encode_position_def SPAN_BITS_def MAX_SPAN_def mask_28)
qed

lemma position_span_encode: "position_span (encode_position start span) = max 1 (min span 16)"
proof -
  have b: "max 1 (min span 16) - 1 = take_bit 4 (max 1 (min span 16) - (1 :: u32))"
    using span_minus_one_lt [of span] by (intro take_bit_self [symmetric]) (simp add: word_less_nat_alt)
  have "take_bit 4 (encode_position start span) = max 1 (min span 16) - 1"
    unfolding encode_position_def SPAN_BITS_def MAX_SPAN_def
    using take_push_or [OF b] by simp
  moreover have "x AND 15 = take_bit 4 x" for x :: u32
    by (simp add: take_bit_eq_mask mask_eq_exp_minus_1)
  ultimately show ?thesis
    by (simp add: position_span_def SPAN_BITS_def MAX_SPAN_def)
qed

lemma encode_position_order:
  assumes "s < s'" and "s' \<le> 0xfffffff"
  shows "encode_position s n < encode_position s' n'"
proof (rule ccontr)
  assume "\<not> encode_position s n < encode_position s' n'"
  then have "drop_bit 4 (encode_position s' n') \<le> drop_bit 4 (encode_position s n)"
    by (simp add: word_le_nat_alt unat_drop_bit_eq drop_bit_nat_def div_le_mono not_less
        del: drop_bit_word_numeral flip: drop_bit_eq_div)
  then have "position_start (encode_position s' n') \<le> position_start (encode_position s n)"
    by (simp add: position_start_def SPAN_BITS_def)
  with assms show False
    by (simp add: position_start_encode min_def split: if_splits)
qed

text \<open>Packing a token position loses nothing but what the comment in the source says: the start
  comes back capped at \<open>2^28 - 1\<close>, the span clamped to 1..16, and packed positions of tokens
  with different (uncapped) starts compare as their starts do.\<close>

theorem position_packing:
  "position_start (encode_position start span) = min start 0xfffffff
   \<and> position_span (encode_position start span) = max 1 (min span 16)
   \<and> (start < start' \<longrightarrow> start' \<le> 0xfffffff \<longrightarrow>
        encode_position start span < encode_position start' span')"
  by (simp add: position_start_encode position_span_encode encode_position_order)

theorem position_packing_witness:
  "encode_position 3 2 < encode_position 4 1 \<and> position_span (encode_position 3 2) = 2"
  using position_packing [of 3 2 4 1] by simp

lemma max_local: "MAX_LOCAL_DOC_ID = 0xffffffffffff"
  by (simp add: MAX_LOCAL_DOC_ID_def LOCAL_BITS_def)

lemma make_doc_id_parts:
  assumes "make_doc_id shard loc = Some doc"
  shows "shard_of doc = shard \<and> local_of doc = loc"
proof -
  from assms have loc: "loc \<le> 0xffffffffffff" and doc: "doc = push_bit 48 (ucast shard) OR loc"
    by (auto simp: make_doc_id_def max_local LOCAL_BITS_def split: if_splits)
  have a: "ucast shard = take_bit 16 (ucast shard :: u64)"
    by (rule take_bit_self [symmetric]) (use unat_u16_lt [of shard] in \<open>simp add: unat_ucast_up\<close>)
  have b: "loc = take_bit 48 loc"
    using loc by (intro take_bit_self [symmetric]) (simp add: word_le_nat_alt)
  have "drop_bit 48 doc = ucast shard"
    using drop_push_or [OF a b] doc by simp
  moreover have "take_bit 48 doc = loc"
    using take_push_or [OF b] doc by simp
  moreover have "doc AND 0xffffffffffff = take_bit 48 doc"
    by (simp add: take_bit_eq_mask mask_eq_exp_minus_1)
  moreover have "ucast (ucast shard :: u64) = shard"
    by (rule unat_word_eqI) (use unat_u16_lt [of shard] in \<open>simp add: unat_ucast_up\<close>)
  ultimately show ?thesis
    by (simp add: shard_of_def local_of_def LOCAL_BITS_def)
qed


lemma make_doc_id_mono:
  assumes "make_doc_id shard a = Some x" and "make_doc_id shard b = Some y" and "a < b"
  shows "x < y"
proof -
  have lim: "a \<le> 0xffffffffffff" "b \<le> 0xffffffffffff"
    using assms by (auto simp: make_doc_id_def max_local split: if_splits)
  have plus: "push_bit 48 (ucast shard) OR l = push_bit 48 (ucast shard) + l"
    if "l \<le> 0xffffffffffff" for l :: u64
  proof (rule disjunctive_add [symmetric])
    from that have "take_bit 48 l = l"
      by (intro take_bit_self) (simp add: word_le_nat_alt)
    then show "\<not> bit (push_bit 48 (ucast shard :: u64)) n \<or> \<not> bit l n" for n
      by (metis bit_push_bit_iff bit_take_bit_iff linorder_not_less)
  qed
  have "unat (push_bit 48 (ucast shard) + l :: u64) = unat shard * 2 ^ 48 + unat l"
    if "l \<le> 0xffffffffffff" for l :: u64
  proof -
    have "unat (ucast shard :: u64) = unat shard"
      by (rule unat_ucast_up) (use unat_u16_lt [of shard] in simp)
    then show ?thesis
      using that unat_u16_lt [of shard]
      by (simp add: push_bit_eq_mult unat_word_ariths word_le_nat_alt)
  qed
  with assms lim plus show ?thesis
    by (auto simp: make_doc_id_def LOCAL_BITS_def word_less_nat_alt split: if_splits)
qed

text \<open>A packed document id gives back the shard and the shard-local id it was made from, and
  ids of one shard compare as their local ids do.\<close>

theorem make_doc_id_round_trip:
  assumes "make_doc_id shard loc = Some doc"
  shows "shard_of doc = shard \<and> local_of doc = loc
    \<and> (\<forall>loc' doc'. make_doc_id shard loc' = Some doc' \<longrightarrow> loc < loc' \<longrightarrow> doc < doc')"
  using assms make_doc_id_parts make_doc_id_mono by blast

theorem make_doc_id_round_trip_witness:
  "make_doc_id 3 7 = Some 0x3000000000007
   \<and> shard_of 0x3000000000007 = 3 \<and> local_of 0x3000000000007 = 7"
proof -
  have "make_doc_id 3 7 = Some 0x3000000000007"
    by (simp add: make_doc_id_def max_local LOCAL_BITS_def)
  with make_doc_id_round_trip [OF this] show ?thesis by simp
qed

lemma xorshift33_involution: "xorshift33 (xorshift33 v) = v"
proof -
  have "drop_bit 33 (drop_bit 33 v) = 0"
    by (intro bit_word_eqI) (auto simp: bit_simps dest: bit_imp_le_length)
  then show ?thesis
    by (simp add: xorshift33_def drop_bit_xor xor.assoc)
qed

text \<open>The inverse of the finaliser.\<close>

definition unmix64 :: "u64 \<Rightarrow> u64" where
  "unmix64 v = xorshift33 (xorshift33 (xorshift33 v * 0x9cb4b2f8129337db) * 0x4f74430c22a54005)"

lemma mult_inverse_cancel: "c * d = 1 \<Longrightarrow> v * c * d = v" for v :: u64
  by (simp add: mult.assoc)

lemma murmur_mult_inverse:
  "v * 0xff51afd7ed558ccd * 0x4f74430c22a54005 = (v :: u64)"
  "v * 0xc4ceb9fe1a85ec53 * 0x9cb4b2f8129337db = (v :: u64)"
  "v * 0x4f74430c22a54005 * 0xff51afd7ed558ccd = (v :: u64)"
  "v * 0x9cb4b2f8129337db * 0xc4ceb9fe1a85ec53 = (v :: u64)"
  by (rule mult_inverse_cancel, code_simp)+

lemma unmix_fmix: "unmix64 (fmix64 v) = v"
  unfolding unmix64_def fmix64_def xorshift33_involution murmur_mult_inverse ..

lemma fmix_unmix: "fmix64 (unmix64 v) = v"
  unfolding unmix64_def fmix64_def xorshift33_involution murmur_mult_inverse ..

text \<open>The finaliser of the stable hash is a bijection on 64-bit words, so it merges no two
  FNV values.\<close>

theorem fmix64_bijective: "bij fmix64"
  by (rule bijI') (metis unmix_fmix, metis fmix_unmix)

end
