(* ===== verification/Posting_List.thy ===== *)
theory Posting_List
  imports Ids
begin

text \<open>
  \<^verbatim>\<open>crates/core-index/src/posting/item.rs\<close> and \<^verbatim>\<open>list.rs\<close>: postings and posting lists, with the
  invariant every operation keeps and the reference definition (group by document, unite the
  positions, take the largest weight) the merging constructors implement.
\<close>

section \<open>Postings\<close>

record posting =
  doc_id :: u64
  positions :: "position list"
  weight :: u16

definition posting_new :: "u64 \<Rightarrow> position list \<Rightarrow> posting" where
  "posting_new d ps = \<lparr>doc_id = d, positions = ps, weight = 0\<rparr>"

definition with_weight :: "u64 \<Rightarrow> position list \<Rightarrow> u16 \<Rightarrow> posting" where
  "with_weight d ps w = \<lparr>doc_id = d, positions = ps, weight = w\<rparr>"

lemma with_weight_sel [simp]:
  "doc_id (with_weight d ps w) = d"
  "positions (with_weight d ps w) = ps"
  "weight (with_weight d ps w) = w"
  by (simp_all add: with_weight_def)

section \<open>Posting lists\<close>

record posting_list =
  items :: "posting list"
  max_weight :: u16

definition pl_new :: posting_list where
  "pl_new = \<lparr>items = [], max_weight = 0\<rparr>"

text \<open>\<open>iter().map(|p| p.weight).max().unwrap_or(0)\<close>.\<close>

definition largest_weight :: "posting list \<Rightarrow> u16" where
  "largest_weight ps = fold max (map weight ps) 0"

definition extend_positions_sorted :: "position list \<Rightarrow> position list \<Rightarrow> position list" where
  "extend_positions_sorted ps extra =
     (if ps = [] \<or> (extra \<noteq> [] \<and> last ps \<le> hd extra) then ps @ extra
      else remdups_adj (sort (ps @ extra)))"

definition merge_posting :: "posting \<Rightarrow> posting \<Rightarrow> posting" where
  "merge_posting p item =
     p\<lparr>positions := remdups_adj (sort (positions p @ positions item)),
       weight := max (weight p) (weight item)\<rparr>"

definition push_merged :: "posting list \<Rightarrow> posting \<Rightarrow> posting list" where
  "push_merged merged item =
     (if merged \<noteq> [] \<and> doc_id (last merged) = doc_id item
      then butlast merged @ [merge_posting (last merged) item]
      else merged @ [item])"

fun has_duplicates :: "posting list \<Rightarrow> bool" where
  "has_duplicates (p # q # ps) \<longleftrightarrow> doc_id p = doc_id q \<or> has_duplicates (q # ps)"
| "has_duplicates _ \<longleftrightarrow> False"

definition from_sorted :: "posting list \<Rightarrow> posting_list" where
  "from_sorted xs =
     (if \<not> has_duplicates xs then \<lparr>items = xs, max_weight = largest_weight xs\<rparr>
      else let merged = foldl push_merged [] xs
           in \<lparr>items = merged, max_weight = largest_weight merged\<rparr>)"

definition from_sorted_with_max_weight :: "posting list \<Rightarrow> u16 \<Rightarrow> posting_list" where
  "from_sorted_with_max_weight xs w = \<lparr>items = xs, max_weight = w\<rparr>"

definition from_items :: "posting list \<Rightarrow> posting_list" where
  "from_items xs =
     from_sorted (if sorted (map doc_id xs) then xs else sort_key doc_id xs)"

text \<open>
  \<open>insert\<close> and \<open>insert_posting\<close> share their shape: extend the posting of the document if there
  is one (looking at the last posting first), otherwise put a new posting where the document
  belongs.  \<open>upd\<close> is how the positions of an existing posting grow.
\<close>

definition pl_upsert :: "u64 \<Rightarrow> (position list \<Rightarrow> position list) \<Rightarrow> position list \<Rightarrow> u16 \<Rightarrow>
    posting list \<Rightarrow> posting list" where
  "pl_upsert d upd ps w xs =
     (let touch = (\<lambda>p. p\<lparr>positions := upd (positions p), weight := max (weight p) w\<rparr>)
      in if xs \<noteq> [] \<and> doc_id (last xs) = d then butlast xs @ [touch (last xs)]
         else if xs \<noteq> [] \<and> doc_id (last xs) < d then xs @ [with_weight d ps w]
         else case binary_search_by_key d doc_id xs of
             Inr i \<Rightarrow> xs[i := touch (xs ! i)]
           | Inl i \<Rightarrow> vec_insert i (with_weight d ps w) xs)"

definition pl_insert :: "posting_list \<Rightarrow> u64 \<Rightarrow> position \<Rightarrow> u16 \<Rightarrow> posting_list" where
  "pl_insert l d pos w =
     \<lparr>items = pl_upsert d (\<lambda>ps. ps @ [pos]) [pos] w (items l),
      max_weight = max (max_weight l) w\<rparr>"

definition pl_retain :: "(posting \<Rightarrow> bool) \<Rightarrow> posting_list \<Rightarrow> posting_list" where
  "pl_retain keep l = l\<lparr>items := filter keep (items l)\<rparr>"

definition insert_posting :: "posting_list \<Rightarrow> u64 \<Rightarrow> position list \<Rightarrow> u16 \<Rightarrow> posting_list" where
  "insert_posting l d ps w =
     (if ps = [] then l
      else let ps' = remdups_adj (sort ps)
           in \<lparr>items = pl_upsert d (\<lambda>old. extend_positions_sorted old ps') ps' w (items l),
               max_weight = max (max_weight l) w\<rparr>)"

definition pl_len :: "posting_list \<Rightarrow> nat" where
  "pl_len l = length (items l)"

definition pl_is_empty :: "posting_list \<Rightarrow> bool" where
  "pl_is_empty l \<longleftrightarrow> items l = []"

definition pl_append :: "posting_list \<Rightarrow> posting_list \<Rightarrow> posting_list" where
  "pl_append l other =
     (if items other = [] then l
      else if items l = [] then other
      else if doc_id (last (items l)) < doc_id (hd (items other))
      then \<lparr>items = items l @ items other, max_weight = max (max_weight l) (max_weight other)\<rparr>
      else from_items (items l @ items other))"

section \<open>Invariant and abstraction\<close>

definition pl_ok :: "posting_list \<Rightarrow> bool" where
  "pl_ok l \<longleftrightarrow> ascending (map doc_id (items l)) \<and> (\<forall>p \<in> set (items l). weight p \<le> max_weight l)"

text \<open>Positions of every posting in ascending order, as the delta encoder of the disk writer
  needs them.\<close>

definition positions_ok :: "posting list \<Rightarrow> bool" where
  "positions_ok ps \<longleftrightarrow> (\<forall>p \<in> set ps. sorted (positions p))"

text \<open>What a list of postings says: the documents, the occurrences, the weights.\<close>

definition docs :: "posting list \<Rightarrow> u64 set" where
  "docs ps = doc_id ` set ps"

definition hits :: "posting list \<Rightarrow> (u64 \<times> position) set" where
  "hits ps = (\<Union>p \<in> set ps. Pair (doc_id p) ` set (positions p))"

definition weights_at :: "posting list \<Rightarrow> u64 \<Rightarrow> u16 set" where
  "weights_at ps d = {weight p | p. p \<in> set ps \<and> doc_id p = d}"

text \<open>The reference merge: one posting per document, ascending; a document that occurs once keeps
  its posting, otherwise the positions are united and the largest weight wins.\<close>

definition combine :: "posting list \<Rightarrow> posting" where
  "combine ps = foldl merge_posting (hd ps) (tl ps)"

definition merge_by_doc :: "posting list \<Rightarrow> posting list" where
  "merge_by_doc ps = map (\<lambda>d. combine (filter (\<lambda>p. doc_id p = d) ps)) (sort_dedup (map doc_id ps))"

section \<open>The merging constructors\<close>

lemma largest_weight_ge: "p \<in> set ps \<Longrightarrow> weight p \<le> largest_weight ps"
  by (simp add: largest_weight_def fold_max_ge)

lemma docs_iff: "d \<in> docs ps \<longleftrightarrow> (\<exists>p \<in> set ps. doc_id p = d)"
  by (auto simp: docs_def)

lemma hits_iff: "(d, q) \<in> hits ps \<longleftrightarrow> (\<exists>p \<in> set ps. doc_id p = d \<and> q \<in> set (positions p))"
  by (auto simp: hits_def)

lemma docs_simps [simp]:
  "docs [] = {}"
  "docs (p # ps) = insert (doc_id p) (docs ps)"
  "docs (ps @ qs) = docs ps \<union> docs qs"
  by (auto simp: docs_def)

lemma hits_simps [simp]:
  "hits [] = {}"
  "hits (p # ps) = Pair (doc_id p) ` set (positions p) \<union> hits ps"
  "hits (ps @ qs) = hits ps \<union> hits qs"
  by (auto simp: hits_def)

lemma weights_at_simps [simp]:
  "weights_at [] d = {}"
  "weights_at (p # ps) d = (if doc_id p = d then {weight p} else {}) \<union> weights_at ps d"
  "weights_at (ps @ qs) d = weights_at ps d \<union> weights_at qs d"
  by (auto simp: weights_at_def)

lemma merge_posting_sel [simp]:
  "doc_id (merge_posting p q) = doc_id p"
  "positions (merge_posting p q) = sort_dedup (positions p @ positions q)"
  "weight (merge_posting p q) = max (weight p) (weight q)"
  by (simp_all add: merge_posting_def sort_dedup_def)

lemma combine_snoc: "ps \<noteq> [] \<Longrightarrow> combine (ps @ [p]) = merge_posting (combine ps) p"
  by (simp add: combine_def)

lemma combine_single [simp]: "combine [p] = p"
  by (simp add: combine_def)

lemma combine_doc_id: "ps \<noteq> [] \<Longrightarrow> doc_id (combine ps) = doc_id (hd ps)"
  by (induction ps rule: rev_nonempty_induct) (simp_all add: combine_snoc hd_append)

lemma combine_positions: "ps \<noteq> [] \<Longrightarrow> set (positions (combine ps)) = (\<Union>p \<in> set ps. set (positions p))"
  by (induction ps rule: rev_nonempty_induct) (simp_all add: combine_snoc Un_commute)

lemma combine_weight: "ps \<noteq> [] \<Longrightarrow> weight (combine ps) = Max (weight ` set ps)"
  by (induction ps rule: rev_nonempty_induct) (simp_all add: combine_snoc max.commute)

lemma merge_by_doc_snoc_new:
  assumes "\<And>q. q \<in> set ps \<Longrightarrow> doc_id q \<le> doc_id p" and "doc_id p \<notin> docs ps"
  shows "merge_by_doc (ps @ [p]) = merge_by_doc ps @ [p]"
proof -
  have sd: "sort_dedup (map doc_id ps @ [doc_id p]) = sort_dedup (map doc_id ps) @ [doc_id p]"
    using assms by (subst sort_dedup_snoc_max) (auto simp: docs_def)
  have none: "filter (\<lambda>q. doc_id q = doc_id p) ps = []"
    using assms(2) by (auto simp: docs_iff filter_empty_conv)
  have "map (\<lambda>d. combine (filter (\<lambda>q. doc_id q = d) (ps @ [p]))) (sort_dedup (map doc_id ps))
      = map (\<lambda>d. combine (filter (\<lambda>q. doc_id q = d) ps)) (sort_dedup (map doc_id ps))"
    using assms(2) by (intro map_cong) (auto simp: docs_iff)
  with none show ?thesis
    by (simp add: merge_by_doc_def sd)
qed

lemma merge_by_doc_snoc_old:
  assumes "\<And>q. q \<in> set ps \<Longrightarrow> doc_id q \<le> doc_id p" and "doc_id p \<in> docs ps"
  shows "merge_by_doc ps = butlast (merge_by_doc ps) @ [combine (filter (\<lambda>q. doc_id q = doc_id p) ps)]"
    and "merge_by_doc (ps @ [p]) =
      butlast (merge_by_doc ps) @ [merge_posting (combine (filter (\<lambda>q. doc_id q = doc_id p) ps)) p]"
proof -
  let ?ds = "sort_dedup (map doc_id ps)"
  have last: "?ds = butlast ?ds @ [doc_id p]"
    using assms by (intro sort_dedup_last) (auto simp: docs_def)
  have sd: "sort_dedup (map doc_id ps @ [doc_id p]) = ?ds"
    using assms by (subst sort_dedup_snoc_max) (auto simp: docs_def)
  have fresh: "doc_id p \<notin> set (butlast ?ds)"
    using ascending_distinct [OF ascending_sort_dedup, of "map doc_id ps"] last
    by (metis distinct_append disjoint_iff list.set_intros(1))
  have old: "filter (\<lambda>q. doc_id q = doc_id p) ps \<noteq> []"
    using assms(2) by (auto simp: docs_def filter_empty_conv)
  show 1: "merge_by_doc ps = butlast (merge_by_doc ps) @ [combine (filter (\<lambda>q. doc_id q = doc_id p) ps)]"
    unfolding merge_by_doc_def by (subst (1 2) last) simp
  have same: "map (\<lambda>d. combine (filter (\<lambda>q. doc_id q = d) (ps @ [p]))) (butlast ?ds)
      = map (\<lambda>d. combine (filter (\<lambda>q. doc_id q = d) ps)) (butlast ?ds)"
    using fresh by (intro map_cong) auto
  have "merge_by_doc (ps @ [p]) = map (\<lambda>d. combine (filter (\<lambda>q. doc_id q = d) (ps @ [p]))) (butlast ?ds @ [doc_id p])"
    using last by (simp add: merge_by_doc_def sd)
  also have "\<dots> = butlast (merge_by_doc ps) @ [merge_posting (combine (filter (\<lambda>q. doc_id q = doc_id p) ps)) p]"
    using old same by (simp add: merge_by_doc_def combine_snoc map_butlast)
  finally show "merge_by_doc (ps @ [p]) =
      butlast (merge_by_doc ps) @ [merge_posting (combine (filter (\<lambda>q. doc_id q = doc_id p) ps)) p]" .
qed

lemma doc_ids_merge_by_doc: "map doc_id (merge_by_doc ps) = sort_dedup (map doc_id ps)"
proof -
  have "doc_id (combine (filter (\<lambda>p. doc_id p = d) ps)) = d" if "d \<in> doc_id ` set ps" for d
  proof -
    from that have ne: "filter (\<lambda>p. doc_id p = d) ps \<noteq> []"
      by (auto simp: filter_empty_conv)
    from hd_in_set [OF this] combine_doc_id [OF this] show ?thesis by simp
  qed
  then show ?thesis
    by (auto simp: merge_by_doc_def intro!: map_idI)
qed

lemma foldl_push_merged:
  "sorted (map doc_id ps) \<Longrightarrow> foldl push_merged [] ps = merge_by_doc ps"
proof (induction ps rule: rev_induct)
  case Nil
  then show ?case by (simp add: merge_by_doc_def sort_dedup_def)
next
  case (snoc p ps)
  then have IH: "foldl push_merged [] ps = merge_by_doc ps"
    and le: "\<And>q. q \<in> set ps \<Longrightarrow> doc_id q \<le> doc_id p"
    by (auto simp: sorted_append)
  have step: "foldl push_merged [] (ps @ [p]) = push_merged (merge_by_doc ps) p"
    by (simp add: IH)
  show ?case
  proof (cases "doc_id p \<in> docs ps")
    case True
    note old = merge_by_doc_snoc_old [OF le True]
    let ?c = "combine (filter (\<lambda>q. doc_id q = doc_id p) ps)"
    have l: "last (merge_by_doc ps) = ?c" and ne: "merge_by_doc ps \<noteq> []"
      using old(1) by (metis last_snoc, metis append_is_Nil_conv list.distinct(1))
    have "doc_id ?c = doc_id p"
      using arg_cong [OF old(1), of "map doc_id"] doc_ids_merge_by_doc [of ps] sort_dedup_last [of "map doc_id ps" "doc_id p"] le True
      by (auto simp: docs_def)
    with l ne show ?thesis
      unfolding step by (simp add: push_merged_def old(2))
  next
    case False
    have "doc_id (last (merge_by_doc ps)) \<noteq> doc_id p" if "merge_by_doc ps \<noteq> []"
    proof -
      have "doc_id (last (merge_by_doc ps)) \<in> set (map doc_id (merge_by_doc ps))"
        using that by simp
      then have "doc_id (last (merge_by_doc ps)) \<in> docs ps"
        by (simp only: doc_ids_merge_by_doc set_sort_dedup set_map docs_def)
      with False show ?thesis by metis
    qed
    then show ?thesis
      unfolding step using merge_by_doc_snoc_new [OF le False] by (auto simp: push_merged_def)
  qed
qed

lemma no_duplicates_ascending:
  "sorted (map doc_id ps) \<Longrightarrow> \<not> has_duplicates ps \<Longrightarrow> ascending (map doc_id ps)"
  by (induction ps rule: has_duplicates.induct) (auto simp: order.strict_iff_order)

lemma merge_by_doc_ascending: "ascending (map doc_id ps) \<Longrightarrow> merge_by_doc ps = ps"
proof (induction ps rule: rev_induct)
  case Nil
  then show ?case by (simp add: merge_by_doc_def)
next
  case (snoc p ps)
  then show ?case
    by (subst merge_by_doc_snoc_new) (auto simp: sorted_wrt_append docs_def)
qed

lemma items_from_sorted: "sorted (map doc_id ps) \<Longrightarrow> items (from_sorted ps) = merge_by_doc ps"
  by (simp add: from_sorted_def foldl_push_merged merge_by_doc_ascending no_duplicates_ascending Let_def)

lemma max_weight_from_sorted: "max_weight (from_sorted ps) = largest_weight (items (from_sorted ps))"
  by (simp add: from_sorted_def Let_def)

lemma merge_by_doc_sort_key: "merge_by_doc (sort_key doc_id ps) = merge_by_doc ps"
proof -
  have "sort_dedup (map doc_id (sort_key doc_id ps)) = sort_dedup (map doc_id ps)"
    by (simp add: sort_dedup_eq_iff)
  then show ?thesis
    by (simp add: merge_by_doc_def sort_key_stable)
qed

lemma items_from_items: "items (from_items ps) = merge_by_doc ps"
  by (simp add: from_items_def items_from_sorted merge_by_doc_sort_key)

lemma pl_ok_from_sorted [pl_intros]: "sorted (map doc_id ps) \<Longrightarrow> pl_ok (from_sorted ps)"
  unfolding pl_ok_def max_weight_from_sorted
  by (simp add: items_from_sorted doc_ids_merge_by_doc largest_weight_ge)

lemma pl_ok_from_items [pl_intros]: "pl_ok (from_items ps)"
  unfolding from_items_def by (rule pl_ok_from_sorted) simp

lemma docs_merge_by_doc [simp]: "docs (merge_by_doc ps) = docs ps"
  using arg_cong [OF doc_ids_merge_by_doc, of set] by (simp add: docs_def)

lemma merge_by_doc_mem:
  "p \<in> set (merge_by_doc ps) \<longleftrightarrow>
     doc_id p \<in> docs ps \<and> p = combine (filter (\<lambda>q. doc_id q = doc_id p) ps)"
proof
  assume "p \<in> set (merge_by_doc ps)"
  then obtain d where d: "d \<in> docs ps" "p = combine (filter (\<lambda>q. doc_id q = d) ps)"
    by (auto simp: merge_by_doc_def docs_def)
  then have ne: "filter (\<lambda>q. doc_id q = d) ps \<noteq> []"
    by (auto simp: docs_def filter_empty_conv)
  from combine_doc_id [OF ne] hd_in_set [OF ne] d(2) have "doc_id p = d" by simp
  with d show "doc_id p \<in> docs ps \<and> p = combine (filter (\<lambda>q. doc_id q = doc_id p) ps)" by simp
next
  assume "doc_id p \<in> docs ps \<and> p = combine (filter (\<lambda>q. doc_id q = doc_id p) ps)"
  then show "p \<in> set (merge_by_doc ps)"
    by (auto simp: merge_by_doc_def docs_def image_iff)
qed

lemma merge_by_doc_positions:
  assumes "p \<in> set (merge_by_doc ps)"
  shows "set (positions p) = {q. (doc_id p, q) \<in> hits ps}"
proof -
  from assms have ne: "filter (\<lambda>q. doc_id q = doc_id p) ps \<noteq> []"
    and p: "p = combine (filter (\<lambda>q. doc_id q = doc_id p) ps)"
    by (auto simp: merge_by_doc_mem docs_def filter_empty_conv)
  from combine_positions [OF ne] p have "set (positions p) =
      (\<Union>q \<in> set (filter (\<lambda>q. doc_id q = doc_id p) ps). set (positions q))" by simp
  then show ?thesis by (auto simp: hits_iff)
qed

lemma hits_docs: "(d, q) \<in> hits ps \<Longrightarrow> d \<in> docs ps"
  by (auto simp: hits_def docs_def)

lemma hits_merge_by_doc [simp]: "hits (merge_by_doc ps) = hits ps"
proof -
  have "(d, q) \<in> hits (merge_by_doc ps) \<longleftrightarrow> (d, q) \<in> hits ps" for d q
  proof
    assume "(d, q) \<in> hits (merge_by_doc ps)"
    then obtain p where "p \<in> set (merge_by_doc ps)" "doc_id p = d" "q \<in> set (positions p)"
      by (auto simp: hits_def)
    with merge_by_doc_positions [of p ps] show "(d, q) \<in> hits ps" by simp
  next
    assume h: "(d, q) \<in> hits ps"
    then have "d \<in> docs (merge_by_doc ps)" by (simp add: hits_docs)
    then obtain p where p: "p \<in> set (merge_by_doc ps)" "doc_id p = d" by (auto simp: docs_def)
    with merge_by_doc_positions [of p ps] h show "(d, q) \<in> hits (merge_by_doc ps)"
      by (force simp: hits_def)
  qed
  then show ?thesis by auto
qed

lemma merge_by_doc_weight:
  assumes "p \<in> set (merge_by_doc ps)"
  shows "weight p = Max (weights_at ps (doc_id p))"
proof -
  from assms have ne: "filter (\<lambda>q. doc_id q = doc_id p) ps \<noteq> []"
    and p: "p = combine (filter (\<lambda>q. doc_id q = doc_id p) ps)"
    by (auto simp: merge_by_doc_mem docs_def filter_empty_conv)
  have "weights_at ps (doc_id p) = weight ` set (filter (\<lambda>q. doc_id q = doc_id p) ps)"
    by (auto simp: weights_at_def)
  with combine_weight [OF ne] p show ?thesis by simp
qed

section \<open>Insertion\<close>

text \<open>Insertion into an ascending list, without the search.\<close>

fun upsert_ref :: "u64 \<Rightarrow> (posting \<Rightarrow> posting) \<Rightarrow> posting \<Rightarrow> posting list \<Rightarrow> posting list" where
  "upsert_ref d touch new [] = [new]"
| "upsert_ref d touch new (x # xs) =
     (if doc_id x < d then x # upsert_ref d touch new xs
      else if doc_id x = d then touch x # xs
      else new # x # xs)"

lemma upsert_ref_append:
  "(\<And>x. x \<in> set xs \<Longrightarrow> doc_id x < d) \<Longrightarrow>
     upsert_ref d touch new (xs @ ys) = xs @ upsert_ref d touch new ys"
  by (induction xs) auto

lemma upsert_ref_hd:
  "ys = [] \<or> \<not> doc_id (hd ys) < d \<Longrightarrow> upsert_ref d touch new ys =
     (if ys \<noteq> [] \<and> doc_id (hd ys) = d then touch (hd ys) # tl ys else new # ys)"
  by (cases ys) auto

lemma pl_upsert_ref:
  assumes "ascending (map doc_id xs)"
  shows "pl_upsert d upd ps w xs =
    upsert_ref d (\<lambda>p. p\<lparr>positions := upd (positions p), weight := max (weight p) w\<rparr>) (with_weight d ps w) xs"
    (is "_ = upsert_ref d ?touch ?new xs")
proof -
  consider (last) "xs \<noteq> []" "doc_id (last xs) = d" | (after) "xs \<noteq> []" "doc_id (last xs) < d"
    | (search) "xs = [] \<or> d < doc_id (last xs)"
    by fastforce
  then show ?thesis
  proof cases
    case last
    then have "\<And>x. x \<in> set (butlast xs) \<Longrightarrow> doc_id x < d"
      using assms by (cases xs rule: rev_cases) (auto simp: sorted_wrt_append)
    from upsert_ref_append [where xs = "butlast xs" and ys = "[last xs]", OF this] last show ?thesis
      by (simp add: pl_upsert_def Let_def)
  next
    case after
    then have "\<And>x. x \<in> set xs \<Longrightarrow> doc_id x < d"
      using assms by (cases xs rule: rev_cases) (auto simp: sorted_wrt_append)
    from upsert_ref_append [where xs = xs and ys = "[]", OF this] after show ?thesis
      by (auto simp: pl_upsert_def Let_def)
  next
    case search
    let ?i = "partition_point (\<lambda>x. doc_id x < d) xs"
    have lt: "\<And>x. x \<in> set (take ?i xs) \<Longrightarrow> doc_id x < d"
      by (auto simp: take_partition_point dest: set_takeWhileD)
    have split: "upsert_ref d ?touch ?new xs = take ?i xs @ upsert_ref d ?touch ?new (drop ?i xs)"
      using upsert_ref_append [where xs = "take ?i xs" and ys = "drop ?i xs", OF lt] by simp
    have hd: "drop ?i xs = [] \<or> \<not> doc_id (hd (drop ?i xs)) < d"
      by (metis drop_partition_point hd_dropWhile)
    show ?thesis
    proof (cases "?i < length xs \<and> doc_id (xs ! ?i) = d")
      case True
      then have "xs[?i := y] = take ?i xs @ y # tl (drop ?i xs)" for y
        by (simp add: upd_conv_take_nth_drop drop_Suc tl_drop)
      with True search show ?thesis
        unfolding split upsert_ref_hd [OF hd]
        by (auto simp: pl_upsert_def Let_def binary_search_by_key_def hd_drop_conv_nth)
    next
      case False
      with search show ?thesis
        unfolding split upsert_ref_hd [OF hd]
        by (auto simp: pl_upsert_def Let_def binary_search_by_key_def hd_drop_conv_nth vec_insert_def)
    qed
  qed
qed

lemma upsert_ref_docs:
  "doc_id new = d \<Longrightarrow> (\<And>p. doc_id (touch p) = doc_id p) \<Longrightarrow>
     docs (upsert_ref d touch new xs) = insert d (docs xs)"
  by (induction xs) auto

lemma upsert_ref_ascending:
  assumes "doc_id new = d" and "\<And>p. doc_id (touch p) = doc_id p"
  shows "ascending (map doc_id xs) \<Longrightarrow> ascending (map doc_id (upsert_ref d touch new xs))"
proof (induction xs)
  case (Cons x xs)
  then show ?case
    using upsert_ref_docs [OF assms, of xs] assms
    by (auto simp: docs_def)
qed (simp add: assms)

lemma upsert_ref_mem:
  "p \<in> set (upsert_ref d touch new xs) \<Longrightarrow> p \<in> set xs \<or> p = new \<or> (\<exists>q \<in> set xs. p = touch q)"
  by (induction xs) (auto split: if_splits)

lemma upsert_ref_hits:
  assumes "doc_id new = d" and "\<And>p. doc_id (touch p) = doc_id p" 
    and "\<And>p. set (positions (touch p)) = set (positions p) \<union> set (positions new)"
  shows "hits (upsert_ref d touch new xs) = hits xs \<union> Pair d ` set (positions new)"
  using assms by (induction xs) auto


lemma set_extend_positions_sorted: "set (extend_positions_sorted ps extra) = set ps \<union> set extra"
  by (auto simp: extend_positions_sorted_def)

lemma sorted_extend_positions_sorted:
  assumes "sorted ps" and "sorted extra"
  shows "sorted (extend_positions_sorted ps extra)"
proof (cases "ps \<noteq> [] \<and> extra \<noteq> [] \<and> last ps \<le> hd extra")
  case True
  have "x \<le> y" if "x \<in> set ps" "y \<in> set extra" for x y
  proof -
    have "x \<le> last ps" using assms(1) that(1) by (rule sorted_le_last)
    moreover have "hd extra \<le> y" using assms(2) that(2) by (cases extra) auto
    ultimately show ?thesis using True by (meson order_trans)
  qed
  with True assms show ?thesis by (simp add: extend_positions_sorted_def sorted_append)
next
  case False
  with assms show ?thesis by (auto simp: extend_positions_sorted_def)
qed

lemma pl_upsert_props:
  assumes "ascending (map doc_id xs)" and "\<And>old. set (upd old) = set old \<union> set ps"
  shows "ascending (map doc_id (pl_upsert d upd ps w xs))"
    and "docs (pl_upsert d upd ps w xs) = insert d (docs xs)"
    and "hits (pl_upsert d upd ps w xs) = hits xs \<union> Pair d ` set ps"
  unfolding pl_upsert_ref [OF assms(1)]
  using assms by (simp_all add: upsert_ref_ascending upsert_ref_docs upsert_ref_hits)

lemma pl_upsert_weights:
  assumes "ascending (map doc_id xs)" and "\<forall>p \<in> set xs. weight p \<le> m" and "p \<in> set (pl_upsert d upd ps w xs)"
  shows "weight p \<le> max m w"
  using upsert_ref_mem [OF assms(3) [unfolded pl_upsert_ref [OF assms(1)]]] assms(2)
  by (auto simp: max.coboundedI1 max.coboundedI2 intro: max.mono)

lemma pl_upsert_positions_ok:
  assumes "ascending (map doc_id xs)" and "positions_ok xs" and "\<And>old. sorted old \<Longrightarrow> sorted (upd old)" and "sorted ps"
  shows "positions_ok (pl_upsert d upd ps w xs)"
  unfolding positions_ok_def
proof
  fix p
  assume "p \<in> set (pl_upsert d upd ps w xs)"
  from upsert_ref_mem [OF this [unfolded pl_upsert_ref [OF assms(1)]]] assms(2-4)
  show "sorted (positions p)" by (auto simp: positions_ok_def)
qed

lemma pl_ok_insert_posting [pl_intros]: "pl_ok l \<Longrightarrow> pl_ok (insert_posting l d ps w)"
  by (auto simp: pl_ok_def insert_posting_def Let_def set_extend_positions_sorted
      intro: pl_upsert_props(1) pl_upsert_weights)

lemma docs_insert_posting:
  "pl_ok l \<Longrightarrow> docs (items (insert_posting l d ps w)) = (if ps = [] then docs (items l) else insert d (docs (items l)))"
  by (simp add: pl_ok_def insert_posting_def Let_def set_extend_positions_sorted pl_upsert_props)

lemma hits_insert_posting:
  "pl_ok l \<Longrightarrow> hits (items (insert_posting l d ps w)) = hits (items l) \<union> Pair d ` set ps"
  by (auto simp: pl_ok_def insert_posting_def Let_def set_extend_positions_sorted pl_upsert_props)

lemma positions_ok_insert_posting:
  "pl_ok l \<Longrightarrow> positions_ok (items l) \<Longrightarrow> positions_ok (items (insert_posting l d ps w))"
  by (simp add: pl_ok_def insert_posting_def Let_def pl_upsert_positions_ok sorted_extend_positions_sorted)

lemma pl_ok_insert [pl_intros]: "pl_ok l \<Longrightarrow> pl_ok (pl_insert l d pos w)"
  by (auto simp: pl_ok_def pl_insert_def intro: pl_upsert_props(1) pl_upsert_weights)

lemma pl_ok_retain [pl_intros]: "pl_ok l \<Longrightarrow> pl_ok (pl_retain keep l)"
  by (simp add: pl_ok_def pl_retain_def ascending_filter)

lemma items_retain [simp]: "items (pl_retain keep l) = filter keep (items l)"
  by (simp add: pl_retain_def)

lemma pl_ok_new [simp, pl_intros]: "pl_ok pl_new"
  by (simp add: pl_ok_def pl_new_def)

lemma ascending_append_items:
  assumes "ascending (map doc_id xs)" "ascending (map doc_id ys)" "xs \<noteq> []" "ys \<noteq> []" "doc_id (last xs) < doc_id (hd ys)"
  shows "ascending (map doc_id (xs @ ys))"
proof -
  have "doc_id x < doc_id y" if "x \<in> set xs" "y \<in> set ys" for x y
  proof -
    have "doc_id x \<le> doc_id (last xs)"
      using sorted_le_last [OF ascending_sorted [OF assms(1)], of "doc_id x"] that(1) assms(3)
      by (simp add: last_map)
    moreover have "doc_id (hd ys) \<le> doc_id y"
      using assms(2) that(2) by (cases ys) auto
    ultimately show ?thesis using assms(5) by simp
  qed
  with assms show ?thesis by (auto simp: sorted_wrt_append)
qed

lemma items_append:
  assumes "pl_ok l" "pl_ok other"
  shows "items (pl_append l other) = merge_by_doc (items l @ items other)"
proof (cases "items l = [] \<or> items other = []")
  case True
  with assms show ?thesis
    by (auto simp: pl_append_def pl_ok_def merge_by_doc_ascending)
next
  case False
  with assms show ?thesis
    by (auto simp: pl_append_def items_from_items pl_ok_def merge_by_doc_ascending ascending_append_items
        simp del: map_append)
qed

lemma pl_ok_append [pl_intros]:
  assumes "pl_ok l" "pl_ok other"
  shows "pl_ok (pl_append l other)"
proof -
  have "ascending (map doc_id (items (pl_append l other)))"
    by (simp add: items_append assms doc_ids_merge_by_doc)
  moreover have "\<forall>p \<in> set (items (pl_append l other)). weight p \<le> max_weight (pl_append l other)"
    using assms pl_ok_from_items [of "items l @ items other"]
    by (auto simp: pl_append_def pl_ok_def max.coboundedI1 max.coboundedI2)
  ultimately show ?thesis by (simp add: pl_ok_def)
qed

section \<open>Properties\<close>

text \<open>C30. \<open>PostingList::from_items\<close> on any vector of postings is the reference merge: one posting
  per document in ascending order, no document and no occurrence lost or invented, the weight of
  a document the largest it had; the result satisfies the list invariant.\<close>

theorem from_items_merges:
  "items (from_items ps) = merge_by_doc ps
   \<and> pl_ok (from_items ps)
   \<and> docs (items (from_items ps)) = docs ps
   \<and> hits (items (from_items ps)) = hits ps
   \<and> list_all (\<lambda>p. weight p = Max (weights_at ps (doc_id p))) (items (from_items ps))"
  by (simp add: items_from_items pl_ok_from_items merge_by_doc_weight list_all_iff)

text \<open>C31. \<open>insert_posting\<close> keeps the list invariant and the order of stored positions, adds exactly
  the given occurrences of the document, and ignores an empty position list.\<close>

theorem insert_posting_spec:
  assumes "pl_ok l" and "positions_ok (items l)"
  shows "pl_ok (insert_posting l d ps w)
    \<and> positions_ok (items (insert_posting l d ps w))
    \<and> docs (items (insert_posting l d ps w)) = (if ps = [] then docs (items l) else insert d (docs (items l)))
    \<and> hits (items (insert_posting l d ps w)) = hits (items l) \<union> Pair d ` set ps"
  using assms
  by (simp add: pl_ok_insert_posting positions_ok_insert_posting docs_insert_posting hits_insert_posting)

definition sample_list :: posting_list where
  "sample_list = \<lparr>items = [with_weight 2 [5] 1, with_weight 9 [3, 7] 4], max_weight = 4\<rparr>"

theorem insert_posting_spec_witness:
  "pl_ok sample_list \<and> positions_ok (items sample_list)
   \<and> pl_ok (insert_posting sample_list 4 [8, 6] 9)
   \<and> docs (items (insert_posting sample_list 4 [8, 6] 9)) = {2, 4, 9}"
proof -
  have h: "pl_ok sample_list" "positions_ok (items sample_list)"
    by (simp_all add: sample_list_def pl_ok_def positions_ok_def)
  have "docs (items sample_list) = {2, 9}"
    by (simp add: sample_list_def)
  with h insert_posting_spec [OF h, of 4 "[8, 6]" 9] show ?thesis by auto
qed

text \<open>Appending a newer list (\<open>PostingList::append\<close>) gives the reference merge of both on
  either path, the fast one that only concatenates included, and keeps the invariant.\<close>

theorem append_merges:
  assumes "pl_ok l" and "pl_ok other"
  shows "items (pl_append l other) = merge_by_doc (items l @ items other) \<and> pl_ok (pl_append l other)"
  using assms by (simp add: items_append pl_ok_append)

theorem append_merges_witness:
  "pl_ok sample_list \<and> items (pl_append sample_list sample_list) = merge_by_doc (items sample_list @ items sample_list)"
proof -
  have h: "pl_ok sample_list"
    by (simp add: sample_list_def pl_ok_def)
  with append_merges [OF h h] show ?thesis by simp
qed

text \<open>The helper documented to keep positions "ascending + unique" keeps a duplicate where the
  stored positions end with the first of the new ones: equal neighbours pass its fast path.\<close>

theorem extend_positions_seam_duplicate:
  assumes "ps \<noteq> []"
  shows "extend_positions_sorted ps (last ps # extra) = ps @ last ps # extra
    \<and> \<not> ascending (extend_positions_sorted ps (last ps # extra))"
proof -
  have eq: "extend_positions_sorted ps (last ps # extra) = ps @ last ps # extra"
    by (simp add: extend_positions_sorted_def)
  moreover have "last ps \<in> set ps" using assms by simp
  ultimately show ?thesis by (auto simp: sorted_wrt_append)
qed

theorem extend_positions_seam_duplicate_witness:
  "extend_positions_sorted [1, 3] [3, 4] = [1, 3, 3, 4]"
  using extend_positions_seam_duplicate [of "[1, 3]" "[4]"] by simp

end
