(* ===== verification/Posting_Ops.thy ===== *)
theory Posting_Ops
  imports Posting_List
begin

text \<open>
  \<^verbatim>\<open>crates/core-index/src/posting/cursor.rs\<close>, \<^verbatim>\<open>ops.rs\<close> and \<^verbatim>\<open>deleted.rs\<close>: the forward cursor with
  its galloping skip, list intersection by merging or galloping, the k-way union over a binary
  heap, and the tombstone set.  Vector lengths and indices are natural numbers: a vector is never
  longer than \<open>isize::MAX\<close>, so \<open>start + bound\<close> and the doubled bound do not overflow a \<open>usize\<close>.
\<close>

section \<open>Searching ahead\<close>

text \<open>The two loops of \<open>advance_to\<close> and \<open>exponent_search_to\<close>: double the step until the target is
  passed or the end reached, then bisect.\<close>

function gallop :: "posting list \<Rightarrow> nat \<Rightarrow> u64 \<Rightarrow> nat \<Rightarrow> nat" where
  "gallop ps start target bound =
     (if 0 < bound \<and> start + bound < length ps \<and> doc_id (ps ! (start + bound)) < target
      then gallop ps start target (bound * 2) else bound)"
  by pat_completeness auto
termination
  by (relation "measure (\<lambda>(ps, start, target, bound). length ps - bound)") auto

declare gallop.simps [simp del]

function bisect :: "posting list \<Rightarrow> u64 \<Rightarrow> nat \<Rightarrow> nat \<Rightarrow> nat" where
  "bisect ps target left right =
     (if left < right
      then let mid = left + (right - left) div 2
           in if doc_id (ps ! mid) < target then bisect ps target (mid + 1) right
              else bisect ps target left mid
      else left)"
  by pat_completeness auto
termination
  by (relation "measure (\<lambda>(ps, target, left, right). right - left)") auto

declare bisect.simps [simp del]

section \<open>The cursor\<close>

record posting_cursor =
  postings :: "posting list"
  index :: nat

definition cursor_new :: "posting_list \<Rightarrow> posting_cursor" where
  "cursor_new l = \<lparr>postings = items l, index = 0\<rparr>"

definition is_exhausted :: "posting_cursor \<Rightarrow> bool" where
  "is_exhausted c \<longleftrightarrow> index c \<ge> length (postings c)"

definition slice_get :: "'a list \<Rightarrow> nat \<Rightarrow> 'a option" where
  "slice_get xs i = (if i < length xs then Some (xs ! i) else None)"

definition cursor_doc_id :: "posting_cursor \<Rightarrow> u64 option" where
  "cursor_doc_id c = map_option doc_id (slice_get (postings c) (index c))"

definition cursor_current :: "posting_cursor \<Rightarrow> posting option" where
  "cursor_current c = slice_get (postings c) (index c)"

definition cursor_next :: "posting_cursor \<Rightarrow> posting_cursor" where
  "cursor_next c = (if \<not> is_exhausted c then c\<lparr>index := index c + 1\<rparr> else c)"

definition advance_to :: "posting_cursor \<Rightarrow> u64 \<Rightarrow> posting_cursor" where
  "advance_to c target =
     (if is_exhausted c then c
      else if doc_id (postings c ! index c) \<ge> target then c
      else let start = index c;
               bound = gallop (postings c) start target 1;
               left = start + bound div 2;
               right = min (start + bound + 1) (length (postings c))
           in c\<lparr>index := bisect (postings c) target left right\<rparr>)"

section \<open>Intersection\<close>

fun linear_loop :: "posting list \<Rightarrow> posting list \<Rightarrow> posting list" where
  "linear_loop (p # a) (q # b) =
     (if doc_id p < doc_id q then linear_loop a (q # b)
      else if doc_id p > doc_id q then linear_loop (p # a) b
      else p # linear_loop a b)"
| "linear_loop _ _ = []"

definition linear_search :: "posting_list \<Rightarrow> posting_list \<Rightarrow> posting_list" where
  "linear_search l r = from_sorted (linear_loop (items l) (items r))"

definition exponent_search_to :: "posting list \<Rightarrow> nat \<Rightarrow> u64 \<Rightarrow> nat" where
  "exponent_search_to xs start target =
     (if start \<ge> length xs \<or> doc_id (xs ! start) \<ge> target then start
      else let bound = gallop xs start target 1;
               hi = min (start + bound + 1) (length xs)
           in bisect xs target (start + 1) hi)"

fun exponential_loop :: "posting list \<Rightarrow> posting list \<Rightarrow> nat \<Rightarrow> posting list" where
  "exponential_loop [] long cursor = []"
| "exponential_loop (item # short) long cursor =
     (if cursor \<ge> length long then []
      else let cursor = exponent_search_to long cursor (doc_id item)
           in if cursor < length long \<and> doc_id (long ! cursor) = doc_id item
              then item # exponential_loop short long (cursor + 1)
              else exponential_loop short long cursor)"

definition exponential_search :: "posting_list \<Rightarrow> posting_list \<Rightarrow> posting_list" where
  "exponential_search l r =
     (let a = items l; b = items r;
          (short, long) = (if length a \<le> length b then (a, b) else (b, a))
      in from_sorted (exponential_loop short long 0))"

text \<open>\<open>usize::ilog2\<close> of a positive number.\<close>

fun ilog2 :: "nat \<Rightarrow> nat" where
  "ilog2 n = (if n < 2 then 0 else Suc (ilog2 (n div 2)))"

declare ilog2.simps [simp del]

definition intersection :: "posting_list \<Rightarrow> posting_list \<Rightarrow> posting_list" where
  "intersection l r =
     (let la = length (items l); lb = length (items r);
          short_len = min la lb; long_len = max la lb;
          gallop_cost = short_len * (ilog2 (max (long_len div max short_len 1) 1) + 1);
          merge_cost = la + lb
      in if gallop_cost < merge_cost then exponential_search l r else linear_search l r)"

section \<open>Union\<close>

text \<open>The heap entries are \<open>(doc_id, source, offset)\<close>, smallest first; a heap is kept as the
  ascending list of its entries.\<close>

type_synonym heap_entry = "u64 \<times> nat \<times> nat"

definition heap_push :: "'a::linorder \<Rightarrow> 'a list \<Rightarrow> 'a list" where
  "heap_push = insort"

fun heap_pop :: "'a list \<Rightarrow> ('a \<times> 'a list) option" where
  "heap_pop [] = None"
| "heap_pop (x # xs) = Some (x, xs)"

definition heap_init :: "posting list list \<Rightarrow> heap_entry list" where
  "heap_init sources =
     fold (\<lambda>i h. heap_push (doc_id (sources ! i ! 0), i, 0) h) [0..<length sources] []"

text \<open>How many postings the heap entries still stand for: what the loop below uses up.\<close>

definition heap_work :: "posting list list \<Rightarrow> heap_entry list \<Rightarrow> nat" where
  "heap_work sources h = (\<Sum>(d, i, off) \<leftarrow> h. length (sources ! i) - off)"

lemma heap_work_simps [simp]:
  "heap_work sources [] = 0"
  "heap_work sources ((d, i, off) # h) = (length (sources ! i) - off) + heap_work sources h"
  by (simp_all add: heap_work_def)

lemma heap_work_push [simp]:
  "heap_work sources (heap_push (d, i, off) h) = (length (sources ! i) - off) + heap_work sources h"
proof (induction h)
  case (Cons e h)
  then show ?case by (cases e) (simp add: heap_push_def)
qed (simp add: heap_push_def)

text \<open>One round: pop the least entry, output its posting, push the source's next one.\<close>

function union_loop :: "posting list list \<Rightarrow> heap_entry list \<Rightarrow> posting list" where
  "union_loop sources h =
     (case heap_pop h of
        None \<Rightarrow> []
      | Some ((d, i, off), h') \<Rightarrow>
          sources ! i ! off #
          union_loop sources
            (if off + 1 < length (sources ! i)
             then heap_push (doc_id (sources ! i ! (off + 1)), i, off + 1) h' else h'))"
  by pat_completeness auto
termination
proof (relation "measures [\<lambda>(sources, h). heap_work sources h, \<lambda>(sources, h). length h]", goal_cases)
  case (2 sources h x2 x y d z i off)
  then have "h = (d, i, off) # y" by (cases h) auto
  then show ?case by auto
qed simp

declare union_loop.simps [simp del]

definition union_many :: "posting_list list \<Rightarrow> posting_list" where
  "union_many ls =
     (let sources = filter (\<lambda>s. s \<noteq> []) (map items ls)
      in case sources of
           [] \<Rightarrow> pl_new
         | [s] \<Rightarrow> from_sorted s
         | _ \<Rightarrow> from_sorted (union_loop sources (heap_init sources)))"

section \<open>Tombstones\<close>

type_synonym delete_set = "u64 set"

definition ds_delete :: "u64 \<Rightarrow> delete_set \<Rightarrow> delete_set" where
  "ds_delete d ds = insert d ds"

definition is_deleted :: "delete_set \<Rightarrow> u64 \<Rightarrow> bool" where
  "is_deleted ds d \<longleftrightarrow> d \<in> ds"

definition filter_in_place :: "delete_set \<Rightarrow> posting_list \<Rightarrow> posting_list" where
  "filter_in_place ds l =
     (if ds = {} then l else pl_retain (\<lambda>p. \<not> is_deleted ds (doc_id p)) l)"

definition ds_filter :: "delete_set \<Rightarrow> posting_list \<Rightarrow> posting_list" where
  "ds_filter ds l =
     (if ds = {} then l
      else from_sorted (filter (\<lambda>p. \<not> is_deleted ds (doc_id p)) (items l)))"

section \<open>What the search loops find\<close>

lemma partition_point_doc:
  "sorted (map doc_id ps) \<Longrightarrow> i < length ps \<Longrightarrow>
     i < partition_point (\<lambda>p. doc_id p < t) ps \<longleftrightarrow> doc_id (ps ! i) < t"
  by (rule partition_point_sorted) auto

lemma gallop_spec:
  assumes "sorted (map doc_id ps)" and "0 < bound" and "start + bound div 2 < partition_point (\<lambda>p. doc_id p < t) ps"
  shows "start + gallop ps start t bound div 2 < partition_point (\<lambda>p. doc_id p < t) ps
    \<and> partition_point (\<lambda>p. doc_id p < t) ps \<le> start + gallop ps start t bound"
  using assms
proof (induction ps start t bound rule: gallop.induct)
  case (1 ps start t bound)
  show ?case
  proof (cases "start + bound < length ps \<and> doc_id (ps ! (start + bound)) < t")
    case True
    with 1(2) have "start + bound < partition_point (\<lambda>p. doc_id p < t) ps"
      by (simp add: partition_point_doc)
    then have mid: "start + bound * 2 div 2 < partition_point (\<lambda>p. doc_id p < t) ps" by simp
    have cond: "0 < bound \<and> start + bound < length ps \<and> doc_id (ps ! (start + bound)) < t"
      using True 1(3) by blast
    have "0 < bound * 2" using 1(3) by simp
    note IH = 1(1) [OF cond 1(2) this mid]
    have "gallop ps start t bound = gallop ps start t (bound * 2)"
      using cond by (subst gallop.simps) simp
    with IH show ?thesis by (simp only:)
  next
    case False
    then have "partition_point (\<lambda>p. doc_id p < t) ps \<le> start + bound"
      using partition_point_doc [OF 1(2), of "start + bound" t]
      by (meson linorder_not_less order_trans partition_point_le)
    moreover have "gallop ps start t bound = bound"
      using False by (subst gallop.simps) auto
    ultimately show ?thesis
      using 1(4) by simp
  qed
qed

lemma bisect_spec:
  assumes "sorted (map doc_id ps)" 
    and "left \<le> partition_point (\<lambda>p. doc_id p < t) ps" and "partition_point (\<lambda>p. doc_id p < t) ps \<le> right"
    and "right \<le> length ps"
  shows "bisect ps t left right = partition_point (\<lambda>p. doc_id p < t) ps"
  using assms
proof (induction ps t left right rule: bisect.induct)
  case (1 ps t left right)
  show ?case
  proof (cases "left < right")
    case True
    define mid where "mid = left + (right - left) div 2"
    have mid: "left \<le> mid" "mid < right" using True by (auto simp: mid_def)
    show ?thesis
    proof (cases "doc_id (ps ! mid) < t")
      case lt: True
      then have "mid + 1 \<le> partition_point (\<lambda>p. doc_id p < t) ps"
        using partition_point_doc [OF 1(3), of mid t] mid 1(6) by simp
      with lt True 1 mid show ?thesis
        by (subst bisect.simps) (simp add: mid_def Let_def)
    next
      case ge: False
      then have "partition_point (\<lambda>p. doc_id p < t) ps \<le> mid"
        using partition_point_doc [OF 1(3), of mid t] mid 1(6) by simp
      with ge True 1 mid show ?thesis
        by (subst bisect.simps) (simp add: mid_def Let_def)
    qed
  next
    case False
    with 1 show ?thesis by (subst bisect.simps) simp
  qed
qed


locale forward_search =
  fixes seek :: "posting list \<Rightarrow> nat \<Rightarrow> u64 \<Rightarrow> nat"
  assumes seek_eq: "sorted (map doc_id ps) \<Longrightarrow> start \<le> length ps \<Longrightarrow>
    seek ps start target = max start (partition_point (\<lambda>p. doc_id p < target) ps)"
begin

lemma seek_forward: "sorted (map doc_id ps) \<Longrightarrow> start \<le> length ps \<Longrightarrow> start \<le> seek ps start target"
  by (simp add: seek_eq)

lemma seek_bound: "sorted (map doc_id ps) \<Longrightarrow> start \<le> length ps \<Longrightarrow> seek ps start target \<le> length ps"
  by (simp add: seek_eq)

lemma seek_skipped:
  "sorted (map doc_id ps) \<Longrightarrow> start \<le> length ps \<Longrightarrow> start \<le> i \<Longrightarrow> i < seek ps start target \<Longrightarrow>
     doc_id (ps ! i) < target"
  by (auto simp: seek_eq max_def split: if_splits dest: partition_point_lessD)

lemma seek_reached:
  assumes "sorted (map doc_id ps)" "start \<le> length ps" "seek ps start target \<le> i" "i < length ps"
  shows "target \<le> doc_id (ps ! i)"
  using assms partition_point_doc [OF assms(1,4), of target] by (simp add: seek_eq)

lemma seek_docs:
  assumes "sorted (map doc_id ps)" "start \<le> length ps" "target \<le> d"
  shows "d \<in> docs (drop (seek ps start target) ps) \<longleftrightarrow> d \<in> docs (drop start ps)"
proof -
  have split: "drop start ps = take (seek ps start target - start) (drop start ps) @ drop (seek ps start target) ps"
    using seek_forward [OF assms(1,2), of target] by (metis append_take_drop_id drop_drop le_add_diff_inverse2)
  have "doc_id p < target" if "p \<in> set (take (seek ps start target - start) (drop start ps))" for p
    using that seek_skipped [OF assms(1,2)] seek_bound [OF assms(1,2), of target]
    by (auto simp: in_set_conv_nth)
  then have "d \<notin> docs (take (seek ps start target - start) (drop start ps))"
    using assms(3) by (force simp: docs_iff)
  then show ?thesis
    by (subst split) simp
qed

end

definition cursor_seek :: "posting list \<Rightarrow> nat \<Rightarrow> u64 \<Rightarrow> nat" where
  "cursor_seek ps start target = index (advance_to \<lparr>postings = ps, index = start\<rparr> target)"

lemma exponent_search_to_eq:
  assumes "sorted (map doc_id ps)"
  shows "exponent_search_to ps start target = max start (partition_point (\<lambda>p. doc_id p < target) ps)"
proof (cases "start \<ge> length ps \<or> doc_id (ps ! start) \<ge> target")
  case True
  then have "partition_point (\<lambda>p. doc_id p < target) ps \<le> start"
    using partition_point_doc [OF assms, of start target]
    by (meson linorder_not_less order_trans partition_point_le)
  with True show ?thesis by (auto simp: exponent_search_to_def)
next
  case False
  let ?pp = "partition_point (\<lambda>p. doc_id p < target) ps"
  have lt: "start < ?pp" using False partition_point_doc [OF assms, of start target] by (meson linorder_not_le)
  from gallop_spec [OF assms, of 1 start target] lt have
    "?pp \<le> start + gallop ps start target 1" by simp
  then have "bisect ps target (start + 1) (min (start + gallop ps start target 1 + 1) (length ps)) = ?pp"
    using lt by (intro bisect_spec assms) simp_all
  with False lt show ?thesis by (simp add: exponent_search_to_def Let_def)
qed

lemma advance_to_eq:
  assumes "sorted (map doc_id (postings c))"
  shows "advance_to c target = c\<lparr>index := max (index c) (partition_point (\<lambda>p. doc_id p < target) (postings c))\<rparr>"
proof (cases "is_exhausted c \<or> doc_id (postings c ! index c) \<ge> target")
  case True
  then have "partition_point (\<lambda>p. doc_id p < target) (postings c) \<le> index c"
    using partition_point_doc [OF assms, of "index c" target] unfolding is_exhausted_def
    by (meson linorder_not_less order_trans partition_point_le)
  with True show ?thesis by (auto simp: advance_to_def max_def)
next
  case False
  let ?ps = "postings c" and ?start = "index c"
  let ?pp = "partition_point (\<lambda>p. doc_id p < target) ?ps"
  have lt: "?start < ?pp" using False partition_point_doc [OF assms, of ?start target]
    unfolding is_exhausted_def by (meson linorder_not_le)
  from gallop_spec [OF assms, of 1 ?start target] lt have
    "?start + gallop ?ps ?start target 1 div 2 < ?pp" "?pp \<le> ?start + gallop ?ps ?start target 1" by simp_all
  then have "bisect ?ps target (?start + gallop ?ps ?start target 1 div 2)
      (min (?start + gallop ?ps ?start target 1 + 1) (length ?ps)) = ?pp"
    by (intro bisect_spec assms) simp_all
  with False lt show ?thesis by (simp add: advance_to_def Let_def)
qed

lemma advance_to_postings [simp]: "postings (advance_to c target) = postings c"
  by (simp add: advance_to_def Let_def)

interpretation exp_search: forward_search exponent_search_to
  by unfold_locales (simp add: exponent_search_to_eq)

interpretation cur_search: forward_search cursor_seek
  by unfold_locales (simp add: cursor_seek_def advance_to_eq)

lemma linear_loop_filter:
  "ascending (map doc_id a) \<Longrightarrow> ascending (map doc_id b) \<Longrightarrow>
     linear_loop a b = filter (\<lambda>p. doc_id p \<in> docs b) a"
proof (induction a b rule: linear_loop.induct)
  case (1 p a q b)
  show ?case
  proof (cases "doc_id p < doc_id q")
    case True
    with 1 have "doc_id p \<notin> docs (q # b)" by (auto simp: docs_iff)
    with True 1 show ?thesis by simp
  next
    case ge: False
    show ?thesis
    proof (cases "doc_id q < doc_id p")
      case True
      with "1.prems"(1) have "\<forall>x \<in> set (p # a). doc_id x \<noteq> doc_id q" by auto
      then have "filter (\<lambda>x. doc_id x \<in> docs (q # b)) (p # a) = filter (\<lambda>x. doc_id x \<in> docs b) (p # a)"
        by (intro filter_cong) auto
      with True ge 1 show ?thesis by simp
    next
      case False
      with ge have eq: "doc_id p = doc_id q" by simp
      with "1.prems"(1) have "\<forall>x \<in> set a. doc_id x \<noteq> doc_id q" by auto
      then have "filter (\<lambda>x. doc_id x \<in> docs (q # b)) a = filter (\<lambda>x. doc_id x \<in> docs b) a"
        by (intro filter_cong) auto
      with eq 1 show ?thesis by simp
    qed
  qed
qed auto

lemma ascending_drop: "ascending (map f xs) \<Longrightarrow> ascending (map f (drop n xs))"
  for f :: "'b \<Rightarrow> 'a::linorder"
  by (simp add: drop_map [symmetric] sorted_wrt_drop)

lemma exponential_loop_filter:
  assumes "ascending (map doc_id long)"
  shows "ascending (map doc_id short) \<Longrightarrow> cursor \<le> length long \<Longrightarrow>
     exponential_loop short long cursor = filter (\<lambda>p. doc_id p \<in> docs (drop cursor long)) short"
proof (induction short arbitrary: cursor)
  case (Cons item short)
  have s: "sorted (map doc_id long)" using assms by (rule ascending_sorted)
  show ?case
  proof (cases "cursor \<ge> length long")
    case True
    then show ?thesis by simp
  next
    case False
    define c where "c = exponent_search_to long cursor (doc_id item)"
    have c: "c \<le> length long" using exp_search.seek_bound [OF s, of cursor] False by (simp add: c_def)
    have mem: "d \<in> docs (drop c long) \<longleftrightarrow> d \<in> docs (drop cursor long)" if "doc_id item \<le> d" for d
      using exp_search.seek_docs [OF s _ that, of cursor] False by (simp add: c_def)
    have later: "\<forall>x \<in> set short. doc_id item < doc_id x" using Cons.prems(1) by auto
    have at: "doc_id item \<in> docs (drop c long) \<longleftrightarrow> c < length long \<and> doc_id (long ! c) = doc_id item"
    proof (cases "c < length long")
      case True
      then have d: "drop c long = long ! c # drop (Suc c) long" by (simp add: Cons_nth_drop_Suc)
      have "doc_id item \<le> doc_id (long ! c)"
        using exp_search.seek_reached [OF s _ _ True, of cursor "doc_id item"] False by (simp add: c_def)
      moreover have "\<forall>x \<in> set (drop (Suc c) long). doc_id (long ! c) < doc_id x"
        using ascending_drop [OF assms, of c] by (simp add: d)
      ultimately show ?thesis using True by (auto simp: d docs_iff)
    qed simp
    have skip: "filter (\<lambda>p. doc_id p \<in> docs (drop (Suc c) long)) short = filter (\<lambda>p. doc_id p \<in> docs (drop c long)) short"
      if "c < length long" "doc_id (long ! c) = doc_id item"
      using that later by (intro filter_cong) (auto simp: Cons_nth_drop_Suc [symmetric])
    have same: "filter (\<lambda>p. doc_id p \<in> docs (drop c long)) short = filter (\<lambda>p. doc_id p \<in> docs (drop cursor long)) short"
      using later mem by (intro filter_cong) auto
    have unfolded: "exponential_loop (item # short) long cursor =
        (if c < length long \<and> doc_id (long ! c) = doc_id item
         then item # exponential_loop short long (Suc c) else exponential_loop short long c)"
      using False by (simp add: c_def Let_def)
    have asc: "ascending (map doc_id short)" using Cons.prems(1) by simp
    show ?thesis
    proof (cases "c < length long \<and> doc_id (long ! c) = doc_id item")
      case True
      then have "doc_id item \<in> docs (drop cursor long)" using at mem by simp
      with True show ?thesis
        using Cons.IH [OF asc, of "Suc c"] skip same unfolding unfolded by simp
    next
      case no: False
      then have "doc_id item \<notin> docs (drop cursor long)" using at mem by simp
      with no show ?thesis
        using Cons.IH [OF asc c] same unfolding unfolded by auto
    qed
  qed
qed simp


lemma items_from_ascending: "ascending (map doc_id ps) \<Longrightarrow> items (from_sorted ps) = ps"
  by (simp add: items_from_sorted ascending_sorted merge_by_doc_ascending)

lemma docs_filter: "docs (filter (\<lambda>p. doc_id p \<in> D) ps) = docs ps \<inter> D"
  by (auto simp: docs_def)

lemma items_linear_search:
  "pl_ok l \<Longrightarrow> pl_ok r \<Longrightarrow> items (linear_search l r) = filter (\<lambda>p. doc_id p \<in> docs (items r)) (items l)"
  by (simp add: linear_search_def pl_ok_def linear_loop_filter items_from_ascending ascending_filter)

lemma items_exponential_search:
  "pl_ok l \<Longrightarrow> pl_ok r \<Longrightarrow> items (exponential_search l r) =
     (if length (items l) \<le> length (items r) then filter (\<lambda>p. doc_id p \<in> docs (items r)) (items l)
      else filter (\<lambda>p. doc_id p \<in> docs (items l)) (items r))"
  by (simp add: exponential_search_def pl_ok_def exponential_loop_filter items_from_ascending ascending_filter)

lemma pl_ok_intersection [pl_intros]:
  assumes "pl_ok l" "pl_ok r" shows "pl_ok (intersection l r)"
proof -
  have "pl_ok (linear_search l r)"
    unfolding linear_search_def using assms
    by (intro pl_ok_from_sorted ascending_sorted) (simp add: pl_ok_def linear_loop_filter ascending_filter)
  moreover have "pl_ok (exponential_search l r)"
    unfolding exponential_search_def using assms
    by (auto simp: Let_def pl_ok_def exponential_loop_filter ascending_filter
        intro!: pl_ok_from_sorted [unfolded pl_ok_def] ascending_sorted)
  ultimately show ?thesis by (simp add: intersection_def Let_def)
qed

section \<open>Priority queues\<close>

locale priority_queue =
  fixes push :: "'a::linorder \<Rightarrow> 'h \<Rightarrow> 'h"
    and pop :: "'h \<Rightarrow> ('a \<times> 'h) option"
    and content :: "'h \<Rightarrow> 'a multiset"
    and ok :: "'h \<Rightarrow> bool"
  assumes content_push: "content (push x h) = add_mset x (content h)"
    and ok_push: "ok h \<Longrightarrow> ok (push x h)"
    and pop_None: "pop h = None \<longleftrightarrow> content h = {#}"
    and content_pop: "pop h = Some (x, h') \<Longrightarrow> content h = add_mset x (content h')"
    and pop_least: "ok h \<Longrightarrow> pop h = Some (x, h') \<Longrightarrow> y \<in># content h' \<Longrightarrow> x \<le> y"
    and ok_pop: "ok h \<Longrightarrow> pop h = Some (x, h') \<Longrightarrow> ok h'"
begin

lemma pop_min: "ok h \<Longrightarrow> pop h = Some (x, h') \<Longrightarrow> x = Min_mset (content h)"
  using content_pop [of h x h'] pop_least [of h x h'] by (auto intro!: Min_eqI [symmetric])

lemma push_all: "content (fold push xs h) = mset xs + content h \<and> (ok h \<longrightarrow> ok (fold push xs h))"
  by (induction xs arbitrary: h) (auto simp: content_push ok_push)

end

lemma heap_pop_Some [simp]: "heap_pop h = Some (x, h') \<longleftrightarrow> h = x # h'"
  by (cases h) auto

interpretation lheap: priority_queue heap_push heap_pop mset "sorted :: 'a::linorder list \<Rightarrow> bool"
  by unfold_locales (auto simp: heap_push_def sorted_insort split: option.splits elim: heap_pop.elims)

section \<open>The k-way union\<close>

definition pending :: "posting list list \<Rightarrow> heap_entry multiset \<Rightarrow> posting multiset" where
  "pending sources H = (\<Sum>(d, i, off) \<in># H. mset (drop off (sources ! i)))"

definition entry_ok :: "posting list list \<Rightarrow> heap_entry \<Rightarrow> bool" where
  "entry_ok sources = (\<lambda>(d, i, off). off < length (sources ! i) \<and> d = doc_id (sources ! i ! off)
     \<and> sorted (map doc_id (sources ! i)))"

lemma pending_add [simp]:
  "pending sources {#} = {#}"
  "pending sources (add_mset (d, i, off) H) = mset (drop off (sources ! i)) + pending sources H"
  by (simp_all add: pending_def)

lemma entry_ok_lower:
  assumes "entry_ok sources (d, i, off)" and "p \<in> set (drop off (sources ! i))"
  shows "d \<le> doc_id p"
proof -
  from assms(2) obtain j where "j < length (sources ! i) - off" "p = sources ! i ! (off + j)"
    by (auto simp: in_set_conv_nth)
  with assms(1) show ?thesis
    using sorted_nth_mono [of "map doc_id (sources ! i)" off "off + j"] by (simp add: entry_ok_def)
qed

lemma pending_lower:
  assumes "\<And>e. e \<in># H \<Longrightarrow> entry_ok sources e" and "\<And>e. e \<in># H \<Longrightarrow> d \<le> fst e" and "p \<in># pending sources H"
  shows "d \<le> doc_id p"
  using assms
proof (induction H)
  case (add e H)
  obtain d' i off where e: "e = (d', i, off)" by (cases e)
  show ?case
  proof (cases "p \<in> set (drop off (sources ! i))")
    case True
    with add.prems(1) [of e] have "d' \<le> doc_id p" by (simp add: e entry_ok_lower)
    with add.prems(2) [of e] show ?thesis by (simp add: e)
  next
    case False
    with add show ?thesis by (simp add: e)
  qed
qed simp

lemma union_loop_spec:
  assumes "sorted h" and "\<And>e. e \<in> set h \<Longrightarrow> entry_ok sources e"
  shows "mset (union_loop sources h) = pending sources (mset h) \<and> sorted (map doc_id (union_loop sources h))"
  using assms
proof (induction sources h rule: union_loop.induct)
  case (1 sources h)
  show ?case
  proof (cases h)
    case Nil
    then show ?thesis by (simp add: union_loop.simps)
  next
    case (Cons e h')
    obtain d i off where e: "e = (d, i, off)" by (cases e)
    have ok: "entry_ok sources (d, i, off)" using "1.prems"(2) by (simp add: Cons e)
    then have off: "off < length (sources ! i)" by (simp add: entry_ok_def)
    define h2 where "h2 = (if off + 1 < length (sources ! i)
       then heap_push (doc_id (sources ! i ! (off + 1)), i, off + 1) h' else h')"
    have pop: "heap_pop h = Some ((d, i, off), h')" by (simp add: Cons e)
    have step: "union_loop sources h = sources ! i ! off # union_loop sources h2"
      by (subst union_loop.simps) (simp add: Cons e h2_def)
    have ok2: "\<And>e. e \<in> set h2 \<Longrightarrow> entry_ok sources e" and s2: "sorted h2"
      using "1.prems" ok
      by (auto simp: h2_def Cons e heap_push_def set_insort_key sorted_insort entry_ok_def split: if_splits)
    have IH: "mset (union_loop sources h2) = pending sources (mset h2)" "sorted (map doc_id (union_loop sources h2))"
      using "1.IH" [OF pop refl refl refl, folded h2_def, OF s2 ok2] by blast+
    have content: "add_mset (sources ! i ! off) (pending sources (mset h2)) = pending sources (mset h)"
      using off by (auto simp: h2_def Cons e heap_push_def Cons_nth_drop_Suc [symmetric])
    have rest: "d \<le> fst x" if "x \<in> set h'" for x
      using that "1.prems"(1) by (auto simp: Cons e less_eq_prod_def)
    have next_le: "d \<le> doc_id (sources ! i ! Suc off)" if "Suc off < length (sources ! i)"
      using that ok sorted_nth_mono [of "map doc_id (sources ! i)" off "Suc off"] by (simp add: entry_ok_def)
    have "d \<le> fst x" if "x \<in> set h2" for x
    proof (cases "x \<in> set h'")
      case True
      then show ?thesis by (rule rest)
    next
      case False
      with that next_le show ?thesis
        by (auto simp: h2_def heap_push_def set_insort_key split: if_splits)
    qed
    then have "\<forall>p \<in> set (union_loop sources h2). d \<le> doc_id p"
      using pending_lower [of "mset h2" sources d] ok2 IH(1) by (metis set_mset_mset)
    then show ?thesis
      using IH(2) ok unfolding step content [symmetric] by (simp add: IH(1) entry_ok_def)
  qed
qed

lemma heap_init_spec:
  assumes "\<And>s. s \<in> set sources \<Longrightarrow> s \<noteq> [] \<and> sorted (map doc_id s)"
  shows "sorted (heap_init sources)"
    and "e \<in> set (heap_init sources) \<Longrightarrow> entry_ok sources e"
    and "pending sources (mset (heap_init sources)) = mset (concat sources)"
proof -
  let ?es = "map (\<lambda>i. (doc_id (sources ! i ! 0), i, 0)) [0..<length sources]"
  have fold: "heap_init sources = fold heap_push ?es []"
    by (simp add: heap_init_def fold_map comp_def)
  have content: "mset (heap_init sources) = mset ?es" and s: "sorted (heap_init sources)"
    using lheap.push_all [of ?es "[]"] unfolding fold by auto
  show "sorted (heap_init sources)" by (fact s)
  have "set (heap_init sources) = set ?es"
    using content by (rule mset_eq_setD)
  then show "e \<in> set (heap_init sources) \<Longrightarrow> entry_ok sources e"
    using assms by (auto simp: entry_ok_def)
  have "pending sources (mset ?es) = mset (concat (map ((!) sources) [0..<length sources]))"
    unfolding pending_def by (simp add: mset_concat comp_def image_mset.compositionality sum_mset_sum_list [symmetric] flip: sum_mset_sum_list)
  then show "pending sources (mset (heap_init sources)) = mset (concat sources)"
    by (simp only: content map_nth)
qed

lemma combine_mset:
  assumes "mset ps = mset qs" and "\<And>p. p \<in> set ps \<Longrightarrow> doc_id p = d"
  shows "combine ps = combine qs"
proof (cases "length ps \<le> 1")
  case True
  with assms(1) show ?thesis
    by (cases ps) (auto dest: mset_eq_length)
next
  case False
  have len: "length ps = length qs" using assms(1) by (rule mset_eq_length)
  have sets: "set ps = set qs" using assms(1) by (rule mset_eq_setD)
  have pos: "ascending (positions (combine xs))" if "length xs > 1" for xs
    using that by (cases xs rule: rev_cases) (auto simp: combine_snoc)
  have "doc_id (combine ps) = doc_id (combine qs)"
    using False len assms(2) sets by (metis combine_doc_id hd_in_set le_zero_eq list.size(3) not_one_le_zero nle_le)
  moreover have "weight (combine ps) = weight (combine qs)"
    using False len sets by (subst (1 2) combine_weight) auto
  moreover have "positions (combine ps) = positions (combine qs)"
  proof (intro ascending_eqI pos)
    have "ps \<noteq> []" "qs \<noteq> []" using False len by auto
    then show "set (positions (combine ps)) = set (positions (combine qs))"
      by (simp add: combine_positions sets)
  qed (use False len in auto)
  ultimately show ?thesis by simp
qed

lemma merge_by_doc_mset:
  assumes "mset ps = mset qs"
  shows "merge_by_doc ps = merge_by_doc qs"
proof -
  have "sort_dedup (map doc_id ps) = sort_dedup (map doc_id qs)"
    using mset_eq_setD [OF assms] by (simp add: sort_dedup_eq_iff)
  moreover have "combine (filter (\<lambda>p. doc_id p = d) ps) = combine (filter (\<lambda>p. doc_id p = d) qs)" for d
    using assms by (intro combine_mset) (auto simp: mset_filter)
  ultimately show ?thesis by (simp add: merge_by_doc_def)
qed

lemma concat_filter_nonempty: "concat (filter (\<lambda>s. s \<noteq> []) xss) = concat xss"
  by (induction xss) auto

lemma items_union_many:
  assumes "\<And>l. l \<in> set ls \<Longrightarrow> pl_ok l"
  shows "items (union_many ls) = merge_by_doc (concat (map items ls))" and "pl_ok (union_many ls)"
proof -
  let ?src = "filter (\<lambda>s. s \<noteq> []) (map items ls)"
  have src: "s \<noteq> [] \<and> sorted (map doc_id s)" if "s \<in> set ?src" for s
    using that assms by (auto simp: pl_ok_def ascending_sorted)
  have all: "concat (map items ls) = concat ?src"
    by (simp add: concat_filter_nonempty)
  have loop: "mset (union_loop ?src (heap_init ?src)) = mset (concat ?src)
      \<and> sorted (map doc_id (union_loop ?src (heap_init ?src)))"
    using union_loop_spec [of "heap_init ?src" ?src] heap_init_spec [of ?src] src by metis
  have "items (union_many ls) = merge_by_doc (concat ?src) \<and> pl_ok (union_many ls)"
  proof (cases ?src)
    case Nil
    then show ?thesis by (simp add: union_many_def Let_def pl_new_def merge_by_doc_def pl_ok_def)
  next
    case (Cons s rest)
    show ?thesis
    proof (cases rest)
      case Nil
      with Cons src [of s] show ?thesis
        by (simp add: union_many_def Let_def items_from_sorted pl_ok_from_sorted)
    next
      case (Cons t rest')
      with \<open>?src = s # rest\<close> have "union_many ls = from_sorted (union_loop ?src (heap_init ?src))"
        by (simp add: union_many_def Let_def)
      then show ?thesis
        using loop merge_by_doc_mset [of "union_loop ?src (heap_init ?src)" "concat ?src"]
        by (simp only: items_from_sorted pl_ok_from_sorted simp_thms)
    qed
  qed
  then show "items (union_many ls) = merge_by_doc (concat (map items ls))" "pl_ok (union_many ls)"
    by (simp_all only: all)
qed


section \<open>Tombstones\<close>

lemma items_ds_filter:
  assumes "pl_ok l"
  shows "items (ds_filter ds l) = filter (\<lambda>p. doc_id p \<notin> ds) (items l)" and "pl_ok (ds_filter ds l)"
proof -
  have asc: "ascending (map doc_id (filter (\<lambda>p. doc_id p \<notin> ds) (items l)))"
    using assms by (simp add: pl_ok_def ascending_filter)
  then show "items (ds_filter ds l) = filter (\<lambda>p. doc_id p \<notin> ds) (items l)"
    by (simp add: ds_filter_def is_deleted_def items_from_ascending)
  from asc assms show "pl_ok (ds_filter ds l)"
    by (simp add: ds_filter_def is_deleted_def pl_ok_from_sorted ascending_sorted)
qed

lemma items_filter_in_place:
  "items (filter_in_place ds l) = filter (\<lambda>p. doc_id p \<notin> ds) (items l)"
  by (simp add: filter_in_place_def is_deleted_def)

lemma pl_ok_filter_in_place [pl_intros]: "pl_ok l \<Longrightarrow> pl_ok (filter_in_place ds l)"
  by (simp add: filter_in_place_def pl_ok_retain)

section \<open>Properties\<close>

text \<open>C32. \<open>PostingCursor::advance_to\<close>, galloping and bisecting, never moves backwards, stops on the
  first posting at or after the cursor whose document is at least the target, and skips only
  smaller documents.\<close>

theorem advance_to_spec:
  assumes "sorted (map doc_id (postings c))" and "index c \<le> length (postings c)"
  shows "advance_to c target =
      c\<lparr>index := max (index c) (partition_point (\<lambda>p. doc_id p < target) (postings c))\<rparr>
    \<and> list_all (\<lambda>p. doc_id p < target) (drop (index c) (take (index (advance_to c target)) (postings c)))
    \<and> (case cursor_doc_id (advance_to c target) of None \<Rightarrow> True | Some d \<Rightarrow> target \<le> d)"
proof -
  have seek: "index (advance_to c target) = cursor_seek (postings c) (index c) target"
    by (simp add: cursor_seek_def advance_to_eq assms(1))
  have "doc_id p < target" if "p \<in> set (drop (index c) (take (index (advance_to c target)) (postings c)))" for p
  proof -
    from that obtain i where "i < min (length (postings c)) (index (advance_to c target)) - index c"
      and "p = drop (index c) (take (index (advance_to c target)) (postings c)) ! i"
      by (auto simp: in_set_conv_nth)
    moreover from calculation have "index c + i < length (postings c)" "index c + i < index (advance_to c target)"
      by auto
    ultimately show ?thesis
      using cur_search.seek_skipped [OF assms, of "index c + i" target] by (simp add: seek nth_drop)
  qed
  moreover have "target \<le> d" if "cursor_doc_id (advance_to c target) = Some d" for d
    using that cur_search.seek_reached [OF assms, of target "index (advance_to c target)"]
    by (auto simp: cursor_doc_id_def slice_get_def advance_to_postings seek [symmetric] split: if_splits)
  ultimately show ?thesis
    unfolding list_all_iff by (intro conjI advance_to_eq assms(1)) (auto split: option.split)
qed

definition sample_cursor :: posting_cursor where
  "sample_cursor = \<lparr>postings = map (\<lambda>d. with_weight d [1] 0) [2, 3, 5, 8, 13, 21, 34, 55], index = 1\<rparr>"

theorem advance_to_spec_witness:
  "sorted (map doc_id (postings sample_cursor)) \<and> index (advance_to sample_cursor 30) = 6
   \<and> advance_to sample_cursor 30 = sample_cursor\<lparr>index := 6\<rparr>"
proof -
  have h: "sorted (map doc_id (postings sample_cursor))" "index sample_cursor \<le> length (postings sample_cursor)"
    by (simp_all add: sample_cursor_def)
  have "partition_point (\<lambda>p. doc_id p < 30) (postings sample_cursor) = 6"
    by (simp add: sample_cursor_def partition_point_def)
  with h advance_to_spec [OF h, of 30] show ?thesis by (simp add: sample_cursor_def)
qed

text \<open>C21. \<open>intersection\<close> returns exactly the documents of both lists whichever strategy its cost
  estimate picks, keeps the list invariant, and its postings are those of one of the two lists.\<close>

theorem intersection_spec:
  assumes "pl_ok l" and "pl_ok r"
  shows "docs (items (intersection l r)) = docs (items l) \<inter> docs (items r)
    \<and> pl_ok (intersection l r)
    \<and> items (intersection l r) \<in> {filter (\<lambda>p. doc_id p \<in> docs (items r)) (items l),
         filter (\<lambda>p. doc_id p \<in> docs (items l)) (items r)}"
proof -
  have "items (intersection l r) \<in> {filter (\<lambda>p. doc_id p \<in> docs (items r)) (items l),
         filter (\<lambda>p. doc_id p \<in> docs (items l)) (items r)}"
    using assms by (simp add: intersection_def Let_def items_linear_search items_exponential_search)
  then show ?thesis
    using pl_ok_intersection [OF assms] by (auto simp: docs_filter)
qed

theorem intersection_spec_witness:
  "pl_ok sample_list \<and> docs (items (intersection sample_list (from_sorted [with_weight 9 [1] 2]))) = {9}"
proof -
  have h: "pl_ok sample_list" "pl_ok (from_sorted [with_weight 9 [1] 2])"
    by (simp_all add: sample_list_def pl_ok_def from_sorted_def largest_weight_def)
  have "items (from_sorted [with_weight 9 [1] 2]) = [with_weight 9 [1] 2]"
    by (simp add: from_sorted_def)
  with h intersection_spec [OF h] show ?thesis by (simp add: sample_list_def)
qed

text \<open>C19. The heap-driven k-way merge \<open>union_many\<close> returns the reference merge of all its lists,
  however many there are and in whatever order they come, and keeps the invariant.\<close>

theorem union_many_merges:
  assumes "\<forall>l \<in> set ls. pl_ok l"
  shows "items (union_many ls) = merge_by_doc (concat (map items ls)) \<and> pl_ok (union_many ls)
    \<and> docs (items (union_many ls)) = (\<Union>l \<in> set ls. docs (items l))
    \<and> hits (items (union_many ls)) = (\<Union>l \<in> set ls. hits (items l))"
proof -
  have "docs (concat (map items ls)) = (\<Union>l \<in> set ls. docs (items l))"
    and "hits (concat (map items ls)) = (\<Union>l \<in> set ls. hits (items l))"
    by (induction ls) simp_all
  with assms show ?thesis by (simp add: items_union_many)
qed

theorem union_many_merges_witness:
  "pl_ok sample_list \<and> items (union_many [sample_list, pl_new, sample_list])
     = merge_by_doc (items sample_list @ items sample_list)"
proof -
  have h: "pl_ok sample_list"
    by (simp add: sample_list_def pl_ok_def)
  then have "\<forall>l \<in> set [sample_list, pl_new, sample_list]. pl_ok l" by simp
  from union_many_merges [OF this] h show ?thesis by (simp add: pl_new_def)
qed

section \<open>Merging what was merged before\<close>

lemma combine_absorb: "ps \<noteq> [] \<Longrightarrow> combine (combine ps # qs) = combine (ps @ qs)"
  by (simp add: combine_def)

lemma filter_merge_by_doc:
  "filter (\<lambda>p. doc_id p = d) (merge_by_doc ps) = (if d \<in> docs ps then [combine (filter (\<lambda>p. doc_id p = d) ps)] else [])"
proof -
  let ?c = "\<lambda>d. combine (filter (\<lambda>p. doc_id p = d) ps)"
  have id: "doc_id (?c d) = d" if "d \<in> docs ps" for d
  proof -
    from that have "filter (\<lambda>p. doc_id p = d) ps \<noteq> []" by (auto simp: docs_def filter_empty_conv)
    from combine_doc_id [OF this] hd_in_set [OF this] show ?thesis by auto
  qed
  have "filter (\<lambda>p. doc_id p = d) (map ?c ds) = map ?c (filter (\<lambda>e. e = d) ds)" if "set ds \<subseteq> docs ps" for ds
    using that id by (induction ds) auto
  moreover have "filter (\<lambda>e. e = d) ds = (if d \<in> set ds then [d] else [])" if "distinct ds" for ds
    using that by (induction ds) auto
  ultimately show ?thesis
    using ascending_distinct [OF ascending_sort_dedup, of "map doc_id ps"]
    by (simp add: merge_by_doc_def docs_def)
qed

lemma merge_by_doc_absorb: "merge_by_doc (merge_by_doc ps @ qs) = merge_by_doc (ps @ qs)"
proof -
  have ids: "sort_dedup (map doc_id (merge_by_doc ps @ qs)) = sort_dedup (map doc_id (ps @ qs))"
    by (simp add: sort_dedup_eq_iff flip: docs_def)
  have "combine (filter (\<lambda>p. doc_id p = d) (merge_by_doc ps @ qs)) = combine (filter (\<lambda>p. doc_id p = d) (ps @ qs))" for d
  proof (cases "d \<in> docs ps")
    case True
    then have "filter (\<lambda>p. doc_id p = d) ps \<noteq> []" by (auto simp: docs_def filter_empty_conv)
    with True show ?thesis by (simp add: filter_merge_by_doc combine_absorb)
  next
    case False
    then have "filter (\<lambda>p. doc_id p = d) ps = []" by (auto simp: docs_def filter_empty_conv)
    with False show ?thesis by (simp add: filter_merge_by_doc)
  qed
  with ids show ?thesis by (simp only: merge_by_doc_def [of "merge_by_doc ps @ qs"] merge_by_doc_def [of "ps @ qs"])
qed

lemma merge_by_doc_absorb_right: "merge_by_doc (ps @ merge_by_doc qs) = merge_by_doc (ps @ qs)"
proof -
  have "merge_by_doc (ps @ merge_by_doc qs) = merge_by_doc (merge_by_doc qs @ ps)" by (rule merge_by_doc_mset) simp
  also have "\<dots> = merge_by_doc (ps @ qs)" unfolding merge_by_doc_absorb by (rule merge_by_doc_mset) simp
  finally show ?thesis .
qed

lemma merge_by_doc_idem [simp]: "merge_by_doc (merge_by_doc ps) = merge_by_doc ps"
  using merge_by_doc_absorb [of ps "[]"] by simp

lemma merge_by_doc_concat_absorb: "merge_by_doc (concat (map (\<lambda>x. merge_by_doc (f x)) xs)) = merge_by_doc (concat (map f xs))"
proof (induction xs)
  case (Cons x xs)
  have "merge_by_doc (merge_by_doc (f x) @ concat (map (\<lambda>x. merge_by_doc (f x)) xs)) =
      merge_by_doc (f x @ merge_by_doc (concat (map (\<lambda>x. merge_by_doc (f x)) xs)))"
    by (simp only: merge_by_doc_absorb merge_by_doc_absorb_right)
  with Cons show ?case by (simp add: merge_by_doc_absorb_right)
qed simp

lemma filter_merge_by_doc_live:
  "filter (\<lambda>p. P (doc_id p)) (merge_by_doc ps) = merge_by_doc (filter (\<lambda>p. P (doc_id p)) ps)"
proof -
  let ?c = "\<lambda>ps d. combine (filter (\<lambda>p. doc_id p = d) ps)"
  have sd: "filter P (sort_dedup ds) = sort_dedup (filter P ds)" for ds :: "u64 list"
    by (rule ascending_eqI) (use ascending_filter [of "\<lambda>x. x" "sort_dedup ds" P] in \<open>auto\<close>)
  have "filter (\<lambda>p. P (doc_id p)) (merge_by_doc ps) = map (?c ps) (filter P (sort_dedup (map doc_id ps)))"
  proof -
    have "doc_id (?c ps d) = d" if "d \<in> set (map doc_id ps)" for d
    proof -
      from that have "filter (\<lambda>p. doc_id p = d) ps \<noteq> []" by (auto simp: filter_empty_conv)
      from combine_doc_id [OF this] hd_in_set [OF this] show ?thesis by auto
    qed
    then have "filter (\<lambda>p. P (doc_id p)) (map (?c ps) ds) = map (?c ps) (filter P ds)" if "set ds \<subseteq> set (map doc_id ps)" for ds
      using that by (induction ds) auto
    then show ?thesis by (simp add: merge_by_doc_def)
  qed
  also have "\<dots> = map (?c (filter (\<lambda>p. P (doc_id p)) ps)) (filter P (sort_dedup (map doc_id ps)))"
  proof (rule map_cong [OF refl])
    fix d
    assume "d \<in> set (filter P (sort_dedup (map doc_id ps)))"
    then have "filter (\<lambda>p. doc_id p = d) (filter (\<lambda>p. P (doc_id p)) ps) = filter (\<lambda>p. doc_id p = d) ps"
      by (auto simp: filter_filter intro: filter_cong)
    then show "?c ps d = ?c (filter (\<lambda>p. P (doc_id p)) ps) d" by simp
  qed
  also have "\<dots> = merge_by_doc (filter (\<lambda>p. P (doc_id p)) ps)"
    by (simp add: sd merge_by_doc_def filter_map comp_def)
  finally show ?thesis .
qed

end
