(* ===== verification/Wildcard.thy ===== *)
theory Wildcard
  imports Posting_Ops
begin

text \<open>
  \<^verbatim>\<open>crates/core-index/src/wildcard.rs\<close>: wildcard patterns (\<open>*\<close>, \<open>?\<close>, \<open>[abc]\<close>), their parser and
  matcher, and the capped union of the matching terms' postings.  The parser is compared with a
  reading of the pattern text that does not build tokens, the matcher with the language of a
  token list.  A character is a value of \<open>char\<close>: the code only compares characters.
\<close>

section \<open>Patterns\<close>

datatype wildcard_token = Literal string | Any | One | OneOf string

record wildcard_pattern =
  tokens :: "wildcard_token list"

definition MAX_PATTERN_TERMS :: nat where
  "MAX_PATTERN_TERMS = 128"

text \<open>\<open>if !literal.is_empty() { tokens.push(Literal(take(literal))) }\<close>.\<close>

definition flush_literal :: "wildcard_token list \<Rightarrow> string \<Rightarrow> wildcard_token list" where
  "flush_literal toks lit = (if lit \<noteq> [] then toks @ [Literal lit] else toks)"

function parse_loop :: "wildcard_token list \<Rightarrow> string \<Rightarrow> string \<Rightarrow> wildcard_token list" where
  "parse_loop toks lit [] = flush_literal toks lit"
| "parse_loop toks lit (ch # chars) =
     (if ch = CHR ''*'' then
        let toks = flush_literal toks lit
        in parse_loop (if toks \<noteq> [] \<and> last toks = Any then toks else toks @ [Any]) [] chars
      else if ch = CHR ''?'' then parse_loop (flush_literal toks lit @ [One]) [] chars
      else if ch = CHR ''['' then
        parse_loop (flush_literal toks lit @ [OneOf (takeWhile (\<lambda>c. c \<noteq> CHR '']'') chars)]) []
          (tl (dropWhile (\<lambda>c. c \<noteq> CHR '']'') chars))
      else parse_loop toks (lit @ [ch]) chars)"
  by pat_completeness auto
termination
proof (relation "measure (\<lambda>(toks, lit, chars). length chars)", goal_cases)
  case (4 toks lit ch chars)
  have "length (dropWhile (\<lambda>c. c \<noteq> CHR '']'') chars) \<le> length chars" by (rule length_dropWhile_le)
  then show ?case by simp
qed auto

definition wildcard_parse :: "string \<Rightarrow> wildcard_pattern" where
  "wildcard_parse input = \<lparr>tokens = parse_loop [] [] input\<rparr>"

definition wildcard_prefix :: "wildcard_pattern \<Rightarrow> string" where
  "wildcard_prefix p = (case tokens p of Literal s # _ \<Rightarrow> s | _ \<Rightarrow> [])"

definition is_prefix_only :: "wildcard_pattern \<Rightarrow> bool" where
  "is_prefix_only p = (case tokens p of [Literal _, Any] \<Rightarrow> True | _ \<Rightarrow> False)"

function matches_from :: "wildcard_token list \<Rightarrow> nat \<Rightarrow> nat \<Rightarrow> string \<Rightarrow> bool" where
  "matches_from toks token_i char_i chars =
     (if token_i \<ge> length toks then char_i = length chars
      else case toks ! token_i of
          Literal lit \<Rightarrow>
            if length chars < char_i + length lit then False
            else if take (length lit) (drop char_i chars) = lit
            then matches_from toks (token_i + 1) (char_i + length lit) chars
            else False
        | Any \<Rightarrow> list_ex (\<lambda>next_i. matches_from toks (token_i + 1) next_i chars) [char_i..<length chars + 1]
        | One \<Rightarrow> if char_i < length chars then matches_from toks (token_i + 1) (char_i + 1) chars else False
        | OneOf set_ \<Rightarrow>
            if char_i < length chars \<and> chars ! char_i \<in> set set_
            then matches_from toks (token_i + 1) (char_i + 1) chars else False)"
  by pat_completeness auto
termination
  by (relation "measure (\<lambda>(toks, token_i, char_i, chars). length toks - token_i)") auto

declare matches_from.simps [simp del]

definition wildcard_matches :: "wildcard_pattern \<Rightarrow> string \<Rightarrow> bool" where
  "wildcard_matches p word = matches_from (tokens p) 0 0 word"

definition capped_union :: "(string \<times> posting_list) list \<Rightarrow> posting_list" where
  "capped_union ms =
     (let ms = sort_key (\<lambda>(t, l). (- int (pl_len l), t)) ms;
          ms = take MAX_PATTERN_TERMS ms
      in from_items (concat (map (\<lambda>(_, l). items l) ms)))"

section \<open>What a pattern means\<close>

primrec lang :: "wildcard_token list \<Rightarrow> string set" where
  "lang [] = {[]}"
| "lang (t # ts) = (case t of
      Literal s \<Rightarrow> {s @ w | w. w \<in> lang ts}
    | Any \<Rightarrow> {u @ w | u w. w \<in> lang ts}
    | One \<Rightarrow> {c # w | c w. w \<in> lang ts}
    | OneOf cs \<Rightarrow> {c # w | c w. c \<in> set cs \<and> w \<in> lang ts})"

text \<open>The reading of the pattern text, one character at a time.\<close>

function glob :: "string \<Rightarrow> string set" where
  "glob [] = {[]}"
| "glob (ch # p) =
     (if ch = CHR ''*'' then {u @ w | u w. w \<in> glob p}
      else if ch = CHR ''?'' then {c # w | c w. w \<in> glob p}
      else if ch = CHR ''['' then
        {c # w | c w. c \<in> set (takeWhile (\<lambda>c. c \<noteq> CHR '']'') p)
                 \<and> w \<in> glob (tl (dropWhile (\<lambda>c. c \<noteq> CHR '']'') p))}
      else {ch # w | w. w \<in> glob p})"
  by pat_completeness auto
termination
proof (relation "measure length", goal_cases)
  case (4 ch p)
  have "length (dropWhile (\<lambda>c. c \<noteq> CHR '']'') p) \<le> length p" by (rule length_dropWhile_le)
  then show ?case by simp
qed auto

definition seq_lang :: "string set \<Rightarrow> string set \<Rightarrow> string set" where
  "seq_lang A B = {u @ v | u v. u \<in> A \<and> v \<in> B}"

lemma seq_lang_assoc: "seq_lang (seq_lang A B) C = seq_lang A (seq_lang B C)"
proof (intro set_eqI iffI)
  fix x
  assume "x \<in> seq_lang (seq_lang A B) C"
  then obtain a b c where "x = a @ (b @ c)" "a \<in> A" "b \<in> B" "c \<in> C"
    by (auto simp: seq_lang_def)
  then show "x \<in> seq_lang A (seq_lang B C)" unfolding seq_lang_def by blast
next
  fix x
  assume "x \<in> seq_lang A (seq_lang B C)"
  then obtain a b c where "x = (a @ b) @ c" "a \<in> A" "b \<in> B" "c \<in> C"
    by (auto simp: seq_lang_def)
  then show "x \<in> seq_lang (seq_lang A B) C" unfolding seq_lang_def by blast
qed

lemma seq_lang_chars: "seq_lang {[c] | c. P c} B = {c # w | c w. P c \<and> w \<in> B}"
proof -
  have "c # w \<in> seq_lang {[c] | c. P c} B" if "P c" "w \<in> B" for c w
    unfolding seq_lang_def using that by (intro CollectI exI [of _ "[c]"] exI [of _ w]) auto
  then show ?thesis by (auto simp: seq_lang_def)
qed

lemmas seq_lang_any_char = seq_lang_chars [of "\<lambda>_. True", simplified]

lemma lang_single:
  "lang [Literal s] = {s}" "lang [Any] = UNIV" "lang [One] = {[c] | c. True}" "lang [OneOf cs] = {[c] | c. c \<in> set cs}"
  by auto

lemma seq_lang_UNIV: "seq_lang UNIV B = {u @ w | u w. w \<in> B}"
  by (simp add: seq_lang_def)

lemma seq_lang_unit [simp]: "seq_lang {[]} A = A" "seq_lang A {[]} = A"
  by (auto simp: seq_lang_def)

lemma seq_lang_literals: "seq_lang {u} {v} = {u @ v}"
  by (auto simp: seq_lang_def)

lemma lang_append: "lang (ts @ ts') = seq_lang (lang ts) (lang ts')"
proof (induction ts)
  case (Cons t ts)
  have step: "lang (t # us) = seq_lang (lang [t]) (lang us)" for us
    by (cases t) (simp_all add: lang_single seq_lang_chars seq_lang_any_char seq_lang_UNIV seq_lang_def [of "{_}"] del: lang.simps(2), simp_all)
  show ?case
    using Cons step [of "ts @ ts'"] step [of ts] by (simp only: append_Cons seq_lang_assoc)
qed simp

lemma lang_flush: "lang (flush_literal toks lit) = seq_lang (lang toks) {lit}"
  by (auto simp: flush_literal_def lang_append)

lemma any_any: "seq_lang (lang [Any]) (lang [Any]) = lang [Any]"
  by (auto simp: seq_lang_def)

lemma glob_Cons_seq:
  "glob (ch # p) =
     (if ch = CHR ''*'' then seq_lang (lang [Any]) (glob p)
      else if ch = CHR ''?'' then seq_lang (lang [One]) (glob p)
      else if ch = CHR ''['' then
        seq_lang (lang [OneOf (takeWhile (\<lambda>c. c \<noteq> CHR '']'') p)])
          (glob (tl (dropWhile (\<lambda>c. c \<noteq> CHR '']'') p)))
      else seq_lang {[ch]} (glob p))"
  by (simp add: lang_single seq_lang_chars seq_lang_any_char seq_lang_UNIV seq_lang_def [of "{_}"] del: lang.simps)

lemma parse_loop_lang: "lang (parse_loop toks lit input) = seq_lang (lang toks) (seq_lang {lit} (glob input))"
proof (induction toks lit input rule: parse_loop.induct)
  case (1 toks lit)
  then show ?case by (simp add: lang_flush)
next
  case (2 toks lit ch chars)
  let ?f = "flush_literal toks lit"
  have star: "lang (if ?f \<noteq> [] \<and> last ?f = Any then ?f else ?f @ [Any]) = seq_lang (lang ?f) (lang [Any])"
  proof (cases "?f \<noteq> [] \<and> last ?f = Any")
    case True
    then have "?f = butlast ?f @ [Any]" by (metis append_butlast_last_id)
    then have "lang ?f = seq_lang (lang (butlast ?f)) (lang [Any])" by (metis lang_append)
    then have "seq_lang (lang ?f) (lang [Any]) = lang ?f" by (simp only: seq_lang_assoc any_any)
    with True show ?thesis by simp
  qed (auto simp: lang_append)
  consider (star) "ch = CHR ''*''" | (one) "ch = CHR ''?''" | (set) "ch = CHR ''[''"
    | (lit) "ch \<notin> {CHR ''*'', CHR ''?'', CHR ''[''}" by blast
  then show ?case
  proof cases
    case star
    then show ?thesis
      using "2.IH"(1) [OF star refl] \<open>lang (if _ then _ else _) = _\<close>
      by (simp add: glob_Cons_seq Let_def lang_flush seq_lang_assoc del: lang.simps glob.simps)
  next
    case one
    then show ?thesis
      using "2.IH"(2) by (simp add: glob_Cons_seq lang_flush lang_append seq_lang_assoc del: lang.simps glob.simps)
  next
    case set
    then show ?thesis
      using "2.IH"(3) by (simp add: glob_Cons_seq lang_flush lang_append seq_lang_assoc del: lang.simps glob.simps)
  next
    case lit
    then show ?thesis
      using "2.IH"(4) by (simp add: glob_Cons_seq seq_lang_literals [symmetric] seq_lang_assoc del: lang.simps glob.simps)
  qed
qed

section \<open>The matcher\<close>

lemma matches_from_lang:
  "char_i \<le> length chars \<Longrightarrow>
     matches_from toks token_i char_i chars \<longleftrightarrow> drop char_i chars \<in> lang (drop token_i toks)"
proof (induction toks token_i char_i chars rule: matches_from.induct)
  case (1 toks token_i char_i chars)
  show ?case
  proof (cases "token_i < length toks")
    case False
    with "1.prems" show ?thesis by (subst matches_from.simps) auto
  next
    case True
    then have d: "drop token_i toks = toks ! token_i # drop (Suc token_i) toks"
      by (simp add: Cons_nth_drop_Suc)
    have cons: "(\<exists>c w. drop char_i chars = c # w \<and> P c w) \<longleftrightarrow>
        char_i < length chars \<and> P (chars ! char_i) (drop (Suc char_i) chars)" for P
      by (cases "char_i < length chars") (auto simp flip: Cons_nth_drop_Suc)
    show ?thesis
    proof (cases "toks ! token_i")
      case (Literal lit)
      have "(\<exists>w. drop char_i chars = lit @ w \<and> w \<in> L) \<longleftrightarrow>
          char_i + length lit \<le> length chars \<and> take (length lit) (drop char_i chars) = lit
          \<and> drop (char_i + length lit) chars \<in> L" for L
      proof
        assume "\<exists>w. drop char_i chars = lit @ w \<and> w \<in> L"
        then obtain w where w: "drop char_i chars = lit @ w" "w \<in> L" by blast
        from w(1) "1.prems" have "length chars - char_i = length lit + length w"
          by (metis length_append length_drop)
        moreover from w(1) have "drop (char_i + length lit) chars = w"
          by (metis add.commute append_eq_conv_conj drop_drop)
        ultimately show "char_i + length lit \<le> length chars \<and> take (length lit) (drop char_i chars) = lit
          \<and> drop (char_i + length lit) chars \<in> L"
          using w "1.prems" by auto
      next
        assume a: "char_i + length lit \<le> length chars \<and> take (length lit) (drop char_i chars) = lit
          \<and> drop (char_i + length lit) chars \<in> L"
        then have "drop char_i chars = lit @ drop (char_i + length lit) chars"
          by (metis add.commute append_take_drop_id drop_drop)
        with a show "\<exists>w. drop char_i chars = lit @ w \<and> w \<in> L" by blast
      qed
      with True Literal "1.IH"(1) [OF _ Literal] show ?thesis
        by (subst matches_from.simps) (auto simp: d)
    next
      case Any
      have "(\<exists>u w. drop char_i chars = u @ w \<and> w \<in> L) \<longleftrightarrow>
          (\<exists>n \<in> {char_i..length chars}. drop n chars \<in> L)" for L
      proof
        assume "\<exists>u w. drop char_i chars = u @ w \<and> w \<in> L"
        then obtain u w where w: "drop char_i chars = u @ w" "w \<in> L" by blast
        from w(1) have "drop (char_i + length u) chars = w"
          by (metis add.commute append_eq_conv_conj drop_drop)
        moreover from w(1) "1.prems" have "length chars - char_i = length u + length w"
          by (metis length_append length_drop)
        ultimately show "\<exists>n \<in> {char_i..length chars}. drop n chars \<in> L"
          using w(2) "1.prems" by (intro bexI [of _ "char_i + length u"]) auto
      next
        assume "\<exists>n \<in> {char_i..length chars}. drop n chars \<in> L"
        then obtain n where n: "char_i \<le> n" "drop n chars \<in> L" by auto
        then have "drop char_i chars = take (n - char_i) (drop char_i chars) @ drop n chars"
          by (metis append_take_drop_id drop_drop le_add_diff_inverse2)
        with n(2) show "\<exists>u w. drop char_i chars = u @ w \<and> w \<in> L" by blast
      qed
      with True Any "1.IH"(2) [OF _ Any] show ?thesis
        by (subst matches_from.simps) (simp add: d list_ex_iff atLeastLessThanSuc_atLeastAtMost
            del: upt_Suc lang.simps(1))
    next
      case One
      with True "1.IH"(3) [OF _ One] cons [of "\<lambda>c w. w \<in> lang (drop (Suc token_i) toks)"] show ?thesis
        by (subst matches_from.simps) (auto simp: d)
    next
      case (OneOf cs)
      with True "1.IH"(4) [OF _ OneOf] cons [of "\<lambda>c w. c \<in> set cs \<and> w \<in> lang (drop (Suc token_i) toks)"] show ?thesis
        by (subst matches_from.simps) (auto simp: d)
    qed
  qed
qed

section \<open>The capped union\<close>

lemma pl_ok_capped_union [pl_intros]: "pl_ok (capped_union ms)"
  by (simp add: capped_union_def Let_def pl_ok_from_items)

lemma capped_union_few:
  assumes "length ms \<le> MAX_PATTERN_TERMS"
  shows "items (capped_union ms) = merge_by_doc (concat (map (\<lambda>(_, l). items l) ms))"
proof -
  let ?k = "\<lambda>(t, l). (- int (pl_len l), t)"
  have "take MAX_PATTERN_TERMS (sort_key ?k ms) = sort_key ?k ms"
    using assms by simp
  then have "items (capped_union ms) = merge_by_doc (concat (map (\<lambda>(_, l). items l) (sort_key ?k ms)))"
    by (simp add: capped_union_def Let_def items_from_items)
  also have "\<dots> = merge_by_doc (concat (map (\<lambda>(_, l). items l) ms))"
    by (rule merge_by_doc_mset) (simp add: mset_concat flip: sum_mset_sum_list)
  finally show ?thesis .
qed

lemma wildcard_matches_lang: "wildcard_matches p word \<longleftrightarrow> word \<in> lang (tokens p)"
  by (simp add: wildcard_matches_def matches_from_lang)

lemma wildcard_prefix_lower: "wildcard_matches p word \<Longrightarrow> prefix (wildcard_prefix p) word"
  by (auto simp: wildcard_matches_lang wildcard_prefix_def prefix_def split: list.splits wildcard_token.splits)

lemma wildcard_prefix_iff: "is_prefix_only p \<Longrightarrow> wildcard_matches p word \<longleftrightarrow> prefix (wildcard_prefix p) word"
  by (auto simp: wildcard_matches_lang wildcard_prefix_def is_prefix_only_def prefix_def
      split: list.splits wildcard_token.splits)

section \<open>Properties\<close>

text \<open>C27. Parsing a pattern and matching a word against it agrees with the character-by-character
  reading of the pattern text: \<open>*\<close> stands for any text, \<open>?\<close> for one character, \<open>[...]\<close> for one of
  the listed characters, anything else for itself.\<close>

theorem wildcard_matches_glob: "wildcard_matches (wildcard_parse pat) word \<longleftrightarrow> word \<in> glob pat"
  using matches_from_lang [of 0 word "parse_loop [] [] pat" 0] parse_loop_lang [of "[]" "[]" pat]
  by (simp add: wildcard_matches_def wildcard_parse_def)

text \<open>Every word a pattern matches starts with the pattern's literal prefix, so scanning the
  dictionary from that prefix loses nothing; and for a pattern of the form \<open>abc*\<close> having that
  prefix is the same as matching, so the prefix lookup may replace the scan.\<close>

theorem wildcard_prefix_sound:
  "(wildcard_matches p word \<longrightarrow> prefix (wildcard_prefix p) word)
   \<and> (is_prefix_only p \<longrightarrow> wildcard_matches p word = prefix (wildcard_prefix p) word)"
  by (simp add: wildcard_prefix_lower wildcard_prefix_iff)

theorem wildcard_prefix_sound_witness:
  "is_prefix_only (wildcard_parse ''arch*'')
   \<and> wildcard_matches (wildcard_parse ''arch*'') ''architect''"
proof -
  have p: "is_prefix_only (wildcard_parse ''arch*'')" and w: "wildcard_prefix (wildcard_parse ''arch*'') = ''arch''"
    by (simp_all add: wildcard_parse_def is_prefix_only_def wildcard_prefix_def flush_literal_def Let_def)
  have "prefix ''arch'' ''architect''" by (simp add: prefix_def)
  with p w wildcard_prefix_sound [of "wildcard_parse ''arch*''" "''architect''"] show ?thesis by simp
qed

text \<open>The capped union of matching terms does not depend on the order the terms come in (a hash
  map's), and with at most \<open>MAX_PATTERN_TERMS\<close> terms it is the reference merge of all of them.\<close>

theorem capped_union_order_free:
  assumes "distinct (map fst ms)" and "mset ms = mset ms'"
  shows "capped_union ms = capped_union ms' \<and> pl_ok (capped_union ms)
    \<and> (length ms \<le> MAX_PATTERN_TERMS \<longrightarrow>
         items (capped_union ms) = merge_by_doc (concat (map (\<lambda>(_, l). items l) ms)))"
proof -
  have "distinct (map (\<lambda>(t, l). (- int (pl_len l), t)) ms)"
    using assms(1) by (force simp: distinct_map inj_on_def)
  from sort_key_mset_eq [OF assms(2) this] have "capped_union ms = capped_union ms'"
    by (simp add: capped_union_def)
  then show ?thesis
    using capped_union_few [of ms] pl_ok_capped_union [of ms] by blast
qed

theorem capped_union_order_free_witness:
  "distinct (map fst [(''ab'', sample_list), (''ac'', pl_new)])
   \<and> capped_union [(''ab'', sample_list), (''ac'', pl_new)] = capped_union [(''ac'', pl_new), (''ab'', sample_list)]"
proof -
  have d: "distinct (map fst [(''ab'', sample_list), (''ac'', pl_new)])" by simp
  have m: "mset [(''ab'', sample_list), (''ac'', pl_new)] = mset [(''ac'', pl_new), (''ab'', sample_list)]" by simp
  from d capped_union_order_free [OF d m] show ?thesis by simp
qed

end
