(* ===== verification/Numeric.thy ===== *)
theory Numeric
  imports Ordered_Map
begin

text \<open>
  \<^verbatim>\<open>crates/core-index/src/numeric_values.rs\<close>, \<^verbatim>\<open>bkd.rs\<close> and \<^verbatim>\<open>document_values.rs\<close>: numeric values and
  their order-preserving packing into \<open>u64\<close>, the sorted point list behind range queries, the
  block-indexed column behind point lookups, and the write buffer both are built from.

  An \<open>i64\<close> is the 64-bit word of its two's complement, read by \<open>sint\<close>; an \<open>f64\<close> is the word
  \<open>to_bits\<close> returns, ordered by \<open>f64::total_cmp\<close>, whose definition on bits is written out.  Parsing
  decimal text into floats is not modelled.  Stable and unstable sorts differ only on equal keys;
  where the code sorts by a key unstably the theorems assume the keys distinct.
\<close>

section \<open>Values and their order\<close>

datatype numeric_value = IntV u64 | FloatV u64

datatype numeric_kind = KInt | KFloat

definition value_kind :: "numeric_value \<Rightarrow> numeric_kind" where
  "value_kind v = (case v of IntV _ \<Rightarrow> KInt | FloatV _ \<Rightarrow> KFloat)"

definition kind_to_byte :: "numeric_kind \<Rightarrow> u8" where
  "kind_to_byte k = (case k of KInt \<Rightarrow> 0 | KFloat \<Rightarrow> 1)"

definition kind_from_byte :: "u8 \<Rightarrow> numeric_kind option" where
  "kind_from_byte b = (if b = 0 then Some KInt else if b = 1 then Some KFloat else None)"

text \<open>The integer \<open>total_cmp\<close> compares: the low 63 bits flipped when the sign bit is set.\<close>

definition total_cmp_key :: "u64 \<Rightarrow> u64" where
  "total_cmp_key b = b XOR drop_bit 1 (signed_drop_bit 63 b)"

definition order_key :: "numeric_value \<Rightarrow> int" where
  "order_key v = (case v of IntV a \<Rightarrow> sint a | FloatV a \<Rightarrow> sint (total_cmp_key a))"

lemma drop_signed: "drop_bit 1 (signed_drop_bit 63 b) = (if bit b 63 then mask 63 else 0)" for b :: u64
  by (rule bit_word_eqI) (auto simp: bit_simps min_def dest: bit_imp_le_length)

lemma total_cmp_key_involutive: "total_cmp_key (total_cmp_key b) = b"
proof -
  have "bit (b XOR mask 63) 63 \<longleftrightarrow> bit b 63" by (simp add: bit_simps)
  then show ?thesis
    unfolding total_cmp_key_def drop_signed by (auto simp: xor.assoc)
qed

lemma total_cmp_key_inject [simp]: "total_cmp_key a = total_cmp_key b \<longleftrightarrow> a = b"
  by (metis total_cmp_key_involutive)

instantiation numeric_value :: linorder
begin

definition less_eq_numeric_value :: "numeric_value \<Rightarrow> numeric_value \<Rightarrow> bool" where
  "less_eq_numeric_value a b =
     (case (a, b) of
        (IntV x, IntV y) \<Rightarrow> sint x \<le> sint y
      | (FloatV x, FloatV y) \<Rightarrow> sint (total_cmp_key x) \<le> sint (total_cmp_key y)
      | (IntV _, FloatV _) \<Rightarrow> True
      | (FloatV _, IntV _) \<Rightarrow> False)"

definition less_numeric_value :: "numeric_value \<Rightarrow> numeric_value \<Rightarrow> bool" where
  "less_numeric_value a b = (a \<le> b \<and> \<not> b \<le> a)"

instance
  by standard
    (auto simp: less_eq_numeric_value_def less_numeric_value_def signed_word_eqI split: numeric_value.splits
      dest: order_antisym signed_word_eqI)

end

section \<open>Bounds\<close>

record numeric_bound =
  bound_value :: numeric_value
  inclusive :: bool

definition below_lo :: "numeric_bound \<Rightarrow> numeric_value \<Rightarrow> bool" where
  "below_lo b v =
     (if v < bound_value b then True else if v = bound_value b then \<not> inclusive b else False)"

definition past_hi :: "numeric_bound \<Rightarrow> numeric_value \<Rightarrow> bool" where
  "past_hi b v =
     (if v > bound_value b then True else if v = bound_value b then \<not> inclusive b else False)"

definition in_bounds :: "numeric_value \<Rightarrow> numeric_bound option \<Rightarrow> numeric_bound option \<Rightarrow> bool" where
  "in_bounds v lo hi \<longleftrightarrow>
     (case lo of None \<Rightarrow> True | Some b \<Rightarrow> \<not> below_lo b v) \<and>
     (case hi of None \<Rightarrow> True | Some b \<Rightarrow> \<not> past_hi b v)"

section \<open>Packing\<close>

definition pack_int :: "u64 \<Rightarrow> u64" where
  "pack_int v = v XOR push_bit 63 1"

definition unpack_int :: "u64 \<Rightarrow> u64" where
  "unpack_int p = p XOR push_bit 63 1"

definition pack_float :: "u64 \<Rightarrow> u64" where
  "pack_float bits = (if bits AND push_bit 63 1 \<noteq> 0 then NOT bits else bits XOR push_bit 63 1)"

definition unpack_float :: "u64 \<Rightarrow> u64" where
  "unpack_float p = (if p AND push_bit 63 1 \<noteq> 0 then p XOR push_bit 63 1 else NOT p)"

definition pack :: "numeric_value \<Rightarrow> u64" where
  "pack v = (case v of IntV a \<Rightarrow> pack_int a | FloatV a \<Rightarrow> pack_float a)"

definition unpack :: "u64 \<Rightarrow> numeric_kind \<Rightarrow> numeric_value" where
  "unpack p k = (case k of KInt \<Rightarrow> IntV (unpack_int p) | KFloat \<Rightarrow> FloatV (unpack_float p))"

section \<open>The point list\<close>

record bkd =
  bkd_kind :: numeric_kind
  bkd_points :: "(u64 \<times> u64) list"

definition bkd_build :: "numeric_kind \<Rightarrow> (numeric_value \<times> u64) list \<Rightarrow> bkd" where
  "bkd_build k pts = \<lparr>bkd_kind = k, bkd_points = sort (map (\<lambda>(v, d). (pack v, d)) pts)\<rparr>"

definition bkd_from_packed :: "numeric_kind \<Rightarrow> (u64 \<times> u64) list \<Rightarrow> string + bkd" where
  "bkd_from_packed k pts =
     (if \<not> sorted (map fst pts) then Inl ''bkd points must be sorted by packed value''
      else Inr \<lparr>bkd_kind = k, bkd_points = pts\<rparr>)"

definition first_kind :: "(u64 \<times> numeric_value) list \<Rightarrow> numeric_kind" where
  "first_kind pts = (case pts of [] \<Rightarrow> KInt | (_, v) # _ \<Rightarrow> value_kind v)"

definition bkd_from_points :: "(u64 \<times> numeric_value) list \<Rightarrow> bkd" where
  "bkd_from_points pts = bkd_build (first_kind pts) (map (\<lambda>(d, v). (v, d)) pts)"

definition bkd_min :: "bkd \<Rightarrow> numeric_value option" where
  "bkd_min b = (case bkd_points b of [] \<Rightarrow> None | p # _ \<Rightarrow> Some (unpack (fst p) (bkd_kind b)))"

definition bkd_max :: "bkd \<Rightarrow> numeric_value option" where
  "bkd_max b = (if bkd_points b = [] then None
                else Some (unpack (fst (last (bkd_points b))) (bkd_kind b)))"

definition bkd_range :: "bkd \<Rightarrow> numeric_bound option \<Rightarrow> numeric_bound option \<Rightarrow> u64 list" where
  "bkd_range b lo hi =
     (let start = (case lo of
            Some l \<Rightarrow> let bound = pack (bound_value l)
                      in if inclusive l then partition_point (\<lambda>p. fst p < bound) (bkd_points b)
                         else partition_point (\<lambda>p. fst p \<le> bound) (bkd_points b)
          | None \<Rightarrow> 0);
          stop = (case hi of
            Some h \<Rightarrow> let bound = pack (bound_value h)
                      in if inclusive h then partition_point (\<lambda>p. fst p \<le> bound) (bkd_points b)
                         else partition_point (\<lambda>p. fst p < bound) (bkd_points b)
          | None \<Rightarrow> length (bkd_points b))
      in if start \<ge> stop then []
         else sort_dedup (map snd (take (stop - start) (drop start (bkd_points b)))))"

section \<open>The value column\<close>

definition BLOCK_SIZE :: nat where
  "BLOCK_SIZE = 256"

record doc_values =
  dv_kind :: numeric_kind
  dv_entries :: "(u64 \<times> u64) list"
  block_first_doc :: "u64 list"

text \<open>\<open>chunks(BLOCK_SIZE).map(|chunk| chunk[0].0)\<close>.\<close>

function block_firsts :: "(u64 \<times> u64) list \<Rightarrow> u64 list" where
  "block_firsts es = (if es = [] then [] else fst (hd es) # block_firsts (drop BLOCK_SIZE es))"
  by pat_completeness auto
termination
  by (relation "measure length") (auto simp: BLOCK_SIZE_def)

declare block_firsts.simps [simp del]

definition dv_build :: "numeric_kind \<Rightarrow> (u64 \<times> numeric_value) list \<Rightarrow> doc_values" where
  "dv_build k pts =
     (let entries = sort_key fst (map (\<lambda>(d, v). (d, pack v)) pts)
      in \<lparr>dv_kind = k, dv_entries = entries, block_first_doc = block_firsts entries\<rparr>)"

definition dv_from_points :: "(u64 \<times> numeric_value) list \<Rightarrow> doc_values" where
  "dv_from_points pts = dv_build (first_kind pts) pts"

definition dv_from_packed :: "numeric_kind \<Rightarrow> (u64 \<times> u64) list \<Rightarrow> string + doc_values" where
  "dv_from_packed k es =
     (if \<not> sorted (map fst es) then Inl ''doc values must be sorted by doc id''
      else Inr \<lparr>dv_kind = k, dv_entries = es, block_first_doc = block_firsts es\<rparr>)"

definition dv_first_doc :: "doc_values \<Rightarrow> u64 option" where
  "dv_first_doc dv = (if dv_entries dv = [] then None else Some (fst (hd (dv_entries dv))))"

definition dv_last_doc :: "doc_values \<Rightarrow> u64 option" where
  "dv_last_doc dv = (if dv_entries dv = [] then None else Some (fst (last (dv_entries dv))))"

definition dv_get :: "doc_values \<Rightarrow> u64 \<Rightarrow> numeric_value option" where
  "dv_get dv d =
     (case dv_first_doc dv of None \<Rightarrow> None | Some first \<Rightarrow>
      case dv_last_doc dv of None \<Rightarrow> None | Some final \<Rightarrow>
      if d < first \<or> d > final then None
      else let block = partition_point (\<lambda>f. f \<le> d) (block_first_doc dv) - 1;
               start = block * BLOCK_SIZE;
               stop = min (start + BLOCK_SIZE) (length (dv_entries dv))
           in case binary_search_by_key d fst (take (stop - start) (drop start (dv_entries dv))) of
                Inl _ \<Rightarrow> None
              | Inr off \<Rightarrow> Some (unpack (snd (dv_entries dv ! (start + off))) (dv_kind dv)))"

section \<open>Per-field storage\<close>

record numeric_field =
  field_bkd :: bkd
  field_doc_values :: doc_values

definition field_bounds :: "numeric_field \<Rightarrow> numeric_value option \<times> numeric_value option" where
  "field_bounds f = (bkd_min (field_bkd f), bkd_max (field_bkd f))"

type_synonym numeric_fields = "(u32, numeric_field) omap"

type_synonym numeric_points = "(u32, (u64 \<times> numeric_value) list) omap"

definition nf_from_points :: "numeric_points \<Rightarrow> numeric_fields" where
  "nf_from_points pts =
     map (\<lambda>(x, ps). (x, \<lparr>field_bkd = bkd_from_points ps, field_doc_values = dv_from_points ps\<rparr>)) pts"

definition nf_bounds :: "numeric_fields \<Rightarrow> u32 \<Rightarrow> numeric_value option \<times> numeric_value option" where
  "nf_bounds fs x = (case omap_get fs x of None \<Rightarrow> (None, None) | Some f \<Rightarrow> field_bounds f)"

definition nf_range :: "numeric_fields \<Rightarrow> u32 \<Rightarrow> numeric_bound option \<Rightarrow> numeric_bound option \<Rightarrow> u64 list" where
  "nf_range fs x lo hi = (case omap_get fs x of None \<Rightarrow> [] | Some f \<Rightarrow> bkd_range (field_bkd f) lo hi)"

definition nf_insert_field :: "u32 \<Rightarrow> numeric_field \<Rightarrow> numeric_fields \<Rightarrow> numeric_fields" where
  "nf_insert_field x f fs = omap_insert x f fs"

definition nf_get :: "numeric_fields \<Rightarrow> u32 \<Rightarrow> u64 \<Rightarrow> numeric_value option" where
  "nf_get fs x d = (case omap_get fs x of None \<Rightarrow> None | Some f \<Rightarrow> dv_get (field_doc_values f) d)"

section \<open>The write buffer\<close>

definition push_point :: "u64 \<Rightarrow> numeric_value \<Rightarrow> (u64 \<times> numeric_value) list \<Rightarrow> (u64 \<times> numeric_value) list" where
  "push_point d v ps =
     (if ps \<noteq> [] \<and> fst (last ps) > d
      then vec_insert (partition_point (\<lambda>(d', _). d' \<le> d) ps) (d, v) ps
      else ps @ [(d, v)])"

definition np_insert :: "u32 \<Rightarrow> numeric_value \<Rightarrow> u64 \<Rightarrow> numeric_points \<Rightarrow> numeric_points" where
  "np_insert x v d pts = omap_entry x [] (push_point d v) pts"

definition np_build :: "numeric_points \<Rightarrow> numeric_fields" where
  "np_build pts = nf_from_points pts"

definition np_get :: "numeric_points \<Rightarrow> u32 \<Rightarrow> u64 \<Rightarrow> numeric_value option" where
  "np_get pts x d =
     (case omap_get pts x of
        None \<Rightarrow> None
      | Some ps \<Rightarrow> let at = partition_point (\<lambda>(d', _). d' < d) ps
                  in if at < length ps \<and> fst (ps ! at) = d then Some (snd (ps ! at)) else None)"

definition np_range :: "numeric_points \<Rightarrow> u32 \<Rightarrow> numeric_bound option \<Rightarrow> numeric_bound option \<Rightarrow> u64 list" where
  "np_range pts x lo hi =
     (case omap_get pts x of
        None \<Rightarrow> []
      | Some ps \<Rightarrow> sort_dedup (map fst (filter (\<lambda>(_, v). in_bounds v lo hi) ps)))"

definition append_points :: "(u64 \<times> numeric_value) list \<Rightarrow> (u64 \<times> numeric_value) list \<Rightarrow> (u64 \<times> numeric_value) list" where
  "append_points new mine =
     (let all = mine @ new in if \<not> sorted (map fst all) then sort_key fst all else all)"

definition np_merge :: "numeric_points \<Rightarrow> numeric_points \<Rightarrow> numeric_points" where
  "np_merge pts other = fold (\<lambda>(x, ps). omap_entry x [] (append_points ps)) other pts"

text \<open>\<open>Iterator::min\<close> and \<open>max\<close>.\<close>

definition iter_min :: "'a::linorder list \<Rightarrow> 'a option" where
  "iter_min xs = (case xs of [] \<Rightarrow> None | x # r \<Rightarrow> Some (fold min r x))"

definition iter_max :: "'a::linorder list \<Rightarrow> 'a option" where
  "iter_max xs = (case xs of [] \<Rightarrow> None | x # r \<Rightarrow> Some (fold max r x))"

definition np_bounds :: "numeric_points \<Rightarrow> u32 \<Rightarrow> numeric_value option \<times> numeric_value option" where
  "np_bounds pts x =
     (case omap_get pts x of
        None \<Rightarrow> (None, None)
      | Some ps \<Rightarrow> (iter_min (map snd ps), iter_max (map snd ps)))"

section \<open>Packing keeps the order\<close>

lemma bit_top: "bit (0x8000000000000000 :: u64) n \<longleftrightarrow> n = 63" "bit (0x8000000000000000 :: int) n \<longleftrightarrow> n = 63"
  using bit_exp_iff [where 'a = "64 word", of 63 n] bit_exp_iff [where 'a = int, of 63 n] by auto

lemma xor_top: "w XOR 0x8000000000000000 = w + 0x8000000000000000" for w :: u64
proof (cases "bit w 63")
  case True
  define v where "v = take_bit 63 w"
  have w: "w = v OR 0x8000000000000000"
    unfolding v_def using True by (intro bit_word_eqI) (auto simp: bit_simps bit_top nat_less_le)
  have disj: "v AND 0x8000000000000000 = 0"
    unfolding v_def by (rule bit_word_eqI) (auto simp: bit_simps bit_top)
  have "w XOR 0x8000000000000000 = v"
    unfolding v_def using True by (intro bit_word_eqI) (auto simp: bit_simps bit_top nat_less_le)
  moreover have "w = v + 0x8000000000000000"
    unfolding w by (rule disjunctive_add_eq_or [OF disj, symmetric])
  ultimately show ?thesis by simp
next
  case False
  have "w AND 0x8000000000000000 = 0"
    using False by (intro bit_word_eqI) (auto simp: bit_simps bit_top)
  moreover have "w XOR 0x8000000000000000 = w OR 0x8000000000000000"
    using False by (intro bit_word_eqI) (auto simp: bit_simps bit_top)
  ultimately show ?thesis by (simp add: disjunctive_add_eq_or)
qed

lemma uint_pack_int: "uint (pack_int v) = sint v + 2 ^ 63"
proof -
  have "sint v = take_bit 64 (uint v + 2 ^ 63) - 2 ^ 63"
    by (simp add: sint_uint signed_take_bit_eq_take_bit_shift)
  then show ?thesis
    by (simp add: pack_int_def xor_top uint_word_ariths take_bit_eq_mod)
qed

lemma pack_float_key: "pack_float b = pack_int (total_cmp_key b)"
proof (cases "bit b 63")
  case True
  have "NOT b = (b XOR mask 63) XOR push_bit 63 1"
    by (rule bit_word_eqI) (auto simp: bit_simps bit_top nat_less_le)
  moreover have "b AND push_bit 63 1 \<noteq> 0"
    using True by (auto simp: bit_eq_iff bit_simps bit_top intro!: exI [of _ 63])
  ultimately show ?thesis
    unfolding pack_float_def pack_int_def total_cmp_key_def drop_signed using True by simp
next
  case False
  have "b AND push_bit 63 1 = 0"
    using False by (intro bit_word_eqI) (auto simp: bit_simps bit_top)
  with False show ?thesis
    unfolding pack_float_def pack_int_def total_cmp_key_def drop_signed by simp
qed

lemma uint_pack: "uint (pack v) = order_key v + 2 ^ 63"
  by (simp add: pack_def order_key_def pack_float_key uint_pack_int split: numeric_value.split)

lemma value_le_key: "value_kind a = value_kind b \<Longrightarrow> a \<le> b \<longleftrightarrow> order_key a \<le> order_key b"
  by (auto simp: less_eq_numeric_value_def order_key_def value_kind_def split: numeric_value.splits)

lemma pack_le_iff: "value_kind a = value_kind b \<Longrightarrow> pack a \<le> pack b \<longleftrightarrow> a \<le> b"
  by (simp add: word_le_def uint_pack value_le_key)

lemma pack_less_iff: "value_kind a = value_kind b \<Longrightarrow> pack a < pack b \<longleftrightarrow> a < b"
  by (simp add: pack_le_iff flip: not_le)

lemma unpack_int_pack [simp]: "unpack_int (pack_int v) = v"
  by (simp add: unpack_int_def pack_int_def xor.assoc)

lemma pack_int_inv [simp]: "pack_int (unpack_int v) = v"
  by (simp add: unpack_int_def pack_int_def xor.assoc)

lemma unpack_float_key: "unpack_float p = total_cmp_key (unpack_int p)"
proof -
  have top: "bit (p XOR push_bit 63 1) 63 \<longleftrightarrow> \<not> bit p 63" by (simp add: bit_simps bit_top)
  have and_top: "p AND push_bit 63 1 \<noteq> 0 \<longleftrightarrow> bit p 63"
    using bit_iff_and_push_bit_not_eq_0 [of p 63] by simp
  have "NOT p = (p XOR push_bit 63 1) XOR mask 63"
    by (rule bit_word_eqI) (auto simp: bit_simps bit_top nat_less_le)
  with top and_top show ?thesis
    unfolding unpack_float_def unpack_int_def total_cmp_key_def drop_signed by simp
qed

lemma unpack_pack [simp]: "unpack (pack v) (value_kind v) = v"
  by (simp add: unpack_def pack_def value_kind_def pack_float_key unpack_float_key total_cmp_key_involutive
      split: numeric_value.split)

lemma pack_unpack [simp]: "pack (unpack p k) = p" "value_kind (unpack p k) = k"
  by (simp_all add: unpack_def pack_def value_kind_def pack_float_key unpack_float_key total_cmp_key_involutive
      split: numeric_kind.split)

definition lo_excludes :: "numeric_bound option \<Rightarrow> u64 \<Rightarrow> bool" where
  "lo_excludes lo p = (case lo of None \<Rightarrow> False
     | Some l \<Rightarrow> if inclusive l then p < pack (bound_value l) else p \<le> pack (bound_value l))"

definition hi_admits :: "numeric_bound option \<Rightarrow> u64 \<Rightarrow> bool" where
  "hi_admits hi p = (case hi of None \<Rightarrow> True
     | Some h \<Rightarrow> if inclusive h then p \<le> pack (bound_value h) else p < pack (bound_value h))"

lemma bkd_range_filter:
  assumes "sorted (map fst (bkd_points b))"
  shows "bkd_range b lo hi =
    sort_dedup (map snd (filter (\<lambda>p. \<not> lo_excludes lo (fst p) \<and> hi_admits hi (fst p)) (bkd_points b)))"
proof -
  let ?ps = "bkd_points b"
  let ?p = "\<lambda>x. lo_excludes lo (fst x)" and ?q = "\<lambda>x. hi_admits hi (fst x)"
  have start: "(case lo of Some l \<Rightarrow> let bound = pack (bound_value l)
        in if inclusive l then partition_point (\<lambda>p. fst p < bound) ?ps
           else partition_point (\<lambda>p. fst p \<le> bound) ?ps | None \<Rightarrow> 0) = partition_point ?p ?ps"
    by (simp add: lo_excludes_def Let_def split: option.split)
  have stop: "(case hi of Some h \<Rightarrow> let bound = pack (bound_value h)
        in if inclusive h then partition_point (\<lambda>p. fst p \<le> bound) ?ps
           else partition_point (\<lambda>p. fst p < bound) ?ps | None \<Rightarrow> length ?ps) = partition_point ?q ?ps"
    by (simp add: hi_admits_def Let_def split: option.split)
  have "take (partition_point ?q ?ps - partition_point ?p ?ps) (drop (partition_point ?p ?ps) ?ps)
      = filter (\<lambda>x. \<not> ?p x \<and> ?q x) ?ps"
    using assms by (rule slice_between)
      (auto simp: lo_excludes_def hi_admits_def split: option.splits if_splits)
  then show ?thesis
    unfolding bkd_range_def start stop unfolding Let_def
    by (cases "partition_point ?q ?ps \<le> partition_point ?p ?ps")
        (simp_all add: sort_dedup_def)
qed

definition kinds_ok :: "numeric_kind \<Rightarrow> (u64 \<times> numeric_value) list \<Rightarrow> bool" where
  "kinds_ok k ps \<longleftrightarrow> (\<forall>(d, v) \<in> set ps. value_kind v = k)"

definition bound_kind :: "numeric_kind \<Rightarrow> numeric_bound option \<Rightarrow> bool" where
  "bound_kind k b = (case b of None \<Rightarrow> True | Some b \<Rightarrow> value_kind (bound_value b) = k)"

lemma packed_in_bounds:
  assumes "value_kind v = k" "bound_kind k lo" "bound_kind k hi"
  shows "\<not> lo_excludes lo (pack v) \<and> hi_admits hi (pack v) \<longleftrightarrow> in_bounds v lo hi"
  using assms
  by (auto simp: lo_excludes_def hi_admits_def in_bounds_def bound_kind_def below_lo_def past_hi_def
      pack_less_iff pack_le_iff split: option.splits if_splits)

lemma sorted_fst_sort: "sorted (map fst (sort xs))" for xs :: "('a::linorder \<times> 'b::linorder) list"
proof -
  have "sorted (sort xs)" by simp
  then show ?thesis
    by (rule sorted_map_mono) (auto simp: mono_on_def less_eq_prod_def)
qed

lemma bkd_range_from_points:
  assumes "kinds_ok k ps" "bound_kind k lo" "bound_kind k hi"
  shows "bkd_range (bkd_from_points ps) lo hi = sort_dedup (map fst (filter (\<lambda>(_, v). in_bounds v lo hi) ps))"
proof -
  have "bkd_range (bkd_from_points ps) lo hi =
    sort_dedup (map snd (filter (\<lambda>p. \<not> lo_excludes lo (fst p) \<and> hi_admits hi (fst p))
      (sort (map (\<lambda>(d, v). (pack v, d)) ps))))"
    by (subst bkd_range_filter) (simp_all add: bkd_from_points_def bkd_build_def sorted_fst_sort comp_def case_prod_unfold)
  also have "\<dots> = sort_dedup (map fst (filter (\<lambda>(_, v). in_bounds v lo hi) ps))"
    unfolding sort_dedup_eq_iff using assms packed_in_bounds [of _ k lo hi]
    by (force simp: kinds_ok_def)
  finally show ?thesis .
qed


lemma iter_min_Min: "xs \<noteq> [] \<Longrightarrow> iter_min xs = Some (Min (set xs))"
  by (cases xs) (simp_all add: iter_min_def fold_min_Min)

lemma iter_max_Max: "xs \<noteq> [] \<Longrightarrow> iter_max xs = Some (Max (set xs))"
  by (cases xs) (simp_all add: iter_max_def fold_max_Max)

lemma bkd_bounds_from_points:
  assumes "kinds_ok k ps"
  shows "bkd_min (bkd_from_points ps) = iter_min (map snd ps)"
    and "bkd_max (bkd_from_points ps) = iter_max (map snd ps)"
proof -
  let ?q = "sort (map (\<lambda>(d, v). (pack v, d)) ps)"
  have pts: "bkd_points (bkd_from_points ps) = ?q"
    by (simp add: bkd_from_points_def bkd_build_def comp_def case_prod_unfold)
  have kind: "bkd_kind (bkd_from_points ps) = k" if "ps \<noteq> []"
    using assms that by (cases ps) (auto simp: bkd_from_points_def bkd_build_def first_kind_def kinds_ok_def)
  have mem: "\<exists>v. value_kind v = k \<and> v \<in> snd ` set ps \<and> fst p = pack v" if "p \<in> set ?q" for p
    using that assms by (force simp: kinds_ok_def)
  have all: "pack v \<in> fst ` set ?q \<and> value_kind v = k" if "v \<in> snd ` set ps" for v
    using that assms by (force simp: kinds_ok_def)
  have "bkd_min (bkd_from_points ps) = iter_min (map snd ps) \<and> bkd_max (bkd_from_points ps) = iter_max (map snd ps)"
  proof (cases "ps = []")
    case True
    then show ?thesis
      by (simp add: bkd_from_points_def bkd_build_def bkd_min_def bkd_max_def iter_min_def iter_max_def)
  next
    case False
    then have ne: "?q \<noteq> []" by (simp flip: length_greater_0_conv)
    obtain v where v: "value_kind v = k" "v \<in> snd ` set ps" "fst (hd ?q) = pack v"
      using mem [of "hd ?q"] ne hd_in_set by blast
    obtain w where w: "value_kind w = k" "w \<in> snd ` set ps" "fst (last ?q) = pack w"
      using mem [of "last ?q"] ne last_in_set by blast
    have lo: "v \<le> u" if "u \<in> snd ` set ps" for u
    proof -
      have "fst (hd ?q) \<le> pack u"
        using all [OF that] sorted_fst_sort [of "map (\<lambda>(d, v). (pack v, d)) ps"] ne
        by (cases ?q) auto
      then show ?thesis using all [OF that] v by (simp add: pack_le_iff)
    qed
    have hi: "u \<le> w" if "u \<in> snd ` set ps" for u
    proof -
      have "pack u \<le> last (map fst ?q)"
        using all [OF that] by (intro sorted_le_last sorted_fst_sort) simp
      then show ?thesis using all [OF that] w ne by (simp add: pack_le_iff last_map)
    qed
    have "Min (snd ` set ps) = v" "Max (snd ` set ps) = w"
      using lo hi v(2) w(2) by (auto intro!: Min_eqI Max_eqI)
    moreover have "unpack (fst (hd ?q)) k = v" "unpack (fst (last ?q)) k = w"
      using v w by (metis unpack_pack)+
    ultimately show ?thesis
      using False ne kind by (simp add: bkd_min_def bkd_max_def pts iter_min_Min iter_max_Max list.case_eq_if)
  qed
  then show "bkd_min (bkd_from_points ps) = iter_min (map snd ps)"
    and "bkd_max (bkd_from_points ps) = iter_max (map snd ps)" by blast+
qed

section \<open>Block search\<close>

lemma blocks_step: "0 < n \<Longrightarrow> (n - 256 + 255) div 256 + 1 = (n + 255) div 256" for n :: nat
proof (cases "n \<le> 256")
  case True
  assume "0 < n"
  with True have "(n - 1) div 256 = 0" "n + 255 = (n - 1) + 256" by auto
  then have "(n + 255) div 256 = 1" by (metis div_add_self2 add_0 zero_neq_numeral)
  with True show ?thesis by simp
next
  case False
  then have "n + 255 = (n - 256 + 255) + 256" by simp
  then show ?thesis by (metis div_add_self2 zero_neq_numeral)
qed

lemma length_block_firsts: "length (block_firsts es) = (length es + 255) div 256"
proof (induction es rule: block_firsts.induct)
  case (1 es)
  show ?case
  proof (cases "es = []")
    case False
    then have "(length (drop BLOCK_SIZE es) + 255) div 256 + 1 = (length es + 255) div 256"
      using blocks_step [of "length es"] by (simp add: BLOCK_SIZE_def)
    with 1 False show ?thesis by (subst block_firsts.simps) simp
  qed (simp add: block_firsts.simps)
qed

lemma nth_block_firsts: "j < length (block_firsts es) \<Longrightarrow> block_firsts es ! j = fst (es ! (256 * j)) \<and> 256 * j < length es"
proof (induction es arbitrary: j rule: block_firsts.induct)
  case (1 es)
  then have ne: "es \<noteq> []" by (auto simp: block_firsts.simps)
  then have eq: "block_firsts es = fst (hd es) # block_firsts (drop BLOCK_SIZE es)"
    by (subst block_firsts.simps) simp
  show ?case
  proof (cases j)
    case 0
    with ne show ?thesis by (simp add: eq hd_conv_nth)
  next
    case (Suc i)
    with 1 ne have "block_firsts (drop BLOCK_SIZE es) ! i = fst (drop BLOCK_SIZE es ! (256 * i)) \<and> 256 * i < length (drop BLOCK_SIZE es)"
      by (simp add: eq)
    with Suc show ?thesis by (auto simp: eq BLOCK_SIZE_def nth_drop)
  qed
qed


lemma block_search:
  assumes asc: "ascending (map fst es)" and i: "i < length es" and d: "fst (es ! i) = d"
  shows "partition_point (\<lambda>f. f \<le> d) (block_firsts es) = i div 256 + 1"
proof -
  let ?bf = "block_firsts es"
  have le: "?bf ! j \<le> d \<longleftrightarrow> j \<le> i div 256" if "j < length ?bf" for j
  proof -
    note at = nth_block_firsts [OF that]
    have "fst (es ! (256 * j)) \<le> fst (es ! i) \<longleftrightarrow> 256 * j \<le> i"
      using asc i at
      by (metis (no_types, lifting) leD leI length_map nless_le nth_map sorted_wrt_iff_nth_less)
    with at d show ?thesis by (auto simp: less_eq_div_iff_mult_less_eq mult.commute)
  qed
  have len: "i div 256 < length ?bf"
    using i by (simp add: length_block_firsts less_eq_div_iff_mult_less_eq Suc_le_eq flip: Suc_le_eq)
  have "sorted ?bf"
    unfolding sorted_iff_nth_mono
  proof (intro allI impI)
    fix j k
    assume "j \<le> k" "k < length ?bf"
    with nth_block_firsts [of j es] nth_block_firsts [of k es]
      sorted_nth_mono [OF ascending_sorted [OF asc], of "256 * j" "256 * k"]
    show "?bf ! j \<le> ?bf ! k" by simp
  qed
  then have pp: "j < partition_point (\<lambda>f. f \<le> d) ?bf \<longleftrightarrow> ?bf ! j \<le> d" if "j < length ?bf" for j
    using partition_point_sorted [of id ?bf "\<lambda>f. f \<le> d" j] that by auto
  show ?thesis
  proof (rule antisym)
    show "partition_point (\<lambda>f. f \<le> d) ?bf \<le> i div 256 + 1"
    proof (rule ccontr)
      assume "\<not> partition_point (\<lambda>f. f \<le> d) ?bf \<le> i div 256 + 1"
      then have lt: "i div 256 + 1 < partition_point (\<lambda>f. f \<le> d) ?bf" by simp
      then have "i div 256 + 1 < length ?bf"
        using partition_point_le less_le_trans by blast
      with lt pp le show False by force
    qed
    show "i div 256 + 1 \<le> partition_point (\<lambda>f. f \<le> d) ?bf"
      using pp [OF len] le [OF len] by simp
  qed
qed

lemma slice_position:
  "i < n \<Longrightarrow> i mod 256 < min (i div 256 * 256 + 256) n - i div 256 * 256 \<and> i div 256 * 256 \<le> n" for i n :: nat
proof -
  assume "i < n"
  moreover have "i = i div 256 * 256 + i mod 256" "i mod 256 < 256" by simp_all
  ultimately show ?thesis by linarith
qed

lemma dv_get_lookup:
  assumes asc: "ascending (map fst (dv_entries dv))" and bf: "block_first_doc dv = block_firsts (dv_entries dv)"
  shows "dv_get dv d = map_option (\<lambda>p. unpack p (dv_kind dv)) (map_of (dv_entries dv) d)"
proof (cases "d \<in> fst ` set (dv_entries dv)")
  case True
  let ?es = "dv_entries dv"
  obtain i where i: "i < length ?es" "fst (?es ! i) = d"
    using True by (auto simp: in_set_conv_nth)
  let ?start = "i div 256 * 256"
  let ?n = "min (?start + 256) (length ?es) - ?start"
  have block: "partition_point (\<lambda>f. f \<le> d) (block_first_doc dv) - Suc 0 = i div 256"
    using block_search [OF asc i] by (simp add: bf)
  have ne: "?es \<noteq> []" using i by auto
  have range: "fst (hd ?es) \<le> d" "d \<le> fst (last ?es)"
    using ne sorted_nth_mono [OF ascending_sorted [OF asc], of 0 i] sorted_nth_mono [OF ascending_sorted [OF asc], of i "length ?es - 1"] i
    by (auto simp: hd_conv_nth last_conv_nth)
  have sub: "ascending (map fst (take ?n (drop ?start ?es)))"
    using asc by (simp flip: take_map drop_map)
  have "take ?n (drop ?start ?es) ! (i mod 256) = ?es ! i" "i mod 256 < length (take ?n (drop ?start ?es))"
    using i slice_position [OF i(1)] by (simp_all add: nth_drop div_mult_mod_eq)
  then have "binary_search_by_key d fst (take ?n (drop ?start ?es)) = Inr (i mod 256)"
    using i by (intro binary_search_found [OF sub]) simp_all
  moreover have "map_of ?es d = Some (snd (?es ! i))"
    using i ascending_distinct [OF asc] by (metis map_of_eq_Some_iff nth_mem prod.collapse)
  ultimately show ?thesis
    using range ne div_mult_mod_eq [of i 256]
    by (auto simp: dv_get_def dv_first_doc_def dv_last_doc_def Let_def block BLOCK_SIZE_def)
next
  case False
  have none: "map_of (dv_entries dv) d = None"
    using False by (simp add: map_of_eq_None_iff)
  have absent: "\<exists>j. binary_search_by_key d fst (take n (drop m (dv_entries dv))) = Inl j" for n m
    using False by (intro binary_search_absent) (auto dest!: in_set_takeD in_set_dropD)
  show ?thesis
    using absent by (auto simp: none dv_get_def Let_def split: option.split sum.split) (metis sum.distinct(1))
qed


section \<open>The write buffer and what is built from it\<close>

definition np_ok :: "numeric_points \<Rightarrow> bool" where
  "np_ok pts \<longleftrightarrow> omap_ok pts \<and> (\<forall>(x, ps) \<in> set pts. sorted (map fst ps))"

text \<open>Every value of a field is of the field's kind; every document has one value per field.\<close>

definition np_kinds :: "(u32 \<Rightarrow> numeric_kind) \<Rightarrow> numeric_points \<Rightarrow> bool" where
  "np_kinds kind pts \<longleftrightarrow> (\<forall>(x, ps) \<in> set pts. kinds_ok (kind x) ps)"

definition np_single :: "numeric_points \<Rightarrow> bool" where
  "np_single pts \<longleftrightarrow> (\<forall>(x, ps) \<in> set pts. distinct (map fst ps))"

lemma sorted_push_point: "sorted (map fst ps) \<Longrightarrow> sorted (map fst (push_point d v ps))"
  and mset_push_point: "mset (push_point d v ps) = add_mset (d, v) (mset ps)"
proof -
  let ?at = "partition_point (\<lambda>(d', _). d' \<le> d) ps"
  have ins: "vec_insert ?at (d, v) ps = takeWhile (\<lambda>(d', _). d' \<le> d) ps @ (d, v) # dropWhile (\<lambda>(d', _). d' \<le> d) ps"
    by (simp add: vec_insert_def take_partition_point drop_partition_point)
  show "sorted (map fst (push_point d v ps))" if s: "sorted (map fst ps)"
  proof (cases "ps \<noteq> [] \<and> fst (last ps) > d")
    case True
    have tw: "takeWhile (\<lambda>(d', _). d' \<le> d) ps = filter (\<lambda>(d', _). d' \<le> d) ps"
      using s by (rule takeWhile_eq_filter_sorted) auto
    have dw: "dropWhile (\<lambda>(d', _). d' \<le> d) ps = filter (\<lambda>x. \<not> (case x of (d', _) \<Rightarrow> d' \<le> d)) ps"
      using s by (rule dropWhile_eq_filter_sorted) auto
    have "sorted (map fst (filter P ps))" for P
      using s by (induction ps) auto
    with True show ?thesis
      unfolding push_point_def ins tw dw by (auto simp: sorted_append)
  next
    case False
    have "\<forall>x \<in> set ps. fst x \<le> d"
    proof (cases "ps = []")
      case ne: False
      then have "last (map fst ps) \<le> d" using False by (simp add: last_map not_less)
      then show ?thesis
        using sorted_le_last [OF s] by (metis imageI order_trans set_map)
    qed simp
    with s show ?thesis
      using False by (auto simp: push_point_def sorted_append)
  qed
  show "mset (push_point d v ps) = add_mset (d, v) (mset ps)"
  proof -
    have "mset (takeWhile Q ps) + mset (dropWhile Q ps) = mset ps" for Q
      by (metis mset_append takeWhile_dropWhile_id)
    then show ?thesis unfolding push_point_def ins by simp
  qed
qed

lemma np_ok_entry:
  assumes "np_ok pts" and "\<And>ps. sorted (map fst ps) \<Longrightarrow> sorted (map fst (f ps))"
  shows "np_ok (omap_entry x [] f pts)"
proof -
  have ok: "omap_ok (omap_entry x [] f pts)" using assms(1) by (simp add: np_ok_def omap_ok_entry)
  have "sorted (map fst ps)" if "(y, ps) \<in> set (omap_entry x [] f pts)" for y ps
  proof -
    have "omap_get (omap_entry x [] f pts) y = Some ps"
      using ok that by (simp add: omap_get_iff)
    with assms show ?thesis
      by (auto simp: np_ok_def omap_get_entry split: if_splits option.splits dest: map_of_SomeD)
  qed
  with ok show ?thesis by (auto simp: np_ok_def)
qed

lemma np_ok_insert: "np_ok pts \<Longrightarrow> np_ok (np_insert x v d pts)"
  unfolding np_insert_def by (rule np_ok_entry) (auto intro: sorted_push_point)

lemma sorted_append_points: "sorted (map fst (append_points new mine))"
  by (simp add: append_points_def Let_def)

lemma np_ok_merge: "np_ok pts \<Longrightarrow> np_ok (np_merge pts other)"
  unfolding np_merge_def
proof (induction other arbitrary: pts)
  case (Cons e other)
  then show ?case
    by (cases e) (auto intro!: Cons.IH np_ok_entry sorted_append_points)
qed simp

lemma omap_get_nf_from_points:
  "omap_get (nf_from_points pts) x =
     map_option (\<lambda>ps. \<lparr>field_bkd = bkd_from_points ps, field_doc_values = dv_from_points ps\<rparr>) (omap_get pts x)"
  by (induction pts) (auto simp: nf_from_points_def)

lemma np_get_lookup:
  assumes "np_ok pts"
  shows "np_get pts x d = (case omap_get pts x of None \<Rightarrow> None | Some ps \<Rightarrow> map_of ps d)"
proof (cases "omap_get pts x")
  case (Some ps)
  then have s: "sorted (map fst ps)" using assms by (auto simp: np_ok_def dest: map_of_SomeD)
  have "(let at = partition_point (\<lambda>(d', _). d' < d) ps
      in if at < length ps \<and> fst (ps ! at) = d then Some (snd (ps ! at)) else None) = map_of ps d"
    using s
  proof (induction ps)
    case (Cons a ps)
    have "map_of ps d = None" if "d < fst a"
      using that Cons.prems by (auto simp: map_of_eq_None_iff)
    with Cons show ?case
      by (cases a) (auto simp: partition_point_def Let_def)
  qed (simp add: partition_point_def)
  with Some show ?thesis by (simp add: np_get_def)
qed (simp add: np_get_def)

lemma dv_get_from_points:
  assumes "sorted (map fst ps)" "distinct (map fst ps)" "kinds_ok k ps"
  shows "dv_get (dv_from_points ps) d = map_of ps d"
proof -
  let ?es = "map (\<lambda>(d, v). (d, pack v)) ps"
  have fst: "map fst ?es = map fst ps" by (simp add: comp_def case_prod_unfold)
  have es: "sort_key fst ?es = ?es"
    using assms(1) by (intro sort_key_id_if_sorted) (simp only: fst)
  have asc: "ascending (map fst ?es)"
    using assms(1,2) unfolding fst by (simp add: strict_sorted_iff)
  have "dv_get (dv_from_points ps) d = map_option (\<lambda>p. unpack p (first_kind ps)) (map_of ?es d)"
    by (subst dv_get_lookup) (simp_all add: dv_from_points_def dv_build_def es asc Let_def del: map_map)
  also have "map_of ?es d = map_option pack (map_of ps d)"
    by (induction ps) auto
  also have "map_option (\<lambda>p. unpack p (first_kind ps)) (map_option pack (map_of ps d)) = map_of ps d"
  proof (cases "map_of ps d")
    case (Some v)
    then have "(d, v) \<in> set ps" by (rule map_of_SomeD)
    with assms(3) have "first_kind ps = value_kind v"
      by (cases ps) (auto simp: kinds_ok_def first_kind_def)
    with Some show ?thesis by simp
  qed simp
  finally show ?thesis .
qed

lemma build_queries:
  assumes "np_ok pts" and "np_kinds kind pts" and "np_single pts"
    and "bound_kind (kind x) lo" and "bound_kind (kind x) hi"
  shows "nf_range (np_build pts) x lo hi = np_range pts x lo hi"
    and "nf_get (np_build pts) x d = np_get pts x d"
    and "nf_bounds (np_build pts) x = np_bounds pts x"
proof -
  have "nf_range (np_build pts) x lo hi = np_range pts x lo hi
    \<and> nf_get (np_build pts) x d = np_get pts x d \<and> nf_bounds (np_build pts) x = np_bounds pts x"
  proof (cases "omap_get pts x")
    case None
    with assms(1) show ?thesis
      by (simp add: np_build_def nf_range_def nf_get_def nf_bounds_def np_range_def np_get_def np_bounds_def
          omap_get_nf_from_points)
  next
    case (Some ps)
    then have mem: "(x, ps) \<in> set pts" by (rule map_of_SomeD)
    with assms have ps: "kinds_ok (kind x) ps" "sorted (map fst ps)" "distinct (map fst ps)"
      by (auto simp: np_kinds_def np_ok_def np_single_def)
    show ?thesis
      using assms(1,4,5) Some ps
      by (simp add: np_build_def nf_range_def nf_get_def nf_bounds_def np_range_def np_get_lookup np_bounds_def
          omap_get_nf_from_points bkd_range_from_points dv_get_from_points
          field_bounds_def bkd_bounds_from_points)
  qed
  then show "nf_range (np_build pts) x lo hi = np_range pts x lo hi" "nf_get (np_build pts) x d = np_get pts x d"
    "nf_bounds (np_build pts) x = np_bounds pts x" by blast+
qed

section \<open>Properties\<close>

text \<open>C29. Packing is lossless and keeps the order of the values of one kind, negative integers,
  negative floats and signed zeros included: unsigned comparison of packed values is
  \<open>i64\<close> order, respectively \<open>f64::total_cmp\<close>.\<close>

theorem pack_order_preserving:
  assumes "value_kind a = value_kind b"
  shows "(pack a \<le> pack b \<longleftrightarrow> a \<le> b) \<and> (pack a < pack b \<longleftrightarrow> a < b)
    \<and> unpack (pack a) (value_kind a) = a \<and> pack (unpack p k) = p"
  using assms unpack_pack [of a] by (simp add: pack_le_iff pack_less_iff)

theorem pack_order_preserving_witness:
  "value_kind (IntV (- 5)) = value_kind (IntV 3) \<and> IntV (- 5) \<le> IntV 3 \<and> pack (IntV (- 5)) \<le> pack (IntV 3)"
proof -
  have k: "value_kind (IntV (- 5)) = value_kind (IntV 3)" by (simp add: value_kind_def)
  have "IntV (- 5) \<le> IntV 3" by (simp add: less_eq_numeric_value_def)
  with k pack_order_preserving [OF k] show ?thesis by simp
qed

text \<open>C28. Freezing the numeric write buffer does not change what a query sees: the range query of
  the sorted point list, the block-indexed point lookup and the bounds of the built fields agree
  with those of the buffer, provided fields are homogeneous and a document has one value per
  field; and inserting and merging keep the buffer's document order the lookups need.\<close>

theorem numeric_build_preserves_queries:
  assumes "np_ok pts" and "np_kinds kind pts" and "np_single pts"
    and "bound_kind (kind x) lo" and "bound_kind (kind x) hi"
  shows "nf_range (np_build pts) x lo hi = np_range pts x lo hi
    \<and> nf_get (np_build pts) x d = np_get pts x d
    \<and> nf_bounds (np_build pts) x = np_bounds pts x
    \<and> np_ok (np_insert y v d pts) \<and> np_ok (np_merge pts other)"
  using assms by (simp add: build_queries np_ok_insert np_ok_merge)

theorem numeric_build_preserves_queries_witness:
  "np_get [(7, [(1, IntV 4), (3, IntV 2)])] 7 3 = Some (IntV 2)
   \<and> nf_get (np_build [(7, [(1, IntV 4), (3, IntV 2)])]) 7 3 = Some (IntV 2)"
proof -
  let ?pts = "[(7, [(1, IntV 4), (3, IntV 2)])]"
  have h: "np_ok ?pts" "np_kinds (\<lambda>_. KInt) ?pts" "np_single ?pts" "bound_kind KInt None"
    by (simp_all add: np_ok_def np_kinds_def np_single_def kinds_ok_def value_kind_def bound_kind_def omap_ok_def)
  have "np_get ?pts 7 3 = Some (IntV 2)"
    by (simp add: np_get_lookup h)
  with numeric_build_preserves_queries [OF h h(4), of 7 3] show ?thesis by simp
qed

end
