(* ===== verification/Array_Rows.thy ===== *)
theory Array_Rows
  imports Prelude
begin

text \<open>
  \<^verbatim>\<open>crates/core-index/src/array_rows.rs\<close>: the ids of array elements, handed out in order, and the
  dense table from an element's id to its document and its parent element.  A \<open>None\<close> of
  \<open>row_alloc\<close> is the panic \<open>array row id space exhausted\<close>.
\<close>

section \<open>Allocation\<close>

definition NO_PARENT_ROW :: u64 where
  "NO_PARENT_ROW = - 1"

record array_row_allocator =
  next_row :: u64

definition allocator_new :: array_row_allocator where
  "allocator_new = \<lparr>next_row = 0\<rparr>"

definition allocator_starting_at :: "u64 \<Rightarrow> array_row_allocator" where
  "allocator_starting_at n = \<lparr>next_row = n\<rparr>"

definition row_alloc :: "array_row_allocator \<Rightarrow> (u64 \<times> array_row_allocator) option" where
  "row_alloc a =
     (if next_row a = - 1 then None else Some (next_row a, a\<lparr>next_row := next_row a + 1\<rparr>))"

section \<open>The table\<close>

record array_row_index =
  base :: u64
  row_to_doc :: "u64 list"
  parent_row :: "u64 list"

definition rows_new :: "u64 \<Rightarrow> array_row_index" where
  "rows_new b = \<lparr>base = b, row_to_doc = [], parent_row = []\<rparr>"

definition checked_sub :: "u64 \<Rightarrow> u64 \<Rightarrow> u64 option" where
  "checked_sub a b = (if b \<le> a then Some (a - b) else None)"

definition vec_get :: "'a list \<Rightarrow> nat \<Rightarrow> 'a option" where
  "vec_get xs i = (if i < length xs then Some (xs ! i) else None)"

definition parent_of :: "array_row_index \<Rightarrow> u64 \<Rightarrow> u64 option" where
  "parent_of t row =
     Option.bind (checked_sub row (base t)) (\<lambda>idx.
     Option.bind (vec_get (parent_row t) (unat idx)) (\<lambda>parent.
       if parent \<noteq> NO_PARENT_ROW then Some parent else None))"

definition push_row :: "array_row_index \<Rightarrow> u64 \<Rightarrow> u64 \<Rightarrow> u64 option \<Rightarrow> array_row_index" where
  "push_row t row doc parent =
     (let t = (if row_to_doc t = [] then t\<lparr>base := row\<rparr> else t)
      in t\<lparr>row_to_doc := row_to_doc t @ [doc],
          parent_row := parent_row t @ [case parent of None \<Rightarrow> NO_PARENT_ROW | Some p \<Rightarrow> p]\<rparr>)"

definition rows_is_empty :: "array_row_index \<Rightarrow> bool" where
  "rows_is_empty t \<longleftrightarrow> row_to_doc t = []"

definition rows_merge_from :: "array_row_index \<Rightarrow> array_row_index \<Rightarrow> array_row_index" where
  "rows_merge_from t other =
     (if rows_is_empty other then t
      else let t = (if rows_is_empty t then t\<lparr>base := base other\<rparr> else t)
           in t\<lparr>row_to_doc := row_to_doc t @ row_to_doc other,
                parent_row := parent_row t @ parent_row other\<rparr>)"

definition doc_of :: "array_row_index \<Rightarrow> u64 \<Rightarrow> u64 option" where
  "doc_of t row = Option.bind (checked_sub row (base t)) (\<lambda>idx. vec_get (row_to_doc t) (unat idx))"

definition max_array_row :: "array_row_index \<Rightarrow> u64 option" where
  "max_array_row t =
     (if rows_is_empty t then None else Some (base t + word_of_nat (length (row_to_doc t)) - 1))"

section \<open>Well-formed tables\<close>

text \<open>Both columns have one entry per row, and the ids \<open>base ..< base + len\<close> do not wrap around.\<close>

definition rows_ok :: "array_row_index \<Rightarrow> bool" where
  "rows_ok t \<longleftrightarrow> length (parent_row t) = length (row_to_doc t)
     \<and> unat (base t) + length (row_to_doc t) < 2 ^ 64"

text \<open>The id the next row must have, which the code asserts in debug builds.\<close>

definition next_id :: "array_row_index \<Rightarrow> u64" where
  "next_id t = base t + word_of_nat (length (row_to_doc t))"

lemma unat_next_id: "rows_ok t \<Longrightarrow> unat (next_id t) = unat (base t) + length (row_to_doc t)"
  by (simp add: rows_ok_def next_id_def unat_word_ariths unat_of_nat)

text \<open>Reading a column by row id.\<close>

definition column :: "u64 \<Rightarrow> 'a list \<Rightarrow> u64 \<Rightarrow> 'a option" where
  "column b xs row = (if unat b \<le> unat row then vec_get xs (unat row - unat b) else None)"

lemma doc_of_column: "doc_of t row = column (base t) (row_to_doc t) row"
  by (auto simp: doc_of_def column_def checked_sub_def word_le_nat_alt unat_sub)

lemma parent_of_column:
  "parent_of t row = Option.bind (column (base t) (parent_row t) row) (\<lambda>p. if p \<noteq> NO_PARENT_ROW then Some p else None)"
  by (auto simp: parent_of_def column_def checked_sub_def word_le_nat_alt unat_sub)

lemma column_append:
  "unat b + length xs < 2 ^ 64 \<Longrightarrow> column b (xs @ ys) row =
     (if unat row < unat b + length xs then column b xs row
      else column (b + word_of_nat (length xs)) ys row)"
  by (auto simp: column_def vec_get_def nth_append unat_word_ariths unat_of_nat)

lemma column_single: "column b [x] row = (if row = b then Some x else None)"
  by (auto simp: column_def vec_get_def unat_word_eqI)

lemma column_out: "unat b + length xs \<le> unat row \<Longrightarrow> column b xs row = None"
  by (auto simp: column_def vec_get_def)

lemma column_Nil [simp]: "column b [] row = None"
  by (simp add: column_def vec_get_def)

lemma unat_not_max: "w \<noteq> - 1 \<Longrightarrow> unat w \<noteq> 2 ^ 64 - 1" for w :: u64
  using unat_word_eqI [of w "- 1"] by (auto simp: unsigned_minus_1_eq_mask mask_eq_exp_minus_1)

text \<open>Extending both columns, the common shape of \<open>push_row\<close> and \<open>merge_from\<close>.\<close>

definition rows_extend :: "array_row_index \<Rightarrow> u64 \<Rightarrow> u64 list \<Rightarrow> u64 list \<Rightarrow> array_row_index" where
  "rows_extend t b ds ps =
     \<lparr>base = (if row_to_doc t = [] then b else base t), row_to_doc = row_to_doc t @ ds,
      parent_row = parent_row t @ ps\<rparr>"

lemma push_row_extend:
  "push_row t row doc parent = rows_extend t row [doc] [case parent of None \<Rightarrow> NO_PARENT_ROW | Some p \<Rightarrow> p]"
  by (simp add: push_row_def rows_extend_def Let_def)

lemma merge_from_extend:
  "row_to_doc other \<noteq> [] \<Longrightarrow>
     rows_merge_from t other = rows_extend t (base other) (row_to_doc other) (parent_row other)"
  by (simp add: rows_merge_from_def rows_extend_def rows_is_empty_def Let_def)

lemma rows_extend_columns:
  assumes ok: "rows_ok t" and next_: "row_to_doc t = [] \<or> b = next_id t"
    and len: "length ps = length ds" and fits: "unat b + length ds < 2 ^ 64"
  shows "rows_ok (rows_extend t b ds ps)"
    and "column (base (rows_extend t b ds ps)) (row_to_doc (rows_extend t b ds ps)) r =
      (case doc_of t r of Some d \<Rightarrow> Some d | None \<Rightarrow> column b ds r)"
    and "column (base (rows_extend t b ds ps)) (parent_row (rows_extend t b ds ps)) r =
      (case column (base t) (parent_row t) r of Some p \<Rightarrow> Some p | None \<Rightarrow> column b ps r)"
proof -
  show "rows_ok (rows_extend t b ds ps)"
    using assms unat_next_id [OF ok] by (auto simp: rows_ok_def rows_extend_def)
  have split: "column (base t) (xs @ ys) r = (case column (base t) xs r of Some d \<Rightarrow> Some d | None \<Rightarrow> column b ys r)"
    if "length xs = length (row_to_doc t)" "row_to_doc t \<noteq> []" for xs ys :: "u64 list"
  proof -
    have b: "b = base t + word_of_nat (length xs)" and n: "unat b = unat (base t) + length xs"
      using next_ that unat_next_id [OF ok] by (auto simp: next_id_def)
    have "unat (base t) + length xs < 2 ^ 64" using ok that by (simp add: rows_ok_def)
    note app = column_append [OF this, of ys r, folded b]
    show ?thesis
    proof (cases "unat r < unat (base t) + length xs")
      case True
      then have "column b ys r = None" by (simp add: column_def n)
      with app True show ?thesis by (simp split: option.split)
    next
      case False
      with app show ?thesis by (simp add: column_out)
    qed
  qed
  show "column (base (rows_extend t b ds ps)) (row_to_doc (rows_extend t b ds ps)) r =
      (case doc_of t r of Some d \<Rightarrow> Some d | None \<Rightarrow> column b ds r)"
    using split by (simp add: rows_extend_def doc_of_column)
  show "column (base (rows_extend t b ds ps)) (parent_row (rows_extend t b ds ps)) r =
      (case column (base t) (parent_row t) r of Some p \<Rightarrow> Some p | None \<Rightarrow> column b ps r)"
    using split ok by (auto simp: rows_extend_def rows_ok_def)
qed

section \<open>Properties\<close>

text \<open>\<open>push_row\<close> with the next row id makes that row resolve to its document and its parent, leaves
  every other row as it was and keeps the table well-formed; \<open>NO_PARENT_ROW\<close> reads back as no
  parent.\<close>

theorem push_row_spec:
  assumes "rows_ok t" and "row_to_doc t = [] \<or> row = next_id t" and "row \<noteq> - 1"
  shows "rows_ok (push_row t row doc parent)
    \<and> doc_of (push_row t row doc parent) r = (if r = row then Some doc else doc_of t r)
    \<and> parent_of (push_row t row doc parent) r =
         (if r = row then (if parent = Some NO_PARENT_ROW then None else parent) else parent_of t r)"
proof -
  let ?p = "case parent of None \<Rightarrow> NO_PARENT_ROW | Some p \<Rightarrow> p"
  have fits: "unat row + length [doc] < 2 ^ 64"
    using unat_u64_lt [of row] unat_not_max [OF assms(3)] by simp
  note ext = rows_extend_columns [OF assms(1,2) _ fits, of "[?p]"]
  have fresh: "column (base t) xs row = None" if "length xs = length (row_to_doc t)" for xs :: "u64 list"
    using assms(2) that unat_next_id [OF assms(1)] by (auto simp: column_out)
  then have p: "column (base t) (parent_row t) row = None" and d: "doc_of t row = None"
    using assms(1) by (simp_all add: rows_ok_def doc_of_column)
  have "doc_of (push_row t row doc parent) r = (if r = row then Some doc else doc_of t r)"
    using ext(2) d
    by (auto simp: push_row_extend doc_of_column [of "rows_extend t row _ _"] column_single split: option.split)
  moreover have "parent_of (push_row t row doc parent) r =
      (if r = row then (if parent = Some NO_PARENT_ROW then None else parent) else parent_of t r)"
    using ext(3) p
    by (auto simp: push_row_extend parent_of_column column_single split: option.splits)
  ultimately show ?thesis
    using ext(1) by (simp add: push_row_extend)
qed

theorem push_row_spec_witness:
  "rows_ok (rows_new 0) \<and> doc_of (push_row (push_row (rows_new 0) 40 7 None) 41 7 (Some 40)) 41 = Some 7
   \<and> parent_of (push_row (push_row (rows_new 0) 40 7 None) 41 7 (Some 40)) 41 = Some 40"
proof -
  let ?t = "push_row (rows_new 0) 40 7 None"
  have h: "rows_ok (rows_new 0)" "row_to_doc (rows_new 0) = [] \<or> 40 = next_id (rows_new 0)" "(40::u64) \<noteq> - 1"
    by (simp_all add: rows_ok_def rows_new_def)
  have ok: "rows_ok ?t" using push_row_spec [OF h] by blast
  have n: "row_to_doc ?t = [] \<or> 41 = next_id ?t"
    by (simp add: next_id_def push_row_def rows_new_def)
  have m: "(41::u64) \<noteq> - 1" by simp
  show ?thesis
    using h(1) push_row_spec [OF ok n m, of 7 "Some 40" 41] by (simp add: NO_PARENT_ROW_def)
qed

text \<open>Merging a table that continues another resolves every row of either table as before, and
  the result is well-formed, with the other's \<open>max_array_row\<close> as its last row.\<close>

theorem rows_merge_from_spec:
  assumes "rows_ok t" and "rows_ok other" and "row_to_doc t = [] \<or> base other = next_id t"
  shows "rows_ok (rows_merge_from t other)
    \<and> doc_of (rows_merge_from t other) r = (case doc_of t r of Some d \<Rightarrow> Some d | None \<Rightarrow> doc_of other r)
    \<and> max_array_row (rows_merge_from t other) =
        (if rows_is_empty other then max_array_row t else max_array_row other)"
proof (cases "row_to_doc other = []")
  case True
  with assms(1) show ?thesis
    by (auto simp: rows_merge_from_def rows_is_empty_def doc_of_column [of other] split: option.split)
next
  case False
  have len: "length (parent_row other) = length (row_to_doc other)" "unat (base other) + length (row_to_doc other) < 2 ^ 64"
    using assms(2) by (simp_all add: rows_ok_def)
  note ext = rows_extend_columns [OF assms(1,3) len]
  have "max_array_row (rows_extend t (base other) (row_to_doc other) (parent_row other)) = max_array_row other"
    using assms(3) False by (auto simp: max_array_row_def rows_is_empty_def rows_extend_def next_id_def algebra_simps)
  with ext(1,2) False show ?thesis
    by (simp add: merge_from_extend doc_of_column [of "rows_extend t _ _ _"] doc_of_column [of other] rows_is_empty_def
        cong: option.case_cong)
qed

theorem rows_merge_from_spec_witness:
  "rows_ok (push_row (rows_new 0) 3 8 None) \<and> rows_ok (push_row (rows_new 0) 4 9 None)
   \<and> doc_of (rows_merge_from (push_row (rows_new 0) 3 8 None) (push_row (rows_new 0) 4 9 None)) 4 = Some 9"
proof -
  let ?t = "push_row (rows_new 0) 3 8 None" and ?o = "push_row (rows_new 0) 4 9 None"
  have h: "rows_ok ?t" "rows_ok ?o" "row_to_doc ?t = [] \<or> base ?o = next_id ?t"
    by (simp_all add: rows_ok_def push_row_def rows_new_def next_id_def)
  have "doc_of ?t 4 = None" "doc_of ?o 4 = Some 9"
    by (simp_all add: doc_of_def push_row_def rows_new_def checked_sub_def vec_get_def)
  with h rows_merge_from_spec [OF h, of 4] show ?thesis by simp
qed

end
