(* ===== verification/Segment.thy ===== *)
theory Segment
  imports Wildcard Numeric Array_Rows
begin

text \<open>
  \<^verbatim>\<open>crates/core-index/src/segment/mod.rs\<close>, \<^verbatim>\<open>segment/immutable.rs\<close> and the trait of \<^verbatim>\<open>search.rs\<close>: the
  in-memory immutable segment and the statistics derived from its document lengths.

  The contract all term readers share, whether their terms sit in a hash map, a \<open>BTreeMap\<close> or a
  file, is the locale \<open>term_reader\<close>: every lookup is a function of the reader's dictionary.  Two
  readers with the same dictionary therefore answer alike (\<open>reader_pair\<close>).
  A roaring bitmap is the set of its members.
\<close>

section \<open>Boolean fields\<close>

record bool_field =
  true_ids :: "u64 set"
  false_ids :: "u64 set"

definition bool_field_default :: bool_field where
  "bool_field_default = \<lparr>true_ids = {}, false_ids = {}\<rparr>"

type_synonym dictionary = "(term_key, posting_list) omap"
type_synonym doc_lengths_map = "(u64 \<times> u32, u32) omap"
type_synonym field_stats_map = "(u32, field_stats) omap"
type_synonym bool_fields_map = "(u32, bool_field) omap"

section \<open>Derived statistics\<close>

definition widen_range :: "u64 \<Rightarrow> (u64 \<times> u64) option \<Rightarrow> (u64 \<times> u64) option" where
  "widen_range d r = Some (case r of None \<Rightarrow> (d, d) | Some (lo, hi) \<Rightarrow> (min lo d, max hi d))"

definition compute_doc_id_range :: "doc_lengths_map \<Rightarrow> numeric_fields \<Rightarrow> (u64 \<times> u64) option" where
  "compute_doc_id_range doc_lengths nfs =
     (let r = fold (\<lambda>((d, _), _). widen_range d) doc_lengths None
      in fold (\<lambda>(_, field) r. fold (\<lambda>(_, d). widen_range d) (bkd_points (field_bkd field)) r) nfs r)"

definition count_length :: "u32 \<Rightarrow> field_stats \<Rightarrow> field_stats" where
  "count_length len s = \<lparr>doc_count = doc_count s + 1, total_doc_len = total_doc_len s + ucast len\<rparr>"

definition build_field_stats :: "((u64 \<times> u32) \<times> u32) list \<Rightarrow> field_stats_map" where
  "build_field_stats doc_lengths =
     fold (\<lambda>((_, x), len). omap_entry x field_stats_default (count_length len)) doc_lengths []"

section \<open>The segment\<close>

record immutable_segment =
  seg_terms :: dictionary
  seg_doc_lengths :: doc_lengths_map
  seg_field_stats :: field_stats_map
  seg_numeric_fields :: numeric_fields
  seg_bool_fields :: bool_fields_map
  seg_doc_id_range :: "(u64 \<times> u64) option"
  seg_array_rows :: array_row_index

definition seg_new :: "dictionary \<Rightarrow> doc_lengths_map \<Rightarrow> field_stats_map \<Rightarrow> numeric_fields \<Rightarrow>
    bool_fields_map \<Rightarrow> array_row_index \<Rightarrow> immutable_segment" where
  "seg_new terms doc_lengths stats nfs bools rows =
     \<lparr>seg_terms = terms, seg_doc_lengths = doc_lengths, seg_field_stats = stats,
      seg_numeric_fields = nfs, seg_bool_fields = bools,
      seg_doc_id_range = compute_doc_id_range doc_lengths nfs, seg_array_rows = rows\<rparr>"

definition seg_lookup :: "immutable_segment \<Rightarrow> string \<Rightarrow> u32 \<Rightarrow> posting_list option" where
  "seg_lookup s t x = omap_get (seg_terms s) (TermKey x t)"

definition seg_lookup_or_empty :: "immutable_segment \<Rightarrow> string \<Rightarrow> u32 \<Rightarrow> posting_list" where
  "seg_lookup_or_empty s t x = (case seg_lookup s t x of None \<Rightarrow> pl_new | Some l \<Rightarrow> l)"

definition seg_doc_freq :: "immutable_segment \<Rightarrow> string \<Rightarrow> u32 \<Rightarrow> u32" where
  "seg_doc_freq s t x = (case seg_lookup s t x of None \<Rightarrow> 0 | Some l \<Rightarrow> word_of_nat (pl_len l))"

definition seg_term_names :: "immutable_segment \<Rightarrow> u32 \<Rightarrow> string list" where
  "seg_term_names s x =
     map (\<lambda>(k, _). key_term k) (takeWhile (\<lambda>(k, _). key_xpath k = x) (omap_from (TermKey x []) (seg_terms s)))"

definition seg_lookup_prefix :: "immutable_segment \<Rightarrow> string \<Rightarrow> u32 \<Rightarrow> posting_list" where
  "seg_lookup_prefix s p x =
     capped_union (map (\<lambda>(k, l). (key_term k, l))
       (takeWhile (\<lambda>(k, _). key_xpath k = x \<and> prefix p (key_term k))
          (omap_from (TermKey x p) (seg_terms s))))"

definition seg_lookup_wildcard :: "immutable_segment \<Rightarrow> wildcard_pattern \<Rightarrow> u32 \<Rightarrow> posting_list" where
  "seg_lookup_wildcard s pat x =
     (if is_prefix_only pat then seg_lookup_prefix s (wildcard_prefix pat) x
      else let p = wildcard_prefix pat
           in capped_union (map (\<lambda>(k, l). (key_term k, l))
                (filter (\<lambda>(k, _). wildcard_matches pat (key_term k))
                  (takeWhile (\<lambda>(k, _). key_xpath k = x \<and> (p = [] \<or> prefix p (key_term k)))
                    (omap_from (TermKey x p) (seg_terms s))))))"

definition docs_to_postings :: "u64 list \<Rightarrow> posting_list" where
  "docs_to_postings ds = from_items (map (\<lambda>d. with_weight d [] 0) ds)"

definition seg_numeric_range :: "immutable_segment \<Rightarrow> u32 \<Rightarrow> numeric_bound option \<Rightarrow> numeric_bound option \<Rightarrow> posting_list" where
  "seg_numeric_range s x lo hi = docs_to_postings (nf_range (seg_numeric_fields s) x lo hi)"

definition seg_numeric_value :: "immutable_segment \<Rightarrow> u32 \<Rightarrow> u64 \<Rightarrow> numeric_value option" where
  "seg_numeric_value s x d = nf_get (seg_numeric_fields s) x d"

definition seg_numeric_bounds :: "immutable_segment \<Rightarrow> u32 \<Rightarrow> numeric_value option \<times> numeric_value option" where
  "seg_numeric_bounds s x = nf_bounds (seg_numeric_fields s) x"

definition seg_bool_true_ids :: "immutable_segment \<Rightarrow> u32 \<Rightarrow> u64 set" where
  "seg_bool_true_ids s x = (case omap_get (seg_bool_fields s) x of None \<Rightarrow> {} | Some f \<Rightarrow> true_ids f)"

definition seg_bool_false_ids :: "immutable_segment \<Rightarrow> u32 \<Rightarrow> u64 set" where
  "seg_bool_false_ids s x = (case omap_get (seg_bool_fields s) x of None \<Rightarrow> {} | Some f \<Rightarrow> false_ids f)"

definition seg_bool_value :: "immutable_segment \<Rightarrow> u32 \<Rightarrow> u64 \<Rightarrow> bool option" where
  "seg_bool_value s x d =
     (case omap_get (seg_bool_fields s) x of
        None \<Rightarrow> None
      | Some f \<Rightarrow> if d \<in> true_ids f then Some True else if d \<in> false_ids f then Some False else None)"

definition seg_resolve_array_rows :: "immutable_segment \<Rightarrow> u64 set \<Rightarrow> u64 set" where
  "seg_resolve_array_rows s rows = (\<Union>r \<in> rows. set_option (doc_of (seg_array_rows s) r))"

definition seg_doc_len :: "immutable_segment \<Rightarrow> u64 \<Rightarrow> u32 \<Rightarrow> u32 option" where
  "seg_doc_len s d x = omap_get (seg_doc_lengths s) (d, x)"

definition seg_doc_count :: "immutable_segment \<Rightarrow> u32 \<Rightarrow> u64" where
  "seg_doc_count s x = (case omap_get (seg_field_stats s) x of None \<Rightarrow> 0 | Some f \<Rightarrow> doc_count f)"

definition seg_total_doc_len :: "immutable_segment \<Rightarrow> u32 \<Rightarrow> u64" where
  "seg_total_doc_len s x = (case omap_get (seg_field_stats s) x of None \<Rightarrow> 0 | Some f \<Rightarrow> total_doc_len f)"

section \<open>The reader contract\<close>

text \<open>The dictionary entries of a field whose term satisfies a predicate.\<close>

definition field_matches :: "dictionary \<Rightarrow> u32 \<Rightarrow> (string \<Rightarrow> bool) \<Rightarrow> (string \<times> posting_list) list" where
  "field_matches m x P =
     map (\<lambda>(k, l). (key_term k, l)) (filter (\<lambda>(k, _). key_xpath k = x \<and> P (key_term k)) m)"

definition dictionary_ok :: "dictionary \<Rightarrow> bool" where
  "dictionary_ok m \<longleftrightarrow> omap_ok m \<and> (\<forall>(k, l) \<in> set m. pl_ok l)"

lemma field_matches_iff:
  assumes "omap_ok m"
  shows "(t, l) \<in> set (field_matches m x P) \<longleftrightarrow> omap_get m (TermKey x t) = Some l \<and> P t"
  unfolding omap_get_iff [OF assms] field_matches_def
  by (force simp: image_iff) 

lemma docs_concat: "docs (concat (map (\<lambda>(_, l). items l) ms)) = (\<Union>(t, l) \<in> set ms. docs (items l))"
  by (induction ms) auto

locale term_reader =
  fixes content :: "'r \<Rightarrow> dictionary"
    and lookup :: "'r \<Rightarrow> string \<Rightarrow> u32 \<Rightarrow> posting_list"
    and freq :: "'r \<Rightarrow> string \<Rightarrow> u32 \<Rightarrow> u32"
    and lookup_prefix :: "'r \<Rightarrow> string \<Rightarrow> u32 \<Rightarrow> posting_list"
    and lookup_wildcard :: "'r \<Rightarrow> wildcard_pattern \<Rightarrow> u32 \<Rightarrow> posting_list"
    and ok :: "'r \<Rightarrow> bool"
  assumes content_ok: "ok r \<Longrightarrow> dictionary_ok (content r)"
    and lookup_eq: "ok r \<Longrightarrow> lookup r t x = (case omap_get (content r) (TermKey x t) of None \<Rightarrow> pl_new | Some l \<Rightarrow> l)"
    and freq_eq: "ok r \<Longrightarrow> freq r t x = word_of_nat (pl_len (lookup r t x))"
    and prefix_eq: "ok r \<Longrightarrow> lookup_prefix r p x = capped_union (field_matches (content r) x (prefix p))"
    and wildcard_eq: "ok r \<Longrightarrow>
      lookup_wildcard r pat x = capped_union (field_matches (content r) x (wildcard_matches pat))"
begin

lemma lookup_ok: "ok r \<Longrightarrow> pl_ok (lookup r t x)"
  using content_ok by (auto simp: lookup_eq dictionary_ok_def split: option.split dest!: map_of_SomeD)

lemma matches_iff:
  "ok r \<Longrightarrow> (t, l) \<in> set (field_matches (content r) x P) \<longleftrightarrow> omap_get (content r) (TermKey x t) = Some l \<and> P t"
  using content_ok [of r] by (simp add: field_matches_iff dictionary_ok_def)

lemma matches_lookup: "ok r \<Longrightarrow> (t, l) \<in> set (field_matches (content r) x P) \<Longrightarrow> lookup r t x = l"
  by (simp add: matches_iff lookup_eq)

text \<open>With few enough matching terms a prefix lookup misses nothing and invents nothing.\<close>

lemma prefix_docs:
  assumes "ok r" and "length (field_matches (content r) x (prefix p)) \<le> MAX_PATTERN_TERMS"
  shows "docs (items (lookup_prefix r p x)) = (\<Union>t \<in> {t. prefix p t}. docs (items (lookup r t x)))"
proof -
  let ?ms = "field_matches (content r) x (prefix p)"
  have "docs (items (lookup_prefix r p x)) = (\<Union>(t, l) \<in> set ?ms. docs (items l))"
    using assms by (simp add: prefix_eq capped_union_few docs_concat)
  also have "\<dots> = (\<Union>t \<in> {t. prefix p t}. docs (items (lookup r t x)))"
    using assms(1) by (fastforce simp: matches_iff lookup_eq pl_new_def split: option.splits)
  finally show ?thesis .
qed

end

text \<open>Two readers over the same dictionary.\<close>

locale reader_pair =
  a: term_reader content_a lookup_a freq_a prefix_a wildcard_a ok_a +
  b: term_reader content_b lookup_b freq_b prefix_b wildcard_b ok_b
  for content_a :: "'r \<Rightarrow> dictionary" and lookup_a freq_a prefix_a wildcard_a ok_a
    and content_b :: "'s \<Rightarrow> dictionary" and lookup_b freq_b prefix_b wildcard_b ok_b
begin

lemma same_answers:
  assumes "ok_a r" "ok_b s" "content_a r = content_b s"
  shows "lookup_a r t x = lookup_b s t x" "freq_a r t x = freq_b s t x"
    "prefix_a r p x = prefix_b s p x" "wildcard_a r pat x = wildcard_b s pat x"
  using assms by (simp_all add: a.lookup_eq b.lookup_eq a.freq_eq b.freq_eq a.prefix_eq b.prefix_eq
      a.wildcard_eq b.wildcard_eq)

end

section \<open>Range scans of the dictionary\<close>

lemma prefix_imp_le: "prefix p t \<Longrightarrow> p \<le> t" for p t :: string
proof (induction p arbitrary: t)
  case (Cons c p)
  then show ?case by (cases t) auto
qed simp

lemma prefix_convex: "p \<le> s \<Longrightarrow> s \<le> t \<Longrightarrow> prefix p t \<Longrightarrow> prefix p s" for p s t :: string
proof (induction p arbitrary: s t)
  case (Cons c p)
  then obtain t' where t: "t = c # t'" "prefix p t'" by (cases t) auto
  with Cons.prems obtain s' where "s = c # s'" "p \<le> s'" "s' \<le> t'"
    by (cases s) auto
  with Cons.IH t(2) show ?case by simp
qed simp

lemma takeWhile_from:
  fixes m :: "('k::linorder, 'v) omap"
  assumes "omap_ok m" and lower: "\<And>k. P k \<Longrightarrow> k0 \<le> k" and convex: "\<And>k k'. k0 \<le> k \<Longrightarrow> k \<le> k' \<Longrightarrow> P k' \<Longrightarrow> P k"
  shows "takeWhile (\<lambda>(k, _). P k) (omap_from k0 m) = filter (\<lambda>(k, _). P k) m"
proof -
  have "takeWhile (\<lambda>(k, _). P k) (filter (\<lambda>(k, _). k0 \<le> k) m) = filter (\<lambda>(k, _). P k) m"
    using assms(1)
  proof (induction m)
    case (Cons e m)
    obtain k v where e: "e = (k, v)" by (cases e)
    have later: "\<forall>(k', v') \<in> set m. k < k'" and ok: "omap_ok m"
      using Cons.prems by (auto simp: e omap_ok_Cons)
    consider "P k" | "\<not> P k" "k0 \<le> k" | "\<not> k0 \<le> k" by blast
    then show ?case
    proof cases
      case 2
      then have "\<forall>(k', v') \<in> set m. \<not> P k'"
        using later convex by (fastforce dest: less_imp_le)
      then have "filter (\<lambda>(k, _). P k) m = []" by (auto simp: filter_empty_conv)
      with 2 show ?thesis by (simp add: e)
    qed (use Cons.IH [OF ok] lower in \<open>auto simp: e\<close>)
  qed simp
  then show ?thesis by (simp add: omap_from_filter assms(1))
qed

lemma seg_scan:
  assumes "omap_ok m"
  shows "takeWhile (\<lambda>(k, _). key_xpath k = x \<and> prefix p (key_term k)) (omap_from (TermKey x p) m)
    = filter (\<lambda>(k, _). key_xpath k = x \<and> prefix p (key_term k)) m"
proof (rule takeWhile_from [OF assms])
  fix k
  assume "key_xpath k = x \<and> prefix p (key_term k)"
  then show "TermKey x p \<le> k" by (cases k) (auto dest: prefix_imp_le simp: order_le_less)
next
  fix k k'
  assume "TermKey x p \<le> k" "k \<le> k'" "key_xpath k' = x \<and> prefix p (key_term k')"
  then show "key_xpath k = x \<and> prefix p (key_term k)"
    by (cases k; cases k') (auto intro: prefix_convex)
qed

definition seg_ok :: "immutable_segment \<Rightarrow> bool" where
  "seg_ok s \<longleftrightarrow> dictionary_ok (seg_terms s)"

interpretation seg_reader: term_reader seg_terms seg_lookup_or_empty seg_doc_freq seg_lookup_prefix seg_lookup_wildcard seg_ok
proof
  fix s t x p pat
  assume "seg_ok s"
  then have ok: "omap_ok (seg_terms s)" by (simp add: seg_ok_def dictionary_ok_def)
  show "seg_lookup_or_empty s t x = (case omap_get (seg_terms s) (TermKey x t) of None \<Rightarrow> pl_new | Some l \<Rightarrow> l)"
    by (simp add: seg_lookup_or_empty_def seg_lookup_def)
  show "seg_doc_freq s t x = word_of_nat (pl_len (seg_lookup_or_empty s t x))"
    by (simp add: seg_doc_freq_def seg_lookup_or_empty_def pl_len_def pl_new_def split: option.split)
  show pre: "seg_lookup_prefix s p x = capped_union (field_matches (seg_terms s) x (prefix p))" for p
    by (simp add: seg_lookup_prefix_def seg_scan ok field_matches_def)
  show "seg_lookup_wildcard s pat x = capped_union (field_matches (seg_terms s) x (wildcard_matches pat))"
  proof (cases "is_prefix_only pat")
    case True
    then have "wildcard_matches pat = prefix (wildcard_prefix pat)"
      using wildcard_prefix_iff by blast
    with True show ?thesis by (simp add: seg_lookup_wildcard_def pre)
  next
    case False
    have "filter (\<lambda>(k, _). wildcard_matches pat (key_term k))
        (filter (\<lambda>(k, _). key_xpath k = x \<and> prefix (wildcard_prefix pat) (key_term k)) (seg_terms s))
      = filter (\<lambda>(k, _). key_xpath k = x \<and> wildcard_matches pat (key_term k)) (seg_terms s)"
      using wildcard_prefix_lower by (force simp: filter_filter intro: filter_cong)
    moreover have "(wildcard_prefix pat = [] \<or> prefix (wildcard_prefix pat) t) = prefix (wildcard_prefix pat) t" for t
      by auto
    ultimately show ?thesis
      using False by (simp add: seg_lookup_wildcard_def Let_def seg_scan ok field_matches_def)
  qed
qed (simp add: seg_ok_def)

section \<open>Field statistics as sums\<close>

text \<open>The statistics of one field as a function of the multiset of lengths: independent of the
  order the lengths are counted in.\<close>

definition field_lengths :: "u32 \<Rightarrow> ((u64 \<times> u32) \<times> u32) multiset \<Rightarrow> u32 multiset" where
  "field_lengths x M = image_mset snd (filter_mset (\<lambda>((_, y), _). y = x) M)"

definition stats_of :: "u32 multiset \<Rightarrow> field_stats option" where
  "stats_of L =
     (if L = {#} then None
      else Some \<lparr>doc_count = of_nat (size L), total_doc_len = (\<Sum>len \<in># L. ucast len)\<rparr>)"

lemma field_lengths_simps [simp]:
  "field_lengths x {#} = {#}"
  "field_lengths x (add_mset ((d, y), len) M) = (if y = x then add_mset len (field_lengths x M) else field_lengths x M)"
  "field_lengths x (M + N) = field_lengths x M + field_lengths x N"
  by (simp_all add: field_lengths_def)

lemma build_field_stats_snoc:
  "build_field_stats (dl @ [((d, x), len)]) = omap_entry x field_stats_default (count_length len) (build_field_stats dl)"
  by (simp add: build_field_stats_def)

lemma build_field_stats_get:
  "omap_ok (build_field_stats dl) \<and> omap_get (build_field_stats dl) x = stats_of (field_lengths x (mset dl))"
proof (induction dl arbitrary: x rule: rev_induct)
  case Nil
  then show ?case by (simp add: build_field_stats_def stats_of_def)
next
  case (snoc e dl)
  obtain d y len where e: "e = ((d, y), len)" by (metis surj_pair)
  have "omap_ok (build_field_stats dl)" using snoc by blast
  moreover have "count_length len (case stats_of L of None \<Rightarrow> field_stats_default | Some s \<Rightarrow> s)
      = the (stats_of (add_mset len L))" for L
    by (simp add: stats_of_def count_length_def field_stats_default_def add.commute)
  ultimately show ?case
    using snoc by (simp add: e build_field_stats_snoc omap_ok_entry omap_get_entry) (simp add: stats_of_def)
qed

lemmas omap_ok_build_field_stats [simp, stats_simps] = build_field_stats_get [THEN conjunct1]
lemmas omap_get_build_field_stats [stats_simps] = build_field_stats_get [THEN conjunct2]

lemma build_field_stats_mset: "mset dl = mset dl' \<Longrightarrow> build_field_stats dl = build_field_stats dl'"
  by (rule omap_ext) (simp_all add: omap_get_build_field_stats)

lemma mset_omap_insert:
  assumes "omap_ok m"
  shows "mset (omap_insert k v m) = add_mset (k, v) (mset (omap_remove k m))"
  using assms
proof (induction k v m rule: omap_insert.induct)
  case (2 k v k' v' m)
  have "k \<notin> fst ` set m" if "k < k' \<or> k = k'"
    using that "2.prems" by (force simp: omap_ok_Cons)
  then have same: "filter (\<lambda>(k', _). k' \<noteq> k) m = m" if "k < k' \<or> k = k'"
    using that by (force simp: filter_id_conv)
  show ?case
    using "2.IH" "2.prems" same by (auto simp: omap_remove_def omap_ok_Cons simp del: mset_filter)
qed (simp add: omap_remove_def)

lemma mset_omap_remove:
  assumes "omap_ok m"
  shows "mset m = (case omap_get m k of None \<Rightarrow> mset (omap_remove k m)
    | Some v \<Rightarrow> add_mset (k, v) (mset (omap_remove k m)))"
  using assms
proof (induction m)
  case (Cons e m)
  obtain k' v' where e: "e = (k', v')" by (cases e)
  have "k' \<notin> fst ` set m" using Cons.prems by (force simp: e omap_ok_Cons)
  then have same: "filter (\<lambda>(j, _). j \<noteq> k') m = m" by (force simp: filter_id_conv)
  show ?case
  proof (cases "k' = k")
    case True
    with same show ?thesis by (simp add: e omap_remove_def del: mset_filter)
  next
    case False
    with Cons show ?thesis
      by (simp add: e omap_remove_def omap_ok_Cons split: option.splits del: mset_filter)
  qed
qed (simp add: omap_remove_def)

lemma mset_omap_extend_disjoint:
  assumes "omap_ok m" and "distinct (map fst kvs)" and "fst ` set m \<inter> fst ` set kvs = {}"
  shows "mset (omap_extend m kvs) = mset m + mset kvs"
  using assms
proof (induction kvs arbitrary: m)
  case (Cons kv kvs)
  obtain k v where kv: "kv = (k, v)" by (cases kv)
  have none: "omap_get m k = None" using Cons.prems by (auto simp: kv map_of_eq_None_iff)
  have "mset (omap_insert k v m) = add_mset (k, v) (mset m)"
    using mset_omap_insert [of m k v] mset_omap_remove [of m k] Cons.prems none by simp
  moreover have "mset (omap_extend (omap_insert k v m) kvs) = mset (omap_insert k v m) + mset kvs"
    using Cons.prems by (intro Cons.IH) (auto simp: kv omap_ok_insert omap_fst_insert)
  ultimately show ?case by (simp add: omap_extend_def kv)
qed (simp add: omap_extend_def)

section \<open>The document range\<close>

definition range_of :: "u64 set \<Rightarrow> (u64 \<times> u64) option" where
  "range_of D = (if D = {} then None else Some (Min D, Max D))"

lemma widen_range_of: "finite D \<Longrightarrow> widen_range d (range_of D) = range_of (insert d D)"
  by (simp add: widen_range_def range_of_def min.commute max.commute)

lemma fold_widen: "finite D \<Longrightarrow> fold (\<lambda>e. widen_range (f e)) es (range_of D) = range_of (D \<union> f ` set es)"
  by (induction es arbitrary: D) (simp_all add: widen_range_of)

lemma compute_doc_id_range_eq:
  "compute_doc_id_range dl nfs =
     range_of ((\<lambda>((d, _), _). d) ` set dl \<union> (\<Union>(_, f) \<in> set nfs. snd ` set (bkd_points (field_bkd f))))"
proof -
  have inner: "fold (\<lambda>(_, f) r. fold (\<lambda>(_, d). widen_range d) (bkd_points (field_bkd f)) r) nfs (range_of D)
      = range_of (D \<union> (\<Union>(_, f) \<in> set nfs. snd ` set (bkd_points (field_bkd f))))" if "finite D" for D
    using that
  proof (induction nfs arbitrary: D)
    case (Cons e nfs)
    show ?case
      using fold_widen [OF Cons.prems, of "snd :: u64 \<times> u64 \<Rightarrow> u64"] Cons.IH [of "D \<union> snd ` set (bkd_points (field_bkd (snd e)))"] Cons.prems
      by (simp add: case_prod_unfold Un_assoc)
  qed simp
  have "fold (\<lambda>((d, _), _). widen_range d) dl None = range_of ((\<lambda>((d, _), _). d) ` set dl)"
    using fold_widen [of "{}" "\<lambda>((d, _), _). d" dl] by (simp add: range_of_def case_prod_unfold)
  with inner show ?thesis by (simp add: compute_doc_id_range_def Let_def)
qed

text \<open>The document range a segment records is exact: it is absent when the segment has neither
  document lengths nor numeric points, and otherwise spans from the least to the greatest document
  of either kind.  (Documents that only have boolean fields do not count.)\<close>

theorem compute_doc_id_range_exact:
  "compute_doc_id_range dl nfs =
     (let D = (\<lambda>((d, _), _). d) ` set dl \<union> (\<Union>(_, f) \<in> set nfs. snd ` set (bkd_points (field_bkd f)))
      in if D = {} then None else Some (Min D, Max D))"
  by (simp add: compute_doc_id_range_eq range_of_def Let_def)

end
