(* ===== verification/Mem_Index.thy ===== *)
theory Mem_Index
  imports Segment
begin

text \<open>
  \<^verbatim>\<open>crates/core-index/src/mem/index.rs\<close> with the analyzed documents of \<^verbatim>\<open>document/analyzed.rs\<close> it
  takes in: the memtable, insertion of documents, merging of two memtables, and the two ways a
  memtable becomes a segment.  A hash map is kept as an ordered map: its iteration order reaches
  only \<open>capped_union\<close>, which does not depend on it.
  \<open>size_of::<TermKey>()\<close> is the 32 bytes it has on a 64-bit target.  Text analysis itself and fuzzy
  expansion are not modelled here.
\<close>

section \<open>Analyzed documents\<close>

record analyzed_term =
  at_term :: string
  at_positions :: "u32 list"
  at_weight :: u16

record analyzed_field =
  af_xpath :: u32
  af_doc_len :: u32
  af_terms :: "analyzed_term list"

record analyzed_target =
  tg_fields :: "analyzed_field list"
  tg_numeric_points :: "(u32 \<times> numeric_value) list"
  tg_bool_points :: "(u32 \<times> bool) list"

record analyzed_array_row =
  ar_row_id :: u64
  ar_parent :: "u64 option"
  ar_target :: analyzed_target

record analyzed_document =
  ad_doc_id :: u64
  ad_main :: analyzed_target
  ad_array_rows :: "analyzed_array_row list"

section \<open>The memtable\<close>

record mem_index =
  mi_terms :: dictionary
  mi_doc_lengths :: doc_lengths_map
  mi_field_stats :: field_stats_map
  mi_numeric_points :: numeric_points
  mi_bool_fields :: bool_fields_map
  mi_estimated_bytes :: nat
  mi_min_doc_id :: "u64 option"
  mi_max_doc_id :: "u64 option"
  mi_array_rows :: array_row_index

definition mi_new :: mem_index where
  "mi_new = \<lparr>mi_terms = [], mi_doc_lengths = [], mi_field_stats = [], mi_numeric_points = [],
     mi_bool_fields = [], mi_estimated_bytes = 0, mi_min_doc_id = None, mi_max_doc_id = None,
     mi_array_rows = rows_new 0\<rparr>"

definition TERM_KEY_BYTES :: nat where
  "TERM_KEY_BYTES = 32"

definition track_doc_id :: "u64 \<Rightarrow> mem_index \<Rightarrow> mem_index" where
  "track_doc_id d m =
     m\<lparr>mi_min_doc_id := Some (case mi_min_doc_id m of None \<Rightarrow> d | Some k \<Rightarrow> min k d),
       mi_max_doc_id := Some (case mi_max_doc_id m of None \<Rightarrow> d | Some k \<Rightarrow> max k d)\<rparr>"

definition mi_doc_id_range :: "mem_index \<Rightarrow> (u64 \<times> u64) option" where
  "mi_doc_id_range m =
     (case (mi_min_doc_id m, mi_max_doc_id m) of (Some lo, Some hi) \<Rightarrow> Some (lo, hi) | _ \<Rightarrow> None)"

definition add_posting_weighted :: "string \<Rightarrow> u32 \<Rightarrow> u64 \<Rightarrow> u32 list \<Rightarrow> u16 \<Rightarrow> mem_index \<Rightarrow> mem_index" where
  "add_posting_weighted t x d ps w m =
     (let m = m\<lparr>mi_estimated_bytes := mi_estimated_bytes m + (8 + 2 + length ps * 4)\<rparr>
      in case omap_get (mi_terms m) (TermKey x t) of
           Some l \<Rightarrow> m\<lparr>mi_terms := omap_insert (TermKey x t) (insert_posting l d ps w) (mi_terms m)\<rparr>
         | None \<Rightarrow>
             m\<lparr>mi_estimated_bytes := mi_estimated_bytes m + (length t + TERM_KEY_BYTES),
               mi_terms := omap_insert (TermKey x t) (insert_posting pl_new d ps w) (mi_terms m)\<rparr>)"

definition update_stats :: "u32 option \<Rightarrow> u32 \<Rightarrow> field_stats \<Rightarrow> field_stats" where
  "update_stats old len s =
     (case old of
        Some old_len \<Rightarrow> s\<lparr>total_doc_len := total_doc_len s - ucast old_len + ucast len\<rparr>
      | None \<Rightarrow> s\<lparr>doc_count := doc_count s + 1, total_doc_len := total_doc_len s + ucast len\<rparr>)"

definition apply_field :: "u64 \<Rightarrow> analyzed_field \<Rightarrow> mem_index \<Rightarrow> mem_index" where
  "apply_field d f m =
     (let old = omap_get (mi_doc_lengths m) (d, af_xpath f);
          m = m\<lparr>mi_doc_lengths := omap_insert (d, af_xpath f) (af_doc_len f) (mi_doc_lengths m)\<rparr>;
          m = m\<lparr>mi_field_stats := omap_entry (af_xpath f) field_stats_default
                (update_stats old (af_doc_len f)) (mi_field_stats m)\<rparr>
      in fold (\<lambda>t. add_posting_weighted (at_term t) (af_xpath f) d (at_positions t) (at_weight t))
           (af_terms f) m)"

definition set_bool :: "u64 \<Rightarrow> bool \<Rightarrow> bool_field \<Rightarrow> bool_field" where
  "set_bool d v slot =
     (if v then slot\<lparr>true_ids := insert d (true_ids slot)\<rparr>
      else slot\<lparr>false_ids := insert d (false_ids slot)\<rparr>)"

definition apply_target :: "u64 \<Rightarrow> analyzed_target \<Rightarrow> mem_index \<Rightarrow> mem_index" where
  "apply_target d tg m =
     (let m = fold (apply_field d) (tg_fields tg) m;
          m = fold (\<lambda>(x, v) m. m\<lparr>mi_numeric_points := np_insert x v d (mi_numeric_points m)\<rparr>)
                (tg_numeric_points tg) m
      in fold (\<lambda>(x, v) m. m\<lparr>mi_bool_fields := omap_entry x bool_field_default (set_bool d v) (mi_bool_fields m)\<rparr>)
           (tg_bool_points tg) m)"

definition add_array_row :: "u64 \<Rightarrow> analyzed_array_row \<Rightarrow> mem_index \<Rightarrow> mem_index" where
  "add_array_row d row m =
     apply_target (ar_row_id row) (ar_target row)
       (m\<lparr>mi_array_rows := push_row (mi_array_rows m) (ar_row_id row) d (ar_parent row)\<rparr>)"

definition add_analyzed_document :: "analyzed_document \<Rightarrow> mem_index \<Rightarrow> mem_index" where
  "add_analyzed_document doc m =
     fold (add_array_row (ad_doc_id doc)) (ad_array_rows doc)
       (apply_target (ad_doc_id doc) (ad_main doc) (track_doc_id (ad_doc_id doc) m))"

section \<open>Reading\<close>

definition mi_lookup :: "mem_index \<Rightarrow> string \<Rightarrow> u32 \<Rightarrow> posting_list option" where
  "mi_lookup m t x = omap_get (mi_terms m) (TermKey x t)"

definition mi_lookup_or_empty :: "mem_index \<Rightarrow> string \<Rightarrow> u32 \<Rightarrow> posting_list" where
  "mi_lookup_or_empty m t x = (case mi_lookup m t x of None \<Rightarrow> pl_new | Some l \<Rightarrow> l)"

definition mi_doc_freq :: "mem_index \<Rightarrow> string \<Rightarrow> u32 \<Rightarrow> u32" where
  "mi_doc_freq m t x =
     (case omap_get (mi_terms m) (TermKey x t) of None \<Rightarrow> 0 | Some l \<Rightarrow> word_of_nat (pl_len l))"

definition mi_lookup_prefix :: "mem_index \<Rightarrow> string \<Rightarrow> u32 \<Rightarrow> posting_list" where
  "mi_lookup_prefix m p x =
     capped_union (map (\<lambda>(k, l). (key_term k, l))
       (filter (\<lambda>(k, _). key_xpath k = x \<and> prefix p (key_term k)) (mi_terms m)))"

definition mi_lookup_wildcard :: "mem_index \<Rightarrow> wildcard_pattern \<Rightarrow> u32 \<Rightarrow> posting_list" where
  "mi_lookup_wildcard m pat x =
     (if is_prefix_only pat then mi_lookup_prefix m (wildcard_prefix pat) x
      else capped_union (map (\<lambda>(k, l). (key_term k, l))
             (filter (\<lambda>(k, _). key_xpath k = x \<and> wildcard_matches pat (key_term k)) (mi_terms m))))"

definition mi_numeric_range :: "mem_index \<Rightarrow> u32 \<Rightarrow> numeric_bound option \<Rightarrow> numeric_bound option \<Rightarrow> posting_list" where
  "mi_numeric_range m x lo hi = docs_to_postings (np_range (mi_numeric_points m) x lo hi)"

definition mi_numeric_value :: "mem_index \<Rightarrow> u32 \<Rightarrow> u64 \<Rightarrow> numeric_value option" where
  "mi_numeric_value m x d = np_get (mi_numeric_points m) x d"

definition mi_numeric_bounds :: "mem_index \<Rightarrow> u32 \<Rightarrow> numeric_value option \<times> numeric_value option" where
  "mi_numeric_bounds m x = np_bounds (mi_numeric_points m) x"

definition mi_bool_true_ids :: "mem_index \<Rightarrow> u32 \<Rightarrow> u64 set" where
  "mi_bool_true_ids m x = (case omap_get (mi_bool_fields m) x of None \<Rightarrow> {} | Some f \<Rightarrow> true_ids f)"

definition mi_bool_false_ids :: "mem_index \<Rightarrow> u32 \<Rightarrow> u64 set" where
  "mi_bool_false_ids m x = (case omap_get (mi_bool_fields m) x of None \<Rightarrow> {} | Some f \<Rightarrow> false_ids f)"

definition mi_bool_value :: "mem_index \<Rightarrow> u32 \<Rightarrow> u64 \<Rightarrow> bool option" where
  "mi_bool_value m x d =
     (case omap_get (mi_bool_fields m) x of
        None \<Rightarrow> None
      | Some f \<Rightarrow> if d \<in> true_ids f then Some True else if d \<in> false_ids f then Some False else None)"

definition mi_resolve_array_rows :: "mem_index \<Rightarrow> u64 set \<Rightarrow> u64 set" where
  "mi_resolve_array_rows m rows = (\<Union>r \<in> rows. set_option (doc_of (mi_array_rows m) r))"

definition mi_doc_len :: "mem_index \<Rightarrow> u64 \<Rightarrow> u32 \<Rightarrow> u32 option" where
  "mi_doc_len m d x = omap_get (mi_doc_lengths m) (d, x)"

definition mi_doc_count :: "mem_index \<Rightarrow> u32 \<Rightarrow> u64" where
  "mi_doc_count m x = (case omap_get (mi_field_stats m) x of None \<Rightarrow> 0 | Some f \<Rightarrow> doc_count f)"

definition mi_total_doc_len :: "mem_index \<Rightarrow> u32 \<Rightarrow> u64" where
  "mi_total_doc_len m x = (case omap_get (mi_field_stats m) x of None \<Rightarrow> 0 | Some f \<Rightarrow> total_doc_len f)"

section \<open>Merging and freezing\<close>

definition append_term :: "term_key \<times> posting_list \<Rightarrow> dictionary \<Rightarrow> dictionary" where
  "append_term = (\<lambda>(k, l) terms.
     case omap_get terms k of
       Some old \<Rightarrow> omap_insert k (pl_append old l) terms
     | None \<Rightarrow> omap_insert k l terms)"

definition union_bool :: "bool_field \<Rightarrow> bool_field \<Rightarrow> bool_field" where
  "union_bool f slot =
     \<lparr>true_ids = true_ids slot \<union> true_ids f, false_ids = false_ids slot \<union> false_ids f\<rparr>"

definition merge_bool :: "u32 \<times> bool_field \<Rightarrow> bool_fields_map \<Rightarrow> bool_fields_map" where
  "merge_bool = (\<lambda>(x, f) bools.
     case omap_get bools x of
       None \<Rightarrow> omap_insert x f bools
     | Some slot \<Rightarrow> omap_insert x (union_bool f slot) bools)"

definition duplicate_bytes :: "dictionary \<Rightarrow> dictionary \<Rightarrow> nat" where
  "duplicate_bytes mine newer =
     (\<Sum>(k, _) \<leftarrow> newer. if omap_get mine k = None then 0 else length (key_term k) + TERM_KEY_BYTES)"

definition merge_from :: "mem_index \<Rightarrow> mem_index \<Rightarrow> mem_index" where
  "merge_from m newer =
     (let m' = m\<lparr>mi_terms := fold append_term (mi_terms newer) (mi_terms m),
          mi_doc_lengths := omap_extend (mi_doc_lengths m) (mi_doc_lengths newer),
          mi_field_stats := fold (\<lambda>(x, s). omap_entry x field_stats_default (\<lambda>mine. field_stats_add mine s))
            (mi_field_stats newer) (mi_field_stats m),
          mi_numeric_points := np_merge (mi_numeric_points m) (mi_numeric_points newer),
          mi_bool_fields := fold merge_bool (mi_bool_fields newer) (mi_bool_fields m),
          mi_array_rows := rows_merge_from (mi_array_rows m) (mi_array_rows newer),
          mi_estimated_bytes := mi_estimated_bytes m
            + (mi_estimated_bytes newer - duplicate_bytes (mi_terms m) (mi_terms newer))\<rparr>
      in case mi_doc_id_range newer of
           None \<Rightarrow> m'
         | Some (lo, hi) \<Rightarrow> track_doc_id hi (track_doc_id lo m'))"

definition freeze :: "mem_index \<Rightarrow> immutable_segment" where
  "freeze m =
     seg_new (omap_extend [] (mi_terms m)) (omap_extend [] (mi_doc_lengths m)) (mi_field_stats m)
       (np_build (mi_numeric_points m)) (omap_extend [] (mi_bool_fields m)) (mi_array_rows m)"

text \<open>The accumulators of \<open>freeze_shared\<close> and its loop body.\<close>

record freeze_state =
  fr_terms :: dictionary
  fr_doc_lengths :: doc_lengths_map
  fr_field_stats :: field_stats_map
  fr_numeric_points :: numeric_points
  fr_bool_fields :: bool_fields_map
  fr_array_rows :: array_row_index

definition freeze_step :: "mem_index \<Rightarrow> freeze_state \<Rightarrow> freeze_state" where
  "freeze_step g st =
     \<lparr>fr_terms = fold append_term (mi_terms g) (fr_terms st),
      fr_doc_lengths = omap_extend (fr_doc_lengths st) (mi_doc_lengths g),
      fr_field_stats = fold (\<lambda>(x, s). omap_entry x field_stats_default (\<lambda>mine. field_stats_add mine s))
        (mi_field_stats g) (fr_field_stats st),
      fr_numeric_points = np_merge (fr_numeric_points st) (mi_numeric_points g),
      fr_bool_fields = fold (\<lambda>(x, f). omap_entry x bool_field_default (union_bool f))
        (mi_bool_fields g) (fr_bool_fields st),
      fr_array_rows = rows_merge_from (fr_array_rows st) (mi_array_rows g)\<rparr>"

definition freeze_shared :: "mem_index list \<Rightarrow> immutable_segment" where
  "freeze_shared gens =
     (let st = fold freeze_step gens
            \<lparr>fr_terms = [], fr_doc_lengths = [], fr_field_stats = [], fr_numeric_points = [],
             fr_bool_fields = [], fr_array_rows = rows_new 0\<rparr>
      in seg_new (fr_terms st) (fr_doc_lengths st) (fr_field_stats st)
           (np_build (fr_numeric_points st)) (fr_bool_fields st) (fr_array_rows st))"

section \<open>The memtable invariant\<close>

definition mem_ok :: "mem_index \<Rightarrow> bool" where
  "mem_ok m \<longleftrightarrow> dictionary_ok (mi_terms m)
     \<and> (\<forall>(k, l) \<in> set (mi_terms m). positions_ok (items l))
     \<and> omap_ok (mi_doc_lengths m)
     \<and> mi_field_stats m = build_field_stats (mi_doc_lengths m)
     \<and> np_ok (mi_numeric_points m)
     \<and> omap_ok (mi_bool_fields m)
     \<and> length (parent_row (mi_array_rows m)) = length (row_to_doc (mi_array_rows m))"

definition dict_ok :: "dictionary \<Rightarrow> bool" where
  "dict_ok m \<longleftrightarrow> omap_ok m \<and> (\<forall>(k, l) \<in> set m. pl_ok l \<and> positions_ok (items l))"

lemma mem_ok_dict:
  "mem_ok m \<longleftrightarrow> dict_ok (mi_terms m) \<and> omap_ok (mi_doc_lengths m)
     \<and> mi_field_stats m = build_field_stats (mi_doc_lengths m) \<and> np_ok (mi_numeric_points m)
     \<and> omap_ok (mi_bool_fields m)
     \<and> length (parent_row (mi_array_rows m)) = length (row_to_doc (mi_array_rows m))"
  by (auto simp: mem_ok_def dict_ok_def dictionary_ok_def)

lemma dict_ok_get: "dict_ok m \<Longrightarrow> omap_get m k = Some l \<Longrightarrow> pl_ok l \<and> positions_ok (items l)"
  by (auto simp: dict_ok_def dest: map_of_SomeD)

lemma dict_ok_insert:
  assumes "dict_ok m" "pl_ok l" "positions_ok (items l)"
  shows "dict_ok (omap_insert k l m)"
proof -
  have ok: "omap_ok (omap_insert k l m)" using assms(1) by (simp add: dict_ok_def omap_ok_insert)
  have "pl_ok l' \<and> positions_ok (items l')" if "(k', l') \<in> set (omap_insert k l m)" for k' l'
  proof -
    have "omap_get (omap_insert k l m) k' = Some l'" using ok that by (simp add: omap_get_iff)
    with assms show ?thesis
      by (auto simp: dict_ok_def omap_get_insert split: if_splits dest: map_of_SomeD)
  qed
  with ok show ?thesis by (auto simp: dict_ok_def)
qed

lemma positions_ok_new [simp]: "positions_ok (items pl_new)"
  by (simp add: positions_ok_def pl_new_def)

text \<open>What a document does to the dictionary: one insertion per term of every field.\<close>

type_synonym posting_op = "term_key \<times> u64 \<times> u32 list \<times> u16"

definition field_ops :: "u64 \<Rightarrow> analyzed_field \<Rightarrow> posting_op list" where
  "field_ops d f = map (\<lambda>t. (TermKey (af_xpath f) (at_term t), d, at_positions t, at_weight t)) (af_terms f)"

definition target_ops :: "u64 \<Rightarrow> analyzed_target \<Rightarrow> posting_op list" where
  "target_ops d tg = concat (map (field_ops d) (tg_fields tg))"

definition document_ops :: "analyzed_document \<Rightarrow> posting_op list" where
  "document_ops doc = target_ops (ad_doc_id doc) (ad_main doc)
     @ concat (map (\<lambda>row. target_ops (ar_row_id row) (ar_target row)) (ad_array_rows doc))"

definition add_op :: "posting_op \<Rightarrow> dictionary \<Rightarrow> dictionary" where
  "add_op = (\<lambda>(k, d, ps, w). omap_entry k pl_new (\<lambda>l. insert_posting l d ps w))"

lemma mi_terms_add_posting: "mi_terms (add_posting_weighted t x d ps w m) = add_op (TermKey x t, d, ps, w) (mi_terms m)"
  by (simp add: add_posting_weighted_def add_op_def omap_entry_def Let_def split: option.split)

lemma add_posting_rest [simp]:
  "mi_doc_lengths (add_posting_weighted t x d ps w m) = mi_doc_lengths m"
  "mi_field_stats (add_posting_weighted t x d ps w m) = mi_field_stats m"
  "mi_numeric_points (add_posting_weighted t x d ps w m) = mi_numeric_points m"
  "mi_bool_fields (add_posting_weighted t x d ps w m) = mi_bool_fields m"
  "mi_array_rows (add_posting_weighted t x d ps w m) = mi_array_rows m"
  by (simp_all add: add_posting_weighted_def Let_def split: option.split)

lemma fold_add_posting:
  fixes d x ts
  defines "F \<equiv> fold (\<lambda>t. add_posting_weighted (at_term t) x d (at_positions t) (at_weight t)) ts"
  shows "mi_terms (F m) = fold add_op (map (\<lambda>t. (TermKey x (at_term t), d, at_positions t, at_weight t)) ts) (mi_terms m)"
    and "mi_doc_lengths (F m) = mi_doc_lengths m" and "mi_field_stats (F m) = mi_field_stats m"
    and "mi_numeric_points (F m) = mi_numeric_points m" and "mi_bool_fields (F m) = mi_bool_fields m"
    and "mi_array_rows (F m) = mi_array_rows m"
  unfolding F_def by (induction ts arbitrary: m) (simp_all add: mi_terms_add_posting)

lemma apply_field_sel [simp]:
  "mi_terms (apply_field d f m) = fold add_op (field_ops d f) (mi_terms m)"
  "mi_doc_lengths (apply_field d f m) = omap_insert (d, af_xpath f) (af_doc_len f) (mi_doc_lengths m)"
  "mi_field_stats (apply_field d f m) = omap_entry (af_xpath f) field_stats_default
     (update_stats (omap_get (mi_doc_lengths m) (d, af_xpath f)) (af_doc_len f)) (mi_field_stats m)"
  "mi_numeric_points (apply_field d f m) = mi_numeric_points m"
  "mi_bool_fields (apply_field d f m) = mi_bool_fields m"
  "mi_array_rows (apply_field d f m) = mi_array_rows m"
  by (simp_all add: apply_field_def Let_def fold_add_posting field_ops_def)

lemma update_stats_build:
  assumes "omap_ok dl"
  shows "omap_entry x field_stats_default (update_stats (omap_get dl (d, x)) len) (build_field_stats dl)
    = build_field_stats (omap_insert (d, x) len dl)"
proof (rule omap_ext)
  show "omap_ok (omap_entry x field_stats_default (update_stats (omap_get dl (d, x)) len) (build_field_stats dl))"
    by (simp add: omap_ok_entry)
  fix y
  let ?R = "field_lengths y (mset (omap_remove (d, x) dl))"
  have new: "field_lengths y (mset (omap_insert (d, x) len dl)) = (if y = x then add_mset len ?R else ?R)"
    by (simp add: mset_omap_insert assms)
  show "omap_get (omap_entry x field_stats_default (update_stats (omap_get dl (d, x)) len) (build_field_stats dl)) y
    = omap_get (build_field_stats (omap_insert (d, x) len dl)) y"
  proof (cases "omap_get dl (d, x)")
    case None
    then have "field_lengths y (mset dl) = ?R"
      using mset_omap_remove [OF assms, of "(d, x)"] by simp
    with None show ?thesis
      by (auto simp: omap_get_entry omap_get_build_field_stats new update_stats_def stats_of_def field_stats_default_def
          add.commute split: option.split)
  next
    case (Some old)
    then have "field_lengths y (mset dl) = (if y = x then add_mset old ?R else ?R)"
      using mset_omap_remove [OF assms, of "(d, x)"] by simp
    with Some show ?thesis
      by (auto simp: omap_get_entry omap_get_build_field_stats new update_stats_def stats_of_def)
  qed
qed simp

lemma dict_ok_add_op: "dict_ok terms \<Longrightarrow> dict_ok (add_op op terms)"
  unfolding add_op_def omap_entry_def
  by (auto simp: positions_ok_insert_posting dest: dict_ok_get split: option.splits prod.splits
      intro!: dict_ok_insert pl_ok_insert_posting)

lemma dict_ok_fold_add_op: "dict_ok terms \<Longrightarrow> dict_ok (fold add_op ops terms)"
  by (induction ops arbitrary: terms) (simp_all add: dict_ok_add_op)

lemma mem_ok_apply_field: "mem_ok m \<Longrightarrow> mem_ok (apply_field d f m)"
  unfolding mem_ok_dict by (simp add: dict_ok_fold_add_op omap_ok_insert update_stats_build)

lemma fold_apply_field:
  "mi_terms (fold (apply_field d) fs m) = fold add_op (concat (map (field_ops d) fs)) (mi_terms m)"
  "mem_ok m \<Longrightarrow> mem_ok (fold (apply_field d) fs m)"
  by (induction fs arbitrary: m) (simp_all add: mem_ok_apply_field)

lemma fold_numeric:
  fixes pts m d
  defines "F \<equiv> fold (\<lambda>(x, v) m. m\<lparr>mi_numeric_points := np_insert x v d (mi_numeric_points m)\<rparr>) pts"
  shows "mi_terms (F m) = mi_terms m" and "mem_ok m \<Longrightarrow> mem_ok (F m)"
  unfolding F_def
  by (induction pts arbitrary: m) (auto simp: mem_ok_dict np_ok_insert)

lemma fold_bool:
  fixes pts m d
  defines "F \<equiv> fold (\<lambda>(x, v) m. m\<lparr>mi_bool_fields := omap_entry x bool_field_default (set_bool d v) (mi_bool_fields m)\<rparr>) pts"
  shows "mi_terms (F m) = mi_terms m" and "mem_ok m \<Longrightarrow> mem_ok (F m)"
  unfolding F_def
  by (induction pts arbitrary: m) (auto simp: mem_ok_dict omap_ok_entry)

lemma mi_terms_apply_target: "mi_terms (apply_target d tg m) = fold add_op (target_ops d tg) (mi_terms m)"
  by (simp add: apply_target_def Let_def fold_numeric fold_bool fold_apply_field target_ops_def)

lemma mem_ok_apply_target: "mem_ok m \<Longrightarrow> mem_ok (apply_target d tg m)"
  by (simp add: apply_target_def Let_def fold_numeric fold_bool fold_apply_field)

lemma mem_ok_add_array_row: "mem_ok m \<Longrightarrow> mem_ok (add_array_row d row m)"
  unfolding add_array_row_def
  by (rule mem_ok_apply_target) (simp add: mem_ok_dict push_row_def Let_def)

lemma mi_terms_add_array_row:
  "mi_terms (add_array_row d row m) = fold add_op (target_ops (ar_row_id row) (ar_target row)) (mi_terms m)"
  by (simp add: add_array_row_def mi_terms_apply_target)

lemma fold_array_rows:
  "mi_terms (fold (add_array_row d) rows m) =
     fold add_op (concat (map (\<lambda>row. target_ops (ar_row_id row) (ar_target row)) rows)) (mi_terms m)"
  "mem_ok m \<Longrightarrow> mem_ok (fold (add_array_row d) rows m)"
  by (induction rows arbitrary: m)
    (simp_all add: mem_ok_add_array_row mi_terms_add_array_row)

lemma track_doc_id_sel [simp]:
  "mi_terms (track_doc_id d m) = mi_terms m" "mi_doc_lengths (track_doc_id d m) = mi_doc_lengths m"
  "mi_field_stats (track_doc_id d m) = mi_field_stats m" "mi_numeric_points (track_doc_id d m) = mi_numeric_points m"
  "mi_bool_fields (track_doc_id d m) = mi_bool_fields m" "mi_array_rows (track_doc_id d m) = mi_array_rows m"
  by (simp_all add: track_doc_id_def)

lemma mem_ok_track [simp]: "mem_ok (track_doc_id d m) = mem_ok m"
  by (simp add: mem_ok_dict)

lemma mem_ok_add_analyzed_document: "mem_ok m \<Longrightarrow> mem_ok (add_analyzed_document doc m)"
  by (simp add: add_analyzed_document_def fold_array_rows mem_ok_apply_target)

lemma mi_terms_add_analyzed_document:
  "mi_terms (add_analyzed_document doc m) = fold add_op (document_ops doc) (mi_terms m)"
  by (simp add: add_analyzed_document_def fold_array_rows mi_terms_apply_target document_ops_def)

definition dict_lookup :: "dictionary \<Rightarrow> term_key \<Rightarrow> posting_list" where
  "dict_lookup terms k = (case omap_get terms k of None \<Rightarrow> pl_new | Some l \<Rightarrow> l)"

lemma mi_lookup_dict: "mi_lookup_or_empty m t x = dict_lookup (mi_terms m) (TermKey x t)"
  by (simp add: mi_lookup_or_empty_def mi_lookup_def dict_lookup_def)

lemma pl_ok_dict_lookup: "dict_ok terms \<Longrightarrow> pl_ok (dict_lookup terms k)"
  by (auto simp: dict_lookup_def split: option.split dest: dict_ok_get)

lemma dict_lookup_add_op:
  "dict_ok terms \<Longrightarrow> dict_lookup (add_op (k, d, ps, w) terms) k' =
     (if k' = k then insert_posting (dict_lookup terms k) d ps w else dict_lookup terms k')"
  by (simp add: dict_lookup_def add_op_def omap_get_entry dict_ok_def)

definition op_hits :: "posting_op list \<Rightarrow> term_key \<Rightarrow> (u64 \<times> position) set" where
  "op_hits ops k = (\<Union>(k', d, ps, w) \<in> set ops. if k' = k then Pair d ` set ps else {})"

lemma hits_fold_add_op:
  "dict_ok terms \<Longrightarrow> hits (items (dict_lookup (fold add_op ops terms) k)) = hits (items (dict_lookup terms k)) \<union> op_hits ops k"
proof (induction ops arbitrary: terms)
  case (Cons op ops)
  obtain k' d ps w where op: "op = (k', d, ps, w)" by (metis surj_pair)
  have "hits (items (dict_lookup (add_op op terms) k)) = hits (items (dict_lookup terms k)) \<union> (if k' = k then Pair d ` set ps else {})"
    using Cons.prems by (simp add: op dict_lookup_add_op hits_insert_posting pl_ok_dict_lookup)
  with Cons.IH [OF dict_ok_add_op [OF Cons.prems, of op]] show ?case
    by (auto simp: op op_hits_def)
qed (simp add: op_hits_def)

section \<open>Merging memtables\<close>

lemma append_term_merge: "fold append_term newer mine = omap_merge pl_append newer mine"
  unfolding omap_merge_def append_term_def
  by (rule fold_cong) (auto simp: fun_eq_iff split: option.split)

lemma merge_bool_merge: "fold merge_bool newer mine = omap_merge (\<lambda>old f. union_bool f old) newer mine"
  unfolding omap_merge_def merge_bool_def
  by (rule fold_cong) (auto simp: fun_eq_iff split: option.split)

lemma union_bool_default [simp]: "union_bool f bool_field_default = f"
  by (simp add: union_bool_def bool_field_default_def)

lemma shared_bool_merge:
  "fold (\<lambda>(x, f). omap_entry x bool_field_default (union_bool f)) newer mine = omap_merge (\<lambda>old f. union_bool f old) newer mine"
  by (rule omap_merge_entry) simp_all

lemma field_stats_add_default [simp]: "field_stats_add field_stats_default s = s"
  by (simp add: field_stats_add_def field_stats_default_def)

lemma stats_merge:
  "fold (\<lambda>(x, s). omap_entry x field_stats_default (\<lambda>mine. field_stats_add mine s)) newer mine = omap_merge field_stats_add newer mine"
  by (rule omap_merge_entry) simp_all

lemma np_merge_merge: "np_ok newer \<Longrightarrow> np_merge mine newer = omap_merge (\<lambda>old ps. append_points ps old) newer mine"
  unfolding np_merge_def
  by (rule omap_merge_entry) (auto simp: np_ok_def append_points_def)

lemma merge_from_sel:
  assumes "np_ok (mi_numeric_points newer)"
  shows "mi_terms (merge_from m newer) = omap_merge pl_append (mi_terms newer) (mi_terms m)"
    and "mi_doc_lengths (merge_from m newer) = omap_extend (mi_doc_lengths m) (mi_doc_lengths newer)"
    and "mi_field_stats (merge_from m newer) = omap_merge field_stats_add (mi_field_stats newer) (mi_field_stats m)"
    and "mi_numeric_points (merge_from m newer) = omap_merge (\<lambda>old ps. append_points ps old) (mi_numeric_points newer) (mi_numeric_points m)"
    and "mi_bool_fields (merge_from m newer) = omap_merge (\<lambda>old f. union_bool f old) (mi_bool_fields newer) (mi_bool_fields m)"
    and "mi_array_rows (merge_from m newer) = rows_merge_from (mi_array_rows m) (mi_array_rows newer)"
  using assms by (simp_all add: merge_from_def Let_def append_term_merge merge_bool_merge stats_merge np_merge_merge split: option.split)

lemma build_field_stats_merge:
  assumes "omap_ok dl" "omap_ok dl'" "fst ` set dl \<inter> fst ` set dl' = {}"
  shows "omap_merge field_stats_add (build_field_stats dl') (build_field_stats dl) = build_field_stats (omap_extend dl dl')"
proof (rule omap_ext)
  fix x
  have "mset (omap_extend dl dl') = mset dl + mset dl'"
    using assms by (simp add: mset_omap_extend_disjoint omap_distinct)
  then show "omap_get (omap_merge field_stats_add (build_field_stats dl') (build_field_stats dl)) x
    = omap_get (build_field_stats (omap_extend dl dl')) x"
    by (auto simp: omap_get_merge omap_distinct omap_get_build_field_stats stats_of_def field_stats_add_def)
qed (simp_all add: omap_ok_merge)

lemma positions_ok_combine:
  "(\<And>p. p \<in> set ps \<Longrightarrow> sorted (positions p)) \<Longrightarrow> ps \<noteq> [] \<Longrightarrow> sorted (positions (combine ps))"
proof (cases "length ps = 1")
  case True
  then obtain p where "ps = [p]" by (auto simp: length_Suc_conv)
  then show "(\<And>p. p \<in> set ps \<Longrightarrow> sorted (positions p)) \<Longrightarrow> ?thesis" by simp
next
  case False
  then show "ps \<noteq> [] \<Longrightarrow> ?thesis"
    by (cases ps rule: rev_cases) (auto simp: combine_snoc ascending_sorted)
qed

lemma positions_ok_merge_by_doc: "positions_ok ps \<Longrightarrow> positions_ok (merge_by_doc ps)"
  unfolding positions_ok_def
proof
  fix p
  assume ok: "\<forall>p \<in> set ps. sorted (positions p)" and p: "p \<in> set (merge_by_doc ps)"
  then obtain d where "d \<in> docs ps" "p = combine (filter (\<lambda>q. doc_id q = d) ps)"
    by (auto simp: merge_by_doc_def docs_def)
  with ok show "sorted (positions p)"
    by (auto simp: docs_iff filter_empty_conv intro!: positions_ok_combine)
qed

lemma positions_ok_append:
  "pl_ok l \<Longrightarrow> pl_ok l' \<Longrightarrow> positions_ok (items l) \<Longrightarrow> positions_ok (items l') \<Longrightarrow> positions_ok (items (pl_append l l'))"
  by (simp add: items_append positions_ok_merge_by_doc) (metis Un_iff positions_ok_def positions_ok_merge_by_doc set_append)

lemma dict_ok_merge:
  assumes "dict_ok mine" "dict_ok newer"
  shows "dict_ok (omap_merge pl_append newer mine)"
proof -
  have ok: "omap_ok (omap_merge pl_append newer mine)" using assms by (simp add: dict_ok_def omap_ok_merge)
  have "pl_ok l \<and> positions_ok (items l)" if "(k, l) \<in> set (omap_merge pl_append newer mine)" for k l
  proof -
    have "omap_get (omap_merge pl_append newer mine) k = Some l" using ok that by (simp add: omap_get_iff)
    moreover have "omap_ok mine" "distinct (map fst newer)" using assms by (simp_all add: dict_ok_def omap_distinct)
    ultimately show ?thesis
      using dict_ok_get [OF assms(1), of k] dict_ok_get [OF assms(2), of k]
      by (auto simp: omap_get_merge split: option.splits intro!: pl_ok_append positions_ok_append)
  qed
  with ok show ?thesis by (auto simp: dict_ok_def)
qed

lemma rows_lengths_merge:
  "length (parent_row t) = length (row_to_doc t) \<Longrightarrow> length (parent_row t') = length (row_to_doc t') \<Longrightarrow>
     length (parent_row (rows_merge_from t t')) = length (row_to_doc (rows_merge_from t t'))"
  by (simp add: rows_merge_from_def Let_def)

lemma mem_ok_merge_from:
  assumes "mem_ok m" "mem_ok newer" "fst ` set (mi_doc_lengths m) \<inter> fst ` set (mi_doc_lengths newer) = {}"
  shows "mem_ok (merge_from m newer)"
proof -
  have np: "np_ok (mi_numeric_points newer)" using assms(2) by (simp add: mem_ok_dict)
  show ?thesis
    using assms np_ok_merge [of "mi_numeric_points m" "mi_numeric_points newer"]
    unfolding mem_ok_dict
    by (simp add: merge_from_sel [OF np] dict_ok_merge omap_ok_extend build_field_stats_merge omap_ok_merge
        np_merge_merge [OF np] rows_lengths_merge)
qed

lemma dict_lookup_merge:
  assumes "dict_ok mine" "dict_ok newer"
  shows "items (dict_lookup (omap_merge pl_append newer mine) k) =
    merge_by_doc (items (dict_lookup mine k) @ items (dict_lookup newer k))"
proof -
  have "omap_ok mine" "distinct (map fst newer)" using assms by (simp_all add: dict_ok_def omap_distinct)
  then show ?thesis
    using dict_ok_get [OF assms(1), of k] dict_ok_get [OF assms(2), of k]
    by (auto simp: dict_lookup_def omap_get_merge items_append pl_new_def pl_ok_def merge_by_doc_ascending
        merge_by_doc_def [of "[]"] split: option.split)
qed

section \<open>The memtable as a term reader\<close>

interpretation mi_reader: term_reader mi_terms mi_lookup_or_empty mi_doc_freq mi_lookup_prefix mi_lookup_wildcard mem_ok
proof
  fix m t x p pat
  assume "mem_ok m"
  then show "dictionary_ok (mi_terms m)" by (simp add: mem_ok_def)
  show "mi_lookup_or_empty m t x = (case omap_get (mi_terms m) (TermKey x t) of None \<Rightarrow> pl_new | Some l \<Rightarrow> l)"
    by (simp add: mi_lookup_or_empty_def mi_lookup_def)
  show "mi_doc_freq m t x = word_of_nat (pl_len (mi_lookup_or_empty m t x))"
    by (simp add: mi_doc_freq_def mi_lookup_or_empty_def mi_lookup_def pl_len_def pl_new_def split: option.split)
  show pre: "mi_lookup_prefix m p x = capped_union (field_matches (mi_terms m) x (prefix p))" for p
    by (simp add: mi_lookup_prefix_def field_matches_def)
  show "mi_lookup_wildcard m pat x = capped_union (field_matches (mi_terms m) x (wildcard_matches pat))"
  proof (cases "is_prefix_only pat")
    case True
    then have "wildcard_matches pat = prefix (wildcard_prefix pat)"
      using wildcard_prefix_iff by blast
    with True show ?thesis by (simp add: mi_lookup_wildcard_def pre)
  qed (simp add: mi_lookup_wildcard_def field_matches_def)
qed

interpretation mem_seg: reader_pair
  mi_terms mi_lookup_or_empty mi_doc_freq mi_lookup_prefix mi_lookup_wildcard mem_ok
  seg_terms seg_lookup_or_empty seg_doc_freq seg_lookup_prefix seg_lookup_wildcard seg_ok
  by unfold_locales

section \<open>Freezing\<close>

lemma freeze_sel:
  assumes "mem_ok m"
  shows "seg_terms (freeze m) = mi_terms m" "seg_doc_lengths (freeze m) = mi_doc_lengths m"
    "seg_field_stats (freeze m) = mi_field_stats m" "seg_bool_fields (freeze m) = mi_bool_fields m"
    "seg_numeric_fields (freeze m) = np_build (mi_numeric_points m)" "seg_array_rows (freeze m) = mi_array_rows m"
  using assms by (simp_all add: freeze_def seg_new_def mem_ok_def dictionary_ok_def omap_extend_Nil_id)

lemma seg_ok_freeze: "mem_ok m \<Longrightarrow> seg_ok (freeze m)"
  by (simp add: seg_ok_def freeze_sel) (simp add: mem_ok_def)

definition maps_ok :: "mem_index \<Rightarrow> bool" where
  "maps_ok m \<longleftrightarrow> omap_ok (mi_terms m) \<and> omap_ok (mi_doc_lengths m) \<and> omap_ok (mi_bool_fields m)"

lemma mem_ok_maps_ok: "mem_ok m \<Longrightarrow> maps_ok m"
  by (simp add: mem_ok_dict maps_ok_def dict_ok_def)

lemma maps_ok_merge_from: "maps_ok m \<Longrightarrow> np_ok (mi_numeric_points newer) \<Longrightarrow> maps_ok (merge_from m newer)"
  by (simp add: maps_ok_def merge_from_sel omap_ok_merge omap_ok_extend)

text \<open>The accumulators of \<open>freeze_shared\<close> hold what the merged memtable holds.\<close>

definition holds :: "freeze_state \<Rightarrow> mem_index \<Rightarrow> bool" where
  "holds st m \<longleftrightarrow> fr_terms st = mi_terms m \<and> fr_doc_lengths st = mi_doc_lengths m
     \<and> fr_field_stats st = mi_field_stats m \<and> fr_numeric_points st = mi_numeric_points m
     \<and> fr_bool_fields st = mi_bool_fields m \<and> fr_array_rows st = mi_array_rows m"

lemma holds_step: "holds st m \<Longrightarrow> np_ok (mi_numeric_points g) \<Longrightarrow> holds (freeze_step g st) (merge_from m g)"
  by (simp add: holds_def freeze_step_def merge_from_sel append_term_merge shared_bool_merge stats_merge np_merge_merge)

text \<open>A table without rows has the default base.\<close>

definition rows_normal :: "array_row_index \<Rightarrow> bool" where
  "rows_normal t \<longleftrightarrow> (row_to_doc t = [] \<longrightarrow> t = rows_new 0)"

lemma holds_first:
  assumes "mem_ok g" "rows_normal (mi_array_rows g)"
  shows "holds (freeze_step g \<lparr>fr_terms = [], fr_doc_lengths = [], fr_field_stats = [], fr_numeric_points = [],
             fr_bool_fields = [], fr_array_rows = rows_new 0\<rparr>) g"
proof -
  have "rows_merge_from (rows_new 0) (mi_array_rows g) = mi_array_rows g"
    using assms(2) by (auto simp: rows_merge_from_def rows_is_empty_def rows_new_def rows_normal_def Let_def)
  with assms(1) show ?thesis
    by (simp add: holds_def freeze_step_def append_term_merge shared_bool_merge stats_merge np_merge_merge mem_ok_dict
        dict_ok_def np_ok_def omap_merge_Nil omap_extend_Nil_id)
qed

lemma holds_fold:
  "holds st m \<Longrightarrow> maps_ok m \<Longrightarrow> \<forall>g \<in> set gs. np_ok (mi_numeric_points g) \<Longrightarrow>
     holds (fold freeze_step gs st) (foldl merge_from m gs) \<and> maps_ok (foldl merge_from m gs)"
proof (induction gs arbitrary: st m)
  case (Cons g gs)
  then show ?case
    using Cons.IH [OF holds_step [OF Cons.prems(1), of g] maps_ok_merge_from [OF Cons.prems(2), of g]] by simp
qed simp

lemma seg_new_holds:
  "holds st m \<Longrightarrow> maps_ok m \<Longrightarrow>
     seg_new (fr_terms st) (fr_doc_lengths st) (fr_field_stats st) (np_build (fr_numeric_points st))
       (fr_bool_fields st) (fr_array_rows st) = freeze m"
  by (simp add: holds_def freeze_def maps_ok_def omap_extend_Nil_id)

section \<open>Properties\<close>

text \<open>C20. Adding a document keeps the memtable invariant, the debug assertion that field statistics
  are those derived from the document lengths included, even when a document repeats a field; and
  afterwards a term's postings hold exactly the old occurrences and those the document, its array
  rows included, has for the term.\<close>

theorem add_analyzed_document_spec:
  assumes "mem_ok m"
  shows "mem_ok (add_analyzed_document doc m)
    \<and> hits (items (mi_lookup_or_empty (add_analyzed_document doc m) t x)) =
        hits (items (mi_lookup_or_empty m t x)) \<union> op_hits (document_ops doc) (TermKey x t)"
  using assms mem_ok_add_analyzed_document [OF assms, of doc]
  by (simp add: mi_lookup_dict mi_terms_add_analyzed_document hits_fold_add_op mem_ok_dict)

definition sample_document :: analyzed_document where
  "sample_document =
     \<lparr>ad_doc_id = 5,
      ad_main = \<lparr>tg_fields = [\<lparr>af_xpath = 1, af_doc_len = 2,
                   af_terms = [\<lparr>at_term = ''red'', at_positions = [16, 32], at_weight = 3\<rparr>]\<rparr>],
                 tg_numeric_points = [(2, IntV 40)], tg_bool_points = [(3, True)]\<rparr>,
      ad_array_rows = []\<rparr>"

lemma mem_ok_new [simp]: "mem_ok mi_new"
  by (simp add: mem_ok_def mi_new_def dictionary_ok_def np_ok_def build_field_stats_def rows_new_def)

theorem add_analyzed_document_spec_witness:
  "mem_ok mi_new
   \<and> hits (items (mi_lookup_or_empty (add_analyzed_document sample_document mi_new) ''red'' 1)) = {(5, 16), (5, 32)}"
proof -
  have "hits (items (mi_lookup_or_empty mi_new ''red'' 1)) = {}"
    by (simp add: mi_lookup_or_empty_def mi_lookup_def mi_new_def pl_new_def)
  moreover have "op_hits (document_ops sample_document) (TermKey 1 ''red'') = {(5, 16), (5, 32)}"
    by (simp add: op_hits_def document_ops_def target_ops_def field_ops_def sample_document_def)
  ultimately show ?thesis
    using add_analyzed_document_spec [OF mem_ok_new, of sample_document "''red''" 1] by simp
qed

text \<open>C11. Freezing a memtable into a segment changes no answer: exact, prefix and wildcard lookups, document
  frequencies, boolean filters, array row resolution, document lengths and field statistics are those of the memtable;
  and so are numeric ranges, values and bounds, provided each numeric field holds values of one kind, a document has
  at most one value per field, and the ends of the range are of the kind of the field.\<close>

theorem freeze_preserves_search:
  assumes "mem_ok m"
  shows "seg_lookup_or_empty (freeze m) t x = mi_lookup_or_empty m t x
    \<and> seg_doc_freq (freeze m) t x = mi_doc_freq m t x
    \<and> seg_lookup_prefix (freeze m) p x = mi_lookup_prefix m p x
    \<and> seg_lookup_wildcard (freeze m) pat x = mi_lookup_wildcard m pat x
    \<and> seg_bool_value (freeze m) x d = mi_bool_value m x d
    \<and> seg_resolve_array_rows (freeze m) rows = mi_resolve_array_rows m rows
    \<and> seg_doc_len (freeze m) d x = mi_doc_len m d x
    \<and> seg_doc_count (freeze m) x = mi_doc_count m x
    \<and> seg_total_doc_len (freeze m) x = mi_total_doc_len m x
    \<and> (np_kinds kind (mi_numeric_points m) \<and> np_single (mi_numeric_points m) \<and> bound_kind (kind x) lo \<and> bound_kind (kind x) hi \<longrightarrow>
        seg_numeric_range (freeze m) x lo hi = mi_numeric_range m x lo hi
        \<and> seg_numeric_value (freeze m) x d = mi_numeric_value m x d
        \<and> seg_numeric_bounds (freeze m) x = mi_numeric_bounds m x)"
proof -
  note seg = seg_ok_freeze [OF assms] and sel = freeze_sel [OF assms]
  note same = mem_seg.same_answers [OF assms seg sel(1) [symmetric]]
  have num: "nf_range (np_build (mi_numeric_points m)) x lo hi = np_range (mi_numeric_points m) x lo hi"
    "nf_get (np_build (mi_numeric_points m)) x d = np_get (mi_numeric_points m) x d"
    "nf_bounds (np_build (mi_numeric_points m)) x = np_bounds (mi_numeric_points m) x"
    if "np_kinds kind (mi_numeric_points m) \<and> np_single (mi_numeric_points m) \<and> bound_kind (kind x) lo \<and> bound_kind (kind x) hi"
    using build_queries [of "mi_numeric_points m" kind x lo hi] assms that by (simp_all add: mem_ok_def)
  show ?thesis
    by (simp add: same [symmetric] num sel seg_numeric_range_def mi_numeric_range_def seg_numeric_value_def
        mi_numeric_value_def seg_numeric_bounds_def mi_numeric_bounds_def seg_bool_value_def mi_bool_value_def
        seg_resolve_array_rows_def mi_resolve_array_rows_def seg_doc_len_def mi_doc_len_def seg_doc_count_def
        mi_doc_count_def seg_total_doc_len_def mi_total_doc_len_def)
qed

lemma sample_memtable:
  "mem_ok (add_analyzed_document sample_document mi_new)"
  "mi_numeric_points (add_analyzed_document sample_document mi_new) = [(2, [(5, IntV 40)])]"
  "hits (items (mi_lookup_or_empty (add_analyzed_document sample_document mi_new) ''red'' 1)) = {(5, 16), (5, 32)}"
proof -
  show "mem_ok (add_analyzed_document sample_document mi_new)" by (rule mem_ok_add_analyzed_document [OF mem_ok_new])
  show "mi_numeric_points (add_analyzed_document sample_document mi_new) = [(2, [(5, IntV 40)])]"
    by (simp add: add_analyzed_document_def apply_target_def sample_document_def mi_new_def fold_numeric np_insert_def omap_entry_def push_point_def)
  have "hits (items (mi_lookup_or_empty mi_new ''red'' 1)) = {}"
    by (simp add: mi_lookup_or_empty_def mi_lookup_def mi_new_def pl_new_def)
  moreover have "op_hits (document_ops sample_document) (TermKey 1 ''red'') = {(5, 16), (5, 32)}"
    by (simp add: op_hits_def document_ops_def target_ops_def field_ops_def sample_document_def)
  ultimately show "hits (items (mi_lookup_or_empty (add_analyzed_document sample_document mi_new) ''red'' 1)) = {(5, 16), (5, 32)}"
    using mem_ok_new by (simp add: mi_lookup_dict mi_terms_add_analyzed_document hits_fold_add_op mem_ok_dict)
qed

theorem freeze_preserves_search_witness:
  "hits (items (seg_lookup_or_empty (freeze (add_analyzed_document sample_document mi_new)) ''red'' 1)) = {(5, 16), (5, 32)}
   \<and> seg_numeric_value (freeze (add_analyzed_document sample_document mi_new)) 2 5 = Some (IntV 40)"
proof -
  let ?m = "add_analyzed_document sample_document mi_new"
  note m = sample_memtable
  have "np_kinds (\<lambda>_. KInt) (mi_numeric_points ?m)" "np_single (mi_numeric_points ?m)"
    by (simp_all add: m(2) np_kinds_def np_single_def kinds_ok_def value_kind_def)
  moreover have "mi_numeric_value ?m 2 5 = Some (IntV 40)" by (simp add: mi_numeric_value_def m(2) np_get_def partition_point_def)
  moreover have "seg_lookup_or_empty (freeze ?m) ''red'' 1 = mi_lookup_or_empty ?m ''red'' 1" using freeze_preserves_search [OF m(1)] by blast
  ultimately show ?thesis
    using freeze_preserves_search [OF m(1), where kind = "\<lambda>_. KInt" and x = 2 and d = 5 and lo = None and hi = None] m(3)
    by (simp add: bound_kind_def)
qed

text \<open>C25. Merging a newer memtable over disjoint documents keeps the invariant, statistics included,
  and each term's postings become the reference merge of both lists.\<close>

theorem merge_from_spec:
  assumes "mem_ok m" and "mem_ok newer"
    and "fst ` set (mi_doc_lengths m) \<inter> fst ` set (mi_doc_lengths newer) = {}"
  shows "mem_ok (merge_from m newer)
    \<and> items (mi_lookup_or_empty (merge_from m newer) t x) =
        merge_by_doc (items (mi_lookup_or_empty m t x) @ items (mi_lookup_or_empty newer t x))"
proof -
  have "np_ok (mi_numeric_points newer)" "dict_ok (mi_terms m)" "dict_ok (mi_terms newer)"
    using assms by (simp_all add: mem_ok_dict)
  then show ?thesis
    using mem_ok_merge_from [OF assms] by (simp add: mi_lookup_dict merge_from_sel dict_lookup_merge)
qed

theorem merge_from_spec_witness:
  "mem_ok (add_analyzed_document sample_document mi_new)
   \<and> mem_ok (merge_from mi_new (add_analyzed_document sample_document mi_new))"
proof -
  have h: "mem_ok (add_analyzed_document sample_document mi_new)"
    by (rule mem_ok_add_analyzed_document) simp
  have d: "fst ` set (mi_doc_lengths mi_new) \<inter> fst ` set (mi_doc_lengths (add_analyzed_document sample_document mi_new)) = {}"
    by (simp add: mi_new_def)
  from h merge_from_spec [OF mem_ok_new h d] show ?thesis by simp
qed

text \<open>C26. Freezing several memtable generations in place gives the very segment that merging them
  oldest first and freezing the result gives.\<close>

theorem freeze_shared_is_merge:
  assumes "\<forall>g \<in> set (g0 # gs). mem_ok g" and "rows_normal (mi_array_rows g0)"
  shows "freeze_shared (g0 # gs) = freeze (foldl merge_from g0 gs)"
proof -
  have g0: "mem_ok g0" and gs: "\<forall>g \<in> set gs. np_ok (mi_numeric_points g)"
    using assms(1) by (auto simp: mem_ok_def)
  from holds_fold [OF holds_first [OF g0 assms(2)] mem_ok_maps_ok [OF g0] gs] show ?thesis
    by (simp add: freeze_shared_def Let_def seg_new_holds)
qed

theorem freeze_shared_is_merge_witness:
  "mem_ok mi_new \<and> rows_normal (mi_array_rows mi_new)
   \<and> freeze_shared [mi_new, add_analyzed_document sample_document mi_new]
     = freeze (merge_from mi_new (add_analyzed_document sample_document mi_new))"
proof -
  have ok: "\<forall>g \<in> set [mi_new, add_analyzed_document sample_document mi_new]. mem_ok g"
    by (simp add: mem_ok_add_analyzed_document)
  have n: "rows_normal (mi_array_rows mi_new)" by (simp add: rows_normal_def mi_new_def rows_new_def)
  from n freeze_shared_is_merge [OF ok n] show ?thesis by simp
qed

end
