(* ===== verification/Codec.thy ===== *)
theory Codec
  imports Prelude
begin

text \<open>
  \<^verbatim>\<open>crates/core-index/src/disk/codec.rs\<close>, the \<open>write_u*\<close> helpers of \<^verbatim>\<open>disk/writer.rs\<close> and the
  \<open>Cursor\<close> of \<^verbatim>\<open>disk/reader.rs\<close>: little-endian integers, LEB128 varints, and a read position over
  a byte slice.  A writer is the byte string it emits; a reader takes the cursor and returns its
  value with the moved cursor, or an I/O error.

  The predicate \<open>reads\<close> says that a reader, started anywhere in front of a given byte string,
  returns a given value and stops right behind it.  The locale \<open>byte_codec\<close> is the contract of
  every record of the file formats: what is written is read back.
\<close>

section \<open>Little-endian integers\<close>

text \<open>\<open>to_le_bytes\<close> of an integer of \<open>n\<close> bytes, and \<open>from_le_bytes\<close>.\<close>

primrec to_le :: "nat \<Rightarrow> 'a::len word \<Rightarrow> u8 list" where
  "to_le 0 w = []"
| "to_le (Suc n) w = ucast w # to_le n (drop_bit 8 w)"

primrec from_le :: "u8 list \<Rightarrow> 'a::len word" where
  "from_le [] = 0"
| "from_le (b # bs) = ucast b OR push_bit 8 (from_le bs)"

definition write_u8 :: "u8 \<Rightarrow> u8 list" where
  "write_u8 v = [v]"

definition write_u16 :: "u16 \<Rightarrow> u8 list" where
  "write_u16 v = to_le 2 v"

definition write_u32 :: "u32 \<Rightarrow> u8 list" where
  "write_u32 v = to_le 4 v"

definition write_u64 :: "u64 \<Rightarrow> u8 list" where
  "write_u64 v = to_le 8 v"

section \<open>The read cursor\<close>

record cursor =
  bytes :: "u8 list"
  offset :: nat

type_synonym 'a reader = "cursor \<Rightarrow> ('a \<times> cursor) result"

definition reader_cursor_new :: "u8 list \<Rightarrow> cursor" where
  "reader_cursor_new bs = \<lparr>bytes = bs, offset = 0\<rparr>"

text \<open>\<open>offset + len\<close> is a \<open>usize\<close> addition.  It does not overflow for a length read from a
  section, which is compared with the section's length first or is a \<open>u64\<close> of a well-formed
  file; the sum is kept unbounded here.\<close>

definition cursor_take :: "nat \<Rightarrow> u8 list reader" where
  "cursor_take len c =
     (let stop = offset c + len
      in if stop > length (bytes c) then Inl (UnexpectedEof ''unexpected eof'')
         else Inr (take len (drop (offset c) (bytes c)), c\<lparr>offset := stop\<rparr>))"

text \<open>Running a reader, then another on its value: \<open>let x = cursor.f()?; ...\<close>.\<close>

definition then_read :: "'a reader \<Rightarrow> ('a \<Rightarrow> 'b reader) \<Rightarrow> 'b reader" where
  "then_read r f c = and_then (r c) (\<lambda>(x, c'). f x c')"

definition read_return :: "'a \<Rightarrow> 'a reader" where
  "read_return x c = Inr (x, c)"

definition read_fail :: "io_error \<Rightarrow> 'a reader" where
  "read_fail e c = Inl e"

definition read_u8 :: "u8 reader" where
  "read_u8 = then_read (cursor_take 1) (\<lambda>bs. read_return (bs ! 0))"

definition read_u16 :: "u16 reader" where
  "read_u16 = then_read (cursor_take 2) (\<lambda>bs. read_return (from_le bs))"

definition read_u32 :: "u32 reader" where
  "read_u32 = then_read (cursor_take 4) (\<lambda>bs. read_return (from_le bs))"

definition read_u64 :: "u64 reader" where
  "read_u64 = then_read (cursor_take 8) (\<lambda>bs. read_return (from_le bs))"

definition remaining :: "cursor \<Rightarrow> nat" where
  "remaining c = length (bytes c) - offset c"

text \<open>\<open>for _ in 0..n { v.push(read()?) }\<close>.\<close>

primrec read_n :: "nat \<Rightarrow> 'a reader \<Rightarrow> 'a list reader" where
  "read_n 0 r = read_return []"
| "read_n (Suc n) r = then_read r (\<lambda>x. then_read (read_n n r) (\<lambda>xs. read_return (x # xs)))"

section \<open>Varints\<close>

lemma shr7_less: "0x80 \<le> v \<Longrightarrow> unat (drop_bit 7 v) < unat v" for v :: u64
proof -
  assume "0x80 \<le> v"
  then have "128 \<le> unat v" by (simp add: word_le_nat_alt)
  then show ?thesis by (simp add: drop_bit_eq_div unat_div)
qed

function push_var_u64 :: "u64 \<Rightarrow> u8 list" where
  "push_var_u64 value =
     (if value \<ge> 0x80 then ((ucast value AND 0x7f) OR 0x80) # push_var_u64 (drop_bit 7 value)
      else [ucast value])"
  by pat_completeness auto
termination
  by (relation "measure unat") (simp_all add: shr7_less)

declare push_var_u64.simps [simp del]

definition push_var_u32 :: "u32 \<Rightarrow> u8 list" where
  "push_var_u32 v = push_var_u64 (ucast v)"

definition push_var_u16 :: "u16 \<Rightarrow> u8 list" where
  "push_var_u16 v = push_var_u64 (ucast v)"

function read_var_loop :: "u64 \<Rightarrow> nat \<Rightarrow> u64 reader" where
  "read_var_loop value shift c =
     (if offset c \<ge> length (bytes c) then Inl (UnexpectedEof ''unexpected eof while reading varint'')
      else let byte = bytes c ! offset c;
               c' = c\<lparr>offset := offset c + 1\<rparr>;
               value' = value OR push_bit shift (ucast (byte AND 0x7f))
           in if byte AND 0x80 = 0 then Inr (value', c')
              else if shift + 7 \<ge> 64 then Inl (InvalidData ''varint too large'')
              else read_var_loop value' (shift + 7) c')"
  by pat_completeness auto
termination
  by (relation "measure (\<lambda>(value, shift, c). 64 - shift)") auto

declare read_var_loop.simps [simp del]

definition read_var_u64 :: "u64 reader" where
  "read_var_u64 c = read_var_loop 0 0 c"

definition read_var_u32 :: "u32 reader" where
  "read_var_u32 = then_read read_var_u64 (\<lambda>v.
     if unat v < 2 ^ 32 then read_return (ucast v)
     else read_fail (InvalidData ''varint does not fit into u32''))"

definition read_var_u16 :: "u16 reader" where
  "read_var_u16 = then_read read_var_u64 (\<lambda>v.
     if unat v < 2 ^ 16 then read_return (ucast v)
     else read_fail (InvalidData ''varint does not fit into u16''))"

section \<open>Readers in front of what was written\<close>

definition ahead :: "cursor \<Rightarrow> u8 list \<Rightarrow> bool" where
  "ahead c bs \<longleftrightarrow> offset c \<le> length (bytes c) \<and> drop (offset c) (bytes c) = bs"

definition reads :: "'a reader \<Rightarrow> u8 list \<Rightarrow> 'a \<Rightarrow> bool" where
  "reads r bs x \<longleftrightarrow> (\<forall>c rest. ahead c (bs @ rest) \<longrightarrow> (\<exists>c'. r c = Inr (x, c') \<and> ahead c' rest))"

lemma readsI: "(\<And>c rest. ahead c (bs @ rest) \<Longrightarrow> \<exists>c'. r c = Inr (x, c') \<and> ahead c' rest) \<Longrightarrow> reads r bs x"
  by (simp add: reads_def)

lemma readsE:
  assumes "reads r bs x" and "ahead c (bs @ rest)"
  obtains c' where "r c = Inr (x, c')" and "ahead c' rest"
  using assms by (auto simp: reads_def)

lemma ahead_new [simp]: "ahead (reader_cursor_new bs) bs"
  by (simp add: ahead_def reader_cursor_new_def)

lemma ahead_remaining: "ahead c bs \<Longrightarrow> remaining c = length bs"
  by (auto simp: ahead_def remaining_def)

lemma ahead_Cons:
  assumes "ahead c (b # rest)"
  shows "offset c < length (bytes c)" and "bytes c ! offset c = b"
    and "ahead (c\<lparr>offset := Suc (offset c)\<rparr>) rest"
proof -
  from assms have d: "drop (offset c) (bytes c) = b # rest" by (simp add: ahead_def)
  then show lt: "offset c < length (bytes c)"
    by (metis drop_all leI list.distinct(1))
  from d lt show "bytes c ! offset c = b"
    by (metis hd_drop_conv_nth list.sel(1))
  from d lt show "ahead (c\<lparr>offset := Suc (offset c)\<rparr>) rest"
    by (simp add: ahead_def drop_Suc tl_drop flip: tl_drop)
qed

lemma reads_then [codec_simps]:
  assumes "reads r bs x" and "reads (f x) bs' y"
  shows "reads (then_read r f) (bs @ bs') y"
proof (rule readsI)
  fix c rest
  assume "ahead c ((bs @ bs') @ rest)"
  with assms(1) obtain c1 where c1: "r c = Inr (x, c1)" "ahead c1 (bs' @ rest)"
    by (auto elim!: readsE)
  with assms(2) obtain c2 where "f x c1 = Inr (y, c2)" "ahead c2 rest"
    by (auto elim: readsE)
  with c1 show "\<exists>c'. then_read r f c = Inr (y, c') \<and> ahead c' rest"
    by (simp add: then_read_def)
qed

lemma reads_return [codec_simps]: "reads (read_return x) [] x"
  by (rule readsI) (simp add: read_return_def)

lemma reads_map: "reads r bs x \<Longrightarrow> reads (then_read r (\<lambda>v. read_return (f v))) bs (f x)"
  using reads_then [of r bs x "\<lambda>v. read_return (f v)" "[]" "f x"] reads_return [of "f x"] by simp

lemma reads_check: "reads r bs x \<Longrightarrow> f x = read_return y \<Longrightarrow> reads (then_read r f) bs y"
  using reads_then [of r bs x f "[]" y] reads_return [of y] by simp

lemma reads_take: "length bs = n \<Longrightarrow> reads (cursor_take n) bs bs"
proof (rule readsI)
  fix c rest
  assume n: "length bs = n" and a: "ahead c (bs @ rest)"
  then have d: "drop (offset c) (bytes c) = bs @ rest" by (simp add: ahead_def)
  then have "length (bytes c) - offset c = n + length rest"
    using n by (metis length_append length_drop)
  moreover have "drop (offset c + n) (bytes c) = rest"
    using d n by (metis add.commute append_eq_conv_conj drop_drop)
  ultimately show "\<exists>c'. cursor_take n c = Inr (bs, c') \<and> ahead c' rest"
    using a d n by (auto simp: cursor_take_def ahead_def Let_def)
qed

locale byte_codec =
  fixes enc :: "'a \<Rightarrow> u8 list" and dec :: "'a reader" and valid :: "'a \<Rightarrow> bool"
  assumes decodes: "valid x \<Longrightarrow> reads dec (enc x) x"
begin

lemma decodes_many:
  "(\<And>x. x \<in> set xs \<Longrightarrow> valid x) \<Longrightarrow> n = length xs \<Longrightarrow> reads (read_n n dec) (concat (map enc xs)) xs"
proof (induction xs arbitrary: n)
  case Nil
  then show ?case by (simp add: reads_return)
next
  case (Cons x xs)
  have "reads (read_n (length xs) dec) (concat (map enc xs)) xs"
    using Cons by simp
  from reads_map [OF this, of "Cons x"] show ?case
    using Cons.prems by (auto intro!: reads_then decodes)
qed

lemma decodes_new: "valid x \<Longrightarrow> \<exists>c. dec (reader_cursor_new (enc x @ rest)) = Inr (x, c) \<and> ahead c rest"
  by (rule readsE [OF decodes ahead_new]) auto

lemma enc_inj:
  assumes "valid x" "valid y" "enc x = enc y"
  shows "x = y"
proof -
  from decodes_new [OF assms(1), of "[]"] obtain c where "dec (reader_cursor_new (enc x)) = Inr (x, c)" by auto
  moreover from decodes_new [OF assms(2), of "[]"] obtain c' where "dec (reader_cursor_new (enc y)) = Inr (y, c')" by auto
  ultimately show ?thesis using assms(3) by (metis Inr_inject Pair_inject)
qed

end

section \<open>Fixed-width integers round trip\<close>

lemma from_to_le: "from_le (to_le n w) = take_bit (8 * n) w" for w :: "'a::len word"
proof (induction n arbitrary: w)
  case (Suc n)
  have "ucast (ucast w :: u8) OR push_bit 8 (take_bit (8 * n) (drop_bit 8 w)) = take_bit (8 + 8 * n) w"
    by (rule bit_word_eqI) (auto simp: bit_simps)
  with Suc show ?case by simp
qed simp

lemma length_to_le [simp]: "length (to_le n w) = n"
  by (induction n arbitrary: w) auto

lemma from_to_le_full [simp]: "LENGTH('a) = 8 * n \<Longrightarrow> from_le (to_le n w) = w" for w :: "'a::len word"
  by (simp add: from_to_le) (metis nle_le take_bit_word_eq_self)

lemma bit_from_le: "bit (from_le bs :: 'a::len word) k \<Longrightarrow> k < 8 * length bs"
proof (induction bs arbitrary: k)
  case (Cons b bs)
  then show ?case
    by (auto simp: bit_simps dest!: Cons.IH dest: bit_imp_le_length)
qed simp

lemma to_from_le: "8 * length bs \<le> LENGTH('a) \<Longrightarrow> to_le (length bs) (from_le bs :: 'a::len word) = bs"
proof (induction bs)
  case (Cons b bs)
  have lo: "ucast (ucast b OR push_bit 8 (from_le bs) :: 'a word) = b"
    using Cons.prems by (intro bit_word_eqI) (auto simp: bit_simps)
  have hi: "drop_bit 8 (ucast b OR push_bit 8 (from_le bs) :: 'a word) = from_le bs"
    using Cons.prems by (intro bit_word_eqI) (auto simp: bit_simps dest: bit_from_le bit_imp_le_length)
  from Cons show ?case by (simp add: lo hi del: drop_bit_or)
qed simp

lemma length_write [simp]:
  "length (write_u8 a) = 1" "length (write_u16 b) = 2" "length (write_u32 d) = 4" "length (write_u64 e) = 8"
  by (simp_all add: write_u8_def write_u16_def write_u32_def write_u64_def)

lemma reads_le:
  "length bs = n \<Longrightarrow> reads (then_read (cursor_take n) (\<lambda>bs. read_return (f bs))) bs (f bs)"
  by (intro reads_map reads_take)

lemma reads_u8: "reads read_u8 (write_u8 v) v"
  using reads_le [of "write_u8 v" 1 "\<lambda>bs. bs ! 0"] by (simp add: read_u8_def write_u8_def)

lemma reads_u16: "reads read_u16 (write_u16 v) v"
  using reads_le [of "write_u16 v" 2 "from_le :: _ \<Rightarrow> u16"] by (simp add: read_u16_def write_u16_def)

lemma reads_u32: "reads read_u32 (write_u32 v) v"
  using reads_le [of "write_u32 v" 4 "from_le :: _ \<Rightarrow> u32"] by (simp add: read_u32_def write_u32_def)

lemma reads_u64: "reads read_u64 (write_u64 v) v"
  using reads_le [of "write_u64 v" 8 "from_le :: _ \<Rightarrow> u64"] by (simp add: read_u64_def write_u64_def)

interpretation u8c: byte_codec write_u8 read_u8 "\<lambda>_. True"
  by unfold_locales (rule reads_u8)

interpretation u16c: byte_codec write_u16 read_u16 "\<lambda>_. True"
  by unfold_locales (rule reads_u16)

interpretation u32c: byte_codec write_u32 read_u32 "\<lambda>_. True"
  by unfold_locales (rule reads_u32)

interpretation u64c: byte_codec write_u64 read_u64 "\<lambda>_. True"
  by unfold_locales (rule reads_u64)

lemmas reads_ints [codec_simps] = reads_u8 reads_u16 reads_u32 reads_u64

section \<open>Varints round trip\<close>

lemma bit_0x80: "bit (0x80 :: u8) n \<longleftrightarrow> n = 7" "bit (0x80 :: int) n \<longleftrightarrow> n = 7"
  using bit_exp_iff [where 'a = "8 word", of 7 n] bit_exp_iff [where 'a = int, of 7 n] by auto

lemma ucast_down_up: "unat v < 2 ^ LENGTH('b) \<Longrightarrow> ucast (ucast v :: 'b::len word) = v" for v :: "'a::len word"
  by (rule unat_word_eqI) (simp add: unsigned_ucast_eq unsigned_take_bit_eq take_bit_nat_eq_self)

lemma var_byte_more:
  "((ucast v AND 0x7f) OR 0x80 :: u8) AND 0x80 \<noteq> 0"
  "ucast (((ucast v AND 0x7f) OR 0x80 :: u8) AND 0x7f) = take_bit 7 v" for v :: u64
proof -
  have "bit (((ucast v AND 0x7f) OR 0x80 :: u8) AND 0x80) 7"
    by (simp add: bit_simps bit_0x80)
  then show "((ucast v AND 0x7f) OR 0x80 :: u8) AND 0x80 \<noteq> 0" by auto
  have m7: "(0x7f :: u8) = mask 7" by (simp add: mask_eq_exp_minus_1)
  show "ucast (((ucast v AND 0x7f) OR 0x80 :: u8) AND 0x7f) = take_bit 7 v"
    unfolding m7 by (rule bit_word_eqI) (auto simp: bit_simps bit_0x80)
qed

lemma var_byte_last:
  fixes v :: u64
  assumes "\<not> 0x80 \<le> v"
  shows "(ucast v :: u8) AND 0x80 = 0" and "ucast ((ucast v :: u8) AND 0x7f) = v"
proof -
  have "unat v < 2 ^ 7" using assms by (simp add: word_le_nat_alt)
  then have v: "take_bit 7 v = v" by (rule take_bit_self)
  have "(ucast (take_bit 7 v) :: u8) AND 0x80 = 0"
    by (rule bit_word_eqI) (auto simp: bit_simps bit_0x80)
  with v show "(ucast v :: u8) AND 0x80 = 0" by simp
  have "ucast ((ucast (take_bit 7 v) :: u8) AND mask 7) = take_bit 7 v"
    by (rule bit_word_eqI) (auto simp: bit_simps)
  with v show "ucast ((ucast v :: u8) AND 0x7f) = v" by (simp add: mask_eq_exp_minus_1)
qed

lemma push_bit_split: "push_bit s (take_bit 7 v) OR push_bit (s + 7) (drop_bit 7 v) = push_bit s v"
  for v :: u64
proof (rule bit_word_eqI)
  fix n
  show "bit (push_bit s (take_bit 7 v) OR push_bit (s + 7) (drop_bit 7 v)) n \<longleftrightarrow> bit (push_bit s v) n"
    if "n < LENGTH(64)"
    by (cases "n - s < 7") (auto simp: bit_simps)
qed

lemma shr7_fits:
  fixes v :: u64
  assumes "0x80 \<le> v" and "unat v < 2 ^ (64 - shift)"
  shows "shift + 7 < 64" and "unat (drop_bit 7 v) < 2 ^ (64 - (shift + 7))"
proof -
  have "128 \<le> unat v" using assms(1) by (simp add: word_le_nat_alt)
  then have "(2::nat) ^ 7 < 2 ^ (64 - shift)" using assms(2) by simp
  then show s: "shift + 7 < 64" by (subst (asm) power_strict_increasing_iff) auto
  have "(2::nat) ^ (64 - shift) = 2 ^ (64 - (shift + 7)) * 128"
    using s power_add [of "2::nat" "64 - (shift + 7)" 7] by simp
  with assms(2) show "unat (drop_bit 7 v) < 2 ^ (64 - (shift + 7))"
    by (simp add: drop_bit_eq_div unat_div div_less_iff_less_mult)
qed

lemma read_var_loop_push:
  "unat v < 2 ^ (64 - shift) \<Longrightarrow> shift < 64 \<Longrightarrow>
     reads (read_var_loop acc shift) (push_var_u64 v) (acc OR push_bit shift v)"
proof (induction v arbitrary: acc shift rule: push_var_u64.induct)
  case (1 v)
  show ?case
  proof (rule readsI)
    fix c rest
    assume a: "ahead c (push_var_u64 v @ rest)"
    show "\<exists>c'. read_var_loop acc shift c = Inr (acc OR push_bit shift v, c') \<and> ahead c' rest"
    proof (cases "0x80 \<le> v")
      case True
      let ?c = "c\<lparr>offset := Suc (offset c)\<rparr>"
      let ?b = "(ucast v AND 0x7f) OR 0x80 :: u8"
      have a1: "ahead c (?b # push_var_u64 (drop_bit 7 v) @ rest)"
        using a True by (subst (asm) push_var_u64.simps) simp
      note step = ahead_Cons [OF a1]
      note fits = shr7_fits [OF True "1.prems"(1)]
      from "1.IH" [OF True fits(2,1)] step(3) obtain c' where
        c': "read_var_loop (acc OR push_bit shift (take_bit 7 v)) (shift + 7) ?c =
          Inr ((acc OR push_bit shift (take_bit 7 v)) OR push_bit (shift + 7) (drop_bit 7 v), c')" "ahead c' rest"
        by (auto elim: readsE)
      have "read_var_loop acc shift c = read_var_loop (acc OR push_bit shift (take_bit 7 v)) (shift + 7) ?c"
        using step(1,2) fits(1) var_byte_more [of v] by (subst read_var_loop.simps) (simp add: Let_def)
      with c' show ?thesis
        by (simp add: or.assoc push_bit_split)
    next
      case False
      then have a1: "ahead c (ucast v # rest)"
        using a by (subst (asm) push_var_u64.simps) simp
      from ahead_Cons [OF a1] var_byte_last [OF False] show ?thesis
        by (subst read_var_loop.simps) (simp add: Let_def)
    qed
  qed
qed

lemma reads_var_u64: "reads read_var_u64 (push_var_u64 v) v"
  using read_var_loop_push [of v 0 0] unat_u64_lt [of v]
  by (simp add: reads_def read_var_u64_def)

lemma reads_var_u32: "reads read_var_u32 (push_var_u32 v) v"
  unfolding read_var_u32_def push_var_u32_def
  by (rule reads_check [OF reads_var_u64]) (use unat_u32_lt [of v] in \<open>simp add: unat_ucast_up ucast_down_up\<close>)

lemma reads_var_u16: "reads read_var_u16 (push_var_u16 v) v"
  unfolding read_var_u16_def push_var_u16_def
  by (rule reads_check [OF reads_var_u64]) (use unat_u16_lt [of v] in \<open>simp add: unat_ucast_up ucast_down_up\<close>)

interpretation var64: byte_codec push_var_u64 read_var_u64 "\<lambda>_. True"
  by unfold_locales (rule reads_var_u64)

interpretation var32: byte_codec push_var_u32 read_var_u32 "\<lambda>_. True"
  by unfold_locales (rule reads_var_u32)

interpretation var16: byte_codec push_var_u16 read_var_u16 "\<lambda>_. True"
  by unfold_locales (rule reads_var_u16)

lemma read_var_loop_bytes: "read_var_loop acc shift c = Inr (v, c') \<Longrightarrow> bytes c' = bytes c"
proof (induction acc shift c rule: read_var_loop.induct)
  case (1 acc shift c)
  from "1.prems" show ?case
    by (subst (asm) read_var_loop.simps) (force simp: Let_def split: if_splits dest: "1.IH" [OF _ refl refl refl])
qed

lemma ahead_length:
  assumes "ahead c rest" and "bytes c = bs @ rest"
  shows "c = \<lparr>bytes = bs @ rest, offset = length bs\<rparr>"
proof -
  have "offset c \<le> length bs + length rest" and "drop (offset c) (bytes c) = rest"
    using assms by (simp_all add: ahead_def)
  from arg_cong [OF this(2), of length] this(1) have "offset c = length bs"
    by (simp add: assms(2))
  with assms(2) show ?thesis by (cases c) simp
qed

lemma push_var_length: "unat v < 2 ^ (7 * Suc n) \<Longrightarrow> length (push_var_u64 v) \<le> Suc n"
proof (induction v arbitrary: n rule: push_var_u64.induct)
  case (1 v)
  show ?case
  proof (cases "0x80 \<le> v")
    case True
    then have v: "128 \<le> unat v" by (simp add: word_le_nat_alt)
    with "1.prems" obtain m where n: "n = Suc m" by (cases n) auto
    have "unat (drop_bit 7 v) < 2 ^ (7 * Suc m)"
      using "1.prems" by (simp add: n drop_bit_eq_div unat_div div_less_iff_less_mult power_add)
    from "1.IH" [OF True this] True show ?thesis
      by (subst push_var_u64.simps) (simp add: n)
  next
    case False
    then show ?thesis by (subst push_var_u64.simps) simp
  qed
qed

lemma read_var_loop_torn:
  "k < length (push_var_u64 v) \<Longrightarrow> unat v < 2 ^ (64 - shift) \<Longrightarrow> shift < 64 \<Longrightarrow> ahead c (take k (push_var_u64 v)) \<Longrightarrow>
     read_var_loop acc shift c = Inl (UnexpectedEof ''unexpected eof while reading varint'')"
proof (induction v arbitrary: k acc shift c rule: push_var_u64.induct)
  case (1 v)
  show ?case
  proof (cases k)
    case 0
    with "1.prems"(4) show ?thesis by (subst read_var_loop.simps) (simp add: ahead_def)
  next
    case (Suc j)
    with "1.prems"(1) have more: "0x80 \<le> v"
      by (subst (asm) push_var_u64.simps) (simp split: if_splits)
    let ?c = "c\<lparr>offset := Suc (offset c)\<rparr>"
    let ?b = "(ucast v AND 0x7f) OR 0x80 :: u8"
    have a1: "ahead c (?b # take j (push_var_u64 (drop_bit 7 v)))"
      using "1.prems"(4) more Suc by (subst (asm) push_var_u64.simps) simp
    note step = ahead_Cons [OF a1]
    have j: "j < length (push_var_u64 (drop_bit 7 v))"
      using "1.prems"(1) more Suc by (subst (asm) push_var_u64.simps) simp
    note fits = shr7_fits [OF more "1.prems"(2)]
    have "read_var_loop acc shift c = read_var_loop (acc OR push_bit shift (take_bit 7 v)) (shift + 7) ?c"
      using step(1,2) fits(1) var_byte_more [of v] by (subst read_var_loop.simps) (simp add: Let_def)
    with "1.IH" [OF more j fits(2,1) step(3)] show ?thesis by simp
  qed
qed

section \<open>Properties\<close>

text \<open>C34. Varints: what \<open>push_var_u64\<close> writes, at most ten bytes, \<open>read_var_u64\<close> reads back whatever
  follows, stopping right behind it; on every proper prefix it reports an unexpected end of
  input instead of a value.\<close>

theorem varint_round_trip:
  "length (push_var_u64 v) \<le> 10
   \<and> read_var_u64 (reader_cursor_new (push_var_u64 v @ rest)) =
       Inr (v, \<lparr>bytes = push_var_u64 v @ rest, offset = length (push_var_u64 v)\<rparr>)
   \<and> list_all (\<lambda>k. read_var_u64 (reader_cursor_new (take k (push_var_u64 v))) =
       Inl (UnexpectedEof ''unexpected eof while reading varint'')) [0..<length (push_var_u64 v)]"
proof -
  have "unat v < 2 ^ (7 * Suc 9)" using unat_u64_lt [of v] by simp
  then have "length (push_var_u64 v) \<le> Suc 9" by (rule push_var_length)
  moreover obtain c where c: "read_var_u64 (reader_cursor_new (push_var_u64 v @ rest)) = Inr (v, c)" "ahead c rest"
    using var64.decodes_new [OF TrueI, of v rest] by auto
  moreover have "c = \<lparr>bytes = push_var_u64 v @ rest, offset = length (push_var_u64 v)\<rparr>"
    using c read_var_loop_bytes [of 0 0 "reader_cursor_new (push_var_u64 v @ rest)" v c]
    by (simp add: read_var_u64_def reader_cursor_new_def ahead_length)
  moreover have "read_var_u64 (reader_cursor_new (take k (push_var_u64 v))) =
       Inl (UnexpectedEof ''unexpected eof while reading varint'')" if "k < length (push_var_u64 v)" for k
    using read_var_loop_torn [OF that, of 0 "reader_cursor_new (take k (push_var_u64 v))" 0] unat_u64_lt [of v]
    by (simp add: read_var_u64_def)
  ultimately show ?thesis by (simp add: list_all_iff)
qed

text \<open>A tenth byte of a varint has one bit left to contribute; the reader shifts the others out
  without an error, so byte strings that no writer emits are read as a smaller number.\<close>

theorem varint_drops_high_bits:
  "read_var_u64 (reader_cursor_new (replicate 9 0x80 @ [0x7e])) =
     Inr (0, \<lparr>bytes = replicate 9 0x80 @ [0x7e], offset = 10\<rparr>)"
  by code_simp

end
