(* ===== verification/Term_Dict.thy ===== *)
theory Term_Dict
  imports Segment Codec
begin

text \<open>
  \<^verbatim>\<open>crates/core-index/src/term_dict.rs\<close>: a field's term dictionary, an \<open>fst\<close> map from terms to
  ordinals over an array of fixed-size entries.  The crate \<open>fst\<close> is not part of the program: its
  operations are the record \<open>fst_ops\<close> the definitions take, and \<open>fst_lawful\<close> states what its
  documentation promises.  A \<open>Map\<close> is the byte string it was built as.  Fuzzy expansion, which
  walks the map with an automaton of another crate, is not modelled.
\<close>

section \<open>The \<open>fst\<close> crate\<close>

record fst_ops =
  fst_build :: "(string \<times> u64) list \<Rightarrow> u8 list result"
  fst_new :: "u8 list \<Rightarrow> u8 list result"
  fst_get :: "u8 list \<Rightarrow> string \<Rightarrow> u64 option"
  fst_stream :: "u8 list \<Rightarrow> (string \<times> u64) list"
  fst_range_ge :: "u8 list \<Rightarrow> string \<Rightarrow> (string \<times> u64) list"

text \<open>Keys inserted in strictly ascending order build a map; opening its bytes gives the map back;
  a map looks keys up, and streams them in order, from the start or from a key on.\<close>

definition fst_lawful :: "fst_ops \<Rightarrow> bool" where
  "fst_lawful F \<longleftrightarrow> (\<forall>kvs. ascending (map fst kvs) \<longrightarrow>
     (\<exists>bs. fst_build F kvs = Inr bs \<and> fst_new F bs = Inr bs
       \<and> fst_get F bs = map_of kvs \<and> fst_stream F bs = kvs
       \<and> fst_range_ge F bs = (\<lambda>p. filter (\<lambda>(k, _). p \<le> k) kvs)))"

section \<open>Term dictionaries\<close>

record term_meta =
  postings_offset :: u64
  postings_len :: u32
  meta_doc_freq :: u32
  meta_max_weight :: u16

definition TERM_META_LEN :: nat where
  "TERM_META_LEN = 8 + 4 + 4 + 2"

definition term_meta_default :: term_meta where
  "term_meta_default = \<lparr>postings_offset = 0, postings_len = 0, meta_doc_freq = 0, meta_max_weight = 0\<rparr>"

record term_dict =
  td_map :: "u8 list option"
  td_metas :: "term_meta list"

definition td_empty :: term_dict where
  "td_empty = \<lparr>td_map = None, td_metas = []\<rparr>"

text \<open>The builder's inserts and \<open>into_inner\<close> are one call here: an insert out of order fails the
  whole build, as the \<open>?\<close> after each insert does.\<close>

definition td_build :: "fst_ops \<Rightarrow> (string \<times> term_meta) list \<Rightarrow> term_dict result" where
  "td_build F ts =
     (let keyed = zip (map fst ts) (map word_of_nat [0..<length ts])
      in and_then (fst_build F keyed) (\<lambda>bs.
         if ts = [] then Inr td_empty
         else and_then (fst_new F bs) (\<lambda>m. Inr \<lparr>td_map = Some m, td_metas = map snd ts\<rparr>)))"

definition td_from_parts :: "fst_ops \<Rightarrow> u8 list \<Rightarrow> term_meta list \<Rightarrow> term_dict result" where
  "td_from_parts F bs metas =
     (if metas = [] then Inr td_empty
      else and_then (fst_new F bs) (\<lambda>m. Inr \<lparr>td_map = Some m, td_metas = metas\<rparr>))"

definition td_fst_bytes :: "term_dict \<Rightarrow> u8 list" where
  "td_fst_bytes d = (case td_map d of None \<Rightarrow> [] | Some bs \<Rightarrow> bs)"

definition td_get :: "fst_ops \<Rightarrow> term_dict \<Rightarrow> string \<Rightarrow> term_meta option" where
  "td_get F d t =
     (case td_map d of
        None \<Rightarrow> None
      | Some m \<Rightarrow> Option.bind (fst_get F m t) (\<lambda>ord. vec_get (td_metas d) (unat ord)))"

definition td_len :: "term_dict \<Rightarrow> nat" where
  "td_len d = length (td_metas d)"

definition meta_at :: "term_dict \<Rightarrow> u64 \<Rightarrow> term_meta" where
  "meta_at d ord = (case vec_get (td_metas d) (unat ord) of None \<Rightarrow> term_meta_default | Some m \<Rightarrow> m)"

definition td_entries :: "fst_ops \<Rightarrow> term_dict \<Rightarrow> (string \<times> term_meta) list" where
  "td_entries F d =
     (case td_map d of None \<Rightarrow> [] | Some m \<Rightarrow> map (\<lambda>(t, ord). (t, meta_at d ord)) (fst_stream F m))"

definition td_prefix :: "fst_ops \<Rightarrow> term_dict \<Rightarrow> string \<Rightarrow> (string \<times> term_meta) list" where
  "td_prefix F d p =
     (case td_map d of
        None \<Rightarrow> []
      | Some m \<Rightarrow> map (\<lambda>(t, ord). (t, meta_at d ord)) (takeWhile (\<lambda>(t, _). prefix p t) (fst_range_ge F m p)))"

type_synonym term_dictionary = "(u32, term_dict) omap"

definition tds_insert_field :: "u32 \<Rightarrow> term_dict \<Rightarrow> term_dictionary \<Rightarrow> term_dictionary" where
  "tds_insert_field x d ds = omap_insert x d ds"

definition tds_field :: "term_dictionary \<Rightarrow> u32 \<Rightarrow> term_dict option" where
  "tds_field ds x = omap_get ds x"

definition tds_get :: "fst_ops \<Rightarrow> term_dictionary \<Rightarrow> u32 \<Rightarrow> string \<Rightarrow> term_meta option" where
  "tds_get F ds x t = Option.bind (tds_field ds x) (\<lambda>d. td_get F d t)"

definition tds_term_count :: "term_dictionary \<Rightarrow> nat" where
  "tds_term_count ds = sum_list (map (\<lambda>(_, d). td_len d) ds)"

section \<open>Lawful dictionaries\<close>

text \<open>A dictionary that answers from the list of its entries, as the built ones do.\<close>

definition td_ok :: "fst_ops \<Rightarrow> term_dict \<Rightarrow> bool" where
  "td_ok F d \<longleftrightarrow> ascending (map fst (td_entries F d))
     \<and> (\<forall>t. td_get F d t = map_of (td_entries F d) t)
     \<and> (\<forall>p. td_prefix F d p = filter (\<lambda>(t, _). prefix p t) (td_entries F d))"

lemma vec_get_Some [simp]: "i < length xs \<Longrightarrow> vec_get xs i = Some (xs ! i)"
  by (simp add: vec_get_def)

lemma unat_of_nat_u64: "n < 2 ^ 64 \<Longrightarrow> unat (word_of_nat n :: u64) = n"
  by (simp add: unat_of_nat)

lemma fst_lawfulE:
  assumes "fst_lawful F" and "ascending (map fst kvs)"
  obtains bs where "fst_build F kvs = Inr bs" "fst_new F bs = Inr bs" "fst_get F bs = map_of kvs"
    "fst_stream F bs = kvs" "fst_range_ge F bs = (\<lambda>p. filter (\<lambda>(k, _). p \<le> k) kvs)"
  using assms unfolding fst_lawful_def by blast

text \<open>Opening the bytes of a built map next to the same entries gives a dictionary with exactly those
  entries.\<close>

lemma td_from_parts_entries:
  fixes ts :: "(string \<times> term_meta) list"
  defines "keyed \<equiv> zip (map fst ts) (map word_of_nat [0..<length ts] :: u64 list)"
  assumes law: "fst_lawful F" and asc: "ascending (map fst ts)" and len: "length ts < 2 ^ 64"
  shows "\<exists>d bs. td_build F ts = Inr d \<and> td_fst_bytes d = bs \<and> td_metas d = map snd ts
    \<and> td_from_parts F bs (map snd ts) = Inr d \<and> td_entries F d = ts \<and> td_ok F d"
proof (cases "ts = []")
  case True
  then have "ascending (map fst keyed)" by (simp add: keyed_def)
  with law obtain bs where "fst_build F keyed = Inr bs" by (rule fst_lawfulE)
  with True show ?thesis
    by (auto simp: td_build_def keyed_def td_empty_def td_fst_bytes_def td_from_parts_def td_entries_def
        td_ok_def td_get_def td_prefix_def)
next
  case False
  have keys: "map fst keyed = map fst ts" by (simp add: keyed_def)
  have "ascending (map fst keyed)" using asc by (simp only: keys)
  with law obtain bs where bs: "fst_build F keyed = Inr bs" "fst_new F bs = Inr bs"
      "fst_get F bs = map_of keyed" "fst_stream F bs = keyed"
      "fst_range_ge F bs = (\<lambda>p. filter (\<lambda>(k, _). p \<le> k) keyed)"
    by (rule fst_lawfulE)
  let ?d = "\<lparr>td_map = Some bs, td_metas = map snd ts\<rparr>"
  have at: "keyed ! i = (fst (ts ! i), word_of_nat i)" if "i < length ts" for i
    using that by (simp add: keyed_def)
  have klen: "length keyed = length ts" by (simp add: keyed_def)
  have meta: "meta_at ?d (word_of_nat i) = snd (ts ! i)" if "i < length ts" for i
    using that len by (simp add: meta_at_def unat_of_nat_u64)
  have map: "map (\<lambda>(t, ord). (t, meta_at ?d ord)) keyed = ts"
    by (rule nth_equalityI) (simp_all add: klen at meta)
  then have entries: "td_entries F ?d = ts" by (simp add: td_entries_def bs)
  have dist: "distinct (map fst keyed)" "distinct (map fst ts)"
    using asc keys ascending_distinct by metis+
  have get: "td_get F ?d t = map_of ts t" for t
  proof (cases "t \<in> fst ` set ts")
    case True
    then obtain i where i: "i < length ts" "fst (ts ! i) = t" by (auto simp: in_set_conv_nth)
    have "map_of keyed t = Some (word_of_nat i)"
      using i at klen dist by (metis map_of_eq_Some_iff nth_mem)
    moreover have "map_of ts t = Some (snd (ts ! i))"
      using i dist by (metis map_of_eq_Some_iff nth_mem prod.collapse)
    ultimately show ?thesis using i len by (simp add: td_get_def bs unat_of_nat_u64)
  next
    case False
    then have "t \<notin> set (map fst ts)" by simp
    then have "t \<notin> set (map fst keyed)" unfolding keys .
    with False have "map_of keyed t = None" "map_of ts t = None"
      by (simp_all add: map_of_eq_None_iff)
    then show ?thesis by (simp add: td_get_def bs)
  qed
  have pre: "td_prefix F ?d p = filter (\<lambda>(t, _). prefix p t) ts" for p
  proof -
    have ok: "omap_ok keyed" using asc keys by (simp add: omap_ok_def)
    have "takeWhile (\<lambda>(t, _). prefix p t) (filter (\<lambda>(k, _). p \<le> k) keyed) = filter (\<lambda>(t, _). prefix p t) keyed"
      using takeWhile_from [OF ok, of "prefix p" p, OF prefix_imp_le prefix_convex]
      by (simp add: omap_from_filter ok)
    moreover have "map (\<lambda>(t, ord). (t, meta_at ?d ord)) (filter (\<lambda>(t, _). prefix p t) keyed)
        = filter (\<lambda>(t, _). prefix p t) (map (\<lambda>(t, ord). (t, meta_at ?d ord)) keyed)"
      by (simp add: filter_map comp_def case_prod_unfold)
    ultimately show ?thesis by (simp add: td_prefix_def bs map)
  qed
  have "td_build F ts = Inr ?d"
    using False bs by (simp add: td_build_def keyed_def [symmetric] Let_def)
  moreover have "td_ok F ?d"
    using asc get pre by (simp add: td_ok_def entries)
  ultimately show ?thesis
    using False bs entries by (auto simp: td_fst_bytes_def td_from_parts_def)
qed

section \<open>The laws can be met\<close>

text \<open>A plain encoding of the entries one after the other, in place of a transducer.\<close>

definition plain_entry :: "string \<times> u64 \<Rightarrow> u8 list" where
  "plain_entry = (\<lambda>(t, v). concat (map (\<lambda>c. [1, word_of_nat (of_char c)]) t) @ 0 # to_le 8 v)"

fun plain_string :: "u8 list \<Rightarrow> string \<times> u8 list" where
  "plain_string (b # bs) =
     (if b = 0 then ([], bs)
      else case bs of [] \<Rightarrow> ([], []) | c # bs' \<Rightarrow> let (t, r) = plain_string bs' in (char_of (unat c) # t, r))"
| "plain_string [] = ([], [])"

lemma plain_string_length: "length (snd (plain_string bs)) \<le> length bs"
  by (induction bs rule: plain_string.induct) (auto split: list.split prod.splits)

function plain_stream :: "u8 list \<Rightarrow> (string \<times> u64) list" where
  "plain_stream bs =
     (if bs = [] then []
      else let (t, r) = plain_string bs in (t, from_le (take 8 r)) # plain_stream (drop 8 r))"
  by pat_completeness auto
termination
proof (relation "measure length", goal_cases)
  case (2 bs x t r)
  show ?case
  proof (cases bs)
    case (Cons b bs')
    have "length r \<le> length bs'"
    proof (cases "b = 0")
      case False
      with 2 Cons show ?thesis
        using plain_string_length [of "tl bs'"] by (auto split: list.splits prod.splits)
    qed (use 2 Cons in auto)
    with Cons show ?thesis by simp
  qed (use 2 in auto)
qed simp

declare plain_stream.simps [simp del]

definition plain_fst :: fst_ops where
  "plain_fst =
     \<lparr>fst_build = (\<lambda>kvs. if ascending (map fst kvs) then Inr (concat (map plain_entry kvs))
                       else Inl (InvalidData ''keys out of order'')),
      fst_new = Inr, fst_get = (\<lambda>bs. map_of (plain_stream bs)), fst_stream = plain_stream,
      fst_range_ge = (\<lambda>bs p. filter (\<lambda>(k, _). p \<le> k) (plain_stream bs))\<rparr>"

lemma char_of_of_char_u8: "char_of (unat (word_of_nat (of_char c) :: u8)) = c"
  by (simp add: unat_of_nat)

lemma plain_string_entry:
  "plain_string (concat (map (\<lambda>c. [1, word_of_nat (of_char c)]) t) @ 0 # rest) = (t, rest)"
  by (induction t) (simp_all add: char_of_of_char_u8)

lemma plain_stream_entries: "plain_stream (concat (map plain_entry kvs)) = kvs"
proof (induction kvs)
  case (Cons e kvs)
  obtain t v where e: "e = (t, v)" by (cases e)
  have ne: "concat (map plain_entry (e # kvs)) \<noteq> []" by (simp add: e plain_entry_def)
  show ?case
    using ne Cons by (subst plain_stream.simps) (simp add: e plain_entry_def plain_string_entry)
qed (simp add: plain_stream.simps)

lemma plain_fst_lawful: "fst_lawful plain_fst"
  by (simp add: fst_lawful_def plain_fst_def plain_stream_entries)

end
