(* ===== verification/Disk_Format.thy ===== *)
theory Disk_Format
  imports Term_Dict
begin

text \<open>
  \<^verbatim>\<open>crates/core-index/src/disk/format.rs\<close>, \<^verbatim>\<open>writer.rs\<close> and the section readers of \<^verbatim>\<open>reader.rs\<close>: the
  bytes of a segment file, section by section, and their readers.  Serialization of roaring
  bitmaps is the crate's: the record \<open>roaring_ops\<close>, with the round trip as \<open>roaring_lawful\<close>.
  Counts and lengths are cast to \<open>u32\<close> or \<open>u64\<close> as in the code; the theorems bound them.
  Errors of the underlying file are not modelled: writing appends to a byte string, and the
  position writer's \<open>pos\<close> is its length.
\<close>

section \<open>Roaring bitmaps\<close>

record roaring_ops =
  rb_serialize :: "u64 set \<Rightarrow> u8 list"
  rb_deserialize :: "u8 list \<Rightarrow> u64 set result"

definition roaring_lawful :: "roaring_ops \<Rightarrow> bool" where
  "roaring_lawful R \<longleftrightarrow> (\<forall>S. rb_deserialize R (rb_serialize R S) = Inr S)"

section \<open>Header and footer\<close>

definition MAGIC :: "u8 list" where
  "MAGIC = map (\<lambda>c. word_of_nat (of_char c)) ''BANANA_4''"

definition VERSION :: u32 where
  "VERSION = 12"

definition HEADER_LEN :: nat where
  "HEADER_LEN = 8 + 4"

definition FOOTER_LEN :: nat where
  "FOOTER_LEN = 8 + 8 + 8 + 8 + 8 + 8 + 4 + 8 + 8 + 8 + 8 + 8 + 8"

record segment_header =
  header_magic :: "u8 list"
  header_version :: u32

definition header_current :: segment_header where
  "header_current = \<lparr>header_magic = MAGIC, header_version = VERSION\<rparr>"

record segment_footer =
  ft_doc_lengths_offset :: u64
  ft_doc_lengths_len :: u64
  ft_dictionary_offset :: u64
  ft_dictionary_len :: u64
  ft_numeric_fields_offset :: u64
  ft_numeric_fields_len :: u64
  ft_array_row_index_offset :: u64
  ft_array_row_index_len :: u64
  ft_term_count :: u32
  ft_min_doc_id :: u64
  ft_max_doc_id :: u64
  ft_bool_fields_offset :: u64
  ft_bool_fields_len :: u64

definition write_header :: "u8 list" where
  "write_header = header_magic header_current @ write_u32 (header_version header_current)"

definition write_footer :: "segment_footer \<Rightarrow> u8 list" where
  "write_footer f =
     write_u64 (ft_doc_lengths_offset f) @ write_u64 (ft_doc_lengths_len f) @
     write_u64 (ft_dictionary_offset f) @ write_u64 (ft_dictionary_len f) @
     write_u64 (ft_numeric_fields_offset f) @ write_u64 (ft_numeric_fields_len f) @
     write_u32 (ft_term_count f) @ write_u64 (ft_min_doc_id f) @ write_u64 (ft_max_doc_id f) @
     write_u64 (ft_array_row_index_offset f) @ write_u64 (ft_array_row_index_len f) @
     write_u64 (ft_bool_fields_offset f) @ write_u64 (ft_bool_fields_len f)"

definition read_u32_at :: "u8 list \<Rightarrow> nat \<Rightarrow> u32" where
  "read_u32_at bs off = from_le (take 4 (drop off bs))"

definition read_u64_at :: "u8 list \<Rightarrow> nat \<Rightarrow> u64" where
  "read_u64_at bs off = from_le (take 8 (drop off bs))"

definition read_footer :: "u8 list \<Rightarrow> segment_footer" where
  "read_footer bs =
     (let start = length bs - FOOTER_LEN
      in \<lparr>ft_doc_lengths_offset = read_u64_at bs start,
          ft_doc_lengths_len = read_u64_at bs (start + 8),
          ft_dictionary_offset = read_u64_at bs (start + 16),
          ft_dictionary_len = read_u64_at bs (start + 24),
          ft_numeric_fields_offset = read_u64_at bs (start + 32),
          ft_numeric_fields_len = read_u64_at bs (start + 40),
          ft_array_row_index_offset = read_u64_at bs (start + 68),
          ft_array_row_index_len = read_u64_at bs (start + 76),
          ft_term_count = read_u32_at bs (start + 48),
          ft_min_doc_id = read_u64_at bs (start + 52),
          ft_max_doc_id = read_u64_at bs (start + 60),
          ft_bool_fields_offset = read_u64_at bs (start + 84),
          ft_bool_fields_len = read_u64_at bs (start + 92)\<rparr>)"

definition validate_header :: "u8 list \<Rightarrow> unit result" where
  "validate_header bs =
     (if length bs < 12 + FOOTER_LEN then Inl (InvalidData ''segment too small'')
      else if take 8 bs \<noteq> MAGIC then Inl (InvalidData ''bad segment magic'')
      else if read_u32_at bs 8 \<noteq> VERSION then Inl (InvalidData ''unsupported segment version'')
      else Inr ())"

text \<open>\<open>start.checked_add(len)\<close> on \<open>usize\<close>.\<close>

definition checked_end :: "io_error \<Rightarrow> u64 \<Rightarrow> u64 \<Rightarrow> nat result" where
  "checked_end e start len = (if unat start + unat len < 2 ^ 64 then Inr (unat start + unat len) else Inl e)"

definition guard :: "bool \<Rightarrow> io_error \<Rightarrow> unit result" where
  "guard bad e = (if bad then Inl e else Inr ())"

definition validate_footer :: "u8 list \<Rightarrow> segment_footer \<Rightarrow> unit result" where
  "validate_footer bs f =
     and_then (checked_end (InvalidData ''dictionary offset overflow'') (ft_dictionary_offset f) (ft_dictionary_len f)) (\<lambda>dictionary_end.
     and_then (guard (unat (ft_dictionary_offset f) < HEADER_LEN) (InvalidData ''dictionary starts before segment body'')) (\<lambda>_.
     and_then (guard (dictionary_end > length bs - FOOTER_LEN) (InvalidData ''dictionary outside segment bounds'')) (\<lambda>_.
     and_then (checked_end (InvalidData ''numeric fields offset overflow'') (ft_numeric_fields_offset f) (ft_numeric_fields_len f)) (\<lambda>numeric_end.
     and_then (guard (unat (ft_numeric_fields_offset f) < HEADER_LEN) (InvalidData ''numeric fields start before segment body'')) (\<lambda>_.
     and_then (guard (numeric_end > length bs - FOOTER_LEN) (InvalidData ''numeric fields outside segment bounds'')) (\<lambda>_.
     and_then (checked_end (InvalidData ''bool fields offset overflow'') (ft_bool_fields_offset f) (ft_bool_fields_len f)) (\<lambda>bool_end.
     and_then (guard (bool_end > length bs - FOOTER_LEN) (InvalidData ''bool fields outside segment bounds'')) (\<lambda>_.
     and_then (checked_end (InvalidData ''array row index offset overflow'') (ft_array_row_index_offset f) (ft_array_row_index_len f)) (\<lambda>array_end.
     and_then (guard (array_end > length bs - FOOTER_LEN) (InvalidData ''array row index outside segment bounds'')) (\<lambda>_.
       guard (ft_term_count f = 0 \<and> ft_dictionary_len f \<noteq> 4) (InvalidData ''empty dictionary has invalid length'')))))))))))"

section \<open>Posting lists\<close>

fun encode_positions :: "u32 \<Rightarrow> u32 list \<Rightarrow> u8 list" where
  "encode_positions last_position [] = []"
| "encode_positions last_position (position # ps) =
     push_var_u32 (position - last_position) @ encode_positions position ps"

fun encode_items :: "u64 \<Rightarrow> posting list \<Rightarrow> u8 list" where
  "encode_items last_doc_id [] = []"
| "encode_items last_doc_id (p # ps) =
     push_var_u64 (doc_id p - last_doc_id) @ push_var_u16 (weight p) @
     push_var_u32 (word_of_nat (length (positions p))) @ encode_positions 0 (positions p) @
     encode_items (doc_id p) ps"

definition encode_posting_list :: "posting_list \<Rightarrow> u8 list" where
  "encode_posting_list l = encode_items 0 (items l)"

primrec read_positions :: "nat \<Rightarrow> u32 \<Rightarrow> u32 list reader" where
  "read_positions 0 last_position = read_return []"
| "read_positions (Suc n) last_position =
     then_read read_var_u32 (\<lambda>delta.
       let position = last_position + delta
       in then_read (read_positions n position) (\<lambda>ps. read_return (position # ps)))"

definition read_posting :: "u64 \<Rightarrow> posting reader" where
  "read_posting last_doc_id =
     then_read read_var_u64 (\<lambda>doc_delta.
     then_read read_var_u16 (\<lambda>w.
     then_read read_var_u32 (\<lambda>count.
     then_read (read_positions (unat count) 0) (\<lambda>ps.
       read_return (with_weight (last_doc_id + doc_delta) ps w)))))"

text \<open>What was pushed before an error stays in the output vector.\<close>

primrec read_postings_loop :: "nat \<Rightarrow> u64 \<Rightarrow> cursor \<Rightarrow> posting list \<Rightarrow> posting list \<times> unit result" where
  "read_postings_loop 0 last_doc_id c out = (out, Inr ())"
| "read_postings_loop (Suc n) last_doc_id c out =
     (case read_posting last_doc_id c of
        Inl e \<Rightarrow> (out, Inl e)
      | Inr (p, c') \<Rightarrow> read_postings_loop n (doc_id p) c' (out @ [p]))"

definition read_posting_list_into :: "u8 list \<Rightarrow> u32 \<Rightarrow> posting list \<Rightarrow> posting list \<times> unit result" where
  "read_posting_list_into bs freq out = read_postings_loop (unat freq) 0 (reader_cursor_new bs) out"

definition read_posting_list :: "u8 list \<Rightarrow> u32 \<Rightarrow> u16 \<Rightarrow> posting_list result" where
  "read_posting_list bs freq max_w =
     (case read_posting_list_into bs freq [] of
        (_, Inl e) \<Rightarrow> Inl e
      | (out, Inr _) \<Rightarrow> Inr (from_sorted_with_max_weight out max_w))"

section \<open>Section writers\<close>

definition write_doc_length :: "(u64 \<times> u32) \<times> u32 \<Rightarrow> u8 list" where
  "write_doc_length = (\<lambda>((d, x), len). write_u64 d @ write_u32 x @ write_u32 len)"

definition write_doc_lengths :: "doc_lengths_map \<Rightarrow> u8 list" where
  "write_doc_lengths dl = write_u32 (word_of_nat (length dl)) @ concat (map write_doc_length dl)"

definition write_meta :: "term_meta \<Rightarrow> u8 list" where
  "write_meta m = write_u64 (postings_offset m) @ write_u32 (postings_len m) @
     write_u32 (meta_doc_freq m) @ write_u16 (meta_max_weight m)"

definition write_dict_field :: "u32 \<times> term_dict \<Rightarrow> u8 list" where
  "write_dict_field = (\<lambda>(x, d).
     write_u32 x @ write_u32 (word_of_nat (td_len d)) @
     write_u64 (word_of_nat (length (td_fst_bytes d))) @ td_fst_bytes d @
     concat (map write_meta (td_metas d)))"

definition write_dictionary :: "(u32 \<times> term_dict) list \<Rightarrow> u8 list" where
  "write_dictionary ds = write_u32 (word_of_nat (length ds)) @ concat (map write_dict_field ds)"

definition write_pair :: "u64 \<times> u64 \<Rightarrow> u8 list" where
  "write_pair = (\<lambda>(a, b). write_u64 a @ write_u64 b)"

definition write_numeric_field :: "u32 \<times> numeric_field \<Rightarrow> u8 list" where
  "write_numeric_field = (\<lambda>(x, f).
     write_u32 x @ write_u8 (kind_to_byte (bkd_kind (field_bkd f))) @
     write_u32 (word_of_nat (length (bkd_points (field_bkd f)))) @
     concat (map write_pair (bkd_points (field_bkd f))) @
     write_u32 (word_of_nat (length (dv_entries (field_doc_values f)))) @
     concat (map write_pair (dv_entries (field_doc_values f))))"

definition write_numeric_fields :: "numeric_fields \<Rightarrow> u8 list" where
  "write_numeric_fields fs = write_u32 (word_of_nat (length fs)) @ concat (map write_numeric_field fs)"

definition write_blob :: "u8 list \<Rightarrow> u8 list" where
  "write_blob bs = write_u64 (word_of_nat (length bs)) @ bs"

definition write_bool_field :: "roaring_ops \<Rightarrow> u32 \<times> bool_field \<Rightarrow> u8 list" where
  "write_bool_field R = (\<lambda>(x, f).
     write_u32 x @ write_blob (rb_serialize R (true_ids f)) @ write_blob (rb_serialize R (false_ids f)))"

definition write_bool_fields :: "roaring_ops \<Rightarrow> bool_fields_map \<Rightarrow> u8 list" where
  "write_bool_fields R fs = write_u32 (word_of_nat (length fs)) @ concat (map (write_bool_field R) fs)"

definition write_array_row_index :: "array_row_index \<Rightarrow> u8 list" where
  "write_array_row_index t =
     write_u64 (base t) @ write_u32 (word_of_nat (length (row_to_doc t))) @
     concat (map write_pair (zip (row_to_doc t) (parent_row t)))"

section \<open>Section readers\<close>

definition read_doc_length :: "((u64 \<times> u32) \<times> u32) reader" where
  "read_doc_length = then_read read_u64 (\<lambda>d. then_read read_u32 (\<lambda>x. then_read read_u32 (\<lambda>len.
     read_return ((d, x), len))))"

definition read_meta :: "term_meta reader" where
  "read_meta = then_read read_u64 (\<lambda>off. then_read read_u32 (\<lambda>len. then_read read_u32 (\<lambda>freq. then_read read_u16 (\<lambda>w.
     read_return \<lparr>postings_offset = off, postings_len = len, meta_doc_freq = freq, meta_max_weight = w\<rparr>))))"

definition read_result :: "'a result \<Rightarrow> 'a reader" where
  "read_result r = (case r of Inl e \<Rightarrow> read_fail e | Inr x \<Rightarrow> read_return x)"

definition read_dict_field :: "fst_ops \<Rightarrow> (u32 \<times> term_dict \<times> nat) reader" where
  "read_dict_field F =
     then_read read_u32 (\<lambda>x. then_read read_u32 (\<lambda>field_terms. then_read read_u64 (\<lambda>fst_len.
     then_read (cursor_take (unat fst_len)) (\<lambda>fst_bytes c.
       if unat field_terms * TERM_META_LEN > remaining c
       then Inl (InvalidData ''dictionary term count exceeds section size'')
       else then_read (read_n (unat field_terms) read_meta) (\<lambda>metas.
            then_read (read_result (td_from_parts F fst_bytes metas)) (\<lambda>d.
              read_return (x, d, unat field_terms))) c))))"

definition read_pair :: "(u64 \<times> u64) reader" where
  "read_pair = then_read read_u64 (\<lambda>a. then_read read_u64 (\<lambda>b. read_return (a, b)))"

definition str_result :: "string + 'a \<Rightarrow> 'a result" where
  "str_result r = (case r of Inl m \<Rightarrow> Inl (InvalidData m) | Inr v \<Rightarrow> Inr v)"

definition read_numeric_field :: "(u32 \<times> numeric_field) reader" where
  "read_numeric_field =
     then_read read_u32 (\<lambda>x.
     then_read read_u8 (\<lambda>b.
     then_read (read_result (ok_or (InvalidData ''unknown numeric field kind'') (kind_from_byte b))) (\<lambda>kind.
     then_read read_u32 (\<lambda>point_count.
     then_read (read_n (unat point_count) read_pair) (\<lambda>points.
     then_read read_u32 (\<lambda>entry_count.
     then_read (read_n (unat entry_count) read_pair) (\<lambda>entries.
     then_read (read_result (str_result (bkd_from_packed kind points))) (\<lambda>bkd.
     then_read (read_result (str_result (dv_from_packed kind entries))) (\<lambda>dv.
       read_return (x, \<lparr>field_bkd = bkd, field_doc_values = dv\<rparr>))))))))))"

definition read_blob :: "u8 list reader" where
  "read_blob = then_read read_u64 (\<lambda>len. cursor_take (unat len))"

definition read_bool_field :: "roaring_ops \<Rightarrow> (u32 \<times> bool_field) reader" where
  "read_bool_field R =
     then_read read_u32 (\<lambda>x.
     then_read read_blob (\<lambda>ts. then_read (read_result (rb_deserialize R ts)) (\<lambda>trues.
     then_read read_blob (\<lambda>fs. then_read (read_result (rb_deserialize R fs)) (\<lambda>falses.
       read_return (x, \<lparr>true_ids = trues, false_ids = falses\<rparr>))))))"

text \<open>A section of the file: its bytes, once its end is known to lie inside.\<close>

definition section_bytes :: "u8 list \<Rightarrow> u64 \<Rightarrow> u64 \<Rightarrow> nat \<Rightarrow> io_error \<Rightarrow> io_error \<Rightarrow> u8 list result" where
  "section_bytes bs start len limit overflow outside =
     and_then (checked_end overflow start len) (\<lambda>stop.
     if stop > limit then Inl outside else Inr (take (unat len) (drop (unat start) bs)))"

definition run_section :: "'a reader \<Rightarrow> u8 list \<Rightarrow> 'a result" where
  "run_section r bs = and_then (r (reader_cursor_new bs)) (\<lambda>(x, _). Inr x)"

definition doc_length_entries :: "((u64 \<times> u32) \<times> u32) list reader" where
  "doc_length_entries = then_read read_u32 (\<lambda>count. read_n (unat count) read_doc_length)"

definition array_row_section :: "array_row_index reader" where
  "array_row_section =
     then_read read_u64 (\<lambda>b. then_read read_u32 (\<lambda>count. then_read (read_n (unat count) read_pair) (\<lambda>rows.
       read_return (fold (\<lambda>(i, (doc, parent)) t.
           push_row t (b + word_of_nat i) doc (if parent \<noteq> NO_PARENT_ROW then Some parent else None))
         (zip [0..<length rows] rows) (rows_new b)))))"

definition read_array_row_index :: "u8 list \<Rightarrow> segment_footer \<Rightarrow> array_row_index result" where
  "read_array_row_index bs f =
     and_then (section_bytes bs (ft_array_row_index_offset f) (ft_array_row_index_len f) (length bs)
       (InvalidData ''array row index offset overflow'') (InvalidData ''array row index outside segment bounds''))
       (run_section array_row_section)"

definition dictionary_section :: "fst_ops \<Rightarrow> nat \<Rightarrow> u32 \<Rightarrow> term_dictionary reader" where
  "dictionary_section F len term_count =
     then_read read_u32 (\<lambda>field_count.
       if unat field_count * 16 > len
       then read_fail (InvalidData ''dictionary field count exceeds section size'')
       else then_read (read_n (unat field_count) (read_dict_field F)) (\<lambda>fs.
         if sum_list (map (\<lambda>(_, _, n). n) fs) \<noteq> unat term_count
         then read_fail (InvalidData ''dictionary term count mismatch'')
         else read_return (fold (\<lambda>(x, d, _). tds_insert_field x d) fs [])))"

definition read_term_dictionary :: "fst_ops \<Rightarrow> u8 list \<Rightarrow> segment_footer \<Rightarrow> term_dictionary result" where
  "read_term_dictionary F bs f =
     and_then (section_bytes bs (ft_dictionary_offset f) (ft_dictionary_len f) (length bs - FOOTER_LEN)
       (InvalidData ''dictionary offset overflow'') (InvalidData ''dictionary outside segment bounds''))
       (run_section (dictionary_section F (unat (ft_dictionary_len f)) (ft_term_count f)))"

definition numeric_section :: "numeric_fields reader" where
  "numeric_section =
     then_read read_u32 (\<lambda>count. then_read (read_n (unat count) read_numeric_field) (\<lambda>fs.
       read_return (fold (\<lambda>(x, f). nf_insert_field x f) fs [])))"

definition read_numeric_fields :: "u8 list \<Rightarrow> segment_footer \<Rightarrow> numeric_fields result" where
  "read_numeric_fields bs f =
     and_then (section_bytes bs (ft_numeric_fields_offset f) (ft_numeric_fields_len f) (length bs - FOOTER_LEN)
       (InvalidData ''numeric fields offset overflow'') (InvalidData ''numeric fields outside segment bounds''))
       (run_section numeric_section)"

definition bool_section :: "roaring_ops \<Rightarrow> bool_fields_map reader" where
  "bool_section R =
     then_read read_u32 (\<lambda>count. then_read (read_n (unat count) (read_bool_field R)) (\<lambda>fs.
       read_return (fold (\<lambda>(x, f). omap_insert x f) fs [])))"

definition read_bool_points :: "roaring_ops \<Rightarrow> u8 list \<Rightarrow> segment_footer \<Rightarrow> bool_fields_map result" where
  "read_bool_points R bs f =
     and_then (section_bytes bs (ft_bool_fields_offset f) (ft_bool_fields_len f) (length bs - FOOTER_LEN)
       (InvalidData ''bool fields offset overflow'') (InvalidData ''bool fields outside segment bounds''))
       (run_section (bool_section R))"

section \<open>Posting lists round trip\<close>

lemma unat_of_nat_u32: "n < 2 ^ 32 \<Longrightarrow> unat (word_of_nat n :: u32) = n"
  by (simp add: unat_of_nat)

lemma reads_positions: "reads (read_positions (length ps) prev) (encode_positions prev ps) ps"
proof (induction ps arbitrary: prev)
  case (Cons p ps)
  have "reads (then_read (read_positions (length ps) p) (\<lambda>ps. read_return (p # ps))) (encode_positions p ps) (p # ps)"
    by (rule reads_check [OF Cons refl])
  then show ?case
    by (auto simp: Let_def intro!: reads_then [OF reads_var_u32])
qed (simp add: reads_return)

definition postings_fit :: "posting list \<Rightarrow> bool" where
  "postings_fit ps \<longleftrightarrow> length ps < 2 ^ 32 \<and> (\<forall>p \<in> set ps. length (positions p) < 2 ^ 32)"

lemma reads_posting:
  assumes "length (positions p) < 2 ^ 32"
  shows "reads (read_posting prev)
    (push_var_u64 (doc_id p - prev) @ push_var_u16 (weight p) @ push_var_u32 (word_of_nat (length (positions p)))
      @ encode_positions 0 (positions p)) p"
  unfolding read_posting_def
proof (rule reads_then [OF reads_var_u64], rule reads_then [OF reads_var_u16], rule reads_then [OF reads_var_u32])
  have "reads (read_positions (unat (word_of_nat (length (positions p)) :: u32)) 0) (encode_positions 0 (positions p)) (positions p)"
    using assms reads_positions by (simp add: unat_of_nat_u32)
  then show "reads (then_read (read_positions (unat (word_of_nat (length (positions p)) :: u32)) 0)
       (\<lambda>ps. read_return (with_weight (prev + (doc_id p - prev)) ps (weight p)))) (encode_positions 0 (positions p)) p"
    by (rule reads_check) (cases p; simp add: with_weight_def)
qed

lemma read_postings_loop_encode:
  "(\<forall>p \<in> set ps. length (positions p) < 2 ^ 32) \<Longrightarrow> ahead c (encode_items prev ps @ rest) \<Longrightarrow>
     read_postings_loop (length ps) prev c out = (out @ ps, Inr ())"
proof (induction ps arbitrary: prev c out)
  case (Cons p ps)
  have "reads (read_posting prev)
    (push_var_u64 (doc_id p - prev) @ push_var_u16 (weight p) @ push_var_u32 (word_of_nat (length (positions p)))
      @ encode_positions 0 (positions p)) p"
    using Cons.prems(1) by (intro reads_posting) simp
  moreover have "ahead c ((push_var_u64 (doc_id p - prev) @ push_var_u16 (weight p) @
      push_var_u32 (word_of_nat (length (positions p))) @ encode_positions 0 (positions p)) @ encode_items (doc_id p) ps @ rest)"
    using Cons.prems(2) by simp
  ultimately obtain c' where "read_posting prev c = Inr (p, c')" "ahead c' (encode_items (doc_id p) ps @ rest)"
    by (rule readsE)
  with Cons show ?case by simp
qed simp

lemma read_posting_list_into_encode:
  assumes "postings_fit (items l)"
  shows "read_posting_list_into (encode_posting_list l) (word_of_nat (pl_len l)) out = (out @ items l, Inr ())"
  using assms read_postings_loop_encode [of "items l" "reader_cursor_new (encode_posting_list l)" 0 "[]" out]
    ahead_new [of "encode_posting_list l"]
  by (simp add: read_posting_list_into_def postings_fit_def pl_len_def unat_of_nat_u32 encode_posting_list_def)

lemma read_posting_list_encode:
  "postings_fit (items l) \<Longrightarrow> read_posting_list (encode_posting_list l) (word_of_nat (pl_len l)) (max_weight l) = Inr l"
  by (simp add: read_posting_list_def read_posting_list_into_encode from_sorted_with_max_weight_def)

section \<open>Sections round trip\<close>

lemma reads_doc_length: "reads read_doc_length (write_doc_length e) e"
  unfolding read_doc_length_def write_doc_length_def
  by (cases e) (auto intro!: reads_then [OF reads_u64] reads_then [OF reads_u32] reads_check [OF reads_u32])

interpretation doc_length_codec: byte_codec write_doc_length read_doc_length "\<lambda>_. True"
  by unfold_locales (rule reads_doc_length)

lemma reads_meta: "reads read_meta (write_meta m) m"
  unfolding read_meta_def write_meta_def
  by (cases m) (auto intro!: reads_then [OF reads_u64] reads_then [OF reads_u32] reads_check [OF reads_u16])

interpretation meta_codec: byte_codec write_meta read_meta "\<lambda>_. True"
  by unfold_locales (rule reads_meta)

lemma reads_pair: "reads read_pair (write_pair e) e"
  unfolding read_pair_def write_pair_def
  by (cases e) (auto intro!: reads_then [OF reads_u64] reads_check [OF reads_u64])

interpretation pair_codec: byte_codec write_pair read_pair "\<lambda>_. True"
  by unfold_locales (rule reads_pair)

lemma reads_counted:
  assumes "byte_codec enc dec valid" and "\<And>x. x \<in> set xs \<Longrightarrow> valid x" and "length xs < 2 ^ 32"
  shows "reads (then_read read_u32 (\<lambda>n. read_n (unat n) dec)) (write_u32 (word_of_nat (length xs)) @ concat (map enc xs)) xs"
  using assms by (intro reads_then [OF reads_u32] byte_codec.decodes_many [where valid = valid]) (simp_all add: unat_of_nat_u32)

lemma reads_doc_length_entries:
  "length dl < 2 ^ 32 \<Longrightarrow> reads doc_length_entries (write_doc_lengths dl) dl"
  unfolding doc_length_entries_def write_doc_lengths_def
  by (rule reads_counted [OF doc_length_codec.byte_codec_axioms]) simp_all

lemma reads_result: "r = Inr x \<Longrightarrow> reads (read_result r) [] x"
  by (simp add: read_result_def reads_return)

lemma reads_blob: "length bs < 2 ^ 64 \<Longrightarrow> reads read_blob (write_blob bs) bs"
  unfolding read_blob_def write_blob_def
  by (intro reads_then [OF reads_u64] reads_take) (simp add: unat_of_nat_u64)

text \<open>A step that reads nothing.\<close>

lemma reads_pure: "reads r [] x \<Longrightarrow> reads (f x) bs y \<Longrightarrow> reads (then_read r f) bs y"
  using reads_then [of r "[]" x f bs y] by simp

definition bool_field_fits :: "roaring_ops \<Rightarrow> u32 \<times> bool_field \<Rightarrow> bool" where
  "bool_field_fits R = (\<lambda>(x, f). length (rb_serialize R (true_ids f)) < 2 ^ 64 \<and> length (rb_serialize R (false_ids f)) < 2 ^ 64)"

lemma reads_bool_field:
  assumes law: "roaring_lawful R" and fits: "bool_field_fits R e"
  shows "reads (read_bool_field R) (write_bool_field R e) e"
proof -
  obtain x f where e: "e = (x, f)" by (cases e)
  have de: "rb_deserialize R (rb_serialize R S) = Inr S" for S using law by (simp add: roaring_lawful_def)
  have len: "length (rb_serialize R (true_ids f)) < 2 ^ 64" "length (rb_serialize R (false_ids f)) < 2 ^ 64"
    using fits by (simp_all add: e bool_field_fits_def)
  show ?thesis
    unfolding read_bool_field_def write_bool_field_def e prod.case
    by (rule reads_then [OF reads_u32], rule reads_then [OF reads_blob [OF len(1)]], rule reads_pure [OF reads_result [OF de]],
        rule reads_check [OF reads_blob [OF len(2)]]) (simp add: de read_result_def then_read_def read_return_def fun_eq_iff)
qed

definition numeric_field_fits :: "u32 \<times> numeric_field \<Rightarrow> bool" where
  "numeric_field_fits = (\<lambda>(x, f).
     dv_kind (field_doc_values f) = bkd_kind (field_bkd f)
     \<and> sorted (map fst (bkd_points (field_bkd f))) \<and> length (bkd_points (field_bkd f)) < 2 ^ 32
     \<and> sorted (map fst (dv_entries (field_doc_values f))) \<and> length (dv_entries (field_doc_values f)) < 2 ^ 32
     \<and> block_first_doc (field_doc_values f) = block_firsts (dv_entries (field_doc_values f)))"

lemma kind_byte_round_trip [simp]: "kind_from_byte (kind_to_byte k) = Some k"
  by (cases k) (simp_all add: kind_from_byte_def kind_to_byte_def)

lemma reads_numeric_field:
  assumes "numeric_field_fits e"
  shows "reads read_numeric_field (write_numeric_field e) e"
proof -
  obtain x f where e: "e = (x, f)" by (cases e)
  let ?b = "field_bkd f" and ?d = "field_doc_values f"
  note fits = assms [unfolded e numeric_field_fits_def prod.case]
  have pts: "reads (read_n (unat (word_of_nat (length ps) :: u32)) read_pair) (concat (map write_pair ps)) ps"
    if "length ps < 2 ^ 32" for ps
    using that by (intro pair_codec.decodes_many) (simp_all add: unat_of_nat_u32)
  have k: "ok_or (InvalidData ''unknown numeric field kind'') (kind_from_byte (kind_to_byte (bkd_kind ?b))) = Inr (bkd_kind ?b)"
    by simp
  have b: "str_result (bkd_from_packed (bkd_kind ?b) (bkd_points ?b)) = Inr ?b"
    using fits by (simp add: str_result_def bkd_from_packed_def)
  have d: "str_result (dv_from_packed (bkd_kind ?b) (dv_entries ?d)) = Inr ?d"
    using fits by (cases ?d) (simp add: str_result_def dv_from_packed_def)
  show ?thesis
    unfolding read_numeric_field_def write_numeric_field_def e prod.case
    by (rule reads_then [OF reads_u32], rule reads_then [OF reads_u8], rule reads_pure [OF reads_result [OF k]],
        rule reads_then [OF reads_u32], rule reads_then [OF pts], use fits in blast,
        rule reads_then [OF reads_u32], rule reads_check [OF pts], use fits in blast)
      (simp add: b d read_result_def then_read_def read_return_def fun_eq_iff)
qed


lemma concat_metas_length: "length (concat (map write_meta ms)) = length ms * TERM_META_LEN"
  by (induction ms) (simp_all add: write_meta_def TERM_META_LEN_def)

definition dict_field_fits :: "fst_ops \<Rightarrow> u32 \<times> term_dict \<Rightarrow> bool" where
  "dict_field_fits F = (\<lambda>(x, d). td_len d < 2 ^ 32 \<and> length (td_fst_bytes d) < 2 ^ 64
     \<and> td_from_parts F (td_fst_bytes d) (td_metas d) = Inr d)"

lemma reads_dict_field:
  assumes "dict_field_fits F (x, d)"
  shows "reads (read_dict_field F) (write_dict_field (x, d)) (x, d, td_len d)"
proof -
  note fits = assms [unfolded dict_field_fits_def prod.case]
  let ?n = "word_of_nat (td_len d) :: u32"
  have n: "unat ?n = td_len d" using fits by (simp add: unat_of_nat_u32)
  have fst_len: "unat (word_of_nat (length (td_fst_bytes d)) :: u64) = length (td_fst_bytes d)"
    using fits by (simp add: unat_of_nat_u64)
  have "reads (read_n (unat ?n) read_meta) (concat (map write_meta (td_metas d))) (td_metas d)"
    using n by (intro meta_codec.decodes_many) (simp_all only: td_len_def)
  then have "reads (then_read (read_n (unat ?n) read_meta) (\<lambda>metas. then_read (read_result (td_from_parts F (td_fst_bytes d) metas))
      (\<lambda>d. read_return (x, d, unat ?n)))) (concat (map write_meta (td_metas d))) (x, d, td_len d)"
    by (rule reads_check) (use fits n in \<open>simp add: read_result_def then_read_def read_return_def fun_eq_iff\<close>)
  then have "reads (\<lambda>c. if unat ?n * TERM_META_LEN > remaining c
         then Inl (InvalidData ''dictionary term count exceeds section size'')
         else then_read (read_n (unat ?n) read_meta) (\<lambda>metas. then_read (read_result (td_from_parts F (td_fst_bytes d) metas))
      (\<lambda>d. read_return (x, d, unat ?n))) c) (concat (map write_meta (td_metas d))) (x, d, td_len d)"
    using n unfolding reads_def td_len_def by (auto simp: concat_metas_length dest!: ahead_remaining)
  note body = this
  show ?thesis
    unfolding read_dict_field_def write_dict_field_def prod.case
    by (rule reads_then [OF reads_u32], rule reads_then [OF reads_u32], rule reads_then [OF reads_u64],
        rule reads_then [OF reads_take [OF fst_len [symmetric]]], rule body)
qed

lemma reads_dict_fields:
  "(\<And>e. e \<in> set ds \<Longrightarrow> dict_field_fits F e) \<Longrightarrow>
     reads (read_n (length ds) (read_dict_field F)) (concat (map write_dict_field ds)) (map (\<lambda>(x, d). (x, d, td_len d)) ds)"
proof (induction ds)
  case (Cons e ds)
  obtain x d where e: "e = (x, d)" by (cases e)
  have "reads (then_read (read_n (length ds) (read_dict_field F)) (\<lambda>xs. read_return ((x, d, td_len d) # xs)))
     (concat (map write_dict_field ds)) ((x, d, td_len d) # map (\<lambda>(x, d). (x, d, td_len d)) ds)"
    using Cons by (intro reads_check [OF Cons.IH]) simp_all
  then show ?case
    using Cons.prems by (auto simp: e intro!: reads_then [OF reads_dict_field])
qed (simp add: reads_return)

lemma concat_dict_fields_length: "length ds * 16 \<le> length (concat (map write_dict_field ds))"
  by (induction ds) (auto simp: write_dict_field_def)

lemma reads_dictionary_section:
  assumes fits: "\<And>e. e \<in> set ds \<Longrightarrow> dict_field_fits F e" and len: "length ds < 2 ^ 32" and ok: "omap_ok ds"
    and count: "unat n = tds_term_count ds"
  shows "reads (dictionary_section F (length (write_dictionary ds)) n) (write_dictionary ds) ds"
proof -
  have small: "\<not> length ds * 16 > length (write_dictionary ds)"
    using concat_dict_fields_length [of ds] by (simp add: write_dictionary_def)
  have sum: "sum_list (map (\<lambda>(_, _, n). n) (map (\<lambda>(x, d). (x, d, td_len d)) ds)) = tds_term_count ds"
    by (simp add: tds_term_count_def comp_def case_prod_unfold)
  have "fold (\<lambda>(x, d, _). tds_insert_field x d) (map (\<lambda>(x, d). (x, d, td_len d)) ds) [] = omap_extend [] ds"
    by (simp add: omap_extend_def fold_map comp_def case_prod_unfold tds_insert_field_def [abs_def])
  then have build: "fold (\<lambda>(x, d, _). tds_insert_field x d) (map (\<lambda>(x, d). (x, d, td_len d)) ds) [] = ds"
    using ok by (simp add: omap_extend_Nil_id)
  show ?thesis
    unfolding dictionary_section_def write_dictionary_def [of ds]
    using small unat_of_nat_u32 [OF len]
    by (intro reads_then [OF reads_u32])
      (auto simp: build sum count write_dictionary_def [symmetric] simp del: map_map intro!: reads_check [OF reads_dict_fields [OF fits]])
qed

interpretation numeric_codec: byte_codec write_numeric_field read_numeric_field numeric_field_fits
  by unfold_locales (rule reads_numeric_field)

interpretation bool_codec: byte_codec "write_bool_field R" "read_bool_field R" "\<lambda>e. roaring_lawful R \<and> bool_field_fits R e"
  for R
  by unfold_locales (blast intro: reads_bool_field)

text \<open>A counted sequence of map entries, collected into a map.\<close>

lemma reads_omap:
  assumes codec: "byte_codec enc dec valid" and valid: "\<And>x. x \<in> set m \<Longrightarrow> valid x" and len: "length m < 2 ^ 32"
    and ok: "omap_ok m" and ins: "\<And>x v. ins (x, v) = omap_insert x v"
  shows "reads (then_read read_u32 (\<lambda>n. then_read (read_n (unat n) dec) (\<lambda>es. read_return (fold ins es []))))
    (write_u32 (word_of_nat (length m)) @ concat (map enc m)) m"
proof -
  have "ins = (\<lambda>(x, v). omap_insert x v)" by (auto simp: fun_eq_iff ins)
  then have build: "fold ins m [] = m"
    using ok by (simp add: omap_extend_Nil_id flip: omap_extend_def)
  have "reads (read_n (length m) dec) (concat (map enc m)) m"
    using valid by (intro byte_codec.decodes_many [OF codec]) simp_all
  from reads_check [OF this, of "\<lambda>es. read_return (fold ins es [])" m] show ?thesis
    by (intro reads_then [OF reads_u32]) (simp add: unat_of_nat_u32 [OF len] build)
qed

lemma reads_numeric_section:
  assumes "\<And>e. e \<in> set fs \<Longrightarrow> numeric_field_fits e" and "length fs < 2 ^ 32" and "omap_ok fs"
  shows "reads numeric_section (write_numeric_fields fs) fs"
  unfolding numeric_section_def write_numeric_fields_def
  by (rule reads_omap [OF numeric_codec.byte_codec_axioms assms(1) assms(2,3)]) (simp_all add: nf_insert_field_def [abs_def])

lemma reads_bool_section:
  assumes "roaring_lawful R" and "\<And>e. e \<in> set fs \<Longrightarrow> bool_field_fits R e" and "length fs < 2 ^ 32" and "omap_ok fs"
  shows "reads (bool_section R) (write_bool_fields R fs) fs"
  unfolding bool_section_def write_bool_fields_def
  using assms by (intro reads_omap [OF bool_codec.byte_codec_axioms]) simp_all

lemma fold_push_rows:
  assumes "length ps = length ds"
  shows "fold (\<lambda>(i, (doc, parent)) t. push_row t (b + word_of_nat i) doc (if parent \<noteq> NO_PARENT_ROW then Some parent else None))
      (zip [k..<k + length ds] (zip ds ps)) t =
    (if ds = [] then t
     else \<lparr>base = (if row_to_doc t = [] then b + word_of_nat k else base t), row_to_doc = row_to_doc t @ ds,
           parent_row = parent_row t @ ps\<rparr>)"
  using assms
proof (induction ds ps arbitrary: k t rule: list_induct2')
  case (4 d ds p ps)
  let ?t = "push_row t (b + word_of_nat k) d (if p \<noteq> NO_PARENT_ROW then Some p else None)"
  have t: "?t = \<lparr>base = (if row_to_doc t = [] then b + word_of_nat k else base t), row_to_doc = row_to_doc t @ [d], parent_row = parent_row t @ [p]\<rparr>"
    by (simp add: push_row_def Let_def)
  have "[k..<k + length (d # ds)] = k # [Suc k..<Suc k + length ds]"
    by (simp add: upt_rec)
  with "4.IH" [of "Suc k" ?t] "4.prems" show ?case by (auto simp: t)
qed simp_all

lemma reads_array_row_section:
  assumes "length (parent_row t) = length (row_to_doc t)" and "length (row_to_doc t) < 2 ^ 32"
  shows "reads array_row_section (write_array_row_index t) t"
proof -
  let ?rows = "zip (row_to_doc t) (parent_row t)"
  have len: "length ?rows = length (row_to_doc t)" using assms(1) by simp
  have r: "reads (read_n (length (row_to_doc t)) read_pair) (concat (map write_pair ?rows)) ?rows"
    using len by (intro pair_codec.decodes_many) simp_all
  have f: "fold (\<lambda>(i, (doc, parent)) s. push_row s (base t + word_of_nat i) doc (if parent \<noteq> NO_PARENT_ROW then Some parent else None))
         (zip [0..<length ?rows] ?rows) (rows_new (base t)) = t"
    using fold_push_rows [OF assms(1), of "base t" 0 "rows_new (base t)"] assms(1)
    by (cases t) (auto simp: rows_new_def)
  show ?thesis
    unfolding array_row_section_def write_array_row_index_def
    by (rule reads_then [OF reads_u64], rule reads_then [OF reads_u32], unfold unat_of_nat_u32 [OF assms(2)],
        rule reads_check [OF r], simp only: f)
qed

section \<open>Footer and sections in place\<close>

lemma run_section_ok: "reads r bs x \<Longrightarrow> run_section r bs = Inr x"
  using readsE [of r bs x "reader_cursor_new bs" "[]"] by (fastforce simp: run_section_def)

lemma section_bytes_ok:
  assumes "bs = pre @ sec @ post" "start = word_of_nat (length pre)" "len = word_of_nat (length sec)"
    and "length bs < 2 ^ 64" "length pre + length sec \<le> limit"
  shows "section_bytes bs start len limit e1 e2 = Inr sec"
proof -
  have "unat start = length pre" "unat len = length sec"
    using assms by (simp_all add: unat_of_nat_u64)
  with assms show ?thesis by (simp add: section_bytes_def checked_end_def)
qed

lemma length_footer [simp]: "length (write_footer f) = FOOTER_LEN"
  by (simp add: write_footer_def FOOTER_LEN_def)

lemma read_u64_at_skip: "length pre \<le> off \<Longrightarrow> read_u64_at (pre @ bs) off = read_u64_at bs (off - length pre)"
  by (simp add: read_u64_at_def)

lemma read_u64_at_hit: "read_u64_at (write_u64 v @ bs) 0 = v"
  by (simp add: read_u64_at_def write_u64_def)

lemma read_u32_at_skip: "length pre \<le> off \<Longrightarrow> read_u32_at (pre @ bs) off = read_u32_at bs (off - length pre)"
  by (simp add: read_u32_at_def)

lemma read_u32_at_hit: "read_u32_at (write_u32 v @ bs) 0 = v"
  by (simp add: read_u32_at_def write_u32_def)

lemma read_u64_at_last: "read_u64_at (write_u64 v) 0 = v"
  using read_u64_at_hit [of v "[]"] by simp

lemma read_write_footer: "read_footer (pre @ write_footer f) = f"
  by (simp add: read_footer_def Let_def read_u64_at_skip read_u32_at_skip)
    (simp add: write_footer_def read_u64_at_skip read_u32_at_skip read_u64_at_hit read_u32_at_hit read_u64_at_last)

text \<open>C33. Decoding an encoded posting list, with the document frequency and the largest weight its
  dictionary entry carries, gives the list back: document gaps, weights and position gaps survive the
  variable-length encoding, also where a gap wraps around because the values are not ascending.  The
  decoder that appends to a vector appends exactly those postings.\<close>

theorem posting_list_round_trip:
  assumes "postings_fit (items l)"
  shows "read_posting_list (encode_posting_list l) (word_of_nat (pl_len l)) (max_weight l) = Inr l
    \<and> read_posting_list_into (encode_posting_list l) (word_of_nat (pl_len l)) out = (out @ items l, Inr ())"
  using assms by (simp add: read_posting_list_encode read_posting_list_into_encode)

theorem posting_list_round_trip_witness:
  "postings_fit (items sample_list)
   \<and> read_posting_list (encode_posting_list sample_list) (word_of_nat (pl_len sample_list)) (max_weight sample_list) = Inr sample_list"
proof -
  have "postings_fit (items sample_list)" by (simp add: postings_fit_def sample_list_def with_weight_def)
  then show ?thesis using posting_list_round_trip [of sample_list "[]"] by simp
qed

end
