(* ===== verification/Disk_Segment.thy ===== *)
theory Disk_Segment
  imports Disk_Format
begin

text \<open>
  \<^verbatim>\<open>crates/core-index/src/disk/writer.rs\<close> (\<open>FieldWriter\<close>, \<open>write_segment_to\<close>, \<open>write_merged_segment_to\<close>)
  and \<^verbatim>\<open>reader.rs\<close> (\<open>DiskSegment\<close>, \<open>DocLengths\<close>): a whole segment file, and the segment opened from
  it.  The file system and the memory map are the byte string the file holds.
\<close>

section \<open>Writing the terms\<close>

record field_writer =
  fw_fields :: "(u32 \<times> term_dict) list"
  fw_current :: "u32 option"
  fw_entries :: "(string \<times> term_meta) list"
  fw_term_count :: u32

definition fw_new :: field_writer where
  "fw_new = \<lparr>fw_fields = [], fw_current = None, fw_entries = [], fw_term_count = 0\<rparr>"

definition close_field :: "fst_ops \<Rightarrow> field_writer \<Rightarrow> field_writer result" where
  "close_field F w =
     (case fw_current w of
        None \<Rightarrow> Inr w
      | Some x \<Rightarrow> and_then (td_build F (fw_entries w)) (\<lambda>d.
          Inr (w\<lparr>fw_fields := fw_fields w @ [(x, d)], fw_current := None, fw_entries := []\<rparr>)))"

definition fw_push :: "fst_ops \<Rightarrow> term_key \<times> posting_list \<Rightarrow> field_writer \<times> u8 list \<Rightarrow> (field_writer \<times> u8 list) result" where
  "fw_push F = (\<lambda>(k, l) (w, out).
     and_then (if fw_current w \<noteq> Some (key_xpath k)
               then and_then (close_field F w) (\<lambda>w. Inr (w\<lparr>fw_current := Some (key_xpath k)\<rparr>))
               else Inr w) (\<lambda>w.
       let buf = encode_posting_list l;
           meta = \<lparr>postings_offset = word_of_nat (length out), postings_len = word_of_nat (length buf),
                   meta_doc_freq = word_of_nat (pl_len l), meta_max_weight = max_weight l\<rparr>
       in Inr (w\<lparr>fw_entries := fw_entries w @ [(key_term k, meta)], fw_term_count := fw_term_count w + 1\<rparr>,
               out @ buf)))"

definition write_terms :: "fst_ops \<Rightarrow> dictionary \<Rightarrow> u8 list \<Rightarrow> (field_writer \<times> u8 list) result" where
  "write_terms F terms out = foldl (\<lambda>r e. and_then r (fw_push F e)) (Inr (fw_new, out)) terms"

definition fw_finish :: "fst_ops \<Rightarrow> field_writer \<Rightarrow> ((u32 \<times> term_dict) list \<times> u32) result" where
  "fw_finish F w = and_then (close_field F w) (\<lambda>w. Inr (fw_fields w, fw_term_count w))"

section \<open>Writing the file\<close>

definition write_sections :: "fst_ops \<Rightarrow> roaring_ops \<Rightarrow> dictionary \<Rightarrow> doc_lengths_map \<Rightarrow> numeric_fields \<Rightarrow>
    array_row_index \<Rightarrow> bool_fields_map \<Rightarrow> (u64 \<times> u64) option \<Rightarrow> u8 list result" where
  "write_sections F R terms dl nfs rows bools rng =
     and_then (write_terms F terms write_header) (\<lambda>(w, out).
     and_then (fw_finish F w) (\<lambda>(ds, term_count).
       let doc_lengths_offset = length out;
           out = out @ write_doc_lengths dl;
           dictionary_offset = length out;
           out = out @ write_dictionary ds;
           numeric_fields_offset = length out;
           out = out @ write_numeric_fields nfs;
           doc_id_range = (case rng of None \<Rightarrow> (0, 0) | Some r \<Rightarrow> r);
           array_row_index_offset = length out;
           out = out @ write_array_row_index rows;
           bool_fields_offset = length out;
           out = out @ write_bool_fields R bools;
           bool_fields_end = length out;
           footer = \<lparr>ft_doc_lengths_offset = word_of_nat doc_lengths_offset,
              ft_doc_lengths_len = word_of_nat (dictionary_offset - doc_lengths_offset),
              ft_dictionary_offset = word_of_nat dictionary_offset,
              ft_dictionary_len = word_of_nat (numeric_fields_offset - dictionary_offset),
              ft_numeric_fields_offset = word_of_nat numeric_fields_offset,
              ft_numeric_fields_len = word_of_nat (array_row_index_offset - numeric_fields_offset),
              ft_array_row_index_offset = word_of_nat array_row_index_offset,
              ft_array_row_index_len = word_of_nat (bool_fields_offset - array_row_index_offset),
              ft_term_count = term_count,
              ft_min_doc_id = fst doc_id_range, ft_max_doc_id = snd doc_id_range,
              ft_bool_fields_offset = word_of_nat bool_fields_offset,
              ft_bool_fields_len = word_of_nat (bool_fields_end - bool_fields_offset)\<rparr>
       in Inr (out @ write_footer footer)))"

definition write_segment_to :: "fst_ops \<Rightarrow> roaring_ops \<Rightarrow> immutable_segment \<Rightarrow> u8 list result" where
  "write_segment_to F R s =
     write_sections F R (seg_terms s) (seg_doc_lengths s) (seg_numeric_fields s) (seg_array_rows s)
       (seg_bool_fields s) (seg_doc_id_range s)"

definition write_merged_segment_to :: "fst_ops \<Rightarrow> roaring_ops \<Rightarrow> (term_key \<times> posting_list) list \<Rightarrow> doc_lengths_map \<Rightarrow>
    numeric_fields \<Rightarrow> array_row_index \<Rightarrow> bool_fields_map \<Rightarrow> u8 list result" where
  "write_merged_segment_to F R terms dl nfs rows bools =
     write_sections F R terms dl nfs rows bools (compute_doc_id_range dl nfs)"

section \<open>Document lengths in memory\<close>

datatype field_lens = Dense u64 "u32 list" | Sparse "(u64, u32) omap"

type_synonym doc_lengths = "(u32 \<times> field_lens) list"

definition saturate :: "nat \<Rightarrow> nat" where
  "saturate n = min n (2 ^ 64 - 1)"

definition field_lens_of :: "(u64 \<times> u32) list \<Rightarrow> field_lens" where
  "field_lens_of ds =
     (let first = (case iter_min (map fst ds) of None \<Rightarrow> 0 | Some d \<Rightarrow> d);
          final = (case iter_max (map fst ds) of None \<Rightarrow> 0 | Some d \<Rightarrow> d);
          span = saturate ((unat final - unat first) + 1)
      in if span \<le> saturate (length ds * 4)
         then Dense first (fold (\<lambda>(d, len) lens. lens[unat (d - first) := len]) ds (replicate span (- 1)))
         else Sparse (omap_extend [] ds))"

definition dl_from_entries :: "((u64 \<times> u32) \<times> u32) list \<Rightarrow> doc_lengths" where
  "dl_from_entries es =
     map (\<lambda>(x, ds). (x, field_lens_of ds))
       (fold (\<lambda>((d, x), len). omap_entry x [] (\<lambda>ds. ds @ [(d, len)])) es [])"

definition lens_get :: "field_lens \<Rightarrow> u64 \<Rightarrow> u32 option" where
  "lens_get l d =
     (case l of
        Dense first lens \<Rightarrow>
          Option.bind (checked_sub d first) (\<lambda>i.
          Option.bind (vec_get lens (unat i)) (\<lambda>len. if len \<noteq> - 1 then Some len else None))
      | Sparse m \<Rightarrow> omap_get m d)"

definition dl_get :: "doc_lengths \<Rightarrow> u64 \<Rightarrow> u32 \<Rightarrow> u32 option" where
  "dl_get dl d x = (case find (\<lambda>(y, _). y = x) dl of None \<Rightarrow> None | Some (_, l) \<Rightarrow> lens_get l d)"

definition lens_iter :: "field_lens \<Rightarrow> (u64 \<times> u32) list" where
  "lens_iter l =
     (case l of
        Dense first lens \<Rightarrow>
          map (\<lambda>(i, len). (first + word_of_nat i, len)) (filter (\<lambda>(_, len). len \<noteq> - 1) (zip [0..<length lens] lens))
      | Sparse m \<Rightarrow> m)"

definition dl_iter :: "doc_lengths \<Rightarrow> ((u64 \<times> u32) \<times> u32) list" where
  "dl_iter dl = concat (map (\<lambda>(x, l). map (\<lambda>(d, len). ((d, x), len)) (lens_iter l)) dl)"

definition read_doc_lengths :: "u8 list \<Rightarrow> segment_footer \<Rightarrow> doc_lengths result" where
  "read_doc_lengths bs f =
     and_then (section_bytes bs (ft_doc_lengths_offset f) (ft_doc_lengths_len f) (length bs - FOOTER_LEN)
       (InvalidData ''doc lengths offset overflow'') (InvalidData ''doc lengths outside segment bounds'')) (\<lambda>sec.
     and_then (run_section doc_length_entries sec) (\<lambda>es. Inr (dl_from_entries es)))"

section \<open>The opened segment\<close>

record disk_segment =
  ds_bytes :: "u8 list"
  ds_dictionary :: term_dictionary
  ds_doc_lengths :: doc_lengths
  ds_field_stats :: field_stats_map
  ds_numeric_fields :: numeric_fields
  ds_bool_fields :: bool_fields_map
  ds_doc_id_range :: "(u64 \<times> u64) option"
  ds_array_rows :: array_row_index

definition disk_open :: "fst_ops \<Rightarrow> roaring_ops \<Rightarrow> u8 list \<Rightarrow> disk_segment result" where
  "disk_open F R bs =
     and_then (validate_header bs) (\<lambda>_.
     let footer = read_footer bs in
     and_then (validate_footer bs footer) (\<lambda>_.
     and_then (read_doc_lengths bs footer) (\<lambda>dl.
     let stats = build_field_stats (dl_iter dl) in
     and_then (read_term_dictionary F bs footer) (\<lambda>dictionary.
     and_then (read_numeric_fields bs footer) (\<lambda>nfs.
     and_then (read_bool_points R bs footer) (\<lambda>bools.
     let rng = (if ft_term_count footer = 0 \<and> nfs = [] then None
                  else Some (ft_min_doc_id footer, ft_max_doc_id footer)) in
     and_then (read_array_row_index bs footer) (\<lambda>rows.
       Inr \<lparr>ds_bytes = bs, ds_dictionary = dictionary, ds_doc_lengths = dl, ds_field_stats = stats,
            ds_numeric_fields = nfs, ds_bool_fields = bools, ds_doc_id_range = rng, ds_array_rows = rows\<rparr>)))))))"

definition read_postings :: "disk_segment \<Rightarrow> term_meta \<Rightarrow> posting_list" where
  "read_postings ds m =
     (let start = unat (postings_offset m); len = unat (postings_len m)
      in if start + len \<ge> 2 ^ 64 then pl_new
         else if start + len > length (ds_bytes ds) then pl_new
         else case read_posting_list (take len (drop start (ds_bytes ds))) (meta_doc_freq m) (meta_max_weight m) of
                Inl _ \<Rightarrow> pl_new | Inr l \<Rightarrow> l)"

definition read_postings_into :: "disk_segment \<Rightarrow> term_meta \<Rightarrow> posting list \<Rightarrow> posting list" where
  "read_postings_into ds m out =
     (let start = unat (postings_offset m); len = unat (postings_len m)
      in if start + len \<ge> 2 ^ 64 then out
         else if start + len > length (ds_bytes ds) then out
         else fst (read_posting_list_into (take len (drop start (ds_bytes ds))) (meta_doc_freq m) out))"

definition iter_terms :: "fst_ops \<Rightarrow> disk_segment \<Rightarrow> (term_key \<times> posting_list) list" where
  "iter_terms F ds =
     concat (map (\<lambda>(x, d). map (\<lambda>(t, m). (TermKey x t, read_postings ds m)) (td_entries F d)) (ds_dictionary ds))"

definition ds_lookup :: "fst_ops \<Rightarrow> disk_segment \<Rightarrow> string \<Rightarrow> u32 \<Rightarrow> posting_list" where
  "ds_lookup F ds t x =
     (case tds_get F (ds_dictionary ds) x t of Some m \<Rightarrow> read_postings ds m | None \<Rightarrow> pl_new)"

record term_postings =
  tp_postings :: posting_list
  tp_doc_freq :: u32
  tp_max_weight :: u16

definition ds_lookup_term :: "fst_ops \<Rightarrow> disk_segment \<Rightarrow> string \<Rightarrow> u32 \<Rightarrow> term_postings" where
  "ds_lookup_term F ds t x =
     (case tds_get F (ds_dictionary ds) x t of
        None \<Rightarrow> \<lparr>tp_postings = pl_new, tp_doc_freq = 0, tp_max_weight = 0\<rparr>
      | Some m \<Rightarrow> \<lparr>tp_postings = read_postings ds m, tp_doc_freq = meta_doc_freq m, tp_max_weight = meta_max_weight m\<rparr>)"

definition ds_doc_freq :: "fst_ops \<Rightarrow> disk_segment \<Rightarrow> string \<Rightarrow> u32 \<Rightarrow> u32" where
  "ds_doc_freq F ds t x = (case tds_get F (ds_dictionary ds) x t of None \<Rightarrow> 0 | Some m \<Rightarrow> meta_doc_freq m)"

definition ds_term_names :: "fst_ops \<Rightarrow> disk_segment \<Rightarrow> u32 \<Rightarrow> string list" where
  "ds_term_names F ds x =
     (case tds_field (ds_dictionary ds) x of None \<Rightarrow> [] | Some d \<Rightarrow> map fst (td_entries F d))"

definition read_best :: "disk_segment \<Rightarrow> (string \<times> term_meta) list \<Rightarrow> posting_list" where
  "read_best ds ms =
     (let ms = sort_key (\<lambda>(t, m). (- uint (meta_doc_freq m), t)) ms;
          ms = take MAX_PATTERN_TERMS ms
      in from_items (fold (\<lambda>(_, m). read_postings_into ds m) ms []))"

definition ds_lookup_prefix :: "fst_ops \<Rightarrow> disk_segment \<Rightarrow> string \<Rightarrow> u32 \<Rightarrow> posting_list" where
  "ds_lookup_prefix F ds p x =
     (case tds_field (ds_dictionary ds) x of None \<Rightarrow> pl_new | Some d \<Rightarrow> read_best ds (td_prefix F d p))"

definition ds_lookup_wildcard :: "fst_ops \<Rightarrow> disk_segment \<Rightarrow> wildcard_pattern \<Rightarrow> u32 \<Rightarrow> posting_list" where
  "ds_lookup_wildcard F ds pat x =
     (if is_prefix_only pat then ds_lookup_prefix F ds (wildcard_prefix pat) x
      else case tds_field (ds_dictionary ds) x of
             None \<Rightarrow> pl_new
           | Some d \<Rightarrow> read_best ds (filter (\<lambda>(t, _). wildcard_matches pat t) (td_prefix F d (wildcard_prefix pat))))"

definition ds_numeric_range :: "disk_segment \<Rightarrow> u32 \<Rightarrow> numeric_bound option \<Rightarrow> numeric_bound option \<Rightarrow> posting_list" where
  "ds_numeric_range ds x lo hi = docs_to_postings (nf_range (ds_numeric_fields ds) x lo hi)"

definition ds_numeric_value :: "disk_segment \<Rightarrow> u32 \<Rightarrow> u64 \<Rightarrow> numeric_value option" where
  "ds_numeric_value ds x d = nf_get (ds_numeric_fields ds) x d"

definition ds_numeric_bounds :: "disk_segment \<Rightarrow> u32 \<Rightarrow> numeric_value option \<times> numeric_value option" where
  "ds_numeric_bounds ds x = nf_bounds (ds_numeric_fields ds) x"

definition ds_bool_value :: "disk_segment \<Rightarrow> u32 \<Rightarrow> u64 \<Rightarrow> bool option" where
  "ds_bool_value ds x d =
     (case omap_get (ds_bool_fields ds) x of
        None \<Rightarrow> None
      | Some f \<Rightarrow> if d \<in> true_ids f then Some True else if d \<in> false_ids f then Some False else None)"

definition ds_resolve_array_rows :: "disk_segment \<Rightarrow> u64 set \<Rightarrow> u64 set" where
  "ds_resolve_array_rows ds rows = (\<Union>r \<in> rows. set_option (doc_of (ds_array_rows ds) r))"

definition ds_doc_len :: "disk_segment \<Rightarrow> u64 \<Rightarrow> u32 \<Rightarrow> u32 option" where
  "ds_doc_len ds d x = dl_get (ds_doc_lengths ds) d x"

definition ds_doc_count :: "disk_segment \<Rightarrow> u32 \<Rightarrow> u64" where
  "ds_doc_count ds x = (case omap_get (ds_field_stats ds) x of None \<Rightarrow> 0 | Some f \<Rightarrow> doc_count f)"

definition ds_total_doc_len :: "disk_segment \<Rightarrow> u32 \<Rightarrow> u64" where
  "ds_total_doc_len ds x = (case omap_get (ds_field_stats ds) x of None \<Rightarrow> 0 | Some f \<Rightarrow> total_doc_len f)"

section \<open>Document lengths read back\<close>

lemma zip_upt_nth: "zip [0..<length xs] xs = map (\<lambda>i. (i, xs ! i)) [0..<length xs]"
  by (rule nth_equalityI) simp_all

lemma nth_fold_update:
  "\<forall>(d, len) \<in> set ds. f d < length v \<Longrightarrow> distinct (map (f \<circ> fst) ds) \<Longrightarrow>
     fold (\<lambda>(d, len) v. v[f d := len]) ds v ! i =
       (case find (\<lambda>(d, _). f d = i) ds of Some (_, len) \<Rightarrow> len | None \<Rightarrow> v ! i)
     \<and> length (fold (\<lambda>(d, len) v. v[f d := len]) ds v) = length v"
proof (induction ds arbitrary: v)
  case (Cons e ds)
  obtain d len where e: "e = (d, len)" by (cases e)
  have IH: "fold (\<lambda>(d, len) v. v[f d := len]) ds (v[f d := len]) ! i =
       (case find (\<lambda>(d, _). f d = i) ds of Some (_, len) \<Rightarrow> len | None \<Rightarrow> v[f d := len] ! i)
     \<and> length (fold (\<lambda>(d, len) v. v[f d := len]) ds (v[f d := len])) = length v"
    using Cons.IH [of "v[f d := len]"] Cons.prems by (auto simp: e)
  have "find (\<lambda>(d, _). f d = i) ds = None" if "f d = i"
    using Cons.prems(2) that by (force simp: e find_None_iff)
  then show ?case
    using IH Cons.prems(1) by (auto simp: e split: option.split)
qed simp

lemma find_map_of: "find (\<lambda>(d, _). d = k) ds = map_option (Pair k) (map_of ds k)"
  by (induction ds) auto

lemma dense_iter:
  assumes "unat first + length lens \<le> 2 ^ 64"
  shows "distinct (map fst (lens_iter (Dense first lens)))"
    and "(d, len) \<in> set (lens_iter (Dense first lens)) \<longleftrightarrow> lens_get (Dense first lens) d = Some len"
proof -
  have un: "unat (first + word_of_nat i) = unat first + i" if "i < length lens" for i
    using that assms by (simp add: unat_word_ariths unat_of_nat)
  let ?is = "filter (\<lambda>i. lens ! i \<noteq> - 1) [0..<length lens]"
  have iter: "lens_iter (Dense first lens) = map (\<lambda>i. (first + word_of_nat i, lens ! i)) ?is"
    by (simp add: lens_iter_def zip_upt_nth filter_map comp_def)
  have "inj_on (\<lambda>i. first + word_of_nat i) (set ?is)"
    by (rule inj_onI) (metis (no_types, lifting) add_left_cancel atLeastLessThan_iff filter_is_subset set_upt subsetD un)
  then show "distinct (map fst (lens_iter (Dense first lens)))"
    by (simp add: iter distinct_map comp_def)
  show "(d, len) \<in> set (lens_iter (Dense first lens)) \<longleftrightarrow> lens_get (Dense first lens) d = Some len"
  proof
    assume "(d, len) \<in> set (lens_iter (Dense first lens))"
    then obtain i where "i < length lens" "lens ! i \<noteq> - 1" "d = first + word_of_nat i" "len = lens ! i"
      by (auto simp: iter)
    moreover from this assms have "unat (word_of_nat i :: u64) = i" by (simp add: unat_of_nat_u64)
    ultimately show "lens_get (Dense first lens) d = Some len"
      using un [of i] by (auto simp: lens_get_def checked_sub_def word_le_nat_alt unat_sub vec_get_def)
  next
    assume get: "lens_get (Dense first lens) d = Some len"
    then have "unat first \<le> unat d" "unat d - unat first < length lens"
        "lens ! (unat d - unat first) \<noteq> - 1" "len = lens ! (unat d - unat first)"
      by (auto simp: lens_get_def checked_sub_def word_le_nat_alt unat_sub vec_get_def Option.bind_eq_Some_conv split: if_splits)
    moreover from this have "d = first + word_of_nat (unat d - unat first)"
      using un [of "unat d - unat first"] by (intro unat_word_eqI) simp
    ultimately show "(d, len) \<in> set (lens_iter (Dense first lens))"
      by (auto simp: iter intro!: image_eqI [of _ _ "unat d - unat first"])
  qed
qed

lemma field_lens_of_get:
  assumes dist: "distinct (map fst ds)" and ne: "ds \<noteq> []" and few: "length ds < 2 ^ 32" and lens: "\<forall>(d, len) \<in> set ds. len \<noteq> - 1"
  shows "lens_get (field_lens_of ds) d = map_of ds d"
    and "mset (lens_iter (field_lens_of ds)) = mset ds"
proof -
  define lo where "lo = Min (fst ` set ds)"
  define hi where "hi = Max (fst ` set ds)"
  define span where "span = saturate ((unat hi - unat lo) + 1)"
  have min: "iter_min (map fst ds) = Some lo" and max: "iter_max (map fst ds) = Some hi"
    using ne by (simp_all add: iter_min_Min iter_max_Max lo_def hi_def)
  have bounds: "lo \<le> d \<and> d \<le> hi" if "d \<in> fst ` set ds" for d
    using that by (simp add: lo_def hi_def)
  have shape: "field_lens_of ds = (if span \<le> saturate (length ds * 4)
      then Dense lo (fold (\<lambda>(d, len) lens. lens[unat (d - lo) := len]) ds (replicate span (- 1)))
      else Sparse (omap_extend [] ds))"
    by (simp add: field_lens_of_def Let_def min max span_def)
  have "lens_get (field_lens_of ds) d = map_of ds d \<and> mset (lens_iter (field_lens_of ds)) = mset ds"
  proof (cases "span \<le> saturate (length ds * 4)")
    case False
    have "mset (omap_extend [] ds) = mset ds"
      using mset_omap_extend_disjoint [of "[]" ds] dist by simp
    moreover have "map_of (omap_extend [] ds) d = map_of ds d"
      using dist by (simp add: omap_get_extend map_of_rev_distinct split: option.split)
    ultimately show ?thesis
      using False by (simp add: shape lens_get_def lens_iter_def)
  next
    case True
    let ?v = "fold (\<lambda>(d, len) lens. lens[unat (d - lo) := len]) ds (replicate span (- 1))"
    have span: "span = unat hi - unat lo + 1"
      using True few by (simp add: span_def saturate_def min_def split: if_splits)
    have idx: "unat (d - lo) = unat d - unat lo \<and> unat lo \<le> unat d \<and> unat d - unat lo < span" if "d \<in> fst ` set ds" for d
      using bounds [OF that] by (auto simp: unat_sub word_le_nat_alt span)
    have inj: "distinct (map ((\<lambda>d. unat (d - lo)) \<circ> fst) ds)"
    proof -
      have "inj_on (\<lambda>d. unat (d - lo)) (fst ` set ds)"
      proof (rule inj_onI)
        fix a b
        assume "a \<in> fst ` set ds" "b \<in> fst ` set ds" "unat (a - lo) = unat (b - lo)"
        then show "a = b" using idx [of a] idx [of b] by (intro unat_word_eqI) linarith
      qed
      with dist have "distinct (map (\<lambda>d. unat (d - lo)) (map fst ds))" by (simp only: distinct_map set_map simp_thms)
      then show ?thesis by (simp only: map_map)
    qed
    note upd = nth_fold_update [of ds "\<lambda>d. unat (d - lo)" "replicate span (- 1)", OF _ inj]
    have v: "?v ! i = (case find (\<lambda>(d, _). unat (d - lo) = i) ds of Some (_, len) \<Rightarrow> len | None \<Rightarrow> replicate span (- 1) ! i)"
      and len_v: "length ?v = span" for i
      using upd idx by (force simp: image_iff)+
    have get: "lens_get (Dense lo ?v) d = map_of ds d" for d
    proof (cases "d \<in> fst ` set ds")
      case True
      then obtain len where len: "map_of ds d = Some len" "(d, len) \<in> set ds"
        using dist by (auto simp: map_of_eq_Some_iff)
      have "find (\<lambda>(d', _). unat (d' - lo) = unat d - unat lo) ds = find (\<lambda>(d', _). d' = d) ds"
      proof (rule find_cong [OF refl])
        fix e
        assume e: "e \<in> set ds"
        then have "fst e \<in> fst ` set ds" by simp
        from idx [OF this] idx [OF True] have "unat (fst e - lo) = unat d - unat lo \<longleftrightarrow> unat (fst e) = unat d" by linarith
        then show "(case e of (d', _) \<Rightarrow> unat (d' - lo) = unat d - unat lo) = (case e of (d', _) \<Rightarrow> d' = d)"
          by (cases e) (auto intro: unat_word_eqI)
      qed
      then have "?v ! (unat d - unat lo) = len"
        by (simp add: v find_map_of len)
      then show ?thesis
        using idx [OF True] lens len bounds [OF True] by (auto simp: lens_get_def checked_sub_def vec_get_def len_v)
    next
      case False
      have "?v ! (unat (d - lo)) = - 1" if "lo \<le> d" "unat (d - lo) < span"
      proof -
        have "find (\<lambda>(d', _). unat (d' - lo) = unat (d - lo)) ds = None"
          using False unsigned_word_eqI [of _ "d - lo"] by (force simp: find_None_iff)
        with that show ?thesis by (simp add: v)
      qed
      moreover have "map_of ds d = None" using False by (simp add: map_of_eq_None_iff)
      ultimately show ?thesis
        by (auto simp: lens_get_def checked_sub_def vec_get_def len_v)
    qed
    have fits: "unat lo + length ?v \<le> 2 ^ 64"
    proof -
      have "fst (hd ds) \<in> fst ` set ds" using ne by simp
      from bounds [OF this] have "unat lo \<le> unat hi" by (simp add: word_le_nat_alt)
      then show ?thesis using unat_u64_lt [of hi] unfolding len_v by (simp add: span)
    qed
    have "set (lens_iter (Dense lo ?v)) = set ds"
      using dense_iter(2) [OF fits] get dist by (auto simp: map_of_eq_Some_iff)
    moreover have "distinct (lens_iter (Dense lo ?v))" "distinct ds"
      using dense_iter(1) [OF fits] dist by (simp_all add: distinct_map)
    ultimately have "mset (lens_iter (Dense lo ?v)) = mset ds"
      by (simp add: set_eq_iff_mset_eq_distinct)
    with get True show ?thesis by (simp add: shape)
  qed
  then show "lens_get (field_lens_of ds) d = map_of ds d" "mset (lens_iter (field_lens_of ds)) = mset ds" by blast+
qed


text \<open>Grouping the entries by field.\<close>

definition field_docs :: "u32 \<Rightarrow> ((u64 \<times> u32) \<times> u32) list \<Rightarrow> (u64 \<times> u32) list" where
  "field_docs x es = map (\<lambda>((d, _), len). (d, len)) (filter (\<lambda>((_, y), _). y = x) es)"

definition by_field :: "((u64 \<times> u32) \<times> u32) list \<Rightarrow> (u32, (u64 \<times> u32) list) omap" where
  "by_field es = fold (\<lambda>((d, x), len). omap_entry x [] (\<lambda>ds. ds @ [(d, len)])) es []"

lemma by_field_get:
  "omap_ok (by_field es) \<and> omap_get (by_field es) x = (if field_docs x es = [] then None else Some (field_docs x es))"
proof (induction es arbitrary: x rule: rev_induct)
  case (snoc e es)
  obtain d y len where e: "e = ((d, y), len)" by (metis surj_pair)
  have step: "by_field (es @ [e]) = omap_entry y [] (\<lambda>ds. ds @ [(d, len)]) (by_field es)"
    by (simp add: by_field_def e)
  show ?case
  proof -
    have docs: "field_docs x (es @ [e]) = field_docs x es @ (if y = x then [(d, len)] else [])"
      by (simp add: field_docs_def e)
    show ?thesis
      unfolding step docs using snoc by (auto simp: omap_ok_entry omap_get_entry)
  qed
qed (simp add: by_field_def field_docs_def)

lemma dl_from_entries_by_field: "dl_from_entries es = map (\<lambda>(x, ds). (x, field_lens_of ds)) (by_field es)"
  by (simp add: dl_from_entries_def by_field_def)

lemma map_of_field_docs: "map_of (field_docs x es) d = map_of es (d, x)"
  by (induction es) (auto simp: field_docs_def)

lemma distinct_field_docs: "distinct (map fst es) \<Longrightarrow> distinct (map fst (field_docs x es))"
  by (induction es) (auto simp: field_docs_def image_iff)

definition lengths_fit :: "((u64 \<times> u32) \<times> u32) list \<Rightarrow> bool" where
  "lengths_fit es \<longleftrightarrow> omap_ok es \<and> length es < 2 ^ 32 \<and> (\<forall>(k, len) \<in> set es. len \<noteq> - 1)"

lemma field_docs_fit:
  assumes "lengths_fit es" "field_docs x es \<noteq> []"
  shows "lens_get (field_lens_of (field_docs x es)) d = map_of es (d, x)"
    and "mset (lens_iter (field_lens_of (field_docs x es))) = mset (field_docs x es)"
proof -
  have "distinct (map fst (field_docs x es))"
    using assms(1) by (intro distinct_field_docs) (simp add: lengths_fit_def omap_distinct)
  moreover have "length (field_docs x es) < 2 ^ 32"
  proof -
    have "length (field_docs x es) \<le> length es" unfolding field_docs_def length_map by (rule length_filter_le)
    with assms(1) show ?thesis by (simp add: lengths_fit_def)
  qed
  moreover have "\<forall>(d, len) \<in> set (field_docs x es). len \<noteq> - 1"
    using assms(1) by (auto simp: lengths_fit_def field_docs_def)
  ultimately show "lens_get (field_lens_of (field_docs x es)) d = map_of es (d, x)"
    and "mset (lens_iter (field_lens_of (field_docs x es))) = mset (field_docs x es)"
    using field_lens_of_get [OF _ assms(2)] by (simp_all add: map_of_field_docs)
qed

lemma dl_get_from_entries:
  assumes "lengths_fit es"
  shows "dl_get (dl_from_entries es) d x = map_of es (d, x)"
proof -
  have "find (\<lambda>(y, _). y = x) (dl_from_entries es) = map_option (\<lambda>ds. (x, field_lens_of ds)) (omap_get (by_field es) x)"
    unfolding dl_from_entries_by_field find_map_of by (simp add: map_of_map option.map_comp comp_def)
  then show ?thesis
    using by_field_get [of es x] field_docs_fit(1) [OF assms, of x d] map_of_field_docs [of x es d]
    by (auto simp: dl_get_def split: if_splits)
qed

lemma mset_split_fields:
  assumes "distinct xs" and "\<forall>((d, x), len) \<in> set es. x \<in> set xs"
  shows "mset (concat (map (\<lambda>x. map (\<lambda>(d, len). ((d, x), len)) (field_docs x es)) xs)) = mset es"
proof -
  have field: "map (\<lambda>(d, len). ((d, x), len)) (field_docs x es) = filter (\<lambda>((_, y), _). y = x) es" for x
    by (induction es) (auto simp: field_docs_def)
  show ?thesis
    unfolding field using assms
  proof (induction es)
    case (Cons e es)
    obtain d y len where e: "e = ((d, y), len)" by (metis surj_pair)
    have "mset (concat (map (\<lambda>x. filter (\<lambda>((_, y), _). y = x) (e # es)) zs)) =
        (if y \<in> set zs then {#e#} else {#}) + mset (concat (map (\<lambda>x. filter (\<lambda>((_, y), _). y = x) es) zs))"
      if "distinct zs" for zs
      using that by (induction zs) (auto simp: e)
    with Cons show ?case by (auto simp: e)
  qed (auto simp: concat_eq_Nil_conv)
qed

lemma dl_iter_from_entries:
  assumes "lengths_fit es"
  shows "mset (dl_iter (dl_from_entries es)) = mset es"
proof -
  have ok: "omap_ok (by_field es)" using by_field_get [of es] by blast
  have docs: "ds = field_docs x es \<and> field_docs x es \<noteq> []" if "(x, ds) \<in> set (by_field es)" for x ds
    using that ok by_field_get [of es x] omap_get_iff [OF ok, of x ds] by (auto split: if_splits)
  have "mset (dl_iter (dl_from_entries es)) =
      (\<Sum>(x, ds) \<leftarrow> by_field es. mset (map (\<lambda>(d, len). ((d, x), len)) (lens_iter (field_lens_of ds))))"
    by (simp add: dl_iter_def dl_from_entries_by_field mset_concat comp_def case_prod_unfold)
  also have "\<dots> = (\<Sum>(x, ds) \<leftarrow> by_field es. mset (map (\<lambda>(d, len). ((d, x), len)) (field_docs x es)))"
  proof (intro arg_cong [where f = sum_list] map_cong refl)
    fix e
    assume e: "e \<in> set (by_field es)"
    obtain x ds where xd: "e = (x, ds)" by (cases e)
    from docs [of x ds] e field_docs_fit(2) [OF assms, of x]
    show "(case e of (x, ds) \<Rightarrow> mset (map (\<lambda>(d, len). ((d, x), len)) (lens_iter (field_lens_of ds)))) =
        (case e of (x, ds) \<Rightarrow> mset (map (\<lambda>(d, len). ((d, x), len)) (field_docs x es)))"
      by (simp add: xd)
  qed
  also have "\<dots> = mset (concat (map (\<lambda>x. map (\<lambda>(d, len). ((d, x), len)) (field_docs x es)) (map fst (by_field es))))"
    by (simp add: mset_concat comp_def case_prod_unfold)
  also have "\<dots> = mset es"
  proof (rule mset_split_fields)
    show "distinct (map fst (by_field es))" using ok by (rule omap_distinct)
    have "x \<in> set (map fst (by_field es))" if "((d, x), len) \<in> set es" for d x len
    proof -
      have "field_docs x es \<noteq> []" using that by (force simp: field_docs_def filter_empty_conv)
      then have "omap_get (by_field es) x \<noteq> None" using by_field_get [of es x] by simp
      then show ?thesis by (auto simp: map_of_eq_None_iff)
    qed
    then show "\<forall>((d, x), len) \<in> set es. x \<in> set (map fst (by_field es))" by auto
  qed
  finally show ?thesis .
qed

section \<open>What the term writer leaves behind\<close>

definition meta_for :: "nat \<Rightarrow> posting_list \<Rightarrow> term_meta" where
  "meta_for pos l = \<lparr>postings_offset = word_of_nat pos, postings_len = word_of_nat (length (encode_posting_list l)),
     meta_doc_freq = word_of_nat (pl_len l), meta_max_weight = max_weight l\<rparr>"

fun term_metas :: "nat \<Rightarrow> dictionary \<Rightarrow> (u32 \<times> string \<times> term_meta) list" where
  "term_metas pos [] = []"
| "term_metas pos ((k, l) # ts) =
     (key_xpath k, key_term k, meta_for pos l) # term_metas (pos + length (encode_posting_list l)) ts"

definition encoded :: "dictionary \<Rightarrow> u8 list" where
  "encoded ts = concat (map (\<lambda>(_, l). encode_posting_list l) ts)"

definition entries_of :: "u32 \<Rightarrow> (u32 \<times> string \<times> term_meta) list \<Rightarrow> (string \<times> term_meta) list" where
  "entries_of x ms = map snd (filter (\<lambda>(y, _). y = x) ms)"

definition the_dict :: "fst_ops \<Rightarrow> (string \<times> term_meta) list \<Rightarrow> term_dict" where
  "the_dict F ts = (case td_build F ts of Inl _ \<Rightarrow> td_empty | Inr d \<Rightarrow> d)"

definition field_xpaths :: "dictionary \<Rightarrow> u32 list" where
  "field_xpaths ts = sort_dedup (map (\<lambda>(k, _). key_xpath k) ts)"

definition dict_fields :: "fst_ops \<Rightarrow> nat \<Rightarrow> dictionary \<Rightarrow> (u32 \<times> term_dict) list" where
  "dict_fields F pos ts = map (\<lambda>x. (x, the_dict F (entries_of x (term_metas pos ts)))) (field_xpaths ts)"

lemma encoded_simps [simp]:
  "encoded [] = []" "encoded (e # ts) = encode_posting_list (snd e) @ encoded ts" "encoded (ts @ us) = encoded ts @ encoded us"
  by (simp_all add: encoded_def case_prod_unfold)

lemma term_metas_append:
  "term_metas pos (ts @ us) = term_metas pos ts @ term_metas (pos + length (encoded ts)) us"
  by (induction pos ts rule: term_metas.induct) (simp_all add: add.assoc)

lemma term_metas_xpaths: "map fst (term_metas pos ts) = map (\<lambda>(k, _). key_xpath k) ts"
  by (induction pos ts rule: term_metas.induct) simp_all

lemma length_term_metas [simp]: "length (term_metas pos ts) = length ts"
  by (induction pos ts rule: term_metas.induct) simp_all

lemma entries_of_append [simp]: "entries_of x (ms @ ms') = entries_of x ms @ entries_of x ms'"
  by (simp add: entries_of_def)

lemma entries_of_terms:
  "map fst (entries_of x (term_metas pos ts)) = map (\<lambda>(k, _). key_term k) (filter (\<lambda>(k, _). key_xpath k = x) ts)"
  by (induction pos ts rule: term_metas.induct) (simp_all add: entries_of_def)

lemma entries_of_ascending:
  assumes "omap_ok ts"
  shows "ascending (map fst (entries_of x (term_metas pos ts)))"
  unfolding entries_of_terms using assms
proof (induction ts)
  case (Cons e ts)
  obtain k l where e: "e = (k, l)" by (cases e)
  have "key_term k < key_term k'" if "(k', l') \<in> set ts" "key_xpath k = x" "key_xpath k' = x" for k' l'
    using that Cons.prems by (cases k; cases k') (force simp: e omap_ok_Cons)
  with Cons show ?case by (auto simp: e omap_ok_Cons)
qed simp

lemma length_entries_of: "length (entries_of x (term_metas pos ts)) \<le> length ts"
  unfolding entries_of_def using length_filter_le [of "\<lambda>(y, _). y = x" "term_metas pos ts"] by simp

lemma the_dict_ok:
  fixes F :: fst_ops and x :: u32 and pos :: nat and ts :: dictionary
  assumes law: "fst_lawful F" and ok: "omap_ok ts" and len: "length ts < 2 ^ 32"
  defines "es \<equiv> entries_of x (term_metas pos ts)"
  shows "td_build F es = Inr (the_dict F es)" "td_metas (the_dict F es) = map snd es"
    "td_from_parts F (td_fst_bytes (the_dict F es)) (map snd es) = Inr (the_dict F es)"
    "td_entries F (the_dict F es) = es" "td_ok F (the_dict F es)"
proof -
  have "length es < 2 ^ 64" using length_entries_of [of x pos ts] len by (simp add: es_def)
  then obtain d bs where "td_build F es = Inr d \<and> td_fst_bytes d = bs \<and> td_metas d = map snd es
    \<and> td_from_parts F bs (map snd es) = Inr d \<and> td_entries F d = es \<and> td_ok F d"
    using td_from_parts_entries [OF law entries_of_ascending [OF ok], of x pos] es_def by blast
  then show "td_build F es = Inr (the_dict F es)" "td_metas (the_dict F es) = map snd es"
    "td_from_parts F (td_fst_bytes (the_dict F es)) (map snd es) = Inr (the_dict F es)"
    "td_entries F (the_dict F es) = es" "td_ok F (the_dict F es)"
    by (auto simp: the_dict_def)
qed

definition writer_after :: "fst_ops \<Rightarrow> nat \<Rightarrow> dictionary \<Rightarrow> field_writer" where
  "writer_after F pos ts =
     (let ms = term_metas pos ts
      in \<lparr>fw_fields = map (\<lambda>x. (x, the_dict F (entries_of x ms))) (butlast (field_xpaths ts)),
          fw_current = (if ts = [] then None else Some (key_xpath (fst (last ts)))),
          fw_entries = (if ts = [] then [] else entries_of (key_xpath (fst (last ts))) ms),
          fw_term_count = word_of_nat (length ts)\<rparr>)"

lemma field_xpaths_Nil [simp]: "field_xpaths [] = []"
  by (simp add: field_xpaths_def)

lemma xpaths_le_last:
  assumes "omap_ok (ts @ [(k, l)])" "y \<in> set (map (\<lambda>(k, _). key_xpath k) ts)"
  shows "y \<le> key_xpath k"
proof -
  from assms(2) obtain k' l' where "(k', l') \<in> set ts" "y = key_xpath k'" by auto
  moreover from this assms(1) have "k' < k" by (force simp: omap_ok_def sorted_wrt_append)
  ultimately show ?thesis by (cases k; cases k') auto
qed

lemma field_xpaths_snoc:
  assumes "omap_ok (ts @ [(k, l)])"
  shows "field_xpaths (ts @ [(k, l)]) =
    (if key_xpath k \<in> set (field_xpaths ts) then field_xpaths ts else field_xpaths ts @ [key_xpath k])"
  using sort_dedup_snoc_max [of "map (\<lambda>(k, _). key_xpath k) ts" "key_xpath k"] xpaths_le_last [OF assms]
  by (simp add: field_xpaths_def)

lemma field_xpaths_last:
  assumes "omap_ok ts" "ts \<noteq> []"
  shows "field_xpaths ts = butlast (field_xpaths ts) @ [key_xpath (fst (last ts))]"
proof -
  obtain us k l where ts: "ts = us @ [(k, l)]" using assms(2) by (metis rev_exhaust surj_pair)
  show ?thesis
    using sort_dedup_last [of "map (\<lambda>(k, _). key_xpath k) ts" "key_xpath k"] xpaths_le_last [of us k l] assms(1)
    by (auto simp: field_xpaths_def ts)
qed

lemma omap_ok_appendD: "omap_ok (ts @ us) \<Longrightarrow> omap_ok ts"
  by (simp add: omap_ok_def sorted_wrt_append)

lemma fw_push_after:
  assumes law: "fst_lawful F" and ok: "omap_ok (ts @ [(k, l)])" and len: "length ts < 2 ^ 32"
  shows "fw_push F (k, l) (writer_after F (length out) ts, out @ encoded ts) =
    Inr (writer_after F (length out) (ts @ [(k, l)]), out @ encoded (ts @ [(k, l)]))"
proof -
  let ?ms = "term_metas (length out) ts" and ?x = "key_xpath k" and ?w = "writer_after F (length out) ts"
  let ?m = "(?x, key_term k, meta_for (length out + length (encoded ts)) l)"
  have okt: "omap_ok ts" using ok by (rule omap_ok_appendD)
  have dist: "distinct (field_xpaths ts)" by (simp add: field_xpaths_def ascending_distinct)
  have other: "entries_of y (?ms @ [?m]) = entries_of y ?ms" if "y \<noteq> ?x" for y
    using that by (simp add: entries_of_def)
  have snoc: "field_xpaths (ts @ [(k, l)]) = (if ?x \<in> set (field_xpaths ts) then field_xpaths ts else field_xpaths ts @ [?x])"
    by (rule field_xpaths_snoc [OF ok])
  have mem: "?x \<in> set (field_xpaths ts) \<longleftrightarrow> ts \<noteq> [] \<and> key_xpath (fst (last ts)) = ?x"
  proof (cases "ts = []")
    case False
    have "?x \<notin> set (butlast (field_xpaths ts))" if "key_xpath (fst (last ts)) \<noteq> ?x"
    proof
      assume a: "?x \<in> set (butlast (field_xpaths ts))"
      have "ascending (butlast (field_xpaths ts) @ [key_xpath (fst (last ts))])"
        using field_xpaths_last [OF okt False] by (metis ascending_sort_dedup field_xpaths_def)
      with a have "?x < key_xpath (fst (last ts))" by (auto simp: sorted_wrt_append)
      moreover have "key_xpath (fst (last ts)) \<le> ?x"
        using xpaths_le_last [OF ok, of "key_xpath (fst (last ts))"] False by (force simp: case_prod_unfold)
      ultimately show False by simp
    qed
    then show ?thesis
      by (subst field_xpaths_last [OF okt False]) (use False in auto)
  qed (simp add: field_xpaths_def sort_dedup_def)
  have upd: "map (\<lambda>y. (y, the_dict F (entries_of y (?ms @ [?m])))) xs = map (\<lambda>y. (y, the_dict F (entries_of y ?ms))) xs"
    if "?x \<notin> set xs" for xs
    using that other by (induction xs) auto
  show ?thesis
  proof (cases "ts = [] \<or> key_xpath (fst (last ts)) = ?x")
    case True
    have but: "butlast (field_xpaths (ts @ [(k, l)])) = butlast (field_xpaths ts)"
      using True mem snoc by auto
    have notin: "?x \<notin> set (butlast (field_xpaths ts))"
    proof (cases "ts = []")
      case False
      with True have "field_xpaths ts = butlast (field_xpaths ts) @ [?x]" using field_xpaths_last [OF okt False] by simp
      with dist have "distinct (butlast (field_xpaths ts) @ [?x])" by simp
      then show ?thesis by simp
    qed simp
    from True notin show ?thesis
      by (auto simp: fw_push_def writer_after_def Let_def close_field_def term_metas_append upd [OF notin] but meta_for_def
          entries_of_def)
  next
    case False
    have notin: "?x \<notin> set (field_xpaths ts)" using False mem by simp
    have "?x \<notin> set (map fst ?ms)" using notin by (simp add: term_metas_xpaths field_xpaths_def)
    then have none: "entries_of ?x ?ms = []" by (force simp: entries_of_def filter_empty_conv)
    have ne: "ts \<noteq> []" using False by simp
    let ?y = "key_xpath (fst (last ts))"
    have build: "td_build F (entries_of ?y ?ms) = Inr (the_dict F (entries_of ?y ?ms))"
      by (rule the_dict_ok(1) [OF law okt len])
    have "map (\<lambda>y. (y, the_dict F (entries_of y ?ms))) (field_xpaths ts) =
        map (\<lambda>y. (y, the_dict F (entries_of y ?ms))) (butlast (field_xpaths ts)) @ [(?y, the_dict F (entries_of ?y ?ms))]"
      by (subst field_xpaths_last [OF okt ne]) simp
    then have fields: "map (\<lambda>y. (y, the_dict F (entries_of y (?ms @ [?m])))) (butlast (field_xpaths (ts @ [(k, l)]))) =
        map (\<lambda>y. (y, the_dict F (entries_of y ?ms))) (butlast (field_xpaths ts)) @ [(?y, the_dict F (entries_of ?y ?ms))]"
      using snoc notin upd [OF notin] by simp
    have after: "writer_after F (length out) (ts @ [(k, l)]) =
        \<lparr>fw_fields = map (\<lambda>y. (y, the_dict F (entries_of y ?ms))) (butlast (field_xpaths ts)) @ [(?y, the_dict F (entries_of ?y ?ms))],
         fw_current = Some ?x, fw_entries = [snd ?m], fw_term_count = word_of_nat (length ts) + 1\<rparr>"
      unfolding writer_after_def Let_def term_metas_append term_metas.simps fields by (simp add: none) (simp add: entries_of_def)
    from False ne show ?thesis
      unfolding after by (simp add: fw_push_def writer_after_def Let_def close_field_def build meta_for_def)
  qed
qed


lemma write_terms_after:
  assumes law: "fst_lawful F" and "omap_ok ts" and "length ts < 2 ^ 32"
  shows "write_terms F ts out = Inr (writer_after F (length out) ts, out @ encoded ts)"
  using assms(2,3)
proof (induction ts rule: rev_induct)
  case Nil
  show ?case by (simp add: write_terms_def writer_after_def fw_new_def)
next
  case (snoc e ts)
  obtain k l where e: "e = (k, l)" by (cases e)
  have "write_terms F ts out = Inr (writer_after F (length out) ts, out @ encoded ts)"
    using snoc.prems by (intro snoc.IH) (auto dest: omap_ok_appendD)
  with fw_push_after [OF law snoc.prems(1) [unfolded e]] snoc.prems(2) show ?case
    by (simp add: write_terms_def e)
qed

lemma fw_finish_after:
  assumes "fst_lawful F" and "omap_ok ts" and "length ts < 2 ^ 32"
  shows "fw_finish F (writer_after F pos ts) = Inr (dict_fields F pos ts, word_of_nat (length ts))"
proof (cases "ts = []")
  case False
  show ?thesis
    unfolding dict_fields_def using False the_dict_ok(1) [OF assms]
    by (subst field_xpaths_last [OF assms(2) False]) (simp add: fw_finish_def close_field_def writer_after_def Let_def)
qed (simp add: fw_finish_def close_field_def writer_after_def dict_fields_def)

lemma omap_ok_dict_fields: "omap_ok (dict_fields F pos ts)"
  by (simp add: omap_ok_def dict_fields_def field_xpaths_def comp_def)

lemma count_by_field:
  assumes "distinct xs" and "fst ` set ms \<subseteq> set xs"
  shows "sum_list (map (\<lambda>x. length (entries_of x ms)) xs) = length ms"
  using assms(2)
proof (induction ms)
  case (Cons m ms)
  have "sum_list (map (\<lambda>x. length (entries_of x (m # ms))) zs) =
      (if fst m \<in> set zs then 1 else 0) + sum_list (map (\<lambda>x. length (entries_of x ms)) zs)" if "distinct zs" for zs
    using that by (induction zs) (auto simp: entries_of_def)
  with Cons assms(1) show ?case by auto
qed (simp add: entries_of_def)

lemma dict_fields_count:
  assumes "fst_lawful F" and "omap_ok ts" and "length ts < 2 ^ 32"
  shows "tds_term_count (dict_fields F pos ts) = length ts"
proof -
  have "td_len (the_dict F (entries_of x (term_metas pos ts))) = length (entries_of x (term_metas pos ts))" for x
    using the_dict_ok(2) [OF assms, of x pos] by (simp add: td_len_def)
  then have "tds_term_count (dict_fields F pos ts) = sum_list (map (\<lambda>x. length (entries_of x (term_metas pos ts))) (field_xpaths ts))"
    by (simp add: tds_term_count_def dict_fields_def comp_def)
  also have "\<dots> = length ts"
  proof (subst count_by_field)
    have "set (map fst (term_metas pos ts)) = set (field_xpaths ts)"
      unfolding term_metas_xpaths by (simp add: field_xpaths_def)
    then show "fst ` set (term_metas pos ts) \<subseteq> set (field_xpaths ts)" by simp
  qed (simp_all add: field_xpaths_def ascending_distinct)
  finally show ?thesis .
qed

section \<open>The opened segment as a term reader\<close>

text \<open>An entry whose bytes decode, to as many postings as it announces.\<close>

definition readable :: "disk_segment \<Rightarrow> term_meta \<Rightarrow> bool" where
  "readable ds m \<longleftrightarrow>
     (let l = read_postings ds m
      in pl_ok l \<and> pl_len l < 2 ^ 32 \<and> meta_doc_freq m = word_of_nat (pl_len l)
         \<and> (\<forall>out. read_postings_into ds m out = out @ items l))"

definition disk_ok :: "fst_ops \<Rightarrow> disk_segment \<Rightarrow> bool" where
  "disk_ok F ds \<longleftrightarrow> omap_ok (ds_dictionary ds)
     \<and> (\<forall>(x, d) \<in> set (ds_dictionary ds). td_ok F d \<and> (\<forall>(t, m) \<in> set (td_entries F d). readable ds m))"

text \<open>A two-level dictionary flattened: the terms of each field, fields in order.\<close>

definition flatten :: "fst_ops \<Rightarrow> (term_meta \<Rightarrow> posting_list) \<Rightarrow> term_dictionary \<Rightarrow> dictionary" where
  "flatten F r dict = concat (map (\<lambda>(x, d). map (\<lambda>(t, m). (TermKey x t, r m)) (td_entries F d)) dict)"

lemma iter_terms_flatten: "iter_terms F ds = flatten F (read_postings ds) (ds_dictionary ds)"
  by (simp add: iter_terms_def flatten_def)

lemma flatten_simps [simp]:
  "flatten F r [] = []"
  "flatten F r ((x, d) # dict) = map (\<lambda>(t, m). (TermKey x t, r m)) (td_entries F d) @ flatten F r dict"
  by (simp_all add: flatten_def)

lemma flatten_xpath: "(k, l) \<in> set (flatten F r dict) \<Longrightarrow> key_xpath k \<in> fst ` set dict"
  by (force simp: flatten_def)

lemma omap_ok_flatten:
  "omap_ok dict \<Longrightarrow> (\<And>x d. (x, d) \<in> set dict \<Longrightarrow> td_ok F d) \<Longrightarrow> omap_ok (flatten F r dict)"
proof (induction dict)
  case (Cons e dict)
  obtain x d where e: "e = (x, d)" by (cases e)
  have "ascending (map fst (td_entries F d))" using Cons.prems(2) [of x d] by (simp add: e td_ok_def)
  then have first: "ascending (map fst (map (\<lambda>(t, m). (TermKey x t, r m)) (td_entries F d)))"
    by (simp add: sorted_wrt_map comp_def case_prod_unfold)
  have below: "k < k'" if "k \<in> TermKey x ` ts" "k' \<in> fst ` set (flatten F r dict)" for k k' ts
  proof -
    from that(2) flatten_xpath [of k' _ F r dict] have "key_xpath k' \<in> fst ` set dict" by auto
    then have "x < key_xpath k'" using Cons.prems(1) by (auto simp: e omap_ok_Cons)
    with that(1) show ?thesis by (cases k') auto
  qed
  have "omap_ok (flatten F r dict)"
    using Cons by (intro Cons.IH) (auto simp: e omap_ok_Cons)
  with first below [of _ "fst ` set (td_entries F d)"] show ?case
    by (auto simp: e omap_ok_def sorted_wrt_append case_prod_unfold image_iff)
qed (simp add: omap_ok_def)

lemma field_matches_append: "field_matches (a @ b) x P = field_matches a x P @ field_matches b x P"
  by (simp add: field_matches_def)

lemma field_matches_flatten:
  "omap_ok dict \<Longrightarrow> field_matches (flatten F r dict) x P =
     (case omap_get dict x of None \<Rightarrow> []
      | Some d \<Rightarrow> map (\<lambda>(t, m). (t, r m)) (filter (\<lambda>(t, _). P t) (td_entries F d)))"
proof (induction dict)
  case (Cons e dict)
  obtain y d where e: "e = (y, d)" by (cases e)
  have head: "field_matches (map (\<lambda>(t, m). (TermKey y t, r m)) es) x P =
      (if y = x then map (\<lambda>(t, m). (t, r m)) (filter (\<lambda>(t, _). P t) es) else [])" for es
    by (induction es) (auto simp: field_matches_def)
  have "omap_get dict x = None" if "y = x"
    using Cons.prems that by (force simp: e omap_ok_Cons map_of_eq_None_iff)
  with Cons show ?case by (auto simp: e field_matches_append head omap_ok_Cons)
qed (simp add: field_matches_def)

lemma omap_get_flatten:
  assumes ok: "omap_ok dict" and tds: "\<And>x d. (x, d) \<in> set dict \<Longrightarrow> td_ok F d"
  shows "omap_get (flatten F r dict) (TermKey x t) = map_option r (tds_get F dict x t)"
proof -
  have iff: "omap_get (flatten F r dict) (TermKey x t) = Some l \<longleftrightarrow> map_option r (tds_get F dict x t) = Some l" for l
  proof -
    have "omap_get (flatten F r dict) (TermKey x t) = Some l \<longleftrightarrow> (t, l) \<in> set (field_matches (flatten F r dict) x (\<lambda>_. True))"
      using field_matches_iff [OF omap_ok_flatten [OF ok tds], where P = "\<lambda>_. True"] by simp
    also have "\<dots> \<longleftrightarrow> map_option r (tds_get F dict x t) = Some l"
    proof (cases "omap_get dict x")
      case (Some d)
      have td: "td_ok F d" using Some tds by (blast dest: map_of_SomeD)
      have "distinct (map fst (td_entries F d))" using td by (simp add: td_ok_def ascending_distinct)
      then have "(t, m) \<in> set (td_entries F d) \<longleftrightarrow> td_get F d t = Some m" for m
        using td by (simp add: td_ok_def map_of_eq_Some_iff)
      then show ?thesis
        using Some by (force simp: field_matches_flatten [OF ok] tds_get_def tds_field_def image_iff)
    qed (simp add: field_matches_flatten [OF ok] tds_get_def tds_field_def)
    finally show ?thesis .
  qed
  show ?thesis
    using iff by (metis not_None_eq)
qed

lemma disk_ok_entry:
  assumes "disk_ok F ds" and "omap_get (ds_dictionary ds) x = Some d"
  shows "td_ok F d" and "(t, m) \<in> set (td_entries F d) \<Longrightarrow> readable ds m"
  using assms by (auto simp: disk_ok_def dest!: map_of_SomeD)

lemma disk_ok_get:
  assumes "disk_ok F ds" and "tds_get F (ds_dictionary ds) x t = Some m"
  shows "readable ds m"
proof -
  from assms(2) obtain d where d: "omap_get (ds_dictionary ds) x = Some d" "td_get F d t = Some m"
    by (auto simp: tds_get_def tds_field_def Option.bind_eq_Some_conv)
  with disk_ok_entry(1) [OF assms(1) d(1)] have "(t, m) \<in> set (td_entries F d)"
    by (auto simp: td_ok_def dest: map_of_SomeD)
  with disk_ok_entry(2) [OF assms(1) d(1)] show ?thesis .
qed

lemma read_best_capped_union:
  assumes "\<And>t m. (t, m) \<in> set ms \<Longrightarrow> readable ds m"
  shows "read_best ds ms = capped_union (map (\<lambda>(t, m). (t, read_postings ds m)) ms)"
proof -
  let ?f = "\<lambda>(t, m). (t, read_postings ds m)"
  have key: "(case e of (t, m) \<Rightarrow> (- uint (meta_doc_freq m), t)) = (case ?f e of (t, l) \<Rightarrow> (- int (pl_len l), t))"
    if "e \<in> set ms" for e
  proof -
    obtain t m where e: "e = (t, m)" by (cases e)
    from that assms [of t m] have "uint (meta_doc_freq m) = int (pl_len (read_postings ds m))"
      by (simp add: e readable_def Let_def uint_nat unat_of_nat_u32)
    then show ?thesis by (simp add: e)
  qed
  have sorted: "sort_key (\<lambda>(t, l). (- int (pl_len l), t)) (map ?f ms)
      = map ?f (sort_key (\<lambda>(t, m). (- uint (meta_doc_freq m), t)) ms)"
    unfolding sort_key_map comp_def by (rule arg_cong [where f = "map ?f"], rule sort_key_cong) (simp only: key)
  have into: "fold (\<lambda>(_, m). read_postings_into ds m) es out = out @ concat (map (\<lambda>(_, m). items (read_postings ds m)) es)"
    if "set es \<subseteq> set ms" for es out
    using that assms by (induction es arbitrary: out) (force simp: readable_def Let_def)+
  have "set (take MAX_PATTERN_TERMS (sort_key (\<lambda>(t, m). (- uint (meta_doc_freq m), t)) ms)) \<subseteq> set ms"
    by (metis set_sort set_take_subset)
  note into [OF this, of "[]"]
  then show ?thesis
    unfolding read_best_def capped_union_def Let_def sorted take_map by (simp add: comp_def case_prod_unfold)
qed


interpretation disk_reader: term_reader "iter_terms F" "ds_lookup F" "ds_doc_freq F" "ds_lookup_prefix F" "ds_lookup_wildcard F" "disk_ok F"
  for F
proof
  fix ds t x p pat
  assume ok: "disk_ok F ds"
  have dict: "omap_ok (ds_dictionary ds)" and tds: "\<And>x d. (x, d) \<in> set (ds_dictionary ds) \<Longrightarrow> td_ok F d"
    using ok by (auto simp: disk_ok_def)
  have "pl_ok l" if "(k, l) \<in> set (iter_terms F ds)" for k l
    using that ok by (force simp: iter_terms_def disk_ok_def readable_def Let_def)
  then show "dictionary_ok (iter_terms F ds)"
    using omap_ok_flatten [OF dict tds] by (auto simp: dictionary_ok_def iter_terms_flatten)
  have get: "omap_get (iter_terms F ds) (TermKey x t) = map_option (read_postings ds) (tds_get F (ds_dictionary ds) x t)"
    unfolding iter_terms_flatten by (rule omap_get_flatten [OF dict tds])
  then show "ds_lookup F ds t x = (case omap_get (iter_terms F ds) (TermKey x t) of None \<Rightarrow> pl_new | Some l \<Rightarrow> l)"
    by (simp add: ds_lookup_def split: option.split)
  show "ds_doc_freq F ds t x = word_of_nat (pl_len (ds_lookup F ds t x))"
    using disk_ok_get [OF ok, of x t]
    by (auto simp: ds_doc_freq_def ds_lookup_def readable_def Let_def pl_len_def pl_new_def split: option.split)
  have best: "read_best ds (filter (\<lambda>(t, _). P t) (td_entries F d)) = capped_union (field_matches (iter_terms F ds) x P)"
    if "omap_get (ds_dictionary ds) x = Some d" for P d
    using that disk_ok_entry [OF ok that]
    by (subst read_best_capped_union) (auto simp: iter_terms_flatten field_matches_flatten [OF dict])
  have none: "pl_new = capped_union (field_matches (iter_terms F ds) x P)" if "omap_get (ds_dictionary ds) x = None" for P
    using that by (simp add: iter_terms_flatten field_matches_flatten [OF dict] capped_union_def pl_new_def from_items_def from_sorted_def largest_weight_def)
  show pre: "ds_lookup_prefix F ds p x = capped_union (field_matches (iter_terms F ds) x (prefix p))" for p
    using none best disk_ok_entry(1) [OF ok, of x]
    by (auto simp: ds_lookup_prefix_def tds_field_def td_ok_def split: option.split)
  show "ds_lookup_wildcard F ds pat x = capped_union (field_matches (iter_terms F ds) x (wildcard_matches pat))"
  proof (cases "is_prefix_only pat")
    case True
    then have "wildcard_matches pat = prefix (wildcard_prefix pat)"
      using wildcard_prefix_iff by blast
    with True show ?thesis by (simp add: ds_lookup_wildcard_def pre)
  next
    case False
    have "filter (\<lambda>(t, _). wildcard_matches pat t) (filter (\<lambda>(t, _). prefix (wildcard_prefix pat) t) es)
      = filter (\<lambda>(t, _). wildcard_matches pat t) es" for es :: "(string \<times> term_meta) list"
      using wildcard_prefix_lower by (force simp: filter_filter intro: filter_cong)
    with False none best disk_ok_entry(1) [OF ok, of x] show ?thesis
      by (auto simp: ds_lookup_wildcard_def tds_field_def td_ok_def split: option.split)
  qed
qed

interpretation seg_disk: reader_pair seg_terms seg_lookup_or_empty seg_doc_freq seg_lookup_prefix seg_lookup_wildcard seg_ok
    "iter_terms F" "ds_lookup F" "ds_doc_freq F" "ds_lookup_prefix F" "ds_lookup_wildcard F" "disk_ok F"
  for F
  by unfold_locales

section \<open>A written file opened again\<close>

lemma read_postings_at:
  assumes "ds_bytes ds = pre @ encode_posting_list l @ post" and "length (ds_bytes ds) < 2 ^ 64"
    and "length (encode_posting_list l) < 2 ^ 32" and "postings_fit (items l)"
  shows "read_postings ds (meta_for (length pre) l) = l"
    and "read_postings_into ds (meta_for (length pre) l) out = out @ items l"
proof -
  have "unat (postings_offset (meta_for (length pre) l)) = length pre"
    "unat (postings_len (meta_for (length pre) l)) = length (encode_posting_list l)"
    using assms by (simp_all add: meta_for_def unat_of_nat_u64 unat_of_nat_u32)
  with assms show "read_postings ds (meta_for (length pre) l) = l"
    "read_postings_into ds (meta_for (length pre) l) out = out @ items l"
    by (simp_all add: read_postings_def read_postings_into_def Let_def)
      (simp_all add: meta_for_def read_posting_list_encode read_posting_list_into_encode)
qed

definition terms_fit :: "dictionary \<Rightarrow> bool" where
  "terms_fit ts \<longleftrightarrow> dictionary_ok ts \<and> length ts < 2 ^ 32
     \<and> (\<forall>(k, l) \<in> set ts. postings_fit (items l) \<and> length (encode_posting_list l) < 2 ^ 32)"

lemma term_metas_read:
  assumes "ds_bytes ds = pre @ encoded ts @ post" and "length (ds_bytes ds) < 2 ^ 64"
    and "\<forall>(k, l) \<in> set ts. pl_ok l \<and> postings_fit (items l) \<and> length (encode_posting_list l) < 2 ^ 32"
  shows "map (\<lambda>(x, t, m). (TermKey x t, read_postings ds m)) (term_metas (length pre) ts) = ts"
    and "(x, t, m) \<in> set (term_metas (length pre) ts) \<Longrightarrow> readable ds m"
proof -
  have "map (\<lambda>(x, t, m). (TermKey x t, read_postings ds m)) (term_metas (length pre) ts) = ts
    \<and> (\<forall>(x, t, m) \<in> set (term_metas (length pre) ts). readable ds m)"
    using assms
  proof (induction ts arbitrary: pre)
    case (Cons e ts)
    obtain k l where e: "e = (k, l)" by (cases e)
    have bytes: "ds_bytes ds = pre @ encode_posting_list l @ encoded ts @ post" using Cons.prems(1) by (simp add: e)
    note at = read_postings_at [OF bytes Cons.prems(2)]
    have "readable ds (meta_for (length pre) l)"
      using at Cons.prems(3) by (simp add: e readable_def Let_def postings_fit_def pl_len_def) (simp add: meta_for_def pl_len_def)
    moreover have "map (\<lambda>(x, t, m). (TermKey x t, read_postings ds m)) (term_metas (length (pre @ encode_posting_list l)) ts) = ts
      \<and> (\<forall>(x, t, m) \<in> set (term_metas (length (pre @ encode_posting_list l)) ts). readable ds m)"
      using Cons.prems bytes by (intro Cons.IH) (simp_all add: e)
    ultimately show ?case
      using at(1) Cons.prems(3) by (cases k) (simp add: e)
  qed simp
  then show "map (\<lambda>(x, t, m). (TermKey x t, read_postings ds m)) (term_metas (length pre) ts) = ts"
    and "(x, t, m) \<in> set (term_metas (length pre) ts) \<Longrightarrow> readable ds m" by blast+
qed

text \<open>The dictionary the writer builds, over the bytes it wrote, is the list of terms.\<close>

lemma written_terms:
  assumes law: "fst_lawful F" and fit: "terms_fit ts" and bytes: "ds_bytes ds = pre @ encoded ts @ post"
    and small: "length (ds_bytes ds) < 2 ^ 64" and dict: "ds_dictionary ds = dict_fields F (length pre) ts"
  shows "disk_ok F ds" and "iter_terms F ds = ts"
proof -
  let ?ms = "term_metas (length pre) ts"
  have ok: "omap_ok ts" and len: "length ts < 2 ^ 32" using fit by (simp_all add: terms_fit_def dictionary_ok_def)
  have fits: "\<forall>(k, l) \<in> set ts. pl_ok l \<and> postings_fit (items l) \<and> length (encode_posting_list l) < 2 ^ 32"
    using fit by (auto simp: terms_fit_def dictionary_ok_def)
  note td = the_dict_ok [OF law ok len] and read = term_metas_read [OF bytes small fits]
  have "readable ds m" if "(t, m) \<in> set (entries_of x ?ms)" for x t m
    using that read(2) by (auto simp: entries_of_def)
  then show "disk_ok F ds"
    using td(4,5) omap_ok_dict_fields [of F "length pre" ts] by (auto simp: disk_ok_def dict dict_fields_def)
  have xs: "field_xpaths ts = sort_dedup (map fst ?ms)" by (simp only: field_xpaths_def term_metas_xpaths)
  have "sorted (map fst ?ms)"
    using ok unfolding term_metas_xpaths omap_ok_def sorted_wrt_map comp_def
    by (rule sorted_wrt_mono_rel [rotated]) (auto simp: less_term_key_def)
  note group = concat_groups [OF this]
  have "iter_terms F ds = concat (map (\<lambda>x. map (\<lambda>(t, m). (TermKey x t, read_postings ds m)) (entries_of x ?ms)) (field_xpaths ts))"
    by (simp add: iter_terms_def dict dict_fields_def comp_def td(4))
  also have "\<dots> = concat (map (\<lambda>x. map (\<lambda>(x, t, m). (TermKey x t, read_postings ds m)) (filter (\<lambda>m. fst m = x) ?ms)) (field_xpaths ts))"
    by (intro arg_cong [where f = concat] map_cong refl) (auto simp: entries_of_def case_prod_unfold)
  also have "\<dots> = map (\<lambda>(x, t, m). (TermKey x t, read_postings ds m)) (concat (map (\<lambda>x. filter (\<lambda>m. fst m = x) ?ms) (field_xpaths ts)))"
    by (simp add: map_concat comp_def)
  also have "\<dots> = ts" unfolding xs group by (rule read(1))
  finally show "iter_terms F ds = ts" .
qed

text \<open>Counts that fit the format's fields.\<close>

definition sections_fit :: "dictionary \<Rightarrow> doc_lengths_map \<Rightarrow> numeric_fields \<Rightarrow> array_row_index \<Rightarrow> bool_fields_map \<Rightarrow> bool" where
  "sections_fit ts dl nfs rows bools \<longleftrightarrow> terms_fit ts \<and> lengths_fit dl
     \<and> omap_ok nfs \<and> length nfs < 2 ^ 32 \<and> (\<forall>e \<in> set nfs. numeric_field_fits e)
     \<and> omap_ok bools \<and> length bools < 2 ^ 32
     \<and> length (parent_row rows) = length (row_to_doc rows) \<and> length (row_to_doc rows) < 2 ^ 32"

definition opened :: "fst_ops \<Rightarrow> u8 list \<Rightarrow> dictionary \<Rightarrow> doc_lengths_map \<Rightarrow> numeric_fields \<Rightarrow> array_row_index \<Rightarrow>
    bool_fields_map \<Rightarrow> (u64 \<times> u64) option \<Rightarrow> disk_segment" where
  "opened F bs ts dl nfs rows bools rng =
     \<lparr>ds_bytes = bs, ds_dictionary = dict_fields F (length write_header) ts, ds_doc_lengths = dl_from_entries dl,
      ds_field_stats = build_field_stats dl, ds_numeric_fields = nfs, ds_bool_fields = bools,
      ds_doc_id_range = (if ts = [] \<and> nfs = [] then None else Some (case rng of None \<Rightarrow> (0, 0) | Some r \<Rightarrow> r)),
      ds_array_rows = rows\<rparr>"

lemma length_write_header [simp]: "length write_header = HEADER_LEN"
  by (simp add: write_header_def header_current_def MAGIC_def HEADER_LEN_def)

lemma validate_written_header: "length rest \<ge> FOOTER_LEN \<Longrightarrow> validate_header (write_header @ rest) = Inr ()"
  by (simp add: validate_header_def HEADER_LEN_def read_u32_at_def write_header_def header_current_def MAGIC_def write_u32_def)

lemma dict_field_bytes_small:
  assumes "e \<in> set ds" and "length (write_dictionary ds) < 2 ^ 64"
  shows "length (td_fst_bytes (snd e)) < 2 ^ 64"
proof -
  have "length (td_fst_bytes (snd e)) \<le> length (write_dict_field e)" by (simp add: write_dict_field_def case_prod_unfold)
  also have "\<dots> \<le> length (write_dictionary ds)"
    using length_member_concat [OF assms(1), of write_dict_field] by (simp add: write_dictionary_def)
  finally show ?thesis using assms(2) by linarith
qed

lemma bool_fields_small:
  assumes "e \<in> set fs" and "length (write_bool_fields R fs) < 2 ^ 64"
  shows "bool_field_fits R e"
proof -
  have "length (write_bool_field R e) \<le> length (write_bool_fields R fs)"
    using length_member_concat [OF assms(1), of "write_bool_field R"] by (simp add: write_bool_fields_def)
  with assms(2) show ?thesis by (cases e) (simp add: bool_field_fits_def write_bool_field_def write_blob_def)
qed

lemma dict_fields_read:
  assumes law: "fst_lawful F" and ok: "omap_ok ts" and len: "length ts < 2 ^ 32"
    and small: "length (write_dictionary (dict_fields F pos ts)) < 2 ^ 64"
  defines "n \<equiv> word_of_nat (length ts)"
  shows "reads (dictionary_section F (length (write_dictionary (dict_fields F pos ts))) n)
    (write_dictionary (dict_fields F pos ts)) (dict_fields F pos ts)"
proof (rule reads_dictionary_section)
  fix e
  assume e: "e \<in> set (dict_fields F pos ts)"
  then obtain x where x: "e = (x, the_dict F (entries_of x (term_metas pos ts)))" by (auto simp: dict_fields_def)
  show "dict_field_fits F e"
    using the_dict_ok [OF law ok len, of x pos] length_entries_of [of x pos ts] len dict_field_bytes_small [OF e small]
    by (simp add: x dict_field_fits_def td_len_def)
next
  have "length (sort_dedup xs) \<le> length xs" for xs :: "u32 list"
    by (metis remdups_adj_length length_sort sort_dedup_def)
  then have "length (field_xpaths ts) \<le> length ts" by (metis field_xpaths_def length_map)
  with len show "length (dict_fields F pos ts) < 2 ^ 32" by (simp add: dict_fields_def)
  show "unat n = tds_term_count (dict_fields F pos ts)"
    using len by (simp add: n_def dict_fields_count [OF law ok len] unat_of_nat_u32)
qed (rule omap_ok_dict_fields)


lemma validate_written_footer:
  assumes "length bs < 2 ^ 64" and "\<forall>(off, len) \<in> {(ft_dictionary_offset f, ft_dictionary_len f),
      (ft_numeric_fields_offset f, ft_numeric_fields_len f), (ft_bool_fields_offset f, ft_bool_fields_len f),
      (ft_array_row_index_offset f, ft_array_row_index_len f)}.
      HEADER_LEN \<le> unat off \<and> unat off + unat len \<le> length bs - FOOTER_LEN"
    and "ft_term_count f = 0 \<Longrightarrow> ft_dictionary_len f = 4"
  shows "validate_footer bs f = Inr ()"
  using assms by (auto simp: validate_footer_def checked_end_def guard_def)

lemma disk_open_written:
  assumes F: "fst_lawful F" and R: "roaring_lawful R" and fit: "sections_fit ts dl nfs rows bools"
  shows "\<exists>rest. write_sections F R ts dl nfs rows bools rng = Inr (write_header @ encoded ts @ rest)
    \<and> (length (write_header @ encoded ts @ rest) < 2 ^ 64 \<longrightarrow>
        disk_open F R (write_header @ encoded ts @ rest) = Inr (opened F (write_header @ encoded ts @ rest) ts dl nfs rows bools rng))"
proof -
  let ?ds = "dict_fields F (length write_header) ts"
  define A where "A = write_doc_lengths dl"
  define B where "B = write_dictionary ?ds"
  define C where "C = write_numeric_fields nfs"
  define D where "D = write_array_row_index rows"
  define E where "E = write_bool_fields R bools"
  define p where "p = write_header @ encoded ts"
  define f where "f = \<lparr>ft_doc_lengths_offset = word_of_nat (length p), ft_doc_lengths_len = word_of_nat (length A),
      ft_dictionary_offset = word_of_nat (length (p @ A)), ft_dictionary_len = word_of_nat (length B),
      ft_numeric_fields_offset = word_of_nat (length (p @ A @ B)), ft_numeric_fields_len = word_of_nat (length C),
      ft_array_row_index_offset = word_of_nat (length (p @ A @ B @ C)), ft_array_row_index_len = word_of_nat (length D),
      ft_term_count = word_of_nat (length ts),
      ft_min_doc_id = fst (case rng of None \<Rightarrow> (0, 0) | Some r \<Rightarrow> r), ft_max_doc_id = snd (case rng of None \<Rightarrow> (0, 0) | Some r \<Rightarrow> r),
      ft_bool_fields_offset = word_of_nat (length (p @ A @ B @ C @ D)), ft_bool_fields_len = word_of_nat (length E)\<rparr>"
  define rest where "rest = A @ B @ C @ D @ E @ write_footer f"
  define bs where "bs = write_header @ encoded ts @ rest"
  have bs: "bs = (p @ A @ B @ C @ D @ E) @ write_footer f" by (simp add: bs_def rest_def p_def)
  have ok: "omap_ok ts" and len: "length ts < 2 ^ 32" using fit by (simp_all add: sections_fit_def terms_fit_def dictionary_ok_def)
  have w: "write_sections F R ts dl nfs rows bools rng = Inr bs"
    unfolding write_sections_def write_terms_after [OF F ok len] and_then_simps prod.case fw_finish_after [OF F ok len] Let_def
    by (simp add: bs A_def B_def C_def D_def E_def p_def f_def)
  have op: "disk_open F R bs = Inr (opened F bs ts dl nfs rows bools rng)" if small: "length bs < 2 ^ 64"
  proof -
    have limit: "length bs - FOOTER_LEN = length (p @ A @ B @ C @ D @ E)" by (simp add: bs)
    have foot: "read_footer bs = f" unfolding bs by (rule read_write_footer)
    have hdr: "HEADER_LEN \<le> length p" by (simp add: p_def)
    have zero: "length B = 4" if "word_of_nat (length ts) = (0 :: u32)"
    proof -
      have "length ts = 0" using that unat_of_nat_u32 [OF len] by simp
      then show ?thesis by (simp add: B_def write_dictionary_def dict_fields_def)
    qed
    have offs: "unat (ft_dictionary_offset f) = length (p @ A)" "unat (ft_dictionary_len f) = length B"
        "unat (ft_numeric_fields_offset f) = length (p @ A @ B)" "unat (ft_numeric_fields_len f) = length C"
        "unat (ft_array_row_index_offset f) = length (p @ A @ B @ C)" "unat (ft_array_row_index_len f) = length D"
        "unat (ft_bool_fields_offset f) = length (p @ A @ B @ C @ D)" "unat (ft_bool_fields_len f) = length E"
      unfolding f_def segment_footer.simps using small by (rule_tac [!] unat_of_nat_u64) (simp_all add: bs)
    have footer: "validate_footer bs f = Inr ()"
      by (rule validate_written_footer [OF small], use hdr in \<open>auto simp: offs limit\<close>) (auto simp: f_def dest: zero)
    have header: "validate_header bs = Inr ()" unfolding bs_def by (rule validate_written_header) (simp add: rest_def)
    have secA: "read_doc_lengths bs f = Inr (dl_from_entries dl)"
      using fit run_section_ok [OF reads_doc_length_entries, of dl]
      unfolding read_doc_lengths_def
      by (subst section_bytes_ok [where pre = p and sec = A and post = "B @ C @ D @ E @ write_footer f"])
        (use small in \<open>simp_all add: bs f_def A_def sections_fit_def lengths_fit_def\<close>)
    have secB: "read_term_dictionary F bs f = Inr ?ds"
      unfolding read_term_dictionary_def
      using run_section_ok [OF dict_fields_read [OF F ok len, of "length write_header"]] small
      by (subst section_bytes_ok [where pre = "p @ A" and sec = B and post = "C @ D @ E @ write_footer f"])
        (simp_all add: bs f_def B_def unat_of_nat_u64)
    have secC: "read_numeric_fields bs f = Inr nfs"
      unfolding read_numeric_fields_def
      using run_section_ok [OF reads_numeric_section, of nfs] fit
      by (subst section_bytes_ok [where pre = "p @ A @ B" and sec = C and post = "D @ E @ write_footer f"])
        (use small in \<open>simp_all add: bs f_def C_def sections_fit_def\<close>)
    have secD: "read_array_row_index bs f = Inr rows"
      unfolding read_array_row_index_def
      using run_section_ok [OF reads_array_row_section, of rows] fit
      by (subst section_bytes_ok [where pre = "p @ A @ B @ C" and sec = D and post = "E @ write_footer f"])
        (use small in \<open>simp_all add: bs f_def D_def sections_fit_def\<close>)
    have "length E < 2 ^ 64" using small by (simp add: bs)
    then have "\<And>e. e \<in> set bools \<Longrightarrow> bool_field_fits R e" unfolding E_def by (rule bool_fields_small [rotated])
    then have secE: "read_bool_points R bs f = Inr bools"
      unfolding read_bool_points_def
      using run_section_ok [OF reads_bool_section [OF R], of bools] fit
      by (subst section_bytes_ok [where pre = "p @ A @ B @ C @ D" and sec = E and post = "write_footer f"])
        (use small in \<open>simp_all add: bs f_def E_def sections_fit_def\<close>)
    have "ft_term_count f = 0 \<longleftrightarrow> ts = []"
      using unat_of_nat_u32 [OF len] by (auto simp: f_def)
    moreover have "build_field_stats (dl_iter (dl_from_entries dl)) = build_field_stats dl"
      using fit by (intro build_field_stats_mset dl_iter_from_entries) (simp add: sections_fit_def)
    ultimately show ?thesis
      unfolding disk_open_def header and_then_simps foot Let_def footer secA secB secC secD secE
      by (simp add: opened_def f_def)
  qed
  from w op show ?thesis unfolding bs_def by blast
qed

section \<open>Reopening a written segment\<close>

definition segment_fits :: "immutable_segment \<Rightarrow> bool" where
  "segment_fits s \<longleftrightarrow>
     sections_fit (seg_terms s) (seg_doc_lengths s) (seg_numeric_fields s) (seg_array_rows s) (seg_bool_fields s)
     \<and> seg_field_stats s = build_field_stats (seg_doc_lengths s)"

text \<open>Every query, asked of the file and of the segment it was written from.\<close>

definition answers_like :: "fst_ops \<Rightarrow> disk_segment \<Rightarrow> immutable_segment \<Rightarrow> bool" where
  "answers_like F ds s \<longleftrightarrow>
     (\<forall>t x. ds_lookup F ds t x = seg_lookup_or_empty s t x)
     \<and> (\<forall>t x. ds_doc_freq F ds t x = seg_doc_freq s t x)
     \<and> (\<forall>p x. ds_lookup_prefix F ds p x = seg_lookup_prefix s p x)
     \<and> (\<forall>pat x. ds_lookup_wildcard F ds pat x = seg_lookup_wildcard s pat x)
     \<and> (\<forall>x lo hi. ds_numeric_range ds x lo hi = seg_numeric_range s x lo hi)
     \<and> (\<forall>x d. ds_numeric_value ds x d = seg_numeric_value s x d)
     \<and> (\<forall>x. ds_numeric_bounds ds x = seg_numeric_bounds s x)
     \<and> (\<forall>x d. ds_bool_value ds x d = seg_bool_value s x d)
     \<and> (\<forall>rows. ds_resolve_array_rows ds rows = seg_resolve_array_rows s rows)
     \<and> (\<forall>d x. ds_doc_len ds d x = seg_doc_len s d x)
     \<and> (\<forall>x. ds_doc_count ds x = seg_doc_count s x \<and> ds_total_doc_len ds x = seg_total_doc_len s x)"

lemma opened_answers:
  assumes "disk_ok F ds" and "iter_terms F ds = seg_terms s" and fits: "segment_fits s"
    and ds: "ds = opened F bs (seg_terms s) (seg_doc_lengths s) (seg_numeric_fields s) (seg_array_rows s) (seg_bool_fields s) rng"
  shows "answers_like F ds s"
proof -
  have "seg_ok s" using fits by (simp add: segment_fits_def sections_fit_def terms_fit_def seg_ok_def)
  note same = seg_disk.same_answers [OF this assms(1) assms(2) [symmetric]]
  have "dl_get (dl_from_entries (seg_doc_lengths s)) d x = omap_get (seg_doc_lengths s) (d, x)" for d x
    using fits by (intro dl_get_from_entries) (simp add: segment_fits_def sections_fit_def)
  with same fits show ?thesis
    unfolding answers_like_def
    by (simp add: ds opened_def segment_fits_def ds_numeric_range_def seg_numeric_range_def ds_numeric_value_def seg_numeric_value_def
        ds_numeric_bounds_def seg_numeric_bounds_def ds_bool_value_def seg_bool_value_def ds_resolve_array_rows_def
        seg_resolve_array_rows_def ds_doc_len_def seg_doc_len_def ds_doc_count_def seg_doc_count_def ds_total_doc_len_def
        seg_total_doc_len_def)
qed

text \<open>C10. A segment written with \<open>write_segment_to\<close> and opened with \<open>DiskSegment::open\<close> answers every query
  as the segment in memory does: exact, prefix and wildcard lookups and document frequencies,
  numeric ranges, values and bounds, boolean values, array rows, document lengths and field
  statistics; its terms in order are the segment's.  Writing never fails.  The transducer and bitmap
  libraries are assumed to round trip, and counts to fit the widths of the format.\<close>

theorem write_open_round_trip:
  assumes "fst_lawful F" and "roaring_lawful R" and "segment_fits s"
  shows "\<exists>bs. write_segment_to F R s = Inr bs \<and> (length bs < 2 ^ 64 \<longrightarrow>
    (\<exists>ds. disk_open F R bs = Inr ds \<and> iter_terms F ds = seg_terms s \<and> answers_like F ds s
      \<and> (seg_terms s \<noteq> [] \<longrightarrow> seg_doc_id_range s \<noteq> None \<longrightarrow> ds_doc_id_range ds = seg_doc_id_range s)))"
proof -
  have fit: "sections_fit (seg_terms s) (seg_doc_lengths s) (seg_numeric_fields s) (seg_array_rows s) (seg_bool_fields s)"
    using assms(3) by (simp add: segment_fits_def)
  from disk_open_written [OF assms(1,2) fit, of "seg_doc_id_range s"] obtain rest
    where w: "write_segment_to F R s = Inr (write_header @ encoded (seg_terms s) @ rest)"
      and op: "length (write_header @ encoded (seg_terms s) @ rest) < 2 ^ 64 \<Longrightarrow> disk_open F R (write_header @ encoded (seg_terms s) @ rest) =
        Inr (opened F (write_header @ encoded (seg_terms s) @ rest) (seg_terms s) (seg_doc_lengths s) (seg_numeric_fields s)
          (seg_array_rows s) (seg_bool_fields s) (seg_doc_id_range s))"
    unfolding write_segment_to_def by blast
  let ?bs = "write_header @ encoded (seg_terms s) @ rest"
  let ?ds = "opened F ?bs (seg_terms s) (seg_doc_lengths s) (seg_numeric_fields s) (seg_array_rows s) (seg_bool_fields s) (seg_doc_id_range s)"
  have "terms_fit (seg_terms s)" using fit by (simp add: sections_fit_def)
  then have "disk_ok F ?ds" "iter_terms F ?ds = seg_terms s" if "length ?bs < 2 ^ 64"
    using that by (intro written_terms [OF assms(1), of _ ?ds write_header rest]; simp add: opened_def)+
  moreover from this have "answers_like F ?ds s" if "length ?bs < 2 ^ 64"
    using that by (intro opened_answers [OF _ _ assms(3) refl]) simp_all
  ultimately show ?thesis
    using w op by (intro exI [of _ ?bs]) (auto simp: opened_def)
qed

function plain_u64s :: "u8 list \<Rightarrow> u64 list" where
  "plain_u64s bs = (if length bs < 8 then [] else from_le (take 8 bs) # plain_u64s (drop 8 bs))"
  by pat_completeness auto
termination by (relation "measure length") auto

declare plain_u64s.simps [simp del]

definition plain_roaring :: roaring_ops where
  "plain_roaring = \<lparr>rb_serialize = (\<lambda>S. concat (map write_u64 (sorted_list_of_set S))),
     rb_deserialize = (\<lambda>bs. Inr (set (plain_u64s bs)))\<rparr>"

lemma plain_u64s_concat: "plain_u64s (concat (map write_u64 xs)) = xs"
proof (induction xs)
  case (Cons x xs)
  then show ?case by (subst plain_u64s.simps) (simp add: write_u64_def [abs_def])
qed (simp add: plain_u64s.simps)

lemma plain_roaring_lawful: "roaring_lawful plain_roaring"
  by (simp add: roaring_lawful_def plain_roaring_def plain_u64s_concat)

definition sample_segment :: immutable_segment where
  "sample_segment = seg_new [(TermKey 1 ''ab'', \<lparr>items = [with_weight 5 [3, 7] 2], max_weight = 2\<rparr>)] [((5, 1), 2)]
     (build_field_stats [((5, 1), 2)]) [] [(4, \<lparr>true_ids = {5}, false_ids = {}\<rparr>)] (rows_new 9)"

theorem write_open_round_trip_witness:
  "fst_lawful plain_fst \<and> roaring_lawful plain_roaring \<and> segment_fits sample_segment
   \<and> (\<exists>bs. write_segment_to plain_fst plain_roaring sample_segment = Inr bs \<and> (length bs < 2 ^ 64 \<longrightarrow>
    (\<exists>ds. disk_open plain_fst plain_roaring bs = Inr ds \<and> iter_terms plain_fst ds = seg_terms sample_segment
      \<and> answers_like plain_fst ds sample_segment
      \<and> (seg_terms sample_segment \<noteq> [] \<longrightarrow> seg_doc_id_range sample_segment \<noteq> None \<longrightarrow> ds_doc_id_range ds = seg_doc_id_range sample_segment))))"
proof -
  have enc: "length (encode_posting_list \<lparr>items = [with_weight 5 [3, 7] 2], max_weight = 2\<rparr>) < 2 ^ 32"
    by (simp add: encode_posting_list_def with_weight_def push_var_u32_def push_var_u16_def push_var_u64.simps)
  have fits: "segment_fits sample_segment"
    using enc by (simp add: segment_fits_def sample_segment_def seg_new_def sections_fit_def terms_fit_def dictionary_ok_def
        omap_ok_def pl_ok_def postings_fit_def lengths_fit_def rows_new_def with_weight_def)
  from write_open_round_trip [OF plain_fst_lawful plain_roaring_lawful fits] fits plain_fst_lawful plain_roaring_lawful
  show ?thesis by blast
qed

end
