(* ===== verification/Snapshot.thy ===== *)
theory Snapshot
  imports Mem_Index Disk_Segment
begin

text \<open>
  \<^verbatim>\<open>crates/core-index/src/lsm/snapshot.rs\<close>: a stable view of the index, the memtable, the segments and
  the tombstones it was published with.  A segment is anything that implements the reader traits:
  a frozen or a live memtable generation, an in-memory segment, an opened file (\<open>search_reader\<close>, in
  place of the trait objects).  Vectors and fuzzy lookups are not modelled.

  The statistics of a reader are those of its document lengths (locale \<open>stats_reader\<close>); a snapshot
  over readers with disjoint documents counts exactly the live ones.
\<close>

section \<open>Readers\<close>

datatype search_reader =
    MemReader mem_index
  | SegReader immutable_segment
  | DiskReader disk_segment

definition mi_term_names :: "mem_index \<Rightarrow> u32 \<Rightarrow> string list" where
  "mi_term_names m x = map (\<lambda>(k, _). key_term k) (filter (\<lambda>(k, _). key_xpath k = x) (mi_terms m))"

definition ds_bool_true_ids :: "disk_segment \<Rightarrow> u32 \<Rightarrow> u64 set" where
  "ds_bool_true_ids ds x = (case omap_get (ds_bool_fields ds) x of None \<Rightarrow> {} | Some f \<Rightarrow> true_ids f)"

definition ds_bool_false_ids :: "disk_segment \<Rightarrow> u32 \<Rightarrow> u64 set" where
  "ds_bool_false_ids ds x = (case omap_get (ds_bool_fields ds) x of None \<Rightarrow> {} | Some f \<Rightarrow> false_ids f)"

primrec rd_terms :: "fst_ops \<Rightarrow> search_reader \<Rightarrow> dictionary" where
  "rd_terms F (MemReader m) = mi_terms m"
| "rd_terms F (SegReader s) = seg_terms s"
| "rd_terms F (DiskReader ds) = iter_terms F ds"

primrec rd_lookup :: "fst_ops \<Rightarrow> search_reader \<Rightarrow> string \<Rightarrow> u32 \<Rightarrow> posting_list" where
  "rd_lookup F (MemReader m) = mi_lookup_or_empty m"
| "rd_lookup F (SegReader s) = seg_lookup_or_empty s"
| "rd_lookup F (DiskReader ds) = ds_lookup F ds"

primrec rd_doc_freq :: "fst_ops \<Rightarrow> search_reader \<Rightarrow> string \<Rightarrow> u32 \<Rightarrow> u32" where
  "rd_doc_freq F (MemReader m) = mi_doc_freq m"
| "rd_doc_freq F (SegReader s) = seg_doc_freq s"
| "rd_doc_freq F (DiskReader ds) = ds_doc_freq F ds"

primrec rd_lookup_prefix :: "fst_ops \<Rightarrow> search_reader \<Rightarrow> string \<Rightarrow> u32 \<Rightarrow> posting_list" where
  "rd_lookup_prefix F (MemReader m) = mi_lookup_prefix m"
| "rd_lookup_prefix F (SegReader s) = seg_lookup_prefix s"
| "rd_lookup_prefix F (DiskReader ds) = ds_lookup_prefix F ds"

primrec rd_lookup_wildcard :: "fst_ops \<Rightarrow> search_reader \<Rightarrow> wildcard_pattern \<Rightarrow> u32 \<Rightarrow> posting_list" where
  "rd_lookup_wildcard F (MemReader m) = mi_lookup_wildcard m"
| "rd_lookup_wildcard F (SegReader s) = seg_lookup_wildcard s"
| "rd_lookup_wildcard F (DiskReader ds) = ds_lookup_wildcard F ds"

primrec rd_term_names :: "fst_ops \<Rightarrow> search_reader \<Rightarrow> u32 \<Rightarrow> string list" where
  "rd_term_names F (MemReader m) = mi_term_names m"
| "rd_term_names F (SegReader s) = seg_term_names s"
| "rd_term_names F (DiskReader ds) = ds_term_names F ds"

primrec rd_numeric_range :: "search_reader \<Rightarrow> u32 \<Rightarrow> numeric_bound option \<Rightarrow> numeric_bound option \<Rightarrow> posting_list" where
  "rd_numeric_range (MemReader m) = mi_numeric_range m"
| "rd_numeric_range (SegReader s) = seg_numeric_range s"
| "rd_numeric_range (DiskReader ds) = ds_numeric_range ds"

primrec rd_numeric_value :: "search_reader \<Rightarrow> u32 \<Rightarrow> u64 \<Rightarrow> numeric_value option" where
  "rd_numeric_value (MemReader m) = mi_numeric_value m"
| "rd_numeric_value (SegReader s) = seg_numeric_value s"
| "rd_numeric_value (DiskReader ds) = ds_numeric_value ds"

primrec rd_numeric_bounds :: "search_reader \<Rightarrow> u32 \<Rightarrow> numeric_value option \<times> numeric_value option" where
  "rd_numeric_bounds (MemReader m) = mi_numeric_bounds m"
| "rd_numeric_bounds (SegReader s) = seg_numeric_bounds s"
| "rd_numeric_bounds (DiskReader ds) = ds_numeric_bounds ds"

primrec rd_bool_true_ids :: "search_reader \<Rightarrow> u32 \<Rightarrow> u64 set" where
  "rd_bool_true_ids (MemReader m) = mi_bool_true_ids m"
| "rd_bool_true_ids (SegReader s) = seg_bool_true_ids s"
| "rd_bool_true_ids (DiskReader ds) = ds_bool_true_ids ds"

primrec rd_bool_false_ids :: "search_reader \<Rightarrow> u32 \<Rightarrow> u64 set" where
  "rd_bool_false_ids (MemReader m) = mi_bool_false_ids m"
| "rd_bool_false_ids (SegReader s) = seg_bool_false_ids s"
| "rd_bool_false_ids (DiskReader ds) = ds_bool_false_ids ds"

primrec rd_bool_value :: "search_reader \<Rightarrow> u32 \<Rightarrow> u64 \<Rightarrow> bool option" where
  "rd_bool_value (MemReader m) = mi_bool_value m"
| "rd_bool_value (SegReader s) = seg_bool_value s"
| "rd_bool_value (DiskReader ds) = ds_bool_value ds"

primrec rd_array_rows :: "search_reader \<Rightarrow> array_row_index" where
  "rd_array_rows (MemReader m) = mi_array_rows m"
| "rd_array_rows (SegReader s) = seg_array_rows s"
| "rd_array_rows (DiskReader ds) = ds_array_rows ds"

primrec rd_resolve_array_rows :: "search_reader \<Rightarrow> u64 set \<Rightarrow> u64 set" where
  "rd_resolve_array_rows (MemReader m) = mi_resolve_array_rows m"
| "rd_resolve_array_rows (SegReader s) = seg_resolve_array_rows s"
| "rd_resolve_array_rows (DiskReader ds) = ds_resolve_array_rows ds"

primrec rd_doc_len :: "search_reader \<Rightarrow> u64 \<Rightarrow> u32 \<Rightarrow> u32 option" where
  "rd_doc_len (MemReader m) = mi_doc_len m"
| "rd_doc_len (SegReader s) = seg_doc_len s"
| "rd_doc_len (DiskReader ds) = ds_doc_len ds"

primrec rd_doc_count :: "search_reader \<Rightarrow> u32 \<Rightarrow> u64" where
  "rd_doc_count (MemReader m) = mi_doc_count m"
| "rd_doc_count (SegReader s) = seg_doc_count s"
| "rd_doc_count (DiskReader ds) = ds_doc_count ds"

primrec rd_total_doc_len :: "search_reader \<Rightarrow> u32 \<Rightarrow> u64" where
  "rd_total_doc_len (MemReader m) = mi_total_doc_len m"
| "rd_total_doc_len (SegReader s) = seg_total_doc_len s"
| "rd_total_doc_len (DiskReader ds) = ds_total_doc_len ds"

primrec rd_doc_range :: "search_reader \<Rightarrow> (u64 \<times> u64) option" where
  "rd_doc_range (MemReader m) = mi_doc_id_range m"
| "rd_doc_range (SegReader s) = seg_doc_id_range s"
| "rd_doc_range (DiskReader ds) = ds_doc_id_range ds"

section \<open>The snapshot\<close>

record index_snapshot =
  sn_mem :: mem_index
  sn_segments :: "search_reader list"
  sn_deleted :: delete_set

definition snapshot_new :: "mem_index \<Rightarrow> search_reader list \<Rightarrow> delete_set \<Rightarrow> index_snapshot" where
  "snapshot_new m segs dels = \<lparr>sn_mem = m, sn_segments = segs, sn_deleted = dels\<rparr>"

definition apply_deletes :: "index_snapshot \<Rightarrow> posting_list \<Rightarrow> posting_list" where
  "apply_deletes sn l = filter_in_place (sn_deleted sn) l"

definition apply_deletes_to_bitset :: "index_snapshot \<Rightarrow> u64 set \<Rightarrow> u64 set" where
  "apply_deletes_to_bitset sn S = S - sn_deleted sn"

definition sn_lookup :: "fst_ops \<Rightarrow> index_snapshot \<Rightarrow> string \<Rightarrow> u32 \<Rightarrow> posting_list" where
  "sn_lookup F sn t x =
     (let segment_lists = map (\<lambda>r. rd_lookup F r t x) (sn_segments sn)
      in case mi_lookup (sn_mem sn) t x of
           None \<Rightarrow>
             if length segment_lists \<le> 1
             then apply_deletes sn (if segment_lists = [] then pl_new else last segment_lists)
             else apply_deletes sn (union_many segment_lists)
         | Some l \<Rightarrow> apply_deletes sn (union_many (l # segment_lists)))"

definition sn_lookup_prefix :: "fst_ops \<Rightarrow> index_snapshot \<Rightarrow> string \<Rightarrow> u32 \<Rightarrow> posting_list" where
  "sn_lookup_prefix F sn p x =
     apply_deletes sn (union_many (mi_lookup_prefix (sn_mem sn) p x # map (\<lambda>r. rd_lookup_prefix F r p x) (sn_segments sn)))"

definition sn_lookup_wildcard :: "fst_ops \<Rightarrow> index_snapshot \<Rightarrow> wildcard_pattern \<Rightarrow> u32 \<Rightarrow> posting_list" where
  "sn_lookup_wildcard F sn pat x =
     apply_deletes sn (union_many (mi_lookup_wildcard (sn_mem sn) pat x # map (\<lambda>r. rd_lookup_wildcard F r pat x) (sn_segments sn)))"

definition sn_term_names :: "fst_ops \<Rightarrow> index_snapshot \<Rightarrow> u32 \<Rightarrow> string list" where
  "sn_term_names F sn x =
     sort_dedup (mi_term_names (sn_mem sn) x @ concat (map (\<lambda>r. rd_term_names F r x) (sn_segments sn)))"

definition saturating_add_u32 :: "u32 \<Rightarrow> u32 \<Rightarrow> u32" where
  "saturating_add_u32 a b = (if unat a + unat b < 2 ^ 32 then a + b else - 1)"

definition saturating_sub_u64 :: "u64 \<Rightarrow> u64 \<Rightarrow> u64" where
  "saturating_sub_u64 a b = (if b \<le> a then a - b else 0)"

definition sn_doc_freq :: "fst_ops \<Rightarrow> index_snapshot \<Rightarrow> string \<Rightarrow> u32 \<Rightarrow> u32" where
  "sn_doc_freq F sn t x =
     foldl (\<lambda>total r. saturating_add_u32 total (rd_doc_freq F r t x)) (mi_doc_freq (sn_mem sn) t x) (sn_segments sn)"

definition sn_resolve_array_rows :: "index_snapshot \<Rightarrow> u64 set \<Rightarrow> u64 set" where
  "sn_resolve_array_rows sn rows =
     (mi_resolve_array_rows (sn_mem sn) rows \<union> (\<Union>r \<in> set (sn_segments sn). rd_resolve_array_rows r rows)) - sn_deleted sn"

text \<open>\<open>iter().find_map(f)\<close>.\<close>

fun find_map :: "('a \<Rightarrow> 'b option) \<Rightarrow> 'a list \<Rightarrow> 'b option" where
  "find_map f [] = None"
| "find_map f (x # xs) = (case f x of Some y \<Rightarrow> Some y | None \<Rightarrow> find_map f xs)"

definition sn_parent_of_row :: "index_snapshot \<Rightarrow> u64 \<Rightarrow> u64 option" where
  "sn_parent_of_row sn row =
     (case parent_of (mi_array_rows (sn_mem sn)) row of
        Some p \<Rightarrow> Some p | None \<Rightarrow> find_map (\<lambda>r. parent_of (rd_array_rows r) row) (sn_segments sn))"

definition sn_doc_of_row :: "index_snapshot \<Rightarrow> u64 \<Rightarrow> u64 option" where
  "sn_doc_of_row sn row =
     (case doc_of (mi_array_rows (sn_mem sn)) row of
        Some d \<Rightarrow> Some d | None \<Rightarrow> find_map (\<lambda>r. doc_of (rd_array_rows r) row) (sn_segments sn))"

definition sn_bool_true_ids :: "index_snapshot \<Rightarrow> u32 \<Rightarrow> u64 set" where
  "sn_bool_true_ids sn x =
     apply_deletes_to_bitset sn (mi_bool_true_ids (sn_mem sn) x \<union> (\<Union>r \<in> set (sn_segments sn). rd_bool_true_ids r x))"

definition sn_bool_false_ids :: "index_snapshot \<Rightarrow> u32 \<Rightarrow> u64 set" where
  "sn_bool_false_ids sn x =
     apply_deletes_to_bitset sn (mi_bool_false_ids (sn_mem sn) x \<union> (\<Union>r \<in> set (sn_segments sn). rd_bool_false_ids r x))"

definition sn_bool_value :: "index_snapshot \<Rightarrow> u32 \<Rightarrow> u64 \<Rightarrow> bool option" where
  "sn_bool_value sn x d =
     (if d \<in> sn_deleted sn then None
      else case mi_bool_value (sn_mem sn) x d of
             Some v \<Rightarrow> Some v | None \<Rightarrow> find_map (\<lambda>r. rd_bool_value r x d) (sn_segments sn))"

definition sn_numeric_range :: "index_snapshot \<Rightarrow> u32 \<Rightarrow> numeric_bound option \<Rightarrow> numeric_bound option \<Rightarrow> posting_list" where
  "sn_numeric_range sn x lo hi =
     apply_deletes sn (union_many (mi_numeric_range (sn_mem sn) x lo hi # map (\<lambda>r. rd_numeric_range r x lo hi) (sn_segments sn)))"

definition sn_numeric_value :: "index_snapshot \<Rightarrow> u32 \<Rightarrow> u64 \<Rightarrow> numeric_value option" where
  "sn_numeric_value sn x d =
     (if d \<in> sn_deleted sn then None
      else case mi_numeric_value (sn_mem sn) x d of
             Some v \<Rightarrow> Some v | None \<Rightarrow> find_map (\<lambda>r. rd_numeric_value r x d) (sn_segments sn))"

definition pick :: "('a \<Rightarrow> 'a \<Rightarrow> 'a) \<Rightarrow> 'a option \<Rightarrow> 'a option \<Rightarrow> 'a option" where
  "pick f a b = (case (a, b) of (Some u, Some v) \<Rightarrow> Some (f u v) | (None, b) \<Rightarrow> b | (a, _) \<Rightarrow> a)"

definition sn_numeric_bounds :: "index_snapshot \<Rightarrow> u32 \<Rightarrow> numeric_value option \<times> numeric_value option" where
  "sn_numeric_bounds sn x =
     foldl (\<lambda>(lo, hi) r. let (seg_min, seg_max) = rd_numeric_bounds r x in (pick min lo seg_min, pick max hi seg_max))
       (mi_numeric_bounds (sn_mem sn) x) (sn_segments sn)"

definition outside :: "(u64 \<times> u64) option \<Rightarrow> u64 \<Rightarrow> bool" where
  "outside rng d = (case rng of None \<Rightarrow> False | Some (lo, hi) \<Rightarrow> d < lo \<or> d > hi)"

definition sn_doc_len :: "index_snapshot \<Rightarrow> u64 \<Rightarrow> u32 \<Rightarrow> u32 option" where
  "sn_doc_len sn d x =
     (case mi_doc_len (sn_mem sn) d x of
        Some len \<Rightarrow> Some len
      | None \<Rightarrow> find_map (\<lambda>r. if outside (rd_doc_range r) d then None else rd_doc_len r d x) (rev (sn_segments sn)))"

definition sn_doc_count :: "index_snapshot \<Rightarrow> u32 \<Rightarrow> u64" where
  "sn_doc_count sn x =
     (let raw = mi_doc_count (sn_mem sn) x + sum_list (map (\<lambda>r. rd_doc_count r x) (sn_segments sn));
          deleted = word_of_nat (card {d \<in> sn_deleted sn. sn_doc_len sn d x \<noteq> None})
      in saturating_sub_u64 raw deleted)"

definition sn_total_doc_len :: "index_snapshot \<Rightarrow> u32 \<Rightarrow> u64" where
  "sn_total_doc_len sn x =
     (let raw = mi_total_doc_len (sn_mem sn) x + sum_list (map (\<lambda>r. rd_total_doc_len r x) (sn_segments sn));
          deleted = (\<Sum>d \<in> sn_deleted sn. case sn_doc_len sn d x of None \<Rightarrow> 0 | Some len \<Rightarrow> ucast len)
      in saturating_sub_u64 raw deleted)"

definition sn_doc_range :: "index_snapshot \<Rightarrow> (u64 \<times> u64) option" where
  "sn_doc_range sn =
     foldl (\<lambda>rng r. case rd_doc_range r of
              None \<Rightarrow> rng
            | Some (lo, hi) \<Rightarrow> Some (case rng of None \<Rightarrow> (lo, hi) | Some (mn, mx) \<Rightarrow> (min mn lo, max mx hi)))
       (mi_doc_id_range (sn_mem sn)) (sn_segments sn)"

section \<open>Lookups of a snapshot\<close>

primrec rd_ok :: "fst_ops \<Rightarrow> search_reader \<Rightarrow> bool" where
  "rd_ok F (MemReader m) = mem_ok m"
| "rd_ok F (SegReader s) = seg_ok s"
| "rd_ok F (DiskReader ds) = disk_ok F ds"

interpretation reader: term_reader "rd_terms F" "rd_lookup F" "rd_doc_freq F" "rd_lookup_prefix F" "rd_lookup_wildcard F" "rd_ok F"
  for F
proof
  fix r t x p pat
  assume "rd_ok F r"
  then show "dictionary_ok (rd_terms F r)"
    "rd_lookup F r t x = (case omap_get (rd_terms F r) (TermKey x t) of None \<Rightarrow> pl_new | Some l \<Rightarrow> l)"
    "rd_doc_freq F r t x = word_of_nat (pl_len (rd_lookup F r t x))"
    "rd_lookup_prefix F r p x = capped_union (field_matches (rd_terms F r) x (prefix p))"
    "rd_lookup_wildcard F r pat x = capped_union (field_matches (rd_terms F r) x (wildcard_matches pat))"
    by (cases r; simp add: mi_reader.content_ok mi_reader.lookup_eq mi_reader.freq_eq mi_reader.prefix_eq mi_reader.wildcard_eq
        seg_reader.content_ok seg_reader.lookup_eq seg_reader.freq_eq seg_reader.prefix_eq seg_reader.wildcard_eq
        disk_reader.content_ok disk_reader.lookup_eq disk_reader.freq_eq disk_reader.prefix_eq disk_reader.wildcard_eq)+
qed

definition sn_readers :: "index_snapshot \<Rightarrow> search_reader list" where
  "sn_readers sn = MemReader (sn_mem sn) # sn_segments sn"

definition sn_ok :: "fst_ops \<Rightarrow> index_snapshot \<Rightarrow> bool" where
  "sn_ok F sn \<longleftrightarrow> (\<forall>r \<in> set (sn_readers sn). rd_ok F r)"

text \<open>What the readers hold of a term, and the reference answer: their merge, without the deleted
  documents.\<close>

definition term_postings_of :: "fst_ops \<Rightarrow> search_reader list \<Rightarrow> string \<Rightarrow> u32 \<Rightarrow> posting list" where
  "term_postings_of F rs t x = concat (map (\<lambda>r. items (rd_lookup F r t x)) rs)"

definition live_merge :: "delete_set \<Rightarrow> posting list \<Rightarrow> posting list" where
  "live_merge dels ps = filter (\<lambda>p. doc_id p \<notin> dels) (merge_by_doc ps)"

declare items_filter_in_place [simp]

lemma live_merge_union:
  assumes "\<forall>l \<in> set ls. pl_ok l"
  shows "items (apply_deletes sn (union_many ls)) = live_merge (sn_deleted sn) (concat (map items ls))"
    and "pl_ok (apply_deletes sn (union_many ls))"
  using items_union_many [of ls] assms by (simp_all add: apply_deletes_def live_merge_def pl_ok_filter_in_place)

lemma sn_lookup_items:
  assumes "sn_ok F sn"
  shows "items (sn_lookup F sn t x) = live_merge (sn_deleted sn) (term_postings_of F (sn_readers sn) t x)"
    and "pl_ok (sn_lookup F sn t x)"
proof -
  let ?ls = "map (\<lambda>r. rd_lookup F r t x) (sn_segments sn)"
  have ok: "\<forall>l \<in> set ?ls. pl_ok l" and mem: "mem_ok (sn_mem sn)"
    using assms by (auto simp: sn_ok_def sn_readers_def intro: reader.lookup_ok)
  have mi: "rd_lookup F (MemReader (sn_mem sn)) t x = (case mi_lookup (sn_mem sn) t x of None \<Rightarrow> pl_new | Some l \<Rightarrow> l)"
    by (simp add: mi_lookup_or_empty_def)
  have all: "term_postings_of F (sn_readers sn) t x =
      (case mi_lookup (sn_mem sn) t x of None \<Rightarrow> [] | Some l \<Rightarrow> items l) @ concat (map items ?ls)"
    unfolding term_postings_of_def sn_readers_def list.map concat.simps mi
    by (simp add: comp_def pl_new_def split: option.split)
  have "items (sn_lookup F sn t x) = live_merge (sn_deleted sn) (term_postings_of F (sn_readers sn) t x)
    \<and> pl_ok (sn_lookup F sn t x)"
  proof (cases "mi_lookup (sn_mem sn) t x")
    case (Some l)
    have "pl_ok l" using reader.lookup_ok [of F "MemReader (sn_mem sn)" t x] mem Some by (simp add: mi_lookup_or_empty_def)
    then have "\<forall>l' \<in> set (l # ?ls). pl_ok l'" using ok by auto
    from live_merge_union [OF this, where sn = sn] show ?thesis
      by (simp add: sn_lookup_def Let_def Some all)
  next
    case None
    show ?thesis
    proof (cases "length ?ls \<le> 1")
      case True
      then consider "?ls = []" | l where "?ls = [l]" by (cases ?ls) (auto simp: Suc_le_length_iff)
      then show ?thesis
      proof cases
        case 1
        then show ?thesis
          by (simp add: sn_lookup_def None all apply_deletes_def live_merge_def merge_by_doc_ascending
              pl_ok_filter_in_place) (simp add: pl_new_def)
      next
        case 2
        then have "pl_ok l" using ok by auto
        then have "merge_by_doc (items l) = items l" by (simp add: pl_ok_def merge_by_doc_ascending)
        with 2 \<open>pl_ok l\<close> show ?thesis
          by (simp add: sn_lookup_def Let_def None all apply_deletes_def live_merge_def pl_ok_filter_in_place)
      qed
    next
      case False
      with live_merge_union [OF ok, where sn = sn] show ?thesis
        by (simp add: sn_lookup_def Let_def None all)
    qed
  qed
  then show "items (sn_lookup F sn t x) = live_merge (sn_deleted sn) (term_postings_of F (sn_readers sn) t x)"
    "pl_ok (sn_lookup F sn t x)" by blast+
qed

section \<open>Statistics of a snapshot\<close>

locale stats_reader =
  fixes lens :: "'r \<Rightarrow> ((u64 \<times> u32) \<times> u32) list"
    and len_of :: "'r \<Rightarrow> u64 \<Rightarrow> u32 \<Rightarrow> u32 option"
    and count_of :: "'r \<Rightarrow> u32 \<Rightarrow> u64"
    and total_of :: "'r \<Rightarrow> u32 \<Rightarrow> u64"
    and ok :: "'r \<Rightarrow> bool"
  assumes lens_distinct: "ok r \<Longrightarrow> distinct (map fst (lens r))"
    and len_eq: "ok r \<Longrightarrow> len_of r d x = map_of (lens r) (d, x)"
    and stats_eq: "ok r \<Longrightarrow> (count_of r x, total_of r x) =
      (case omap_get (build_field_stats (lens r)) x of None \<Rightarrow> (0, 0) | Some s \<Rightarrow> (doc_count s, total_doc_len s))"
begin

lemma count_eq: "ok r \<Longrightarrow> count_of r x = of_nat (size (field_lengths x (mset (lens r))))"
  and total_eq: "ok r \<Longrightarrow> total_of r x = (\<Sum>len \<in># field_lengths x (mset (lens r)). ucast len)"
  using stats_eq [of r x] by (auto simp: omap_get_build_field_stats stats_of_def split: if_splits)

lemma counts_sum: "(\<And>r. r \<in> set rs \<Longrightarrow> ok r) \<Longrightarrow>
    sum_list (map (\<lambda>r. count_of r x) rs) = of_nat (size (field_lengths x (mset (concat (map lens rs)))))"
  by (induction rs) (simp_all add: count_eq)

lemma totals_sum: "(\<And>r. r \<in> set rs \<Longrightarrow> ok r) \<Longrightarrow>
    sum_list (map (\<lambda>r. total_of r x) rs) = (\<Sum>len \<in># field_lengths x (mset (concat (map lens rs))). ucast len)"
  by (induction rs) (simp_all add: total_eq)

text \<open>Asking the readers one after the other, in any order, finds the length when no two of them
  hold the same document.\<close>

lemma find_len:
  assumes "\<And>r. r \<in> set rs \<Longrightarrow> ok r" and "distinct (map fst (concat (map lens rs)))"
  shows "find_map (\<lambda>r. len_of r d x) rs = map_of (concat (map lens rs)) (d, x)"
  using assms by (induction rs) (auto simp: len_eq map_add_def split: option.split)

end

primrec rd_lens :: "search_reader \<Rightarrow> ((u64 \<times> u32) \<times> u32) list" where
  "rd_lens (MemReader m) = mi_doc_lengths m"
| "rd_lens (SegReader s) = seg_doc_lengths s"
| "rd_lens (DiskReader ds) = dl_iter (ds_doc_lengths ds)"

primrec rd_stats_ok :: "search_reader \<Rightarrow> bool" where
  "rd_stats_ok (MemReader m) \<longleftrightarrow> mem_ok m"
| "rd_stats_ok (SegReader s) \<longleftrightarrow> omap_ok (seg_doc_lengths s) \<and> seg_field_stats s = build_field_stats (seg_doc_lengths s)"
| "rd_stats_ok (DiskReader ds) \<longleftrightarrow>
     distinct (map fst (dl_iter (ds_doc_lengths ds))) \<and> ds_field_stats ds = build_field_stats (dl_iter (ds_doc_lengths ds))
     \<and> (\<forall>d x. dl_get (ds_doc_lengths ds) d x = map_of (dl_iter (ds_doc_lengths ds)) (d, x))"

interpretation reader_stats: stats_reader rd_lens rd_doc_len rd_doc_count rd_total_doc_len rd_stats_ok
proof
  fix r d x
  assume ok: "rd_stats_ok r"
  show "distinct (map fst (rd_lens r))" using ok by (cases r) (simp_all add: mem_ok_def omap_distinct)
  show "rd_doc_len r d x = map_of (rd_lens r) (d, x)"
    using ok by (cases r) (simp_all add: mi_doc_len_def seg_doc_len_def ds_doc_len_def)
  show "(rd_doc_count r x, rd_total_doc_len r x) =
      (case omap_get (build_field_stats (rd_lens r)) x of None \<Rightarrow> (0, 0) | Some s \<Rightarrow> (doc_count s, total_doc_len s))"
    using ok by (cases r) (auto simp: mem_ok_def mi_doc_count_def mi_total_doc_len_def seg_doc_count_def seg_total_doc_len_def
        ds_doc_count_def ds_total_doc_len_def split: option.split)
qed

text \<open>A reader whose document range covers the documents it has lengths for.\<close>

definition range_covers :: "search_reader \<Rightarrow> bool" where
  "range_covers r \<longleftrightarrow> (\<forall>d x. rd_doc_len r d x \<noteq> None \<longrightarrow> \<not> outside (rd_doc_range r) d)"

definition sn_lens :: "index_snapshot \<Rightarrow> ((u64 \<times> u32) \<times> u32) list" where
  "sn_lens sn = concat (map rd_lens (sn_readers sn))"

definition sn_stats_ok :: "index_snapshot \<Rightarrow> bool" where
  "sn_stats_ok sn \<longleftrightarrow> (\<forall>r \<in> set (sn_readers sn). rd_stats_ok r) \<and> (\<forall>r \<in> set (sn_segments sn). range_covers r)
     \<and> distinct (map fst (sn_lens sn))"

lemma distinct_concat_rev: "distinct (map f (concat (map g xs))) \<Longrightarrow> distinct (map f (concat (map g (rev xs))))"
  by (induction xs) (auto simp: image_iff)

lemma map_of_mset: "distinct (map fst xs) \<Longrightarrow> set xs = set ys \<Longrightarrow> distinct (map fst ys) \<Longrightarrow> map_of xs = map_of ys"
  by (rule ext) (metis map_of_eq_Some_iff not_Some_eq)

lemma sn_doc_len_eq:
  assumes "sn_stats_ok sn"
  shows "sn_doc_len sn d x = map_of (sn_lens sn) (d, x)"
proof -
  let ?rs = "MemReader (sn_mem sn) # rev (sn_segments sn)"
  have ok: "\<And>r. r \<in> set ?rs \<Longrightarrow> rd_stats_ok r" using assms by (auto simp: sn_stats_ok_def sn_readers_def)
  have dist: "distinct (map fst (concat (map rd_lens ?rs)))"
    using assms distinct_concat_rev [of fst rd_lens "sn_segments sn"] by (auto simp: sn_stats_ok_def sn_lens_def sn_readers_def)
  have skip: "(if outside (rd_doc_range r) d then None else rd_doc_len r d x) = rd_doc_len r d x" if "r \<in> set (sn_segments sn)" for r
  proof -
    have "range_covers r" using assms that by (simp add: sn_stats_ok_def)
    then show ?thesis unfolding range_covers_def by metis
  qed
  have "find_map (\<lambda>r. if outside (rd_doc_range r) d then None else rd_doc_len r d x) rs = find_map (\<lambda>r. rd_doc_len r d x) rs"
    if "set rs \<subseteq> set (sn_segments sn)" for rs
    using that skip by (induction rs) (auto split: option.split)
  then have "sn_doc_len sn d x = find_map (\<lambda>r. rd_doc_len r d x) ?rs"
    by (simp add: sn_doc_len_def split: option.split)
  also have "\<dots> = map_of (concat (map rd_lens ?rs)) (d, x)"
    by (rule reader_stats.find_len [OF ok dist]) 
  also have "\<dots> = map_of (sn_lens sn) (d, x)"
    using assms by (subst map_of_mset [OF dist, of "sn_lens sn"]) (auto simp: sn_stats_ok_def sn_lens_def sn_readers_def)
  finally show ?thesis .
qed

text \<open>The documents with a length in a field, and what the statistics count of them.\<close>

definition field_doc_set :: "((u64 \<times> u32) \<times> u32) list \<Rightarrow> u32 \<Rightarrow> u64 set" where
  "field_doc_set es x = {d. map_of es (d, x) \<noteq> None}"

lemma finite_field_doc_set [simp]: "finite (field_doc_set es x)"
  by (rule finite_subset [of _ UNIV]) simp_all

lemma field_doc_set_Cons:
  "field_doc_set (((d, y), len) # es) x = (if y = x then insert d (field_doc_set es x) else field_doc_set es x)"
  by (auto simp: field_doc_set_def)

lemma field_lengths_sum:
  fixes f :: "u32 \<Rightarrow> 'a::comm_monoid_add"
  assumes "distinct (map fst es)"
  shows "(\<Sum>len \<in># field_lengths x (mset es). f len) = (\<Sum>d \<in> field_doc_set es x. f (the (map_of es (d, x))))"
  using assms
proof (induction es)
  case (Cons e es)
  obtain d y len where e: "e = ((d, y), len)" by (metis surj_pair)
  have new: "d \<notin> field_doc_set es x" if "y = x"
    using Cons.prems that by (auto simp: e field_doc_set_def map_of_eq_None_iff image_iff)
  have "(\<Sum>d' \<in> field_doc_set es x. f (the (map_of (e # es) (d', x)))) = (\<Sum>d' \<in> field_doc_set es x. f (the (map_of es (d', x))))"
    using new by (intro sum.cong refl) (auto simp: e)
  with Cons new show ?case by (auto simp: e field_doc_set_Cons)
qed (simp add: field_doc_set_def)

lemma field_lengths_size: "distinct (map fst es) \<Longrightarrow> size (field_lengths x (mset es)) = card (field_doc_set es x)"
  using field_lengths_sum [of es "\<lambda>_. 1 :: nat" x] by simp

lemma saturating_sub_of_nat:
  assumes "b \<le> a" "a < 2 ^ 64"
  shows "saturating_sub_u64 (word_of_nat a) (word_of_nat b) = word_of_nat (a - b)"
  using assms by (auto simp: saturating_sub_u64_def word_le_nat_alt unat_of_nat_u64 of_nat_diff)


lemma sn_counts:
  assumes ok: "sn_stats_ok sn" and few: "length (sn_lens sn) < 2 ^ 64"
    and short: "(\<Sum>(_, len) \<leftarrow> sn_lens sn. unat len) < 2 ^ 64"
  defines "live \<equiv> \<lambda>x. field_doc_set (sn_lens sn) x - sn_deleted sn"
  shows "sn_doc_count sn x = word_of_nat (card (live x))"
    and "sn_total_doc_len sn x = word_of_nat (\<Sum>d \<in> live x. unat (the (sn_doc_len sn d x)))"
proof -
  let ?es = "sn_lens sn" and ?D = "field_doc_set (sn_lens sn) x"
  have dist: "distinct (map fst ?es)" using ok by (simp add: sn_stats_ok_def)
  have rok: "\<And>r. r \<in> set (sn_readers sn) \<Longrightarrow> rd_stats_ok r" using ok by (simp add: sn_stats_ok_def)
  have len: "sn_doc_len sn d x = map_of ?es (d, x)" for d by (rule sn_doc_len_eq [OF ok])
  have dels: "{d \<in> sn_deleted sn. sn_doc_len sn d x \<noteq> None} = ?D \<inter> sn_deleted sn"
    by (auto simp: len field_doc_set_def)
  have sub: "field_lengths x (mset ?es) \<subseteq># image_mset snd (mset ?es)"
    unfolding field_lengths_def by (intro image_mset_subseteq_mono multiset_filter_subset)
  have "sum_list (map (\<lambda>r. rd_doc_count r x) (sn_readers sn)) = of_nat (card ?D)"
    by (simp only: reader_stats.counts_sum [OF rok] field_lengths_size [OF dist] flip: sn_lens_def)
  then have "mi_doc_count (sn_mem sn) x + sum_list (map (\<lambda>r. rd_doc_count r x) (sn_segments sn)) = of_nat (card ?D)"
    by (simp add: sn_readers_def)
  moreover have "card ?D < 2 ^ 64"
    using size_mset_mono [OF sub] few by (simp add: field_lengths_size [OF dist, symmetric])
  moreover have "card ?D - card (?D \<inter> sn_deleted sn) = card (?D - sn_deleted sn)"
    by (simp add: card_Diff_subset_Int)
  ultimately show "sn_doc_count sn x = word_of_nat (card (live x))"
    unfolding sn_doc_count_def Let_def dels live_def
    using saturating_sub_of_nat [of "card (?D \<inter> sn_deleted sn)" "card ?D"] by (simp add: card_mono)
  let ?n = "\<lambda>d. unat (the (map_of ?es (d, x)))"
  have uc: "(\<Sum>d \<in> A. ucast (g d) :: u64) = word_of_nat (\<Sum>d \<in> A. unat (g d))" for A :: "u64 set" and g :: "u64 \<Rightarrow> u32"
    by simp
  have "sum_list (map (\<lambda>r. rd_total_doc_len r x) (sn_readers sn)) = (\<Sum>d \<in> ?D. ucast (the (map_of ?es (d, x))))"
    by (simp only: reader_stats.totals_sum [OF rok] field_lengths_sum [OF dist] flip: sn_lens_def)
  then have "mi_total_doc_len (sn_mem sn) x + sum_list (map (\<lambda>r. rd_total_doc_len r x) (sn_segments sn)) = word_of_nat (\<Sum>d \<in> ?D. ?n d)"
    unfolding uc by (simp add: sn_readers_def)
  moreover have "(\<Sum>d \<in> sn_deleted sn. case sn_doc_len sn d x of None \<Rightarrow> 0 | Some len \<Rightarrow> (ucast len :: u64)) = word_of_nat (\<Sum>d \<in> ?D \<inter> sn_deleted sn. ?n d)"
  proof -
    have "(\<Sum>d \<in> sn_deleted sn. case sn_doc_len sn d x of None \<Rightarrow> 0 | Some len \<Rightarrow> (ucast len :: u64)) =
        (\<Sum>d \<in> sn_deleted sn \<inter> ?D. ucast (the (map_of ?es (d, x))))"
      by (rule sum.mono_neutral_cong_right) (auto simp: len field_doc_set_def split: option.split)
    then show ?thesis unfolding uc by (simp only: Int_commute)
  qed
  moreover have "(\<Sum>d \<in> ?D. ?n d) < 2 ^ 64"
  proof -
    have "(\<Sum>d \<in> ?D. ?n d) = (\<Sum>len \<in># field_lengths x (mset ?es). unat len)"
      using field_lengths_sum [OF dist, of unat x] by simp
    also obtain M where "image_mset snd (mset ?es) = field_lengths x (mset ?es) + M"
      using sub by (auto simp: mset_subset_eq_exists_conv)
    then have "(\<Sum>len \<in># field_lengths x (mset ?es). unat len) \<le> (\<Sum>len \<in># image_mset snd (mset ?es). unat len)"
      by (simp only: image_mset_union sum_mset.union)
    also have "\<dots> = (\<Sum>(_, len) \<leftarrow> ?es. unat len)"
      by (simp add: comp_def case_prod_unfold flip: sum_mset_sum_list mset_map)
    finally show ?thesis using short by simp
  qed
  moreover have "(\<Sum>d \<in> ?D \<inter> sn_deleted sn. ?n d) \<le> (\<Sum>d \<in> ?D. ?n d)"
    by (intro sum_mono2) auto
  moreover have "(\<Sum>d \<in> ?D. ?n d) - (\<Sum>d \<in> ?D \<inter> sn_deleted sn. ?n d) = (\<Sum>d \<in> ?D - sn_deleted sn. ?n d)"
    using sum.Int_Diff [of ?D ?n "sn_deleted sn"] by simp
  ultimately show "sn_total_doc_len sn x = word_of_nat (\<Sum>d \<in> live x. unat (the (sn_doc_len sn d x)))"
    unfolding sn_total_doc_len_def Let_def live_def len
    using saturating_sub_of_nat [of "\<Sum>d \<in> ?D \<inter> sn_deleted sn. ?n d" "\<Sum>d \<in> ?D. ?n d"] by simp
qed

section \<open>Properties\<close>

text \<open>C9. A snapshot lookup is the reference merge of what the memtable and all segments hold of the
  term, minus the deleted documents, whichever path the lookup takes (the shortcut for a term of a
  single segment, or the k-way union); the documents and occurrences it reports are exactly the live
  ones of some reader.\<close>

theorem snapshot_lookup_spec:
  assumes "sn_ok F sn"
  shows "items (sn_lookup F sn t x) = live_merge (sn_deleted sn) (term_postings_of F (sn_readers sn) t x)
    \<and> pl_ok (sn_lookup F sn t x)
    \<and> docs (items (sn_lookup F sn t x)) = (\<Union>r \<in> set (sn_readers sn). docs (items (rd_lookup F r t x))) - sn_deleted sn
    \<and> hits (items (sn_lookup F sn t x)) = {(d, q) \<in> (\<Union>r \<in> set (sn_readers sn). hits (items (rd_lookup F r t x))). d \<notin> sn_deleted sn}"
proof -
  have docs: "docs (live_merge D ps) = docs ps - D" and hits: "hits (live_merge D ps) = {(d, q) \<in> hits ps. d \<notin> D}" for D ps
    unfolding live_merge_def filter_merge_by_doc_live [of "\<lambda>d. d \<notin> D"] docs_merge_by_doc hits_merge_by_doc
    by (auto simp: docs_def hits_def)
  have "docs (term_postings_of F rs t x) = (\<Union>r \<in> set rs. docs (items (rd_lookup F r t x)))"
    "hits (term_postings_of F rs t x) = (\<Union>r \<in> set rs. hits (items (rd_lookup F r t x)))" for rs
    by (induction rs) (simp_all add: term_postings_of_def)
  with sn_lookup_items [OF assms, of t x] show ?thesis by (simp add: docs hits)
qed

definition sample_snapshot :: "delete_set \<Rightarrow> index_snapshot" where
  "sample_snapshot dels = snapshot_new mi_new [SegReader sample_segment] dels"

lemma sample_snapshot_ok: "sn_ok F (sample_snapshot dels)"
  by (simp add: sn_ok_def sample_snapshot_def snapshot_new_def sn_readers_def seg_ok_def sample_segment_def seg_new_def
      dictionary_ok_def omap_ok_def pl_ok_def)

theorem snapshot_lookup_spec_witness:
  "sn_ok plain_fst (sample_snapshot {5}) \<and> items (sn_lookup plain_fst (sample_snapshot {5}) ''ab'' 1) = []"
proof -
  have "docs (items (seg_lookup_or_empty sample_segment ''ab'' 1)) = {5}"
    by (simp add: seg_lookup_or_empty_def seg_lookup_def sample_segment_def seg_new_def)
  moreover have "docs (items (mi_lookup_or_empty mi_new ''ab'' 1)) = {}"
    by (simp add: mi_lookup_or_empty_def mi_lookup_def mi_new_def pl_new_def)
  moreover have "sn_readers (sample_snapshot {5}) = [MemReader mi_new, SegReader sample_segment]" "sn_deleted (sample_snapshot {5}) = {5}"
    by (simp_all add: sample_snapshot_def snapshot_new_def sn_readers_def)
  moreover have "docs (items (sn_lookup plain_fst (sample_snapshot {5}) ''ab'' 1)) =
      (\<Union>r \<in> set (sn_readers (sample_snapshot {5})). docs (items (rd_lookup plain_fst r ''ab'' 1))) - sn_deleted (sample_snapshot {5})"
    using snapshot_lookup_spec [OF sample_snapshot_ok] by blast
  ultimately have "docs (items (sn_lookup plain_fst (sample_snapshot {5}) ''ab'' 1)) = {}" by simp
  then show ?thesis using sample_snapshot_ok by (simp add: docs_def)
qed

text \<open>C13. The scoring statistics of a snapshot count exactly the live documents: when no two readers
  hold the same document and their ranges are right, \<open>doc_len\<close> (which skips segments by range) finds a
  document's length wherever it is, \<open>doc_count\<close> is the number of documents of the field that are not
  deleted, and \<open>total_doc_len\<close> the sum of their lengths.\<close>

theorem snapshot_stats_spec:
  assumes "sn_stats_ok sn" and "length (sn_lens sn) < 2 ^ 64" and "(\<Sum>(_, len) \<leftarrow> sn_lens sn. unat len) < 2 ^ 64"
  shows "sn_doc_len sn d x = map_of (sn_lens sn) (d, x)
    \<and> unat (sn_doc_count sn x) = card {d. sn_doc_len sn d x \<noteq> None \<and> d \<notin> sn_deleted sn}
    \<and> sn_total_doc_len sn x = word_of_nat (\<Sum>d | sn_doc_len sn d x \<noteq> None \<and> d \<notin> sn_deleted sn. unat (the (sn_doc_len sn d x)))"
proof -
  have live: "field_doc_set (sn_lens sn) x - sn_deleted sn = {d. sn_doc_len sn d x \<noteq> None \<and> d \<notin> sn_deleted sn}"
    by (auto simp: field_doc_set_def sn_doc_len_eq [OF assms(1)])
  have dist: "distinct (map fst (sn_lens sn))" using assms(1) by (simp add: sn_stats_ok_def)
  have "card (field_doc_set (sn_lens sn) x - sn_deleted sn) \<le> card (field_doc_set (sn_lens sn) x)" by (intro card_mono) auto
  also have "\<dots> = size (field_lengths x (mset (sn_lens sn)))" by (simp add: field_lengths_size [OF dist])
  also have "\<dots> \<le> length (sn_lens sn)"
    using size_mset_mono [OF multiset_filter_subset, of "\<lambda>((_, y), _). y = x" "mset (sn_lens sn)"] by (simp add: field_lengths_def)
  finally have "card (field_doc_set (sn_lens sn) x - sn_deleted sn) < 2 ^ 64" using assms(2) by linarith
  with sn_counts [OF assms, of x] show ?thesis
    by (simp add: sn_doc_len_eq [OF assms(1)] live unat_of_nat_u64)
qed

theorem snapshot_stats_spec_witness:
  "sn_stats_ok (sample_snapshot {}) \<and> sn_doc_len (sample_snapshot {}) 5 1 = Some 2 \<and> unat (sn_doc_count (sample_snapshot {}) 1) = 1"
proof -
  have lens: "sn_lens (sample_snapshot D) = [((5, 1), 2)]" for D
    by (simp add: sn_lens_def sn_readers_def sample_snapshot_def snapshot_new_def mi_new_def sample_segment_def seg_new_def)
  have "range_covers (SegReader sample_segment)"
    by (simp add: range_covers_def sample_segment_def seg_new_def seg_doc_len_def compute_doc_id_range_def widen_range_def outside_def)
  then have ok: "sn_stats_ok (sample_snapshot {})"
    unfolding sn_stats_ok_def lens
    by (simp add: sn_readers_def sample_snapshot_def snapshot_new_def sample_segment_def seg_new_def omap_ok_def)
  note spec = snapshot_stats_spec [OF ok, unfolded lens, simplified]
  have "{d. map_of [((5 :: u64, 1 :: u32), 2 :: u32)] (d, 1) \<noteq> None} = {5}" by auto
  with spec [of 5 1] spec [of _ 1] ok show ?thesis by (simp add: sample_snapshot_def snapshot_new_def)
qed

end
