(* ===== verification/Compaction.thy ===== *)
theory Compaction
  imports Snapshot
begin

text \<open>
  \<^verbatim>\<open>crates/core-index/src/lsm/compaction.rs\<close>: merging segments into one file.  \<open>MergedTerms\<close> is an
  iterator over the sources' term iterators driven by a binary heap; an iterator is the list of the
  items it still yields, the heap a sorted list (its pops are in key order, ties by source index).
  The worker channels, the vector files and the removal of files are not modelled.
\<close>

section \<open>Opened segments\<close>

text \<open>\<open>OpenSegment\<close>: a segment in memory or an opened file, as a reader.\<close>

primrec rd_numeric_fields :: "search_reader \<Rightarrow> numeric_fields" where
  "rd_numeric_fields (MemReader m) = np_build (mi_numeric_points m)"
| "rd_numeric_fields (SegReader s) = seg_numeric_fields s"
| "rd_numeric_fields (DiskReader ds) = ds_numeric_fields ds"

primrec rd_bool_fields :: "search_reader \<Rightarrow> bool_fields_map" where
  "rd_bool_fields (MemReader m) = mi_bool_fields m"
| "rd_bool_fields (SegReader s) = seg_bool_fields s"
| "rd_bool_fields (DiskReader ds) = ds_bool_fields ds"

section \<open>The term merge\<close>

record merged_terms =
  mt_sources :: "dictionary list"
  mt_heads :: "posting_list option list"
  mt_heap :: "(term_key \<times> nat) list"
  mt_deleted :: delete_set

text \<open>The loop of \<open>new\<close>: ask each source for its first item.\<close>

definition mt_new :: "dictionary list \<Rightarrow> delete_set \<Rightarrow> merged_terms" where
  "mt_new sources dels =
     \<lparr>mt_sources = map tl sources,
      mt_heads = map (\<lambda>s. case s of [] \<Rightarrow> None | (_, l) # _ \<Rightarrow> Some l) sources,
      mt_heap = fold (\<lambda>i h. case sources ! i of [] \<Rightarrow> h | (k, _) # _ \<Rightarrow> heap_push (k, i) h) [0..<length sources] [],
      mt_deleted = dels\<rparr>"

definition mt_advance :: "nat \<Rightarrow> merged_terms \<Rightarrow> posting_list \<times> merged_terms" where
  "mt_advance i mt =
     (if i < length (mt_sources mt)
      then let l = (case mt_heads mt ! i of None \<Rightarrow> pl_new | Some l \<Rightarrow> l);
               mt = mt\<lparr>mt_heads := (mt_heads mt)[i := None]\<rparr>
           in (l, case mt_sources mt ! i of
                    [] \<Rightarrow> mt
                  | (k, next) # rest \<Rightarrow>
                      mt\<lparr>mt_sources := (mt_sources mt)[i := rest], mt_heap := heap_push (k, i) (mt_heap mt),
                         mt_heads := (mt_heads mt)[i := Some next]\<rparr>)
      else (pl_new, mt))"

definition mt_work :: "merged_terms \<Rightarrow> nat" where
  "mt_work mt = length (mt_heap mt) + sum_list (map length (mt_sources mt))"

lemma length_heap_push [simp]: "length (heap_push x h) = Suc (length h)"
  by (simp add: heap_push_def)

lemma sum_list_update_less: "i < length xs \<Longrightarrow> xs ! i = y # ys \<Longrightarrow> sum_list (map length (xs[i := ys])) < sum_list (map length xs)"
  by (induction xs arbitrary: i) (auto split: nat.split)

lemma mt_work_advance: "mt_work (snd (mt_advance i mt)) \<le> mt_work mt"
  by (auto simp: mt_advance_def mt_work_def Let_def split: list.split dest: sum_list_update_less)

text \<open>The inner loop of \<open>next\<close>: pop every source whose head has the same term.\<close>

function mt_gather :: "term_key \<Rightarrow> posting list \<Rightarrow> merged_terms \<Rightarrow> posting list \<times> merged_terms" where
  "mt_gather key its mt =
     (case heap_pop (mt_heap mt) of
        Some ((k, other), h) \<Rightarrow>
          if k = key
          then let (l, mt') = mt_advance other (mt\<lparr>mt_heap := h\<rparr>) in mt_gather key (its @ items l) mt'
          else (its, mt)
      | None \<Rightarrow> (its, mt))"
  by pat_completeness auto
termination
proof (relation "measure (\<lambda>(key, its, mt). mt_work mt)", goal_cases)
  case (2 key its mt x2 e h k other p l mt')
  then have "mt_work (mt\<lparr>mt_heap := h\<rparr>) < mt_work mt" by (cases "mt_heap mt") (auto simp: mt_work_def)
  moreover have "mt_work mt' \<le> mt_work (mt\<lparr>mt_heap := h\<rparr>)" using mt_work_advance [of other "mt\<lparr>mt_heap := h\<rparr>"] 2 by (metis snd_conv)
  ultimately show ?case by simp
qed simp

declare mt_gather.simps [simp del]

lemma mt_work_gather: "mt_work (snd (mt_gather key its mt)) \<le> mt_work mt"
proof (induction key its mt rule: mt_gather.induct)
  case (1 key its mt)
  show ?case
  proof (cases "mt_heap mt")
    case (Cons e h)
    obtain k other where e: "e = (k, other)" by (cases e)
    have adv: "mt_work (snd (mt_advance other (mt\<lparr>mt_heap := h\<rparr>))) \<le> mt_work mt"
      using mt_work_advance [of other "mt\<lparr>mt_heap := h\<rparr>"] by (simp add: mt_work_def Cons)
    show ?thesis
      using "1.IH" adv Cons by (subst mt_gather.simps) (fastforce simp: e split: prod.split)
  qed (simp add: mt_gather.simps)
qed

function mt_next :: "merged_terms \<Rightarrow> ((term_key \<times> posting_list) \<times> merged_terms) option" where
  "mt_next mt =
     (case heap_pop (mt_heap mt) of
        None \<Rightarrow> None
      | Some ((key, i), h) \<Rightarrow>
          let (l, mt') = mt_advance i (mt\<lparr>mt_heap := h\<rparr>);
              (its, mt'') = mt_gather key (items l) mt';
              merged = filter_in_place (mt_deleted mt'') (from_items its)
          in if \<not> pl_is_empty merged then Some ((key, merged), mt'') else mt_next mt'')"
  by pat_completeness auto
termination
proof (relation "measure mt_work", goal_cases)
  case (2 mt x2 e h key i p l mt' q its mt'' merged)
  then have "mt_work (mt\<lparr>mt_heap := h\<rparr>) < mt_work mt" by (cases "mt_heap mt") (auto simp: mt_work_def)
  moreover have "mt_work mt' \<le> mt_work (mt\<lparr>mt_heap := h\<rparr>)" using mt_work_advance [of i "mt\<lparr>mt_heap := h\<rparr>"] 2 by (metis snd_conv)
  moreover have "mt_work mt'' \<le> mt_work mt'" using mt_work_gather [of key "items l" mt'] 2 by (metis snd_conv)
  ultimately show ?case by simp
qed simp

declare mt_next.simps [simp del]

lemma mt_work_next: "mt_next mt = Some (e, mt') \<Longrightarrow> mt_work mt' < mt_work mt"
proof (induction mt rule: mt_next.induct)
  case (1 mt)
  show ?case
  proof (cases "mt_heap mt")
    case Nil
    with "1.prems" show ?thesis by (simp add: mt_next.simps)
  next
    case (Cons x h)
    obtain key i where x: "x = (key, i)" by (cases x)
    obtain l mt1 where adv: "mt_advance i (mt\<lparr>mt_heap := h\<rparr>) = (l, mt1)" by fastforce
    obtain its mt2 where gat: "mt_gather key (items l) mt1 = (its, mt2)" by fastforce
    have "mt_work (mt\<lparr>mt_heap := h\<rparr>) < mt_work mt" by (simp add: mt_work_def Cons)
    then have less: "mt_work mt2 < mt_work mt"
      using mt_work_advance [of i "mt\<lparr>mt_heap := h\<rparr>"] mt_work_gather [of key "items l" mt1] by (simp add: adv gat)
    have pop: "heap_pop (mt_heap mt) = Some ((key, i), h)" by (simp add: Cons x)
    let ?m = "filter_in_place (mt_deleted mt2) (from_items its)"
    have step: "mt_next mt = (if \<not> pl_is_empty ?m then Some ((key, ?m), mt2) else mt_next mt2)"
      by (subst mt_next.simps) (simp add: pop adv gat Let_def)
    show ?thesis
    proof (cases "pl_is_empty ?m")
      case True
      with "1.prems" step have "mt_next mt2 = Some (e, mt')" by simp
      then have "mt_work mt' < mt_work mt2"
        using "1.IH" [OF pop refl refl refl adv [symmetric] refl gat [symmetric] refl] True by simp
      with less show ?thesis by simp
    qed (use "1.prems" step less in auto)
  qed
qed

text \<open>Everything the iterator yields.\<close>

function mt_collect :: "merged_terms \<Rightarrow> (term_key \<times> posting_list) list" where
  "mt_collect mt = (case mt_next mt of None \<Rightarrow> [] | Some (e, mt') \<Rightarrow> e # mt_collect mt')"
  by pat_completeness auto
termination
  by (relation "measure mt_work") (auto dest: mt_work_next)

declare mt_collect.simps [simp del]

section \<open>Compacting segments\<close>

definition merge_lengths :: "delete_set \<Rightarrow> search_reader list \<Rightarrow> doc_lengths_map" where
  "merge_lengths dels rs =
     fold (\<lambda>r. fold (\<lambda>((d, x), len) m. if d \<in> dels then m else omap_insert (d, x) len m) (rd_lens r)) rs []"

definition merge_numeric :: "delete_set \<Rightarrow> search_reader list \<Rightarrow> numeric_points" where
  "merge_numeric dels rs =
     fold (\<lambda>r. fold (\<lambda>(x, f) pts.
         fold (\<lambda>(d, packed) pts. if d \<in> dels then pts else np_insert x (unpack packed (dv_kind (field_doc_values f))) d pts)
           (dv_entries (field_doc_values f)) pts)
       (rd_numeric_fields r)) rs []"

definition merge_bools :: "delete_set \<Rightarrow> search_reader list \<Rightarrow> bool_fields_map" where
  "merge_bools dels rs =
     fold (\<lambda>r. fold (\<lambda>(x, f). omap_entry x bool_field_default (\<lambda>slot.
         \<lparr>true_ids = true_ids slot \<union> (true_ids f - dels), false_ids = false_ids slot \<union> (false_ids f - dels)\<rparr>))
       (rd_bool_fields r)) rs []"

definition merge_rows :: "search_reader list \<Rightarrow> array_row_index" where
  "merge_rows rs = fold (\<lambda>r t. rows_merge_from t (rd_array_rows r)) rs (rows_new 0)"

definition compact_segments :: "fst_ops \<Rightarrow> roaring_ops \<Rightarrow> search_reader list \<Rightarrow> delete_set \<Rightarrow> u8 list result" where
  "compact_segments F R rs dels =
     write_merged_segment_to F R (mt_collect (mt_new (map (rd_terms F) rs) dels)) (merge_lengths dels rs)
       (np_build (merge_numeric dels rs)) (merge_rows rs) (merge_bools dels rs)"

record compaction_config =
  max_segments_per_compaction :: nat
  compact_when_segments_at_least :: nat
  size_ratio :: u64
  min_width :: nat
  max_segments :: nat
  idle_merge_after :: nat

definition compaction_config_default :: compaction_config where
  "compaction_config_default =
     \<lparr>max_segments_per_compaction = 16, compact_when_segments_at_least = 2, size_ratio = 2, min_width = 4,
      max_segments = 10, idle_merge_after = 10000\<rparr>"

section \<open>The term merge against its specification\<close>

text \<open>Every term of any source once, in order, with the merge of its lists; terms left without a live
  document are dropped.\<close>

definition lists_of :: "dictionary list \<Rightarrow> term_key \<Rightarrow> posting list" where
  "lists_of D k = concat (map (\<lambda>s. case omap_get s k of None \<Rightarrow> [] | Some l \<Rightarrow> items l) D)"

definition all_keys :: "dictionary list \<Rightarrow> term_key list" where
  "all_keys D = sort_dedup (concat (map (map fst) D))"

definition live_list :: "delete_set \<Rightarrow> posting list \<Rightarrow> posting_list" where
  "live_list dels ps = filter_in_place dels (from_items ps)"

definition merged_reference :: "delete_set \<Rightarrow> dictionary list \<Rightarrow> dictionary" where
  "merged_reference dels D =
     filter (\<lambda>(_, l). items l \<noteq> []) (map (\<lambda>k. (k, live_list dels (lists_of D k))) (all_keys D))"

text \<open>The iterator's state as the sources it still has to yield, heads included.\<close>

definition mt_rep :: "dictionary list \<Rightarrow> delete_set \<Rightarrow> merged_terms \<Rightarrow> bool" where
  "mt_rep D dels mt \<longleftrightarrow>
     mt_sources mt = map tl D
     \<and> mt_heads mt = map (\<lambda>s. case s of [] \<Rightarrow> None | (_, l) # _ \<Rightarrow> Some l) D
     \<and> sorted (mt_heap mt) \<and> distinct (mt_heap mt)
     \<and> set (mt_heap mt) = {(fst (hd (D ! i)), i) | i. i < length D \<and> D ! i \<noteq> []}
     \<and> mt_deleted mt = dels \<and> (\<forall>s \<in> set D. omap_ok s)"

lemma mt_rep_pop:
  assumes rep: "mt_rep D dels mt" and heap: "mt_heap mt = (k, i) # h"
  shows "\<exists>l s mt'. mt_advance i (mt\<lparr>mt_heap := h\<rparr>) = (l, mt') \<and> i < length D \<and> D ! i = (k, l) # s \<and> mt_rep (D[i := s]) dels mt'"
proof -
  have "(k, i) \<in> {(fst (hd (D ! i)), i) | i. i < length D \<and> D ! i \<noteq> []}"
    using rep heap unfolding mt_rep_def by (metis list.set_intros(1))
  then obtain l s where i: "i < length D" and Di: "D ! i = (k, l) # s"
    by (cases "D ! i") auto
  let ?D = "D[i := s]"
  have len: "i < length (mt_sources mt)" using rep i by (simp add: mt_rep_def)
  have src: "mt_sources mt ! i = s" and hd: "mt_heads mt ! i = Some l"
    using rep i by (simp_all add: mt_rep_def Di)
  have dist: "distinct ((k, i) # h)" and sorted: "sorted ((k, i) # h)"
    using rep heap by (simp_all add: mt_rep_def)
  have seth: "set h = {(fst (hd (D ! j)), j) | j. j < length D \<and> D ! j \<noteq> [] \<and> j \<noteq> i}"
  proof -
    have "set h = set (mt_heap mt) - {(k, i)}" using dist by (simp add: heap)
    also have "\<dots> = {(fst (hd (D ! j)), j) | j. j < length D \<and> D ! j \<noteq> [] \<and> j \<noteq> i}"
      using rep by (auto simp: mt_rep_def Di)
    finally show ?thesis .
  qed
  have ok: "\<forall>s \<in> set ?D. omap_ok s"
  proof -
    have "omap_ok ((k, l) # s)" using rep i Di unfolding mt_rep_def by (metis nth_mem)
    then have "omap_ok s" by (simp add: omap_ok_Cons)
    with rep show ?thesis by (auto simp: mt_rep_def dest: set_update_subset_insert [THEN subsetD])
  qed
  define mt' where "mt' = snd (mt_advance i (mt\<lparr>mt_heap := h\<rparr>))"
  have adv: "mt_advance i (mt\<lparr>mt_heap := h\<rparr>) = (l, mt')"
    using len hd by (simp add: mt'_def mt_advance_def Let_def)
  have "mt_rep ?D dels mt'"
  proof (cases s)
    case Nil
    have "{(fst (hd (?D ! j)), j) | j. j < length ?D \<and> ?D ! j \<noteq> []} = set h"
      unfolding seth using i by (auto simp: nth_list_update Nil split: if_splits)
    moreover have "mt' = mt\<lparr>mt_heap := h, mt_heads := (mt_heads mt)[i := None]\<rparr>"
      using len src Nil by (simp add: mt'_def mt_advance_def Let_def)
    moreover have "(map tl D)[i := []] = map tl D"
      using i Di Nil list_update_id [of "map tl D" i] by simp
    ultimately show ?thesis
      using rep ok dist sorted i Nil by (simp add: mt_rep_def map_update Di)
  next
    case (Cons e rest)
    obtain k' l' where e: "e = (k', l')" by (cases e)
    have new: "(k', i) \<notin> set h" unfolding seth by auto
    have "{(fst (hd (?D ! j)), j) | j. j < length ?D \<and> ?D ! j \<noteq> []} = insert (k', i) (set h)"
      unfolding seth using i by (auto simp: nth_list_update Cons e split: if_splits)
    moreover have "mt' = mt\<lparr>mt_sources := (mt_sources mt)[i := rest], mt_heap := heap_push (k', i) h, mt_heads := (mt_heads mt)[i := Some l']\<rparr>"
      using len src Cons by (simp add: mt'_def mt_advance_def Let_def e)
    ultimately show ?thesis
      using rep ok dist sorted i Cons new
      by (simp add: mt_rep_def map_update Di e heap_push_def set_insort_key sorted_insort distinct_insort)
  qed
  with adv i Di show ?thesis by blast
qed

definition drop_key :: "term_key \<Rightarrow> dictionary \<Rightarrow> dictionary" where
  "drop_key k s = (case s of (k', _) # s' \<Rightarrow> if k' = k then s' else s | [] \<Rightarrow> [])"

definition keys_from :: "term_key \<Rightarrow> dictionary list \<Rightarrow> bool" where
  "keys_from k D \<longleftrightarrow> (\<forall>s \<in> set D. \<forall>(k', _) \<in> set s. k \<le> k')"

lemma omap_get_above: "omap_ok s \<Longrightarrow> \<forall>(k', _) \<in> set s. k < k' \<Longrightarrow> omap_get s k = None"
  by (force simp: map_of_eq_None_iff)

lemma head_above:
  assumes "omap_ok s" "\<forall>(k', _) \<in> set s. k \<le> k'" "s = [] \<or> fst (hd s) \<noteq> k"
  shows "omap_get s k = None" and "drop_key k s = s"
proof -
  show "omap_get s k = None"
  proof (cases s)
    case (Cons e s')
    obtain k0 v where e: "e = (k0, v)" by (cases e)
    have "k < k0" using assms(2,3) by (auto simp: Cons e)
    moreover have "k0 < k'" if "(k', v') \<in> set s'" for k' v' using assms(1) that by (force simp: Cons e omap_ok_Cons)
    ultimately have "\<forall>(k', _) \<in> set s. k < k'" by (fastforce simp: Cons e)
    with assms(1) show ?thesis by (rule omap_get_above)
  qed simp
  show "drop_key k s = s" using assms(3) by (auto simp: drop_key_def split: list.split)
qed

lemma mt_rep_gather:
  assumes "mt_rep D dels mt" and "keys_from k D"
  shows "\<exists>mt'. mt_gather k its mt = (its @ lists_of D k, mt') \<and> mt_rep (map (drop_key k) D) dels mt'"
  using assms
proof (induction k its mt arbitrary: D rule: mt_gather.induct)
  case (1 k its mt)
  have ok: "omap_ok s" and from_k: "\<forall>(k', _) \<in> set s. k \<le> k'" if "s \<in> set D" for s
    using "1.prems" that by (auto simp: mt_rep_def keys_from_def)
  show ?case
  proof (cases "\<exists>i h. mt_heap mt = (k, i) # h")
    case False
    have "s = [] \<or> fst (hd s) \<noteq> k" if "s \<in> set D" for s
    proof (rule ccontr)
      assume "\<not> (s = [] \<or> fst (hd s) \<noteq> k)"
      with that obtain i where "i < length D" "D ! i \<noteq> []" "fst (hd (D ! i)) = k" by (auto simp: in_set_conv_nth)
      then have "(k, i) \<in> set (mt_heap mt)" using "1.prems"(1) by (force simp: mt_rep_def)
      moreover obtain k0 i0 h where heap: "mt_heap mt = (k0, i0) # h"
        using \<open>(k, i) \<in> set (mt_heap mt)\<close> by (cases "mt_heap mt") auto
      moreover have "sorted (mt_heap mt)" using "1.prems"(1) by (simp add: mt_rep_def)
      ultimately have "k0 \<le> k" by (auto simp: less_eq_prod_def)
      moreover have "k \<le> k0"
      proof -
        have "(k0, i0) \<in> set (mt_heap mt)" by (simp add: heap)
        then obtain "i0 < length D" "D ! i0 \<noteq> []" "k0 = fst (hd (D ! i0))" using "1.prems"(1) by (auto simp: mt_rep_def)
        then show ?thesis using from_k [of "D ! i0"] hd_in_set [of "D ! i0"] by (auto simp: case_prod_unfold)
      qed
      ultimately show False using False heap by auto
    qed
    then have "omap_get s k = None" "drop_key k s = s" if "s \<in> set D" for s
      using that head_above [OF ok from_k] by auto
    then have "lists_of D k = []" "map (drop_key k) D = D"
      by (auto simp: lists_of_def map_idI)
    moreover have "mt_gather k its mt = (its, mt)"
      using False by (subst mt_gather.simps) (cases "mt_heap mt"; auto)
    ultimately show ?thesis using "1.prems"(1) by simp
  next
    case True
    then obtain i h where heap: "mt_heap mt = (k, i) # h" by blast
    from mt_rep_pop [OF "1.prems"(1) heap] obtain l s mt' where
      adv: "mt_advance i (mt\<lparr>mt_heap := h\<rparr>) = (l, mt')" and i: "i < length D" and Di: "D ! i = (k, l) # s" and
      rep: "mt_rep (D[i := s]) dels mt'" by blast
    have pop: "heap_pop (mt_heap mt) = Some ((k, i), h)" by (simp add: heap)
    have oki: "omap_ok ((k, l) # s)" using ok [of "D ! i"] i Di by (metis nth_mem)
    then have above: "\<forall>(k', _) \<in> set s. k < k'" by (auto simp: omap_ok_Cons)
    have from': "keys_from k (D[i := s])"
      using "1.prems"(2) above by (auto simp: keys_from_def dest!: set_update_subset_insert [THEN subsetD] dest: less_imp_le)
    have D: "D = take i D @ ((k, l) # s) # drop (Suc i) D" and D': "D[i := s] = take i D @ s # drop (Suc i) D"
      using i Di id_take_nth_drop [OF i] by (simp_all add: upd_conv_take_nth_drop)
    have before: "omap_get s' k = None" if "s' \<in> set (take i D)" for s'
    proof -
      from that obtain j where j: "j < i" "s' = D ! j" by (auto simp: in_set_conv_nth)
      have head: "s' = [] \<or> fst (hd s') \<noteq> k"
      proof (rule ccontr)
        assume "\<not> (s' = [] \<or> fst (hd s') \<noteq> k)"
        then have "(k, j) \<in> set (mt_heap mt)" using "1.prems"(1) j i by (force simp: mt_rep_def)
        moreover have "sorted (mt_heap mt)" using "1.prems"(1) by (simp add: mt_rep_def)
        ultimately show False using j by (auto simp: heap less_eq_prod_def)
      qed
      have "s' \<in> set D" using that by (rule in_set_takeD)
      from head_above(1) [OF ok [OF this] from_k [OF this] head] show ?thesis .
    qed
    have none: "omap_get s k = None"
      using oki above by (intro omap_get_above) (simp_all add: omap_ok_Cons)
    have skip: "concat (map (\<lambda>s. case omap_get s k of None \<Rightarrow> [] | Some l \<Rightarrow> items l) (take i D)) = []"
    proof -
      have "\<forall>s \<in> set (take i D). (case omap_get s k of None \<Rightarrow> [] | Some l \<Rightarrow> items l) = []" using before by simp
      then show ?thesis unfolding concat_eq_Nil_conv set_map by blast
    qed
    have lists: "lists_of D k = items l @ lists_of (D[i := s]) k"
    proof -
      have "lists_of D k = lists_of (take i D @ ((k, l) # s) # drop (Suc i) D) k" using D by simp
      then show ?thesis unfolding D' by (simp add: lists_of_def skip none)
    qed
    have dk: "drop_key k s = s" using above by (auto simp: drop_key_def split: list.split)
    have drops: "map (drop_key k) (D[i := s]) = map (drop_key k) D"
    proof -
      have "map (drop_key k) D = map (drop_key k) (take i D @ ((k, l) # s) # drop (Suc i) D)" using D by simp
      also have "\<dots> = map (drop_key k) (D[i := s])" unfolding D' by (simp add: dk) (simp add: drop_key_def)
      finally show ?thesis ..
    qed
    from "1.IH" [OF pop refl refl refl refl adv [symmetric] rep from'] obtain mt'' where
      "mt_gather k (its @ items l) mt' = ((its @ items l) @ lists_of (D[i := s]) k, mt'')"
      "mt_rep (map (drop_key k) (D[i := s])) dels mt''" by blast
    moreover have "mt_gather k its mt = mt_gather k (its @ items l) mt'"
      by (subst mt_gather.simps) (simp add: pop adv)
    ultimately show ?thesis by (simp only: lists drops append_assoc) blast
  qed
qed

lemma mt_rep_new:
  assumes "\<forall>s \<in> set D. omap_ok s"
  shows "mt_rep D dels (mt_new D dels)"
proof -
  let ?es = "map (\<lambda>i. (fst (hd (D ! i)), i)) (filter (\<lambda>i. D ! i \<noteq> []) [0..<length D])"
  have "fold (\<lambda>i h. case D ! i of [] \<Rightarrow> h | (k, _) # _ \<Rightarrow> heap_push (k, i) h) is h = fold heap_push (map (\<lambda>i. (fst (hd (D ! i)), i)) (filter (\<lambda>i. D ! i \<noteq> []) is)) h"
    for "is" h
    by (induction "is" arbitrary: h) (auto split: list.split)
  then have heap: "mt_heap (mt_new D dels) = fold heap_push ?es []" by (simp add: mt_new_def)
  have m: "mset (mt_heap (mt_new D dels)) = mset ?es" and sorted: "sorted (mt_heap (mt_new D dels))"
    using lheap.push_all [of ?es "[]"] unfolding heap by auto
  have "distinct ?es" by (auto simp: distinct_map inj_on_def)
  then have "distinct (mt_heap (mt_new D dels))" by (rule mset_eq_imp_distinct_iff [OF m, THEN iffD2])
  moreover have "set (mt_heap (mt_new D dels)) = {(fst (hd (D ! i)), i) | i. i < length D \<and> D ! i \<noteq> []}"
    using mset_eq_setD [OF m] by auto
  ultimately show ?thesis using assms sorted by (simp add: mt_rep_def) (simp add: mt_new_def)
qed

lemma drop_key_keys:
  assumes "omap_ok s" "\<forall>(k', _) \<in> set s. k \<le> k'"
  shows "omap_ok (drop_key k s)" "fst ` set (drop_key k s) = fst ` set s - {k}"
    and "k' \<noteq> k \<Longrightarrow> omap_get (drop_key k s) k' = omap_get s k'"
proof -
  have "omap_ok (drop_key k s) \<and> fst ` set (drop_key k s) = fst ` set s - {k} \<and> (k' \<noteq> k \<longrightarrow> omap_get (drop_key k s) k' = omap_get s k')"
  proof (cases "s = [] \<or> fst (hd s) \<noteq> k")
    case True
    with head_above [OF assms True] assms(1) show ?thesis by (auto simp: map_of_eq_None_iff)
  next
    case False
    then obtain v s' where s: "s = (k, v) # s'" by (cases s) auto
    have "k \<notin> fst ` set s'" using assms(1) by (force simp: s omap_ok_Cons)
    with assms(1) show ?thesis by (auto simp: s drop_key_def omap_ok_Cons)
  qed
  then show "omap_ok (drop_key k s)" "fst ` set (drop_key k s) = fst ` set s - {k}"
    and "k' \<noteq> k \<Longrightarrow> omap_get (drop_key k s) k' = omap_get s k'" by blast+
qed

lemma merged_reference_step:
  assumes ok: "\<forall>s \<in> set D. omap_ok s" and from_k: "keys_from k D" and mem: "k \<in> (\<Union>s \<in> set D. fst ` set s)"
  shows "merged_reference dels D =
    (if items (live_list dels (lists_of D k)) \<noteq> [] then [(k, live_list dels (lists_of D k))] else [])
    @ merged_reference dels (map (drop_key k) D)"
proof -
  let ?D = "map (drop_key k) D"
  have each: "\<forall>(k', _) \<in> set s. k \<le> k'" "omap_ok s" if "s \<in> set D" for s
    using that from_k ok by (auto simp: keys_from_def)
  have keys: "set (all_keys ?D) = set (all_keys D) - {k}"
  proof -
    have "set (all_keys ?D) = (\<Union>s \<in> set D. fst ` set (drop_key k s))" by (simp add: all_keys_def)
    also have "\<dots> = (\<Union>s \<in> set D. fst ` set s) - {k}" using drop_key_keys(2) [OF each(2,1)] by auto
    finally show ?thesis by (simp add: all_keys_def)
  qed
  have "all_keys D = k # all_keys ?D"
  proof (rule ascending_eqI)
    show "ascending (k # all_keys ?D)"
    proof -
      have "k \<le> k'" if "k' \<in> set (all_keys D)" for k' using that from_k by (fastforce simp: all_keys_def keys_from_def)
      then show ?thesis using keys by (auto simp: order.strict_iff_order) (simp add: all_keys_def)
    qed
    show "ascending (all_keys D)" by (simp add: all_keys_def)
    show "set (all_keys D) = set (k # all_keys ?D)" using keys mem by (auto simp: all_keys_def)
  qed
  moreover have "lists_of ?D k' = lists_of D k'" if "k' \<in> set (all_keys ?D)" for k'
  proof -
    have "k' \<noteq> k" using that keys by simp
    then show ?thesis
      using drop_key_keys(3) [OF each(2,1)] by (simp add: lists_of_def comp_def cong: map_cong)
  qed
  ultimately show ?thesis
    by (simp add: merged_reference_def cong: map_cong)
qed

lemma mt_collect_rep: "mt_rep D dels mt \<Longrightarrow> mt_collect mt = merged_reference dels D"
proof (induction "mt_work mt" arbitrary: mt D rule: less_induct)
  case less
  show ?case
  proof (cases "mt_heap mt")
    case Nil
    then have "s = []" if "s \<in> set D" for s
      using less.prems that by (fastforce simp: mt_rep_def in_set_conv_nth)
    then have "concat (map (map fst) D) = []" by auto
    then have "merged_reference dels D = []" unfolding merged_reference_def all_keys_def by (simp only:) simp
    moreover have "mt_collect mt = []" by (subst mt_collect.simps, subst mt_next.simps) (simp add: Nil)
    ultimately show ?thesis by simp
  next
    case (Cons x h)
    obtain k i where x: "x = (k, i)" by (cases x)
    note heap = Cons [unfolded x]
    from mt_rep_pop [OF less.prems heap] obtain l s mt1 where
      adv: "mt_advance i (mt\<lparr>mt_heap := h\<rparr>) = (l, mt1)" and i: "i < length D" and Di: "D ! i = (k, l) # s" and
      rep1: "mt_rep (D[i := s]) dels mt1" by blast
    have min: "k \<le> k'" if "s' \<in> set D" "(k', v) \<in> set s'" for s' k' v
    proof -
      from that obtain j where j: "j < length D" "D ! j = s'" by (auto simp: in_set_conv_nth)
      have ok: "omap_ok s'" using less.prems that by (simp add: mt_rep_def)
      have "(fst (hd s'), j) \<in> set (mt_heap mt)" using less.prems j that by (force simp: mt_rep_def)
      moreover have "sorted (mt_heap mt)" using less.prems by (simp add: mt_rep_def)
      ultimately have "k \<le> fst (hd s')" by (auto simp: heap less_eq_prod_def)
      also have "fst (hd s') \<le> k'" using ok that(2) by (cases s') (force simp: omap_ok_Cons)+
      finally show ?thesis .
    qed
    then have from_k: "keys_from k D" by (auto simp: keys_from_def)
    have ok: "\<forall>s \<in> set D. omap_ok s" using less.prems by (simp add: mt_rep_def)
    have "mt_gather k [] mt = mt_gather k ([] @ items l) mt1"
      by (subst mt_gather.simps) (simp add: heap adv)
    with mt_rep_gather [OF less.prems from_k, of "[]"] obtain mt2 where
      gat: "mt_gather k (items l) mt1 = (lists_of D k, mt2)" and rep2: "mt_rep (map (drop_key k) D) dels mt2" by auto
    have smaller: "mt_work mt2 < mt_work mt"
      using mt_work_advance [of i "mt\<lparr>mt_heap := h\<rparr>"] mt_work_gather [of k "items l" mt1] adv gat by (simp add: mt_work_def heap)
    have dels: "mt_deleted mt2 = dels" using rep2 by (simp add: mt_rep_def)
    let ?m = "live_list dels (lists_of D k)"
    have "mt_next mt = (if items ?m \<noteq> [] then Some ((k, ?m), mt2) else mt_next mt2)"
      by (subst mt_next.simps) (simp add: heap adv gat dels live_list_def pl_is_empty_def)
    then have "mt_collect mt = (if items ?m \<noteq> [] then [(k, ?m)] else []) @ mt_collect mt2"
      by (subst mt_collect.simps) (simp add: mt_collect.simps [of mt2])
    moreover have "k \<in> (\<Union>s \<in> set D. fst ` set s)"
      using i Di by (metis UN_I fst_conv image_eqI list.set_intros(1) nth_mem)
    ultimately show ?thesis
      using merged_reference_step [OF ok from_k, of dels] less.hyps [OF smaller rep2] by simp
  qed
qed

lemma mt_collect_new: "\<forall>s \<in> set D. omap_ok s \<Longrightarrow> mt_collect (mt_new D dels) = merged_reference dels D"
  by (rule mt_collect_rep [OF mt_rep_new])

section \<open>What a compacted segment holds\<close>

lemma items_live_list: "items (live_list dels ps) = live_merge dels ps"
  by (simp add: live_list_def live_merge_def items_from_items)

lemma pl_ok_live_list: "pl_ok (live_list dels ps)"
  by (simp add: live_list_def pl_ok_filter_in_place pl_ok_from_items)

lemma omap_get_merged_reference:
  "omap_get (merged_reference dels D) k =
     (if live_merge dels (lists_of D k) = [] then None else Some (live_list dels (lists_of D k)))"
proof -
  have get: "map_of (filter (\<lambda>(_, l). items l \<noteq> []) (map (\<lambda>k. (k, f k)) ks)) k =
      (if k \<in> set ks \<and> items (f k) \<noteq> [] then Some (f k) else None)" for f :: "term_key \<Rightarrow> posting_list" and ks
    by (induction ks) auto
  have "lists_of D k = []" if "k \<notin> set (all_keys D)"
  proof -
    have "omap_get s k = None" if "s \<in> set D" for s
      using that \<open>k \<notin> set (all_keys D)\<close> by (force simp: all_keys_def map_of_eq_None_iff)
    then show ?thesis unfolding lists_of_def concat_eq_Nil_conv by simp
  qed
  then have "live_merge dels (lists_of D k) = []" if "k \<notin> set (all_keys D)"
    using that by (simp add: live_merge_def merge_by_doc_ascending)
  then show ?thesis
    unfolding merged_reference_def get by (auto simp: items_live_list)
qed

lemma dictionary_ok_merged_reference: "dictionary_ok (merged_reference dels D)"
proof -
  have "ascending (map fst (map (\<lambda>k. (k, live_list dels (lists_of D k))) (all_keys D)))"
    by (simp add: comp_def all_keys_def)
  from ascending_filter [OF this] show ?thesis
    by (auto simp: dictionary_ok_def omap_ok_def merged_reference_def pl_ok_live_list)
qed

lemma lists_of_readers:
  assumes "\<forall>r \<in> set rs. rd_ok F r"
  shows "lists_of (map (rd_terms F) rs) (TermKey x t) = term_postings_of F rs t x"
  using assms
proof (induction rs)
  case (Cons r rs)
  have "rd_lookup F r t x = (case omap_get (rd_terms F r) (TermKey x t) of None \<Rightarrow> pl_new | Some l \<Rightarrow> l)"
    using Cons.prems by (intro reader.lookup_eq) simp
  with Cons show ?case by (simp add: lists_of_def term_postings_of_def pl_new_def split: option.split)
qed (simp add: lists_of_def term_postings_of_def)

lemma merged_lookup:
  assumes "\<forall>r \<in> set rs. rd_ok F r"
  shows "items (case omap_get (merged_reference dels (map (rd_terms F) rs)) (TermKey x t) of None \<Rightarrow> pl_new | Some l \<Rightarrow> l)
    = live_merge dels (term_postings_of F rs t x)"
  unfolding omap_get_merged_reference lists_of_readers [OF assms] by (simp add: items_live_list pl_new_def)

lemma merge_lengths_mset:
  assumes "distinct (map fst (concat (map rd_lens rs)))"
  shows "omap_ok (merge_lengths dels rs)"
    and "mset (merge_lengths dels rs) = filter_mset (\<lambda>((d, _), _). d \<notin> dels) (mset (concat (map rd_lens rs)))"
proof -
  let ?ins = "\<lambda>((d, x), len) m. if d \<in> dels then m else omap_insert (d, x) len m"
  have flat: "merge_lengths dels rs = fold ?ins (concat (map rd_lens rs)) []"
    unfolding merge_lengths_def by (induction rs rule: rev_induct) simp_all
  have "fold ?ins es m = omap_extend m (filter (\<lambda>((d, _), _). d \<notin> dels) es)" for es m
    unfolding omap_extend_def by (induction es arbitrary: m) auto
  then have ext: "merge_lengths dels rs = omap_extend [] (filter (\<lambda>((d, _), _). d \<notin> dels) (concat (map rd_lens rs)))"
    by (simp add: flat)
  show "omap_ok (merge_lengths dels rs)" unfolding ext by (simp add: omap_ok_extend)
  have "distinct (map fst (filter P es))" if "distinct (map fst es)" for P and es :: "((u64 \<times> u32) \<times> u32) list"
    using that by (rule distinct_map_filter)
  from this [OF assms] show "mset (merge_lengths dels rs) = filter_mset (\<lambda>((d, _), _). d \<notin> dels) (mset (concat (map rd_lens rs)))"
    unfolding ext by (subst mset_omap_extend_disjoint) simp_all
qed

lemma merge_bools_get:
  "omap_ok (merge_bools dels rs)
   \<and> (case omap_get (merge_bools dels rs) x of None \<Rightarrow> {} | Some f \<Rightarrow> true_ids f) = (\<Union>r \<in> set rs. rd_bool_true_ids r x) - dels
   \<and> (case omap_get (merge_bools dels rs) x of None \<Rightarrow> {} | Some f \<Rightarrow> false_ids f) = (\<Union>r \<in> set rs. rd_bool_false_ids r x) - dels"
  if "\<forall>r \<in> set rs. omap_ok (rd_bool_fields r)"
proof -
  let ?add = "\<lambda>(x, f). omap_entry x bool_field_default (\<lambda>slot.
         \<lparr>true_ids = true_ids slot \<union> (true_ids f - dels), false_ids = false_ids slot \<union> (false_ids f - dels)\<rparr>)"
  let ?t = "\<lambda>m. case omap_get m x of None \<Rightarrow> {} | Some f \<Rightarrow> true_ids f" and ?f = "\<lambda>m. case omap_get m x of None \<Rightarrow> {} | Some f \<Rightarrow> false_ids f"
  have one: "omap_ok (fold ?add es m) \<and> ?t (fold ?add es m) = ?t m \<union> (?t es - dels) \<and> ?f (fold ?add es m) = ?f m \<union> (?f es - dels)"
    if "omap_ok m" "omap_ok es" for es m :: bool_fields_map
    using that
  proof (induction es arbitrary: m)
    case (Cons e es)
    obtain y f where e: "e = (y, f)" by (cases e)
    let ?m = "?add e m"
    have "omap_ok ?m" using Cons.prems by (simp add: e omap_ok_entry)
    moreover have "omap_ok es" "y = x \<Longrightarrow> omap_get es x = None"
      using Cons.prems by (auto simp: e omap_ok_Cons map_of_eq_None_iff)
    ultimately show ?case
      using Cons.IH [of ?m] Cons.prems
      by (auto simp: e omap_get_entry bool_field_default_def split: option.splits if_splits)
  qed simp
  have rd: "rd_bool_true_ids r x = ?t (rd_bool_fields r)" "rd_bool_false_ids r x = ?f (rd_bool_fields r)" for r
    by (cases r; simp add: mi_bool_true_ids_def mi_bool_false_ids_def seg_bool_true_ids_def seg_bool_false_ids_def
        ds_bool_true_ids_def ds_bool_false_ids_def)+
  show ?thesis
    using that
  proof (induction rs rule: rev_induct)
    case (snoc r rs)
    have "merge_bools dels (rs @ [r]) = fold ?add (rd_bool_fields r) (merge_bools dels rs)"
      by (simp add: merge_bools_def)
    with snoc one [of "merge_bools dels rs" "rd_bool_fields r"] show ?case
      by (auto simp: rd)
  qed (simp add: merge_bools_def)
qed

text \<open>The numeric points of a field, as values.\<close>

definition field_points :: "numeric_field \<Rightarrow> (u64 \<times> numeric_value) list" where
  "field_points f = map (\<lambda>(d, packed). (d, unpack packed (dv_kind (field_doc_values f)))) (dv_entries (field_doc_values f))"

definition rd_points :: "search_reader \<Rightarrow> u32 \<Rightarrow> (u64 \<times> numeric_value) list" where
  "rd_points r x = (case omap_get (rd_numeric_fields r) x of None \<Rightarrow> [] | Some f \<Rightarrow> field_points f)"

definition points_at :: "numeric_points \<Rightarrow> u32 \<Rightarrow> (u64 \<times> numeric_value) list" where
  "points_at pts x = (case omap_get pts x of None \<Rightarrow> [] | Some ps \<Rightarrow> ps)"


lemma points_at_insert:
  "omap_ok pts \<Longrightarrow> mset (points_at (np_insert y v d pts) x) = (if y = x then add_mset (d, v) (mset (points_at pts x)) else mset (points_at pts x))"
  by (auto simp: points_at_def np_insert_def omap_get_entry mset_push_point split: option.split)

lemma merge_numeric_points:
  assumes "\<forall>r \<in> set rs. omap_ok (rd_numeric_fields r)"
  shows "np_ok (merge_numeric dels rs)
    \<and> mset (points_at (merge_numeric dels rs) x) = filter_mset (\<lambda>(d, _). d \<notin> dels) (mset (concat (map (\<lambda>r. rd_points r x) rs)))"
proof -
  let ?ins = "\<lambda>y f (d, packed) pts. if d \<in> dels then pts else np_insert y (unpack packed (dv_kind (field_doc_values f))) d pts"
  let ?live = "filter_mset (\<lambda>(d, _). d \<notin> dels) :: (u64 \<times> numeric_value) multiset \<Rightarrow> _"
  have entries: "np_ok (fold (?ins y f) es pts) \<and> mset (points_at (fold (?ins y f) es pts) x) =
      mset (points_at pts x) + (if y = x then ?live (mset (map (\<lambda>(d, packed). (d, unpack packed (dv_kind (field_doc_values f)))) es)) else {#})"
    if "np_ok pts" for y f es pts
    using that
  proof (induction es arbitrary: pts)
    case (Cons e es)
    obtain d packed where e: "e = (d, packed)" by (cases e)
    have "omap_ok pts" using Cons.prems by (simp add: np_ok_def)
    then show ?case
      using Cons by (auto simp: e np_ok_insert points_at_insert)
  qed simp
  have fields: "np_ok (fold (\<lambda>(y, f). fold (?ins y f) (dv_entries (field_doc_values f))) fs pts) \<and>
      mset (points_at (fold (\<lambda>(y, f). fold (?ins y f) (dv_entries (field_doc_values f))) fs pts) x) =
      mset (points_at pts x) + ?live (mset (case omap_get fs x of None \<Rightarrow> [] | Some f \<Rightarrow> field_points f))"
    if "np_ok pts" "omap_ok fs" for fs :: numeric_fields and pts
    using that
  proof (induction fs arbitrary: pts)
    case (Cons e fs)
    obtain y f where e: "e = (y, f)" by (cases e)
    have "omap_ok fs" "y = x \<Longrightarrow> omap_get fs x = None"
      using Cons.prems(2) by (auto simp: e omap_ok_Cons map_of_eq_None_iff)
    then show ?case
      using Cons.IH [of "fold (?ins y f) (dv_entries (field_doc_values f)) pts"] entries [OF Cons.prems(1), of y f "dv_entries (field_doc_values f)"]
      by (auto simp: e field_points_def)
  qed simp
  show ?thesis
    using assms
  proof (induction rs rule: rev_induct)
    case (snoc r rs)
    have step: "merge_numeric dels (rs @ [r]) =
        fold (\<lambda>(y, f). fold (?ins y f) (dv_entries (field_doc_values f))) (rd_numeric_fields r) (merge_numeric dels rs)"
      by (simp add: merge_numeric_def)
    have "np_ok (merge_numeric dels rs)" "omap_ok (rd_numeric_fields r)" using snoc by simp_all
    from fields [OF this] snoc show ?case by (simp add: step rd_points_def)
  qed (simp add: merge_numeric_def np_ok_def points_at_def)
qed

lemma built_points:
  assumes "np_kinds kind pts"
  shows "mset (case omap_get (np_build pts) x of None \<Rightarrow> [] | Some f \<Rightarrow> field_points f) = mset (points_at pts x)"
proof (cases "omap_get pts x")
  case None
  then show ?thesis by (simp add: np_build_def nf_from_points_def points_at_def map_of_map)
next
  case (Some ps)
  have kinds: "kinds_ok (kind x) ps" using Some assms by (auto simp: np_kinds_def dest!: map_of_SomeD)
  have first: "first_kind ps = kind x" if "ps \<noteq> []"
    using that kinds by (cases ps) (auto simp: first_kind_def kinds_ok_def)
  have "mset (field_points \<lparr>field_bkd = bkd_from_points ps, field_doc_values = dv_from_points ps\<rparr>)
      = mset (map (\<lambda>(d, v). (d, unpack (pack v) (first_kind ps))) ps)"
    by (simp add: field_points_def dv_from_points_def dv_build_def Let_def comp_def case_prod_unfold image_mset.compositionality)
  also have "map (\<lambda>(d, v). (d, unpack (pack v) (first_kind ps))) ps = ps"
  proof (rule map_idI)
    fix e
    assume e: "e \<in> set ps"
    obtain d v where dv: "e = (d, v)" by (cases e)
    have "ps \<noteq> []" "value_kind v = kind x" using kinds e by (auto simp: dv kinds_ok_def)
    then have "first_kind ps = value_kind v" using first by simp
    then show "(case e of (d, v) \<Rightarrow> (d, unpack (pack v) (first_kind ps))) = e" by (simp add: dv)
  qed
  finally show ?thesis
    using Some by (simp add: np_build_def nf_from_points_def points_at_def map_of_map)
qed


lemma np_kinds_merge:
  assumes "\<forall>r \<in> set rs. omap_ok (rd_numeric_fields r) \<and> (\<forall>(x, f) \<in> set (rd_numeric_fields r). dv_kind (field_doc_values f) = kind x)"
  shows "np_kinds kind (merge_numeric dels rs)"
proof -
  have ok: "np_ok (merge_numeric dels rs)" and
    pts: "mset (points_at (merge_numeric dels rs) x) = filter_mset (\<lambda>(d, _). d \<notin> dels) (mset (concat (map (\<lambda>r. rd_points r x) rs)))" for x
    using merge_numeric_points [of rs dels x] assms by auto
  have "value_kind v = kind x" if xs: "(x, ps) \<in> set (merge_numeric dels rs)" and v: "(d, v) \<in> set ps" for x ps d v
  proof -
    have "omap_get (merge_numeric dels rs) x = Some ps" using xs ok by (simp add: omap_get_iff np_ok_def)
    then have "(d, v) \<in># mset (points_at (merge_numeric dels rs) x)" using v by (simp add: points_at_def)
    then obtain r where "r \<in> set rs" "(d, v) \<in> set (rd_points r x)" unfolding pts by auto
    then obtain f where r: "r \<in> set rs" "omap_get (rd_numeric_fields r) x = Some f" "(d, v) \<in> set (field_points f)"
      by (cases "omap_get (rd_numeric_fields r) x") (simp_all add: rd_points_def)
    then have "dv_kind (field_doc_values f) = kind x" using assms by (auto dest!: map_of_SomeD)
    with r(3) show ?thesis by (auto simp: field_points_def)
  qed
  then show ?thesis by (auto simp: np_kinds_def kinds_ok_def)
qed

text \<open>The merged content fits the file format.\<close>

definition merge_fits :: "fst_ops \<Rightarrow> search_reader list \<Rightarrow> delete_set \<Rightarrow> bool" where
  "merge_fits F rs dels \<longleftrightarrow>
     sections_fit (merged_reference dels (map (rd_terms F) rs)) (merge_lengths dels rs) (np_build (merge_numeric dels rs))
       (merge_rows rs) (merge_bools dels rs)"

definition inputs_ok :: "fst_ops \<Rightarrow> (u32 \<Rightarrow> numeric_kind) \<Rightarrow> search_reader list \<Rightarrow> bool" where
  "inputs_ok F kind rs \<longleftrightarrow>
     (\<forall>r \<in> set rs. rd_ok F r \<and> omap_ok (rd_bool_fields r) \<and> omap_ok (rd_numeric_fields r)
        \<and> (\<forall>(x, f) \<in> set (rd_numeric_fields r). dv_kind (field_doc_values f) = kind x))
     \<and> distinct (map fst (concat (map rd_lens rs)))"

lemma opened_stats_ok:
  assumes "lengths_fit dl"
  shows "rd_stats_ok (DiskReader (opened F bs ts dl nfs rows bools rng))"
    and "mset (rd_lens (DiskReader (opened F bs ts dl nfs rows bools rng))) = mset dl"
proof -
  have m: "mset (dl_iter (dl_from_entries dl)) = mset dl" by (rule dl_iter_from_entries [OF assms])
  have dist: "distinct (map fst dl)" using assms by (simp add: lengths_fit_def omap_distinct)
  then have dist': "distinct (map fst (dl_iter (dl_from_entries dl)))"
    using m by (metis mset_eq_imp_distinct_iff mset_map)
  have "map_of (dl_iter (dl_from_entries dl)) = map_of dl"
    by (rule map_of_mset [OF dist' mset_eq_setD [OF m] dist])
  then show "rd_stats_ok (DiskReader (opened F bs ts dl nfs rows bools rng))"
    using dist' dl_get_from_entries [OF assms] build_field_stats_mset [OF m] by (simp add: opened_def)
  show "mset (rd_lens (DiskReader (opened F bs ts dl nfs rows bools rng))) = mset dl"
    using m by (simp add: opened_def)
qed

text \<open>What the output of a compaction is to its inputs.\<close>

definition compacted_from :: "fst_ops \<Rightarrow> search_reader list \<Rightarrow> delete_set \<Rightarrow> disk_segment \<Rightarrow> bool" where
  "compacted_from F rs dels ds \<longleftrightarrow>
     (\<forall>t x. items (ds_lookup F ds t x) = live_merge dels (term_postings_of F rs t x))
     \<and> mset (dl_iter (ds_doc_lengths ds)) = filter_mset (\<lambda>((d, _), _). d \<notin> dels) (mset (concat (map rd_lens rs)))
     \<and> (\<forall>x. mset (rd_points (DiskReader ds) x) = filter_mset (\<lambda>(d, _). d \<notin> dels) (mset (concat (map (\<lambda>r. rd_points r x) rs))))
     \<and> (\<forall>x. ds_bool_true_ids ds x = (\<Union>r \<in> set rs. rd_bool_true_ids r x) - dels)
     \<and> (\<forall>x. ds_bool_false_ids ds x = (\<Union>r \<in> set rs. rd_bool_false_ids r x) - dels)"

lemma compact_segments_opens:
  assumes F: "fst_lawful F" and R: "roaring_lawful R" and ins: "inputs_ok F kind rs" and fits: "merge_fits F rs dels"
  shows "\<exists>bs. compact_segments F R rs dels = Inr bs \<and> (length bs < 2 ^ 64 \<longrightarrow>
    (\<exists>ds. disk_open F R bs = Inr ds \<and> disk_ok F ds \<and> rd_stats_ok (DiskReader ds) \<and> compacted_from F rs dels ds
      \<and> ds_numeric_fields ds = np_build (merge_numeric dels rs) \<and> ds_bool_fields ds = merge_bools dels rs))"
proof -
  let ?ts = "merged_reference dels (map (rd_terms F) rs)" and ?dl = "merge_lengths dels rs" and ?nfs = "np_build (merge_numeric dels rs)"
    and ?rows = "merge_rows rs" and ?bools = "merge_bools dels rs"
  have rok: "\<forall>r \<in> set rs. rd_ok F r" and bok: "\<forall>r \<in> set rs. omap_ok (rd_bool_fields r)"
    and nok: "\<forall>r \<in> set rs. omap_ok (rd_numeric_fields r) \<and> (\<forall>(x, f) \<in> set (rd_numeric_fields r). dv_kind (field_doc_values f) = kind x)"
    and dist: "distinct (map fst (concat (map rd_lens rs)))"
    using ins by (auto simp: inputs_ok_def)
  have "\<forall>s \<in> set (map (rd_terms F) rs). omap_ok s"
    using rok reader.content_ok [of F] by (auto simp: dictionary_ok_def)
  then have collect: "mt_collect (mt_new (map (rd_terms F) rs) dels) = ?ts" by (rule mt_collect_new)
  obtain rest where w: "compact_segments F R rs dels = Inr (write_header @ encoded ?ts @ rest)"
    and op: "length (write_header @ encoded ?ts @ rest) < 2 ^ 64 \<Longrightarrow> disk_open F R (write_header @ encoded ?ts @ rest) =
       Inr (opened F (write_header @ encoded ?ts @ rest) ?ts ?dl ?nfs ?rows ?bools (compute_doc_id_range ?dl ?nfs))"
    using disk_open_written [OF F R fits [unfolded merge_fits_def], of "compute_doc_id_range ?dl ?nfs"]
    unfolding compact_segments_def write_merged_segment_to_def collect by blast
  let ?bs = "write_header @ encoded ?ts @ rest"
  let ?ds = "opened F ?bs ?ts ?dl ?nfs ?rows ?bools (compute_doc_id_range ?dl ?nfs)"
  have lf: "lengths_fit ?dl" and tf: "terms_fit ?ts" using fits by (simp_all add: merge_fits_def sections_fit_def)
  have "disk_ok F ?ds \<and> compacted_from F rs dels ?ds" if "length ?bs < 2 ^ 64"
  proof -
    have ok: "disk_ok F ?ds" and it: "iter_terms F ?ds = ?ts"
      using that by (intro written_terms [OF F tf, of ?ds write_header rest]; simp add: opened_def)+
    have "items (ds_lookup F ?ds t x) = live_merge dels (term_postings_of F rs t x)" for t x
      using disk_reader.lookup_eq [OF ok, of t x] merged_lookup [OF rok, of dels x t] by (simp add: it)
    moreover have "mset (dl_iter (ds_doc_lengths ?ds)) = filter_mset (\<lambda>((d, _), _). d \<notin> dels) (mset (concat (map rd_lens rs)))"
      using opened_stats_ok(2) [OF lf] merge_lengths_mset(2) [OF dist, of dels] by simp
    moreover have "mset (rd_points (DiskReader ?ds) x) = filter_mset (\<lambda>(d, _). d \<notin> dels) (mset (concat (map (\<lambda>r. rd_points r x) rs)))" for x
      using built_points [OF np_kinds_merge [OF nok], of dels x] merge_numeric_points [of rs dels x] nok
      by (simp add: rd_points_def opened_def)
    moreover have "ds_bool_true_ids ?ds x = (\<Union>r \<in> set rs. rd_bool_true_ids r x) - dels"
      "ds_bool_false_ids ?ds x = (\<Union>r \<in> set rs. rd_bool_false_ids r x) - dels" for x
      using merge_bools_get [OF bok, of dels x] by (simp_all add: ds_bool_true_ids_def ds_bool_false_ids_def opened_def)
    ultimately show ?thesis using ok by (simp add: compacted_from_def)
  qed
  moreover have "ds_numeric_fields ?ds = ?nfs" "ds_bool_fields ?ds = ?bools" by (simp_all add: opened_def)
  ultimately show ?thesis using w op opened_stats_ok(1) [OF lf] by blast
qed

section \<open>Properties\<close>

text \<open>C12. The heap-driven iterator \<open>MergedTerms\<close> yields, from any number of term-ordered sources, every
  term once and in order, with the merge of its lists over all sources and without deleted
  documents; terms that are left without a document are skipped.  The iteration terminates.\<close>

theorem merged_terms_spec:
  assumes "\<forall>s \<in> set sources. omap_ok s"
  shows "mt_collect (mt_new sources dels) =
    filter (\<lambda>(_, l). items l \<noteq> [])
      (map (\<lambda>k. (k, filter_in_place dels (from_items (lists_of sources k)))) (sort_dedup (concat (map (map fst) sources))))
    \<and> dictionary_ok (mt_collect (mt_new sources dels))"
  using mt_collect_new [OF assms, of dels] dictionary_ok_merged_reference [of dels sources]
  by (simp add: merged_reference_def live_list_def all_keys_def)

theorem merged_terms_spec_witness:
  "omap_ok (seg_terms sample_segment)
   \<and> dictionary_ok (mt_collect (mt_new [seg_terms sample_segment, [], seg_terms sample_segment] {9}))"
proof -
  have ok: "omap_ok (seg_terms sample_segment)" by (simp add: sample_segment_def seg_new_def omap_ok_def)
  then have "\<forall>s \<in> set [seg_terms sample_segment, [], seg_terms sample_segment]. omap_ok s"
    by (simp add: omap_ok_def)
  from ok merged_terms_spec [OF this, of "{9}"] show ?thesis by blast
qed

text \<open>C8. Compaction of any segments over disjoint documents succeeds, and its output, opened again,
  answers like its inputs together minus the documents deleted when the job was planned: exact
  lookups of every term, document lengths, numeric values and boolean filters.  The counts and lengths of the
  merged segment fit the widths of the file format, and the transducer and bitmap libraries behave as documented.\<close>

theorem compaction_spec:
  assumes "fst_lawful F" and "roaring_lawful R" and "inputs_ok F kind rs" and "merge_fits F rs dels"
  shows "\<exists>bs. compact_segments F R rs dels = Inr bs \<and> (length bs < 2 ^ 64 \<longrightarrow>
    (\<exists>ds. disk_open F R bs = Inr ds \<and> disk_ok F ds \<and> rd_stats_ok (DiskReader ds) \<and> compacted_from F rs dels ds))"
  using compact_segments_opens [OF assms] by blast

theorem compaction_spec_witness:
  "inputs_ok plain_fst (\<lambda>_. KInt) [SegReader sample_segment] \<and> merge_fits plain_fst [SegReader sample_segment] {9}
   \<and> (\<exists>bs. compact_segments plain_fst plain_roaring [SegReader sample_segment] {9} = Inr bs)"
proof -
  have ins: "inputs_ok plain_fst (\<lambda>_. KInt) [SegReader sample_segment]"
    by (simp add: inputs_ok_def sample_segment_def seg_new_def seg_ok_def dictionary_ok_def omap_ok_def pl_ok_def)
  let ?l = "\<lparr>items = [with_weight 5 [3, 7] 2], max_weight = 2\<rparr> :: posting_list"
  have enc: "length (encode_posting_list ?l) < 2 ^ 32"
    by (simp add: encode_posting_list_def with_weight_def push_var_u32_def push_var_u16_def push_var_u64.simps)
  have one: "sort_dedup [k] = [k]" for k :: term_key by (simp add: sort_dedup_def)
  have "merged_reference {9} [[(TermKey 1 ''ab'', ?l)]] = [(TermKey 1 ''ab'', ?l)]"
    by (simp add: merged_reference_def all_keys_def one lists_of_def live_list_def from_items_def from_sorted_def
        filter_in_place_def pl_retain_def is_deleted_def largest_weight_def with_weight_def)
  then have "merge_fits plain_fst [SegReader sample_segment] {9}"
    using enc by (simp add: merge_fits_def sections_fit_def sample_segment_def seg_new_def terms_fit_def dictionary_ok_def omap_ok_def
        pl_ok_def postings_fit_def with_weight_def lengths_fit_def merge_lengths_def merge_numeric_def merge_bools_def merge_rows_def
        np_build_def nf_from_points_def rows_merge_from_def rows_is_empty_def rows_new_def omap_entry_def)
  with ins compaction_spec [OF plain_fst_lawful plain_roaring_lawful ins this] show ?thesis by blast
qed

end
