(* ===== verification/Index_Files.thy ===== *)
theory Index_Files
  imports Posting_Ops
begin

text \<open>
  \<^verbatim>\<open>crates/core-index/src/lsm/deletes.rs\<close>, \<^verbatim>\<open>manifest.rs\<close> and the naming of segment files in
  \<^verbatim>\<open>lsm/manager.rs\<close>: the two text files next to the segments.  A file is the string of its bytes, or
  \<open>None\<close> when it does not exist.  Text is ASCII: a byte beyond it makes an entry of the delete file
  invalid (the source reports it as invalid data, too, whether as bad UTF-8 or as a bad number).
\<close>

section \<open>Text\<close>

definition newline :: char where
  "newline = CHR 0x0A"

definition digit :: "nat \<Rightarrow> char" where
  "digit n = char_of (48 + n)"

text \<open>\<open>format!("{n}")\<close>.\<close>

fun show_nat :: "nat \<Rightarrow> string" where
  "show_nat n = (if n < 10 then [digit n] else show_nat (n div 10) @ [digit (n mod 10)])"

declare show_nat.simps [simp del]

text \<open>\<open>str::parse::<u64>\<close>: an optional plus sign, then digits; a value that does not fit is an error.\<close>

definition digit_value :: "char \<Rightarrow> nat option" where
  "digit_value c = (let n = of_char c :: nat in if 48 \<le> n \<and> n \<le> 57 then Some (n - 48) else None)"

fun parse_digits :: "nat \<Rightarrow> string \<Rightarrow> nat option" where
  "parse_digits acc [] = Some acc"
| "parse_digits acc (c # cs) =
     (case digit_value c of
        None \<Rightarrow> None
      | Some v \<Rightarrow> if acc * 10 + v < 2 ^ 64 then parse_digits (acc * 10 + v) cs else None)"

definition parse_u64 :: "string \<Rightarrow> u64 option" where
  "parse_u64 s =
     (if s = [] \<or> s = ''+'' \<or> s = ''-'' then None
      else map_option word_of_nat (parse_digits 0 (if hd s = CHR ''+'' then tl s else s)))"

text \<open>\<open>str::lines\<close>: a line ends with a newline, which may follow a carriage return; the last line may
  do without.\<close>

definition strip_cr :: "string \<Rightarrow> string" where
  "strip_cr s = (if s \<noteq> [] \<and> last s = CHR 0x0D then butlast s else s)"

fun lines_from :: "string \<Rightarrow> string \<Rightarrow> string list" where
  "lines_from acc [] = (if acc = [] then [] else [acc])"
| "lines_from acc (c # cs) = (if c = newline then strip_cr acc # lines_from [] cs else lines_from (acc @ [c]) cs)"

definition lines :: "string \<Rightarrow> string list" where
  "lines s = lines_from [] s"

definition is_blank :: "char \<Rightarrow> bool" where
  "is_blank c \<longleftrightarrow> of_char c \<in> {9, 10, 11, 12, 13, 32 :: nat}"

definition trim :: "string \<Rightarrow> string" where
  "trim s = rev (dropWhile is_blank (rev (dropWhile is_blank s)))"

section \<open>The delete file\<close>

text \<open>What remains after cutting everything behind the last newline.\<close>

definition complete_part :: "string \<Rightarrow> string" where
  "complete_part bs = rev (dropWhile (\<lambda>b. b \<noteq> newline) (rev bs))"

fun parse_deletes :: "string list \<Rightarrow> delete_set \<Rightarrow> delete_set result" where
  "parse_deletes [] deleted = Inr deleted"
| "parse_deletes (line # ls) deleted =
     (let line = trim line
      in if line = [] then parse_deletes ls deleted
         else case parse_u64 line of
                None \<Rightarrow> Inl (InvalidData ''bad delete entry'')
              | Some d \<Rightarrow> parse_deletes ls (ds_delete d deleted))"

text \<open>The delete set, and the file as reading leaves it.\<close>

definition read_deletes :: "string option \<Rightarrow> (delete_set \<times> string option) result" where
  "read_deletes file =
     (case file of
        None \<Rightarrow> Inr ({}, None)
      | Some bs \<Rightarrow> and_then (parse_deletes (lines (complete_part bs)) {}) (\<lambda>deleted. Inr (deleted, Some (complete_part bs))))"

definition delete_line :: "u64 \<Rightarrow> string" where
  "delete_line d = show_nat (unat d) @ [newline]"

definition append_delete :: "string option \<Rightarrow> u64 \<Rightarrow> string option" where
  "append_delete file d = Some ((case file of None \<Rightarrow> [] | Some bs \<Rightarrow> bs) @ delete_line d)"

definition clear_deletes :: "string option \<Rightarrow> string option" where
  "clear_deletes file = None"

section \<open>The manifest\<close>

definition strip_suffix :: "string \<Rightarrow> string \<Rightarrow> string option" where
  "strip_suffix suf s = (if suffix suf s then Some (take (length s - length suf) s) else None)"

definition manifest_line :: "string \<Rightarrow> string list \<Rightarrow> string list" where
  "manifest_line line live =
     (case strip_suffix ''.del'' line of
        Some removed \<Rightarrow> filter (\<lambda>name. name \<noteq> removed) live
      | None \<Rightarrow> live @ [line])"

definition read_manifest :: "string option \<Rightarrow> string list" where
  "read_manifest file = (case file of None \<Rightarrow> [] | Some text \<Rightarrow> fold manifest_line (lines text) [])"

definition compact_manifest :: "string list \<Rightarrow> string option" where
  "compact_manifest live = Some (concat (map (\<lambda>name. name @ [newline]) live))"

definition append_segment :: "string option \<Rightarrow> string \<Rightarrow> string option" where
  "append_segment file name = Some ((case file of None \<Rightarrow> [] | Some text \<Rightarrow> text) @ name @ [newline])"

section \<open>Segment names\<close>

definition segment_name :: "u64 \<Rightarrow> string" where
  "segment_name n = ''segment-'' @ show_nat (unat n) @ ''.idx''"

text \<open>\<open>Path::file_stem\<close>: the name up to its last dot.\<close>

definition file_stem :: "string \<Rightarrow> string" where
  "file_stem name =
     (let r = dropWhile (\<lambda>c. c \<noteq> CHR ''.'') (rev name)
      in if tl r = [] then name else rev (tl r))"

definition segment_id_of :: "string \<Rightarrow> u64 option" where
  "segment_id_of name =
     (let stem = file_stem name
      in if prefix ''segment-'' stem then parse_u64 (drop 8 stem) else None)"

section \<open>Numbers in text\<close>

lemma digit_value_digit: "n < 10 \<Longrightarrow> digit_value (digit n) = Some n"
  by (simp add: digit_value_def digit_def of_char_of Let_def)

lemma show_nat_digits: "c \<in> set (show_nat n) \<Longrightarrow> \<exists>v < 10. c = digit v"
proof (induction n rule: show_nat.induct)
  case (1 n)
  show ?case
  proof (cases "n < 10")
    case True
    with "1.prems" show ?thesis by (subst (asm) show_nat.simps) auto
  next
    case False
    then have "c \<in> set (show_nat (n div 10)) \<or> c = digit (n mod 10)"
      using "1.prems" by (subst (asm) show_nat.simps) auto
    then show ?thesis using "1.IH" [OF False] by (auto intro: exI [of _ "n mod 10"])
  qed
qed

lemma show_nat_ne: "show_nat n \<noteq> []"
  by (subst show_nat.simps) simp

lemma parse_digits_append:
  "parse_digits acc (xs @ ys) = Option.bind (parse_digits acc xs) (\<lambda>a. parse_digits a ys)"
  by (induction acc xs rule: parse_digits.induct) (auto split: option.split)

lemma parse_show_nat: "n < 2 ^ 64 \<Longrightarrow> parse_digits 0 (show_nat n) = Some n"
proof (induction n rule: show_nat.induct)
  case (1 n)
  show ?case
  proof (cases "n < 10")
    case True
    then show ?thesis by (subst show_nat.simps) (simp add: digit_value_digit)
  next
    case False
    have IH: "parse_digits 0 (show_nat (n div 10)) = Some (n div 10)" using 1 False by auto
    have "n div 10 * 10 + n mod 10 = n" by simp
    then show ?thesis
      using "1.prems" False by (subst show_nat.simps) (simp add: parse_digits_append IH digit_value_digit)
  qed
qed

lemma digit_not: "v < 10 \<Longrightarrow> digit v \<noteq> newline \<and> digit v \<noteq> CHR ''.'' \<and> digit v \<noteq> CHR ''+'' \<and> digit v \<noteq> CHR ''-'' \<and> \<not> is_blank (digit v)"
proof -
  assume "v < 10"
  then have "v \<in> {0, 1, 2, 3, 4, 5, 6, 7, 8, 9}" by auto
  then show ?thesis by (auto simp: digit_def newline_def is_blank_def char_of_def)
qed

lemma parse_u64_show: "parse_u64 (show_nat (unat d)) = Some d"
proof -
  obtain v where "v < 10" "hd (show_nat (unat d)) = digit v"
    using show_nat_digits hd_in_set [OF show_nat_ne] by blast
  then have "hd (show_nat (unat d)) \<noteq> CHR ''+''" "hd (show_nat (unat d)) \<noteq> CHR ''-''" using digit_not by metis+
  then show ?thesis
    using parse_show_nat [of "unat d"] unat_u64_lt [of d] by (auto simp: parse_u64_def show_nat_ne)
qed

section \<open>Lines\<close>

lemma lines_from_line:
  "newline \<notin> set l \<Longrightarrow> lines_from acc (l @ newline # rest) = strip_cr (acc @ l) # lines_from [] rest"
  by (induction l arbitrary: acc) auto

lemma lines_from_fragment: "newline \<notin> set l \<Longrightarrow> lines_from acc l = (if acc @ l = [] then [] else [acc @ l])"
  by (induction l arbitrary: acc) auto

definition line_ok :: "string \<Rightarrow> bool" where
  "line_ok l \<longleftrightarrow> newline \<notin> set l \<and> strip_cr l = l"

definition text_of :: "string list \<Rightarrow> string" where
  "text_of ls = concat (map (\<lambda>l. l @ [newline]) ls)"

lemma text_of_simps [simp]: "text_of [] = []" "text_of (l # ls) = l @ newline # text_of ls"
  "text_of (ls @ ms) = text_of ls @ text_of ms"
  by (simp_all add: text_of_def)

lemma lines_text_of: "\<forall>l \<in> set ls. line_ok l \<Longrightarrow> lines_from [] (text_of ls @ rest) = ls @ lines_from [] rest"
  by (induction ls) (auto simp: lines_from_line line_ok_def)

lemma text_of_ends: "ls \<noteq> [] \<Longrightarrow> \<exists>t. text_of ls = t @ [newline]"
  by (cases ls rule: rev_cases) auto

lemma complete_part_text_of: "newline \<notin> set torn \<Longrightarrow> complete_part (text_of ls @ torn) = text_of ls"
proof -
  assume torn: "newline \<notin> set torn"
  have skip: "dropWhile (\<lambda>b. b \<noteq> newline) (rev torn @ zs) = dropWhile (\<lambda>b. b \<noteq> newline) zs" for zs
    using torn by (intro dropWhile_append2) auto
  show ?thesis
  proof (cases "ls = []")
    case False
    then obtain t where "text_of ls = t @ [newline]" using text_of_ends by blast
    then show ?thesis by (simp add: complete_part_def skip)
  qed (use torn in \<open>auto simp: complete_part_def\<close>)
qed

section \<open>What the files hold\<close>

lemma show_nat_chars:
  "newline \<notin> set (show_nat n)" "CHR ''.'' \<notin> set (show_nat n)" "c \<in> set (show_nat n) \<Longrightarrow> \<not> is_blank c"
  using show_nat_digits [of newline n] show_nat_digits [of "CHR ''.''" n] show_nat_digits [of c n] digit_not
  by metis+

lemma strip_cr_blank: "\<forall>c \<in> set l. \<not> is_blank c \<Longrightarrow> strip_cr l = l"
proof -
  assume l: "\<forall>c \<in> set l. \<not> is_blank c"
  have "is_blank (CHR 0x0D)" by (simp add: is_blank_def)
  with l show ?thesis using last_in_set [of l] by (metis strip_cr_def)
qed

lemma trim_blankless: "\<forall>c \<in> set l. \<not> is_blank c \<Longrightarrow> trim l = l"
proof -
  assume l: "\<forall>c \<in> set l. \<not> is_blank c"
  have "dropWhile is_blank xs = xs" if "\<forall>c \<in> set xs. \<not> is_blank c" for xs
    using that by (cases xs) auto
  from this [of l] this [of "rev l"] show ?thesis using l by (simp add: trim_def)
qed

lemma delete_number_ok: "line_ok (show_nat (unat d))"
  using show_nat_chars by (simp add: line_ok_def strip_cr_blank)

definition delete_text :: "u64 list \<Rightarrow> string" where
  "delete_text ds = text_of (map (\<lambda>d. show_nat (unat d)) ds)"

lemma parse_deletes_numbers:
  "parse_deletes (map (\<lambda>d. show_nat (unat d)) ds) deleted = Inr (deleted \<union> set ds)"
proof (induction ds arbitrary: deleted)
  case (Cons d ds)
  have "trim (show_nat (unat d)) = show_nat (unat d)" using show_nat_chars by (intro trim_blankless) blast
  then show ?case by (simp add: Cons.IH parse_u64_show show_nat_ne ds_delete_def)
qed simp

lemma read_deletes_text: 
  assumes "newline \<notin> set torn"
  shows "read_deletes (Some (delete_text ds @ torn)) = Inr (set ds, Some (delete_text ds))"
  using complete_part_text_of [OF assms, of "map (\<lambda>d. show_nat (unat d)) ds"]
    lines_text_of [of "map (\<lambda>d. show_nat (unat d)) ds" "[]"] parse_deletes_numbers [of ds "{}"]
  by (simp add: read_deletes_def delete_text_def lines_def delete_number_ok and_then_def)

lemma append_delete_text: "append_delete (Some (delete_text ds)) d = Some (delete_text (ds @ [d]))"
  by (simp add: append_delete_def delete_text_def delete_line_def)

text \<open>C15. A crash while a deletion is being recorded: whatever part of the new line reached the file,
  reading it back yields the deletions recorded before, with the new one only when its line is complete,
  and leaves a file of complete lines to which the next deletion is appended.\<close>

theorem torn_delete_recovers:
  "(let recorded = if n < length (delete_line d) then ds else ds @ [d]
    in read_deletes (Some (delete_text ds @ take n (delete_line d))) = Inr (set recorded, Some (delete_text recorded))
       \<and> append_delete (Some (delete_text recorded)) e = Some (delete_text (recorded @ [e])))"
proof (cases "n < length (delete_line d)")
  case True
  then have "take n (delete_line d) = take n (show_nat (unat d))" by (simp add: delete_line_def)
  then have "newline \<notin> set (take n (delete_line d))" using show_nat_chars(1) in_set_takeD by metis
  with True show ?thesis by (simp add: read_deletes_text append_delete_text)
next
  case False
  have "delete_text ds @ delete_line d = delete_text (ds @ [d]) @ []"
    by (simp add: delete_text_def delete_line_def)
  with False show ?thesis using read_deletes_text [of "[]" "ds @ [d]"] by (simp add: append_delete_text)
qed

lemma segment_name_chars: "c \<in> set (segment_name n) \<Longrightarrow> c \<noteq> newline \<and> \<not> is_blank c"
  using show_nat_chars by (auto simp: segment_name_def newline_def is_blank_def)

lemma segment_name_line: "line_ok (segment_name n)"
  using segment_name_chars by (auto simp: line_ok_def intro: strip_cr_blank)

lemma idx_not_del: "strip_suffix ''.del'' (t @ ''.idx'') = None"
proof -
  have "\<not> suffix ''.del'' (t @ ''.idx'')"
  proof
    assume "suffix ''.del'' (t @ ''.idx'')"
    then obtain u where "t @ ''.idx'' = u @ ''.del''" by (auto simp: suffix_def)
    then have "last (t @ ''.idx'') = last (u @ ''.del'')" by metis
    then show False by simp
  qed
  then show ?thesis by (simp add: strip_suffix_def)
qed

lemma manifest_line_idx: "manifest_line (t @ ''.idx'') live = live @ [t @ ''.idx'']"
  by (simp add: manifest_line_def idx_not_del)

lemma manifest_line_segment: "manifest_line (segment_name n) live = live @ [segment_name n]"
  using manifest_line_idx [of "''segment-'' @ show_nat (unat n)" live] by (simp add: segment_name_def)

lemma manifest_lines_segments: "fold manifest_line (map segment_name ns) live = live @ map segment_name ns"
  by (induction ns arbitrary: live) (simp_all add: manifest_line_segment)

lemma read_manifest_segments: "read_manifest (Some (text_of (map segment_name ns))) = map segment_name ns"
  using lines_text_of [of "map segment_name ns" "[]"]
  by (simp add: read_manifest_def lines_def segment_name_line manifest_lines_segments)

lemma append_segment_text: "append_segment (Some (text_of ls)) l = Some (text_of (ls @ [l]))"
  by (simp add: append_segment_def)

lemma append_segments_text:
  "fold (\<lambda>n file. append_segment file (segment_name n)) ns (Some (text_of ls)) = Some (text_of (ls @ map segment_name ns))"
  by (induction ns arbitrary: ls) (simp_all add: append_segment_text del: text_of_simps(3))

lemma compact_manifest_text: "compact_manifest ls = Some (text_of ls)"
  by (simp add: compact_manifest_def text_of_def)

lemma file_stem_ext: "CHR ''.'' \<notin> set ext \<Longrightarrow> stem \<noteq> [] \<Longrightarrow> file_stem (stem @ CHR ''.'' # ext) = stem"
proof -
  assume "CHR ''.'' \<notin> set ext" "stem \<noteq> []"
  then have "dropWhile (\<lambda>c. c \<noteq> CHR ''.'') (rev (stem @ CHR ''.'' # ext)) = CHR ''.'' # rev stem"
    using dropWhile_append2 [of "rev ext" "\<lambda>c. c \<noteq> CHR ''.''" "CHR ''.'' # rev stem"] by auto
  with \<open>stem \<noteq> []\<close> show ?thesis by (simp add: file_stem_def)
qed

lemma segment_id_of_name: "segment_id_of (segment_name n) = Some n"
proof -
  have "file_stem (segment_name n) = ''segment-'' @ show_nat (unat n)"
    using file_stem_ext [of "''idx''" "''segment-'' @ show_nat (unat n)"] by (simp add: segment_name_def)
  then show ?thesis by (simp add: segment_id_of_def parse_u64_show)
qed

text \<open>C16. The manifest round trip: a manifest rewritten for the live segments and then extended by the
  segments installed since lists exactly these, in order; and the number of each segment, from which the
  next free number is found at start, is recovered from its name.\<close>

theorem manifest_round_trip:
  "let file = fold (\<lambda>n file. append_segment file (segment_name n)) added (compact_manifest (map segment_name live))
   in read_manifest file = map segment_name (live @ added)
      \<and> map segment_id_of (read_manifest file) = map Some (live @ added)"
  using read_manifest_segments [of "live @ added"]
  by (simp add: compact_manifest_text append_segments_text segment_id_of_name del: text_of_simps(3))

text \<open>C40. Unlike the delete file, the manifest is not repaired after a torn append: when a crash cut the
  line of one segment short, the line of the next segment continues it, and reading yields one name that
  is neither's.\<close>

theorem torn_manifest_fuses:
  assumes "0 < k" "k \<le> length (segment_name a)"
  shows "read_manifest (append_segment (Some (text_of (map segment_name live) @ take k (segment_name a))) (segment_name b))
         = map segment_name live @ [take k (segment_name a) @ segment_name b]"
proof -
  let ?fused = "take k (segment_name a) @ segment_name b"
  have "\<forall>c \<in> set ?fused. c \<noteq> newline \<and> \<not> is_blank c"
    using segment_name_chars by (auto dest: in_set_takeD)
  then have "line_ok ?fused" by (auto simp: line_ok_def intro!: strip_cr_blank)
  moreover have "manifest_line ?fused ls = ls @ [?fused]" for ls
    using manifest_line_idx [of "take k (segment_name a) @ ''segment-'' @ show_nat (unat b)" ls] 
    by (simp add: segment_name_def)
  moreover have "append_segment (Some (text_of (map segment_name live) @ take k (segment_name a))) (segment_name b)
      = Some (text_of (map segment_name live @ [?fused]))"
    by (simp add: append_segment_def)
  ultimately show ?thesis
    using lines_text_of [of "map segment_name live @ [?fused]" "[]"]
    by (auto simp: read_manifest_def lines_def segment_name_line manifest_lines_segments simp del: text_of_simps(3))
qed

theorem torn_manifest_fuses_witness:
  "read_manifest (append_segment (Some (text_of (map segment_name [0]) @ take 5 (segment_name 1))) (segment_name 2))
   = map segment_name [0] @ [take 5 (segment_name 1) @ segment_name 2]"
  by (rule torn_manifest_fuses) (simp_all add: segment_name_def)

end
