(* ===== verification/Lsm.thy ===== *)
theory Lsm
  imports Compaction Index_Files
begin

text \<open>
  \<^verbatim>\<open>crates/core-index/src/lsm/manager.rs\<close>: the log-structured index, its flush queue, its
  compaction planning and the installation of finished work.

  The index directory is a record of the files in it.  Every call into the file system that can fail
  takes the failure as an argument: \<open>None\<close>, or how many bytes got through and the error.  The clock is
  a number of milliseconds.  Whether a snapshot still holds a generation (\<open>Arc::strong_count\<close>) is an
  argument of \<open>seal\<close>.  Vector files and graphs are not modelled.
\<close>

section \<open>The directory\<close>

record lsm_dir =
  dir_files :: "string \<Rightarrow> u8 list option"
  dir_manifest :: "string option"
  dir_deletes :: "string option"

definition dir_empty :: lsm_dir where
  "dir_empty = \<lparr>dir_files = (\<lambda>_. None), dir_manifest = None, dir_deletes = None\<rparr>"

text \<open>Creating a file and writing all of it.\<close>

definition write_file :: "fault \<Rightarrow> string \<Rightarrow> u8 list \<Rightarrow> lsm_dir \<Rightarrow> lsm_dir \<times> unit result" where
  "write_file fault name bs dir =
     (case fault of
        None \<Rightarrow> (dir\<lparr>dir_files := (dir_files dir)(name \<mapsto> bs)\<rparr>, Inr ())
      | Some (n, e) \<Rightarrow> (dir\<lparr>dir_files := (dir_files dir)(name \<mapsto> take n bs)\<rparr>, Inl e))"

definition remove_file :: "string \<Rightarrow> lsm_dir \<Rightarrow> lsm_dir" where
  "remove_file name dir = dir\<lparr>dir_files := (dir_files dir)(name := None)\<rparr>"

definition open_file :: "fst_ops \<Rightarrow> roaring_ops \<Rightarrow> string \<Rightarrow> lsm_dir \<Rightarrow> disk_segment result" where
  "open_file F R name dir =
     (case dir_files dir name of None \<Rightarrow> Inl (NotFound ''no such file'') | Some bs \<Rightarrow> disk_open F R bs)"

text \<open>\<open>write_segment\<close>: nothing but the writes can fail here, see \<open>write_segment_to\<close>.\<close>

definition write_segment :: "fst_ops \<Rightarrow> roaring_ops \<Rightarrow> fault \<Rightarrow> string \<Rightarrow> immutable_segment \<Rightarrow> lsm_dir \<Rightarrow> lsm_dir \<times> unit result" where
  "write_segment F R fault name s dir =
     (case write_segment_to F R s of
        Inl e \<Rightarrow> (dir\<lparr>dir_files := (dir_files dir)(name \<mapsto> [])\<rparr>, Inl e)
      | Inr bs \<Rightarrow> write_file fault name bs dir)"

text \<open>Appending the line of a segment or of a deletion, which may be torn.\<close>

definition manifest_append :: "fault \<Rightarrow> string \<Rightarrow> lsm_dir \<Rightarrow> lsm_dir \<times> unit result" where
  "manifest_append fault name dir =
     (let before = (case dir_manifest dir of None \<Rightarrow> [] | Some text \<Rightarrow> text)
      in case fault of
           None \<Rightarrow> (dir\<lparr>dir_manifest := append_segment (dir_manifest dir) name\<rparr>, Inr ())
         | Some (n, e) \<Rightarrow> (dir\<lparr>dir_manifest := Some (before @ take n (name @ [newline]))\<rparr>, Inl e))"

definition deletes_append :: "fault \<Rightarrow> u64 \<Rightarrow> lsm_dir \<Rightarrow> lsm_dir \<times> unit result" where
  "deletes_append fault d dir =
     (let before = (case dir_deletes dir of None \<Rightarrow> [] | Some text \<Rightarrow> text)
      in case fault of
           None \<Rightarrow> (dir\<lparr>dir_deletes := append_delete (dir_deletes dir) d\<rparr>, Inr ())
         | Some (n, e) \<Rightarrow> (dir\<lparr>dir_deletes := Some (before @ take n (delete_line d))\<rparr>, Inl e))"

definition manifest_rewrite :: "fault \<Rightarrow> string list \<Rightarrow> lsm_dir \<Rightarrow> lsm_dir \<times> unit result" where
  "manifest_rewrite fault live dir =
     (case fault of
        None \<Rightarrow> (dir\<lparr>dir_manifest := compact_manifest live\<rparr>, Inr ())
      | Some (n, e) \<Rightarrow> (dir\<lparr>dir_manifest := map_option (take n) (compact_manifest live)\<rparr>, Inl e))"

section \<open>The flush queue\<close>

record flush_job =
  fj_seq :: u64
  fj_path :: string
  fj_generations :: "mem_index list"

record pending_flush =
  pf_seq :: u64
  pf_path :: string
  pf_generations :: "mem_index list"
  pf_added_after :: nat

record flush_queue =
  fq_made :: "flush_job list"
  fq_pending :: "pending_flush list"
  fq_next_seq :: u64
  fq_failure :: "string option"

definition fq_new :: flush_queue where
  "fq_new = \<lparr>fq_made = [], fq_pending = [], fq_next_seq = 0, fq_failure = None\<rparr>"

primrec error_text :: "io_error \<Rightarrow> string" where
  "error_text (UnexpectedEof s) = s"
| "error_text (InvalidData s) = s"
| "error_text (InvalidInput s) = s"
| "error_text (NotFound s) = s"
| "error_text (AlreadyExists s) = s"
| "error_text (OtherError s) = s"

text \<open>Builds the segment from the generations, writes it, and opens it.\<close>

definition job_write :: "fst_ops \<Rightarrow> roaring_ops \<Rightarrow> fault \<Rightarrow> flush_job \<Rightarrow> lsm_dir \<Rightarrow> lsm_dir \<times> disk_segment result" where
  "job_write F R fault job dir =
     (case write_segment F R fault (fj_path job) (freeze_shared (fj_generations job)) dir of
        (dir, Inl e) \<Rightarrow> (dir, Inl e)
      | (dir, Inr _) \<Rightarrow> (dir, open_file F R (fj_path job) dir))"

definition fq_push :: "string \<Rightarrow> mem_index list \<Rightarrow> flush_queue \<Rightarrow> flush_queue" where
  "fq_push path gens q =
     q\<lparr>fq_next_seq := fq_next_seq q + 1,
       fq_pending := fq_pending q @ [\<lparr>pf_seq = fq_next_seq q, pf_path = path, pf_generations = gens, pf_added_after = 0\<rparr>],
       fq_made := fq_made q @ [\<lparr>fj_seq = fq_next_seq q, fj_path = path, fj_generations = gens\<rparr>]\<rparr>"

definition fq_segment_added :: "flush_queue \<Rightarrow> flush_queue" where
  "fq_segment_added q = q\<lparr>fq_pending := map (\<lambda>p. p\<lparr>pf_added_after := pf_added_after p + 1\<rparr>) (fq_pending q)\<rparr>"

definition fq_take_jobs :: "flush_queue \<Rightarrow> flush_job list \<times> flush_queue" where
  "fq_take_jobs q = (fq_made q, q\<lparr>fq_made := []\<rparr>)"

definition fq_complete :: "u64 \<Rightarrow> flush_queue \<Rightarrow> (pending_flush \<times> flush_queue) result" where
  "fq_complete seq q =
     (case fq_pending q of
        front # rest \<Rightarrow>
          if pf_seq front = seq then Inr (front, q\<lparr>fq_pending := rest\<rparr>)
          else Inl (OtherError ''segment write finished out of order'')
      | [] \<Rightarrow> Inl (OtherError ''segment write finished out of order''))"

definition fq_flushed_through :: "flush_queue \<Rightarrow> u64" where
  "fq_flushed_through q = fq_next_seq q - word_of_nat (length (fq_pending q))"

definition fq_writes_in_flight :: "flush_queue \<Rightarrow> bool" where
  "fq_writes_in_flight q \<longleftrightarrow> length (fq_pending q) > length (fq_made q)"

definition fq_fail :: "io_error \<Rightarrow> flush_queue \<Rightarrow> flush_queue" where
  "fq_fail e q = (case fq_failure q of None \<Rightarrow> q\<lparr>fq_failure := Some (error_text e)\<rparr> | Some _ \<Rightarrow> q)"

definition fq_health :: "flush_queue \<Rightarrow> unit result" where
  "fq_health q = (case fq_failure q of None \<Rightarrow> Inr () | Some msg \<Rightarrow> Inl (OtherError (''segment write failed earlier: '' @ msg)))"

section \<open>The index\<close>

datatype segment_handle =
    MemoryHandle immutable_segment
  | DiskHandle string

record lsm_index =
  lsm_mem :: mem_index
  lsm_generations :: "mem_index list"
  lsm_handles :: "segment_handle list"
  lsm_segments :: "search_reader list"
  lsm_flush_threshold :: nat
  lsm_queue :: flush_queue
  lsm_deleted :: delete_set
  lsm_delete_generation :: u64
  lsm_root :: "lsm_dir option"
  lsm_next_segment_id :: u64
  lsm_next_doc_id :: u64
  lsm_next_compaction_job_id :: u64
  lsm_max_array_row :: u64
  lsm_last_ingest :: "nat option"

definition lsm_new :: "nat \<Rightarrow> lsm_index" where
  "lsm_new threshold =
     \<lparr>lsm_mem = mi_new, lsm_generations = [], lsm_handles = [], lsm_segments = [], lsm_flush_threshold = threshold,
      lsm_queue = fq_new, lsm_deleted = {}, lsm_delete_generation = 0, lsm_root = None, lsm_next_segment_id = 0,
      lsm_next_doc_id = 0, lsm_next_compaction_job_id = 0, lsm_max_array_row = 0, lsm_last_ingest = None\<rparr>"

text \<open>The loop over the manifest when an index is opened.\<close>

record open_state =
  os_next_doc_id :: u64
  os_next_segment_id :: u64
  os_max_array_row :: u64
  os_handles :: "segment_handle list"
  os_segments :: "search_reader list"

definition open_step :: "fst_ops \<Rightarrow> roaring_ops \<Rightarrow> lsm_dir \<Rightarrow> string \<Rightarrow> open_state \<Rightarrow> open_state result" where
  "open_step F R dir name st =
     and_then (open_file F R name dir) (\<lambda>disk. Inr
       \<lparr>os_next_doc_id = (case ds_doc_id_range disk of None \<Rightarrow> os_next_doc_id st | Some (_, hi) \<Rightarrow> max (os_next_doc_id st) (hi + 1)),
        os_next_segment_id = (case segment_id_of name of None \<Rightarrow> os_next_segment_id st | Some n \<Rightarrow> max (os_next_segment_id st) (n + 1)),
        os_max_array_row = max (os_max_array_row st) (case max_array_row (ds_array_rows disk) of None \<Rightarrow> 0 | Some row \<Rightarrow> row),
        os_handles = os_handles st @ [DiskHandle name],
        os_segments = os_segments st @ [DiskReader disk]\<rparr>)"

fun open_segments :: "fst_ops \<Rightarrow> roaring_ops \<Rightarrow> lsm_dir \<Rightarrow> string list \<Rightarrow> open_state \<Rightarrow> open_state result" where
  "open_segments F R dir [] st = Inr st"
| "open_segments F R dir (name # names) st = and_then (open_step F R dir name st) (open_segments F R dir names)"

definition lsm_persistent :: "fst_ops \<Rightarrow> roaring_ops \<Rightarrow> lsm_dir \<Rightarrow> nat \<Rightarrow> lsm_index result" where
  "lsm_persistent F R dir threshold =
     and_then (read_deletes (dir_deletes dir)) (\<lambda>(deleted, file).
       let dir = dir\<lparr>dir_deletes := file\<rparr>
       in and_then
            (open_segments F R dir (read_manifest (dir_manifest dir))
              \<lparr>os_next_doc_id = 0, os_next_segment_id = 0, os_max_array_row = 0, os_handles = [], os_segments = []\<rparr>)
            (\<lambda>st. Inr
              \<lparr>lsm_mem = mi_new, lsm_generations = [], lsm_handles = os_handles st, lsm_segments = os_segments st,
               lsm_flush_threshold = threshold, lsm_queue = fq_new, lsm_deleted = deleted, lsm_delete_generation = 0,
               lsm_root = Some dir, lsm_next_segment_id = os_next_segment_id st, lsm_next_doc_id = os_next_doc_id st,
               lsm_next_compaction_job_id = 0, lsm_max_array_row = os_max_array_row st, lsm_last_ingest = None\<rparr>))"

definition highest_known_doc_id :: "lsm_index \<Rightarrow> u64" where
  "highest_known_doc_id ix =
     max (saturating_sub_u64 (lsm_next_doc_id ix) 1) (if lsm_deleted ix = {} then 0 else Max (lsm_deleted ix))"

text \<open>The loop of \<open>seal\<close>, on the generations from the newest: \<open>held i\<close> when a snapshot still reads
  generation \<open>i\<close>.\<close>

fun seal_loop :: "(nat \<Rightarrow> bool) \<Rightarrow> mem_index list \<Rightarrow> mem_index \<Rightarrow> mem_index list" where
  "seal_loop held [] sealed = [sealed]"
| "seal_loop held (newest # older) sealed =
     (if mi_estimated_bytes newest > mi_estimated_bytes sealed then sealed # newest # older
      else if held (length older) then sealed # newest # older
      else seal_loop held older (merge_from newest sealed))"

definition seal :: "(nat \<Rightarrow> bool) \<Rightarrow> lsm_index \<Rightarrow> lsm_index" where
  "seal held ix =
     (if mi_terms (lsm_mem ix) = [] \<and> mi_doc_id_range (lsm_mem ix) = None then ix
      else ix\<lparr>lsm_mem := mi_new, lsm_generations := rev (seal_loop held (rev (lsm_generations ix)) (lsm_mem ix))\<rparr>)"

definition memtable_size :: "lsm_index \<Rightarrow> nat" where
  "memtable_size ix = mi_estimated_bytes (lsm_mem ix) + sum_list (map mi_estimated_bytes (lsm_generations ix))"

definition should_flush :: "lsm_index \<Rightarrow> bool" where
  "should_flush ix \<longleftrightarrow> memtable_size ix \<ge> lsm_flush_threshold ix"

definition build_snapshot :: "lsm_index \<Rightarrow> mem_index \<Rightarrow> index_snapshot" where
  "build_snapshot ix m =
     snapshot_new m
       (map MemReader (lsm_generations ix)
        @ concat (map (\<lambda>p. map MemReader (pf_generations p)) (fq_pending (lsm_queue ix)))
        @ lsm_segments ix)
       (lsm_deleted ix)"

definition publish_snapshot :: "(nat \<Rightarrow> bool) \<Rightarrow> lsm_index \<Rightarrow> index_snapshot \<times> lsm_index" where
  "publish_snapshot held ix = (let ix = seal held ix in (build_snapshot ix mi_new, ix))"

definition lsm_snapshot :: "lsm_index \<Rightarrow> index_snapshot" where
  "lsm_snapshot ix = build_snapshot ix (lsm_mem ix)"

text \<open>The reader traits of the index itself, each on a fresh snapshot.\<close>

definition lsm_lookup :: "fst_ops \<Rightarrow> lsm_index \<Rightarrow> string \<Rightarrow> u32 \<Rightarrow> posting_list" where
  "lsm_lookup F ix = sn_lookup F (lsm_snapshot ix)"

definition lsm_term_names :: "fst_ops \<Rightarrow> lsm_index \<Rightarrow> u32 \<Rightarrow> string list" where
  "lsm_term_names F ix = sn_term_names F (lsm_snapshot ix)"

definition lsm_lookup_prefix :: "fst_ops \<Rightarrow> lsm_index \<Rightarrow> string \<Rightarrow> u32 \<Rightarrow> posting_list" where
  "lsm_lookup_prefix F ix = sn_lookup_prefix F (lsm_snapshot ix)"

definition lsm_lookup_wildcard :: "fst_ops \<Rightarrow> lsm_index \<Rightarrow> wildcard_pattern \<Rightarrow> u32 \<Rightarrow> posting_list" where
  "lsm_lookup_wildcard F ix = sn_lookup_wildcard F (lsm_snapshot ix)"

definition lsm_doc_freq :: "fst_ops \<Rightarrow> lsm_index \<Rightarrow> string \<Rightarrow> u32 \<Rightarrow> u32" where
  "lsm_doc_freq F ix = sn_doc_freq F (lsm_snapshot ix)"

definition lsm_resolve_array_rows :: "lsm_index \<Rightarrow> u64 set \<Rightarrow> u64 set" where
  "lsm_resolve_array_rows ix = sn_resolve_array_rows (lsm_snapshot ix)"

definition lsm_parent_of_row :: "lsm_index \<Rightarrow> u64 \<Rightarrow> u64 option" where
  "lsm_parent_of_row ix = sn_parent_of_row (lsm_snapshot ix)"

definition lsm_doc_of_row :: "lsm_index \<Rightarrow> u64 \<Rightarrow> u64 option" where
  "lsm_doc_of_row ix = sn_doc_of_row (lsm_snapshot ix)"

definition lsm_bool_true_ids :: "lsm_index \<Rightarrow> u32 \<Rightarrow> u64 set" where
  "lsm_bool_true_ids ix = sn_bool_true_ids (lsm_snapshot ix)"

definition lsm_bool_false_ids :: "lsm_index \<Rightarrow> u32 \<Rightarrow> u64 set" where
  "lsm_bool_false_ids ix = sn_bool_false_ids (lsm_snapshot ix)"

definition lsm_bool_value :: "lsm_index \<Rightarrow> u32 \<Rightarrow> u64 \<Rightarrow> bool option" where
  "lsm_bool_value ix = sn_bool_value (lsm_snapshot ix)"

definition lsm_numeric_range :: "lsm_index \<Rightarrow> u32 \<Rightarrow> numeric_bound option \<Rightarrow> numeric_bound option \<Rightarrow> posting_list" where
  "lsm_numeric_range ix = sn_numeric_range (lsm_snapshot ix)"

definition lsm_numeric_value :: "lsm_index \<Rightarrow> u32 \<Rightarrow> u64 \<Rightarrow> numeric_value option" where
  "lsm_numeric_value ix = sn_numeric_value (lsm_snapshot ix)"

definition lsm_numeric_bounds :: "lsm_index \<Rightarrow> u32 \<Rightarrow> numeric_value option \<times> numeric_value option" where
  "lsm_numeric_bounds ix = sn_numeric_bounds (lsm_snapshot ix)"

definition lsm_doc_len :: "lsm_index \<Rightarrow> u64 \<Rightarrow> u32 \<Rightarrow> u32 option" where
  "lsm_doc_len ix = sn_doc_len (lsm_snapshot ix)"

definition lsm_doc_count :: "lsm_index \<Rightarrow> u32 \<Rightarrow> u64" where
  "lsm_doc_count ix = sn_doc_count (lsm_snapshot ix)"

definition lsm_total_doc_len :: "lsm_index \<Rightarrow> u32 \<Rightarrow> u64" where
  "lsm_total_doc_len ix = sn_total_doc_len (lsm_snapshot ix)"

definition lsm_doc_range :: "lsm_index \<Rightarrow> (u64 \<times> u64) option" where
  "lsm_doc_range ix = sn_doc_range (lsm_snapshot ix)"

definition merge_into_memtable :: "nat \<Rightarrow> mem_index \<Rightarrow> lsm_index \<Rightarrow> lsm_index" where
  "merge_into_memtable now other ix = ix\<lparr>lsm_last_ingest := Some now, lsm_mem := merge_from (lsm_mem ix) other\<rparr>"

section \<open>Flushing\<close>

definition generations_max :: "mem_index list \<Rightarrow> u64 option" where
  "generations_max gens =
     (let tops = map (\<lambda>(_, hi). hi) (List.map_filter mi_doc_id_range gens)
      in if tops = [] then None else Some (Max (set tops)))"

definition queue_flush :: "(nat \<Rightarrow> bool) \<Rightarrow> io_error option \<Rightarrow> lsm_index \<Rightarrow> lsm_index \<times> unit result" where
  "queue_flush held sync_fault ix =
     (case fq_health (lsm_queue ix) of
        Inl e \<Rightarrow> (ix, Inl e)
      | Inr _ \<Rightarrow>
          let ix = seal held ix
          in case (lsm_root ix, sync_fault) of
               (Some _, Some e) \<Rightarrow> (ix, Inl e)
             | _ \<Rightarrow>
                 if lsm_generations ix = [] then (ix, Inr ())
                 else let gens = lsm_generations ix; ix = ix\<lparr>lsm_generations := []\<rparr>
                      in case generations_max gens of
                           None \<Rightarrow> (ix, Inl (InvalidData ''flushed generations contain no document ids''))
                         | Some hi \<Rightarrow>
                             let ix = ix\<lparr>lsm_next_doc_id := saturating_add_u64 hi 1\<rparr>
                             in case lsm_root ix of
                                  Some _ \<Rightarrow>
                                    (ix\<lparr>lsm_next_segment_id := lsm_next_segment_id ix + 1,
                                        lsm_queue := fq_push (segment_name (lsm_next_segment_id ix)) gens (lsm_queue ix)\<rparr>, Inr ())
                                | None \<Rightarrow>
                                    let segment = freeze_shared gens
                                    in (ix\<lparr>lsm_handles := lsm_handles ix @ [MemoryHandle segment],
                                           lsm_segments := lsm_segments ix @ [SegReader segment]\<rparr>, Inr ()))"

definition flush_position :: "pending_flush \<Rightarrow> lsm_index \<Rightarrow> nat" where
  "flush_position p ix = length (lsm_handles ix) - pf_added_after p"

definition insert_at :: "nat \<Rightarrow> 'a \<Rightarrow> 'a list \<Rightarrow> 'a list" where
  "insert_at n x xs = take n xs @ x # drop n xs"

definition install_flushed :: "fault \<Rightarrow> pending_flush \<Rightarrow> disk_segment \<Rightarrow> lsm_index \<Rightarrow> lsm_index \<times> unit result" where
  "install_flushed fault p disk ix =
     (case lsm_root ix of
        None \<Rightarrow> (ix, Inl (OtherError ''flushed segment without a root''))
      | Some dir \<Rightarrow>
          case manifest_append fault (pf_path p) dir of
            (dir, Inl e) \<Rightarrow> (ix\<lparr>lsm_root := Some dir\<rparr>, Inl e)
          | (dir, Inr _) \<Rightarrow>
              (ix\<lparr>lsm_root := Some dir,
                  lsm_handles := insert_at (flush_position p ix) (DiskHandle (pf_path p)) (lsm_handles ix),
                  lsm_segments := insert_at (flush_position p ix) (DiskReader disk) (lsm_segments ix)\<rparr>, Inr ()))"

definition keep_in_memory :: "pending_flush \<Rightarrow> lsm_index \<Rightarrow> lsm_index" where
  "keep_in_memory p ix =
     (let segment = freeze_shared (pf_generations p); pos = flush_position p ix
      in ix\<lparr>lsm_handles := insert_at pos (MemoryHandle segment) (lsm_handles ix),
            lsm_segments := insert_at pos (SegReader segment) (lsm_segments ix)\<rparr>)"

definition complete_flush :: "fault \<Rightarrow> u64 \<Rightarrow> disk_segment result \<Rightarrow> lsm_index \<Rightarrow> lsm_index \<times> unit result" where
  "complete_flush fault seq written ix =
     (case fq_complete seq (lsm_queue ix) of
        Inl e \<Rightarrow> (ix\<lparr>lsm_queue := fq_fail e (lsm_queue ix)\<rparr>, Inl e)
      | Inr (p, q) \<Rightarrow>
          let ix = ix\<lparr>lsm_queue := q\<rparr>;
              (ix, outcome) = (case written of Inl e \<Rightarrow> (ix, Inl e) | Inr disk \<Rightarrow> install_flushed fault p disk ix)
          in case outcome of
               Inl e \<Rightarrow> let ix = keep_in_memory p ix in (ix\<lparr>lsm_queue := fq_fail e (lsm_queue ix)\<rparr>, Inl e)
             | Inr _ \<Rightarrow> (ix, Inr ()))"

definition take_flush_jobs :: "lsm_index \<Rightarrow> flush_job list \<times> lsm_index" where
  "take_flush_jobs ix = (let (jobs, q) = fq_take_jobs (lsm_queue ix) in (jobs, ix\<lparr>lsm_queue := q\<rparr>))"

text \<open>The loop of \<open>flush\<close>; the faults of each write and of each manifest append are given by the number
  of the job.\<close>

fun flush_jobs :: "fst_ops \<Rightarrow> roaring_ops \<Rightarrow> (u64 \<Rightarrow> fault \<times> fault) \<Rightarrow> flush_job list \<Rightarrow> lsm_index \<Rightarrow> lsm_index \<times> unit result" where
  "flush_jobs F R faults [] ix = (ix, Inr ())"
| "flush_jobs F R faults (job # jobs) ix =
     (let (write_fault, append_fault) = faults (fj_seq job);
          (ix, written) = (case lsm_root ix of
              None \<Rightarrow> (ix, Inl (OtherError ''no directory''))
            | Some dir \<Rightarrow> let (dir, written) = job_write F R write_fault job dir in (ix\<lparr>lsm_root := Some dir\<rparr>, written))
      in case complete_flush append_fault (fj_seq job) written ix of
           (ix, Inl e) \<Rightarrow> (ix, Inl e)
         | (ix, Inr _) \<Rightarrow> flush_jobs F R faults jobs ix)"

definition flush :: "fst_ops \<Rightarrow> roaring_ops \<Rightarrow> (nat \<Rightarrow> bool) \<Rightarrow> io_error option \<Rightarrow> (u64 \<Rightarrow> fault \<times> fault) \<Rightarrow> lsm_index \<Rightarrow> lsm_index \<times> unit result" where
  "flush F R held sync_fault faults ix =
     (if fq_writes_in_flight (lsm_queue ix)
      then (ix, Inl (OtherError ''flush() called while segment writes are in flight''))
      else case queue_flush held sync_fault ix of
             (ix, Inl e) \<Rightarrow> (ix, Inl e)
           | (ix, Inr _) \<Rightarrow> let (jobs, ix) = take_flush_jobs ix in flush_jobs F R faults jobs ix)"

definition flush_target :: "lsm_index \<Rightarrow> u64" where
  "flush_target ix = fq_next_seq (lsm_queue ix)"

definition flushed_through :: "lsm_index \<Rightarrow> u64" where
  "flushed_through ix = fq_flushed_through (lsm_queue ix)"

definition has_pending_flushes :: "lsm_index \<Rightarrow> bool" where
  "has_pending_flushes ix \<longleftrightarrow> fq_pending (lsm_queue ix) \<noteq> []"

definition flush_health :: "lsm_index \<Rightarrow> unit result" where
  "flush_health ix = fq_health (lsm_queue ix)"

text \<open>The loop of \<open>add_immutable_segment\<close>; the faults are given by the number of the segment in the
  batch.\<close>

fun add_segments :: "fst_ops \<Rightarrow> roaring_ops \<Rightarrow> (nat \<Rightarrow> fault \<times> fault) \<Rightarrow> nat \<Rightarrow> immutable_segment list \<Rightarrow> lsm_index \<Rightarrow> lsm_index \<times> unit result" where
  "add_segments F R faults i [] ix = (ix, Inr ())"
| "add_segments F R faults i (segment # segments) ix =
     (let added = (\<lambda>handle reader ix. ix\<lparr>lsm_handles := lsm_handles ix @ [handle], lsm_segments := lsm_segments ix @ [reader],
            lsm_queue := fq_segment_added (lsm_queue ix)\<rparr>)
      in case lsm_root ix of
           None \<Rightarrow> add_segments F R faults (i + 1) segments (added (MemoryHandle segment) (SegReader segment) ix)
         | Some dir \<Rightarrow>
             let path = segment_name (lsm_next_segment_id ix); ix = ix\<lparr>lsm_next_segment_id := lsm_next_segment_id ix + 1\<rparr>
             in case write_segment F R (fst (faults i)) path segment dir of
                  (dir, Inl e) \<Rightarrow> (ix\<lparr>lsm_root := Some dir\<rparr>, Inl e)
                | (dir, Inr _) \<Rightarrow>
                    case open_file F R path dir of
                      Inl e \<Rightarrow> (ix\<lparr>lsm_root := Some dir\<rparr>, Inl e)
                    | Inr disk \<Rightarrow>
                        case manifest_append (snd (faults i)) path dir of
                          (dir, Inl e) \<Rightarrow> (ix\<lparr>lsm_root := Some dir\<rparr>, Inl e)
                        | (dir, Inr _) \<Rightarrow>
                            add_segments F R faults (i + 1) segments (added (DiskHandle path) (DiskReader disk) (ix\<lparr>lsm_root := Some dir\<rparr>)))"

definition add_immutable_segment :: "fst_ops \<Rightarrow> roaring_ops \<Rightarrow> nat \<Rightarrow> (nat \<Rightarrow> fault \<times> fault) \<Rightarrow> immutable_segment list \<Rightarrow> lsm_index \<Rightarrow> lsm_index \<times> unit result" where
  "add_immutable_segment F R now faults segments ix = add_segments F R faults 0 segments (ix\<lparr>lsm_last_ingest := Some now\<rparr>)"

section \<open>Planning compactions\<close>

definition segment_count :: "lsm_index \<Rightarrow> nat" where
  "segment_count ix = length (lsm_handles ix)"

definition segment_size_bytes :: "lsm_dir \<Rightarrow> segment_handle \<Rightarrow> u64" where
  "segment_size_bytes dir h =
     (case h of
        DiskHandle path \<Rightarrow> (case dir_files dir path of None \<Rightarrow> 0 | Some bs \<Rightarrow> word_of_nat (length bs))
      | MemoryHandle s \<Rightarrow> word_of_nat (length (seg_terms s)))"

definition segment_sizes :: "lsm_index \<Rightarrow> u64 option list" where
  "segment_sizes ix =
     map (\<lambda>h. case h of
            DiskHandle _ \<Rightarrow> Some (max (segment_size_bytes (case lsm_root ix of None \<Rightarrow> dir_empty | Some dir \<Rightarrow> dir) h) 1)
          | MemoryHandle _ \<Rightarrow> None)
       (lsm_handles ix)"

definition merge_all_due :: "u64 option list \<Rightarrow> u64 \<Rightarrow> bool" where
  "merge_all_due sizes ratio =
     (let disk = List.map_filter id sizes
      in if length disk < 2 then False
         else let largest = Max (set disk); rest = sum_list disk - largest
              in saturating_mul_u64 rest (max ratio 1) \<ge> largest)"

definition quiet_for :: "nat \<Rightarrow> nat \<Rightarrow> lsm_index \<Rightarrow> bool" where
  "quiet_for now period ix = (case lsm_last_ingest ix of None \<Rightarrow> True | Some at \<Rightarrow> now - at \<ge> period)"

definition settling :: "nat \<Rightarrow> compaction_config \<Rightarrow> lsm_index \<Rightarrow> bool" where
  "settling now config ix =
     (let in_memory = lsm_root ix \<noteq> None
            \<and> (mi_doc_id_range (lsm_mem ix) \<noteq> None \<or> lsm_generations ix \<noteq> []
               \<or> (\<exists>h \<in> set (lsm_handles ix). case h of MemoryHandle _ \<Rightarrow> True | DiskHandle _ \<Rightarrow> False))
      in \<not> quiet_for now (idle_merge_after config) ix \<or> in_memory
         \<or> merge_all_due (segment_sizes ix) (size_ratio config))"

text \<open>The inner loop of \<open>tiered_window\<close>.\<close>

function tier_extend :: "u64 option list \<Rightarrow> u64 \<Rightarrow> nat \<Rightarrow> nat \<Rightarrow> nat \<Rightarrow> u64 \<Rightarrow> u64 \<Rightarrow> u64 \<Rightarrow> nat \<times> u64" where
  "tier_extend sizes ratio max_width start stop smallest largest acc =
     (if stop < length sizes \<and> stop - start < max_width
      then case sizes ! stop of
             None \<Rightarrow> (stop, acc)
           | Some sz \<Rightarrow>
               let next_smallest = min smallest sz; next_largest = max largest sz
               in if next_largest > saturating_mul_u64 next_smallest ratio then (stop, acc)
                  else tier_extend sizes ratio max_width start (stop + 1) next_smallest next_largest (acc + sz)
      else (stop, acc))"
  by pat_completeness auto
termination
  by (relation "measure (\<lambda>(sizes, _, _, _, stop, _). length sizes - stop)") auto

declare tier_extend.simps [simp del]

definition better_window :: "nat \<Rightarrow> nat \<times> nat \<times> u64 \<Rightarrow> (nat \<times> nat \<times> u64) option \<Rightarrow> (nat \<times> nat \<times> u64) option" where
  "better_window min_w = (\<lambda>(start, stop, acc) best.
     if stop - start \<ge> min_w \<and> (case best of None \<Rightarrow> True | Some (_, _, best_total) \<Rightarrow> acc < best_total)
     then Some (start, stop, acc) else best)"

definition tiered_window :: "u64 option list \<Rightarrow> u64 \<Rightarrow> nat \<Rightarrow> nat \<Rightarrow> (nat \<times> nat) option" where
  "tiered_window sizes ratio min_w max_w =
     map_option (\<lambda>(start, stop, _). (start, stop))
       (fold (\<lambda>start best.
          case sizes ! start of
            None \<Rightarrow> best
          | Some first \<Rightarrow>
              let (stop, acc) = tier_extend sizes ratio max_w start (start + 1) first first first
              in better_window min_w (start, stop, acc) best) [0..<length sizes] None)"

text \<open>The inner loop of \<open>cheapest_window\<close>.\<close>

function run_extend :: "u64 option list \<Rightarrow> nat \<Rightarrow> nat \<Rightarrow> nat \<Rightarrow> u64 \<Rightarrow> nat \<times> u64" where
  "run_extend sizes width start stop acc =
     (if stop < length sizes \<and> stop - start < width
      then case sizes ! stop of None \<Rightarrow> (stop, acc) | Some sz \<Rightarrow> run_extend sizes width start (stop + 1) (acc + sz)
      else (stop, acc))"
  by pat_completeness auto
termination
  by (relation "measure (\<lambda>(sizes, _, _, stop, _). length sizes - stop)") auto

declare run_extend.simps [simp del]

definition cheapest_window :: "u64 option list \<Rightarrow> nat \<Rightarrow> (nat \<times> nat) option" where
  "cheapest_window sizes width =
     map_option (\<lambda>(start, stop, _). (start, stop))
       (fold (\<lambda>start best.
          let (stop, acc) = run_extend sizes width start start 0
          in better_window 2 (start, stop, acc) best) [0..<length sizes] None)"

record compaction_job =
  cj_job_id :: u64
  cj_selected :: "segment_handle list"
  cj_deleted :: delete_set
  cj_delete_generation :: u64
  cj_output_path :: string

definition plan_window :: "nat \<Rightarrow> compaction_config \<Rightarrow> lsm_index \<Rightarrow> (nat \<times> nat) option" where
  "plan_window now config ix =
     (let sizes = segment_sizes ix;
          disk_segments = length (filter (\<lambda>s. s \<noteq> None) sizes);
          quiet = quiet_for now (idle_merge_after config) ix
      in if disk_segments < 2 then None
         else if \<not> quiet \<and> (has_pending_flushes ix \<or> length sizes \<le> max_segments config) then None
         else let all_disk = (disk_segments = length sizes);
                  max_width = max (max_segments_per_compaction config) (min_width config)
              in if quiet \<and> all_disk
                 then if merge_all_due sizes (size_ratio config) then Some (0, length sizes)
                      else tiered_window sizes (size_ratio config) 2 max_width
                 else if segment_count ix \<ge> compact_when_segments_at_least config
                 then case tiered_window sizes (size_ratio config) (min_width config) max_width of
                        Some w \<Rightarrow> Some w
                      | None \<Rightarrow> if segment_count ix > max_segments config then cheapest_window sizes max_width else None
                 else None)"

definition plan_compaction :: "nat \<Rightarrow> compaction_config \<Rightarrow> lsm_index \<Rightarrow> lsm_index \<times> compaction_job option" where
  "plan_compaction now config ix =
     (case lsm_root ix of
        None \<Rightarrow> (ix, None)
      | Some _ \<Rightarrow>
          case plan_window now config ix of
            None \<Rightarrow> (ix, None)
          | Some (start, stop) \<Rightarrow>
              (ix\<lparr>lsm_next_segment_id := lsm_next_segment_id ix + 1,
                  lsm_next_compaction_job_id := lsm_next_compaction_job_id ix + 1\<rparr>,
               Some \<lparr>cj_job_id = lsm_next_compaction_job_id ix,
                     cj_selected = take (stop - start) (drop start (lsm_handles ix)),
                     cj_deleted = lsm_deleted ix,
                     cj_delete_generation = lsm_delete_generation ix,
                     cj_output_path = segment_name (lsm_next_segment_id ix)\<rparr>))"

section \<open>Running and installing a compaction\<close>

definition open_handle :: "fst_ops \<Rightarrow> roaring_ops \<Rightarrow> lsm_dir \<Rightarrow> segment_handle \<Rightarrow> search_reader result" where
  "open_handle F R dir h =
     (case h of
        DiskHandle path \<Rightarrow> and_then (open_file F R path dir) (\<lambda>ds. Inr (DiskReader ds))
      | MemoryHandle s \<Rightarrow> Inr (SegReader s))"

fun open_handles :: "fst_ops \<Rightarrow> roaring_ops \<Rightarrow> lsm_dir \<Rightarrow> segment_handle list \<Rightarrow> search_reader list result" where
  "open_handles F R dir [] = Inr []"
| "open_handles F R dir (h # hs) = and_then (open_handle F R dir h) (\<lambda>r. and_then (open_handles F R dir hs) (\<lambda>rs. Inr (r # rs)))"

definition compact_segments_streaming ::
  "fst_ops \<Rightarrow> roaring_ops \<Rightarrow> fault \<Rightarrow> segment_handle list \<Rightarrow> delete_set \<Rightarrow> string \<Rightarrow> lsm_dir \<Rightarrow> lsm_dir \<times> unit result" where
  "compact_segments_streaming F R fault handles dels output dir =
     (case open_handles F R dir handles of
        Inl e \<Rightarrow> (dir, Inl e)
      | Inr rs \<Rightarrow>
          case compact_segments F R rs dels of
            Inl e \<Rightarrow> (dir\<lparr>dir_files := (dir_files dir)(output \<mapsto> [])\<rparr>, Inl e)
          | Inr bs \<Rightarrow> write_file fault output bs dir)"

record completed_compaction =
  cc_job_id :: u64
  cc_selected :: "segment_handle list"
  cc_output_path :: string
  cc_delete_generation :: u64

definition run_compaction_job :: "fst_ops \<Rightarrow> roaring_ops \<Rightarrow> fault \<Rightarrow> compaction_job \<Rightarrow> lsm_dir \<Rightarrow> lsm_dir \<times> completed_compaction result" where
  "run_compaction_job F R fault job dir =
     (case compact_segments_streaming F R fault (cj_selected job) (cj_deleted job) (cj_output_path job) dir of
        (dir, Inl e) \<Rightarrow> (dir, Inl e)
      | (dir, Inr _) \<Rightarrow>
          (dir, Inr \<lparr>cc_job_id = cj_job_id job, cc_selected = cj_selected job, cc_output_path = cj_output_path job,
                     cc_delete_generation = cj_delete_generation job\<rparr>))"

definition index_of :: "'a list \<Rightarrow> 'a \<Rightarrow> nat option" where
  "index_of xs x = find (\<lambda>i. xs ! i = x) [0..<length xs]"

definition remove_at :: "nat \<Rightarrow> 'a list \<Rightarrow> 'a list" where
  "remove_at i xs = take i xs @ drop (Suc i) xs"

text \<open>Removing positions from the last one on.\<close>

definition remove_all_at :: "nat list \<Rightarrow> 'a list \<Rightarrow> 'a list" where
  "remove_all_at ps xs = fold remove_at (rev ps) xs"

definition disk_segment_paths :: "lsm_index \<Rightarrow> string list" where
  "disk_segment_paths ix =
     List.map_filter (\<lambda>h. case h of DiskHandle path \<Rightarrow> Some path | MemoryHandle _ \<Rightarrow> None) (lsm_handles ix)"

definition remove_handle_file :: "segment_handle \<Rightarrow> lsm_dir \<Rightarrow> lsm_dir" where
  "remove_handle_file h dir = (case h of DiskHandle path \<Rightarrow> remove_file path dir | MemoryHandle _ \<Rightarrow> dir)"

text \<open>An empty selection would index an empty list of positions: the panic is an error here.\<close>

definition install_compaction ::
  "fst_ops \<Rightarrow> roaring_ops \<Rightarrow> fault \<Rightarrow> io_error option \<Rightarrow> completed_compaction \<Rightarrow> lsm_index \<Rightarrow> lsm_index \<times> bool result" where
  "install_compaction F R rewrite_fault clear_fault cc ix =
     (case lsm_root ix of
        None \<Rightarrow> (ix, Inr False)
      | Some dir \<Rightarrow>
          let found = List.map_filter (index_of (lsm_handles ix)) (cc_selected cc)
          in if length found \<noteq> length (cc_selected cc)
             then (ix\<lparr>lsm_root := Some (remove_file (cc_output_path cc) dir)\<rparr>, Inr False)
             else
               let merged_all = (length found = length (lsm_handles ix))
               in case open_file F R (cc_output_path cc) dir of
                    Inl e \<Rightarrow> (ix, Inl e)
                  | Inr disk \<Rightarrow>
                      case sort_dedup found of
                        [] \<Rightarrow> (ix, Inl (OtherError ''index out of bounds''))
                      | insert_pos # rest \<Rightarrow>
                          let ix = ix\<lparr>lsm_handles := insert_at insert_pos (DiskHandle (cc_output_path cc)) (remove_all_at (insert_pos # rest) (lsm_handles ix)),
                                      lsm_segments := insert_at insert_pos (DiskReader disk)
                                        (remove_all_at (insert_pos # rest) (lsm_segments ix))\<rparr>
                          in case manifest_rewrite rewrite_fault (disk_segment_paths ix) dir of
                               (dir, Inl e) \<Rightarrow> (ix\<lparr>lsm_root := Some dir\<rparr>, Inl e)
                             | (dir, Inr _) \<Rightarrow>
                                 let dir = fold remove_handle_file (cc_selected cc) dir
                                 in if merged_all \<and> cc_delete_generation cc = lsm_delete_generation ix
                                    then case clear_fault of
                                           Some e \<Rightarrow> (ix\<lparr>lsm_root := Some dir, lsm_deleted := {}\<rparr>, Inl e)
                                         | None \<Rightarrow> (ix\<lparr>lsm_root := Some (dir\<lparr>dir_deletes := clear_deletes (dir_deletes dir)\<rparr>),
                                                       lsm_deleted := {}\<rparr>, Inr True)
                                    else (ix\<lparr>lsm_root := Some dir\<rparr>, Inr True))"

definition delete_document :: "nat \<Rightarrow> fault \<Rightarrow> u64 \<Rightarrow> lsm_index \<Rightarrow> lsm_index \<times> unit result" where
  "delete_document now fault d ix =
     (let ix = ix\<lparr>lsm_last_ingest := Some now, lsm_deleted := ds_delete d (lsm_deleted ix),
                  lsm_delete_generation := lsm_delete_generation ix + 1\<rparr>
      in case lsm_root ix of
           None \<Rightarrow> (ix, Inr ())
         | Some dir \<Rightarrow> let (dir, outcome) = deletes_append fault d dir in (ix\<lparr>lsm_root := Some dir\<rparr>, outcome))"

end
