(* ===== verification/Index_View.thy ===== *)
theory Index_View
  imports Compaction
begin

text \<open>
  What an index holds, independent of where it holds it: the abstract state of the log-structured
  index.  The view of a list of readers under a set of tombstones has every term's live postings, the
  document lengths, the numeric points and the boolean documents.  Views add up (\<open>view_add\<close>), so that
  the place and the order of readers do not matter, and readers can be replaced by others with the same
  view: a generation by its merge into another one, generations by the segment frozen from them, or by
  the file written from that, segments by their compaction.
\<close>

section \<open>Views\<close>

record index_view =
  v_terms :: "string \<Rightarrow> u32 \<Rightarrow> posting list"
  v_lens :: "((u64 \<times> u32) \<times> u32) multiset"
  v_points :: "u32 \<Rightarrow> (u64 \<times> numeric_value) multiset"
  v_true :: "u32 \<Rightarrow> u64 set"
  v_false :: "u32 \<Rightarrow> u64 set"

definition view_add :: "index_view \<Rightarrow> index_view \<Rightarrow> index_view" where
  "view_add v w =
     \<lparr>v_terms = (\<lambda>t x. merge_by_doc (v_terms v t x @ v_terms w t x)), v_lens = v_lens v + v_lens w,
      v_points = (\<lambda>x. v_points v x + v_points w x), v_true = (\<lambda>x. v_true v x \<union> v_true w x),
      v_false = (\<lambda>x. v_false v x \<union> v_false w x)\<rparr>"

definition view_delete :: "u64 set \<Rightarrow> index_view \<Rightarrow> index_view" where
  "view_delete D v =
     \<lparr>v_terms = (\<lambda>t x. filter (\<lambda>p. doc_id p \<notin> D) (v_terms v t x)), v_lens = filter_mset (\<lambda>((d, _), _). d \<notin> D) (v_lens v),
      v_points = (\<lambda>x. filter_mset (\<lambda>(d, _). d \<notin> D) (v_points v x)), v_true = (\<lambda>x. v_true v x - D),
      v_false = (\<lambda>x. v_false v x - D)\<rparr>"

text \<open>What a list of readers holds.\<close>

definition contents :: "fst_ops \<Rightarrow> search_reader list \<Rightarrow> index_view" where
  "contents F rs =
     \<lparr>v_terms = (\<lambda>t x. merge_by_doc (term_postings_of F rs t x)), v_lens = mset (concat (map rd_lens rs)),
      v_points = (\<lambda>x. mset (concat (map (\<lambda>r. rd_points r x) rs))), v_true = (\<lambda>x. \<Union>r \<in> set rs. rd_bool_true_ids r x),
      v_false = (\<lambda>x. \<Union>r \<in> set rs. rd_bool_false_ids r x)\<rparr>"

lemmas view_defs = view_add_def view_delete_def contents_def

lemma view_eqI:
  assumes "\<And>t x. v_terms v t x = v_terms w t x" "v_lens v = v_lens w" "\<And>x. v_points v x = v_points w x"
    "\<And>x. v_true v x = v_true w x" "\<And>x. v_false v x = v_false w x"
  shows "v = (w :: index_view)"
proof -
  have "v_terms v = v_terms w" "v_points v = v_points w" "v_true v = v_true w" "v_false v = v_false w"
    using assms by (auto intro!: ext)
  with assms(2) show ?thesis by simp
qed

lemma view_add_commute: "view_add v w = view_add w v"
  by (rule view_eqI) (auto simp: view_add_def intro: merge_by_doc_mset)

lemma view_add_assoc: "view_add (view_add u v) w = view_add u (view_add v w)"
  by (rule view_eqI) (auto simp: view_add_def merge_by_doc_absorb merge_by_doc_absorb_right)

lemma view_add_left_commute: "view_add u (view_add v w) = view_add v (view_add u w)"
  by (metis view_add_assoc view_add_commute)

lemmas view_add_ac = view_add_assoc view_add_commute view_add_left_commute

lemma contents_append: "contents F (rs @ qs) = view_add (contents F rs) (contents F qs)"
  by (rule view_eqI)
    (auto simp: view_add_def contents_def term_postings_of_def merge_by_doc_absorb merge_by_doc_absorb_right)

lemma contents_Cons: "contents F (r # rs) = view_add (contents F [r]) (contents F rs)"
  using contents_append [of F "[r]" rs] by simp

lemma contents_mset: "mset rs = mset qs \<Longrightarrow> contents F rs = contents F qs"
proof (rule view_eqI)
  assume m: "mset rs = mset qs"
  have cm: "mset (concat (map f rs)) = mset (concat (map f qs))" for f :: "search_reader \<Rightarrow> 'a list"
    using m by (metis mset_concat mset_map image_mset.compositionality sum_mset_sum_list)
  from m have s: "set rs = set qs" by (rule mset_eq_setD)
  show "v_terms (contents F rs) t x = v_terms (contents F qs) t x" for t x
    unfolding contents_def term_postings_of_def by (auto intro: merge_by_doc_mset cm)
  show "v_lens (contents F rs) = v_lens (contents F qs)" "v_points (contents F rs) x = v_points (contents F qs) x"
    "v_true (contents F rs) x = v_true (contents F qs) x" "v_false (contents F rs) x = v_false (contents F qs) x" for x
    unfolding contents_def s by (simp_all only: cm index_view.select_convs)
qed

lemma contents_concat: "contents F (concat (map f xs)) = contents F (concat (map g xs))"
  if "\<forall>x \<in> set xs. contents F (f x) = contents F (g x)"
  using that by (induction xs) (simp_all add: contents_append)

lemma view_delete_add: "view_delete D (view_add v w) = view_add (view_delete D v) (view_delete D w)"
  by (rule view_eqI) (auto simp: view_defs filter_merge_by_doc_live [of "\<lambda>d. d \<notin> D"])

lemma view_delete_delete: "view_delete D (view_delete E v) = view_delete (D \<union> E) v"
  by (rule view_eqI) (auto simp: view_delete_def filter_filter_mset conj_commute intro!: filter_cong filter_mset_cong)

lemma view_delete_empty [simp]: "view_delete {} v = v"
  by (rule view_eqI) (auto simp: view_delete_def case_prod_unfold)

lemma view_delete_subset: "view_delete E v = view_delete E w \<Longrightarrow> E \<subseteq> D \<Longrightarrow> view_delete D v = view_delete D w"
  by (metis Un_absorb2 view_delete_delete)

section \<open>Readers in good order\<close>

definition np_full :: "numeric_points \<Rightarrow> bool" where
  "np_full pts \<longleftrightarrow> (\<forall>(x, ps) \<in> set pts. ps \<noteq> [])"

definition mem_good :: "(u32 \<Rightarrow> numeric_kind) \<Rightarrow> mem_index \<Rightarrow> bool" where
  "mem_good kind m \<longleftrightarrow> mem_ok m \<and> np_kinds kind (mi_numeric_points m) \<and> np_full (mi_numeric_points m)
     \<and> rows_normal (mi_array_rows m)"

definition fields_good :: "(u32 \<Rightarrow> numeric_kind) \<Rightarrow> search_reader \<Rightarrow> bool" where
  "fields_good kind r \<longleftrightarrow> omap_ok (rd_bool_fields r) \<and> omap_ok (rd_numeric_fields r)
     \<and> (\<forall>(x, f) \<in> set (rd_numeric_fields r). dv_kind (field_doc_values f) = kind x)"

definition rd_good :: "fst_ops \<Rightarrow> (u32 \<Rightarrow> numeric_kind) \<Rightarrow> search_reader \<Rightarrow> bool" where
  "rd_good F kind r \<longleftrightarrow> rd_ok F r \<and> rd_stats_ok r \<and> fields_good kind r \<and> (case r of MemReader m \<Rightarrow> mem_good kind m | _ \<Rightarrow> True)"

lemma omap_ok_np_build: "omap_ok pts \<Longrightarrow> omap_ok (np_build pts)"
  by (simp add: np_build_def nf_from_points_def omap_ok_def comp_def case_prod_unfold)

lemma np_build_kinds:
  assumes "np_kinds kind pts" "np_full pts"
  shows "\<forall>(x, f) \<in> set (np_build pts). dv_kind (field_doc_values f) = kind x"
proof -
  have "first_kind ps = kind x" if "(x, ps) \<in> set pts" for x ps
    using assms that by (cases ps) (auto simp: np_kinds_def np_full_def kinds_ok_def first_kind_def)
  then show ?thesis by (auto simp: np_build_def nf_from_points_def dv_from_points_def dv_build_def Let_def)
qed

lemma rd_good_mem: "mem_good kind m \<Longrightarrow> rd_good F kind (MemReader m)"
  using np_build_kinds [of kind "mi_numeric_points m"]
  by (auto simp: rd_good_def mem_good_def fields_good_def mem_ok_def np_ok_def intro: omap_ok_np_build)

lemma rd_good_mem_iff: "rd_good F kind (MemReader m) \<longleftrightarrow> mem_good kind m"
  using rd_good_mem by (auto simp: rd_good_def)

lemma mem_good_new [simp]: "mem_good kind mi_new"
  by (simp add: mem_good_def np_kinds_def np_full_def rows_normal_def) (simp add: mi_new_def rows_new_def)

section \<open>Merging memtables\<close>

lemma np_merged_get:
  assumes "np_ok pts" "np_ok newer"
  shows "omap_get (omap_merge (\<lambda>old ps. append_points ps old) newer pts) x =
    (case omap_get newer x of None \<Rightarrow> omap_get pts x | Some v \<Rightarrow> Some (case omap_get pts x of None \<Rightarrow> v | Some old \<Rightarrow> append_points v old))"
  using assms by (intro omap_get_merge) (simp_all add: np_ok_def omap_distinct)

lemma mset_append_points [simp]: "mset (append_points new mine) = mset mine + mset new"
  by (simp add: append_points_def Let_def)

lemma set_append_points [simp]: "set (append_points new mine) = set mine \<union> set new"
  by (simp flip: set_mset_mset)

lemma np_merge_good:
  assumes "np_ok pts" "np_ok newer" and "np_kinds kind pts" "np_kinds kind newer" and "np_full pts" "np_full newer"
  shows "np_kinds kind (omap_merge (\<lambda>old ps. append_points ps old) newer pts)"
    and "np_full (omap_merge (\<lambda>old ps. append_points ps old) newer pts)"
proof -
  let ?m = "omap_merge (\<lambda>old ps. append_points ps old) newer pts"
  have ok: "omap_ok ?m" using assms(1) by (simp add: np_ok_def omap_ok_merge)
  have old: "kinds_ok (kind x) ps \<and> ps \<noteq> []" if "omap_get pts x = Some ps" for x ps
    using assms that by (auto simp: np_kinds_def np_full_def dest!: map_of_SomeD)
  have new: "kinds_ok (kind x) ps \<and> ps \<noteq> []" if "omap_get newer x = Some ps" for x ps
    using assms that by (auto simp: np_kinds_def np_full_def dest!: map_of_SomeD)
  have "kinds_ok (kind x) ps \<and> ps \<noteq> []" if "(x, ps) \<in> set ?m" for x ps
  proof -
    have get: "omap_get ?m x = Some ps" using ok that by (simp add: omap_get_iff)
    have ne: "append_points a b \<noteq> []" if "a \<noteq> []" for a b using that by (metis set_append_points Un_empty set_empty)
    show ?thesis
      using get old [of x] new [of x] ne unfolding np_merged_get [OF assms(1,2)]
      by (auto simp: kinds_ok_def split: option.splits)
  qed
  then show "np_kinds kind ?m" "np_full ?m" by (auto simp: np_kinds_def np_full_def)
qed

lemma rows_normal_merge: "rows_normal t \<Longrightarrow> rows_normal t' \<Longrightarrow> rows_normal (rows_merge_from t t')"
  by (auto simp: rows_normal_def rows_merge_from_def rows_is_empty_def Let_def)

lemma mem_good_merge:
  assumes "mem_good kind m" "mem_good kind newer" "fst ` set (mi_doc_lengths m) \<inter> fst ` set (mi_doc_lengths newer) = {}"
  shows "mem_good kind (merge_from m newer)"
proof -
  have np: "np_ok (mi_numeric_points newer)" "np_ok (mi_numeric_points m)" using assms by (simp_all add: mem_good_def mem_ok_def)
  show ?thesis
    using assms np_merge_good [OF np(2,1), of kind] mem_ok_merge_from [of m newer]
    by (simp add: mem_good_def merge_from_sel [OF np(1)] rows_normal_merge)
qed

lemma rd_points_mem: "mem_good kind m \<Longrightarrow> mset (rd_points (MemReader m) x) = mset (points_at (mi_numeric_points m) x)"
  using built_points [of kind "mi_numeric_points m" x] by (simp add: mem_good_def rd_points_def)

lemma contents_merge_from:
  assumes "mem_good kind m" "mem_good kind newer" "fst ` set (mi_doc_lengths m) \<inter> fst ` set (mi_doc_lengths newer) = {}"
  shows "contents F [MemReader (merge_from m newer)] = contents F [MemReader m, MemReader newer]"
proof (rule view_eqI)
  have ok: "mem_ok m" "mem_ok newer" using assms by (simp_all add: mem_good_def)
  then have np: "np_ok (mi_numeric_points newer)" "np_ok (mi_numeric_points m)" and dict: "dict_ok (mi_terms m)" "dict_ok (mi_terms newer)"
    by (simp_all add: mem_ok_dict)
  note sel = merge_from_sel [OF np(1)]
  show "v_terms (contents F [MemReader (merge_from m newer)]) t x = v_terms (contents F [MemReader m, MemReader newer]) t x" for t x
    by (simp add: contents_def term_postings_of_def mi_lookup_dict sel dict_lookup_merge [OF dict])
  show "v_lens (contents F [MemReader (merge_from m newer)]) = v_lens (contents F [MemReader m, MemReader newer])"
  proof -
    have "distinct (map fst (mi_doc_lengths newer))" "omap_ok (mi_doc_lengths m)" using ok by (simp_all add: mem_ok_def omap_distinct)
    then show ?thesis using assms(3) by (simp add: contents_def sel mset_omap_extend_disjoint)
  qed
  show "v_points (contents F [MemReader (merge_from m newer)]) x = v_points (contents F [MemReader m, MemReader newer]) x" for x
    by (simp add: contents_def rd_points_mem [OF assms(1)] rd_points_mem [OF assms(2)] rd_points_mem [OF mem_good_merge [OF assms]]
        sel points_at_def np_merged_get [OF np(2,1)] split: option.split)
  have b: "omap_ok (mi_bool_fields m)" "distinct (map fst (mi_bool_fields newer))" using ok by (simp_all add: mem_ok_def omap_distinct)
  show "v_true (contents F [MemReader (merge_from m newer)]) x = v_true (contents F [MemReader m, MemReader newer]) x"
    "v_false (contents F [MemReader (merge_from m newer)]) x = v_false (contents F [MemReader m, MemReader newer]) x" for x
    by (auto simp: contents_def mi_bool_true_ids_def mi_bool_false_ids_def sel omap_get_merge [OF b] union_bool_def split: option.splits)
qed


section \<open>Replacing generations by a segment\<close>

lemma contents_freeze:
  assumes "mem_good kind m"
  shows "contents F [SegReader (freeze m)] = contents F [MemReader m]" and "rd_good F kind (SegReader (freeze m))"
proof -
  have ok: "mem_ok m" using assms by (simp add: mem_good_def)
  note sel = freeze_sel [OF ok]
  have "seg_lookup_or_empty (freeze m) t x = mi_lookup_or_empty m t x" for t x
    using mem_seg.same_answers [OF ok seg_ok_freeze [OF ok] sel(1) [symmetric]] by simp
  then show "contents F [SegReader (freeze m)] = contents F [MemReader m]"
    by (intro view_eqI) (simp_all add: contents_def term_postings_of_def sel rd_points_def seg_bool_true_ids_def
        mi_bool_true_ids_def seg_bool_false_ids_def mi_bool_false_ids_def)
  have "fields_good kind (SegReader (freeze m))"
    using rd_good_mem [OF assms, of F] by (simp add: rd_good_def fields_good_def sel)
  then show "rd_good F kind (SegReader (freeze m))"
    using ok seg_ok_freeze [OF ok] by (simp add: rd_good_def sel mem_ok_def)
qed

text \<open>Generations over disjoint documents.\<close>

definition gens_good :: "(u32 \<Rightarrow> numeric_kind) \<Rightarrow> mem_index list \<Rightarrow> bool" where
  "gens_good kind gens \<longleftrightarrow> gens \<noteq> [] \<and> (\<forall>g \<in> set gens. mem_good kind g) \<and> distinct (map fst (concat (map mi_doc_lengths gens)))"

lemma lens_disjoint:
  "distinct (map fst (concat (map f (x # xs)))) \<Longrightarrow> y \<in> set xs \<Longrightarrow> fst ` set (f x) \<inter> fst ` set (f y) = {}"
  by auto

lemma merged_lens:
  assumes "mem_good kind m" "mem_good kind newer" "fst ` set (mi_doc_lengths m) \<inter> fst ` set (mi_doc_lengths newer) = {}"
  shows "fst ` set (mi_doc_lengths (merge_from m newer)) = fst ` set (mi_doc_lengths m) \<union> fst ` set (mi_doc_lengths newer)"
proof -
  have "v_lens (contents plain_fst [MemReader (merge_from m newer)]) = v_lens (contents plain_fst [MemReader m, MemReader newer])"
    by (simp only: contents_merge_from [OF assms])
  then have "mset (mi_doc_lengths (merge_from m newer)) = mset (mi_doc_lengths m) + mset (mi_doc_lengths newer)"
    by (simp add: contents_def)
  then have "set (mi_doc_lengths (merge_from m newer)) = set (mi_doc_lengths m) \<union> set (mi_doc_lengths newer)"
    by (metis set_mset_mset set_mset_union)
  then show ?thesis by (simp add: image_Un)
qed

lemma contents_merge_all:
  assumes "gens_good kind (g # gs)"
  shows "contents F [MemReader (foldl merge_from g gs)] = contents F (map MemReader (g # gs)) \<and> mem_good kind (foldl merge_from g gs)"
  using assms
proof (induction gs arbitrary: g)
  case (Cons h gs)
  have good: "mem_good kind g" "mem_good kind h" and dis: "fst ` set (mi_doc_lengths g) \<inter> fst ` set (mi_doc_lengths h) = {}"
    using Cons.prems by (auto simp: gens_good_def)
  have "fst ` set (mi_doc_lengths (merge_from g h)) \<inter> fst ` set (concat (map mi_doc_lengths gs)) = {}"
    using Cons.prems unfolding merged_lens [OF good dis] by (simp add: gens_good_def Int_Un_distrib Int_Un_distrib2)
  moreover have "distinct (map fst (mi_doc_lengths (merge_from g h)))"
    using mem_good_merge [OF good dis] by (simp add: mem_good_def mem_ok_def omap_distinct)
  ultimately have "gens_good kind (merge_from g h # gs)"
    using Cons.prems mem_good_merge [OF good dis] by (auto simp: gens_good_def)
  moreover have "contents F (map MemReader (merge_from g h # gs)) = contents F (map MemReader (g # h # gs))"
    using contents_append [of F "[MemReader (merge_from g h)]" "map MemReader gs"] contents_append [of F "[MemReader g, MemReader h]" "map MemReader gs"]
    by (simp add: contents_merge_from [OF good dis])
  ultimately show ?case using Cons.IH [of "merge_from g h"] by simp
qed (auto simp: gens_good_def)

lemma freeze_shared_good:
  assumes "gens_good kind gens"
  obtains m where "mem_good kind m" "freeze_shared gens = freeze m" "contents F [MemReader m] = contents F (map MemReader gens)"
proof -
  obtain g gs where g: "gens = g # gs" using assms by (cases gens) (auto simp: gens_good_def)
  have g0: "mem_ok g" "rows_normal (mi_array_rows g)" and gs: "\<forall>h \<in> set gs. np_ok (mi_numeric_points h)"
    using assms by (auto simp: g gens_good_def mem_good_def mem_ok_def)
  from holds_fold [OF holds_first [OF g0] mem_ok_maps_ok [OF g0(1)] gs]
  have "freeze_shared gens = freeze (foldl merge_from g gs)" by (simp add: g freeze_shared_def Let_def seg_new_holds)
  with that contents_merge_all [OF assms [unfolded g], of F] show thesis unfolding g by blast
qed

lemma disk_written_good:
  assumes F: "fst_lawful F" and R: "roaring_lawful R" and fits: "segment_fits s" and good: "rd_good F kind (SegReader s)"
    and w: "write_segment_to F R s = Inr bs" and small: "length bs < 2 ^ 64"
  shows "\<exists>ds. disk_open F R bs = Inr ds \<and> rd_good F kind (DiskReader ds) \<and> contents F [DiskReader ds] = contents F [SegReader s]"
proof -
  have fit: "sections_fit (seg_terms s) (seg_doc_lengths s) (seg_numeric_fields s) (seg_array_rows s) (seg_bool_fields s)"
    using fits by (simp add: segment_fits_def)
  from disk_open_written [OF F R fit, of "seg_doc_id_range s"] w obtain rest where bs: "bs = write_header @ encoded (seg_terms s) @ rest"
    and op: "disk_open F R bs = Inr (opened F bs (seg_terms s) (seg_doc_lengths s) (seg_numeric_fields s)
        (seg_array_rows s) (seg_bool_fields s) (seg_doc_id_range s))"
    unfolding write_segment_to_def using small by auto
  let ?ds = "opened F bs (seg_terms s) (seg_doc_lengths s) (seg_numeric_fields s) (seg_array_rows s) (seg_bool_fields s) (seg_doc_id_range s)"
  have tf: "terms_fit (seg_terms s)" and lf: "lengths_fit (seg_doc_lengths s)" using fit by (simp_all add: sections_fit_def)
  have ok: "disk_ok F ?ds" and it: "iter_terms F ?ds = seg_terms s"
    using small by (intro written_terms [OF F tf, of ?ds write_header rest]; simp add: opened_def bs)+
  have "seg_ok s" using good by (simp add: rd_good_def)
  note same = seg_disk.same_answers [OF this ok it [symmetric]]
  have "contents F [DiskReader ?ds] = contents F [SegReader s]"
  proof (rule view_eqI)
    show "v_lens (contents F [DiskReader ?ds]) = v_lens (contents F [SegReader s])"
      using opened_stats_ok(2) [OF lf] by (simp add: contents_def)
    show "v_terms (contents F [DiskReader ?ds]) t x = v_terms (contents F [SegReader s]) t x" for t x
      by (simp add: contents_def term_postings_of_def same(1) [symmetric])
  qed (simp_all add: contents_def rd_points_def opened_def ds_bool_true_ids_def ds_bool_false_ids_def
      seg_bool_true_ids_def seg_bool_false_ids_def)
  moreover have "rd_good F kind (DiskReader ?ds)"
    using good ok opened_stats_ok(1) [OF lf] by (simp add: rd_good_def fields_good_def) (simp add: opened_def)
  ultimately show ?thesis using op by blast
qed

section \<open>Replacing segments by their compaction\<close>

lemma np_full_insert: "np_full pts \<Longrightarrow> omap_ok pts \<Longrightarrow> np_full (np_insert x v d pts)"
proof -
  assume full: "np_full pts" and ok: "omap_ok pts"
  have ne: "push_point d v ps \<noteq> []" for ps by (auto simp: push_point_def vec_insert_def)
  have ok': "omap_ok (np_insert x v d pts)" using ok by (simp add: np_insert_def omap_ok_entry)
  have "ps \<noteq> []" if "(y, ps) \<in> set (np_insert x v d pts)" for y ps
  proof -
    have "omap_get (np_insert x v d pts) y = Some ps" using ok' that by (simp add: omap_get_iff)
    then show ?thesis
      using full ok ne by (auto simp: np_insert_def omap_get_entry np_full_def split: if_splits dest!: map_of_SomeD)
  qed
  then show ?thesis by (auto simp: np_full_def)
qed

lemma np_full_merge_numeric: "np_full (merge_numeric dels rs)"
proof -
  let ?ok = "\<lambda>pts. np_full pts \<and> omap_ok pts"
  have ins: "?ok (np_insert x v d pts)" if "?ok pts" for x v d pts
    using that np_full_insert by (simp add: np_insert_def omap_ok_entry)
  have entries: "?ok (fold (\<lambda>(d, packed) pts. if d \<in> dels then pts else np_insert x (unpack packed k) d pts) es pts)"
    if "?ok pts" for x k es pts
    by (rule fold_invariant [where Q = "\<lambda>_. True"]) (use that ins in \<open>auto split: prod.split\<close>)
  have fields: "?ok (fold (\<lambda>(x, f) pts.
         fold (\<lambda>(d, packed) pts. if d \<in> dels then pts else np_insert x (unpack packed (dv_kind (field_doc_values f))) d pts)
           (dv_entries (field_doc_values f)) pts) fs pts)" if "?ok pts" for fs :: numeric_fields and pts
    by (rule fold_invariant [where Q = "\<lambda>_. True"]) (use that entries in \<open>auto split: prod.split\<close>)
  have "?ok (merge_numeric dels rs)"
    unfolding merge_numeric_def
    by (rule fold_invariant [where Q = "\<lambda>_. True"]) (use fields in \<open>auto simp: np_full_def\<close>)
  then show ?thesis by simp
qed

lemma inputs_ok_good:
  assumes "\<forall>r \<in> set rs. rd_good F kind r" "distinct (map fst (concat (map rd_lens rs)))"
  shows "inputs_ok F kind rs"
  using assms by (auto simp: inputs_ok_def rd_good_def fields_good_def)

lemma compacted_good:
  assumes F: "fst_lawful F" and R: "roaring_lawful R" and good: "\<forall>r \<in> set rs. rd_good F kind r"
    and dist: "distinct (map fst (concat (map rd_lens rs)))" and fits: "merge_fits F rs dels"
    and w: "compact_segments F R rs dels = Inr bs" and small: "length bs < 2 ^ 64"
  shows "\<exists>ds. disk_open F R bs = Inr ds \<and> rd_good F kind (DiskReader ds) \<and> contents F [DiskReader ds] = view_delete dels (contents F rs)"
proof -
  have ins: "inputs_ok F kind rs" by (rule inputs_ok_good [OF good dist])
  from compact_segments_opens [OF F R ins fits] w small obtain ds where op: "disk_open F R bs = Inr ds" and ok: "disk_ok F ds" "rd_stats_ok (DiskReader ds)"
    and c: "compacted_from F rs dels ds" and nf: "ds_numeric_fields ds = np_build (merge_numeric dels rs)" and bf: "ds_bool_fields ds = merge_bools dels rs"
    by auto
  have "contents F [DiskReader ds] = view_delete dels (contents F rs)"
  proof (rule view_eqI)
    show "v_terms (contents F [DiskReader ds]) t x = v_terms (view_delete dels (contents F rs)) t x" for t x
      using c unfolding compacted_from_def view_delete_def contents_def
      by (simp add: term_postings_of_def live_merge_def filter_merge_by_doc_live [of "\<lambda>d. d \<notin> dels"])
  qed (use c in \<open>simp_all add: compacted_from_def view_delete_def contents_def\<close>)
  moreover have "fields_good kind (DiskReader ds)"
  proof -
    have nums: "\<forall>r \<in> set rs. omap_ok (rd_numeric_fields r) \<and> (\<forall>(x, f) \<in> set (rd_numeric_fields r). dv_kind (field_doc_values f) = kind x)"
      and bools: "\<forall>r \<in> set rs. omap_ok (rd_bool_fields r)"
      using good by (auto simp: rd_good_def fields_good_def)
    then have "np_ok (merge_numeric dels rs)" using merge_numeric_points [of rs dels] by blast
    then show ?thesis
      using np_build_kinds [OF np_kinds_merge [OF nums] np_full_merge_numeric, of dels] merge_bools_get [OF bools, of dels]
      by (auto simp: fields_good_def nf bf np_ok_def intro: omap_ok_np_build)
  qed
  ultimately show ?thesis using op ok by (auto simp: rd_good_def)
qed

section \<open>Builders of segments\<close>

text \<open>A way to turn generations into one reader that holds what they hold.\<close>

locale generation_builder =
  fixes F :: fst_ops and kind :: "u32 \<Rightarrow> numeric_kind" and built :: "mem_index list \<Rightarrow> search_reader \<Rightarrow> bool"
  assumes built_good: "gens_good kind gens \<Longrightarrow> built gens r \<Longrightarrow> rd_good F kind r"
    and built_contents: "gens_good kind gens \<Longrightarrow> built gens r \<Longrightarrow> contents F [r] = contents F (map MemReader gens)"
begin

lemma swap_contents:
  assumes "gens_good kind gens" "built gens r" "mset rs = add_mset r (mset qs)"
  shows "contents F rs = contents F (map MemReader gens @ qs)"
proof -
  have "contents F rs = contents F (r # qs)" using assms(3) by (intro contents_mset) simp
  then show ?thesis
    using contents_append [of F "[r]" qs] contents_append [of F "map MemReader gens" qs] built_contents [OF assms(1,2)] by simp
qed

lemma swap_good:
  assumes "gens_good kind gens" "built gens r" "mset rs = add_mset r (mset qs)" "\<forall>q \<in> set qs. rd_good F kind q"
  shows "\<forall>q \<in> set rs. rd_good F kind q"
proof -
  have "set rs = insert r (set qs)" using assms(3) by (metis set_mset_add_mset_insert set_mset_mset)
  with assms built_good show ?thesis by auto
qed

end

definition built_frozen :: "mem_index list \<Rightarrow> search_reader \<Rightarrow> bool" where
  "built_frozen gens r \<longleftrightarrow> r = SegReader (freeze_shared gens)"

definition built_file :: "fst_ops \<Rightarrow> roaring_ops \<Rightarrow> mem_index list \<Rightarrow> search_reader \<Rightarrow> bool" where
  "built_file F R gens r \<longleftrightarrow> fst_lawful F \<and> roaring_lawful R \<and> segment_fits (freeze_shared gens)
     \<and> (\<exists>bs ds. write_segment_to F R (freeze_shared gens) = Inr bs \<and> length bs < 2 ^ 64 \<and> disk_open F R bs = Inr ds \<and> r = DiskReader ds)"

interpretation frozen: generation_builder F kind built_frozen for F kind
proof
  fix gens r
  assume gens: "gens_good kind gens" and r: "built_frozen gens r"
  obtain m where m: "mem_good kind m" "freeze_shared gens = freeze m" "contents F [MemReader m] = contents F (map MemReader gens)"
    by (rule freeze_shared_good [OF gens, of F])
  with r contents_freeze [OF m(1), of F]
  show "rd_good F kind r" "contents F [r] = contents F (map MemReader gens)" by (simp_all add: built_frozen_def)
qed

interpretation flushed: generation_builder F kind "built_file F R" for F kind R
proof
  fix gens r
  assume gens: "gens_good kind gens" and r: "built_file F R gens r"
  have seg: "rd_good F kind (SegReader (freeze_shared gens))" "contents F [SegReader (freeze_shared gens)] = contents F (map MemReader gens)"
    using frozen.built_good [OF gens] frozen.built_contents [OF gens] by (simp_all add: built_frozen_def)
  with r disk_written_good [of F R "freeze_shared gens" kind]
  show "rd_good F kind r" "contents F [r] = contents F (map MemReader gens)" by (auto simp: built_file_def)
qed

end
