(* ===== verification/Lsm_Refine.thy ===== *)
theory Lsm_Refine
  imports Lsm Index_View
begin

text \<open>
  The log-structured index against its abstract state: what it holds is the contents of all its
  readers without the deleted documents (\<open>lsm_abs\<close>).  Moving data from the memtable to generations,
  to queued flushes, to segments in memory or on disk and through compaction leaves it as it is;
  ingestion adds to it and deletion removes from it.
\<close>

section \<open>The abstract state\<close>

definition lsm_readers :: "lsm_index \<Rightarrow> search_reader list" where
  "lsm_readers ix = sn_readers (lsm_snapshot ix)"

definition lsm_abs :: "fst_ops \<Rightarrow> lsm_index \<Rightarrow> index_view" where
  "lsm_abs F ix = view_delete (lsm_deleted ix) (contents F (lsm_readers ix))"

definition keys_once :: "index_view \<Rightarrow> bool" where
  "keys_once v \<longleftrightarrow> (\<forall>k. count (image_mset fst (v_lens v)) k \<le> 1)"

text \<open>A memtable with terms knows the range of its documents.\<close>

definition ranged :: "mem_index \<Rightarrow> bool" where
  "ranged m \<longleftrightarrow> (mi_terms m \<noteq> [] \<longrightarrow> mi_doc_id_range m \<noteq> None)"

definition lsm_inv :: "fst_ops \<Rightarrow> (u32 \<Rightarrow> numeric_kind) \<Rightarrow> lsm_index \<Rightarrow> bool" where
  "lsm_inv F kind ix \<longleftrightarrow> (\<forall>r \<in> set (lsm_readers ix). rd_good F kind r) \<and> keys_once (contents F (lsm_readers ix))
     \<and> length (lsm_handles ix) = length (lsm_segments ix) \<and> (\<forall>p \<in> set (fq_pending (lsm_queue ix)). pf_generations p \<noteq> [])
     \<and> ranged (lsm_mem ix) \<and> (\<forall>g \<in> set (lsm_generations ix). mi_doc_id_range g \<noteq> None)"

lemma lsm_readers_eq:
  "lsm_readers ix = map MemReader (lsm_mem ix # lsm_generations ix)
     @ concat (map (\<lambda>p. map MemReader (pf_generations p)) (fq_pending (lsm_queue ix))) @ lsm_segments ix"
  by (simp add: lsm_readers_def lsm_snapshot_def build_snapshot_def snapshot_new_def sn_readers_def)

lemma keys_once_distinct: "keys_once (contents F rs) \<longleftrightarrow> distinct (map fst (concat (map rd_lens rs)))"
proof -
  have "distinct ks \<longleftrightarrow> (\<forall>k. count (mset ks) k \<le> 1)" for ks :: "(u64 \<times> u32) list"
    unfolding distinct_count_atmost_1 by (auto simp: count_eq_zero_iff le_Suc_eq)
  from this [of "map fst (concat (map rd_lens rs))"] show ?thesis
    by (simp only: keys_once_def contents_def index_view.select_convs mset_map)
qed

lemma keys_once_part: "keys_once (contents F (rs @ qs)) \<Longrightarrow> keys_once (contents F rs) \<and> keys_once (contents F qs)"
  by (simp add: keys_once_distinct)

lemma keys_once_subset:
  "keys_once (contents F rs) \<Longrightarrow> mset qs \<subseteq># mset rs \<Longrightarrow> keys_once (contents F qs)"
proof -
  assume k: "keys_once (contents F rs)" and "mset qs \<subseteq># mset rs"
  then obtain ps where "mset rs = mset (qs @ ps)" by (metis ex_mset mset_append subset_mset.le_iff_add)
  then have "contents F rs = contents F (qs @ ps)" by (rule contents_mset)
  with k show ?thesis using keys_once_part by metis
qed

lemma contents_new: "view_add (contents F [MemReader mi_new]) (contents F rs) = contents F rs"
proof -
  have "merge_by_doc [] = []" by (simp add: merge_by_doc_ascending)
  then show ?thesis
    by (intro view_eqI) (simp_all add: contents_def view_add_def term_postings_of_def mi_lookup_or_empty_def mi_lookup_def mi_new_def
        pl_new_def rd_points_def np_build_def nf_from_points_def mi_bool_true_ids_def mi_bool_false_ids_def)
qed

lemma contents_drop_new: "contents F (MemReader mi_new # rs) = contents F rs"
  by (simp only: contents_Cons [of F _ rs] contents_new)

section \<open>Publishing\<close>

lemma gens_goodI:
  "gens \<noteq> [] \<Longrightarrow> \<forall>r \<in> set (map MemReader gens). rd_good F kind r \<Longrightarrow> keys_once (contents F (map MemReader gens)) \<Longrightarrow> gens_good kind gens"
  by (auto simp: gens_good_def rd_good_mem_iff keys_once_distinct comp_def)

lemma gens_good_contents: "gens_good kind gens \<Longrightarrow> (\<forall>r \<in> set (map MemReader gens). rd_good F kind r) \<and> keys_once (contents F (map MemReader gens))"
  by (auto simp: gens_good_def rd_good_mem_iff keys_once_distinct comp_def)

lemma seal_loop_contents:
  assumes "gens_good kind (sealed # gens)"
  shows "contents F (map MemReader (seal_loop held gens sealed)) = contents F (map MemReader (sealed # gens))
    \<and> gens_good kind (seal_loop held gens sealed)"
  using assms
proof (induction held gens sealed rule: seal_loop.induct)
  case (2 held newest older sealed)
  have good: "mem_good kind newest" "mem_good kind sealed" and dis: "fst ` set (mi_doc_lengths newest) \<inter> fst ` set (mi_doc_lengths sealed) = {}"
    using "2.prems" by (auto simp: gens_good_def)
  let ?m = "merge_from newest sealed"
  have c: "contents F (map MemReader (?m # older)) = contents F (map MemReader (sealed # newest # older))" for F
  proof -
    have "contents F (map MemReader (?m # older)) = contents F ([MemReader newest, MemReader sealed] @ map MemReader older)"
      using contents_append [of F "[MemReader ?m]" "map MemReader older"] contents_append [of F "[MemReader newest, MemReader sealed]" "map MemReader older"]
      by (simp add: contents_merge_from [OF good dis])
    also have "\<dots> = contents F (map MemReader (sealed # newest # older))" by (rule contents_mset) simp
    finally show ?thesis .
  qed
  have "gens_good kind (?m # older)"
  proof (rule gens_goodI [of _ F])
    show "\<forall>r \<in> set (map MemReader (?m # older)). rd_good F kind r"
      using "2.prems" mem_good_merge [OF good dis] by (auto simp: gens_good_def rd_good_mem_iff)
    show "keys_once (contents F (map MemReader (?m # older)))"
      unfolding c using gens_good_contents [OF "2.prems", of F] by blast
  qed simp
  then show ?case using "2.IH" "2.prems" c by simp
qed simp

lemma range_merge_from: "mi_doc_id_range (merge_from m newer) \<noteq> None \<longleftrightarrow> mi_doc_id_range m \<noteq> None \<or> mi_doc_id_range newer \<noteq> None"
  by (auto simp: merge_from_def Let_def mi_doc_id_range_def track_doc_id_def split: option.splits prod.splits)

lemma seal_loop_ranged:
  "mi_doc_id_range sealed \<noteq> None \<Longrightarrow> \<forall>g \<in> set gens. mi_doc_id_range g \<noteq> None \<Longrightarrow> g \<in> set (seal_loop held gens sealed) \<Longrightarrow> mi_doc_id_range g \<noteq> None"
proof (induction held gens sealed rule: seal_loop.induct)
  case (2 held newest older sealed)
  then show ?case using range_merge_from [of newest sealed] by (auto split: if_splits)
qed simp

lemma ranged_new [simp]: "ranged mi_new"
  by (simp add: ranged_def mi_new_def)

lemma lsm_memory_good:
  assumes "lsm_inv F kind ix"
  shows "gens_good kind (lsm_mem ix # rev (lsm_generations ix))"
proof -
  let ?gens = "lsm_mem ix # lsm_generations ix"
  have m: "mset (map MemReader (lsm_mem ix # rev (lsm_generations ix))) = mset (map MemReader ?gens)" by simp
  have "\<forall>r \<in> set (map MemReader ?gens). rd_good F kind r"
    using assms unfolding lsm_inv_def lsm_readers_eq by simp
  moreover have "keys_once (contents F (map MemReader ?gens))"
    using assms keys_once_part unfolding lsm_inv_def lsm_readers_eq by blast
  ultimately show ?thesis using contents_mset [OF m, of F] by (intro gens_goodI [of _ F]) simp_all
qed

lemma seal_same:
  assumes "lsm_inv F kind ix"
  shows "contents F (lsm_readers (seal held ix)) = contents F (lsm_readers ix)" and "lsm_inv F kind (seal held ix)"
proof -
  let ?old = "lsm_mem ix # rev (lsm_generations ix)" and ?new = "seal_loop held (rev (lsm_generations ix)) (lsm_mem ix)"
  let ?rest = "concat (map (\<lambda>p. map MemReader (pf_generations p)) (fq_pending (lsm_queue ix))) @ lsm_segments ix"
  have s: "contents F (map MemReader ?new) = contents F (map MemReader ?old)" "gens_good kind ?new"
    using seal_loop_contents [OF lsm_memory_good [OF assms], of F held] by auto
  have c: "contents F (lsm_readers (seal held ix)) = contents F (lsm_readers ix) \<and> (\<forall>r \<in> set (lsm_readers (seal held ix)). rd_good F kind r)"
  proof (cases "mi_terms (lsm_mem ix) = [] \<and> mi_doc_id_range (lsm_mem ix) = None")
    case True
    with assms show ?thesis by (simp add: seal_def lsm_inv_def)
  next
    case False
    then have r: "lsm_readers (seal held ix) = MemReader mi_new # map MemReader (rev ?new) @ ?rest"
      by (simp only: seal_def if_not_P lsm_readers_eq) simp
    have "contents F (lsm_readers (seal held ix)) = contents F (map MemReader (rev ?new) @ ?rest)"
      unfolding r by (rule contents_drop_new)
    also have "\<dots> = view_add (contents F (map MemReader ?new)) (contents F ?rest)"
      unfolding contents_append using contents_mset [of "map MemReader (rev ?new)" "map MemReader ?new" F] by simp
    also have "\<dots> = contents F (map MemReader ?old @ ?rest)" unfolding s(1) contents_append ..
    also have "\<dots> = contents F (lsm_readers ix)" unfolding lsm_readers_eq by (rule contents_mset) simp
    finally have "contents F (lsm_readers (seal held ix)) = contents F (lsm_readers ix)" .
    moreover have "\<forall>q \<in> set (lsm_readers (seal held ix)). rd_good F kind q"
      using assms s(2) unfolding r by (auto simp: lsm_inv_def lsm_readers_eq gens_good_def rd_good_mem_iff)
    ultimately show ?thesis by blast
  qed
  then show "contents F (lsm_readers (seal held ix)) = contents F (lsm_readers ix)" by blast
  moreover have "ranged (lsm_mem (seal held ix)) \<and> (\<forall>g \<in> set (lsm_generations (seal held ix)). mi_doc_id_range g \<noteq> None)"
  proof (cases "mi_terms (lsm_mem ix) = [] \<and> mi_doc_id_range (lsm_mem ix) = None")
    case False
    then have "mi_doc_id_range (lsm_mem ix) \<noteq> None" using assms by (auto simp: lsm_inv_def ranged_def)
    then have "mi_doc_id_range g \<noteq> None" if "g \<in> set (seal_loop held (rev (lsm_generations ix)) (lsm_mem ix))" for g
      using that assms by (intro seal_loop_ranged [of "lsm_mem ix" "rev (lsm_generations ix)" g held]) (auto simp: lsm_inv_def)
    with False show ?thesis by (simp only: seal_def if_not_P) simp
  qed (use assms in \<open>simp add: seal_def lsm_inv_def\<close>)
  ultimately show "lsm_inv F kind (seal held ix)" using c assms by (simp add: lsm_inv_def) (simp add: seal_def)
qed

lemma seal_sel [simp]:
  "lsm_deleted (seal held ix) = lsm_deleted ix" "lsm_handles (seal held ix) = lsm_handles ix" "lsm_segments (seal held ix) = lsm_segments ix"
  "lsm_queue (seal held ix) = lsm_queue ix" "lsm_root (seal held ix) = lsm_root ix" "lsm_next_segment_id (seal held ix) = lsm_next_segment_id ix"
  "lsm_delete_generation (seal held ix) = lsm_delete_generation ix"
  by (simp_all add: seal_def)

lemma snapshot_terms:
  assumes "\<forall>r \<in> set (sn_readers sn). rd_good F kind r"
  shows "items (sn_lookup F sn t x) = v_terms (view_delete (sn_deleted sn) (contents F (sn_readers sn))) t x"
proof -
  have "sn_ok F sn" using assms by (auto simp: sn_ok_def rd_good_def)
  then show ?thesis by (simp add: sn_lookup_items view_delete_def contents_def live_merge_def)
qed

section \<open>Flushing\<close>

lemma lsm_invI:
  assumes "lsm_inv F kind ix" and "contents F (lsm_readers ix') = contents F (lsm_readers ix)"
    and "\<forall>r \<in> set (lsm_readers ix'). rd_good F kind r" and "length (lsm_handles ix') = length (lsm_segments ix')"
    and "\<forall>p \<in> set (fq_pending (lsm_queue ix')). pf_generations p \<noteq> []"
    and "ranged (lsm_mem ix')" and "\<forall>g \<in> set (lsm_generations ix'). mi_doc_id_range g \<noteq> None"
  shows "lsm_inv F kind ix'"
  using assms by (simp add: lsm_inv_def)

lemma generations_max_Some: "gens \<noteq> [] \<Longrightarrow> \<forall>g \<in> set gens. mi_doc_id_range g \<noteq> None \<Longrightarrow> generations_max gens \<noteq> None"
  by (cases gens) (auto simp: generations_max_def Let_def List.map_filter_def split: option.splits)

lemma mset_insert_at [simp]: "mset (insert_at n x xs) = add_mset x (mset xs)"
  by (simp add: insert_at_def flip: union_code mset_append [of "take n xs" "drop n xs"])

lemma length_insert_at [simp]: "length (insert_at n x xs) = Suc (length xs)"
  using mset_insert_at [of n x xs] by (metis size_add_mset size_mset)

lemma set_insert_at [simp]: "set (insert_at n x xs) = insert x (set xs)"
  using mset_insert_at [of n x xs] by (metis set_mset_add_mset_insert set_mset_mset)

lemma part_good:
  assumes "lsm_inv F kind ix" "gens \<noteq> []" "mset (map MemReader gens) \<subseteq># mset (lsm_readers ix)"
  shows "gens_good kind gens"
proof (rule gens_goodI [of _ F])
  show "keys_once (contents F (map MemReader gens))"
    using assms(1) by (intro keys_once_subset [OF _ assms(3)]) (simp add: lsm_inv_def)
  have "set (map MemReader gens) \<subseteq> set (lsm_readers ix)" using set_mset_mono [OF assms(3)] by (simp only: set_mset_mset)
  then show "\<forall>r \<in> set (map MemReader gens). rd_good F kind r" using assms(1) by (auto simp: lsm_inv_def)
qed (use assms in simp)

lemma pending_good:
  assumes "lsm_inv F kind ix" "p \<in> set (fq_pending (lsm_queue ix))"
  shows "gens_good kind (pf_generations p)"
proof (rule part_good [OF assms(1)])
  show "pf_generations p \<noteq> []" using assms by (simp add: lsm_inv_def)
  obtain as bs where "fq_pending (lsm_queue ix) = as @ p # bs" using assms(2) by (meson split_list)
  then show "mset (map MemReader (pf_generations p)) \<subseteq># mset (lsm_readers ix)"
    unfolding lsm_readers_eq by (simp add: subset_mset.add_increasing subset_mset.add_increasing2)
qed

text \<open>What queueing a flush does.  The error of generations without document ids does not occur.\<close>

lemma queue_flush_outcome:
  assumes inv: "lsm_inv F kind ix" and q: "q = fst (queue_flush held sync_fault ix)"
  obtains (same) "q = ix" | (sealed) "q = seal held ix"
  | (queued) dir hi where "lsm_root ix = Some dir" "lsm_generations (seal held ix) \<noteq> []"
      "q = (seal held ix)\<lparr>lsm_generations := [], lsm_next_doc_id := saturating_add_u64 hi 1, lsm_next_segment_id := lsm_next_segment_id ix + 1,
          lsm_queue := fq_push (segment_name (lsm_next_segment_id ix)) (lsm_generations (seal held ix)) (lsm_queue ix)\<rparr>"
  | (kept) hi where "lsm_root ix = None" "lsm_generations (seal held ix) \<noteq> []"
      "q = (seal held ix)\<lparr>lsm_generations := [], lsm_next_doc_id := saturating_add_u64 hi 1,
          lsm_handles := lsm_handles ix @ [MemoryHandle (freeze_shared (lsm_generations (seal held ix)))],
          lsm_segments := lsm_segments ix @ [SegReader (freeze_shared (lsm_generations (seal held ix)))]\<rparr>"
proof (cases "lsm_generations (seal held ix) = [] \<or> fq_health (lsm_queue ix) \<noteq> Inr () \<or> (lsm_root ix \<noteq> None \<and> sync_fault \<noteq> None)")
  case True
  then have "q \<in> {ix, seal held ix}"
    by (auto simp: q queue_flush_def Let_def split: sum.split option.splits prod.split)
  with same sealed show thesis by blast
next
  case False
  obtain hi where hi: "generations_max (lsm_generations (seal held ix)) = Some hi"
    using generations_max_Some [of "lsm_generations (seal held ix)"] False seal_same(2) [OF inv, of held] by (auto simp: lsm_inv_def)
  show thesis
  proof (cases "lsm_root ix")
    case (Some dir)
    then show thesis using False hi by (intro queued [of dir hi]) (auto simp: q queue_flush_def Let_def split: option.split)
  next
    case None
    then show thesis using False hi by (intro kept [of hi]) (auto simp: q queue_flush_def Let_def split: option.split)
  qed
qed

lemma queue_flush_same:
  assumes inv: "lsm_inv F kind ix"
  shows "lsm_inv F kind (fst (queue_flush held sync_fault ix)) \<and> lsm_abs F (fst (queue_flush held sync_fault ix)) = lsm_abs F ix"
proof -
  let ?s = "seal held ix" and ?q = "fst (queue_flush held sync_fault ix)"
  note s = seal_same [OF inv, of held]
  have sabs: "lsm_abs F ?s = lsm_abs F ix" using s(1) by (simp add: lsm_abs_def)
  have sinv: "lsm_inv F kind ?s" by (rule s(2))
  let ?gens = "lsm_generations ?s"
  have gens: "gens_good kind ?gens" if "?gens \<noteq> []"
    using that by (intro part_good [OF sinv]) (simp_all add: lsm_readers_eq subset_mset.add_increasing2)
  show ?thesis
  proof (cases rule: queue_flush_outcome [OF inv refl, of held sync_fault])
    case (3 dir hi)
    have m: "mset (lsm_readers ?q) = mset (lsm_readers ?s)"
      unfolding 3(3) by (simp add: lsm_readers_eq fq_push_def)
    then have c: "contents F (lsm_readers ?q) = contents F (lsm_readers ?s)" by (rule contents_mset)
    have "lsm_inv F kind ?q"
      using sinv c mset_eq_setD [OF m] 3(2) by (intro lsm_invI [OF sinv]) (auto simp: 3(3) fq_push_def lsm_inv_def)
    with c sabs show ?thesis by (simp add: lsm_abs_def) (simp add: 3(3))
  next
    case (4 hi)
    let ?seg = "freeze_shared ?gens"
    let ?rest = "MemReader (lsm_mem ?s) # concat (map (\<lambda>p. map MemReader (pf_generations p)) (fq_pending (lsm_queue ?s))) @ lsm_segments ?s"
    have m: "mset (lsm_readers ?q) = add_mset (SegReader ?seg) (mset ?rest)"
      unfolding 4(3) by (simp add: lsm_readers_eq)
    have b: "built_frozen ?gens (SegReader ?seg)" by (simp add: built_frozen_def)
    have "contents F (lsm_readers ?q) = contents F (map MemReader ?gens @ ?rest)" by (rule frozen.swap_contents [OF gens [OF 4(2)] b m])
    also have "\<dots> = contents F (lsm_readers ?s)" unfolding lsm_readers_eq by (rule contents_mset) simp
    finally have c: "contents F (lsm_readers ?q) = contents F (lsm_readers ?s)" .
    have "\<forall>r \<in> set (lsm_readers ?q). rd_good F kind r"
      using sinv by (intro frozen.swap_good [OF gens [OF 4(2)] b m]) (auto simp: lsm_inv_def lsm_readers_eq)
    then have "lsm_inv F kind ?q"
      using sinv c by (intro lsm_invI [OF sinv]) (auto simp: 4(3) lsm_inv_def)
    with c sabs show ?thesis by (simp add: lsm_abs_def) (simp add: 4(3))
  qed (use inv sinv sabs in auto)
qed

lemma contents_replace: "contents F as = contents F bs \<Longrightarrow> contents F (as @ rs) = contents F (bs @ rs)"
  by (simp add: contents_append)

lemma fq_fail_sel [simp]: "fq_pending (fq_fail e q) = fq_pending q" "fq_made (fq_fail e q) = fq_made q" "fq_next_seq (fq_fail e q) = fq_next_seq q"
  by (simp_all add: fq_fail_def split: option.split)

lemma fq_complete_Inr: "fq_complete seq q = Inr (p, q') \<longleftrightarrow> fq_pending q = p # fq_pending q' \<and> pf_seq p = seq \<and> q' = q\<lparr>fq_pending := fq_pending q'\<rparr>"
  by (cases "fq_pending q") (auto simp: fq_complete_def)

text \<open>Installing a reader for the flush at the front of the queue.\<close>

context generation_builder
begin

lemma install_front:
  assumes inv: "lsm_inv F kind ix" and q: "fq_pending (lsm_queue ix) = p # ps" and b: "built (pf_generations p) r"
    and ix': "lsm_mem ix' = lsm_mem ix" "lsm_generations ix' = lsm_generations ix" "fq_pending (lsm_queue ix') = ps" "lsm_deleted ix' = lsm_deleted ix"
    and ins: "mset (lsm_segments ix') = add_mset r (mset (lsm_segments ix))" and len: "length (lsm_handles ix') = Suc (length (lsm_handles ix))"
  shows "lsm_inv F kind ix' \<and> lsm_abs F ix' = lsm_abs F ix"
proof -
  let ?rest = "map MemReader (lsm_mem ix # lsm_generations ix) @ concat (map (\<lambda>p. map MemReader (pf_generations p)) ps) @ lsm_segments ix"
  have gens: "gens_good kind (pf_generations p)" using q by (intro pending_good [OF inv]) simp
  have m: "mset (lsm_readers ix') = add_mset r (mset ?rest)" by (simp add: lsm_readers_eq ix' ins)
  have "contents F (lsm_readers ix') = contents F (map MemReader (pf_generations p) @ ?rest)" by (rule swap_contents [OF gens b m])
  also have "\<dots> = contents F (lsm_readers ix)" unfolding lsm_readers_eq q by (rule contents_mset) simp
  finally have c: "contents F (lsm_readers ix') = contents F (lsm_readers ix)" .
  have "\<forall>r \<in> set ?rest. rd_good F kind r" using inv unfolding lsm_inv_def lsm_readers_eq q by auto
  then have "\<forall>r \<in> set (lsm_readers ix'). rd_good F kind r" by (rule swap_good [OF gens b m])
  moreover have "length (lsm_segments ix') = Suc (length (lsm_segments ix))" using ins by (metis size_add_mset size_mset)
  ultimately have "lsm_inv F kind ix'"
    using inv len q c by (intro lsm_invI [OF inv]) (auto simp: lsm_inv_def ix')
  with c show ?thesis by (simp add: lsm_abs_def ix')
qed

end

lemma complete_flush_same:
  assumes inv: "lsm_inv F kind ix"
    and written: "\<And>p ps ds. fq_pending (lsm_queue ix) = p # ps \<Longrightarrow> pf_seq p = seq \<Longrightarrow> written = Inr ds \<Longrightarrow> built_file F R (pf_generations p) (DiskReader ds)"
  shows "lsm_inv F kind (fst (complete_flush fault seq written ix)) \<and> lsm_abs F (fst (complete_flush fault seq written ix)) = lsm_abs F ix"
proof (cases "fq_complete seq (lsm_queue ix)")
  case (Inl e)
  then show ?thesis using inv by (simp add: complete_flush_def lsm_inv_def lsm_abs_def lsm_readers_eq)
next
  case (Inr pq)
  obtain p q where pq: "pq = (p, q)" by (cases pq)
  have q: "fq_pending (lsm_queue ix) = p # fq_pending q" "pf_seq p = seq" using Inr by (simp_all add: pq fq_complete_Inr)
  have kept: ?thesis if "fst (complete_flush fault seq written ix) = (keep_in_memory p ix')\<lparr>lsm_queue := fq_fail e q\<rparr>"
    "ix' = ix\<lparr>lsm_queue := q, lsm_root := root'\<rparr>" for ix' e root'
    using frozen.install_front [OF inv q(1), of "SegReader (freeze_shared (pf_generations p))" "(keep_in_memory p ix')\<lparr>lsm_queue := fq_fail e q\<rparr>"]
    by (simp add: that keep_in_memory_def Let_def built_frozen_def flush_position_def)
  show ?thesis
  proof (cases written)
    case (Inl e)
    then show ?thesis
      using Inr by (intro kept [where ix' = "ix\<lparr>lsm_queue := q\<rparr>" and e = e and root' = "lsm_root ix"]) (simp_all add: complete_flush_def Let_def pq keep_in_memory_def)
  next
    case (Inr ds)
    note out = \<open>fq_complete seq (lsm_queue ix) = Inr pq\<close>
    show ?thesis
    proof (cases "lsm_root ix")
      case None
      then show ?thesis
        using out Inr by (intro kept [where ix' = "ix\<lparr>lsm_queue := q\<rparr>" and root' = "lsm_root ix"]) (simp_all add: complete_flush_def Let_def pq install_flushed_def keep_in_memory_def)
    next
      case (Some dir)
      obtain dir' res where ma: "manifest_append fault (pf_path p) dir = (dir', res)" by (metis surj_pair)
      show ?thesis
      proof (cases res)
        case (Inl e)
        then show ?thesis
          using out Inr Some ma
          by (intro kept [where ix' = "ix\<lparr>lsm_queue := q, lsm_root := Some dir'\<rparr>" and e = e and root' = "Some dir'"]) (simp_all add: complete_flush_def Let_def pq install_flushed_def keep_in_memory_def)
      next
        case (Inr u)
        have b: "built_file F R (pf_generations p) (DiskReader ds)" using written [OF q] \<open>written = Inr ds\<close> .
        have fst: "fst (complete_flush fault seq written ix) = ix\<lparr>lsm_queue := q, lsm_root := Some dir',
            lsm_handles := insert_at (flush_position p ix) (DiskHandle (pf_path p)) (lsm_handles ix),
            lsm_segments := insert_at (flush_position p ix) (DiskReader ds) (lsm_segments ix)\<rparr>"
          using out \<open>written = Inr ds\<close> Some ma Inr by (simp add: complete_flush_def Let_def pq install_flushed_def flush_position_def)
        show ?thesis
          unfolding fst by (intro flushed.install_front [OF inv q(1) b]) simp_all
      qed
    qed
  qed
qed

section \<open>Ingestion and deletion\<close>

definition batch_fits :: "fst_ops \<Rightarrow> (u32 \<Rightarrow> numeric_kind) \<Rightarrow> mem_index \<Rightarrow> lsm_index \<Rightarrow> bool" where
  "batch_fits F kind batch ix \<longleftrightarrow> mem_good kind batch \<and> ranged batch \<and> keys_once (contents F (MemReader batch # lsm_readers ix))"

lemma ranged_merge_from:
  assumes "mem_good kind m" "mem_good kind newer" "ranged m" "ranged newer"
  shows "ranged (merge_from m newer)"
proof -
  have np: "np_ok (mi_numeric_points newer)" using assms by (simp add: mem_good_def mem_ok_def)
  have "mi_terms (merge_from m newer) = [] \<or> mi_terms m \<noteq> [] \<or> mi_terms newer \<noteq> []"
    by (auto simp: merge_from_sel [OF np] omap_merge_def)
  then show ?thesis using assms range_merge_from [of m newer] by (auto simp: ranged_def)
qed

lemma merge_into_memtable_adds:
  assumes inv: "lsm_inv F kind ix" and b: "batch_fits F kind batch ix"
  shows "lsm_inv F kind (merge_into_memtable now batch ix)
    \<and> lsm_abs F (merge_into_memtable now batch ix) = view_add (lsm_abs F ix) (view_delete (lsm_deleted ix) (contents F [MemReader batch]))"
proof -
  let ?ix = "merge_into_memtable now batch ix"
  let ?rest = "map MemReader (lsm_generations ix) @ concat (map (\<lambda>p. map MemReader (pf_generations p)) (fq_pending (lsm_queue ix))) @ lsm_segments ix"
  have old: "lsm_readers ix = MemReader (lsm_mem ix) # ?rest" and new: "lsm_readers ?ix = MemReader (merge_from (lsm_mem ix) batch) # ?rest"
    by (simp_all add: lsm_readers_eq merge_into_memtable_def)
  have good: "mem_good kind (lsm_mem ix)" "mem_good kind batch"
    using inv b by (auto simp: lsm_inv_def old rd_good_mem_iff batch_fits_def)
  have dis: "fst ` set (mi_doc_lengths (lsm_mem ix)) \<inter> fst ` set (mi_doc_lengths batch) = {}"
    using b by (auto simp: batch_fits_def keys_once_distinct old)
  have c: "contents F (lsm_readers ?ix) = contents F (MemReader batch # lsm_readers ix)"
  proof -
    have "contents F (lsm_readers ?ix) = contents F ([MemReader (lsm_mem ix), MemReader batch] @ ?rest)"
      unfolding new using contents_replace [OF contents_merge_from [OF good dis], of F ?rest] by simp
    also have "\<dots> = contents F (MemReader batch # lsm_readers ix)" unfolding old by (rule contents_mset) simp
    finally show ?thesis .
  qed
  then have "contents F (lsm_readers ?ix) = view_add (contents F (lsm_readers ix)) (contents F [MemReader batch])"
    using contents_append [of F "[MemReader batch]" "lsm_readers ix"] by (simp add: view_add_commute)
  moreover have "lsm_inv F kind ?ix"
    using inv b mem_good_merge [OF good dis] ranged_merge_from [OF good] c
    by (auto simp: lsm_inv_def new old batch_fits_def rd_good_mem_iff) (auto simp: merge_into_memtable_def)
  ultimately show ?thesis by (simp add: lsm_abs_def view_delete_add merge_into_memtable_def)
qed

lemma delete_document_removes:
  assumes "lsm_inv F kind ix"
  shows "lsm_inv F kind (fst (delete_document now fault d ix)) \<and> lsm_abs F (fst (delete_document now fault d ix)) = view_delete {d} (lsm_abs F ix)"
proof -
  have "lsm_readers (fst (delete_document now fault d ix)) = lsm_readers ix" "lsm_deleted (fst (delete_document now fault d ix)) = insert d (lsm_deleted ix)"
    by (simp_all add: delete_document_def Let_def lsm_readers_eq ds_delete_def split: option.split prod.split)
  moreover have "lsm_inv F kind (fst (delete_document now fault d ix))"
    using assms calculation(1) unfolding lsm_inv_def
    by (simp add: delete_document_def Let_def split: option.split prod.split)
  ultimately show ?thesis by (simp add: lsm_abs_def view_delete_delete)
qed

lemma take_flush_jobs_same:
  assumes "lsm_inv F kind ix"
  shows "lsm_inv F kind (snd (take_flush_jobs ix)) \<and> lsm_abs F (snd (take_flush_jobs ix)) = lsm_abs F ix"
  using assms by (simp add: take_flush_jobs_def fq_take_jobs_def lsm_inv_def lsm_abs_def lsm_readers_eq)

lemma plan_compaction_same:
  assumes "lsm_inv F kind ix"
  shows "lsm_inv F kind (fst (plan_compaction now config ix)) \<and> lsm_abs F (fst (plan_compaction now config ix)) = lsm_abs F ix"
  using assms by (simp add: plan_compaction_def lsm_inv_def lsm_abs_def lsm_readers_eq split: option.split prod.split)

section \<open>Removing and inserting at positions\<close>

lemma index_of_Some: "index_of xs x = Some i \<Longrightarrow> i < length xs \<and> xs ! i = x"
  by (auto simp: index_of_def find_Some_iff)

lemma index_of_None: "index_of xs x = None \<longleftrightarrow> x \<notin> set xs"
  by (auto simp: index_of_def find_None_iff in_set_conv_nth)

lemma map_filter_index_of:
  "length (List.map_filter (index_of xs) sel) = length sel \<longleftrightarrow> set sel \<subseteq> set xs"
  "set sel \<subseteq> set xs \<Longrightarrow> map ((!) xs) (List.map_filter (index_of xs) sel) = sel"
proof -
  have "length (List.map_filter f ys) \<le> length ys" for f :: "'a \<Rightarrow> nat option" and ys
    by (simp add: List.map_filter_def)
  from this [of "index_of xs"] have le: "length (List.map_filter (index_of xs) ys) < Suc (length ys)" for ys by (simp add: le_imp_less_Suc)
  show "length (List.map_filter (index_of xs) sel) = length sel \<longleftrightarrow> set sel \<subseteq> set xs"
  proof (induction sel)
    case (Cons s sel)
    show ?case
    proof (cases "index_of xs s")
      case None
      then have "s \<notin> set xs" using index_of_None [of xs s] by blast
      moreover have "List.map_filter (index_of xs) (s # sel) = List.map_filter (index_of xs) sel" using None by (simp add: map_filter_simps)
      ultimately show ?thesis using less_imp_neq [OF le [of sel]] by simp
    next
      case (Some i)
      then show ?thesis using Cons by (auto simp: map_filter_simps dest: index_of_Some)
    qed
  qed (simp add: map_filter_simps)
  show "set sel \<subseteq> set xs \<Longrightarrow> map ((!) xs) (List.map_filter (index_of xs) sel) = sel"
  proof (induction sel)
    case (Cons s sel)
    then obtain i where "index_of xs s = Some i" using index_of_None [of xs s] by (cases "index_of xs s") auto
    with Cons show ?case by (simp add: map_filter_simps index_of_Some)
  qed (simp add: map_filter_simps)
qed

lemma map_filter_index_of_bound: "i \<in> set (List.map_filter (index_of xs) sel) \<Longrightarrow> i < length xs"
  by (auto simp: List.map_filter_def dest: index_of_Some)

lemma remove_at_nth: "i < p \<Longrightarrow> p < length xs \<Longrightarrow> remove_at p xs ! i = xs ! i"
  by (simp add: remove_at_def nth_append)

lemma mset_remove_at: "p < length xs \<Longrightarrow> mset xs = add_mset (xs ! p) (mset (remove_at p xs))"
  unfolding remove_at_def by (subst id_take_nth_drop [of p xs]) simp_all

lemma length_remove_at: "p < length xs \<Longrightarrow> length (remove_at p xs) = length xs - 1"
  by (simp add: remove_at_def)

lemma mset_remove_all_at:
  assumes "ascending ps" "\<forall>p \<in> set ps. p < length xs"
  shows "mset xs = mset (remove_all_at ps xs) + mset (map ((!) xs) ps)"
  using assms
proof (induction ps arbitrary: xs rule: rev_induct)
  case (snoc p ps)
  have less: "\<forall>i \<in> set ps. i < p" and asc: "ascending ps" using snoc.prems(1) by (auto simp: sorted_wrt_append)
  have p: "p < length xs" using snoc.prems by simp
  have "\<forall>i \<in> set ps. i < length (remove_at p xs)" using less p by (force simp: length_remove_at)
  from snoc.IH [OF asc this] have "mset (remove_at p xs) = mset (remove_all_at ps (remove_at p xs)) + mset (map ((!) (remove_at p xs)) ps)" .
  moreover have "map ((!) (remove_at p xs)) ps = map ((!) xs) ps" using less p by (simp add: remove_at_nth)
  ultimately show ?case using mset_remove_at [OF p] by (simp add: remove_all_at_def)
qed (simp add: remove_all_at_def)

lemma list_all2_remove_all_at: "list_all2 P xs ys \<Longrightarrow> list_all2 P (remove_all_at ps xs) (remove_all_at ps ys)"
  unfolding remove_all_at_def
proof (induction ps arbitrary: xs ys rule: rev_induct)
  case (snoc p ps)
  have "list_all2 P (remove_at p xs) (remove_at p ys)"
    unfolding remove_at_def using snoc.prems by (intro list_all2_appendI list_all2_takeI list_all2_dropI)
  from snoc.IH [OF this] show ?case by simp
qed simp

lemma list_all2_insert_at: "list_all2 P xs ys \<Longrightarrow> P x y \<Longrightarrow> list_all2 P (insert_at n x xs) (insert_at n y ys)"
  unfolding insert_at_def by (intro list_all2_appendI list_all2_takeI list.rel_intros(2) list_all2_dropI)

section \<open>Installing a compaction\<close>

definition backed :: "fst_ops \<Rightarrow> roaring_ops \<Rightarrow> lsm_index \<Rightarrow> bool" where
  "backed F R ix \<longleftrightarrow> (\<forall>dir. lsm_root ix = Some dir \<longrightarrow> list_all2 (\<lambda>h r. open_handle F R dir h = Inr r) (lsm_handles ix) (lsm_segments ix))"

definition drops_tombstones :: "completed_compaction \<Rightarrow> lsm_index \<Rightarrow> bool" where
  "drops_tombstones cc ix \<longleftrightarrow> length (cc_selected cc) = length (lsm_handles ix) \<and> cc_delete_generation cc = lsm_delete_generation ix"

definition memory_readers :: "lsm_index \<Rightarrow> search_reader list" where
  "memory_readers ix = map MemReader (lsm_mem ix # lsm_generations ix)
     @ concat (map (\<lambda>p. map MemReader (pf_generations p)) (fq_pending (lsm_queue ix)))"

lemma lsm_readers_split: "lsm_readers ix = memory_readers ix @ lsm_segments ix"
  by (simp add: lsm_readers_eq memory_readers_def)

lemma open_handles_all2: "open_handles F R dir hs = Inr rs \<longleftrightarrow> list_all2 (\<lambda>h r. open_handle F R dir h = Inr r) hs rs"
  by (induction hs arbitrary: rs) (auto simp: and_then_eq_Inr list_all2_Cons1)

text \<open>What installing does to the lists: the merged segments go, the output takes the first's place.\<close>

lemma install_compaction_outcome:
  fixes F R cc ix dir rewrite_fault clear_fault
  defines "found \<equiv> sort_dedup (List.map_filter (index_of (lsm_handles ix)) (cc_selected cc))"
  assumes root: "lsm_root ix = Some dir" and sel: "set (cc_selected cc) \<subseteq> set (lsm_handles ix)" "cc_selected cc \<noteq> []"
    and op: "open_file F R (cc_output_path cc) dir = Inr ds"
  shows "\<exists>dir' D'. fst (install_compaction F R rewrite_fault clear_fault cc ix) =
      ix\<lparr>lsm_handles := insert_at (hd found) (DiskHandle (cc_output_path cc)) (remove_all_at found (lsm_handles ix)),
         lsm_segments := insert_at (hd found) (DiskReader ds) (remove_all_at found (lsm_segments ix)),
         lsm_root := Some dir', lsm_deleted := D'\<rparr>
    \<and> (D' = lsm_deleted ix \<or> D' = {} \<and> drops_tombstones cc ix) \<and> (drops_tombstones cc ix \<and> rewrite_fault = None \<longrightarrow> D' = {})
    \<and> (\<forall>p. DiskHandle p \<notin> set (cc_selected cc) \<longrightarrow> dir_files dir' p = dir_files dir p)"
proof -
  have removed: "dir_files (fold remove_handle_file hs dir0) p = dir_files dir0 p" if "DiskHandle p \<notin> set hs" for hs dir0 p
    using that
  proof (induction hs arbitrary: dir0)
    case (Cons h hs)
    then show ?case by (cases h) (auto simp: remove_handle_file_def remove_file_def)
  qed simp
  have len: "length (List.map_filter (index_of (lsm_handles ix)) (cc_selected cc)) = length (cc_selected cc)"
    using sel(1) by (simp add: map_filter_index_of(1))
  then have "List.map_filter (index_of (lsm_handles ix)) (cc_selected cc) \<noteq> []" using sel(2) by auto
  then have "set found \<noteq> {}" unfolding found_def by simp
  then obtain p ps where found: "found = p # ps" by (cases found) auto
  have "sort_dedup (List.map_filter (index_of (lsm_handles ix)) (cc_selected cc)) = p # ps" using found by (simp add: found_def)
  note simps = install_compaction_def root len Let_def op this found
  obtain dir1 res where mr: "manifest_rewrite rewrite_fault (disk_segment_paths (ix\<lparr>lsm_handles := insert_at p (DiskHandle (cc_output_path cc))
        (remove_all_at (p # ps) (lsm_handles ix)), lsm_segments := insert_at p (DiskReader ds) (remove_all_at (p # ps) (lsm_segments ix))\<rparr>)) dir = (dir1, res)"
    by (metis surj_pair)
  then have kept: "dir_files dir1 = dir_files dir" by (auto simp: manifest_rewrite_def split: option.splits prod.splits)
  show ?thesis
  proof (cases res)
    case (Inl e)
    then have "rewrite_fault \<noteq> None" using mr by (auto simp: manifest_rewrite_def split: option.splits)
    with Inl show ?thesis using kept by (intro exI [of _ dir1] exI [of _ "lsm_deleted ix"]) (auto simp: simps mr)
  next
    case (Inr u)
    let ?dir = "fold remove_handle_file (cc_selected cc) dir1"
    show ?thesis
    proof (cases "drops_tombstones cc ix")
      case True
      then show ?thesis
        using Inr removed kept
        by (intro exI [of _ "if clear_fault = None then ?dir\<lparr>dir_deletes := clear_deletes (dir_deletes ?dir)\<rparr> else ?dir"] exI [of _ "{}"])
          (auto simp: simps mr drops_tombstones_def split: option.split)
    next
      case False
      then show ?thesis
        using Inr removed kept by (intro exI [of _ ?dir] exI [of _ "lsm_deleted ix"]) (auto simp: simps mr drops_tombstones_def)
    qed
  qed
qed

text \<open>A finished compaction: its output is on disk and holds what the selected segments hold, without
  the documents that were deleted when it was planned.\<close>

definition output_ready :: "fst_ops \<Rightarrow> roaring_ops \<Rightarrow> (u32 \<Rightarrow> numeric_kind) \<Rightarrow> lsm_dir \<Rightarrow> delete_set \<Rightarrow> completed_compaction \<Rightarrow> bool" where
  "output_ready F R kind dir dels cc \<longleftrightarrow>
     (\<exists>rs ds. open_handles F R dir (cc_selected cc) = Inr rs \<and> open_file F R (cc_output_path cc) dir = Inr ds
        \<and> rd_good F kind (DiskReader ds) \<and> contents F [DiskReader ds] = view_delete dels (contents F rs))"

lemma selected_readers:
  assumes hr: "list_all2 (\<lambda>h r. open_handle F R dir h = Inr r) hs rs" and sub: "set sel \<subseteq> set hs" and dist: "distinct sel"
    and op: "open_handles F R dir sel = Inr qs"
  defines "found \<equiv> sort_dedup (List.map_filter (index_of hs) sel)"
  shows "mset rs = mset (remove_all_at found rs) + mset qs"
proof -
  let ?ps = "List.map_filter (index_of hs) sel"
  have nth: "map ((!) hs) ?ps = sel" using map_filter_index_of(2) [OF sub] .
  then have distp: "distinct ?ps" using dist by (metis distinct_map)
  have bound: "p < length hs" if "p \<in> set ?ps" for p using that by (rule map_filter_index_of_bound)
  have len: "length hs = length rs" using hr by (rule list_all2_lengthD)
  have "list_all2 (\<lambda>h r. open_handle F R dir h = Inr r) sel (map ((!) rs) ?ps)"
  proof -
    have "list_all2 (\<lambda>h r. open_handle F R dir h = Inr r) (map ((!) hs) ?ps) (map ((!) rs) ?ps)"
      using bound hr by (auto simp: list_all2_map1 list_all2_map2 list_all2_conv_all_nth)
    then show ?thesis by (simp only: nth)
  qed
  then have qs: "qs = map ((!) rs) ?ps" using op by (simp flip: open_handles_all2)
  have "mset found = mset ?ps" unfolding found_def
    using distp by (metis ascending_distinct ascending_sort_dedup set_eq_iff_mset_eq_distinct set_sort_dedup)
  then have "mset (map ((!) rs) found) = mset qs" by (simp add: qs)
  moreover have "\<forall>p \<in> set found. p < length rs" using bound len by (simp add: found_def)
  ultimately show ?thesis using mset_remove_all_at [of found rs] by (simp add: found_def)
qed

lemma keys_once_smaller: "keys_once v \<Longrightarrow> v_lens w \<subseteq># v_lens v \<Longrightarrow> keys_once w"
  unfolding keys_once_def by (meson image_mset_subseteq_mono le_trans mset_subset_eq_count)

lemma v_lens_delete: "v_lens (view_delete D v) \<subseteq># v_lens v"
  by (simp add: view_delete_def)

text \<open>The segments after installing: those not merged, and the output.\<close>

lemma install_compaction_effect:
  fixes cc :: completed_compaction and rewrite_fault :: fault and clear_fault :: "io_error option"
  assumes inv: "lsm_inv F kind ix" and root: "lsm_root ix = Some dir" and backed: "backed F R ix"
    and sel: "set (cc_selected cc) \<subseteq> set (lsm_handles ix)" "cc_selected cc \<noteq> []" "distinct (cc_selected cc)"
    and ready: "output_ready F R kind dir dels cc"
  defines "ix' \<equiv> fst (install_compaction F R rewrite_fault clear_fault cc ix)"
  obtains rest qs where "mset (lsm_segments ix) = mset rest + mset qs" "length qs = length (cc_selected cc)"
    "contents F (lsm_readers ix) = view_add (contents F (memory_readers ix)) (view_add (contents F rest) (contents F qs))"
    "contents F (lsm_readers ix') = view_add (contents F (memory_readers ix)) (view_add (contents F rest) (view_delete dels (contents F qs)))"
    "lsm_inv F kind ix'" "lsm_deleted ix' = lsm_deleted ix \<or> lsm_deleted ix' = {} \<and> drops_tombstones cc ix"
    "drops_tombstones cc ix \<and> rewrite_fault = None \<longrightarrow> lsm_deleted ix' = {}"
    "lsm_mem ix' = lsm_mem ix" "lsm_generations ix' = lsm_generations ix"
proof -
  obtain qs ds where op: "open_handles F R dir (cc_selected cc) = Inr qs" "open_file F R (cc_output_path cc) dir = Inr ds"
    and ds: "rd_good F kind (DiskReader ds)" "contents F [DiskReader ds] = view_delete dels (contents F qs)"
    using ready by (auto simp: output_ready_def)
  let ?found = "sort_dedup (List.map_filter (index_of (lsm_handles ix)) (cc_selected cc))"
  obtain dir' D' where ix': "ix' = ix\<lparr>lsm_handles := insert_at (hd ?found) (DiskHandle (cc_output_path cc)) (remove_all_at ?found (lsm_handles ix)),
         lsm_segments := insert_at (hd ?found) (DiskReader ds) (remove_all_at ?found (lsm_segments ix)),
         lsm_root := Some dir', lsm_deleted := D'\<rparr>" and D': "D' = lsm_deleted ix \<or> D' = {} \<and> drops_tombstones cc ix"
      "drops_tombstones cc ix \<and> rewrite_fault = None \<longrightarrow> D' = {}"
    using install_compaction_outcome [OF root sel(1,2) op(2)] unfolding ix'_def by blast
  let ?rest = "remove_all_at ?found (lsm_segments ix)"
  have hr: "list_all2 (\<lambda>h r. open_handle F R dir h = Inr r) (lsm_handles ix) (lsm_segments ix)" using backed root by (simp add: backed_def)
  have segs: "mset (lsm_segments ix) = mset ?rest + mset qs" by (rule selected_readers [OF hr sel(1,3) op(1)])
  have mem: "memory_readers ix' = memory_readers ix" by (simp add: ix' memory_readers_def)
  have new: "contents F (lsm_readers ix') = view_add (contents F (memory_readers ix)) (view_add (contents F ?rest) (view_delete dels (contents F qs)))"
  proof -
    have "contents F (lsm_readers ix') = contents F (memory_readers ix @ ?rest @ [DiskReader ds])"
      unfolding lsm_readers_split mem by (rule contents_mset) (simp add: ix')
    then show ?thesis by (simp add: contents_append ds(2))
  qed
  have old: "contents F (lsm_readers ix) = view_add (contents F (memory_readers ix)) (view_add (contents F ?rest) (contents F qs))"
  proof -
    have "contents F (lsm_readers ix) = contents F (memory_readers ix @ ?rest @ qs)"
      unfolding lsm_readers_split by (rule contents_mset) (simp add: segs)
    then show ?thesis by (simp add: contents_append)
  qed
  have "v_lens (contents F (lsm_readers ix')) \<subseteq># v_lens (contents F (lsm_readers ix))"
    unfolding new old using v_lens_delete [of dels "contents F qs"] by (simp add: view_add_def subset_mset.add_mono)
  then have keys: "keys_once (contents F (lsm_readers ix'))"
    using inv keys_once_smaller by (auto simp: lsm_inv_def)
  have set_segs: "set (lsm_segments ix) = set ?rest \<union> set qs" using arg_cong [OF segs, of set_mset] by simp
  have "\<forall>r \<in> set (lsm_readers ix'). rd_good F kind r"
    using inv ds(1) unfolding lsm_inv_def lsm_readers_split mem set_append set_segs by (auto simp: ix')
  moreover have "length (lsm_handles ix') = length (lsm_segments ix')"
    using list_all2_lengthD [OF list_all2_remove_all_at [OF hr, of ?found]] by (simp add: ix')
  ultimately have inv': "lsm_inv F kind ix'" using inv keys by (simp add: lsm_inv_def ix')
  show thesis
  proof (rule that [OF segs _ old new inv'])
    show "length qs = length (cc_selected cc)" using op(1) by (simp add: open_handles_all2 list_all2_lengthD [symmetric])
  qed (use D' in \<open>simp_all add: ix'\<close>)
qed

text \<open>What a view holds of some documents and what it holds of the others.\<close>

lemma contents_split: "view_add (view_delete D (contents F rs)) (view_delete (- D) (contents F rs)) = contents F rs"
proof (rule view_eqI)
  let ?f = "\<lambda>ps. filter (\<lambda>p. doc_id p \<notin> D) ps @ filter (\<lambda>p. doc_id p \<notin> - D) ps"
  have "merge_by_doc (?f (merge_by_doc ps)) = merge_by_doc ps" for ps
  proof -
    have "mset (?f (merge_by_doc ps)) = mset (merge_by_doc ps)"
      using multiset_partition [of "mset (merge_by_doc ps)" "\<lambda>p. doc_id p \<notin> D"] by simp
    then have "merge_by_doc (?f (merge_by_doc ps)) = merge_by_doc (merge_by_doc ps)" by (rule merge_by_doc_mset)
    then show ?thesis by (simp add: merge_by_doc_ascending)
  qed
  then show "v_terms (view_add (view_delete D (contents F rs)) (view_delete (- D) (contents F rs))) t x = v_terms (contents F rs) t x" for t x
    by (simp add: view_defs)
  have part: "filter_mset (\<lambda>y. f y \<notin> D) M + filter_mset (\<lambda>y. f y \<notin> - D) M = M" for f :: "'b \<Rightarrow> u64" and M
    using multiset_partition [of M "\<lambda>y. f y \<notin> D"] by simp
  show "v_lens (view_add (view_delete D (contents F rs)) (view_delete (- D) (contents F rs))) = v_lens (contents F rs)"
    using part [of "\<lambda>y. fst (fst y)"] by (simp add: view_add_def view_delete_def case_prod_unfold)
  show "v_points (view_add (view_delete D (contents F rs)) (view_delete (- D) (contents F rs))) x = v_points (contents F rs) x" for x
    using part [of fst] by (simp add: view_add_def view_delete_def case_prod_unfold)
qed (auto simp: view_add_def view_delete_def)

text \<open>The deleted documents that are still in memory: what is found again when the tombstones go.\<close>

definition hidden_in_memory :: "fst_ops \<Rightarrow> lsm_index \<Rightarrow> index_view" where
  "hidden_in_memory F ix = view_delete (- lsm_deleted ix) (contents F (memory_readers ix))"

lemma install_compaction_abs:
  fixes cc :: completed_compaction and rewrite_fault :: fault and clear_fault :: "io_error option"
  assumes inv: "lsm_inv F kind ix" and root: "lsm_root ix = Some dir" and backed: "backed F R ix"
    and sel: "set (cc_selected cc) \<subseteq> set (lsm_handles ix)" "cc_selected cc \<noteq> []" "distinct (cc_selected cc)"
    and ready: "output_ready F R kind dir dels cc" and dels: "dels \<subseteq> lsm_deleted ix"
    and clear: "drops_tombstones cc ix \<longrightarrow> dels = lsm_deleted ix"
  defines "ix' \<equiv> fst (install_compaction F R rewrite_fault clear_fault cc ix)"
  shows "lsm_inv F kind ix'" and "lsm_deleted ix' = lsm_deleted ix \<Longrightarrow> lsm_abs F ix' = lsm_abs F ix"
    and "lsm_deleted ix' \<noteq> lsm_deleted ix \<Longrightarrow> lsm_deleted ix' = {} \<and> lsm_abs F ix' = view_add (lsm_abs F ix) (hidden_in_memory F ix)"
proof -
  obtain rest qs where segs: "mset (lsm_segments ix) = mset rest + mset qs" "length qs = length (cc_selected cc)"
    and old: "contents F (lsm_readers ix) = view_add (contents F (memory_readers ix)) (view_add (contents F rest) (contents F qs))"
    and new: "contents F (lsm_readers ix') = view_add (contents F (memory_readers ix)) (view_add (contents F rest) (view_delete dels (contents F qs)))"
    and inv': "lsm_inv F kind ix'" and D': "lsm_deleted ix' = lsm_deleted ix \<or> lsm_deleted ix' = {} \<and> drops_tombstones cc ix"
    unfolding ix'_def by (rule install_compaction_effect [OF inv root backed sel ready])
  show "lsm_inv F kind ix'" by (rule inv')
  have dd: "view_delete (lsm_deleted ix) (view_delete dels v) = view_delete (lsm_deleted ix) v" for v
    using dels by (simp add: view_delete_delete Un_absorb2)
  show "lsm_abs F ix' = lsm_abs F ix" if "lsm_deleted ix' = lsm_deleted ix"
    using that by (simp add: lsm_abs_def new old view_delete_add dd)
  show "lsm_deleted ix' = {} \<and> lsm_abs F ix' = view_add (lsm_abs F ix) (hidden_in_memory F ix)" if "lsm_deleted ix' \<noteq> lsm_deleted ix"
  proof -
    from that D' clear have D: "lsm_deleted ix' = {}" "drops_tombstones cc ix" "dels = lsm_deleted ix" by auto
    have "length qs = length (lsm_segments ix)"
      using D(2) segs(2) inv by (simp add: drops_tombstones_def lsm_inv_def)
    then have "size (mset rest) = 0" using arg_cong [OF segs(1), of size] by simp
    then have rest: "rest = []" by simp
    have none: "view_delete E (contents F []) = contents F []" for E
      by (rule view_eqI) (simp_all add: view_defs term_postings_of_def merge_by_doc_ascending)
    let ?mem = "contents F (memory_readers ix)" and ?D = "lsm_deleted ix" and ?more = "view_add (contents F []) (view_delete (lsm_deleted ix) (contents F qs))"
    have "lsm_abs F ix' = view_add ?mem ?more" by (simp add: lsm_abs_def new rest D)
    also have "\<dots> = view_add (view_add (view_delete ?D ?mem) (view_delete (- ?D) ?mem)) ?more" by (simp only: contents_split)
    also have "\<dots> = view_add (view_add (view_delete ?D ?mem) ?more) (view_delete (- ?D) ?mem)" by (simp only: view_add_ac)
    finally show ?thesis by (simp add: D(1) lsm_abs_def old rest view_delete_add none hidden_in_memory_def)
  qed
qed

end
