(* ===== verification/Lsm_Windows.thy ===== *)
theory Lsm_Windows
  imports Lsm
begin

text \<open>
  Which segments a compaction takes (\<^verbatim>\<open>plan_compaction\<close>, \<^verbatim>\<open>tiered_window\<close>, \<^verbatim>\<open>cheapest_window\<close> of
  \<^verbatim>\<open>lsm/manager.rs\<close>): a contiguous run of segments on disk.
\<close>

section \<open>Runs\<close>

definition disk_run :: "u64 option list \<Rightarrow> nat \<Rightarrow> nat \<Rightarrow> bool" where
  "disk_run sizes a b \<longleftrightarrow> a \<le> b \<and> b \<le> length sizes \<and> (\<forall>i. a \<le> i \<and> i < b \<longrightarrow> sizes ! i \<noteq> None)"

definition run_total :: "u64 option list \<Rightarrow> nat \<Rightarrow> nat \<Rightarrow> u64" where
  "run_total sizes a b = (\<Sum>i \<leftarrow> [a..<b]. case sizes ! i of None \<Rightarrow> 0 | Some v \<Rightarrow> v)"

definition run_within :: "u64 option list \<Rightarrow> nat \<Rightarrow> nat \<Rightarrow> u64 \<Rightarrow> u64 \<Rightarrow> bool" where
  "run_within sizes a b lo hi \<longleftrightarrow> (\<forall>i v. a \<le> i \<and> i < b \<and> sizes ! i = Some v \<longrightarrow> lo \<le> v \<and> v \<le> hi)"

lemma saturating_mul_bound: "hi \<le> saturating_mul_u64 lo ratio \<Longrightarrow> unat hi \<le> unat lo * unat ratio"
proof -
  assume h: "hi \<le> saturating_mul_u64 lo ratio"
  show ?thesis
  proof (cases "unat lo * unat ratio < 2 ^ 64")
    case True
    then have "unat (lo * ratio) = unat lo * unat ratio" by (simp add: unat_word_ariths)
    with True h show ?thesis by (simp add: saturating_mul_u64_def word_le_nat_alt)
  next
    case False
    then show ?thesis using unat_u64_lt [of hi] by (simp add: not_less)
  qed
qed

lemma run_total_snoc: "a \<le> b \<Longrightarrow> sizes ! b = Some v \<Longrightarrow> run_total sizes a (Suc b) = run_total sizes a b + v"
  by (simp add: run_total_def)

lemma tier_extend_spec:
  assumes "start < stop" "disk_run sizes start stop" "run_within sizes start stop smallest largest" "acc = run_total sizes start stop"
    and "stop = Suc start \<or> largest \<le> saturating_mul_u64 smallest ratio"
    and "tier_extend sizes ratio max_w start stop smallest largest acc = (e, t)"
  shows "stop \<le> e \<and> disk_run sizes start e \<and> e - start \<le> max max_w (stop - start) \<and> t = run_total sizes start e
    \<and> (\<exists>lo hi. run_within sizes start e lo hi \<and> (e = Suc start \<or> hi \<le> saturating_mul_u64 lo ratio))"
  using assms
proof (induction sizes ratio max_w start stop smallest largest acc rule: tier_extend.induct)
  case (1 sizes ratio max_w start stop smallest largest acc)
  show ?case
  proof (cases "\<exists>sz. stop < length sizes \<and> stop - start < max_w \<and> sizes ! stop = Some sz
      \<and> max largest sz \<le> saturating_mul_u64 (min smallest sz) ratio")
    case True
    then obtain sz where c: "stop < length sizes" "stop - start < max_w" "sizes ! stop = Some sz"
      and le: "max largest sz \<le> saturating_mul_u64 (min smallest sz) ratio" by blast
    have step: "tier_extend sizes ratio max_w start (stop + 1) (min smallest sz) (max largest sz) (acc + sz) = (e, t)"
      using "1.prems"(6) c leD [OF le] by (subst (asm) tier_extend.simps) (simp add: Let_def del: max_less_iff_conj less_max_iff_disj)
    have "disk_run sizes start (stop + 1)" using "1.prems" c by (auto simp: disk_run_def less_Suc_eq)
    moreover have "run_within sizes start (stop + 1) (min smallest sz) (max largest sz)"
      using "1.prems"(3) c by (auto simp: run_within_def less_Suc_eq min_le_iff_disj le_max_iff_disj)
    moreover have "acc + sz = run_total sizes start (stop + 1)" using "1.prems" c by (simp add: run_total_snoc)
    ultimately have "stop + 1 \<le> e \<and> disk_run sizes start e \<and> e - start \<le> max max_w (stop + 1 - start) \<and> t = run_total sizes start e
        \<and> (\<exists>lo hi. run_within sizes start e lo hi \<and> (e = Suc start \<or> hi \<le> saturating_mul_u64 lo ratio))"
      using "1.IH" [OF _ c(3) refl refl _ _ _ _ _ _ step] c "1.prems"(1) le by (auto simp: not_less)
    then show ?thesis using c by auto
  next
    case False
    then have "tier_extend sizes ratio max_w start stop smallest largest acc = (stop, acc)"
      by (subst tier_extend.simps) (auto simp: Let_def not_less split: option.split)
    then have "e = stop" "t = acc" using "1.prems"(6) by simp_all
    with "1.prems" show ?thesis by auto
  qed
qed

lemma run_extend_spec:
  assumes "start \<le> stop" "disk_run sizes start stop" "acc = run_total sizes start stop" "run_extend sizes width start stop acc = (e, t)"
  shows "stop \<le> e \<and> disk_run sizes start e \<and> e - start \<le> max width (stop - start) \<and> t = run_total sizes start e"
  using assms
proof (induction sizes width start stop acc rule: run_extend.induct)
  case (1 sizes width start stop acc)
  show ?case
  proof (cases "\<exists>sz. stop < length sizes \<and> stop - start < width \<and> sizes ! stop = Some sz")
    case True
    then obtain sz where c: "stop < length sizes" "stop - start < width" "sizes ! stop = Some sz" by blast
    have step: "run_extend sizes width start (stop + 1) (acc + sz) = (e, t)"
      using "1.prems"(4) c by (subst (asm) run_extend.simps) simp
    have "disk_run sizes start (stop + 1)" using "1.prems" c by (auto simp: disk_run_def less_Suc_eq)
    moreover have "acc + sz = run_total sizes start (stop + 1)" using "1.prems" c by (simp add: run_total_snoc)
    ultimately have "stop + 1 \<le> e \<and> disk_run sizes start e \<and> e - start \<le> max width (stop + 1 - start) \<and> t = run_total sizes start e"
      using "1.IH" [OF _ c(3)] c "1.prems"(1) step by simp
    then show ?thesis using c by auto
  next
    case False
    then have "run_extend sizes width start stop acc = (stop, acc)"
      by (subst run_extend.simps) (auto split: option.split)
    with "1.prems" show ?thesis by auto
  qed
qed

text \<open>The fold keeps the cheapest candidate.\<close>

lemma fold_best:
  fixes cand :: "nat \<Rightarrow> (nat \<times> nat \<times> u64) option" and m n :: nat
  defines "best \<equiv> fold (\<lambda>i b. case cand i of None \<Rightarrow> b | Some c \<Rightarrow> better_window m c b) [0..<n] None"
  shows "case best of
      None \<Rightarrow> \<forall>i < n. \<forall>s e t. cand i = Some (s, e, t) \<longrightarrow> e - s < m
    | Some (s, e, t) \<Rightarrow> m \<le> e - s \<and> (\<exists>i < n. cand i = Some (s, e, t))
        \<and> (\<forall>i < n. \<forall>s' e' t'. cand i = Some (s', e', t') \<longrightarrow> m \<le> e' - s' \<longrightarrow> t \<le> t')"
  unfolding best_def
proof (induction n)
  case (Suc n)
  let ?b = "fold (\<lambda>i b. case cand i of None \<Rightarrow> b | Some c \<Rightarrow> better_window m c b) [0..<n] None"
  show ?case
  proof (cases "cand n")
    case None
    with Suc show ?thesis by (auto simp: less_Suc_eq split: option.splits)
  next
    case (Some c)
    obtain s e t where c: "c = (s, e, t)" by (cases c)
    show ?thesis
      using Suc Some
      by (cases ?b) (fastforce simp: c better_window_def less_Suc_eq split: if_splits prod.splits)+
  qed
qed simp


lemma tiered_window_best:
  "tiered_window sizes ratio min_w max_w = map_option (\<lambda>(s, e, _). (s, e))
     (fold (\<lambda>i b. case (case sizes ! i of None \<Rightarrow> None
          | Some first \<Rightarrow> Some (i, tier_extend sizes ratio max_w i (i + 1) first first first)) of
        None \<Rightarrow> b | Some c \<Rightarrow> better_window min_w c b) [0..<length sizes] None)"
proof -
  have "(case sizes ! i of None \<Rightarrow> b | Some first \<Rightarrow>
        let (stop, acc) = tier_extend sizes ratio max_w i (i + 1) first first first in better_window min_w (i, stop, acc) b) =
      (case (case sizes ! i of None \<Rightarrow> None | Some first \<Rightarrow> Some (i, tier_extend sizes ratio max_w i (i + 1) first first first)) of
        None \<Rightarrow> b | Some c \<Rightarrow> better_window min_w c b)" for i b
    by (simp split: option.split prod.split)
  then show ?thesis unfolding tiered_window_def by presburger
qed

lemma cheapest_window_best:
  "cheapest_window sizes width = map_option (\<lambda>(s, e, _). (s, e))
     (fold (\<lambda>i b. case Some (i, run_extend sizes width i i 0) of None \<Rightarrow> b | Some c \<Rightarrow> better_window 2 c b) [0..<length sizes] None)"
proof -
  have "(let (stop, acc) = run_extend sizes width i i 0 in better_window 2 (i, stop, acc) b) =
      (case Some (i, run_extend sizes width i i 0) of None \<Rightarrow> b | Some c \<Rightarrow> better_window 2 c b)" for i b
    by (simp split: prod.split)
  then show ?thesis unfolding cheapest_window_def by presburger
qed

lemma tiered_candidate:
  assumes "i < length sizes" "sizes ! i = Some first" "tier_extend sizes ratio max_w i (i + 1) first first first = (e, t)"
  shows "i < e \<and> disk_run sizes i e \<and> e - i \<le> max max_w 1 \<and> t = run_total sizes i e
    \<and> (e = Suc i \<or> (\<forall>j k v w. i \<le> j \<and> j < e \<and> i \<le> k \<and> k < e \<and> sizes ! j = Some v \<and> sizes ! k = Some w \<longrightarrow> unat w \<le> unat v * unat ratio))"
proof -
  have "disk_run sizes i (i + 1)" "run_within sizes i (i + 1) first first" "first = run_total sizes i (i + 1)"
    using assms(1,2) by (auto simp: disk_run_def run_within_def run_total_def less_Suc_eq)
  from tier_extend_spec [OF _ this _ assms(3)] obtain lo hi where *: "i + 1 \<le> e" "disk_run sizes i e" "e - i \<le> max max_w 1" "t = run_total sizes i e"
    "run_within sizes i e lo hi" "e = Suc i \<or> hi \<le> saturating_mul_u64 lo ratio" by auto
  have "unat w \<le> unat v * unat ratio" if "hi \<le> saturating_mul_u64 lo ratio" "lo \<le> v" "w \<le> hi" for v w
  proof -
    have "unat w \<le> unat lo * unat ratio"
      using saturating_mul_bound [OF that(1)] that(3) by (simp add: word_le_nat_alt)
    also have "\<dots> \<le> unat v * unat ratio" using that(2) by (simp add: word_le_nat_alt)
    finally show ?thesis .
  qed
  with * show ?thesis unfolding run_within_def by (metis Suc_eq_plus1 Suc_le_eq)
qed

lemma tiered_window_run:
  assumes "tiered_window sizes ratio min_w max_w = Some (a, b)"
  shows "a < b \<and> disk_run sizes a b \<and> min_w \<le> b - a \<and> b - a \<le> max max_w 1
    \<and> (b - a = 1 \<or> (\<forall>j k v w. a \<le> j \<and> j < b \<and> a \<le> k \<and> k < b \<and> sizes ! j = Some v \<and> sizes ! k = Some w \<longrightarrow> unat w \<le> unat v * unat ratio))
    \<and> (\<forall>i < length sizes. \<forall>first e t. sizes ! i = Some first \<and> tier_extend sizes ratio max_w i (i + 1) first first first = (e, t) \<and> min_w \<le> e - i
          \<longrightarrow> run_total sizes a b \<le> t)"
proof -
  let ?cand = "\<lambda>i. case sizes ! i of None \<Rightarrow> None | Some first \<Rightarrow> Some (i, tier_extend sizes ratio max_w i (i + 1) first first first)"
  obtain t where best: "fold (\<lambda>i b. case ?cand i of None \<Rightarrow> b | Some c \<Rightarrow> better_window min_w c b) [0..<length sizes] None = Some (a, b, t)"
    using assms unfolding tiered_window_best by auto
  from fold_best [where cand = ?cand and m = min_w and n = "length sizes"] have w: "min_w \<le> b - a" and "\<exists>i < length sizes. ?cand i = Some (a, b, t)"
    and least: "\<And>i s' e' t'. i < length sizes \<Longrightarrow> ?cand i = Some (s', e', t') \<Longrightarrow> min_w \<le> e' - s' \<Longrightarrow> t \<le> t'"
    unfolding best by auto
  then obtain first where c: "a < length sizes" "sizes ! a = Some first" "tier_extend sizes ratio max_w a (a + 1) first first first = (b, t)"
    by (auto split: option.splits)
  note * = tiered_candidate [OF c]
  have "run_total sizes a b \<le> t'" if "i < length sizes" "sizes ! i = Some f" "tier_extend sizes ratio max_w i (i + 1) f f f = (e, t')" "min_w \<le> e - i" for i f e t'
    using least [of i i e t'] that * by simp
  with * w show ?thesis by auto
qed

lemma cheapest_window_run:
  assumes "cheapest_window sizes width = Some (a, b)"
  shows "disk_run sizes a b \<and> 2 \<le> b - a \<and> b - a \<le> width
    \<and> (\<forall>i < length sizes. \<forall>e t. run_extend sizes width i i 0 = (e, t) \<and> 2 \<le> e - i \<longrightarrow> run_total sizes a b \<le> t)"
proof -
  let ?cand = "\<lambda>i. Some (i, run_extend sizes width i i 0)"
  obtain t where best: "fold (\<lambda>i b. case ?cand i of None \<Rightarrow> b | Some c \<Rightarrow> better_window 2 c b) [0..<length sizes] None = Some (a, b, t)"
    using assms unfolding cheapest_window_best by auto
  from fold_best [where cand = ?cand and m = 2 and n = "length sizes"] have w: "2 \<le> b - a" "a < length sizes" "run_extend sizes width a a 0 = (b, t)"
    and least: "\<And>i e' t'. i < length sizes \<Longrightarrow> run_extend sizes width i i 0 = (e', t') \<Longrightarrow> 2 \<le> e' - i \<Longrightarrow> t \<le> t'"
    unfolding best by auto
  have "disk_run sizes a a" "0 = run_total sizes a a" using w by (auto simp: disk_run_def run_total_def)
  from run_extend_spec [OF _ this w(3)] w least show ?thesis by auto
qed

lemma plan_window_run:
  assumes "plan_window now config ix = Some (a, b)"
  shows "a < b \<and> disk_run (segment_sizes ix) a b"
proof -
  let ?sizes = "segment_sizes ix"
  have all: "0 < length ?sizes \<and> disk_run ?sizes 0 (length ?sizes)"
    if "\<not> length (filter (\<lambda>s. s \<noteq> None) ?sizes) < 2" "length (filter (\<lambda>s. s \<noteq> None) ?sizes) = length ?sizes"
  proof -
    have "filter (\<lambda>s. s \<noteq> None) ?sizes = ?sizes" using that(2) by (metis (mono_tags) length_filter_less nat_neq_iff filter_id_conv)
    then have "\<forall>s \<in> set ?sizes. s \<noteq> None" by (simp only: filter_id_conv)
    then show ?thesis using that by (auto simp: disk_run_def)
  qed
  have tier: "a < b \<and> disk_run ?sizes a b" if "tiered_window ?sizes r m w = Some (a, b)" for r m w
    using tiered_window_run [OF that] by blast
  have cheap: "a < b \<and> disk_run ?sizes a b" if "cheapest_window ?sizes w = Some (a, b)" for w
    using cheapest_window_run [OF that] by auto
  show ?thesis
    using assms all tier cheap unfolding plan_window_def Let_def by (auto split: if_splits option.splits)
qed

section \<open>Properties\<close>

text \<open>C17. A tiered window is a run of segments on disk of the wanted width whose sizes are all within
  the ratio of each other, and no run the search considers (the longest within the ratio from each
  start) that is wide enough is cheaper.\<close>

theorem tiered_window_spec:
  assumes "tiered_window sizes ratio min_w max_w = Some (a, b)" and "1 \<le> max_w"
  shows "a < b \<and> disk_run sizes a b \<and> min_w \<le> b - a \<and> b - a \<le> max_w
    \<and> (b - a = 1 \<or> (\<forall>j k v w. a \<le> j \<and> j < b \<and> a \<le> k \<and> k < b \<and> sizes ! j = Some v \<and> sizes ! k = Some w \<longrightarrow> unat w \<le> unat v * unat ratio))
    \<and> (\<forall>i < length sizes. \<forall>first e t. sizes ! i = Some first \<and> tier_extend sizes ratio max_w i (i + 1) first first first = (e, t) \<and> min_w \<le> e - i
          \<longrightarrow> run_total sizes a b \<le> t)"
  using tiered_window_run [OF assms(1)] unfolding max_absorb1 [OF assms(2)] .

theorem tiered_window_spec_witness:
  "tiered_window [Some 100, Some 3, Some 4, None] 2 2 4 = Some (1, 3) \<and> disk_run [Some 100, Some 3, Some 4, None] 1 3"
proof -
  have w: "tiered_window [Some 100, Some 3, Some 4, None] 2 2 4 = Some (1, 3)"
    by (simp add: tiered_window_def better_window_def saturating_mul_u64_def tier_extend.simps upt_rec)
  from w tiered_window_spec [OF w] show ?thesis by simp
qed

text \<open>C18. The cheapest window is a run of at least two and at most \<open>width\<close> segments on disk, and no
  such run that is maximal for its start has a smaller total size.\<close>

theorem cheapest_window_spec:
  assumes "cheapest_window sizes width = Some (a, b)"
  shows "disk_run sizes a b \<and> 2 \<le> b - a \<and> b - a \<le> width
    \<and> (\<forall>i < length sizes. \<forall>e t. run_extend sizes width i i 0 = (e, t) \<and> 2 \<le> e - i \<longrightarrow> run_total sizes a b \<le> t)"
  using cheapest_window_run [OF assms] .

theorem cheapest_window_spec_witness:
  "cheapest_window [Some 100, Some 3, None, Some 50, Some 1] 3 = Some (3, 5) \<and> disk_run [Some 100, Some 3, None, Some 50, Some 1] 3 5"
proof -
  have w: "cheapest_window [Some 100, Some 3, None, Some 50, Some 1] 3 = Some (3, 5)"
    by (simp add: cheapest_window_def better_window_def run_extend.simps upt_rec)
  from w cheapest_window_spec [OF w] show ?thesis by simp
qed

end
