(* ===== verification/Lsm_System.thy ===== *)
theory Lsm_System
  imports Lsm_Refine Lsm_Windows
begin

text \<open>
  The index at work: the index worker applies commands, a writer thread writes queued segments in
  order and reports back, a compaction thread plans, merges and installs (\<^verbatim>\<open>lsm/index_worker.rs\<close>,
  \<^verbatim>\<open>lsm/compaction.rs\<close>).  The steps of the three interleave in any order (\<open>lsm_step\<close>); each applies
  the modelled operation, with any fault.  Every step refines the abstract state: ingestion adds the
  batch, deletion removes the document, and all others leave what can be found as it is, with one
  exception: installing a compaction that forgets the tombstones brings back the deleted documents
  that are still in memory, and its label says which.
\<close>

section \<open>Steps\<close>

datatype compaction_phase =
    NoCompaction
  | Planned compaction_job
  | Merged compaction_job completed_compaction

record lsm_system =
  sys_index :: lsm_index
  sys_writing :: "flush_job list"
  sys_written :: "(flush_job \<times> disk_segment result) list"
  sys_compaction :: compaction_phase

datatype label = Ingest mem_index | Delete u64 | Internal | Revive index_view

definition job_info :: "flush_job \<Rightarrow> u64 \<times> string \<times> mem_index list" where
  "job_info job = (fj_seq job, fj_path job, fj_generations job)"

definition pending_info :: "pending_flush \<Rightarrow> u64 \<times> string \<times> mem_index list" where
  "pending_info p = (pf_seq p, pf_path p, pf_generations p)"

text \<open>What installing a compaction does to the documents that can be found.\<close>

definition install_label :: "fst_ops \<Rightarrow> lsm_index \<Rightarrow> lsm_index \<Rightarrow> label" where
  "install_label F ix ix' = (if lsm_deleted ix' = lsm_deleted ix then Internal else Revive (hidden_in_memory F ix))"

text \<open>The segment numbers and the delete counter do not run out.\<close>

definition room :: "u64 \<Rightarrow> bool" where
  "room n \<longleftrightarrow> unat n + 1 < 2 ^ 64"

text \<open>A flush or a merge that fits the file format.\<close>

definition job_fits :: "fst_ops \<Rightarrow> roaring_ops \<Rightarrow> flush_job \<Rightarrow> bool" where
  "job_fits F R job \<longleftrightarrow> segment_fits (freeze_shared (fj_generations job))
     \<and> (\<forall>bs. write_segment_to F R (freeze_shared (fj_generations job)) = Inr bs \<longrightarrow> length bs < 2 ^ 64)"

definition merge_job_fits :: "fst_ops \<Rightarrow> roaring_ops \<Rightarrow> compaction_job \<Rightarrow> lsm_dir \<Rightarrow> bool" where
  "merge_job_fits F R job dir \<longleftrightarrow> (\<forall>rs. open_handles F R dir (cj_selected job) = Inr rs \<longrightarrow> merge_fits F rs (cj_deleted job)
     \<and> (\<forall>bs. compact_segments F R rs (cj_deleted job) = Inr bs \<longrightarrow> length bs < 2 ^ 64))"

text \<open>\<open>ok\<close> restricts the faults of the two text files of the directory: any, or none.\<close>

inductive lsm_step :: "fst_ops \<Rightarrow> roaring_ops \<Rightarrow> (u32 \<Rightarrow> numeric_kind) \<Rightarrow> (fault \<Rightarrow> bool) \<Rightarrow> lsm_system \<Rightarrow> label \<Rightarrow> lsm_system \<Rightarrow> bool"
  for F R kind ok where
  step_ingest: "batch_fits F kind batch (sys_index s) \<Longrightarrow>
     lsm_step F R kind ok s (Ingest batch) (s\<lparr>sys_index := merge_into_memtable now batch (sys_index s)\<rparr>)"
| step_delete: "room (lsm_delete_generation (sys_index s)) \<Longrightarrow> ok fault \<Longrightarrow>
     lsm_step F R kind ok s (Delete d) (s\<lparr>sys_index := fst (delete_document now fault d (sys_index s))\<rparr>)"
| step_publish: "lsm_step F R kind ok s Internal (s\<lparr>sys_index := snd (publish_snapshot held (sys_index s))\<rparr>)"
| step_queue: "room (lsm_next_segment_id (sys_index s)) \<Longrightarrow>
     lsm_step F R kind ok s Internal (s\<lparr>sys_index := fst (queue_flush held sync_fault (sys_index s))\<rparr>)"
| step_submit: "take_flush_jobs (sys_index s) = (jobs, ix) \<Longrightarrow>
     lsm_step F R kind ok s Internal (s\<lparr>sys_index := ix, sys_writing := sys_writing s @ jobs\<rparr>)"
| step_write: "sys_writing s = job # jobs \<Longrightarrow> lsm_root (sys_index s) = Some dir \<Longrightarrow> (\<forall>ds. written = Inr ds \<longrightarrow> job_fits F R job) \<Longrightarrow>
     job_write F R fault job dir = (dir', written) \<Longrightarrow>
     lsm_step F R kind ok s Internal (s\<lparr>sys_index := (sys_index s)\<lparr>lsm_root := Some dir'\<rparr>, sys_writing := jobs,
       sys_written := sys_written s @ [(job, written)]\<rparr>)"
| step_complete: "sys_written s = (job, written) # rest \<Longrightarrow> ok fault \<Longrightarrow>
     lsm_step F R kind ok s Internal (s\<lparr>sys_index := fst (complete_flush fault (fj_seq job) written (sys_index s)), sys_written := rest\<rparr>)"
| step_plan: "sys_compaction s = NoCompaction \<Longrightarrow> room (lsm_next_segment_id (sys_index s)) \<Longrightarrow> plan_compaction now config (sys_index s) = (ix, job) \<Longrightarrow>
     lsm_step F R kind ok s Internal (s\<lparr>sys_index := ix, sys_compaction := (case job of None \<Rightarrow> NoCompaction | Some j \<Rightarrow> Planned j)\<rparr>)"
| step_merge: "sys_compaction s = Planned job \<Longrightarrow> lsm_root (sys_index s) = Some dir \<Longrightarrow> merge_job_fits F R job dir \<Longrightarrow>
     run_compaction_job F R fault job dir = (dir', Inr cc) \<Longrightarrow>
     lsm_step F R kind ok s Internal (s\<lparr>sys_index := (sys_index s)\<lparr>lsm_root := Some dir'\<rparr>, sys_compaction := Merged job cc\<rparr>)"
| step_merge_failed: "sys_compaction s = Planned job \<Longrightarrow> lsm_root (sys_index s) = Some dir \<Longrightarrow>
     run_compaction_job F R fault job dir = (dir', Inl e) \<Longrightarrow>
     lsm_step F R kind ok s Internal (s\<lparr>sys_index := (sys_index s)\<lparr>lsm_root := Some (remove_file (cj_output_path job) dir')\<rparr>,
       sys_compaction := NoCompaction\<rparr>)"
| step_install: "sys_compaction s = Merged job cc \<Longrightarrow> ok rewrite_fault \<Longrightarrow> ok (map_option (Pair 0) clear_fault) \<Longrightarrow>
     ix = fst (install_compaction F R rewrite_fault clear_fault cc (sys_index s)) \<Longrightarrow>
     lsm_step F R kind ok s (install_label F (sys_index s) ix) (s\<lparr>sys_index := ix, sys_compaction := NoCompaction\<rparr>)"

inductive lsm_run :: "fst_ops \<Rightarrow> roaring_ops \<Rightarrow> (u32 \<Rightarrow> numeric_kind) \<Rightarrow> (fault \<Rightarrow> bool) \<Rightarrow> lsm_system \<Rightarrow> label list \<Rightarrow> lsm_system \<Rightarrow> bool"
  for F R kind ok where
  run_none: "lsm_run F R kind ok s [] s"
| run_more: "lsm_run F R kind ok s ls s' \<Longrightarrow> lsm_step F R kind ok s' l s'' \<Longrightarrow> lsm_run F R kind ok s (ls @ [l]) s''"

text \<open>What the steps mean for the abstract state, which is what can be found and the ids marked as deleted.
  A batch with a document under such an id is not found.\<close>

fun spec_step :: "fst_ops \<Rightarrow> label \<Rightarrow> index_view \<times> u64 set \<Rightarrow> index_view \<times> u64 set" where
  "spec_step F (Ingest batch) (v, D) = (view_add v (view_delete D (contents F [MemReader batch])), D)"
| "spec_step F (Delete d) (v, D) = (view_delete {d} v, insert d D)"
| "spec_step F Internal (v, D) = (v, D)"
| "spec_step F (Revive w) (v, D) = (view_add v w, {})"

definition lsm_spec :: "fst_ops \<Rightarrow> lsm_index \<Rightarrow> index_view \<times> u64 set" where
  "lsm_spec F ix = (lsm_abs F ix, lsm_deleted ix)"

section \<open>The invariant of the system\<close>

primrec compaction_names :: "compaction_phase \<Rightarrow> string list" where
  "compaction_names NoCompaction = []"
| "compaction_names (Planned job) = [cj_output_path job]"
| "compaction_names (Merged job cc) = [cj_output_path job]"

definition names_used :: "lsm_system \<Rightarrow> string list" where
  "names_used s = disk_segment_paths (sys_index s) @ map pf_path (fq_pending (lsm_queue (sys_index s))) @ compaction_names (sys_compaction s)"

definition named_below :: "u64 \<Rightarrow> string \<Rightarrow> bool" where
  "named_below n p \<longleftrightarrow> (\<exists>k < n. p = segment_name k)"

definition names_ok :: "lsm_system \<Rightarrow> bool" where
  "names_ok s \<longleftrightarrow> distinct (names_used s) \<and> (\<forall>p \<in> set (names_used s). named_below (lsm_next_segment_id (sys_index s)) p)"

definition queue_ok :: "fst_ops \<Rightarrow> roaring_ops \<Rightarrow> lsm_system \<Rightarrow> bool" where
  "queue_ok F R s \<longleftrightarrow>
     map pending_info (fq_pending (lsm_queue (sys_index s)))
       = map job_info (map fst (sys_written s) @ sys_writing s @ fq_made (lsm_queue (sys_index s)))
     \<and> (\<forall>(job, written) \<in> set (sys_written s). \<forall>ds. written = Inr ds \<longrightarrow> built_file F R (fj_generations job) (DiskReader ds)
          \<and> (\<exists>dir. lsm_root (sys_index s) = Some dir \<and> open_file F R (fj_path job) dir = Inr ds))"

definition job_ok :: "compaction_job \<Rightarrow> lsm_index \<Rightarrow> bool" where
  "job_ok job ix \<longleftrightarrow> set (cj_selected job) \<subseteq> set (lsm_handles ix) \<and> cj_selected job \<noteq> [] \<and> distinct (cj_selected job)
     \<and> (\<forall>h \<in> set (cj_selected job). \<exists>p. h = DiskHandle p)
     \<and> cj_deleted job \<subseteq> lsm_deleted ix \<and> cj_delete_generation job \<le> lsm_delete_generation ix
     \<and> (cj_delete_generation job = lsm_delete_generation ix \<longrightarrow> cj_deleted job = lsm_deleted ix)"

definition cc_of :: "compaction_job \<Rightarrow> completed_compaction" where
  "cc_of job = \<lparr>cc_job_id = cj_job_id job, cc_selected = cj_selected job, cc_output_path = cj_output_path job,
     cc_delete_generation = cj_delete_generation job\<rparr>"

definition compaction_ok :: "fst_ops \<Rightarrow> roaring_ops \<Rightarrow> (u32 \<Rightarrow> numeric_kind) \<Rightarrow> lsm_system \<Rightarrow> bool" where
  "compaction_ok F R kind s \<longleftrightarrow>
     (case sys_compaction s of
        NoCompaction \<Rightarrow> True
      | Planned job \<Rightarrow> job_ok job (sys_index s)
      | Merged job cc \<Rightarrow> job_ok job (sys_index s) \<and> cc = cc_of job
          \<and> (\<exists>dir. lsm_root (sys_index s) = Some dir \<and> output_ready F R kind dir (cj_deleted job) cc))"

definition sys_inv :: "fst_ops \<Rightarrow> roaring_ops \<Rightarrow> (u32 \<Rightarrow> numeric_kind) \<Rightarrow> lsm_system \<Rightarrow> bool" where
  "sys_inv F R kind s \<longleftrightarrow> fst_lawful F \<and> roaring_lawful R \<and> lsm_inv F kind (sys_index s) \<and> backed F R (sys_index s)
     \<and> names_ok s \<and> queue_ok F R s \<and> compaction_ok F R kind s"

section \<open>Files\<close>

lemma segment_name_inj [simp]: "segment_name a = segment_name b \<longleftrightarrow> a = b"
  by (metis option.inject segment_id_of_name)

lemma plus_one_less: "room n \<Longrightarrow> n < n + 1"
  by (simp add: room_def word_less_nat_alt unat_word_ariths)

lemma fresh_name:
  assumes "room n" "\<forall>p \<in> set ps. named_below n p"
  shows "segment_name n \<notin> set ps" "\<forall>p \<in> insert (segment_name n) (set ps). named_below (n + 1) p"
proof -
  have "n < n + 1" using assms(1) by (intro plus_one_less)
  then show "\<forall>p \<in> insert (segment_name n) (set ps). named_below (n + 1) p"
    using assms(2) unfolding named_below_def by (metis insert_iff less_trans)
  show "segment_name n \<notin> set ps"
    using assms(2) by (auto simp: named_below_def)
qed

lemma open_file_agree: "dir_files dir' p = dir_files dir p \<Longrightarrow> open_file F R p dir' = open_file F R p dir"
  by (simp add: open_file_def)

lemma open_handle_agree:
  "(\<And>p. h = DiskHandle p \<Longrightarrow> dir_files dir' p = dir_files dir p) \<Longrightarrow> open_handle F R dir' h = open_handle F R dir h"
  by (cases h) (simp_all add: open_handle_def open_file_def)

lemma disk_paths: "p \<in> set (disk_segment_paths ix) \<longleftrightarrow> DiskHandle p \<in> set (lsm_handles ix)"
  by (force simp: disk_segment_paths_def List.map_filter_def split: segment_handle.splits)

text \<open>The files the system reads: of installed segments, of segments written and not yet installed, and
  of a merge not yet installed.\<close>

primrec merged_names :: "compaction_phase \<Rightarrow> string set" where
  "merged_names NoCompaction = {}"
| "merged_names (Planned job) = {}"
| "merged_names (Merged job cc) = {cj_output_path job}"

definition live_files :: "lsm_system \<Rightarrow> string set" where
  "live_files s = set (disk_segment_paths (sys_index s)) \<union> fj_path ` fst ` set (sys_written s) \<union> merged_names (sys_compaction s)"

definition files_agree :: "string set \<Rightarrow> lsm_index \<Rightarrow> lsm_index \<Rightarrow> bool" where
  "files_agree P ix ix' \<longleftrightarrow> (\<forall>dir. lsm_root ix = Some dir \<longrightarrow> (\<exists>dir'. lsm_root ix' = Some dir' \<and> (\<forall>p \<in> P. dir_files dir' p = dir_files dir p)))
     \<and> (lsm_root ix = None \<longrightarrow> lsm_root ix' = None)"

lemma files_agree_refl: "lsm_root ix' = lsm_root ix \<Longrightarrow> files_agree P ix ix'"
  by (simp add: files_agree_def)

lemma backed_agree:
  assumes "backed F R ix" "files_agree P ix ix'" "lsm_handles ix' = lsm_handles ix" "lsm_segments ix' = lsm_segments ix" "set (disk_segment_paths ix) \<subseteq> P"
  shows "backed F R ix'"
proof (cases "lsm_root ix")
  case (Some dir)
  then obtain dir' where dir': "lsm_root ix' = Some dir'" "\<forall>p \<in> P. dir_files dir' p = dir_files dir p" using assms(2) by (auto simp: files_agree_def)
  have "open_handle F R dir' h = open_handle F R dir h" if "h \<in> set (lsm_handles ix)" for h
    using that assms(5) dir'(2) disk_paths by (intro open_handle_agree) blast
  then have "list_all2 (\<lambda>h r. open_handle F R dir' h = Inr r) (lsm_handles ix) (lsm_segments ix)"
    using assms(1) Some by (auto simp: backed_def intro: list.rel_mono_strong)
  then show ?thesis by (simp add: backed_def dir' assms)
qed (use assms in \<open>auto simp: backed_def files_agree_def\<close>)

lemma output_ready_agree:
  assumes "output_ready F R kind dir dels cc" "\<forall>h \<in> set (cc_selected cc). \<forall>p. h = DiskHandle p \<longrightarrow> dir_files dir' p = dir_files dir p"
    "dir_files dir' (cc_output_path cc) = dir_files dir (cc_output_path cc)"
  shows "output_ready F R kind dir' dels cc"
proof -
  have "open_handles F R dir' hs = open_handles F R dir hs"
    if "\<forall>h \<in> set hs. \<forall>p. h = DiskHandle p \<longrightarrow> dir_files dir' p = dir_files dir p" for hs
    using that by (induction hs) (simp_all add: open_handle_agree [of _ dir' dir])
  with assms show ?thesis by (simp add: output_ready_def open_file_agree [of dir' _ dir])
qed

lemma queue_ok_written:
  assumes "queue_ok F R s" "(job, Inr ds) \<in> set (sys_written s)"
  shows "built_file F R (fj_generations job) (DiskReader ds)" "\<exists>dir. lsm_root (sys_index s) = Some dir \<and> open_file F R (fj_path job) dir = Inr ds"
proof -
  have "\<forall>x \<in> set (sys_written s). case x of (job, written) \<Rightarrow> \<forall>ds. written = Inr ds \<longrightarrow> built_file F R (fj_generations job) (DiskReader ds)
          \<and> (\<exists>dir. lsm_root (sys_index s) = Some dir \<and> open_file F R (fj_path job) dir = Inr ds)"
    using assms(1) unfolding queue_ok_def by (rule conjunct2)
  from bspec [OF this assms(2)] show "built_file F R (fj_generations job) (DiskReader ds)"
    "\<exists>dir. lsm_root (sys_index s) = Some dir \<and> open_file F R (fj_path job) dir = Inr ds" by simp_all
qed

lemma written_in_pending:
  assumes "queue_ok F R s" "(job, written) \<in> set (sys_written s)"
  shows "fj_path job \<in> set (map pf_path (fq_pending (lsm_queue (sys_index s))))"
proof -
  have "job_info job \<in> set (map pending_info (fq_pending (lsm_queue (sys_index s))))"
    using assms by (force simp: queue_ok_def)
  then show ?thesis by (auto simp: job_info_def pending_info_def)
qed

text \<open>An operation that leaves the segments, the queue and the names as they are.\<close>

lemma sys_inv_frame:
  assumes inv: "sys_inv F R kind s" and "lsm_inv F kind ix'" and files: "files_agree (live_files s) (sys_index s) ix'"
    and same: "lsm_handles ix' = lsm_handles (sys_index s)" "lsm_segments ix' = lsm_segments (sys_index s)"
      "fq_pending (lsm_queue ix') = fq_pending (lsm_queue (sys_index s))" "fq_made (lsm_queue ix') = fq_made (lsm_queue (sys_index s))"
      "lsm_next_segment_id ix' = lsm_next_segment_id (sys_index s)"
    and job: "\<And>job. job_ok job (sys_index s) \<Longrightarrow> job_ok job ix'"
  shows "sys_inv F R kind (s\<lparr>sys_index := ix'\<rparr>)"
proof -
  let ?ix = "sys_index s"
  have b: "backed F R ix'" using inv by (intro backed_agree [OF _ files same(1,2)]) (auto simp: sys_inv_def live_files_def)
  have paths: "disk_segment_paths ix' = disk_segment_paths ?ix" by (simp add: disk_segment_paths_def same)
  then have n: "names_ok (s\<lparr>sys_index := ix'\<rparr>)" using inv by (simp add: sys_inv_def names_ok_def names_used_def same)
  have q: "queue_ok F R (s\<lparr>sys_index := ix'\<rparr>)"
  proof -
    have "\<exists>dir. lsm_root ix' = Some dir \<and> open_file F R (fj_path job) dir = Inr ds"
      if written: "(job, Inr ds) \<in> set (sys_written s)" for job ds
    proof -
      obtain dir where "lsm_root ?ix = Some dir" "open_file F R (fj_path job) dir = Inr ds"
        using queue_ok_written(2) [OF _ written] inv by (auto simp: sys_inv_def)
      moreover have "fj_path job \<in> live_files s"
        using imageI [OF imageI [OF written, of fst], of fj_path] by (simp add: live_files_def)
      then obtain dir' where "lsm_root ix' = Some dir'" "dir_files dir' (fj_path job) = dir_files dir (fj_path job)"
        using files \<open>lsm_root ?ix = Some dir\<close> unfolding files_agree_def by blast
      ultimately show ?thesis using open_file_agree by metis
    qed
    then show ?thesis using inv by (auto simp: sys_inv_def queue_ok_def same)
  qed
  have "compaction_ok F R kind (s\<lparr>sys_index := ix'\<rparr>)"
  proof (cases "sys_compaction s")
    case (Merged j cc)
    then obtain dir where r: "lsm_root ?ix = Some dir" "output_ready F R kind dir (cj_deleted j) cc" "cc = cc_of j" "job_ok j ?ix"
      using inv by (auto simp: sys_inv_def compaction_ok_def)
    obtain dir' where d: "lsm_root ix' = Some dir'" "\<forall>p \<in> live_files s. dir_files dir' p = dir_files dir p"
      using files r(1) by (auto simp: files_agree_def)
    have "output_ready F R kind dir' (cj_deleted j) cc"
    proof (rule output_ready_agree [OF r(2)])
      show "\<forall>h \<in> set (cc_selected cc). \<forall>p. h = DiskHandle p \<longrightarrow> dir_files dir' p = dir_files dir p"
        using r(3,4) d(2) by (auto simp: cc_of_def job_ok_def live_files_def disk_paths)
      show "dir_files dir' (cc_output_path cc) = dir_files dir (cc_output_path cc)"
        using d(2) Merged r(3) by (simp add: live_files_def cc_of_def)
    qed
    with Merged r d job show ?thesis by (simp add: compaction_ok_def)
  qed (use inv job in \<open>auto simp: sys_inv_def compaction_ok_def\<close>)
  with inv assms(2) b n q show ?thesis by (simp add: sys_inv_def)
qed

lemma job_ok_same:
  "job_ok job ix \<Longrightarrow> lsm_handles ix' = lsm_handles ix \<Longrightarrow> lsm_deleted ix' = lsm_deleted ix \<Longrightarrow> lsm_delete_generation ix' = lsm_delete_generation ix \<Longrightarrow> job_ok job ix'"
  by (simp add: job_ok_def)

lemma ingest_inv:
  assumes "sys_inv F R kind s" "batch_fits F kind batch (sys_index s)"
  shows "sys_inv F R kind (s\<lparr>sys_index := merge_into_memtable now batch (sys_index s)\<rparr>)"
  using assms merge_into_memtable_adds [of F kind "sys_index s" batch now]
  by (intro sys_inv_frame [OF assms(1)])
    (auto simp: sys_inv_def merge_into_memtable_def intro!: files_agree_refl intro: job_ok_same)

lemma publish_inv:
  assumes "sys_inv F R kind s"
  shows "sys_inv F R kind (s\<lparr>sys_index := snd (publish_snapshot held (sys_index s))\<rparr>)"
  using assms seal_same [of F kind "sys_index s" held]
  by (intro sys_inv_frame [OF assms(1)])
    (auto simp: sys_inv_def publish_snapshot_def Let_def intro!: files_agree_refl intro: job_ok_same)

lemma delete_inv:
  assumes inv: "sys_inv F R kind s" and room: "room (lsm_delete_generation (sys_index s))"
  shows "sys_inv F R kind (s\<lparr>sys_index := fst (delete_document now fault d (sys_index s))\<rparr>)"
proof (rule sys_inv_frame [OF inv])
  let ?ix = "sys_index s" and ?ix' = "fst (delete_document now fault d (sys_index s))"
  show "lsm_inv F kind ?ix'" using inv delete_document_removes by (auto simp: sys_inv_def)
  show "files_agree (live_files s) ?ix ?ix'"
    by (auto simp: files_agree_def delete_document_def Let_def deletes_append_def split: option.splits prod.splits)
  show "job_ok job ?ix'" if "job_ok job ?ix" for job
  proof -
    have "lsm_delete_generation ?ix' = lsm_delete_generation ?ix + 1" "lsm_deleted ?ix' = insert d (lsm_deleted ?ix)" "lsm_handles ?ix' = lsm_handles ?ix"
      by (simp_all add: delete_document_def Let_def ds_delete_def split: option.split prod.split)
    with that plus_one_less [OF room] show ?thesis by (auto simp: job_ok_def)
  qed
qed (simp_all add: delete_document_def Let_def split: option.split prod.split)

lemma job_ok_more_handles:
  "job_ok job ix \<Longrightarrow> set (lsm_handles ix) \<subseteq> set (lsm_handles ix') \<Longrightarrow> lsm_deleted ix' = lsm_deleted ix \<Longrightarrow>
     lsm_delete_generation ix' = lsm_delete_generation ix \<Longrightarrow> job_ok job ix'"
  by (auto simp: job_ok_def)

text \<open>A new file name for the front of the queue or for a merge.\<close>

lemma names_ok_new:
  assumes "names_ok s" "room (lsm_next_segment_id (sys_index s))"
    and "lsm_next_segment_id (sys_index s') = lsm_next_segment_id (sys_index s) + 1"
    and "mset (names_used s') = add_mset (segment_name (lsm_next_segment_id (sys_index s))) (mset (names_used s))"
  shows "names_ok s'"
proof -
  let ?n = "lsm_next_segment_id (sys_index s)"
  have f: "segment_name ?n \<notin> set (names_used s)" "\<forall>p \<in> insert (segment_name ?n) (set (names_used s)). named_below (?n + 1) p"
    using fresh_name [OF assms(2), of "names_used s"] assms(1) by (auto simp: names_ok_def)
  have "mset (names_used s') = mset (segment_name ?n # names_used s)" using assms(4) by simp
  then have "distinct (names_used s') \<longleftrightarrow> distinct (segment_name ?n # names_used s)" "set (names_used s') = set (segment_name ?n # names_used s)"
    by (rule mset_eq_imp_distinct_iff, metis mset_eq_setD)
  with f assms(1,3) show ?thesis by (simp add: names_ok_def)
qed

lemma queue_inv:
  assumes inv: "sys_inv F R kind s" and room: "room (lsm_next_segment_id (sys_index s))"
  shows "sys_inv F R kind (s\<lparr>sys_index := fst (queue_flush held sync_fault (sys_index s))\<rparr>)"
proof -
  let ?ix = "sys_index s"
  define q where "q = fst (queue_flush held sync_fault ?ix)"
  have li: "lsm_inv F kind ?ix" using inv by (simp add: sys_inv_def)
  have lq: "lsm_inv F kind q" using queue_flush_same [OF li] by (simp add: q_def)
  have "sys_inv F R kind (s\<lparr>sys_index := q\<rparr>)"
  proof (cases rule: queue_flush_outcome [OF li q_def])
    case 2
    then show ?thesis using publish_inv [OF inv, of held] by (simp add: publish_snapshot_def Let_def)
  next
    case (3 dir hi)
    have paths: "disk_segment_paths q = disk_segment_paths ?ix" by (simp add: disk_segment_paths_def 3(3))
    have "backed F R q" using inv by (simp add: sys_inv_def backed_def 3(3))
    moreover have "names_ok (s\<lparr>sys_index := q\<rparr>)"
    proof (rule names_ok_new [OF _ room])
      show "names_ok s" using inv by (simp add: sys_inv_def)
      show "mset (names_used (s\<lparr>sys_index := q\<rparr>)) = add_mset (segment_name (lsm_next_segment_id ?ix)) (mset (names_used s))"
        by (simp add: names_used_def paths) (simp add: 3(3) fq_push_def)
    qed (simp add: 3(3))
    moreover have "queue_ok F R (s\<lparr>sys_index := q\<rparr>)"
      using inv by (simp add: sys_inv_def queue_ok_def 3(3) fq_push_def job_info_def pending_info_def)
    moreover have "compaction_ok F R kind (s\<lparr>sys_index := q\<rparr>)"
      using inv by (auto simp: sys_inv_def compaction_ok_def job_ok_def 3(3) split: compaction_phase.splits)
    ultimately show ?thesis using inv lq by (simp add: sys_inv_def)
  next
    case (4 hi)
    have paths: "disk_segment_paths q = disk_segment_paths ?ix" by (simp add: disk_segment_paths_def 4(3) List.map_filter_def)
    have "backed F R q" by (simp add: backed_def 4(3)) (simp add: 4(1))
    moreover have "names_ok (s\<lparr>sys_index := q\<rparr>)"
      using inv by (simp add: sys_inv_def names_ok_def names_used_def paths) (simp add: 4(3))
    moreover have "queue_ok F R (s\<lparr>sys_index := q\<rparr>)" using inv by (simp add: sys_inv_def queue_ok_def 4(3))
    moreover have "compaction_ok F R kind (s\<lparr>sys_index := q\<rparr>)"
      using inv by (auto simp: sys_inv_def compaction_ok_def job_ok_def 4(3) split: compaction_phase.splits)
    ultimately show ?thesis using inv lq by (simp add: sys_inv_def)
  qed (use inv in simp)
  then show ?thesis by (simp add: q_def)
qed

lemma submit_inv:
  assumes inv: "sys_inv F R kind s" and take: "take_flush_jobs (sys_index s) = (jobs, ix)"
  shows "sys_inv F R kind (s\<lparr>sys_index := ix, sys_writing := sys_writing s @ jobs\<rparr>)"
proof -
  have ix: "ix = (sys_index s)\<lparr>lsm_queue := (lsm_queue (sys_index s))\<lparr>fq_made := []\<rparr>\<rparr>" "jobs = fq_made (lsm_queue (sys_index s))"
    using take by (auto simp: take_flush_jobs_def fq_take_jobs_def)
  have "lsm_inv F kind ix" using take_flush_jobs_same [of F kind "sys_index s"] inv take by (simp add: sys_inv_def)
  then show ?thesis
    using inv
    by (auto simp: sys_inv_def ix backed_def names_ok_def names_used_def disk_segment_paths_def queue_ok_def compaction_ok_def job_ok_def
        split: compaction_phase.splits)
qed

section \<open>Writing and installing flushes\<close>

lemma names_ok_sub:
  assumes "names_ok s" "mset (names_used s') \<subseteq># mset (names_used s)" "lsm_next_segment_id (sys_index s') = lsm_next_segment_id (sys_index s)"
  shows "names_ok s'"
proof -
  obtain ps where "mset (names_used s) = mset (names_used s' @ ps)" using assms(2) by (metis ex_mset mset_append subset_mset.le_iff_add)
  then have "distinct (names_used s) = distinct (names_used s' @ ps)" "set (names_used s) = set (names_used s' @ ps)"
    by (rule mset_eq_imp_distinct_iff, metis mset_eq_setD)
  with assms show ?thesis by (auto simp: names_ok_def)
qed

lemma pending_paths:
  assumes "queue_ok F R s"
  shows "map pf_path (fq_pending (lsm_queue (sys_index s)))
    = map fj_path (map fst (sys_written s) @ sys_writing s @ fq_made (lsm_queue (sys_index s)))"
proof -
  have "map pf_path ps = map (\<lambda>(_, p, _). p) (map pending_info ps)" for ps by (simp add: pending_info_def comp_def)
  moreover have "map fj_path js = map (\<lambda>(_, p, _). p) (map job_info js)" for js by (simp add: job_info_def comp_def)
  moreover have "map pending_info (fq_pending (lsm_queue (sys_index s)))
      = map job_info (map fst (sys_written s) @ sys_writing s @ fq_made (lsm_queue (sys_index s)))"
    using assms unfolding queue_ok_def by (rule conjunct1)
  ultimately show ?thesis by (simp only:)
qed

lemma merged_names_used: "merged_names c \<subseteq> set (compaction_names c)"
  by (cases c) auto

lemma writing_not_live:
  assumes "sys_inv F R kind s" "sys_writing s = job # jobs"
  shows "fj_path job \<notin> live_files s"
proof -
  have q: "queue_ok F R s" and "distinct (names_used s)" using assms by (auto simp: sys_inv_def names_ok_def)
  then have "distinct (disk_segment_paths (sys_index s) @ map fj_path (map fst (sys_written s) @ sys_writing s @ fq_made (lsm_queue (sys_index s)))
      @ compaction_names (sys_compaction s))"
    unfolding names_used_def pending_paths [OF q] by simp
  then show ?thesis using assms(2) merged_names_used [of "sys_compaction s"] by (auto simp: live_files_def)
qed

lemma job_write_result:
  assumes "job_write F R fault job dir = (dir', written)"
  shows "\<forall>p. p \<noteq> fj_path job \<longrightarrow> dir_files dir' p = dir_files dir p"
    and "written = Inr ds \<Longrightarrow> open_file F R (fj_path job) dir' = Inr ds
      \<and> (\<exists>bs. write_segment_to F R (freeze_shared (fj_generations job)) = Inr bs \<and> disk_open F R bs = Inr ds)"
  using assms by (auto simp: job_write_def write_segment_def write_file_def open_file_def split: sum.splits option.splits prod.splits)

lemma lsm_inv_root: "lsm_inv F kind (ix\<lparr>lsm_root := r\<rparr>) = lsm_inv F kind ix"
  by (simp add: lsm_inv_def lsm_readers_eq)

lemma write_inv:
  assumes inv: "sys_inv F R kind s" and w: "sys_writing s = job # jobs" and root: "lsm_root (sys_index s) = Some dir"
    and fits: "\<forall>ds. written = Inr ds \<longrightarrow> job_fits F R job" and jw: "job_write F R fault job dir = (dir', written)"
  shows "sys_inv F R kind (s\<lparr>sys_index := (sys_index s)\<lparr>lsm_root := Some dir'\<rparr>, sys_writing := jobs, sys_written := sys_written s @ [(job, written)]\<rparr>)"
proof -
  let ?ix = "(sys_index s)\<lparr>lsm_root := Some dir'\<rparr>"
  have files: "files_agree (live_files s) (sys_index s) ?ix"
    using job_write_result(1) [OF jw] writing_not_live [OF inv w] root unfolding files_agree_def by (metis lsm_index.select_convs(9) lsm_index.surjective lsm_index.update_convs(9) option.inject option.distinct(1))
  have "sys_inv F R kind (s\<lparr>sys_index := ?ix\<rparr>)"
    using inv by (intro sys_inv_frame [OF inv _ files]) (auto simp: lsm_inv_root sys_inv_def intro: job_ok_same)
  moreover have "built_file F R (fj_generations job) (DiskReader ds)" "open_file F R (fj_path job) dir' = Inr ds" if "written = Inr ds" for ds
    using that job_write_result(2) [OF jw that] fits inv by (auto simp: built_file_def job_fits_def sys_inv_def)
  ultimately show ?thesis
    using w by (auto simp: sys_inv_def names_ok_def names_used_def queue_ok_def compaction_ok_def split: compaction_phase.splits)
qed

text \<open>What completing the flush at the front of the queue does.\<close>

lemma complete_flush_outcome:
  fixes fault :: fault and written :: "disk_segment result"
  assumes q: "fq_pending (lsm_queue ix) = p # ps" "pf_seq p = seq"
  defines "ix' \<equiv> fst (complete_flush fault seq written ix)"
  obtains pos h r where "lsm_handles ix' = insert_at pos h (lsm_handles ix)" "lsm_segments ix' = insert_at pos r (lsm_segments ix)"
    "(\<exists>sg. h = MemoryHandle sg \<and> r = SegReader sg) \<or> (\<exists>ds. written = Inr ds \<and> lsm_root ix \<noteq> None \<and> h = DiskHandle (pf_path p) \<and> r = DiskReader ds)"
    "fq_pending (lsm_queue ix') = ps" "fq_made (lsm_queue ix') = fq_made (lsm_queue ix)" "lsm_next_segment_id ix' = lsm_next_segment_id ix"
    "lsm_deleted ix' = lsm_deleted ix" "lsm_delete_generation ix' = lsm_delete_generation ix" "files_agree UNIV ix ix'"
proof -
  have c: "fq_complete seq (lsm_queue ix) = Inr (p, (lsm_queue ix)\<lparr>fq_pending := ps\<rparr>)" using q by (simp add: fq_complete_def)
  have appended: "dir_files dir' = dir_files dir" if "manifest_append fault n dir = (dir', res)" for n dir dir' res
    using that by (auto simp: manifest_append_def Let_def split: option.splits prod.splits)
  show thesis
  proof (cases "\<exists>ds dir dir'. written = Inr ds \<and> lsm_root ix = Some dir \<and> manifest_append fault (pf_path p) dir = (dir', Inr ())")
    case True
    then obtain ds dir dir' where t: "written = Inr ds" "lsm_root ix = Some dir" "manifest_append fault (pf_path p) dir = (dir', Inr ())" by blast
    then have "ix' = ix\<lparr>lsm_queue := (lsm_queue ix)\<lparr>fq_pending := ps\<rparr>, lsm_root := Some dir',
        lsm_handles := insert_at (flush_position p ix) (DiskHandle (pf_path p)) (lsm_handles ix),
        lsm_segments := insert_at (flush_position p ix) (DiskReader ds) (lsm_segments ix)\<rparr>"
      by (simp add: ix'_def complete_flush_def c install_flushed_def Let_def flush_position_def)
    with t appended [OF t(3)] show thesis
      by (intro that [of "flush_position p ix" "DiskHandle (pf_path p)" "DiskReader ds"]) (simp_all add: files_agree_def)
  next
    case False
    then obtain e root' where "ix' = (keep_in_memory p (ix\<lparr>lsm_queue := (lsm_queue ix)\<lparr>fq_pending := ps\<rparr>, lsm_root := root'\<rparr>))
        \<lparr>lsm_queue := fq_fail e ((lsm_queue ix)\<lparr>fq_pending := ps\<rparr>)\<rparr>"
      and "root' = lsm_root ix \<or> (\<exists>dir dir'. lsm_root ix = Some dir \<and> root' = Some dir' \<and> dir_files dir' = dir_files dir)"
    proof (cases written)
      case (Inl e)
      show thesis by (rule that [of e "lsm_root ix"]) (simp_all add: ix'_def complete_flush_def c Inl Let_def keep_in_memory_def flush_position_def)
    next
      case (Inr ds)
      show thesis
      proof (cases "lsm_root ix")
        case None
        show thesis
          by (rule that [of "OtherError ''flushed segment without a root''" "lsm_root ix"])
            (simp_all add: ix'_def complete_flush_def c Inr None Let_def install_flushed_def keep_in_memory_def flush_position_def)
      next
        case (Some dir)
        obtain dir' res where m: "manifest_append fault (pf_path p) dir = (dir', res)" by (metis surj_pair)
        with False Inr Some obtain e where "res = Inl e" by (cases res) auto
        with m Some Inr appended [OF m] show thesis
          by (intro that [of e "Some dir'"]) (simp_all add: ix'_def complete_flush_def c Let_def install_flushed_def keep_in_memory_def)
      qed
    qed
    then show thesis
      by (intro that [of "flush_position p ix" "MemoryHandle (freeze_shared (pf_generations p))" "SegReader (freeze_shared (pf_generations p))"])
        (auto simp: keep_in_memory_def Let_def flush_position_def files_agree_def)
  qed
qed


lemma paths_insert_at:
  "mset (disk_segment_paths (ix\<lparr>lsm_handles := insert_at pos h hs\<rparr>)) =
     mset (disk_segment_paths (ix\<lparr>lsm_handles := hs\<rparr>)) + (case h of DiskHandle p \<Rightarrow> {#p#} | MemoryHandle _ \<Rightarrow> {#})"
proof -
  let ?f = "\<lambda>h. case h of DiskHandle p \<Rightarrow> Some p | MemoryHandle _ \<Rightarrow> None"
  have app: "List.map_filter ?f (as @ bs) = List.map_filter ?f as @ List.map_filter ?f bs" for as bs by (simp add: List.map_filter_def)
  have "mset (List.map_filter ?f (insert_at pos h hs)) = mset (List.map_filter ?f (take pos hs @ drop pos hs)) + mset (List.map_filter ?f [h])"
    unfolding insert_at_def using app [of "take pos hs" "h # drop pos hs"] app [of "[h]" "drop pos hs"] app [of "take pos hs" "drop pos hs"] by simp
  then show ?thesis by (cases h) (simp_all add: disk_segment_paths_def map_filter_simps)
qed

lemma paths_handles: "disk_segment_paths ix = disk_segment_paths (jx\<lparr>lsm_handles := lsm_handles ix\<rparr>)"
  by (simp add: disk_segment_paths_def)

lemma complete_inv:
  assumes inv: "sys_inv F R kind s" and w: "sys_written s = (job, written) # rest"
  shows "sys_inv F R kind (s\<lparr>sys_index := fst (complete_flush fault (fj_seq job) written (sys_index s)), sys_written := rest\<rparr>)"
    (is "sys_inv F R kind ?s")
    and "lsm_abs F (fst (complete_flush fault (fj_seq job) written (sys_index s))) = lsm_abs F (sys_index s)"
proof -
  let ?ix = "sys_index s"
  define ix' where "ix' = fst (complete_flush fault (fj_seq job) written ?ix)"
  have qok: "queue_ok F R s" and li: "lsm_inv F kind ?ix" and bk: "backed F R ?ix" using inv by (simp_all add: sys_inv_def)
  then obtain p ps where q: "fq_pending (lsm_queue ?ix) = p # ps" and info: "pending_info p = job_info job"
    "map pending_info ps = map job_info (map fst rest @ sys_writing s @ fq_made (lsm_queue ?ix))"
    using w by (auto simp: queue_ok_def)
  have p: "pf_seq p = fj_seq job" "pf_path p = fj_path job" "pf_generations p = fj_generations job" using info(1) by (simp_all add: pending_info_def job_info_def)
  have wr: "built_file F R (fj_generations job) (DiskReader ds)" "\<exists>dir. lsm_root ?ix = Some dir \<and> open_file F R (fj_path job) dir = Inr ds"
    if "written = Inr ds" for ds
    using queue_ok_written [OF qok, of job ds] w that by simp_all
  have same: "lsm_inv F kind ix' \<and> lsm_abs F ix' = lsm_abs F ?ix"
    unfolding ix'_def using wr(1) q p by (intro complete_flush_same [OF li, where R = R]) auto
  then show "lsm_abs F (fst (complete_flush fault (fj_seq job) written ?ix)) = lsm_abs F ?ix" by (simp add: ix'_def)
  obtain pos h r where o: "lsm_handles ix' = insert_at pos h (lsm_handles ?ix)" "lsm_segments ix' = insert_at pos r (lsm_segments ?ix)"
    "(\<exists>sg. h = MemoryHandle sg \<and> r = SegReader sg) \<or> (\<exists>ds. written = Inr ds \<and> lsm_root ?ix \<noteq> None \<and> h = DiskHandle (pf_path p) \<and> r = DiskReader ds)"
    "fq_pending (lsm_queue ix') = ps" "fq_made (lsm_queue ix') = fq_made (lsm_queue ?ix)" "lsm_next_segment_id ix' = lsm_next_segment_id ?ix"
    "lsm_deleted ix' = lsm_deleted ?ix" "lsm_delete_generation ix' = lsm_delete_generation ?ix" "files_agree UNIV ?ix ix'"
    unfolding ix'_def by (rule complete_flush_outcome [OF q p(1), of fault written])
  let ?s = "s\<lparr>sys_index := ix', sys_written := rest\<rparr>"
  have opens: "open_file F R n dir' = open_file F R n dir" if "lsm_root ?ix = Some dir" "lsm_root ix' = Some dir'" for n dir dir'
    using o(9) that by (intro open_file_agree) (auto simp: files_agree_def)
  have "backed F R ix'"
    unfolding backed_def
  proof (intro allI impI)
    fix dir'
    assume dir': "lsm_root ix' = Some dir'"
    then obtain dir where dir: "lsm_root ?ix = Some dir" using o(9) by (cases "lsm_root ?ix") (auto simp: files_agree_def)
    have oh: "open_handle F R dir' g = open_handle F R dir g" for g
      by (cases g) (simp_all add: open_handle_def opens [OF dir dir'])
    have "open_handle F R dir h = Inr r" using o(3) wr(2) p(2) dir by (auto simp: open_handle_def)
    then show "list_all2 (\<lambda>h r. open_handle F R dir' h = Inr r) (lsm_handles ix') (lsm_segments ix')"
      unfolding o(1,2) oh using bk dir by (intro list_all2_insert_at) (simp_all add: backed_def)
  qed
  moreover have "names_ok ?s"
  proof (rule names_ok_sub [of s])
    have "mset (disk_segment_paths ix') \<subseteq># add_mset (pf_path p) (mset (disk_segment_paths ?ix))"
      using paths_insert_at [where ix = ?ix and pos = pos and h = h and hs = "lsm_handles ?ix"] o(1,3) paths_handles [of ix' ?ix] by auto
    then show "mset (names_used ?s) \<subseteq># mset (names_used s)"
      by (simp add: names_used_def o(4) q)
  qed (use inv o in \<open>simp_all add: sys_inv_def\<close>)
  moreover have "queue_ok F R ?s"
  proof -
    have "built_file F R (fj_generations j) (DiskReader ds) \<and> (\<exists>dir. lsm_root ix' = Some dir \<and> open_file F R (fj_path j) dir = Inr ds)"
      if j: "(j, Inr ds) \<in> set rest" for j ds
    proof -
      have jw: "(j, Inr ds) \<in> set (sys_written s)" using j w by simp
      obtain dir where dir: "lsm_root ?ix = Some dir" "open_file F R (fj_path j) dir = Inr ds" using queue_ok_written(2) [OF qok jw] by blast
      obtain dir' where "lsm_root ix' = Some dir'" using o(9) dir(1) by (auto simp: files_agree_def)
      with dir opens queue_ok_written(1) [OF qok jw] show ?thesis by auto
    qed
    with info(2) show ?thesis by (auto simp: queue_ok_def o)
  qed
  moreover have "compaction_ok F R kind ?s"
  proof (cases "sys_compaction s")
    case (Planned j)
    with inv o show ?thesis by (auto simp: sys_inv_def compaction_ok_def intro: job_ok_more_handles [of _ ?ix])
  next
    case (Merged j cc)
    then obtain dir where dir: "lsm_root ?ix = Some dir" "output_ready F R kind dir (cj_deleted j) cc" "cc = cc_of j" "job_ok j ?ix"
      using inv by (auto simp: sys_inv_def compaction_ok_def)
    obtain dir' where dir': "lsm_root ix' = Some dir'" "\<forall>p. dir_files dir' p = dir_files dir p" using o(9) dir(1) by (auto simp: files_agree_def)
    have "output_ready F R kind dir' (cj_deleted j) cc" using dir'(2) by (intro output_ready_agree [OF dir(2)]) simp_all
    moreover have "job_ok j ix'" using o dir(4) by (auto intro: job_ok_more_handles [of _ ?ix])
    ultimately show ?thesis using Merged dir dir' by (simp add: compaction_ok_def)
  qed (simp add: compaction_ok_def)
  ultimately show "sys_inv F R kind (s\<lparr>sys_index := fst (complete_flush fault (fj_seq job) written ?ix), sys_written := rest\<rparr>)"
    using inv same by (simp add: sys_inv_def flip: ix'_def)
qed

section \<open>Planning, merging and installing\<close>

lemma map_filter_app: "List.map_filter f (as @ bs) = List.map_filter f as @ List.map_filter f bs"
  by (simp add: List.map_filter_def)

lemma all_disk_paths: "\<forall>h \<in> set hs. \<exists>p. h = DiskHandle p \<Longrightarrow> \<exists>ps. hs = map DiskHandle ps"
  by (induction hs) (auto simp: Cons_eq_map_conv)

lemma disk_paths_map: "disk_segment_paths (ix\<lparr>lsm_handles := map DiskHandle ps\<rparr>) = ps"
  by (simp add: disk_segment_paths_def List.map_filter_def comp_def)

lemma selected_ok:
  assumes "disk_run (segment_sizes ix) a b" "a < b" "distinct (disk_segment_paths ix)"
  defines "sel \<equiv> take (b - a) (drop a (lsm_handles ix))"
  shows "set sel \<subseteq> set (lsm_handles ix)" "sel \<noteq> []" "distinct sel" "\<forall>h \<in> set sel. \<exists>p. h = DiskHandle p"
proof -
  have len: "b \<le> length (lsm_handles ix)" using assms(1) by (simp add: disk_run_def segment_sizes_def)
  show "set sel \<subseteq> set (lsm_handles ix)" unfolding sel_def by (meson set_drop_subset set_take_subset subset_trans)
  show "sel \<noteq> []" using assms(2) len by (simp add: sel_def)
  have disk: "\<exists>p. lsm_handles ix ! i = DiskHandle p" if "a \<le> i" "i < b" for i
  proof -
    have "segment_sizes ix ! i \<noteq> None" using assms(1) that by (simp add: disk_run_def)
    then show ?thesis using that len by (cases "lsm_handles ix ! i") (simp_all add: segment_sizes_def)
  qed
  show all: "\<forall>h \<in> set sel. \<exists>p. h = DiskHandle p"
    using disk len by (force simp: sel_def in_set_conv_nth)
  obtain ps where ps: "sel = map DiskHandle ps" using all_disk_paths [OF all] by blast
  have "lsm_handles ix = take a (lsm_handles ix) @ sel @ drop (b - a) (drop a (lsm_handles ix))"
    unfolding sel_def append_take_drop_id ..
  then have "disk_segment_paths ix = disk_segment_paths (ix\<lparr>lsm_handles := take a (lsm_handles ix)\<rparr>)
      @ disk_segment_paths (ix\<lparr>lsm_handles := sel\<rparr>) @ disk_segment_paths (ix\<lparr>lsm_handles := drop (b - a) (drop a (lsm_handles ix))\<rparr>)"
    by (simp add: disk_segment_paths_def flip: map_filter_app)
  then have "distinct ps" using assms(3) by (simp add: ps disk_paths_map)
  then show "distinct sel" by (simp add: ps distinct_map inj_on_def)
qed

lemma plan_inv:
  assumes inv: "sys_inv F R kind s" and none: "sys_compaction s = NoCompaction" and room: "room (lsm_next_segment_id (sys_index s))"
    and plan: "plan_compaction now config (sys_index s) = (ix, job)"
  shows "sys_inv F R kind (s\<lparr>sys_index := ix, sys_compaction := (case job of None \<Rightarrow> NoCompaction | Some j \<Rightarrow> Planned j)\<rparr>)"
proof (cases "lsm_root (sys_index s) = None \<or> plan_window now config (sys_index s) = None")
  case True
  then have "ix = sys_index s \<and> job = None" using plan by (auto simp: plan_compaction_def split: option.splits)
  with inv none show ?thesis by (simp add: sys_inv_def names_ok_def names_used_def queue_ok_def compaction_ok_def)
next
  case False
  let ?ix = "sys_index s"
  obtain a b where win: "plan_window now config ?ix = Some (a, b)" using False by auto
  let ?job = "\<lparr>cj_job_id = lsm_next_compaction_job_id ?ix, cj_selected = take (b - a) (drop a (lsm_handles ?ix)), cj_deleted = lsm_deleted ?ix,
      cj_delete_generation = lsm_delete_generation ?ix, cj_output_path = segment_name (lsm_next_segment_id ?ix)\<rparr>"
  have ix: "ix = ?ix\<lparr>lsm_next_segment_id := lsm_next_segment_id ?ix + 1, lsm_next_compaction_job_id := lsm_next_compaction_job_id ?ix + 1\<rparr>" "job = Some ?job"
    using False plan win by (auto simp: plan_compaction_def split: option.splits)
  let ?s = "s\<lparr>sys_index := ix, sys_compaction := Planned ?job\<rparr>"
  have li: "lsm_inv F kind ix" using inv plan_compaction_same [of F kind ?ix now config] plan by (simp add: sys_inv_def)
  have paths: "disk_segment_paths ix = disk_segment_paths ?ix" by (simp add: disk_segment_paths_def ix)
  have "names_ok ?s"
  proof (rule names_ok_new [OF _ room])
    show "mset (names_used ?s) = add_mset (segment_name (lsm_next_segment_id ?ix)) (mset (names_used s))"
      by (simp add: names_used_def paths none) (simp add: ix)
  qed (use inv in \<open>simp_all add: sys_inv_def ix\<close>)
  moreover have "distinct (disk_segment_paths ?ix)" using inv by (simp add: sys_inv_def names_ok_def names_used_def)
  then have "job_ok ?job ix" using selected_ok [of ?ix a b] plan_window_run [OF win] by (simp add: job_ok_def ix)
  ultimately show ?thesis
    using inv li by (simp add: sys_inv_def ix(2) compaction_ok_def) (simp add: ix backed_def queue_ok_def)
qed

lemma run_job_result:
  assumes "run_compaction_job F R fault job dir = (dir', res)"
  shows "\<forall>p. p \<noteq> cj_output_path job \<longrightarrow> dir_files dir' p = dir_files dir p"
    and "res = Inr cc \<Longrightarrow> cc = cc_of job \<and> (\<exists>rs bs. open_handles F R dir (cj_selected job) = Inr rs
      \<and> compact_segments F R rs (cj_deleted job) = Inr bs \<and> dir_files dir' (cj_output_path job) = Some bs)"
  using assms by (auto simp: run_compaction_job_def compact_segments_streaming_def write_file_def cc_of_def split: sum.splits option.splits prod.splits)

lemma output_not_live:
  assumes "sys_inv F R kind s" "sys_compaction s = Planned job"
  shows "cj_output_path job \<notin> live_files s"
proof -
  have q: "queue_ok F R s" and d: "distinct (names_used s)" using assms by (auto simp: sys_inv_def names_ok_def)
  have "fj_path ` fst ` set (sys_written s) \<subseteq> set (map pf_path (fq_pending (lsm_queue (sys_index s))))"
    using written_in_pending [OF q] by auto
  with d assms(2) show ?thesis by (auto simp: live_files_def names_used_def)
qed

lemma merge_inv:
  assumes inv: "sys_inv F R kind s" and c: "sys_compaction s = Planned job" and root: "lsm_root (sys_index s) = Some dir"
    and fits: "merge_job_fits F R job dir" and run: "run_compaction_job F R fault job dir = (dir', Inr cc)"
  shows "sys_inv F R kind (s\<lparr>sys_index := (sys_index s)\<lparr>lsm_root := Some dir'\<rparr>, sys_compaction := Merged job cc\<rparr>)"
proof -
  let ?ix = "(sys_index s)\<lparr>lsm_root := Some dir'\<rparr>"
  have files: "\<forall>p \<in> live_files s. dir_files dir' p = dir_files dir p"
    using run_job_result(1) [OF run] output_not_live [OF inv c] by metis
  have s1: "sys_inv F R kind (s\<lparr>sys_index := ?ix\<rparr>)"
    using inv files root
    by (intro sys_inv_frame [OF inv]) (auto simp: lsm_inv_root sys_inv_def files_agree_def intro: job_ok_same)
  obtain rs bs where r: "open_handles F R dir (cj_selected job) = Inr rs" "compact_segments F R rs (cj_deleted job) = Inr bs"
    "dir_files dir' (cj_output_path job) = Some bs" and cc: "cc = cc_of job"
    using run_job_result(2) [OF run refl] by blast
  have j: "job_ok job (sys_index s)" using inv c by (simp add: sys_inv_def compaction_ok_def)
  have segs: "mset rs \<subseteq># mset (lsm_segments (sys_index s))"
    using selected_readers [of F R dir "lsm_handles (sys_index s)" "lsm_segments (sys_index s)" "cj_selected job" rs] inv root r(1) j
    by (simp add: sys_inv_def backed_def job_ok_def)
  then have sub: "mset rs \<subseteq># mset (lsm_readers (sys_index s))" by (simp add: lsm_readers_split subset_mset.add_increasing)
  have li: "lsm_inv F kind (sys_index s)" using inv by (simp add: sys_inv_def)
  have good: "\<forall>r \<in> set rs. rd_good F kind r" using li set_mset_mono [OF sub] by (auto simp: lsm_inv_def)
  have dist: "distinct (map fst (concat (map rd_lens rs)))"
    using keys_once_subset [OF _ sub, of F] li by (simp add: lsm_inv_def keys_once_distinct)
  obtain ds where ds: "disk_open F R bs = Inr ds" "rd_good F kind (DiskReader ds)" "contents F [DiskReader ds] = view_delete (cj_deleted job) (contents F rs)"
    using compacted_good [OF _ _ good dist _ r(2)] inv fits r(1,2) by (auto simp: sys_inv_def merge_job_fits_def)
  have "output_ready F R kind dir' (cj_deleted job) cc"
  proof -
    have "open_handles F R dir' (cj_selected job) = Inr rs"
    proof -
      have "open_handle F R dir' h = open_handle F R dir h" if "h \<in> set (cj_selected job)" for h
        using that j files by (intro open_handle_agree) (auto simp: job_ok_def live_files_def disk_paths)
      then have "list_all2 (\<lambda>h r. open_handle F R dir' h = Inr r) (cj_selected job) rs"
        using r(1) unfolding open_handles_all2 by (auto intro: list.rel_mono_strong)
      then show ?thesis by (simp add: open_handles_all2)
    qed
    then show ?thesis using ds r(3) by (auto simp: output_ready_def cc cc_of_def open_file_def)
  qed
  with s1 j c show ?thesis
    by (auto simp: sys_inv_def names_ok_def names_used_def queue_ok_def compaction_ok_def cc intro: job_ok_same)
qed

lemma merge_failed_inv:
  assumes inv: "sys_inv F R kind s" and c: "sys_compaction s = Planned job" and root: "lsm_root (sys_index s) = Some dir"
    and run: "run_compaction_job F R fault job dir = (dir', Inl e)"
  shows "sys_inv F R kind (s\<lparr>sys_index := (sys_index s)\<lparr>lsm_root := Some (remove_file (cj_output_path job) dir')\<rparr>, sys_compaction := NoCompaction\<rparr>)"
proof -
  let ?ix = "(sys_index s)\<lparr>lsm_root := Some (remove_file (cj_output_path job) dir')\<rparr>"
  have "\<forall>p \<in> live_files s. dir_files (remove_file (cj_output_path job) dir') p = dir_files dir p"
    using run_job_result(1) [OF run] output_not_live [OF inv c] unfolding remove_file_def by (metis fun_upd_apply lsm_dir.select_convs(1) lsm_dir.surjective lsm_dir.update_convs(1))
  then have s1: "sys_inv F R kind (s\<lparr>sys_index := ?ix\<rparr>)"
    using inv root by (intro sys_inv_frame [OF inv]) (auto simp: lsm_inv_root sys_inv_def files_agree_def intro: job_ok_same)
  have "names_ok (s\<lparr>sys_index := ?ix, sys_compaction := NoCompaction\<rparr>)"
    using s1 by (auto simp: sys_inv_def names_ok_def names_used_def)
  with s1 show ?thesis by (simp add: sys_inv_def queue_ok_def compaction_ok_def)
qed

lemma mset_disk_paths: "mset (disk_segment_paths ix) = mset (List.map_filter (\<lambda>h. case h of DiskHandle p \<Rightarrow> Some p | MemoryHandle _ \<Rightarrow> None) (lsm_handles ix))"
  by (simp add: disk_segment_paths_def)

lemma paths_of_mset:
  assumes "mset hs = mset gs + mset fs"
  shows "mset (disk_segment_paths (ix\<lparr>lsm_handles := hs\<rparr>)) = mset (disk_segment_paths (ix\<lparr>lsm_handles := gs\<rparr>)) + mset (disk_segment_paths (ix\<lparr>lsm_handles := fs\<rparr>))"
proof -
  let ?f = "\<lambda>h. case h of DiskHandle p \<Rightarrow> Some p | MemoryHandle _ \<Rightarrow> None"
  have m: "mset (List.map_filter ?f xs) = image_mset (\<lambda>h. the (?f h)) (filter_mset (\<lambda>h. ?f h \<noteq> None) (mset xs))" for xs
    by (simp add: List.map_filter_def comp_def)
  show ?thesis by (simp add: disk_segment_paths_def m assms)
qed

lemma install_inv:
  assumes inv: "sys_inv F R kind s" and c: "sys_compaction s = Merged job cc"
  shows "sys_inv F R kind (s\<lparr>sys_index := fst (install_compaction F R rewrite_fault clear_fault cc (sys_index s)), sys_compaction := NoCompaction\<rparr>)"
    and "lsm_spec F (fst (install_compaction F R rewrite_fault clear_fault cc (sys_index s)))
      = spec_step F (install_label F (sys_index s) (fst (install_compaction F R rewrite_fault clear_fault cc (sys_index s)))) (lsm_spec F (sys_index s))"
proof -
  let ?ix = "sys_index s"
  define ix' where "ix' = fst (install_compaction F R rewrite_fault clear_fault cc ?ix)"
  obtain dir where root: "lsm_root ?ix = Some dir" and ready: "output_ready F R kind dir (cj_deleted job) cc" and cc: "cc = cc_of job" and j: "job_ok job ?ix"
    using inv c by (auto simp: sys_inv_def compaction_ok_def)
  have li: "lsm_inv F kind ?ix" and bk: "backed F R ?ix" using inv by (simp_all add: sys_inv_def)
  have sel: "set (cc_selected cc) \<subseteq> set (lsm_handles ?ix)" "cc_selected cc \<noteq> []" "distinct (cc_selected cc)"
    using j by (simp_all add: job_ok_def cc cc_of_def)
  have dels: "cj_deleted job \<subseteq> lsm_deleted ?ix" "drops_tombstones cc ?ix \<longrightarrow> cj_deleted job = lsm_deleted ?ix"
    using j by (auto simp: job_ok_def drops_tombstones_def cc cc_of_def)
  note same = install_compaction_abs [OF li root bk sel ready dels, of rewrite_fault clear_fault, folded ix'_def]
  show "lsm_spec F (fst (install_compaction F R rewrite_fault clear_fault cc ?ix))
      = spec_step F (install_label F ?ix (fst (install_compaction F R rewrite_fault clear_fault cc ?ix))) (lsm_spec F ?ix)"
    using same(2,3) unfolding ix'_def [symmetric] lsm_spec_def install_label_def by simp
  obtain qs ds where op: "open_handles F R dir (cc_selected cc) = Inr qs" "open_file F R (cc_output_path cc) dir = Inr ds"
    using ready by (auto simp: output_ready_def)
  define found where "found = sort_dedup (List.map_filter (index_of (lsm_handles ?ix)) (cc_selected cc))"
  obtain dir' D' where ix': "ix' = ?ix\<lparr>lsm_handles := insert_at (hd found) (DiskHandle (cc_output_path cc)) (remove_all_at found (lsm_handles ?ix)),
         lsm_segments := insert_at (hd found) (DiskReader ds) (remove_all_at found (lsm_segments ?ix)),
         lsm_root := Some dir', lsm_deleted := D'\<rparr>"
    and files: "\<forall>p. DiskHandle p \<notin> set (cc_selected cc) \<longrightarrow> dir_files dir' p = dir_files dir p"
    using install_compaction_outcome [OF root sel(1,2) op(2)] unfolding ix'_def found_def by blast
  let ?rest = "remove_all_at found (lsm_handles ?ix)"
  have hs: "mset (lsm_handles ?ix) = mset ?rest + mset (cc_selected cc)"
  proof -
    let ?ps = "List.map_filter (index_of (lsm_handles ?ix)) (cc_selected cc)"
    have nth: "map ((!) (lsm_handles ?ix)) ?ps = cc_selected cc" by (rule map_filter_index_of(2) [OF sel(1)])
    then have "distinct ?ps" using sel(3) by (metis distinct_map)
    then have "mset found = mset ?ps" unfolding found_def by (metis ascending_distinct ascending_sort_dedup set_eq_iff_mset_eq_distinct set_sort_dedup)
    then have "mset (map ((!) (lsm_handles ?ix)) found) = mset (cc_selected cc)" using nth by (metis mset_map)
    moreover have "\<forall>p \<in> set found. p < length (lsm_handles ?ix)" by (auto simp: found_def dest: map_filter_index_of_bound)
    ultimately show ?thesis using mset_remove_all_at [of found "lsm_handles ?ix"] by (simp add: found_def)
  qed
  obtain ps where ps: "cc_selected cc = map DiskHandle ps" using all_disk_paths [of "cc_selected cc"] j by (auto simp: job_ok_def cc cc_of_def)
  have paths: "mset (disk_segment_paths ?ix) = mset (disk_segment_paths (?ix\<lparr>lsm_handles := ?rest\<rparr>)) + mset ps"
    using paths_of_mset [OF hs, of ?ix] unfolding ps disk_paths_map by simp
  have paths': "mset (disk_segment_paths ix') = add_mset (cc_output_path cc) (mset (disk_segment_paths (?ix\<lparr>lsm_handles := ?rest\<rparr>)))"
    using paths_insert_at [where ix = ?ix and pos = "hd found" and h = "DiskHandle (cc_output_path cc)" and hs = ?rest] paths_handles [of ix' ?ix]
    by (simp add: ix')
  have dn: "distinct (disk_segment_paths ?ix @ map pf_path (fq_pending (lsm_queue ?ix)) @ [cj_output_path job])"
    using inv c by (simp add: sys_inv_def names_ok_def names_used_def)
  have kept: "p \<notin> set ps" if "DiskHandle p \<in> set ?rest" for p
  proof
    assume "p \<in> set ps"
    moreover have "p \<in> set (disk_segment_paths (?ix\<lparr>lsm_handles := ?rest\<rparr>))" using that by (simp add: disk_paths)
    ultimately have "count (mset (disk_segment_paths ?ix)) p \<ge> 2"
      unfolding paths by (metis add_mono count_greater_eq_one_iff count_union one_add_one set_mset_mset)
    moreover have "distinct (disk_segment_paths ?ix)" using dn by simp
    then have "count (mset (disk_segment_paths ?ix)) p \<le> 1" by (simp add: distinct_count_atmost_1)
    ultimately show False by simp
  qed
  have pend: "p \<notin> set ps" if "p \<in> set (map pf_path (fq_pending (lsm_queue ?ix)))" for p
  proof -
    have "set ps \<subseteq> set (disk_segment_paths ?ix)" using arg_cong [OF paths, of set_mset] by simp
    then show ?thesis using dn that by auto
  qed
  have out: "cc_output_path cc \<notin> set ps"
  proof -
    have "set ps \<subseteq> set (disk_segment_paths ?ix)" using arg_cong [OF paths, of set_mset] by simp
    then show ?thesis using dn by (auto simp: cc cc_of_def)
  qed
  have agree: "dir_files dir' p = dir_files dir p" if "p \<notin> set ps" for p using files that by (auto simp: ps)
  have "backed F R ix'"
  proof -
    have "list_all2 (\<lambda>h r. open_handle F R dir h = Inr r) ?rest (remove_all_at found (lsm_segments ?ix))"
      using bk root by (intro list_all2_remove_all_at) (simp add: backed_def)
    moreover have "open_handle F R dir' h = open_handle F R dir h" if "h \<in> set ?rest" for h
      using that kept agree by (intro open_handle_agree) auto
    ultimately have "list_all2 (\<lambda>h r. open_handle F R dir' h = Inr r) ?rest (remove_all_at found (lsm_segments ?ix))"
      by (auto intro: list.rel_mono_strong)
    moreover have "open_handle F R dir' (DiskHandle (cc_output_path cc)) = Inr (DiskReader ds)"
      using op(2) agree [OF out] by (simp add: open_handle_def open_file_def)
    ultimately show ?thesis by (auto simp: backed_def ix' intro: list_all2_insert_at)
  qed
  moreover have "names_ok (s\<lparr>sys_index := ix', sys_compaction := NoCompaction\<rparr>)"
  proof (rule names_ok_sub [of s])
    show "mset (names_used (s\<lparr>sys_index := ix', sys_compaction := NoCompaction\<rparr>)) \<subseteq># mset (names_used s)"
      unfolding names_used_def c by (simp add: paths paths') (simp add: ix' cc cc_of_def)
  qed (use inv in \<open>simp_all add: sys_inv_def ix'\<close>)
  moreover have "queue_ok F R (s\<lparr>sys_index := ix', sys_compaction := NoCompaction\<rparr>)"
  proof -
    have qok: "queue_ok F R s" using inv by (simp add: sys_inv_def)
    have "open_file F R (fj_path g) dir' = Inr e" if "(g, Inr e) \<in> set (sys_written s)" for g e
      using queue_ok_written(2) [OF qok that] root agree [OF pend [OF written_in_pending [OF qok that]]] by (auto simp: open_file_def)
    with qok show ?thesis by (auto simp: queue_ok_def ix')
  qed
  ultimately show "sys_inv F R kind (s\<lparr>sys_index := fst (install_compaction F R rewrite_fault clear_fault cc ?ix), sys_compaction := NoCompaction\<rparr>)"
    using inv same(1) by (simp add: sys_inv_def compaction_ok_def flip: ix'_def)
qed

section \<open>Refinement\<close>

lemma deleted_same:
  "lsm_deleted (merge_into_memtable now batch ix) = lsm_deleted ix" "lsm_deleted (fst (queue_flush held sync_fault ix)) = lsm_deleted ix"
  "lsm_deleted (snd (publish_snapshot held ix)) = lsm_deleted ix" "lsm_deleted (snd (take_flush_jobs ix)) = lsm_deleted ix"
  "lsm_deleted (fst (complete_flush fault seq written ix)) = lsm_deleted ix" "lsm_deleted (fst (plan_compaction now config ix)) = lsm_deleted ix"
  "lsm_deleted (fst (delete_document now fault d ix)) = insert d (lsm_deleted ix)"
  by (simp_all add: merge_into_memtable_def queue_flush_def publish_snapshot_def take_flush_jobs_def complete_flush_def install_flushed_def
      keep_in_memory_def plan_compaction_def delete_document_def ds_delete_def Let_def split: sum.split option.split prod.split)

lemma lsm_step_refines:
  assumes "lsm_step F R kind ok s l s'" "sys_inv F R kind s"
  shows "sys_inv F R kind s' \<and> lsm_spec F (sys_index s') = spec_step F l (lsm_spec F (sys_index s))"
  using assms
proof (induction rule: lsm_step.induct)
  case (step_ingest batch s now)
  then show ?case
    using ingest_inv [of F R kind s batch now] merge_into_memtable_adds [of F kind "sys_index s" batch now] by (simp add: sys_inv_def lsm_spec_def deleted_same)
next
  case (step_delete s fault d now)
  then show ?case
    using delete_inv [of F R kind s now fault d] delete_document_removes [of F kind "sys_index s" now fault d] by (simp add: sys_inv_def lsm_spec_def deleted_same)
next
  case (step_publish s held)
  then show ?case
    using publish_inv [of F R kind s held] seal_same(1) [of F kind "sys_index s" held]
    by (simp add: sys_inv_def lsm_spec_def deleted_same) (simp add: publish_snapshot_def Let_def lsm_abs_def)
next
  case (step_queue s held sync_fault)
  then show ?case
    using queue_inv [of F R kind s held sync_fault] queue_flush_same [of F kind "sys_index s" held sync_fault] by (simp add: sys_inv_def lsm_spec_def deleted_same)
next
  case (step_submit s jobs ix)
  then show ?case
    using submit_inv [of F R kind s jobs ix] take_flush_jobs_same [of F kind "sys_index s"] deleted_same(4) [of "sys_index s"] by (simp add: sys_inv_def lsm_spec_def deleted_same)
next
  case (step_write s job jobs dir written fault dir')
  then show ?case
    using write_inv [of F R kind s job jobs dir written fault dir'] by (simp add: lsm_spec_def lsm_abs_def lsm_readers_eq)
next
  case (step_complete s job written rest fault)
  then show ?case using complete_inv [of F R kind s job written rest fault] by (simp add: lsm_spec_def deleted_same)
next
  case (step_plan s now config ix job)
  then show ?case
    using plan_inv [of F R kind s now config ix job] plan_compaction_same [of F kind "sys_index s" now config] deleted_same(6) [of now config "sys_index s"] by (simp add: sys_inv_def lsm_spec_def deleted_same)
next
  case (step_merge s job dir fault dir' cc)
  then show ?case
    using merge_inv [of F R kind s job dir fault dir' cc] by (simp add: lsm_spec_def lsm_abs_def lsm_readers_eq)
next
  case (step_merge_failed s job dir fault dir' e)
  then show ?case
    using merge_failed_inv [of F R kind s job dir fault dir' e] by (simp add: lsm_spec_def lsm_abs_def lsm_readers_eq)
next
  case (step_install s job cc rewrite_fault clear_fault ix)
  then show ?case using install_inv [of F R kind s job cc rewrite_fault clear_fault] by simp
qed

lemma lsm_run_refines:
  assumes "lsm_run F R kind ok s ls s'" "sys_inv F R kind s"
  shows "sys_inv F R kind s' \<and> lsm_spec F (sys_index s') = fold (spec_step F) ls (lsm_spec F (sys_index s))"
  using assms
proof (induction rule: lsm_run.induct)
  case (run_more s ls s' l s'')
  then show ?case using lsm_step_refines [of F R kind ok s' l s''] by simp
qed simp

end
