(* ===== verification/Lsm_Properties.thy ===== *)
theory Lsm_Properties
  imports Lsm_System
begin

text \<open>
  Properties of the log-structured index: the interleaved system refines its specification, flushes
  complete in order, and what installing a compaction does to tombstones.  The example system at the
  start, with a document in memory, an (empty) segment on disk and its finished compaction, shows that
  the invariant and the hypotheses can hold.
\<close>

section \<open>An example\<close>

definition empty_segment :: immutable_segment where
  "empty_segment = seg_new [] [] [] [] [] (rows_new 0)"

definition empty_bytes :: "u8 list" where
  "empty_bytes = (case write_segment_to plain_fst plain_roaring empty_segment of Inr bs \<Rightarrow> bs | Inl _ \<Rightarrow> [])"

definition empty_disk :: disk_segment where
  "empty_disk = (case disk_open plain_fst plain_roaring empty_bytes of Inr ds \<Rightarrow> ds)"

lemma empty_written: "write_segment_to plain_fst plain_roaring empty_segment = Inr empty_bytes" "length empty_bytes < 2 ^ 64"
proof -
  have "\<exists>bs. write_segment_to plain_fst plain_roaring empty_segment = Inr bs \<and> length bs < 2 ^ 64"
    by (simp add: write_segment_to_def empty_segment_def seg_new_def write_sections_def write_terms_def fw_new_def fw_finish_def close_field_def Let_def
        write_doc_lengths_def write_dictionary_def write_numeric_fields_def write_array_row_index_def write_bool_fields_def write_footer_def HEADER_LEN_def rows_new_def)
  then show "write_segment_to plain_fst plain_roaring empty_segment = Inr empty_bytes" "length empty_bytes < 2 ^ 64"
    by (auto simp: empty_bytes_def)
qed

lemma empty_opened:
  "disk_open plain_fst plain_roaring empty_bytes = Inr empty_disk" "rd_good plain_fst kind (DiskReader empty_disk)"
  "contents plain_fst [DiskReader empty_disk] = contents plain_fst [SegReader empty_segment]"
proof -
  have "segment_fits empty_segment"
    by (simp add: segment_fits_def empty_segment_def seg_new_def sections_fit_def terms_fit_def dictionary_ok_def lengths_fit_def rows_new_def build_field_stats_def)
  moreover have "rd_good plain_fst kind (SegReader empty_segment)" for kind
    by (simp add: rd_good_def fields_good_def empty_segment_def seg_new_def seg_ok_def dictionary_ok_def build_field_stats_def)
  ultimately have "\<exists>ds. disk_open plain_fst plain_roaring empty_bytes = Inr ds \<and> rd_good plain_fst kind (DiskReader ds)
      \<and> contents plain_fst [DiskReader ds] = contents plain_fst [SegReader empty_segment]" for kind
    using disk_written_good [OF plain_fst_lawful plain_roaring_lawful _ _ empty_written] by blast
  then show "disk_open plain_fst plain_roaring empty_bytes = Inr empty_disk" "rd_good plain_fst kind (DiskReader empty_disk)"
    "contents plain_fst [DiskReader empty_disk] = contents plain_fst [SegReader empty_segment]"
    unfolding empty_disk_def by force+
qed

lemma contents_empty_segment: "contents F [SegReader empty_segment] = contents F []"
  by (rule view_eqI) (simp_all add: contents_def term_postings_of_def seg_lookup_or_empty_def seg_lookup_def empty_segment_def seg_new_def
      pl_new_def rd_points_def seg_bool_true_ids_def seg_bool_false_ids_def)

lemma view_delete_nothing: "view_delete D (contents F []) = contents F []"
  by (rule view_eqI) (simp_all add: view_defs term_postings_of_def merge_by_doc_ascending)

definition one_document :: "u64 \<Rightarrow> mem_index" where
  "one_document n = add_analyzed_document (sample_document\<lparr>ad_doc_id := n\<rparr>) mi_new"

abbreviation late_document :: mem_index where
  "late_document \<equiv> one_document 9"

definition sample_dir :: lsm_dir where
  "sample_dir = dir_empty\<lparr>dir_files := [segment_name 0 \<mapsto> empty_bytes, segment_name 1 \<mapsto> empty_bytes]\<rparr>"

definition sample_index :: lsm_index where
  "sample_index = (lsm_new 1000)\<lparr>lsm_mem := late_document, lsm_handles := [DiskHandle (segment_name 0)], lsm_segments := [DiskReader empty_disk],
     lsm_deleted := {9}, lsm_root := Some sample_dir, lsm_next_segment_id := 2\<rparr>"

definition sample_job :: compaction_job where
  "sample_job = \<lparr>cj_job_id = 0, cj_selected = [DiskHandle (segment_name 0)], cj_deleted = {9}, cj_delete_generation = 0, cj_output_path = segment_name 1\<rparr>"

definition sample_system :: lsm_system where
  "sample_system = \<lparr>sys_index = sample_index, sys_writing = [], sys_written = [], sys_compaction = Merged sample_job (cc_of sample_job)\<rparr>"

lemma one_document_lookup: "n \<in> docs (items (mi_lookup_or_empty (one_document n) ''red'' 1))"
proof -
  let ?doc = "sample_document\<lparr>ad_doc_id := n\<rparr>"
  have "hits (items (mi_lookup_or_empty (one_document n) ''red'' 1)) = hits (items (mi_lookup_or_empty mi_new ''red'' 1)) \<union> op_hits (document_ops ?doc) (TermKey 1 ''red'')"
    using mem_ok_new by (simp add: one_document_def mi_lookup_dict mi_terms_add_analyzed_document hits_fold_add_op mem_ok_dict)
  moreover have "(n, 16) \<in> op_hits (document_ops ?doc) (TermKey 1 ''red'')"
    by (simp add: op_hits_def document_ops_def target_ops_def field_ops_def sample_document_def)
  ultimately have "(n, 16) \<in> hits (items (mi_lookup_or_empty (one_document n) ''red'' 1))" by blast
  then show ?thesis by (auto simp: hits_def docs_def)
qed

lemma one_document_good: "mem_good (\<lambda>_. KInt) (one_document n)" "ranged (one_document n)" "mi_doc_lengths (one_document n) = [((n, 1), 2)]"
proof -
  have np: "mi_numeric_points (one_document n) = [(2, [(n, IntV 40)])]"
    by (simp add: one_document_def add_analyzed_document_def apply_target_def sample_document_def mi_new_def fold_numeric np_insert_def
        omap_entry_def push_point_def)
  have "mi_array_rows (one_document n) = rows_new 0"
    by (simp add: one_document_def add_analyzed_document_def apply_target_def sample_document_def mi_new_def fold_numeric)
  then show "mem_good (\<lambda>_. KInt) (one_document n)"
    using mem_ok_add_analyzed_document [OF mem_ok_new, of "sample_document\<lparr>ad_doc_id := n\<rparr>"]
    by (simp add: mem_good_def np np_kinds_def np_full_def kinds_ok_def value_kind_def rows_normal_def flip: one_document_def)
  show "ranged (one_document n)"
    by (simp add: ranged_def one_document_def add_analyzed_document_def apply_target_def apply_field_def add_posting_weighted_def
        sample_document_def mi_new_def mi_doc_id_range_def track_doc_id_def Let_def)
  show "mi_doc_lengths (one_document n) = [((n, 1), 2)]"
    by (simp add: one_document_def add_analyzed_document_def apply_target_def sample_document_def mi_new_def fold_numeric apply_field_def omap_entry_def Let_def)
qed

lemma sample_names: "segment_name 0 \<noteq> segment_name 1" "segment_name 1 \<noteq> segment_name 0"
  by simp_all

lemma sample_readers: "lsm_readers sample_index = [MemReader late_document, DiskReader empty_disk]"
  by (simp add: lsm_readers_eq sample_index_def lsm_new_def fq_new_def)

lemma empty_disk_contents: "contents plain_fst [DiskReader empty_disk] = contents plain_fst []" "rd_lens (DiskReader empty_disk) = []"
proof -
  show c: "contents plain_fst [DiskReader empty_disk] = contents plain_fst []" by (simp add: empty_opened contents_empty_segment)
  have "v_lens (contents plain_fst [DiskReader empty_disk]) = {#}" unfolding c by (simp add: contents_def)
  then show "rd_lens (DiskReader empty_disk) = []" by (simp add: contents_def)
qed

lemma sample_system_inv: "sys_inv plain_fst plain_roaring (\<lambda>_. KInt) sample_system"
proof -
  note readers = sample_readers and c = empty_disk_contents(1) and lens = empty_disk_contents(2)
  have "lsm_inv plain_fst (\<lambda>_. KInt) sample_index"
    unfolding lsm_inv_def readers keys_once_distinct
    using one_document_good empty_opened(2) lens by (simp add: rd_good_mem_iff) (simp add: sample_index_def lsm_new_def fq_new_def)
  moreover have op: "open_file plain_fst plain_roaring (segment_name n) sample_dir = Inr empty_disk" if "n = 0 \<or> n = 1" for n
    using that by (auto simp: open_file_def sample_dir_def empty_opened(1))
  then have "backed plain_fst plain_roaring sample_index"
    by (simp add: backed_def sample_index_def open_handle_def)
  moreover have "names_ok sample_system"
    by (auto simp: names_ok_def names_used_def sample_system_def sample_index_def lsm_new_def fq_new_def disk_segment_paths_def
        map_filter_simps sample_job_def named_below_def)
  moreover have "queue_ok plain_fst plain_roaring sample_system"
    by (simp add: queue_ok_def sample_system_def sample_index_def lsm_new_def fq_new_def)
  moreover have "compaction_ok plain_fst plain_roaring (\<lambda>_. KInt) sample_system"
    using op empty_opened(2)
    by (simp add: compaction_ok_def sample_system_def job_ok_def sample_job_def sample_index_def lsm_new_def output_ready_def cc_of_def
        open_handle_def c view_delete_nothing)
  ultimately show ?thesis
    using plain_fst_lawful plain_roaring_lawful by (simp add: sys_inv_def) (simp add: sample_system_def)
qed

section \<open>Properties\<close>

text \<open>C1. Refinement of the whole index at work.  Batches are ingested, documents deleted, snapshots published,
  flushes queued, written and installed, compactions planned, merged and installed, in any order and with
  writes that fail and manifest lines that tear.  The index stays in order, and what it holds is what the
  specification holds: an ingested batch is added (without the documents whose ids are marked as deleted), a
  deleted document goes, and every other step changes nothing, except that installing a compaction which
  forgets the tombstones brings back exactly the deleted documents that are still in memory (the label
  \<open>Revive\<close>).  A lookup answers with exactly the postings the specification holds.  A batch has new ids and is in
  order itself (\<open>batch_fits\<close>), the segment and delete counters do not reach \<open>2^64\<close> (\<open>room\<close>), and what is written fits the
  widths of the file format (\<open>job_fits\<close>, \<open>merge_job_fits\<close>).\<close>

theorem lsm_refines_spec:
  assumes "sys_inv F R kind s" and "lsm_run F R kind ok s ls s'"
  shows "sys_inv F R kind s' \<and> lsm_spec F (sys_index s') = fold (spec_step F) ls (lsm_spec F (sys_index s))
    \<and> items (lsm_lookup F (sys_index s') t x) = v_terms (fst (fold (spec_step F) ls (lsm_spec F (sys_index s)))) t x"
proof -
  have run: "sys_inv F R kind s'" "lsm_spec F (sys_index s') = fold (spec_step F) ls (lsm_spec F (sys_index s))"
    using lsm_run_refines [OF assms(2,1)] by auto
  have "\<forall>r \<in> set (sn_readers (lsm_snapshot (sys_index s'))). rd_good F kind r"
    using run(1) by (simp add: sys_inv_def lsm_inv_def lsm_readers_def)
  from snapshot_terms [OF this, of t x] have "items (sn_lookup F (lsm_snapshot (sys_index s')) t x) = v_terms (lsm_abs F (sys_index s')) t x"
    by (simp add: lsm_abs_def lsm_readers_def) (simp add: lsm_snapshot_def build_snapshot_def snapshot_new_def)
  with run show ?thesis by (simp add: lsm_lookup_def flip: run(2)) (simp add: lsm_spec_def)
qed

lemma docs_view:
  "docs (v_terms (view_add v w) t x) = docs (v_terms v t x) \<union> docs (v_terms w t x)"
  "docs (v_terms (view_delete D v) t x) = docs (v_terms v t x) - D"
  "m \<in> set ms \<Longrightarrow> docs (items (mi_lookup_or_empty m t x)) \<subseteq> docs (v_terms (contents F (map MemReader ms)) t x)"
  by (auto simp: view_add_def view_delete_def docs_merge_by_doc contents_def term_postings_of_def) (auto simp: docs_def)

lemma install_clears:
  assumes inv: "sys_inv F R kind s" and "sys_compaction s = Merged job cc" and "drops_tombstones cc (sys_index s)"
  shows "lsm_deleted (fst (install_compaction F R None None cc (sys_index s))) = {}"
proof -
  let ?ix = "sys_index s"
  obtain dir where root: "lsm_root ?ix = Some dir" and ready: "output_ready F R kind dir (cj_deleted job) cc" and cc: "cc = cc_of job" and j: "job_ok job ?ix"
    using assms(1,2) by (auto simp: sys_inv_def compaction_ok_def)
  have sel: "set (cc_selected cc) \<subseteq> set (lsm_handles ?ix)" "cc_selected cc \<noteq> []" "distinct (cc_selected cc)"
    using j by (simp_all add: job_ok_def cc cc_of_def)
  have "lsm_inv F kind ?ix" "backed F R ?ix" using inv by (simp_all add: sys_inv_def)
  from install_compaction_effect [OF this(1) root this(2) sel ready, of None None] assms(3) show ?thesis by metis
qed

lemma install_delete_generation [simp]:
  "lsm_delete_generation (fst (install_compaction F R rewrite_fault clear_fault cc ix)) = lsm_delete_generation ix"
  by (simp add: install_compaction_def Let_def split: option.split sum.split prod.split list.split)

theorem lsm_refines_spec_witness:
  "\<exists>s' v. lsm_run plain_fst plain_roaring (\<lambda>_. KInt) (\<lambda>_. True) sample_system [Ingest (one_document 12), Revive v, Delete 12] s'
     \<and> 9 \<in> docs (items (lsm_lookup plain_fst (sys_index s') ''red'' 1)) \<and> 12 \<notin> docs (items (lsm_lookup plain_fst (sys_index s') ''red'' 1))"
proof -
  let ?step = "lsm_step plain_fst plain_roaring (\<lambda>_. KInt) (\<lambda>_. True)" and ?run = "lsm_run plain_fst plain_roaring (\<lambda>_. KInt) (\<lambda>_. True)"
  define s1 where "s1 = sample_system\<lparr>sys_index := merge_into_memtable 5 (one_document 12) (sys_index sample_system)\<rparr>"
  define ix2 where "ix2 = fst (install_compaction plain_fst plain_roaring None None (cc_of sample_job) (sys_index s1))"
  define s2 where "s2 = s1\<lparr>sys_index := ix2, sys_compaction := NoCompaction\<rparr>"
  define s3 where "s3 = s2\<lparr>sys_index := fst (delete_document 6 None 12 (sys_index s2))\<rparr>"
  let ?v = "hidden_in_memory plain_fst (sys_index s1)"
  have sys: "sys_compaction s1 = Merged sample_job (cc_of sample_job)" "lsm_deleted (sys_index s1) = {9}" "lsm_delete_generation (sys_index s1) = 0"
    "memory_readers (sys_index s1) = map MemReader [merge_from late_document (one_document 12)]"
    "drops_tombstones (cc_of sample_job) (sys_index s1)"
    by (simp_all add: s1_def sample_system_def sample_index_def lsm_new_def fq_new_def merge_into_memtable_def memory_readers_def drops_tombstones_def
        cc_of_def sample_job_def)
  have "batch_fits plain_fst (\<lambda>_. KInt) (one_document 12) (sys_index sample_system)"
    unfolding batch_fits_def keys_once_distinct using one_document_good [of 12] one_document_good(3) [of 9] empty_disk_contents(2)
    by (simp add: sample_system_def sample_readers)
  then have st1: "?step sample_system (Ingest (one_document 12)) s1" unfolding s1_def by (rule lsm_step.step_ingest)
  from lsm_run.run_more [OF lsm_run.run_none st1] have r1: "?run sample_system [Ingest (one_document 12)] s1" by simp
  have inv1: "sys_inv plain_fst plain_roaring (\<lambda>_. KInt) s1" using lsm_run_refines [OF r1 sample_system_inv] by simp
  have "install_label plain_fst (sys_index s1) ix2 = Revive ?v"
    using install_clears [OF inv1 sys(1,5)] sys(2) by (simp add: install_label_def ix2_def)
  with lsm_step.step_install [of s1 sample_job "cc_of sample_job" "\<lambda>_. True" None None ix2 plain_fst plain_roaring "\<lambda>_. KInt"] sys(1)
  have st2: "?step s1 (Revive ?v) s2" by (simp add: ix2_def s2_def)
  have st3: "?step s2 (Delete 12) s3" unfolding s3_def by (rule lsm_step.step_delete) (simp_all add: room_def s2_def ix2_def sys)
  have run: "?run sample_system [Ingest (one_document 12), Revive ?v, Delete 12] s3"
    using lsm_run.run_more [OF lsm_run.run_more [OF r1 st2] st3] by simp
  have "contents plain_fst (memory_readers (sys_index s1)) = contents plain_fst (map MemReader [late_document, one_document 12])"
    unfolding sys(4) list.map
    by (rule contents_merge_from [OF one_document_good(1) one_document_good(1)]) (simp add: one_document_good(3))
  then have "9 \<in> docs (v_terms ?v ''red'' 1)"
    using one_document_lookup [of 9] docs_view(3) [of late_document "[late_document, one_document 12]" "''red''" 1 plain_fst] sys(2)
    by (auto simp: hidden_in_memory_def docs_view)
  with run lsm_refines_spec [OF sample_system_inv run, of "''red''" 1] show ?thesis
    by (intro exI [of _ s3] exI [of _ ?v]) (simp add: lsm_spec_def docs_view)
qed

text \<open>C14. Flushes complete in the order they were queued: in every state the system can reach, the
  next report of the writer belongs to the flush at the front of the queue, so that
  \<open>complete_flush\<close> never fails as out of order, and the report is of that flush's generations and
  file.\<close>

theorem flushes_complete_in_order:
  assumes "sys_inv F R kind s" and "lsm_run F R kind ok s ls s'" and "sys_written s' = (job, written) # rest"
  shows "\<exists>p q. fq_complete (fj_seq job) (lsm_queue (sys_index s')) = Inr (p, q)
    \<and> pf_path p = fj_path job \<and> pf_generations p = fj_generations job
    \<and> fq_flushed_through q = fq_flushed_through (lsm_queue (sys_index s')) + 1"
proof -
  have "queue_ok F R s'" using lsm_run_refines [OF assms(2,1)] by (simp add: sys_inv_def)
  then obtain p ps where q: "fq_pending (lsm_queue (sys_index s')) = p # ps" and "pending_info p = job_info job"
    using assms(3) by (auto simp: queue_ok_def)
  then have p: "pf_seq p = fj_seq job" "pf_path p = fj_path job" "pf_generations p = fj_generations job"
    by (simp_all add: pending_info_def job_info_def)
  let ?q = "(lsm_queue (sys_index s'))\<lparr>fq_pending := ps\<rparr>"
  have "fq_complete (fj_seq job) (lsm_queue (sys_index s')) = Inr (p, ?q)" using q p by (simp add: fq_complete_def)
  moreover have "fq_flushed_through ?q = fq_flushed_through (lsm_queue (sys_index s')) + 1"
    using q by (simp add: fq_flushed_through_def)
  ultimately show ?thesis using p by blast
qed

theorem flushes_complete_in_order_witness:
  "\<exists>s' job e q. lsm_run plain_fst plain_roaring (\<lambda>_. KInt) (\<lambda>_. True) sample_system [Internal, Internal, Internal] s'
     \<and> sys_written s' = [(job, Inl e)]
     \<and> (\<exists>p q. fq_complete (fj_seq job) (lsm_queue (sys_index s')) = Inr (p, q) \<and> pf_generations p = [late_document])"
proof -
  let ?step = "lsm_step plain_fst plain_roaring (\<lambda>_. KInt) (\<lambda>_. True)"
  have range: "mi_doc_id_range late_document = Some (9, 9)"
    by (simp add: one_document_def add_analyzed_document_def apply_target_def apply_field_def add_posting_weighted_def
        sample_document_def mi_new_def mi_doc_id_range_def track_doc_id_def Let_def)
  define job where "job = \<lparr>fj_seq = 0, fj_path = segment_name 2, fj_generations = [late_document]\<rparr>"
  define s1 where "s1 = sample_system\<lparr>sys_index := fst (queue_flush (\<lambda>_. False) None (sys_index sample_system))\<rparr>"
  have st1: "?step sample_system Internal s1"
    unfolding s1_def by (rule lsm_step.step_queue) (simp add: room_def sample_system_def sample_index_def)
  have q1: "lsm_queue (sys_index s1) = fq_push (segment_name 2) [late_document] fq_new" "lsm_root (sys_index s1) = Some sample_dir" "sys_writing s1 = []" "sys_written s1 = []"
    by (simp_all add: s1_def sample_system_def sample_index_def lsm_new_def queue_flush_def fq_health_def fq_new_def seal_def range
        generations_max_def map_filter_simps Let_def)
  define s2 where "s2 = s1\<lparr>sys_index := snd (take_flush_jobs (sys_index s1)), sys_writing := sys_writing s1 @ fst (take_flush_jobs (sys_index s1))\<rparr>"
  have st2: "?step s1 Internal s2" unfolding s2_def by (rule lsm_step.step_submit) simp
  have q2: "sys_writing s2 = [job]" "lsm_root (sys_index s2) = Some sample_dir" "sys_written s2 = []"
    by (simp_all add: s2_def q1 take_flush_jobs_def fq_take_jobs_def fq_push_def fq_new_def job_def)
  obtain dir' e where w: "job_write plain_fst plain_roaring (Some (0, OtherError ''disk full'')) job sample_dir = (dir', Inl e)"
    by (cases "write_segment_to plain_fst plain_roaring (freeze_shared (fj_generations job))")
      (simp_all add: job_write_def write_segment_def write_file_def)
  define s3 where "s3 = s2\<lparr>sys_index := (sys_index s2)\<lparr>lsm_root := Some dir'\<rparr>, sys_writing := [], sys_written := sys_written s2 @ [(job, Inl e)]\<rparr>"
  have st3: "?step s2 Internal s3" unfolding s3_def using q2 w by (intro lsm_step.step_write) auto
  have run: "lsm_run plain_fst plain_roaring (\<lambda>_. KInt) (\<lambda>_. True) sample_system [Internal, Internal, Internal] s3"
    using lsm_run.run_more [OF lsm_run.run_more [OF lsm_run.run_more [OF lsm_run.run_none st1] st2] st3] by simp
  have written: "sys_written s3 = [(job, Inl e)]" by (simp add: s3_def q2)
  show ?thesis
    using flushes_complete_in_order [OF sample_system_inv run written] run written by (auto simp: job_def)
qed

text \<open>C36. When a compaction merged every segment handle and no deletion came in between, installing it
  forgets all tombstones, also those of documents that are not in a segment yet: a deleted document
  that is still in the memtable or in a generation, hidden before, is found again afterwards.\<close>

theorem install_revives_deleted:
  assumes inv: "sys_inv F R kind s" and "sys_compaction s = Merged job cc" and "drops_tombstones cc (sys_index s)"
    and "m \<in> set (lsm_mem (sys_index s) # lsm_generations (sys_index s))" and "d \<in> lsm_deleted (sys_index s)"
    and "d \<in> docs (items (mi_lookup_or_empty m t x))"
  shows "d \<notin> docs (items (lsm_lookup F (sys_index s) t x))
    \<and> d \<in> docs (items (lsm_lookup F (fst (install_compaction F R None None cc (sys_index s))) t x))"
proof -
  let ?ix = "sys_index s" and ?ix' = "fst (install_compaction F R None None cc (sys_index s))"
  obtain dir where root: "lsm_root ?ix = Some dir" and ready: "output_ready F R kind dir (cj_deleted job) cc" and cc: "cc = cc_of job" and j: "job_ok job ?ix"
    using assms(1,2) by (auto simp: sys_inv_def compaction_ok_def)
  have sel: "set (cc_selected cc) \<subseteq> set (lsm_handles ?ix)" "cc_selected cc \<noteq> []" "distinct (cc_selected cc)"
    using j by (simp_all add: job_ok_def cc cc_of_def)
  have li: "lsm_inv F kind ?ix" and bk: "backed F R ?ix" using inv by (simp_all add: sys_inv_def)
  have inv': "lsm_inv F kind ?ix'" and D': "lsm_deleted ?ix' = {}" and mem: "m \<in> set (lsm_mem ?ix' # lsm_generations ?ix')"
    using install_compaction_effect [OF li root bk sel ready, of None None] assms(3,4) by metis+
  have docs: "docs (items (lsm_lookup F ix t x)) = (\<Union>r \<in> set (lsm_readers ix). docs (items (rd_lookup F r t x))) - lsm_deleted ix"
    if "lsm_inv F kind ix" for ix
  proof -
    have "\<forall>r \<in> set (sn_readers (lsm_snapshot ix)). rd_good F kind r" using that by (simp add: lsm_inv_def lsm_readers_def)
    moreover have "docs (term_postings_of F rs t x) = (\<Union>r \<in> set rs. docs (items (rd_lookup F r t x)))" for rs
      by (induction rs) (simp_all add: term_postings_of_def)
    moreover have "docs (filter (\<lambda>p. doc_id p \<notin> D) ps) = docs ps - D" for D ps by (auto simp: docs_def)
    ultimately show ?thesis
      by (simp add: lsm_lookup_def snapshot_terms lsm_readers_def view_delete_def contents_def docs_merge_by_doc)
        (simp add: lsm_snapshot_def build_snapshot_def snapshot_new_def)
  qed
  have "MemReader m \<in> set (lsm_readers ?ix')" using mem by (auto simp: lsm_readers_eq)
  then have "d \<in> (\<Union>r \<in> set (lsm_readers ?ix'). docs (items (rd_lookup F r t x)))" using assms(6) by force
  with docs [OF li] docs [OF inv'] D' assms(5) show ?thesis by auto
qed

theorem install_revives_deleted_witness:
  "sys_inv plain_fst plain_roaring (\<lambda>_. KInt) sample_system
   \<and> 9 \<notin> docs (items (lsm_lookup plain_fst sample_index ''red'' 1))
   \<and> 9 \<in> docs (items (lsm_lookup plain_fst (fst (install_compaction plain_fst plain_roaring None None (cc_of sample_job) sample_index)) ''red'' 1))"
proof -
  have sys: "sys_index sample_system = sample_index" "sys_compaction sample_system = Merged sample_job (cc_of sample_job)" by (simp_all add: sample_system_def)
  have "drops_tombstones (cc_of sample_job) (sys_index sample_system)"
    by (simp add: drops_tombstones_def cc_of_def sample_job_def sys sample_index_def lsm_new_def)
  moreover have "late_document \<in> set (lsm_mem (sys_index sample_system) # lsm_generations (sys_index sample_system))" "9 \<in> lsm_deleted (sys_index sample_system)"
    by (simp_all add: sys sample_index_def)
  ultimately show ?thesis
    using install_revives_deleted [OF sample_system_inv sys(2), of late_document 9 "''red''" 1] one_document_lookup sample_system_inv
    by (simp add: sys)
qed

end
