(* ===== verification/Numbered_Files.thy ===== *)
theory Numbered_Files
  imports Ordered_Map
begin

text \<open>
  Folders whose files are named after numbers: the write-ahead log and the document store list the
  numbers of their segment files by parsing every name of the folder.  The contract between a naming
  scheme and its parser is the locale \<open>numbered_files\<close>; what the list of numbers is after a file is
  created, replaced or removed follows from it.
\<close>

definition numbers_in :: "(string \<Rightarrow> 'n::linorder option) \<Rightarrow> (string, 'f) omap \<Rightarrow> 'n list" where
  "numbers_in number_of d = sort (List.map_filter number_of (map fst d))"

lemma mset_map_filter: "mset (List.map_filter g xs) = mset (List.map_filter g ys)" if "mset xs = mset ys"
  using that unfolding List.map_filter_def mset_map by (metis mset_filter)

lemma omap_insert_mset:
  "omap_ok d \<Longrightarrow> mset (map fst (omap_insert k v d)) =
    (if k \<in> fst ` set d then mset (map fst d) else add_mset k (mset (map fst d)))"
proof (induction k v d rule: omap_insert.induct)
  case (2 k v k' v' m)
  then have "k \<notin> fst ` set m" if "k < k'" using that by (auto simp: omap_ok_Cons)
  moreover have "k' \<notin> fst ` set m" using 2(2) by (auto simp: omap_ok_Cons)
  ultimately show ?case using 2 by (auto simp: omap_ok_Cons)
qed simp

lemma omap_remove_mset:
  "omap_ok d \<Longrightarrow> omap_get d k = Some v \<Longrightarrow> add_mset k (mset (map fst (omap_remove k d))) = mset (map fst d)"
proof (induction d)
  case (Cons x d)
  obtain k' v' where x: "x = (k', v')" by fastforce
  have "omap_remove k d = d" if "k' = k" using Cons.prems(1) that by (auto simp: omap_remove_def omap_ok_Cons x filter_id_conv)
  with Cons show ?case by (auto simp: x omap_remove_def omap_ok_Cons split: if_splits)
qed simp

lemma numbers_sorted [simp]: "sorted (numbers_in number_of d)"
  by (simp add: numbers_in_def)

lemma numbers_mset: "mset (numbers_in number_of d) = mset (List.map_filter number_of (map fst d))"
  by (simp add: numbers_in_def)

lemma numbers_eqI: "mset (numbers_in number_of d) = mset ns \<Longrightarrow> sorted ns \<Longrightarrow> numbers_in number_of d = ns"
  by (metis numbers_sorted properties_for_sort sorted_sort_id)

lemma numbers_same:
  assumes "omap_ok d" and "omap_get d k \<noteq> None"
  shows "numbers_in number_of (omap_insert k fl d) = numbers_in number_of d"
proof -
  have "k \<in> fst ` set d" using assms(2) by (metis map_of_eq_None_iff)
  then have "mset (map fst (omap_insert k fl d)) = mset (map fst d)" by (simp only: omap_insert_mset [OF assms(1)] if_True)
  from mset_map_filter [OF this, of number_of] show ?thesis by (intro numbers_eqI) (simp_all only: numbers_mset numbers_sorted)
qed

lemma numbers_other_new:
  assumes "omap_ok d" and "number_of k = None"
  shows "numbers_in number_of (omap_insert k fl d) = numbers_in number_of d"
proof (cases "omap_get d k")
  case None
  then have "k \<notin> fst ` set d" by (simp add: map_of_eq_None_iff)
  then have "mset (map fst (omap_insert k fl d)) = mset (k # map fst d)" using assms(1) by (simp add: omap_insert_mset del: mset_map)
  from mset_map_filter [OF this, of number_of] assms(2) show ?thesis
    by (intro numbers_eqI) (simp_all add: numbers_mset List.map_filter_simps)
qed (use numbers_same [OF assms(1)] in blast)

lemma numbers_other_remove:
  assumes "omap_ok d" and "number_of k = None"
  shows "numbers_in number_of (omap_remove k d) = numbers_in number_of d"
proof (cases "omap_get d k")
  case None
  then have "omap_remove k d = d" by (auto simp: omap_remove_def filter_id_conv map_of_eq_None_iff rev_image_eqI)
  then show ?thesis by simp
next
  case (Some v)
  have "mset (k # map fst (omap_remove k d)) = mset (map fst d)" using omap_remove_mset [OF assms(1) Some] by (simp del: mset_map)
  from mset_map_filter [OF this, of number_of] assms(2) show ?thesis
    by (intro numbers_eqI) (simp_all add: numbers_mset List.map_filter_simps)
qed

locale numbered_files =
  fixes path_of :: "'n::linorder \<Rightarrow> string" and number_of :: "string \<Rightarrow> 'n option"
  assumes number_of_path: "number_of (path_of n) = Some n"
begin

lemma path_inj: "path_of a = path_of b \<longleftrightarrow> a = b"
  by (metis option.inject number_of_path)

lemma numbers_has: "omap_get d (path_of n) = Some fl \<Longrightarrow> n \<in> set (numbers_in number_of d)"
  by (force simp: numbers_in_def List.map_filter_def number_of_path dest: map_of_SomeD)

lemma numbers_new:
  assumes "omap_ok d" and "omap_get d (path_of n) = None" and "\<forall>i \<in> set (numbers_in number_of d). i < n"
  shows "numbers_in number_of (omap_insert (path_of n) fl d) = numbers_in number_of d @ [n]"
proof -
  have "path_of n \<notin> fst ` set d" using assms(2) by (simp add: map_of_eq_None_iff)
  then have "mset (map fst (omap_insert (path_of n) fl d)) = mset (path_of n # map fst d)"
    using assms(1) by (simp add: omap_insert_mset del: mset_map)
  from mset_map_filter [OF this, of number_of] have "mset (numbers_in number_of (omap_insert (path_of n) fl d)) = mset (numbers_in number_of d @ [n])"
    by (simp add: numbers_mset List.map_filter_simps number_of_path)
  moreover have "sorted (numbers_in number_of d @ [n])" using assms(3) by (auto simp: sorted_append)
  ultimately show ?thesis by (rule numbers_eqI)
qed

lemma numbers_remove:
  assumes "omap_ok d" and "omap_get d (path_of n) = Some fl" and "numbers_in number_of d = xs @ n # ys"
  shows "numbers_in number_of (omap_remove (path_of n) d) = xs @ ys"
proof -
  have "mset (path_of n # map fst (omap_remove (path_of n) d)) = mset (map fst d)"
    using omap_remove_mset [OF assms(1, 2)] by (simp del: mset_map)
  from mset_map_filter [OF this, of number_of] have "add_mset n (mset (numbers_in number_of (omap_remove (path_of n) d))) = mset (numbers_in number_of d)"
    by (simp add: numbers_mset List.map_filter_simps number_of_path)
  then have "mset (numbers_in number_of (omap_remove (path_of n) d)) = mset (xs @ ys)" by (simp add: assms(3))
  moreover have "sorted (xs @ ys)" using numbers_sorted [of number_of d] by (auto simp: assms(3) sorted_append)
  ultimately show ?thesis by (rule numbers_eqI)
qed

end

end
