(* ===== verification/Wal.thy ===== *)
theory Wal
  imports Index_Files Codec Numbered_Files
begin

text \<open>
  \<^verbatim>\<open>crates/core-storage/src/wal.rs\<close>: the write-ahead log, a folder of numbered segment files.

  A file is its bytes together with how many of them the last \<open>fsync\<close> made durable.  The folder maps
  file names to files; its entries, the reads and the seeks inside a file do not fail, every other call
  does when the argument \<open>f\<close> of the operation says so.  Offsets are byte positions in a file and stay
  far below \<open>2^64\<close>; they are natural numbers.  The checksum of the crate \<open>crc32fast\<close> is the parameter
  \<open>crc\<close>, a function of the bytes fed to the hasher.  The mutex makes the operations atomic.
\<close>

section \<open>Files and the folder\<close>

record wal_file =
  wf_bytes :: "u8 list"
  wf_synced :: nat

type_synonym wal_dir = "(string, wal_file) omap"

datatype syscall =
  CreateDir | CreateFile | SyncNew | WriteFile | SyncFile | SetLen | SyncDir | RemoveFile u64

type_synonym faults = "syscall \<Rightarrow> fault"

definition no_faults :: faults where
  "no_faults _ = None"

definition file_new :: wal_file where
  "file_new = \<lparr>wf_bytes = [], wf_synced = 0\<rparr>"

text \<open>\<open>write_all\<close> at an offset of at most the file's length.\<close>

definition write_at :: "nat \<Rightarrow> u8 list \<Rightarrow> wal_file \<Rightarrow> wal_file" where
  "write_at off data fl =
     \<lparr>wf_bytes = take off (wf_bytes fl) @ data @ drop (off + length data) (wf_bytes fl),
      wf_synced = min (wf_synced fl) off\<rparr>"

definition sync_file :: "wal_file \<Rightarrow> wal_file" where
  "sync_file fl = fl\<lparr>wf_synced := length (wf_bytes fl)\<rparr>"

definition set_len :: "nat \<Rightarrow> wal_file \<Rightarrow> wal_file" where
  "set_len n fl = \<lparr>wf_bytes = take n (wf_bytes fl), wf_synced = min (wf_synced fl) n\<rparr>"

definition segment_path :: "u64 \<Rightarrow> string" where
  "segment_path n =
     (let s = show_nat (unat n) in replicate (20 - length s) (CHR ''0'') @ s @ ''.wal'')"

text \<open>\<open>Path::extension\<close>: what follows the last dot, unless the name starts with it.\<close>

definition file_extension :: "string \<Rightarrow> string option" where
  "file_extension name =
     (let r = dropWhile (\<lambda>c. c \<noteq> CHR ''.'') (rev name)
      in if tl r = [] then None else Some (rev (takeWhile (\<lambda>c. c \<noteq> CHR ''.'') (rev name))))"

definition segment_number :: "string \<Rightarrow> u64 option" where
  "segment_number name =
     (if file_extension name = Some ''wal'' then parse_u64 (file_stem name) else None)"

definition list_segments :: "wal_dir \<Rightarrow> u64 list" where
  "list_segments d = sort (List.map_filter segment_number (map fst d))"

section \<open>Records\<close>

definition wal_max_entry_size :: nat where
  "wal_max_entry_size = 1073741824"

definition wal_header_size :: nat where
  "wal_header_size = 8"

definition wal_min_record_size :: nat where
  "wal_min_record_size = wal_header_size + 1"

definition record_crc :: "(u8 list \<Rightarrow> u32) \<Rightarrow> nat \<Rightarrow> u32 \<Rightarrow> u8 list \<Rightarrow> u32" where
  "record_crc crc off len payload = crc (write_u64 (of_nat off) @ write_u32 len @ payload)"

definition encode_record :: "(u8 list \<Rightarrow> u32) \<Rightarrow> nat \<Rightarrow> u8 list \<Rightarrow> u8 list" where
  "encode_record crc off payload =
     (let len = of_nat (length payload)
      in write_u32 len @ write_u32 (record_crc crc off len payload) @ payload)"

function parse_records_from :: "(u8 list \<Rightarrow> u32) \<Rightarrow> u8 list \<Rightarrow> nat \<Rightarrow> u8 list list result" where
  "parse_records_from crc raw pos =
     (if pos < length raw
      then if pos + wal_header_size > length raw then Inl (InvalidData ''truncated replay'')
           else let len = from_le (take 4 (drop pos raw)) :: u32;
                    sum = from_le (take 4 (drop (pos + 4) raw)) :: u32;
                    start = pos + wal_header_size;
                    stop = start + unat len
                in if len = 0 \<or> unat len > wal_max_entry_size \<or> stop > length raw
                   then Inl (InvalidData ''truncated replay'')
                   else let payload = take (unat len) (drop start raw)
                        in if record_crc crc pos len payload \<noteq> sum
                           then Inl (InvalidData ''crc mismatch in replay'')
                           else and_then (parse_records_from crc raw stop) (\<lambda>out. Inr (payload # out))
      else Inr [])"
  by pat_completeness auto
termination
  by (relation "measure (\<lambda>(crc, raw, pos). length raw - pos)") (auto simp: wal_header_size_def)

definition parse_records :: "(u8 list \<Rightarrow> u32) \<Rightarrow> u8 list \<Rightarrow> u8 list list result" where
  "parse_records crc raw = parse_records_from crc raw 0"

definition read_record_at :: "(u8 list \<Rightarrow> u32) \<Rightarrow> u8 list \<Rightarrow> nat \<Rightarrow> nat option" where
  "read_record_at crc raw pos =
     (if pos + wal_header_size > length raw then None
      else let len = from_le (take 4 (drop pos raw)) :: u32;
               stored = from_le (take 4 (drop (pos + 4) raw)) :: u32
           in if len = 0 \<or> unat len > wal_max_entry_size \<or> pos + wal_header_size + unat len > length raw then None
              else let payload = take (unat len) (drop (pos + wal_header_size) raw)
                   in if record_crc crc pos len payload \<noteq> stored then None
                      else Some (pos + wal_header_size + unat len))"

lemma read_record_at_bounds:
  "read_record_at crc raw pos = Some next \<Longrightarrow> pos < next \<and> next \<le> length raw"
  by (auto simp: read_record_at_def Let_def wal_header_size_def split: if_splits)

function scan_records :: "(u8 list \<Rightarrow> u32) \<Rightarrow> u8 list \<Rightarrow> nat \<Rightarrow> nat" where
  "scan_records crc raw pos =
     (if pos + wal_min_record_size \<le> length raw
      then case read_record_at crc raw pos of Some next \<Rightarrow> scan_records crc raw next | None \<Rightarrow> pos
      else pos)"
  by pat_completeness auto
termination
  by (relation "measure (\<lambda>(crc, raw, pos). length raw - pos)") (auto dest: read_record_at_bounds)

function probe_records :: "(u8 list \<Rightarrow> u32) \<Rightarrow> u8 list \<Rightarrow> nat \<Rightarrow> nat option" where
  "probe_records crc raw probe =
     (if probe + wal_min_record_size \<le> length raw
      then if read_record_at crc raw probe \<noteq> None then Some probe else probe_records crc raw (probe + 1)
      else None)"
  by pat_completeness auto
termination
  by (relation "measure (\<lambda>(crc, raw, probe). length raw - probe)") (auto simp: wal_min_record_size_def)

declare parse_records_from.simps [simp del] scan_records.simps [simp del] probe_records.simps [simp del]

definition valid_end :: "(u8 list \<Rightarrow> u32) \<Rightarrow> u8 list \<Rightarrow> nat result" where
  "valid_end crc raw =
     (let pos = scan_records crc raw 0
      in if pos < length raw
         then case probe_records crc raw (pos + 1) of
                Some probe \<Rightarrow>
                  Inl (InvalidData (''wal corruption at offset '' @ show_nat pos @ '': valid record found at '' @
                    show_nat probe @ '', refusing to truncate '' @ show_nat (length raw - pos) @ '' bytes''))
              | None \<Rightarrow> Inr pos
         else Inr pos)"

section \<open>The log\<close>

datatype sync_mode = SyncEach | Manual

record wal =
  wal_mode :: sync_mode
  wal_segment :: u64
  wal_durable :: nat
  wal_written :: nat
  wal_poisoned :: bool

type_synonym wal_state = "wal \<times> wal_dir"

text \<open>The open file of the newest segment.\<close>

definition wal_current :: "wal_state \<Rightarrow> wal_file" where
  "wal_current = (\<lambda>(w, d). case omap_get d (segment_path (wal_segment w)) of Some fl \<Rightarrow> fl | None \<Rightarrow> file_new)"

definition put_current :: "wal_file \<Rightarrow> wal_state \<Rightarrow> wal_state" where
  "put_current fl = (\<lambda>(w, d). (w, omap_insert (segment_path (wal_segment w)) fl d))"

definition sync_or_poison :: "faults \<Rightarrow> wal_state \<Rightarrow> wal_state \<times> unit result" where
  "sync_or_poison f s =
     (case f SyncFile of
        Some (_, e) \<Rightarrow> (case s of (w, d) \<Rightarrow> (w\<lparr>wal_poisoned := True\<rparr>, d), Inl e)
      | None \<Rightarrow>
          (case put_current (sync_file (wal_current s)) s of (w, d) \<Rightarrow> (w\<lparr>wal_durable := wal_written w\<rparr>, d), Inr ()))"

text \<open>What the path of the log holds when it is opened.\<close>

datatype wal_place = Missing | PlainFile | Folder wal_dir

definition wal_open :: "(u8 list \<Rightarrow> u32) \<Rightarrow> faults \<Rightarrow> sync_mode \<Rightarrow> wal_place \<Rightarrow> wal_place \<times> wal result" where
  "wal_open crc f mode place =
     (case place of
        PlainFile \<Rightarrow> (place, Inl (InvalidInput ''expected the WAL folder''))
      | _ \<Rightarrow>
        (case f CreateDir of
           Some (_, e) \<Rightarrow> (place, Inl e)
         | None \<Rightarrow>
           let d = (case place of Folder d \<Rightarrow> d | _ \<Rightarrow> []);
               (d, newest) =
                 (if list_segments d \<noteq> [] then (d, Inr (last (list_segments d)))
                  else case f CreateFile of
                         Some (_, e) \<Rightarrow> (d, Inl e)
                       | None \<Rightarrow>
                           case f SyncNew of
                             Some (_, e) \<Rightarrow> (omap_insert (segment_path 1) file_new d, Inl e)
                           | None \<Rightarrow>
                               case f SyncDir of
                                 Some (_, e) \<Rightarrow> (omap_insert (segment_path 1) file_new d, Inl e)
                               | None \<Rightarrow> (omap_insert (segment_path 1) file_new d, Inr 1))
           in case newest of
                Inl e \<Rightarrow> (Folder d, Inl e)
              | Inr segment \<Rightarrow>
                  (case omap_get d (segment_path segment) of
                     None \<Rightarrow> (Folder d, Inl (NotFound ''no such file''))
                   | Some fl \<Rightarrow>
                       (case valid_end crc (wf_bytes fl) of
                          Inl e \<Rightarrow> (Folder d, Inl e)
                        | Inr stop \<Rightarrow>
                            let cut = stop < length (wf_bytes fl)
                            in case (if cut then f SetLen else None) of
                                 Some (_, e) \<Rightarrow> (Folder d, Inl e)
                               | None \<Rightarrow>
                                   let fl = (if cut then set_len stop fl else fl)
                                   in case f SyncFile of
                                        Some (_, e) \<Rightarrow> (Folder (omap_insert (segment_path segment) fl d), Inl e)
                                      | None \<Rightarrow>
                                          (Folder (omap_insert (segment_path segment) (sync_file fl) d),
                                           Inr \<lparr>wal_mode = mode, wal_segment = segment, wal_durable = stop,
                                                wal_written = stop, wal_poisoned = False\<rparr>)))))"

definition wal_append :: "(u8 list \<Rightarrow> u32) \<Rightarrow> faults \<Rightarrow> u8 list \<Rightarrow> wal_state \<Rightarrow> wal_state \<times> nat result" where
  "wal_append crc f payload s =
     (if payload = [] then (s, Inl (InvalidInput ''empty entry''))
      else if length payload > wal_max_entry_size then (s, Inl (InvalidInput ''entry too large''))
      else if wal_poisoned (fst s) then (s, Inl (OtherError ''wal poisoned by prior fsync failure''))
      else let off = wal_written (fst s);
               record_bytes = encode_record crc off payload
           in case f WriteFile of
                Some (n, e) \<Rightarrow> (put_current (write_at off (take n record_bytes) (wal_current s)) s, Inl e)
              | None \<Rightarrow>
                  let s = put_current (write_at off record_bytes (wal_current s)) s;
                      s = (case s of (w, d) \<Rightarrow> (w\<lparr>wal_written := off + length record_bytes\<rparr>, d))
                  in if wal_mode (fst s) = SyncEach
                     then case sync_or_poison f s of (s, Inl e) \<Rightarrow> (s, Inl e) | (s, Inr _) \<Rightarrow> (s, Inr off)
                     else (s, Inr off))"

definition wal_rotate :: "faults \<Rightarrow> wal_state \<Rightarrow> wal_state \<times> u64 result" where
  "wal_rotate f s =
     (if wal_poisoned (fst s) then (s, Inl (OtherError ''wal poisoned''))
      else case sync_or_poison f s of
             (s, Inl e) \<Rightarrow> (s, Inl e)
           | ((w, d), Inr _) \<Rightarrow>
               let closed = wal_segment w; next = closed + 1
               in case f CreateFile of
                    Some (_, e) \<Rightarrow> ((w, d), Inl e)
                  | None \<Rightarrow>
                      if omap_get d (segment_path next) \<noteq> None
                      then ((w, d), Inl (AlreadyExists ''file exists''))
                      else let d = omap_insert (segment_path next) file_new d
                           in case f SyncNew of
                                Some (_, e) \<Rightarrow> ((w, d), Inl e)
                              | None \<Rightarrow>
                                  case f SyncDir of
                                    Some (_, e) \<Rightarrow> ((w, d), Inl e)
                                  | None \<Rightarrow>
                                      ((w\<lparr>wal_segment := next, wal_durable := 0, wal_written := 0\<rparr>, d), Inr closed))"

text \<open>The loop of \<open>remove_through\<close> and \<open>reset\<close> over the segments to delete.\<close>

fun remove_segments :: "faults \<Rightarrow> u64 list \<Rightarrow> wal_dir \<Rightarrow> wal_dir \<times> unit result" where
  "remove_segments f [] d = (d, Inr ())"
| "remove_segments f (n # ids) d =
     (case f (RemoveFile n) of
        Some (_, e) \<Rightarrow> (d, Inl e)
      | None \<Rightarrow>
          if omap_get d (segment_path n) = None then (d, Inl (NotFound ''no such file''))
          else remove_segments f ids (omap_remove (segment_path n) d))"

definition wal_remove_through :: "faults \<Rightarrow> u64 \<Rightarrow> wal_state \<Rightarrow> wal_state \<times> unit result" where
  "wal_remove_through f segment = (\<lambda>(w, d).
     let doomed = filter (\<lambda>n. n \<le> segment \<and> n \<noteq> wal_segment w) (list_segments d)
     in case remove_segments f doomed d of
          (d, Inl e) \<Rightarrow> ((w, d), Inl e)
        | (d, Inr _) \<Rightarrow>
            if doomed \<noteq> [] then (case f SyncDir of Some (_, e) \<Rightarrow> ((w, d), Inl e) | None \<Rightarrow> ((w, d), Inr ()))
            else ((w, d), Inr ()))"

definition wal_reset :: "faults \<Rightarrow> wal_state \<Rightarrow> wal_state \<times> unit result" where
  "wal_reset f = (\<lambda>(w, d).
     if wal_poisoned w then ((w, d), Inl (OtherError ''wal poisoned''))
     else case remove_segments f (filter (\<lambda>n. n \<noteq> wal_segment w) (list_segments d)) d of
            (d, Inl e) \<Rightarrow> ((w, d), Inl e)
          | (d, Inr _) \<Rightarrow>
              (case f SetLen of
                 Some (_, e) \<Rightarrow> ((w, d), Inl e)
               | None \<Rightarrow>
                   let (w, d) = put_current (set_len 0 (wal_current (w, d))) (w, d);
                       w = w\<lparr>wal_durable := 0, wal_written := 0\<rparr>
                   in case f SyncFile of
                        Some (_, e) \<Rightarrow> ((w\<lparr>wal_poisoned := True\<rparr>, d), Inl e)
                      | None \<Rightarrow>
                          let s = put_current (sync_file (wal_current (w, d))) (w, d)
                          in (case f SyncDir of Some (_, e) \<Rightarrow> (s, Inl e) | None \<Rightarrow> (s, Inr ()))))"

primrec in_segment :: "u64 \<Rightarrow> io_error \<Rightarrow> io_error" where
  "in_segment n (UnexpectedEof s) = UnexpectedEof (''WAL segment '' @ show_nat (unat n) @ '': '' @ s)"
| "in_segment n (InvalidData s) = InvalidData (''WAL segment '' @ show_nat (unat n) @ '': '' @ s)"
| "in_segment n (InvalidInput s) = InvalidInput (''WAL segment '' @ show_nat (unat n) @ '': '' @ s)"
| "in_segment n (NotFound s) = NotFound (''WAL segment '' @ show_nat (unat n) @ '': '' @ s)"
| "in_segment n (AlreadyExists s) = AlreadyExists (''WAL segment '' @ show_nat (unat n) @ '': '' @ s)"
| "in_segment n (OtherError s) = OtherError (''WAL segment '' @ show_nat (unat n) @ '': '' @ s)"

definition segment_contents :: "wal_state \<Rightarrow> u64 \<Rightarrow> u8 list result" where
  "segment_contents = (\<lambda>(w, d) n.
     if n = wal_segment w
     then (if wal_written w \<le> length (wf_bytes (wal_current (w, d)))
           then Inr (take (wal_written w) (wf_bytes (wal_current (w, d))))
           else Inl (UnexpectedEof ''failed to fill whole buffer''))
     else ok_or (NotFound ''no such file'') (map_option wf_bytes (omap_get d (segment_path n))))"

fun replay_segments :: "(u8 list \<Rightarrow> u32) \<Rightarrow> wal_state \<Rightarrow> u64 list \<Rightarrow> u8 list list result" where
  "replay_segments crc s [] = Inr []"
| "replay_segments crc s (n # ids) =
     and_then (segment_contents s n) (\<lambda>raw.
     and_then (case parse_records crc raw of Inl e \<Rightarrow> Inl (in_segment n e) | Inr records \<Rightarrow> Inr records) (\<lambda>records.
     and_then (replay_segments crc s ids) (\<lambda>rest. Inr (records @ rest))))"

definition wal_replay_all :: "(u8 list \<Rightarrow> u32) \<Rightarrow> wal_state \<Rightarrow> u8 list list result" where
  "wal_replay_all crc s = replay_segments crc s (list_segments (snd s))"

section \<open>Records in a segment\<close>

lemmas wal_sizes = wal_header_size_def wal_min_record_size_def wal_max_entry_size_def

definition payload_ok :: "u8 list \<Rightarrow> bool" where
  "payload_ok p \<longleftrightarrow> p \<noteq> [] \<and> length p \<le> wal_max_entry_size"

text \<open>The bytes of a segment that holds the given records from an offset on.\<close>

primrec segment_bytes :: "(u8 list \<Rightarrow> u32) \<Rightarrow> nat \<Rightarrow> u8 list list \<Rightarrow> u8 list" where
  "segment_bytes crc off [] = []"
| "segment_bytes crc off (p # ps) = encode_record crc off p @ segment_bytes crc (off + wal_header_size + length p) ps"

lemma length_encode_record [simp]: "length (encode_record crc off p) = wal_header_size + length p"
  by (simp add: encode_record_def Let_def wal_sizes)

lemma segment_bytes_append:
  "segment_bytes crc off (ps @ qs) = segment_bytes crc off ps @ segment_bytes crc (off + length (segment_bytes crc off ps)) qs"
  by (induction ps arbitrary: off) (auto simp: add.assoc)

lemma payload_length: "payload_ok p \<Longrightarrow> unat (of_nat (length p) :: u32) = length p"
  by (simp add: payload_ok_def wal_sizes unat_of_nat)

lemma payload_length_pos: "payload_ok p \<Longrightarrow> (of_nat (length p) :: u32) \<noteq> 0"
  using payload_length [of p] by (auto simp: payload_ok_def)

text \<open>How a record is laid out, read back field by field.\<close>

lemma record_fields:
  assumes "payload_ok p" and "raw = pre @ encode_record crc off p @ rest" and "length pre = pos"
  shows "(from_le (take 4 (drop pos raw)) :: u32) = of_nat (length p)"
    and "(from_le (take 4 (drop (pos + 4) raw)) :: u32) = record_crc crc off (of_nat (length p)) p"
    and "take (length p) (drop (pos + wal_header_size) raw) = p"
    and "pos + wal_header_size + length p \<le> length raw"
  using assms by (simp_all add: encode_record_def Let_def write_u32_def wal_sizes)

lemma read_record_at_encoded:
  assumes "payload_ok p" and "raw = pre @ encode_record crc pos p @ rest" and "length pre = pos"
  shows "read_record_at crc raw pos = Some (pos + wal_header_size + length p)"
  using record_fields [OF assms] payload_length [OF assms(1)] payload_length_pos [OF assms(1)] assms(1)
  by (simp add: read_record_at_def Let_def payload_ok_def)

lemma parse_records_encoded:
  assumes "payload_ok p" and "raw = pre @ encode_record crc pos p @ rest" and "length pre = pos"
  shows "parse_records_from crc raw pos =
    and_then (parse_records_from crc raw (pos + wal_header_size + length p)) (\<lambda>out. Inr (p # out))"
proof -
  have "pos < length raw" using record_fields(4) [OF assms] by (simp add: wal_sizes)
  then show ?thesis
    using record_fields [OF assms] payload_length [OF assms(1)] payload_length_pos [OF assms(1)] assms(1)
    by (subst parse_records_from.simps) (simp add: Let_def payload_ok_def)
qed

lemma write_from_le: "length bs = 4 \<Longrightarrow> write_u32 (from_le bs) = bs"
  using to_from_le [of bs, where 'a = 32] by (simp add: write_u32_def)

lemma read_record_atD:
  assumes "read_record_at crc raw pos = Some next"
  obtains p rest where "payload_ok p" and "raw = take pos raw @ encode_record crc pos p @ rest"
    and "next = pos + wal_header_size + length p" and "pos \<le> length raw"
proof -
  define len :: u32 where "len = from_le (take 4 (drop pos raw))"
  define p where "p = take (unat len) (drop (pos + wal_header_size) raw)"
  have h: "pos + wal_header_size + unat len \<le> length raw" "len \<noteq> 0" "unat len \<le> wal_max_entry_size"
    "from_le (take 4 (drop (pos + 4) raw)) = record_crc crc pos len p" "next = pos + wal_header_size + unat len"
    using assms unfolding read_record_at_def Let_def len_def p_def by (auto split: if_splits)
  then have lp: "length p = unat len" by (simp add: p_def)
  have ok: "payload_ok p" using h lp by (auto simp: payload_ok_def unat_eq_zero)
  have b1: "write_u32 len = take 4 (drop pos raw)"
    unfolding len_def using h(1) by (intro write_from_le) (simp add: wal_sizes)
  have b2: "write_u32 (record_crc crc pos len p) = take 4 (drop (pos + 4) raw)"
    unfolding h(4) [symmetric] using h(1) by (intro write_from_le) (simp add: wal_sizes)
  have lw: "of_nat (length p) = len" by (simp add: lp)
  have "take 4 (drop pos raw) @ take 4 (drop (pos + 4) raw) = take 8 (drop pos raw)"
    using take_add [of 4 4 "drop pos raw"] by (simp add: add.commute)
  moreover have "take 8 (drop pos raw) @ p = take (8 + unat len) (drop pos raw)"
    unfolding p_def using take_add [of 8 "unat len" "drop pos raw"] by (simp add: wal_sizes add.commute)
  ultimately have enc: "encode_record crc pos p = take (8 + unat len) (drop pos raw)"
    by (simp add: encode_record_def Let_def lw b1 b2 flip: append_assoc)
  have "raw = take pos raw @ encode_record crc pos p @ drop (pos + (8 + unat len)) raw"
    unfolding enc by (metis add.commute append_take_drop_id drop_drop)
  with ok h(1, 5) lp show thesis by (intro that) (auto simp: wal_sizes)
qed

section \<open>Scanning\<close>

lemma scan_records_stop: "read_record_at crc raw pos = None \<Longrightarrow> scan_records crc raw pos = pos"
  by (subst scan_records.simps) simp

lemma scan_records_next:
  assumes "read_record_at crc raw pos = Some next"
  shows "scan_records crc raw pos = scan_records crc raw next"
proof -
  obtain p rest where "payload_ok p" "raw = take pos raw @ encode_record crc pos p @ rest" "pos \<le> length raw"
    using assms by (rule read_record_atD)
  then have "pos + wal_min_record_size \<le> length raw"
    using record_fields(4) [of p raw "take pos raw" crc pos rest pos] by (cases p) (auto simp: payload_ok_def wal_sizes)
  with assms show ?thesis by (subst scan_records.simps) simp
qed

lemma scan_records_decodes:
  assumes "pos \<le> length raw"
  obtains ps t where "\<forall>p \<in> set ps. payload_ok p" and "raw = take pos raw @ segment_bytes crc pos ps @ t"
    and "scan_records crc raw pos = pos + length (segment_bytes crc pos ps)"
  using assms
proof (induction crc raw pos arbitrary: thesis rule: scan_records.induct)
  case (1 crc raw pos)
  show ?case
  proof (cases "read_record_at crc raw pos")
    case None
    show ?thesis by (rule "1.prems"(1) [of "[]" "drop pos raw"]) (simp_all add: scan_records_stop [OF None])
  next
    case (Some nxt)
    obtain p rest where p: "payload_ok p" "raw = take pos raw @ encode_record crc pos p @ rest"
      "nxt = pos + wal_header_size + length p" using Some by (rule read_record_atD)
    have nx: "nxt \<le> length raw" using read_record_at_bounds [OF Some] by simp
    have guard: "pos + wal_min_record_size \<le> length raw"
      using nx p(1, 3) by (cases p) (auto simp: payload_ok_def wal_sizes)
    obtain ps t where ps: "\<forall>p \<in> set ps. payload_ok p" "raw = take nxt raw @ segment_bytes crc nxt ps @ t"
      "scan_records crc raw nxt = nxt + length (segment_bytes crc nxt ps)"
      by (rule "1.IH" [OF guard Some _ nx])
    have "take nxt raw = take pos raw @ encode_record crc pos p"
      using "1.prems"(2) p(3) by (subst p(2)) simp
    then have "raw = take pos raw @ segment_bytes crc pos (p # ps) @ t"
      using ps(2) p(3) by (metis append.assoc segment_bytes.simps(2))
    with p(1, 3) ps(1, 3) scan_records_next [OF Some] show ?thesis by (intro "1.prems"(1) [of "p # ps" t]) auto
  qed
qed

lemma scan_records_skip:
  assumes "\<forall>p \<in> set ps. payload_ok p" and "raw = pre @ segment_bytes crc pos ps @ t" and "length pre = pos"
  shows "scan_records crc raw pos = scan_records crc raw (pos + length (segment_bytes crc pos ps))"
  using assms
proof (induction ps arbitrary: pre pos)
  case (Cons p ps)
  let ?next = "pos + wal_header_size + length p"
  have r: "read_record_at crc raw pos = Some ?next"
    using Cons.prems by (intro read_record_at_encoded [of _ _ pre]) auto
  have "scan_records crc raw ?next = scan_records crc raw (?next + length (segment_bytes crc ?next ps))"
    using Cons.prems by (intro Cons.IH [of "pre @ encode_record crc pos p"]) auto
  then show ?case by (simp add: scan_records_next [OF r] add.assoc)
qed simp

lemma parse_records_bytes:
  assumes "\<forall>p \<in> set ps. payload_ok p" and "raw = pre @ segment_bytes crc pos ps @ t" and "length pre = pos"
  shows "parse_records_from crc raw pos =
    and_then (parse_records_from crc raw (pos + length (segment_bytes crc pos ps))) (\<lambda>out. Inr (ps @ out))"
  using assms
proof (induction ps arbitrary: pre pos)
  case Nil
  then show ?case by (cases "parse_records_from crc raw pos") auto
next
  case (Cons p ps)
  let ?next = "pos + wal_header_size + length p"
  have r: "parse_records_from crc raw pos = and_then (parse_records_from crc raw ?next) (\<lambda>out. Inr (p # out))"
    using Cons.prems by (intro parse_records_encoded [of _ _ pre]) auto
  have "parse_records_from crc raw ?next =
    and_then (parse_records_from crc raw (?next + length (segment_bytes crc ?next ps))) (\<lambda>out. Inr (ps @ out))"
    using Cons.prems by (intro Cons.IH [of "pre @ encode_record crc pos p"]) auto
  then show ?case by (simp add: r and_then_assoc add.assoc)
qed

lemma parse_segment_bytes: "\<forall>p \<in> set ps. payload_ok p \<Longrightarrow> parse_records crc (segment_bytes crc 0 ps) = Inr ps"
  unfolding parse_records_def
  by (subst parse_records_bytes [of ps _ "[]" crc 0 "[]"]) (auto simp: parse_records_from.simps)

text \<open>A record cut off inside its header or its payload is not read, whatever its checksum.\<close>

lemma read_record_at_torn:
  assumes "payload_ok p" and "raw = pre @ take n (encode_record crc off p)" and "length pre = pos"
    and "n < length (encode_record crc off p)"
  shows "read_record_at crc raw pos = None"
proof (cases "n < wal_header_size")
  case True
  with assms(2-4) show ?thesis by (simp add: read_record_at_def)
next
  case False
  have "take 4 (drop pos raw) = write_u32 (of_nat (length p))"
    using False assms(2, 3) by (simp add: encode_record_def Let_def wal_sizes)
  then have "(from_le (take 4 (drop pos raw)) :: u32) = of_nat (length p)" by (simp add: write_u32_def)
  then show ?thesis using assms(2-4) payload_length [OF assms(1)] by (simp add: read_record_at_def Let_def)
qed

lemma parse_records_torn:
  assumes "payload_ok p" and "raw = pre @ take n (encode_record crc off p)" and "length pre = pos"
    and "0 < n" and "n < length (encode_record crc off p)"
  shows "parse_records_from crc raw pos = Inl (InvalidData ''truncated replay'')"
proof -
  have lt: "pos < length raw" using assms by simp
  show ?thesis
  proof (cases "n < wal_header_size")
    case True
    with assms(2-5) lt show ?thesis by (subst parse_records_from.simps) simp
  next
    case False
    have "take 4 (drop pos raw) = write_u32 (of_nat (length p))"
      using False assms(2, 3) by (simp add: encode_record_def Let_def wal_sizes)
    then have "(from_le (take 4 (drop pos raw)) :: u32) = of_nat (length p)" by (simp add: write_u32_def)
    then show ?thesis
      using assms(2-5) lt payload_length [OF assms(1)] by (subst parse_records_from.simps) (simp add: Let_def)
  qed
qed

lemma probe_records_none:
  "probe_records crc raw probe = None \<longleftrightarrow> (\<forall>q \<ge> probe. read_record_at crc raw q = None)"
proof (induction crc raw probe rule: probe_records.induct)
  case (1 crc raw probe)
  have past: "read_record_at crc raw q = None" if "\<not> q + wal_min_record_size \<le> length raw" for q
  proof (rule ccontr)
    assume "read_record_at crc raw q \<noteq> None"
    then obtain stop where r: "read_record_at crc raw q = Some stop" by blast
    then obtain p where "payload_ok p" "stop = q + wal_header_size + length p" by (rule read_record_atD)
    with that read_record_at_bounds [OF r] show False by (cases p) (auto simp: payload_ok_def wal_sizes)
  qed
  show ?case
  proof (cases "probe + wal_min_record_size \<le> length raw")
    case True
    have "(\<forall>q \<ge> probe. read_record_at crc raw q = None) \<longleftrightarrow>
      read_record_at crc raw probe = None \<and> (\<forall>q \<ge> probe + 1. read_record_at crc raw q = None)"
      by (metis Suc_eq_plus1 Suc_leD le_refl not_less_eq_eq le_antisym)
    with True "1.IH" show ?thesis by (subst probe_records.simps) auto
  next
    case False
    then show ?thesis using past by (subst probe_records.simps) auto
  qed
qed

section \<open>The folder\<close>

lemma parse_digits_zeros: "parse_digits 0 (replicate k (CHR ''0'') @ s) = parse_digits 0 s"
  by (induction k) (simp_all add: digit_value_def)

lemma parse_u64_padded: "n < 2 ^ 64 \<Longrightarrow> parse_u64 (replicate k (CHR ''0'') @ show_nat n) = Some (of_nat n)"
proof -
  assume n: "n < 2 ^ 64"
  let ?s = "replicate k (CHR ''0'') @ show_nat n"
  obtain v where v: "v < 10" "hd (show_nat n) = digit v"
    using show_nat_digits hd_in_set [OF show_nat_ne] by blast
  then have "hd ?s \<noteq> CHR ''+'' \<and> hd ?s \<noteq> CHR ''-''" using digit_not [OF v(1)] by (cases k) auto
  then show ?thesis
    using parse_show_nat [OF n] show_nat_ne [of n] by (auto simp: parse_u64_def parse_digits_zeros split: if_splits)
qed

lemma segment_path_split: "segment_path n = (replicate (20 - length (show_nat (unat n))) (CHR ''0'') @ show_nat (unat n)) @ CHR ''.'' # ''wal''"
  by (simp add: segment_path_def Let_def)

lemma segment_number_path [simp]: "segment_number (segment_path n) = Some n"
proof -
  let ?stem = "replicate (20 - length (show_nat (unat n))) (CHR ''0'') @ show_nat (unat n)"
  have ne: "?stem \<noteq> []" by (simp add: show_nat_ne)
  have stem: "file_stem (segment_path n) = ?stem"
    unfolding segment_path_split using ne by (intro file_stem_ext) auto
  have "file_extension (segment_path n) = Some ''wal''"
    unfolding segment_path_split file_extension_def using ne by simp
  moreover have "parse_u64 ?stem = Some n" using unat_u64_lt [of n] by (subst parse_u64_padded) auto
  ultimately show ?thesis by (simp add: segment_number_def stem)
qed

interpretation wf: numbered_files segment_path segment_number
  by unfold_locales simp

lemmas segment_path_inj [simp] = wf.path_inj

lemma list_segments_numbers: "list_segments = numbers_in segment_number"
  by (rule ext) (simp add: list_segments_def numbers_in_def)

lemma list_segments_sorted [simp]: "sorted (list_segments d)"
  by (simp add: list_segments_numbers)

lemma list_segments_has: "omap_get d (segment_path n) = Some fl \<Longrightarrow> n \<in> set (list_segments d)"
  unfolding list_segments_numbers by (rule wf.numbers_has)

lemma list_segments_same: "omap_ok d \<Longrightarrow> omap_get d k \<noteq> None \<Longrightarrow> list_segments (omap_insert k fl d) = list_segments d"
  unfolding list_segments_numbers by (rule numbers_same)

lemma list_segments_new:
  "omap_ok d \<Longrightarrow> omap_get d (segment_path n) = None \<Longrightarrow> \<forall>i \<in> set (list_segments d). i < n \<Longrightarrow>
    list_segments (omap_insert (segment_path n) fl d) = list_segments d @ [n]"
  unfolding list_segments_numbers by (rule wf.numbers_new)

lemma list_segments_remove:
  "omap_ok d \<Longrightarrow> omap_get d (segment_path n) = Some fl \<Longrightarrow> list_segments d = xs @ n # ys \<Longrightarrow>
    list_segments (omap_remove (segment_path n) d) = xs @ ys"
  unfolding list_segments_numbers by (rule wf.numbers_remove)

end
