(* ===== verification/Wal_Log.thy ===== *)
theory Wal_Log
  imports Wal
begin

text \<open>
  What the write-ahead log promises: the abstract log, the invariant that ties the folder to it, and the
  proof that every operation, failing calls included, refines it.
\<close>

section \<open>The abstract log\<close>

text \<open>The closed segments with their records, the segment appended to, its records, how many of them
  are durable, and whether a failed rotation left an empty successor behind.\<close>

record wal_log =
  lg_closed :: "(u64 \<times> u8 list list) list"
  lg_number :: u64
  lg_records :: "u8 list list"
  lg_durable :: nat
  lg_orphan :: bool

definition lg_numbers :: "wal_log \<Rightarrow> u64 list" where
  "lg_numbers lg = map fst (lg_closed lg) @ lg_number lg # (if lg_orphan lg then [lg_number lg + 1] else [])"

definition lg_replay :: "wal_log \<Rightarrow> u8 list list" where
  "lg_replay lg = concat (map snd (lg_closed lg)) @ lg_records lg"

datatype wal_op = Append "u8 list" | Rotate | RemoveThrough u64 | Reset

definition forget :: "'a result \<Rightarrow> unit result" where
  "forget r = (case r of Inl e \<Rightarrow> Inl e | Inr _ \<Rightarrow> Inr ())"

primrec wal_exec :: "(u8 list \<Rightarrow> u32) \<Rightarrow> faults \<Rightarrow> wal_op \<Rightarrow> wal_state \<Rightarrow> wal_state \<times> unit result" where
  "wal_exec crc f (Append p) s = (let (s', r) = wal_append crc f p s in (s', forget r))"
| "wal_exec crc f Rotate s = (let (s', r) = wal_rotate f s in (s', forget r))"
| "wal_exec crc f (RemoveThrough n) s = wal_remove_through f n s"
| "wal_exec crc f Reset s = wal_reset f s"

text \<open>What an operation may do to the log, when it succeeds and when it fails.\<close>

primrec log_done :: "sync_mode \<Rightarrow> wal_op \<Rightarrow> wal_log \<Rightarrow> wal_log" where
  "log_done mode (Append p) lg =
     lg\<lparr>lg_records := lg_records lg @ [p],
        lg_durable := (if mode = SyncEach then Suc (length (lg_records lg)) else lg_durable lg)\<rparr>"
| "log_done mode Rotate lg =
     \<lparr>lg_closed = lg_closed lg @ [(lg_number lg, lg_records lg)], lg_number = lg_number lg + 1, lg_records = [],
      lg_durable = 0, lg_orphan = False\<rparr>"
| "log_done mode (RemoveThrough n) lg =
     lg\<lparr>lg_closed := filter (\<lambda>(i, _). n < i) (lg_closed lg), lg_orphan := (lg_orphan lg \<and> n < lg_number lg + 1)\<rparr>"
| "log_done mode Reset lg =
     lg\<lparr>lg_closed := [], lg_records := [], lg_durable := 0, lg_orphan := False\<rparr>"

primrec log_failed :: "wal_op \<Rightarrow> wal_log \<Rightarrow> wal_log \<Rightarrow> bool" where
  "log_failed (Append p) lg lg' \<longleftrightarrow> lg' = lg \<or> lg' = lg\<lparr>lg_records := lg_records lg @ [p]\<rparr>"
| "log_failed Rotate lg lg' \<longleftrightarrow>
     lg' = lg \<or> (\<exists>orphan. lg' = lg\<lparr>lg_durable := length (lg_records lg), lg_orphan := orphan\<rparr>)"
| "log_failed (RemoveThrough n) lg lg' \<longleftrightarrow>
     (\<exists>k orphan. lg' = lg\<lparr>lg_closed := drop k (lg_closed lg), lg_orphan := orphan\<rparr> \<and>
       (\<forall>i \<in> set (map fst (take k (lg_closed lg))). i \<le> n))"
| "log_failed Reset lg lg' \<longleftrightarrow>
     (\<exists>k orphan. lg' = lg\<lparr>lg_closed := drop k (lg_closed lg), lg_orphan := orphan\<rparr>) \<or>
     lg' = lg\<lparr>lg_closed := [], lg_records := [], lg_durable := 0, lg_orphan := False\<rparr>"

definition log_step :: "sync_mode \<Rightarrow> wal_op \<Rightarrow> unit result \<Rightarrow> wal_log \<Rightarrow> wal_log \<Rightarrow> bool" where
  "log_step mode op r lg lg' \<longleftrightarrow> (case r of Inr _ \<Rightarrow> lg' = log_done mode op lg | Inl _ \<Rightarrow> log_failed op lg lg')"

section \<open>The invariant\<close>

definition holds_closed :: "(u8 list \<Rightarrow> u32) \<Rightarrow> wal_dir \<Rightarrow> u64 \<Rightarrow> u8 list list \<Rightarrow> bool" where
  "holds_closed crc d n ps \<longleftrightarrow>
     (\<exists>fl. omap_get d (segment_path n) = Some fl \<and> wf_bytes fl = segment_bytes crc 0 ps \<and> wf_synced fl = length (wf_bytes fl))"

definition holds_open :: "(u8 list \<Rightarrow> u32) \<Rightarrow> wal_state \<Rightarrow> u8 list list \<Rightarrow> nat \<Rightarrow> bool" where
  "holds_open crc = (\<lambda>(w, d) ps k. k \<le> length ps \<and>
     (\<exists>fl junk. omap_get d (segment_path (wal_segment w)) = Some fl \<and> wf_bytes fl = segment_bytes crc 0 ps @ junk \<and>
       wal_written w = length (segment_bytes crc 0 ps) \<and> wal_durable w = length (segment_bytes crc 0 (take k ps)) \<and>
       wal_durable w \<le> wf_synced fl \<and> wf_synced fl \<le> length (wf_bytes fl)))"

definition wal_inv :: "(u8 list \<Rightarrow> u32) \<Rightarrow> wal_state \<Rightarrow> wal_log \<Rightarrow> bool" where
  "wal_inv crc = (\<lambda>(w, d) lg.
     omap_ok d \<and> ascending (lg_numbers lg) \<and> list_segments d = lg_numbers lg \<and> wal_segment w = lg_number lg \<and>
     (\<forall>(n, ps) \<in> set (lg_closed lg). (\<forall>p \<in> set ps. payload_ok p) \<and> holds_closed crc d n ps) \<and>
     (\<forall>p \<in> set (lg_records lg). payload_ok p) \<and>
     holds_open crc (w, d) (lg_records lg) (lg_durable lg) \<and>
     (lg_orphan lg \<longrightarrow> holds_closed crc d (lg_number lg + 1) []))"

lemma wal_invI:
  assumes "omap_ok d" and "ascending (lg_numbers lg)" and "list_segments d = lg_numbers lg" and "wal_segment w = lg_number lg"
    and "\<And>n ps. (n, ps) \<in> set (lg_closed lg) \<Longrightarrow> (\<forall>p \<in> set ps. payload_ok p) \<and> holds_closed crc d n ps"
    and "\<forall>p \<in> set (lg_records lg). payload_ok p" and "holds_open crc (w, d) (lg_records lg) (lg_durable lg)"
    and "lg_orphan lg \<Longrightarrow> holds_closed crc d (lg_number lg + 1) []"
  shows "wal_inv crc (w, d) lg"
  using assms by (auto simp: wal_inv_def)

lemma wal_invD:
  assumes "wal_inv crc (w, d) lg"
  shows "omap_ok d" and "ascending (lg_numbers lg)" and "list_segments d = lg_numbers lg" and "wal_segment w = lg_number lg"
    and "(n, ps) \<in> set (lg_closed lg) \<Longrightarrow> \<forall>p \<in> set ps. payload_ok p"
    and "(n, ps) \<in> set (lg_closed lg) \<Longrightarrow> holds_closed crc d n ps"
    and "\<forall>p \<in> set (lg_records lg). payload_ok p" and "holds_open crc (w, d) (lg_records lg) (lg_durable lg)"
    and "lg_orphan lg \<Longrightarrow> holds_closed crc d (lg_number lg + 1) []"
  using assms by (auto simp: wal_inv_def)

lemma lg_numbers_lt:
  assumes "ascending (lg_numbers lg)"
  shows "n \<in> fst ` set (lg_closed lg) \<Longrightarrow> n < lg_number lg" and "lg_orphan lg \<Longrightarrow> lg_number lg < lg_number lg + 1"
    and "distinct (map fst (lg_closed lg))" and "ascending (map fst (lg_closed lg))"
  using assms ascending_distinct [of "map fst (lg_closed lg)"] by (auto simp: lg_numbers_def sorted_wrt_append)

lemma lg_numbers_update [simp]: "lg_numbers (lg\<lparr>lg_records := ps, lg_durable := k\<rparr>) = lg_numbers lg"
  by (simp add: lg_numbers_def)

lemma holds_closed_insert:
  "omap_ok d \<Longrightarrow> holds_closed crc d n ps \<Longrightarrow> m \<noteq> n \<Longrightarrow> holds_closed crc (omap_insert (segment_path m) fl d) n ps"
  by (auto simp: holds_closed_def omap_get_insert)

lemma holds_closed_remove:
  "omap_ok d \<Longrightarrow> holds_closed crc d n ps \<Longrightarrow> m \<noteq> n \<Longrightarrow> holds_closed crc (omap_remove (segment_path m) d) n ps"
  by (auto simp: holds_closed_def omap_get_remove)

text \<open>Replacing the file of the newest segment leaves the rest of the folder as it was.\<close>

lemma wal_inv_current:
  assumes inv: "wal_inv crc (w, d) lg" and "wal_segment w' = wal_segment w"
    and "\<forall>p \<in> set ps. payload_ok p" and "holds_open crc (w', omap_insert (segment_path (wal_segment w)) fl d) ps k"
  shows "wal_inv crc (w', omap_insert (segment_path (wal_segment w)) fl d) (lg\<lparr>lg_records := ps, lg_durable := k\<rparr>)"
proof (rule wal_invI)
  note I = wal_invD [OF inv]
  note lt = lg_numbers_lt [OF I(2)]
  show "omap_ok (omap_insert (segment_path (wal_segment w)) fl d)" using I(1) by (rule omap_ok_insert)
  show "ascending (lg_numbers (lg\<lparr>lg_records := ps, lg_durable := k\<rparr>))" using I(2) by simp
  obtain fl0 where "omap_get d (segment_path (wal_segment w)) = Some fl0" using I(8) by (auto simp: holds_open_def)
  then show "list_segments (omap_insert (segment_path (wal_segment w)) fl d) = lg_numbers (lg\<lparr>lg_records := ps, lg_durable := k\<rparr>)"
    using I(1, 3) by (simp add: list_segments_same)
  show "wal_segment w' = lg_number (lg\<lparr>lg_records := ps, lg_durable := k\<rparr>)" using assms(2) I(4) by simp
  show "(\<forall>p \<in> set qs. payload_ok p) \<and> holds_closed crc (omap_insert (segment_path (wal_segment w)) fl d) n qs"
    if "(n, qs) \<in> set (lg_closed (lg\<lparr>lg_records := ps, lg_durable := k\<rparr>))" for n qs
  proof -
    from that have m: "(n, qs) \<in> set (lg_closed lg)" by simp
    then have "n < lg_number lg" using lt(1) [of n] by force
    with I(1, 4) I(5) [OF m] I(6) [OF m] show ?thesis by (auto intro: holds_closed_insert)
  qed
  show "holds_closed crc (omap_insert (segment_path (wal_segment w)) fl d) (lg_number (lg\<lparr>lg_records := ps, lg_durable := k\<rparr>) + 1) []"
    if "lg_orphan (lg\<lparr>lg_records := ps, lg_durable := k\<rparr>)"
    using that I(1, 4) I(9) lt(2) by (intro holds_closed_insert) auto
qed (use assms(3, 4) in simp_all)

lemma wal_inv_poison: "wal_inv crc (w\<lparr>wal_poisoned := b\<rparr>, d) lg \<longleftrightarrow> wal_inv crc (w, d) lg"
  by (simp add: wal_inv_def holds_open_def)


section \<open>Writing and syncing the newest segment\<close>

lemma segment_bytes_take: "length (segment_bytes crc off (take k ps)) \<le> length (segment_bytes crc off ps)"
  by (metis append_take_drop_id le_add1 length_append segment_bytes_append)

lemma segment_bytes_snoc:
  "segment_bytes crc 0 (ps @ [p]) = segment_bytes crc 0 ps @ encode_record crc (length (segment_bytes crc 0 ps)) p"
  by (simp add: segment_bytes_append)

lemma holds_open_current:
  assumes "holds_open crc (w, d) ps k"
  obtains junk where "omap_get d (segment_path (wal_segment w)) = Some (wal_current (w, d))"
    and "wf_bytes (wal_current (w, d)) = segment_bytes crc 0 ps @ junk"
    and "wal_written w = length (segment_bytes crc 0 ps)" and "wal_durable w = length (segment_bytes crc 0 (take k ps))"
    and "wal_durable w \<le> wf_synced (wal_current (w, d))" and "k \<le> length ps" and "wal_durable w \<le> wal_written w"
    and "wf_synced (wal_current (w, d)) \<le> length (wf_bytes (wal_current (w, d)))"
  using assms segment_bytes_take [of crc 0 k ps] by (auto simp: holds_open_def wal_current_def)

lemma holds_open_junk:
  assumes "omap_ok d" and "holds_open crc (w, d) ps k"
  shows "holds_open crc (put_current (write_at (wal_written w) data (wal_current (w, d))) (w, d)) ps k"
proof -
  from assms(2) obtain junk where h: "wf_bytes (wal_current (w, d)) = segment_bytes crc 0 ps @ junk"
    "wal_written w = length (segment_bytes crc 0 ps)" "wal_durable w = length (segment_bytes crc 0 (take k ps))"
    "wal_durable w \<le> wf_synced (wal_current (w, d))" "k \<le> length ps" "wal_durable w \<le> wal_written w"
    by (rule holds_open_current)
  then show ?thesis
    using assms(1) by (auto simp: holds_open_def put_current_def omap_get_insert write_at_def)
qed

lemma holds_open_append:
  assumes "omap_ok d" and "holds_open crc (w, d) ps k"
  shows "holds_open crc (w\<lparr>wal_written := wal_written w + length (encode_record crc (wal_written w) p)\<rparr>,
    snd (put_current (write_at (wal_written w) (encode_record crc (wal_written w) p) (wal_current (w, d))) (w, d))) (ps @ [p]) k"
proof -
  from assms(2) obtain junk where h: "wf_bytes (wal_current (w, d)) = segment_bytes crc 0 ps @ junk"
    "wal_written w = length (segment_bytes crc 0 ps)" "wal_durable w = length (segment_bytes crc 0 (take k ps))"
    "wal_durable w \<le> wf_synced (wal_current (w, d))" "k \<le> length ps" "wal_durable w \<le> wal_written w"
    by (rule holds_open_current)
  then show ?thesis
    using assms(1) by (auto simp: holds_open_def put_current_def omap_get_insert write_at_def segment_bytes_snoc)
qed

lemma holds_open_sync:
  assumes "omap_ok d" and "holds_open crc (w, d) ps k"
  shows "holds_open crc (w\<lparr>wal_durable := wal_written w\<rparr>, snd (put_current (sync_file (wal_current (w, d))) (w, d))) ps (length ps)"
proof -
  from assms(2) obtain junk where h: "wf_bytes (wal_current (w, d)) = segment_bytes crc 0 ps @ junk"
    "wal_written w = length (segment_bytes crc 0 ps)"
    by (rule holds_open_current)
  then show ?thesis using assms(1) by (auto simp: holds_open_def put_current_def omap_get_insert sync_file_def)
qed

lemma put_current_pair: "put_current fl (w, d) = (w, omap_insert (segment_path (wal_segment w)) fl d)"
  by (simp add: put_current_def)

lemma sync_or_poison_cases:
  assumes inv: "wal_inv crc (w, d) lg" and "sync_or_poison f (w, d) = (s', r)"
  shows "(\<exists>e. r = Inl e \<and> s' = (w\<lparr>wal_poisoned := True\<rparr>, d) \<and> wal_inv crc s' lg) \<or>
    (r = Inr () \<and> s' = (w\<lparr>wal_durable := wal_written w\<rparr>, omap_insert (segment_path (wal_segment w)) (sync_file (wal_current (w, d))) d)
      \<and> wal_inv crc s' (lg\<lparr>lg_durable := length (lg_records lg)\<rparr>))"
proof (cases "f SyncFile")
  case None
  note I = wal_invD [OF inv]
  have "wal_inv crc (w\<lparr>wal_durable := wal_written w\<rparr>, omap_insert (segment_path (wal_segment w)) (sync_file (wal_current (w, d))) d)
    (lg\<lparr>lg_records := lg_records lg, lg_durable := length (lg_records lg)\<rparr>)"
    using holds_open_sync [OF I(1) I(8)] I(7) by (intro wal_inv_current [OF inv]) (simp_all add: put_current_pair)
  with None assms(2) show ?thesis by (auto simp: sync_or_poison_def put_current_pair)
next
  case (Some e)
  with assms show ?thesis by (cases e) (auto simp: sync_or_poison_def wal_inv_poison)
qed

section \<open>Every operation refines the log\<close>

lemma wal_append_step:
  assumes inv: "wal_inv crc (w, d) lg" and ap: "wal_append crc f p (w, d) = (s', r)"
  shows "\<exists>lg'. log_step (wal_mode w) (Append p) (forget r) lg lg' \<and> wal_inv crc s' lg'"
proof -
  note I = wal_invD [OF inv]
  have same: ?thesis if "s' = (w, d)" "r = Inl e" for e
    using that inv by (auto simp: log_step_def forget_def intro: exI [of _ lg])
  consider "\<not> payload_ok p \<or> wal_poisoned w" | (torn) n e where "payload_ok p" "\<not> wal_poisoned w" "f WriteFile = Some (n, e)"
    | (written) "payload_ok p" "\<not> wal_poisoned w" "f WriteFile = None" by (metis option.exhaust prod.exhaust)
  then show ?thesis
  proof cases
    case 1
    then show ?thesis using ap same by (auto simp: wal_append_def payload_ok_def split: if_splits)
  next
    case torn
    let ?data = "take n (encode_record crc (wal_written w) p)"
    have "wal_inv crc (put_current (write_at (wal_written w) ?data (wal_current (w, d))) (w, d))
      (lg\<lparr>lg_records := lg_records lg, lg_durable := lg_durable lg\<rparr>)"
      using holds_open_junk [OF I(1) I(8)] I(7) unfolding put_current_pair by (intro wal_inv_current [OF inv]) simp_all
    moreover have "s' = put_current (write_at (wal_written w) ?data (wal_current (w, d))) (w, d)" "r = Inl e"
      using ap torn by (auto simp: wal_append_def payload_ok_def Let_def)
    ultimately show ?thesis by (auto simp: log_step_def forget_def intro: exI [of _ lg])
  next
    case written
    let ?rec = "encode_record crc (wal_written w) p"
    let ?w = "w\<lparr>wal_written := wal_written w + length ?rec\<rparr>"
    let ?d = "omap_insert (segment_path (wal_segment w)) (write_at (wal_written w) ?rec (wal_current (w, d))) d"
    let ?lg = "lg\<lparr>lg_records := lg_records lg @ [p], lg_durable := lg_durable lg\<rparr>"
    have inv1: "wal_inv crc (?w, ?d) ?lg"
      using holds_open_append [OF I(1) I(8), of p] I(7) written(1)
      unfolding put_current_pair by (intro wal_inv_current [OF inv]) auto
    show ?thesis
    proof (cases "wal_mode w = SyncEach")
      case False
      then have "s' = (?w, ?d)" "r = Inr (wal_written w)"
        using ap written by (auto simp: wal_append_def payload_ok_def Let_def put_current_pair)
      with inv1 False show ?thesis by (auto simp: log_step_def forget_def intro: exI [of _ ?lg])
    next
      case True
      obtain s2 r2 where sp: "sync_or_poison f (?w, ?d) = (s2, r2)" by fastforce
      with True have eq: "s' = s2" "r = (case r2 of Inl e \<Rightarrow> Inl e | Inr _ \<Rightarrow> Inr (wal_written w))"
        using ap written by (auto simp: wal_append_def payload_ok_def Let_def put_current_pair split: sum.splits)
      show ?thesis
        using sync_or_poison_cases [OF inv1 sp]
      proof
        assume "\<exists>e. r2 = Inl e \<and> s2 = (?w\<lparr>wal_poisoned := True\<rparr>, ?d) \<and> wal_inv crc s2 ?lg"
        then show ?thesis by (auto simp: eq log_step_def forget_def intro!: exI [of _ ?lg])
      next
        assume "r2 = Inr () \<and> s2 = (?w\<lparr>wal_durable := wal_written ?w\<rparr>, omap_insert (segment_path (wal_segment ?w)) (sync_file (wal_current (?w, ?d))) ?d)
          \<and> wal_inv crc s2 (?lg\<lparr>lg_durable := length (lg_records ?lg)\<rparr>)"
        then show ?thesis using True by (auto simp: eq log_step_def forget_def)
      qed
    qed
  qed
qed

definition wal_clean :: "wal_state \<Rightarrow> bool" where
  "wal_clean s \<longleftrightarrow> length (wf_bytes (wal_current s)) = wal_written (fst s)"

lemma wal_inv_create:
  assumes inv: "wal_inv crc (w, d) lg" and "\<not> lg_orphan lg" and up: "lg_number lg < lg_number lg + 1"
  shows "omap_get d (segment_path (lg_number lg + 1)) = None"
    and "wal_inv crc (w, omap_insert (segment_path (lg_number lg + 1)) file_new d) (lg\<lparr>lg_orphan := True\<rparr>)"
proof -
  note I = wal_invD [OF inv]
  let ?next = "lg_number lg + 1"
  let ?d = "omap_insert (segment_path ?next) file_new d"
  have old: "\<forall>i \<in> set (list_segments d). i < ?next"
    using assms(2) up lg_numbers_lt(1) [OF I(2)] by (auto simp: I(3) lg_numbers_def intro: order.strict_trans)
  then show none: "omap_get d (segment_path ?next) = None"
    using list_segments_has [of d ?next] by (cases "omap_get d (segment_path ?next)") auto
  show "wal_inv crc (w, ?d) (lg\<lparr>lg_orphan := True\<rparr>)"
  proof (rule wal_invI)
    show "omap_ok ?d" using I(1) by (rule omap_ok_insert)
    have nums: "lg_numbers (lg\<lparr>lg_orphan := True\<rparr>) = lg_numbers lg @ [?next]" using assms(2) by (simp add: lg_numbers_def)
    show "ascending (lg_numbers (lg\<lparr>lg_orphan := True\<rparr>))" using I(2, 3) old by (simp add: nums sorted_wrt_append)
    show "list_segments ?d = lg_numbers (lg\<lparr>lg_orphan := True\<rparr>)" using list_segments_new [OF I(1) none old] by (simp add: nums I(3))
    show "(\<forall>p \<in> set ps. payload_ok p) \<and> holds_closed crc ?d n ps" if "(n, ps) \<in> set (lg_closed (lg\<lparr>lg_orphan := True\<rparr>))" for n ps
    proof -
      from that have m: "(n, ps) \<in> set (lg_closed lg)" by simp
      then have "n \<noteq> ?next" using lg_numbers_lt(1) [OF I(2), of n] up by force
      with I(1) I(5) [OF m] I(6) [OF m] show ?thesis by (auto intro: holds_closed_insert)
    qed
    show "holds_open crc (w, ?d) (lg_records (lg\<lparr>lg_orphan := True\<rparr>)) (lg_durable (lg\<lparr>lg_orphan := True\<rparr>))"
      using I(1, 4, 8) up by (auto simp: holds_open_def omap_get_insert)
    show "holds_closed crc ?d (lg_number (lg\<lparr>lg_orphan := True\<rparr>) + 1) []"
      using I(1) by (simp add: holds_closed_def omap_get_insert file_new_def)
  qed (use I(4, 7) in simp_all)
qed

lemma wal_inv_advance:
  assumes inv: "wal_inv crc (w, d) lg" and "lg_orphan lg" and "holds_closed crc d (lg_number lg) (lg_records lg)"
  shows "wal_inv crc (w\<lparr>wal_segment := lg_number lg + 1, wal_durable := 0, wal_written := 0\<rparr>, d) (log_done mode Rotate lg)"
proof (rule wal_invI)
  note I = wal_invD [OF inv]
  show "omap_ok d" by (rule I(1))
  have nums: "lg_numbers (log_done mode Rotate lg) = lg_numbers lg" using assms(2) by (simp add: lg_numbers_def)
  show "ascending (lg_numbers (log_done mode Rotate lg))" "list_segments d = lg_numbers (log_done mode Rotate lg)"
    using I(2, 3) by (simp_all only: nums)
  show "(\<forall>p \<in> set ps. payload_ok p) \<and> holds_closed crc d n ps" if "(n, ps) \<in> set (lg_closed (log_done mode Rotate lg))" for n ps
    using that I(5, 6, 7) assms(3) by auto
  show "holds_open crc (w\<lparr>wal_segment := lg_number lg + 1, wal_durable := 0, wal_written := 0\<rparr>, d)
    (lg_records (log_done mode Rotate lg)) (lg_durable (log_done mode Rotate lg))"
    using I(9) assms(2) by (auto simp: holds_open_def holds_closed_def)
qed simp_all

lemma wal_rotate_step:
  assumes inv: "wal_inv crc (w, d) lg" and ro: "wal_rotate f (w, d) = (s', r)"
    and clean: "\<And>n. r = Inr n \<Longrightarrow> wal_clean (w, d)" and up: "lg_number lg < lg_number lg + 1"
  shows "\<exists>lg'. log_step (wal_mode w) Rotate (forget r) lg lg' \<and> wal_inv crc s' lg'"
proof (cases "wal_poisoned w")
  case True
  with inv ro show ?thesis by (auto simp: wal_rotate_def log_step_def forget_def intro: exI [of _ lg])
next
  case False
  obtain s1 r1 where sp: "sync_or_poison f (w, d) = (s1, r1)" by fastforce
  note I = wal_invD [OF inv]
  show ?thesis
    using sync_or_poison_cases [OF inv sp]
  proof
    assume "\<exists>e. r1 = Inl e \<and> s1 = (w\<lparr>wal_poisoned := True\<rparr>, d) \<and> wal_inv crc s1 lg"
    with False ro sp show ?thesis by (auto simp: wal_rotate_def log_step_def forget_def intro!: exI [of _ lg])
  next
    let ?w = "w\<lparr>wal_durable := wal_written w\<rparr>" and ?fl = "sync_file (wal_current (w, d))"
    let ?d = "omap_insert (segment_path (wal_segment w)) ?fl d"
    let ?lg = "lg\<lparr>lg_durable := length (lg_records lg)\<rparr>" and ?next = "lg_number lg + 1"
    let ?d2 = "omap_insert (segment_path ?next) file_new ?d"
    assume "r1 = Inr () \<and> s1 = (?w, ?d) \<and> wal_inv crc s1 ?lg"
    then have sync: "r1 = Inr ()" "s1 = (?w, ?d)" and inv1: "wal_inv crc (?w, ?d) ?lg" by auto
    have seg: "wal_segment w = lg_number lg" by (rule I(4))
    have failed: ?thesis if "s' = (?w, ?d)" "r = Inl e" for e
      using that inv1 by (auto simp: log_step_def forget_def intro!: exI [of _ ?lg] exI [of _ "lg_orphan lg"])
    show ?thesis
    proof (cases "f CreateFile = None \<and> omap_get ?d (segment_path ?next) = None")
      case False
      then show ?thesis
        using failed ro \<open>\<not> wal_poisoned w\<close> by (auto simp: wal_rotate_def sp sync seg Let_def split: option.splits)
    next
      case True
      have orphan: "\<not> lg_orphan ?lg"
        using wal_invD(9) [OF inv1] True by (auto simp: holds_closed_def)
      note made = wal_inv_create [OF inv1 orphan, simplified, OF up]
      have closed: "holds_closed crc ?d2 (lg_number lg) (lg_records lg)" if "wal_clean (w, d)"
      proof -
        from I(8) obtain junk where h: "wf_bytes (wal_current (w, d)) = segment_bytes crc 0 (lg_records lg) @ junk"
          "wal_written w = length (segment_bytes crc 0 (lg_records lg))" by (rule holds_open_current)
        with that have "junk = []" by (simp add: wal_clean_def)
        with h I(1) up show ?thesis
          by (auto simp: holds_closed_def omap_get_insert omap_ok_insert seg sync_file_def)
      qed
      show ?thesis
      proof (cases "f SyncNew = None \<and> f SyncDir = None")
        case False
        then obtain e where "s' = (?w, ?d2)" "r = Inl e"
          using ro True \<open>\<not> wal_poisoned w\<close> by (auto simp: wal_rotate_def sp sync seg Let_def split: option.splits)
        with made(2) show ?thesis by (auto simp: log_step_def forget_def intro!: exI [of _ "lg\<lparr>lg_durable := length (lg_records lg), lg_orphan := True\<rparr>"])
      next
        case ok: True
        then have "s' = (?w\<lparr>wal_segment := ?next, wal_durable := 0, wal_written := 0\<rparr>, ?d2)" "r = Inr (lg_number lg)"
          using ro True \<open>\<not> wal_poisoned w\<close> by (auto simp: wal_rotate_def sp sync seg Let_def)
        moreover then have "wal_inv crc (?w\<lparr>wal_segment := ?next, wal_durable := 0, wal_written := 0\<rparr>, ?d2)
          (log_done (wal_mode w) Rotate (?lg\<lparr>lg_orphan := True\<rparr>))"
          using wal_inv_advance [OF made(2)] closed [OF clean] by simp
        ultimately show ?thesis by (auto simp: log_step_def forget_def)
      qed
    qed
  qed
qed

lemma wal_inv_drop:
  assumes inv: "wal_inv crc (w, d) lg" and "lg_numbers lg = xs @ n # ys" and "n \<noteq> lg_number lg"
    and sub: "set (lg_closed lg') \<subseteq> set (lg_closed lg)" "n \<notin> fst ` set (lg_closed lg')"
    and nums: "lg_numbers lg' = xs @ ys"
    and same: "lg_number lg' = lg_number lg" "lg_records lg' = lg_records lg" "lg_durable lg' = lg_durable lg"
    and orphan: "lg_orphan lg' \<Longrightarrow> lg_orphan lg \<and> n \<noteq> lg_number lg + 1"
  shows "omap_get d (segment_path n) \<noteq> None" and "wal_inv crc (w, omap_remove (segment_path n) d) lg'"
proof -
  note I = wal_invD [OF inv]
  have "n \<in> set (lg_numbers lg)" using assms(2) by simp
  then consider ps where "(n, ps) \<in> set (lg_closed lg)" | "lg_orphan lg" "n = lg_number lg + 1"
    using assms(3) by (auto simp: lg_numbers_def split: if_splits)
  then have "\<exists>ps. holds_closed crc d n ps" using I(6, 9) by cases blast+
  then obtain fl where fl: "omap_get d (segment_path n) = Some fl" by (auto simp: holds_closed_def)
  then show "omap_get d (segment_path n) \<noteq> None" by simp
  show "wal_inv crc (w, omap_remove (segment_path n) d) lg'"
  proof (rule wal_invI)
    show "omap_ok (omap_remove (segment_path n) d)" using I(1) by (rule omap_ok_remove)
    show "ascending (lg_numbers lg')" using I(2) assms(2) nums by (simp add: sorted_wrt_append)
    show "list_segments (omap_remove (segment_path n) d) = lg_numbers lg'"
      using list_segments_remove [OF I(1) fl] I(3) assms(2) nums by simp
    show "(\<forall>p \<in> set ps. payload_ok p) \<and> holds_closed crc (omap_remove (segment_path n) d) i ps" if "(i, ps) \<in> set (lg_closed lg')" for i ps
    proof -
      from that sub(1) have m: "(i, ps) \<in> set (lg_closed lg)" by blast
      from that sub(2) have "n \<noteq> i" by force
      with I(1) I(5) [OF m] I(6) [OF m] show ?thesis by (auto intro: holds_closed_remove)
    qed
    show "holds_open crc (w, omap_remove (segment_path n) d) (lg_records lg') (lg_durable lg')"
      using I(1, 4, 8) assms(3) by (auto simp: same holds_open_def omap_get_remove)
    show "holds_closed crc (omap_remove (segment_path n) d) (lg_number lg' + 1) []" if "lg_orphan lg'"
      using orphan [OF that] I(1, 9) by (auto simp: same intro: holds_closed_remove)
  qed (use I(4, 7) same in simp_all)
qed

lemma remove_first_closed:
  assumes inv: "wal_inv crc (w, d) lg" and "lg_closed lg = (n, ps) # rest"
  shows "omap_get d (segment_path n) \<noteq> None"
    and "wal_inv crc (w, omap_remove (segment_path n) d) (lg\<lparr>lg_closed := rest\<rparr>)"
proof -
  note lt = lg_numbers_lt [OF wal_invD(2) [OF inv]]
  have "n < lg_number lg" "n \<notin> fst ` set rest" using lt(1) [of n] lt(3) by (simp_all add: assms(2))
  moreover have "lg_orphan lg \<Longrightarrow> n \<noteq> lg_number lg + 1" using lt(2) \<open>n < lg_number lg\<close> by auto
  moreover have nums: "lg_numbers lg = [] @ n # lg_numbers (lg\<lparr>lg_closed := rest\<rparr>)" by (simp add: lg_numbers_def assms(2))
  ultimately have "omap_get d (segment_path n) \<noteq> None \<and> wal_inv crc (w, omap_remove (segment_path n) d) (lg\<lparr>lg_closed := rest\<rparr>)"
    using wal_inv_drop [OF inv nums, where lg' = "lg\<lparr>lg_closed := rest\<rparr>"] by (auto simp: assms(2))
  then show "omap_get d (segment_path n) \<noteq> None" "wal_inv crc (w, omap_remove (segment_path n) d) (lg\<lparr>lg_closed := rest\<rparr>)" by auto
qed

lemma remove_orphan:
  assumes inv: "wal_inv crc (w, d) lg" and "lg_orphan lg"
  shows "omap_get d (segment_path (lg_number lg + 1)) \<noteq> None"
    and "wal_inv crc (w, omap_remove (segment_path (lg_number lg + 1)) d) (lg\<lparr>lg_orphan := False\<rparr>)"
proof -
  note lt = lg_numbers_lt [OF wal_invD(2) [OF inv]]
  have "lg_number lg + 1 \<noteq> lg_number lg" "lg_number lg + 1 \<notin> fst ` set (lg_closed lg)"
    using lt(1) [of "lg_number lg + 1"] lt(2) [OF assms(2)] by (auto dest: order.strict_trans)
  then have "omap_get d (segment_path (lg_number lg + 1)) \<noteq> None
    \<and> wal_inv crc (w, omap_remove (segment_path (lg_number lg + 1)) d) (lg\<lparr>lg_orphan := False\<rparr>)"
    using wal_inv_drop [OF inv, of "lg_numbers (lg\<lparr>lg_orphan := False\<rparr>)" "lg_number lg + 1" "[]" "lg\<lparr>lg_orphan := False\<rparr>"] assms(2)
    by (simp add: lg_numbers_def)
  then show "omap_get d (segment_path (lg_number lg + 1)) \<noteq> None"
    "wal_inv crc (w, omap_remove (segment_path (lg_number lg + 1)) d) (lg\<lparr>lg_orphan := False\<rparr>)" by auto
qed

lemma remove_segments_append:
  "remove_segments f (xs @ ys) d =
    (case remove_segments f xs d of (d', Inl e) \<Rightarrow> (d', Inl e) | (d', Inr _) \<Rightarrow> remove_segments f ys d')"
  by (induction f xs d rule: remove_segments.induct) (auto split: option.splits)

lemma remove_closed:
  assumes "wal_inv crc (w, d) lg" and "remove_segments f (map fst (take k (lg_closed lg))) d = (d', r)"
  obtains j where "j \<le> k" and "wal_inv crc (w, d') (lg\<lparr>lg_closed := drop j (lg_closed lg)\<rparr>)" and "r = Inr () \<Longrightarrow> j = k"
  using assms
proof (induction k arbitrary: d lg thesis)
  case 0
  show ?case by (rule "0.prems"(1) [of 0]) (use "0.prems"(2, 3) in auto)
next
  case (Suc k)
  show ?case
  proof (cases "lg_closed lg")
    case Nil
    then have "lg\<lparr>lg_closed := drop (Suc k) (lg_closed lg)\<rparr> = lg" by (cases lg) simp
    moreover have "d' = d" using Nil Suc.prems(3) by simp
    ultimately show ?thesis using Suc.prems(2) by (intro Suc.prems(1) [of "Suc k"]) (simp_all only: le_refl)
  next
    case (Cons x rest)
    obtain n ps where x: "x = (n, ps)" by fastforce
    note first = remove_first_closed [OF Suc.prems(2) Cons [unfolded x]]
    show ?thesis
    proof (cases "f (RemoveFile n)")
      case (Some e)
      then have "d' = d" "r \<noteq> Inr ()" using Suc.prems(3) by (auto simp: Cons x split: prod.splits)
      with Suc.prems(2) show ?thesis by (intro Suc.prems(1) [of 0]) simp_all
    next
      case None
      then have rest: "remove_segments f (map fst (take k (lg_closed (lg\<lparr>lg_closed := rest\<rparr>)))) (omap_remove (segment_path n) d) = (d', r)"
        using Suc.prems(3) first(1) by (simp add: Cons x)
      show ?thesis
      proof (rule Suc.IH [OF _ first(2) rest])
        fix j
        assume "j \<le> k" "wal_inv crc (w, d') (lg\<lparr>lg_closed := rest, lg_closed := drop j (lg_closed (lg\<lparr>lg_closed := rest\<rparr>))\<rparr>)"
          "r = Inr () \<Longrightarrow> j = k"
        then show ?thesis by (intro Suc.prems(1) [of "Suc j"]) (simp_all add: Cons)
      qed
    qed
  qed
qed

lemma remove_closed_orphan:
  assumes inv: "wal_inv crc (w, d) lg"
    and "remove_segments f (map fst (take k (lg_closed lg)) @ (if lg_orphan lg \<and> b then [lg_number lg + 1] else [])) d = (d', r)"
  obtains j orphan where "j \<le> k" and "wal_inv crc (w, d') (lg\<lparr>lg_closed := drop j (lg_closed lg), lg_orphan := orphan\<rparr>)"
    and "r = Inr () \<Longrightarrow> j = k \<and> orphan = (lg_orphan lg \<and> \<not> b)"
proof -
  obtain d1 r1 where rs: "remove_segments f (map fst (take k (lg_closed lg))) d = (d1, r1)" by fastforce
  obtain j where j: "j \<le> k" "wal_inv crc (w, d1) (lg\<lparr>lg_closed := drop j (lg_closed lg)\<rparr>)" "r1 = Inr () \<Longrightarrow> j = k"
    using remove_closed [OF inv rs] by blast
  let ?lg = "lg\<lparr>lg_closed := drop j (lg_closed lg)\<rparr>"
  have upd: "?lg = lg\<lparr>lg_closed := drop j (lg_closed lg), lg_orphan := lg_orphan lg\<rparr>" by simp
  show thesis
  proof (cases "r1 = Inr () \<and> lg_orphan lg \<and> b \<and> f (RemoveFile (lg_number lg + 1)) = None")
    case True
    note gone = remove_orphan [OF j(2)]
    show thesis
      using that [of j False] j(1, 3) gone True assms(2) by (auto simp: remove_segments_append rs)
  next
    case False
    then show thesis
      using that [of j "lg_orphan lg"] j assms(2) upd
      by (auto simp: remove_segments_append rs split: sum.splits option.splits if_splits)
  qed
qed

lemma filter_closed_prefix:
  assumes "ascending (map fst xs)"
  obtains k where "filter (\<lambda>(i, _). i \<le> m) xs = take k xs" and "filter (\<lambda>(i, _). m < i) xs = drop k xs"
proof
  let ?k = "length (takeWhile (\<lambda>x. fst x \<le> m) xs)"
  have s: "sorted (map fst xs)" using assms by (rule ascending_sorted)
  have "filter (\<lambda>x. fst x \<le> m) xs = takeWhile (\<lambda>x. fst x \<le> m) xs" "filter (\<lambda>x. \<not> fst x \<le> m) xs = dropWhile (\<lambda>x. fst x \<le> m) xs"
    using takeWhile_eq_filter_sorted [OF s, of "\<lambda>x. fst x \<le> m"] dropWhile_eq_filter_sorted [OF s, of "\<lambda>x. fst x \<le> m"]
    by (auto intro: order_trans)
  then show "filter (\<lambda>(i, _). i \<le> m) xs = take ?k xs" "filter (\<lambda>(i, _). m < i) xs = drop ?k xs"
    by (simp_all add: takeWhile_eq_take [symmetric] dropWhile_eq_drop [symmetric] case_prod_unfold not_le)
qed

lemma wal_remove_through_step:
  assumes inv: "wal_inv crc (w, d) lg" and re: "wal_remove_through f m (w, d) = (s', r)"
  shows "\<exists>lg'. log_step (wal_mode w) (RemoveThrough m) r lg lg' \<and> wal_inv crc s' lg'"
proof -
  note I = wal_invD [OF inv]
  note lt = lg_numbers_lt [OF I(2)]
  obtain k where k: "filter (\<lambda>(i, _). i \<le> m) (lg_closed lg) = take k (lg_closed lg)" "filter (\<lambda>(i, _). m < i) (lg_closed lg) = drop k (lg_closed lg)"
    using filter_closed_prefix [OF lt(4)] by blast
  have "filter (\<lambda>id. id \<le> m \<and> id \<noteq> lg_number lg) (map fst (lg_closed lg)) = map fst (filter (\<lambda>(i, _). i \<le> m) (lg_closed lg))"
    using lt(1) [OF imageI] by (fastforce simp: filter_map comp_def case_prod_unfold intro!: arg_cong [of _ _ "map fst"] filter_cong)
  then have doomed: "filter (\<lambda>id. id \<le> m \<and> id \<noteq> wal_segment w) (list_segments d) =
    map fst (take k (lg_closed lg)) @ (if lg_orphan lg \<and> lg_number lg + 1 \<le> m then [lg_number lg + 1] else [])"
    using lt(2) by (auto simp: I(3, 4) lg_numbers_def k)
  obtain d1 r1 where rs: "remove_segments f (filter (\<lambda>id. id \<le> m \<and> id \<noteq> wal_segment w) (list_segments d)) d = (d1, r1)" by fastforce
  obtain j orphan where j: "j \<le> k" "wal_inv crc (w, d1) (lg\<lparr>lg_closed := drop j (lg_closed lg), lg_orphan := orphan\<rparr>)"
    "r1 = Inr () \<Longrightarrow> j = k \<and> orphan = (lg_orphan lg \<and> \<not> lg_number lg + 1 \<le> m)"
    using remove_closed_orphan [OF inv rs [unfolded doomed]] by blast
  have s': "s' = (w, d1)" "r = Inr () \<Longrightarrow> r1 = Inr ()"
    using re rs by (auto simp: wal_remove_through_def Let_def split: sum.splits option.splits if_splits prod.splits)
  have small: "\<forall>i \<in> set (map fst (take j (lg_closed lg))). i \<le> m"
  proof -
    have "set (take j (lg_closed lg)) \<subseteq> set (filter (\<lambda>(i, _). i \<le> m) (lg_closed lg))"
      unfolding k(1) using j(1) by (rule set_take_subset_set_take)
    then show ?thesis by auto
  qed
  show ?thesis
  proof (cases r)
    case (Inl e)
    with j(2) small show ?thesis by (auto simp: log_step_def s')
  next
    case (Inr u)
    with s'(2) j(3) have "j = k" "orphan = (lg_orphan lg \<and> m < lg_number lg + 1)" by (auto simp: not_le)
    with j(2) Inr show ?thesis by (simp add: log_step_def s' k)
  qed
qed

lemma wal_reset_step:
  assumes inv: "wal_inv crc (w, d) lg" and re: "wal_reset f (w, d) = (s', r)"
  shows "\<exists>lg'. log_step (wal_mode w) Reset r lg lg' \<and> wal_inv crc s' lg'"
proof (cases "wal_poisoned w")
  case True
  then have "s' = (w, d)" "r = Inl (OtherError ''wal poisoned'')" using re by (auto simp: wal_reset_def)
  moreover have "lg = lg\<lparr>lg_closed := drop 0 (lg_closed lg), lg_orphan := lg_orphan lg\<rparr>" by simp
  then have "log_failed Reset lg lg" unfolding log_failed.simps by blast
  ultimately show ?thesis using inv by (auto simp: log_step_def simp del: log_failed.simps intro: exI [of _ lg])
next
  case False
  note I = wal_invD [OF inv]
  note lt = lg_numbers_lt [OF I(2)]
  let ?empty = "lg\<lparr>lg_closed := [], lg_records := [], lg_durable := 0, lg_orphan := False\<rparr>"
  have doomed: "filter (\<lambda>id. id \<noteq> wal_segment w) (list_segments d) =
    map fst (take (length (lg_closed lg)) (lg_closed lg)) @ (if lg_orphan lg \<and> True then [lg_number lg + 1] else [])"
    using lt(1) [OF imageI] lt(2) by (fastforce simp: I(3, 4) lg_numbers_def filter_id_conv)
  obtain d1 r1 where rs: "remove_segments f (filter (\<lambda>id. id \<noteq> wal_segment w) (list_segments d)) d = (d1, r1)" by fastforce
  obtain j orphan where j: "wal_inv crc (w, d1) (lg\<lparr>lg_closed := drop j (lg_closed lg), lg_orphan := orphan\<rparr>)"
    "r1 = Inr () \<Longrightarrow> j = length (lg_closed lg) \<and> \<not> orphan"
    using remove_closed_orphan [OF inv rs [unfolded doomed]] by blast
  show ?thesis
  proof (cases "r1 = Inr () \<and> f SetLen = None")
    case False
    then obtain e where "s' = (w, d1)" "r = Inl e"
      using re rs \<open>\<not> wal_poisoned w\<close> by (auto simp: wal_reset_def Let_def split: sum.splits option.splits prod.splits)
    with j(1) show ?thesis by (auto simp: log_step_def)
  next
    case True
    let ?lg = "lg\<lparr>lg_closed := [], lg_orphan := False\<rparr>"
    have inv1: "wal_inv crc (w, d1) ?lg" using j True by auto
    note J = wal_invD [OF inv1]
    let ?w = "w\<lparr>wal_durable := 0, wal_written := 0\<rparr>"
    let ?d = "omap_insert (segment_path (wal_segment w)) (set_len 0 (wal_current (w, d1))) d1"
    have inv2: "wal_inv crc (?w, ?d) (?lg\<lparr>lg_records := [], lg_durable := 0\<rparr>)"
      using J(1) by (intro wal_inv_current [OF inv1]) (auto simp: holds_open_def omap_get_insert set_len_def)
    have inv3: "wal_inv crc (?w, omap_insert (segment_path (wal_segment ?w)) (sync_file (wal_current (?w, ?d))) ?d)
      (?lg\<lparr>lg_records := [], lg_durable := 0, lg_records := [], lg_durable := 0\<rparr>)"
      using J(1) by (intro wal_inv_current [OF inv2]) (auto simp: holds_open_def omap_get_insert omap_ok_insert sync_file_def wal_current_def)
    have upd: "?lg\<lparr>lg_records := [], lg_durable := 0\<rparr> = ?empty" "?lg\<lparr>lg_records := [], lg_durable := 0, lg_records := [], lg_durable := 0\<rparr> = ?empty"
      by (cases lg, simp)+
    have inv3': "wal_inv crc (?w, omap_insert (segment_path (wal_segment ?w)) (sync_file (wal_current (?w, ?d))) ?d) ?empty"
      using inv3 by (simp only: upd(2))
    have inv2': "wal_inv crc (?w\<lparr>wal_poisoned := True\<rparr>, ?d) ?empty"
      using inv2 by (simp only: upd wal_inv_poison)
    have "s' = (?w\<lparr>wal_poisoned := True\<rparr>, ?d) \<and> (\<exists>e. r = Inl e) \<or>
      s' = (?w, omap_insert (segment_path (wal_segment ?w)) (sync_file (wal_current (?w, ?d))) ?d)"
      using re rs True \<open>\<not> wal_poisoned w\<close> by (auto simp: wal_reset_def Let_def put_current_pair split: option.splits prod.splits)
    then have "wal_inv crc s' ?empty" using inv2' inv3' by (elim disjE) auto
    then show ?thesis by (cases r) (auto simp: log_step_def)
  qed
qed

section \<open>Replaying\<close>

lemma replay_segments_append:
  "replay_segments crc s (xs @ ys) =
    and_then (replay_segments crc s xs) (\<lambda>a. and_then (replay_segments crc s ys) (\<lambda>b. Inr (a @ b)))"
proof (induction xs)
  case Nil
  then show ?case by (cases "replay_segments crc s ys") auto
qed (simp add: and_then_assoc)

lemma replay_closed:
  assumes "\<forall>(n, ps) \<in> set xs. n \<noteq> wal_segment w \<and> (\<forall>p \<in> set ps. payload_ok p) \<and> holds_closed crc d n ps"
  shows "replay_segments crc (w, d) (map fst xs) = Inr (concat (map snd xs))"
  using assms by (induction xs) (auto simp: segment_contents_def holds_closed_def parse_segment_bytes)

lemma wal_replay_all_log:
  assumes inv: "wal_inv crc s lg"
  shows "wal_replay_all crc s = Inr (lg_replay lg)"
proof -
  obtain w d where s: "s = (w, d)" by fastforce
  note I = wal_invD [OF inv [unfolded s]]
  note lt = lg_numbers_lt [OF I(2)]
  have "replay_segments crc (w, d) (map fst (lg_closed lg)) = Inr (concat (map snd (lg_closed lg)))"
    using I(4, 5, 6) lt(1) by (intro replay_closed) force
  moreover have "replay_segments crc (w, d) [lg_number lg] = Inr (lg_records lg)"
  proof -
    from I(8) obtain junk where "wf_bytes (wal_current (w, d)) = segment_bytes crc 0 (lg_records lg) @ junk"
      "wal_written w = length (segment_bytes crc 0 (lg_records lg))" by (rule holds_open_current)
    then show ?thesis using I(4, 7) by (simp add: segment_contents_def parse_segment_bytes)
  qed
  moreover have "replay_segments crc (w, d) (if lg_orphan lg then [lg_number lg + 1] else []) = Inr []"
    using replay_closed [of "[(lg_number lg + 1, [])]" w crc d] I(4, 9) lt(2) by auto
  ultimately show ?thesis
    using replay_segments_append [of crc "(w, d)" "map fst (lg_closed lg)" "[lg_number lg] @ (if lg_orphan lg then [lg_number lg + 1] else [])"]
      replay_segments_append [of crc "(w, d)" "[lg_number lg]" "if lg_orphan lg then [lg_number lg + 1] else []"]
    by (simp add: wal_replay_all_def s I(3) lg_numbers_def lg_replay_def del: replay_segments.simps)
qed

section \<open>Opening\<close>

lemma decode_after:
  assumes "\<forall>p \<in> set qs. payload_ok p" and raw: "raw = segment_bytes crc 0 qs @ tail"
  obtains ms t where "\<forall>p \<in> set ms. payload_ok p" and "raw = segment_bytes crc 0 (qs @ ms) @ t"
    and "scan_records crc raw 0 = length (segment_bytes crc 0 (qs @ ms))"
proof -
  let ?n = "length (segment_bytes crc 0 qs)"
  have "?n \<le> length raw" using raw by simp
  then obtain ms t where ms: "\<forall>p \<in> set ms. payload_ok p" "raw = take ?n raw @ segment_bytes crc ?n ms @ t"
    "scan_records crc raw ?n = ?n + length (segment_bytes crc ?n ms)" by (rule scan_records_decodes)
  have "take ?n raw = segment_bytes crc 0 qs" using raw by simp
  with ms(2) have "raw = segment_bytes crc 0 (qs @ ms) @ t" by (simp add: segment_bytes_append)
  moreover have "scan_records crc raw 0 = scan_records crc raw ?n"
    using scan_records_skip [of qs raw "[]" crc 0 tail] assms by simp
  ultimately show thesis using ms by (intro that [of ms t]) (auto simp: segment_bytes_append)
qed

lemma valid_end_scan: "valid_end crc raw = Inr stop \<Longrightarrow> stop = scan_records crc raw 0"
  by (auto simp: valid_end_def Let_def split: if_splits option.splits)

lemma valid_end_cases:
  obtains stop where "valid_end crc raw = Inr stop" | msg where "valid_end crc raw = Inl (InvalidData msg)"
proof -
  have "(\<exists>stop. valid_end crc raw = Inr stop) \<or> (\<exists>msg. valid_end crc raw = Inl (InvalidData msg))"
    by (auto simp: valid_end_def Let_def split: option.splits)
  then show thesis using that by blast
qed

lemma parse_records_error: "parse_records_from crc raw pos = Inl e \<Longrightarrow> \<exists>msg. e = InvalidData msg"
proof (induction crc raw pos rule: parse_records_from.induct)
  case (1 crc raw pos)
  from "1.prems" show ?case
    by (subst (asm) parse_records_from.simps)
      (auto simp: Let_def and_then_def split: if_splits sum.splits dest!: "1.IH" [rotated -1])
qed

lemma parse_records_after:
  assumes "\<forall>p \<in> set qs. payload_ok p" and "raw = segment_bytes crc 0 qs @ tail"
  obtains more where "parse_records crc raw = Inr (qs @ more)" | msg where "parse_records crc raw = Inl (InvalidData msg)"
proof -
  let ?rest = "parse_records_from crc raw (length (segment_bytes crc 0 qs))"
  have p: "parse_records crc raw = and_then ?rest (\<lambda>out. Inr (qs @ out))"
    using parse_records_bytes [of qs raw "[]" crc 0 tail] assms by (simp add: parse_records_def)
  show thesis
  proof (cases ?rest)
    case (Inl e)
    then show thesis using parse_records_error [OF Inl] p that by auto
  next
    case (Inr more)
    then show thesis using p that by simp
  qed
qed

lemma parse_records_stop:
  assumes "read_record_at crc raw pos = None" and "pos < length raw"
  shows "\<exists>msg. parse_records_from crc raw pos = Inl (InvalidData msg)"
  using assms by (subst parse_records_from.simps) (auto simp: read_record_at_def Let_def split: if_splits)

lemma valid_end_Nil: "valid_end crc [] = Inr 0"
  by (simp add: valid_end_def scan_records.simps wal_sizes)

text \<open>The log an opened folder holds: the closed segments, and of the newest one the records in front
  of the first damaged byte.\<close>

definition opened_log :: "(u64 \<times> u8 list list) list \<Rightarrow> u64 \<Rightarrow> u8 list list \<Rightarrow> wal_log" where
  "opened_log closed n ps = \<lparr>lg_closed = closed, lg_number = n, lg_records = ps, lg_durable = length ps, lg_orphan = False\<rparr>"

lemma wal_open_inv:
  assumes d: "omap_ok d" "list_segments d = map fst closed @ [n]" "ascending (map fst closed @ [n])"
    and closed: "\<forall>(i, ps) \<in> set closed. (\<forall>p \<in> set ps. payload_ok p) \<and> holds_closed crc d i ps"
    and fl: "omap_get d (segment_path n) = Some fl" and ve: "valid_end crc (wf_bytes fl) = Inr stop"
    and qs: "\<forall>p \<in> set qs. payload_ok p" "wf_bytes fl = segment_bytes crc 0 qs @ tail"
  obtains d' w' ms where "wal_open crc no_faults mode (Folder d) = (Folder d', Inr w')"
    and "wal_inv crc (w', d') (opened_log closed n (qs @ ms))" and "wal_mode w' = mode"
    and "scan_records crc (wf_bytes fl) 0 = length (segment_bytes crc 0 (qs @ ms))"
proof -
  obtain ms t where ms: "\<forall>p \<in> set ms. payload_ok p" "wf_bytes fl = segment_bytes crc 0 (qs @ ms) @ t"
    "scan_records crc (wf_bytes fl) 0 = length (segment_bytes crc 0 (qs @ ms))" using qs by (rule decode_after)
  have stop: "stop = length (segment_bytes crc 0 (qs @ ms))" using valid_end_scan [OF ve] ms(3) by simp
  let ?fl = "sync_file (if stop < length (wf_bytes fl) then set_len stop fl else fl)"
  let ?w = "\<lparr>wal_mode = mode, wal_segment = n, wal_durable = stop, wal_written = stop, wal_poisoned = False\<rparr>"
  let ?d = "omap_insert (segment_path n) ?fl d"
  have bs: "wf_bytes ?fl = segment_bytes crc 0 (qs @ ms)" using ms(2) stop by (simp add: sync_file_def set_len_def)
  have op: "wal_open crc no_faults mode (Folder d) = (Folder ?d, Inr ?w)"
    using fl ve by (simp add: wal_open_def no_faults_def d(2) Let_def)
  have "wal_inv crc (?w, ?d) (opened_log closed n (qs @ ms))"
  proof (rule wal_invI)
    show "list_segments ?d = lg_numbers (opened_log closed n (qs @ ms))"
      using list_segments_same [OF d(1), of "segment_path n"] fl d(2) by (simp add: lg_numbers_def opened_log_def)
    show "(\<forall>p \<in> set ps. payload_ok p) \<and> holds_closed crc ?d i ps" if "(i, ps) \<in> set (lg_closed (opened_log closed n (qs @ ms)))" for i ps
    proof -
      from that have m: "(i, ps) \<in> set closed" by (simp add: opened_log_def)
      with d(3) have "n \<noteq> i" by (force simp: sorted_wrt_append)
      with closed m d(1) show ?thesis by (auto intro: holds_closed_insert)
    qed
    show "holds_open crc (?w, ?d) (lg_records (opened_log closed n (qs @ ms))) (lg_durable (opened_log closed n (qs @ ms)))"
      using d(1) bs stop by (auto simp: holds_open_def opened_log_def omap_get_insert sync_file_def set_len_def)
  qed (use d(1, 3) qs(1) ms(1) in \<open>auto simp: opened_log_def lg_numbers_def omap_ok_insert\<close>)
  with op ms(3) show thesis by (intro that [of ?d ?w ms]) auto
qed

text \<open>A folder whose newest file is the empty one of an unfinished rotation.\<close>

lemma orphan_open:
  assumes d: "omap_ok d" "list_segments d = map fst closed @ [n, n + 1]" "ascending (map fst closed @ [n, n + 1])"
    and closed: "\<forall>(i, ps) \<in> set closed. (\<forall>p \<in> set ps. payload_ok p) \<and> holds_closed crc d i ps"
    and fl: "omap_get d (segment_path n) = Some fl" and orphan: "holds_closed crc d (n + 1) []"
  obtains d2 w2 where "wal_open crc no_faults mode (Folder d) = (Folder d2, Inr w2)"
    and "\<And>e. parse_records crc (wf_bytes fl) = Inl e \<Longrightarrow> wal_replay_all crc (w2, d2) = Inl (in_segment n e)"
    and "\<And>rs. parse_records crc (wf_bytes fl) = Inr rs \<Longrightarrow> wal_replay_all crc (w2, d2) = Inr (concat (map snd closed) @ rs)"
proof -
  obtain fl1 where fl1: "omap_get d (segment_path (n + 1)) = Some fl1" "wf_bytes fl1 = []"
    using orphan by (auto simp: holds_closed_def)
  let ?d = "omap_insert (segment_path (n + 1)) (sync_file fl1) d"
  let ?w = "\<lparr>wal_mode = mode, wal_segment = n + 1, wal_durable = 0, wal_written = 0, wal_poisoned = False\<rparr>"
  have op: "wal_open crc no_faults mode (Folder d) = (Folder ?d, Inr ?w)"
    using fl1 by (simp add: wal_open_def no_faults_def d(2) valid_end_Nil Let_def)
  have segs: "list_segments ?d = map fst closed @ [n, n + 1]"
    using list_segments_same [OF d(1), of "segment_path (n + 1)"] fl1(1) d(2) by simp
  have ne: "n \<noteq> n + 1" "i \<noteq> n + 1" if "i \<in> fst ` set closed" for i using that d(3) by (auto simp: sorted_wrt_append)
  have ne1: "n \<noteq> n + 1" using d(3) by (auto simp: sorted_wrt_append)
  have old: "replay_segments crc (?w, ?d) (map fst closed) = Inr (concat (map snd closed))"
  proof (rule replay_closed, clarify)
    fix i ps
    assume m: "(i, ps) \<in> set closed"
    then have "i \<noteq> n + 1" using ne(2) by force
    then show "i \<noteq> wal_segment ?w \<and> (\<forall>p \<in> set ps. payload_ok p) \<and> holds_closed crc ?d i ps"
      using closed m d(1) by (auto intro: holds_closed_insert)
  qed
  have current: "segment_contents (?w, ?d) n = Inr (wf_bytes fl)"
    using ne1 fl d(1) by (simp add: segment_contents_def omap_get_insert)
  have orphan: "segment_contents (?w, ?d) (n + 1) = Inr []" "parse_records crc [] = Inr []"
    using parse_segment_bytes [of "[]" crc] by (simp_all add: segment_contents_def)
  show thesis
    by (rule that [OF op]) (simp_all add: wal_replay_all_def segs replay_segments_append old current orphan)
qed

section \<open>Crashes\<close>

text \<open>A power loss keeps what was synced of each file.  A file with nothing else in it comes back as it
  was; of another one, whatever follows the synced bytes is arbitrary.\<close>

definition power_loss :: "wal_dir \<Rightarrow> wal_dir \<Rightarrow> bool" where
  "power_loss d d' \<longleftrightarrow> map fst d' = map fst d \<and>
     (\<forall>name fl. omap_get d name = Some fl \<longrightarrow> (\<exists>fl' tail. omap_get d' name = Some fl' \<and>
        wf_bytes fl' = take (wf_synced fl) (wf_bytes fl) @ tail \<and>
        (wf_synced fl = length (wf_bytes fl) \<longrightarrow> tail = [] \<and> wf_synced fl' = length (wf_bytes fl'))))"

lemma power_loss_dir:
  assumes "power_loss d d'"
  shows "list_segments d' = list_segments d" and "omap_ok d \<Longrightarrow> omap_ok d'"
    and "holds_closed crc d n ps \<Longrightarrow> holds_closed crc d' n ps"
proof -
  show "list_segments d' = list_segments d" "omap_ok d \<Longrightarrow> omap_ok d'"
    using assms by (simp_all add: power_loss_def list_segments_def omap_ok_def)
  assume "holds_closed crc d n ps"
  then obtain fl where "omap_get d (segment_path n) = Some fl" "wf_bytes fl = segment_bytes crc 0 ps" "wf_synced fl = length (wf_bytes fl)"
    by (auto simp: holds_closed_def)
  with assms show "holds_closed crc d' n ps" by (fastforce simp: power_loss_def holds_closed_def)
qed

lemma wal_inv_dir:
  assumes "wal_inv crc (w, d) lg" and "\<not> lg_orphan lg"
  shows "list_segments d = map fst (lg_closed lg) @ [lg_number lg]" and "ascending (map fst (lg_closed lg) @ [lg_number lg])"
    and "\<forall>(n, ps) \<in> set (lg_closed lg). (\<forall>p \<in> set ps. payload_ok p) \<and> holds_closed crc d n ps"
  using wal_invD [OF assms(1)] assms(2) by (auto simp: lg_numbers_def)

lemma wal_inv_dir_orphan:
  assumes "wal_inv crc (w, d) lg" and "lg_orphan lg"
  shows "list_segments d = map fst (lg_closed lg) @ [lg_number lg, lg_number lg + 1]"
    and "ascending (map fst (lg_closed lg) @ [lg_number lg, lg_number lg + 1])"
    and "\<forall>(n, ps) \<in> set (lg_closed lg). (\<forall>p \<in> set ps. payload_ok p) \<and> holds_closed crc d n ps"
    and "holds_closed crc d (lg_number lg + 1) []"
  using wal_invD [OF assms(1)] assms(2) by (auto simp: lg_numbers_def)

lemma power_loss_current:
  assumes inv: "wal_inv crc (w, d) lg" and pl: "power_loss d d'"
  obtains fl tail where "omap_get d' (segment_path (lg_number lg)) = Some fl"
    and "wf_bytes fl = segment_bytes crc 0 (take (lg_durable lg) (lg_records lg)) @ tail"
proof -
  note I = wal_invD [OF inv]
  from I(8) obtain junk where c: "omap_get d (segment_path (wal_segment w)) = Some (wal_current (w, d))"
    "wf_bytes (wal_current (w, d)) = segment_bytes crc 0 (lg_records lg) @ junk"
    "wal_durable w = length (segment_bytes crc 0 (take (lg_durable lg) (lg_records lg)))"
    "wal_durable w \<le> wf_synced (wal_current (w, d))" by (rule holds_open_current)
  have "omap_get d (segment_path (lg_number lg)) = Some (wal_current (w, d))" using c(1) I(4) by simp
  then obtain fl tail where fl: "omap_get d' (segment_path (lg_number lg)) = Some fl"
    "wf_bytes fl = take (wf_synced (wal_current (w, d))) (wf_bytes (wal_current (w, d))) @ tail"
    using pl unfolding power_loss_def by blast
  have "take (wf_synced (wal_current (w, d))) (wf_bytes (wal_current (w, d))) =
    take (wal_durable w) (wf_bytes (wal_current (w, d))) @ drop (wal_durable w) (take (wf_synced (wal_current (w, d))) (wf_bytes (wal_current (w, d))))"
    using c(4) by (metis append_take_drop_id min.absorb1 take_take)
  moreover have "take (wal_durable w) (wf_bytes (wal_current (w, d))) = segment_bytes crc 0 (take (lg_durable lg) (lg_records lg))"
    using c(2, 3) segment_bytes_append [of crc 0 "take (lg_durable lg) (lg_records lg)" "drop (lg_durable lg) (lg_records lg)"] by simp
  ultimately obtain tail' where "wf_bytes fl = segment_bytes crc 0 (take (lg_durable lg) (lg_records lg)) @ tail'"
    using fl(2) by (metis append.assoc)
  with fl(1) show thesis by (rule that)
qed

lemma durable_payloads: "wal_inv crc (w, d) lg \<Longrightarrow> \<forall>p \<in> set (take (lg_durable lg) (lg_records lg)). payload_ok p"
  using wal_invD(7) by (auto dest!: in_set_takeD)

lemma power_loss_open:
  assumes inv: "wal_inv crc (w, d) lg" and "\<not> lg_orphan lg" and pl: "power_loss d d'"
  shows "(\<exists>d2 w2 more. wal_open crc no_faults mode (Folder d') = (Folder d2, Inr w2) \<and>
      wal_replay_all crc (w2, d2) = Inr (concat (map snd (lg_closed lg)) @ take (lg_durable lg) (lg_records lg) @ more)) \<or>
    (\<exists>msg. wal_open crc no_faults mode (Folder d') = (Folder d', Inl (InvalidData msg)))"
proof -
  note I = wal_invD [OF inv] and D = wal_inv_dir [OF inv assms(2)] and P = power_loss_dir [OF pl]
  obtain fl tail where fl: "omap_get d' (segment_path (lg_number lg)) = Some fl"
    and bs: "wf_bytes fl = segment_bytes crc 0 (take (lg_durable lg) (lg_records lg)) @ tail"
    using inv pl by (rule power_loss_current)
  show ?thesis
  proof (rule valid_end_cases [of crc "wf_bytes fl"])
    fix stop
    assume ve: "valid_end crc (wf_bytes fl) = Inr stop"
    obtain d2 w2 ms where "wal_open crc no_faults mode (Folder d') = (Folder d2, Inr w2)"
      "wal_inv crc (w2, d2) (opened_log (lg_closed lg) (lg_number lg) (take (lg_durable lg) (lg_records lg) @ ms))"
      by (rule wal_open_inv [OF P(2) [OF I(1)] _ D(2) _ fl ve durable_payloads [OF inv] bs]) (use P(1, 3) D(1, 3) in auto)
    then show ?thesis using wal_replay_all_log by (fastforce simp: opened_log_def lg_replay_def)
  next
    fix msg
    assume "valid_end crc (wf_bytes fl) = Inl (InvalidData msg)"
    then have "wal_open crc no_faults mode (Folder d') = (Folder d', Inl (InvalidData msg))"
      using fl P(1) D(1) by (simp add: wal_open_def no_faults_def Let_def)
    then show ?thesis by blast
  qed
qed

lemma power_loss_orphan:
  assumes inv: "wal_inv crc (w, d) lg" and "lg_orphan lg" and pl: "power_loss d d'"
  shows "\<exists>d2 w2. wal_open crc no_faults mode (Folder d') = (Folder d2, Inr w2) \<and>
      ((\<exists>more. wal_replay_all crc (w2, d2) = Inr (concat (map snd (lg_closed lg)) @ take (lg_durable lg) (lg_records lg) @ more)) \<or>
       (\<exists>msg. wal_replay_all crc (w2, d2) = Inl (in_segment (lg_number lg) (InvalidData msg))))"
proof -
  note I = wal_invD [OF inv] and D = wal_inv_dir_orphan [OF inv assms(2)] and P = power_loss_dir [OF pl]
  obtain fl tail where fl: "omap_get d' (segment_path (lg_number lg)) = Some fl"
    and bs: "wf_bytes fl = segment_bytes crc 0 (take (lg_durable lg) (lg_records lg)) @ tail"
    using inv pl by (rule power_loss_current)
  have closed: "\<forall>(i, ps) \<in> set (lg_closed lg). (\<forall>p \<in> set ps. payload_ok p) \<and> holds_closed crc d' i ps" using D(3) P(3) by blast
  obtain d2 w2 where op: "wal_open crc no_faults mode (Folder d') = (Folder d2, Inr w2)"
    and bad: "\<And>e. parse_records crc (wf_bytes fl) = Inl e \<Longrightarrow> wal_replay_all crc (w2, d2) = Inl (in_segment (lg_number lg) e)"
    and good: "\<And>rs. parse_records crc (wf_bytes fl) = Inr rs \<Longrightarrow> wal_replay_all crc (w2, d2) = Inr (concat (map snd (lg_closed lg)) @ rs)"
    by (rule orphan_open [OF P(2) [OF I(1)] D(1) [folded P(1)] D(2) closed fl P(3) [OF D(4)], where mode = mode]) blast
  show ?thesis by (rule parse_records_after [OF durable_payloads [OF inv] bs]) (use op bad good in auto)
qed

text \<open>A process that stops leaves the folder as it is.  Bytes behind the last record that decode to nothing are
  cut off by the next opening, unless an unfinished rotation left a newer file: then the segment is read whole.\<close>

lemma junk_open:
  assumes inv: "wal_inv crc (w, d) lg" and none: "\<forall>q \<ge> wal_written w. read_record_at crc (wf_bytes (wal_current (w, d))) q = None"
  shows "\<exists>d2 w2. wal_open crc no_faults mode (Folder d) = (Folder d2, Inr w2) \<and>
    (if lg_orphan lg \<and> \<not> wal_clean (w, d) then \<exists>msg. wal_replay_all crc (w2, d2) = Inl (in_segment (lg_number lg) (InvalidData msg))
     else wal_replay_all crc (w2, d2) = Inr (lg_replay lg))"
proof -
  note I = wal_invD [OF inv]
  let ?fl = "wal_current (w, d)"
  from I(8) obtain junk where c: "omap_get d (segment_path (wal_segment w)) = Some ?fl"
    "wf_bytes ?fl = segment_bytes crc 0 (lg_records lg) @ junk"
    "wal_written w = length (segment_bytes crc 0 (lg_records lg))" by (rule holds_open_current)
  have fl: "omap_get d (segment_path (lg_number lg)) = Some ?fl" using c(1) I(4) by simp
  show ?thesis
  proof (cases "lg_orphan lg")
    case True
    note D = wal_inv_dir_orphan [OF inv True]
    obtain d2 w2 where op: "wal_open crc no_faults mode (Folder d) = (Folder d2, Inr w2)"
      and bad: "\<And>e. parse_records crc (wf_bytes ?fl) = Inl e \<Longrightarrow> wal_replay_all crc (w2, d2) = Inl (in_segment (lg_number lg) e)"
      and good: "\<And>rs. parse_records crc (wf_bytes ?fl) = Inr rs \<Longrightarrow> wal_replay_all crc (w2, d2) = Inr (concat (map snd (lg_closed lg)) @ rs)"
      by (rule orphan_open [OF I(1) D(1, 2, 3) fl D(4), where mode = mode]) blast
    have parse: "parse_records crc (wf_bytes ?fl) = and_then (parse_records_from crc (wf_bytes ?fl) (wal_written w)) (\<lambda>out. Inr (lg_records lg @ out))"
      using parse_records_bytes [of "lg_records lg" "wf_bytes ?fl" "[]" crc 0 junk] I(7) c(2, 3) by (simp add: parse_records_def)
    show ?thesis
    proof (cases "wal_clean (w, d)")
      case True
      then have "parse_records_from crc (wf_bytes ?fl) (wal_written w) = Inr []"
        by (subst parse_records_from.simps) (simp add: wal_clean_def)
      with op good parse True \<open>lg_orphan lg\<close> show ?thesis by (simp add: lg_replay_def)
    next
      case False
      then have "wal_written w < length (wf_bytes ?fl)" using c(2, 3) by (simp add: wal_clean_def)
      then obtain msg where "parse_records_from crc (wf_bytes ?fl) (wal_written w) = Inl (InvalidData msg)"
        using parse_records_stop none by blast
      with op bad parse False \<open>lg_orphan lg\<close> show ?thesis by auto
    qed
  next
    case False
    note D = wal_inv_dir [OF inv False]
    have scan: "scan_records crc (wf_bytes ?fl) 0 = wal_written w"
      using scan_records_skip [of "lg_records lg" "wf_bytes ?fl" "[]" crc 0] I(7) c(2, 3) scan_records_stop none by simp
    have "probe_records crc (wf_bytes ?fl) (wal_written w + 1) = None" using none by (simp add: probe_records_none)
    then have ve: "valid_end crc (wf_bytes ?fl) = Inr (wal_written w)" by (simp add: valid_end_def scan Let_def)
    obtain d2 w2 ms where o: "wal_open crc no_faults mode (Folder d) = (Folder d2, Inr w2)"
      "wal_inv crc (w2, d2) (opened_log (lg_closed lg) (lg_number lg) (lg_records lg @ ms))"
      "scan_records crc (wf_bytes ?fl) 0 = length (segment_bytes crc 0 (lg_records lg @ ms))"
      by (rule wal_open_inv [OF I(1) D(1, 2, 3) fl ve I(7) c(2)])
    have "ms = []" using o(3) scan c(3) by (cases ms) (auto simp: segment_bytes_append wal_sizes)
    then show ?thesis using o(1) wal_replay_all_log [OF o(2)] False by (auto simp: opened_log_def lg_replay_def)
  qed
qed

lemma torn_append_current:
  assumes inv: "wal_inv crc (w, d) lg" and "payload_ok p" and "\<not> wal_poisoned w" and "f WriteFile = Some (n, e)"
  obtains d1 where "wal_append crc f p (w, d) = ((w, d1), Inl e)" and "wal_inv crc (w, d1) lg"
    and "wal_current (w, d1) = write_at (wal_written w) (take n (encode_record crc (wal_written w) p)) (wal_current (w, d))"
proof -
  note I = wal_invD [OF inv]
  let ?torn = "take n (encode_record crc (wal_written w) p)"
  let ?fl = "write_at (wal_written w) ?torn (wal_current (w, d))"
  let ?d = "omap_insert (segment_path (wal_segment w)) ?fl d"
  have "wal_append crc f p (w, d) = ((w, ?d), Inl e)" using assms(2-4) by (simp add: wal_append_def payload_ok_def put_current_pair Let_def)
  moreover have "wal_inv crc (w, ?d) (lg\<lparr>lg_records := lg_records lg, lg_durable := lg_durable lg\<rparr>)"
    using wal_inv_current [OF inv refl I(7), of ?fl "lg_durable lg"] holds_open_junk [OF I(1) I(8), of ?torn]
    by (simp add: put_current_pair)
  moreover have "wal_current (w, ?d) = ?fl" using I(1) by (simp add: wal_current_def omap_get_insert)
  ultimately show thesis by (intro that [of ?d]) simp_all
qed

section \<open>Runs\<close>

text \<open>Any sequence of operations with any faults.  Segment numbers do not wrap around.\<close>

definition numbers_left :: "wal_op \<Rightarrow> wal_state \<Rightarrow> bool" where
  "numbers_left op s \<longleftrightarrow> (op = Rotate \<longrightarrow> wal_segment (fst s) < wal_segment (fst s) + 1)"

inductive wal_run :: "(u8 list \<Rightarrow> u32) \<Rightarrow> wal_state \<Rightarrow> (wal_op \<times> unit result) list \<Rightarrow> wal_state \<Rightarrow> bool" for crc where
  wal_stop: "wal_run crc s [] s"
| wal_next: "numbers_left op s \<Longrightarrow> wal_exec crc f op s = (s1, r) \<Longrightarrow> wal_run crc s1 es s2 \<Longrightarrow> wal_run crc s ((op, r) # es) s2"

inductive log_run :: "sync_mode \<Rightarrow> wal_log \<Rightarrow> (wal_op \<times> unit result) list \<Rightarrow> wal_log \<Rightarrow> bool" for mode where
  log_stop: "log_run mode lg [] lg"
| log_next: "log_step mode op r lg lg1 \<Longrightarrow> log_run mode lg1 es lg2 \<Longrightarrow> log_run mode lg ((op, r) # es) lg2"

lemma wal_exec_step:
  assumes "wal_inv crc s lg" and "numbers_left op s" and "wal_exec crc f op s = (s1, r)"
    and "op = Rotate \<Longrightarrow> r = Inr () \<Longrightarrow> wal_clean s"
  shows "\<exists>lg1. log_step (wal_mode (fst s)) op r lg lg1 \<and> wal_inv crc s1 lg1"
proof -
  obtain w d where s: "s = (w, d)" by fastforce
  have seg: "wal_segment w = lg_number lg" using wal_invD(4) [OF assms(1) [unfolded s]] .
  show ?thesis
  proof (cases op)
    case (Append p)
    with assms(1, 3) show ?thesis using wal_append_step [of crc w d lg f p] by (auto simp: s split: prod.splits)
  next
    case Rotate
    obtain r' where r': "wal_rotate f (w, d) = (s1, r')" "r = forget r'" using assms(3) Rotate by (auto simp: s split: prod.splits)
    with assms(1, 2, 4) Rotate show ?thesis
      using wal_rotate_step [of crc w d lg f s1 r'] by (auto simp: s numbers_left_def seg forget_def)
  next
    case (RemoveThrough m)
    with assms(1, 3) show ?thesis using wal_remove_through_step [of crc w d lg f m] by (auto simp: s)
  next
    case Reset
    with assms(1, 3) show ?thesis using wal_reset_step [of crc w d lg f] by (auto simp: s)
  qed
qed

lemma sync_or_poison_mode: "sync_or_poison f s = (s1, r) \<Longrightarrow> wal_mode (fst s1) = wal_mode (fst s)"
  by (auto simp: sync_or_poison_def put_current_def split: option.splits prod.splits)

lemma put_current_mode [simp]: "wal_mode (fst (put_current fl s)) = wal_mode (fst s)"
  by (cases s) (simp add: put_current_def)

lemma wal_append_mode: "wal_append crc f p s = (s1, r) \<Longrightarrow> wal_mode (fst s1) = wal_mode (fst s)"
  by (cases s) (auto simp: wal_append_def put_current_pair Let_def split: option.splits sum.splits if_splits prod.splits dest!: sync_or_poison_mode)

lemma wal_rotate_mode: "wal_rotate f s = (s1, r) \<Longrightarrow> wal_mode (fst s1) = wal_mode (fst s)"
  by (auto simp: wal_rotate_def Let_def split: prod.splits option.splits sum.splits if_splits dest!: sync_or_poison_mode)

lemma wal_remove_through_mode: "wal_remove_through f m s = (s1, r) \<Longrightarrow> wal_mode (fst s1) = wal_mode (fst s)"
  by (auto simp: wal_remove_through_def Let_def split: prod.splits option.splits sum.splits if_splits)

lemma wal_reset_mode: "wal_reset f s = (s1, r) \<Longrightarrow> wal_mode (fst s1) = wal_mode (fst s)"
  by (auto simp: wal_reset_def put_current_def Let_def split: prod.splits option.splits sum.splits if_splits)

lemma wal_exec_mode: "wal_exec crc f op s = (s1, r) \<Longrightarrow> wal_mode (fst s1) = wal_mode (fst s)"
  by (cases op) (auto split: prod.splits dest: wal_append_mode wal_rotate_mode wal_remove_through_mode wal_reset_mode)

text \<open>Only a failed append leaves bytes behind the last record.\<close>

lemma wal_current_insert:
  "omap_ok d \<Longrightarrow> wal_current (w, omap_insert (segment_path n) fl d) = (if n = wal_segment w then fl else wal_current (w, d))"
  by (auto simp: wal_current_def omap_get_insert)

lemma wal_current_fields [simp]: "wal_current (w\<lparr>wal_written := i, wal_durable := j, wal_poisoned := b\<rparr>, d) = wal_current (w, d)"
  by (simp add: wal_current_def)

lemma sync_or_poison_clean:
  "sync_or_poison f (w, d) = (s', r) \<Longrightarrow> omap_ok d \<Longrightarrow> wal_clean s' = wal_clean (w, d) \<and> omap_ok (snd s') \<and> wal_segment (fst s') = wal_segment w"
  by (auto simp: sync_or_poison_def put_current_pair wal_clean_def wal_current_def omap_get_insert omap_ok_insert sync_file_def split: option.splits)

lemma remove_segments_current:
  "remove_segments f ids d = (d', r) \<Longrightarrow> omap_ok d \<Longrightarrow> wal_segment w \<notin> set ids \<Longrightarrow> omap_ok d' \<and> wal_current (w, d') = wal_current (w, d)"
proof (induction f ids d rule: remove_segments.induct)
  case (2 f n ids d)
  then show ?case
    by (auto simp: omap_ok_remove wal_current_def omap_get_remove split: option.splits if_splits)
qed simp

lemma wal_append_clean:
  assumes "wal_clean (w, d)" "omap_ok d" "wal_append crc f p (w, d) = (s1, Inr n)"
  shows "wal_clean s1"
proof -
  let ?rec = "encode_record crc (wal_written w) p"
  let ?w = "w\<lparr>wal_written := wal_written w + length ?rec\<rparr>"
  let ?d = "omap_insert (segment_path (wal_segment w)) (write_at (wal_written w) ?rec (wal_current (w, d))) d"
  have fine: "p \<noteq> []" "length p \<le> wal_max_entry_size" "\<not> wal_poisoned w" "f WriteFile = None"
    using assms(3) by (auto simp: wal_append_def Let_def split: if_splits option.splits)
  have c: "wal_clean (?w, ?d)" and ok: "omap_ok ?d"
    using assms(1,2) by (simp_all add: wal_clean_def wal_current_def omap_get_insert omap_ok_insert write_at_def)
  show ?thesis
  proof (cases "wal_mode w = SyncEach")
    case True
    obtain s2 r2 where sp: "sync_or_poison f (?w, ?d) = (s2, r2)" by fastforce
    with True assms(3) fine have "s1 = s2" by (auto simp: wal_append_def Let_def put_current_pair split: sum.splits)
    with sync_or_poison_clean [OF sp ok] c show ?thesis by simp
  next
    case False
    with assms(3) fine have "s1 = (?w, ?d)" by (auto simp: wal_append_def Let_def put_current_pair)
    with c show ?thesis by simp
  qed
qed

lemma wal_rotate_clean:
  assumes "wal_clean (w, d)" "omap_ok d" "wal_rotate f (w, d) = (s1, r)" "wal_segment w < wal_segment w + 1"
  shows "wal_clean s1"
proof (cases "wal_poisoned w")
  case False
  obtain w2 d2 r2 where sp: "sync_or_poison f (w, d) = ((w2, d2), r2)" by (metis surj_pair)
  note c = sync_or_poison_clean [OF sp assms(2), simplified]
  have "wal_clean (w2, omap_insert (segment_path (wal_segment w2 + 1)) file_new d2)"
    using c assms(1,4) by (auto simp: wal_clean_def wal_current_insert)
  moreover have "wal_clean (w2\<lparr>wal_segment := wal_segment w2 + 1, wal_durable := 0, wal_written := 0\<rparr>, omap_insert (segment_path (wal_segment w2 + 1)) file_new d2)"
    using c by (simp add: wal_clean_def wal_current_def omap_get_insert) (simp add: file_new_def)
  ultimately show ?thesis
    using assms(1,3) c False by (auto simp: wal_rotate_def sp Let_def split: sum.splits option.splits if_splits)
qed (use assms in \<open>auto simp: wal_rotate_def\<close>)

lemma wal_remove_through_clean:
  assumes "wal_clean (w, d)" "omap_ok d" "wal_remove_through f m (w, d) = (s1, r)"
  shows "wal_clean s1"
proof -
  let ?ids = "filter (\<lambda>n. n \<le> m \<and> n \<noteq> wal_segment w) (list_segments d)"
  obtain d2 r2 where rs: "remove_segments f ?ids d = (d2, r2)" by fastforce
  then have "wal_current (w, d2) = wal_current (w, d)" using remove_segments_current [OF rs assms(2), of w] by simp
  moreover have "s1 = (w, d2)" using assms(3) rs by (auto simp: wal_remove_through_def Let_def split: sum.splits if_splits option.splits)
  ultimately show ?thesis using assms(1) by (simp add: wal_clean_def)
qed

lemma wal_reset_clean:
  assumes "wal_clean (w, d)" "omap_ok d" "wal_reset f (w, d) = (s1, r)"
  shows "wal_clean s1"
proof -
  let ?ids = "filter (\<lambda>n. n \<noteq> wal_segment w) (list_segments d)"
  obtain d2 r2 where rs: "remove_segments f ?ids d = (d2, r2)" by fastforce
  then have d2: "omap_ok d2" "wal_current (w, d2) = wal_current (w, d)" using remove_segments_current [OF rs assms(2), of w] by simp_all
  then show ?thesis
    using assms(1,3) rs
    by (auto simp: wal_reset_def Let_def put_current_pair wal_clean_def wal_current_def omap_get_insert omap_ok_insert set_len_def sync_file_def
        split: sum.splits if_splits option.splits)
qed

lemma wal_exec_clean:
  assumes "wal_clean (w, d)" "omap_ok d" "wal_exec crc f op (w, d) = (s1, r)" "numbers_left op (w, d)" "\<And>p e. op = Append p \<Longrightarrow> r \<noteq> Inl e"
  shows "wal_clean s1"
proof (cases op)
  case (Append p)
  then obtain n where "wal_append crc f p (w, d) = (s1, Inr n)"
    using assms(3,5) by (auto simp: forget_def split: prod.splits sum.splits)
  then show ?thesis using wal_append_clean assms(1,2) by blast
next
  case Rotate
  then show ?thesis using assms wal_rotate_clean [of w d f s1] by (auto simp: numbers_left_def split: prod.splits)
next
  case (RemoveThrough m)
  then show ?thesis using assms(1-3) wal_remove_through_clean [of w d f m s1 r] by simp
next
  case Reset
  then show ?thesis using assms(1-3) wal_reset_clean [of w d f s1 r] by simp
qed

lemma wal_run_refines:
  assumes "wal_run crc s es s'" and "wal_inv crc s lg"
  shows "(\<exists>lg'. log_run (wal_mode (fst s)) lg es lg' \<and> wal_inv crc s' lg')
    \<or> (\<exists>es1 es2 s1. es = es1 @ (Rotate, Inr ()) # es2 \<and> wal_run crc s es1 s1 \<and> \<not> wal_clean s1
        \<and> (wal_clean s \<longrightarrow> (\<exists>p e. (Append p, Inl e) \<in> set es1)))"
  using assms
proof (induction arbitrary: lg rule: wal_run.induct)
  case (wal_next op s f s1 r es s2)
  show ?case
  proof (cases "op = Rotate \<and> r = Inr () \<and> \<not> wal_clean s")
    case True
    then show ?thesis by (intro disjI2 exI [of _ "[]"] exI [of _ es] exI [of _ s]) (simp add: wal_run.wal_stop)
  next
    case False
    then obtain lg1 where lg1: "log_step (wal_mode (fst s)) op r lg lg1" "wal_inv crc s1 lg1" using wal_next wal_exec_step by blast
    from wal_next.IH [OF lg1(2)] show ?thesis
    proof
      assume "\<exists>lg'. log_run (wal_mode (fst s1)) lg1 es lg' \<and> wal_inv crc s2 lg'"
      with lg1 wal_next.hyps show ?thesis by (metis log_run.log_next wal_exec_mode)
    next
      assume "\<exists>es1 es2 s'. es = es1 @ (Rotate, Inr ()) # es2 \<and> wal_run crc s1 es1 s' \<and> \<not> wal_clean s'
        \<and> (wal_clean s1 \<longrightarrow> (\<exists>p e. (Append p, Inl e) \<in> set es1))"
      then obtain es1 es2 s' where r: "es = es1 @ (Rotate, Inr ()) # es2" "wal_run crc s1 es1 s'" "\<not> wal_clean s'"
        and c: "wal_clean s1 \<longrightarrow> (\<exists>p e. (Append p, Inl e) \<in> set es1)" by blast
      have "\<exists>p e. (Append p, Inl e) \<in> set ((op, r) # es1)" if "wal_clean s"
      proof (rule ccontr)
        assume none: "\<nexists>p e. (Append p, Inl e) \<in> set ((op, r) # es1)"
        obtain w d where s: "s = (w, d)" by fastforce
        have "wal_clean s1"
          using wal_exec_clean [of w d crc f op s1 r] that wal_next.hyps none wal_invD(1) [of crc w d lg] wal_next.prems by (auto simp: s)
        with c none show False by auto
      qed
      moreover have "wal_run crc s ((op, r) # es1) s'" using wal_next.hyps r(2) by (blast intro: wal_run.wal_next)
      ultimately show ?thesis using r by (intro disjI2 exI [of _ "(op, r) # es1"] exI [of _ es2] exI [of _ s']) simp
    qed
  qed
qed (auto intro: log_run.log_stop)

section \<open>A fresh log\<close>

definition fresh_wal :: "sync_mode \<Rightarrow> wal" where
  "fresh_wal mode = \<lparr>wal_mode = mode, wal_segment = 1, wal_durable = 0, wal_written = 0, wal_poisoned = False\<rparr>"

definition fresh_dir :: wal_dir where
  "fresh_dir = [(segment_path 1, file_new)]"

lemma list_segments_fresh: "list_segments fresh_dir = [1]"
  by (simp add: list_segments_def fresh_dir_def List.map_filter_simps)

lemma wal_open_missing: "wal_open crc no_faults mode Missing = (Folder fresh_dir, Inr (fresh_wal mode))"
  by (simp add: wal_open_def no_faults_def fresh_dir_def fresh_wal_def list_segments_def file_new_def valid_end_Nil sync_file_def Let_def
      List.map_filter_simps)

lemma fresh_inv: "wal_inv crc (fresh_wal mode, fresh_dir) (opened_log [] 1 [])"
  by (rule wal_invI)
    (simp_all add: opened_log_def lg_numbers_def list_segments_fresh [unfolded fresh_dir_def] fresh_wal_def holds_open_def fresh_dir_def omap_ok_def, simp add: file_new_def)

text \<open>A rotation that fails after it created the next file cannot be repeated: the file is in the way.\<close>

lemma rotation_stuck:
  assumes inv: "wal_inv crc (w, d) lg" and "lg_orphan lg" and "\<not> wal_poisoned w" and "f SyncFile = None" and "f CreateFile = None"
  shows "snd (wal_rotate f (w, d)) = Inl (AlreadyExists ''file exists'')"
proof -
  note I = wal_invD [OF inv]
  obtain fl where fl: "omap_get d (segment_path (lg_number lg + 1)) = Some fl" using I(9) assms(2) by (auto simp: holds_closed_def)
  then show ?thesis
    using assms(3-5) I(1, 4) by (simp add: wal_rotate_def sync_or_poison_def put_current_pair Let_def omap_get_insert)
qed

lemma append_works:
  assumes "\<not> wal_poisoned w" "payload_ok p"
  obtains w1 d1 where "wal_exec crc no_faults (Append p) (w, d) = ((w1, d1), Inr ())" "\<not> wal_poisoned w1" "wal_segment w1 = wal_segment w"
proof -
  obtain w1 d1 r where ex: "wal_exec crc no_faults (Append p) (w, d) = ((w1, d1), r)" by (metis surj_pair)
  with assms have "r = Inr () \<and> \<not> wal_poisoned w1 \<and> wal_segment w1 = wal_segment w"
    by (auto simp: wal_append_def payload_ok_def no_faults_def forget_def sync_or_poison_def put_current_pair Let_def split: if_splits)
  with ex show thesis using that by blast
qed

lemma rotation_works:
  assumes inv: "wal_inv crc (w, d) lg" and "\<not> lg_orphan lg" and "\<not> wal_poisoned w" and "lg_number lg < lg_number lg + 1"
  obtains w1 d1 where "wal_exec crc no_faults Rotate (w, d) = ((w1, d1), Inr ())" "\<not> wal_poisoned w1"
proof -
  obtain s r where sp: "sync_or_poison no_faults (w, d) = (s, r)" by fastforce
  note I = wal_invD [OF inv]
  let ?w = "w\<lparr>wal_durable := wal_written w\<rparr>" and ?d = "omap_insert (segment_path (lg_number lg)) (sync_file (wal_current (w, d))) d"
  have sync: "r = Inr ()" "s = (?w, ?d)" using sp I(4) by (auto simp: sync_or_poison_def no_faults_def put_current_pair)
  let ?lg = "lg\<lparr>lg_durable := length (lg_records lg)\<rparr>"
  have inv2: "wal_inv crc (?w, ?d) ?lg" using sync_or_poison_cases [OF inv sp] sync I(4) by auto
  have "\<not> lg_orphan ?lg" using assms(2) by simp
  note made = wal_inv_create [OF inv2 this, simplified, OF assms(4)]
  obtain w1 d1 r1 where ex: "wal_exec crc no_faults Rotate (w, d) = ((w1, d1), r1)" by (metis surj_pair)
  with sp sync made(1) assms(3) I(4) have "r1 = Inr () \<and> \<not> wal_poisoned w1"
    by (auto simp: wal_rotate_def no_faults_def Let_def forget_def)
  with ex show thesis using that by blast
qed
text \<open>A run with a rotation, a torn append and one more append.\<close>

lemma torn_run:
  "\<exists>s'. wal_run (\<lambda>_. 0) (fresh_wal SyncEach, fresh_dir)
      [(Append [7], Inr ()), (Rotate, Inr ()), (Append [8], Inl (OtherError ''disk full'')), (Append [9], Inr ())] s'"
proof -
  let ?full = "\<lambda>c. if c = WriteFile then Some (3, OtherError ''disk full'') else None"
  let ?x = "wal_exec (\<lambda>_. 0)"
  let ?s0 = "(fresh_wal SyncEach, fresh_dir)"
  have ok: "payload_ok [7]" "payload_ok [8]" "payload_ok [9]" by (simp_all add: payload_ok_def wal_sizes)
  have np: "\<not> wal_poisoned (fresh_wal SyncEach)" by (simp add: fresh_wal_def)
  obtain w1 d1 where x1: "?x no_faults (Append [7]) ?s0 = ((w1, d1), Inr ())" and p1: "\<not> wal_poisoned w1"
    and n1: "wal_segment w1 = wal_segment (fresh_wal SyncEach)" using np ok(1) by (rule append_works)
  obtain lg1 where "log_step SyncEach (Append [7]) (Inr ()) (opened_log [] 1 []) lg1" "wal_inv (\<lambda>_. 0) (w1, d1) lg1"
    using wal_exec_step [OF fresh_inv _ x1] by (auto simp: numbers_left_def fresh_wal_def)
  then have i1: "wal_inv (\<lambda>_. 0) (w1, d1) lg1" "\<not> lg_orphan lg1" "lg_number lg1 < lg_number lg1 + 1"
    by (simp_all add: log_step_def opened_log_def)
  obtain w2 d2 where x2: "?x no_faults Rotate (w1, d1) = ((w2, d2), Inr ())" and p2: "\<not> wal_poisoned w2"
    using i1(1,2) p1 i1(3) by (rule rotation_works)
  obtain d3 where x3: "?x ?full (Append [8]) (w2, d2) = ((w2, d3), Inl (OtherError ''disk full''))"
    using p2 ok(2) by (simp add: wal_append_def payload_ok_def put_current_pair forget_def Let_def)
  obtain w4 d4 where x4: "?x no_faults (Append [9]) (w2, d3) = ((w4, d4), Inr ())" using p2 ok(3) by (rule append_works)
  have "wal_run (\<lambda>_. 0) ?s0
      [(Append [7], Inr ()), (Rotate, Inr ()), (Append [8], Inl (OtherError ''disk full'')), (Append [9], Inr ())] (w4, d4)"
    by (intro wal_run.wal_next [OF _ x1] wal_run.wal_next [OF _ x2] wal_run.wal_next [OF _ x3] wal_run.wal_next [OF _ x4] wal_run.wal_stop)
      (simp_all add: numbers_left_def n1 fresh_wal_def)
  then show ?thesis ..
qed

text \<open>A log with one acknowledged record, and the folder after a second append stopped early.\<close>

definition acked_wal :: wal where
  "acked_wal = fresh_wal SyncEach\<lparr>wal_durable := 9, wal_written := 9\<rparr>"

definition acked_dir :: "u8 list \<Rightarrow> wal_dir" where
  "acked_dir tail = [(segment_path 1, \<lparr>wf_bytes = encode_record (\<lambda>_. 0) 0 [7] @ tail, wf_synced = 9\<rparr>)]"

abbreviation disk_full :: faults where
  "disk_full \<equiv> \<lambda>c. if c = WriteFile then Some (3, OtherError ''disk full'') else None"

lemma acked_append: "wal_exec (\<lambda>_. 0) no_faults (Append [7]) (fresh_wal SyncEach, fresh_dir) = ((acked_wal, acked_dir []), Inr ())"
  by (simp add: wal_append_def no_faults_def forget_def put_current_pair Let_def wal_sizes acked_wal_def acked_dir_def fresh_wal_def fresh_dir_def
      sync_or_poison_def wal_current_def write_at_def sync_file_def file_new_def)

lemma acked_inv: "wal_inv (\<lambda>_. 0) (acked_wal, acked_dir []) (opened_log [] 1 [[7]])"
  using wal_exec_step [OF fresh_inv _ acked_append] by (auto simp: numbers_left_def log_step_def opened_log_def fresh_wal_def)

lemma acked_current: "wal_current (acked_wal, acked_dir tail) = \<lparr>wf_bytes = encode_record (\<lambda>_. 0) 0 [7] @ tail, wf_synced = 9\<rparr>"
  by (simp add: wal_current_def acked_wal_def acked_dir_def fresh_wal_def)

lemma acked_fields: "wal_written acked_wal = 9" "\<not> wal_poisoned acked_wal" "wal_segment acked_wal = 1" "wal_clean (acked_wal, acked_dir [])"
  by (simp_all add: acked_current wal_clean_def wal_sizes) (simp_all add: acked_wal_def fresh_wal_def)

lemma acked_torn:
  "wal_append (\<lambda>_. 0) disk_full [8] (acked_wal, acked_dir []) = ((acked_wal, acked_dir (take 3 (encode_record (\<lambda>_. 0) 9 [8]))), Inl (OtherError ''disk full''))"
  using acked_fields by (simp add: wal_append_def put_current_pair Let_def acked_current write_at_def wal_sizes) (simp add: acked_dir_def)

lemma acked_torn_inv: "wal_inv (\<lambda>_. 0) (acked_wal, acked_dir (take 3 (encode_record (\<lambda>_. 0) 9 [8]))) (opened_log [] 1 [[7]])"
proof -
  have "payload_ok [8]" by (simp add: payload_ok_def wal_sizes)
  with acked_inv show ?thesis
    by (rule torn_append_current [of _ _ _ _ "[8]" disk_full 3]) (use acked_fields acked_torn in auto)
qed

lemma acked_none: "length tail = 3 \<Longrightarrow> 9 < q \<Longrightarrow> read_record_at (\<lambda>_. 0) (wf_bytes (wal_current (acked_wal, acked_dir tail))) q = None"
  by (simp add: acked_current read_record_at_def wal_sizes)

section \<open>Properties\<close>

text \<open>C2. Every run of appends, rotations, removals and resets, whichever of their system calls fail,
  behaves like the abstract log: a replay returns exactly the records the abstract run holds, oldest first.
  A successful operation has its one outcome, a failed append leaves its record in or out, a failed rotation
  changes no record, and a failed removal or reset drops whole segments from the oldest on.  The one
  exception is stated as the second outcome: some rotation of the run succeeded while bytes of a failed append
  followed the last record, and such a rotation can spoil the replay (C39); in a run that starts without
  such bytes this takes an append that failed before the rotation.  Segment numbers are taken not to wrap
  around at the end of the 64 bit range.\<close>

theorem wal_refines_log:
  assumes "wal_inv crc s lg" and "wal_run crc s es s'"
  shows "(\<exists>lg'. log_run (wal_mode (fst s)) lg es lg' \<and> wal_inv crc s' lg' \<and> wal_replay_all crc s' = Inr (lg_replay lg'))
    \<or> (\<exists>es1 es2 s1. es = es1 @ (Rotate, Inr ()) # es2 \<and> wal_run crc s es1 s1 \<and> \<not> wal_clean s1
        \<and> (wal_clean s \<longrightarrow> (\<exists>p e. (Append p, Inl e) \<in> set es1)))"
  using wal_run_refines [OF assms(2, 1)] wal_replay_all_log by blast

theorem wal_refines_log_witness:
  "\<exists>s'. wal_run (\<lambda>_. 0) (fresh_wal SyncEach, fresh_dir)
      [(Append [7], Inr ()), (Rotate, Inr ()), (Append [8], Inl (OtherError ''disk full'')), (Append [9], Inr ())] s' \<and>
    wal_replay_all (\<lambda>_. 0) s' \<in> {Inr [[7], [9]], Inr [[7], [8], [9]]}"
proof -
  let ?es = "[(Append [7], Inr ()), (Rotate, Inr ()), (Append [8], Inl (OtherError ''disk full'')), (Append [9], Inr ())]"
  let ?s0 = "(fresh_wal SyncEach, fresh_dir)"
  obtain s' where run: "wal_run (\<lambda>_. 0) ?s0 ?es s'" using torn_run ..
  have clean: "wal_clean ?s0" by (simp add: wal_clean_def wal_current_def fresh_wal_def fresh_dir_def file_new_def)
  have "\<not> (\<exists>es1 es2 s1. ?es = es1 @ (Rotate, Inr ()) # es2 \<and> wal_run (\<lambda>_. 0) ?s0 es1 s1 \<and> \<not> wal_clean s1
        \<and> (wal_clean ?s0 \<longrightarrow> (\<exists>p e. (Append p, Inl e) \<in> set es1)))"
    using clean by (auto simp: Cons_eq_append_conv)
  then obtain lg' where "log_run SyncEach (opened_log [] 1 []) ?es lg'" "wal_replay_all (\<lambda>_. 0) s' = Inr (lg_replay lg')"
    using wal_refines_log [OF fresh_inv run] by (simp only: fresh_wal_def fst_conv wal.simps) blast
  then have "wal_replay_all (\<lambda>_. 0) s' \<in> {Inr [[7], [9]], Inr [[7], [8], [9]]}"
    by (auto simp: log_step_def opened_log_def lg_replay_def elim!: log_run.cases)
  with run show ?thesis by blast
qed

text \<open>C5. Acknowledged records survive a power loss: reopening the folder and replaying it returns every
  record of the closed segments and every record of the newest one up to the last successful \<open>fsync\<close>, in
  order; what comes after them is what the damaged tail still decodes to.  The other outcomes are refusals,
  never a silent loss: the opening refuses the damaged tail, or, only when an earlier rotation had failed after
  it created the next file, the folder opens and the replay refuses the segment.  A power loss keeps the
  directory entries and the synced bytes of each file and leaves anything behind them.\<close>

theorem wal_power_loss:
  assumes "wal_inv crc (w, d) lg" and "power_loss d d'"
  shows "(\<exists>d2 w2 more. wal_open crc no_faults mode (Folder d') = (Folder d2, Inr w2) \<and>
      wal_replay_all crc (w2, d2) = Inr (concat (map snd (lg_closed lg)) @ take (lg_durable lg) (lg_records lg) @ more)) \<or>
    (\<not> lg_orphan lg \<and> (\<exists>msg. wal_open crc no_faults mode (Folder d') = (Folder d', Inl (InvalidData msg)))) \<or>
    (lg_orphan lg \<and> (\<exists>d2 w2 msg. wal_open crc no_faults mode (Folder d') = (Folder d2, Inr w2) \<and>
      wal_replay_all crc (w2, d2) = Inl (in_segment (lg_number lg) (InvalidData msg))))"
  using power_loss_open [OF assms(1) _ assms(2), of mode] power_loss_orphan [OF assms(1) _ assms(2), of mode] by blast

theorem wal_power_loss_witness:
  "wal_append (\<lambda>_. 0) disk_full [8] (acked_wal, acked_dir []) =
     ((acked_wal, acked_dir (take 3 (encode_record (\<lambda>_. 0) 9 [8]))), Inl (OtherError ''disk full'')) \<and>
   power_loss (acked_dir (take 3 (encode_record (\<lambda>_. 0) 9 [8]))) (acked_dir [1, 2, 3]) \<and>
   ((\<exists>d2 w2 more. wal_open (\<lambda>_. 0) no_faults SyncEach (Folder (acked_dir [1, 2, 3])) = (Folder d2, Inr w2) \<and>
       wal_replay_all (\<lambda>_. 0) (w2, d2) = Inr ([7] # more)) \<or>
    (\<exists>msg. wal_open (\<lambda>_. 0) no_faults SyncEach (Folder (acked_dir [1, 2, 3])) = (Folder (acked_dir [1, 2, 3]), Inl (InvalidData msg))))"
proof -
  have pl: "power_loss (acked_dir (take 3 (encode_record (\<lambda>_. 0) 9 [8]))) (acked_dir [1, 2, 3])"
    by (auto simp: power_loss_def acked_dir_def wal_sizes)
  with acked_torn wal_power_loss [OF acked_torn_inv pl, of SyncEach] show ?thesis by (simp add: opened_log_def)
qed

text \<open>C24. An append whose write stops anywhere inside its record is undone by the next opening: after a crash in
  the state the failed append leaves, the folder opens and a replay returns exactly the records from before.  When an earlier rotation had
  failed after it created the next file and the append wrote anything, the folder opens but the replay refuses the
  torn segment.  No position behind the last record may happen to start a valid record (the start of the torn
  record needs no such condition if nothing followed the last record before).\<close>

theorem wal_torn_append_recovers:
  assumes "wal_inv crc (w, d) lg" and "payload_ok p" and "\<not> wal_poisoned w"
    and "f WriteFile = Some (n, e)" and "n < length (encode_record crc (wal_written w) p)"
    and "wal_append crc f p (w, d) = ((w1, d1), r)"
    and "\<forall>q > wal_written w. read_record_at crc (wf_bytes (wal_current (w1, d1))) q = None"
    and "wal_clean (w, d) \<or> read_record_at crc (wf_bytes (wal_current (w1, d1))) (wal_written w) = None"
  shows "r = Inl e \<and> (\<exists>d2 w2. wal_open crc no_faults mode (Folder d1) = (Folder d2, Inr w2) \<and>
    (if lg_orphan lg \<and> \<not> wal_clean (w1, d1) then \<exists>msg. wal_replay_all crc (w2, d2) = Inl (in_segment (lg_number lg) (InvalidData msg))
     else wal_replay_all crc (w2, d2) = Inr (lg_replay lg)))"
proof -
  obtain d' where ap: "wal_append crc f p (w, d) = ((w, d'), Inl e)" and inv: "wal_inv crc (w, d') lg"
    and fl: "wal_current (w, d') = write_at (wal_written w) (take n (encode_record crc (wal_written w) p)) (wal_current (w, d))"
    using assms(1-4) by (rule torn_append_current)
  have same: "w1 = w" "d1 = d'" "r = Inl e" using ap assms(6) by simp_all
  have "read_record_at crc (wf_bytes (wal_current (w, d'))) (wal_written w) = None" if "wal_clean (w, d)"
    using assms(2, 5) that fl by (intro read_record_at_torn [of p _ "wf_bytes (wal_current (w, d))"]) (auto simp: wal_clean_def write_at_def)
  then have "\<forall>q \<ge> wal_written w. read_record_at crc (wf_bytes (wal_current (w, d'))) q = None"
    using assms(7, 8) same by (metis le_neq_implies_less)
  then show ?thesis using junk_open [OF inv, of mode] same by simp
qed

theorem wal_torn_append_recovers_witness:
  "wal_append (\<lambda>_. 0) disk_full [8] (acked_wal, acked_dir []) =
     ((acked_wal, acked_dir (take 3 (encode_record (\<lambda>_. 0) 9 [8]))), Inl (OtherError ''disk full'')) \<and>
   (\<exists>d2 w2. wal_open (\<lambda>_. 0) no_faults SyncEach (Folder (acked_dir (take 3 (encode_record (\<lambda>_. 0) 9 [8])))) = (Folder d2, Inr w2) \<and>
     wal_replay_all (\<lambda>_. 0) (w2, d2) = Inr [[7]])"
proof -
  have "payload_ok [8]" by (simp add: payload_ok_def wal_sizes)
  then show ?thesis
    using wal_torn_append_recovers [OF acked_inv _ _ _ _ acked_torn, where mode = SyncEach and n = 3] acked_torn acked_fields acked_none
    by (simp add: wal_sizes opened_log_def lg_replay_def)
qed

text \<open>C39. An append that fails after writing part of its record leaves the part in the file, and a rotation closes
  the segment with it.  From then on a replay, and with it the recovery, is refused.\<close>

theorem dirty_rotation_breaks_replay:
  assumes inv: "wal_inv crc (w, d) lg" and "wal_clean (w, d)" and "\<not> lg_orphan lg" and "\<not> wal_poisoned w"
    and up: "lg_number lg < lg_number lg + 1" and "payload_ok p" and "0 < n" and "n < length (encode_record crc (wal_written w) p)"
    and "f WriteFile = Some (n, e)"
  shows "\<exists>s1 s2. wal_append crc f p (w, d) = (s1, Inl e) \<and> wal_rotate no_faults s1 = (s2, Inr (lg_number lg)) \<and>
    wal_replay_all crc s2 = Inl (in_segment (lg_number lg) (InvalidData ''truncated replay''))"
proof -
  note I = wal_invD [OF inv]
  from I(8) obtain junk where c: "wf_bytes (wal_current (w, d)) = segment_bytes crc 0 (lg_records lg) @ junk"
    "wal_written w = length (segment_bytes crc 0 (lg_records lg))" by (rule holds_open_current)
  with assms(2) have junk: "junk = []" by (simp add: wal_clean_def)
  let ?torn = "take n (encode_record crc (wal_written w) p)"
  let ?fl = "write_at (wal_written w) ?torn (wal_current (w, d))"
  let ?d1 = "omap_insert (segment_path (lg_number lg)) ?fl d"
  have ap: "wal_append crc f p (w, d) = ((w, ?d1), Inl e)"
    using assms(4, 6, 9) I(4) by (simp add: wal_append_def payload_ok_def put_current_pair Let_def)
  have "wal_inv crc (w, ?d1) (lg\<lparr>lg_records := lg_records lg, lg_durable := lg_durable lg\<rparr>)"
    using wal_inv_current [OF inv refl I(7), of ?fl "lg_durable lg"] holds_open_junk [OF I(1) I(8), of ?torn] I(4)
    by (simp add: put_current_pair)
  then have inv1: "wal_inv crc (w, ?d1) lg" by simp
  obtain s r where sp: "sync_or_poison no_faults (w, ?d1) = (s, r)" by fastforce
  let ?w = "w\<lparr>wal_durable := wal_written w\<rparr>" and ?fl2 = "sync_file (wal_current (w, ?d1))"
  let ?d2 = "omap_insert (segment_path (lg_number lg)) ?fl2 ?d1" and ?lg = "lg\<lparr>lg_durable := length (lg_records lg)\<rparr>"
  have sync: "r = Inr ()" "s = (?w, ?d2)" using sp I(4) by (auto simp: sync_or_poison_def no_faults_def put_current_pair)
  then have inv2: "wal_inv crc (?w, ?d2) ?lg" using sync_or_poison_cases [OF inv1 sp] I(4) by auto
  have "\<not> lg_orphan ?lg" using assms(3) by simp
  note made = wal_inv_create [OF inv2 this, simplified, OF up]
  let ?next = "lg_number lg + 1"
  let ?d3 = "omap_insert (segment_path ?next) file_new ?d2"
  let ?w3 = "?w\<lparr>wal_segment := ?next, wal_durable := 0, wal_written := 0\<rparr>"
  have ro: "wal_rotate no_faults (w, ?d1) = ((?w3, ?d3), Inr (lg_number lg))"
    using sp sync made(1) assms(4) I(4) by (simp add: wal_rotate_def no_faults_def Let_def)
  note J = wal_invD [OF made(2)]
  have "wal_current (w, ?d1) = ?fl" using I(1, 4) by (simp add: wal_current_def omap_get_insert)
  then have fl2: "wf_bytes ?fl2 = segment_bytes crc 0 (lg_records lg) @ ?torn" using c junk by (simp add: sync_file_def write_at_def)
  have "omap_get ?d3 (segment_path (lg_number lg)) = Some ?fl2" using I(1) up by (simp add: omap_get_insert omap_ok_insert)
  then have contents: "segment_contents (?w3, ?d3) (lg_number lg) = Inr (segment_bytes crc 0 (lg_records lg) @ ?torn)"
    using up fl2 by (simp add: segment_contents_def)
  have "parse_records crc (segment_bytes crc 0 (lg_records lg) @ ?torn) = Inl (InvalidData ''truncated replay'')"
    unfolding parse_records_def
    by (subst parse_records_bytes [of "lg_records lg" _ "[]" crc 0 ?torn])
      (use I(7) parse_records_torn [OF assms(6) refl _ assms(7, 8)] c(2) in auto)
  with contents have bad: "replay_segments crc (?w3, ?d3) (lg_number lg # rest) = Inl (in_segment (lg_number lg) (InvalidData ''truncated replay''))" for rest
    by simp
  have good: "replay_segments crc (?w3, ?d3) (map fst (lg_closed lg)) = Inr (concat (map snd (lg_closed lg)))"
  proof (rule replay_closed, clarify)
    fix i ps
    assume m: "(i, ps) \<in> set (lg_closed lg)"
    then have "i < lg_number lg" using lg_numbers_lt(1) [OF I(2), of i] by force
    with up have "i \<noteq> wal_segment ?w3" by auto
    moreover have "holds_closed crc ?d3 i ps" using J(6) m by simp
    ultimately show "i \<noteq> wal_segment ?w3 \<and> (\<forall>p \<in> set ps. payload_ok p) \<and> holds_closed crc ?d3 i ps"
      using I(5) [OF m] by blast
  qed
  have "wal_replay_all crc (?w3, ?d3) = Inl (in_segment (lg_number lg) (InvalidData ''truncated replay''))"
    using J(3) good bad by (simp add: wal_replay_all_def lg_numbers_def replay_segments_append del: replay_segments.simps)
  with ap ro show ?thesis by blast
qed

theorem dirty_rotation_breaks_replay_witness:
  "\<exists>s1 s2. wal_append (\<lambda>_. 0) (\<lambda>c. if c = WriteFile then Some (3, OtherError ''disk full'') else None) [7] (fresh_wal SyncEach, fresh_dir)
      = (s1, Inl (OtherError ''disk full'')) \<and> wal_rotate no_faults s1 = (s2, Inr 1) \<and>
    wal_replay_all (\<lambda>_. 0) s2 = Inl (InvalidData ''WAL segment 1: truncated replay'')"
proof -
  let ?lg = "opened_log [] 1 []"
  have "wal_clean (fresh_wal SyncEach, fresh_dir)" by (simp add: wal_clean_def wal_current_def fresh_wal_def fresh_dir_def file_new_def)
  moreover have "\<not> lg_orphan ?lg" "\<not> wal_poisoned (fresh_wal SyncEach)" "lg_number ?lg < lg_number ?lg + 1" "payload_ok [7]"
    by (simp_all add: opened_log_def fresh_wal_def payload_ok_def wal_sizes)
  moreover have "3 < length (encode_record (\<lambda>_. 0) (wal_written (fresh_wal SyncEach)) [7])" by (simp add: wal_sizes)
  moreover have "show_nat 1 = ''1''" by (simp add: show_nat.simps digit_def char_of_def bit_0)
  ultimately show ?thesis
    using dirty_rotation_breaks_replay [OF fresh_inv, where p = "[7]" and n = 3 and e = "OtherError ''disk full''"
        and f = "\<lambda>c. if c = WriteFile then Some (3, OtherError ''disk full'') else None"]
    by (simp add: opened_log_def)
qed

end
