(* ===== verification/Top_K.thy ===== *)
theory Top_K
  imports Prelude
begin

text \<open>
  \<^verbatim>\<open>crates/core-query/src/wand.rs\<close>: the bounded heap of the best hits.  Rust's \<open>BinaryHeap\<close> is the ascending
  list of its elements; in the order of \<open>HeapHit\<close> the greatest element, the last one, is the worst hit.
\<close>

section \<open>Hits\<close>

record wand_hit =
  wh_doc :: u64
  wh_score :: u64
  wh_raw :: u64
  wh_matched :: nat

text \<open>The order of \<open>HeapHit::cmp\<close>: higher scores first, then lower document ids.\<close>

definition hit_rank :: "wand_hit \<Rightarrow> int \<times> u64" where
  "hit_rank h = (- uint (wh_score h), wh_doc h)"

type_synonym hit_heap = "wand_hit list"

definition hh_push :: "wand_hit \<Rightarrow> hit_heap \<Rightarrow> hit_heap" where
  "hh_push h heap = insort_key hit_rank h heap"

definition hh_peek :: "hit_heap \<Rightarrow> wand_hit option" where
  "hh_peek heap = (if heap = [] then None else Some (last heap))"

definition hh_pop :: "hit_heap \<Rightarrow> hit_heap" where
  "hh_pop heap = butlast heap"

definition push_top_k :: "hit_heap \<Rightarrow> u64 \<Rightarrow> u64 \<Rightarrow> u64 \<Rightarrow> nat \<Rightarrow> nat \<Rightarrow> hit_heap" where
  "push_top_k heap d score raw matched k =
     (let hit = \<lparr>wh_doc = d, wh_score = score, wh_raw = raw, wh_matched = matched\<rparr>
      in if length heap < k then hh_push hit heap
         else case hh_peek heap of
                None \<Rightarrow> hh_push hit heap
              | Some worst \<Rightarrow>
                  if score > wh_score worst \<or> score = wh_score worst \<and> d < wh_doc worst
                  then hh_push hit (hh_pop heap) else heap)"

definition finish_heap :: "hit_heap \<Rightarrow> wand_hit list" where
  "finish_heap heap = sort_key hit_rank heap"

text \<open>The score a hit has to reach: 0 until the heap is full, then the score of the worst hit in it.\<close>

definition heap_threshold :: "hit_heap \<Rightarrow> nat \<Rightarrow> u64" where
  "heap_threshold heap k = (if length heap < k then 0 else case hh_peek heap of None \<Rightarrow> 0 | Some h \<Rightarrow> wh_score h)"

section \<open>The best hits\<close>

definition top_k :: "nat \<Rightarrow> wand_hit list \<Rightarrow> wand_hit list" where
  "top_k k hs = take k (sort_key hit_rank hs)"

lemma hit_rank_less: "hit_rank a < hit_rank b \<longleftrightarrow> wh_score b < wh_score a \<or> wh_score a = wh_score b \<and> wh_doc a < wh_doc b"
  by (auto simp: hit_rank_def less_prod_def word_less_def word_uint_eq_iff)

lemma hit_rank_inj: "wh_doc a \<noteq> wh_doc b \<Longrightarrow> hit_rank a \<noteq> hit_rank b"
  by (simp add: hit_rank_def)

lemma take_insort_late:
  fixes f :: "'a \<Rightarrow> 'b::linorder"
  assumes "sorted (map f ys)" and "k \<le> length (filter (\<lambda>y. f y < f x) ys)"
  shows "take k (insort_key f x ys) = take k ys"
  using assms
proof (induction ys arbitrary: k)
  case (Cons y ys)
  show ?case
  proof (cases "f x \<le> f y")
    case True
    then have "filter (\<lambda>z. f z < f x) (y # ys) = []" using Cons.prems(1) by (auto simp: filter_empty_conv intro: order_trans)
    with Cons.prems(2) show ?thesis by simp
  next
    case False
    then show ?thesis using Cons by (cases k) (auto split: if_splits)
  qed
qed simp

lemma insort_append_before:
  "ys \<noteq> [] \<Longrightarrow> f x < f (last ys) \<Longrightarrow> insort_key f x (ys @ zs) = insort_key f x ys @ zs"
  for f :: "'a \<Rightarrow> 'b::linorder"
  by (induction ys) (auto split: if_splits)

lemma insort_butlast:
  fixes f :: "'a \<Rightarrow> 'b::linorder"
  assumes "sorted (map f ys)" and "ys \<noteq> []" and "f x < f (last ys)"
  shows "insort_key f x (butlast ys) = butlast (insort_key f x ys)"
  using assms
proof (induction ys)
  case (Cons y ys)
  show ?case
  proof (cases ys)
    case Nil
    with Cons.prems show ?thesis by auto
  next
    case (Cons z zs)
    then have "insort_key f x (butlast ys) = butlast (insort_key f x ys)" using Cons.IH Cons.prems by simp
    moreover have "insort_key f x ys \<noteq> []" by (metis length_greater_0_conv length_insort zero_less_Suc)
    ultimately show ?thesis using Cons by simp
  qed
qed simp

lemma sorted_top_k: "sorted (map hit_rank (top_k k hs))"
  by (metis sorted_sort_key sorted_wrt_take take_map top_k_def)

lemma set_top_k: "set (top_k k hs) \<subseteq> set hs"
  using set_take_subset [of k "sort_key hit_rank hs"] by (simp add: top_k_def)

lemma length_top_k: "length (top_k k hs) = min k (length hs)"
  by (simp add: top_k_def)

lemma finish_top_k: "finish_heap (top_k k hs) = top_k k hs"
  unfolding finish_heap_def by (intro sort_key_id_if_sorted sorted_top_k)

lemma top_k_mset:
  assumes "mset xs = mset ys" and "distinct (map wh_doc xs)"
  shows "top_k k xs = top_k k ys"
proof -
  have "distinct (map hit_rank xs)"
    using assms(2) by (auto simp: distinct_map inj_on_def hit_rank_def)
  from sort_key_mset_eq [OF assms(1) this] show ?thesis by (simp add: top_k_def)
qed

lemma push_top_k:
  assumes "0 < k" and "d \<notin> wh_doc ` set hs"
  shows "push_top_k (top_k k hs) d score raw matched k = top_k k (\<lparr>wh_doc = d, wh_score = score, wh_raw = raw, wh_matched = matched\<rparr> # hs)"
proof -
  let ?h = "\<lparr>wh_doc = d, wh_score = score, wh_raw = raw, wh_matched = matched\<rparr>" and ?s = "sort_key hit_rank hs"
  have srt: "sorted (map hit_rank ?s)" by simp
  show ?thesis
  proof (cases "length hs < k")
    case True
    then show ?thesis
      by (simp add: push_top_k_def top_k_def hh_push_def Let_def)
  next
    case False
    then have len: "length (top_k k hs) = k" by (simp add: length_top_k)
    with assms(1) have nonempty: "top_k k hs \<noteq> []" by auto
    note len = len nonempty
    let ?worst = "last (top_k k hs)"
    have worst: "?worst = ?s ! (k - 1)"
      using len False assms(1) by (simp add: top_k_def last_conv_nth)
    have mem: "?worst \<in> set hs" using set_top_k last_in_set [OF len(2)] by blast
    then have "wh_doc ?worst \<noteq> d" using assms(2) by auto
    then have ne: "hit_rank ?worst \<noteq> hit_rank ?h" using hit_rank_inj [of ?worst ?h] by simp
    have better: "(score > wh_score ?worst \<or> score = wh_score ?worst \<and> d < wh_doc ?worst) \<longleftrightarrow> hit_rank ?h < hit_rank ?worst"
      by (simp add: hit_rank_less)
    show ?thesis
    proof (cases "hit_rank ?h < hit_rank ?worst")
      case True
      have "insort_key hit_rank ?h ?s = insort_key hit_rank ?h (top_k k hs) @ drop k ?s"
        using insort_append_before [of "top_k k hs" hit_rank ?h "drop k ?s"] len(2) True by (simp add: top_k_def)
      then have "take k (insort_key hit_rank ?h ?s) = butlast (insort_key hit_rank ?h (top_k k hs))"
        using len(1) by (simp add: butlast_conv_take)
      then show ?thesis
        using True better len sorted_top_k [of k hs]
        by (simp add: push_top_k_def hh_push_def hh_peek_def hh_pop_def insort_butlast top_k_def)
    next
      case no: False
      have all: "hit_rank x < hit_rank ?h" if "x \<in> set (top_k k hs)" for x
      proof -
        have "hit_rank x \<le> hit_rank ?worst" using sorted_le_last [OF sorted_top_k [of k hs], of "hit_rank x"] that len(2) by (simp add: last_map)
        with no ne show ?thesis by simp
      qed
      have "filter (\<lambda>y. hit_rank y < hit_rank ?h) (top_k k hs) = top_k k hs" using all by (simp add: filter_id_conv)
      then have "k \<le> length (filter (\<lambda>y. hit_rank y < hit_rank ?h) (top_k k hs @ drop k ?s))" using len(1) by simp
      then have "take k (insort_key hit_rank ?h ?s) = take k ?s" by (intro take_insort_late) (simp_all add: top_k_def)
      then show ?thesis using no better len by (auto simp: push_top_k_def hh_peek_def top_k_def)
    qed
  qed
qed

text \<open>A hit below the threshold of a full heap never counts, whatever comes later.\<close>

lemma top_k_ignore_one:
  assumes "k \<le> length (filter (\<lambda>x. hit_rank x < hit_rank h) hs)"
  shows "top_k k (h # hs) = top_k k hs"
proof -
  have "length (filter (\<lambda>x. hit_rank x < hit_rank h) (sort_key hit_rank hs)) = length (filter (\<lambda>x. hit_rank x < hit_rank h) hs)"
    by (metis mset_filter mset_sort size_mset)
  with assms show ?thesis unfolding top_k_def by (simp add: take_insort_late)
qed

lemma below_threshold:
  assumes "wh_score h < heap_threshold (top_k k hs) k"
  shows "k \<le> length (filter (\<lambda>x. hit_rank x < hit_rank h) (top_k k hs))"
proof -
  let ?t = "top_k k hs"
  have full: "k \<le> length ?t" "?t \<noteq> []" and lt: "wh_score h < wh_score (last ?t)"
    using assms by (auto simp: heap_threshold_def hh_peek_def split: if_splits)
  have "hit_rank x < hit_rank h" if "x \<in> set ?t" for x
  proof -
    have "hit_rank x \<le> hit_rank (last ?t)" using sorted_le_last [OF sorted_top_k [of k hs], of "hit_rank x"] that full(2) by (simp add: last_map)
    also have "\<dots> < hit_rank h" using lt by (simp add: hit_rank_less)
    finally show ?thesis .
  qed
  then have "filter (\<lambda>x. hit_rank x < hit_rank h) ?t = ?t" by (simp add: filter_id_conv)
  with full(1) show ?thesis by simp
qed

lemma top_k_ignore:
  assumes "\<forall>h \<in> set ds. wh_score h < heap_threshold (top_k k hs) k"
  shows "top_k k (ds @ hs @ rest) = top_k k (hs @ rest)"
  using assms
proof (induction ds)
  case (Cons h ds)
  let ?P = "\<lambda>x. hit_rank x < hit_rank h"
  have "k \<le> length (filter ?P (top_k k hs))" using Cons.prems by (intro below_threshold) simp
  also have "\<dots> \<le> length (filter ?P (sort_key hit_rank hs))"
    unfolding top_k_def by (metis append_take_drop_id filter_append le_add1 length_append)
  also have "\<dots> = length (filter ?P hs)" by (metis mset_filter mset_sort size_mset)
  also have "\<dots> \<le> length (filter ?P (ds @ hs @ rest))" by simp
  finally have "top_k k (h # ds @ hs @ rest) = top_k k (ds @ hs @ rest)" by (rule top_k_ignore_one)
  with Cons show ?case by simp
qed simp

lemma top_k_ignore_after:
  assumes "\<forall>h \<in> set ds. wh_score h < heap_threshold (top_k k hs) k" and "distinct (map wh_doc (hs @ ds @ rest))"
  shows "top_k k (hs @ ds @ rest) = top_k k (hs @ rest)"
  using top_k_ignore [OF assms(1)] top_k_mset [of "hs @ ds @ rest" "ds @ hs @ rest"] assms(2) by simp

text \<open>Pushing the verdict on a document, when there is one.\<close>

lemma new_hit_doc:
  "set (map wh_doc (if b then case v of None \<Rightarrow> [] | Some (s, r, m) \<Rightarrow> [\<lparr>wh_doc = d, wh_score = s, wh_raw = r, wh_matched = m\<rparr>] else [])) \<subseteq> {d}"
  "distinct (map wh_doc (if b then case v of None \<Rightarrow> [] | Some (s, r, m) \<Rightarrow> [\<lparr>wh_doc = d, wh_score = s, wh_raw = r, wh_matched = m\<rparr>] else []))"
  by (simp_all del: set_map add: case_prod_beta split: option.split)

lemma push_hits:
  assumes "0 < k" and "distinct (map wh_doc H)" and "d \<notin> wh_doc ` set H"
  shows "(if P d then case v of None \<Rightarrow> top_k k H | Some (s, r, m) \<Rightarrow> push_top_k (top_k k H) d s r m k else top_k k H) =
    top_k k ((if P d then case v of None \<Rightarrow> [] | Some (s, r, m) \<Rightarrow> [\<lparr>wh_doc = d, wh_score = s, wh_raw = r, wh_matched = m\<rparr>] else []) @ H)"
  using push_top_k [OF assms(1, 3)] by (auto split: option.split)

end
