(* ===== verification/Doc_Cursor.thy ===== *)
theory Doc_Cursor
  imports Top_K Posting_Ops
begin

text \<open>
  The interface between the cursors of \<^verbatim>\<open>wand.rs\<close> and the loops that drive them: what a cursor that walks an
  ascending sequence of documents promises, and what follows for a loop that evaluates the smallest document or
  skips to a later one.  A cursor over a posting list, a form (several lists in step) and a clause (a union of
  forms) each provide it.
\<close>

section \<open>Saturating sums\<close>

definition sat_sum :: "u64 list \<Rightarrow> u64" where
  "sat_sum xs = foldl saturating_add_u64 0 xs"

lemma unat_sat_add: "unat (saturating_add_u64 a b) = min (2 ^ 64 - 1) (unat a + unat b)"
  by (auto simp: saturating_add_u64_def unat_word_ariths min_def unsigned_minus_1_eq_mask mask_eq_exp_minus_1)

lemma unat_foldl_sat: "unat (foldl saturating_add_u64 a xs) = min (2 ^ 64 - 1) (unat a + sum_list (map unat xs))"
proof (induction xs arbitrary: a)
  case Nil
  then show ?case using unat_u64_lt [of a] by simp
qed (simp add: unat_sat_add)

lemma unat_sat_sum: "unat (sat_sum xs) = min (2 ^ 64 - 1) (sum_list (map unat xs))"
  by (simp add: sat_sum_def unat_foldl_sat)

lemma sat_sum_perm: "mset xs = mset ys \<Longrightarrow> sat_sum xs = sat_sum ys"
  by (rule unat_word_eqI) (metis mset_map sum_mset_sum_list unat_sat_sum)

lemma sat_sum_mono:
  assumes "mset xs \<subseteq># mset ys"
  shows "sat_sum xs \<le> sat_sum ys"
proof -
  have "sum_list (map unat xs) \<le> sum_list (map unat ys)"
    using assms by (metis image_mset_subseteq_mono mset_map subset_mset.le_iff_add sum_mset.union sum_mset_sum_list le_add1)
  then show ?thesis by (simp add: word_le_nat_alt unat_sat_sum)
qed

lemma sat_sum_map_mono:
  assumes "\<And>x. x \<in> set xs \<Longrightarrow> f x \<le> g x"
  shows "sat_sum (map f xs) \<le> sat_sum (map g xs)"
proof -
  have "sum_list (map (\<lambda>x. unat (f x)) xs) \<le> sum_list (map (\<lambda>x. unat (g x)) xs)"
    using assms by (intro sum_list_mono) (simp add: word_le_nat_alt)
  then show ?thesis by (simp add: word_le_nat_alt unat_sat_sum comp_def)
qed

lemma sat_sum_snoc: "sat_sum (xs @ [x]) = saturating_add_u64 (sat_sum xs) x"
  by (simp add: sat_sum_def)

lemma sat_sum_pos: "x \<in> set xs \<Longrightarrow> 0 < x \<Longrightarrow> 0 < sat_sum xs"
proof -
  assume "x \<in> set xs" "0 < x"
  then have "mset [x] \<subseteq># mset xs" "0 < sat_sum [x]"
    using unat_u64_lt [of x] by (simp_all add: sat_sum_def saturating_add_u64_def)
  then show ?thesis using sat_sum_mono [of "[x]" xs] by simp
qed

lemma map_filter_append: "List.map_filter f (xs @ ys) = List.map_filter f xs @ List.map_filter f ys"
  by (simp add: List.map_filter_def)

lemma set_map_filter: "set (List.map_filter f xs) = {y. \<exists>x \<in> set xs. f x = Some y}"
  by (induction xs) (auto simp: List.map_filter_simps split: option.split)

lemma sum_list_map_less:
  fixes f g :: "'a \<Rightarrow> nat"
  assumes "\<And>x. x \<in> set xs \<Longrightarrow> f x \<le> g x" and "y \<in> set xs" and "f y < g y"
  shows "sum_list (map f xs) < sum_list (map g xs)"
  using assms
proof (induction xs)
  case (Cons x xs)
  have le: "sum_list (map f xs) \<le> sum_list (map g xs)" using Cons.prems(1) by (intro sum_list_mono) simp
  show ?case
  proof (cases "y = x")
    case True
    with le Cons.prems(3) show ?thesis by simp
  next
    case False
    with Cons have "sum_list (map f xs) < sum_list (map g xs)" by simp
    moreover have "f x \<le> g x" using Cons.prems(1) by simp
    ultimately show ?thesis by simp
  qed
qed simp

lemma sum_list_retain_sort:
  fixes f :: "'a \<Rightarrow> nat"
  shows "sum_list (map f (sort_key key (filter P xs))) \<le> sum_list (map f xs)"
proof -
  have "sum_list (map f (sort_key key (filter P xs))) = sum_list (map f (filter P xs))"
    by (metis mset_map mset_sort sum_mset_sum_list)
  also have "\<dots> \<le> sum_list (map f xs)" by (induction xs) auto
  finally show ?thesis .
qed

section \<open>The interface\<close>

text \<open>A stream of documents in ascending order; \<open>past\<close> leaves the document the stream is on, and is only asked to
  leave a document that is not behind one still ahead.\<close>

locale doc_stream =
  fixes here :: "'c \<Rightarrow> u64 option" and past :: "'c \<Rightarrow> u64 \<Rightarrow> 'c" and ahead_docs :: "'c \<Rightarrow> u64 list" and good :: "'c \<Rightarrow> bool"
  assumes ascending_ahead: "good c \<Longrightarrow> ascending (ahead_docs c)"
    and here_ahead: "good c \<Longrightarrow> here c = (case ahead_docs c of [] \<Rightarrow> None | d # _ \<Rightarrow> Some d)"
    and good_past: "good c \<Longrightarrow> good (past c d)"
    and past_ahead: "good c \<Longrightarrow> \<forall>x \<in> set (ahead_docs c). d \<le> x \<Longrightarrow> ahead_docs (past c d) = (if here c = Some d then tl (ahead_docs c) else ahead_docs c)"
begin

lemma here_least: "good c \<Longrightarrow> here c = Some d \<Longrightarrow> d \<in> set (ahead_docs c) \<and> (\<forall>x \<in> set (ahead_docs c). d \<le> x)"
  using ascending_ahead [of c] by (auto simp: here_ahead split: list.splits)

lemma here_None: "good c \<Longrightarrow> here c = None \<longleftrightarrow> ahead_docs c = []"
  by (simp add: here_ahead split: list.split)

lemma least_here:
  assumes "good c" and "d \<in> set (ahead_docs c)" and "\<forall>x \<in> set (ahead_docs c). d \<le> x"
  shows "here c = Some d"
  using assms ascending_ahead [of c] by (cases "ahead_docs c") (auto simp: here_ahead)

lemma past_set: "good c \<Longrightarrow> (\<forall>x \<in> set (ahead_docs c). d \<le> x) \<Longrightarrow> set (ahead_docs (past c d)) = set (ahead_docs c) - {d}"
  using ascending_ahead [of c] least_here [of c d]
  by (cases "ahead_docs c") (auto simp: past_ahead here_ahead)

lemma past_length: "good c \<Longrightarrow> \<forall>x \<in> set (ahead_docs c). d \<le> x \<Longrightarrow> length (ahead_docs (past c d)) \<le> length (ahead_docs c)"
  by (simp add: past_ahead)

lemma past_length_less: "good c \<Longrightarrow> here c = Some d \<Longrightarrow> length (ahead_docs (past c d)) < length (ahead_docs c)"
  using past_ahead [of c d] here_least [of c d] by (auto simp: here_ahead split: list.splits)

text \<open>The documents still ahead of any of several cursors.\<close>

definition left_over :: "'c list \<Rightarrow> nat" where
  "left_over cs = sum_list (map (\<lambda>c. length (ahead_docs c)) cs)"

lemma left_over_past:
  assumes "\<forall>c \<in> set cs. good c" and "c \<in> set cs" and "here c = Some d" and "\<forall>c \<in> set cs. \<forall>x \<in> set (ahead_docs c). d \<le> x"
  shows "left_over (map (\<lambda>c. past c d) cs) < left_over cs"
  unfolding left_over_def map_map comp_def
  using assms by (intro sum_list_map_less [of _ _ _ c]) (simp_all add: past_length past_length_less)

definition all_docs :: "'c list \<Rightarrow> u64 list" where
  "all_docs cs = sort_dedup (concat (map ahead_docs cs))"

definition holding :: "'c list \<Rightarrow> u64 \<Rightarrow> 'c list" where
  "holding cs d = filter (\<lambda>c. d \<in> set (ahead_docs c)) cs"

lemma set_all_docs: "set (all_docs cs) = (\<Union>c \<in> set cs. set (ahead_docs c))"
  by (simp add: all_docs_def)

lemma ascending_all_docs: "ascending (all_docs cs)"
  by (simp add: all_docs_def)

lemma holding_here:
  assumes "\<forall>c \<in> set cs. good c" and "\<forall>x \<in> set (all_docs cs). d \<le> x"
  shows "holding cs d = filter (\<lambda>c. here c = Some d) cs"
proof -
  have "d \<in> set (ahead_docs c) \<longleftrightarrow> here c = Some d" if "c \<in> set cs" for c
    using that assms least_here [of c d] here_least [of c d] by (auto simp: set_all_docs)
  then show ?thesis by (auto simp: holding_def intro: filter_cong)
qed

lemma all_docs_past:
  assumes "\<forall>c \<in> set cs. good c" and "d \<in> set (all_docs cs)" and least: "\<forall>x \<in> set (all_docs cs). d \<le> x"
  shows "all_docs cs = d # all_docs (map (\<lambda>c. past c d) cs)"
    and "set (all_docs (map (\<lambda>c. past c d) cs)) = set (all_docs cs) - {d}"
proof -
  let ?cs = "map (\<lambda>c. past c d) cs"
  have "set (ahead_docs (past c d)) = set (ahead_docs c) - {d}" if "c \<in> set cs" for c
    using that assms by (intro past_set) (auto simp: set_all_docs)
  then show all: "set (all_docs ?cs) = set (all_docs cs) - {d}" by (auto simp: set_all_docs)
  show "all_docs cs = d # all_docs ?cs"
  proof (rule ascending_eqI)
    show "ascending (d # all_docs ?cs)" using least all by (auto simp: ascending_all_docs order_le_less)
    show "set (all_docs cs) = set (d # all_docs ?cs)" using all assms(2) by auto
  qed (rule ascending_all_docs)
qed

end

text \<open>A cursor can also seek: skip to the first document that is not below the target.\<close>

locale doc_cursor = doc_stream +
  fixes seek :: "'a \<Rightarrow> u64 \<Rightarrow> 'a"
  assumes good_seek: "good c \<Longrightarrow> good (seek c t)"
    and seek_ahead: "good c \<Longrightarrow> ahead_docs (seek c t) = filter (\<lambda>d. t \<le> d) (ahead_docs c)"
begin

lemma seek_length: "good c \<Longrightarrow> length (ahead_docs (seek c t)) \<le> length (ahead_docs c)"
  by (simp add: seek_ahead)

lemma seek_length_less:
  assumes "good c" and "here c = Some d" and "d < t"
  shows "length (ahead_docs (seek c t)) < length (ahead_docs c)"
  using assms here_least [OF assms(1, 2)] by (auto simp: seek_ahead intro!: length_filter_less [of d])

lemma left_over_seek:
  assumes "\<forall>c \<in> set ps. good c" and "c \<in> set ps" and "here c = Some d" and "d < p"
  shows "left_over (map (\<lambda>c. seek c p) ps @ qs) < left_over (ps @ qs)"
proof -
  have "sum_list (map (\<lambda>c. length (ahead_docs (seek c p))) ps) < sum_list (map (\<lambda>c. length (ahead_docs c)) ps)"
    using assms by (intro sum_list_map_less [of _ _ _ c]) (simp_all add: seek_length seek_length_less)
  then show ?thesis by (simp add: left_over_def comp_def)
qed

end

text \<open>Something is shown of every document ahead, and a document is evaluated from what the streams that hold it
  show, in any order.\<close>

locale doc_view = doc_stream +
  fixes shown :: "'a \<Rightarrow> u64 \<Rightarrow> 'v" and evaluate :: "'v list \<Rightarrow> (u64 \<times> u64 \<times> nat) option"
  assumes shown_past: "good c \<Longrightarrow> \<forall>x \<in> set (ahead_docs c). e \<le> x \<Longrightarrow> d \<in> set (ahead_docs c) \<Longrightarrow> e < d \<Longrightarrow> shown (past c e) d = shown c d"
    and evaluate_perm: "\<forall>c \<in> set cs. good c \<Longrightarrow> mset cs = mset cs' \<Longrightarrow> evaluate (map (\<lambda>c. shown c d) cs) = evaluate (map (\<lambda>c. shown c d) cs')"
begin

definition hit_of :: "(u64 \<Rightarrow> bool) \<Rightarrow> 'a list \<Rightarrow> u64 \<Rightarrow> wand_hit option" where
  "hit_of permitted cs d =
     (if permitted d
      then map_option (\<lambda>(s, r, m). \<lparr>wh_doc = d, wh_score = s, wh_raw = r, wh_matched = m\<rparr>)
             (evaluate (map (\<lambda>c. shown c d) (holding cs d)))
      else None)"

definition hits :: "(u64 \<Rightarrow> bool) \<Rightarrow> 'a list \<Rightarrow> wand_hit list" where
  "hits permitted cs = List.map_filter (hit_of permitted cs) (all_docs cs)"

lemma hit_of_doc: "hit_of P cs d = Some h \<Longrightarrow> wh_doc h = d"
  by (auto simp: hit_of_def split: if_splits)

lemma docs_of_hits: "wh_doc ` set (hits P cs) \<subseteq> set (all_docs cs)"
  by (force simp: hits_def List.map_filter_def dest: hit_of_doc)

lemma hits_distinct: "distinct (map wh_doc (hits P cs))"
proof -
  have "distinct ds \<Longrightarrow> distinct (map wh_doc (List.map_filter (hit_of P cs) ds)) \<and>
    set (map wh_doc (List.map_filter (hit_of P cs) ds)) \<subseteq> set ds" for ds
    by (induction ds) (auto simp: List.map_filter_simps split: option.split dest: hit_of_doc)
  then show ?thesis unfolding hits_def by (metis ascending_distinct ascending_all_docs)
qed

lemma hits_cong:
  assumes "set (all_docs cs) = set (all_docs cs')" and "\<And>d. d \<in> set (all_docs cs') \<Longrightarrow> hit_of P cs d = hit_of P cs' d"
  shows "hits P cs = hits P cs'"
proof -
  have "all_docs cs = all_docs cs'" using assms(1) unfolding all_docs_def by (simp add: sort_dedup_eq_iff)
  then show ?thesis using assms(2) unfolding hits_def List.map_filter_def by (auto intro!: map_cong filter_cong)
qed

lemma hits_perm:
  assumes "mset cs = mset cs'" and "\<forall>c \<in> set cs. good c"
  shows "hits P cs = hits P cs'"
proof (rule hits_cong)
  show "set (all_docs cs) = set (all_docs cs')" using mset_eq_setD [OF assms(1)] by (simp add: set_all_docs)
  fix d
  have h: "mset (holding cs d) = mset (holding cs' d)" by (simp add: holding_def assms(1))
  have "evaluate (map (\<lambda>c. shown c d) (holding cs d)) = evaluate (map (\<lambda>c. shown c d) (holding cs' d))"
    using h assms(2) by (intro evaluate_perm) (simp_all add: holding_def)
  then show "hit_of P cs d = hit_of P cs' d" by (simp add: hit_of_def)
qed

lemma hits_retain: "hits P (filter (\<lambda>c. here c \<noteq> None) cs) = hits P cs" if "\<forall>c \<in> set cs. good c"
proof (rule hits_cong)
  show "set (all_docs (filter (\<lambda>c. here c \<noteq> None) cs)) = set (all_docs cs)"
    using that here_None by (fastforce simp: set_all_docs)
  fix d
  have "\<exists>y. here c = Some y" if "c \<in> set cs" "d \<in> set (ahead_docs c)" for c
    using that \<open>\<forall>c \<in> set cs. good c\<close> here_None [of c] by fastforce
  then have "holding (filter (\<lambda>c. here c \<noteq> None) cs) d = holding cs d"
    by (auto simp: holding_def intro!: filter_cong)
  then show "hit_of P (filter (\<lambda>c. here c \<noteq> None) cs) d = hit_of P cs d" by (simp add: hit_of_def)
qed

text \<open>Evaluating the smallest document and moving every cursor on it past it.\<close>

lemma hit_of_move:
  assumes "\<And>c. c \<in> set cs \<Longrightarrow> d \<in> set (ahead_docs (f c)) \<longleftrightarrow> d \<in> set (ahead_docs c)"
    and "\<And>c. c \<in> set cs \<Longrightarrow> d \<in> set (ahead_docs c) \<Longrightarrow> shown (f c) d = shown c d"
  shows "hit_of P (map f cs) d = hit_of P cs d"
proof -
  have on: "holding (map f cs) d = map f (holding cs d)"
    using assms(1) by (auto simp: holding_def filter_map comp_def intro!: arg_cong [of _ _ "map f"] filter_cong)
  have "map (\<lambda>c. shown c d) (map f (holding cs d)) = map (\<lambda>c. shown c d) (holding cs d)"
    using assms(2) by (simp add: holding_def)
  then show ?thesis by (simp add: hit_of_def on del: map_map)
qed

lemma hits_evaluate:
  assumes "\<forall>c \<in> set cs. good c" and "d \<in> set (all_docs cs)" and least: "\<forall>x \<in> set (all_docs cs). d \<le> x"
  shows "hits P cs = (case hit_of P cs d of None \<Rightarrow> [] | Some h \<Rightarrow> [h]) @ hits P (map (\<lambda>c. past c d) cs)"
proof -
  let ?cs = "map (\<lambda>c. past c d) cs"
  note all = all_docs_past [OF assms]
  have "hit_of P ?cs x = hit_of P cs x" if "x \<in> set (all_docs ?cs)" for x
  proof (rule hit_of_move)
    have x: "d < x" using that all(2) least by (auto simp: order_le_less)
    fix c
    assume c: "c \<in> set cs"
    have "set (ahead_docs (past c d)) = set (ahead_docs c) - {d}" using c assms by (intro past_set) (auto simp: set_all_docs)
    then show "x \<in> set (ahead_docs (past c d)) \<longleftrightarrow> x \<in> set (ahead_docs c)" using x by auto
    show "x \<in> set (ahead_docs c) \<Longrightarrow> shown (past c d) x = shown c x" using c x assms(1, 3) by (intro shown_past) (auto simp: set_all_docs)
  qed
  then have "List.map_filter (hit_of P cs) (all_docs ?cs) = hits P ?cs"
    unfolding hits_def List.map_filter_def by (auto intro!: map_cong filter_cong)
  then show ?thesis unfolding hits_def [of P cs] by (subst all(1)) (simp add: List.map_filter_simps split: option.split)
qed

lemma hits_Nil: "hits P [] = []"
  by (simp add: hits_def all_docs_def sort_dedup_def List.map_filter_simps)

end

text \<open>A query that skips: \<open>reach\<close> is the test of the pivot, and what a group of cursors that does not reach the
  threshold could still hit stays below it.\<close>

locale doc_query = doc_cursor here past ahead_docs good seek + doc_view here past ahead_docs good shown evaluate
  for here :: "'c \<Rightarrow> u64 option" and past ahead_docs good seek and shown :: "'c \<Rightarrow> u64 \<Rightarrow> 'v" and evaluate +
  fixes reach :: "u64 \<Rightarrow> 'c list \<Rightarrow> bool"
  assumes shown_seek: "good c \<Longrightarrow> d \<in> set (ahead_docs c) \<Longrightarrow> t \<le> d \<Longrightarrow> shown (seek c t) d = shown c d"
    and reach_miss: "\<forall>c \<in> set cs. good c \<Longrightarrow> \<not> reach threshold cs \<Longrightarrow> mset cs' \<subseteq># mset cs \<Longrightarrow> \<forall>c \<in> set cs'. d \<in> set (ahead_docs c) \<Longrightarrow>
      evaluate (map (\<lambda>c. shown c d) cs') = Some (s, r, m) \<Longrightarrow> s < threshold"
begin

lemma hits_miss:
  assumes "\<forall>c \<in> set cs. good c" and "\<not> reach threshold cs" and "h \<in> set (hits P cs)"
  shows "wh_score h < threshold"
proof -
  from assms(3) obtain x where "hit_of P cs x = Some h" by (auto simp: hits_def List.map_filter_def)
  then obtain s r m where h: "evaluate (map (\<lambda>c. shown c x) (holding cs x)) = Some (s, r, m)" "wh_score h = s"
    by (auto simp: hit_of_def split: if_splits)
  have "mset (holding cs x) \<subseteq># mset cs" by (simp add: holding_def multiset_filter_subset)
  moreover have "\<forall>c \<in> set (holding cs x). x \<in> set (ahead_docs c)" by (simp add: holding_def)
  ultimately show ?thesis unfolding h(2) using h(1) by (rule reach_miss [OF assms(1, 2)])
qed

text \<open>Skipping: the cursors in front of the pivot move to its document.\<close>

lemma hits_skip:
  assumes good: "\<forall>c \<in> set (ps @ qs). good c" and qs: "\<And>c x. c \<in> set qs \<Longrightarrow> x \<in> set (ahead_docs c) \<Longrightarrow> p \<le> x"
    and miss: "\<not> reach threshold ps"
  obtains ds where "hits P (ps @ qs) = ds @ hits P (map (\<lambda>c. seek c p) ps @ qs)" and "\<forall>h \<in> set ds. wh_score h < threshold"
    and "set (all_docs (map (\<lambda>c. seek c p) ps @ qs)) \<subseteq> set (all_docs (ps @ qs))"
proof -
  let ?cs = "ps @ qs" and ?cs' = "map (\<lambda>c. seek c p) ps @ qs"
  have sets: "set (ahead_docs (seek c p)) = {x \<in> set (ahead_docs c). p \<le> x}" if "c \<in> set ps" for c
    using that good by (auto simp: seek_ahead)
  have all: "set (all_docs ?cs') = {x \<in> set (all_docs ?cs). p \<le> x}" using sets qs by (fastforce simp: set_all_docs)
  have late: "all_docs ?cs' = filter (\<lambda>x. p \<le> x) (all_docs ?cs)"
  proof (rule ascending_eqI)
    show "ascending (filter (\<lambda>x. p \<le> x) (all_docs ?cs))" by (simp add: ascending_all_docs sorted_wrt_filter)
    show "set (all_docs ?cs') = set (filter (\<lambda>x. p \<le> x) (all_docs ?cs))" using all by simp
  qed (rule ascending_all_docs)
  have "sorted (map (\<lambda>x. x) (all_docs ?cs))" by (simp add: ascending_all_docs ascending_sorted)
  then have split: "all_docs ?cs = filter (\<lambda>x. x < p) (all_docs ?cs) @ all_docs ?cs'"
    using sorted_by_key_split [of "\<lambda>x. x" "all_docs ?cs" p] by (simp add: late not_less)
  have "hit_of P ?cs' x = hit_of P ?cs x" if "x \<in> set (all_docs ?cs')" for x
  proof -
    have x: "p \<le> x" using that all by simp
    have on: "holding ?cs' x = map (\<lambda>c. seek c p) (holding ps x) @ holding qs x"
      using sets x by (auto simp: holding_def filter_map comp_def intro!: arg_cong [of _ _ "map (\<lambda>c. seek c p)"] filter_cong)
    have sk: "map (\<lambda>c. shown c x) (map (\<lambda>c. seek c p) (holding ps x)) = map (\<lambda>c. shown c x) (holding ps x)"
      using good x by (auto simp: holding_def shown_seek)
    have "holding ?cs x = holding ps x @ holding qs x" by (simp add: holding_def)
    then show ?thesis by (simp add: hit_of_def on comp_def sk [unfolded map_map comp_def])
  qed
  then have rest: "List.map_filter (hit_of P ?cs) (all_docs ?cs') = hits P ?cs'"
    unfolding hits_def List.map_filter_def by (auto intro!: map_cong filter_cong)
  let ?ds = "List.map_filter (hit_of P ?cs) (filter (\<lambda>x. x < p) (all_docs ?cs))"
  have "hits P ?cs = ?ds @ hits P ?cs'"
    by (subst hits_def, subst split) (simp add: map_filter_append rest)
  moreover have "wh_score h < threshold" if "h \<in> set ?ds" for h
  proof -
    from that obtain x where x: "x < p" "x \<in> set (all_docs ?cs)" "hit_of P ?cs x = Some h" by (auto simp: set_map_filter)
    have "holding qs x = []" using qs x(1) by (auto simp: holding_def filter_empty_conv leD)
    then have "holding ?cs x = holding ps x" by (simp add: holding_def)
    then have "hit_of P ps x = Some h" using x(3) unfolding hit_of_def by (simp only:)
    moreover have "x \<in> set (all_docs ps)" using x(1, 2) qs by (fastforce simp: set_all_docs)
    ultimately have "h \<in> set (hits P ps)" by (auto simp: hits_def set_map_filter)
    then show ?thesis using good miss by (intro hits_miss [of ps]) auto
  qed
  ultimately show thesis using that all by blast
qed

end

section \<open>The loop with a pivot\<close>

text \<open>The loop both skipping searches run: drop the exhausted cursors, sort the others by their document, find the
  pivot, and evaluate the smallest document or skip to the pivot's.\<close>

locale wand_loop = doc_query +
  fixes k :: nat and permitted :: "u64 \<Rightarrow> bool" and pivot :: "u64 \<Rightarrow> 'a list \<Rightarrow> nat option"
    and verdict :: "'a list \<Rightarrow> u64 \<Rightarrow> (u64 \<times> u64 \<times> nat) option" and loop :: "'a list \<Rightarrow> hit_heap \<Rightarrow> hit_heap"
  assumes pivot_None: "pivot threshold cs = None \<Longrightarrow> cs = [] \<or> \<not> reach threshold cs"
    and pivot_Some: "pivot threshold cs = Some i \<Longrightarrow> \<exists>ps t qs. cs = ps @ t # qs \<and> i = length ps \<and> reach threshold (ps @ [t]) \<and>
      (ps \<noteq> [] \<longrightarrow> \<not> reach threshold ps)"
    and verdict_here: "\<forall>c \<in> set cs. good c \<Longrightarrow> mset ps \<subseteq># mset (filter (\<lambda>c. here c = Some d) cs) \<Longrightarrow> reach threshold ps \<Longrightarrow>
      verdict cs d = evaluate (map (\<lambda>c. shown c d) (filter (\<lambda>c. here c = Some d) cs))"
    and loop_end: "filter (\<lambda>c. here c \<noteq> None) cs = [] \<Longrightarrow> loop cs heap = heap"
    and loop_turn: "filter (\<lambda>c. here c \<noteq> None) cs \<noteq> [] \<Longrightarrow> vs = sort_key (\<lambda>c. the (here c)) (filter (\<lambda>c. here c \<noteq> None) cs) \<Longrightarrow>
      loop cs heap =
        (case pivot (heap_threshold heap k) vs of
           None \<Rightarrow> heap
         | Some i \<Rightarrow>
             let p = the (here (vs ! i))
             in if the (here (vs ! 0)) = p
                then loop (map (\<lambda>c. past c p) vs)
                  (if permitted p
                   then case verdict vs p of None \<Rightarrow> heap | Some (s, r, m) \<Rightarrow> push_top_k heap p s r m k
                   else heap)
                else loop (map (\<lambda>c. seek c p) (take i vs) @ drop i vs) heap)"
begin

lemma left_over_retain: "left_over (sort_key f (filter P cs)) \<le> left_over cs"
  unfolding left_over_def by (rule sum_list_retain_sort)

text \<open>The cursors that are left, in order.\<close>

lemma first_least:
  assumes "\<forall>c \<in> set vs. good c \<and> here c \<noteq> None" and "sorted (map (\<lambda>c. the (here c)) vs)" and "vs = ps @ t # qs"
  shows "\<forall>x \<in> set (all_docs vs). the (here (vs ! 0)) \<le> x"
    and "\<And>c x. c \<in> set (t # qs) \<Longrightarrow> x \<in> set (ahead_docs c) \<Longrightarrow> the (here t) \<le> x"
proof -
  have least: "the (here c) \<le> x" if "c \<in> set vs" "x \<in> set (ahead_docs c)" for c x
    using assms(1) that here_least [of c] by fastforce
  have "the (here (vs ! 0)) \<le> the (here c)" if "c \<in> set vs" for c using assms(2) that by (cases vs) auto
  with least show "\<forall>x \<in> set (all_docs vs). the (here (vs ! 0)) \<le> x" by (fastforce simp: set_all_docs)
  fix c x
  assume c: "c \<in> set (t # qs)" and x: "x \<in> set (ahead_docs c)"
  then have "the (here t) \<le> the (here c)" using assms(2) by (auto simp: assms(3) sorted_append)
  also have "\<dots> \<le> x" using c x by (intro least) (auto simp: assms(3))
  finally show "the (here t) \<le> x" .
qed

lemma turn_evaluate:
  assumes vs: "\<forall>c \<in> set vs. good c \<and> here c \<noteq> None" "sorted (map (\<lambda>c. the (here c)) vs)" "vs = ps @ t # qs"
    and reach: "reach threshold (ps @ [t])" and same: "the (here (vs ! 0)) = the (here t)"
  defines "d \<equiv> the (here t)"
  shows "hits P vs = (if P d then case verdict vs d of None \<Rightarrow> [] | Some (s, r, m) \<Rightarrow> [\<lparr>wh_doc = d, wh_score = s, wh_raw = r, wh_matched = m\<rparr>] else [])
      @ hits P (map (\<lambda>c. past c d) vs)"
    and "d \<in> set (all_docs vs)" and "set (all_docs (map (\<lambda>c. past c d) vs)) = set (all_docs vs) - {d}"
proof -
  have good: "\<forall>c \<in> set vs. good c" and t: "t \<in> set vs" "here t = Some d" using vs(1) by (auto simp: vs(3) d_def)
  have least: "\<forall>x \<in> set (all_docs vs). d \<le> x" using first_least(1) [OF vs] same by (simp add: d_def)
  show mem: "d \<in> set (all_docs vs)" using t good here_least [of t d] by (auto simp: set_all_docs)
  show "set (all_docs (map (\<lambda>c. past c d) vs)) = set (all_docs vs) - {d}" by (rule all_docs_past(2) [OF good mem least])
  have "here c = Some d" if "c \<in> set (ps @ [t])" for c
  proof -
    have c: "c \<in> set vs" using that by (auto simp: vs(3))
    have "the (here c) \<le> d" using vs(2) that by (auto simp: vs(3) d_def sorted_append)
    moreover have "the (here (vs ! 0)) \<le> the (here c)" using vs(2) c by (cases vs) auto
    ultimately show ?thesis using vs(1) c same by (auto simp: d_def)
  qed
  then have "mset (ps @ [t]) \<subseteq># mset (filter (\<lambda>c. here c = Some d) vs)" by (simp add: vs(3) filter_id_conv)
  from verdict_here [OF good this reach]
  have "hit_of P vs d = (if P d then map_option (\<lambda>(s, r, m). \<lparr>wh_doc = d, wh_score = s, wh_raw = r, wh_matched = m\<rparr>) (verdict vs d) else None)"
    unfolding hit_of_def holding_here [OF good least] by simp
  then show "hits P vs = (if P d then case verdict vs d of None \<Rightarrow> [] | Some (s, r, m) \<Rightarrow> [\<lparr>wh_doc = d, wh_score = s, wh_raw = r, wh_matched = m\<rparr>] else [])
      @ hits P (map (\<lambda>c. past c d) vs)"
    unfolding hits_evaluate [OF good mem least, of P] by (auto split: option.split)
qed

theorem loop_exact:
  assumes "\<forall>c \<in> set cs. good c" and "0 < k" and "distinct (map wh_doc H)" and "wh_doc ` set H \<inter> set (all_docs cs) = {}"
  shows "loop cs (top_k k H) = top_k k (H @ hits permitted cs)"
  using assms
proof (induction "left_over cs" arbitrary: cs H rule: less_induct)
  case less
  let ?us = "filter (\<lambda>c. here c \<noteq> None) cs" and ?heap = "top_k k H" and ?key = "\<lambda>c. the (here c)"
  define vs where "vs = sort_key ?key ?us"
  have good: "\<forall>c \<in> set vs. good c" and vs: "\<forall>c \<in> set vs. good c \<and> here c \<noteq> None" "sorted (map ?key vs)"
    using less.prems(1) by (auto simp: vs_def)
  have eq: "hits permitted cs = hits permitted vs"
    by (rule trans [OF hits_retain [OF less.prems(1), symmetric] hits_perm]) (use less.prems(1) in \<open>simp_all add: vs_def\<close>)
  have fresh: "wh_doc ` set H \<inter> set (all_docs vs) = {}" using less.prems(4) by (auto simp: set_all_docs vs_def)
  have dist: "distinct (map wh_doc (H @ hits permitted vs))"
    using less.prems(3) hits_distinct [of permitted vs] docs_of_hits [of permitted vs] fresh by (auto 4 3)
  have left: "left_over vs \<le> left_over cs" unfolding vs_def by (rule left_over_retain)
  show ?case
  proof (cases "?us = []")
    case True
    then have "vs = []" by (simp add: vs_def)
    with True show ?thesis by (simp add: loop_end eq hits_Nil)
  next
    case ne: False
    have "length vs = length ?us" by (simp add: vs_def)
    with ne have vs_ne: "vs \<noteq> []" by (cases vs) simp_all
    show ?thesis
    proof (cases "pivot (heap_threshold ?heap k) vs")
      case None
      have "\<not> reach (heap_threshold ?heap k) vs" using pivot_None [OF None] vs_ne by simp
      then have "top_k k (H @ hits permitted vs @ []) = top_k k (H @ [])"
        using hits_miss [OF good] dist by (intro top_k_ignore_after) simp_all
      with None show ?thesis by (simp add: loop_turn [OF ne vs_def] eq)
    next
      case (Some i)
      obtain ps t qs where piv: "vs = ps @ t # qs" "i = length ps" "reach (heap_threshold ?heap k) (ps @ [t])"
        "ps \<noteq> [] \<longrightarrow> \<not> reach (heap_threshold ?heap k) ps" using pivot_Some [OF Some] by blast
      then have nth: "vs ! i = t" "take i vs = ps" "drop i vs = t # qs" by simp_all
      note loop = loop_turn [OF ne vs_def, of ?heap, unfolded Some option.case nth Let_def]
      show ?thesis
      proof (cases "?key (vs ! 0) = ?key t")
        case True
        let ?d = "?key t" and ?ws = "map (\<lambda>c. past c (?key t)) vs"
        note E = turn_evaluate(1) [OF vs piv(1, 3) True, of permitted] turn_evaluate(2, 3) [OF vs piv(1, 3) True]
        have d: "?d \<notin> wh_doc ` set H" using fresh E(2) by blast
        define new where "new = (if permitted ?d then case verdict vs ?d of None \<Rightarrow> []
          | Some (s, r, m) \<Rightarrow> [\<lparr>wh_doc = ?d, wh_score = s, wh_raw = r, wh_matched = m\<rparr>] else [])"
        have doc: "set (map wh_doc new) \<subseteq> {?d}" "distinct (map wh_doc new)"
          unfolding new_def by (rule new_hit_doc)+
        have turn_least: "\<forall>c \<in> set vs. \<forall>x \<in> set (ahead_docs c). ?d \<le> x" using first_least(1) [OF vs piv(1)] True by (auto simp: set_all_docs)
        have "here t = Some ?d" using vs(1) by (auto simp: piv(1))
        then have "left_over ?ws < left_over vs" using turn_least
          by (intro left_over_past [OF good, of t]) (simp_all add: piv(1))
        then have "loop ?ws (top_k k (new @ H)) = top_k k ((new @ H) @ hits permitted ?ws)"
          using good less.prems(2, 3) doc d fresh E(3) left by (intro less.hyps) (auto intro: good_past)
        also have "\<dots> = top_k k (H @ hits permitted vs)"
          using dist unfolding E(1) [folded new_def] by (intro top_k_mset [symmetric]) simp_all
        finally show ?thesis
          using True push_hits [OF less.prems(2, 3) d, where P = permitted and v = "verdict vs ?d", folded new_def] by (simp add: loop eq)
      next
        case False
        let ?ws = "map (\<lambda>c. seek c (?key t)) ps @ t # qs"
        have "ps \<noteq> []" using False piv(1) by (cases ps) auto
        then have miss: "\<not> reach (heap_threshold ?heap k) ps" and first: "vs ! 0 \<in> set ps" using piv(4) by (auto simp: piv(1) nth_append)
        obtain ds where ds: "hits permitted vs = ds @ hits permitted ?ws" "\<forall>h \<in> set ds. wh_score h < heap_threshold ?heap k"
          "set (all_docs ?ws) \<subseteq> set (all_docs vs)"
          unfolding piv(1) by (rule hits_skip [OF good [unfolded piv(1)] first_least(2) [OF vs piv(1)] miss, where P = permitted]) assumption+
        have "?key (vs ! 0) < ?key t" using first vs(2) False by (auto simp: piv(1) sorted_append nth_append order_le_less)
        moreover have "here (vs ! 0) = Some (?key (vs ! 0))" "\<forall>c \<in> set ps. good c" using vs(1) first by (auto simp: piv(1))
        ultimately have "left_over ?ws < left_over vs" unfolding piv(1) using first by (intro left_over_seek [of ps "vs ! 0"]) (simp_all add: piv(1))
        then have "loop ?ws ?heap = top_k k (H @ hits permitted ?ws)"
          using good less.prems(2, 3) fresh ds(3) left by (intro less.hyps) (auto simp: piv(1) intro: good_seek)
        also have "\<dots> = top_k k (H @ ds @ hits permitted ?ws)"
          using ds(2) dist by (intro top_k_ignore_after [symmetric]) (auto simp: ds(1))
        finally show ?thesis using False by (simp add: loop eq ds(1))
      qed
    qed
  qed
qed

end

section \<open>Cursors over posting lists\<close>

definition cursor_past :: "posting_cursor \<Rightarrow> u64 \<Rightarrow> posting_cursor" where
  "cursor_past c d = (if cursor_doc_id c = Some d then cursor_next c else c)"

definition cursor_ahead :: "posting_cursor \<Rightarrow> u64 list" where
  "cursor_ahead c = map doc_id (drop (index c) (postings c))"

definition cursor_good :: "posting_cursor \<Rightarrow> bool" where
  "cursor_good c \<longleftrightarrow> ascending (map doc_id (postings c)) \<and> index c \<le> length (postings c)"

lemma cursor_here: "cursor_doc_id c = (case cursor_ahead c of [] \<Rightarrow> None | d # _ \<Rightarrow> Some d)"
proof (cases "index c < length (postings c)")
  case True
  then have "drop (index c) (postings c) = postings c ! index c # drop (Suc (index c)) (postings c)" by (simp add: Cons_nth_drop_Suc)
  with True show ?thesis by (simp add: cursor_doc_id_def slice_get_def cursor_ahead_def)
qed (simp add: cursor_doc_id_def slice_get_def cursor_ahead_def)

lemma drop_split_at: "i \<le> n \<Longrightarrow> drop i xs = drop i (take n xs) @ drop n xs"
proof (induction xs arbitrary: i n)
  case (Cons x xs)
  then show ?case by (cases i; cases n) auto
qed simp

lemma cursor_seek_ahead:
  assumes "cursor_good c"
  shows "cursor_ahead (advance_to c t) = filter (\<lambda>d. t \<le> d) (cursor_ahead c)"
proof -
  have srt: "sorted (map doc_id (postings c))" using assms by (simp add: cursor_good_def ascending_sorted)
  let ?pp = "partition_point (\<lambda>p. doc_id p < t) (postings c)"
  have "filter (\<lambda>p. \<not> doc_id p < t) (drop (index c) (postings c)) = drop (max (index c) ?pp) (postings c)"
  proof -
    have "drop ?pp (postings c) = filter (\<lambda>p. \<not> doc_id p < t) (postings c)"
      using dropWhile_eq_filter_sorted [OF srt, of "\<lambda>p. doc_id p < t"] by (auto simp: drop_partition_point)
    moreover have "take ?pp (postings c) = filter (\<lambda>p. doc_id p < t) (postings c)"
      using takeWhile_eq_filter_sorted [OF srt, of "\<lambda>p. doc_id p < t"] by (auto simp: take_partition_point)
    ultimately have tp: "\<forall>p \<in> set (take ?pp (postings c)). doc_id p < t" and dp: "\<forall>p \<in> set (drop ?pp (postings c)). \<not> doc_id p < t"
      by auto
    show ?thesis
    proof (cases "?pp \<le> index c")
      case True
      then have "set (drop (index c) (postings c)) \<subseteq> set (drop ?pp (postings c))" by (rule set_drop_subset_set_drop)
      with dp have "filter (\<lambda>p. \<not> doc_id p < t) (drop (index c) (postings c)) = drop (index c) (postings c)"
        unfolding filter_id_conv by blast
      with True show ?thesis by (simp add: max_def)
    next
      case False
      have "drop (index c) (postings c) = drop (index c) (take ?pp (postings c)) @ drop ?pp (postings c)"
        using False by (intro drop_split_at) simp
      then have "filter (\<lambda>p. \<not> doc_id p < t) (drop (index c) (postings c)) =
        filter (\<lambda>p. \<not> doc_id p < t) (drop (index c) (take ?pp (postings c))) @ filter (\<lambda>p. \<not> doc_id p < t) (drop ?pp (postings c))"
        by (metis filter_append)
      moreover have "filter (\<lambda>p. \<not> doc_id p < t) (drop (index c) (take ?pp (postings c))) = []"
        unfolding filter_empty_conv using tp by (meson in_set_dropD)
      moreover have "filter (\<lambda>p. \<not> doc_id p < t) (drop ?pp (postings c)) = drop ?pp (postings c)"
        using dp by (simp only: filter_id_conv)
      ultimately show ?thesis using False by (simp add: max_def)
    qed
  qed
  then show ?thesis by (simp add: cursor_ahead_def advance_to_eq [OF srt] filter_map comp_def not_less)
qed

lemma cursor_seek_position:
  assumes "cursor_good c" and "d \<in> set (cursor_ahead c)"
  shows "index c \<le> partition_point (\<lambda>p. doc_id p < d) (postings c)"
proof (rule ccontr)
  let ?pp = "partition_point (\<lambda>p. doc_id p < d) (postings c)"
  assume "\<not> index c \<le> ?pp"
  then have lt: "?pp < index c" by simp
  obtain j where j: "index c \<le> j" "j < length (postings c)" "doc_id (postings c ! j) = d"
  proof -
    from assms(2) obtain i where "i < length (postings c) - index c" "doc_id (postings c ! (index c + i)) = d"
      by (auto simp: cursor_ahead_def in_set_conv_nth)
    then show thesis using that [of "index c + i"] by simp
  qed
  have "\<not> doc_id (postings c ! ?pp) < d" using lt assms(1) by (intro partition_point_stop) (simp add: cursor_good_def)
  moreover have "doc_id (postings c ! ?pp) < doc_id (postings c ! j)"
    using assms(1) lt j by (auto simp: cursor_good_def sorted_wrt_iff_nth_less)
  ultimately show False using j(3) by simp
qed

lemma partition_point_doc_mono:
  "t \<le> d \<Longrightarrow> partition_point (\<lambda>p. doc_id p < t) ps \<le> partition_point (\<lambda>p. doc_id p < d) ps"
  unfolding partition_point_def by (induction ps) auto

lemma cursor_past_ahead: "cursor_ahead (cursor_past c d) = (if cursor_doc_id c = Some d then tl (cursor_ahead c) else cursor_ahead c)"
  by (auto simp: cursor_past_def cursor_next_def is_exhausted_def cursor_ahead_def cursor_doc_id_def slice_get_def drop_Suc tl_drop split: if_splits simp flip: map_tl)

interpretation pc: doc_cursor cursor_doc_id cursor_past cursor_ahead cursor_good advance_to
proof
  fix c t d
  assume g: "cursor_good c"
  then have srt: "sorted (map doc_id (postings c))" by (simp add: cursor_good_def ascending_sorted)
  show "ascending (cursor_ahead c)" using g by (simp add: cursor_good_def cursor_ahead_def sorted_wrt_drop flip: drop_map)
  show "cursor_doc_id c = (case cursor_ahead c of [] \<Rightarrow> None | d # _ \<Rightarrow> Some d)" by (rule cursor_here)
  show "cursor_good (advance_to c t)"
    using g partition_point_le [of _ "postings c"] by (simp add: cursor_good_def advance_to_eq [OF srt])
  show "cursor_ahead (advance_to c t) = filter (\<lambda>d. t \<le> d) (cursor_ahead c)" using g by (rule cursor_seek_ahead)
  show "cursor_good (cursor_past c d)"
    using g by (auto simp: cursor_good_def cursor_past_def cursor_next_def is_exhausted_def)
  show "cursor_ahead (cursor_past c d) = (if cursor_doc_id c = Some d then tl (cursor_ahead c) else cursor_ahead c)"
    by (rule cursor_past_ahead)
qed

end
