(* ===== verification/Scorer.thy ===== *)
theory Scorer
  imports Complex_Main Prelude
begin

text \<open>
  \<^verbatim>\<open>crates/core-query/src/scorer.rs\<close>: the BM25 score of one posting and the upper bound of a term's scores.

  The code computes with \<open>f32\<close>.  Its arithmetic is the parameter \<open>fl\<close>, one function per operation the
  code uses: conversions from integers, literals, the four operations, \<open>ln\<close>, \<open>ceil\<close>, \<open>min\<close>, the
  comparison and the saturating casts to integers.  \<open>exact_ops\<close> is its instance without rounding.
\<close>

section \<open>Arithmetic\<close>

record 'f float_ops =
  fl_nat :: "nat \<Rightarrow> 'f"
  fl_lit :: "rat \<Rightarrow> 'f"
  fl_add :: "'f \<Rightarrow> 'f \<Rightarrow> 'f"
  fl_sub :: "'f \<Rightarrow> 'f \<Rightarrow> 'f"
  fl_mul :: "'f \<Rightarrow> 'f \<Rightarrow> 'f"
  fl_div :: "'f \<Rightarrow> 'f \<Rightarrow> 'f"
  fl_ln :: "'f \<Rightarrow> 'f"
  fl_ceil :: "'f \<Rightarrow> 'f"
  fl_min :: "'f \<Rightarrow> 'f \<Rightarrow> 'f"
  fl_le :: "'f \<Rightarrow> 'f \<Rightarrow> bool"
  fl_u64 :: "'f \<Rightarrow> u64"
  fl_u32 :: "'f \<Rightarrow> u32"

definition BM25_K1 :: "'f float_ops \<Rightarrow> 'f" where
  "BM25_K1 fl = fl_lit fl (6 / 5)"

definition BM25_B :: "'f float_ops \<Rightarrow> 'f" where
  "BM25_B fl = fl_lit fl (3 / 4)"

definition SCORE_SCALE :: "'f float_ops \<Rightarrow> 'f" where
  "SCORE_SCALE fl = fl_lit fl 1000"

section \<open>Scores\<close>

definition bm25_idf :: "'f float_ops \<Rightarrow> u32 \<Rightarrow> u64 \<Rightarrow> 'f" where
  "bm25_idf fl doc_frequency doc_count =
     (let n = fl_nat fl (unat doc_count);
          df = fl_min fl (fl_nat fl (unat doc_frequency)) n
      in if fl_le fl n (fl_lit fl 0) \<or> fl_le fl df (fl_lit fl 0) then fl_lit fl 0
         else fl_ln fl (fl_add fl (fl_div fl (fl_add fl (fl_sub fl n df) (fl_lit fl (1 / 2)))
                                             (fl_add fl df (fl_lit fl (1 / 2)))) (fl_lit fl 1)))"

definition bm25_score :: "'f float_ops \<Rightarrow> u32 \<Rightarrow> u16 \<Rightarrow> u32 \<Rightarrow> 'f \<Rightarrow> u64 \<Rightarrow> u32 \<Rightarrow> 'f" where
  "bm25_score fl tf weight doc_len avg_doc_len doc_count doc_frequency =
     (if tf = 0 \<or> doc_count = 0 \<or> doc_frequency = 0 \<or> fl_le fl avg_doc_len (fl_lit fl 0) then fl_lit fl 0
      else let tf = fl_nat fl (unat tf);
               dl = fl_nat fl (unat doc_len);
               idf = bm25_idf fl doc_frequency doc_count;
               norm = fl_add fl (fl_sub fl (fl_lit fl 1) (BM25_B fl)) (fl_mul fl (BM25_B fl) (fl_div fl dl avg_doc_len));
               tf_component = fl_div fl (fl_mul fl tf (fl_add fl (BM25_K1 fl) (fl_lit fl 1)))
                                (fl_add fl tf (fl_mul fl (BM25_K1 fl) norm))
           in fl_mul fl (fl_mul fl (fl_nat fl (unat weight)) idf) tf_component)"

definition bm25_score_scaled :: "'f float_ops \<Rightarrow> u32 \<Rightarrow> u16 \<Rightarrow> u32 \<Rightarrow> 'f \<Rightarrow> u64 \<Rightarrow> u32 \<Rightarrow> u64" where
  "bm25_score_scaled fl tf weight doc_len avg_doc_len doc_count doc_freq =
     fl_u64 fl (fl_mul fl (bm25_score fl tf weight doc_len avg_doc_len doc_count doc_freq) (SCORE_SCALE fl))"

definition bm25_upper_bound :: "'f float_ops \<Rightarrow> u16 \<Rightarrow> u64 \<Rightarrow> u32 \<Rightarrow> u64" where
  "bm25_upper_bound fl max_weight doc_count doc_frequency =
     (if doc_count = 0 \<or> doc_frequency = 0 \<or> max_weight = 0 then 0
      else let n = fl_nat fl (unat doc_count);
               df = fl_nat fl (unat doc_frequency);
               idf = fl_ln fl (fl_add fl (fl_div fl (fl_add fl (fl_sub fl n df) (fl_lit fl (1 / 2)))
                                                    (fl_add fl df (fl_lit fl (1 / 2)))) (fl_lit fl 1));
               max_tf_component = fl_add fl (BM25_K1 fl) (fl_lit fl 1);
               max_score = fl_mul fl (fl_mul fl (fl_nat fl (unat max_weight)) idf) max_tf_component
           in fl_u64 fl (fl_ceil fl (fl_mul fl max_score (SCORE_SCALE fl))))"

text \<open>What \<open>bm25_upper_bound\<close> means to be, over all inputs: no posting of a term scores more than the term's bound,
  as long as the term is not in more documents than there are.  Arithmetic without rounding has it; rounding can break
  it for extreme term counts, so that the searches only ask it of the postings of their query.\<close>

definition bound_sound :: "'f float_ops \<Rightarrow> bool" where
  "bound_sound fl \<longleftrightarrow>
     (\<forall>tf w dl avg n df mw. w \<le> mw \<longrightarrow> unat df \<le> unat n \<longrightarrow>
        bm25_score_scaled fl tf w dl avg n df \<le> bm25_upper_bound fl mw n df)"

section \<open>Arithmetic without rounding\<close>

definition real_u64 :: "real \<Rightarrow> u64" where
  "real_u64 x = (if x < 0 then 0 else if 2 ^ 64 - 1 < x then - 1 else of_nat (nat \<lfloor>x\<rfloor>))"

definition real_u32 :: "real \<Rightarrow> u32" where
  "real_u32 x = (if x < 0 then 0 else if 2 ^ 32 - 1 < x then - 1 else of_nat (nat \<lfloor>x\<rfloor>))"

definition exact_ops :: "real float_ops" where
  "exact_ops = \<lparr>fl_nat = of_nat, fl_lit = of_rat, fl_add = (+), fl_sub = (-), fl_mul = (*), fl_div = (/), fl_ln = ln,
     fl_ceil = (\<lambda>x. of_int \<lceil>x\<rceil>), fl_min = min, fl_le = (\<le>), fl_u64 = real_u64, fl_u32 = real_u32\<rparr>"

lemma real_u64_mono:
  assumes "x \<le> y"
  shows "real_u64 x \<le> real_u64 y"
proof (cases "x < 0 \<or> 2 ^ 64 - 1 < y")
  case True
  then show ?thesis using assms by (auto simp: real_u64_def)
next
  case False
  then have b: "0 \<le> x" "y \<le> 2 ^ 64 - 1" by auto
  have "\<lfloor>x\<rfloor> \<le> \<lfloor>y\<rfloor>" using assms by (rule floor_mono)
  moreover have "\<lfloor>y\<rfloor> \<le> 2 ^ 64 - 1" using b(2) floor_mono [of y "2 ^ 64 - 1"] by simp
  moreover have "0 \<le> \<lfloor>x\<rfloor>" using b(1) by simp
  ultimately have "nat \<lfloor>x\<rfloor> \<le> nat \<lfloor>y\<rfloor>" "nat \<lfloor>y\<rfloor> < nat (2 ^ 64)" by linarith+
  then have "(of_nat (nat \<lfloor>x\<rfloor>) :: u64) \<le> of_nat (nat \<lfloor>y\<rfloor>)"
    by (simp add: word_le_nat_alt unat_of_nat nat_power_eq)
  with b assms show ?thesis by (auto simp: real_u64_def)
qed

lemma tf_component_bounds:
  assumes "0 < t" and "0 < m"
  shows "0 \<le> t * (6 / 5 + 1) / (t + 6 / 5 * m) \<and> t * (6 / 5 + 1) / (t + 6 / 5 * m) \<le> 6 / 5 + (1 :: real)"
  using assms by (simp add: divide_le_eq)

lemma exact_bm25_score_le:
  assumes "w \<le> mw" and "unat df \<le> unat n" and "n \<noteq> 0" and "df \<noteq> 0"
  defines "idf \<equiv> ln ((real (unat n) - real (unat df) + 1 / 2) / (real (unat df) + 1 / 2) + 1)"
  shows "bm25_score exact_ops tf w dl avg n df \<le> real (unat mw) * idf * (6 / 5 + 1)"
    and "bm25_score exact_ops tf w dl avg n df \<ge> 0"
proof -
  have pos: "0 < unat n" "0 < unat df" using assms(3, 4) by (auto simp: unat_gt_0)
  have reals: "real (unat df) \<le> real (unat n)" "0 < real (unat df)" "0 < real (unat n)"
    using assms(2) pos by (simp_all only: of_nat_le_iff of_nat_0_less_iff)
  then have "0 \<le> (real (unat n) - real (unat df) + 1 / 2) / (real (unat df) + 1 / 2)" by (intro divide_nonneg_nonneg) linarith+
  then have "1 \<le> (real (unat n) - real (unat df) + 1 / 2) / (real (unat df) + 1 / 2) + 1" by linarith
  then have idf0: "0 \<le> idf" unfolding idf_def by (rule ln_ge_zero)
  have idf: "bm25_idf exact_ops df n = idf"
    using reals by (simp add: bm25_idf_def exact_ops_def idf_def Let_def of_rat_divide min_def)
  have wm: "real (unat w) \<le> real (unat mw)" using assms(1) by (simp only: of_nat_le_iff word_le_nat_alt)
  have mw0: "0 \<le> real (unat mw)" "0 \<le> real (unat w)" by (rule of_nat_0_le_iff)+
  have both: "bm25_score exact_ops tf w dl avg n df \<le> real (unat mw) * idf * (6 / 5 + 1) \<and> bm25_score exact_ops tf w dl avg n df \<ge> 0"
  proof (cases "tf = 0 \<or> avg \<le> 0")
    case True
    then have "bm25_score exact_ops tf w dl avg n df = 0" by (auto simp: bm25_score_def exact_ops_def)
    with idf0 mw0 show ?thesis by (simp del: of_nat_unat)
  next
    case False
    let ?t = "real (unat tf)" and ?norm = "1 - 3 / 4 + 3 / 4 * (real (unat dl) / avg)"
    let ?c = "?t * (6 / 5 + 1) / (?t + 6 / 5 * ?norm)"
    have "0 < unat tf" using False by (simp add: unat_gt_0)
    then have t: "0 < ?t" by (simp only: of_nat_0_less_iff)
    have "0 \<le> real (unat dl) / avg" using False by (intro divide_nonneg_nonneg of_nat_0_le_iff) simp
    then have norm: "0 < ?norm" by (simp add: add_pos_nonneg)
    have c: "0 \<le> ?c" "?c \<le> 6 / 5 + 1" using tf_component_bounds [OF t norm] by blast+
    have "bm25_score exact_ops tf w dl avg n df = real (unat w) * idf * ?c"
      using False assms(3, 4)
      by (simp add: bm25_score_def idf Let_def) (simp add: exact_ops_def BM25_K1_def BM25_B_def of_rat_divide)
    moreover have "real (unat w) * idf * ?c \<le> real (unat mw) * idf * (6 / 5 + 1)"
      using wm idf0 c mw0 by (intro mult_mono) auto
    moreover have "0 \<le> real (unat w) * idf * ?c" using idf0 c(1) mw0(2) by (intro mult_nonneg_nonneg)
    ultimately show ?thesis by metis
  qed
  then show "bm25_score exact_ops tf w dl avg n df \<le> real (unat mw) * idf * (6 / 5 + 1)"
    "bm25_score exact_ops tf w dl avg n df \<ge> 0" by auto
qed

lemma exact_bound_sound: "bound_sound exact_ops"
  unfolding bound_sound_def
proof (intro allI impI)
  fix tf :: u32 and w :: u16 and dl :: u32 and avg :: real and n :: u64 and df :: u32 and mw :: u16
  assume h: "w \<le> mw" "unat df \<le> unat n"
  show "bm25_score_scaled exact_ops tf w dl avg n df \<le> bm25_upper_bound exact_ops mw n df"
  proof (cases "n = 0 \<or> df = 0 \<or> mw = 0")
    case True
    then have "n = 0 \<or> df = 0 \<or> w = 0" using h(1) by auto
    then have "bm25_score exact_ops tf w dl avg n df = 0" by (auto simp: bm25_score_def exact_ops_def Let_def)
    then show ?thesis by (simp add: bm25_score_scaled_def) (simp add: exact_ops_def real_u64_def)
  next
    case False
    let ?idf = "ln ((real (unat n) - real (unat df) + 1 / 2) / (real (unat df) + 1 / 2) + 1)"
    have "bm25_score exact_ops tf w dl avg n df * 1000 \<le> real (unat mw) * ?idf * (6 / 5 + 1) * 1000"
      using exact_bm25_score_le(1) [OF h, of tf dl avg] False by simp
    also have "\<dots> \<le> of_int \<lceil>real (unat mw) * ?idf * (6 / 5 + 1) * 1000\<rceil>" by (rule le_of_int_ceiling)
    finally have "real_u64 (bm25_score exact_ops tf w dl avg n df * 1000) \<le> real_u64 (of_int \<lceil>real (unat mw) * ?idf * (6 / 5 + 1) * 1000\<rceil>)"
      by (rule real_u64_mono)
    with False show ?thesis
      by (simp add: bm25_score_scaled_def bm25_upper_bound_def Let_def)
        (simp add: exact_ops_def BM25_K1_def SCORE_SCALE_def of_rat_divide)
  qed
qed

text \<open>Without the clamp of the document frequency that \<open>bm25_idf\<close> has, the bound is not one: for a term
  that is in more documents than are counted it is 0, below the score.\<close>

lemma bound_unsound_above_count:
  "bm25_upper_bound exact_ops 1 1 2 < bm25_score_scaled exact_ops 1 1 1 1 1 2"
proof -
  have "ln (4 / 5 :: real) < 0" by simp
  then have "\<not> 3689348814741910323 < 440 * ln (4 / 5 :: real)" "\<lceil>2200 * ln (4 / 5 :: real)\<rceil> \<le> 0" by linarith+
  then have bound: "bm25_upper_bound exact_ops 1 1 2 = 0"
    by (simp add: bm25_upper_bound_def exact_ops_def BM25_K1_def SCORE_SCALE_def of_rat_divide real_u64_def Let_def)
  have "1 / 4 \<le> ln (4 / 3 :: real)" using ln_le_minus_one [of "3 / 4 :: real"] by (simp add: ln_div)
  then have "real_u64 1 \<le> real_u64 (ln (4 / 3) * 1000)" by (intro real_u64_mono) linarith
  moreover have "real_u64 1 = 1" by (simp add: real_u64_def)
  ultimately have "real_u64 (ln (4 / 3) * 1000) \<noteq> 0" by auto
  moreover have "bm25_score_scaled exact_ops 1 1 1 1 1 2 = real_u64 (ln (4 / 3) * 1000)"
    by (simp add: bm25_score_scaled_def bm25_score_def bm25_idf_def exact_ops_def BM25_K1_def BM25_B_def SCORE_SCALE_def of_rat_divide Let_def)
  ultimately show ?thesis by (simp add: bound word_gt_0)
qed

end
