(* ===== verification/Wand.thy ===== *)
theory Wand
  imports Doc_Cursor Scorer
begin

text \<open>
  \<^verbatim>\<open>crates/core-query/src/wand.rs\<close>: top-k evaluation over the terms of several fields, with the WAND skipping of
  documents that cannot reach the current threshold, and the conjunctive evaluation.

  The statistics of the index are the trait \<open>SearchStats\<close>, here a record of its functions.  \<open>sort_unstable_by_key\<close>
  is the stable sort, which is one of its results; the theorems do not depend on the choice.
\<close>

section \<open>Statistics\<close>

record search_stats =
  ss_doc_count :: "u32 \<Rightarrow> u64"
  ss_total_doc_len :: "u32 \<Rightarrow> u64"
  ss_doc_len :: "u64 \<Rightarrow> u32 \<Rightarrow> u32 option"

definition avg_doc_len :: "'f float_ops \<Rightarrow> search_stats \<Rightarrow> u32 \<Rightarrow> 'f" where
  "avg_doc_len fl st x =
     (let count = ss_doc_count st x
      in if count = 0 then fl_lit fl 0
         else fl_div fl (fl_nat fl (unat (ss_total_doc_len st x))) (fl_nat fl (unat count)))"

text \<open>The score of a posting in a field; a document without a recorded length has the average one.\<close>

definition doc_len_or_avg :: "'f float_ops \<Rightarrow> search_stats \<Rightarrow> u32 \<Rightarrow> 'f \<Rightarrow> u64 \<Rightarrow> u32" where
  "doc_len_or_avg fl st x avg d = (case ss_doc_len st d x of Some len \<Rightarrow> len | None \<Rightarrow> fl_u32 fl avg)"

section \<open>Terms\<close>

record term_ref =
  tr_postings :: posting_list
  tr_doc_freq :: u32
  tr_max_weight :: u16

record field_terms =
  qf_xpath :: u32
  qf_terms :: "term_ref list"

record multi_field_term =
  mf_cursor :: posting_cursor
  mf_field :: nat
  mf_doc_freq :: u32
  mf_upper_bound :: u64

type_synonym 'f field_stat = "u32 \<times> u64 \<times> 'f"

definition mf_field_stats :: "'f float_ops \<Rightarrow> search_stats \<Rightarrow> field_terms list \<Rightarrow> 'f field_stat list" where
  "mf_field_stats fl st qfs =
     map (\<lambda>f. (qf_xpath f, ss_doc_count st (qf_xpath f), avg_doc_len fl st (qf_xpath f))) qfs"

definition mf_term :: "'f float_ops \<Rightarrow> nat \<Rightarrow> u64 \<Rightarrow> term_ref \<Rightarrow> multi_field_term option" where
  "mf_term fl i n_docs t =
     (let cursor = cursor_new (tr_postings t)
      in if is_exhausted cursor then None
         else Some \<lparr>mf_cursor = cursor, mf_field = i, mf_doc_freq = tr_doc_freq t,
                    mf_upper_bound = bm25_upper_bound fl (tr_max_weight t) n_docs (tr_doc_freq t)\<rparr>)"

definition mf_terms :: "'f float_ops \<Rightarrow> 'f field_stat list \<Rightarrow> field_terms list \<Rightarrow> multi_field_term list" where
  "mf_terms fl fstats qfs =
     concat (map (\<lambda>(i, f). List.map_filter (mf_term fl i (fst (snd (fstats ! i)))) (qf_terms f)) (enumerate 0 qfs))"

section \<open>The loop\<close>

definition mf_doc :: "multi_field_term \<Rightarrow> u64 option" where
  "mf_doc t = cursor_doc_id (mf_cursor t)"

text \<open>The index of the first term where the bounds so far reach the threshold.\<close>

fun find_pivot :: "('c \<Rightarrow> u64) \<Rightarrow> u64 \<Rightarrow> u64 \<Rightarrow> nat \<Rightarrow> 'c list \<Rightarrow> nat option" where
  "find_pivot upper threshold acc i [] = None"
| "find_pivot upper threshold acc i (t # ts) =
     (let acc = saturating_add_u64 acc (upper t)
      in if acc \<ge> threshold \<and> acc > 0 then Some i else find_pivot upper threshold acc (i + 1) ts)"

definition mf_posting_score :: "'f float_ops \<Rightarrow> search_stats \<Rightarrow> 'f field_stat list \<Rightarrow> u64 \<Rightarrow> multi_field_term \<Rightarrow> posting \<Rightarrow> u64" where
  "mf_posting_score fl st fstats d t p =
     (let (x, n_docs, avg) = fstats ! mf_field t
      in bm25_score_scaled fl (of_nat (length (positions p))) (weight p) (doc_len_or_avg fl st x avg d) avg n_docs (mf_doc_freq t))"

text \<open>The length of the document is looked up once per field and kept for the other terms of the field; the
  lookup has no effect, so it is repeated here.\<close>

fun mf_evaluate :: "'f float_ops \<Rightarrow> search_stats \<Rightarrow> 'f field_stat list \<Rightarrow> u64 \<Rightarrow> multi_field_term list \<Rightarrow> u64 \<times> nat \<Rightarrow> u64 \<times> nat" where
  "mf_evaluate fl st fstats d [] acc = acc"
| "mf_evaluate fl st fstats d (t # ts) (score, matched) =
     mf_evaluate fl st fstats d ts
       (if mf_doc t \<noteq> Some d then (score, matched)
        else (saturating_add_u64 score (mf_posting_score fl st fstats d t (the (cursor_current (mf_cursor t)))), matched + 1))"

definition mf_past :: "multi_field_term \<Rightarrow> u64 \<Rightarrow> multi_field_term" where
  "mf_past t d = (if mf_doc t = Some d then t\<lparr>mf_cursor := cursor_next (mf_cursor t)\<rparr> else t)"

definition mf_seek :: "multi_field_term \<Rightarrow> u64 \<Rightarrow> multi_field_term" where
  "mf_seek t d = t\<lparr>mf_cursor := advance_to (mf_cursor t) d\<rparr>"

definition restrict_ok :: "u64 set option \<Rightarrow> u64 \<Rightarrow> bool" where
  "restrict_ok restrict d \<longleftrightarrow> (case restrict of None \<Rightarrow> True | Some allowed \<Rightarrow> d \<in> allowed)"

definition cursor_left :: "posting_cursor \<Rightarrow> nat" where
  "cursor_left c = length (postings c) - index c"

lemma bisect_ge: "left \<le> bisect ps t left right"
  by (induction ps t left right rule: bisect.induct) (subst bisect.simps, fastforce simp: Let_def)

lemma gallop_pos: "0 < bound \<Longrightarrow> 0 < gallop ps start t bound"
  by (induction ps start t bound rule: gallop.induct) (subst gallop.simps, auto)

lemma index_advance: "index c \<le> index (advance_to c d)"
  by (auto simp: advance_to_def Let_def intro: order_trans [OF le_add1 bisect_ge])

lemma cursor_left_advance: "cursor_left (advance_to c d) \<le> cursor_left c"
  using index_advance [of c d] by (simp add: cursor_left_def diff_le_mono2)

lemma cursor_left_advance_less:
  assumes "cursor_doc_id c = Some x" and "x < d"
  shows "cursor_left (advance_to c d) < cursor_left c"
proof -
  have i: "index c < length (postings c)" "doc_id (postings c ! index c) = x"
    using assms(1) by (auto simp: cursor_doc_id_def slice_get_def split: if_splits)
  let ?b = "gallop (postings c) (index c) d 1"
  let ?r = "min (index c + ?b + 1) (length (postings c))"
  have "index c < bisect (postings c) d (index c + ?b div 2) ?r"
  proof (cases "?b div 2 = 0")
    case False
    then show ?thesis using bisect_ge [of "index c + ?b div 2" "postings c" d ?r] by linarith
  next
    case True
    then have b: "?b = 1" using gallop_pos [of 1 "postings c" "index c" d] by auto
    let ?mid = "index c + (?r - index c) div 2"
    have r: "index c < ?r" using i(1) by simp
    have "bisect (postings c) d (index c) ?r =
      (if doc_id (postings c ! ?mid) < d then bisect (postings c) d (?mid + 1) ?r else bisect (postings c) d (index c) ?mid)"
      using r by (subst bisect.simps) (simp add: Let_def)
    moreover have "?mid = index c \<or> (?mid = index c + 1 \<and> index c + 1 < length (postings c))" using b i(1) by (auto simp: min_def)
    moreover have "bisect (postings c) d (index c) (index c + 1) = bisect (postings c) d (index c + 1) (index c + 1)"
      using i assms(2) by (subst bisect.simps) (simp add: Let_def)
    ultimately show ?thesis
      using i assms(2) bisect_ge [of "?mid + 1" "postings c" d ?r] bisect_ge [of "index c + 1" "postings c" d "index c + 1"] b
      by (auto split: if_splits)
  qed
  then show ?thesis
    using i assms(2) by (simp add: cursor_left_def advance_to_def is_exhausted_def Let_def not_le)
qed

lemma cursor_left_next: "cursor_left (cursor_next c) \<le> cursor_left c"
  by (simp add: cursor_left_def cursor_next_def diff_le_mono2)

lemma cursor_left_next_less: "cursor_doc_id c = Some d \<Longrightarrow> cursor_left (cursor_next c) < cursor_left c"
  by (auto simp: cursor_left_def cursor_next_def is_exhausted_def cursor_doc_id_def slice_get_def split: if_splits)

text \<open>Every turn of the loop moves a cursor.\<close>

lemma find_pivot_range: "find_pivot upper threshold acc i ts = Some j \<Longrightarrow> i \<le> j \<and> j < i + length ts"
proof (induction upper threshold acc i ts rule: find_pivot.induct)
  case (2 upper threshold acc i t ts)
  then show ?case by (auto simp: Let_def split: if_splits dest: Suc_leD)
qed simp

definition mf_left :: "multi_field_term \<Rightarrow> nat" where
  "mf_left t = cursor_left (mf_cursor t)"

definition mf_key :: "multi_field_term \<Rightarrow> u64" where
  "mf_key t = the (mf_doc t)"

lemma mf_evaluate_turn:
  assumes "t \<in> set ts" and "mf_doc t = Some d"
  shows "sum_list (map mf_left (map (\<lambda>t. mf_past t d) ts)) < sum_list (map mf_left ts)"
proof -
  have "mf_left (mf_past t d) \<le> mf_left t" for t by (simp add: mf_left_def mf_past_def cursor_left_next)
  moreover have "mf_left (mf_past t d) < mf_left t"
    using assms(2) cursor_left_next_less [of "mf_cursor t" d] by (simp add: mf_left_def mf_past_def mf_doc_def)
  ultimately show ?thesis using assms(1) by (simp add: comp_def sum_list_map_less)
qed

lemma mf_skip_turn:
  assumes "ts = sort_key mf_key us" and "\<forall>t \<in> set us. mf_doc t \<noteq> None" and "i < length ts" and "mf_key (ts ! 0) \<noteq> mf_key (ts ! i)"
  shows "sum_list (map mf_left (map (\<lambda>t. mf_seek t (mf_key (ts ! i))) (take i ts) @ drop i ts)) < sum_list (map mf_left ts)"
proof -
  let ?d = "mf_key (ts ! i)"
  have i: "0 < i" using assms(4) by (cases i) auto
  have "sorted (map mf_key ts)" using assms(1) by simp
  then have "mf_key (ts ! 0) \<le> ?d" using sorted_nth_mono [of "map mf_key ts" 0 i] assms(3)
    by (metis (no_types, lifting) length_map nth_map order_le_less_trans zero_le)
  with assms(4) have lt: "mf_key (ts ! 0) < ?d" by simp
  have mem: "ts ! 0 \<in> set (take i ts)" using i assms(3) by (metis length_take min.absorb4 nth_mem nth_take)
  then have "ts ! 0 \<in> set us" using assms(1) by (metis in_set_takeD set_sort)
  then have here: "mf_doc (ts ! 0) = Some (mf_key (ts ! 0))" using assms(2) by (simp add: mf_key_def)
  have "mf_left (mf_seek t ?d) \<le> mf_left t" for t by (simp add: mf_left_def mf_seek_def cursor_left_advance)
  moreover have "mf_left (mf_seek (ts ! 0) ?d) < mf_left (ts ! 0)"
    using here lt cursor_left_advance_less [of "mf_cursor (ts ! 0)" "mf_key (ts ! 0)" ?d] by (simp add: mf_left_def mf_seek_def mf_doc_def)
  ultimately have "sum_list (map (\<lambda>t. mf_left (mf_seek t ?d)) (take i ts)) < sum_list (map mf_left (take i ts))"
    using mem by (intro sum_list_map_less)
  moreover have "sum_list (map mf_left ts) = sum_list (map mf_left (take i ts)) + sum_list (map mf_left (drop i ts))"
    by (metis append_take_drop_id map_append sum_list_append)
  ultimately show ?thesis by (simp add: comp_def)
qed

function mf_loop :: "'f float_ops \<Rightarrow> search_stats \<Rightarrow> 'f field_stat list \<Rightarrow> nat \<Rightarrow> u64 set option \<Rightarrow> multi_field_term list \<Rightarrow> hit_heap \<Rightarrow> hit_heap" where
  "mf_loop fl st fstats k restrict terms heap =
     (let terms = filter (\<lambda>t. \<not> is_exhausted (mf_cursor t)) terms
      in if terms = [] then heap
         else let terms = sort_key mf_key terms
              in case find_pivot mf_upper_bound (heap_threshold heap k) 0 0 terms of
                   None \<Rightarrow> heap
                 | Some pivot_index \<Rightarrow>
                     let pivot_doc = mf_key (terms ! pivot_index); smallest_doc = mf_key (terms ! 0)
                     in if smallest_doc = pivot_doc
                        then let heap = (if restrict_ok restrict pivot_doc
                                         then let (score, matched) = mf_evaluate fl st fstats pivot_doc terms (0, 0)
                                              in push_top_k heap pivot_doc score score matched k
                                         else heap)
                             in mf_loop fl st fstats k restrict (map (\<lambda>t. mf_past t pivot_doc) terms) heap
                        else mf_loop fl st fstats k restrict
                               (map (\<lambda>t. mf_seek t pivot_doc) (take pivot_index terms) @ drop pivot_index terms) heap)"
  by pat_completeness auto
termination
proof (relation "measure (\<lambda>(fl, st, fstats, k, restrict, terms, heap). sum_list (map mf_left terms))", goal_cases)
  case 1
  show ?case by simp
next
  case (2 fl st fstats k restrict terms heap us ts i d e h)
  have ne: "us \<noteq> []" by (rule 2(2))
  have here: "\<forall>t \<in> set us. mf_doc t \<noteq> None"
    using 2(1) by (auto simp: mf_doc_def cursor_doc_id_def slice_get_def is_exhausted_def)
  have "ts ! 0 \<in> set us" using 2(3) ne by (metis length_greater_0_conv nth_mem set_sort length_sort)
  then have "ts ! 0 \<in> set ts" "mf_doc (ts ! 0) = Some d" using here 2(3, 5-7) by (auto simp: mf_key_def)
  then have "sum_list (map mf_left (map (\<lambda>t. mf_past t d) ts)) < sum_list (map mf_left ts)" by (rule mf_evaluate_turn)
  also have "\<dots> \<le> sum_list (map mf_left terms)" unfolding 2(3) 2(1) by (rule sum_list_retain_sort)
  finally show ?case by simp
next
  case (3 fl st fstats k restrict terms heap us ts i d e)
  have here: "\<forall>t \<in> set us. mf_doc t \<noteq> None"
    using 3(1) by (auto simp: mf_doc_def cursor_doc_id_def slice_get_def is_exhausted_def)
  have "i < length ts" using find_pivot_range [OF 3(4)] by simp
  then have "sum_list (map mf_left (map (\<lambda>t. mf_seek t (mf_key (ts ! i))) (take i ts) @ drop i ts)) < sum_list (map mf_left ts)"
    using 3(3, 5-7) here by (intro mf_skip_turn [of ts us]) auto
  also have "\<dots> \<le> sum_list (map mf_left terms)" unfolding 3(3) 3(1) by (rule sum_list_retain_sort)
  finally show ?case using 3(5) by simp
qed

declare mf_loop.simps [simp del]

definition wand_top_k_multi_field :: "'f float_ops \<Rightarrow> search_stats \<Rightarrow> field_terms list \<Rightarrow> nat \<Rightarrow> u64 set option \<Rightarrow> wand_hit list" where
  "wand_top_k_multi_field fl st qfs k restrict =
     (if k = 0 \<or> qfs = [] then []
      else let fstats = mf_field_stats fl st qfs
           in finish_heap (mf_loop fl st fstats k restrict (mf_terms fl fstats qfs) []))"

end
