(* ===== verification/Wand_Exact.thy ===== *)
theory Wand_Exact
  imports Wand
begin

text \<open>
  The skipping evaluation of \<^verbatim>\<open>wand.rs\<close> returns exactly the best hits: \<open>wand_top_k_multi_field\<close> against a
  reference that scores every document.
\<close>

section \<open>The terms as cursors\<close>

definition mf_ahead :: "multi_field_term \<Rightarrow> u64 list" where
  "mf_ahead t = cursor_ahead (mf_cursor t)"

definition mf_good :: "'f float_ops \<Rightarrow> search_stats \<Rightarrow> 'f field_stat list \<Rightarrow> multi_field_term \<Rightarrow> bool" where
  "mf_good fl st fstats t \<longleftrightarrow> cursor_good (mf_cursor t) \<and>
     (\<forall>p \<in> set (postings (mf_cursor t)). mf_posting_score fl st fstats (doc_id p) t p \<le> mf_upper_bound t)"

definition mf_shown :: "'f float_ops \<Rightarrow> search_stats \<Rightarrow> 'f field_stat list \<Rightarrow> multi_field_term \<Rightarrow> u64 \<Rightarrow> u64 \<times> u64" where
  "mf_shown fl st fstats t d =
     (mf_upper_bound t, mf_posting_score fl st fstats d t (the (find (\<lambda>p. doc_id p = d) (postings (mf_cursor t)))))"

text \<open>A document from the bounds and the scores of the terms that are in it.\<close>

definition mf_total :: "(u64 \<times> u64) list \<Rightarrow> (u64 \<times> u64 \<times> nat) option" where
  "mf_total ms = (if 0 < sat_sum (map fst ms) then Some (sat_sum (map snd ms), sat_sum (map snd ms), length ms) else None)"

definition mf_reach :: "u64 \<Rightarrow> multi_field_term list \<Rightarrow> bool" where
  "mf_reach threshold ts \<longleftrightarrow> threshold \<le> sat_sum (map mf_upper_bound ts) \<and> 0 < sat_sum (map mf_upper_bound ts)"

lemma mf_posting_score_cursor [simp]: "mf_posting_score fl st fstats d (t\<lparr>mf_cursor := c\<rparr>) p = mf_posting_score fl st fstats d t p"
  by (simp add: mf_posting_score_def)

lemma mf_shown_cursor: "postings c = postings (mf_cursor t) \<Longrightarrow> mf_shown fl st fstats (t\<lparr>mf_cursor := c\<rparr>) d = mf_shown fl st fstats t d"
  by (simp add: mf_shown_def)

lemma find_ascending: "ascending (map doc_id ps) \<Longrightarrow> p \<in> set ps \<Longrightarrow> find (\<lambda>q. doc_id q = doc_id p) ps = Some p"
  by (induction ps) auto

lemma cursor_current_here:
  assumes "cursor_good c" and "cursor_doc_id c = Some d"
  shows "cursor_current c = find (\<lambda>p. doc_id p = d) (postings c)" and "cursor_current c \<noteq> None"
proof -
  from assms(2) obtain p where "p \<in> set (postings c)" "cursor_current c = Some p" "doc_id p = d"
    by (force simp: cursor_doc_id_def cursor_current_def slice_get_def split: if_splits)
  then show "cursor_current c = find (\<lambda>p. doc_id p = d) (postings c)" "cursor_current c \<noteq> None"
    using find_ascending [of "postings c" p] assms(1) by (auto simp: cursor_good_def)
qed

lemma mf_shown_bound:
  assumes "mf_good fl st fstats t" and "d \<in> set (mf_ahead t)"
  shows "snd (mf_shown fl st fstats t d) \<le> mf_upper_bound t"
proof -
  from assms(2) obtain p where p: "p \<in> set (postings (mf_cursor t))" "doc_id p = d"
    by (auto simp: mf_ahead_def cursor_ahead_def dest: in_set_dropD)
  then have "find (\<lambda>p. doc_id p = d) (postings (mf_cursor t)) = Some p"
    using assms(1) find_ascending [of "postings (mf_cursor t)" p] by (simp add: mf_good_def cursor_good_def)
  with p assms(1) show ?thesis by (auto simp: mf_shown_def mf_good_def)
qed

lemma mf_total_perm:
  assumes "mset vs = mset vs'"
  shows "mf_total vs = mf_total vs'"
proof -
  have "sat_sum (map f vs) = sat_sum (map f vs')" for f using assms by (intro sat_sum_perm) simp
  with assms show ?thesis by (simp add: mf_total_def mset_eq_length [of vs vs'])
qed

interpretation mf: doc_query mf_doc mf_past mf_ahead "mf_good fl st fstats" mf_seek "mf_shown fl st fstats" mf_total mf_reach
  for fl :: "'f float_ops" and st fstats
proof
  fix c :: multi_field_term and t d :: u64
  assume good: "mf_good fl st fstats c"
  then have g: "cursor_good (mf_cursor c)" by (simp add: mf_good_def)
  show "ascending (mf_ahead c)" using pc.ascending_ahead [OF g] by (simp add: mf_ahead_def)
  show "mf_doc c = (case mf_ahead c of [] \<Rightarrow> None | d # _ \<Rightarrow> Some d)" using pc.here_ahead [OF g] by (simp add: mf_doc_def mf_ahead_def)
  show "mf_good fl st fstats (mf_seek c t)" using good pc.good_seek [OF g] by (simp add: mf_good_def mf_seek_def)
  show "mf_ahead (mf_seek c t) = filter (\<lambda>d. t \<le> d) (mf_ahead c)" using pc.seek_ahead [OF g] by (simp add: mf_ahead_def mf_seek_def)
  have past: "mf_past c x = c\<lparr>mf_cursor := cursor_past (mf_cursor c) x\<rparr>" for x by (simp add: mf_past_def mf_doc_def cursor_past_def)
  show "mf_good fl st fstats (mf_past c d)"
    using good pc.good_past [OF g, of d] by (auto simp: mf_good_def past cursor_past_def cursor_next_def split: if_splits)
  show "mf_ahead (mf_past c d) = (if mf_doc c = Some d then tl (mf_ahead c) else mf_ahead c)"
    by (simp add: cursor_past_ahead mf_ahead_def mf_doc_def past)
next
  fix c :: multi_field_term and t d :: u64
  show "mf_shown fl st fstats (mf_seek c t) d = mf_shown fl st fstats c d" by (simp add: mf_seek_def mf_shown_cursor)
  show "mf_shown fl st fstats (mf_past c t) d = mf_shown fl st fstats c d" by (simp add: mf_past_def mf_shown_cursor cursor_next_def)
next
  fix cs cs' :: "multi_field_term list" and d
  assume "mset cs = mset cs'"
  then show "mf_total (map (\<lambda>c. mf_shown fl st fstats c d) cs) = mf_total (map (\<lambda>c. mf_shown fl st fstats c d) cs')"
    by (intro mf_total_perm) simp
next
  fix threshold cs cs' d s r m
  assume h: "\<forall>c \<in> set cs. mf_good fl st fstats c" "\<not> mf_reach threshold cs" "mset cs' \<subseteq># mset cs" "\<forall>c \<in> set cs'. d \<in> set (mf_ahead c)"
    "mf_total (map (\<lambda>c. mf_shown fl st fstats c d) cs') = Some (s, r, m)"
  have fst: "map fst (map (\<lambda>c. mf_shown fl st fstats c d) cs') = map mf_upper_bound cs'" by (simp add: mf_shown_def)
  have tot: "0 < sat_sum (map mf_upper_bound cs')" "s = sat_sum (map (\<lambda>c. snd (mf_shown fl st fstats c d)) cs')"
    using h(5) unfolding mf_total_def fst by (auto simp: comp_def split: if_splits)
  have sub: "sat_sum (map mf_upper_bound cs') \<le> sat_sum (map mf_upper_bound cs)"
    using h(3) by (intro sat_sum_mono) (simp add: image_mset_subseteq_mono)
  have "c \<in> set cs" if "c \<in> set cs'" for c using that h(3) by (metis mset_subset_eqD set_mset_mset)
  then have "s \<le> sat_sum (map mf_upper_bound cs')"
    using h(1, 4) unfolding tot(2) by (intro sat_sum_map_mono mf_shown_bound) auto
  with sub h(2) tot(1) show "s < threshold" by (auto simp: mf_reach_def)
qed

section \<open>The loop\<close>

lemma find_pivot_None:
  "find_pivot upper threshold acc i ts = None \<Longrightarrow>
    \<not> (foldl saturating_add_u64 acc (map upper ts) \<ge> threshold \<and> foldl saturating_add_u64 acc (map upper ts) > 0) \<or> ts = []"
proof (induction upper threshold acc i ts rule: find_pivot.induct)
  case (2 upper threshold acc i t ts)
  then show ?case by (cases ts) (auto simp: Let_def split: if_splits)
qed simp

lemma find_pivot_Some:
  assumes "find_pivot upper threshold acc i ts = Some j"
  shows "\<exists>ps t qs. ts = ps @ t # qs \<and> j = i + length ps \<and>
    (foldl saturating_add_u64 acc (map upper (ps @ [t])) \<ge> threshold \<and> foldl saturating_add_u64 acc (map upper (ps @ [t])) > 0) \<and>
    (ps \<noteq> [] \<longrightarrow> \<not> (foldl saturating_add_u64 acc (map upper ps) \<ge> threshold \<and> foldl saturating_add_u64 acc (map upper ps) > 0))"
  using assms
proof (induction upper threshold acc i ts rule: find_pivot.induct)
  case (2 upper threshold acc i t ts)
  let ?acc = "saturating_add_u64 acc (upper t)"
  show ?case
  proof (cases "?acc \<ge> threshold \<and> ?acc > 0")
    case True
    then have "j = i" using "2.prems" by (simp add: Let_def)
    with True show ?thesis by (intro exI [of _ "[]"]) auto
  next
    case False
    then have "find_pivot upper threshold ?acc (i + 1) ts = Some j" using "2.prems" by (auto simp: Let_def split: if_splits)
    from "2.IH" [OF refl False this] obtain ps u qs where
      "ts = ps @ u # qs" "j = i + 1 + length ps"
      "foldl saturating_add_u64 ?acc (map upper (ps @ [u])) \<ge> threshold \<and> foldl saturating_add_u64 ?acc (map upper (ps @ [u])) > 0"
      "ps \<noteq> [] \<longrightarrow> \<not> (foldl saturating_add_u64 ?acc (map upper ps) \<ge> threshold \<and> foldl saturating_add_u64 ?acc (map upper ps) > 0)" by blast
    with False show ?thesis by (intro exI [of _ "t # ps"] exI [of _ u] exI [of _ qs]) (cases ps, auto)
  qed
qed simp

lemma mf_evaluate_eq:
  "mf_evaluate fl st fstats d ts (s, m) =
     (foldl saturating_add_u64 s (map (\<lambda>t. mf_posting_score fl st fstats d t (the (cursor_current (mf_cursor t)))) (filter (\<lambda>t. mf_doc t = Some d) ts)),
      m + length (filter (\<lambda>t. mf_doc t = Some d) ts))"
  by (induction ts arbitrary: s m) simp_all

lemma mf_retained: "filter (\<lambda>t. \<not> is_exhausted (mf_cursor t)) ts = filter (\<lambda>t. mf_doc t \<noteq> None) ts"
  by (auto simp: mf_doc_def cursor_doc_id_def slice_get_def is_exhausted_def intro: filter_cong)

interpretation mfl: wand_loop mf_doc mf_past mf_ahead "mf_good fl st fstats" mf_seek "mf_shown fl st fstats" mf_total mf_reach
    k "restrict_ok restrict" "\<lambda>threshold. find_pivot mf_upper_bound threshold 0 0"
    "\<lambda>ts d. let (s, m) = mf_evaluate fl st fstats d ts (0, 0) in Some (s, s, m)" "mf_loop fl st fstats k restrict"
  for fl :: "'f float_ops" and st fstats k restrict
proof
  fix threshold cs
  show "find_pivot mf_upper_bound threshold 0 0 cs = None \<Longrightarrow> cs = [] \<or> \<not> mf_reach threshold cs"
    using find_pivot_None [of mf_upper_bound threshold 0 0 cs] by (auto simp: mf_reach_def sat_sum_def)
  show "\<exists>ps t qs. cs = ps @ t # qs \<and> i = length ps \<and> mf_reach threshold (ps @ [t]) \<and> (ps \<noteq> [] \<longrightarrow> \<not> mf_reach threshold ps)"
    if "find_pivot mf_upper_bound threshold 0 0 cs = Some i" for i
    using find_pivot_Some [OF that] by (simp add: mf_reach_def sat_sum_def)
next
  fix cs ps d threshold
  assume good: "\<forall>c \<in> set cs. mf_good fl st fstats c" and ps: "mset ps \<subseteq># mset (filter (\<lambda>c. mf_doc c = Some d) cs)" "mf_reach threshold ps"
  have "mf_posting_score fl st fstats d t (the (cursor_current (mf_cursor t))) = snd (mf_shown fl st fstats t d)" if "t \<in> set cs" "mf_doc t = Some d" for t
    using that good cursor_current_here(1) [of "mf_cursor t" d] by (simp add: mf_shown_def mf_doc_def mf_good_def)
  then have eq: "map (\<lambda>t. mf_posting_score fl st fstats d t (the (cursor_current (mf_cursor t)))) (filter (\<lambda>t. mf_doc t = Some d) cs) =
      map snd (map (\<lambda>t. mf_shown fl st fstats t d) (filter (\<lambda>t. mf_doc t = Some d) cs))" by simp
  have bounds: "map fst (map (\<lambda>t. mf_shown fl st fstats t d) (filter (\<lambda>t. mf_doc t = Some d) cs)) = map mf_upper_bound (filter (\<lambda>t. mf_doc t = Some d) cs)"
    by (simp add: mf_shown_def)
  have "sat_sum (map mf_upper_bound ps) \<le> sat_sum (map mf_upper_bound (filter (\<lambda>t. mf_doc t = Some d) cs))"
    unfolding mset_map by (intro sat_sum_mono) (simp only: mset_map image_mset_subseteq_mono [OF ps(1)])
  with ps(2) have "0 < sat_sum (map mf_upper_bound (filter (\<lambda>t. mf_doc t = Some d) cs))" by (auto simp: mf_reach_def)
  then show "(let (s, m) = mf_evaluate fl st fstats d cs (0, 0) in Some (s, s, m)) =
      mf_total (map (\<lambda>t. mf_shown fl st fstats t d) (filter (\<lambda>t. mf_doc t = Some d) cs))"
    unfolding mf_evaluate_eq mf_total_def eq bounds by (simp add: sat_sum_def)
next
  fix cs heap
  show "filter (\<lambda>c. mf_doc c \<noteq> None) cs = [] \<Longrightarrow> mf_loop fl st fstats k restrict cs heap = heap"
    by (subst mf_loop.simps) (simp add: mf_retained)
next
  fix cs vs heap
  assume ne: "filter (\<lambda>c. mf_doc c \<noteq> None) cs \<noteq> []" and vs: "vs = sort_key (\<lambda>c. the (mf_doc c)) (filter (\<lambda>c. mf_doc c \<noteq> None) cs)"
  have key: "mf_key = (\<lambda>c. the (mf_doc c))" by (simp add: fun_eq_iff mf_key_def)
  show "mf_loop fl st fstats k restrict cs heap =
        (case find_pivot mf_upper_bound (heap_threshold heap k) 0 0 vs of
           None \<Rightarrow> heap
         | Some i \<Rightarrow>
             let p = the (mf_doc (vs ! i))
             in if the (mf_doc (vs ! 0)) = p
                then mf_loop fl st fstats k restrict (map (\<lambda>c. mf_past c p) vs)
                  (if restrict_ok restrict p
                   then case let (s, m) = mf_evaluate fl st fstats p vs (0, 0) in Some (s, s, m) of
                     None \<Rightarrow> heap | Some (s, r, m) \<Rightarrow> push_top_k heap p s r m k
                   else heap)
                else mf_loop fl st fstats k restrict (map (\<lambda>c. mf_seek c p) (take i vs) @ drop i vs) heap)"
    using ne unfolding vs mf_loop.simps [of fl st fstats k restrict cs heap] mf_retained key
    by (simp add: Let_def case_prod_beta split: option.split)
qed

abbreviation mf_hits :: "'f float_ops \<Rightarrow> search_stats \<Rightarrow> 'f field_stat list \<Rightarrow> (u64 \<Rightarrow> bool) \<Rightarrow> multi_field_term list \<Rightarrow> wand_hit list" where
  "mf_hits fl st fstats \<equiv> mf.hits TYPE('f) fl st fstats"

section \<open>The reference\<close>

text \<open>Every term of the query that is in a document, with its bound and its score there.\<close>

definition term_posting :: "term_ref \<Rightarrow> u64 \<Rightarrow> posting option" where
  "term_posting t d = find (\<lambda>p. doc_id p = d) (items (tr_postings t))"

definition mf_matches :: "'f float_ops \<Rightarrow> search_stats \<Rightarrow> field_terms list \<Rightarrow> u64 \<Rightarrow> (u64 \<times> u64) list" where
  "mf_matches fl st qfs d =
     concat (map (\<lambda>f. List.map_filter (\<lambda>t. map_option
       (\<lambda>p. let x = qf_xpath f; n = ss_doc_count st x; avg = avg_doc_len fl st x
            in (bm25_upper_bound fl (tr_max_weight t) n (tr_doc_freq t),
                bm25_score_scaled fl (of_nat (length (positions p))) (weight p) (doc_len_or_avg fl st x avg d) avg n (tr_doc_freq t)))
       (term_posting t d)) (qf_terms f)) qfs)"

definition mf_docs :: "field_terms list \<Rightarrow> u64 list" where
  "mf_docs qfs = sort_dedup (concat (map (\<lambda>f. concat (map (\<lambda>t. map doc_id (items (tr_postings t))) (qf_terms f))) qfs))"

definition mf_reference :: "'f float_ops \<Rightarrow> search_stats \<Rightarrow> field_terms list \<Rightarrow> u64 set option \<Rightarrow> wand_hit list" where
  "mf_reference fl st qfs restrict = List.map_filter
     (\<lambda>d. if restrict_ok restrict d
          then map_option (\<lambda>(s, r, m). \<lparr>wh_doc = d, wh_score = s, wh_raw = r, wh_matched = m\<rparr>) (mf_total (mf_matches fl st qfs d))
          else None) (mf_docs qfs)"

definition query_ok :: "field_terms list \<Rightarrow> bool" where
  "query_ok qfs \<longleftrightarrow> (\<forall>f \<in> set qfs. \<forall>t \<in> set (qf_terms f). pl_ok (tr_postings t))"

text \<open>What the skipping relies on: no posting of a term of the query scores more than the bound of the term.\<close>

definition term_bounded :: "'f float_ops \<Rightarrow> search_stats \<Rightarrow> u32 \<Rightarrow> term_ref \<Rightarrow> bool" where
  "term_bounded fl st x t \<longleftrightarrow> (let n = ss_doc_count st x; avg = avg_doc_len fl st x
     in \<forall>p \<in> set (items (tr_postings t)).
          bm25_score_scaled fl (of_nat (length (positions p))) (weight p) (doc_len_or_avg fl st x avg (doc_id p)) avg n (tr_doc_freq t)
            \<le> bm25_upper_bound fl (tr_max_weight t) n (tr_doc_freq t))"

definition scores_bounded :: "'f float_ops \<Rightarrow> search_stats \<Rightarrow> field_terms list \<Rightarrow> bool" where
  "scores_bounded fl st qfs \<longleftrightarrow> (\<forall>f \<in> set qfs. \<forall>t \<in> set (qf_terms f). term_bounded fl st (qf_xpath f) t)"

text \<open>Without rounding this holds of every list that weighs no more than its recorded maximum and is not longer in
  documents than the field.\<close>

definition term_recorded :: "search_stats \<Rightarrow> u32 \<Rightarrow> term_ref \<Rightarrow> bool" where
  "term_recorded st x t \<longleftrightarrow> pl_ok (tr_postings t) \<and> max_weight (tr_postings t) \<le> tr_max_weight t \<and> unat (tr_doc_freq t) \<le> unat (ss_doc_count st x)"

lemma recorded_bounded:
  assumes "bound_sound fl" and "term_recorded st x t"
  shows "term_bounded fl st x t"
proof -
  have "weight p \<le> tr_max_weight t" if "p \<in> set (items (tr_postings t))" for p
    using assms(2) that by (auto simp: term_recorded_def pl_ok_def intro: order_trans)
  then show ?thesis using assms by (simp add: term_bounded_def term_recorded_def bound_sound_def Let_def)
qed

lemma mf_term_holding:
  assumes "\<forall>t \<in> set us. pl_ok (tr_postings t)" and "fstats ! i = (x, n, avg)"
  shows "map (\<lambda>m. mf_shown fl st fstats m d)
      (filter (\<lambda>m. d \<in> set (mf_ahead m)) (List.map_filter (mf_term fl i n) us)) =
    List.map_filter (\<lambda>t. map_option
       (\<lambda>p. (bm25_upper_bound fl (tr_max_weight t) n (tr_doc_freq t),
             bm25_score_scaled fl (of_nat (length (positions p))) (weight p) (doc_len_or_avg fl st x avg d) avg n (tr_doc_freq t)))
       (term_posting t d)) us"
  using assms(1)
proof (induction us)
  case (Cons t us)
  let ?c = "cursor_new (tr_postings t)"
  have mem: "d \<in> set (cursor_ahead ?c) \<longleftrightarrow> term_posting t d \<noteq> None"
    by (auto simp: cursor_ahead_def cursor_new_def term_posting_def find_None_iff)
  have cur: "find (\<lambda>p. doc_id p = d) (postings ?c) = term_posting t d" by (simp add: term_posting_def cursor_new_def)
  have none: "is_exhausted ?c \<Longrightarrow> term_posting t d = None"
    by (simp add: is_exhausted_def cursor_new_def term_posting_def)
  show ?case
    using Cons mem cur none
    by (cases "term_posting t d")
      (auto simp: List.map_filter_simps mf_term_def Let_def mf_ahead_def mf_shown_def mf_posting_score_def assms(2))
qed (simp add: List.map_filter_simps)

lemma concat_map_enumerate: "concat (map F qfs) = concat (map (\<lambda>(i, f). F f) (enumerate 0 qfs))"
proof -
  have "map F qfs = map F (map snd (enumerate 0 qfs))" by simp
  then show ?thesis by (simp only: map_map comp_def case_prod_unfold)
qed

lemma enumerate_stats:
  "(i, f) \<in> set (enumerate 0 qfs) \<Longrightarrow> f \<in> set qfs \<and>
     mf_field_stats fl st qfs ! i = (qf_xpath f, ss_doc_count st (qf_xpath f), avg_doc_len fl st (qf_xpath f))"
  by (auto simp: in_set_enumerate_eq mf_field_stats_def)

lemma mf_terms_holding:
  assumes "query_ok qfs"
  shows "map (\<lambda>m. mf_shown fl st (mf_field_stats fl st qfs) m d)
      (filter (\<lambda>m. d \<in> set (mf_ahead m)) (mf_terms fl (mf_field_stats fl st qfs) qfs)) = mf_matches fl st qfs d"
  unfolding mf_matches_def mf_terms_def concat_map_enumerate [of _ qfs] filter_concat map_concat map_map comp_def
proof (intro arg_cong [of _ _ concat] map_cong refl, goal_cases)
  case (1 y)
  obtain i f where y: "y = (i, f)" by fastforce
  with 1 have mem: "(i, f) \<in> set (enumerate 0 qfs)" by simp
  have ok: "\<forall>t \<in> set (qf_terms f). pl_ok (tr_postings t)" using assms enumerate_stats [OF mem] by (auto simp: query_ok_def)
  show ?case
    using mf_term_holding [OF ok enumerate_stats [OF mem, THEN conjunct2]] enumerate_stats [OF mem, of fl st] by (simp add: y Let_def)
qed

lemma mf_terms_member:
  assumes "m \<in> set (mf_terms fl (mf_field_stats fl st qfs) qfs)"
  obtains f t i where "f \<in> set qfs" "t \<in> set (qf_terms f)" "m = \<lparr>mf_cursor = cursor_new (tr_postings t), mf_field = i, mf_doc_freq = tr_doc_freq t,
     mf_upper_bound = bm25_upper_bound fl (tr_max_weight t) (ss_doc_count st (qf_xpath f)) (tr_doc_freq t)\<rparr>"
    "mf_field_stats fl st qfs ! i = (qf_xpath f, ss_doc_count st (qf_xpath f), avg_doc_len fl st (qf_xpath f))"
proof -
  from assms obtain i f t where mem: "(i, f) \<in> set (enumerate 0 qfs)" and t: "t \<in> set (qf_terms f)"
      "mf_term fl i (fst (snd (mf_field_stats fl st qfs ! i))) t = Some m"
    by (auto simp: mf_terms_def set_map_filter)
  show ?thesis
    using enumerate_stats [OF mem, of fl st] t by (intro that [of f t i]) (auto simp: mf_term_def Let_def split: if_splits)
qed

lemma mf_terms_good:
  assumes "scores_bounded fl st qfs" and "query_ok qfs"
  shows "\<forall>m \<in> set (mf_terms fl (mf_field_stats fl st qfs) qfs). mf_good fl st (mf_field_stats fl st qfs) m"
proof
  fix m
  assume "m \<in> set (mf_terms fl (mf_field_stats fl st qfs) qfs)"
  then obtain f t i where m: "f \<in> set qfs" "t \<in> set (qf_terms f)" "m = \<lparr>mf_cursor = cursor_new (tr_postings t), mf_field = i, mf_doc_freq = tr_doc_freq t,
     mf_upper_bound = bm25_upper_bound fl (tr_max_weight t) (ss_doc_count st (qf_xpath f)) (tr_doc_freq t)\<rparr>"
    "mf_field_stats fl st qfs ! i = (qf_xpath f, ss_doc_count st (qf_xpath f), avg_doc_len fl st (qf_xpath f))"
    by (rule mf_terms_member)
  have ok: "pl_ok (tr_postings t)" "term_bounded fl st (qf_xpath f) t"
    using assms m(1, 2) by (auto simp: query_ok_def scores_bounded_def)
  then show "mf_good fl st (mf_field_stats fl st qfs) m"
    by (auto simp: mf_good_def m(3, 4) cursor_good_def cursor_new_def pl_ok_def mf_posting_score_def term_bounded_def Let_def)
qed

lemma mf_terms_docs: "mf.all_docs (mf_terms fl (mf_field_stats fl st qfs) qfs) = mf_docs qfs"
proof -
  have "set (mf.all_docs (mf_terms fl (mf_field_stats fl st qfs) qfs)) = set (mf_docs qfs)"
  proof (intro equalityI subsetI)
    fix d
    assume "d \<in> set (mf.all_docs (mf_terms fl (mf_field_stats fl st qfs) qfs))"
    then obtain m where "m \<in> set (mf_terms fl (mf_field_stats fl st qfs) qfs)" "d \<in> set (mf_ahead m)" by (auto simp: mf.set_all_docs)
    then show "d \<in> set (mf_docs qfs)"
      by (force elim!: mf_terms_member simp: mf_docs_def mf_ahead_def cursor_ahead_def cursor_new_def)
  next
    fix d
    assume "d \<in> set (mf_docs qfs)"
    then obtain f t where ft: "f \<in> set qfs" "t \<in> set (qf_terms f)" "d \<in> doc_id ` set (items (tr_postings t))" by (auto simp: mf_docs_def)
    obtain i where "i < length qfs" "qfs ! i = f" using ft(1) by (auto simp: in_set_conv_nth)
    then have i: "(i, f) \<in> set (enumerate 0 qfs)" by (auto simp: in_set_enumerate_eq)
    have ne: "\<not> is_exhausted (cursor_new (tr_postings t))" using ft(3) by (auto simp: is_exhausted_def cursor_new_def)
    obtain m where m: "mf_term fl i (fst (snd (mf_field_stats fl st qfs ! i))) t = Some m" "mf_cursor m = cursor_new (tr_postings t)"
      using ne by (simp add: mf_term_def Let_def)
    have "m \<in> set (mf_terms fl (mf_field_stats fl st qfs) qfs)" using i ft(2) m(1) by (force simp: mf_terms_def set_map_filter)
    moreover have "d \<in> set (mf_ahead m)" using ft(3) by (auto simp: mf_ahead_def cursor_ahead_def cursor_new_def m(2))
    ultimately show "d \<in> set (mf.all_docs (mf_terms fl (mf_field_stats fl st qfs) qfs))" by (auto simp: mf.set_all_docs)
  qed
  then show ?thesis unfolding mf.all_docs_def mf_docs_def by (simp add: sort_dedup_eq_iff)
qed

lemma mf_hits_reference:
  assumes "query_ok qfs"
  shows "mf_hits fl st (mf_field_stats fl st qfs) (restrict_ok restrict) (mf_terms fl (mf_field_stats fl st qfs) qfs) = mf_reference fl st qfs restrict"
  unfolding mf.hits_def mf_reference_def mf_terms_docs mf.hit_of_def mf.holding_def mf_terms_holding [OF assms] by (rule refl)

section \<open>Exactness\<close>

text \<open>C3. The skipping search over several fields loses nothing: if every posting list of the query is in order and
  no posting of them scores more than \<open>bm25_upper_bound\<close> of its term, both as the arithmetic of the code computes
  them, \<open>wand_top_k_multi_field\<close> returns exactly the \<open>k\<close> best hits, by score and then by document id, of the search
  that scores every document of every term, with the number of matching terms; documents of which every matching
  term has bound 0 are not hits.\<close>

theorem wand_exact:
  assumes "query_ok qfs" and "scores_bounded fl st qfs"
  shows "wand_top_k_multi_field fl st qfs k restrict = top_k k (mf_reference fl st qfs restrict)"
proof (cases "k = 0 \<or> qfs = []")
  case True
  then show ?thesis
    by (auto simp: wand_top_k_multi_field_def top_k_def mf_reference_def mf_docs_def sort_dedup_def List.map_filter_simps)
next
  case False
  have "mf_loop fl st (mf_field_stats fl st qfs) k restrict (mf_terms fl (mf_field_stats fl st qfs) qfs) (top_k k []) =
    top_k k ([] @ mf_hits fl st (mf_field_stats fl st qfs) (restrict_ok restrict) (mf_terms fl (mf_field_stats fl st qfs) qfs))"
    using False by (intro mfl.loop_exact mf_terms_good [OF assms(2, 1)]) auto
  then have "mf_loop fl st (mf_field_stats fl st qfs) k restrict (mf_terms fl (mf_field_stats fl st qfs) qfs) [] =
    top_k k (mf_reference fl st qfs restrict)" by (simp add: mf_hits_reference [OF assms(1)] top_k_def)
  with False show ?thesis by (simp add: wand_top_k_multi_field_def finish_top_k)
qed

text \<open>Two fields, three terms, two of them in a document each and one in both.\<close>

definition sample_stats :: search_stats where
  "sample_stats = \<lparr>ss_doc_count = (\<lambda>x. 3), ss_total_doc_len = (\<lambda>x. 12), ss_doc_len = (\<lambda>d x. if d = 9 then None else Some 4)\<rparr>"

definition sample_term :: "(u64 \<times> u16) list \<Rightarrow> term_ref" where
  "sample_term ds = \<lparr>tr_postings = \<lparr>items = map (\<lambda>(d, w). \<lparr>doc_id = d, positions = [0], weight = w\<rparr>) ds, max_weight = 5\<rparr>,
     tr_doc_freq = of_nat (length ds), tr_max_weight = 5\<rparr>"

definition sample_query :: "field_terms list" where
  "sample_query = [\<lparr>qf_xpath = 1, qf_terms = [sample_term [(3, 5), (9, 2)], sample_term [(3, 1)]]\<rparr>, \<lparr>qf_xpath = 2, qf_terms = [sample_term [(7, 4)]]\<rparr>]"

theorem wand_exact_witness:
  "wand_top_k_multi_field exact_ops sample_stats sample_query 2 None = top_k 2 (mf_reference exact_ops sample_stats sample_query None)"
proof (rule wand_exact)
  have "term_recorded sample_stats (qf_xpath f) t" if "f \<in> set sample_query" "t \<in> set (qf_terms f)" for f t
    using that by (auto simp: term_recorded_def sample_query_def sample_term_def sample_stats_def pl_ok_def)
  then show "scores_bounded exact_ops sample_stats sample_query"
    by (auto simp: scores_bounded_def intro: recorded_bounded [OF exact_bound_sound])
qed (simp add: query_ok_def sample_query_def sample_term_def pl_ok_def)

end
