(* ===== verification/Doc_Align.thy ===== *)
theory Doc_Align
  imports Doc_Cursor
begin

text \<open>
  Cursors that advance in step: the documents several cursors have in common, the loops of \<^verbatim>\<open>wand.rs\<close> that move
  them to the next one (\<open>FieldConjunction::next_match\<close>, \<open>FormCursor::align\<close>, \<open>next_common\<close>), and the merge of several
  streams of documents that the conjunctive searches run.
\<close>

section \<open>Documents in common\<close>

context doc_cursor
begin

definition common :: "'a list \<Rightarrow> u64 list" where
  "common cs = filter (\<lambda>d. \<forall>c \<in> set cs. d \<in> set (ahead_docs c)) (all_docs cs)"

lemma in_common: "d \<in> set (common cs) \<longleftrightarrow> cs \<noteq> [] \<and> (\<forall>c \<in> set cs. d \<in> set (ahead_docs c))"
  by (cases cs) (auto simp: common_def set_all_docs)

lemma common_Nil [simp]: "common [] = []"
  by (simp add: common_def all_docs_def sort_dedup_def)

lemma ascending_common: "ascending (common cs)"
  by (simp add: common_def ascending_all_docs sorted_wrt_filter)

lemma common_eqI: "ascending ds \<Longrightarrow> set (common cs) = set ds \<Longrightarrow> common cs = ds"
  by (intro ascending_eqI ascending_common)

lemma common_none: "\<forall>c \<in> set cs. good c \<Longrightarrow> c \<in> set cs \<Longrightarrow> here c = None \<Longrightarrow> common cs = []"
  using here_None [of c] in_common [of _ cs] by (metis empty_iff list.set(1) last_in_set)

lemma common_ge: "\<forall>c \<in> set cs. good c \<Longrightarrow> c \<in> set cs \<Longrightarrow> here c = Some x \<Longrightarrow> d \<in> set (common cs) \<Longrightarrow> x \<le> d"
  using here_least [of c x] by (auto simp: in_common)

lemma common_seek:
  assumes "\<forall>c \<in> set cs. good c"
  shows "common (map (\<lambda>c. seek c t) cs) = filter (\<lambda>d. t \<le> d) (common cs)"
proof (rule common_eqI)
  show "set (common (map (\<lambda>c. seek c t) cs)) = set (filter (\<lambda>d. t \<le> d) (common cs))"
    using assms by (cases cs) (auto simp: in_common seek_ahead)
qed (simp add: ascending_common sorted_wrt_filter)

lemma common_same:
  assumes "\<forall>c \<in> set cs. good c" and "cs \<noteq> []" and "\<forall>c \<in> set cs. here c = Some t"
  shows "common cs = t # filter (\<lambda>d. t < d) (common cs)"
proof (rule common_eqI)
  have "t \<in> set (common cs)" using assms here_least [of _ t] by (auto simp: in_common)
  moreover have "t \<le> d" if "d \<in> set (common cs)" for d
    using common_ge [of cs "hd cs"] assms that by auto
  ultimately show "set (common cs) = set (t # filter (\<lambda>d. t < d) (common cs))" by (auto simp: order_le_less)
qed (simp add: ascending_common sorted_wrt_filter)

lemma common_without:
  assumes "\<forall>c \<in> set cs. good c" and "cs \<noteq> []" and "\<forall>c \<in> set cs. here c = Some t" and "set (common cs') = set (common cs) - {t}"
  shows "common cs' = tl (common cs)"
proof (rule common_eqI)
  have eq: "common cs = t # tl (common cs)" "tl (common cs) = filter (\<lambda>d. t < d) (common cs)"
    using common_same [OF assms(1-3)] by (metis list.sel(3))+
  show "ascending (tl (common cs))" unfolding eq(2) by (simp add: ascending_common sorted_wrt_filter)
  have "set (common cs) = insert t (set (tl (common cs)))" using arg_cong [OF eq(1), of set] by simp
  moreover have "t \<notin> set (tl (common cs))" unfolding eq(2) by simp
  ultimately show "set (common cs') = set (tl (common cs))" using assms(4) by blast
qed

lemma common_past:
  assumes "\<forall>c \<in> set cs. good c" and "cs \<noteq> []" and "\<forall>c \<in> set cs. here c = Some t"
  shows "common (map (\<lambda>c. past c t) cs) = tl (common cs)"
    and "common (past (hd cs) t # tl cs) = tl (common cs)"
proof -
  have past: "set (ahead_docs (past c t)) = set (ahead_docs c) - {t}" if "c \<in> set cs" for c
    using that assms(1, 3) here_least [of c t] by (intro past_set) auto
  show "common (map (\<lambda>c. past c t) cs) = tl (common cs)"
    using past assms(2) by (intro common_without [OF assms]) (auto simp: in_common neq_Nil_conv)
  show "common (past (hd cs) t # tl cs) = tl (common cs)"
    using past assms(2) by (intro common_without [OF assms]) (auto simp: in_common neq_Nil_conv)
qed

text \<open>One round of the alignment: everything moves to the greatest of the documents.\<close>

lemma common_round:
  assumes "\<forall>c \<in> set cs. good c" and "c \<in> set cs" and "here c = Some t"
  shows "common (map (\<lambda>c. seek c t) cs) = common cs"
  unfolding common_seek [OF assms(1)] using common_ge [OF assms] by (simp add: filter_id_conv)

end

section \<open>Alignment\<close>

locale doc_align = doc_cursor +
  fixes shown :: "'a \<Rightarrow> u64 \<Rightarrow> 'v" and align :: "'a list \<Rightarrow> 'a list \<times> u64 option"
  assumes shown_seek: "good c \<Longrightarrow> d \<in> set (ahead_docs c) \<Longrightarrow> t \<le> d \<Longrightarrow> shown (seek c t) d = shown c d"
    and align_stop: "cs = [] \<or> (\<exists>c \<in> set cs. here c = None) \<Longrightarrow> align cs = (cs, None)"
    and align_turn: "cs \<noteq> [] \<Longrightarrow> \<forall>c \<in> set cs. here c \<noteq> None \<Longrightarrow> t = Max (set (map (\<lambda>c. the (here c)) cs)) \<Longrightarrow>
      align cs = (if \<forall>c \<in> set cs. here (seek c t) = Some t then (map (\<lambda>c. seek c t) cs, Some t) else align (map (\<lambda>c. seek c t) cs))"
begin

definition aligned :: "'a list \<Rightarrow> 'a list \<Rightarrow> bool" where
  "aligned cs ds \<longleftrightarrow> (\<forall>c \<in> set ds. good c) \<and> length ds = length cs \<and> common ds = common cs \<and>
     (\<forall>d \<in> set (common cs). map (\<lambda>c. shown c d) ds = map (\<lambda>c. shown c d) cs)"

lemma aligned_round:
  assumes "\<forall>c \<in> set cs. good c" and "c \<in> set cs" and "here c = Some t" and "aligned (map (\<lambda>c. seek c t) cs) ds"
  shows "aligned cs ds"
proof -
  have "map (\<lambda>c. shown c d) (map (\<lambda>c. seek c t) cs) = map (\<lambda>c. shown c d) cs" if "d \<in> set (common cs)" for d
    using that common_ge [OF assms(1-3) that] assms(1) by (auto simp: in_common shown_seek)
  with assms(4) show ?thesis by (simp add: aligned_def common_round [OF assms(1-3)] del: map_map)
qed

lemma align_common:
  assumes "\<forall>c \<in> set cs. good c"
  obtains ds where "align cs = (ds, case common cs of [] \<Rightarrow> None | d # _ \<Rightarrow> Some d)" and "aligned cs ds"
    and "\<And>d. d \<in> set (common cs) \<Longrightarrow> \<forall>c \<in> set ds. here c = Some (hd (common cs))"
  using assms
proof (induction "left_over cs" arbitrary: cs thesis rule: less_induct)
  case less
  note good = less.prems(2)
  show ?case
  proof (cases "cs = [] \<or> (\<exists>c \<in> set cs. here c = None)")
    case True
    then have "common cs = []" using common_none [OF good] by auto
    with align_stop [OF True] show ?thesis using good by (intro less.prems(1)) (auto simp: aligned_def)
  next
    case False
    then have ne: "cs \<noteq> []" and here: "\<forall>c \<in> set cs. here c \<noteq> None" by auto
    define t where "t = Max (set (map (\<lambda>c. the (here c)) cs))"
    have "t \<in> set (map (\<lambda>c. the (here c)) cs)" unfolding t_def using ne by (intro Max_in) auto
    then obtain c where c: "c \<in> set cs" "here c = Some t" using here by auto
    have le: "the (here x) \<le> t" if "x \<in> set cs" for x unfolding t_def using that by (intro Max_ge) auto
    let ?cs = "map (\<lambda>c. seek c t) cs"
    have good': "\<forall>c \<in> set ?cs. good c" using good by (auto intro: good_seek)
    note round = common_round [OF good c]
    show ?thesis
    proof (cases "\<forall>c \<in> set cs. here (seek c t) = Some t")
      case True
      then have all: "\<forall>c \<in> set ?cs. here c = Some t" by simp
      have "common cs = t # filter (\<lambda>d. t < d) (common cs)" using common_same [OF good' _ all] ne by (simp add: round)
      then have hd: "(case common cs of [] \<Rightarrow> None | d # _ \<Rightarrow> Some d) = Some t" "hd (common cs) = t" by (metis list.simps(5), metis list.sel(1))
      have "aligned ?cs ?cs" using good' by (simp add: aligned_def)
      then have "aligned cs ?cs" by (rule aligned_round [OF good c])
      moreover have "align cs = (?cs, Some t)" using align_turn [OF ne here t_def] True by simp
      ultimately show ?thesis using all by (intro less.prems(1) [of ?cs]) (simp_all add: hd)
    next
      case False
      then obtain x where x: "x \<in> set cs" "here (seek x t) \<noteq> Some t" by auto
      have "the (here x) \<noteq> t"
      proof
        assume "the (here x) = t"
        then have "here x = Some t" using here x(1) by auto
        then have "ahead_docs (seek x t) = ahead_docs x" using here_least [of x t] good x(1) by (simp add: seek_ahead filter_id_conv)
        with \<open>here x = Some t\<close> x good show False by (simp add: here_ahead good_seek)
      qed
      with le [OF x(1)] here x(1) have "here x = Some (the (here x))" "the (here x) < t" by auto
      from left_over_seek [OF good x(1) this, of "[]"] have fewer: "left_over ?cs < left_over cs" by simp
      obtain ds where ds: "align ?cs = (ds, case common ?cs of [] \<Rightarrow> None | d # _ \<Rightarrow> Some d)" "aligned ?cs ds"
        "\<And>d. d \<in> set (common ?cs) \<Longrightarrow> \<forall>c \<in> set ds. here c = Some (hd (common ?cs))"
        using less.hyps [OF fewer _ good'] by metis
      have "align cs = align ?cs" using align_turn [OF ne here t_def] False by simp
      with ds aligned_round [OF good c ds(2)] show ?thesis by (intro less.prems(1) [of ds]) (simp_all add: round)
    qed
  qed
qed

end

section \<open>Merging streams\<close>

text \<open>The loop of the conjunctive searches: take the smallest document any stream is on, and leave it.\<close>

locale merge_loop = doc_view +
  fixes k :: nat and permitted :: "u64 \<Rightarrow> bool" and verdict :: "'a list \<Rightarrow> u64 \<Rightarrow> (u64 \<times> u64 \<times> nat) option"
    and loop :: "'a list \<Rightarrow> hit_heap \<Rightarrow> hit_heap"
  assumes verdict_here: "\<forall>c \<in> set cs. good c \<Longrightarrow> c \<in> set cs \<Longrightarrow> here c = Some d \<Longrightarrow>
      verdict cs d = evaluate (map (\<lambda>c. shown c d) (filter (\<lambda>c. here c = Some d) cs))"
    and loop_end: "\<forall>c \<in> set cs. here c = None \<Longrightarrow> loop cs heap = heap"
    and loop_turn: "c \<in> set cs \<Longrightarrow> here c = Some d \<Longrightarrow> \<forall>c \<in> set cs. \<forall>x. here c = Some x \<longrightarrow> d \<le> x \<Longrightarrow>
      loop cs heap = loop (map (\<lambda>c. past c d) cs)
        (if permitted d then case verdict cs d of None \<Rightarrow> heap | Some (s, r, m) \<Rightarrow> push_top_k heap d s r m k else heap)"
begin

theorem merge_exact:
  assumes "\<forall>c \<in> set cs. good c" and "0 < k" and "distinct (map wh_doc H)" and "wh_doc ` set H \<inter> set (all_docs cs) = {}"
  shows "loop cs (top_k k H) = top_k k (H @ hits permitted cs)"
  using assms
proof (induction "left_over cs" arbitrary: cs H rule: less_induct)
  case less
  note good = less.prems(1)
  show ?case
  proof (cases "\<forall>c \<in> set cs. here c = None")
    case True
    then have "set (all_docs cs) = {}" using good here_None by (auto simp: set_all_docs)
    then have "hits permitted cs = []" by (simp add: hits_def List.map_filter_simps)
    with True show ?thesis by (simp add: loop_end)
  next
    case False
    let ?hs = "{x. \<exists>c \<in> set cs. here c = Some x}"
    have "?hs = the ` (here ` set cs - {None})" by force
    then have fin: "finite ?hs" by simp
    define d where "d = Min ?hs"
    have "d \<in> ?hs" unfolding d_def using fin False by (intro Min_in) auto
    then obtain c where c: "c \<in> set cs" "here c = Some d" by auto
    have le: "\<forall>c \<in> set cs. \<forall>x. here c = Some x \<longrightarrow> d \<le> x" unfolding d_def using fin by (auto intro: Min_le)
    have least: "\<forall>x \<in> set (all_docs cs). d \<le> x"
    proof
      fix x
      assume "x \<in> set (all_docs cs)"
      then obtain e where e: "e \<in> set cs" "x \<in> set (ahead_docs e)" by (auto simp: set_all_docs)
      then obtain y where "here e = Some y" using good here_None [of e] by fastforce
      then show "d \<le> x" using le e here_least [of e y] good by (meson order_trans)
    qed
    have mem: "d \<in> set (all_docs cs)" using c good here_least [of c d] by (auto simp: set_all_docs)
    let ?cs = "map (\<lambda>c. past c d) cs"
    note all = all_docs_past(2) [OF good mem least]
    define new where "new = (if permitted d then case verdict cs d of None \<Rightarrow> []
      | Some (s, r, m) \<Rightarrow> [\<lparr>wh_doc = d, wh_score = s, wh_raw = r, wh_matched = m\<rparr>] else [])"
    have doc: "set (map wh_doc new) \<subseteq> {d}" "distinct (map wh_doc new)" unfolding new_def by (rule new_hit_doc)+
    have hits: "hits permitted cs = new @ hits permitted ?cs"
      unfolding hits_evaluate [OF good mem least, of permitted] hit_of_def holding_here [OF good least] verdict_here [OF good c, symmetric] new_def
      by (auto split: option.split)
    have d: "d \<notin> wh_doc ` set H" using less.prems(4) mem by blast
    have dist: "distinct (map wh_doc (H @ hits permitted cs))"
      using less.prems(3, 4) hits_distinct [of permitted cs] docs_of_hits [of permitted cs] by (auto 4 3)
    have "left_over ?cs < left_over cs" using least by (intro left_over_past [OF good c]) (auto simp: set_all_docs)
    then have "loop ?cs (top_k k (new @ H)) = top_k k ((new @ H) @ hits permitted ?cs)"
      using good less.prems(2-4) doc d all by (intro less.hyps) (auto intro: good_past)
    also have "\<dots> = top_k k (H @ hits permitted cs)" using dist unfolding hits by (intro top_k_mset [symmetric]) simp_all
    finally show ?thesis
      using push_hits [OF less.prems(2, 3) d, where P = permitted and v = "verdict cs d", folded new_def] by (simp add: loop_turn [OF c le])
  qed
qed

end

end
