(* ===== verification/Conjunction.thy ===== *)
theory Conjunction
  imports Wand_Exact Doc_Align
begin

text \<open>
  The conjunctive search of \<^verbatim>\<open>crates/core-query/src/wand.rs\<close>: the terms of a field advance in step
  (\<open>FieldConjunction\<close>) and \<open>conjunctive_top_k_multi_field\<close> merges the matches of the fields.
\<close>

section \<open>The terms of a field in step\<close>

record wand_term =
  wt_cursor :: posting_cursor
  wt_doc_freq :: u32
  wt_upper_bound :: u64

definition wand_term_new :: "'f float_ops \<Rightarrow> posting_list \<Rightarrow> u32 \<Rightarrow> u16 \<Rightarrow> u64 \<Rightarrow> wand_term" where
  "wand_term_new fl pl df mw n = \<lparr>wt_cursor = cursor_new pl, wt_doc_freq = df, wt_upper_bound = bm25_upper_bound fl mw n df\<rparr>"

record 'f field_conjunction =
  fc_xpath :: u32
  fc_doc_count :: u64
  fc_avg_doc_len :: 'f
  fc_terms :: "wand_term list"
  fc_started :: bool

definition conjunction_new :: "'f float_ops \<Rightarrow> search_stats \<Rightarrow> field_terms \<Rightarrow> 'f field_conjunction option" where
  "conjunction_new fl st f =
     (if qf_terms f = [] \<or> (\<exists>t \<in> set (qf_terms f). items (tr_postings t) = []) then None
      else let n = ss_doc_count st (qf_xpath f)
           in Some \<lparr>fc_xpath = qf_xpath f, fc_doc_count = n, fc_avg_doc_len = avg_doc_len fl st (qf_xpath f),
                    fc_terms = map (\<lambda>t. wand_term_new fl (tr_postings t) (tr_doc_freq t) (tr_max_weight t) n) (qf_terms f),
                    fc_started = False\<rparr>)"

definition wt_doc :: "wand_term \<Rightarrow> u64 option" where
  "wt_doc t = cursor_doc_id (wt_cursor t)"

definition wt_seek :: "wand_term \<Rightarrow> u64 \<Rightarrow> wand_term" where
  "wt_seek t d = t\<lparr>wt_cursor := advance_to (wt_cursor t) d\<rparr>"

definition wt_next :: "wand_term \<Rightarrow> wand_term" where
  "wt_next t = t\<lparr>wt_cursor := cursor_next (wt_cursor t)\<rparr>"

definition wt_left :: "wand_term list \<Rightarrow> nat" where
  "wt_left ts = sum_list (map (\<lambda>t. cursor_left (wt_cursor t)) ts)"

lemma advance_to_here: "cursor_doc_id c = Some d \<Longrightarrow> advance_to c d = c"
  by (auto simp: advance_to_def cursor_doc_id_def slice_get_def is_exhausted_def split: if_splits)

lemma wt_left_seek: "wt_left (map (\<lambda>t. wt_seek t d) ts) \<le> wt_left ts"
  unfolding wt_left_def map_map comp_def by (intro sum_list_mono) (simp add: wt_seek_def cursor_left_advance)

lemma wt_left_seek_less:
  assumes "\<forall>t \<in> set ts. wt_doc t \<noteq> None" and "\<not> (\<forall>t \<in> set ts. wt_doc (wt_seek t d) = Some d)"
    and "\<forall>t \<in> set ts. the (wt_doc t) \<le> d"
  shows "wt_left (map (\<lambda>t. wt_seek t d) ts) < wt_left ts"
proof -
  obtain t where t: "t \<in> set ts" "wt_doc (wt_seek t d) \<noteq> Some d" using assms(2) by auto
  then obtain x where x: "wt_doc t = Some x" "x \<le> d" using assms(1, 3) by fastforce
  have "x \<noteq> d" using t(2) x(1) advance_to_here [of "wt_cursor t" d] by (auto simp: wt_doc_def wt_seek_def)
  then have "cursor_left (advance_to (wt_cursor t) d) < cursor_left (wt_cursor t)"
    using x by (intro cursor_left_advance_less) (auto simp: wt_doc_def)
  then show ?thesis unfolding wt_left_def map_map comp_def
    using t(1) by (intro sum_list_map_less [of _ _ _ t]) (simp_all add: wt_seek_def cursor_left_advance)
qed

text \<open>The loop of \<open>next_match\<close>.  A conjunction has terms, so there always is a target.\<close>

function conj_align :: "wand_term list \<Rightarrow> wand_term list \<times> u64 option" where
  "conj_align ts =
     (if ts = [] \<or> (\<exists>t \<in> set ts. is_exhausted (wt_cursor t)) then (ts, None)
      else let target = Max (set (map (\<lambda>t. the (wt_doc t)) ts)); us = map (\<lambda>t. wt_seek t target) ts
           in if \<exists>t \<in> set us. is_exhausted (wt_cursor t) then (us, None)
              else if \<forall>t \<in> set us. wt_doc t = Some target then (us, Some target)
              else conj_align us)"
  by pat_completeness auto
termination
proof (relation "measure wt_left", goal_cases)
  case (2 ts d us)
  have "\<forall>t \<in> set ts. wt_doc t \<noteq> None" using 2(1) by (auto simp: wt_doc_def cursor_doc_id_def slice_get_def is_exhausted_def)
  moreover have "\<forall>t \<in> set ts. the (wt_doc t) \<le> d" using 2(2) by (auto intro!: Max_ge)
  ultimately have "wt_left (map (\<lambda>t. wt_seek t d) ts) < wt_left ts" using 2(3, 5) by (intro wt_left_seek_less) auto
  with 2(3) show ?case by simp
qed simp

declare conj_align.simps [simp del]

definition next_match :: "'f field_conjunction \<Rightarrow> 'f field_conjunction \<times> u64 option" where
  "next_match fc =
     (let ts = (if fc_started fc then map wt_next (fc_terms fc) else fc_terms fc);
          (ts, found) = conj_align ts
      in (fc\<lparr>fc_terms := ts, fc_started := True\<rparr>, found))"

definition conj_score :: "'f float_ops \<Rightarrow> search_stats \<Rightarrow> 'f field_conjunction \<Rightarrow> u64 \<Rightarrow> u64" where
  "conj_score fl st fc d =
     (let doc_len = doc_len_or_avg fl st (fc_xpath fc) (fc_avg_doc_len fc) d
      in foldl (\<lambda>score t. let p = the (cursor_current (wt_cursor t))
                          in saturating_add_u64 score (bm25_score_scaled fl (of_nat (length (positions p))) (weight p) doc_len
                               (fc_avg_doc_len fc) (fc_doc_count fc) (wt_doc_freq t))) 0 (fc_terms fc))"

section \<open>Several fields\<close>

text \<open>A conjunction with the document it is on.\<close>

type_synonym 'f conj_stream = "'f field_conjunction \<times> u64 option"

fun conj_evaluate :: "'f float_ops \<Rightarrow> search_stats \<Rightarrow> u64 \<Rightarrow> 'f conj_stream list \<Rightarrow> u64 \<times> nat \<Rightarrow> u64 \<times> nat" where
  "conj_evaluate fl st d [] acc = acc"
| "conj_evaluate fl st d ((fc, at_doc) # cs) (score, matched) =
     conj_evaluate fl st d cs
       (if at_doc = Some d then (saturating_add_u64 score (conj_score fl st fc d), matched + length (fc_terms fc)) else (score, matched))"

definition conj_past :: "'f conj_stream \<Rightarrow> u64 \<Rightarrow> 'f conj_stream" where
  "conj_past c d = (if snd c = Some d then next_match (fst c) else c)"

definition conj_left :: "'f conj_stream \<Rightarrow> nat" where
  "conj_left c = wt_left (fc_terms (fst c)) + (if fc_started (fst c) then 0 else 1) + (if snd c = None then 0 else 1)"

lemma conj_align_left: "wt_left (fst (conj_align ts)) \<le> wt_left ts"
proof (induction ts rule: conj_align.induct)
  case (1 ts)
  then show ?case using wt_left_seek [of _ ts] by (subst conj_align.simps) (fastforce simp: Let_def intro: order_trans)
qed

lemma conj_align_exhausted: "ts = [] \<or> (\<exists>t \<in> set ts. is_exhausted (wt_cursor t)) \<Longrightarrow> conj_align ts = (ts, None)"
  by (subst conj_align.simps) simp

lemma wt_left_next: "wt_left (map wt_next ts) \<le> wt_left ts"
  unfolding wt_left_def map_map comp_def by (intro sum_list_mono) (simp add: wt_next_def cursor_left_next)

lemma wt_left_next_less:
  assumes "t \<in> set ts" and "\<not> is_exhausted (wt_cursor t)"
  shows "wt_left (map wt_next ts) < wt_left ts"
  unfolding wt_left_def map_map comp_def
proof (rule sum_list_map_less [OF _ assms(1)])
  show "cursor_left (wt_cursor (wt_next t)) < cursor_left (wt_cursor t)"
    using assms(2) by (auto simp: wt_next_def cursor_left_def cursor_next_def is_exhausted_def)
qed (simp add: wt_next_def cursor_left_next)

lemma next_match_left:
  "conj_left (next_match fc) < conj_left (fc, Some d)"
proof (cases "fc_started fc \<and> fc_terms fc \<noteq> [] \<and> (\<forall>t \<in> set (fc_terms fc). \<not> is_exhausted (wt_cursor t))")
  case True
  then obtain t where "t \<in> set (fc_terms fc)" "\<not> is_exhausted (wt_cursor t)" by (cases "fc_terms fc") auto
  then have "wt_left (map wt_next (fc_terms fc)) < wt_left (fc_terms fc)" by (rule wt_left_next_less)
  with True conj_align_left [of "map wt_next (fc_terms fc)"] show ?thesis
    by (auto simp: next_match_def conj_left_def Let_def case_prod_beta)
next
  case False
  show ?thesis
  proof (cases "fc_started fc")
    case True
    with False have "map wt_next (fc_terms fc) = [] \<or> (\<exists>t \<in> set (map wt_next (fc_terms fc)). is_exhausted (wt_cursor t))"
      by (auto simp: wt_next_def cursor_next_def is_exhausted_def)
    with True show ?thesis using wt_left_next [of "fc_terms fc"] by (simp add: next_match_def conj_left_def conj_align_exhausted)
  next
    case False
    with conj_align_left [of "fc_terms fc"] show ?thesis
      by (auto simp: next_match_def conj_left_def Let_def case_prod_beta)
  qed
qed

function conj_loop :: "'f float_ops \<Rightarrow> search_stats \<Rightarrow> nat \<Rightarrow> u64 set option \<Rightarrow> 'f conj_stream list \<Rightarrow> hit_heap \<Rightarrow> hit_heap" where
  "conj_loop fl st k restrict cs heap =
     (case List.map_filter snd cs of
        [] \<Rightarrow> heap
      | x # xs \<Rightarrow>
          let d = Min (set (x # xs));
              heap = (if restrict_ok restrict d
                      then let (score, matched) = conj_evaluate fl st d cs (0, 0) in push_top_k heap d score score matched k
                      else heap)
          in conj_loop fl st k restrict (map (\<lambda>c. conj_past c d) cs) heap)"
  by pat_completeness auto
termination
proof (relation "measure (\<lambda>(fl, st, k, restrict, cs, heap). sum_list (map conj_left cs))", goal_cases)
  case (2 fl st k restrict cs heap x xs d h)
  have "d \<in> set (List.map_filter snd cs)" using Min_in [of "set (x # xs)"] unfolding 2(1, 2) by simp
  then obtain c where c: "c \<in> set cs" "snd c = Some d" by (auto simp: set_map_filter)
  have "conj_left (conj_past c d) \<le> conj_left c" for c
    using next_match_left [of "fst c" d] by (cases c) (auto simp: conj_past_def)
  moreover have "conj_left (conj_past c d) < conj_left c" using c(2) next_match_left [of "fst c" d] by (cases c) (auto simp: conj_past_def)
  ultimately have "sum_list (map (\<lambda>c. conj_left (conj_past c d)) cs) < sum_list (map conj_left cs)" using c(1) by (intro sum_list_map_less)
  then show ?case by (simp add: comp_def)
qed simp

declare conj_loop.simps [simp del]

definition conjunctive_top_k_multi_field :: "'f float_ops \<Rightarrow> search_stats \<Rightarrow> field_terms list \<Rightarrow> nat \<Rightarrow> u64 set option \<Rightarrow> wand_hit list" where
  "conjunctive_top_k_multi_field fl st qfs k restrict =
     (if k = 0 then []
      else let conjunctions = List.map_filter (conjunction_new fl st) qfs
           in finish_heap (conj_loop fl st k restrict (map next_match conjunctions) []))"

section \<open>The terms as cursors\<close>

definition wt_ahead :: "wand_term \<Rightarrow> u64 list" where
  "wt_ahead t = cursor_ahead (wt_cursor t)"

definition wt_good :: "wand_term \<Rightarrow> bool" where
  "wt_good t \<longleftrightarrow> cursor_good (wt_cursor t)"

definition wt_past :: "wand_term \<Rightarrow> u64 \<Rightarrow> wand_term" where
  "wt_past t d = t\<lparr>wt_cursor := cursor_past (wt_cursor t) d\<rparr>"

definition wt_shown :: "wand_term \<Rightarrow> u64 \<Rightarrow> u32 \<times> posting option" where
  "wt_shown t d = (wt_doc_freq t, find (\<lambda>p. doc_id p = d) (postings (wt_cursor t)))"

lemma wt_shown_cursor: "wt_shown (wt_seek t e) d = wt_shown t d" "wt_shown (wt_past t e) d = wt_shown t d"
  by (simp_all add: wt_shown_def wt_seek_def wt_past_def cursor_past_def cursor_next_def)

interpretation wt: doc_align wt_doc wt_past wt_ahead wt_good wt_seek wt_shown conj_align
proof
  fix c t d
  assume "wt_good c"
  then have g: "cursor_good (wt_cursor c)" by (simp add: wt_good_def)
  show "ascending (wt_ahead c)" using pc.ascending_ahead [OF g] by (simp add: wt_ahead_def)
  show "wt_doc c = (case wt_ahead c of [] \<Rightarrow> None | d # _ \<Rightarrow> Some d)" using pc.here_ahead [OF g] by (simp add: wt_ahead_def wt_doc_def)
  show "wt_good (wt_past c d)" using pc.good_past [OF g] by (simp add: wt_good_def wt_past_def)
  show "wt_ahead (wt_past c d) = (if wt_doc c = Some d then tl (wt_ahead c) else wt_ahead c)"
    by (simp add: cursor_past_ahead wt_ahead_def wt_doc_def wt_past_def)
  show "wt_good (wt_seek c t)" using pc.good_seek [OF g] by (simp add: wt_good_def wt_seek_def)
  show "wt_ahead (wt_seek c t) = filter (\<lambda>d. t \<le> d) (wt_ahead c)" using pc.seek_ahead [OF g] by (simp add: wt_ahead_def wt_seek_def)
  show "wt_shown (wt_seek c t) d = wt_shown c d" by (rule wt_shown_cursor)
next
  fix cs :: "wand_term list"
  have none: "is_exhausted (wt_cursor t) \<longleftrightarrow> wt_doc t = None" for t
    by (auto simp: wt_doc_def cursor_doc_id_def slice_get_def is_exhausted_def)
  show "conj_align cs = (cs, None)" if "cs = [] \<or> (\<exists>c \<in> set cs. wt_doc c = None)"
    using that by (intro conj_align_exhausted) (simp add: none)
  fix t
  assume h: "cs \<noteq> []" "\<forall>c \<in> set cs. wt_doc c \<noteq> None" "t = Max (set (map (\<lambda>c. the (wt_doc c)) cs))"
  let ?us = "map (\<lambda>c. wt_seek c t) cs"
  have "\<not> (cs = [] \<or> (\<exists>c \<in> set cs. is_exhausted (wt_cursor c)))" using h(1, 2) none by blast
  then have turn: "conj_align cs = (if \<exists>u \<in> set ?us. is_exhausted (wt_cursor u) then (?us, None)
      else if \<forall>u \<in> set ?us. wt_doc u = Some t then (?us, Some t) else conj_align ?us)"
    unfolding h(3) by (subst conj_align.simps) (simp only: Let_def if_False)
  show "conj_align cs = (if \<forall>c \<in> set cs. wt_doc (wt_seek c t) = Some t then (?us, Some t) else conj_align ?us)"
  proof (cases "\<exists>u \<in> set ?us. is_exhausted (wt_cursor u)")
    case True
    then have "conj_align ?us = (?us, None)" by (intro conj_align_exhausted) simp
    moreover have "\<not> (\<forall>c \<in> set cs. wt_doc (wt_seek c t) = Some t)" using True by (force simp: none)
    ultimately show ?thesis using True by (simp only: turn if_True if_False)
  next
    case False
    then show ?thesis by (simp only: turn if_False list.set_map ball_simps)
  qed
qed

section \<open>The conjunctions as streams\<close>

definition conj_ahead :: "'f conj_stream \<Rightarrow> u64 list" where
  "conj_ahead c = (if snd c = None then [] else wt.common (fc_terms (fst c)))"

definition conj_good :: "'f conj_stream \<Rightarrow> bool" where
  "conj_good c \<longleftrightarrow> fc_terms (fst c) \<noteq> [] \<and> fc_started (fst c) \<and> (\<forall>t \<in> set (fc_terms (fst c)). wt_good t) \<and>
     (\<forall>d. snd c = Some d \<longrightarrow> (\<forall>t \<in> set (fc_terms (fst c)). wt_doc t = Some d))"

definition field_score :: "'f float_ops \<Rightarrow> search_stats \<Rightarrow> u32 \<Rightarrow> 'f \<Rightarrow> u64 \<Rightarrow> u64 \<Rightarrow> (u32 \<times> posting option) list \<Rightarrow> u64" where
  "field_score fl st x avg n d ps = sat_sum (map (\<lambda>(df, p). bm25_score_scaled fl (of_nat (length (positions (the p)))) (weight (the p))
     (doc_len_or_avg fl st x avg d) avg n df) ps)"

definition conj_shown :: "'f float_ops \<Rightarrow> search_stats \<Rightarrow> 'f conj_stream \<Rightarrow> u64 \<Rightarrow> u64 \<times> nat" where
  "conj_shown fl st c d = (let fc = fst c in
     (field_score fl st (fc_xpath fc) (fc_avg_doc_len fc) (fc_doc_count fc) d (map (\<lambda>t. wt_shown t d) (fc_terms fc)), length (fc_terms fc)))"

definition conj_total :: "(u64 \<times> nat) list \<Rightarrow> (u64 \<times> u64 \<times> nat) option" where
  "conj_total ms = Some (sat_sum (map fst ms), sat_sum (map fst ms), sum_list (map snd ms))"

text \<open>Where \<open>next_match\<close> leaves a conjunction.\<close>

lemma next_match_stream:
  assumes "fc_terms fc \<noteq> []" and "\<forall>t \<in> set (fc_terms fc). wt_good t"
    and "ts = (if fc_started fc then map wt_next (fc_terms fc) else fc_terms fc)"
    and "\<forall>t \<in> set ts. wt_good t"
  shows "conj_good (next_match fc)" and "conj_ahead (next_match fc) = wt.common ts"
    and "snd (next_match fc) = (case wt.common ts of [] \<Rightarrow> None | d # _ \<Rightarrow> Some d)"
    and "d \<in> set (wt.common ts) \<Longrightarrow> conj_shown fl st (next_match fc) d = conj_shown fl st (fc\<lparr>fc_terms := ts\<rparr>, e) d"
proof -
  obtain ds where ds: "conj_align ts = (ds, case wt.common ts of [] \<Rightarrow> None | d # _ \<Rightarrow> Some d)" "wt.aligned ts ds"
    "\<And>d. d \<in> set (wt.common ts) \<Longrightarrow> \<forall>c \<in> set ds. wt_doc c = Some (hd (wt.common ts))"
    using wt.align_common [OF assms(4)] by metis
  have nm: "next_match fc = (fc\<lparr>fc_terms := ds, fc_started := True\<rparr>, case wt.common ts of [] \<Rightarrow> None | d # _ \<Rightarrow> Some d)"
    by (simp add: next_match_def ds(1) flip: assms(3))
  show "snd (next_match fc) = (case wt.common ts of [] \<Rightarrow> None | d # _ \<Rightarrow> Some d)" by (simp add: nm)
  have al: "\<forall>c \<in> set ds. wt_good c" "length ds = length ts" "wt.common ds = wt.common ts"
    "\<And>d. d \<in> set (wt.common ts) \<Longrightarrow> map (\<lambda>c. wt_shown c d) ds = map (\<lambda>c. wt_shown c d) ts"
    using ds(2) by (auto simp: wt.aligned_def)
  have len: "length ts = length (fc_terms fc)" by (simp add: assms(3))
  have "ds \<noteq> []" using al(2) len assms(1) by auto
  then show "conj_good (next_match fc)" using al(1) ds(3) by (cases "wt.common ts") (auto simp: conj_good_def nm)
  show "conj_ahead (next_match fc) = wt.common ts" by (cases "wt.common ts") (auto simp: conj_ahead_def nm al(3))
  show "conj_shown fl st (next_match fc) d = conj_shown fl st (fc\<lparr>fc_terms := ts\<rparr>, e) d" if "d \<in> set (wt.common ts)"
    using al(4) [OF that] al(2) by (simp add: conj_shown_def nm Let_def)
qed

lemma wt_next_past: "\<forall>t \<in> set ts. wt_doc t = Some d \<Longrightarrow> map wt_next ts = map (\<lambda>t. wt_past t d) ts"
  by (auto simp: wt_next_def wt_past_def cursor_past_def wt_doc_def)

lemma conj_past_stream:
  assumes "conj_good c" and "snd c = Some d"
  shows "conj_good (conj_past c d)" and "conj_ahead (conj_past c d) = tl (conj_ahead c)"
    and "x \<in> set (tl (conj_ahead c)) \<Longrightarrow> conj_shown fl st (conj_past c d) x = conj_shown fl st c x"
proof -
  obtain fc where c: "c = (fc, Some d)" using assms(2) by (cases c) auto
  let ?ts = "map (\<lambda>t. wt_past t d) (fc_terms fc)"
  have fc: "fc_terms fc \<noteq> []" "fc_started fc" "\<forall>t \<in> set (fc_terms fc). wt_good t" "\<forall>t \<in> set (fc_terms fc). wt_doc t = Some d"
    using assms(1) by (auto simp: conj_good_def c)
  have ts: "?ts = (if fc_started fc then map wt_next (fc_terms fc) else fc_terms fc)" using fc(2) wt_next_past [OF fc(4)] by simp
  have good: "\<forall>t \<in> set ?ts. wt_good t" using fc(3) by (auto intro: wt.good_past)
  have com: "wt.common ?ts = tl (wt.common (fc_terms fc))" by (rule wt.common_past(1) [OF fc(3, 1, 4)])
  note nm = next_match_stream [OF fc(1, 3) ts good]
  show "conj_good (conj_past c d)" using nm(1) by (simp add: conj_past_def c)
  show "conj_ahead (conj_past c d) = tl (conj_ahead c)" using nm(2) com by (simp add: conj_past_def c) (simp add: conj_ahead_def)
  have "conj_shown fl st (fc\<lparr>fc_terms := ?ts\<rparr>, Some d) x = conj_shown fl st c x"
    by (simp add: conj_shown_def c Let_def comp_def wt_shown_cursor)
  then show "x \<in> set (tl (conj_ahead c)) \<Longrightarrow> conj_shown fl st (conj_past c d) x = conj_shown fl st c x"
    using nm(4) [of x fl st "Some d"] com by (simp add: conj_past_def c conj_ahead_def)
qed

lemma conj_evaluate_eq:
  "conj_evaluate fl st d cs (s, m) =
     (foldl saturating_add_u64 s (map (\<lambda>c. conj_score fl st (fst c) d) (filter (\<lambda>c. snd c = Some d) cs)),
      m + sum_list (map (\<lambda>c. length (fc_terms (fst c))) (filter (\<lambda>c. snd c = Some d) cs)))"
proof (induction cs arbitrary: s m)
  case (Cons c cs)
  then show ?case by (cases c) simp
qed simp

lemma conj_score_shown:
  assumes "conj_good c" and "snd c = Some d"
  shows "(conj_score fl st (fst c) d, length (fc_terms (fst c))) = conj_shown fl st c d"
proof -
  have "cursor_current (wt_cursor t) = snd (wt_shown t d)" if "t \<in> set (fc_terms (fst c))" for t
    using assms that cursor_current_here(1) [of "wt_cursor t" d] by (auto simp: conj_good_def wt_good_def wt_doc_def wt_shown_def)
  then have "map (\<lambda>t. bm25_score_scaled fl (of_nat (length (positions (the (cursor_current (wt_cursor t)))))) (weight (the (cursor_current (wt_cursor t))))
       (doc_len_or_avg fl st (fc_xpath (fst c)) (fc_avg_doc_len (fst c)) d) (fc_avg_doc_len (fst c)) (fc_doc_count (fst c)) (wt_doc_freq t)) (fc_terms (fst c)) =
     map (\<lambda>(df, p). bm25_score_scaled fl (of_nat (length (positions (the p)))) (weight (the p))
       (doc_len_or_avg fl st (fc_xpath (fst c)) (fc_avg_doc_len (fst c)) d) (fc_avg_doc_len (fst c)) (fc_doc_count (fst c)) df)
       (map (\<lambda>t. wt_shown t d) (fc_terms (fst c)))" by (simp add: case_prod_beta) (simp add: wt_shown_def)
  from arg_cong [OF this, of "foldl saturating_add_u64 0"] show ?thesis
    by (simp add: conj_score_def conj_shown_def field_score_def sat_sum_def Let_def foldl_map del: map_map)
qed

lemma conj_total_perm:
  assumes "mset vs = mset vs'"
  shows "conj_total vs = conj_total vs'"
proof -
  have "sat_sum (map fst vs) = sat_sum (map fst vs')" using assms by (intro sat_sum_perm) simp
  moreover have "sum_list (map snd vs) = sum_list (map snd vs')" using assms by (metis mset_map sum_mset_sum_list)
  ultimately show ?thesis by (simp add: conj_total_def)
qed

interpretation conj: merge_loop snd conj_past conj_ahead conj_good "conj_shown fl st" conj_total k "restrict_ok restrict"
    "\<lambda>cs d. let (s, m) = conj_evaluate fl st d cs (0, 0) in Some (s, s, m)" "conj_loop fl st k restrict"
  for fl :: "'f float_ops" and st k restrict
proof
  fix c :: "'f conj_stream" and d
  assume g: "conj_good c"
  show "ascending (conj_ahead c)" by (simp add: conj_ahead_def wt.ascending_common)
  show "snd c = (case conj_ahead c of [] \<Rightarrow> None | d # _ \<Rightarrow> Some d)"
  proof (cases "snd c")
    case None
    then show ?thesis by (simp add: conj_ahead_def)
  next
    case (Some t)
    then have "wt.common (fc_terms (fst c)) = t # filter (\<lambda>d. t < d) (wt.common (fc_terms (fst c)))"
      using g by (intro wt.common_same) (auto simp: conj_good_def)
    then show ?thesis using Some by (simp add: conj_ahead_def) (metis list.simps(5))
  qed
  show "conj_good (conj_past c d)" using g conj_past_stream(1) [OF g] by (cases "snd c = Some d") (simp_all add: conj_past_def)
  show "conj_ahead (conj_past c d) = (if snd c = Some d then tl (conj_ahead c) else conj_ahead c)"
    using conj_past_stream(2) [OF g] by (auto simp: conj_past_def)
next
  fix c :: "'f conj_stream" and d e
  assume h: "conj_good c" "d \<in> set (conj_ahead c)" "e < d"
  show "conj_shown fl st (conj_past c e) d = conj_shown fl st c d"
  proof (cases "snd c = Some e")
    case True
    then have "wt.common (fc_terms (fst c)) = e # filter (\<lambda>d. e < d) (wt.common (fc_terms (fst c)))"
      using h(1) by (intro wt.common_same) (auto simp: conj_good_def)
    then have "tl (conj_ahead c) = filter (\<lambda>d. e < d) (conj_ahead c)" using True by (simp add: conj_ahead_def) (metis list.sel(3))
    with h(2, 3) have "d \<in> set (tl (conj_ahead c))" by simp
    then show ?thesis using conj_past_stream(3) [OF h(1) True] by blast
  qed (simp add: conj_past_def)
next
  fix cs cs' :: "'f conj_stream list" and d
  assume "mset cs = mset cs'"
  then show "conj_total (map (\<lambda>c. conj_shown fl st c d) cs) = conj_total (map (\<lambda>c. conj_shown fl st c d) cs')"
    by (intro conj_total_perm) simp
next
  fix cs :: "'f conj_stream list" and c d
  assume good: "\<forall>c \<in> set cs. conj_good c"
  let ?on = "filter (\<lambda>c. snd c = Some d) cs"
  have "map (\<lambda>c. (conj_score fl st (fst c) d, length (fc_terms (fst c)))) ?on = map (\<lambda>c. conj_shown fl st c d) ?on"
    using good conj_score_shown by fastforce
  from arg_cong [OF this, of "map fst"] arg_cong [OF this, of "map snd"]
  have "map (\<lambda>c. conj_score fl st (fst c) d) ?on = map fst (map (\<lambda>c. conj_shown fl st c d) ?on)"
    "map (\<lambda>c. length (fc_terms (fst c))) ?on = map snd (map (\<lambda>c. conj_shown fl st c d) ?on)" by (simp_all add: comp_def)
  note eq = this
  show "(let (s, m) = conj_evaluate fl st d cs (0, 0) in Some (s, s, m)) = conj_total (map (\<lambda>c. conj_shown fl st c d) ?on)"
    unfolding conj_evaluate_eq eq by (simp add: conj_total_def sat_sum_def)
next
  fix cs :: "'f conj_stream list" and heap
  assume "\<forall>c \<in> set cs. snd c = None"
  then have "List.map_filter snd cs = []" by (simp add: List.map_filter_def)
  then show "conj_loop fl st k restrict cs heap = heap" by (subst conj_loop.simps) simp
next
  fix cs :: "'f conj_stream list" and c d heap
  assume h: "c \<in> set cs" "snd c = Some d" "\<forall>c \<in> set cs. \<forall>x. snd c = Some x \<longrightarrow> d \<le> x"
  have mem: "d \<in> set (List.map_filter snd cs)" using h(1, 2) by (auto simp: set_map_filter)
  then obtain x xs where xs: "List.map_filter snd cs = x # xs" by (cases "List.map_filter snd cs") auto
  have "Min (set (x # xs)) = d"
    using mem h(3) unfolding xs [symmetric] by (intro Min_eqI) (auto simp: set_map_filter)
  then show "conj_loop fl st k restrict cs heap = conj_loop fl st k restrict (map (\<lambda>c. conj_past c d) cs)
      (if restrict_ok restrict d
       then case let (s, m) = conj_evaluate fl st d cs (0, 0) in Some (s, s, m) of None \<Rightarrow> heap | Some (s, r, m) \<Rightarrow> push_top_k heap d s r m k
       else heap)"
    by (subst conj_loop.simps) (simp add: xs Let_def case_prod_beta)
qed

section \<open>The reference\<close>

text \<open>The fields of the query that hold a document in the postings of every term, each with its score and its
  number of terms.\<close>

definition conj_matches :: "'f float_ops \<Rightarrow> search_stats \<Rightarrow> field_terms list \<Rightarrow> u64 \<Rightarrow> (u64 \<times> nat) list" where
  "conj_matches fl st qfs d = List.map_filter
     (\<lambda>f. if qf_terms f \<noteq> [] \<and> (\<forall>t \<in> set (qf_terms f). term_posting t d \<noteq> None)
          then Some (field_score fl st (qf_xpath f) (avg_doc_len fl st (qf_xpath f)) (ss_doc_count st (qf_xpath f)) d
                       (map (\<lambda>t. (tr_doc_freq t, term_posting t d)) (qf_terms f)), length (qf_terms f))
          else None) qfs"

definition conj_reference :: "'f float_ops \<Rightarrow> search_stats \<Rightarrow> field_terms list \<Rightarrow> u64 set option \<Rightarrow> wand_hit list" where
  "conj_reference fl st qfs restrict = List.map_filter
     (\<lambda>d. let ms = conj_matches fl st qfs d; s = sat_sum (map fst ms)
          in if restrict_ok restrict d \<and> ms \<noteq> []
             then Some \<lparr>wh_doc = d, wh_score = s, wh_raw = s, wh_matched = sum_list (map snd ms)\<rparr> else None) (mf_docs qfs)"

lemma conjunction_new_stream:
  assumes "conjunction_new fl st f = Some fc" and "\<forall>t \<in> set (qf_terms f). pl_ok (tr_postings t)"
  shows "conj_good (next_match fc)"
    and "d \<in> set (conj_ahead (next_match fc)) \<longleftrightarrow> (\<forall>t \<in> set (qf_terms f). term_posting t d \<noteq> None)"
    and "d \<in> set (conj_ahead (next_match fc)) \<Longrightarrow> conj_shown fl st (next_match fc) d =
      (field_score fl st (qf_xpath f) (avg_doc_len fl st (qf_xpath f)) (ss_doc_count st (qf_xpath f)) d
         (map (\<lambda>t. (tr_doc_freq t, term_posting t d)) (qf_terms f)), length (qf_terms f))"
proof -
  have fc: "qf_terms f \<noteq> []" "fc = \<lparr>fc_xpath = qf_xpath f, fc_doc_count = ss_doc_count st (qf_xpath f), fc_avg_doc_len = avg_doc_len fl st (qf_xpath f),
    fc_terms = map (\<lambda>t. wand_term_new fl (tr_postings t) (tr_doc_freq t) (tr_max_weight t) (ss_doc_count st (qf_xpath f))) (qf_terms f), fc_started = False\<rparr>"
    using assms(1) by (auto simp: conjunction_new_def Let_def split: if_splits)
  have terms: "fc_terms fc \<noteq> []" and good: "\<forall>t \<in> set (fc_terms fc). wt_good t"
    using fc(1) assms(2) by (auto simp: fc(2) wand_term_new_def wt_good_def cursor_good_def cursor_new_def pl_ok_def)
  note nm = next_match_stream [OF terms good _ good, unfolded fc(2), simplified, folded fc(2)]
  show "conj_good (next_match fc)" by (rule nm(1))
  show ahead: "d \<in> set (conj_ahead (next_match fc)) \<longleftrightarrow> (\<forall>t \<in> set (qf_terms f). term_posting t d \<noteq> None)"
    unfolding nm(2) wt.in_common using fc(1)
    by (auto simp: wt_ahead_def cursor_ahead_def wand_term_new_def cursor_new_def term_posting_def find_None_iff)
  show "conj_shown fl st (next_match fc) d =
      (field_score fl st (qf_xpath f) (avg_doc_len fl st (qf_xpath f)) (ss_doc_count st (qf_xpath f)) d
         (map (\<lambda>t. (tr_doc_freq t, term_posting t d)) (qf_terms f)), length (qf_terms f))" if "d \<in> set (conj_ahead (next_match fc))"
    unfolding nm(4) [OF that [unfolded nm(2)], where e = None]
    by (simp add: fc(2) conj_shown_def comp_def wt_shown_def wand_term_new_def cursor_new_def term_posting_def)
qed

lemma conj_streams_matches:
  assumes "\<forall>f \<in> set qfs. \<forall>t \<in> set (qf_terms f). pl_ok (tr_postings t)"
  shows "map (\<lambda>c. conj_shown fl st c d) (filter (\<lambda>c. d \<in> set (conj_ahead c)) (map next_match (List.map_filter (conjunction_new fl st) qfs))) =
    conj_matches fl st qfs d"
  using assms
proof (induction qfs)
  case (Cons f qfs)
  show ?case
  proof (cases "conjunction_new fl st f")
    case None
    then have "\<not> (qf_terms f \<noteq> [] \<and> (\<forall>t \<in> set (qf_terms f). term_posting t d \<noteq> None))"
      by (force simp: conjunction_new_def term_posting_def Let_def split: if_splits)
    with None Cons show ?thesis by (simp add: conj_matches_def List.map_filter_simps)
  next
    case (Some fc)
    then have "qf_terms f \<noteq> []" by (auto simp: conjunction_new_def)
    with Some Cons conjunction_new_stream(2, 3) [OF Some, of d] show ?thesis
      by (auto simp: conj_matches_def List.map_filter_simps)
  qed
qed (simp add: conj_matches_def List.map_filter_simps)

lemma conj_matches_doc: "conj_matches fl st qfs d \<noteq> [] \<Longrightarrow> d \<in> set (mf_docs qfs)"
proof -
  assume "conj_matches fl st qfs d \<noteq> []"
  then obtain m where "m \<in> set (conj_matches fl st qfs d)" by (cases "conj_matches fl st qfs d") auto
  then obtain f where f: "f \<in> set qfs" "qf_terms f \<noteq> []" "\<forall>t \<in> set (qf_terms f). term_posting t d \<noteq> None"
    by (auto simp: conj_matches_def set_map_filter split: if_splits)
  then obtain t where t: "t \<in> set (qf_terms f)" "term_posting t d \<noteq> None" by (cases "qf_terms f") auto
  then have "d \<in> doc_id ` set (items (tr_postings t))" by (auto simp: term_posting_def find_None_iff)
  with f(1) t(1) show ?thesis by (auto simp: mf_docs_def)
qed

lemma map_filter_on: "List.map_filter (\<lambda>d. if Q d then g d else None) ds = List.map_filter g (filter Q ds)"
  by (induction ds) (auto simp: List.map_filter_simps split: option.split)

section \<open>Exactness\<close>

text \<open>C23. The conjunctive search: for posting lists in order, \<open>conjunctive_top_k_multi_field\<close> returns exactly the \<open>k\<close>
  best documents, by score and then by id, among the permitted ones that some field of the query holds in the
  postings of every one of its terms, each with the sum of its scores in the fields that do and the number of their
  terms.\<close>

theorem conjunctive_exact:
  assumes "\<forall>f \<in> set qfs. \<forall>t \<in> set (qf_terms f). pl_ok (tr_postings t)"
  shows "conjunctive_top_k_multi_field fl st qfs k restrict = top_k k (conj_reference fl st qfs restrict)"
proof (cases "k = 0")
  case False
  let ?cs = "map next_match (List.map_filter (conjunction_new fl st) qfs)" and ?P = "restrict_ok restrict"
  have good: "\<forall>c \<in> set ?cs. conj_good c" using assms conjunction_new_stream(1) by (fastforce simp: set_map_filter)
  have shown: "map (\<lambda>c. conj_shown fl st c d) (conj.holding ?cs d) = conj_matches fl st qfs d" for d
    using conj_streams_matches [OF assms] by (simp add: conj.holding_def)
  have docs: "conj.all_docs ?cs = filter (\<lambda>d. conj_matches fl st qfs d \<noteq> []) (mf_docs qfs)"
  proof (rule ascending_eqI)
    have "d \<in> set (conj.all_docs ?cs) \<longleftrightarrow> conj_matches fl st qfs d \<noteq> []" for d
      unfolding shown [symmetric] by (force simp: conj.set_all_docs conj.holding_def filter_empty_conv)
    then show "set (conj.all_docs ?cs) = set (filter (\<lambda>d. conj_matches fl st qfs d \<noteq> []) (mf_docs qfs))"
      using conj_matches_doc by auto
  qed (simp_all add: conj.ascending_all_docs mf_docs_def sorted_wrt_filter)
  have "conj.hits fl st ?P ?cs = conj_reference fl st qfs restrict"
    unfolding conj.hits_def docs conj_reference_def conj.hit_of_def shown conj_total_def map_filter_on [symmetric]
    by (intro arg_cong2 [of _ _ _ _ List.map_filter] ext) (auto simp: Let_def)
  moreover have "conj_loop fl st k restrict ?cs (top_k k []) = top_k k ([] @ conj.hits fl st ?P ?cs)"
    using False good by (intro conj.merge_exact) auto
  ultimately have "conj_loop fl st k restrict ?cs [] = top_k k (conj_reference fl st qfs restrict)" by (simp add: top_k_def)
  with False show ?thesis by (simp add: conjunctive_top_k_multi_field_def finish_top_k)
qed (simp add: conjunctive_top_k_multi_field_def top_k_def)

theorem conjunctive_exact_witness:
  "conjunctive_top_k_multi_field exact_ops sample_stats sample_query 2 None = top_k 2 (conj_reference exact_ops sample_stats sample_query None)"
  by (rule conjunctive_exact) (simp add: sample_query_def sample_term_def pl_ok_def)

end
