(* ===== verification/Clause_Cursor.thy ===== *)
theory Clause_Cursor
  imports Conjunction
begin

text \<open>
  \<^verbatim>\<open>crates/core-query/src/wand.rs\<close>: the forms of a query clause and the clause as one cursor.  A \<open>FormCursor\<close> walks the
  documents all its lists are in, a \<open>ClauseCursor\<close> the union of its forms' documents.
\<close>

section \<open>Forms\<close>

record form_ref =
  fr_xpath :: u32
  fr_field :: nat
  fr_lists :: "term_ref list"
  fr_weight :: u16

type_synonym field_clauses = "form_ref list list"

record 'f form_cursor =
  fo_field :: nat
  fo_idf :: 'f
  fo_cursors :: "posting_cursor list"
  fo_doc_freqs :: "u32 list"
  fo_xpath :: u32
  fo_doc_count :: u64
  fo_avg_doc_len :: 'f
  fo_weight :: u16
  fo_upper_bound :: u64
  fo_doc :: "u64 option"

definition weighted :: "u64 \<Rightarrow> u16 \<Rightarrow> u64" where
  "weighted score w = saturating_mul_u64 score (ucast w) div 1000"

lemma unat_sat_mul: "unat (saturating_mul_u64 a b) = min (2 ^ 64 - 1) (unat a * unat b)"
  by (auto simp: saturating_mul_u64_def unat_word_ariths min_def unsigned_minus_1_eq_mask mask_eq_exp_minus_1)

lemma weighted_mono: "s \<le> s' \<Longrightarrow> weighted s w \<le> weighted s' w"
proof -
  assume "s \<le> s'"
  then have "unat s * unat (ucast w :: u64) \<le> unat s' * unat (ucast w :: u64)" by (simp add: word_le_nat_alt)
  then have "unat (saturating_mul_u64 s (ucast w)) \<le> unat (saturating_mul_u64 s' (ucast w))" unfolding unat_sat_mul by (rule min.mono [OF order_refl])
  then show ?thesis by (simp add: weighted_def word_le_nat_alt unat_div_distrib div_le_mono)
qed

definition cursors_left :: "posting_cursor list \<Rightarrow> nat" where
  "cursors_left cs = sum_list (map cursor_left cs)"

lemma cursors_left_advance: "cursors_left (map (\<lambda>c. advance_to c d) cs) \<le> cursors_left cs"
  unfolding cursors_left_def map_map comp_def by (intro sum_list_mono) (rule cursor_left_advance)

lemma cursors_left_advance_less:
  assumes "c \<in> set cs" and "cursor_doc_id c = Some x" and "x < d"
  shows "cursors_left (map (\<lambda>c. advance_to c d) cs) < cursors_left cs"
  unfolding cursors_left_def map_map comp_def
  using assms by (intro sum_list_map_less [of _ _ _ c]) (simp_all add: cursor_left_advance cursor_left_advance_less)

text \<open>\<open>FormCursor::align\<close>: the cursors and the document all of them are on.\<close>

function cursors_align :: "posting_cursor list \<Rightarrow> posting_cursor list \<times> u64 option" where
  "cursors_align cs =
     (if cs = [] \<or> (\<exists>c \<in> set cs. cursor_doc_id c = None) then (cs, None)
      else let target = Max (set (map (\<lambda>c. the (cursor_doc_id c)) cs)); ds = map (\<lambda>c. advance_to c target) cs
           in if \<forall>c \<in> set ds. cursor_doc_id c = Some target then (ds, Some target) else cursors_align ds)"
  by pat_completeness auto
termination
proof (relation "measure cursors_left", goal_cases)
  case (2 cs d ds)
  obtain c where c: "c \<in> set cs" "cursor_doc_id (advance_to c d) \<noteq> Some d" using 2(3, 4) by auto
  then obtain x where x: "cursor_doc_id c = Some x" using 2(1) by auto
  moreover have "x \<le> d" unfolding 2(2) using c(1) x by (intro Max_ge) (auto intro: image_eqI [of _ _ c])
  moreover have "x \<noteq> d" using c(2) x advance_to_here by auto
  ultimately have "cursors_left (map (\<lambda>c. advance_to c d) cs) < cursors_left cs" using c(1) by (intro cursors_left_advance_less) auto
  with 2(3) show ?case by simp
qed simp

declare cursors_align.simps [simp del]

definition form_align :: "'f form_cursor \<Rightarrow> 'f form_cursor" where
  "form_align f = (let (cs, d) = cursors_align (fo_cursors f) in f\<lparr>fo_cursors := cs, fo_doc := d\<rparr>)"

text \<open>\<open>rarity\<close> repeats \<open>bm25_idf\<close>.\<close>

definition rarity :: "'f float_ops \<Rightarrow> u64 \<Rightarrow> u32 \<Rightarrow> 'f" where
  "rarity fl n_docs doc_freq =
     (let n = fl_nat fl (unat n_docs);
          df = fl_min fl (fl_nat fl (unat doc_freq)) n
      in if fl_le fl n (fl_lit fl 0) \<or> fl_le fl df (fl_lit fl 0) then fl_lit fl 0
         else fl_ln fl (fl_add fl (fl_div fl (fl_add fl (fl_sub fl n df) (fl_lit fl (1 / 2)))
                                             (fl_add fl df (fl_lit fl (1 / 2)))) (fl_lit fl 1)))"

definition float_sum :: "'f float_ops \<Rightarrow> 'f list \<Rightarrow> 'f" where
  "float_sum fl xs = foldl (fl_add fl) (fl_lit fl 0) xs"

definition form_new :: "'f float_ops \<Rightarrow> search_stats \<Rightarrow> form_ref \<Rightarrow> 'f form_cursor option" where
  "form_new fl st fr =
     (if fr_lists fr = [] \<or> (\<exists>t \<in> set (fr_lists fr). items (tr_postings t) = []) then None
      else let n_docs = ss_doc_count st (fr_xpath fr);
               upper_bound = foldl saturating_add_u64 0 (map (\<lambda>t. bm25_upper_bound fl (tr_max_weight t) n_docs (tr_doc_freq t)) (fr_lists fr))
           in Some (form_align \<lparr>fo_field = fr_field fr,
                fo_idf = float_sum fl (map (\<lambda>t. rarity fl n_docs (tr_doc_freq t)) (fr_lists fr)),
                fo_cursors = map (\<lambda>t. cursor_new (tr_postings t)) (fr_lists fr),
                fo_doc_freqs = map tr_doc_freq (fr_lists fr),
                fo_xpath = fr_xpath fr, fo_doc_count = n_docs, fo_avg_doc_len = avg_doc_len fl st (fr_xpath fr),
                fo_weight = fr_weight fr, fo_upper_bound = weighted upper_bound (fr_weight fr), fo_doc = None\<rparr>))"

definition form_advance :: "'f form_cursor \<Rightarrow> u64 \<Rightarrow> 'f form_cursor" where
  "form_advance f target =
     (case fo_doc f of
        Some d \<Rightarrow> if d < target then form_align (f\<lparr>fo_cursors := map (\<lambda>c. advance_to c target) (fo_cursors f)\<rparr>) else f
      | None \<Rightarrow> f)"

text \<open>Only the first cursor steps; the others follow in the alignment.  A form has cursors (\<open>form_new\<close>).\<close>

definition form_past :: "'f form_cursor \<Rightarrow> u64 \<Rightarrow> 'f form_cursor" where
  "form_past f d =
     (if fo_doc f = Some d
      then form_align (f\<lparr>fo_cursors := (case fo_cursors f of [] \<Rightarrow> [] | c # cs \<Rightarrow> cursor_next c # cs)\<rparr>)
      else f)"

definition form_score :: "'f float_ops \<Rightarrow> search_stats \<Rightarrow> 'f form_cursor \<Rightarrow> u64 \<Rightarrow> u64" where
  "form_score fl st f d =
     (let doc_len = doc_len_or_avg fl st (fo_xpath f) (fo_avg_doc_len f) d;
          score = foldl (\<lambda>score (c, doc_freq). let p = the (cursor_current c)
                    in saturating_add_u64 score (bm25_score_scaled fl (of_nat (length (positions p))) (weight p) doc_len
                         (fo_avg_doc_len f) (fo_doc_count f) doc_freq)) 0 (zip (fo_cursors f) (fo_doc_freqs f))
      in weighted score (fo_weight f))"

section \<open>Clauses\<close>

record 'f clause_cursor =
  cl_forms :: "'f form_cursor list"
  cl_upper_bound :: u64
  cl_weight :: 'f

text \<open>The best value of each run of equal fields, added up.\<close>

fun best_per_field_from :: "u64 \<Rightarrow> (nat \<times> u64) option \<Rightarrow> (nat \<times> u64) list \<Rightarrow> u64" where
  "best_per_field_from acc current [] = saturating_add_u64 acc (case current of None \<Rightarrow> 0 | Some (_, best) \<Rightarrow> best)"
| "best_per_field_from acc current ((field, v) # vs) =
     (case current of
        Some (at_field, best) \<Rightarrow>
          if at_field = field then best_per_field_from acc (Some (at_field, max best v)) vs
          else best_per_field_from (saturating_add_u64 acc best) (Some (field, v)) vs
      | None \<Rightarrow> best_per_field_from acc (Some (field, v)) vs)"

definition best_per_field :: "(nat \<times> u64) list \<Rightarrow> u64" where
  "best_per_field vs = best_per_field_from 0 None vs"

definition clause_new :: "'f float_ops \<Rightarrow> search_stats \<Rightarrow> form_ref list \<Rightarrow> 'f clause_cursor option" where
  "clause_new fl st frs =
     (case List.map_filter (form_new fl st) frs of
        [] \<Rightarrow> None
      | f # fs \<Rightarrow>
          let forms = f # fs;
              upper_bound = best_per_field (map (\<lambda>f. (fo_field f, fo_upper_bound f)) forms);
              largest = Max (set (map fo_doc_count forms));
              w = (case map fo_idf (filter (\<lambda>f. fo_doc_count f = largest) forms) of
                     [] \<Rightarrow> fl_lit fl 0
                   | x # xs \<Rightarrow> foldl (fl_min fl) x xs)
          in Some \<lparr>cl_forms = forms, cl_upper_bound = upper_bound, cl_weight = w\<rparr>)"

definition clause_doc :: "'f clause_cursor \<Rightarrow> u64 option" where
  "clause_doc c = (case List.map_filter fo_doc (cl_forms c) of [] \<Rightarrow> None | d # ds \<Rightarrow> Some (Min (set (d # ds))))"

definition clause_advance :: "'f clause_cursor \<Rightarrow> u64 \<Rightarrow> 'f clause_cursor" where
  "clause_advance c target = c\<lparr>cl_forms := map (\<lambda>f. form_advance f target) (cl_forms c)\<rparr>"

definition clause_past :: "'f clause_cursor \<Rightarrow> u64 \<Rightarrow> 'f clause_cursor" where
  "clause_past c d = c\<lparr>cl_forms := map (\<lambda>f. form_past f d) (cl_forms c)\<rparr>"

definition clause_score :: "'f float_ops \<Rightarrow> search_stats \<Rightarrow> 'f clause_cursor \<Rightarrow> u64 \<Rightarrow> u64" where
  "clause_score fl st c d =
     best_per_field (map (\<lambda>f. (fo_field f, form_score fl st f d)) (filter (\<lambda>f. fo_doc f = Some d) (cl_forms c)))"

section \<open>Every move makes progress\<close>

text \<open>What is left of a form: its cursors, and whether the document it shows is the one they are on.\<close>

definition form_left :: "'f form_cursor \<Rightarrow> nat" where
  "form_left f = cursors_left (fo_cursors f) +
     (case fo_doc f of None \<Rightarrow> 0 | Some d \<Rightarrow> if fo_cursors f \<noteq> [] \<and> (\<forall>c \<in> set (fo_cursors f). cursor_doc_id c = Some d) then 1 else 2)"

definition clause_left :: "'f clause_cursor \<Rightarrow> nat" where
  "clause_left c = sum_list (map form_left (cl_forms c))"

lemma cursors_align_stop: "cs = [] \<or> (\<exists>c \<in> set cs. cursor_doc_id c = None) \<Longrightarrow> cursors_align cs = (cs, None)"
  by (subst cursors_align.simps) simp

lemma cursors_align_turn:
  assumes "\<not> (cs = [] \<or> (\<exists>c \<in> set cs. cursor_doc_id c = None))" and "t = Max (set (map (\<lambda>c. the (cursor_doc_id c)) cs))"
  shows "cursors_align cs = (if \<forall>c \<in> set cs. cursor_doc_id (advance_to c t) = Some t then (map (\<lambda>c. advance_to c t) cs, Some t)
    else cursors_align (map (\<lambda>c. advance_to c t) cs))"
  using assms(1) unfolding assms(2) by (subst cursors_align.simps) (simp only: Let_def if_False list.set_map ball_simps)

lemma cursors_align_result:
  "cursors_left (fst (cursors_align cs)) \<le> cursors_left cs \<and>
   (\<forall>d. snd (cursors_align cs) = Some d \<longrightarrow> fst (cursors_align cs) \<noteq> [] \<and> (\<forall>c \<in> set (fst (cursors_align cs)). cursor_doc_id c = Some d))"
proof (induction cs rule: cursors_align.induct)
  case (1 cs)
  show ?case
  proof (cases "cs = [] \<or> (\<exists>c \<in> set cs. cursor_doc_id c = None)")
    case True
    then show ?thesis by (simp add: cursors_align_stop)
  next
    case False
    define t where "t = Max (set (map (\<lambda>c. the (cursor_doc_id c)) cs))"
    note turn = cursors_align_turn [OF False t_def]
    show ?thesis
    proof (cases "\<forall>c \<in> set cs. cursor_doc_id (advance_to c t) = Some t")
      case True
      then show ?thesis using False cursors_left_advance [of t cs] by (simp add: turn)
    next
      case no: False
      then have "\<not> (\<forall>c \<in> set (map (\<lambda>c. advance_to c t) cs). cursor_doc_id c = Some t)" by simp
      from "1.IH" [OF False t_def refl this] cursors_left_advance [of t cs] no show ?thesis
        unfolding turn by (simp only: if_False) (meson order_trans)
    qed
  qed
qed

lemma form_align_left: "form_left (form_align f) \<le> cursors_left (fo_cursors f) + 1"
proof (cases "snd (cursors_align (fo_cursors f))")
  case None
  then show ?thesis using cursors_align_result(1) [of "fo_cursors f"] by (simp add: form_align_def form_left_def case_prod_beta)
next
  case (Some d)
  then show ?thesis using cursors_align_result [of "fo_cursors f"] by (simp add: form_align_def form_left_def case_prod_beta)
qed

lemma form_advance_left:
  shows "form_left (form_advance f t) \<le> form_left f" and "fo_doc f = Some d \<Longrightarrow> d < t \<Longrightarrow> form_left (form_advance f t) < form_left f"
proof -
  show less: "form_left (form_advance f t) < form_left f" if h: "fo_doc f = Some d" "d < t" for d
  proof -
    let ?f = "f\<lparr>fo_cursors := map (\<lambda>c. advance_to c t) (fo_cursors f)\<rparr>"
    have adv: "form_advance f t = form_align ?f" using h by (simp add: form_advance_def)
    have "form_left (form_align ?f) \<le> cursors_left (map (\<lambda>c. advance_to c t) (fo_cursors f)) + 1" using form_align_left [of ?f] by simp
    also have "\<dots> < form_left f"
    proof (cases "fo_cursors f \<noteq> [] \<and> (\<forall>c \<in> set (fo_cursors f). cursor_doc_id c = Some d)")
      case True
      then have "cursors_left (map (\<lambda>c. advance_to c t) (fo_cursors f)) < cursors_left (fo_cursors f)"
        using h(2) by (intro cursors_left_advance_less [of "hd (fo_cursors f)"]) auto
      with True h(1) show ?thesis by (simp add: form_left_def)
    next
      case False
      then have "form_left f = cursors_left (fo_cursors f) + 2" using h(1) by (auto simp: form_left_def)
      with cursors_left_advance [of t "fo_cursors f"] show ?thesis by linarith
    qed
    finally show ?thesis unfolding adv .
  qed
  show "form_left (form_advance f t) \<le> form_left f"
  proof (cases "\<exists>d. fo_doc f = Some d \<and> d < t")
    case True
    then show ?thesis using less by (auto intro: less_imp_le)
  next
    case False
    then have "form_advance f t = f" by (auto simp: form_advance_def split: option.split)
    then show ?thesis by simp
  qed
qed

lemma form_past_left:
  shows "form_left (form_past f d) \<le> form_left f" and "fo_doc f = Some d \<Longrightarrow> form_left (form_past f d) < form_left f"
proof -
  show less: "form_left (form_past f d) < form_left f" if h: "fo_doc f = Some d"
  proof -
    let ?cs = "case fo_cursors f of [] \<Rightarrow> [] | c # cs \<Rightarrow> cursor_next c # cs"
    have "form_left (form_past f d) \<le> cursors_left ?cs + 1" using form_align_left [of "f\<lparr>fo_cursors := ?cs\<rparr>"] h by (simp add: form_past_def)
    also have "\<dots> < form_left f"
    proof (cases "fo_cursors f \<noteq> [] \<and> (\<forall>c \<in> set (fo_cursors f). cursor_doc_id c = Some d)")
      case True
      then obtain c cs where "fo_cursors f = c # cs" "cursor_doc_id c = Some d" by (cases "fo_cursors f") auto
      then have "cursors_left ?cs < cursors_left (fo_cursors f)" using cursor_left_next_less [of c d] by (simp add: cursors_left_def)
      with True h show ?thesis by (simp add: form_left_def)
    next
      case False
      then have "form_left f = cursors_left (fo_cursors f) + 2" using h by (auto simp: form_left_def)
      moreover have "cursors_left ?cs \<le> cursors_left (fo_cursors f)"
        by (cases "fo_cursors f") (simp_all add: cursors_left_def cursor_left_next)
      ultimately show ?thesis by linarith
    qed
    finally show ?thesis .
  qed
  show "form_left (form_past f d) \<le> form_left f"
    using less by (cases "fo_doc f = Some d") (auto simp: form_past_def intro: less_imp_le)
qed

lemma clause_doc_form: "clause_doc c = Some d \<Longrightarrow> \<exists>f \<in> set (cl_forms c). fo_doc f = Some d"
proof -
  assume h: "clause_doc c = Some d"
  then have "List.map_filter fo_doc (cl_forms c) \<noteq> []" "d = Min (set (List.map_filter fo_doc (cl_forms c)))"
    by (auto simp: clause_doc_def split: list.splits)
  then have "d \<in> set (List.map_filter fo_doc (cl_forms c))" using Min_in [of "set (List.map_filter fo_doc (cl_forms c))"] by simp
  then show ?thesis by (auto simp: set_map_filter)
qed

lemma clause_doc_least: "clause_doc c = Some d \<Longrightarrow> f \<in> set (cl_forms c) \<Longrightarrow> fo_doc f = Some x \<Longrightarrow> d \<le> x"
proof -
  assume h: "clause_doc c = Some d" "f \<in> set (cl_forms c)" "fo_doc f = Some x"
  have "x \<in> set (List.map_filter fo_doc (cl_forms c))" using h(2, 3) by (auto simp: set_map_filter)
  then have "Min (set (List.map_filter fo_doc (cl_forms c))) \<le> x" by simp
  with h(1) show "d \<le> x" by (auto simp: clause_doc_def split: list.splits)
qed

lemma clause_advance_left:
  shows "clause_left (clause_advance c t) \<le> clause_left c" and "clause_doc c = Some d \<Longrightarrow> d < t \<Longrightarrow> clause_left (clause_advance c t) < clause_left c"
proof -
  show "clause_left (clause_advance c t) \<le> clause_left c"
    unfolding clause_left_def clause_advance_def by (simp add: comp_def) (intro sum_list_mono form_advance_left(1))
  assume "clause_doc c = Some d" "d < t"
  moreover from clause_doc_form [OF this(1)] obtain f where "f \<in> set (cl_forms c)" "fo_doc f = Some d" by blast
  ultimately show "clause_left (clause_advance c t) < clause_left c"
    unfolding clause_left_def clause_advance_def
    by (simp add: comp_def) (intro sum_list_map_less [of _ _ _ f] form_advance_left(1) form_advance_left(2), simp_all)
qed

lemma clause_past_left:
  shows "clause_left (clause_past c d) \<le> clause_left c" and "f \<in> set (cl_forms c) \<Longrightarrow> fo_doc f = Some d \<Longrightarrow> clause_left (clause_past c d) < clause_left c"
proof -
  show "clause_left (clause_past c d) \<le> clause_left c"
    unfolding clause_left_def clause_past_def by (simp add: comp_def) (intro sum_list_mono form_past_left(1))
  assume "f \<in> set (cl_forms c)" "fo_doc f = Some d"
  then show "clause_left (clause_past c d) < clause_left c"
    unfolding clause_left_def clause_past_def
    by (simp add: comp_def) (intro sum_list_map_less [of _ _ _ f] form_past_left(1) form_past_left(2), simp_all)
qed

lemma clause_advance_here: "clause_doc c = Some d \<Longrightarrow> clause_advance c d = c"
proof -
  assume h: "clause_doc c = Some d"
  have "form_advance f d = f" if "f \<in> set (cl_forms c)" for f
    using clause_doc_least [OF h that] by (auto simp: form_advance_def split: option.split)
  then have "map (\<lambda>f. form_advance f d) (cl_forms c) = cl_forms c" by (intro map_idI)
  then show ?thesis by (simp add: clause_advance_def)
qed

section \<open>Forms as cursors\<close>

definition posting_at :: "posting_cursor \<Rightarrow> u64 \<Rightarrow> posting option" where
  "posting_at c d = find (\<lambda>p. doc_id p = d) (postings c)"

lemma posting_at_moved: "posting_at (advance_to c t) d = posting_at c d" "posting_at (cursor_past c e) d = posting_at c d"
  by (simp_all add: posting_at_def cursor_past_def cursor_next_def)

interpretation pa: doc_align cursor_doc_id cursor_past cursor_ahead cursor_good advance_to posting_at cursors_align
proof
  fix c t d
  show "posting_at (advance_to c t) d = posting_at c d" by (rule posting_at_moved)
next
  fix cs t
  show "cs = [] \<or> (\<exists>c \<in> set cs. cursor_doc_id c = None) \<Longrightarrow> cursors_align cs = (cs, None)" by (rule cursors_align_stop)
  assume "cs \<noteq> []" "\<forall>c \<in> set cs. cursor_doc_id c \<noteq> None" "t = Max (set (map (\<lambda>c. the (cursor_doc_id c)) cs))"
  then show "cursors_align cs = (if \<forall>c \<in> set cs. cursor_doc_id (advance_to c t) = Some t then (map (\<lambda>c. advance_to c t) cs, Some t)
      else cursors_align (map (\<lambda>c. advance_to c t) cs))" by (intro cursors_align_turn) auto
qed

definition form_ahead :: "'f form_cursor \<Rightarrow> u64 list" where
  "form_ahead f = (if fo_doc f = None then [] else pc.common (fo_cursors f))"

definition form_good :: "'f form_cursor \<Rightarrow> bool" where
  "form_good f \<longleftrightarrow> fo_cursors f \<noteq> [] \<and> (\<forall>c \<in> set (fo_cursors f). cursor_good c) \<and> length (fo_doc_freqs f) = length (fo_cursors f) \<and>
     (\<forall>d. fo_doc f = Some d \<longrightarrow> (\<forall>c \<in> set (fo_cursors f). cursor_doc_id c = Some d))"

definition form_shown :: "'f float_ops \<Rightarrow> search_stats \<Rightarrow> 'f form_cursor \<Rightarrow> u64 \<Rightarrow> u64" where
  "form_shown fl st f d = weighted (field_score fl st (fo_xpath f) (fo_avg_doc_len f) (fo_doc_count f) d
     (zip (fo_doc_freqs f) (map (\<lambda>c. posting_at c d) (fo_cursors f)))) (fo_weight f)"

lemma form_align_form:
  assumes "fo_cursors f \<noteq> []" and "\<forall>c \<in> set (fo_cursors f). cursor_good c" and "length (fo_doc_freqs f) = length (fo_cursors f)"
  shows "form_good (form_align f)" and "form_ahead (form_align f) = pc.common (fo_cursors f)"
    and "fo_doc (form_align f) = (case pc.common (fo_cursors f) of [] \<Rightarrow> None | d # _ \<Rightarrow> Some d)"
    and "d \<in> set (pc.common (fo_cursors f)) \<Longrightarrow> form_shown fl st (form_align f) d = form_shown fl st f d"
    and "fo_upper_bound (form_align f) = fo_upper_bound f" and "fo_field (form_align f) = fo_field f"
proof -
  obtain ds where ds: "cursors_align (fo_cursors f) = (ds, case pc.common (fo_cursors f) of [] \<Rightarrow> None | d # _ \<Rightarrow> Some d)"
    "pa.aligned (fo_cursors f) ds" "\<And>d. d \<in> set (pc.common (fo_cursors f)) \<Longrightarrow> \<forall>c \<in> set ds. cursor_doc_id c = Some (hd (pc.common (fo_cursors f)))"
    using pa.align_common [OF assms(2)] by metis
  have f: "form_align f = f\<lparr>fo_cursors := ds, fo_doc := (case pc.common (fo_cursors f) of [] \<Rightarrow> None | d # _ \<Rightarrow> Some d)\<rparr>"
    by (simp add: form_align_def ds(1))
  have al: "\<forall>c \<in> set ds. cursor_good c" "length ds = length (fo_cursors f)" "pc.common ds = pc.common (fo_cursors f)"
    "\<And>d. d \<in> set (pc.common (fo_cursors f)) \<Longrightarrow> map (\<lambda>c. posting_at c d) ds = map (\<lambda>c. posting_at c d) (fo_cursors f)"
    using ds(2) by (auto simp: pa.aligned_def)
  have "ds \<noteq> []" using al(2) assms(1) by auto
  then show "form_good (form_align f)"
    using al(1, 2) ds(3) assms(3) by (cases "pc.common (fo_cursors f)") (auto simp: form_good_def f)
  show "form_ahead (form_align f) = pc.common (fo_cursors f)" by (cases "pc.common (fo_cursors f)") (auto simp: form_ahead_def f al(3))
  show "fo_doc (form_align f) = (case pc.common (fo_cursors f) of [] \<Rightarrow> None | d # _ \<Rightarrow> Some d)"
    "fo_upper_bound (form_align f) = fo_upper_bound f" "fo_field (form_align f) = fo_field f" by (simp_all add: f)
  show "form_shown fl st (form_align f) d = form_shown fl st f d" if "d \<in> set (pc.common (fo_cursors f))"
    using al(4) [OF that] by (simp add: form_shown_def f)
qed

lemma form_here: "form_good f \<Longrightarrow> fo_doc f = Some t \<Longrightarrow> form_ahead f = t # filter (\<lambda>d. t < d) (form_ahead f)"
  unfolding form_ahead_def using pc.common_same [of "fo_cursors f" t] by (simp add: form_good_def)

lemma form_advance_form:
  assumes "form_good f" and "fo_doc f = Some x" and "x < t"
  shows "form_good (form_advance f t)" and "form_ahead (form_advance f t) = filter (\<lambda>d. t \<le> d) (form_ahead f)"
    and "d \<in> set (form_ahead f) \<Longrightarrow> t \<le> d \<Longrightarrow> form_shown fl st (form_advance f t) d = form_shown fl st f d"
proof -
  let ?f = "f\<lparr>fo_cursors := map (\<lambda>c. advance_to c t) (fo_cursors f)\<rparr>"
  have adv: "form_advance f t = form_align ?f" using assms(2, 3) by (simp add: form_advance_def)
  have good: "\<forall>c \<in> set (fo_cursors f). cursor_good c" and "fo_cursors f \<noteq> []" using assms(1) by (auto simp: form_good_def)
  then have f: "fo_cursors ?f \<noteq> []" "\<forall>c \<in> set (fo_cursors ?f). cursor_good c" "length (fo_doc_freqs ?f) = length (fo_cursors ?f)"
    using assms(1) by (auto simp: form_good_def intro: pc.good_seek)
  have com: "pc.common (fo_cursors ?f) = filter (\<lambda>d. t \<le> d) (form_ahead f)"
    using pc.common_seek [OF good] assms(2) by (simp add: form_ahead_def)
  show "form_good (form_advance f t)" unfolding adv by (rule form_align_form(1) [OF f])
  show "form_ahead (form_advance f t) = filter (\<lambda>d. t \<le> d) (form_ahead f)" unfolding adv form_align_form(2) [OF f] by (rule com)
  assume "d \<in> set (form_ahead f)" "t \<le> d"
  then have "form_shown fl st (form_advance f t) d = form_shown fl st ?f d" unfolding adv using com by (intro form_align_form(4) [OF f]) auto
  also have "\<dots> = form_shown fl st f d" by (simp add: form_shown_def comp_def posting_at_moved)
  finally show "form_shown fl st (form_advance f t) d = form_shown fl st f d" .
qed

lemma form_past_form:
  assumes "form_good f" and "fo_doc f = Some e"
  shows "form_good (form_past f e)" and "form_ahead (form_past f e) = tl (form_ahead f)"
    and "d \<in> set (tl (form_ahead f)) \<Longrightarrow> form_shown fl st (form_past f e) d = form_shown fl st f d"
proof -
  obtain c cs where cs: "fo_cursors f = c # cs" using assms(1) by (cases "fo_cursors f") (auto simp: form_good_def)
  have good: "\<forall>c \<in> set (fo_cursors f). cursor_good c" and at_e: "\<forall>c \<in> set (fo_cursors f). cursor_doc_id c = Some e"
    using assms by (auto simp: form_good_def)
  have hd_past: "cursor_next c = cursor_past c e" using at_e by (simp add: cs cursor_past_def)
  let ?f = "f\<lparr>fo_cursors := cursor_past c e # cs\<rparr>"
  have past: "form_past f e = form_align ?f" using assms(2) hd_past by (simp add: form_past_def cs)
  have f: "fo_cursors ?f \<noteq> []" "\<forall>c \<in> set (fo_cursors ?f). cursor_good c" "length (fo_doc_freqs ?f) = length (fo_cursors ?f)"
    using assms(1) good by (auto simp: form_good_def cs intro: pc.good_past)
  have com: "pc.common (fo_cursors ?f) = tl (form_ahead f)"
    using pc.common_past(2) [OF good _ at_e] assms(2) by (simp add: form_ahead_def cs)
  show "form_good (form_past f e)" unfolding past by (rule form_align_form(1) [OF f])
  show "form_ahead (form_past f e) = tl (form_ahead f)" unfolding past form_align_form(2) [OF f] by (rule com)
  assume "d \<in> set (tl (form_ahead f))"
  then have "form_shown fl st (form_past f e) d = form_shown fl st ?f d" unfolding past using com by (intro form_align_form(4) [OF f]) simp
  also have "\<dots> = form_shown fl st f d" by (simp add: form_shown_def cs posting_at_moved)
  finally show "form_shown fl st (form_past f e) d = form_shown fl st f d" .
qed

interpretation fo: doc_cursor fo_doc form_past form_ahead form_good form_advance
proof
  fix f :: "'f form_cursor" and t d
  assume g: "form_good f"
  show "ascending (form_ahead f)" by (simp add: form_ahead_def pc.ascending_common)
  show "fo_doc f = (case form_ahead f of [] \<Rightarrow> None | d # _ \<Rightarrow> Some d)"
    using form_here [OF g] by (cases "fo_doc f") (simp add: form_ahead_def, metis list.simps(5))
  show "form_good (form_past f d)" using g form_past_form(1) [OF g, of d] by (cases "fo_doc f = Some d") (simp_all add: form_past_def)
  show "form_ahead (form_past f d) = (if fo_doc f = Some d then tl (form_ahead f) else form_ahead f)"
    using form_past_form(2) [OF g, of d] by (cases "fo_doc f = Some d") (simp_all add: form_past_def)
  show "form_good (form_advance f t)" using g form_advance_form(1) [OF g] by (auto simp: form_advance_def split: option.splits)
  show "form_ahead (form_advance f t) = filter (\<lambda>d. t \<le> d) (form_ahead f)"
  proof (cases "fo_doc f")
    case None
    then show ?thesis by (simp add: form_ahead_def form_advance_def)
  next
    case (Some x)
    show ?thesis
    proof (cases "x < t")
      case True
      then show ?thesis by (rule form_advance_form(2) [OF g Some])
    next
      case False
      have "t \<le> d" if "d \<in> set (form_ahead f)" for d
      proof -
        have "d \<in> set (x # filter (\<lambda>d. x < d) (form_ahead f))" using that form_here [OF g Some] by metis
        then show ?thesis using False by auto
      qed
      then show ?thesis using False Some by (simp add: form_advance_def filter_id_conv)
    qed
  qed
qed

lemma form_shown_advance: "form_good f \<Longrightarrow> d \<in> set (form_ahead f) \<Longrightarrow> t \<le> d \<Longrightarrow> form_shown fl st (form_advance f t) d = form_shown fl st f d"
  using form_advance_form(3) [of f] by (auto simp: form_advance_def split: option.split)

lemma form_shown_past: "form_good f \<Longrightarrow> d \<in> set (form_ahead f) \<Longrightarrow> e < d \<Longrightarrow> form_shown fl st (form_past f e) d = form_shown fl st f d"
proof (cases "fo_doc f = Some e")
  case True
  assume h: "form_good f" "d \<in> set (form_ahead f)" "e < d"
  have "tl (form_ahead f) = filter (\<lambda>d. e < d) (form_ahead f)" using form_here [OF h(1) True] by (metis list.sel(3))
  then show ?thesis using h by (intro form_past_form(3) [OF h(1) True]) simp
qed (simp add: form_past_def)

lemma form_static [simp]: "fo_field (form_advance f t) = fo_field f" "fo_upper_bound (form_advance f t) = fo_upper_bound f"
  "fo_field (form_past f e) = fo_field f" "fo_upper_bound (form_past f e) = fo_upper_bound f"
  by (simp_all add: form_advance_def form_past_def form_align_def case_prod_beta split: option.split)

lemma form_score_shown:
  assumes "form_good f" and "fo_doc f = Some d"
  shows "form_score fl st f d = form_shown fl st f d"
proof -
  have cur: "\<forall>c \<in> set (fo_cursors f). cursor_current c = posting_at c d"
    using assms cursor_current_here(1) by (auto simp: form_good_def posting_at_def)
  have "map (\<lambda>(c, df). let p = the (cursor_current c) in bm25_score_scaled fl (of_nat (length (positions p))) (weight p)
        (doc_len_or_avg fl st (fo_xpath f) (fo_avg_doc_len f) d) (fo_avg_doc_len f) (fo_doc_count f) df) (zip cs dfs) =
      map (\<lambda>(df, p). bm25_score_scaled fl (of_nat (length (positions (the p)))) (weight (the p))
        (doc_len_or_avg fl st (fo_xpath f) (fo_avg_doc_len f) d) (fo_avg_doc_len f) (fo_doc_count f) df) (zip dfs (map (\<lambda>c. posting_at c d) cs))"
    if "set cs \<subseteq> set (fo_cursors f)" for cs dfs
    using that by (induction cs arbitrary: dfs) (auto simp: cur Let_def zip_Cons1 split: list.split)
  from arg_cong [OF this [OF subset_refl, of "fo_doc_freqs f"], of "foldl saturating_add_u64 0"] show ?thesis
    by (simp add: form_score_def form_shown_def field_score_def sat_sum_def Let_def foldl_map case_prod_unfold del: map_map)
qed

section \<open>The best of each field\<close>

text \<open>Fewer and smaller values give no more: the runs of a part of the values are parts of the runs.\<close>

fun bpf_nat :: "nat \<Rightarrow> (nat \<times> nat) option \<Rightarrow> (nat \<times> nat) list \<Rightarrow> nat" where
  "bpf_nat acc current [] = acc + (case current of None \<Rightarrow> 0 | Some (_, best) \<Rightarrow> best)"
| "bpf_nat acc current ((field, v) # vs) =
     (case current of
        Some (at_field, best) \<Rightarrow> if at_field = field then bpf_nat acc (Some (at_field, max best v)) vs else bpf_nat (acc + best) (Some (field, v)) vs
      | None \<Rightarrow> bpf_nat acc (Some (field, v)) vs)"

lemma unat_max: "unat (max a b) = max (unat a) (unat b)" for a b :: u64
  by (simp add: max_def word_le_nat_alt)

lemma bpf_nat_acc: "bpf_nat (a + b) current vs = a + bpf_nat b current vs"
  by (induction b current vs arbitrary: rule: bpf_nat.induct) (auto split: option.split simp flip: add.assoc)

lemma bpf_nat_shift: "bpf_nat a current vs = a + bpf_nat 0 current vs"
  using bpf_nat_acc [of a 0] by simp

lemma unat_best_per_field_from:
  "unat (best_per_field_from acc current vs) =
    min (2 ^ 64 - 1) (bpf_nat (unat acc) (map_option (apsnd unat) current) (map (apsnd unat) vs))"
proof (induction acc current vs rule: best_per_field_from.induct)
  case (1 acc current)
  then show ?case using unat_u64_lt [of acc] by (auto simp: unat_sat_add split: option.split)
next
  case (2 acc current field v vs)
  show ?case
  proof (cases current)
    case None
    then show ?thesis using "2.IH"(1) [OF None] by simp
  next
    case (Some ab)
    obtain g best where ab: "ab = (g, best)" by fastforce
    show ?thesis
    proof (cases "g = field")
      case True
      then show ?thesis using "2.IH"(2) [OF Some ab [symmetric]] by (simp add: Some ab unat_max id_def)
    next
      case False
      let ?rest = "bpf_nat 0 (Some (field, unat v)) (map (apsnd unat) vs)"
      have "unat (best_per_field_from acc current ((field, v) # vs)) = min (2 ^ 64 - 1) (bpf_nat (min (2 ^ 64 - 1) (unat acc + unat best)) (Some (field, unat v)) (map (apsnd unat) vs))"
        using "2.IH"(3) [OF Some ab [symmetric] False] False by (simp add: Some ab unat_sat_add)
      also have "\<dots> = min (2 ^ 64 - 1) (unat acc + unat best + ?rest)"
        unfolding bpf_nat_shift [of "min _ _"] by (simp add: min_def)
      finally show ?thesis unfolding Some ab using False by (simp add: bpf_nat_shift [of "unat acc + unat best"])
    qed
  qed
qed

definition bpf_le :: "nat \<times> (nat \<times> nat) option \<Rightarrow> nat \<times> (nat \<times> nat) option \<Rightarrow> bool" where
  "bpf_le x y \<longleftrightarrow> (case (x, y) of
     ((a, None), (b, _)) \<Rightarrow> a \<le> b
   | ((a, Some (g, v)), (b, None)) \<Rightarrow> a + v \<le> b
   | ((a, Some (g, v)), (b, Some (h, w))) \<Rightarrow> a + v \<le> b \<or> g = h \<and> a \<le> b \<and> a + v \<le> b + w)"

lemma bpf_nat_mono:
  assumes "bpf_le (a, cur) (b, cur')" and "\<forall>x \<in> set vs. f x \<le> g x"
  shows "bpf_nat a cur (map (\<lambda>x. (h x, f x)) (filter Q vs)) \<le> bpf_nat b cur' (map (\<lambda>x. (h x, g x)) vs)"
  using assms
proof (induction vs arbitrary: a cur b cur')
  case Nil
  then show ?case by (auto simp: bpf_le_def split: option.splits)
next
  case (Cons x vs)
  let ?a = "case cur of Some (k, best) \<Rightarrow> if k = h x then (a, Some (k, max best (f x))) else (a + best, Some (h x, f x)) | None \<Rightarrow> (a, Some (h x, f x))"
  let ?b = "case cur' of Some (k, best) \<Rightarrow> if k = h x then (b, Some (k, max best (g x))) else (b + best, Some (h x, g x)) | None \<Rightarrow> (b, Some (h x, g x))"
  have fg: "f x \<le> g x" using Cons.prems(2) by simp
  have both: "bpf_le ?a ?b" using Cons.prems(1) fg by (auto simp: bpf_le_def split: option.splits if_splits)
  have skip: "bpf_le (a, cur) ?b" using Cons.prems(1) by (auto simp: bpf_le_def split: option.splits if_splits)
  have step: "bpf_nat b cur' ((h x, g x) # ws) = bpf_nat (fst ?b) (snd ?b) ws" for ws by (auto split: option.split)
  have step': "bpf_nat a cur ((h x, f x) # ws) = bpf_nat (fst ?a) (snd ?a) ws" for ws by (auto split: option.split)
  show ?case
    using Cons.IH [of "fst ?a" "snd ?a" "fst ?b" "snd ?b"] Cons.IH [of a cur "fst ?b" "snd ?b"] both skip Cons.prems(2)
    by (cases "Q x") (simp_all only: list.map filter.simps if_True if_False step step' prod.collapse, simp_all)
qed

lemma best_per_field_mono:
  assumes "\<And>x. x \<in> set vs \<Longrightarrow> Q x \<Longrightarrow> f x \<le> g x"
  shows "best_per_field (map (\<lambda>x. (h x, f x)) (filter Q vs)) \<le> best_per_field (map (\<lambda>x. (h x, g x)) vs)"
proof -
  let ?f = "\<lambda>x. if Q x then unat (f x) else 0" and ?g = "\<lambda>x. unat (g x)"
  have "bpf_nat 0 None (map (\<lambda>x. (h x, ?f x)) (filter Q vs)) \<le> bpf_nat 0 None (map (\<lambda>x. (h x, ?g x)) vs)"
    using assms by (intro bpf_nat_mono) (auto simp: bpf_le_def word_le_nat_alt)
  moreover have "map (\<lambda>x. (h x, ?f x)) (filter Q vs) = map (\<lambda>x. (h x, unat (f x))) (filter Q vs)" by simp
  ultimately show ?thesis by (simp add: best_per_field_def word_le_nat_alt unat_best_per_field_from comp_def)
qed

section \<open>Clauses as cursors\<close>

definition clause_ahead :: "'f clause_cursor \<Rightarrow> u64 list" where
  "clause_ahead c = fo.all_docs (cl_forms c)"

definition clause_good :: "'f float_ops \<Rightarrow> search_stats \<Rightarrow> 'f clause_cursor \<Rightarrow> bool" where
  "clause_good fl st c \<longleftrightarrow> (\<forall>f \<in> set (cl_forms c). form_good f \<and> (\<forall>d \<in> set (form_ahead f). form_shown fl st f d \<le> fo_upper_bound f)) \<and>
     cl_upper_bound c = best_per_field (map (\<lambda>f. (fo_field f, fo_upper_bound f)) (cl_forms c)) \<and> fl_le fl (fl_lit fl 0) (cl_weight c)"

definition clause_shown :: "'f float_ops \<Rightarrow> search_stats \<Rightarrow> 'f clause_cursor \<Rightarrow> u64 \<Rightarrow> u64 \<times> u64 \<times> 'f" where
  "clause_shown fl st c d =
     (cl_upper_bound c, best_per_field (map (\<lambda>f. (fo_field f, form_shown fl st f d)) (fo.holding (cl_forms c) d)), cl_weight c)"

lemma clause_doc_None: "clause_doc c = None \<longleftrightarrow> (\<forall>f \<in> set (cl_forms c). fo_doc f = None)"
proof -
  have "clause_doc c = None \<longleftrightarrow> set (List.map_filter fo_doc (cl_forms c)) = {}" by (simp add: clause_doc_def split: list.split)
  also have "\<dots> \<longleftrightarrow> (\<forall>f \<in> set (cl_forms c). \<forall>d. fo_doc f \<noteq> Some d)" unfolding set_map_filter Collect_empty_eq by meson
  finally show ?thesis by simp
qed

lemma clause_here:
  assumes "\<forall>f \<in> set (cl_forms c). form_good f"
  shows "clause_doc c = (case clause_ahead c of [] \<Rightarrow> None | d # _ \<Rightarrow> Some d)"
    and "clause_doc c = Some d \<Longrightarrow> d \<in> set (clause_ahead c) \<and> (\<forall>x \<in> set (clause_ahead c). d \<le> x)"
proof -
  show least: "d \<in> set (clause_ahead c) \<and> (\<forall>x \<in> set (clause_ahead c). d \<le> x)" if h: "clause_doc c = Some d" for d
  proof -
    obtain f where f: "f \<in> set (cl_forms c)" "fo_doc f = Some d" using clause_doc_form [OF h] by blast
    have "d \<le> x" if g: "g \<in> set (cl_forms c)" "x \<in> set (form_ahead g)" for g x
    proof -
      have "fo_doc g \<noteq> None" using g fo.here_None [of g] assms by auto
      then obtain y where y: "fo_doc g = Some y" by blast
      then have "d \<le> y" "y \<le> x" using clause_doc_least [OF h g(1) y] fo.here_least [of g y] assms g by auto
      then show ?thesis by simp
    qed
    with f fo.here_least [of f d] assms show ?thesis by (auto simp: clause_ahead_def fo.set_all_docs)
  qed
  show "clause_doc c = (case clause_ahead c of [] \<Rightarrow> None | d # _ \<Rightarrow> Some d)"
  proof (cases "clause_doc c")
    case None
    then have "form_ahead f = []" if "f \<in> set (cl_forms c)" for f using that assms fo.here_None [of f] by (simp add: clause_doc_None)
    then have "set (clause_ahead c) = {}" by (auto simp: clause_ahead_def fo.set_all_docs)
    with None show ?thesis by simp
  next
    case (Some d)
    have "ascending (clause_ahead c)" by (simp add: clause_ahead_def fo.ascending_all_docs)
    with least [OF Some] Some show ?thesis by (cases "clause_ahead c") auto
  qed
qed

lemma clause_advance_ahead:
  assumes "\<forall>f \<in> set (cl_forms c). form_good f"
  shows "clause_ahead (clause_advance c t) = filter (\<lambda>d. t \<le> d) (clause_ahead c)"
proof (rule ascending_eqI)
  show "set (clause_ahead (clause_advance c t)) = set (filter (\<lambda>d. t \<le> d) (clause_ahead c))"
    using assms by (auto simp: clause_ahead_def clause_advance_def fo.set_all_docs fo.seek_ahead)
qed (simp_all add: clause_ahead_def fo.ascending_all_docs sorted_wrt_filter)

lemma clause_past_ahead:
  assumes "\<forall>f \<in> set (cl_forms c). form_good f" and "\<forall>x \<in> set (clause_ahead c). d \<le> x"
  shows "clause_ahead (clause_past c d) = (if clause_doc c = Some d then tl (clause_ahead c) else clause_ahead c)"
proof (cases "clause_doc c = Some d")
  case True
  then have "d \<in> set (clause_ahead c)" using clause_here(2) [OF assms(1)] by simp
  then have "clause_ahead c = d # clause_ahead (clause_past c d)"
    using fo.all_docs_past(1) [OF assms(1)] assms(2) by (simp add: clause_ahead_def clause_past_def)
  then have "tl (clause_ahead c) = clause_ahead (clause_past c d)" by (metis list.sel(3))
  with True show ?thesis by simp
next
  case False
  have "fo_doc f \<noteq> Some d" if f: "f \<in> set (cl_forms c)" for f
  proof
    assume "fo_doc f = Some d"
    then have "d \<in> set (clause_ahead c)" using f assms(1) fo.here_least [of f d] by (auto simp: clause_ahead_def fo.set_all_docs)
    moreover have "ascending (clause_ahead c)" by (simp add: clause_ahead_def fo.ascending_all_docs)
    ultimately have "clause_doc c = Some d" using assms(2) clause_here(1) [OF assms(1)] by (cases "clause_ahead c") auto
    with False show False by simp
  qed
  then have "map (\<lambda>f. form_past f d) (cl_forms c) = cl_forms c" by (intro map_idI) (simp add: form_past_def)
  with False show ?thesis by (simp add: clause_past_def)
qed

lemma holding_moved:
  assumes "\<And>f. f \<in> set fs \<Longrightarrow> d \<in> set (form_ahead (m f)) \<longleftrightarrow> d \<in> set (form_ahead f)" and "\<And>f. f \<in> set fs \<Longrightarrow> fo_field (m f) = fo_field f"
    and "\<And>f. f \<in> set fs \<Longrightarrow> d \<in> set (form_ahead f) \<Longrightarrow> form_shown fl st (m f) d = form_shown fl st f d"
  shows "map (\<lambda>f. (fo_field f, form_shown fl st f d)) (fo.holding (map m fs) d) = map (\<lambda>f. (fo_field f, form_shown fl st f d)) (fo.holding fs d)"
proof -
  have "fo.holding (map m fs) d = map m (fo.holding fs d)"
    using assms(1) by (auto simp: fo.holding_def filter_map comp_def intro!: arg_cong [of _ _ "map m"] filter_cong)
  then show ?thesis using assms(2, 3) by (simp add: fo.holding_def)
qed

lemma clause_shown_advance:
  assumes "\<forall>f \<in> set (cl_forms c). form_good f" and "t \<le> d"
  shows "clause_shown fl st (clause_advance c t) d = clause_shown fl st c d"
proof -
  have "map (\<lambda>f. (fo_field f, form_shown fl st f d)) (fo.holding (map (\<lambda>f. form_advance f t) (cl_forms c)) d) =
      map (\<lambda>f. (fo_field f, form_shown fl st f d)) (fo.holding (cl_forms c) d)"
    using assms by (intro holding_moved) (simp_all add: fo.seek_ahead form_shown_advance)
  then show ?thesis by (simp add: clause_shown_def clause_advance_def)
qed

lemma clause_shown_past:
  assumes "\<forall>f \<in> set (cl_forms c). form_good f" and "\<forall>x \<in> set (clause_ahead c). e \<le> x" and "e < d"
  shows "clause_shown fl st (clause_past c e) d = clause_shown fl st c d"
proof -
  have "map (\<lambda>f. (fo_field f, form_shown fl st f d)) (fo.holding (map (\<lambda>f. form_past f e) (cl_forms c)) d) =
      map (\<lambda>f. (fo_field f, form_shown fl st f d)) (fo.holding (cl_forms c) d)"
  proof (rule holding_moved)
    fix f
    assume f: "f \<in> set (cl_forms c)"
    then have "set (form_ahead (form_past f e)) = set (form_ahead f) - {e}"
      using assms by (intro fo.past_set) (auto simp: clause_ahead_def fo.set_all_docs)
    then show "d \<in> set (form_ahead (form_past f e)) \<longleftrightarrow> d \<in> set (form_ahead f)" using assms(3) by auto
    show "d \<in> set (form_ahead f) \<Longrightarrow> form_shown fl st (form_past f e) d = form_shown fl st f d"
      using assms f by (intro form_shown_past) auto
  qed simp
  then show ?thesis by (simp add: clause_shown_def clause_past_def)
qed

lemma clause_good_advance: "clause_good fl st c \<Longrightarrow> clause_good fl st (clause_advance c t)"
proof -
  assume h: "clause_good fl st c"
  have "form_good (form_advance f t) \<and> (\<forall>d \<in> set (form_ahead (form_advance f t)). form_shown fl st (form_advance f t) d \<le> fo_upper_bound (form_advance f t))"
    if f: "f \<in> set (cl_forms c)" for f
    using h f fo.good_seek [of f t] by (auto simp: clause_good_def fo.seek_ahead form_shown_advance)
  then show ?thesis using h by (simp add: clause_good_def clause_advance_def comp_def)
qed

lemma clause_good_past: "clause_good fl st c \<Longrightarrow> clause_good fl st (clause_past c e)"
proof -
  assume h: "clause_good fl st c"
  have "form_good (form_past f e) \<and> (\<forall>d \<in> set (form_ahead (form_past f e)). form_shown fl st (form_past f e) d \<le> fo_upper_bound (form_past f e))"
    if f: "f \<in> set (cl_forms c)" for f
  proof (cases "fo_doc f = Some e")
    case True
    have g: "form_good f" using h f by (simp add: clause_good_def)
    have "set (tl (form_ahead f)) \<subseteq> set (form_ahead f)" by (cases "form_ahead f") auto
    then show ?thesis using form_past_form [OF g True] h f by (auto simp: clause_good_def)
  qed (use h f in \<open>auto simp: clause_good_def form_past_def\<close>)
  then show ?thesis using h by (simp add: clause_good_def clause_past_def comp_def)
qed

definition clause_plain :: "'f clause_cursor \<Rightarrow> bool" where
  "clause_plain c \<longleftrightarrow> (\<forall>f \<in> set (cl_forms c). form_good f)"

interpretation cl: doc_cursor clause_doc clause_past clause_ahead clause_plain clause_advance
proof
  fix c :: "'f clause_cursor" and t d
  assume "clause_plain c"
  then have forms: "\<forall>f \<in> set (cl_forms c). form_good f" by (simp add: clause_plain_def)
  show "ascending (clause_ahead c)" by (simp add: clause_ahead_def fo.ascending_all_docs)
  show "clause_doc c = (case clause_ahead c of [] \<Rightarrow> None | d # _ \<Rightarrow> Some d)" by (rule clause_here(1) [OF forms])
  show "clause_plain (clause_past c d)" using forms by (auto simp: clause_plain_def clause_past_def intro: fo.good_past)
  show "clause_plain (clause_advance c t)" using forms by (auto simp: clause_plain_def clause_advance_def intro: fo.good_seek)
  show "clause_ahead (clause_advance c t) = filter (\<lambda>d. t \<le> d) (clause_ahead c)" by (rule clause_advance_ahead [OF forms])
  show "clause_ahead (clause_past c d) = (if clause_doc c = Some d then tl (clause_ahead c) else clause_ahead c)"
    if "\<forall>x \<in> set (clause_ahead c). d \<le> x" using clause_past_ahead [OF forms that] .
qed

text \<open>The score of the document a clause is on, and its bound.\<close>

lemma clause_score_shown:
  assumes "clause_plain c" and "clause_doc c = Some d"
  shows "clause_score fl st c d = fst (snd (clause_shown fl st c d))"
proof -
  have forms: "\<forall>f \<in> set (cl_forms c). form_good f" using assms(1) by (simp add: clause_plain_def)
  have "\<forall>x \<in> set (fo.all_docs (cl_forms c)). d \<le> x" using clause_here(2) [OF forms assms(2)] by (simp add: clause_ahead_def)
  then have on: "fo.holding (cl_forms c) d = filter (\<lambda>f. fo_doc f = Some d) (cl_forms c)" by (rule fo.holding_here [OF forms])
  have eq: "map (\<lambda>f. (fo_field f, form_score fl st f d)) (filter (\<lambda>f. fo_doc f = Some d) (cl_forms c)) =
      map (\<lambda>f. (fo_field f, form_shown fl st f d)) (filter (\<lambda>f. fo_doc f = Some d) (cl_forms c))"
    using forms by (simp add: form_score_shown)
  show ?thesis unfolding clause_score_def clause_shown_def on eq by simp
qed

lemma clause_good_plain: "clause_good fl st c \<Longrightarrow> clause_plain c"
  by (simp add: clause_good_def clause_plain_def)

lemma clause_shown_bound: "clause_good fl st c \<Longrightarrow> fst (snd (clause_shown fl st c d)) \<le> cl_upper_bound c"
  unfolding clause_shown_def fo.holding_def
  using best_per_field_mono [of "cl_forms c" "\<lambda>f. d \<in> set (form_ahead f)" "\<lambda>f. form_shown fl st f d" fo_upper_bound fo_field]
  by (auto simp: clause_good_def)

end
