(* ===== verification/Grouped.thy ===== *)
theory Grouped
  imports Clause_Cursor
begin

text \<open>
  \<^verbatim>\<open>crates/core-query/src/wand.rs\<close>: \<open>wand_top_k_grouped\<close> and \<open>conjunctive_top_k_grouped\<close>, the searches over clauses.
  The \<open>f64\<close> arithmetic that scales a score by its coverage is the parameter \<open>dl\<close>.
\<close>

section \<open>Evaluation of a document\<close>

record ('f, 'g) double_ops =
  dl_wide :: "'f \<Rightarrow> 'g"
  dl_u64 :: "u64 \<Rightarrow> 'g"
  dl_mul :: "'g \<Rightarrow> 'g \<Rightarrow> 'g"
  dl_pow :: "'g \<Rightarrow> 'g \<Rightarrow> 'g"
  dl_to_u64 :: "'g \<Rightarrow> u64"

definition fl_lt :: "'f float_ops \<Rightarrow> 'f \<Rightarrow> 'f \<Rightarrow> bool" where
  "fl_lt fl x y \<longleftrightarrow> fl_le fl x y \<and> \<not> fl_le fl y x"

definition fl_clamp :: "'f float_ops \<Rightarrow> 'f \<Rightarrow> 'f \<Rightarrow> 'f \<Rightarrow> 'f" where
  "fl_clamp fl lo hi x = (let y = (if fl_lt fl x lo then lo else x) in if fl_lt fl hi y then hi else y)"

definition COVERAGE_POWER :: "'f float_ops \<Rightarrow> 'f" where
  "COVERAGE_POWER fl = fl_lit fl 2"

definition DIRECT_RESTRICT_MAX :: nat where
  "DIRECT_RESTRICT_MAX = 4096"

definition needed_weight :: "'f float_ops \<Rightarrow> 'f option \<Rightarrow> 'f \<Rightarrow> 'f" where
  "needed_weight fl coverage total_weight =
     (case coverage of None \<Rightarrow> fl_lit fl 0
      | Some share \<Rightarrow> fl_mul fl (fl_clamp fl (fl_lit fl 0) (fl_lit fl 1) share) total_weight)"

definition covers :: "'f float_ops \<Rightarrow> 'f option \<Rightarrow> 'f \<Rightarrow> 'f \<Rightarrow> bool" where
  "covers fl coverage total_weight w \<longleftrightarrow> fl_le fl (needed_weight fl coverage total_weight) (fl_add fl w (fl_lit fl (1 / 10000)))"

definition cover_scaled :: "'f float_ops \<Rightarrow> ('f, 'g) double_ops \<Rightarrow> 'f option \<Rightarrow> 'f \<Rightarrow> 'f \<Rightarrow> u64 \<Rightarrow> u64" where
  "cover_scaled fl dl coverage total_weight matched_weight score =
     (if coverage \<noteq> None \<and> fl_lt fl (fl_lit fl 0) total_weight
      then let covered = dl_wide dl (fl_min fl (fl_div fl matched_weight total_weight) (fl_lit fl 1))
           in dl_to_u64 dl (dl_mul dl (dl_u64 dl score) (dl_pow dl covered (dl_wide dl (COVERAGE_POWER fl))))
      else score)"

fun clause_tally :: "'f float_ops \<Rightarrow> search_stats \<Rightarrow> u64 \<Rightarrow> 'f clause_cursor list \<Rightarrow> u64 \<times> nat \<times> 'f \<Rightarrow> u64 \<times> nat \<times> 'f" where
  "clause_tally fl st d [] acc = acc"
| "clause_tally fl st d (c # cs) (score, matched, w) =
     clause_tally fl st d cs
       (if clause_doc c = Some d then (saturating_add_u64 score (clause_score fl st c d), matched + 1, fl_add fl w (cl_weight c))
        else (score, matched, w))"

definition grouped_evaluate ::
    "'f float_ops \<Rightarrow> ('f, 'g) double_ops \<Rightarrow> search_stats \<Rightarrow> 'f option \<Rightarrow> 'f \<Rightarrow> 'f clause_cursor list \<Rightarrow> u64 \<Rightarrow> (u64 \<times> u64 \<times> nat) option" where
  "grouped_evaluate fl dl st coverage total_weight cs d =
     (let (score, matched, w) = clause_tally fl st d cs (0, 0, fl_lit fl 0)
      in if matched = 0 \<or> \<not> covers fl coverage total_weight w then None
         else Some (cover_scaled fl dl coverage total_weight w score, score, matched))"

section \<open>The loop\<close>

fun grouped_pivot :: "('f \<Rightarrow> bool) \<Rightarrow> 'f float_ops \<Rightarrow> u64 \<Rightarrow> u64 \<Rightarrow> 'f \<Rightarrow> nat \<Rightarrow> 'f clause_cursor list \<Rightarrow> nat option" where
  "grouped_pivot enough fl threshold acc w i [] = None"
| "grouped_pivot enough fl threshold acc w i (c # cs) =
     (let acc = saturating_add_u64 acc (cl_upper_bound c); w = fl_add fl w (cl_weight c)
      in if acc \<ge> threshold \<and> acc > 0 \<and> enough w then Some i else grouped_pivot enough fl threshold acc w (i + 1) cs)"

definition clause_key :: "'f clause_cursor \<Rightarrow> u64" where
  "clause_key c = the (clause_doc c)"

lemma grouped_pivot_range: "grouped_pivot enough fl threshold acc w i cs = Some j \<Longrightarrow> i \<le> j \<and> j < i + length cs"
proof (induction enough fl threshold acc w i cs rule: grouped_pivot.induct)
  case (2 enough fl threshold acc w i c cs)
  then show ?case by (auto simp: Let_def split: if_splits dest: Suc_leD)
qed simp

lemma clause_past_turn:
  assumes "c \<in> set cs" and "clause_doc c = Some d"
  shows "sum_list (map clause_left (map (\<lambda>c. clause_past c d) cs)) < sum_list (map clause_left cs)"
proof -
  obtain f where "f \<in> set (cl_forms c)" "fo_doc f = Some d" using clause_doc_form [OF assms(2)] by blast
  then have "clause_left (clause_past c d) < clause_left c" by (rule clause_past_left(2))
  then show ?thesis unfolding map_map comp_def by (rule sum_list_map_less [OF clause_past_left(1) assms(1)])
qed

lemma clause_advance_turn:
  assumes "cs = sort_key clause_key us" and "\<forall>c \<in> set us. clause_doc c \<noteq> None" and "i < length cs" and "clause_key (cs ! 0) \<noteq> clause_key (cs ! i)"
  shows "sum_list (map clause_left (map (\<lambda>c. clause_advance c (clause_key (cs ! i))) (take i cs) @ drop i cs)) < sum_list (map clause_left cs)"
proof -
  let ?d = "clause_key (cs ! i)"
  have i: "0 < i" using assms(4) by (cases i) auto
  have "sorted (map clause_key cs)" using assms(1) by simp
  then have "clause_key (cs ! 0) \<le> ?d" using sorted_nth_mono [of "map clause_key cs" 0 i] assms(3)
    by (metis (no_types, lifting) length_map nth_map order_le_less_trans zero_le)
  with assms(4) have lt: "clause_key (cs ! 0) < ?d" by simp
  have mem: "cs ! 0 \<in> set (take i cs)" using i assms(3) by (metis length_take min.absorb4 nth_mem nth_take)
  then have "cs ! 0 \<in> set us" using assms(1) by (metis in_set_takeD set_sort)
  then have "clause_doc (cs ! 0) = Some (clause_key (cs ! 0))" using assms(2) by (simp add: clause_key_def)
  then have "clause_left (clause_advance (cs ! 0) ?d) < clause_left (cs ! 0)" using lt by (rule clause_advance_left(2))
  then have "sum_list (map (\<lambda>c. clause_left (clause_advance c ?d)) (take i cs)) < sum_list (map clause_left (take i cs))"
    using mem clause_advance_left(1) by (intro sum_list_map_less)
  moreover have "sum_list (map clause_left cs) = sum_list (map clause_left (take i cs)) + sum_list (map clause_left (drop i cs))"
    by (metis append_take_drop_id map_append sum_list_append)
  ultimately show ?thesis by (simp add: comp_def)
qed

function grouped_loop ::
    "'f float_ops \<Rightarrow> ('f, 'g) double_ops \<Rightarrow> search_stats \<Rightarrow> nat \<Rightarrow> 'f option \<Rightarrow> 'f \<Rightarrow> u64 set option \<Rightarrow> 'f clause_cursor list \<Rightarrow> hit_heap \<Rightarrow> hit_heap" where
  "grouped_loop fl dl st k coverage total_weight restrict clauses heap =
     (let clauses = filter (\<lambda>c. clause_doc c \<noteq> None) clauses
      in if clauses = [] then heap
         else let clauses = sort_key clause_key clauses
              in case grouped_pivot (covers fl coverage total_weight) fl (heap_threshold heap k) 0 (fl_lit fl 0) 0 clauses of
                   None \<Rightarrow> heap
                 | Some pivot_index \<Rightarrow>
                     let pivot_doc = clause_key (clauses ! pivot_index); smallest_doc = clause_key (clauses ! 0)
                     in if smallest_doc = pivot_doc
                        then let heap = (if restrict_ok restrict pivot_doc
                                         then case grouped_evaluate fl dl st coverage total_weight clauses pivot_doc of
                                                Some (score, raw, matched) \<Rightarrow> push_top_k heap pivot_doc score raw matched k
                                              | None \<Rightarrow> heap
                                         else heap)
                             in grouped_loop fl dl st k coverage total_weight restrict (map (\<lambda>c. clause_past c pivot_doc) clauses) heap
                        else grouped_loop fl dl st k coverage total_weight restrict
                               (map (\<lambda>c. clause_advance c pivot_doc) (take pivot_index clauses) @ drop pivot_index clauses) heap)"
  by pat_completeness auto
termination
proof (relation "measure (\<lambda>(fl, dl, st, k, coverage, tw, restrict, clauses, heap). sum_list (map clause_left clauses))", goal_cases)
  case 1
  show ?case by simp
next
  case (2 fl dl st k coverage tw restrict clauses heap us cs i d e h)
  have ne: "us \<noteq> []" by (rule 2(2))
  have "cs ! 0 \<in> set us" using 2(3) ne by (metis length_greater_0_conv nth_mem set_sort length_sort)
  then have "cs ! 0 \<in> set cs" "clause_doc (cs ! 0) = Some d" using 2(1, 3, 5-7) by (auto simp: clause_key_def)
  then have "sum_list (map clause_left (map (\<lambda>c. clause_past c d) cs)) < sum_list (map clause_left cs)" by (rule clause_past_turn)
  also have "\<dots> \<le> sum_list (map clause_left clauses)" unfolding 2(3) 2(1) by (rule sum_list_retain_sort)
  finally show ?case by simp
next
  case (3 fl dl st k coverage tw restrict clauses heap us cs i d e)
  have here: "\<forall>c \<in> set us. clause_doc c \<noteq> None" using 3(1) by auto
  have "i < length cs" using grouped_pivot_range [OF 3(4)] by simp
  then have "sum_list (map clause_left (map (\<lambda>c. clause_advance c (clause_key (cs ! i))) (take i cs) @ drop i cs)) < sum_list (map clause_left cs)"
    using 3(3, 5-7) here by (intro clause_advance_turn [of cs us]) auto
  also have "\<dots> \<le> sum_list (map clause_left clauses)" unfolding 3(3) 3(1) by (rule sum_list_retain_sort)
  finally show ?case using 3(5) by simp
qed

declare grouped_loop.simps [simp del]

text \<open>A few allowed documents: every clause goes to each of them.\<close>

fun grouped_direct ::
    "'f float_ops \<Rightarrow> ('f, 'g) double_ops \<Rightarrow> search_stats \<Rightarrow> nat \<Rightarrow> 'f option \<Rightarrow> 'f \<Rightarrow> u64 list \<Rightarrow> 'f clause_cursor list \<Rightarrow> hit_heap \<Rightarrow> hit_heap" where
  "grouped_direct fl dl st k coverage total_weight [] clauses heap = heap"
| "grouped_direct fl dl st k coverage total_weight (d # ds) clauses heap =
     (let clauses = map (\<lambda>c. clause_advance c d) clauses
      in grouped_direct fl dl st k coverage total_weight ds clauses
           (case grouped_evaluate fl dl st coverage total_weight clauses d of
              Some (score, raw, matched) \<Rightarrow> push_top_k heap d score raw matched k
            | None \<Rightarrow> heap))"

definition wand_top_k_grouped ::
    "'f float_ops \<Rightarrow> ('f, 'g) double_ops \<Rightarrow> search_stats \<Rightarrow> field_clauses list \<Rightarrow> nat \<Rightarrow> 'f option \<Rightarrow> u64 set option \<Rightarrow> wand_hit list" where
  "wand_top_k_grouped fl dl st flds k coverage restrict =
     (if k = 0 then []
      else let clauses = concat (map (List.map_filter (clause_new fl st)) flds);
               total_weight = float_sum fl (map cl_weight clauses)
           in case restrict of
                Some allowed \<Rightarrow>
                  if card allowed \<le> DIRECT_RESTRICT_MAX
                  then finish_heap (grouped_direct fl dl st k coverage total_weight (sorted_list_of_set allowed) clauses [])
                  else finish_heap (grouped_loop fl dl st k coverage total_weight restrict clauses [])
              | None \<Rightarrow> finish_heap (grouped_loop fl dl st k coverage total_weight restrict clauses []))"

section \<open>Every clause in the same field\<close>

function clauses_align :: "'f clause_cursor list \<Rightarrow> 'f clause_cursor list \<times> u64 option" where
  "clauses_align cs =
     (if cs = [] \<or> (\<exists>c \<in> set cs. clause_doc c = None) then (cs, None)
      else let target = Max (set (map (\<lambda>c. the (clause_doc c)) cs)); ds = map (\<lambda>c. clause_advance c target) cs
           in if \<forall>c \<in> set ds. clause_doc c = Some target then (ds, Some target) else clauses_align ds)"
  by pat_completeness auto
termination
proof (relation "measure (\<lambda>cs. sum_list (map clause_left cs))", goal_cases)
  case (2 cs d ds)
  obtain c where c: "c \<in> set cs" "clause_doc (clause_advance c d) \<noteq> Some d" using 2(3, 4) by auto
  then obtain x where x: "clause_doc c = Some x" using 2(1) by auto
  moreover have "x \<le> d" unfolding 2(2) using c(1) x by (intro Max_ge) (auto intro: image_eqI [of _ _ c])
  moreover have "x \<noteq> d" using c(2) x by (auto simp: clause_advance_here)
  ultimately have "clause_left (clause_advance c d) < clause_left c" by (intro clause_advance_left(2)) auto
  then have "sum_list (map (\<lambda>c. clause_left (clause_advance c d)) cs) < sum_list (map clause_left cs)"
    using c(1) clause_advance_left(1) by (intro sum_list_map_less)
  with 2(3) show ?case by (simp add: comp_def)
qed simp

declare clauses_align.simps [simp del]

definition next_common :: "'f clause_cursor list \<Rightarrow> u64 option \<Rightarrow> 'f clause_cursor list \<times> u64 option" where
  "next_common cs after =
     clauses_align (case after of Some d \<Rightarrow> map (\<lambda>c. clause_past c d) cs | None \<Rightarrow> cs)"

type_synonym 'f clause_stream = "'f clause_cursor list \<times> u64 option"

fun stream_evaluate :: "'f float_ops \<Rightarrow> search_stats \<Rightarrow> u64 \<Rightarrow> 'f clause_stream list \<Rightarrow> u64 \<times> nat \<Rightarrow> u64 \<times> nat" where
  "stream_evaluate fl st d [] acc = acc"
| "stream_evaluate fl st d ((clauses, at_doc) # ss) (score, matched) =
     stream_evaluate fl st d ss
       (if at_doc = Some d
        then (foldl (\<lambda>score c. saturating_add_u64 score (clause_score fl st c d)) score clauses, matched + length clauses)
        else (score, matched))"

definition stream_past :: "'f clause_stream \<Rightarrow> u64 \<Rightarrow> 'f clause_stream" where
  "stream_past s d = (if snd s = Some d then next_common (fst s) (Some d) else s)"

definition stream_left :: "'f clause_stream \<Rightarrow> nat" where
  "stream_left s = sum_list (map clause_left (fst s)) +
     (case snd s of None \<Rightarrow> 0 | Some d \<Rightarrow> if \<exists>c \<in> set (fst s). \<exists>f \<in> set (cl_forms c). fo_doc f = Some d then 1 else 2)"

lemma clauses_align_stop: "cs = [] \<or> (\<exists>c \<in> set cs. clause_doc c = None) \<Longrightarrow> clauses_align cs = (cs, None)"
  by (subst clauses_align.simps) simp

lemma clauses_align_turn:
  assumes "\<not> (cs = [] \<or> (\<exists>c \<in> set cs. clause_doc c = None))" and "t = Max (set (map (\<lambda>c. the (clause_doc c)) cs))"
  shows "clauses_align cs = (if \<forall>c \<in> set cs. clause_doc (clause_advance c t) = Some t then (map (\<lambda>c. clause_advance c t) cs, Some t)
    else clauses_align (map (\<lambda>c. clause_advance c t) cs))"
  using assms(1) unfolding assms(2) by (subst clauses_align.simps) (simp only: Let_def if_False list.set_map ball_simps)

lemma clauses_left_advance: "sum_list (map clause_left (map (\<lambda>c. clause_advance c t) cs)) \<le> sum_list (map clause_left cs)"
  unfolding map_map comp_def by (intro sum_list_mono clause_advance_left(1))

lemma clauses_align_left: "stream_left (clauses_align cs) \<le> sum_list (map clause_left cs) + 1"
proof (induction cs rule: clauses_align.induct)
  case (1 cs)
  show ?case
  proof (cases "cs = [] \<or> (\<exists>c \<in> set cs. clause_doc c = None)")
    case True
    then show ?thesis by (simp add: clauses_align_stop stream_left_def)
  next
    case False
    define t where "t = Max (set (map (\<lambda>c. the (clause_doc c)) cs))"
    note turn = clauses_align_turn [OF False t_def]
    show ?thesis
    proof (cases "\<forall>c \<in> set cs. clause_doc (clause_advance c t) = Some t")
      case True
      obtain c where c: "c \<in> set cs" using False by (cases cs) auto
      then obtain f where "f \<in> set (cl_forms (clause_advance c t))" "fo_doc f = Some t" using True clause_doc_form by blast
      then have "\<exists>c \<in> set (map (\<lambda>c. clause_advance c t) cs). \<exists>f \<in> set (cl_forms c). fo_doc f = Some t" using c by auto
      then have "stream_left (map (\<lambda>c. clause_advance c t) cs, Some t) = sum_list (map clause_left (map (\<lambda>c. clause_advance c t) cs)) + 1"
        by (simp add: stream_left_def)
      then show ?thesis using True clauses_left_advance [of t cs] by (simp add: turn)
    next
      case no: False
      then have "\<not> (\<forall>c \<in> set (map (\<lambda>c. clause_advance c t) cs). clause_doc c = Some t)" by simp
      from "1.IH" [OF False t_def refl this] clauses_left_advance [of t cs] show ?thesis
        unfolding turn if_not_P [OF no] by linarith
    qed
  qed
qed

lemma stream_past_left: "snd s = Some d \<Longrightarrow> stream_left (stream_past s d) < stream_left s"
proof -
  assume h: "snd s = Some d"
  let ?cs = "map (\<lambda>c. clause_past c d) (fst s)"
  have "stream_left (stream_past s d) \<le> sum_list (map clause_left ?cs) + 1"
    using clauses_align_left [of ?cs] h by (simp add: stream_past_def next_common_def)
  also have "\<dots> < stream_left s"
  proof (cases "\<exists>c \<in> set (fst s). \<exists>f \<in> set (cl_forms c). fo_doc f = Some d")
    case True
    then obtain c f where "c \<in> set (fst s)" "f \<in> set (cl_forms c)" "fo_doc f = Some d" by blast
    then have "sum_list (map clause_left ?cs) < sum_list (map clause_left (fst s))"
      unfolding map_map comp_def using clause_past_left by (intro sum_list_map_less [of _ _ _ c]) auto
    with True h show ?thesis by (simp add: stream_left_def)
  next
    case False
    have "sum_list (map clause_left ?cs) \<le> sum_list (map clause_left (fst s))"
      unfolding map_map comp_def by (intro sum_list_mono clause_past_left(1))
    moreover have "stream_left s = sum_list (map clause_left (fst s)) + 2" using False h by (auto simp: stream_left_def)
    ultimately show ?thesis by linarith
  qed
  finally show ?thesis .
qed

function stream_loop :: "'f float_ops \<Rightarrow> search_stats \<Rightarrow> nat \<Rightarrow> u64 set option \<Rightarrow> 'f clause_stream list \<Rightarrow> hit_heap \<Rightarrow> hit_heap" where
  "stream_loop fl st k restrict ss heap =
     (case List.map_filter snd ss of
        [] \<Rightarrow> heap
      | x # xs \<Rightarrow>
          let d = Min (set (x # xs));
              heap = (if restrict_ok restrict d
                      then let (score, matched) = stream_evaluate fl st d ss (0, 0) in push_top_k heap d score score matched k
                      else heap)
          in stream_loop fl st k restrict (map (\<lambda>s. stream_past s d) ss) heap)"
  by pat_completeness auto
termination
proof (relation "measure (\<lambda>(fl, st, k, restrict, ss, heap). sum_list (map stream_left ss))", goal_cases)
  case (2 fl st k restrict ss heap x xs d h)
  have "d \<in> set (List.map_filter snd ss)" using Min_in [of "set (x # xs)"] unfolding 2(1, 2) by simp
  then obtain s where s: "s \<in> set ss" "snd s = Some d" by (auto simp: set_map_filter)
  have "stream_left (stream_past s d) \<le> stream_left s" for s
    using stream_past_left [of s d] by (cases "snd s = Some d") (auto simp: stream_past_def)
  then have "sum_list (map (\<lambda>s. stream_left (stream_past s d)) ss) < sum_list (map stream_left ss)"
    using s stream_past_left by (intro sum_list_map_less)
  then show ?case by (simp add: comp_def)
qed simp

declare stream_loop.simps [simp del]

text \<open>Every clause of a field, or none when one of them cannot match there.\<close>

definition conjunction_clauses :: "'f float_ops \<Rightarrow> search_stats \<Rightarrow> field_clauses \<Rightarrow> 'f clause_cursor list option" where
  "conjunction_clauses fl st clauses =
     (if clauses = [] \<or> (\<exists>frs \<in> set clauses. clause_new fl st frs = None) then None
      else Some (map (\<lambda>frs. the (clause_new fl st frs)) clauses))"

definition conjunctive_top_k_grouped ::
    "'f float_ops \<Rightarrow> search_stats \<Rightarrow> field_clauses list \<Rightarrow> nat \<Rightarrow> u64 set option \<Rightarrow> wand_hit list" where
  "conjunctive_top_k_grouped fl st flds k restrict =
     (if k = 0 then []
      else finish_heap (stream_loop fl st k restrict
             (map (\<lambda>cs. next_common cs None) (List.map_filter (conjunction_clauses fl st) flds)) []))"

end
