(* ===== verification/Grouped_Exact.thy ===== *)
theory Grouped_Exact
  imports Grouped
begin

text \<open>
  The searches over clauses return exactly the best hits: \<open>wand_top_k_grouped\<close> and \<open>conjunctive_top_k_grouped\<close>
  against references that look every document up in every posting list.
\<close>

section \<open>What the weights have to satisfy\<close>

definition weights_nonneg :: "'f float_ops \<Rightarrow> bool" where
  "weights_nonneg fl \<longleftrightarrow> fl_le fl (fl_lit fl 0) (fl_lit fl 0) \<and> fl_le fl (fl_lit fl 0) (fl_lit fl (1 / 10000)) \<and>
     (\<forall>n df. fl_le fl (fl_lit fl 0) (rarity fl n df)) \<and>
     (\<forall>a b. fl_le fl (fl_lit fl 0) a \<longrightarrow> fl_le fl (fl_lit fl 0) b \<longrightarrow> fl_le fl (fl_lit fl 0) (fl_add fl a b) \<and> fl_le fl (fl_lit fl 0) (fl_min fl a b))"

lemma float_sum_nonneg:
  assumes "weights_nonneg fl" and "\<forall>w \<in> set ws. fl_le fl (fl_lit fl 0) w"
  shows "fl_le fl (fl_lit fl 0) (float_sum fl ws)"
proof -
  have "fl_le fl (fl_lit fl 0) (foldl (fl_add fl) a ws)" if "fl_le fl (fl_lit fl 0) a" for a
    using that assms(2) by (induction ws arbitrary: a) (use assms(1) in \<open>auto simp: weights_nonneg_def\<close>)
  with assms(1) show ?thesis by (simp add: float_sum_def weights_nonneg_def)
qed


lemma cover_scaled_None [simp]: "cover_scaled fl dl None tw w s = s"
  by (simp add: cover_scaled_def)

section \<open>A document from its clauses\<close>










section \<open>The loop\<close>




section \<open>Going to each allowed document\<close>






section \<open>The clauses of a query\<close>

definition lists_ok :: "search_stats \<Rightarrow> form_ref \<Rightarrow> bool" where
  "lists_ok st fr \<longleftrightarrow> (\<forall>t \<in> set (fr_lists fr). pl_ok (tr_postings t))"

definition bounds_ok :: "'f float_ops \<Rightarrow> search_stats \<Rightarrow> form_ref \<Rightarrow> bool" where
  "bounds_ok fl st fr \<longleftrightarrow> (\<forall>t \<in> set (fr_lists fr). term_bounded fl st (fr_xpath fr) t)"

text \<open>A form is in a document that all its lists hold; its score there.\<close>

definition form_in :: "form_ref \<Rightarrow> u64 \<Rightarrow> bool" where
  "form_in fr d \<longleftrightarrow> fr_lists fr \<noteq> [] \<and> (\<forall>t \<in> set (fr_lists fr). term_posting t d \<noteq> None)"

definition form_value :: "'f float_ops \<Rightarrow> search_stats \<Rightarrow> form_ref \<Rightarrow> u64 \<Rightarrow> u64" where
  "form_value fl st fr d = weighted (field_score fl st (fr_xpath fr) (avg_doc_len fl st (fr_xpath fr)) (ss_doc_count st (fr_xpath fr)) d
     (map (\<lambda>t. (tr_doc_freq t, term_posting t d)) (fr_lists fr))) (fr_weight fr)"

lemma form_new_form:
  assumes "form_new fl st fr = Some f" and "lists_ok st fr"
  shows "form_good f" and "d \<in> set (form_ahead f) \<longleftrightarrow> form_in fr d" and "form_in fr d \<Longrightarrow> form_shown fl st f d = form_value fl st fr d"
    and "fo_field f = fr_field fr"
    and "bounds_ok fl st fr \<Longrightarrow> \<forall>d \<in> set (form_ahead f). form_shown fl st f d \<le> fo_upper_bound f"
    and "weights_nonneg fl \<Longrightarrow> fl_le fl (fl_lit fl 0) (fo_idf f)"
proof -
  let ?n = "ss_doc_count st (fr_xpath fr)"
  let ?f = "\<lparr>fo_field = fr_field fr, fo_idf = float_sum fl (map (\<lambda>t. rarity fl ?n (tr_doc_freq t)) (fr_lists fr)),
    fo_cursors = map (\<lambda>t. cursor_new (tr_postings t)) (fr_lists fr), fo_doc_freqs = map tr_doc_freq (fr_lists fr),
    fo_xpath = fr_xpath fr, fo_doc_count = ?n, fo_avg_doc_len = avg_doc_len fl st (fr_xpath fr), fo_weight = fr_weight fr,
    fo_upper_bound = weighted (foldl saturating_add_u64 0 (map (\<lambda>t. bm25_upper_bound fl (tr_max_weight t) ?n (tr_doc_freq t)) (fr_lists fr))) (fr_weight fr),
    fo_doc = None\<rparr>"
  have f: "fr_lists fr \<noteq> []" "f = form_align ?f" using assms(1) by (auto simp: form_new_def Let_def split: if_splits)
  have pre: "fo_cursors ?f \<noteq> []" "\<forall>c \<in> set (fo_cursors ?f). cursor_good c" "length (fo_doc_freqs ?f) = length (fo_cursors ?f)"
    using f(1) assms(2) by (auto simp: lists_ok_def cursor_good_def cursor_new_def pl_ok_def)
  note al = form_align_form [OF pre]
  show "form_good f" unfolding f(2) by (rule al(1))
  show ahead: "d \<in> set (form_ahead f) \<longleftrightarrow> form_in fr d" for d
    unfolding f(2) al(2) pc.in_common using f(1)
    by (auto simp: form_in_def cursor_ahead_def cursor_new_def term_posting_def find_None_iff)
  have zip: "zip (map tr_doc_freq ts) (map (\<lambda>c. posting_at c d) (map (\<lambda>t. cursor_new (tr_postings t)) ts)) = map (\<lambda>t. (tr_doc_freq t, term_posting t d)) ts" for ts d
    by (induction ts) (simp_all add: posting_at_def cursor_new_def term_posting_def)
  show shown: "form_in fr d \<Longrightarrow> form_shown fl st f d = form_value fl st fr d" for d
    using al(4) [of d fl st] al(2) ahead [of d] unfolding f(2) by (simp add: form_shown_def form_value_def zip del: map_map)
  show "fo_field f = fr_field fr" by (simp add: f(2) al(6))
  show "weights_nonneg fl \<Longrightarrow> fl_le fl (fl_lit fl 0) (fo_idf f)"
    by (simp add: f(2) form_align_def case_prod_beta) (rule float_sum_nonneg, auto simp: weights_nonneg_def)
  assume sound: "bounds_ok fl st fr"
  show "\<forall>d \<in> set (form_ahead f). form_shown fl st f d \<le> fo_upper_bound f"
  proof
    fix d
    assume "d \<in> set (form_ahead f)"
    then have on: "form_in fr d" by (simp add: ahead)
    have each: "bm25_score_scaled fl (of_nat (length (positions (the (term_posting t d))))) (weight (the (term_posting t d)))
        (doc_len_or_avg fl st (fr_xpath fr) (avg_doc_len fl st (fr_xpath fr)) d) (avg_doc_len fl st (fr_xpath fr)) ?n (tr_doc_freq t)
      \<le> bm25_upper_bound fl (tr_max_weight t) ?n (tr_doc_freq t)" if t: "t \<in> set (fr_lists fr)" for t
    proof -
      obtain p where p: "term_posting t d = Some p" using on t by (auto simp: form_in_def)
      then have "p \<in> set (items (tr_postings t))" "doc_id p = d" by (auto simp: term_posting_def find_Some_iff)
      then show ?thesis using sound t by (auto simp: p bounds_ok_def term_bounded_def Let_def)
    qed
    have "form_value fl st fr d \<le> weighted (sat_sum (map (\<lambda>t. bm25_upper_bound fl (tr_max_weight t) ?n (tr_doc_freq t)) (fr_lists fr))) (fr_weight fr)"
      unfolding form_value_def field_score_def map_map comp_def using each by (intro weighted_mono sat_sum_map_mono) simp
    then show "form_shown fl st f d \<le> fo_upper_bound f" unfolding shown [OF on] by (simp add: f(2) al(5) sat_sum_def)
  qed
qed

text \<open>What \<open>clause_new\<close> builds from its forms.\<close>

lemma forms_new_holding:
  assumes "\<forall>fr \<in> set frs. lists_ok st fr"
  shows "map (\<lambda>f. (fo_field f, form_shown fl st f d)) (fo.holding (List.map_filter (form_new fl st) frs) d) =
    map (\<lambda>fr. (fr_field fr, form_value fl st fr d)) (filter (\<lambda>fr. form_in fr d) frs)"
  using assms
proof (induction frs)
  case (Cons fr frs)
  show ?case
  proof (cases "form_new fl st fr")
    case None
    then have "\<not> form_in fr d" by (force simp: form_new_def form_in_def term_posting_def Let_def split: if_splits)
    with None Cons show ?thesis by (simp add: fo.holding_def List.map_filter_simps)
  next
    case (Some f)
    have "lists_ok st fr" using Cons.prems by simp
    note new = form_new_form(2, 3) [OF Some this, of d] form_new_form(4) [OF Some this]
    show ?thesis using Some Cons new by (auto simp: fo.holding_def List.map_filter_simps)
  qed
qed (simp add: fo.holding_def List.map_filter_simps)

lemma form_in_new: "form_in fr d \<Longrightarrow> \<exists>f. form_new fl st fr = Some f"
  by (force simp: form_new_def form_in_def term_posting_def Let_def)

lemma clause_new_clause:
  assumes "clause_new fl st frs = Some c" and "\<forall>fr \<in> set frs. lists_ok st fr"
  shows "clause_plain c" and "d \<in> set (clause_ahead c) \<longleftrightarrow> (\<exists>fr \<in> set frs. form_in fr d)"
    and "clause_shown fl st c d = (cl_upper_bound c,
      best_per_field (map (\<lambda>fr. (fr_field fr, form_value fl st fr d)) (filter (\<lambda>fr. form_in fr d) frs)), cl_weight c)"
    and "weights_nonneg fl \<Longrightarrow> \<forall>fr \<in> set frs. bounds_ok fl st fr \<Longrightarrow> clause_good fl st c"
proof -
  let ?forms = "List.map_filter (form_new fl st) frs"
  have c: "cl_forms c = ?forms" "?forms \<noteq> []" "cl_upper_bound c = best_per_field (map (\<lambda>f. (fo_field f, fo_upper_bound f)) ?forms)"
    "\<exists>xs. set xs \<subseteq> fo_idf ` set ?forms \<and> cl_weight c = (case xs of [] \<Rightarrow> fl_lit fl 0 | x # xs \<Rightarrow> foldl (fl_min fl) x xs)"
  proof -
    obtain f fs where forms: "?forms = f # fs" using assms(1) by (cases ?forms) (simp_all add: clause_new_def)
    let ?xs = "map fo_idf (filter (\<lambda>g. fo_doc_count g = Max (set (map fo_doc_count ?forms))) ?forms)"
    have new: "c = \<lparr>cl_forms = ?forms, cl_upper_bound = best_per_field (map (\<lambda>f. (fo_field f, fo_upper_bound f)) ?forms),
        cl_weight = (case ?xs of [] \<Rightarrow> fl_lit fl 0 | x # xs \<Rightarrow> foldl (fl_min fl) x xs)\<rparr>"
      using assms(1) unfolding clause_new_def forms list.case Let_def option.inject by (rule sym)
    show "cl_forms c = ?forms" "?forms \<noteq> []" "cl_upper_bound c = best_per_field (map (\<lambda>f. (fo_field f, fo_upper_bound f)) ?forms)"
      by (simp_all add: new forms)
    have "set ?xs \<subseteq> fo_idf ` set ?forms" by auto
    moreover have "cl_weight c = (case ?xs of [] \<Rightarrow> fl_lit fl 0 | x # xs \<Rightarrow> foldl (fl_min fl) x xs)" by (simp only: new clause_cursor.select_convs)
    ultimately show "\<exists>xs. set xs \<subseteq> fo_idf ` set ?forms \<and> cl_weight c = (case xs of [] \<Rightarrow> fl_lit fl 0 | x # xs \<Rightarrow> foldl (fl_min fl) x xs)" by blast
  qed
  have mem: "f \<in> set ?forms \<longleftrightarrow> (\<exists>fr \<in> set frs. form_new fl st fr = Some f)" for f by (auto simp: set_map_filter)
  have forms: "\<forall>f \<in> set ?forms. form_good f" using assms(2) form_new_form(1) by (fastforce simp: mem)
  show "clause_plain c" using forms by (simp add: clause_plain_def c(1))
  show "d \<in> set (clause_ahead c) \<longleftrightarrow> (\<exists>fr \<in> set frs. form_in fr d)"
  proof
    assume "d \<in> set (clause_ahead c)"
    then obtain f fr where "fr \<in> set frs" "form_new fl st fr = Some f" "d \<in> set (form_ahead f)"
      by (auto simp: clause_ahead_def c(1) fo.set_all_docs mem)
    then show "\<exists>fr \<in> set frs. form_in fr d" using assms(2) form_new_form(2) [of fl st fr f d] by blast
  next
    assume "\<exists>fr \<in> set frs. form_in fr d"
    then obtain fr f where "fr \<in> set frs" "form_in fr d" "form_new fl st fr = Some f" using form_in_new by blast
    then have "f \<in> set ?forms" "d \<in> set (form_ahead f)" using assms(2) form_new_form(2) [of fl st fr f d] mem by auto
    then show "d \<in> set (clause_ahead c)" by (auto simp: clause_ahead_def c(1) fo.set_all_docs)
  qed
  show "clause_shown fl st c d = (cl_upper_bound c,
      best_per_field (map (\<lambda>fr. (fr_field fr, form_value fl st fr d)) (filter (\<lambda>fr. form_in fr d) frs)), cl_weight c)"
    unfolding clause_shown_def c(1) forms_new_holding [OF assms(2)] ..
  assume sound: "weights_nonneg fl" "\<forall>fr \<in> set frs. bounds_ok fl st fr"
  have "\<forall>f \<in> set ?forms. \<forall>d \<in> set (form_ahead f). form_shown fl st f d \<le> fo_upper_bound f"
    using assms(2) sound form_new_form(5) by (fastforce simp: mem)
  moreover have "fl_le fl (fl_lit fl 0) (cl_weight c)"
  proof -
    obtain xs where xs: "set xs \<subseteq> fo_idf ` set ?forms" "cl_weight c = (case xs of [] \<Rightarrow> fl_lit fl 0 | x # xs \<Rightarrow> foldl (fl_min fl) x xs)" using c(4) by blast
    have nn: "\<forall>x \<in> set xs. fl_le fl (fl_lit fl 0) x" using xs(1) assms(2) sound form_new_form(6) by (fastforce simp: mem)
    have "fl_le fl (fl_lit fl 0) (foldl (fl_min fl) a ys)" if "fl_le fl (fl_lit fl 0) a" "\<forall>y \<in> set ys. fl_le fl (fl_lit fl 0) y" for a ys
      using that by (induction ys arbitrary: a) (use sound(1) in \<open>auto simp: weights_nonneg_def\<close>)
    with nn sound(1) show ?thesis by (cases xs) (auto simp: xs(2) weights_nonneg_def)
  qed
  ultimately show "clause_good fl st c" using forms by (simp add: clause_good_def c(1, 3))
qed

section \<open>The reference\<close>



definition grouped_docs :: "field_clauses list \<Rightarrow> u64 list" where
  "grouped_docs flds = sort_dedup [doc_id p. clauses \<leftarrow> flds, frs \<leftarrow> clauses, fr \<leftarrow> frs, t \<leftarrow> fr_lists fr, p \<leftarrow> items (tr_postings t)]"




definition clauses_ok :: "search_stats \<Rightarrow> field_clauses list \<Rightarrow> bool" where
  "clauses_ok st flds \<longleftrightarrow> (\<forall>clauses \<in> set flds. \<forall>frs \<in> set clauses. \<forall>fr \<in> set frs. lists_ok st fr)"

definition clause_bounds_ok :: "'f float_ops \<Rightarrow> search_stats \<Rightarrow> field_clauses list \<Rightarrow> bool" where
  "clause_bounds_ok fl st flds \<longleftrightarrow> (\<forall>clauses \<in> set flds. \<forall>frs \<in> set clauses. \<forall>fr \<in> set frs. bounds_ok fl st fr)"






lemma ascending_grouped_docs: "ascending (grouped_docs flds)"
  by (simp add: grouped_docs_def)





section \<open>Exactness\<close>


section \<open>Without rounding\<close>



text \<open>A word, and a group of two synonyms of which one is a phrase of two words.\<close>

definition sample_clauses :: "field_clauses list" where
  "sample_clauses = [[[\<lparr>fr_xpath = 1, fr_field = 0, fr_lists = [sample_term [(3, 5), (9, 2)]], fr_weight = 1000\<rparr>],
     [\<lparr>fr_xpath = 1, fr_field = 0, fr_lists = [sample_term [(3, 1)]], fr_weight = 1000\<rparr>,
      \<lparr>fr_xpath = 2, fr_field = 1, fr_lists = [sample_term [(7, 4), (9, 1)], sample_term [(9, 3)]], fr_weight = 800\<rparr>]]]"

lemma sample_clauses_ok: "clauses_ok sample_stats sample_clauses" "clause_bounds_ok exact_ops sample_stats sample_clauses"
proof -
  have rec: "term_recorded sample_stats (fr_xpath fr) t"
    if "clauses \<in> set sample_clauses" "frs \<in> set clauses" "fr \<in> set frs" "t \<in> set (fr_lists fr)" for clauses frs fr t
    using that by (auto simp: term_recorded_def sample_clauses_def sample_term_def sample_stats_def pl_ok_def)
  then show "clauses_ok sample_stats sample_clauses" unfolding clauses_ok_def lists_ok_def term_recorded_def by blast
  show "clause_bounds_ok exact_ops sample_stats sample_clauses"
    unfolding clause_bounds_ok_def bounds_ok_def using rec recorded_bounded [OF exact_bound_sound] by blast
qed


section \<open>Every clause in the same field\<close>

interpretation cla: doc_align clause_doc clause_past clause_ahead clause_plain clause_advance "clause_shown fl st" clauses_align
  for fl :: "'f float_ops" and st
proof
  fix c :: "'f clause_cursor" and t d :: u64
  assume "clause_plain c" "t \<le> d"
  then show "clause_shown fl st (clause_advance c t) d = clause_shown fl st c d" by (intro clause_shown_advance) (simp_all add: clause_plain_def)
next
  fix cs :: "'f clause_cursor list" and t
  show "cs = [] \<or> (\<exists>c \<in> set cs. clause_doc c = None) \<Longrightarrow> clauses_align cs = (cs, None)" by (rule clauses_align_stop)
  assume "cs \<noteq> []" "\<forall>c \<in> set cs. clause_doc c \<noteq> None" "t = Max (set (map (\<lambda>c. the (clause_doc c)) cs))"
  then show "clauses_align cs = (if \<forall>c \<in> set cs. clause_doc (clause_advance c t) = Some t then (map (\<lambda>c. clause_advance c t) cs, Some t)
      else clauses_align (map (\<lambda>c. clause_advance c t) cs))" by (intro clauses_align_turn) auto
qed

definition stream_ahead :: "'f clause_stream \<Rightarrow> u64 list" where
  "stream_ahead s = (if snd s = None then [] else cl.common (fst s))"

definition stream_good :: "'f clause_stream \<Rightarrow> bool" where
  "stream_good s \<longleftrightarrow> fst s \<noteq> [] \<and> (\<forall>c \<in> set (fst s). clause_plain c) \<and> (\<forall>d. snd s = Some d \<longrightarrow> (\<forall>c \<in> set (fst s). clause_doc c = Some d))"

definition stream_shown :: "'f float_ops \<Rightarrow> search_stats \<Rightarrow> 'f clause_stream \<Rightarrow> u64 \<Rightarrow> u64 \<times> nat" where
  "stream_shown fl st s d = (sat_sum (map (fst \<circ> snd) (map (\<lambda>c. clause_shown fl st c d) (fst s))), length (fst s))"

lemma clauses_align_stream:
  assumes "cs \<noteq> []" and "\<forall>c \<in> set cs. clause_plain c"
  shows "stream_good (clauses_align cs)" and "stream_ahead (clauses_align cs) = cl.common cs"
    and "snd (clauses_align cs) = (case cl.common cs of [] \<Rightarrow> None | d # _ \<Rightarrow> Some d)"
    and "d \<in> set (cl.common cs) \<Longrightarrow> stream_shown fl st (clauses_align cs) d = stream_shown fl st (cs, e) d"
proof -
  obtain ds where ds: "clauses_align cs = (ds, case cl.common cs of [] \<Rightarrow> None | d # _ \<Rightarrow> Some d)" "cla.aligned fl st cs ds"
    "\<And>d. d \<in> set (cl.common cs) \<Longrightarrow> \<forall>c \<in> set ds. clause_doc c = Some (hd (cl.common cs))"
    using cla.align_common [OF assms(2)] by metis
  show "snd (clauses_align cs) = (case cl.common cs of [] \<Rightarrow> None | d # _ \<Rightarrow> Some d)" by (simp add: ds(1))
  have al: "\<forall>c \<in> set ds. clause_plain c" "length ds = length cs" "cl.common ds = cl.common cs"
    "\<And>d. d \<in> set (cl.common cs) \<Longrightarrow> map (\<lambda>c. clause_shown fl st c d) ds = map (\<lambda>c. clause_shown fl st c d) cs"
    using ds(2) by (auto simp: cla.aligned_def)
  have "ds \<noteq> []" using al(2) assms(1) by auto
  then show "stream_good (clauses_align cs)" using al(1) ds(3) by (cases "cl.common cs") (auto simp: stream_good_def ds(1))
  show "stream_ahead (clauses_align cs) = cl.common cs" by (cases "cl.common cs") (auto simp: stream_ahead_def ds(1) al(3))
  show "stream_shown fl st (clauses_align cs) d = stream_shown fl st (cs, e) d" if "d \<in> set (cl.common cs)"
    using al(4) [OF that] al(2) by (simp add: stream_shown_def ds(1))
qed

lemma stream_past_stream:
  assumes "stream_good s" and "snd s = Some d"
  shows "stream_good (stream_past s d)" and "stream_ahead (stream_past s d) = tl (stream_ahead s)"
    and "x \<in> set (tl (stream_ahead s)) \<Longrightarrow> d < x \<Longrightarrow> stream_shown fl st (stream_past s d) x = stream_shown fl st s x"
proof -
  let ?cs = "map (\<lambda>c. clause_past c d) (fst s)"
  have s: "fst s \<noteq> []" "\<forall>c \<in> set (fst s). clause_plain c" "\<forall>c \<in> set (fst s). clause_doc c = Some d"
    using assms by (auto simp: stream_good_def)
  have past: "stream_past s d = clauses_align ?cs" using assms(2) by (simp add: stream_past_def next_common_def)
  have cs: "?cs \<noteq> []" "\<forall>c \<in> set ?cs. clause_plain c" using s(1, 2) by (auto intro: cl.good_past)
  have com: "cl.common ?cs = tl (stream_ahead s)" using cl.common_past(1) [OF s(2, 1, 3)] assms(2) by (simp add: stream_ahead_def)
  note al = clauses_align_stream [OF cs]
  show "stream_good (stream_past s d)" unfolding past by (rule al(1))
  show "stream_ahead (stream_past s d) = tl (stream_ahead s)" unfolding past al(2) by (rule com)
  assume x: "x \<in> set (tl (stream_ahead s))" "d < x"
  have "clause_shown fl st (clause_past c d) x = clause_shown fl st c x" if c: "c \<in> set (fst s)" for c
    using c s(2, 3) x(2) cl.here_least [of c d] by (intro clause_shown_past) (auto simp: clause_plain_def)
  then have "map (\<lambda>c. clause_shown fl st c x) ?cs = map (\<lambda>c. clause_shown fl st c x) (fst s)" by simp
  then have "stream_shown fl st (?cs, Some d) x = stream_shown fl st s x" by (simp add: stream_shown_def del: map_map)
  with al(4) [of x fl st "Some d"] x(1) show "stream_shown fl st (stream_past s d) x = stream_shown fl st s x"
    unfolding past com by simp
qed

lemma sat_sum_append: "foldl saturating_add_u64 s ys = saturating_add_u64 s (sat_sum ys)"
  by (rule unat_word_eqI) (simp add: unat_foldl_sat unat_sat_add unat_sat_sum)

lemma stream_evaluate_eq:
  "stream_evaluate fl st d ss (s, m) =
     (foldl saturating_add_u64 s (map (\<lambda>x. sat_sum (map (\<lambda>c. clause_score fl st c d) (fst x))) (filter (\<lambda>x. snd x = Some d) ss)),
      m + sum_list (map (\<lambda>x. length (fst x)) (filter (\<lambda>x. snd x = Some d) ss)))"
proof (induction ss arbitrary: s m)
  case (Cons x ss)
  have "foldl (\<lambda>score c. saturating_add_u64 score (clause_score fl st c d)) s cs = saturating_add_u64 s (sat_sum (map (\<lambda>c. clause_score fl st c d) cs))" for s cs
    using sat_sum_append [of s "map (\<lambda>c. clause_score fl st c d) cs"] by (simp add: foldl_map)
  with Cons show ?case by (cases x) simp
qed simp

lemma stream_score_shown:
  assumes "stream_good s" and "snd s = Some d"
  shows "(sat_sum (map (\<lambda>c. clause_score fl st c d) (fst s)), length (fst s)) = stream_shown fl st s d"
proof -
  have "map (\<lambda>c. clause_score fl st c d) (fst s) = map (fst \<circ> snd) (map (\<lambda>c. clause_shown fl st c d) (fst s))"
    using assms by (auto simp: stream_good_def clause_score_shown)
  then show ?thesis unfolding stream_shown_def by (simp only:)
qed

interpretation cs: merge_loop snd stream_past stream_ahead stream_good "stream_shown fl st" conj_total k "restrict_ok restrict"
    "\<lambda>ss d. let (s, m) = stream_evaluate fl st d ss (0, 0) in Some (s, s, m)" "stream_loop fl st k restrict"
  for fl :: "'f float_ops" and st k restrict
proof
  fix s :: "'f clause_stream" and d
  assume g: "stream_good s"
  show "ascending (stream_ahead s)" by (simp add: stream_ahead_def cl.ascending_common)
  show "snd s = (case stream_ahead s of [] \<Rightarrow> None | d # _ \<Rightarrow> Some d)"
  proof (cases "snd s")
    case None
    then show ?thesis by (simp add: stream_ahead_def)
  next
    case (Some t)
    then have "cl.common (fst s) = t # filter (\<lambda>d. t < d) (cl.common (fst s))"
      using g by (intro cl.common_same) (auto simp: stream_good_def)
    then show ?thesis using Some by (simp add: stream_ahead_def) (metis list.simps(5))
  qed
  show "stream_good (stream_past s d)" using g stream_past_stream(1) [OF g] by (cases "snd s = Some d") (simp_all add: stream_past_def)
  show "stream_ahead (stream_past s d) = (if snd s = Some d then tl (stream_ahead s) else stream_ahead s)"
    using stream_past_stream(2) [OF g] by (auto simp: stream_past_def)
next
  fix s :: "'f clause_stream" and d e
  assume h: "stream_good s" "d \<in> set (stream_ahead s)" "e < d"
  show "stream_shown fl st (stream_past s e) d = stream_shown fl st s d"
  proof (cases "snd s = Some e")
    case True
    then have "cl.common (fst s) = e # filter (\<lambda>d. e < d) (cl.common (fst s))"
      using h(1) by (intro cl.common_same) (auto simp: stream_good_def)
    then have "tl (stream_ahead s) = filter (\<lambda>d. e < d) (stream_ahead s)" using True by (simp add: stream_ahead_def) (metis list.sel(3))
    with h(2, 3) have "d \<in> set (tl (stream_ahead s))" by simp
    then show ?thesis using stream_past_stream(3) [OF h(1) True _ h(3)] by blast
  qed (simp add: stream_past_def)
next
  fix ss ss' :: "'f clause_stream list" and d
  assume "mset ss = mset ss'"
  then show "conj_total (map (\<lambda>c. stream_shown fl st c d) ss) = conj_total (map (\<lambda>c. stream_shown fl st c d) ss')"
    by (intro conj_total_perm) simp
next
  fix ss :: "'f clause_stream list" and c d
  assume good: "\<forall>c \<in> set ss. stream_good c"
  let ?on = "filter (\<lambda>c. snd c = Some d) ss"
  have "map (\<lambda>s. (sat_sum (map (\<lambda>c. clause_score fl st c d) (fst s)), length (fst s))) ?on = map (\<lambda>s. stream_shown fl st s d) ?on"
    using good stream_score_shown by fastforce
  from arg_cong [OF this, of "map fst"] arg_cong [OF this, of "map snd"]
  have "map (\<lambda>s. sat_sum (map (\<lambda>c. clause_score fl st c d) (fst s))) ?on = map fst (map (\<lambda>s. stream_shown fl st s d) ?on)"
    "map (\<lambda>s. length (fst s)) ?on = map snd (map (\<lambda>s. stream_shown fl st s d) ?on)" by (simp_all add: comp_def)
  note eq = this
  show "(let (s, m) = stream_evaluate fl st d ss (0, 0) in Some (s, s, m)) = conj_total (map (\<lambda>s. stream_shown fl st s d) ?on)"
    unfolding stream_evaluate_eq eq by (simp add: conj_total_def sat_sum_def)
next
  fix ss :: "'f clause_stream list" and heap
  assume "\<forall>c \<in> set ss. snd c = None"
  then have "List.map_filter snd ss = []" by (simp add: List.map_filter_def)
  then show "stream_loop fl st k restrict ss heap = heap" by (subst stream_loop.simps) simp
next
  fix ss :: "'f clause_stream list" and c d heap
  assume h: "c \<in> set ss" "snd c = Some d" "\<forall>c \<in> set ss. \<forall>x. snd c = Some x \<longrightarrow> d \<le> x"
  have mem: "d \<in> set (List.map_filter snd ss)" using h(1, 2) by (auto simp: set_map_filter)
  then obtain x xs where xs: "List.map_filter snd ss = x # xs" by (cases "List.map_filter snd ss") auto
  have "Min (set (x # xs)) = d"
    using mem h(3) unfolding xs [symmetric] by (intro Min_eqI) (auto simp: set_map_filter)
  then show "stream_loop fl st k restrict ss heap = stream_loop fl st k restrict (map (\<lambda>c. stream_past c d) ss)
      (if restrict_ok restrict d
       then case let (s, m) = stream_evaluate fl st d ss (0, 0) in Some (s, s, m) of None \<Rightarrow> heap | Some (s, r, m) \<Rightarrow> push_top_k heap d s r m k
       else heap)"
    by (subst stream_loop.simps) (simp add: xs Let_def case_prod_beta)
qed

text \<open>The fields all of whose clauses are in a document, each with the sum of their scores and their number.\<close>

definition field_matches :: "'f float_ops \<Rightarrow> search_stats \<Rightarrow> field_clauses list \<Rightarrow> u64 \<Rightarrow> (u64 \<times> nat) list" where
  "field_matches fl st flds d = List.map_filter
     (\<lambda>clauses. if clauses \<noteq> [] \<and> (\<forall>frs \<in> set clauses. \<exists>fr \<in> set frs. form_in fr d)
        then Some (sat_sum (map (\<lambda>frs. best_per_field (map (\<lambda>fr. (fr_field fr, form_value fl st fr d)) (filter (\<lambda>fr. form_in fr d) frs))) clauses),
                   length clauses)
        else None) flds"

definition conj_grouped_reference :: "'f float_ops \<Rightarrow> search_stats \<Rightarrow> field_clauses list \<Rightarrow> u64 set option \<Rightarrow> wand_hit list" where
  "conj_grouped_reference fl st flds restrict = List.map_filter
     (\<lambda>d. let ms = field_matches fl st flds d; s = sat_sum (map fst ms)
          in if restrict_ok restrict d \<and> ms \<noteq> []
             then Some \<lparr>wh_doc = d, wh_score = s, wh_raw = s, wh_matched = sum_list (map snd ms)\<rparr> else None) (grouped_docs flds)"

lemma conjunction_clauses_stream:
  assumes "conjunction_clauses fl st clauses = Some cs" and "\<forall>frs \<in> set clauses. \<forall>fr \<in> set frs. lists_ok st fr"
  shows "stream_good (next_common cs None)"
    and "d \<in> set (stream_ahead (next_common cs None)) \<longleftrightarrow> (\<forall>frs \<in> set clauses. \<exists>fr \<in> set frs. form_in fr d)"
    and "d \<in> set (stream_ahead (next_common cs None)) \<Longrightarrow> stream_shown fl st (next_common cs None) d =
      (sat_sum (map (\<lambda>frs. best_per_field (map (\<lambda>fr. (fr_field fr, form_value fl st fr d)) (filter (\<lambda>fr. form_in fr d) frs))) clauses), length clauses)"
proof -
  have cl: "clauses \<noteq> []" "cs = map (\<lambda>frs. the (clause_new fl st frs)) clauses" "\<forall>frs \<in> set clauses. clause_new fl st frs \<noteq> None"
    using assms(1) by (auto simp: conjunction_clauses_def split: if_splits)
  have new: "clause_new fl st frs = Some (the (clause_new fl st frs))" "\<forall>fr \<in> set frs. lists_ok st fr" if "frs \<in> set clauses" for frs
    using that cl(3) assms(2) by auto
  have each: "clause_plain (the (clause_new fl st frs))" "d \<in> set (clause_ahead (the (clause_new fl st frs))) \<longleftrightarrow> (\<exists>fr \<in> set frs. form_in fr d)"
    "fst (snd (clause_shown fl st (the (clause_new fl st frs)) d)) = best_per_field (map (\<lambda>fr. (fr_field fr, form_value fl st fr d)) (filter (\<lambda>fr. form_in fr d) frs))"
    if "frs \<in> set clauses" for frs d
    using clause_new_clause(1-3) [OF new [OF that]] by simp_all
  have cs: "cs \<noteq> []" "\<forall>c \<in> set cs. clause_plain c" using cl(1) each(1) by (auto simp: cl(2))
  note al = clauses_align_stream [OF cs]
  show "stream_good (next_common cs None)" by (simp add: next_common_def al(1))
  show ahead: "d \<in> set (stream_ahead (next_common cs None)) \<longleftrightarrow> (\<forall>frs \<in> set clauses. \<exists>fr \<in> set frs. form_in fr d)" for d
    using each(2) cl(1) unfolding next_common_def option.case al(2) cl.in_common by (simp add: cl(2))
  assume "d \<in> set (stream_ahead (next_common cs None))"
  then have "stream_shown fl st (next_common cs None) d = stream_shown fl st (cs, None) d"
    using al(4) [of d fl st None] by (simp add: next_common_def al(2))
  moreover have "map (fst \<circ> snd) (map (\<lambda>c. clause_shown fl st c d) cs) =
      map (\<lambda>frs. best_per_field (map (\<lambda>fr. (fr_field fr, form_value fl st fr d)) (filter (\<lambda>fr. form_in fr d) frs))) clauses"
    using each(3) by (simp add: cl(2))
  ultimately show "stream_shown fl st (next_common cs None) d =
      (sat_sum (map (\<lambda>frs. best_per_field (map (\<lambda>fr. (fr_field fr, form_value fl st fr d)) (filter (\<lambda>fr. form_in fr d) frs))) clauses), length clauses)"
    by (simp add: stream_shown_def cl(2) del: map_map)
qed

lemma stream_matches:
  assumes "clauses_ok st flds"
  shows "map (\<lambda>s. stream_shown fl st s d) (filter (\<lambda>s. d \<in> set (stream_ahead s)) (map (\<lambda>cs. next_common cs None) (List.map_filter (conjunction_clauses fl st) flds))) =
    field_matches fl st flds d"
  using assms
proof (induction flds)
  case (Cons clauses flds)
  have ok: "\<forall>frs \<in> set clauses. \<forall>fr \<in> set frs. lists_ok st fr" and rest: "clauses_ok st flds" using Cons.prems by (auto simp: clauses_ok_def)
  note IH = Cons.IH [OF rest]
  show ?case
  proof (cases "conjunction_clauses fl st clauses")
    case None
    have "\<not> (clauses \<noteq> [] \<and> (\<forall>frs \<in> set clauses. \<exists>fr \<in> set frs. form_in fr d))"
    proof
      assume h: "clauses \<noteq> [] \<and> (\<forall>frs \<in> set clauses. \<exists>fr \<in> set frs. form_in fr d)"
      have "clause_new fl st frs \<noteq> None" if frs: "frs \<in> set clauses" for frs
      proof -
        obtain fr f where "fr \<in> set frs" "form_new fl st fr = Some f" using h frs form_in_new [of _ d fl st] by blast
        then have "f \<in> set (List.map_filter (form_new fl st) frs)" by (auto simp: set_map_filter)
        then show ?thesis by (auto simp: clause_new_def Let_def split: list.split)
      qed
      with h None show False by (auto simp: conjunction_clauses_def split: if_splits)
    qed
    with None IH show ?thesis by (simp add: field_matches_def List.map_filter_simps)
  next
    case (Some cs)
    then have "clauses \<noteq> []" by (auto simp: conjunction_clauses_def)
    with Some IH conjunction_clauses_stream(2, 3) [OF Some ok, of d] show ?thesis
      by (auto simp: field_matches_def List.map_filter_simps)
  qed
qed (simp add: field_matches_def List.map_filter_simps)

lemma field_matches_doc: "field_matches fl st flds d \<noteq> [] \<Longrightarrow> d \<in> set (grouped_docs flds)"
proof -
  assume "field_matches fl st flds d \<noteq> []"
  then obtain m where "m \<in> set (field_matches fl st flds d)" by (cases "field_matches fl st flds d") auto
  then obtain clauses where c: "clauses \<in> set flds" "clauses \<noteq> []" "\<forall>frs \<in> set clauses. \<exists>fr \<in> set frs. form_in fr d"
    by (auto simp: field_matches_def set_map_filter split: if_splits)
  then obtain frs fr where fr: "frs \<in> set clauses" "fr \<in> set frs" "form_in fr d" by (metis last_in_set)
  then obtain t where t: "t \<in> set (fr_lists fr)" "term_posting t d \<noteq> None" by (cases "fr_lists fr") (auto simp: form_in_def)
  then obtain p where "p \<in> set (items (tr_postings t))" "doc_id p = d" by (auto simp: term_posting_def find_None_iff)
  with c(1) fr(1, 2) t(1) show ?thesis by (force simp: grouped_docs_def)
qed

text \<open>C22. The conjunctive search over clauses: for posting lists in order, \<open>conjunctive_top_k_grouped\<close> returns exactly the
  \<open>k\<close> best permitted documents, by score and then by id, among those that some field matches in every one of its
  clauses by at least one form, each with the sum over those fields of the clauses' best forms and the number of the
  clauses.\<close>

theorem conjunctive_grouped_exact:
  assumes "clauses_ok st flds"
  shows "conjunctive_top_k_grouped fl st flds k restrict = top_k k (conj_grouped_reference fl st flds restrict)"
proof (cases "k = 0")
  case False
  let ?ss = "map (\<lambda>cs. next_common cs None) (List.map_filter (conjunction_clauses fl st) flds)" and ?P = "restrict_ok restrict"
  have good: "\<forall>s \<in> set ?ss. stream_good s"
    using assms unfolding clauses_ok_def by (auto simp: set_map_filter intro: conjunction_clauses_stream(1))
  have shown: "map (\<lambda>s. stream_shown fl st s d) (cs.holding ?ss d) = field_matches fl st flds d" for d
    using stream_matches [OF assms] by (simp add: cs.holding_def)
  have docs: "cs.all_docs ?ss = filter (\<lambda>d. field_matches fl st flds d \<noteq> []) (grouped_docs flds)"
  proof (rule ascending_eqI)
    have "d \<in> set (cs.all_docs ?ss) \<longleftrightarrow> cs.holding ?ss d \<noteq> []" for d by (auto simp: cs.set_all_docs cs.holding_def filter_empty_conv)
    then have "d \<in> set (cs.all_docs ?ss) \<longleftrightarrow> field_matches fl st flds d \<noteq> []" for d unfolding shown [symmetric] by simp
    then show "set (cs.all_docs ?ss) = set (filter (\<lambda>d. field_matches fl st flds d \<noteq> []) (grouped_docs flds))"
      using field_matches_doc [of fl st flds] by auto
  qed (simp_all add: cs.ascending_all_docs ascending_grouped_docs sorted_wrt_filter)
  have "cs.hits fl st ?P ?ss = conj_grouped_reference fl st flds restrict"
    unfolding cs.hits_def docs conj_grouped_reference_def cs.hit_of_def shown conj_total_def map_filter_on [symmetric]
    by (intro arg_cong2 [of _ _ _ _ List.map_filter] ext) (auto simp: Let_def)
  moreover have "stream_loop fl st k restrict ?ss (top_k k []) = top_k k ([] @ cs.hits fl st ?P ?ss)"
    using False good by (intro cs.merge_exact) auto
  ultimately have "stream_loop fl st k restrict ?ss [] = top_k k (conj_grouped_reference fl st flds restrict)" by (simp add: top_k_def)
  with False show ?thesis by (simp add: conjunctive_top_k_grouped_def finish_top_k)
qed (simp add: conjunctive_top_k_grouped_def top_k_def)

theorem conjunctive_grouped_exact_witness:
  "conjunctive_top_k_grouped exact_ops sample_stats sample_clauses 2 None = top_k 2 (conj_grouped_reference exact_ops sample_stats sample_clauses None)"
  by (rule conjunctive_grouped_exact [OF sample_clauses_ok(1)])

end
