(* ===== verification/Doc_Store.thy ===== *)
theory Doc_Store
  imports Wal
begin

text \<open>
  \<^verbatim>\<open>crates/core-storage/src/binary_store.rs\<close> with \<^verbatim>\<open>document_store.rs\<close> and the format ids of
  \<^verbatim>\<open>core-protocol/src/format.rs\<close>: the document store, a folder of append-only segment files and the maps
  from document ids to the places of their newest records.

  Files are those of the write-ahead log: bytes of which a prefix is durable.  Strings are their UTF-8
  bytes.  File lengths and offsets are natural numbers.  Reading files and listing the folder do not fail;
  every other call fails when the argument \<open>f\<close> says so, a write after any number of bytes.  The document
  cache is the crate \<open>moka\<close>, which may drop entries at any time: every operation that inserts into it
  takes the set of keys that are \<open>kept\<close>.  Its other maps are hash maps whose order is not observed.  The encoding
  of the maps file is the crate \<open>bincode\<close>, the parameter \<open>bin\<close>.  An opening that fails returns its error only; what it
  may have left in the folder (a new segment without its header, a file already cut) is not followed.
\<close>

section \<open>Documents and locations\<close>

datatype format = JSON

definition format_id :: "format \<Rightarrow> u8" where
  "format_id fmt = (case fmt of JSON \<Rightarrow> 1)"

text \<open>\<open>Format::try_from\<close>, with the error converted to an I/O error.\<close>

definition format_try_from :: "u8 \<Rightarrow> format result" where
  "format_try_from b =
     (if b = 1 then Inr JSON else Inl (InvalidData (''unknown document format id '' @ show_nat (unat b))))"

record stored_document =
  external_id :: "u8 list"
  internal_id :: u64
  doc_format :: format
  doc_source :: "u8 list"

record doc_location =
  loc_internal :: u64
  loc_offset :: nat
  loc_segment :: u32
  loc_len :: u32

text \<open>\<open>String::from_utf8\<close>: the byte sequences that are UTF-8.\<close>

definition utf8_cont :: "u8 \<Rightarrow> bool" where
  "utf8_cont b \<longleftrightarrow> 0x80 \<le> b \<and> b \<le> 0xBF"

definition utf8_step :: "u8 list \<Rightarrow> nat option" where
  "utf8_step bs =
     (case bs of
        [] \<Rightarrow> None
      | b # r \<Rightarrow>
          if b < 0x80 then Some 1
          else if 0xC2 \<le> b \<and> b \<le> 0xDF
          then (case r of c # _ \<Rightarrow> if utf8_cont c then Some 2 else None | _ \<Rightarrow> None)
          else if 0xE0 \<le> b \<and> b \<le> 0xEF
          then (case r of
                  c # d # _ \<Rightarrow>
                    if (if b = 0xE0 then 0xA0 \<le> c \<and> c \<le> 0xBF else if b = 0xED then 0x80 \<le> c \<and> c \<le> 0x9F else utf8_cont c) \<and> utf8_cont d
                    then Some 3 else None
                | _ \<Rightarrow> None)
          else if 0xF0 \<le> b \<and> b \<le> 0xF4
          then (case r of
                  c # d # e # _ \<Rightarrow>
                    if (if b = 0xF0 then 0x90 \<le> c \<and> c \<le> 0xBF else if b = 0xF4 then 0x80 \<le> c \<and> c \<le> 0x8F else utf8_cont c) \<and>
                       utf8_cont d \<and> utf8_cont e
                    then Some 4 else None
                | _ \<Rightarrow> None)
          else None)"

lemma utf8_step_pos: "utf8_step bs = Some n \<Longrightarrow> 0 < n \<and> bs \<noteq> []"
  by (auto simp: utf8_step_def split: list.splits if_splits)

function utf8_ok :: "u8 list \<Rightarrow> bool" where
  "utf8_ok bs = (bs = [] \<or> (case utf8_step bs of None \<Rightarrow> False | Some n \<Rightarrow> utf8_ok (drop n bs)))"
  by pat_completeness auto
termination
  by (relation "measure length") (auto dest!: utf8_step_pos simp: neq_Nil_conv)

declare utf8_ok.simps [simp del]

section \<open>Reading and writing records\<close>

text \<open>\<open>Read::read_exact\<close> on an open file.\<close>

definition read_exact :: "nat \<Rightarrow> u8 list reader" where
  "read_exact n c =
     (if offset c + n > length (bytes c) then Inl (UnexpectedEof ''failed to fill whole buffer'')
      else Inr (take n (drop (offset c) (bytes c)), c\<lparr>offset := offset c + n\<rparr>))"

definition file_u8 :: "u8 reader" where
  "file_u8 = then_read (read_exact 1) (\<lambda>bs. read_return (bs ! 0))"

definition file_u32 :: "u32 reader" where
  "file_u32 = then_read (read_exact 4) (\<lambda>bs. read_return (from_le bs))"

definition file_u64 :: "u64 reader" where
  "file_u64 = then_read (read_exact 8) (\<lambda>bs. read_return (from_le bs))"

definition write_bytes :: "u8 list \<Rightarrow> u8 list" where
  "write_bytes value = write_u32 (of_nat (length value)) @ value"

definition read_bytes :: "u8 list reader" where
  "read_bytes = then_read file_u32 (\<lambda>len. read_exact (unat len))"

definition write_string :: "u8 list \<Rightarrow> u8 list" where
  "write_string value = write_u32 (of_nat (length value)) @ value"

definition read_string :: "u8 list reader" where
  "read_string = then_read file_u32 (\<lambda>len. then_read (read_exact (unat len)) (\<lambda>bs.
     if utf8_ok bs then read_return bs else read_fail (InvalidData ''invalid utf8 string'')))"

definition write_document :: "stored_document \<Rightarrow> u8 list" where
  "write_document doc =
     write_string (external_id doc) @ write_u64 (internal_id doc) @ write_u8 (format_id (doc_format doc)) @ write_bytes (doc_source doc)"

definition read_document :: "stored_document reader" where
  "read_document =
     then_read read_string (\<lambda>ext.
     then_read file_u64 (\<lambda>internal.
     then_read file_u8 (\<lambda>b. then_read (\<lambda>c. and_then (format_try_from b) (\<lambda>fmt. Inr (fmt, c))) (\<lambda>fmt.
     then_read read_bytes (\<lambda>source.
     read_return \<lparr>external_id = ext, internal_id = internal, doc_format = fmt, doc_source = source\<rparr>)))))"

definition OP_PUT :: u8 where
  "OP_PUT = 1"

definition OP_DELETE :: u8 where
  "OP_DELETE = 2"

definition ascii :: "string \<Rightarrow> u8 list" where
  "ascii s = map (\<lambda>c. of_nat (of_char c)) s"

definition STORE_MAGIC :: "u8 list" where
  "STORE_MAGIC = ascii ''BANANA_F''"

definition COMPACTED_MAGIC :: "u8 list" where
  "COMPACTED_MAGIC = ascii ''BANANA_D''"

definition MAPS_MAGIC :: "u8 list" where
  "MAPS_MAGIC = ascii ''CLMAPS02''"

definition DEFAULT_SEGMENT_SIZE :: nat where
  "DEFAULT_SEGMENT_SIZE = 128 * 1024 * 1024"

section \<open>The store\<close>

record doc_store =
  st_path :: string
  st_docs :: "(u8 list, stored_document) omap"
  st_internal :: "(u64, u8 list) omap"
  st_locations :: "(u8 list, doc_location) omap"
  st_current :: u32
  st_next :: u32
  st_unsynced :: u32
  st_highest :: u64

text \<open>The folder, and the maps file next to it.\<close>

record store_disk =
  sk_files :: wal_dir
  sk_maps :: "u8 list option"

type_synonym store_state = "doc_store \<times> store_disk"

record maps_file =
  mp_ends :: "(u32 \<times> nat) list"
  mp_entries :: "(u8 list \<times> doc_location) list"
  mp_highest :: u64

record bincode_ops =
  bin_encode :: "maps_file \<Rightarrow> u8 list"
  bin_decode :: "u8 list \<Rightarrow> maps_file option"

datatype store_call =
    MakeDir | NewCreate | NewWrite | NewSync | FolderSync | AppendOpen | AppendWrite | BatchWrite nat
  | RotateCreate | RotateWrite | Truncate u32 | DataSync u32 | TmpCreate | TmpWrite | TmpSync | RenameTmp
  | MapsCreate | MapsWrite | MapsSync | MapsRename | MapsFolderSync | RemoveOld u32

type_synonym store_faults = "store_call \<Rightarrow> fault"

primrec map_message :: "(string \<Rightarrow> string) \<Rightarrow> io_error \<Rightarrow> io_error" where
  "map_message g (UnexpectedEof s) = UnexpectedEof (g s)"
| "map_message g (InvalidData s) = InvalidData (g s)"
| "map_message g (InvalidInput s) = InvalidInput (g s)"
| "map_message g (NotFound s) = NotFound (g s)"
| "map_message g (AlreadyExists s) = AlreadyExists (g s)"
| "map_message g (OtherError s) = OtherError (g s)"

definition with_path :: "io_error \<Rightarrow> string \<Rightarrow> io_error" where
  "with_path e p = map_message (\<lambda>s. p @ '': '' @ s) e"

definition no_such_file :: io_error where
  "no_such_file = NotFound ''No such file or directory (os error 2)''"

definition segment_filename :: "u32 \<Rightarrow> string" where
  "segment_filename n =
     (let s = show_nat (unat n) in ''seg_'' @ replicate (5 - length s) (CHR ''0'') @ s @ ''.bin'')"

definition join_path :: "string \<Rightarrow> string \<Rightarrow> string" where
  "join_path root name = root @ ''/'' @ name"

text \<open>\<open>str::parse::<u32>\<close>.\<close>

definition parse_u32 :: "string \<Rightarrow> u32 option" where
  "parse_u32 s = (case parse_u64 s of Some v \<Rightarrow> if unat v < 2 ^ 32 then Some (ucast v) else None | None \<Rightarrow> None)"

definition store_segment_id :: "string \<Rightarrow> u32 option" where
  "store_segment_id name =
     (if prefix ''seg_'' name
      then case strip_suffix ''.bin'' (drop 4 name) of Some rest \<Rightarrow> parse_u32 rest | None \<Rightarrow> None
      else None)"

definition list_segment_ids :: "wal_dir \<Rightarrow> u32 list" where
  "list_segment_ids d = sort (List.map_filter store_segment_id (map fst d))"

definition current_segment_path :: "doc_store \<Rightarrow> string" where
  "current_segment_path s = join_path (st_path s) (segment_filename (st_current s))"

definition append_bytes :: "u8 list \<Rightarrow> wal_file \<Rightarrow> wal_file" where
  "append_bytes data fl = write_at (length (wf_bytes fl)) data fl"

definition put_file :: "u32 \<Rightarrow> wal_file \<Rightarrow> store_disk \<Rightarrow> store_disk" where
  "put_file n fl k = k\<lparr>sk_files := omap_insert (segment_filename n) fl (sk_files k)\<rparr>"

definition get_file :: "store_disk \<Rightarrow> u32 \<Rightarrow> wal_file option" where
  "get_file k n = omap_get (sk_files k) (segment_filename n)"

definition maybe_rotate_segment :: "store_faults \<Rightarrow> store_state \<Rightarrow> store_state \<times> unit result" where
  "maybe_rotate_segment f = (\<lambda>(s, k).
     case get_file k (st_current s) of
       None \<Rightarrow> ((s, k), Inl (with_path no_such_file (current_segment_path s)))
     | Some fl \<Rightarrow>
         if length (wf_bytes fl) < DEFAULT_SEGMENT_SIZE then ((s, k), Inr ())
         else let next_id = st_next s; s = s\<lparr>st_next := next_id + 1\<rparr>
              in case f RotateCreate of
                   Some (_, e) \<Rightarrow> ((s, k), Inl (with_path e (join_path (st_path s) (segment_filename next_id))))
                 | None \<Rightarrow>
                     case f RotateWrite of
                       Some (n, e) \<Rightarrow> ((s, put_file next_id (append_bytes (take n STORE_MAGIC) file_new) k), Inl e)
                     | None \<Rightarrow> ((s\<lparr>st_current := next_id\<rparr>, put_file next_id (append_bytes STORE_MAGIC file_new) k), Inr ()))"

section \<open>Writing documents\<close>

definition append_put :: "store_faults \<Rightarrow> stored_document \<Rightarrow> store_state \<Rightarrow> store_state \<times> doc_location result" where
  "append_put f doc = (\<lambda>(s, k).
     let segment = st_current s; seg_path = join_path (st_path s) (segment_filename segment)
     in case f AppendOpen of
          Some (_, e) \<Rightarrow> ((s, k), Inl (with_path e seg_path))
        | None \<Rightarrow>
            case get_file k segment of
              None \<Rightarrow> ((s, k), Inl (with_path no_such_file seg_path))
            | Some fl \<Rightarrow>
                let start = length (wf_bytes fl);
                    body = write_document doc;
                    rec_bytes = write_u8 OP_PUT @ body
                in case f AppendWrite of
                     Some (n, e) \<Rightarrow> ((s, put_file segment (append_bytes (take n rec_bytes) fl) k), Inl e)
                   | None \<Rightarrow>
                       case maybe_rotate_segment f (s, put_file segment (append_bytes rec_bytes fl) k) of
                         (sk, Inl e) \<Rightarrow> (sk, Inl e)
                       | (sk, Inr _) \<Rightarrow>
                           (sk, Inr \<lparr>loc_internal = internal_id doc, loc_offset = start + 1, loc_segment = segment,
                                     loc_len = of_nat (length body)\<rparr>))"

definition store_append_delete :: "store_faults \<Rightarrow> u8 list \<Rightarrow> u64 \<Rightarrow> store_state \<Rightarrow> store_state \<times> unit result" where
  "store_append_delete f ext internal = (\<lambda>(s, k).
     case f AppendOpen of
       Some (_, e) \<Rightarrow> ((s, k), Inl e)
     | None \<Rightarrow>
         case get_file k (st_current s) of
           None \<Rightarrow> ((s, k), Inl no_such_file)
         | Some fl \<Rightarrow>
             let rec_bytes = write_u8 OP_DELETE @ write_string ext @ write_u64 internal
             in case f AppendWrite of
                  Some (n, e) \<Rightarrow> ((s, put_file (st_current s) (append_bytes (take n rec_bytes) fl) k), Inl e)
                | None \<Rightarrow> maybe_rotate_segment f (s, put_file (st_current s) (append_bytes rec_bytes fl) k))"

definition cache_insert :: "(u8 list \<Rightarrow> bool) \<Rightarrow> u8 list \<Rightarrow> stored_document \<Rightarrow> doc_store \<Rightarrow> doc_store" where
  "cache_insert kept ext doc s = s\<lparr>st_docs := filter (\<lambda>(e, _). kept e) (omap_insert ext doc (st_docs s))\<rparr>"

definition cache_invalidate :: "u8 list \<Rightarrow> doc_store \<Rightarrow> doc_store" where
  "cache_invalidate ext s = s\<lparr>st_docs := omap_remove ext (st_docs s)\<rparr>"

definition note_id :: "u64 \<Rightarrow> doc_store \<Rightarrow> doc_store" where
  "note_id n s = s\<lparr>st_highest := max (st_highest s) n\<rparr>"

text \<open>What a written document adds to the two maps.\<close>

definition map_document :: "stored_document \<Rightarrow> doc_location \<Rightarrow> doc_store \<Rightarrow> doc_store" where
  "map_document doc loc s =
     s\<lparr>st_internal := omap_insert (internal_id doc) (external_id doc) (st_internal s),
       st_locations := omap_insert (external_id doc) loc (st_locations s)\<rparr>"

definition store_put :: "store_faults \<Rightarrow> (u8 list \<Rightarrow> bool) \<Rightarrow> stored_document \<Rightarrow> store_state \<Rightarrow> store_state \<times> unit result" where
  "store_put f kept doc sk =
     (case append_put f doc sk of
        (sk, Inl e) \<Rightarrow> (sk, Inl e)
      | ((s, k), Inr loc) \<Rightarrow>
          ((cache_insert kept (external_id doc) doc (map_document doc loc (note_id (internal_id doc) s)), k), Inr ()))"

text \<open>The loop of \<open>put_batch\<close>.  The writer is buffered: a failing write stops the loop after any number of bytes
  has reached the file.  The loop returns the bytes written, or what reached the file and the error.\<close>

fun batch_loop :: "store_faults \<Rightarrow> (u8 list \<Rightarrow> bool) \<Rightarrow> u32 \<Rightarrow> nat \<Rightarrow> stored_document list \<Rightarrow> nat \<Rightarrow> u8 list \<Rightarrow> doc_store \<Rightarrow>
    doc_store \<times> u8 list \<times> unit result" where
  "batch_loop f kept segment i [] start data s = (s, data, Inr ())"
| "batch_loop f kept segment i (doc # ds) start data s =
     (let body = write_document doc; doc_offset = start + length data + 1; data = data @ write_u8 OP_PUT @ body
      in case f (BatchWrite i) of
           Some (n, e) \<Rightarrow> (s, take n data, Inl e)
         | None \<Rightarrow>
             let loc = \<lparr>loc_internal = internal_id doc, loc_offset = doc_offset, loc_segment = segment, loc_len = of_nat (length body)\<rparr>
             in batch_loop f kept segment (i + 1) ds start data (cache_insert kept (external_id doc) doc (map_document doc loc s)))"

definition put_batch :: "store_faults \<Rightarrow> (u8 list \<Rightarrow> bool) \<Rightarrow> stored_document list \<Rightarrow> store_state \<Rightarrow> store_state \<times> unit result" where
  "put_batch f kept ds = (\<lambda>(s, k).
     case f AppendOpen of
       Some (_, e) \<Rightarrow> ((s, k), Inl (with_path e (current_segment_path s)))
     | None \<Rightarrow>
         let segment = st_current s;
             fl = (case get_file k segment of Some fl \<Rightarrow> fl | None \<Rightarrow> file_new)
         in case batch_loop f kept segment 0 ds (length (wf_bytes fl)) [] s of
              (s, data, Inl e) \<Rightarrow> ((s, put_file segment (append_bytes data fl) k), Inl e)
            | (s, data, Inr _) \<Rightarrow>
                case f AppendWrite of
                  Some (n, e) \<Rightarrow> ((s, put_file segment (append_bytes (take n data) fl) k), Inl e)
                | None \<Rightarrow> maybe_rotate_segment f (s, put_file segment (append_bytes data fl) k))"

definition store_delete :: "store_faults \<Rightarrow> u8 list \<Rightarrow> store_state \<Rightarrow> store_state \<times> unit result" where
  "store_delete f ext sk =
     (case omap_get (st_locations (fst sk)) ext of
        None \<Rightarrow> (sk, Inr ())
      | Some loc \<Rightarrow>
          case store_append_delete f ext (loc_internal loc) sk of
            (sk, Inl e) \<Rightarrow> (sk, Inl e)
          | ((s, k), Inr _) \<Rightarrow>
              let s = (case omap_get (st_locations s) ext of
                         Some loc \<Rightarrow> s\<lparr>st_locations := omap_remove ext (st_locations s),
                                       st_internal := omap_remove (loc_internal loc) (st_internal s)\<rparr>
                       | None \<Rightarrow> s)
              in ((cache_invalidate ext s, k), Inr ()))"

section \<open>Reading documents\<close>

definition store_contains :: "u8 list \<Rightarrow> doc_store \<Rightarrow> bool" where
  "store_contains ext s \<longleftrightarrow> omap_get (st_locations s) ext \<noteq> None"

definition max_internal_id :: "doc_store \<Rightarrow> u64" where
  "max_internal_id s = st_highest s"

definition document_count :: "doc_store \<Rightarrow> nat" where
  "document_count s = length (st_locations s)"

definition read_document_at_path :: "store_disk \<Rightarrow> u32 \<Rightarrow> nat \<Rightarrow> stored_document result" where
  "read_document_at_path k segment off =
     (case get_file k segment of
        None \<Rightarrow> Inl no_such_file
      | Some fl \<Rightarrow> and_then (read_document \<lparr>bytes = wf_bytes fl, offset = off\<rparr>) (\<lambda>(doc, _). Inr doc))"

definition store_get :: "(u8 list \<Rightarrow> bool) \<Rightarrow> u8 list \<Rightarrow> store_state \<Rightarrow> store_state \<times> stored_document option result" where
  "store_get kept ext = (\<lambda>(s, k).
     case omap_get (st_docs s) ext of
       Some doc \<Rightarrow> ((s, k), Inr (Some doc))
     | None \<Rightarrow>
         case omap_get (st_locations s) ext of
           None \<Rightarrow> ((s, k), Inr None)
         | Some loc \<Rightarrow>
             case read_document_at_path k (loc_segment loc) (loc_offset loc) of
               Inl e \<Rightarrow> ((s, k), Inl e)
             | Inr doc \<Rightarrow> ((cache_insert kept ext doc s, k), Inr (Some doc)))"

text \<open>The readers move forward inside the file.\<close>

definition moves :: "'a reader \<Rightarrow> bool" where
  "moves r \<longleftrightarrow> (\<forall>c x c'. r c = Inr (x, c') \<longrightarrow> bytes c' = bytes c \<and> offset c \<le> offset c')"

lemma moves_then [intro]: "moves r \<Longrightarrow> (\<And>x. moves (g x)) \<Longrightarrow> moves (then_read r g)"
  unfolding moves_def then_read_def by (fastforce simp: and_then_eq_Inr split: prod.splits dest: order_trans)

lemma moves_basic [intro]: "moves (read_return x)" "moves (read_fail e)" "moves (read_exact n)"
  by (auto simp: moves_def read_return_def read_fail_def read_exact_def split: if_splits)

lemma moves_format: "moves (\<lambda>c. and_then r (\<lambda>fmt. Inr (fmt, c)))"
  by (auto simp: moves_def and_then_eq_Inr)

lemma moves_ints: "moves file_u8" "moves file_u32" "moves file_u64"
  unfolding file_u8_def file_u32_def file_u64_def by (intro moves_then moves_basic)+

lemma moves_string: "moves read_string"
  unfolding read_string_def by (intro moves_then moves_ints moves_basic) (auto intro: moves_basic)

lemma moves_document: "moves read_document"
  unfolding read_document_def read_bytes_def by (intro moves_then moves_ints moves_basic moves_string moves_format)

lemma movesD: "moves r \<Longrightarrow> r c = Inr (x, c') \<Longrightarrow> bytes c' = bytes c \<and> offset c \<le> offset c'"
  by (auto simp: moves_def)

lemma file_u8_eq: "file_u8 c = (if offset c < length (bytes c) then Inr (bytes c ! offset c, c\<lparr>offset := offset c + 1\<rparr>)
    else Inl (UnexpectedEof ''failed to fill whole buffer''))"
  by (simp add: file_u8_def then_read_def read_exact_def read_return_def Suc_le_eq)

text \<open>The loop of \<open>for_each_document\<close> over the records of one segment; the visitor returns its new state or an
  error.\<close>

function visit_records :: "(stored_document \<Rightarrow> 'a \<Rightarrow> 'a result) \<Rightarrow> doc_store \<Rightarrow> u32 \<Rightarrow> cursor \<Rightarrow> 'a \<Rightarrow> 'a result" where
  "visit_records visit s n c acc =
     (case file_u8 c of
        Inl (UnexpectedEof _) \<Rightarrow> Inr acc
      | Inl e \<Rightarrow> Inl e
      | Inr (op, c1) \<Rightarrow>
          if op = OP_PUT
          then (case read_document c1 of
                  Inl e \<Rightarrow> Inl e
                | Inr (doc, c2) \<Rightarrow>
                    let is_current = (case omap_get (st_locations s) (external_id doc) of
                                        Some loc \<Rightarrow> loc_segment loc = n \<and> loc_offset loc = offset c1 | None \<Rightarrow> False)
                    in case (if is_current then visit doc acc else Inr acc) of
                         Inl e \<Rightarrow> Inl e | Inr acc \<Rightarrow> visit_records visit s n c2 acc)
          else if op = OP_DELETE
          then (case then_read read_string (\<lambda>_. file_u64) c1 of
                  Inl e \<Rightarrow> Inl e | Inr (_, c2) \<Rightarrow> visit_records visit s n c2 acc)
          else Inl (InvalidData (''unknown document op '' @ show_nat (unat op))))"
  by pat_completeness auto
termination
proof (relation "measure (\<lambda>(visit, s, n, c, acc). length (bytes c) - offset c)", goal_cases)
  case (2 visit s n c acc x op c1 y doc c2)
  then show ?case using movesD [OF moves_document, of c1] by (auto simp: file_u8_eq split: if_splits)
next
  case (3 visit s n c acc x op c1 y v c2)
  then show ?case using movesD [OF moves_then [OF moves_string moves_ints(3)], of c1] by (auto simp: file_u8_eq split: if_splits)
qed simp

fun visit_segments :: "(stored_document \<Rightarrow> 'a \<Rightarrow> 'a result) \<Rightarrow> store_state \<Rightarrow> u32 list \<Rightarrow> 'a \<Rightarrow> 'a result" where
  "visit_segments visit sk [] acc = Inr acc"
| "visit_segments visit sk (n # ids) acc =
     and_then (ok_or no_such_file (get_file (snd sk) n)) (\<lambda>fl.
     and_then (read_exact 8 \<lparr>bytes = wf_bytes fl, offset = 0\<rparr>) (\<lambda>(magic, c).
     if magic \<noteq> STORE_MAGIC \<and> magic \<noteq> COMPACTED_MAGIC then Inl (InvalidData ''bad document store magic'')
     else and_then (visit_records visit (fst sk) n c acc) (\<lambda>acc. visit_segments visit sk ids acc)))"

definition for_each_document :: "(stored_document \<Rightarrow> 'a \<Rightarrow> 'a result) \<Rightarrow> store_state \<Rightarrow> 'a \<Rightarrow> 'a result" where
  "for_each_document visit sk acc = visit_segments visit sk (list_segment_ids (sk_files (snd sk))) acc"

definition all_documents :: "store_state \<Rightarrow> stored_document list result" where
  "all_documents sk = for_each_document (\<lambda>doc acc. Inr (acc @ [doc])) sk []"

section \<open>Durability\<close>

text \<open>\<open>for id in from..=current\<close>.\<close>

fun sync_files :: "store_faults \<Rightarrow> string \<Rightarrow> u32 list \<Rightarrow> store_disk \<Rightarrow> store_disk \<times> unit result" where
  "sync_files f root [] k = (k, Inr ())"
| "sync_files f root (n # ids) k =
     (case get_file k n of
        None \<Rightarrow> sync_files f root ids k
      | Some fl \<Rightarrow>
          case f (DataSync n) of
            Some (_, e) \<Rightarrow> (k, Inl (with_path e (join_path root (segment_filename n))))
          | None \<Rightarrow> sync_files f root ids (put_file n (sync_file fl) k))"

definition store_sync :: "store_faults \<Rightarrow> store_state \<Rightarrow> store_state \<times> unit result" where
  "store_sync f = (\<lambda>(s, k).
     case sync_files f (st_path s) (map of_nat [unat (st_unsynced s)..<Suc (unat (st_current s))]) k of
       (k, Inl e) \<Rightarrow> ((s, k), Inl e)
     | (k, Inr _) \<Rightarrow>
         case (if st_current s \<noteq> st_unsynced s then f FolderSync else None) of
           Some (_, e) \<Rightarrow> ((s, k), Inl e)
         | None \<Rightarrow> ((s\<lparr>st_unsynced := st_current s\<rparr>, k), Inr ()))"

section \<open>Loading\<close>

definition segment_magic :: "string \<Rightarrow> store_disk \<Rightarrow> u32 \<Rightarrow> u8 list result" where
  "segment_magic root k n =
     (let p = join_path root (segment_filename n)
      in case get_file k n of
           None \<Rightarrow> Inl (with_path no_such_file p)
         | Some fl \<Rightarrow>
             case read_exact 8 \<lparr>bytes = wf_bytes fl, offset = 0\<rparr> of Inl e \<Rightarrow> Inl (with_path e p) | Inr (magic, _) \<Rightarrow> Inr magic)"

text \<open>\<open>scan_segment\<close> on a put and on a delete record.  The versions it collects are never read.\<close>

definition apply_put :: "u32 \<Rightarrow> nat \<Rightarrow> u32 \<Rightarrow> stored_document \<Rightarrow> doc_store \<Rightarrow> doc_store" where
  "apply_put n doc_offset len doc s =
     (let s = note_id (internal_id doc) s;
          loc = \<lparr>loc_internal = internal_id doc, loc_offset = doc_offset, loc_segment = n, loc_len = len\<rparr>;
          old = omap_get (st_locations s) (external_id doc);
          s = s\<lparr>st_locations := omap_insert (external_id doc) loc (st_locations s)\<rparr>;
          s = (case old of
                 Some old \<Rightarrow> if loc_internal old \<noteq> internal_id doc
                   then s\<lparr>st_internal := omap_remove (loc_internal old) (st_internal s)\<rparr> else s
               | None \<Rightarrow> s);
          s = s\<lparr>st_internal := omap_insert (internal_id doc) (external_id doc) (st_internal s)\<rparr>
      in cache_invalidate (external_id doc) s)"

definition apply_delete :: "u8 list \<Rightarrow> u64 \<Rightarrow> doc_store \<Rightarrow> doc_store" where
  "apply_delete ext deleted s =
     (let s = note_id deleted s;
          s = (case omap_get (st_locations s) ext of
                 Some current \<Rightarrow>
                   if loc_internal current \<le> deleted
                   then s\<lparr>st_locations := omap_remove ext (st_locations s),
                          st_internal := omap_remove (loc_internal current) (st_internal s)\<rparr>
                   else s
               | None \<Rightarrow> s)
      in cache_invalidate ext s)"

text \<open>The loop of \<open>scan_segment\<close>: the new maps, and where the file has to be cut when it ends in the middle of a
  record.\<close>

function scan_loop :: "u32 \<Rightarrow> bool \<Rightarrow> string \<Rightarrow> cursor \<Rightarrow> doc_store \<Rightarrow> (doc_store \<times> nat option) result" where
  "scan_loop n may_end_torn p c s =
     (case file_u8 c of
        Inl (UnexpectedEof _) \<Rightarrow> Inr (s, None)
      | Inl e \<Rightarrow> Inl e
      | Inr (op, c1) \<Rightarrow>
          if op = OP_PUT
          then (case read_document c1 of
                  Inr (doc, c2) \<Rightarrow> scan_loop n may_end_torn p c2 (apply_put n (offset c1) (of_nat (offset c2 - offset c1)) doc s)
                | Inl (UnexpectedEof m) \<Rightarrow> if may_end_torn then Inr (s, Some (offset c)) else Inl (with_path (UnexpectedEof m) p)
                | Inl e \<Rightarrow> Inl (with_path e p))
          else if op = OP_DELETE
          then (case then_read read_string (\<lambda>ext. then_read file_u64 (\<lambda>v. read_return (ext, v))) c1 of
                  Inr ((ext, deleted), c2) \<Rightarrow> scan_loop n may_end_torn p c2 (apply_delete ext deleted s)
                | Inl (UnexpectedEof m) \<Rightarrow> if may_end_torn then Inr (s, Some (offset c)) else Inl (with_path (UnexpectedEof m) p)
                | Inl e \<Rightarrow> Inl (with_path e p))
          else Inl (InvalidData (p @ '': unknown document op '' @ show_nat (unat op) @ '' at '' @ show_nat (offset c))))"
  by pat_completeness auto
termination
proof (relation "measure (\<lambda>(n, t, p, c, s). length (bytes c) - offset c)", goal_cases)
  case (2 n t p c s x op c1 y doc c2)
  then show ?case using movesD [OF moves_document, of c1] by (auto simp: file_u8_eq split: if_splits)
next
  case (3 n t p c s x op c1 y ext deleted c2)
  have "moves (then_read read_string (\<lambda>ext. then_read file_u64 (\<lambda>v. read_return (ext, v))))"
    by (intro moves_then moves_string moves_ints moves_basic)
  with 3 show ?case by (auto simp: file_u8_eq split: if_splits dest!: movesD)
qed simp

declare scan_loop.simps [simp del] visit_records.simps [simp del]

definition scan_segment :: "store_faults \<Rightarrow> u32 \<Rightarrow> nat option \<Rightarrow> store_state \<Rightarrow> store_state result" where
  "scan_segment f n from = (\<lambda>(s, k).
     let p = join_path (st_path s) (segment_filename n)
     in and_then (segment_magic (st_path s) k n) (\<lambda>magic.
        and_then (ok_or (with_path no_such_file p) (get_file k n)) (\<lambda>fl.
        and_then (case from of
                    Some off \<Rightarrow> Inr \<lparr>bytes = wf_bytes fl, offset = off\<rparr>
                  | None \<Rightarrow>
                      if magic \<noteq> STORE_MAGIC \<and> magic \<noteq> COMPACTED_MAGIC then Inl (InvalidData (p @ '': bad document store magic''))
                      else Inr \<lparr>bytes = wf_bytes fl, offset = length STORE_MAGIC\<rparr>) (\<lambda>c.
        and_then (scan_loop n (magic = STORE_MAGIC) p c s) (\<lambda>(s, cut).
        case cut of
          None \<Rightarrow> Inr (s, k)
        | Some record_start \<Rightarrow>
            case f (Truncate n) of
              Some (_, e) \<Rightarrow> Inl e
            | None \<Rightarrow> Inr (s, put_file n (set_len record_start fl) k))))))"

fun scan_segments :: "store_faults \<Rightarrow> (u32 \<times> nat option) list \<Rightarrow> store_state \<Rightarrow> store_state result" where
  "scan_segments f [] sk = Inr sk"
| "scan_segments f ((n, from) # rest) sk = and_then (scan_segment f n from sk) (scan_segments f rest)"

definition store_load :: "store_faults \<Rightarrow> store_state \<Rightarrow> store_state result" where
  "store_load f sk = scan_segments f (map (\<lambda>n. (n, None)) (list_segment_ids (sk_files (snd sk)))) sk"

section \<open>The maps file\<close>

definition save_maps :: "bincode_ops \<Rightarrow> store_faults \<Rightarrow> doc_store \<Rightarrow> store_disk \<Rightarrow> store_disk \<times> unit result" where
  "save_maps bin f s k =
     (let ends = List.map_filter (\<lambda>n. map_option (\<lambda>fl. (n, length (wf_bytes fl))) (get_file k n)) (list_segment_ids (sk_files k));
          missing = filter (\<lambda>n. get_file k n = None) (list_segment_ids (sk_files k));
          contents = \<lparr>mp_ends = ends, mp_entries = st_locations s, mp_highest = st_highest s\<rparr>
      in if missing \<noteq> [] then (k, Inl (with_path no_such_file (join_path (st_path s) (segment_filename (hd missing)))))
         else case f MapsCreate of
           Some (_, e) \<Rightarrow> (k, Inl (with_path e (st_path s @ ''.maps.bin.tmp'')))
         | None \<Rightarrow>
           case f MapsWrite of
             Some (_, e) \<Rightarrow> (k, Inl e)
           | None \<Rightarrow>
             case f MapsSync of
               Some (_, e) \<Rightarrow> (k, Inl e)
             | None \<Rightarrow>
               case f MapsRename of
                 Some (_, e) \<Rightarrow> (k, Inl (with_path e (st_path s @ ''.maps.bin'')))
               | None \<Rightarrow>
                   let k = k\<lparr>sk_maps := Some (MAPS_MAGIC @ bin_encode bin contents)\<rparr>
                   in case f MapsFolderSync of Some (_, e) \<Rightarrow> (k, Inl e) | None \<Rightarrow> (k, Inr ()))"

definition read_maps :: "bincode_ops \<Rightarrow> store_disk \<Rightarrow> maps_file option" where
  "read_maps bin k =
     (case sk_maps k of
        None \<Rightarrow> None
      | Some bs \<Rightarrow> if prefix MAPS_MAGIC bs then bin_decode bin (drop (length MAPS_MAGIC) bs) else None)"

text \<open>The second step of \<open>load_from_maps\<close>: from where each segment of the snapshot is read on, unless the snapshot
  no longer describes the files.\<close>

fun snapshot_tails :: "store_disk \<Rightarrow> u32 set \<Rightarrow> (u32 \<times> nat) list \<Rightarrow> (u32 \<times> nat option) list option" where
  "snapshot_tails k in_use [] = Some []"
| "snapshot_tails k in_use ((n, end_offset) # ends) =
     (case get_file k n of
        Some fl \<Rightarrow> if length (wf_bytes fl) \<ge> end_offset
          then map_option (Cons (n, Some end_offset)) (snapshot_tails k in_use ends) else None
      | None \<Rightarrow> if n \<notin> in_use then snapshot_tails k in_use ends else None)"

definition load_entry :: "u8 list \<times> doc_location \<Rightarrow> doc_store \<Rightarrow> doc_store" where
  "load_entry = (\<lambda>(ext, loc) s.
     let s = note_id (loc_internal loc) s
     in s\<lparr>st_internal := omap_insert (loc_internal loc) ext (st_internal s),
          st_locations := omap_insert ext loc (st_locations s)\<rparr>)"

text \<open>The last loop: segments the snapshot does not know are read whole, except the outputs of compactions, which
  are removed.\<close>

fun scan_unknown :: "store_faults \<Rightarrow> u32 list \<Rightarrow> store_state \<Rightarrow> store_state result" where
  "scan_unknown f [] sk = Inr sk"
| "scan_unknown f (n # ids) sk =
     (case sk of (s, k) \<Rightarrow>
        and_then (segment_magic (st_path s) k n) (\<lambda>magic.
        if magic = COMPACTED_MAGIC
        then (case f (RemoveOld n) of
                Some (_, e) \<Rightarrow> Inl (with_path e (join_path (st_path s) (segment_filename n)))
              | None \<Rightarrow> scan_unknown f ids (s, k\<lparr>sk_files := omap_remove (segment_filename n) (sk_files k)\<rparr>))
        else and_then (scan_segment f n None (s, k)) (scan_unknown f ids)))"

definition load_from_maps :: "bincode_ops \<Rightarrow> store_faults \<Rightarrow> store_state \<Rightarrow> (store_state \<times> bool) result" where
  "load_from_maps bin f = (\<lambda>(s, k).
     case read_maps bin k of
       None \<Rightarrow> Inr ((s, k), False)
     | Some saved \<Rightarrow>
         case snapshot_tails k (set (map (loc_segment \<circ> snd) (mp_entries saved))) (mp_ends saved) of
           None \<Rightarrow> Inr ((s, k), False)
         | Some tails \<Rightarrow>
             let ids = list_segment_ids (sk_files k);
                 s = fold load_entry (mp_entries saved) (note_id (mp_highest saved) s)
             in and_then (scan_segments f tails (s, k)) (\<lambda>sk.
                and_then (scan_unknown f (filter (\<lambda>n. n \<notin> set (map fst (mp_ends saved))) ids) sk) (\<lambda>sk.
                Inr (sk, True))))"

section \<open>Opening\<close>

text \<open>A new append segment: created, given its header and synced.\<close>

definition create_segment :: "store_faults \<Rightarrow> (io_error \<Rightarrow> io_error) \<Rightarrow> u32 \<Rightarrow> store_disk \<Rightarrow> store_disk result" where
  "create_segment f wrap n k =
     (case f NewCreate of
        Some (_, e) \<Rightarrow> Inl (wrap e)
      | None \<Rightarrow>
        case f NewWrite of
          Some (_, e) \<Rightarrow> Inl e
        | None \<Rightarrow>
          case f NewSync of
            Some (_, e) \<Rightarrow> Inl e
          | None \<Rightarrow>
            case f FolderSync of
              Some (_, e) \<Rightarrow> Inl e
            | None \<Rightarrow> Inr (put_file n (sync_file (append_bytes STORE_MAGIC file_new)) k))"

definition store_begin :: "store_faults \<Rightarrow> string \<Rightarrow> store_disk \<Rightarrow> store_state result" where
  "store_begin f root k =
     (case f MakeDir of
        Some (_, e) \<Rightarrow> Inl e
      | None \<Rightarrow>
        and_then (if list_segment_ids (sk_files k) = [] then create_segment f (\<lambda>e. e) 0 k else Inr k) (\<lambda>k.
        let ids = (if list_segment_ids (sk_files k) = [] then [0] else list_segment_ids (sk_files k)); current = last ids
        in Inr (\<lparr>st_path = root, st_docs = [], st_internal = [], st_locations = [], st_current = current,
                 st_next = Max (set ids) + 1, st_unsynced = current, st_highest = 0\<rparr>, k)))"

text \<open>New writes go to the newest append segment, never into a compaction output.\<close>

definition choose_append :: "store_faults \<Rightarrow> store_state \<Rightarrow> store_state result" where
  "choose_append f = (\<lambda>(s, k).
     and_then (case rev (list_segment_ids (sk_files k)) of
                 [] \<Rightarrow> Inr None
               | n # _ \<Rightarrow> and_then (segment_magic (st_path s) k n) (\<lambda>magic. Inr (if magic = STORE_MAGIC then Some n else None))) (\<lambda>newest.
     and_then (case newest of
                 Some n \<Rightarrow> Inr (n, s, k)
               | None \<Rightarrow> let n = st_next s in and_then (create_segment f (\<lambda>e. with_path e (join_path (st_path s) (segment_filename n))) n k) (\<lambda>k. Inr (n, s\<lparr>st_next := n + 1\<rparr>, k))) (\<lambda>(n, s, k).
     Inr (s\<lparr>st_current := n, st_unsynced := n\<rparr>, k))))"

definition store_open :: "store_faults \<Rightarrow> string \<Rightarrow> store_disk \<Rightarrow> store_state result" where
  "store_open f root k = and_then (store_begin f root k) (\<lambda>sk. and_then (store_load f sk) (choose_append f))"

definition open_with_maps :: "bincode_ops \<Rightarrow> store_faults \<Rightarrow> string \<Rightarrow> store_disk \<Rightarrow> store_state result" where
  "open_with_maps bin f root k =
     and_then (store_begin f root k) (\<lambda>sk.
     and_then (load_from_maps bin f sk) (\<lambda>(sk, loaded).
     and_then (if loaded then Inr sk
               else store_load f (case sk of (s, k) \<Rightarrow> (s\<lparr>st_internal := [], st_locations := []\<rparr>, k))) (choose_append f)))"

section \<open>Compaction\<close>

record segment_job =
  sj_ids :: "u32 list"
  sj_next :: u32
  sj_dir :: string
  sj_snapshot :: "(u8 list \<times> doc_location) list"

record completed_job =
  cj_old :: "u32 list"
  cj_new :: u32
  cj_tmp :: string
  cj_locations :: "(u8 list \<times> doc_location) list"

text \<open>The \<open>f64\<close> arithmetic of the dead ratio.\<close>

record 'g ratio_ops =
  ra_nat :: "nat \<Rightarrow> 'g"
  ra_sub :: "'g \<Rightarrow> 'g \<Rightarrow> 'g"
  ra_div :: "'g \<Rightarrow> 'g \<Rightarrow> 'g"
  ra_le :: "'g \<Rightarrow> 'g \<Rightarrow> bool"

definition live_bytes :: "(u8 list, doc_location) omap \<Rightarrow> u32 \<Rightarrow> nat" where
  "live_bytes locs n = sum_list (map (\<lambda>(_, loc). unat (loc_len loc) + 1) (filter (\<lambda>(_, loc). loc_segment loc = n) locs))"

definition dead_candidate :: "'g ratio_ops \<Rightarrow> 'g \<Rightarrow> doc_store \<Rightarrow> store_disk \<Rightarrow> u32 \<Rightarrow> (u32 \<times> nat) option" where
  "dead_candidate ra threshold s k n =
     (if n \<ge> st_current s then None
      else case get_file k n of
             None \<Rightarrow> None
           | Some fl \<Rightarrow>
               let total = length (wf_bytes fl) - length STORE_MAGIC
               in if total = 0 then None
                  else let live = min (live_bytes (st_locations s) n) total;
                           dead_ratio = ra_sub ra (ra_nat ra 1) (ra_div ra (ra_nat ra live) (ra_nat ra total))
                       in if ra_le ra threshold dead_ratio then Some (n, live) else None)"

fun select_segments :: "nat \<Rightarrow> nat \<Rightarrow> u32 list \<Rightarrow> (u32 \<times> nat) list \<Rightarrow> u32 list" where
  "select_segments target running selected [] = selected"
| "select_segments target running selected ((n, live) # cands) =
     (if selected \<noteq> [] \<and> running + live > target then selected
      else if running + live \<ge> target then selected @ [n]
      else select_segments target (running + live) (selected @ [n]) cands)"

definition plan_segment_compaction :: "'g ratio_ops \<Rightarrow> 'g \<Rightarrow> nat \<Rightarrow> store_state \<Rightarrow> store_state \<times> segment_job option" where
  "plan_segment_compaction ra threshold target = (\<lambda>(s, k).
     let candidates = List.map_filter (dead_candidate ra threshold s k) (list_segment_ids (sk_files k))
     in if candidates = [] then ((s, k), None)
        else let selected = select_segments target 0 [] (sort_key snd candidates);
                 entries = sort_key (\<lambda>(_, loc). (loc_segment loc, loc_offset loc))
                   (filter (\<lambda>(_, loc). loc_segment loc \<in> set selected) (st_locations s))
             in ((s\<lparr>st_next := st_next s + 1\<rparr>, k),
                 Some \<lparr>sj_ids = selected, sj_next = st_next s, sj_dir = st_path s, sj_snapshot = entries\<rparr>))"

definition ascii_text :: "u8 list \<Rightarrow> string" where
  "ascii_text bs = map (\<lambda>b. char_of (unat b)) bs"

definition belongs_to :: "u8 list \<Rightarrow> u8 list \<Rightarrow> bool" where
  "belongs_to rec_bytes ext \<longleftrightarrow>
     4 \<le> length rec_bytes \<and> unat (from_le (take 4 rec_bytes) :: u32) = length ext \<and>
     4 + length ext \<le> length rec_bytes \<and> take (length ext) (drop 4 rec_bytes) = ext"

text \<open>The loop of \<open>run_segment_compaction\<close>; \<open>data\<close> is what it has written so far.\<close>

fun copy_records :: "store_disk \<Rightarrow> string \<Rightarrow> u32 \<Rightarrow> (u8 list \<times> doc_location) list \<Rightarrow> u8 list \<Rightarrow> (u8 list \<times> doc_location) list \<Rightarrow>
    u8 list \<times> (u8 list \<times> doc_location) list result" where
  "copy_records k root new_id [] data locs = (data, Inr locs)"
| "copy_records k root new_id ((ext, loc) # rest) data locs =
     (case get_file k (loc_segment loc) of
        None \<Rightarrow> (data, Inl (with_path no_such_file (join_path root (segment_filename (loc_segment loc)))))
      | Some fl \<Rightarrow>
          case read_exact (unat (loc_len loc)) \<lparr>bytes = wf_bytes fl, offset = loc_offset loc\<rparr> of
            Inl e \<Rightarrow> (data, Inl e)
          | Inr (rec_bytes, _) \<Rightarrow>
              if \<not> belongs_to rec_bytes ext
              then (data, Inl (InvalidData (''segment '' @ show_nat (unat (loc_segment loc)) @ '' offset '' @ show_nat (loc_offset loc) @
                     '': record does not belong to '' @ [CHR 0x27] @ ascii_text ext @ [CHR 0x27])))
              else copy_records k root new_id rest (data @ write_u8 OP_PUT @ rec_bytes)
                     (locs @ [(ext, loc\<lparr>loc_offset := length data + 1, loc_segment := new_id\<rparr>)]))"

definition run_segment_compaction :: "store_faults \<Rightarrow> segment_job \<Rightarrow> store_disk \<Rightarrow> store_disk \<times> completed_job result" where
  "run_segment_compaction f job k =
     (let tmp = segment_filename (sj_next job) @ ''.tmp'';
          put_tmp = (\<lambda>fl. k\<lparr>sk_files := omap_insert tmp fl (sk_files k)\<rparr>)
      in case f TmpCreate of
           Some (_, e) \<Rightarrow> (k, Inl (with_path e (join_path (sj_dir job) tmp)))
         | None \<Rightarrow>
           case copy_records k (sj_dir job) (sj_next job) (sj_snapshot job) COMPACTED_MAGIC [] of
             (data, Inl e) \<Rightarrow> (put_tmp (append_bytes data file_new), Inl e)
           | (data, Inr locs) \<Rightarrow>
             case f TmpWrite of
               Some (n, e) \<Rightarrow> (put_tmp (append_bytes (take n data) file_new), Inl e)
             | None \<Rightarrow>
               case f TmpSync of
                 Some (_, e) \<Rightarrow> (put_tmp (append_bytes data file_new), Inl e)
               | None \<Rightarrow>
                   (put_tmp (sync_file (append_bytes data file_new)),
                    Inr \<lparr>cj_old = sj_ids job, cj_new = sj_next job, cj_tmp = tmp, cj_locations = locs\<rparr>))"

definition install_location :: "u32 list \<Rightarrow> u8 list \<times> doc_location \<Rightarrow> (u8 list, doc_location) omap \<times> nat \<Rightarrow> (u8 list, doc_location) omap \<times> nat" where
  "install_location old = (\<lambda>(ext, new_loc) (locs, installed).
     case omap_get locs ext of
       Some current \<Rightarrow> if loc_segment current \<in> set old then (omap_insert ext new_loc locs, installed + 1) else (locs, installed)
     | None \<Rightarrow> (locs, installed))"

fun remove_old :: "store_faults \<Rightarrow> string \<Rightarrow> u32 list \<Rightarrow> store_disk \<Rightarrow> store_disk \<times> unit result" where
  "remove_old f root [] k = (k, Inr ())"
| "remove_old f root (n # ids) k =
     (case (case f (RemoveOld n) of
              Some (_, e) \<Rightarrow> Inl e
            | None \<Rightarrow> if get_file k n = None then Inl no_such_file else Inr (k\<lparr>sk_files := omap_remove (segment_filename n) (sk_files k)\<rparr>)) of
        Inr k \<Rightarrow> remove_old f root ids k
      | Inl (NotFound _) \<Rightarrow> remove_old f root ids k
      | Inl e \<Rightarrow> (k, Inl (with_path e (join_path root (segment_filename n)))))"

text \<open>The maps are saved twice, before and after the old segments are removed; \<open>f\<close> and \<open>g\<close> say which calls of
  the first and the second save fail.\<close>

definition install_segment_compaction ::
    "bincode_ops \<Rightarrow> store_faults \<Rightarrow> store_faults \<Rightarrow> completed_job \<Rightarrow> store_state \<Rightarrow> store_state \<times> bool result" where
  "install_segment_compaction bin f g completed = (\<lambda>(s, k).
     let final_name = segment_filename (cj_new completed); final_path = join_path (st_path s) final_name
     in case f RenameTmp of
          Some (_, e) \<Rightarrow> ((s, k), Inl (with_path e final_path))
        | None \<Rightarrow>
          case omap_get (sk_files k) (cj_tmp completed) of
            None \<Rightarrow> ((s, k), Inl (with_path no_such_file final_path))
          | Some fl \<Rightarrow>
            let k = k\<lparr>sk_files := omap_insert final_name fl (omap_remove (cj_tmp completed) (sk_files k))\<rparr>
            in case f FolderSync of
                 Some (_, e) \<Rightarrow> ((s, k), Inl e)
               | None \<Rightarrow>
                   let (locs, installed) = fold (install_location (cj_old completed)) (cj_locations completed) (st_locations s, 0);
                       s = s\<lparr>st_locations := locs\<rparr>
                   in case save_maps bin f s k of
                        (k, Inl e) \<Rightarrow> ((s, k), Inl e)
                      | (k, Inr _) \<Rightarrow>
                        case remove_old f (st_path s) (cj_old completed) k of
                          (k, Inl e) \<Rightarrow> ((s, k), Inl e)
                        | (k, Inr _) \<Rightarrow>
                          case save_maps bin g s k of
                            (k, Inl e) \<Rightarrow> ((s, k), Inl e)
                          | (k, Inr _) \<Rightarrow> ((s, k), Inr (installed > 0)))"

end
