(* ===== verification/Store_Records.thy ===== *)
theory Store_Records
  imports Doc_Store
begin

text \<open>
  The names of the document store's segment files and the round trip of its document records: what
  \<open>write_document\<close> puts anywhere into a file, \<open>read_document\<close> returns from that place.
\<close>

section \<open>File names\<close>

lemma segment_id_filename [simp]: "store_segment_id (segment_filename n) = Some n"
proof -
  let ?s = "replicate (5 - length (show_nat (unat n))) (CHR ''0'') @ show_nat (unat n)"
  have name: "segment_filename n = ''seg_'' @ ?s @ ''.bin''" by (simp add: segment_filename_def Let_def)
  have "suffix ''.bin'' (?s @ ''.bin'')" by (rule suffixI) simp
  then have "strip_suffix ''.bin'' (?s @ ''.bin'') = Some ?s" by (simp add: strip_suffix_def)
  moreover have "parse_u32 ?s = Some n"
  proof -
    have "unat n < 2 ^ 64" using unat_u32_lt [of n] by simp
    moreover have "unat (of_nat (unat n) :: u64) = unat n" using unat_u32_lt [of n]
      by (simp only: unsigned_of_nat) (simp add: take_bit_nat_eq_self)
    moreover have "ucast (of_nat (unat n) :: u64) = n" using ucast_down_up [of n, where 'b = 64] unat_u32_lt [of n] by simp
    ultimately show ?thesis using unat_u32_lt [of n] by (simp add: parse_u32_def parse_u64_padded)
  qed
  ultimately show ?thesis by (simp add: name store_segment_id_def)
qed

interpretation sf: numbered_files segment_filename store_segment_id
  by unfold_locales simp

lemma list_segment_ids_numbers: "list_segment_ids = numbers_in store_segment_id"
  by (rule ext) (simp add: list_segment_ids_def numbers_in_def)

lemma segment_filename_end: "\<exists>s. segment_filename n = s @ ''bin''"
  by (auto simp: segment_filename_def Let_def intro: exI [of _ "''seg_'' @ replicate m c @ s @ ''.''" for m c s])

lemma tmp_not_segment [simp]: "store_segment_id (name @ ''.tmp'') = None"
proof -
  have "\<not> suffix ''.bin'' (drop 4 (name @ ''.tmp''))" if "prefix ''seg_'' (name @ ''.tmp'')"
  proof
    assume "suffix ''.bin'' (drop 4 (name @ ''.tmp''))"
    then have "suffix ''.bin'' (name @ ''.tmp'')" using suffix_drop suffix_order.trans by blast
    then show False by (auto simp: suffix_def)
  qed
  then show ?thesis by (auto simp: store_segment_id_def strip_suffix_def)
qed

lemma tmp_ne_filename [simp]: "name @ ''.tmp'' \<noteq> segment_filename n" "segment_filename n \<noteq> name @ ''.tmp''"
  using tmp_not_segment [of name] segment_id_filename [of n] by (metis option.distinct(1))+

text \<open>Files by number.\<close>

lemma get_put_file: "omap_ok (sk_files k) \<Longrightarrow> get_file (put_file n fl k) m = (if m = n then Some fl else get_file k m)"
  by (simp add: get_file_def put_file_def omap_get_insert sf.path_inj)

lemma put_file_ok: "omap_ok (sk_files k) \<Longrightarrow> omap_ok (sk_files (put_file n fl k))"
  by (simp add: put_file_def omap_ok_insert)

lemma get_file_listed: "get_file k n = Some fl \<Longrightarrow> n \<in> set (list_segment_ids (sk_files k))"
  unfolding list_segment_ids_numbers get_file_def by (rule sf.numbers_has)

lemma append_bytes_eq [simp]: "wf_bytes (append_bytes data fl) = wf_bytes fl @ data"
  by (simp add: append_bytes_def write_at_def)

lemma file_new_bytes [simp]: "wf_bytes file_new = []"
  by (simp add: file_new_def)

lemma sync_file_bytes [simp]: "wf_bytes (sync_file fl) = wf_bytes fl"
  by (simp add: sync_file_def)

section \<open>Records read back\<close>

lemma reads_exact: "length bs = n \<Longrightarrow> reads (read_exact n) bs bs"
proof (rule readsI)
  fix c rest
  assume n: "length bs = n" and a: "ahead c (bs @ rest)"
  then have d: "drop (offset c) (bytes c) = bs @ rest" by (simp add: ahead_def)
  then have "length (bytes c) - offset c = n + length rest" using n by (metis length_append length_drop)
  with a d n show "\<exists>c'. read_exact n c = Inr (bs, c') \<and> ahead c' rest"
    by (auto simp: read_exact_def ahead_def add.commute simp flip: drop_drop)
qed

lemma reads_file_le: "length bs = n \<Longrightarrow> reads (then_read (read_exact n) (\<lambda>bs. read_return (g bs))) bs (g bs)"
  by (intro reads_map reads_exact)

lemma reads_file_ints:
  "reads file_u8 (write_u8 a) a" "reads file_u32 (write_u32 b) b" "reads file_u64 (write_u64 v) v"
  using reads_file_le [of "write_u8 a" 1 "\<lambda>bs. bs ! 0"] reads_file_le [of "write_u32 b" 4 "from_le :: _ \<Rightarrow> u32"]
    reads_file_le [of "write_u64 v" 8 "from_le :: _ \<Rightarrow> u64"]
  by (simp_all add: file_u8_def file_u32_def file_u64_def write_u8_def write_u32_def write_u64_def)

lemma unat_length: "length bs < 2 ^ 32 \<Longrightarrow> unat (of_nat (length bs) :: u32) = length bs"
  by (simp add: unsigned_of_nat take_bit_nat_eq_self)

lemma reads_bytes: "length bs < 2 ^ 32 \<Longrightarrow> reads read_bytes (write_bytes bs) bs"
  unfolding read_bytes_def write_bytes_def
  by (intro reads_then [OF reads_file_ints(2)] reads_exact) (simp add: unsigned_of_nat take_bit_nat_eq_self)

lemma reads_string: "utf8_ok bs \<Longrightarrow> length bs < 2 ^ 32 \<Longrightarrow> reads read_string (write_string bs) bs"
  unfolding read_string_def write_string_def
  by (intro reads_then [OF reads_file_ints(2)] reads_check [OF reads_exact]) (simp_all add: unsigned_of_nat take_bit_nat_eq_self)

text \<open>A document the record format can hold; \<open>utf8_ok\<close> holds of every Rust string.\<close>

definition doc_fits :: "stored_document \<Rightarrow> bool" where
  "doc_fits doc \<longleftrightarrow> utf8_ok (external_id doc) \<and> length (write_document doc) < 2 ^ 32"

lemma length_write_document [simp]: "length (write_document doc) = length (external_id doc) + length (doc_source doc) + 17"
  by (simp add: write_document_def write_string_def write_bytes_def)

lemma reads_format: "reads (\<lambda>c. and_then (format_try_from (format_id fmt)) (\<lambda>fmt. Inr (fmt, c))) [] fmt"
  by (rule readsI) (cases fmt, simp add: format_try_from_def format_id_def)

lemma reads_return': "reads (read_return \<lparr>external_id = external_id doc, internal_id = internal_id doc, doc_format = doc_format doc, doc_source = doc_source doc\<rparr>) [] doc"
  using reads_return [of doc] by (cases doc) simp

lemma reads_document: "doc_fits doc \<Longrightarrow> reads read_document (write_document doc) doc"
proof -
  assume fits: "doc_fits doc"
  then have "reads read_document
    (write_string (external_id doc) @ write_u64 (internal_id doc) @ write_u8 (format_id (doc_format doc)) @ [] @ write_bytes (doc_source doc) @ []) doc"
    unfolding read_document_def doc_fits_def
    by (intro reads_then [OF reads_string] reads_then [OF reads_file_ints(3)] reads_then [OF reads_file_ints(1)]
        reads_then [OF reads_format] reads_then [OF reads_bytes]) (auto simp: reads_return')
  then show ?thesis by (simp add: write_document_def)
qed

interpretation docs: byte_codec write_document read_document doc_fits
  by unfold_locales (rule reads_document)

lemma ahead_at: "ahead \<lparr>bytes = bs, offset = off\<rparr> x \<longleftrightarrow> (\<exists>pre. bs = pre @ x \<and> length pre = off)"
proof
  assume "ahead \<lparr>bytes = bs, offset = off\<rparr> x"
  then show "\<exists>pre. bs = pre @ x \<and> length pre = off" by (intro exI [of _ "take off bs"]) (auto simp: ahead_def)
qed (auto simp: ahead_def)

text \<open>What a reader of the store reads, it reads at the place, and the cursor stops right behind it.\<close>

lemma reads_at:
  assumes "reads r x v" and "moves r"
  shows "r \<lparr>bytes = pre @ x @ post, offset = length pre\<rparr> = Inr (v, \<lparr>bytes = pre @ x @ post, offset = length pre + length x\<rparr>)"
proof -
  have "ahead \<lparr>bytes = pre @ x @ post, offset = length pre\<rparr> (x @ post)" by (auto simp: ahead_at)
  then obtain c' where c: "r \<lparr>bytes = pre @ x @ post, offset = length pre\<rparr> = Inr (v, c')" "ahead c' post"
    by (rule readsE [OF assms(1)])
  then have "bytes c' = pre @ x @ post" using movesD [OF assms(2) c(1)] by simp
  moreover have "offset c' = length pre + length x" using c(2) \<open>bytes c' = _\<close>
    by (auto simp: ahead_def dest!: arg_cong [of _ post length])
  ultimately show ?thesis using c(1) by (cases c') simp
qed

end
