(* ===== verification/Store_Map.thy ===== *)
theory Store_Map
  imports Store_Records
begin

text \<open>
  The document store as a map: \<open>store_inv\<close> says which documents a store and its folder hold, and every
  operation, failing calls and the steps of a compaction included, changes them the way it promises.
\<close>

section \<open>Records in files\<close>

definition record_at :: "u8 list \<Rightarrow> nat \<Rightarrow> stored_document \<Rightarrow> bool" where
  "record_at bs off doc \<longleftrightarrow> doc_fits doc \<and> (\<exists>pre post. bs = pre @ write_document doc @ post \<and> length pre = off)"

lemma record_at_read:
  "record_at bs off doc \<Longrightarrow>
    read_document \<lparr>bytes = bs, offset = off\<rparr> = Inr (doc, \<lparr>bytes = bs, offset = off + length (write_document doc)\<rparr>)"
  unfolding record_at_def using reads_at [OF reads_document moves_document] by blast

lemma doc_fits_len: "doc_fits doc \<Longrightarrow> unat (of_nat (length (write_document doc)) :: u32) = length (write_document doc)"
  by (simp add: doc_fits_def unat_length del: length_write_document)

lemma record_at_unique: "record_at bs off a \<Longrightarrow> record_at bs off b \<Longrightarrow> a = b"
  by (drule record_at_read)+ simp

lemma record_at_prefix: "record_at bs off doc \<Longrightarrow> prefix bs bs' \<Longrightarrow> record_at bs' off doc"
  by (fastforce simp: record_at_def prefix_def)

lemma record_at_append: "doc_fits doc \<Longrightarrow> off = length pre \<Longrightarrow> record_at (pre @ write_document doc @ post) off doc"
  by (auto simp: record_at_def)

definition place_holds :: "wal_file option \<Rightarrow> u8 list \<Rightarrow> doc_location \<Rightarrow> stored_document \<Rightarrow> bool" where
  "place_holds file ext loc doc \<longleftrightarrow>
     external_id doc = ext \<and> loc_internal loc = internal_id doc \<and> unat (loc_len loc) = length (write_document doc) \<and>
     (\<exists>fl. file = Some fl \<and> record_at (wf_bytes fl) (loc_offset loc) doc)"

abbreviation holds_doc :: "store_disk \<Rightarrow> u8 list \<Rightarrow> doc_location \<Rightarrow> stored_document \<Rightarrow> bool" where
  "holds_doc k ext loc doc \<equiv> place_holds (get_file k (loc_segment loc)) ext loc doc"

lemma place_holds_unique: "place_holds file ext loc a \<Longrightarrow> place_holds file ext loc b \<Longrightarrow> a = b"
  by (auto simp: place_holds_def dest: record_at_unique)

lemma read_document_at: "holds_doc k ext loc doc \<Longrightarrow> read_document_at_path k (loc_segment loc) (loc_offset loc) = Inr doc"
  by (auto simp: place_holds_def read_document_at_path_def record_at_read)

text \<open>Files only grow while no segment is removed.\<close>

definition disk_grows :: "store_disk \<Rightarrow> store_disk \<Rightarrow> bool" where
  "disk_grows k k' \<longleftrightarrow> (\<forall>n fl. get_file k n = Some fl \<longrightarrow> (\<exists>fl'. get_file k' n = Some fl' \<and> prefix (wf_bytes fl) (wf_bytes fl')))"

lemma disk_grows_refl [simp]: "disk_grows k k"
  by (auto simp: disk_grows_def)

lemma disk_grows_trans: "disk_grows a b \<Longrightarrow> disk_grows b c \<Longrightarrow> disk_grows a c"
  unfolding disk_grows_def by (metis prefix_order.trans)

lemma holds_doc_grows: "holds_doc k ext loc doc \<Longrightarrow> disk_grows k k' \<Longrightarrow> holds_doc k' ext loc doc"
  unfolding place_holds_def disk_grows_def by (metis record_at_prefix)

lemma disk_grows_file: "disk_grows k k' \<Longrightarrow> get_file k n \<noteq> None \<Longrightarrow> get_file k' n \<noteq> None"
  by (auto simp: disk_grows_def)

section \<open>The store and the documents it holds\<close>

type_synonym documents = "u8 list \<rightharpoonup> stored_document"

definition store_inv :: "store_state \<Rightarrow> documents \<Rightarrow> bool" where
  "store_inv = (\<lambda>(s, k) M.
     omap_ok (st_docs s) \<and> omap_ok (st_locations s) \<and> omap_ok (sk_files k) \<and>
     (\<forall>ext. omap_get (st_locations s) ext = None \<longleftrightarrow> M ext = None) \<and>
     (\<forall>ext loc doc. omap_get (st_locations s) ext = Some loc \<longrightarrow> M ext = Some doc \<longrightarrow> holds_doc k ext loc doc) \<and>
     (\<forall>ext doc. omap_get (st_docs s) ext = Some doc \<longrightarrow> M ext = Some doc) \<and>
     st_current s < st_next s \<and> get_file k (st_current s) \<noteq> None \<and> (\<forall>n. get_file k n \<noteq> None \<longrightarrow> n < st_next s))"

lemma store_invD:
  assumes "store_inv (s, k) M"
  shows "omap_ok (st_docs s)" and "omap_ok (st_locations s)" and "omap_ok (sk_files k)"
    and "\<And>ext. omap_get (st_locations s) ext = None \<longleftrightarrow> M ext = None"
    and "\<And>ext loc doc. omap_get (st_locations s) ext = Some loc \<Longrightarrow> M ext = Some doc \<Longrightarrow> holds_doc k ext loc doc"
    and "\<And>ext doc. omap_get (st_docs s) ext = Some doc \<Longrightarrow> M ext = Some doc"
    and "st_current s < st_next s" and "get_file k (st_current s) \<noteq> None"
    and "\<And>n. get_file k n \<noteq> None \<Longrightarrow> n < st_next s"
  using assms by (auto simp: store_inv_def)

lemma store_inv_location:
  assumes "store_inv (s, k) M" and "omap_get (st_locations s) ext = Some loc"
  obtains doc where "M ext = Some doc" and "holds_doc k ext loc doc"
  using store_invD(4, 5) [OF assms(1)] assms(2) by (metis option.exhaust option.distinct(1))

text \<open>\<open>get\<close> returns what the store holds.\<close>

lemma filter_keys_get: "omap_get (filter (\<lambda>(e, _). P e) m) ext = (if P ext then omap_get m ext else None)"
  by (induction m) auto

lemma cache_insert_docs:
  "omap_ok (st_docs s) \<Longrightarrow> omap_ok (st_docs (cache_insert kept ext doc s))"
  "omap_ok (st_docs s) \<Longrightarrow> omap_get (st_docs (cache_insert kept ext doc s)) e =
    (if kept e then if e = ext then Some doc else omap_get (st_docs s) e else None)"
  by (simp_all add: cache_insert_def omap_ok_filter omap_ok_insert filter_keys_get omap_get_insert)

lemma cache_insert_rest [simp]:
  "st_locations (cache_insert kept ext doc s) = st_locations s" "st_current (cache_insert kept ext doc s) = st_current s"
  "st_next (cache_insert kept ext doc s) = st_next s" "st_internal (cache_insert kept ext doc s) = st_internal s"
  "st_path (cache_insert kept ext doc s) = st_path s"
  by (simp_all add: cache_insert_def)

lemma store_get_ok:
  assumes "store_inv (s, k) M"
  shows "\<exists>s'. store_get kept ext (s, k) = ((s', k), Inr (M ext)) \<and> store_inv (s', k) M \<and>
    st_locations s' = st_locations s \<and> st_current s' = st_current s \<and> st_next s' = st_next s"
proof (cases "omap_get (st_docs s) ext")
  case (Some doc)
  then show ?thesis using assms store_invD(6) [OF assms] by (auto simp: store_get_def)
next
  case miss: None
  show ?thesis
  proof (cases "omap_get (st_locations s) ext")
    case None
    then have "M ext = None" using store_invD(4) [OF assms] by blast
    then show ?thesis using assms miss None by (simp add: store_get_def)
  next
    case (Some loc)
    then obtain doc where d: "M ext = Some doc" "holds_doc k ext loc doc" by (rule store_inv_location [OF assms])
    have "store_inv (cache_insert kept ext doc s, k) M"
      using assms d(1) by (auto simp: store_inv_def cache_insert_docs split: if_splits)
    then show ?thesis using miss Some d read_document_at [OF d(2)] by (simp add: store_get_def)
  qed
qed

section \<open>Writes to the folder\<close>

text \<open>What appending to the current segment, with a rotation behind it, leaves as it was.\<close>

definition moved :: "store_state \<Rightarrow> store_state \<Rightarrow> bool" where
  "moved = (\<lambda>(s, k) (s', k').
     st_docs s' = st_docs s \<and> st_locations s' = st_locations s \<and> st_path s' = st_path s \<and>
     st_current s \<le> st_current s' \<and> st_next s \<le> st_next s' \<and> st_current s' < st_next s' \<and>
     get_file k' (st_current s') \<noteq> None \<and> omap_ok (sk_files k') \<and> disk_grows k k' \<and>
     (\<forall>n. get_file k' n \<noteq> None \<longrightarrow> get_file k n \<noteq> None \<or> (st_next s \<le> n \<and> n < st_next s')) \<and>
     (\<forall>name. store_segment_id name = None \<longrightarrow> omap_get (sk_files k') name = omap_get (sk_files k) name))"

lemma moved_inv: "store_inv (s, k) M \<Longrightarrow> moved (s, k) (s', k') \<Longrightarrow> store_inv (s', k') M"
proof -
  assume inv: "store_inv (s, k) M" and mv: "moved (s, k) (s', k')"
  note I = store_invD [OF inv]
  have "holds_doc k' ext loc doc" if "omap_get (st_locations s) ext = Some loc" "M ext = Some doc" for ext loc doc
    using holds_doc_grows [OF I(5) [OF that]] mv by (simp add: moved_def)
  moreover have "n < st_next s'" if "get_file k' n \<noteq> None" for n
    using that mv I(9) [of n] by (fastforce simp: moved_def)
  ultimately show ?thesis using inv mv by (simp add: store_inv_def moved_def)
qed

lemma moved_trans:
  assumes "moved (s, k) (s1, k1)" and "moved (s1, k1) (s2, k2)"
  shows "moved (s, k) (s2, k2)"
proof -
  have "get_file k n \<noteq> None \<or> (st_next s \<le> n \<and> n < st_next s2)" if n: "get_file k2 n \<noteq> None" for n
  proof (cases "get_file k1 n")
    case None
    then have "st_next s1 \<le> n" "n < st_next s2" using assms(2) n by (auto simp: moved_def)
    then show ?thesis using assms(1) by (auto simp: moved_def intro: order_trans)
  next
    case (Some fl)
    then have "get_file k n \<noteq> None \<or> (st_next s \<le> n \<and> n < st_next s1)" using assms(1) by (auto simp: moved_def)
    then show ?thesis using assms(2) by (auto simp: moved_def intro: order_less_le_trans)
  qed
  with assms show ?thesis unfolding moved_def by (simp add: disk_grows_trans [of k k1 k2] order_trans [of "st_current s" "st_current s1"]
    order_trans [of "st_next s" "st_next s1"])
qed

lemma other_file_put: "store_segment_id name = None \<Longrightarrow> omap_ok (sk_files k) \<Longrightarrow> omap_get (sk_files (put_file n fl k)) name = omap_get (sk_files k) name"
  by (auto simp: put_file_def omap_get_insert)

lemma append_moved:
  assumes "store_inv (s, k) M" and "get_file k (st_current s) = Some fl"
  shows "moved (s, k) (s, put_file (st_current s) (append_bytes data fl) k)"
  using store_invD(3, 7) [OF assms(1)] assms(2)
  by (auto simp: moved_def get_put_file put_file_ok disk_grows_def other_file_put)

lemma rotate_moved:
  assumes inv: "store_inv (s, k) M" and up: "st_next s < st_next s + 1" and r: "maybe_rotate_segment f (s, k) = (sk', r)"
  shows "moved (s, k) sk'"
proof -
  note I = store_invD [OF inv]
  have free: "get_file k (st_next s) = None" using I(9) by blast
  have lt: "st_current s < st_next s + 1" and le: "st_current s \<le> st_next s" using I(7) up by auto
  have "moved (s, k) (s\<lparr>st_next := st_next s + 1\<rparr>, k)" using I(3, 8) lt up by (auto simp: moved_def)
  moreover have "moved (s, k) (s\<lparr>st_next := st_next s + 1\<rparr>, put_file (st_next s) fl k)" for fl
    using I(3, 8) lt le up free by (auto simp: moved_def get_put_file put_file_ok disk_grows_def other_file_put split: if_splits)
  moreover have "moved (s, k) (s\<lparr>st_next := st_next s + 1, st_current := st_next s\<rparr>, put_file (st_next s) fl k)" for fl
    using I(3, 8) lt le up free by (auto simp: moved_def get_put_file put_file_ok disk_grows_def other_file_put split: if_splits)
  moreover have "moved (s, k) (s, k)" using I(3, 7, 8) by (auto simp: moved_def)
  ultimately show ?thesis
    using r by (auto simp: maybe_rotate_segment_def Let_def split: option.splits if_splits)
qed

section \<open>One operation\<close>

text \<open>A new location, with the document in the cache or not.\<close>

lemma store_inv_map:
  assumes "store_inv (s, k) M" and "holds_doc k (external_id doc) loc doc"
  shows "store_inv (cache_insert kept (external_id doc) doc (map_document doc loc s), k) (M(external_id doc \<mapsto> doc))"
  using assms
  by (auto simp: store_inv_def map_document_def cache_insert_docs omap_ok_insert omap_get_insert split: if_splits)

lemma store_inv_note: "store_inv (note_id n s, k) M \<longleftrightarrow> store_inv (s, k) M"
  by (simp add: store_inv_def note_id_def)

lemma note_id_simps [simp]: "st_locations (note_id n s) = st_locations s" "st_current (note_id n s) = st_current s" "st_next (note_id n s) = st_next s"
  by (simp_all add: note_id_def)

lemma map_document_simps [simp]:
  "st_locations (map_document doc loc s) = omap_insert (external_id doc) loc (st_locations s)"
  "st_current (map_document doc loc s) = st_current s" "st_next (map_document doc loc s) = st_next s"
  by (simp_all add: map_document_def)

text \<open>What a failed or finished append says about the folder.\<close>

lemma append_put_moved:
  assumes inv: "store_inv (s, k) M" and up: "st_next s < st_next s + 1" and fits: "doc_fits doc"
    and r: "append_put f doc (s, k) = (sk', r)"
  shows "moved (s, k) sk'" and "r = Inr loc \<Longrightarrow> loc_segment loc = st_current s \<and> holds_doc (snd sk') (external_id doc) loc doc"
proof -
  note I = store_invD [OF inv]
  obtain fl where fl: "get_file k (st_current s) = Some fl" using I(8) by blast
  let ?k = "\<lambda>data. put_file (st_current s) (append_bytes data fl) k"
  let ?rec = "write_u8 OP_PUT @ write_document doc"
  note ap = append_moved [OF inv fl]
  have inv': "store_inv (s, ?k data) M" for data by (rule moved_inv [OF inv ap])
  have refl: "moved (s, k) (s, k)" using I(3, 7, 8) by (auto simp: moved_def)
  obtain sk1 r1 where ro: "maybe_rotate_segment f (s, ?k ?rec) = (sk1, r1)" by fastforce
  obtain s1 k1 where sk1: "sk1 = (s1, k1)" by fastforce
  have mv: "moved (s, ?k ?rec) (s1, k1)" using rotate_moved [OF inv' up ro] by (simp add: sk1)
  have "moved (s, k) (s1, k1)" by (rule moved_trans [OF ap mv])
  then show "moved (s, k) sk'"
    using r ap [of "take n ?rec" for n] refl ro fl sk1
    by (auto simp: append_put_def Let_def split: option.splits sum.splits prod.splits)
  show "loc_segment loc = st_current s \<and> holds_doc (snd sk') (external_id doc) loc doc" if "r = Inr loc"
  proof -
    have loc: "sk' = (s1, k1)" "loc = \<lparr>loc_internal = internal_id doc, loc_offset = length (wf_bytes fl) + 1, loc_segment = st_current s,
      loc_len = of_nat (length (write_document doc))\<rparr>"
      using r that ro fl sk1 by (auto simp: append_put_def Let_def split: option.splits sum.splits prod.splits)
    have "record_at ((wf_bytes fl @ write_u8 OP_PUT) @ write_document doc @ []) (length (wf_bytes fl) + 1) doc"
      using fits by (intro record_at_append) auto
    then have "holds_doc (?k ?rec) (external_id doc) loc doc"
      using I(3) doc_fits_len [OF fits] by (auto simp: place_holds_def get_put_file loc(2) simp del: length_write_document)
    moreover have "disk_grows (?k ?rec) k1" using mv by (simp add: moved_def)
    ultimately have "holds_doc k1 (external_id doc) loc doc" by (rule holds_doc_grows)
    then show ?thesis using loc by simp
  qed
qed

lemma append_delete_moved:
  assumes inv: "store_inv (s, k) M" and up: "st_next s < st_next s + 1" and r: "store_append_delete f ext v (s, k) = (sk', r)"
  shows "moved (s, k) sk'"
proof -
  note I = store_invD [OF inv]
  obtain fl where fl: "get_file k (st_current s) = Some fl" using I(8) by blast
  let ?k = "\<lambda>data. put_file (st_current s) (append_bytes data fl) k"
  let ?rec = "write_u8 OP_DELETE @ write_string ext @ write_u64 v"
  note ap = append_moved [OF inv fl]
  have inv': "store_inv (s, ?k data) M" for data by (rule moved_inv [OF inv ap])
  have refl: "moved (s, k) (s, k)" using I(3, 7, 8) by (auto simp: moved_def)
  obtain s1 k1 r1 where ro: "maybe_rotate_segment f (s, ?k ?rec) = ((s1, k1), r1)" by (metis surj_pair)
  have "moved (s, k) (s1, k1)" using rotate_moved [OF inv' up ro] by (rule moved_trans [OF ap])
  then show ?thesis
    using r ap [of "take n ?rec" for n] refl ro fl
    by (auto simp: store_append_delete_def Let_def split: option.splits)
qed

text \<open>\<open>put\<close>: the document is there when it returns; when it fails, nothing has changed.\<close>

definition settled :: "store_state \<Rightarrow> store_state \<Rightarrow> bool" where
  "settled = (\<lambda>(s, k) (s', k').
     (\<exists>s1. moved (s, k) (s1, k') \<and> st_current s' = st_current s1 \<and> st_next s' = st_next s1) \<and>
     (\<forall>ext. omap_get (st_locations s') ext \<noteq> omap_get (st_locations s) ext \<longrightarrow>
       omap_get (st_locations s') ext = None \<or> (\<exists>loc. omap_get (st_locations s') ext = Some loc \<and> loc_segment loc = st_current s)))"

lemma settled_moved: "moved sk sk' \<Longrightarrow> settled sk sk'"
  by (cases sk; cases sk') (auto simp: settled_def moved_def)

lemma store_put_ok:
  assumes inv: "store_inv sk M" and up: "st_next (fst sk) < st_next (fst sk) + 1" and fits: "doc_fits doc"
    and r: "store_put f kept doc sk = (sk', r)"
  shows "settled sk sk'" and "store_inv sk' (if is_ok r then M(external_id doc \<mapsto> doc) else M)"
proof -
  obtain s k where sk: "sk = (s, k)" by fastforce
  obtain s1 k1 r1 where ap: "append_put f doc (s, k) = ((s1, k1), r1)" by (metis surj_pair)
  have mv: "moved (s, k) (s1, k1)" and h: "\<And>loc. r1 = Inr loc \<Longrightarrow> loc_segment loc = st_current s \<and> holds_doc k1 (external_id doc) loc doc"
    using append_put_moved [OF inv [unfolded sk] _ fits ap] up by (auto simp: sk)
  have inv1: "store_inv (s1, k1) M" by (rule moved_inv [OF inv [unfolded sk] mv])
  show "settled sk sk'"
  proof (cases r1)
    case (Inl e)
    then show ?thesis using r ap mv settled_moved [OF mv] by (simp add: store_put_def sk)
  next
    case (Inr loc)
    have ok: "omap_ok (st_locations s)" by (rule store_invD(2) [OF inv [unfolded sk]])
    have "st_locations s1 = st_locations s" using mv by (simp add: moved_def)
    with Inr show ?thesis using r ap mv h [OF Inr] ok
      by (auto simp: store_put_def sk settled_def omap_get_insert split: if_splits)
  qed
  show "store_inv sk' (if is_ok r then M(external_id doc \<mapsto> doc) else M)"
  proof (cases r1)
    case (Inr loc)
    then have "store_inv (cache_insert kept (external_id doc) doc (map_document doc loc (note_id (internal_id doc) s1)), k1) (M(external_id doc \<mapsto> doc))"
      using h inv1 by (intro store_inv_map) (auto simp: store_inv_note)
    with Inr show ?thesis using r ap by (auto simp: store_put_def sk)
  qed (use r ap inv1 in \<open>auto simp: store_put_def sk\<close>)
qed

lemma cache_invalidate_simps [simp]:
  "st_locations (cache_invalidate ext s) = st_locations s" "st_current (cache_invalidate ext s) = st_current s"
  "st_next (cache_invalidate ext s) = st_next s" "st_docs (cache_invalidate ext s) = omap_remove ext (st_docs s)"
  by (simp_all add: cache_invalidate_def)

lemma store_delete_ok:
  assumes inv: "store_inv sk M" and up: "st_next (fst sk) < st_next (fst sk) + 1" and r: "store_delete f ext sk = (sk', r)"
  shows "settled sk sk'" and "store_inv sk' (if is_ok r then M(ext := None) else M)"
proof -
  obtain s k where sk: "sk = (s, k)" by fastforce
  note I = store_invD [OF inv [unfolded sk]]
  have "settled sk sk' \<and> store_inv sk' (if is_ok r then M(ext := None) else M)"
  proof (cases "omap_get (st_locations s) ext")
    case None
    then have "M ext = None" using I(4) by blast
    then have "M(ext := None) = M" by auto
    moreover have "moved (s, k) (s, k)" using I(3, 7, 8) by (auto simp: moved_def)
    ultimately show ?thesis using r None inv settled_moved by (auto simp: store_delete_def sk)
  next
    case (Some loc)
    obtain s1 k1 r1 where ap: "store_append_delete f ext (loc_internal loc) (s, k) = ((s1, k1), r1)" by (metis surj_pair)
    have mv: "moved (s, k) (s1, k1)" using append_delete_moved [OF inv [unfolded sk] _ ap] up by (simp add: sk)
    have inv1: "store_inv (s1, k1) M" by (rule moved_inv [OF inv [unfolded sk] mv])
    have same: "st_locations s1 = st_locations s" using mv by (simp add: moved_def)
    show ?thesis
    proof (cases r1)
      case (Inl e)
      then show ?thesis using r ap inv1 settled_moved [OF mv] Some by (auto simp: store_delete_def sk)
    next
      case (Inr u)
      let ?s = "cache_invalidate ext (s1\<lparr>st_locations := omap_remove ext (st_locations s1), st_internal := omap_remove (loc_internal loc) (st_internal s1)\<rparr>)"
      have "store_inv (?s, k1) (M(ext := None))"
        using inv1 by (auto simp: store_inv_def omap_ok_remove omap_get_remove)
      moreover have "settled (s, k) (?s, k1)" using mv same I(2) by (auto simp: settled_def omap_get_remove split: if_splits)
      ultimately show ?thesis using r ap Inr Some same by (auto simp: store_delete_def sk)
    qed
  qed
  then show "settled sk sk'" and "store_inv sk' (if is_ok r then M(ext := None) else M)" by auto
qed

section \<open>Batches and syncs\<close>

definition add_documents :: "stored_document list \<Rightarrow> documents \<Rightarrow> documents" where
  "add_documents ds M = fold (\<lambda>doc M. M(external_id doc \<mapsto> doc)) ds M"

definition batch_bytes :: "stored_document list \<Rightarrow> u8 list" where
  "batch_bytes ds = concat (map (\<lambda>doc. write_u8 OP_PUT @ write_document doc) ds)"

lemma batch_loop_ok:
  assumes "\<forall>i. f (BatchWrite i) = None" and "\<forall>doc \<in> set ds. doc_fits doc" and "length base = start"
  shows "\<exists>s'. batch_loop f kept n i ds start data s = (s', data @ batch_bytes ds, Inr ()) \<and>
    st_current s' = st_current s \<and> st_next s' = st_next s \<and>
    (\<forall>M k. store_inv (s, k) M \<longrightarrow> get_file k n = Some fl \<longrightarrow> prefix (base @ data @ batch_bytes ds) (wf_bytes fl) \<longrightarrow>
      store_inv (s', k) (add_documents ds M) \<and>
      (\<forall>ext. omap_get (st_locations s') ext = omap_get (st_locations s) ext \<or>
        (\<exists>loc. omap_get (st_locations s') ext = Some loc \<and> loc_segment loc = n)))"
  using assms(2)
proof (induction ds arbitrary: i data s)
  case Nil
  then show ?case by (simp add: batch_bytes_def add_documents_def)
next
  case (Cons doc ds)
  let ?loc = "\<lparr>loc_internal = internal_id doc, loc_offset = start + length data + 1, loc_segment = n, loc_len = of_nat (length (write_document doc))\<rparr>"
  let ?s = "cache_insert kept (external_id doc) doc (map_document doc ?loc s)"
  let ?data = "data @ write_u8 OP_PUT @ write_document doc"
  have bytes: "data @ batch_bytes (doc # ds) = ?data @ batch_bytes ds" by (simp add: batch_bytes_def)
  have fits: "doc_fits doc" using Cons.prems by simp
  obtain s' where s': "batch_loop f kept n (i + 1) ds start ?data ?s = (s', ?data @ batch_bytes ds, Inr ())"
      "st_current s' = st_current ?s" "st_next s' = st_next ?s"
    and keep: "\<And>M k. store_inv (?s, k) M \<Longrightarrow> get_file k n = Some fl \<Longrightarrow> prefix (base @ ?data @ batch_bytes ds) (wf_bytes fl) \<Longrightarrow>
      store_inv (s', k) (add_documents ds M) \<and>
      (\<forall>ext. omap_get (st_locations s') ext = omap_get (st_locations ?s) ext \<or>
        (\<exists>loc. omap_get (st_locations s') ext = Some loc \<and> loc_segment loc = n))"
    using Cons.IH [of "i + 1" ?data ?s] Cons.prems by auto
  have "store_inv (s', k) (add_documents (doc # ds) M) \<and>
      (\<forall>ext. omap_get (st_locations s') ext = omap_get (st_locations s) ext \<or>
        (\<exists>loc. omap_get (st_locations s') ext = Some loc \<and> loc_segment loc = n))"
    if inv: "store_inv (s, k) M" and fl: "get_file k n = Some fl" and pre: "prefix (base @ data @ batch_bytes (doc # ds)) (wf_bytes fl)" for M k
  proof -
    have "record_at ((base @ data @ write_u8 OP_PUT) @ write_document doc @ batch_bytes ds) (start + length data + 1) doc"
      using fits assms(3) by (intro record_at_append) auto
    then have "record_at (wf_bytes fl) (start + length data + 1) doc" using pre by (auto simp: batch_bytes_def intro: record_at_prefix)
    then have "holds_doc k (external_id doc) ?loc doc"
      using fl doc_fits_len [OF fits] by (auto simp: place_holds_def simp del: length_write_document)
    then have "store_inv (?s, k) (M(external_id doc \<mapsto> doc))" by (rule store_inv_map [OF inv])
    moreover have "prefix (base @ ?data @ batch_bytes ds) (wf_bytes fl)" using pre by (simp add: batch_bytes_def)
    ultimately have k: "store_inv (s', k) (add_documents ds (M(external_id doc \<mapsto> doc)))"
      "\<And>ext. omap_get (st_locations s') ext = omap_get (st_locations ?s) ext \<or> (\<exists>loc. omap_get (st_locations s') ext = Some loc \<and> loc_segment loc = n)"
      using keep fl by blast+
    have "omap_get (st_locations ?s) ext = (if ext = external_id doc then Some ?loc else omap_get (st_locations s) ext)" for ext
      using store_invD(2) [OF inv] by (simp add: omap_get_insert)
    then have "omap_get (st_locations s') ext = omap_get (st_locations s) ext \<or> (\<exists>loc. omap_get (st_locations s') ext = Some loc \<and> loc_segment loc = n)" for ext
      using k(2) [of ext] by (cases "ext = external_id doc") auto
    then show ?thesis using k(1) by (auto simp: add_documents_def)
  qed
  then show ?case using s' assms(1) by (simp add: Let_def bytes)
qed

lemma moved_rebase:
  "moved (s, k) (s1, k1) \<Longrightarrow> st_current s = st_current s0 \<Longrightarrow> st_next s = st_next s0 \<Longrightarrow>
    moved (s0, k) (s0\<lparr>st_current := st_current s1, st_next := st_next s1\<rparr>, k1)"
  by (simp add: moved_def)

lemma moved_refl: "store_inv (s, k) M \<Longrightarrow> moved (s, k) (s, k)"
  using store_invD(3, 7, 8) by (auto simp: moved_def)

lemma put_batch_ok:
  assumes inv: "store_inv sk M" and up: "st_next (fst sk) < st_next (fst sk) + 1" and fits: "\<forall>doc \<in> set ds. doc_fits doc"
    and writes: "\<forall>i. f (BatchWrite i) = None" "f AppendWrite = None" and r: "put_batch f kept ds sk = (sk', r)"
  shows "settled sk sk'" and "store_inv sk' (if f AppendOpen = None then add_documents ds M else M)" and "is_ok r \<Longrightarrow> f AppendOpen = None"
proof -
  obtain s k where sk: "sk = (s, k)" by fastforce
  note I = store_invD [OF inv [unfolded sk]]
  obtain fl where fl: "get_file k (st_current s) = Some fl" using I(8) by blast
  let ?k = "put_file (st_current s) (append_bytes (batch_bytes ds) fl) k"
  have ap: "moved (s, k) (s, ?k)" by (rule append_moved [OF inv [unfolded sk] fl])
  have inv1: "store_inv (s, ?k) M" by (rule moved_inv [OF inv [unfolded sk] ap])
  have got: "get_file ?k (st_current s) = Some (append_bytes (batch_bytes ds) fl)" using I(3) by (simp add: get_put_file)
  obtain s1 where s1: "batch_loop f kept (st_current s) 0 ds (length (wf_bytes fl)) [] s = (s1, batch_bytes ds, Inr ())"
      "st_current s1 = st_current s" "st_next s1 = st_next s"
    and inv2: "store_inv (s1, ?k) (add_documents ds M)"
    and locs: "\<And>ext. omap_get (st_locations s1) ext = omap_get (st_locations s) ext \<or>
        (\<exists>loc. omap_get (st_locations s1) ext = Some loc \<and> loc_segment loc = st_current s)"
    using batch_loop_ok [OF writes(1) fits refl, of kept "st_current s" 0 "wf_bytes fl" "[]" s] inv1 got by fastforce
  obtain s2 k2 r2 where ro: "maybe_rotate_segment f (s1, ?k) = ((s2, k2), r2)" by (metis surj_pair)
  have mv: "moved (s1, ?k) (s2, k2)" using rotate_moved [OF inv2 _ ro] up s1(3) by (simp add: sk)
  have mv2: "moved (s, k) (s\<lparr>st_current := st_current s2, st_next := st_next s2\<rparr>, k2)"
    by (rule moved_trans [OF ap moved_rebase [OF mv s1(2, 3)]])
  have "st_locations s2 = st_locations s1" using mv by (simp add: moved_def)
  then have "settled (s, k) (s2, k2)" using mv2 locs unfolding settled_def by (fastforce simp del: not_None_eq)
  moreover have "store_inv (s2, k2) (add_documents ds M)" by (rule moved_inv [OF inv2 mv])
  ultimately show "settled sk sk'" and "store_inv sk' (if f AppendOpen = None then add_documents ds M else M)"
    using r s1(1) ro fl writes(2) inv settled_moved [OF moved_refl [OF inv [unfolded sk]]]
    by (auto simp: put_batch_def sk Let_def split: option.splits)
  show "f AppendOpen = None" if "is_ok r"
    using that r by (cases "f AppendOpen") (auto simp: put_batch_def sk)
qed

text \<open>A batch whose writes go through behaves as if no write could fail.\<close>

definition writes_pass :: "store_faults \<Rightarrow> store_faults" where
  "writes_pass f c = (case c of BatchWrite _ \<Rightarrow> None | AppendWrite \<Rightarrow> None | _ \<Rightarrow> f c)"

definition batch_torn :: "store_faults \<Rightarrow> stored_document list \<Rightarrow> bool" where
  "batch_torn f ds \<longleftrightarrow> f AppendWrite \<noteq> None \<or> (\<exists>i < length ds. f (BatchWrite i) \<noteq> None)"

lemma batch_loop_passed:
  "\<forall>j < length ds. f (BatchWrite (i + j)) = None \<Longrightarrow> batch_loop (writes_pass f) kept n i ds start data s = batch_loop f kept n i ds start data s"
proof (induction ds arbitrary: i data s)
  case (Cons doc ds)
  have "f (BatchWrite i) = None" using Cons.prems by force
  moreover have "\<forall>j < length ds. f (BatchWrite (i + 1 + j)) = None" using Cons.prems by force
  ultimately show ?case using Cons.IH [of "i + 1"] by (simp add: writes_pass_def Let_def)
qed simp

lemma batch_loop_fails:
  "j < length ds \<Longrightarrow> f (BatchWrite (i + j)) \<noteq> None \<Longrightarrow> \<not> is_ok (snd (snd (batch_loop f kept n i ds start data s)))"
proof (induction ds arbitrary: i j data s)
  case (Cons doc ds)
  show ?case
  proof (cases "f (BatchWrite i)")
    case None
    then obtain j' where "j = Suc j'" using Cons.prems by (cases j) auto
    then show ?thesis using Cons.IH [of j' "i + 1"] Cons.prems None by (simp add: Let_def)
  qed (auto simp: Let_def)
qed simp

lemma writes_pass_simps [simp]:
  "writes_pass f AppendOpen = f AppendOpen" "writes_pass f AppendWrite = None" "writes_pass f (BatchWrite i) = None"
  "writes_pass f RotateCreate = f RotateCreate" "writes_pass f RotateWrite = f RotateWrite"
  by (simp_all add: writes_pass_def)

lemma rotate_passed: "maybe_rotate_segment (writes_pass f) sk = maybe_rotate_segment f sk"
  unfolding maybe_rotate_segment_def writes_pass_simps ..

lemma put_batch_passed:
  assumes "\<not> batch_torn f ds"
  shows "put_batch (writes_pass f) kept ds sk = put_batch f kept ds sk"
proof -
  have f: "f AppendWrite = None" "\<And>kept n start s. batch_loop (writes_pass f) kept n 0 ds start [] s = batch_loop f kept n 0 ds start [] s"
    using assms batch_loop_passed [of ds f 0] by (simp_all add: batch_torn_def del: not_None_eq)
  show ?thesis unfolding put_batch_def writes_pass_simps rotate_passed f ..
qed

lemma put_batch_torn:
  assumes "batch_torn f ds" and "put_batch f kept ds sk = (sk', r)"
  shows "\<not> is_ok r"
proof (cases "f AppendOpen")
  case None
  obtain s k where sk: "sk = (s, k)" by fastforce
  let ?n = "st_current s" let ?fl = "case get_file k ?n of Some fl \<Rightarrow> fl | None \<Rightarrow> file_new"
  obtain s1 data r1 where l: "batch_loop f kept ?n 0 ds (length (wf_bytes ?fl)) [] s = (s1, data, r1)" by (metis surj_pair)
  have "\<not> is_ok r1 \<or> f AppendWrite \<noteq> None"
    using assms(1) batch_loop_fails [of _ ds f 0 kept ?n "length (wf_bytes ?fl)" "[]" s] l by (auto simp: batch_torn_def simp del: not_None_eq)
  then show ?thesis using assms(2) None l by (cases r1) (auto simp: put_batch_def sk Let_def split: option.splits)
qed (use assms(2) in \<open>auto simp: put_batch_def split: prod.splits\<close>)

text \<open>Syncing changes no byte.\<close>

definition same_bytes :: "store_disk \<Rightarrow> store_disk \<Rightarrow> bool" where
  "same_bytes k k' \<longleftrightarrow> omap_ok (sk_files k') \<and>
     (\<forall>n. map_option wf_bytes (get_file k' n) = map_option wf_bytes (get_file k n)) \<and>
     (\<forall>name. store_segment_id name = None \<longrightarrow> omap_get (sk_files k') name = omap_get (sk_files k) name)"

lemma sync_files_bytes: "omap_ok (sk_files k) \<Longrightarrow> same_bytes k (fst (sync_files f root ids k))"
proof (induction f root ids k rule: sync_files.induct)
  case (2 f root n ids k)
  have "same_bytes k (fst (sync_files f root ids (put_file n (sync_file fl) k)))" if "get_file k n = Some fl" "f (DataSync n) = None" for fl
    using "2.IH"(2) [OF that(1, 2)] "2.prems" that(1)
    by (auto simp: same_bytes_def put_file_ok get_put_file other_file_put split: if_splits)
  then show ?case using 2 by (auto simp: same_bytes_def split: option.splits)
qed (simp add: same_bytes_def)

lemma same_bytes_moved:
  assumes "store_inv (s, k) M" and "same_bytes k k'" and "st_docs s' = st_docs s" "st_locations s' = st_locations s"
    "st_path s' = st_path s" "st_current s' = st_current s" "st_next s' = st_next s"
  shows "moved (s, k) (s', k')"
proof -
  have files: "get_file k' n = None \<longleftrightarrow> get_file k n = None" for n using assms(2) by (metis option.map_disc_iff same_bytes_def)
  have "disk_grows k k'" unfolding disk_grows_def
  proof (intro allI impI)
    fix n fl
    assume "get_file k n = Some fl"
    then have "map_option wf_bytes (get_file k' n) = Some (wf_bytes fl)" using assms(2) by (simp add: same_bytes_def)
    then show "\<exists>fl'. get_file k' n = Some fl' \<and> prefix (wf_bytes fl) (wf_bytes fl')" by auto
  qed
  with files store_invD(7, 8) [OF assms(1)] assms(2-) show ?thesis by (simp add: moved_def same_bytes_def del: not_None_eq)
qed

lemma store_sync_ok:
  assumes inv: "store_inv sk M" and r: "store_sync f sk = (sk', r)"
  shows "settled sk sk'" and "store_inv sk' M"
proof -
  obtain s k where sk: "sk = (s, k)" by fastforce
  obtain k1 r1 where sy: "sync_files f (st_path s) (map of_nat [unat (st_unsynced s)..<Suc (unat (st_current s))]) k = (k1, r1)" by fastforce
  then have "same_bytes k k1" using sync_files_bytes [OF store_invD(3) [OF inv [unfolded sk]]] by (metis fst_conv)
  then have "moved (s, k) (s, k1)" "moved (s, k) (s\<lparr>st_unsynced := st_current s\<rparr>, k1)"
    by (auto intro!: same_bytes_moved [OF inv [unfolded sk]])
  then have "moved (s, k) sk'"
    using r sy by (auto simp: store_sync_def sk simp del: upt_Suc split: option.splits sum.splits if_splits)
  then show "settled sk sk'" and "store_inv sk' M"
    using settled_moved moved_inv [OF inv [unfolded sk]] by (cases sk'; auto simp: sk)+
qed

section \<open>Compaction\<close>

text \<open>A planned merge: its segments are closed, their records stay where they are, and every document that is still
  in one of them was there when the merge was planned.\<close>

definition job_planned :: "store_state \<Rightarrow> segment_job \<Rightarrow> bool" where
  "job_planned = (\<lambda>(s, k) job.
     (\<forall>n \<in> set (sj_ids job). n < st_current s) \<and> sj_next job \<notin> set (sj_ids job) \<and> sj_next job < st_next s \<and> get_file k (sj_next job) = None \<and>
     distinct (map fst (sj_snapshot job)) \<and>
     (\<forall>(ext, loc) \<in> set (sj_snapshot job). \<exists>doc. holds_doc k ext loc doc) \<and>
     (\<forall>ext loc. omap_get (st_locations s) ext = Some loc \<longrightarrow> loc_segment loc \<in> set (sj_ids job) \<longrightarrow> (ext, loc) \<in> set (sj_snapshot job)))"

text \<open>A finished merge: the temporary file holds the same documents at the new places.\<close>

definition job_done :: "store_state \<Rightarrow> completed_job \<Rightarrow> bool" where
  "job_done = (\<lambda>(s, k) job.
     (\<forall>n \<in> set (cj_old job). n < st_current s) \<and> cj_new job \<notin> set (cj_old job) \<and> cj_new job < st_next s \<and> get_file k (cj_new job) = None \<and>
     store_segment_id (cj_tmp job) = None \<and> distinct (map fst (cj_locations job)) \<and>
     (\<forall>ext loc doc. omap_get (st_locations s) ext = Some loc \<longrightarrow> loc_segment loc \<in> set (cj_old job) \<longrightarrow> holds_doc k ext loc doc \<longrightarrow>
       (\<exists>new_loc. map_of (cj_locations job) ext = Some new_loc \<and> loc_segment new_loc = cj_new job \<and>
         place_holds (omap_get (sk_files k) (cj_tmp job)) ext new_loc doc)))"

lemma settledD:
  assumes "settled (s, k) (s', k')"
  shows "st_current s \<le> st_current s'" and "st_next s \<le> st_next s'" and "disk_grows k k'"
    and "\<And>n. n < st_next s \<Longrightarrow> get_file k n = None \<Longrightarrow> get_file k' n = None"
    and "\<And>name. store_segment_id name = None \<Longrightarrow> omap_get (sk_files k') name = omap_get (sk_files k) name"
    and "\<And>ext loc. omap_get (st_locations s') ext = Some loc \<Longrightarrow> loc_segment loc \<noteq> st_current s \<Longrightarrow> omap_get (st_locations s) ext = Some loc"
proof -
  obtain s1 where s1: "moved (s, k) (s1, k')" "st_current s' = st_current s1" "st_next s' = st_next s1"
    using assms by (auto simp: settled_def)
  then show "st_current s \<le> st_current s'" "st_next s \<le> st_next s'" "disk_grows k k'"
    "\<And>name. store_segment_id name = None \<Longrightarrow> omap_get (sk_files k') name = omap_get (sk_files k) name"
    by (auto simp: moved_def)
  show "get_file k' n = None" if "n < st_next s" "get_file k n = None" for n
    using s1(1) that by (simp add: moved_def del: not_None_eq) (meson not_le)
  show "omap_get (st_locations s) ext = Some loc" if "omap_get (st_locations s') ext = Some loc" "loc_segment loc \<noteq> st_current s" for ext loc
  proof (rule ccontr)
    assume "omap_get (st_locations s) ext \<noteq> Some loc"
    then have "omap_get (st_locations s') ext \<noteq> omap_get (st_locations s) ext" using that(1) by simp
    moreover have "\<forall>e. omap_get (st_locations s') e \<noteq> omap_get (st_locations s) e \<longrightarrow>
      omap_get (st_locations s') e = None \<or> (\<exists>l. omap_get (st_locations s') e = Some l \<and> loc_segment l = st_current s)"
      using assms by (simp add: settled_def)
    ultimately show False using that by fastforce
  qed
qed

lemma settled_planned:
  assumes "job_planned (s, k) job" and "settled (s, k) (s', k')"
  shows "job_planned (s', k') job"
proof -
  note S = settledD [OF assms(2)]
  have "(ext, loc) \<in> set (sj_snapshot job)" if "omap_get (st_locations s') ext = Some loc" "loc_segment loc \<in> set (sj_ids job)" for ext loc
    using S(6) [OF that(1)] assms(1) that(2) by (fastforce simp: job_planned_def)
  with assms(1) S(1-4) show ?thesis
    by (fastforce simp: job_planned_def intro: order_less_le_trans holds_doc_grows)
qed

lemma settled_done:
  assumes "job_done (s, k) job" and "settled (s, k) (s', k')" and inv: "store_inv (s, k) M"
  shows "job_done (s', k') job"
proof -
  note S = settledD [OF assms(2)]
  have "\<exists>new_loc. map_of (cj_locations job) ext = Some new_loc \<and> loc_segment new_loc = cj_new job \<and>
      place_holds (omap_get (sk_files k') (cj_tmp job)) ext new_loc doc"
    if loc: "omap_get (st_locations s') ext = Some loc" and seg: "loc_segment loc \<in> set (cj_old job)" and h: "holds_doc k' ext loc doc" for ext loc doc
  proof -
    have old: "omap_get (st_locations s) ext = Some loc" using S(6) [OF loc] assms(1) seg by (fastforce simp: job_done_def)
    then obtain d where "holds_doc k ext loc d" by (rule store_inv_location [OF inv])
    moreover from holds_doc_grows [OF this S(3)] h have "d = doc" by (rule place_holds_unique)
    ultimately show ?thesis using assms(1) old seg S(5) [of "cj_tmp job"] by (auto simp: job_done_def)
  qed
  with assms(1) S(1, 2, 4, 5) show ?thesis by (fastforce simp: job_done_def intro: order_less_le_trans)
qed

text \<open>Planning.\<close>

lemma selected_candidates: "set (select_segments target running selected cands) \<subseteq> set selected \<union> fst ` set cands"
  by (induction target running selected cands rule: select_segments.induct) auto

lemma dead_candidate_old: "dead_candidate ra threshold s k n = Some (m, live) \<Longrightarrow> m = n \<and> n < st_current s"
  by (simp add: dead_candidate_def Let_def not_le split: if_splits option.splits)

lemma plan_ok:
  assumes inv: "store_inv (s, k) M" and up: "st_next s < st_next s + 1" and r: "plan_segment_compaction ra threshold target (s, k) = (sk', job)"
  shows "settled (s, k) sk'" and "store_inv sk' M" and "job = Some j \<Longrightarrow> job_planned sk' j"
proof -
  note I = store_invD [OF inv]
  let ?cands = "List.map_filter (dead_candidate ra threshold s k) (list_segment_ids (sk_files k))"
  let ?ids = "select_segments target 0 [] (sort_key snd ?cands)"
  let ?s = "s\<lparr>st_next := st_next s + 1\<rparr>"
  have lt: "st_current s < st_next s + 1" "st_current s \<le> st_next s" using I(7) up by auto
  have mv: "moved (s, k) (?s, k)" using I(3, 8) lt up by (auto simp: moved_def)
  have "sk' = (s, k) \<or> sk' = (?s, k)" using r by (auto simp: plan_segment_compaction_def Let_def split: if_splits)
  then have "moved (s, k) sk'" using mv moved_refl [OF inv] by auto
  then show "settled (s, k) sk'" "store_inv sk' M" using settled_moved moved_inv [OF inv] by (cases sk'; auto)+
  have old: "n < st_current s" if "n \<in> set ?ids" for n
  proof -
    have "n \<in> fst ` set ?cands" using that selected_candidates [of target 0 "[]" "sort_key snd ?cands"] by auto
    then obtain m live where "dead_candidate ra threshold s k m = Some (n, live)" by (auto simp: List.map_filter_def)
    then show ?thesis by (auto dest: dead_candidate_old)
  qed
  show "job_planned sk' j" if "job = Some j"
  proof -
    let ?entries = "sort_key (\<lambda>(_, loc). (loc_segment loc, loc_offset loc)) (filter (\<lambda>(_, loc). loc_segment loc \<in> set ?ids) (st_locations s))"
    have ne: "?cands \<noteq> []" using r that by (cases "?cands = []") (simp_all add: plan_segment_compaction_def)
    then have "plan_segment_compaction ra threshold target (s, k) =
        ((?s, k), Some \<lparr>sj_ids = ?ids, sj_next = st_next s, sj_dir = st_path s, sj_snapshot = ?entries\<rparr>)"
      by (simp add: plan_segment_compaction_def Let_def)
    with r that have j: "sk' = (?s, k)" "sj_ids j = ?ids" "sj_next j = st_next s" "sj_snapshot j = ?entries" by auto
    have "distinct (map fst ?entries) \<longleftrightarrow> distinct (map fst (filter (\<lambda>(_, loc). loc_segment loc \<in> set ?ids) (st_locations s)))"
      by (rule mset_eq_imp_distinct_iff) simp
    then have "distinct (map fst ?entries)" using omap_distinct [OF omap_ok_filter [OF I(2)]] by blast
    moreover have "\<exists>doc. holds_doc k ext loc doc" if "(ext, loc) \<in> set (st_locations s)" for ext loc
    proof -
      have "omap_get (st_locations s) ext = Some loc" using that omap_get_iff [OF I(2)] by blast
      then show ?thesis by (rule store_inv_location [OF inv]) blast
    qed
    moreover have "get_file k (st_next s) = None" using I(9) by blast
    moreover have "st_next s \<notin> set ?ids" using old [of "st_next s"] lt(2) by auto
    ultimately show ?thesis using old up omap_get_iff [OF I(2)] by (auto simp: job_planned_def j)
  qed
qed

text \<open>Copying the records.\<close>

lemma record_at_take:
  assumes "record_at bs off doc"
  shows "read_exact (length (write_document doc)) \<lparr>bytes = bs, offset = off\<rparr> =
    Inr (write_document doc, \<lparr>bytes = bs, offset = off + length (write_document doc)\<rparr>)"
  using assms by (auto simp: record_at_def read_exact_def simp del: length_write_document)

lemma belongs_document: "doc_fits doc \<Longrightarrow> belongs_to (write_document doc) (external_id doc)"
  by (auto simp: belongs_to_def write_document_def write_string_def write_u32_def doc_fits_def unsigned_of_nat take_bit_nat_eq_self)

lemma copy_records_ok:
  assumes "\<forall>(ext, loc) \<in> set entries. \<exists>doc. holds_doc k ext loc doc"
  shows "\<exists>data' new. copy_records k root n entries data locs = (data', Inr (locs @ new)) \<and> prefix data data' \<and> map fst new = map fst entries \<and>
    (\<forall>ext loc doc. (ext, loc) \<in> set entries \<longrightarrow> holds_doc k ext loc doc \<longrightarrow>
      (\<exists>new_loc. (ext, new_loc) \<in> set new \<and> loc_segment new_loc = n \<and> place_holds (Some (append_bytes data' file_new)) ext new_loc doc))"
  using assms
proof (induction entries arbitrary: data locs)
  case Nil
  then show ?case by simp
next
  case (Cons e entries)
  obtain ext loc where e: "e = (ext, loc)" by fastforce
  with Cons.prems obtain doc where h: "holds_doc k ext loc doc" by auto
  then obtain fl where fl: "get_file k (loc_segment loc) = Some fl" "record_at (wf_bytes fl) (loc_offset loc) doc" by (auto simp: place_holds_def)
  have fits: "doc_fits doc" using fl(2) by (simp add: record_at_def)
  have ext: "external_id doc = ext" and len: "unat (loc_len loc) = length (write_document doc)" and int: "loc_internal loc = internal_id doc"
    using h by (auto simp: place_holds_def)
  let ?data = "data @ write_u8 OP_PUT @ write_document doc" and ?loc = "loc\<lparr>loc_offset := length data + 1, loc_segment := n\<rparr>"
  obtain data' new where IH: "copy_records k root n entries ?data (locs @ [(ext, ?loc)]) = (data', Inr ((locs @ [(ext, ?loc)]) @ new))"
      "prefix ?data data'" "map fst new = map fst entries"
    and more: "\<forall>ext loc doc. (ext, loc) \<in> set entries \<longrightarrow> holds_doc k ext loc doc \<longrightarrow>
      (\<exists>new_loc. (ext, new_loc) \<in> set new \<and> loc_segment new_loc = n \<and> place_holds (Some (append_bytes data' file_new)) ext new_loc doc)"
    using Cons.IH [of ?data "locs @ [(ext, ?loc)]"] Cons.prems by auto
  have step: "copy_records k root n (e # entries) data locs = (data', Inr (locs @ (ext, ?loc) # new))"
    using IH(1) fl(1) record_at_take [OF fl(2)] belongs_document [OF fits] len by (simp add: e ext del: length_write_document)
  have "record_at ((data @ write_u8 OP_PUT) @ write_document doc @ []) (length data + 1) doc" using fits by (intro record_at_append) auto
  then have "record_at data' (length data + 1) doc" using IH(2) by (auto intro: record_at_prefix)
  then have here: "place_holds (Some (append_bytes data' file_new)) ext ?loc doc" using ext len int by (simp add: place_holds_def del: length_write_document)
  have "d = doc" if "holds_doc k ext loc d" for d using place_holds_unique [OF that h] .
  then have "\<forall>x l d. (x, l) \<in> set (e # entries) \<longrightarrow> holds_doc k x l d \<longrightarrow>
      (\<exists>new_loc. (x, new_loc) \<in> set ((ext, ?loc) # new) \<and> loc_segment new_loc = n \<and> place_holds (Some (append_bytes data' file_new)) x new_loc d)"
    using more here by (fastforce simp: e)
  moreover have "prefix data data'" using IH(2) by (auto simp: prefix_def)
  ultimately show ?case using step IH(3) by (intro exI [of _ data'] exI [of _ "(ext, ?loc) # new"]) (simp add: e)
qed

text \<open>The merge itself writes the temporary file only.\<close>

lemma tmp_file: "omap_ok (sk_files k) \<Longrightarrow> store_segment_id tmp = None \<Longrightarrow> get_file (k\<lparr>sk_files := omap_insert tmp fl (sk_files k)\<rparr>) n = get_file k n"
  by (auto simp: get_file_def omap_get_insert)

lemma store_inv_files:
  assumes "store_inv (s, k) M" and "omap_ok (sk_files k')" and "\<And>n. get_file k' n = get_file k n"
  shows "store_inv (s, k') M"
  using assms by (simp add: store_inv_def)

lemma run_ok:
  assumes inv: "store_inv (s, k) M" and job: "job_planned (s, k) job" and r: "run_segment_compaction f job k = (k', r)"
  shows "store_inv (s, k') M" and "r = Inr fin \<Longrightarrow> job_done (s, k') fin"
proof -
  note I = store_invD [OF inv]
  let ?tmp = "segment_filename (sj_next job) @ ''.tmp''"
  let ?k = "\<lambda>fl. k\<lparr>sk_files := omap_insert ?tmp fl (sk_files k)\<rparr>"
  have files: "get_file (?k fl) n = get_file k n" for fl n by (rule tmp_file [OF I(3)]) simp
  have inv': "store_inv (s, ?k fl) M" for fl by (rule store_inv_files [OF inv]) (simp_all add: files omap_ok_insert I(3))
  have "k' = k \<or> (\<exists>fl. k' = ?k fl)"
    using r by (auto simp: run_segment_compaction_def Let_def split: option.splits sum.splits prod.splits)
  then show "store_inv (s, k') M" using inv inv' by auto
  have snap: "\<forall>(ext, loc) \<in> set (sj_snapshot job). \<exists>doc. holds_doc k ext loc doc" using job by (simp add: job_planned_def)
  obtain data new where cp: "copy_records k (sj_dir job) (sj_next job) (sj_snapshot job) COMPACTED_MAGIC [] = (data, Inr new)"
      "map fst new = map fst (sj_snapshot job)"
    and at: "\<And>ext loc doc. (ext, loc) \<in> set (sj_snapshot job) \<Longrightarrow> holds_doc k ext loc doc \<Longrightarrow>
      \<exists>new_loc. (ext, new_loc) \<in> set new \<and> loc_segment new_loc = sj_next job \<and> place_holds (Some (append_bytes data file_new)) ext new_loc doc"
    using copy_records_ok [OF snap, of "sj_dir job" "sj_next job" COMPACTED_MAGIC "[]"] by auto
  show "job_done (s, k') fin" if "r = Inr fin"
  proof -
    let ?fl = "sync_file (append_bytes data file_new)"
    have fin: "k' = ?k ?fl" "fin = \<lparr>cj_old = sj_ids job, cj_new = sj_next job, cj_tmp = ?tmp, cj_locations = new\<rparr>"
      using r that cp(1) by (auto simp: run_segment_compaction_def Let_def split: option.splits)
    have tmp: "omap_get (sk_files k') ?tmp = Some ?fl" using I(3) by (simp add: fin(1) omap_get_insert)
    have dist: "distinct (map fst new)" using job cp(2) by (simp add: job_planned_def)
    have "\<exists>new_loc. map_of new ext = Some new_loc \<and> loc_segment new_loc = sj_next job \<and> place_holds (Some ?fl) ext new_loc doc"
      if "omap_get (st_locations s) ext = Some loc" "loc_segment loc \<in> set (sj_ids job)" "holds_doc k ext loc doc" for ext loc doc
      using at [of ext loc doc] that job dist by (fastforce simp: job_planned_def place_holds_def)
    then show ?thesis using job tmp dist files by (simp add: job_done_def job_planned_def fin)
  qed
qed

text \<open>Installing.\<close>

lemma install_locations_all:
  "omap_ok locs \<Longrightarrow> distinct (map fst news) \<Longrightarrow>
    omap_ok (fst (fold (install_location old) news (locs, i))) \<and>
    (\<forall>ext. omap_get (fst (fold (install_location old) news (locs, i))) ext =
      (case omap_get locs ext of
         Some loc \<Rightarrow> if loc_segment loc \<in> set old then (case map_of news ext of Some new_loc \<Rightarrow> Some new_loc | None \<Rightarrow> Some loc) else Some loc
       | None \<Rightarrow> None))"
proof (induction news arbitrary: locs i)
  case (Cons e news)
  obtain x new_loc where e: "e = (x, new_loc)" by fastforce
  obtain locs1 i1 where st: "install_location old e (locs, i) = (locs1, i1)" by fastforce
  then have ok1: "omap_ok locs1" and get1: "\<And>y. omap_get locs1 y = (if y = x then
      (case omap_get locs x of Some loc \<Rightarrow> if loc_segment loc \<in> set old then Some new_loc else Some loc | None \<Rightarrow> None) else omap_get locs y)"
    using Cons.prems(1) by (auto simp: e install_location_def omap_get_insert omap_ok_insert split: option.splits if_splits)
  have dist: "distinct (map fst news)" and fresh: "map_of news x = None" using Cons.prems(2) by (auto simp: e map_of_eq_None_iff)
  show ?case using Cons.IH [OF ok1 dist, of i1] st get1 fresh by (auto simp: e split: option.splits if_splits)
qed (auto split: option.splits)

lemmas install_locations_ok = install_locations_all [THEN conjunct1]
lemmas install_locations_get = install_locations_all [THEN conjunct2, rule_format]

lemma save_maps_files: "sk_files (fst (save_maps bin f s k)) = sk_files k"
  by (auto simp: save_maps_def Let_def split: option.splits if_splits)

lemma remove_old_step:
  "remove_old f root (n # ids) k = remove_old f root ids k \<or>
   remove_old f root (n # ids) k = remove_old f root ids (k\<lparr>sk_files := omap_remove (segment_filename n) (sk_files k)\<rparr>) \<or>
   (\<exists>e. remove_old f root (n # ids) k = (k, Inl e))"
  by (auto simp: no_such_file_def split: option.splits io_error.splits)

lemma remove_old_files:
  "omap_ok (sk_files k) \<Longrightarrow> remove_old f root ids k = (k', r) \<Longrightarrow>
    omap_ok (sk_files k') \<and> (\<forall>n. n \<notin> set ids \<longrightarrow> get_file k' n = get_file k n) \<and> (\<forall>n. get_file k n = None \<longrightarrow> get_file k' n = None)"
proof (induction ids arbitrary: k)
  case (Cons n ids)
  let ?k = "k\<lparr>sk_files := omap_remove (segment_filename n) (sk_files k)\<rparr>"
  have ok: "omap_ok (sk_files ?k)" using Cons.prems(1) by (simp add: omap_ok_remove)
  have get: "get_file ?k m = (if m = n then None else get_file k m)" for m
    using Cons.prems(1) by (simp add: get_file_def omap_get_remove sf.path_inj)
  consider "remove_old f root ids k = (k', r)" | "remove_old f root ids ?k = (k', r)" | "k' = k"
    using remove_old_step [of f root n ids k] Cons.prems(2) by (metis Pair_inject)
  then show ?case
  proof cases
    case 1
    show ?thesis using Cons.IH [OF Cons.prems(1) 1] by auto
  next
    case 2
    show ?thesis using Cons.IH [OF ok 2] get by auto
  qed (use Cons.prems(1) in auto)
qed auto

lemma install_ok:
  assumes inv: "store_inv (s, k) M" and job: "job_done (s, k) job" and r: "install_segment_compaction bin f g job (s, k) = (sk', r)"
  shows "store_inv sk' M"
proof (cases "f RenameTmp = None \<and> omap_get (sk_files k) (cj_tmp job) \<noteq> None")
  case False
  then show ?thesis using r inv by (auto simp: install_segment_compaction_def Let_def split: option.splits)
next
  case True
  note I = store_invD [OF inv]
  obtain fl where fl: "omap_get (sk_files k) (cj_tmp job) = Some fl" using True by blast
  let ?k = "k\<lparr>sk_files := omap_insert (segment_filename (cj_new job)) fl (omap_remove (cj_tmp job) (sk_files k))\<rparr>"
  let ?locs = "fst (fold (install_location (cj_old job)) (cj_locations job) (st_locations s, 0))"
  let ?s = "s\<lparr>st_locations := ?locs\<rparr>"
  have tmp: "cj_tmp job \<noteq> segment_filename n" for n using job by (auto simp: job_done_def)
  have okk: "omap_ok (sk_files ?k)" using I(3) by (simp add: omap_ok_insert omap_ok_remove)
  have get: "get_file ?k n = (if n = cj_new job then Some fl else get_file k n)" for n
    using I(3) tmp [symmetric] by (simp add: get_file_def omap_get_insert omap_ok_remove omap_get_remove sf.path_inj)
  have free: "get_file k (cj_new job) = None" and new: "cj_new job < st_next s" and old: "\<forall>n \<in> set (cj_old job). n < st_current s"
    and dist: "distinct (map fst (cj_locations job))" using job by (auto simp: job_done_def)
  have grow: "disk_grows k ?k" using get free by (auto simp: disk_grows_def)
  have inv1: "store_inv (s, ?k) M"
  proof -
    have "holds_doc ?k ext loc doc" if "omap_get (st_locations s) ext = Some loc" "M ext = Some doc" for ext loc doc
      by (rule holds_doc_grows [OF I(5) [OF that] grow])
    then show ?thesis using inv okk get new by (auto simp: store_inv_def)
  qed
  have gets: "omap_get ?locs ext = (case omap_get (st_locations s) ext of
      Some loc \<Rightarrow> if loc_segment loc \<in> set (cj_old job) then (case map_of (cj_locations job) ext of Some new_loc \<Rightarrow> Some new_loc | None \<Rightarrow> Some loc) else Some loc
    | None \<Rightarrow> None)" for ext by (rule install_locations_get [OF I(2) dist])
  have moved_doc: "\<exists>new_loc. omap_get ?locs ext = Some new_loc \<and> loc_segment new_loc \<notin> set (cj_old job) \<and> holds_doc ?k ext new_loc doc"
    if loc: "omap_get (st_locations s) ext = Some loc" and doc: "M ext = Some doc" for ext loc doc
  proof (cases "loc_segment loc \<in> set (cj_old job)")
    case True
    obtain new_loc where "map_of (cj_locations job) ext = Some new_loc" "loc_segment new_loc = cj_new job" "place_holds (Some fl) ext new_loc doc"
      using job loc True I(5) [OF loc doc] fl unfolding job_done_def prod.case by metis
    moreover have "cj_new job \<notin> set (cj_old job)" using job by (simp add: job_done_def)
    ultimately show ?thesis using gets [of ext] loc True get by auto
  qed (use gets [of ext] loc holds_doc_grows [OF I(5) [OF loc doc] grow] in auto)
  have inv2: "store_inv (?s, k2) M" if "omap_ok (sk_files k2)" and keep: "\<And>n. n \<notin> set (cj_old job) \<Longrightarrow> get_file k2 n = get_file ?k n"
      and none: "\<And>n. get_file ?k n = None \<Longrightarrow> get_file k2 n = None" for k2
  proof -
    have none': "omap_get ?locs ext = None \<longleftrightarrow> M ext = None" for ext using gets [of ext] I(4) [of ext] by (auto split: option.splits)
    have "holds_doc k2 ext new_loc doc" if "omap_get ?locs ext = Some new_loc" "M ext = Some doc" for ext new_loc doc
    proof -
      have "omap_get (st_locations s) ext \<noteq> None" using I(4) [of ext] that(2) by simp
      then obtain loc where "omap_get (st_locations s) ext = Some loc" by blast
      from moved_doc [OF this that(2)] keep that(1) show ?thesis by auto
    qed
    moreover have "get_file k2 (st_current s) \<noteq> None" using old I(8) get keep [of "st_current s"] by force
    moreover have "n < st_next s" if "get_file k2 n \<noteq> None" for n
      using store_invD(9) [OF inv1, of n] none [of n] that by blast
    ultimately show ?thesis using inv that(1) none' install_locations_ok [OF I(2) dist] by (simp add: store_inv_def)
  qed
  have same: "store_inv (?s, k2) M" if "sk_files k2 = sk_files ?k" for k2
    using that okk by (intro inv2) (simp_all add: get_file_def)
  obtain k3 r3 where sv: "save_maps bin f ?s ?k = (k3, r3)" by fastforce
  obtain k4 r4 where rm: "remove_old f (st_path s) (cj_old job) k3 = (k4, r4)" by fastforce
  obtain k5 r5 where sv5: "save_maps bin g ?s k4 = (k5, r5)" by fastforce
  have f3: "sk_files k3 = sk_files ?k" using save_maps_files [of bin f ?s ?k] sv by simp
  have f5: "sk_files k5 = sk_files k4" using save_maps_files [of bin g ?s k4] sv5 by simp
  have R: "omap_ok (sk_files k4)" "\<And>n. n \<notin> set (cj_old job) \<Longrightarrow> get_file k4 n = get_file ?k n" "\<And>n. get_file ?k n = None \<Longrightarrow> get_file k4 n = None"
    using remove_old_files [OF _ rm] okk f3 by (simp_all add: get_file_def)
  have "store_inv (?s, k4) M" "store_inv (?s, k5) M" using R f5 by (auto intro!: inv2 simp: get_file_def)
  then show ?thesis
    using r True fl inv1 same [OF refl] same [OF f3] sv rm sv5
    by (auto simp: install_segment_compaction_def Let_def split: option.splits sum.splits prod.splits)
qed

end
