(* ===== verification/Store_System.thy ===== *)
theory Store_System
  imports Complex_Main Store_Map
begin

text \<open>
  The document store at work: runs of its operations with failing system calls, a cache that forgets, and a
  compaction in three steps in between, against the map of documents they promise.
\<close>

section \<open>The store at work\<close>

text \<open>Operations come one after the other; a compaction is planned, runs and is installed in between.\<close>

datatype store_phase = NoJob | Planned segment_job | Finished completed_job

type_synonym store_system = "store_state \<times> store_phase"

datatype 'g store_op =
    Put store_faults "u8 list \<Rightarrow> bool" stored_document
  | PutBatch store_faults "u8 list \<Rightarrow> bool" "stored_document list"
  | Get "u8 list \<Rightarrow> bool" "u8 list"
  | Delete store_faults "u8 list"
  | Sync store_faults
  | Plan "'g ratio_ops" 'g nat
  | RunJob store_faults
  | Install store_faults store_faults

datatype store_out = Did "unit result" | Found "stored_document option result" | Quiet

fun store_exec :: "bincode_ops \<Rightarrow> 'g store_op \<Rightarrow> store_system \<Rightarrow> store_system \<times> store_out" where
  "store_exec bin (Put f kept doc) (sk, ph) = (case store_put f kept doc sk of (sk, r) \<Rightarrow> ((sk, ph), Did r))"
| "store_exec bin (PutBatch f kept ds) (sk, ph) = (case put_batch f kept ds sk of (sk, r) \<Rightarrow> ((sk, ph), Did r))"
| "store_exec bin (Get kept ext) (sk, ph) = (case store_get kept ext sk of (sk, r) \<Rightarrow> ((sk, ph), Found r))"
| "store_exec bin (Delete f ext) (sk, ph) = (case store_delete f ext sk of (sk, r) \<Rightarrow> ((sk, ph), Did r))"
| "store_exec bin (Sync f) (sk, ph) = (case store_sync f sk of (sk, r) \<Rightarrow> ((sk, ph), Did r))"
| "store_exec bin (Plan ra threshold target) (sk, NoJob) =
     (case plan_segment_compaction ra threshold target sk of
        (sk, None) \<Rightarrow> ((sk, NoJob), Quiet) | (sk, Some job) \<Rightarrow> ((sk, Planned job), Quiet))"
| "store_exec bin (RunJob f) ((s, k), Planned job) =
     (case run_segment_compaction f job k of
        (k, Inl e) \<Rightarrow> (((s, k), NoJob), Quiet) | (k, Inr fin) \<Rightarrow> (((s, k), Finished fin), Quiet))"
| "store_exec bin (Install f g) (sk, Finished fin) = (case install_segment_compaction bin f g fin sk of (sk, _) \<Rightarrow> ((sk, NoJob), Quiet))"
| "store_exec bin _ sys = (sys, Quiet)"

fun store_runs :: "bincode_ops \<Rightarrow> 'g store_op list \<Rightarrow> store_system \<Rightarrow> store_system \<times> store_out list" where
  "store_runs bin [] sys = (sys, [])"
| "store_runs bin (op # ops) sys =
     (case store_exec bin op sys of (sys, out) \<Rightarrow> case store_runs bin ops sys of (sys, outs) \<Rightarrow> (sys, out # outs))"

text \<open>What each operation promises about the documents.  A batch that fails once its records are written may have
  added them.\<close>

fun spec_step :: "'g store_op \<Rightarrow> store_out \<Rightarrow> documents \<Rightarrow> documents \<Rightarrow> bool" where
  "spec_step (Put f kept doc) (Did r) M M' \<longleftrightarrow> M' = (if is_ok r then M(external_id doc \<mapsto> doc) else M)"
| "spec_step (PutBatch f kept ds) (Did r) M M' \<longleftrightarrow> M' = add_documents ds M \<or> (\<not> is_ok r \<and> M' = M)"
| "spec_step (Get kept ext) (Found r) M M' \<longleftrightarrow> r = Inr (M ext) \<and> M' = M"
| "spec_step (Delete f ext) (Did r) M M' \<longleftrightarrow> M' = (if is_ok r then M(ext := None) else M)"
| "spec_step (Sync f) (Did r) M M' \<longleftrightarrow> M' = M"
| "spec_step (Plan ra threshold target) Quiet M M' \<longleftrightarrow> M' = M"
| "spec_step (RunJob f) Quiet M M' \<longleftrightarrow> M' = M"
| "spec_step (Install f g) Quiet M M' \<longleftrightarrow> M' = M"
| "spec_step _ _ M M' \<longleftrightarrow> False"

fun spec_runs :: "'g store_op list \<Rightarrow> store_out list \<Rightarrow> documents \<Rightarrow> documents \<Rightarrow> bool" where
  "spec_runs [] [] M M' \<longleftrightarrow> M' = M"
| "spec_runs (op # ops) (out # outs) M M' \<longleftrightarrow> (\<exists>M1. spec_step op out M M1 \<and> spec_runs ops outs M1 M')"
| "spec_runs _ _ M M' \<longleftrightarrow> False"

text \<open>Documents fit the record format and segment numbers do not run out.\<close>

fun op_fits :: "'g store_op \<Rightarrow> doc_store \<Rightarrow> bool" where
  "op_fits (Put f kept doc) s \<longleftrightarrow> doc_fits doc \<and> st_next s < st_next s + 1"
| "op_fits (PutBatch f kept ds) s \<longleftrightarrow> (\<forall>doc \<in> set ds. doc_fits doc) \<and> st_next s < st_next s + 1"
| "op_fits _ s \<longleftrightarrow> st_next s < st_next s + 1"

fun run_fits :: "bincode_ops \<Rightarrow> 'g store_op list \<Rightarrow> store_system \<Rightarrow> bool" where
  "run_fits bin [] sys \<longleftrightarrow> True"
| "run_fits bin (op # ops) sys \<longleftrightarrow> op_fits op (fst (fst sys)) \<and> run_fits bin ops (fst (store_exec bin op sys))"

text \<open>A batch that reported an error because one of its writes failed.\<close>

fun failed_batch :: "'g store_op \<Rightarrow> store_out \<Rightarrow> bool" where
  "failed_batch (PutBatch f kept ds) (Did r) \<longleftrightarrow> \<not> is_ok r \<and> batch_torn f ds"
| "failed_batch _ _ \<longleftrightarrow> False"

definition system_inv :: "store_system \<Rightarrow> documents \<Rightarrow> bool" where
  "system_inv = (\<lambda>(sk, ph) M. store_inv sk M \<and>
     (case ph of NoJob \<Rightarrow> True | Planned job \<Rightarrow> job_planned sk job | Finished fin \<Rightarrow> job_done sk fin))"

lemma system_settled:
  assumes "system_inv (sk, ph) M" and "settled sk sk'" and "store_inv sk' M'"
  shows "system_inv (sk', ph) M'"
proof -
  obtain s k s' k' where p: "sk = (s, k)" "sk' = (s', k')" by fastforce
  show ?thesis using assms settled_planned [of s k _ s' k'] settled_done [of s k _ s' k' M]
    by (auto simp: system_inv_def p split: store_phase.splits)
qed

lemma store_get_settled:
  assumes "store_inv sk M" and "store_get kept ext sk = (sk', r)"
  shows "settled sk sk'" and "store_inv sk' M" and "r = Inr (M ext)"
proof -
  obtain s k where sk: "sk = (s, k)" by fastforce
  obtain s' where s': "store_get kept ext (s, k) = ((s', k), Inr (M ext))" "store_inv (s', k) M"
    "st_locations s' = st_locations s" "st_current s' = st_current s" "st_next s' = st_next s"
    using store_get_ok [OF assms(1) [unfolded sk]] by blast
  have "settled (s, k) (s', k)" using moved_refl [OF assms(1) [unfolded sk]] s'(3-5) by (auto simp: settled_def)
  then show "settled sk sk'" and "store_inv sk' M" and "r = Inr (M ext)" using s' assms(2) by (auto simp: sk)
qed

lemma store_exec_ok:
  assumes inv: "system_inv sys M" and "op_fits op (fst (fst sys))" and ex: "store_exec bin op sys = (sys', out)" and "\<not> failed_batch op out"
  shows "\<exists>M'. spec_step op out M M' \<and> system_inv sys' M'"
proof -
  obtain sk ph where sys: "sys = (sk, ph)" by fastforce
  obtain s k where sk: "sk = (s, k)" by fastforce
  have I: "store_inv sk M" using inv by (simp add: system_inv_def sys)
  have up: "st_next (fst sk) < st_next (fst sk) + 1" using assms(2) by (cases op) (auto simp: sys)
  note step = system_settled [OF inv [unfolded sys]]
  show ?thesis
  proof (cases op)
    case (Put f kept doc)
    obtain sk1 r where p: "store_put f kept doc sk = (sk1, r)" by fastforce
    have "doc_fits doc" using assms(2) Put by simp
    note b = store_put_ok [OF I up this p]
    show ?thesis using ex p step [OF b] by (auto simp: Put sys)
  next
    case (PutBatch f kept ds)
    obtain sk1 r where p: "put_batch f kept ds sk = (sk1, r)" by fastforce
    have out: "out = Did r" using ex p by (auto simp: PutBatch sys)
    then have "\<not> batch_torn f ds" using assms(4) put_batch_torn [OF _ p] by (auto simp: PutBatch)
    then have "put_batch (writes_pass f) kept ds sk = (sk1, r)" using p put_batch_passed by metis
    moreover have "\<forall>doc \<in> set ds. doc_fits doc" using assms(2) PutBatch by simp
    ultimately have b: "settled sk sk1" "store_inv sk1 (if f AppendOpen = None then add_documents ds M else M)" "is_ok r \<Longrightarrow> f AppendOpen = None"
      using put_batch_ok [OF I up, of ds "writes_pass f" kept sk1 r] by simp_all
    have "sys' = (sk1, ph)" "out = Did r" using ex p by (auto simp: PutBatch sys)
    then show ?thesis using b step [OF b(1, 2)] by (intro exI [of _ "if f AppendOpen = None then add_documents ds M else M"]) (auto simp: PutBatch)
  next
    case (Get kept ext)
    obtain sk1 r where p: "store_get kept ext sk = (sk1, r)" by fastforce
    note b = store_get_settled [OF I p]
    show ?thesis using ex p step [OF b(1, 2)] b(3) by (auto simp: Get sys)
  next
    case (Delete f ext)
    obtain sk1 r where p: "store_delete f ext sk = (sk1, r)" by fastforce
    note b = store_delete_ok [OF I up p]
    show ?thesis using ex p step [OF b] by (auto simp: Delete sys)
  next
    case (Sync f)
    obtain sk1 r where p: "store_sync f sk = (sk1, r)" by fastforce
    note b = store_sync_ok [OF I p]
    show ?thesis using ex p step [OF b] by (auto simp: Sync sys)
  next
    case (Plan ra threshold target)
    obtain sk1 job where p: "plan_segment_compaction ra threshold target sk = (sk1, job)" by fastforce
    note pl = plan_ok [OF I [unfolded sk] up [unfolded sk fst_conv] p [unfolded sk]]
    show ?thesis using ex p inv pl(2, 3) by (cases ph; cases job) (auto simp: Plan sys system_inv_def)
  next
    case (RunJob f)
    show ?thesis
    proof (cases ph)
      case (Planned job)
      have job: "job_planned (s, k) job" using inv by (simp add: system_inv_def sys Planned sk)
      obtain k1 r where p: "run_segment_compaction f job k = (k1, r)" by fastforce
      from run_ok [OF I [unfolded sk] job p] ex p show ?thesis by (cases r) (auto simp: RunJob sys sk Planned system_inv_def)
    qed (use ex inv in \<open>auto simp: RunJob sys\<close>)
  next
    case (Install f g)
    show ?thesis
    proof (cases ph)
      case (Finished fin)
      have job: "job_done (s, k) fin" using inv by (simp add: system_inv_def sys Finished sk)
      obtain sk1 r where p: "install_segment_compaction bin f g fin (s, k) = (sk1, r)" by fastforce
      from install_ok [OF I [unfolded sk] job p] ex p show ?thesis by (auto simp: Install sys sk Finished system_inv_def)
    qed (use ex inv in \<open>auto simp: Install sys\<close>)
  qed
qed

lemma store_runs_ok:
  "system_inv sys M \<Longrightarrow> run_fits bin ops sys \<Longrightarrow> store_runs bin ops sys = (sys', outs) \<Longrightarrow>
    (\<exists>M'. spec_runs ops outs M M' \<and> system_inv sys' M') \<or>
    (\<exists>ops1 op ops2 outs1 out outs2 M1. ops = ops1 @ op # ops2 \<and> outs = outs1 @ out # outs2 \<and> spec_runs ops1 outs1 M M1 \<and> failed_batch op out)"
proof (induction ops arbitrary: sys sys' M outs)
  case (Cons op ops)
  obtain sys1 out where e: "store_exec bin op sys = (sys1, out)" by fastforce
  obtain sys2 outs1 where r: "store_runs bin ops sys1 = (sys2, outs1)" by fastforce
  have o: "outs = out # outs1" "sys' = sys2" using Cons.prems(3) e r by auto
  show ?case
  proof (cases "failed_batch op out")
    case True
    then show ?thesis using o(1) by (intro disjI2 exI [of _ "[]"] exI [of _ op] exI [of _ ops] exI [of _ out] exI [of _ outs1] exI [of _ M]) simp
  next
    case False
    then obtain M1 where M1: "spec_step op out M M1" "system_inv sys1 M1" using store_exec_ok [OF Cons.prems(1) _ e] Cons.prems(2) by auto
    have "run_fits bin ops sys1" using Cons.prems(2) e by simp
    from Cons.IH [OF M1(2) this r] show ?thesis
    proof
      assume "\<exists>M'. spec_runs ops outs1 M1 M' \<and> system_inv sys2 M'"
      then show ?thesis using M1(1) o by (intro disjI1) (simp, blast)
    next
      assume "\<exists>ops1 op ops2 outs2 out outs3 M2. ops = ops1 @ op # ops2 \<and> outs1 = outs2 @ out # outs3 \<and> spec_runs ops1 outs2 M1 M2 \<and> failed_batch op out"
      then obtain ops1 op' ops2 outs2 out' outs3 M2 where "ops = ops1 @ op' # ops2" "outs1 = outs2 @ out' # outs3" "spec_runs ops1 outs2 M1 M2" "failed_batch op' out'"
        by blast
      then show ?thesis using M1(1) o
        by (intro disjI2 exI [of _ "op # ops1"] exI [of _ op'] exI [of _ ops2] exI [of _ "out # outs2"] exI [of _ out'] exI [of _ outs3] exI [of _ M2]) (simp, blast)
    qed
  qed
qed auto

lemma no_failed_batch:
  assumes "\<forall>op \<in> set ops. \<forall>out. \<not> failed_batch op out"
  shows "\<not> (\<exists>ops1 op ops2 outs1 out outs2 M1. ops = ops1 @ op # ops2 \<and> outs = outs1 @ out # outs2 \<and> spec_runs ops1 outs1 M M1 \<and> failed_batch op out)"
  using assms by auto

text \<open>Every operation takes at most one segment number, so that short runs do not run out of them.\<close>

lemma unat_add_one_le: "unat (n + 1) \<le> Suc (unat n)" for n :: "'a::len word"
  using mod_less_eq_dividend [of "unat n + 1" "2 ^ LENGTH('a)"] by (simp add: unat_word_ariths(1))

lemma rotate_next: "maybe_rotate_segment f (s, k) = ((s', k'), r) \<Longrightarrow> unat (st_next s') \<le> Suc (unat (st_next s))"
  by (auto simp: maybe_rotate_segment_def Let_def unat_add_one_le split: option.splits if_splits)

lemma batch_loop_next: "batch_loop f kept n i ds start data s = (s', rest) \<Longrightarrow> st_next s' = st_next s"
  by (induction ds arbitrary: i data s) (auto simp: Let_def split: option.splits)

lemma put_batch_next: "put_batch f kept ds (s, k) = ((s', k'), r) \<Longrightarrow> unat (st_next s') \<le> Suc (unat (st_next s))"
  by (auto simp: put_batch_def Let_def split: option.splits prod.splits sum.splits dest!: rotate_next batch_loop_next)

lemma put_next: "store_put f kept doc (s, k) = ((s', k'), r) \<Longrightarrow> unat (st_next s') \<le> Suc (unat (st_next s))"
  by (auto simp: store_put_def append_put_def Let_def split: option.splits prod.splits sum.splits dest!: rotate_next)

lemma delete_next: "store_delete f ext (s, k) = ((s', k'), r) \<Longrightarrow> unat (st_next s') \<le> Suc (unat (st_next s))"
  by (auto simp: store_delete_def store_append_delete_def cache_invalidate_def Let_def split: option.splits prod.splits sum.splits dest!: rotate_next)

lemma exec_next:
  assumes "store_exec bin op ((s, k), ph) = (((s', k'), ph'), out)"
  shows "unat (st_next s') \<le> Suc (unat (st_next s))"
proof (cases op)
  case (Put f kept doc)
  then show ?thesis using assms by (auto split: prod.splits dest: put_next)
next
  case (PutBatch f kept ds)
  then show ?thesis using assms by (auto split: prod.splits dest: put_batch_next)
next
  case (Get kept ext)
  then show ?thesis using assms by (auto simp: store_get_def split: prod.splits option.splits sum.splits)
next
  case (Delete f ext)
  then show ?thesis using assms by (auto split: prod.splits dest: delete_next)
next
  case (Sync f)
  then show ?thesis using assms by (auto simp: store_sync_def split: prod.splits option.splits sum.splits)
next
  case (Plan ra threshold target)
  then show ?thesis using assms
    by (cases ph) (auto simp: plan_segment_compaction_def Let_def unat_add_one_le split: prod.splits option.splits if_splits)
next
  case (RunJob f)
  then show ?thesis using assms by (cases ph) (auto split: prod.splits sum.splits)
next
  case (Install f g)
  then show ?thesis using assms
    by (cases ph) (auto simp: install_segment_compaction_def Let_def split: prod.splits option.splits sum.splits)
qed

fun op_docs :: "'g store_op \<Rightarrow> stored_document list" where
  "op_docs (Put f kept doc) = [doc]"
| "op_docs (PutBatch f kept ds) = ds"
| "op_docs _ = []"

lemma run_fits_short:
  "\<forall>op \<in> set ops. \<forall>doc \<in> set (op_docs op). doc_fits doc \<Longrightarrow> unat (st_next (fst (fst sys))) + length ops < 2 ^ 32 \<Longrightarrow> run_fits bin ops sys"
proof (induction ops arbitrary: sys)
  case (Cons op ops)
  obtain s k ph s' k' ph' out where sys: "sys = ((s, k), ph)" and ex: "store_exec bin op sys = (((s', k'), ph'), out)" by (metis surj_pair)
  have "unat (st_next (fst (fst (fst (store_exec bin op sys))))) + length ops < 2 ^ 32"
    using Cons.prems(2) exec_next [OF ex [unfolded sys]] ex by (simp add: sys)
  then have "run_fits bin ops (fst (store_exec bin op sys))" using Cons.prems(1) by (intro Cons.IH) auto
  moreover have "op_fits op (fst (fst sys))" using Cons.prems by (cases op) (auto simp: word_less_nat_alt unat_word_ariths)
  ultimately show ?case by simp
qed simp

section \<open>A new store\<close>

definition empty_folder :: store_disk where
  "empty_folder = \<lparr>sk_files = [], sk_maps = None\<rparr>"

definition new_folder :: store_disk where
  "new_folder = put_file 0 (sync_file (append_bytes STORE_MAGIC file_new)) empty_folder"

definition new_store :: "string \<Rightarrow> doc_store" where
  "new_store dir = \<lparr>st_path = dir, st_docs = [], st_internal = [], st_locations = [], st_current = 0,
     st_next = 1, st_unsynced = 0, st_highest = 0\<rparr>"

lemma length_STORE_MAGIC [simp]: "length STORE_MAGIC = 8"
  by (simp add: STORE_MAGIC_def ascii_def)

lemma new_folder_ids: "list_segment_ids (sk_files empty_folder) = []" "list_segment_ids (sk_files new_folder) = [0]"
  by (simp_all add: list_segment_ids_def new_folder_def empty_folder_def put_file_def List.map_filter_simps)

lemma new_folder_file: "get_file new_folder n = (if n = 0 then Some (sync_file (append_bytes STORE_MAGIC file_new)) else None)"
  by (auto simp: new_folder_def get_put_file empty_folder_def) (simp add: get_file_def)

lemma new_folder_magic: "segment_magic dir new_folder 0 = Inr STORE_MAGIC"
  by (simp add: segment_magic_def new_folder_file read_exact_def)

lemma scan_loop_end: "offset c \<ge> length (bytes c) \<Longrightarrow> scan_loop n t p c s = Inr (s, None)"
  by (subst scan_loop.simps) (simp add: file_u8_eq)

lemma store_open_new: "store_open (\<lambda>_. None) dir empty_folder = Inr (new_store dir, new_folder)"
proof -
  have b: "store_begin (\<lambda>_. None) dir empty_folder = Inr (new_store dir, new_folder)"
    using new_folder_ids by (simp add: store_begin_def create_segment_def new_store_def flip: new_folder_def)
  have l: "store_load (\<lambda>_. None) (new_store dir, new_folder) = Inr (new_store dir, new_folder)"
    by (simp add: store_load_def new_folder_ids scan_segment_def new_folder_magic new_folder_file scan_loop_end ok_or_def Let_def)
  have c: "choose_append (\<lambda>_. None) (new_store dir, new_folder) = Inr (new_store dir, new_folder)"
    by (simp add: choose_append_def new_folder_ids new_folder_magic) (simp add: new_store_def)
  show ?thesis by (simp add: store_open_def b l c)
qed

lemma new_store_inv: "store_inv (new_store dir, new_folder) Map.empty"
  by (auto simp: store_inv_def new_store_def new_folder_file) (simp add: new_folder_def put_file_ok empty_folder_def)

section \<open>Properties\<close>

text \<open>C6. The document store is a map from external ids to documents.  In every run of puts, batches, gets, deletes and
  syncs on a newly opened store, interleaved with planned, running and installed compactions, whichever system calls
  fail and whatever the cache drops, every get returns the document that was put last under its id and not deleted
  since; a failed put or delete changes nothing.  The one exception is a batch one of whose writes failed and which
  reported the error: the run is right up to it, and behind it the store can return wrong documents (C38).  Documents
  fit the record format, and the 32 bit segment numbers do not run out.\<close>

theorem store_refines_documents:
  assumes "store_open (\<lambda>_. None) dir empty_folder = Inr sk" and "run_fits bin ops (sk, NoJob)"
    and "store_runs bin ops (sk, NoJob) = ((sk', ph), outs)"
  shows "(\<exists>M. spec_runs ops outs Map.empty M \<and> (\<forall>kept ext. snd (store_get kept ext sk') = Inr (M ext))) \<or>
    (\<exists>ops1 op ops2 outs1 out outs2 M. ops = ops1 @ op # ops2 \<and> outs = outs1 @ out # outs2 \<and> spec_runs ops1 outs1 Map.empty M \<and> failed_batch op out)"
proof -
  have "system_inv (sk, NoJob) Map.empty" using assms(1) new_store_inv by (auto simp: store_open_new system_inv_def)
  note runs = store_runs_ok [OF this assms(2, 3)]
  have "\<forall>kept ext. snd (store_get kept ext sk') = Inr (M ext)" if "system_inv (sk', ph) M" for M
    using that store_get_settled(3) [of sk' M] by (metis (no_types, lifting) case_prod_conv prod.collapse system_inv_def)
  with runs show ?thesis by blast
qed

section \<open>A run\<close>

text \<open>Operations whose calls do not fail succeed.\<close>

fun calm_op :: "'g store_op \<Rightarrow> bool" where
  "calm_op (Put f kept doc) \<longleftrightarrow> f = (\<lambda>_. None)"
| "calm_op (PutBatch f kept ds) \<longleftrightarrow> f = (\<lambda>_. None)"
| "calm_op (Delete f ext) \<longleftrightarrow> f = (\<lambda>_. None)"
| "calm_op (Sync f) \<longleftrightarrow> False"
| "calm_op _ \<longleftrightarrow> True"

lemma rotate_works: "get_file k (st_current s) = Some fl \<Longrightarrow> snd (maybe_rotate_segment (\<lambda>_. None) (s, k)) = Inr ()"
  by (simp add: maybe_rotate_segment_def Let_def)

lemma calm_not_failed: "calm_op op \<Longrightarrow> \<not> failed_batch op out"
  by (cases op; cases out) (auto simp: batch_torn_def)

lemma exec_works:
  assumes inv: "system_inv ((s, k), ph) M" and "calm_op op" and "op_fits op s" and ex: "store_exec bin op ((s, k), ph) = (sys', Did r)"
  shows "r = Inr ()"
proof -
  have I: "store_inv (s, k) M" using inv by (simp add: system_inv_def)
  obtain fl where fl: "get_file k (st_current s) = Some fl" using store_invD(8) [OF I] by blast
  have works: "snd (maybe_rotate_segment (\<lambda>_. None) (s1, put_file (st_current s) fl1 k)) = Inr ()" if "st_current s1 = st_current s" for s1 fl1
    by (rule rotate_works) (simp add: get_put_file store_invD(3) [OF I] that)
  show ?thesis
  proof (cases op)
    case (Put f kept doc)
    obtain sk1 r1 where ro: "maybe_rotate_segment (\<lambda>_. None) (s, put_file (st_current s) (append_bytes (write_u8 OP_PUT @ write_document doc) fl) k) = (sk1, r1)"
      by fastforce
    with works have "r1 = Inr ()" by (metis snd_conv)
    with ro show ?thesis using assms(2) ex fl by (auto simp: Put store_put_def append_put_def Let_def split: prod.splits)
  next
    case (PutBatch f kept ds)
    have fits: "\<forall>doc \<in> set ds. doc_fits doc" using assms(3) PutBatch by simp
    obtain s1 where s1: "batch_loop (\<lambda>_. None) kept (st_current s) 0 ds (length (wf_bytes fl)) [] s = (s1, [] @ batch_bytes ds, Inr ())" "st_current s1 = st_current s"
      using batch_loop_ok [OF _ fits refl, of "\<lambda>_. None" kept "st_current s" 0 "wf_bytes fl" "[]" s fl] by auto
    obtain sk1 r1 where ro: "maybe_rotate_segment (\<lambda>_. None) (s1, put_file (st_current s) (append_bytes (batch_bytes ds) fl) k) = (sk1, r1)" by fastforce
    with works [OF s1(2)] have "r1 = Inr ()" by (metis snd_conv)
    with ro s1(1) show ?thesis using assms(2) ex fl by (auto simp: PutBatch put_batch_def Let_def)
  next
    case (Delete f ext)
    have "snd (store_append_delete (\<lambda>_. None) ext i (s, k)) = Inr ()" for i using works fl by (simp add: store_append_delete_def Let_def)
    then have "snd (store_delete (\<lambda>_. None) ext (s, k)) = Inr ()" 
      by (auto simp: store_delete_def Let_def split: option.split prod.split sum.split) (metis Inl_Inr_False snd_conv)+
    then show ?thesis using assms(2) ex by (auto simp: Delete split: prod.splits)
  next
    case (Plan ra threshold target)
    then show ?thesis using ex by (cases ph) (auto split: prod.splits option.splits)
  next
    case (RunJob f)
    then show ?thesis using ex by (cases ph) (auto split: prod.splits sum.splits)
  next
    case (Install f g)
    then show ?thesis using ex by (cases ph) (auto split: prod.splits)
  qed (use assms(2) ex in \<open>auto split: prod.splits\<close>)
qed

lemma runs_work:
  "system_inv sys M \<Longrightarrow> run_fits bin ops sys \<Longrightarrow> \<forall>op \<in> set ops. calm_op op \<Longrightarrow> store_runs bin ops sys = (sys', outs) \<Longrightarrow>
    Did r \<in> set outs \<Longrightarrow> r = Inr ()"
proof (induction ops arbitrary: sys sys' M outs)
  case (Cons op ops)
  obtain s k ph where sys: "sys = ((s, k), ph)" by (metis surj_pair)
  obtain sys1 out where e: "store_exec bin op sys = (sys1, out)" by fastforce
  obtain sys2 outs1 where r: "store_runs bin ops sys1 = (sys2, outs1)" by fastforce
  obtain M1 where M1: "system_inv sys1 M1"
    using store_exec_ok [OF Cons.prems(1) _ e] calm_not_failed Cons.prems(2, 3) by auto
  have "r = Inr ()" if "out = Did r" using exec_works [OF Cons.prems(1) [unfolded sys], of op bin sys1 r] that e Cons.prems(2, 3) sys by auto
  moreover have "r = Inr ()" if "Did r \<in> set outs1" using Cons.IH [OF M1 _ _ r that] Cons.prems(2, 3) e by auto
  moreover have "outs = out # outs1" using Cons.prems(4) e r by auto
  ultimately show ?case using Cons.prems(5) by auto
qed auto

definition sample_doc :: stored_document where
  "sample_doc = \<lparr>external_id = [97], internal_id = 1, doc_format = JSON, doc_source = [123, 125]\<rparr>"

definition other_doc :: stored_document where
  "other_doc = sample_doc\<lparr>external_id := [98], internal_id := 2\<rparr>"

text \<open>A document that fills a segment.\<close>

definition big_doc :: stored_document where
  "big_doc = sample_doc\<lparr>doc_source := replicate DEFAULT_SEGMENT_SIZE 32\<rparr>"

lemma sample_docs_fit: "doc_fits sample_doc" "doc_fits other_doc" "doc_fits big_doc"
proof -
  have "utf8_ok [97]" "utf8_ok [98]" by (simp_all add: utf8_ok.simps utf8_step_def)
  then show "doc_fits sample_doc" "doc_fits other_doc" "doc_fits big_doc"
    by (simp_all add: doc_fits_def sample_doc_def other_doc_def big_doc_def DEFAULT_SEGMENT_SIZE_def)
qed

definition sample_bin :: bincode_ops where
  "sample_bin = \<lparr>bin_encode = (\<lambda>_. []), bin_decode = (\<lambda>_. None)\<rparr>"

text \<open>The ratio of a segment's dead bytes without rounding.\<close>

definition exact_ratio :: "real ratio_ops" where
  "exact_ratio = \<lparr>ra_nat = real, ra_sub = (-), ra_div = (/), ra_le = (\<le>)\<rparr>"

definition mixed_ops :: "real store_op list" where
  "mixed_ops = [Put (\<lambda>_. None) (\<lambda>_. False) big_doc, PutBatch (\<lambda>_. None) (\<lambda>_. False) [other_doc, sample_doc],
     Plan exact_ratio (1 / 2) 1000, RunJob (\<lambda>_. None), Install (\<lambda>_. None) (\<lambda>_. None), Delete (\<lambda>_. None) [98],
     Get (\<lambda>_. False) [97], Get (\<lambda>_. True) [98]]"

lemma mixed_fits: "run_fits sample_bin mixed_ops ((new_store [], new_folder), NoJob)"
  by (rule run_fits_short) (use sample_docs_fit in \<open>auto simp: mixed_ops_def new_store_def\<close>)

lemma spec_step_outs:
  "spec_step (Put f kept doc) out M M' \<longleftrightarrow> (\<exists>r. out = Did r \<and> M' = (if is_ok r then M(external_id doc \<mapsto> doc) else M))"
  "spec_step (PutBatch f kept ds) out M M' \<longleftrightarrow> (\<exists>r. out = Did r \<and> (M' = add_documents ds M \<or> (\<not> is_ok r \<and> M' = M)))"
  "spec_step (Get kept ext) out M M' \<longleftrightarrow> out = Found (Inr (M ext)) \<and> M' = M"
  "spec_step (Delete f ext) out M M' \<longleftrightarrow> (\<exists>r. out = Did r \<and> M' = (if is_ok r then M(ext := None) else M))"
  "spec_step (Plan ra threshold target) out M M' \<longleftrightarrow> out = Quiet \<and> M' = M"
  "spec_step (RunJob f) out M M' \<longleftrightarrow> out = Quiet \<and> M' = M"
  "spec_step (Install f g) out M M' \<longleftrightarrow> out = Quiet \<and> M' = M"
  by (cases out; simp)+

lemma spec_runs_Cons: "spec_runs (op # ops) outs M M' \<longleftrightarrow> (\<exists>out rest M1. outs = out # rest \<and> spec_step op out M M1 \<and> spec_runs ops rest M1 M')"
  and spec_runs_Nil: "spec_runs [] outs M M' \<longleftrightarrow> outs = [] \<and> M' = M"
  by (cases outs; auto)+

theorem store_refines_documents_witness:
  "\<exists>sk' ph. store_runs sample_bin mixed_ops ((new_store [], new_folder), NoJob) =
    ((sk', ph), [Did (Inr ()), Did (Inr ()), Quiet, Quiet, Quiet, Did (Inr ()), Found (Inr (Some sample_doc)), Found (Inr None)])"
proof -
  obtain sk' ph outs where run: "store_runs sample_bin mixed_ops ((new_store [], new_folder), NoJob) = ((sk', ph), outs)" by (metis surj_pair)
  have calm: "\<forall>op \<in> set mixed_ops. calm_op op" by (simp add: mixed_ops_def)
  then have none: "\<forall>op \<in> set mixed_ops. \<forall>out. \<not> failed_batch op out" using calm_not_failed by blast
  from store_refines_documents [OF store_open_new mixed_fits run] no_failed_batch [OF none]
  obtain M where M: "spec_runs mixed_ops outs Map.empty M" by metis
  have "system_inv ((new_store [], new_folder), NoJob) Map.empty" using new_store_inv by (simp add: system_inv_def)
  note ok = runs_work [OF this mixed_fits calm run]
  obtain a b c d e f g h M1 M2 M3 M4 M5 M6 M7 where outs: "outs = [a, b, c, d, e, f, g, h]"
    and steps: "spec_step (mixed_ops ! 0) a Map.empty M1" "spec_step (mixed_ops ! 1) b M1 M2"
    "spec_step (mixed_ops ! 2) c M2 M3" "spec_step (mixed_ops ! 3) d M3 M4" "spec_step (mixed_ops ! 4) e M4 M5"
    "spec_step (mixed_ops ! 5) f M5 M6" "spec_step (mixed_ops ! 6) g M6 M7" "spec_step (mixed_ops ! 7) h M7 M"
    using M unfolding mixed_ops_def spec_runs_Cons spec_runs_Nil by (clarsimp simp del: spec_step.simps)
  have mixed: "mixed_ops ! 0 = Put (\<lambda>_. None) (\<lambda>_. False) big_doc" "mixed_ops ! 1 = PutBatch (\<lambda>_. None) (\<lambda>_. False) [other_doc, sample_doc]"
    "mixed_ops ! 2 = Plan exact_ratio (1 / 2) 1000" "mixed_ops ! 3 = RunJob (\<lambda>_. None)" "mixed_ops ! 4 = Install (\<lambda>_. None) (\<lambda>_. None)"
    "mixed_ops ! 5 = Delete (\<lambda>_. None) [98]" "mixed_ops ! 6 = Get (\<lambda>_. False) [97]" "mixed_ops ! 7 = Get (\<lambda>_. True) [98]"
    by (simp_all add: mixed_ops_def)
  note steps = steps [unfolded mixed spec_step_outs]
  have a: "a = Did (Inr ())" using steps(1) ok unfolding outs by (metis list.set_intros(1))
  have b: "b = Did (Inr ())" using steps(2) ok unfolding outs by (metis list.set_intros)
  have f: "f = Did (Inr ())" using steps(6) ok unfolding outs by (metis list.set_intros)
  have ids: "external_id big_doc = [97]" "external_id sample_doc = [97]" "external_id other_doc = [98]" by (simp_all add: big_doc_def other_doc_def sample_doc_def)
  have "M2 = [[97] \<mapsto> sample_doc, [98] \<mapsto> other_doc]" using steps(1, 2) a b by (auto simp: ids add_documents_def)
  then have "g = Found (Inr (Some sample_doc))" "h = Found (Inr None)" using steps f by auto
  then show ?thesis using run a b f steps(3-5) unfolding outs by simp
qed

end
