(* ===== verification/Store_Scan.thy ===== *)
theory Store_Scan
  imports Store_System
begin

text \<open>
  Reading a segment of the document store back: the scan applies the records one after the other, and stops in
  front of a record that was cut short.
\<close>

section \<open>Entries of a segment\<close>

datatype store_entry = EPut stored_document | EDel "u8 list" u64

fun entry_bytes :: "store_entry \<Rightarrow> u8 list" where
  "entry_bytes (EPut doc) = write_u8 OP_PUT @ write_document doc"
| "entry_bytes (EDel ext v) = write_u8 OP_DELETE @ write_string ext @ write_u64 v"

fun entry_fits :: "store_entry \<Rightarrow> bool" where
  "entry_fits (EPut doc) \<longleftrightarrow> doc_fits doc"
| "entry_fits (EDel ext v) \<longleftrightarrow> utf8_ok ext \<and> length ext < 2 ^ 32"

definition entries_bytes :: "store_entry list \<Rightarrow> u8 list" where
  "entries_bytes es = concat (map entry_bytes es)"

fun apply_entry :: "u32 \<Rightarrow> nat \<Rightarrow> store_entry \<Rightarrow> doc_store \<Rightarrow> doc_store" where
  "apply_entry n off (EPut doc) s = apply_put n (off + 1) (of_nat (length (write_document doc))) doc s"
| "apply_entry n off (EDel ext v) s = apply_delete ext v s"

fun apply_entries :: "u32 \<Rightarrow> nat \<Rightarrow> store_entry list \<Rightarrow> doc_store \<Rightarrow> doc_store" where
  "apply_entries n off [] s = s"
| "apply_entries n off (e # es) s = apply_entries n (off + length (entry_bytes e)) es (apply_entry n off e s)"

abbreviation delete_reader :: "(u8 list \<times> u64) reader" where
  "delete_reader \<equiv> then_read read_string (\<lambda>ext. then_read file_u64 (\<lambda>v. read_return (ext, v)))"

lemma moves_delete: "moves delete_reader"
  by (intro moves_then moves_string moves_ints moves_basic)

lemma reads_delete: "utf8_ok ext \<Longrightarrow> length ext < 2 ^ 32 \<Longrightarrow> reads delete_reader (write_string ext @ write_u64 v) (ext, v)"
  by (intro reads_then [OF reads_string] reads_map reads_file_ints)

lemma scan_loop_entry:
  assumes "entry_fits e"
  shows "scan_loop n t p \<lparr>bytes = pre @ entry_bytes e @ rest, offset = length pre\<rparr> s =
    scan_loop n t p \<lparr>bytes = pre @ entry_bytes e @ rest, offset = length pre + length (entry_bytes e)\<rparr> (apply_entry n (length pre) e s)"
proof (cases e)
  case (EPut doc)
  let ?pre = "pre @ write_u8 OP_PUT"
  have r: "read_document \<lparr>bytes = ?pre @ write_document doc @ rest, offset = length ?pre\<rparr> =
      Inr (doc, \<lparr>bytes = ?pre @ write_document doc @ rest, offset = length ?pre + length (write_document doc)\<rparr>)"
    using assms EPut by (intro reads_at [OF reads_document moves_document]) simp
  show ?thesis
    by (subst scan_loop.simps) (use r in \<open>simp add: EPut file_u8_eq nth_append write_u8_def del: length_write_document\<close>)
next
  case (EDel ext v)
  let ?pre = "pre @ write_u8 OP_DELETE" and ?x = "write_string ext @ write_u64 v"
  have r: "delete_reader \<lparr>bytes = ?pre @ ?x @ rest, offset = length ?pre\<rparr> =
      Inr ((ext, v), \<lparr>bytes = ?pre @ ?x @ rest, offset = length ?pre + length ?x\<rparr>)"
    using assms EDel by (intro reads_at [OF reads_delete moves_delete]) auto
  show ?thesis
    by (subst scan_loop.simps) (use r in \<open>simp add: EDel file_u8_eq nth_append write_u8_def OP_PUT_def OP_DELETE_def add.left_commute\<close>)
qed

lemma scan_loop_entries:
  "\<forall>e \<in> set es. entry_fits e \<Longrightarrow>
    scan_loop n t p \<lparr>bytes = pre @ entries_bytes es @ rest, offset = length pre\<rparr> s =
    scan_loop n t p \<lparr>bytes = pre @ entries_bytes es @ rest, offset = length pre + length (entries_bytes es)\<rparr> (apply_entries n (length pre) es s)"
proof (induction es arbitrary: pre s)
  case Nil
  then show ?case by (simp add: entries_bytes_def)
next
  case (Cons e es)
  have "scan_loop n t p \<lparr>bytes = pre @ entry_bytes e @ (entries_bytes es @ rest), offset = length pre\<rparr> s =
    scan_loop n t p \<lparr>bytes = pre @ entry_bytes e @ (entries_bytes es @ rest), offset = length pre + length (entry_bytes e)\<rparr> (apply_entry n (length pre) e s)"
    using Cons.prems by (intro scan_loop_entry) simp
  with Cons.IH [of "pre @ entry_bytes e" "apply_entry n (length pre) e s"] Cons.prems show ?case
    by (simp add: entries_bytes_def add.assoc)
qed

section \<open>A record cut short\<close>

definition starves :: "'a reader \<Rightarrow> u8 list \<Rightarrow> bool" where
  "starves r bs \<longleftrightarrow> (\<forall>pre m. m < length bs \<longrightarrow> (\<exists>msg. r \<lparr>bytes = pre @ take m bs, offset = length pre\<rparr> = Inl (UnexpectedEof msg)))"

lemma starves_exact: "n = length bs \<Longrightarrow> starves (read_exact n) bs"
  by (auto simp: starves_def read_exact_def)

lemma starves_nil: "starves r []"
  by (simp add: starves_def)

lemma starves_then:
  assumes "starves r bs" and "reads r bs x" and "moves r" and "starves (g x) bs'"
  shows "starves (then_read r g) (bs @ bs')"
  unfolding starves_def
proof (intro allI impI)
  fix pre m
  assume m: "m < length (bs @ bs')"
  show "\<exists>msg. then_read r g \<lparr>bytes = pre @ take m (bs @ bs'), offset = length pre\<rparr> = Inl (UnexpectedEof msg)"
  proof (cases "m < length bs")
    case True
    then obtain msg where "r \<lparr>bytes = pre @ take m bs, offset = length pre\<rparr> = Inl (UnexpectedEof msg)" using assms(1) by (auto simp: starves_def)
    then show ?thesis using True by (simp add: then_read_def)
  next
    case False
    then have t: "take m (bs @ bs') = bs @ take (m - length bs) bs'" by simp
    have "m - length bs < length bs'" using False m by simp
    then obtain msg where "g x \<lparr>bytes = (pre @ bs) @ take (m - length bs) bs', offset = length (pre @ bs)\<rparr> = Inl (UnexpectedEof msg)"
      using assms(4) unfolding starves_def by blast
    then show ?thesis using reads_at [OF assms(2, 3), of pre "take (m - length bs) bs'"]
      unfolding then_read_def t by simp
  qed
qed

lemma starves_ints: "starves file_u8 (write_u8 a)" "starves file_u32 (write_u32 b)" "starves file_u64 (write_u64 v)"
  using starves_then [OF starves_exact reads_exact moves_basic(3) starves_nil, of 1 "write_u8 a"]
    starves_then [OF starves_exact reads_exact moves_basic(3) starves_nil, of 4 "write_u32 b"]
    starves_then [OF starves_exact reads_exact moves_basic(3) starves_nil, of 8 "write_u64 v"]
  by (simp_all add: file_u8_def file_u32_def file_u64_def)

lemma starves_string:
  assumes "utf8_ok bs" and "length bs < 2 ^ 32"
  shows "starves read_string (write_string bs)"
proof -
  have "starves read_string (write_u32 (of_nat (length bs)) @ bs @ [])"
    unfolding read_string_def
    by (rule starves_then [OF starves_ints(2) reads_file_ints(2) moves_ints(2)], rule starves_then [OF starves_exact reads_exact moves_basic(3) starves_nil])
      (use assms in \<open>simp_all add: unat_length\<close>)
  then show ?thesis by (simp add: write_string_def)
qed

lemma starves_bytes:
  assumes "length bs < 2 ^ 32"
  shows "starves read_bytes (write_bytes bs)"
  unfolding read_bytes_def write_bytes_def
  by (rule starves_then [OF starves_ints(2) reads_file_ints(2) moves_ints(2) starves_exact]) (use assms in \<open>simp add: unat_length\<close>)

lemma starves_delete:
  assumes "utf8_ok ext" and "length ext < 2 ^ 32"
  shows "starves delete_reader (write_string ext @ write_u64 v)"
proof -
  have "starves (then_read file_u64 (\<lambda>v. read_return (ext, v))) (write_u64 v @ [])"
    by (rule starves_then [OF starves_ints(3) reads_file_ints(3) moves_ints(3) starves_nil])
  then show ?thesis by (intro starves_then [OF starves_string [OF assms] reads_string [OF assms] moves_string]) simp
qed

lemma starves_document:
  assumes "doc_fits doc"
  shows "starves read_document (write_document doc)"
proof -
  have len: "length (external_id doc) < 2 ^ 32" "length (doc_source doc) < 2 ^ 32" and utf: "utf8_ok (external_id doc)"
    using assms by (auto simp: doc_fits_def)
  have "starves read_document (write_string (external_id doc) @ write_u64 (internal_id doc) @ write_u8 (format_id (doc_format doc)) @ [] @
      write_bytes (doc_source doc) @ [])"
    unfolding read_document_def
    by (intro starves_then [OF starves_string [OF utf len(1)] reads_string [OF utf len(1)] moves_string]
        starves_then [OF starves_ints(3) reads_file_ints(3) moves_ints(3)] starves_then [OF starves_ints(1) reads_file_ints(1) moves_ints(1)]
        starves_then [OF starves_nil reads_format moves_format]
        starves_then [OF starves_bytes [OF len(2)] reads_bytes [OF len(2)]] starves_nil)
      (auto simp: read_bytes_def intro!: moves_then moves_ints moves_basic)
  then show ?thesis by (simp add: write_document_def)
qed

lemma scan_loop_torn:
  assumes "entry_fits e" and "0 < m" and "m < length (entry_bytes e)"
  shows "scan_loop n True p \<lparr>bytes = pre @ take m (entry_bytes e), offset = length pre\<rparr> s = Inr (s, Some (length pre))"
proof (cases e)
  case (EPut doc)
  let ?pre = "pre @ [OP_PUT]"
  have "m - 1 < length (write_document doc)" using assms(2, 3) EPut by (simp del: length_write_document)
  then obtain msg where "read_document \<lparr>bytes = ?pre @ take (m - 1) (write_document doc), offset = length ?pre\<rparr> = Inl (UnexpectedEof msg)"
    using starves_document [of doc] assms(1) EPut unfolding starves_def by fastforce
  moreover have "take m (entry_bytes e) = OP_PUT # take (m - 1) (write_document doc)" using assms(2) EPut by (cases m) (simp_all add: write_u8_def)
  ultimately show ?thesis by (subst scan_loop.simps) (simp add: file_u8_eq)
next
  case (EDel ext v)
  let ?pre = "pre @ [OP_DELETE]" and ?x = "write_string ext @ write_u64 v"
  have "m - 1 < length ?x" using assms(2, 3) EDel by simp
  then obtain msg where "delete_reader \<lparr>bytes = ?pre @ take (m - 1) ?x, offset = length ?pre\<rparr> = Inl (UnexpectedEof msg)"
    using starves_delete [of ext v] assms(1) EDel unfolding starves_def by fastforce
  moreover have "take m (entry_bytes e) = OP_DELETE # take (m - 1) ?x" using assms(2) EDel by (cases m) (simp_all add: write_u8_def)
  ultimately show ?thesis by (subst scan_loop.simps) (simp add: file_u8_eq OP_DELETE_def OP_PUT_def)
qed

end
