(* ===== verification/Store_Reopen.thy ===== *)
theory Store_Reopen
  imports Store_Scan
begin

text \<open>
  The document store opened again: as long as no call fails, the maps of a store are what a scan of its folder
  gives, so that opening the folder, even with a last record that was cut short, restores every document.
\<close>

section \<open>The log of a folder\<close>

type_synonym store_log = "(u32 \<times> store_entry list) list"

fun loc_entry :: "u32 \<Rightarrow> nat \<Rightarrow> store_entry \<Rightarrow> (u8 list, doc_location) omap \<Rightarrow> (u8 list, doc_location) omap" where
  "loc_entry n off (EPut doc) locs =
     omap_insert (external_id doc) \<lparr>loc_internal = internal_id doc, loc_offset = off + 1, loc_segment = n, loc_len = of_nat (length (write_document doc))\<rparr> locs"
| "loc_entry n off (EDel ext v) locs =
     (case omap_get locs ext of Some loc \<Rightarrow> if loc_internal loc \<le> v then omap_remove ext locs else locs | None \<Rightarrow> locs)"

fun loc_entries :: "u32 \<Rightarrow> nat \<Rightarrow> store_entry list \<Rightarrow> (u8 list, doc_location) omap \<Rightarrow> (u8 list, doc_location) omap" where
  "loc_entries n off [] locs = locs"
| "loc_entries n off (e # es) locs = loc_entries n (off + length (entry_bytes e)) es (loc_entry n off e locs)"

fun replay_log :: "store_log \<Rightarrow> doc_store \<Rightarrow> doc_store" where
  "replay_log [] s = s"
| "replay_log ((n, es) # lg) s = replay_log lg (apply_entries n 8 es s)"

definition log_locations :: "store_log \<Rightarrow> (u8 list, doc_location) omap" where
  "log_locations lg = fold (\<lambda>(n, es). loc_entries n 8 es) lg []"

lemma apply_entry_fields:
  "st_locations (apply_entry n off e s) = loc_entry n off e (st_locations s)"
  "st_docs s = [] \<Longrightarrow> st_docs (apply_entry n off e s) = []"
  "st_path (apply_entry n off e s) = st_path s" "st_current (apply_entry n off e s) = st_current s" "st_next (apply_entry n off e s) = st_next s"
  by (cases e; auto simp: apply_put_def apply_delete_def note_id_def cache_invalidate_def omap_remove_def Let_def split: option.splits)+

lemma apply_entries_fields:
  "st_locations (apply_entries n off es s) = loc_entries n off es (st_locations s)"
  "st_docs s = [] \<Longrightarrow> st_docs (apply_entries n off es s) = []"
  "st_path (apply_entries n off es s) = st_path s" "st_current (apply_entries n off es s) = st_current s" "st_next (apply_entries n off es s) = st_next s"
  by (induction n off es s rule: apply_entries.induct) (simp_all add: apply_entry_fields)

lemma replay_log_fields:
  "st_locations (replay_log lg s) = fold (\<lambda>(n, es). loc_entries n 8 es) lg (st_locations s)"
  "st_docs s = [] \<Longrightarrow> st_docs (replay_log lg s) = []"
  "st_path (replay_log lg s) = st_path s" "st_current (replay_log lg s) = st_current s" "st_next (replay_log lg s) = st_next s"
  by (induction lg s rule: replay_log.induct) (simp_all add: apply_entries_fields)

lemma replay_log_append: "replay_log (a @ b) s = replay_log b (replay_log a s)"
  by (induction a s rule: replay_log.induct) simp_all

lemma entries_bytes_append [simp]: "entries_bytes (a @ b) = entries_bytes a @ entries_bytes b"
  by (simp add: entries_bytes_def)

lemma loc_entries_append: "loc_entries n off (a @ b) locs = loc_entries n (off + length (entries_bytes a)) b (loc_entries n off a locs)"
  by (induction n off a locs rule: loc_entries.induct) (simp_all add: entries_bytes_def add.assoc)

lemma log_locations_append:
  "log_locations (lg @ [(n, es @ es')]) = loc_entries n (8 + length (entries_bytes es)) es' (log_locations (lg @ [(n, es)]))"
  by (simp add: log_locations_def loc_entries_append)

text \<open>A segment file with these entries.\<close>

definition has_entries :: "store_disk \<Rightarrow> u8 list \<Rightarrow> u32 \<Rightarrow> store_entry list \<Rightarrow> bool" where
  "has_entries k magic n es \<longleftrightarrow> (\<forall>e \<in> set es. entry_fits e) \<and> (\<exists>fl. get_file k n = Some fl \<and> wf_bytes fl = magic @ entries_bytes es)"

lemma magic_lengths [simp]: "length COMPACTED_MAGIC = 8" "length MAPS_MAGIC = 8"
  by (simp_all add: COMPACTED_MAGIC_def MAPS_MAGIC_def ascii_def)

lemma magics_differ [simp]: "COMPACTED_MAGIC \<noteq> STORE_MAGIC" "STORE_MAGIC \<noteq> COMPACTED_MAGIC"
  by (simp_all add: COMPACTED_MAGIC_def STORE_MAGIC_def ascii_def)

lemma has_magic: "has_entries k magic n es \<Longrightarrow> length magic = 8 \<Longrightarrow> segment_magic dir k n = Inr magic"
  by (auto simp: has_entries_def segment_magic_def read_exact_def Let_def)

lemma scan_has_entries:
  assumes "has_entries k magic n es" and "magic = STORE_MAGIC \<or> magic = COMPACTED_MAGIC"
  shows "scan_segment f n None (s, k) = Inr (apply_entries n 8 es s, k)"
proof -
  obtain fl where fl: "get_file k n = Some fl" "wf_bytes fl = magic @ entries_bytes es" "\<forall>e \<in> set es. entry_fits e"
    using assms(1) by (auto simp: has_entries_def)
  have m: "length magic = 8" using assms(2) by auto
  have "scan_loop n t p \<lparr>bytes = magic @ entries_bytes es @ [], offset = length magic\<rparr> s = Inr (apply_entries n 8 es s, None)" for t p
    by (subst scan_loop_entries [OF fl(3)]) (simp add: m scan_loop_end)
  then have "scan_loop n t p \<lparr>bytes = wf_bytes fl, offset = 8\<rparr> s = Inr (apply_entries n 8 es s, None)" for t p by (simp add: fl(2) m)
  then show ?thesis using has_magic [OF assms(1) m] fl(1) assms(2) by (auto simp: scan_segment_def Let_def)
qed

lemma scan_log:
  "\<forall>(n, es) \<in> set lg. has_entries k STORE_MAGIC n es \<or> has_entries k COMPACTED_MAGIC n es \<Longrightarrow>
    scan_segments f (map (\<lambda>n. (n, None)) (map fst lg) @ rest) (s, k) = scan_segments f rest (replay_log lg s, k)"
proof (induction lg s rule: replay_log.induct)
  case (2 n es lg s)
  then have "scan_segment f n None (s, k) = Inr (apply_entries n 8 es s, k)" using scan_has_entries by auto
  with 2 show ?case by simp
qed simp

text \<open>The folder and the store it belongs to, with writes going to its last segment.\<close>

definition folder_log :: "store_state \<Rightarrow> store_log \<Rightarrow> u32 \<Rightarrow> store_entry list \<Rightarrow> bool" where
  "folder_log = (\<lambda>(s, k) lg n es.
     list_segment_ids (sk_files k) = map fst lg @ [n] \<and> distinct (map fst lg @ [n]) \<and> st_current s = n \<and>
     (\<forall>(i, fs) \<in> set (lg @ [(n, es)]). has_entries k STORE_MAGIC i fs))"

lemma has_entries_put_other: "omap_ok (sk_files k) \<Longrightarrow> i \<noteq> n \<Longrightarrow> has_entries (put_file n fl k) magic i es = has_entries k magic i es"
  by (simp add: has_entries_def get_put_file)

lemma ids_same: "omap_ok (sk_files k) \<Longrightarrow> get_file k n \<noteq> None \<Longrightarrow> list_segment_ids (sk_files (put_file n fl k)) = list_segment_ids (sk_files k)"
  unfolding list_segment_ids_numbers put_file_def get_file_def by (simp add: numbers_same)

lemma ids_new:
  "omap_ok (sk_files k) \<Longrightarrow> get_file k n = None \<Longrightarrow> \<forall>i \<in> set (list_segment_ids (sk_files k)). i < n \<Longrightarrow>
    list_segment_ids (sk_files (put_file n fl k)) = list_segment_ids (sk_files k) @ [n]"
  unfolding list_segment_ids_numbers put_file_def get_file_def by (simp add: sf.numbers_new)

lemma folder_append:
  assumes ok: "omap_ok (sk_files k)" and fl: "folder_log (s, k) lg n es" "get_file k n = Some fl" and fits: "\<forall>e \<in> set es'. entry_fits e"
  shows "folder_log (s, put_file n (append_bytes (entries_bytes es') fl) k) lg n (es @ es')"
proof -
  have "has_entries k STORE_MAGIC i fs" if "(i, fs) \<in> set lg" for i fs using fl(1) that by (auto simp: folder_log_def)
  moreover have "i \<noteq> n" if "(i, fs) \<in> set lg" for i fs using fl(1) that by (force simp: folder_log_def)
  moreover have "wf_bytes fl = STORE_MAGIC @ entries_bytes es" "\<forall>e \<in> set es. entry_fits e" using fl by (auto simp: folder_log_def has_entries_def)
  ultimately show ?thesis using fl fits ok
    by (auto simp: folder_log_def ids_same has_entries_put_other) (auto simp: has_entries_def get_put_file)
qed

abbreviation NF :: store_faults where
  "NF \<equiv> \<lambda>_. None"

text \<open>A store whose maps are what a scan of its folder gives.\<close>

definition recoverable :: "store_state \<Rightarrow> bool" where
  "recoverable sk \<longleftrightarrow> (\<exists>lg n es. folder_log sk lg n es \<and> st_locations (fst sk) = log_locations (lg @ [(n, es)]))"

lemma folder_ids_below:
  assumes "store_inv (s, k) M" and "folder_log (s, k) lg n es"
  shows "\<forall>i \<in> set (list_segment_ids (sk_files k)). i < st_next s"
proof -
  have "get_file k i \<noteq> None" if "i \<in> set (list_segment_ids (sk_files k))" for i
    using assms(2) that by (fastforce simp: folder_log_def has_entries_def)
  then show ?thesis using store_invD(9) [OF assms(1)] by blast
qed

lemma folder_log_store: "folder_log (s, k) lg n es \<Longrightarrow> st_current s' = st_current s \<Longrightarrow> folder_log (s', k) lg n es"
  by (simp add: folder_log_def)

lemma rotate_folder:
  assumes inv: "store_inv (s, k) M" and f: "folder_log (s, k) lg n es" and r: "maybe_rotate_segment NF (s, k) = (sk', r)"
  shows "\<exists>lg' n' es'. folder_log sk' lg' n' es' \<and> log_locations (lg' @ [(n', es')]) = log_locations (lg @ [(n, es)])"
    and "r = Inr ()" and "st_locations (fst sk') = st_locations s"
proof -
  note I = store_invD [OF inv]
  obtain fl where fl: "get_file k n = Some fl" using I(8) f by (auto simp: folder_log_def)
  have cur: "st_current s = n" using f by (simp add: folder_log_def)
  let ?m = "st_next s"
  let ?k = "put_file ?m (append_bytes STORE_MAGIC file_new) k" and ?s = "s\<lparr>st_next := ?m + 1, st_current := ?m\<rparr>"
  note below = folder_ids_below [OF inv f]
  have free: "get_file k ?m = None" using I(9) by blast
  have ids: "list_segment_ids (sk_files ?k) = map fst (lg @ [(n, es)]) @ [?m]"
    using ids_new [OF I(3) free below] f by (simp add: folder_log_def)
  have "?m \<notin> set (list_segment_ids (sk_files k))" using below by auto
  then have dist: "distinct (map fst (lg @ [(n, es)]) @ [?m])" and ne: "\<forall>(i, fs) \<in> set (lg @ [(n, es)]). i \<noteq> ?m" using f by (auto simp: folder_log_def rev_image_eqI)
  have "has_entries ?k STORE_MAGIC ?m []" using I(3) by (simp add: has_entries_def get_put_file entries_bytes_def)
  moreover have "has_entries ?k STORE_MAGIC i fs" if "(i, fs) \<in> set (lg @ [(n, es)])" for i fs
  proof -
    have "i \<noteq> ?m" using ne that by auto
    moreover have "has_entries k STORE_MAGIC i fs" using f that by (auto simp: folder_log_def)
    ultimately show ?thesis by (simp add: has_entries_put_other [OF I(3)])
  qed
  ultimately have "folder_log (?s, ?k) (lg @ [(n, es)]) ?m []" using ids dist by (auto simp: folder_log_def)
  moreover have "log_locations ((lg @ [(n, es)]) @ [(?m, [])]) = log_locations (lg @ [(n, es)])" by (simp add: log_locations_def)
  ultimately have rot: "\<exists>lg' n' es'. folder_log (?s, ?k) lg' n' es' \<and> log_locations (lg' @ [(n', es')]) = log_locations (lg @ [(n, es)])" by blast
  have "sk' = (s, k) \<or> sk' = (?s, ?k)" and "r = Inr ()"
    using r fl cur by (auto simp: maybe_rotate_segment_def Let_def split: if_splits)
  then show "\<exists>lg' n' es'. folder_log sk' lg' n' es' \<and> log_locations (lg' @ [(n', es')]) = log_locations (lg @ [(n, es)])"
    and "r = Inr ()" and "st_locations (fst sk') = st_locations s" using f rot by auto
qed

text \<open>Appending entries and rotating.\<close>

lemma append_rotate:
  assumes inv: "store_inv (s, k) M" and rec: "recoverable (s, k)" and fl: "get_file k (st_current s) = Some fl" and fits: "\<forall>e \<in> set es'. entry_fits e"
    and s1: "store_inv (s1, put_file (st_current s) (append_bytes (entries_bytes es') fl) k) M1" "st_current s1 = st_current s"
    and r: "maybe_rotate_segment NF (s1, put_file (st_current s) (append_bytes (entries_bytes es') fl) k) = ((s', k'), r)"
  shows "\<exists>lg n es. folder_log (s', k') lg n es \<and>
      log_locations (lg @ [(n, es)]) = loc_entries (st_current s) (length (wf_bytes fl)) es' (st_locations s)"
    and "r = Inr ()" and "st_locations s' = st_locations s1"
proof -
  obtain lg n es where lg: "folder_log (s, k) lg n es" "st_locations s = log_locations (lg @ [(n, es)])"
    using rec by (auto simp: recoverable_def)
  have n: "st_current s = n" using lg(1) by (simp add: folder_log_def)
  have len: "length (wf_bytes fl) = 8 + length (entries_bytes es)" using lg(1) fl n by (auto simp: folder_log_def has_entries_def)
  have f: "folder_log (s1, put_file n (append_bytes (entries_bytes es') fl) k) lg n (es @ es')"
    using folder_append [OF store_invD(3) [OF inv] lg(1) _ fits] fl n s1(2) by (auto intro: folder_log_store)
  note ro = rotate_folder [OF s1(1) [unfolded n] f r [unfolded n]]
  from ro(1) show "\<exists>lg n es. folder_log (s', k') lg n es \<and>
      log_locations (lg @ [(n, es)]) = loc_entries (st_current s) (length (wf_bytes fl)) es' (st_locations s)"
    by (simp add: log_locations_append n len lg(2))
  show "r = Inr ()" "st_locations s' = st_locations s1" using ro(2, 3) by simp_all
qed

lemma recoverableI: "folder_log sk lg n es \<Longrightarrow> st_locations (fst sk) = log_locations (lg @ [(n, es)]) \<Longrightarrow> recoverable sk"
  by (auto simp: recoverable_def)

lemma put_recoverable:
  assumes inv: "store_inv (s, k) M" and up: "st_next s < st_next s + 1" and rec: "recoverable (s, k)" and fits: "doc_fits doc"
    and r: "store_put NF kept doc (s, k) = (sk', r)"
  shows "recoverable sk'" and "r = Inr ()"
proof -
  note I = store_invD [OF inv]
  obtain fl where fl: "get_file k (st_current s) = Some fl" using I(8) by blast
  let ?k = "put_file (st_current s) (append_bytes (entries_bytes [EPut doc]) fl) k"
  obtain s1 k1 r1 where ro: "maybe_rotate_segment NF (s, ?k) = ((s1, k1), r1)" by (metis surj_pair)
  have inv1: "store_inv (s, ?k) M" by (rule moved_inv [OF inv append_moved [OF inv fl]])
  note ar = append_rotate [OF inv rec fl _ inv1 refl ro]
  obtain lg n es where lg: "folder_log (s1, k1) lg n es"
      "log_locations (lg @ [(n, es)]) = loc_entries (st_current s) (length (wf_bytes fl)) [EPut doc] (st_locations s)"
    and r1: "r1 = Inr ()" "st_locations s1 = st_locations s" using ar fits by auto
  let ?loc = "\<lparr>loc_internal = internal_id doc, loc_offset = length (wf_bytes fl) + 1, loc_segment = st_current s, loc_len = of_nat (length (write_document doc))\<rparr>"
  let ?s = "cache_insert kept (external_id doc) doc (map_document doc ?loc (note_id (internal_id doc) s1))"
  have "append_put NF doc (s, k) = ((s1, k1), Inr ?loc)"
    using fl ro r1(1) by (simp add: append_put_def Let_def entries_bytes_def)
  then have sk': "sk' = (?s, k1)" "r = Inr ()" using r by (auto simp: store_put_def)
  have "folder_log (?s, k1) lg n es" by (rule folder_log_store [OF lg(1)]) simp
  then show "recoverable sk'" unfolding sk' by (rule recoverableI) (simp add: lg(2) r1(2))
  show "r = Inr ()" by (rule sk')
qed

lemma delete_recoverable:
  assumes inv: "store_inv (s, k) M" and up: "st_next s < st_next s + 1" and rec: "recoverable (s, k)"
    and r: "store_delete NF ext (s, k) = (sk', r)"
  shows "recoverable sk'" and "r = Inr ()"
proof -
  note I = store_invD [OF inv]
  have "recoverable sk' \<and> r = Inr ()"
  proof (cases "omap_get (st_locations s) ext")
    case None
    then show ?thesis using r rec by (auto simp: store_delete_def)
  next
    case (Some loc)
    then obtain doc where "holds_doc k ext loc doc" by (rule store_inv_location [OF inv])
    then have fits: "entry_fits (EDel ext 0)" by (auto simp: place_holds_def record_at_def doc_fits_def)
    obtain fl where fl: "get_file k (st_current s) = Some fl" using I(8) by blast
    let ?es = "[EDel ext (loc_internal loc)]"
    let ?k = "put_file (st_current s) (append_bytes (entries_bytes ?es) fl) k"
    obtain s1 k1 r1 where ro: "maybe_rotate_segment NF (s, ?k) = ((s1, k1), r1)" by (metis surj_pair)
    have inv1: "store_inv (s, ?k) M" by (rule moved_inv [OF inv append_moved [OF inv fl]])
    note ar = append_rotate [OF inv rec fl _ inv1 refl ro]
    obtain lg n es where lg: "folder_log (s1, k1) lg n es"
        "log_locations (lg @ [(n, es)]) = loc_entries (st_current s) (length (wf_bytes fl)) ?es (st_locations s)"
      and r1: "r1 = Inr ()" "st_locations s1 = st_locations s" using ar fits by auto
    let ?s = "cache_invalidate ext (s1\<lparr>st_locations := omap_remove ext (st_locations s1), st_internal := omap_remove (loc_internal loc) (st_internal s1)\<rparr>)"
    have "store_append_delete NF ext (loc_internal loc) (s, k) = ((s1, k1), Inr ())"
      using fl ro r1(1) by (simp add: store_append_delete_def Let_def entries_bytes_def)
    then have sk': "sk' = (?s, k1)" "r = Inr ()" using r Some r1(2) by (auto simp: store_delete_def)
    have "folder_log (?s, k1) lg n es" by (rule folder_log_store [OF lg(1)]) simp
    then have "recoverable sk'" unfolding sk' by (rule recoverableI) (simp add: lg(2) r1(2) Some)
    with sk' show ?thesis by simp
  qed
  then show "recoverable sk'" and "r = Inr ()" by auto
qed

lemma batch_loop_locations:
  "\<forall>i. f (BatchWrite i) = None \<Longrightarrow> batch_loop f kept n i ds start data s = (s', data', r) \<Longrightarrow>
    st_locations s' = loc_entries n (start + length data) (map EPut ds) (st_locations s)"
  by (induction f kept n i ds start data s rule: batch_loop.induct) (auto simp: Let_def add.assoc)

lemma batch_recoverable:
  assumes inv: "store_inv (s, k) M" and up: "st_next s < st_next s + 1" and rec: "recoverable (s, k)" and fits: "\<forall>doc \<in> set ds. doc_fits doc"
    and r: "put_batch NF kept ds (s, k) = (sk', r)"
  shows "recoverable sk'" and "r = Inr ()"
proof -
  note I = store_invD [OF inv]
  obtain fl where fl: "get_file k (st_current s) = Some fl" using I(8) by blast
  let ?es = "map EPut ds"
  have bytes: "batch_bytes ds = entries_bytes ?es" by (simp add: batch_bytes_def entries_bytes_def comp_def)
  let ?k = "put_file (st_current s) (append_bytes (entries_bytes ?es) fl) k"
  have inv1: "store_inv (s, ?k) M" by (rule moved_inv [OF inv append_moved [OF inv fl]])
  have got: "get_file ?k (st_current s) = Some (append_bytes (entries_bytes ?es) fl)" using I(3) by (simp add: get_put_file)
  obtain s1 where s1: "batch_loop NF kept (st_current s) 0 ds (length (wf_bytes fl)) [] s = (s1, entries_bytes ?es, Inr ())"
      "st_current s1 = st_current s" and inv2: "store_inv (s1, ?k) (add_documents ds M)"
    using batch_loop_ok [OF _ fits refl, of NF kept "st_current s" 0 "wf_bytes fl" "[]" s] inv1 got bytes by fastforce
  have locs: "st_locations s1 = loc_entries (st_current s) (length (wf_bytes fl)) ?es (st_locations s)"
    using batch_loop_locations [OF _ s1(1)] by simp
  obtain s2 k2 r2 where ro: "maybe_rotate_segment NF (s1, ?k) = ((s2, k2), r2)" by (metis surj_pair)
  note ar = append_rotate [OF inv rec fl _ inv2 s1(2) ro]
  obtain lg n es where lg: "folder_log (s2, k2) lg n es" "log_locations (lg @ [(n, es)]) = st_locations s1"
    and r2: "r2 = Inr ()" "st_locations s2 = st_locations s1" using ar fits locs by auto
  have "sk' = (s2, k2)" "r = Inr ()" using r fl s1(1) ro r2(1) by (auto simp: put_batch_def Let_def)
  moreover have "recoverable (s2, k2)" by (rule recoverableI [OF lg(1)]) (simp add: lg(2) r2(2))
  ultimately show "recoverable sk'" and "r = Inr ()" by auto
qed

section \<open>Opening the folder again\<close>

lemma same_bytes_entries: "same_bytes k k' \<Longrightarrow> has_entries k magic n es \<Longrightarrow> has_entries k' magic n es"
  unfolding same_bytes_def has_entries_def by (metis (no_types, lifting) map_option_eq_Some)

lemma scan_torn:
  assumes ok: "omap_ok (sk_files k)" and has: "has_entries k STORE_MAGIC n es" and fl: "get_file k n = Some fl" and e: "entry_fits e" "m < length (entry_bytes e)"
  defines "k1 \<equiv> put_file n (append_bytes (take m (entry_bytes e)) fl) k"
  shows "\<exists>k2. scan_segment NF n None (s, k1) = Inr (apply_entries n 8 es s, k2) \<and> same_bytes k k2 \<and>
    list_segment_ids (sk_files k2) = list_segment_ids (sk_files k)"
proof -
  have b: "wf_bytes fl = STORE_MAGIC @ entries_bytes es" and fits: "\<forall>e \<in> set es. entry_fits e" using has fl by (auto simp: has_entries_def)
  let ?fl = "append_bytes (take m (entry_bytes e)) fl"
  have f1: "get_file k1 n = Some ?fl" and ok1: "omap_ok (sk_files k1)" using ok by (simp_all add: k1_def get_put_file put_file_ok)
  have ids1: "list_segment_ids (sk_files k1) = list_segment_ids (sk_files k)" using ok fl by (simp add: k1_def ids_same)
  have mag: "segment_magic dir k1 n = Inr STORE_MAGIC" for dir using f1 by (simp add: segment_magic_def read_exact_def b)
  have scan: "scan_loop n True p \<lparr>bytes = wf_bytes ?fl, offset = 8\<rparr> s = Inr (apply_entries n 8 es s, if m = 0 then None else Some (length (wf_bytes fl)))" for p
  proof -
    have "scan_loop n True p \<lparr>bytes = STORE_MAGIC @ entries_bytes es @ take m (entry_bytes e), offset = length STORE_MAGIC\<rparr> s =
      scan_loop n True p \<lparr>bytes = STORE_MAGIC @ entries_bytes es @ take m (entry_bytes e), offset = length STORE_MAGIC + length (entries_bytes es)\<rparr>
        (apply_entries n (length STORE_MAGIC) es s)" by (rule scan_loop_entries [OF fits])
    also have "\<dots> = Inr (apply_entries n 8 es s, if m = 0 then None else Some (length (wf_bytes fl)))"
      using scan_loop_torn [OF e(1) _ e(2), of n p "STORE_MAGIC @ entries_bytes es" "apply_entries n 8 es s"] b by (auto simp: scan_loop_end)
    finally show ?thesis by (simp add: b)
  qed
  let ?k2 = "if m = 0 then k1 else put_file n (set_len (length (wf_bytes fl)) ?fl) k1"
  have "scan_segment NF n None (s, k1) = Inr (apply_entries n 8 es s, ?k2)"
    using mag f1 scan by (simp add: scan_segment_def Let_def)
  moreover have "same_bytes k ?k2"
    using ok ok1 fl by (auto simp: same_bytes_def k1_def get_put_file put_file_ok other_file_put set_len_def)
  moreover have "list_segment_ids (sk_files ?k2) = list_segment_ids (sk_files k)" using ids1 ids_same [OF ok1] f1 by simp
  ultimately show ?thesis by blast
qed

lemma word_up: "(a :: u32) < b \<Longrightarrow> a < a + 1"
  using unat_u32_lt [of b] by (simp add: word_less_nat_alt unat_word_ariths)

lemma reopen_torn:
  assumes inv: "store_inv (s, k) M" and rec: "recoverable (s, k)" and fl: "get_file k (st_current s) = Some fl"
    and e: "entry_fits e" "m < length (entry_bytes e)"
  shows "\<exists>sk2. store_open NF dir (put_file (st_current s) (append_bytes (take m (entry_bytes e)) fl) k) = Inr sk2 \<and> store_inv sk2 M"
proof -
  note I = store_invD [OF inv]
  obtain lg n es where lg: "folder_log (s, k) lg n es" "st_locations s = log_locations (lg @ [(n, es)])"
    using rec by (auto simp: recoverable_def)
  have n: "st_current s = n" and ids: "list_segment_ids (sk_files k) = map fst lg @ [n]" and dist: "distinct (map fst lg @ [n])"
    and has: "\<And>i fs. (i, fs) \<in> set (lg @ [(n, es)]) \<Longrightarrow> has_entries k STORE_MAGIC i fs" using lg(1) by (auto simp: folder_log_def)
  let ?k1 = "put_file n (append_bytes (take m (entry_bytes e)) fl) k"
  let ?s0 = "\<lparr>st_path = dir, st_docs = [], st_internal = [], st_locations = [], st_current = n, st_next = n + 1, st_unsynced = n, st_highest = 0\<rparr>"
  have ids1: "list_segment_ids (sk_files ?k1) = map fst lg @ [n]" using ids_same [OF I(3)] fl n ids by simp
  have "sorted (map fst lg @ [n])" by (metis ids list_segment_ids_numbers numbers_sorted)
  then have le: "i \<le> n" if "i \<in> set (map fst lg @ [n])" for i using that by (auto simp: sorted_append)
  then have "Max (set (map fst lg @ [n])) = n" by (intro Max_eqI) auto
  then have b: "store_begin NF dir ?k1 = Inr (?s0, ?k1)" using ids1 by (simp add: store_begin_def Let_def)
  obtain k2 where k2: "scan_segment NF n None (replay_log lg ?s0, ?k1) = Inr (apply_entries n 8 es (replay_log lg ?s0), k2)" "same_bytes k k2"
      "list_segment_ids (sk_files k2) = map fst lg @ [n]"
    using scan_torn [OF I(3) has [of n es] _ e, of fl "replay_log lg ?s0"] fl n ids by auto
  have "has_entries ?k1 STORE_MAGIC i fs" if "(i, fs) \<in> set lg" for i fs
  proof -
    have "i \<noteq> n" using dist that by (auto simp: rev_image_eqI)
    then show ?thesis using has [of i fs] that by (simp add: has_entries_put_other [OF I(3)])
  qed
  then have "scan_segments NF (map (\<lambda>n. (n, None)) (map fst lg) @ [(n, None)]) (?s0, ?k1) = scan_segments NF [(n, None)] (replay_log lg ?s0, ?k1)"
    by (intro scan_log) auto
  then have l: "store_load NF (?s0, ?k1) = Inr (replay_log (lg @ [(n, es)]) ?s0, k2)"
    using k2(1) by (simp add: store_load_def ids1 replay_log_append)
  let ?s1 = "replay_log (lg @ [(n, es)]) ?s0" let ?s2 = "?s1\<lparr>st_current := n, st_unsynced := n\<rparr>"
  have "has_entries k2 STORE_MAGIC n es" by (rule same_bytes_entries [OF k2(2)]) (simp add: has)
  then have c: "choose_append NF (?s1, k2) = Inr (?s2, k2)" by (simp add: choose_append_def k2(3) has_magic)
  have op: "store_open NF dir ?k1 = Inr (?s2, k2)" by (simp add: store_open_def b l c)
  have locs: "st_locations ?s2 = st_locations s" by (simp add: replay_log_fields lg(2) log_locations_def)
  have mv: "moved (s, k) (s, k2)" by (rule same_bytes_moved [OF inv k2(2)]) simp_all
  have up: "n < n + 1" using word_up I(7) n by blast
  have "get_file k2 i = None \<longleftrightarrow> get_file k i = None" for i using k2(2) by (metis option.map_disc_iff same_bytes_def)
  then have below: "i < n + 1" if "get_file k2 i \<noteq> None" for i
    using get_file_listed [of k i] that le [of i] up ids by (metis not_None_eq order_le_less_trans)
  have "store_inv (?s2, k2) M"
    using moved_inv [OF inv mv] locs up below n by (simp add: store_inv_def replay_log_fields del: not_None_eq)
  with op n show ?thesis by auto
qed

lemma sync_files_ids: "omap_ok (sk_files k) \<Longrightarrow> list_segment_ids (sk_files (fst (sync_files f dir ids k))) = list_segment_ids (sk_files k)"
proof (induction f dir ids k rule: sync_files.induct)
  case (2 f dir n ids k)
  then show ?case by (auto simp: ids_same put_file_ok split: option.splits)
qed simp

lemma sync_recoverable:
  assumes inv: "store_inv (s, k) M" and rec: "recoverable (s, k)" and r: "store_sync f (s, k) = (sk', r)"
  shows "recoverable sk'"
proof -
  obtain lg n es where lg: "folder_log (s, k) lg n es" "st_locations s = log_locations (lg @ [(n, es)])" using rec by (auto simp: recoverable_def)
  obtain k1 r1 where sy: "sync_files f (st_path s) (map of_nat [unat (st_unsynced s)..<Suc (unat (st_current s))]) k = (k1, r1)" by fastforce
  have "same_bytes k k1" "list_segment_ids (sk_files k1) = list_segment_ids (sk_files k)"
    using sync_files_bytes [OF store_invD(3) [OF inv]] sync_files_ids [OF store_invD(3) [OF inv]] sy by (metis fst_conv)+
  then have f: "folder_log (s1, k1) lg n es" if "st_current s1 = st_current s" for s1
    using lg(1) that by (auto simp: folder_log_def intro: same_bytes_entries)
  obtain s1 where "sk' = (s1, k1)" "st_current s1 = st_current s" "st_locations s1 = st_locations s"
    using r sy by (auto simp: store_sync_def simp del: upt_Suc split: option.splits sum.splits if_splits)
  then show ?thesis using f [of s1] lg(2) by (auto intro: recoverableI)
qed

lemma get_recoverable:
  assumes inv: "store_inv (s, k) M" and rec: "recoverable (s, k)" and r: "store_get kept ext (s, k) = (sk', r)"
  shows "recoverable sk'"
proof -
  obtain lg n es where lg: "folder_log (s, k) lg n es" "st_locations s = log_locations (lg @ [(n, es)])" using rec by (auto simp: recoverable_def)
  obtain s' where s': "sk' = (s', k)" "st_locations s' = st_locations s" "st_current s' = st_current s"
    using store_get_ok [OF inv, of kept ext] r by auto
  have "folder_log (s', k) lg n es" by (rule folder_log_store [OF lg(1) s'(3)])
  then show ?thesis unfolding s'(1) by (rule recoverableI) (simp add: lg(2) s'(2))
qed

text \<open>Runs in which no call fails and nothing is compacted.\<close>

fun plain_op :: "'g store_op \<Rightarrow> bool" where
  "plain_op (Put f kept doc) \<longleftrightarrow> f = NF"
| "plain_op (PutBatch f kept ds) \<longleftrightarrow> f = NF"
| "plain_op (Get kept ext) \<longleftrightarrow> True"
| "plain_op (Delete f ext) \<longleftrightarrow> f = NF"
| "plain_op (Sync f) \<longleftrightarrow> f = NF"
| "plain_op _ \<longleftrightarrow> False"

lemma plain_not_failed: "plain_op op \<Longrightarrow> \<not> failed_batch op out"
  by (cases op; cases out) (auto simp: batch_torn_def)

lemma exec_recoverable:
  assumes inv: "store_inv sk M" and rec: "recoverable sk" and op: "plain_op op" "op_fits op (fst sk)" and ex: "store_exec bin op (sk, NoJob) = (sys', out)"
  shows "recoverable (fst sys') \<and> snd sys' = NoJob"
proof -
  obtain s k where sk: "sk = (s, k)" by fastforce
  note I = inv [unfolded sk] and R = rec [unfolded sk]
  have up: "st_next s < st_next s + 1" using op(2) by (cases op) (auto simp: sk)
  show ?thesis
  proof (cases op)
    case (Put f kept doc)
    then show ?thesis using op ex put_recoverable(1) [OF I up R] by (auto simp: sk split: prod.splits)
  next
    case (PutBatch f kept ds)
    then show ?thesis using op ex batch_recoverable(1) [OF I up R] by (auto simp: sk split: prod.splits)
  next
    case (Get kept ext)
    then show ?thesis using ex get_recoverable [OF I R] by (auto simp: sk split: prod.splits)
  next
    case (Delete f ext)
    then show ?thesis using op ex delete_recoverable(1) [OF I up R] by (auto simp: sk split: prod.splits)
  next
    case (Sync f)
    then show ?thesis using op ex sync_recoverable [OF I R] by (auto simp: sk split: prod.splits)
  qed (use op(1) in auto)
qed

lemma runs_recoverable:
  "store_inv sk M \<Longrightarrow> recoverable sk \<Longrightarrow> \<forall>op \<in> set ops. plain_op op \<Longrightarrow> run_fits bin ops (sk, NoJob) \<Longrightarrow>
    store_runs bin ops (sk, NoJob) = ((sk', ph), outs) \<Longrightarrow> recoverable sk'"
proof (induction ops arbitrary: sk M outs)
  case (Cons op ops)
  obtain sys1 out where e: "store_exec bin op (sk, NoJob) = (sys1, out)" by fastforce
  obtain sk1 where sk1: "sys1 = (sk1, NoJob)" "recoverable sk1"
    using exec_recoverable [OF Cons.prems(1, 2) _ _ e] Cons.prems(3, 4) by (cases sys1) auto
  obtain outs1 where r: "store_runs bin ops (sk1, NoJob) = ((sk', ph), outs1)" using Cons.prems(5) e sk1(1) by (auto split: prod.splits)
  obtain M1 where "system_inv (sk1, NoJob) M1"
    using store_exec_ok [of "(sk, NoJob)" M op bin "(sk1, NoJob)" out] Cons.prems(1, 3, 4) e sk1(1) plain_not_failed by (auto simp: system_inv_def)
  then have "store_inv sk1 M1" by (simp add: system_inv_def)
  from Cons.IH [OF this sk1(2) _ _ r] Cons.prems(3, 4) e sk1(1) show ?case by auto
qed auto

lemma new_recoverable: "recoverable (new_store dir, new_folder)"
proof (rule recoverableI)
  show "folder_log (new_store dir, new_folder) [] 0 []"
    by (auto simp: folder_log_def new_folder_ids new_store_def has_entries_def new_folder_file entries_bytes_def)
qed (simp add: log_locations_def new_store_def)

section \<open>Properties\<close>

text \<open>C7. A store whose calls succeeded is restored by opening its folder: after every run of puts, batches, gets, deletes
  and syncs on a new store, even when the next put stops in the middle of its record (a crash while appending), scanning
  the folder cuts the incomplete record off and gives a store that returns the same documents.\<close>

theorem store_reopen_recovers:
  assumes "\<forall>op \<in> set ops. plain_op op" and "run_fits bin ops ((new_store dir, new_folder), NoJob)"
    and "store_runs bin ops ((new_store dir, new_folder), NoJob) = (((s, k), ph), outs)"
    and "doc_fits doc" and "f AppendOpen = None" and "f AppendWrite = Some (m, err)" and "m \<le> length (write_document doc)"
    and "store_put f kept doc (s, k) = ((s1, k1), r)"
  shows "\<exists>M sk2. spec_runs ops outs Map.empty M \<and> store_open (\<lambda>_. None) dir k1 = Inr sk2 \<and>
    (\<forall>kept ext. snd (store_get kept ext sk2) = Inr (M ext))"
proof -
  have "system_inv ((new_store dir, new_folder), NoJob) Map.empty" using new_store_inv by (simp add: system_inv_def)
  note runs = store_runs_ok [OF this assms(2, 3)]
  have "\<forall>op \<in> set ops. \<forall>out. \<not> failed_batch op out" using assms(1) plain_not_failed by blast
  from runs no_failed_batch [OF this] obtain M where "spec_runs ops outs Map.empty M" "system_inv ((s, k), ph) M" by metis
  then have M: "spec_runs ops outs Map.empty M" "store_inv (s, k) M" by (simp_all add: system_inv_def)
  have rec: "recoverable (s, k)" by (rule runs_recoverable [OF new_store_inv new_recoverable assms(1-3)])
  obtain fl where fl: "get_file k (st_current s) = Some fl" using store_invD(8) [OF M(2)] by blast
  have "k1 = put_file (st_current s) (append_bytes (take m (entry_bytes (EPut doc))) fl) k"
    using assms(5, 6, 8) fl by (auto simp: store_put_def append_put_def Let_def)
  then obtain sk2 where sk2: "store_open NF dir k1 = Inr sk2" "store_inv sk2 M"
    using reopen_torn [OF M(2) rec fl, of "EPut doc" m dir] assms(4, 7) by (auto simp del: length_write_document)
  have "snd (store_get kept ext sk2) = Inr (M ext)" for kept ext using store_get_settled(3) [OF sk2(2)] by (metis prod.collapse)
  with M(1) sk2(1) show ?thesis by blast
qed

definition sample_ops :: "unit store_op list" where
  "sample_ops = [PutBatch (\<lambda>_. None) (\<lambda>_. False) [sample_doc, other_doc], Delete (\<lambda>_. None) [97], Get (\<lambda>_. True) [98]]"

lemma sample_plain: "\<forall>op \<in> set sample_ops. plain_op op"
  by (simp add: sample_ops_def)

lemma sample_fits: "run_fits sample_bin sample_ops ((new_store [], new_folder), NoJob)"
  by (rule run_fits_short) (use sample_docs_fit in \<open>auto simp: sample_ops_def new_store_def\<close>)

theorem store_reopen_recovers_witness:
  "case store_runs sample_bin sample_ops ((new_store [], new_folder), NoJob) of (((s, k), ph), outs) \<Rightarrow>
     case store_put (\<lambda>c. if c = AppendWrite then Some (5, OtherError ''power'') else None) (\<lambda>_. True) sample_doc (s, k) of ((s1, k1), r) \<Rightarrow>
       \<exists>M sk2. spec_runs sample_ops outs Map.empty M \<and> store_open (\<lambda>_. None) [] k1 = Inr sk2 \<and>
         (\<forall>kept ext. snd (store_get kept ext sk2) = Inr (M ext))"
  using store_reopen_recovers [OF sample_plain sample_fits _ sample_docs_fit(1), where m = 5 and err = "OtherError ''power''"
      and f = "\<lambda>c. if c = AppendWrite then Some (5, OtherError ''power'') else None"]
  by (auto simp: sample_doc_def split: prod.split)

end
