(* ===== verification/Store_Faults.thy ===== *)
theory Store_Faults
  imports Store_Reopen
begin

text \<open>
  Two ways in which the document store returns the wrong document: after a batch that could not be written, and after
  a full scan of a folder with a compaction output in it.
\<close>

text \<open>C38. A batch that cannot be written leaves its documents in the maps.  When the write of a batch fails before any
  byte reaches the file, the batch reports the error, but its document is mapped to the place where the next record
  goes; once another document has been put and the cache has dropped the first, getting the first id returns the other
  document.\<close>

theorem failed_batch_serves_other_document:
  assumes inv: "store_inv (s, k) M" and up: "st_next s < st_next s + 1" and "doc_fits a" and "doc_fits b" and "external_id a \<noteq> external_id b"
    and "f AppendOpen = None" and "\<forall>i. f (BatchWrite i) = None" and "f AppendWrite = Some (0, err)"
  shows "\<exists>sk1 sk2. put_batch f kept [a] (s, k) = (sk1, Inl err) \<and> store_put (\<lambda>_. None) (\<lambda>_. False) b sk1 = (sk2, Inr ()) \<and>
    snd (store_get kept (external_id a) sk2) = Inr (Some b)"
proof -
  note I = store_invD [OF inv]
  obtain fl where fl: "get_file k (st_current s) = Some fl" using I(8) by blast
  let ?n = "st_current s" and ?k1 = "put_file (st_current s) (append_bytes [] fl) k"
  let ?loc = "\<lambda>doc. \<lparr>loc_internal = internal_id doc, loc_offset = length (wf_bytes fl) + 1, loc_segment = ?n, loc_len = of_nat (length (write_document doc))\<rparr>"
  let ?s1 = "cache_insert kept (external_id a) a (map_document a (?loc a) s)"
  have ba: "put_batch f kept [a] (s, k) = ((?s1, ?k1), Inl err)" using assms(6-8) fl by (simp add: put_batch_def Let_def)
  have ok1: "omap_ok (sk_files ?k1)" and fl1: "get_file ?k1 ?n = Some (append_bytes [] fl)" using I(3) by (simp_all add: put_file_ok get_put_file)
  let ?fl2 = "append_bytes (write_u8 OP_PUT @ write_document b) (append_bytes [] fl)"
  let ?k2 = "put_file ?n ?fl2 ?k1"
  obtain s2 k2 r2 where ro: "maybe_rotate_segment NF (?s1, ?k2) = ((s2, k2), r2)" by (metis surj_pair)
  have "append_put NF b (?s1, ?k1) = ((s2, k2), case r2 of Inl e \<Rightarrow> Inl e | Inr _ \<Rightarrow> Inr (?loc b))"
    using fl1 ro by (simp add: append_put_def Let_def split: sum.split)
  moreover have fl2: "get_file ?k2 ?n = Some ?fl2" using ok1 by (simp add: get_put_file)
  moreover have r2: "r2 = Inr ()" "st_locations s2 = st_locations ?s1" using ro fl2 by (auto simp: maybe_rotate_segment_def Let_def split: if_splits)
  ultimately have pb: "store_put NF (\<lambda>_. False) b (?s1, ?k1) =
      ((cache_insert (\<lambda>_. False) (external_id b) b (map_document b (?loc b) (note_id (internal_id b) s2)), k2), Inr ())"
    by (simp add: store_put_def)
  have rot: "get_file k2 ?n = Some ?fl2"
  proof -
    have "get_file k (st_next s) = None" "?n < st_next s" using I(7, 9) by blast+
    then have "?n \<noteq> st_next s" by auto
    then show ?thesis using ro fl2 put_file_ok [OF ok1] by (auto simp: maybe_rotate_segment_def Let_def get_put_file split: if_splits)
  qed
  have "record_at ((wf_bytes fl @ write_u8 OP_PUT) @ write_document b @ []) (length (wf_bytes fl) + 1) b"
    using assms(4) by (intro record_at_append) auto
  then have "read_document_at_path k2 ?n (length (wf_bytes fl) + 1) = Inr b"
    using rot by (simp add: read_document_at_path_def record_at_read)
  moreover have "omap_get (omap_insert (external_id b) (?loc b) (st_locations s2)) (external_id a) = Some (?loc a)"
    using I(2) r2(2) assms(5) by (simp add: omap_get_insert omap_ok_insert)
  ultimately have "snd (store_get kept (external_id a) (cache_insert (\<lambda>_. False) (external_id b) b (map_document b (?loc b) (note_id (internal_id b) s2)), k2)) = Inr (Some b)"
    by (simp add: store_get_def cache_insert_def map_document_def note_id_def)
  with ba pb show ?thesis by blast
qed

theorem failed_batch_serves_other_document_witness:
  "\<exists>sk1 sk2. put_batch (\<lambda>c. if c = AppendWrite then Some (0, OtherError ''disk full'') else None) (\<lambda>_. True) [sample_doc] (new_store [], new_folder) =
      (sk1, Inl (OtherError ''disk full'')) \<and>
    store_put (\<lambda>_. None) (\<lambda>_. False) other_doc sk1 = (sk2, Inr ()) \<and>
    snd (store_get (\<lambda>_. True) [97] sk2) = Inr (Some other_doc)"
proof -
  have "st_next (new_store []) < st_next (new_store []) + 1" by (simp add: new_store_def)
  from failed_batch_serves_other_document [OF new_store_inv this sample_docs_fit(1, 2),
      of "\<lambda>c. if c = AppendWrite then Some (0, OtherError ''disk full'') else None" "OtherError ''disk full''" "\<lambda>_. True"]
  show ?thesis by (simp add: sample_doc_def other_doc_def)
qed

section \<open>A full scan after a compaction\<close>

text \<open>A document that fits into its segment, one that closes it, the plan that merges that segment, and the merge.\<close>

abbreviation doc_loc :: "u32 \<Rightarrow> nat \<Rightarrow> stored_document \<Rightarrow> doc_location" where
  "doc_loc n off doc \<equiv> \<lparr>loc_internal = internal_id doc, loc_offset = off, loc_segment = n, loc_len = of_nat (length (write_document doc))\<rparr>"

abbreviation put_offset :: "store_entry list \<Rightarrow> nat" where
  "put_offset es \<equiv> length (entries_bytes es) + 9"

lemma entries_bytes_put: "entries_bytes [EPut doc] = write_u8 OP_PUT @ write_document doc" "entries_bytes [] = []"
  by (simp_all add: entries_bytes_def)

lemma small_put:
  assumes ok: "omap_ok (sk_files k)" and "st_current s = n" and has: "has_entries k STORE_MAGIC n es" and fits: "doc_fits doc"
    and small: "length (entries_bytes es) + length (write_document doc) + 9 < DEFAULT_SEGMENT_SIZE"
  shows "\<exists>k'. store_put NF kept doc (s, k) =
      ((cache_insert kept (external_id doc) doc (map_document doc (doc_loc n (put_offset es) doc) (note_id (internal_id doc) s)), k'), Inr ()) \<and>
    omap_ok (sk_files k') \<and> list_segment_ids (sk_files k') = list_segment_ids (sk_files k) \<and> has_entries k' STORE_MAGIC n (es @ [EPut doc]) \<and>
    (\<forall>m. m \<noteq> n \<longrightarrow> get_file k' m = get_file k m)"
proof -
  obtain fl where fl: "get_file k n = Some fl" "wf_bytes fl = STORE_MAGIC @ entries_bytes es" using has by (auto simp: has_entries_def)
  let ?k = "put_file n (append_bytes (write_u8 OP_PUT @ write_document doc) fl) k"
  have "maybe_rotate_segment NF (s, ?k) = ((s, ?k), Inr ())"
    using small ok by (simp add: maybe_rotate_segment_def assms(2) get_put_file fl(2))
  then have "store_put NF kept doc (s, k) =
      ((cache_insert kept (external_id doc) doc (map_document doc (doc_loc n (put_offset es) doc) (note_id (internal_id doc) s)), ?k), Inr ())"
    by (simp add: store_put_def append_put_def Let_def assms(2) fl add.commute del: length_write_document)
  moreover have "has_entries ?k STORE_MAGIC n (es @ [EPut doc])" using has fits ok fl by (auto simp: has_entries_def get_put_file entries_bytes_put)
  ultimately show ?thesis using ok fl(1) by (intro exI [of _ ?k]) (simp add: put_file_ok ids_same get_put_file)
qed

lemma big_put:
  assumes ok: "omap_ok (sk_files k)" and s: "st_current s = 0" "st_next s = 1" and ids0: "list_segment_ids (sk_files k) = [0]"
    and has: "has_entries k STORE_MAGIC 0 es" and fits: "doc_fits doc"
    and big: "DEFAULT_SEGMENT_SIZE \<le> length (entries_bytes es) + length (write_document doc) + 9"
  shows "\<exists>k'. store_put NF kept doc (s, k) = ((cache_insert kept (external_id doc) doc (map_document doc (doc_loc 0 (put_offset es) doc)
        (note_id (internal_id doc) (s\<lparr>st_next := 2, st_current := 1\<rparr>))), k'), Inr ()) \<and> omap_ok (sk_files k') \<and>
    list_segment_ids (sk_files k') = [0, 1] \<and> has_entries k' STORE_MAGIC 0 (es @ [EPut doc]) \<and> has_entries k' STORE_MAGIC 1 []"
proof -
  obtain fl where fl: "get_file k 0 = Some fl" "wf_bytes fl = STORE_MAGIC @ entries_bytes es" using has by (auto simp: has_entries_def)
  let ?fl = "append_bytes (write_u8 OP_PUT @ write_document doc) fl"
  let ?ka = "put_file 0 ?fl k" let ?k = "put_file 1 (append_bytes STORE_MAGIC file_new) ?ka"
  have ids1: "list_segment_ids (sk_files ?ka) = [0]" using ids_same [OF ok, of 0 ?fl] fl by (simp add: ids0)
  have "1 \<notin> set (list_segment_ids (sk_files k))" using ids0 by simp
  then have free: "get_file ?ka 1 = None" using get_file_listed [of k 1] ok by (cases "get_file k 1") (auto simp: get_put_file)
  have ids: "list_segment_ids (sk_files ?k) = [0, 1]" using ids_new [OF put_file_ok [OF ok] free, of "append_bytes STORE_MAGIC file_new"] by (simp add: ids1)
  have "\<not> length (wf_bytes ?fl) < DEFAULT_SEGMENT_SIZE" using big by (simp add: fl(2))
  then have ro: "maybe_rotate_segment NF (s, ?ka) = ((s\<lparr>st_next := 2, st_current := 1\<rparr>, ?k), Inr ())"
    using ok by (simp add: maybe_rotate_segment_def s get_put_file)
  have has': "has_entries ?k STORE_MAGIC 0 (es @ [EPut doc])" "has_entries ?k STORE_MAGIC 1 []"
    using ok fits has fl by (auto simp: has_entries_def get_put_file put_file_ok entries_bytes_put)
  let ?s = "cache_insert kept (external_id doc) doc (map_document doc (doc_loc 0 (put_offset es) doc) (note_id (internal_id doc) (s\<lparr>st_next := 2, st_current := 1\<rparr>)))"
  have put: "store_put NF kept doc (s, k) = ((?s, ?k), Inr ())"
    using ro by (simp add: store_put_def append_put_def fl s Let_def add.commute del: length_write_document)
  show ?thesis by (intro exI [of _ ?k] conjI put ids has') (use ok in \<open>simp add: put_file_ok\<close>)
qed

text \<open>The dead part of a segment as \<open>plan_compaction\<close> computes it.\<close>

abbreviation ratio_dead :: "'g ratio_ops \<Rightarrow> nat \<Rightarrow> nat \<Rightarrow> 'g" where
  "ratio_dead ra live whole \<equiv> ra_sub ra (ra_nat ra 1) (ra_div ra (ra_nat ra live) (ra_nat ra whole))"

lemma plan_single:
  assumes "st_current s = 1" "st_next s = 2" "st_locations s = [(external_id doc, doc_loc 0 off doc)]" "list_segment_ids (sk_files k) = [0, 1]"
    "has_entries k STORE_MAGIC 0 (es @ [EPut doc])" and fits: "doc_fits doc"
    and dead: "ra_le ra threshold (ratio_dead ra (length (write_document doc) + 1) (length (entries_bytes es) + length (write_document doc) + 1))"
  shows "plan_segment_compaction ra threshold target (s, k) =
    ((s\<lparr>st_next := 3\<rparr>, k), Some \<lparr>sj_ids = [0], sj_next = 2, sj_dir = st_path s, sj_snapshot = [(external_id doc, doc_loc 0 off doc)]\<rparr>)"
proof -
  obtain fl where fl: "get_file k 0 = Some fl" "wf_bytes fl = STORE_MAGIC @ entries_bytes (es @ [EPut doc])" using assms(5) by (auto simp: has_entries_def)
  have live: "live_bytes (st_locations s) 0 = length (write_document doc) + 1"
    using assms(3) doc_fits_len [OF fits] by (simp add: live_bytes_def del: length_write_document)
  have total: "length (wf_bytes fl) - length STORE_MAGIC = length (entries_bytes es) + length (write_document doc) + 1"
    by (simp add: fl(2) entries_bytes_put)
  have c: "dead_candidate ra threshold s k 0 = Some (0, length (write_document doc) + 1)" "dead_candidate ra threshold s k 1 = None"
    using assms(1) fl(1) dead by (simp_all add: dead_candidate_def Let_def live total del: length_write_document length_STORE_MAGIC)
  have "select_segments target 0 [] [(0, length (write_document doc) + 1)] = [0]" by simp
  then show ?thesis using assms(1-4) c by (simp add: plan_segment_compaction_def List.map_filter_simps Let_def del: length_write_document)
qed

lemma run_single:
  assumes "has_entries k STORE_MAGIC 0 (es @ [EPut doc])"
  shows "run_segment_compaction NF \<lparr>sj_ids = [0], sj_next = 2, sj_dir = dir, sj_snapshot = [(external_id doc, doc_loc 0 (put_offset es) doc)]\<rparr> k =
    (k\<lparr>sk_files := omap_insert (segment_filename 2 @ ''.tmp'') (sync_file (append_bytes (COMPACTED_MAGIC @ entries_bytes [EPut doc]) file_new)) (sk_files k)\<rparr>,
     Inr \<lparr>cj_old = [0], cj_new = 2, cj_tmp = segment_filename 2 @ ''.tmp'', cj_locations = [(external_id doc, doc_loc 2 9 doc)]\<rparr>)"
proof -
  obtain fl where fl: "get_file k 0 = Some fl" "wf_bytes fl = (STORE_MAGIC @ entries_bytes es @ write_u8 OP_PUT) @ write_document doc @ []" and fits: "doc_fits doc"
    using assms by (auto simp: has_entries_def entries_bytes_put)
  have "record_at (wf_bytes fl) (put_offset es) doc" unfolding fl(2) using fits by (intro record_at_append) simp_all
  then have "read_exact (unat (of_nat (length (write_document doc)) :: u32)) \<lparr>bytes = wf_bytes fl, offset = put_offset es\<rparr> =
      Inr (write_document doc, \<lparr>bytes = wf_bytes fl, offset = put_offset es + length (write_document doc)\<rparr>)"
    using record_at_take doc_fits_len [OF fits] by simp
  then show ?thesis using fl(1) belongs_document [OF fits]
    by (simp add: run_segment_compaction_def Let_def entries_bytes_def [of "[EPut doc]"] del: length_write_document)
qed

lemma get_file_maps [simp]: "get_file (k\<lparr>sk_maps := m\<rparr>) n = get_file k n"
  by (simp add: get_file_def)

lemma save_maps_done:
  "\<forall>n \<in> set (list_segment_ids (sk_files k)). get_file k n \<noteq> None \<Longrightarrow> \<exists>m. save_maps bin NF s k = (k\<lparr>sk_maps := m\<rparr>, Inr ())"
proof -
  assume "\<forall>n \<in> set (list_segment_ids (sk_files k)). get_file k n \<noteq> None"
  then have "filter (\<lambda>n. get_file k n = None) (list_segment_ids (sk_files k)) = []" by (simp add: filter_empty_conv)
  then show ?thesis by (simp add: save_maps_def) blast
qed

lemma install_single:
  assumes ok: "omap_ok (sk_files k)" and locs: "st_locations s = [(external_id doc, doc_loc 0 off doc)]" and ids: "list_segment_ids (sk_files k) = [0, 1]"
    and has: "has_entries k STORE_MAGIC 0 es" "has_entries k STORE_MAGIC 1 []" and fits: "doc_fits doc"
  shows "\<exists>k'. install_segment_compaction bin NF NF \<lparr>cj_old = [0], cj_new = 2, cj_tmp = segment_filename 2 @ ''.tmp'', cj_locations = [(external_id doc, doc_loc 2 9 doc)]\<rparr>
      (s, k\<lparr>sk_files := omap_insert (segment_filename 2 @ ''.tmp'') (sync_file (append_bytes (COMPACTED_MAGIC @ entries_bytes [EPut doc]) file_new)) (sk_files k)\<rparr>) =
      ((s\<lparr>st_locations := [(external_id doc, doc_loc 2 9 doc)]\<rparr>, k'), Inr True) \<and>
    omap_ok (sk_files k') \<and> list_segment_ids (sk_files k') = [1, 2] \<and> has_entries k' STORE_MAGIC 1 [] \<and> has_entries k' COMPACTED_MAGIC 2 [EPut doc]"
proof -
  let ?tmp = "segment_filename 2 @ ''.tmp''" and ?fl = "sync_file (append_bytes (COMPACTED_MAGIC @ entries_bytes [EPut doc]) file_new)"
  let ?kt = "k\<lparr>sk_files := omap_insert ?tmp ?fl (sk_files k)\<rparr>"
  let ?k1 = "?kt\<lparr>sk_files := omap_insert (segment_filename 2) ?fl (omap_remove ?tmp (sk_files ?kt))\<rparr>"
  let ?s = "s\<lparr>st_locations := [(external_id doc, doc_loc 2 9 doc)]\<rparr>"
  have okt: "omap_ok (sk_files ?kt)" "omap_ok (omap_remove ?tmp (sk_files ?kt))" using ok by (simp_all add: omap_ok_insert omap_ok_remove)
  have ok1: "omap_ok (sk_files ?k1)" using okt by (simp add: omap_ok_insert)
  have get0: "get_file (k\<lparr>sk_files := omap_remove ?tmp (sk_files ?kt)\<rparr>) n = get_file k n" for n
    using ok okt by (simp add: get_file_def omap_get_remove omap_get_insert)
  have get1: "get_file ?k1 n = (if n = 2 then Some ?fl else get_file k n)" for n
    using okt get0 [of n] by (simp add: get_file_def omap_get_insert sf.path_inj)
  have tmp: "numbers_in store_segment_id (omap_remove ?tmp (sk_files ?kt)) = [0, 1]"
    using numbers_other_remove [OF okt(1), of store_segment_id ?tmp] numbers_other_new [OF ok, of store_segment_id ?tmp ?fl] ids
    by (simp add: list_segment_ids_numbers)
  have "2 \<notin> set (list_segment_ids (sk_files k))" using ids by simp
  then have free: "get_file k 2 = None" using get_file_listed [of k 2] by (cases "get_file k 2") auto
  have ids1: "list_segment_ids (sk_files ?k1) = [0, 1, 2]"
    using sf.numbers_new [OF okt(2), of 2 ?fl] tmp free get0 [of 2] by (simp add: list_segment_ids_numbers get_file_def)
  obtain fl0 fl1 where f: "get_file k 0 = Some fl0" "get_file k 1 = Some fl1" using has by (auto simp: has_entries_def)
  obtain m1 where m1: "save_maps bin NF ?s ?k1 = (?k1\<lparr>sk_maps := m1\<rparr>, Inr ())" using save_maps_done [of ?k1 bin ?s] ids1 get1 f by auto
  let ?k2 = "?k1\<lparr>sk_maps := m1\<rparr>" let ?k3 = "?k2\<lparr>sk_files := omap_remove (segment_filename 0) (sk_files ?k2)\<rparr>"
  have rm: "remove_old NF dir [0] ?k2 = (?k3, Inr ())" for dir using get1 f by simp
  have ok3: "omap_ok (sk_files ?k3)" using ok1 by (simp add: omap_ok_remove)
  have get3: "get_file ?k3 n = (if n = 0 then None else get_file ?k1 n)" for n
    using ok1 by (simp add: get_file_def omap_get_remove sf.path_inj)
  have ids3: "list_segment_ids (sk_files ?k3) = [1, 2]"
    using sf.numbers_remove [OF ok1, of 0 _ "[]" "[1, 2]"] ids1 get1 [of 0] f by (auto simp: list_segment_ids_numbers get_file_def)
  obtain m3 where m3: "save_maps bin NF ?s ?k3 = (?k3\<lparr>sk_maps := m3\<rparr>, Inr ())" using save_maps_done [of ?k3 bin ?s] ids3 get3 get1 f by auto
  have inst: "fold (install_location [0]) [(external_id doc, doc_loc 2 9 doc)] (st_locations s, 0) = ([(external_id doc, doc_loc 2 9 doc)], 1)"
    by (simp add: locs install_location_def)
  have "omap_get (sk_files ?kt) ?tmp = Some ?fl" using ok by (simp add: omap_get_insert)
  then have run: "install_segment_compaction bin NF NF \<lparr>cj_old = [0], cj_new = 2, cj_tmp = ?tmp, cj_locations = [(external_id doc, doc_loc 2 9 doc)]\<rparr> (s, ?kt) =
      ((?s, ?k3\<lparr>sk_maps := m3\<rparr>), Inr True)"
    using inst m1 rm m3 by (simp add: install_segment_compaction_def Let_def del: fold_simps remove_old.simps)
  have "has_entries (?k3\<lparr>sk_maps := m3\<rparr>) STORE_MAGIC 1 []" "has_entries (?k3\<lparr>sk_maps := m3\<rparr>) COMPACTED_MAGIC 2 [EPut doc]"
    unfolding has_entries_def get_file_maps get3 get1 using has fits by (simp_all add: has_entries_def)
  with run ok3 ids3 show ?thesis by (intro exI [of _ "?k3\<lparr>sk_maps := m3\<rparr>"]) simp
qed

lemma open_after_compaction:
  assumes ok: "omap_ok (sk_files k)" and ids: "list_segment_ids (sk_files k) = [1, 2]" and has: "has_entries k STORE_MAGIC 1 [EPut b]" "has_entries k COMPACTED_MAGIC 2 [EPut a]"
    and same: "external_id a = external_id b"
  shows "\<exists>sk. store_open NF dir k = Inr sk \<and> snd (store_get kept (external_id b) sk) = Inr (Some a)"
proof -
  let ?s = "\<lparr>st_path = dir, st_docs = [], st_internal = [], st_locations = [], st_current = 2, st_next = 3, st_unsynced = 2, st_highest = 0\<rparr>"
  let ?lg = "[(1, [EPut b]), (2, [EPut a])]" let ?s1 = "replay_log ?lg ?s"
  have b: "store_begin NF dir k = Inr (?s, k)" using ids by (simp add: store_begin_def Let_def)
  have "scan_segments NF (map (\<lambda>n. (n, None)) (map fst ?lg) @ []) (?s, k) = scan_segments NF [] (?s1, k)" using has by (intro scan_log) auto
  then have l: "store_load NF (?s, k) = Inr (?s1, k)" by (simp add: store_load_def ids)
  have "segment_magic dir k 2 = Inr COMPACTED_MAGIC" using has_magic [OF has(2)] by simp
  moreover have "st_path ?s1 = dir" "st_next ?s1 = 3" by (simp_all add: replay_log_fields del: replay_log.simps)
  ultimately have c: "choose_append NF (?s1, k) =
      Inr (?s1\<lparr>st_next := 3 + 1, st_current := 3, st_unsynced := 3\<rparr>, put_file 3 (sync_file (append_bytes STORE_MAGIC file_new)) k)"
    by (simp add: choose_append_def ids create_segment_def Let_def del: replay_log.simps)
  let ?sk = "(?s1\<lparr>st_next := 3 + 1, st_current := 3, st_unsynced := 3\<rparr>, put_file 3 (sync_file (append_bytes STORE_MAGIC file_new)) k)"
  obtain fl where fl: "get_file k 2 = Some fl" "wf_bytes fl = (COMPACTED_MAGIC @ write_u8 OP_PUT) @ write_document a @ []" "doc_fits a"
    using has(2) by (auto simp: has_entries_def entries_bytes_def)
  have "record_at (wf_bytes fl) 9 a" unfolding fl(2) using fl(3) by (intro record_at_append) simp_all
  then have "read_document_at_path (put_file 3 (sync_file (append_bytes STORE_MAGIC file_new)) k) 2 9 = Inr a"
    using fl(1) ok by (simp add: read_document_at_path_def get_put_file record_at_read)
  moreover have "omap_get (st_locations ?s1) (external_id b) = Some (doc_loc 2 9 a)" "st_docs ?s1 = []"
    by (simp_all add: replay_log_fields same del: replay_log.simps length_write_document)
  ultimately have "snd (store_get kept (external_id b) ?sk) = Inr (Some a)" by (simp add: store_get_def del: replay_log.simps)
  moreover have "store_open NF dir k = Inr ?sk" by (simp add: store_open_def b l c del: replay_log.simps)
  ultimately show ?thesis by blast
qed

text \<open>C37. A full scan of the folder brings back replaced documents once a compaction has been installed.  A document
  is put and replaced, which closes its segment; the segment is compacted, because the dead part of it reaches the
  threshold of the plan; and a third version is put.  The store returns the third version, but opening the folder by a
  scan returns the second one, because the output of the compaction has a higher number than the segment the third
  version is in.\<close>

theorem full_scan_after_compaction_is_stale:
  assumes "doc_fits a0" and "doc_fits a" and "doc_fits b" and "external_id a0 = external_id a" and "external_id a = external_id b"
    and "length (write_document a0) + 9 < DEFAULT_SEGMENT_SIZE" and "length (write_document b) + 9 < DEFAULT_SEGMENT_SIZE"
    and "DEFAULT_SEGMENT_SIZE \<le> length (write_document a0) + length (write_document a) + 10"
    and "ra_le ra threshold (ra_sub ra (ra_nat ra 1)
      (ra_div ra (ra_nat ra (length (write_document a) + 1)) (ra_nat ra (length (write_document a0) + length (write_document a) + 2))))"
  shows "\<exists>s k outs sk2. store_runs bin [Put (\<lambda>_. None) kept a0, Put (\<lambda>_. None) kept a, Plan ra threshold target, RunJob (\<lambda>_. None),
        Install (\<lambda>_. None) (\<lambda>_. None), Put (\<lambda>_. None) kept b] ((new_store dir, new_folder), NoJob) = (((s, k), NoJob), outs) \<and>
    snd (store_get kept (external_id b) (s, k)) = Inr (Some b) \<and>
    store_open (\<lambda>_. None) dir k = Inr sk2 \<and> snd (store_get kept (external_id b) sk2) = Inr (Some a)"
proof -
  let ?s0 = "new_store dir"
  have new: "omap_ok (sk_files new_folder)" "st_current ?s0 = 0" "st_next ?s0 = 1" "st_path ?s0 = dir" "st_locations ?s0 = []" "has_entries new_folder STORE_MAGIC 0 []"
    by (simp_all add: new_store_def has_entries_def new_folder_file entries_bytes_def) (simp add: new_folder_def put_file_ok empty_folder_def)
  have b0: "length (entries_bytes [EPut a0]) = length (write_document a0) + 1" "entries_bytes [] = []" by (simp_all add: entries_bytes_def)
  from small_put [OF new(1, 2, 6) assms(1), of kept] assms(6) obtain k1 where
      p1: "store_put NF kept a0 (?s0, new_folder) = ((cache_insert kept (external_id a0) a0 (map_document a0 (doc_loc 0 9 a0) (note_id (internal_id a0) ?s0)), k1), Inr ())" and
      k1: "omap_ok (sk_files k1)" "list_segment_ids (sk_files k1) = [0]" "has_entries k1 STORE_MAGIC 0 [EPut a0]"
    by (auto simp: b0 new_folder_ids simp del: length_write_document)
  let ?s1 = "cache_insert kept (external_id a0) a0 (map_document a0 (doc_loc 0 9 a0) (note_id (internal_id a0) ?s0))"
  let ?off = "put_offset [EPut a0]"
  let ?s2 = "cache_insert kept (external_id a) a (map_document a (doc_loc 0 ?off a) (note_id (internal_id a) (?s1\<lparr>st_next := 2, st_current := 1\<rparr>)))"
  have s1: "st_current ?s1 = 0" "st_next ?s1 = 1" by (simp_all add: new)
  from big_put [OF k1(1) s1 k1(2, 3) assms(2), of kept] assms(8) obtain k2 where
      p2: "store_put NF kept a (?s1, k1) = ((?s2, k2), Inr ())" and
      k2: "omap_ok (sk_files k2)" "list_segment_ids (sk_files k2) = [0, 1]" "has_entries k2 STORE_MAGIC 0 ([EPut a0] @ [EPut a])" "has_entries k2 STORE_MAGIC 1 []"
    by (auto simp: b0 simp del: length_write_document)
  have s2: "st_current ?s2 = 1" "st_next ?s2 = 2" "st_locations ?s2 = [(external_id a, doc_loc 0 ?off a)]" "st_path ?s2 = dir"
    by (simp_all add: new assms(4) cache_insert_def map_document_def note_id_def)
  have dead: "ra_le ra threshold (ratio_dead ra (length (write_document a) + 1) (length (entries_bytes [EPut a0]) + length (write_document a) + 1))"
    using assms(9) by (simp add: b0 del: length_write_document)
  note pl = plan_single [OF s2(1-3) k2(2, 3) assms(2) dead, of target]
  let ?s3 = "?s2\<lparr>st_next := 3\<rparr>"
  note rn = run_single [OF k2(3), of dir]
  have "st_locations ?s3 = [(external_id a, doc_loc 0 ?off a)]" using s2(3) by simp
  note ins = install_single [OF k2(1) this k2(2, 3, 4) assms(2), of bin]
  let ?s4 = "?s3\<lparr>st_locations := [(external_id a, doc_loc 2 9 a)]\<rparr>"
  from ins obtain k3 where in3: "install_segment_compaction bin NF NF \<lparr>cj_old = [0], cj_new = 2, cj_tmp = segment_filename 2 @ ''.tmp'', cj_locations = [(external_id a, doc_loc 2 9 a)]\<rparr>
      (?s3, k2\<lparr>sk_files := omap_insert (segment_filename 2 @ ''.tmp'') (sync_file (append_bytes (COMPACTED_MAGIC @ entries_bytes [EPut a]) file_new)) (sk_files k2)\<rparr>) =
      ((?s4, k3), Inr True)" and
      k3: "omap_ok (sk_files k3)" "list_segment_ids (sk_files k3) = [1, 2]" "has_entries k3 STORE_MAGIC 1 []" "has_entries k3 COMPACTED_MAGIC 2 [EPut a]"
    by blast
  have "st_current ?s4 = 1" using s2(1) by simp
  from small_put [OF k3(1) this k3(3) assms(3), of kept] assms(7) obtain k4 where
      p4: "store_put NF kept b (?s4, k3) = ((cache_insert kept (external_id b) b (map_document b (doc_loc 1 9 b) (note_id (internal_id b) ?s4)), k4), Inr ())" and
      k4: "omap_ok (sk_files k4)" "list_segment_ids (sk_files k4) = [1, 2]" "has_entries k4 STORE_MAGIC 1 [EPut b]" "has_entries k4 COMPACTED_MAGIC 2 [EPut a]"
    using k3(2, 4) by (auto simp: b0 has_entries_def simp del: length_write_document)
  let ?s5 = "cache_insert kept (external_id b) b (map_document b (doc_loc 1 9 b) (note_id (internal_id b) ?s4))"
  let ?ops = "[Put (\<lambda>_. None) kept a0, Put (\<lambda>_. None) kept a, Plan ra threshold target, RunJob (\<lambda>_. None), Install (\<lambda>_. None) (\<lambda>_. None), Put (\<lambda>_. None) kept b]"
  let ?outs = "[Did (Inr ()), Did (Inr ()), Quiet, Quiet, Quiet, Did (Inr ())]"
  have run: "store_runs bin ?ops ((new_store dir, new_folder), NoJob) = (((?s5, k4), NoJob), ?outs)"
    using p1 p2 pl rn in3 p4 s2(4) by simp
  have fits: "run_fits bin ?ops ((new_store dir, new_folder), NoJob)"
    by (rule run_fits_short) (use assms(1-3) new(3) in auto)
  have "system_inv ((new_store dir, new_folder), NoJob) Map.empty" using new_store_inv by (simp add: system_inv_def)
  note runs = store_runs_ok [OF this fits run]
  have "\<forall>op \<in> set ?ops. \<forall>out. \<not> failed_batch op out" by simp
  from runs no_failed_batch [OF this] obtain M where "spec_runs ?ops ?outs Map.empty M" "system_inv ((?s5, k4), NoJob) M" by metis
  then have M: "M (external_id b) = Some b" "store_inv (?s5, k4) M" by (simp_all add: system_inv_def)
  have "snd (store_get kept (external_id b) (?s5, k4)) = Inr (Some b)" using store_get_settled(3) [OF M(2)] M(1) by (metis prod.collapse)
  moreover obtain sk2 where "store_open NF dir k4 = Inr sk2" "snd (store_get kept (external_id b) sk2) = Inr (Some a)"
    using open_after_compaction [OF k4 assms(5)] by blast
  ultimately show ?thesis using run by blast
qed

text \<open>A document of half a segment, replaced once: half of the bytes are dead.\<close>

definition half_doc :: "u8 \<Rightarrow> stored_document" where
  "half_doc c = sample_doc\<lparr>doc_source := replicate (DEFAULT_SEGMENT_SIZE div 2) c\<rparr>"

theorem full_scan_after_compaction_is_stale_witness:
  "\<exists>s k outs sk2. store_runs sample_bin [Put (\<lambda>_. None) (\<lambda>_. True) (half_doc 32), Put (\<lambda>_. None) (\<lambda>_. True) (half_doc 33), Plan exact_ratio (1 / 2) 1000,
      RunJob (\<lambda>_. None), Install (\<lambda>_. None) (\<lambda>_. None), Put (\<lambda>_. None) (\<lambda>_. True) sample_doc] ((new_store [], new_folder), NoJob) = (((s, k), NoJob), outs) \<and>
    snd (store_get (\<lambda>_. True) [97] (s, k)) = Inr (Some sample_doc) \<and>
    store_open (\<lambda>_. None) [] k = Inr sk2 \<and> snd (store_get (\<lambda>_. True) [97] sk2) = Inr (Some (half_doc 33))"
proof -
  have fits: "doc_fits (half_doc c)" for c
    using sample_docs_fit(1) by (simp add: doc_fits_def half_doc_def sample_doc_def DEFAULT_SEGMENT_SIZE_def)
  have len: "length (write_document (half_doc c)) = length (write_document sample_doc) + DEFAULT_SEGMENT_SIZE div 2 - 2" for c
    by (simp add: half_doc_def sample_doc_def)
  have size: "length (write_document sample_doc) = 20" by (simp add: sample_doc_def)
  have ids: "external_id (half_doc c) = [97]" "external_id sample_doc = [97]" for c by (simp_all add: half_doc_def sample_doc_def)
  show ?thesis
    using full_scan_after_compaction_is_stale [OF fits fits sample_docs_fit(1), of 32 33 exact_ratio "1 / 2" sample_bin "\<lambda>_. True" 1000 "[]"]
    unfolding ids len size by (simp add: exact_ratio_def DEFAULT_SEGMENT_SIZE_def del: store_runs.simps)
qed

end
