(* ===== verification/Edit_Distance.thy ===== *)
theory Edit_Distance
  imports Prelude
begin

text \<open>
  Edit distances of \<^verbatim>\<open>crates/core-index/src/fuzzy.rs\<close>.  The specification is a relation: \<open>edits sw n xs ys\<close>
  says that \<open>ys\<close> is \<open>xs\<close> after \<open>n\<close> insertions, deletions and replacements of single characters and, with
  \<open>sw\<close>, swaps of neighbours, no character being touched twice.  \<open>dist\<close> is the recurrence on prefixes that
  the tables of the code follow; it is the least \<open>n\<close>.  \<open>levenshtein\<close> is the two-row table of the code.
\<close>

section \<open>Edits\<close>

inductive edits :: "bool \<Rightarrow> nat \<Rightarrow> 'a list \<Rightarrow> 'a list \<Rightarrow> bool" for sw where
  edits_nil: "edits sw 0 [] []"
| edits_keep: "edits sw n xs ys \<Longrightarrow> edits sw n (xs @ [c]) (ys @ [c])"
| edits_replace: "edits sw n xs ys \<Longrightarrow> edits sw (Suc n) (xs @ [c]) (ys @ [d])"
| edits_delete: "edits sw n xs ys \<Longrightarrow> edits sw (Suc n) (xs @ [c]) ys"
| edits_insert: "edits sw n xs ys \<Longrightarrow> edits sw (Suc n) xs (ys @ [d])"
| edits_swap: "edits sw n xs ys \<Longrightarrow> sw \<Longrightarrow> edits sw (Suc n) (xs @ [c, d]) (ys @ [d, c])"

definition least_edits :: "bool \<Rightarrow> nat \<Rightarrow> 'a list \<Rightarrow> 'a list \<Rightarrow> bool" where
  "least_edits sw n xs ys \<longleftrightarrow> edits sw n xs ys \<and> (\<forall>m. edits sw m xs ys \<longrightarrow> n \<le> m)"

lemma least_edits_unique: "least_edits sw n xs ys \<Longrightarrow> least_edits sw m xs ys \<Longrightarrow> n = m"
  by (meson least_edits_def order_antisym)

section \<open>The recurrence\<close>

definition swapped :: "bool \<Rightarrow> 'a list \<Rightarrow> 'a list \<Rightarrow> nat \<Rightarrow> nat \<Rightarrow> bool" where
  "swapped sw xs ys i j \<longleftrightarrow> sw \<and> 0 < i \<and> 0 < j \<and> xs ! i = ys ! (j - 1) \<and> xs ! (i - 1) = ys ! j"

fun dist :: "bool \<Rightarrow> 'a list \<Rightarrow> 'a list \<Rightarrow> nat \<Rightarrow> nat \<Rightarrow> nat" where
  "dist sw xs ys 0 j = j"
| "dist sw xs ys (Suc i) 0 = Suc i"
| "dist sw xs ys (Suc i) (Suc j) =
     (let v = min (min (dist sw xs ys i (Suc j) + 1) (dist sw xs ys (Suc i) j + 1))
                (dist sw xs ys i j + (if xs ! i = ys ! j then 0 else 1))
      in if swapped sw xs ys i j then min v (dist sw xs ys (i - 1) (j - 1) + 1) else v)"

lemma dist_0_right [simp]: "dist sw xs ys i 0 = i"
  by (cases i) simp_all

lemma swapped_prefixes:
  "i < length xs \<Longrightarrow> j < length ys \<Longrightarrow> swapped sw (xs @ us) (ys @ vs) i j = swapped sw xs ys i j"
  by (simp add: swapped_def nth_append less_imp_diff_less)

lemma dist_prefixes:
  "i \<le> length xs \<Longrightarrow> j \<le> length ys \<Longrightarrow> dist sw (xs @ us) (ys @ vs) i j = dist sw xs ys i j"
  by (induction sw xs ys i j rule: dist.induct) (simp_all add: Let_def swapped_prefixes nth_append)

lemma dist_delete: "dist sw xs ys (Suc i) j \<le> Suc (dist sw xs ys i j)"
  by (cases j) (auto simp: Let_def min_le_iff_disj)

lemma dist_insert: "dist sw xs ys i (Suc j) \<le> Suc (dist sw xs ys i j)"
  by (cases i) (auto simp: Let_def min_le_iff_disj)

lemma dist_diagonal:
  shows dist_replace: "dist sw xs ys (Suc i) (Suc j) \<le> Suc (dist sw xs ys i j)"
    and dist_keep: "xs ! i = ys ! j \<Longrightarrow> dist sw xs ys (Suc i) (Suc j) \<le> dist sw xs ys i j"
    and dist_swap: "swapped sw xs ys i j \<Longrightarrow> dist sw xs ys (Suc i) (Suc j) \<le> Suc (dist sw xs ys (i - 1) (j - 1))"
  by (auto simp: Let_def min_le_iff_disj)

lemma dist_cases:
  "dist sw xs ys (Suc i) (Suc j) = Suc (dist sw xs ys i (Suc j)) \<or> dist sw xs ys (Suc i) (Suc j) = Suc (dist sw xs ys (Suc i) j)
   \<or> dist sw xs ys (Suc i) (Suc j) = dist sw xs ys i j \<and> xs ! i = ys ! j
   \<or> dist sw xs ys (Suc i) (Suc j) = Suc (dist sw xs ys i j)
   \<or> dist sw xs ys (Suc i) (Suc j) = Suc (dist sw xs ys (i - 1) (j - 1)) \<and> swapped sw xs ys i j"
  unfolding dist.simps(3) Let_def min_def by (simp del: dist.simps)

lemma edits_insert_all: "edits sw (length ys) [] ys"
  by (induction ys rule: rev_induct) (auto intro: edits.intros)

lemma edits_delete_all: "edits sw (length xs) xs []"
  by (induction xs rule: rev_induct) (auto intro: edits.intros)

lemma dist_edits:
  "i \<le> length xs \<Longrightarrow> j \<le> length ys \<Longrightarrow> edits sw (dist sw xs ys i j) (take i xs) (take j ys)"
proof (induction sw xs ys i j rule: dist.induct)
  case (1 sw xs ys j)
  then show ?case using edits_insert_all [of sw "take j ys"] by simp
next
  case (2 sw xs ys i)
  then show ?case using edits_delete_all [of sw "take (Suc i) xs"] by simp
next
  case (3 sw xs ys i j)
  let ?n = "dist sw xs ys (Suc i) (Suc j)"
  have lt: "i < length xs" "j < length ys" using 3(5,6) by simp_all
  have x: "take (Suc i) xs = take i xs @ [xs ! i]" and y: "take (Suc j) ys = take j ys @ [ys ! j]"
    using lt by (simp_all add: take_Suc_conv_app_nth)
  have IH: "edits sw (dist sw xs ys i (Suc j)) (take i xs) (take (Suc j) ys)"
    "edits sw (dist sw xs ys (Suc i) j) (take (Suc i) xs) (take j ys)"
    "edits sw (dist sw xs ys i j) (take i xs) (take j ys)"
    using 3 by simp_all
  consider "?n = Suc (dist sw xs ys i (Suc j))" | "?n = Suc (dist sw xs ys (Suc i) j)"
    | "?n = dist sw xs ys i j" "xs ! i = ys ! j" | "?n = Suc (dist sw xs ys i j)"
    | "?n = Suc (dist sw xs ys (i - 1) (j - 1))" "swapped sw xs ys i j"
    using dist_cases [of sw xs ys i j] by blast
  then show ?case
  proof cases
    case 1 then show ?thesis using edits_delete [OF IH(1), of "xs ! i"] x by simp
  next
    case 2 then show ?thesis using edits_insert [OF IH(2), of "ys ! j"] y by simp
  next
    case 3 then show ?thesis using edits_keep [OF IH(3), of "xs ! i"] x y by simp
  next
    case 4 then show ?thesis using edits_replace [OF IH(3), of "xs ! i" "ys ! j"] x y by simp
  next
    case 5
    then have s: "sw" "0 < i" "0 < j" "xs ! i = ys ! (j - 1)" "xs ! (i - 1) = ys ! j" by (simp_all add: swapped_def)
    have "take (Suc i) xs = take (i - 1) xs @ [ys ! j, ys ! (j - 1)]" "take (Suc j) ys = take (j - 1) ys @ [ys ! (j - 1), ys ! j]"
      using s lt x y take_Suc_conv_app_nth [of "i - 1" xs] take_Suc_conv_app_nth [of "j - 1" ys] by simp_all
    moreover have "edits sw (dist sw xs ys (i - 1) (j - 1)) (take (i - 1) xs) (take (j - 1) ys)"
      using "3.IH"(4) 5(2) lt by (simp add: Let_def)
    ultimately show ?thesis using edits_swap [OF _ s(1), of _ _ _ "ys ! j" "ys ! (j - 1)"] 5(1) by metis
  qed
qed

lemma dist_lower: "edits sw n xs ys \<Longrightarrow> dist sw xs ys (length xs) (length ys) \<le> n"
proof (induction rule: edits.induct)
  case (edits_swap n xs ys c d)
  have "swapped sw (xs @ [c, d]) (ys @ [d, c]) (Suc (length xs)) (Suc (length ys))"
    using edits_swap by (simp add: swapped_def nth_append)
  from dist_swap [OF this] edits_swap show ?case by (simp add: dist_prefixes del: dist.simps)
next
  case (edits_keep n xs ys c)
  with dist_keep [of "xs @ [c]" "length xs" "ys @ [c]" "length ys" sw] show ?case by (simp add: dist_prefixes del: dist.simps)
next
  case (edits_replace n xs ys c d)
  with dist_replace [of sw "xs @ [c]" "ys @ [d]" "length xs" "length ys"] show ?case by (simp add: dist_prefixes del: dist.simps)
next
  case (edits_delete n xs ys c)
  with dist_delete [of sw "xs @ [c]" ys "length xs" "length ys"] dist_prefixes [of "length xs" xs "length ys" ys sw "[c]" "[]"]
  show ?case by (simp del: dist.simps)
next
  case (edits_insert n xs ys d)
  with dist_insert [of sw xs "ys @ [d]" "length xs" "length ys"] dist_prefixes [of "length xs" xs "length ys" ys sw "[]" "[d]"]
  show ?case by (simp del: dist.simps)
qed simp

theorem least_edits_dist: "least_edits sw n xs ys \<longleftrightarrow> n = dist sw xs ys (length xs) (length ys)"
proof -
  have "least_edits sw (dist sw xs ys (length xs) (length ys)) xs ys"
    using dist_edits [of "length xs" xs "length ys" ys sw] by (auto simp: least_edits_def dist_lower)
  then show ?thesis using least_edits_unique by metis
qed

lemma dist_gap: "i - j \<le> dist sw xs ys i j \<and> j - i \<le> dist sw xs ys i j"
proof (induction sw xs ys i j rule: dist.induct)
  case (3 sw xs ys i j)
  have sw: "i - j \<le> dist sw xs ys (i - 1) (j - 1) \<and> j - i \<le> dist sw xs ys (i - 1) (j - 1)" if "swapped sw xs ys i j"
    using 3(4) that by (simp add: Let_def) (simp add: swapped_def)
  have bounds: "Suc i - Suc j \<le> i - j" "Suc j - Suc i \<le> j - i" "i - j \<le> Suc (i - Suc j)" "j - i \<le> Suc (Suc j - i)"
    "i - j \<le> Suc i - j" "j - i \<le> Suc (j - Suc i)" by arith+
  have "dist sw xs ys (Suc i) (Suc j) \<ge> i - j \<and> dist sw xs ys (Suc i) (Suc j) \<ge> j - i"
    using 3(1-3) bounds sw dist_cases [of sw xs ys i j] by (smt (verit) Suc_le_mono le_SucI le_trans)
  then show ?case by (simp only: diff_Suc_Suc)
qed simp_all

section \<open>The Levenshtein distance\<close>

definition lev_row :: "'a list \<Rightarrow> 'a list \<Rightarrow> nat \<Rightarrow> nat list \<Rightarrow> nat list" where
  "lev_row a b i prev =
     fold (\<lambda>j cur. cur[j := min (min (prev ! j + 1) (cur ! (j - 1) + 1))
                              (prev ! (j - 1) + (if a ! (i - 1) = b ! (j - 1) then 0 else 1))])
       [1..<length b + 1] (replicate (length b + 1) i)"

definition levenshtein :: "'a list \<Rightarrow> 'a list \<Rightarrow> nat" where
  "levenshtein a b = fold (lev_row a b) [1..<length a + 1] [0..<length b + 1] ! length b"

lemma lev_row_dist:
  assumes "prev = map (dist False a b i) [0..<Suc (length b)]"
  shows "lev_row a b (Suc i) prev = map (dist False a b (Suc i)) [0..<Suc (length b)]"
proof -
  let ?f = "\<lambda>j cur. cur[j := min (min (prev ! j + 1) (cur ! (j - 1) + 1))
                              (prev ! (j - 1) + (if a ! (Suc i - 1) = b ! (j - 1) then 0 else 1))]"
  have "m \<le> length b \<Longrightarrow> fold ?f [1..<m + 1] (replicate (length b + 1) (Suc i))
      = map (dist False a b (Suc i)) [0..<Suc m] @ replicate (length b - m) (Suc i)" for m
  proof (induction m)
    case 0
    then show ?case by simp
  next
    case (Suc m)
    let ?row = "map (dist False a b (Suc i)) [0..<Suc m]"
    have p: "prev ! Suc m = dist False a b i (Suc m)" "prev ! m = dist False a b i m"
      using Suc.prems by (simp_all add: assms del: upt_Suc)
    have r: "replicate (length b - m) (Suc i) = Suc i # replicate (length b - Suc m) (Suc i)"
      using Suc.prems by (simp flip: replicate_Suc add: Suc_diff_Suc)
    have "fold ?f [1..<Suc m + 1] (replicate (length b + 1) (Suc i))
      = ?f (Suc m) (?row @ replicate (length b - m) (Suc i))" using Suc by simp
    also have "\<dots> = ?row @ dist False a b (Suc i) (Suc m) # replicate (length b - Suc m) (Suc i)"
      using p unfolding r by (simp add: list_update_append nth_append swapped_def Let_def del: upt_Suc)
    finally have "fold ?f [1..<Suc m + 1] (replicate (length b + 1) (Suc i))
      = (?row @ [dist False a b (Suc i) (Suc m)]) @ replicate (length b - Suc m) (Suc i)" by (simp only: append_assoc append_Cons append_Nil)
    moreover have "map (dist False a b (Suc i)) [0..<Suc (Suc m)] = ?row @ [dist False a b (Suc i) (Suc m)]"
      by (simp only: upt_Suc map_append list.map) simp
    ultimately show ?case by (simp only:)
  qed
  from this [of "length b"] show ?thesis by (simp add: lev_row_def del: upt_Suc)
qed

lemma levenshtein_dist: "levenshtein a b = dist False a b (length a) (length b)"
proof -
  have "fold (lev_row a b) [1..<n + 1] [0..<length b + 1] = map (dist False a b n) [0..<Suc (length b)]" for n
  proof (induction n)
    case 0
    have "map (dist False a b 0) [0..<Suc (length b)] = [0..<Suc (length b)]" by (simp add: map_idI del: upt_Suc)
    then show ?case by (simp del: upt_Suc)
  next
    case (Suc n)
    then show ?case using lev_row_dist [OF Suc] by simp
  qed
  then show ?thesis by (simp add: levenshtein_def del: upt_Suc)
qed

text \<open>The two-row table of \<open>levenshtein\<close> computes the least number of insertions, deletions and
  replacements of characters that turn one word into the other.\<close>

lemma levenshtein_least: "least_edits False n a b \<longleftrightarrow> n = levenshtein a b"
  by (simp add: least_edits_dist levenshtein_dist)

end
