(* ===== verification/Lev_Automaton.thy ===== *)
theory Lev_Automaton
  imports Edit_Distance
begin

text \<open>
  The Levenshtein automaton of \<^verbatim>\<open>crates/core-index/src/fuzzy.rs\<close>.  A Rust \<open>char\<close> is its code point, a \<open>&str\<close>
  the list of its characters, and \<open>as_bytes\<close> their UTF-8 encoding, which is modelled with the part of
  \<open>std::str::from_utf8\<close> the automaton uses.  The state keeps a band of one row of the edit distance table
  around the diagonal, with values capped just above the limit; the theorem is that running the automaton
  over the bytes of a word gives the least number of edits, swaps of neighbours included, if that is
  within the limit, and nothing otherwise.
\<close>

section \<open>Characters and their bytes\<close>

type_synonym rchar = nat

definition is_scalar :: "rchar \<Rightarrow> bool" where
  "is_scalar c \<longleftrightarrow> c < 0xd800 \<or> 0xe000 \<le> c \<and> c < 0x110000"

definition byte_of :: "nat \<Rightarrow> u8" where
  "byte_of n = word_of_nat n"

definition utf8_char :: "rchar \<Rightarrow> u8 list" where
  "utf8_char c =
     (if c < 0x80 then [byte_of c]
      else if c < 0x800 then [byte_of (0xc0 + c div 64), byte_of (0x80 + c mod 64)]
      else if c < 0x10000 then
        [byte_of (0xe0 + c div 4096), byte_of (0x80 + c div 64 mod 64), byte_of (0x80 + c mod 64)]
      else [byte_of (0xf0 + c div 262144), byte_of (0x80 + c div 4096 mod 64),
            byte_of (0x80 + c div 64 mod 64), byte_of (0x80 + c mod 64)])"

definition as_bytes :: "rchar list \<Rightarrow> u8 list" where
  "as_bytes s = concat (map utf8_char s)"

text \<open>\<open>std::str::from_utf8(bytes).ok().and_then(|s| s.chars().next())\<close> on the two to four bytes of one
  sequence whose later bytes are continuation bytes: the shortest encoding of a scalar value, or nothing.\<close>

fun utf8_value :: "u8 list \<Rightarrow> nat" where
  "utf8_value [a, b] = (unat a - 0xc0) * 64 + (unat b - 0x80)"
| "utf8_value [a, b, c] = (unat a - 0xe0) * 4096 + (unat b - 0x80) * 64 + (unat c - 0x80)"
| "utf8_value [a, b, c, d] = (unat a - 0xf0) * 262144 + (unat b - 0x80) * 4096 + (unat c - 0x80) * 64 + (unat d - 0x80)"
| "utf8_value _ = 0"

definition from_utf8_char :: "u8 list \<Rightarrow> rchar option" where
  "from_utf8_char bytes =
     (let c = utf8_value bytes in if is_scalar c \<and> utf8_char c = bytes then Some c else None)"

section \<open>The automaton\<close>

definition MAX_SUPPORTED_EDITS :: u8 where
  "MAX_SUPPORTED_EDITS = 3"

definition BAND :: nat where
  "BAND = 2 * unat MAX_SUPPORTED_EDITS + 1"

definition saturating_add_u8 :: "u8 \<Rightarrow> u8 \<Rightarrow> u8" where
  "saturating_add_u8 a b = (if unat a + unat b < 256 then a + b else 255)"

record lev_automaton =
  la_exact :: "u8 list"
  la_key_prefix_len :: nat
  la_query :: "rchar list"
  la_max_edits :: u8

record fuzzy_state =
  fs_row :: "u8 list"
  fs_prev_row :: "u8 list"
  fs_chars :: u32
  fs_prev_char :: "rchar option"
  fs_utf8 :: "u8 list"
  fs_utf8_len :: u8
  fs_utf8_need :: u8

datatype lev_state = Dead | ExactAt nat | Fuzzy fuzzy_state

definition split_prefix :: "rchar list \<Rightarrow> nat \<Rightarrow> rchar list \<times> rchar list" where
  "split_prefix s n = (take n s, drop n s)"

definition la_new :: "u8 list \<Rightarrow> rchar list \<Rightarrow> u8 \<Rightarrow> nat \<Rightarrow> lev_automaton" where
  "la_new key_prefix s max_edits prefix_length =
     (let (pre, suf) = split_prefix s prefix_length
      in \<lparr>la_exact = key_prefix @ as_bytes pre, la_key_prefix_len = length key_prefix, la_query = suf,
          la_max_edits = min max_edits MAX_SUPPORTED_EDITS\<rparr>)"

text \<open>The query column in a slot of the band.\<close>

definition la_column :: "lev_automaton \<Rightarrow> u32 \<Rightarrow> nat \<Rightarrow> nat option" where
  "la_column a chars t =
     (let j = int (unat chars) - int (unat (la_max_edits a)) + int t
      in if j \<ge> 0 \<and> j \<le> int (length (la_query a)) then Some (nat j) else None)"

definition la_width :: "lev_automaton \<Rightarrow> nat" where
  "la_width a = 2 * unat (la_max_edits a) + 1"

definition initial_fuzzy :: "lev_automaton \<Rightarrow> lev_state" where
  "initial_fuzzy a =
     (let cap = la_max_edits a + 1;
          row = fold (\<lambda>t row. case la_column a 0 t of None \<Rightarrow> row | Some j \<Rightarrow> row[t := word_of_nat j])
                  [0..<la_width a] (replicate BAND cap)
      in Fuzzy \<lparr>fs_row = row, fs_prev_row = replicate BAND cap, fs_chars = 0, fs_prev_char = None,
                fs_utf8 = replicate 4 0, fs_utf8_len = 0, fs_utf8_need = 0\<rparr>)"

definition cell_up :: "lev_automaton \<Rightarrow> fuzzy_state \<Rightarrow> nat \<Rightarrow> u8" where
  "cell_up a s t = (if t + 1 < la_width a then saturating_add_u8 (fs_row s ! (t + 1)) 1 else la_max_edits a + 1)"

definition cell_edit :: "lev_automaton \<Rightarrow> fuzzy_state \<Rightarrow> rchar \<Rightarrow> u8 list \<Rightarrow> nat \<Rightarrow> nat \<Rightarrow> u8" where
  "cell_edit a s c nxt t j =
     (let v = cell_up a s t;
          v = (if t > 0 then min v (saturating_add_u8 (nxt ! (t - 1)) 1) else v)
      in min v (saturating_add_u8 (fs_row s ! t) (if la_query a ! (j - 1) \<noteq> c then 1 else 0)))"

definition cell_swap :: "lev_automaton \<Rightarrow> fuzzy_state \<Rightarrow> rchar \<Rightarrow> nat \<Rightarrow> nat \<Rightarrow> u8 \<Rightarrow> u8" where
  "cell_swap a s c t j v =
     (if j \<ge> 2 \<and> fs_chars s \<ge> 1 then
        (case fs_prev_char s of
           Some p \<Rightarrow>
             if c \<noteq> p \<and> c = la_query a ! (j - 2) \<and> p = la_query a ! (j - 1)
             then min v (saturating_add_u8 (fs_prev_row s ! t) 1) else v
         | None \<Rightarrow> v)
      else v)"

definition step_cell :: "lev_automaton \<Rightarrow> fuzzy_state \<Rightarrow> rchar \<Rightarrow> u8 list \<Rightarrow> nat \<Rightarrow> nat \<Rightarrow> u8" where
  "step_cell a s c nxt t j =
     (let v = (if j > 0 then cell_swap a s c t j (cell_edit a s c nxt t j) else cell_up a s t)
      in min v (la_max_edits a + 1))"

definition step_row :: "lev_automaton \<Rightarrow> fuzzy_state \<Rightarrow> rchar \<Rightarrow> nat \<Rightarrow> u8 list \<times> u8 \<Rightarrow> u8 list \<times> u8" where
  "step_row a s c t acc =
     (case acc of (nxt, best) \<Rightarrow>
        case la_column a (fs_chars s + 1) t of
          None \<Rightarrow> (nxt, best)
        | Some j \<Rightarrow> let v = step_cell a s c nxt t j in (nxt[t := v], min best v))"

definition step_char :: "lev_automaton \<Rightarrow> fuzzy_state \<Rightarrow> rchar \<Rightarrow> lev_state" where
  "step_char a s c =
     (let cap = la_max_edits a + 1;
          (nxt, best) = fold (step_row a s c) [0..<la_width a] (replicate BAND cap, cap)
      in if best > la_max_edits a then Dead
         else Fuzzy \<lparr>fs_row = nxt, fs_prev_row = fs_row s, fs_chars = fs_chars s + 1, fs_prev_char = Some c,
                     fs_utf8 = replicate 4 0, fs_utf8_len = 0, fs_utf8_need = 0\<rparr>)"

definition la_distance :: "lev_automaton \<Rightarrow> lev_state \<Rightarrow> u8 option" where
  "la_distance a st =
     (case st of
        Fuzzy s \<Rightarrow>
          if fs_utf8_need s = 0 then
            let t = int (length (la_query a)) - int (unat (fs_chars s)) + int (unat (la_max_edits a))
            in if t < 0 \<or> t > 2 * int (unat (la_max_edits a)) then None
               else let d = fs_row s ! nat t in if d \<le> la_max_edits a then Some d else None
          else None
      | _ \<Rightarrow> None)"

definition utf8_width :: "u8 \<Rightarrow> u8" where
  "utf8_width lead =
     (if lead \<le> 0x7f then 1
      else if 0xc2 \<le> lead \<and> lead \<le> 0xdf then 2
      else if 0xe0 \<le> lead \<and> lead \<le> 0xef then 3
      else if 0xf0 \<le> lead \<and> lead \<le> 0xf4 then 4
      else 0)"

definition la_start :: "lev_automaton \<Rightarrow> lev_state" where
  "la_start a = (if la_exact a = [] then initial_fuzzy a else ExactAt 0)"

definition la_is_match :: "lev_automaton \<Rightarrow> lev_state \<Rightarrow> bool" where
  "la_is_match a st = (la_distance a st \<noteq> None)"

definition la_can_match :: "lev_state \<Rightarrow> bool" where
  "la_can_match st = (st \<noteq> Dead)"

unbundle bit_operations_syntax

definition la_accept :: "lev_automaton \<Rightarrow> lev_state \<Rightarrow> u8 \<Rightarrow> lev_state" where
  "la_accept a st byte =
     (case st of
        Dead \<Rightarrow> Dead
      | ExactAt n \<Rightarrow>
          if la_exact a ! n \<noteq> byte then Dead
          else if n + 1 = length (la_exact a) then initial_fuzzy a
          else ExactAt (n + 1)
      | Fuzzy s \<Rightarrow>
          if fs_utf8_need s = 0 then
            let w = utf8_width byte
            in if w = 0 then Dead
               else if w = 1 then step_char a s (unat byte)
               else Fuzzy (s\<lparr>fs_utf8 := (fs_utf8 s)[0 := byte], fs_utf8_len := 1, fs_utf8_need := w\<rparr>)
          else if byte AND 0xc0 \<noteq> 0x80 then Dead
          else
            let pending = s\<lparr>fs_utf8 := (fs_utf8 s)[unat (fs_utf8_len s) := byte], fs_utf8_len := fs_utf8_len s + 1\<rparr>
            in if fs_utf8_len pending < fs_utf8_need pending then Fuzzy pending
               else case from_utf8_char (take (unat (fs_utf8_len pending)) (fs_utf8 pending)) of
                      Some c \<Rightarrow> step_char a pending c
                    | None \<Rightarrow> Dead)"

fun distance_loop :: "lev_automaton \<Rightarrow> u8 list \<Rightarrow> lev_state \<Rightarrow> u8 option" where
  "distance_loop a [] st = la_distance a st"
| "distance_loop a (b # bs) st =
     (let st = la_accept a st b in if st = Dead then None else distance_loop a bs st)"

definition distance_to :: "lev_automaton \<Rightarrow> rchar list \<Rightarrow> u8 option" where
  "distance_to a word = distance_loop a (as_bytes word) (la_start a)"


section \<open>Bytes of characters\<close>

lemma unat_byte_of [simp]: "n < 256 \<Longrightarrow> unat (byte_of n) = n"
  by (simp add: byte_of_def unat_of_nat)

lemma continuation_byte: "x < 64 \<Longrightarrow> byte_of (128 + x) AND 192 = 128"
proof -
  have "\<forall>x \<in> set [0..<64]. byte_of (128 + x) AND 192 = 128" by code_simp
  then show "x < 64 \<Longrightarrow> byte_of (128 + x) AND 192 = 128" by simp
qed

lemma utf8_char_cases:
  assumes "is_scalar c"
  obtains (one) "c < 128" "utf8_char c = [byte_of c]"
  | (two) x y where "c = x * 64 + y" "2 \<le> x" "x < 32" "y < 64" "utf8_char c = [byte_of (192 + x), byte_of (128 + y)]"
  | (three) x y z where "128 \<le> c" "c = x * 4096 + y * 64 + z" "x < 16" "y < 64" "z < 64"
      "utf8_char c = [byte_of (224 + x), byte_of (128 + y), byte_of (128 + z)]"
  | (four) x y z u where "128 \<le> c" "c = x * 262144 + y * 4096 + z * 64 + u" "x < 5" "y < 64" "z < 64" "u < 64"
      "utf8_char c = [byte_of (240 + x), byte_of (128 + y), byte_of (128 + z), byte_of (128 + u)]"
proof -
  have m: "c mod 4096 = c div 64 mod 64 * 64 + c mod 64" "c mod 262144 = c div 4096 mod 64 * 4096 + c mod 4096"
    using mod_mult2_eq [of c 64 64] mod_mult2_eq [of c 4096 64] by simp_all
  have e2: "c = c div 64 * 64 + c mod 64" by simp
  have e3: "c = c div 4096 * 4096 + c div 64 mod 64 * 64 + c mod 64"
    using m(1) div_mult_mod_eq [of c 4096] by linarith
  have e4: "c = c div 262144 * 262144 + c div 4096 mod 64 * 4096 + c div 64 mod 64 * 64 + c mod 64"
    using m div_mult_mod_eq [of c 262144] by linarith
  consider "c < 128" | "128 \<le> c" "c < 2048" | "2048 \<le> c" "c < 65536" | "65536 \<le> c" by linarith
  then show thesis
  proof cases
    case 1 then show ?thesis using one by (simp add: utf8_char_def)
  next
    case 2
    then have "2 \<le> c div 64" "c div 64 < 32" by linarith+
    with 2 e2 show ?thesis by (intro two [of "c div 64" "c mod 64"]) (simp_all add: utf8_char_def)
  next
    case 3
    then have "c div 4096 < 16" by linarith
    with 3 e3 show ?thesis by (intro three [of "c div 4096" "c div 64 mod 64" "c mod 64"]) (simp_all add: utf8_char_def)
  next
    case 4
    then have "c div 262144 < 5" using assms by (auto simp: is_scalar_def)
    with 4 e4 show ?thesis
      by (intro four [of "c div 262144" "c div 4096 mod 64" "c div 64 mod 64" "c mod 64"]) (simp_all add: utf8_char_def)
  qed
qed

lemma from_utf8_char_encoded:
  assumes "is_scalar c" "128 \<le> c"
  shows "from_utf8_char (utf8_char c) = Some c"
proof -
  have "utf8_value (utf8_char c) = c"
    using assms(1) by (cases rule: utf8_char_cases) (use assms(2) in \<open>simp_all add: unat_byte_of\<close>)
  with assms(1) show ?thesis by (simp add: from_utf8_char_def)
qed

lemma utf8_char_inject:
  assumes "is_scalar c" "is_scalar d" "utf8_char c = utf8_char d"
  shows "c = d"
proof (cases "128 \<le> c \<and> 128 \<le> d")
  case True
  then show ?thesis using from_utf8_char_encoded assms by (metis option.inject)
next
  case False
  have "length (utf8_char e) = 1 \<longleftrightarrow> e < 128" for e by (simp add: utf8_char_def)
  from this [of c] this [of d] assms(3) False have lt: "c < 128" "d < 128" by auto
  with assms(3) have "byte_of c = byte_of d" by (simp add: utf8_char_def)
  from arg_cong [OF this, of unat] lt show ?thesis by simp
qed

lemma utf8_width_lead:
  assumes "is_scalar c"
  shows "utf8_width (hd (utf8_char c)) = byte_of (length (utf8_char c))"
  using assms by (cases rule: utf8_char_cases) (simp_all add: utf8_width_def word_le_nat_alt, simp_all add: byte_of_def)

lemma utf8_char_length: "0 < length (utf8_char c) \<and> length (utf8_char c) \<le> 4"
  by (simp add: utf8_char_def)

text \<open>No encoding of a character starts another one's, so bytes split into characters in one way.\<close>

lemma utf8_char_split:
  assumes "is_scalar c" "is_scalar d" "utf8_char c @ bs = utf8_char d @ bs'"
  shows "c = d \<and> bs = bs'"
proof -
  have "hd (utf8_char c) = hd (utf8_char d)"
    using arg_cong [OF assms(3), of hd] utf8_char_length [of c] utf8_char_length [of d] by (simp add: hd_append)
  then have "unat (byte_of (length (utf8_char c))) = unat (byte_of (length (utf8_char d)))"
    using utf8_width_lead [OF assms(1)] utf8_width_lead [OF assms(2)] by simp
  then have "length (utf8_char c) = length (utf8_char d)"
    using utf8_char_length [of c] utf8_char_length [of d] by (simp add: unat_byte_of)
  then show ?thesis using assms utf8_char_inject by auto
qed

lemma as_bytes_simps [simp]: "as_bytes [] = []" "as_bytes (c # s) = utf8_char c @ as_bytes s" "as_bytes (s @ s') = as_bytes s @ as_bytes s'"
  by (simp_all add: as_bytes_def)

lemma as_bytes_prefix:
  "\<forall>c \<in> set (p @ w). is_scalar c \<Longrightarrow> as_bytes w = as_bytes p @ bs \<Longrightarrow> \<exists>r. w = p @ r \<and> bs = as_bytes r"
proof (induction p arbitrary: w)
  case (Cons c p)
  then obtain d w' where w: "w = d # w'" using utf8_char_length [of c] by (cases w) auto
  with Cons utf8_char_split [of d c "as_bytes w'" "as_bytes p @ bs"] show ?case by fastforce
qed simp

section \<open>The band holds the table\<close>

declare dist.simps(3) [simp del]

definition la_ok :: "lev_automaton \<Rightarrow> bool" where
  "la_ok a \<longleftrightarrow> la_max_edits a \<le> 3"

abbreviation la_limit :: "lev_automaton \<Rightarrow> nat" where
  "la_limit a \<equiv> unat (la_max_edits a)"

abbreviation osa :: "lev_automaton \<Rightarrow> rchar list \<Rightarrow> nat \<Rightarrow> nat \<Rightarrow> nat" where
  "osa a w j i \<equiv> dist True (la_query a) w j i"

text \<open>\<open>row\<close> holds the table's row for \<open>i\<close> characters of \<open>w\<close>, in the slots below \<open>m\<close>.\<close>

definition band_row :: "lev_automaton \<Rightarrow> rchar list \<Rightarrow> nat \<Rightarrow> nat \<Rightarrow> u8 list \<Rightarrow> bool" where
  "band_row a w i m row \<longleftrightarrow> length row = BAND
     \<and> (\<forall>t < m. \<forall>j \<le> length (la_query a). j + la_limit a = i + t \<longrightarrow> unat (row ! t) = min (Suc (la_limit a)) (osa a w j i))"

lemma la_limit_le: "la_ok a \<Longrightarrow> la_limit a \<le> 3"
  by (simp add: la_ok_def word_le_nat_alt)

lemma la_cap: "la_ok a \<Longrightarrow> unat (la_max_edits a + 1) = Suc (la_limit a)"
  using la_limit_le [of a] by (simp add: unat_word_ariths)

lemma la_width_le_band: "la_ok a \<Longrightarrow> la_width a \<le> BAND"
  using la_limit_le [of a] by (simp add: la_width_def BAND_def MAX_SUPPORTED_EDITS_def)

lemma unat_min: "unat (min x y) = min (unat x) (unat (y :: 'a::len word))"
  by (simp add: min_def word_le_nat_alt)

lemma unat_saturating_add_u8: "unat x + unat y < 256 \<Longrightarrow> unat (saturating_add_u8 x y) = unat x + unat y"
  by (simp add: saturating_add_u8_def unat_word_ariths)

lemma column_nat:
  "(if int c - int k + int t \<ge> 0 \<and> int c - int k + int t \<le> int n then Some (nat (int c - int k + int t)) else None) = Some j
   \<longleftrightarrow> j + k = c + t \<and> j \<le> n"
  by auto

lemma la_column_iff:
  "la_column a chars t = Some j \<longleftrightarrow> j + la_limit a = unat chars + t \<and> j \<le> length (la_query a)"
  unfolding la_column_def Let_def by (rule column_nat)

lemma la_column_None:
  "la_column a chars t = None \<Longrightarrow> j + la_limit a = unat chars + t \<Longrightarrow> \<not> j \<le> length (la_query a)"
  by (metis la_column_iff option.distinct(1))

lemma capped_step: "min C (min C x + y) = min C (x + (y :: nat))"
  by (auto simp: min_def)

lemma capped_min: "min C a = min C a' \<Longrightarrow> min C b = min C b' \<Longrightarrow> min C (min a b) = min C (min a' (b' :: nat))"
  by (simp add: min_def split: if_splits)

text \<open>What the state knows after the characters \<open>w\<close>.\<close>

definition tracks :: "lev_automaton \<Rightarrow> rchar list \<Rightarrow> fuzzy_state \<Rightarrow> bool" where
  "tracks a w s \<longleftrightarrow> unat (fs_chars s) = length w \<and> band_row a w (length w) (la_width a) (fs_row s)
     \<and> (if w = [] then fs_prev_char s = None
        else fs_prev_char s = Some (last w) \<and> band_row a w (length w - 1) (la_width a) (fs_prev_row s))
     \<and> fs_utf8_need s = 0 \<and> length (fs_utf8 s) = 4"

lemma osa_extend:
  "i \<le> length (la_query a) \<Longrightarrow> m \<le> length w \<Longrightarrow> osa a (w @ v) i m = osa a w i m"
  using dist_prefixes [of i "la_query a" m w True "[]" v] by simp

lemma tracks_row:
  "tracks a w s \<Longrightarrow> u < la_width a \<Longrightarrow> i + la_limit a = length w + u \<Longrightarrow> i \<le> length (la_query a)
    \<Longrightarrow> unat (fs_row s ! u) = min (Suc (la_limit a)) (osa a (w @ v) i (length w))"
  by (simp add: tracks_def band_row_def osa_extend)

lemma unat_next: "la_ok a \<Longrightarrow> unat x = min (Suc (la_limit a)) d \<Longrightarrow> unat y \<le> 1
    \<Longrightarrow> min (Suc (la_limit a)) (unat (saturating_add_u8 x y)) = min (Suc (la_limit a)) (d + unat y)"
  using la_limit_le [of a] by (simp add: unat_saturating_add_u8 capped_step)

lemma cell_up_dist:
  assumes "la_ok a" "tracks a w s" "t < la_width a" "j + la_limit a = Suc (length w) + t" "j \<le> length (la_query a)"
  shows "min (Suc (la_limit a)) (unat (cell_up a s t)) = min (Suc (la_limit a)) (osa a (w @ v) j (length w) + 1)"
proof (cases "t + 1 < la_width a")
  case True
  then show ?thesis
    using unat_next [OF assms(1) tracks_row [OF assms(2), of "t + 1" j v], of 1] assms(4,5) by (simp add: cell_up_def)
next
  case False
  with assms(3,4) have "Suc (la_limit a) \<le> osa a (w @ v) j (length w)"
    using dist_gap [of j "length w" True "la_query a" "w @ v"] unfolding la_width_def by linarith
  with False show ?thesis using la_cap [OF assms(1)] by (simp add: cell_up_def)
qed

lemma cell_edit_dist:
  assumes ok: "la_ok a" and tr: "tracks a w s" and nxt: "band_row a (w @ [c]) (Suc (length w)) t nxt"
    and t: "t < la_width a" and j: "Suc j + la_limit a = Suc (length w) + t" "Suc j \<le> length (la_query a)"
  shows "min (Suc (la_limit a)) (unat (cell_edit a s c nxt t (Suc j))) = min (Suc (la_limit a))
    (min (min (osa a (w @ [c]) (Suc j) (length w) + 1) (osa a (w @ [c]) j (Suc (length w)) + 1))
       (osa a (w @ [c]) j (length w) + (if la_query a ! j = c then 0 else 1)))"
proof -
  let ?C = "Suc (la_limit a)" and ?D = "osa a (w @ [c])" and ?n = "length w"
  let ?v = "if t > 0 then min (cell_up a s t) (saturating_add_u8 (nxt ! (t - 1)) 1) else cell_up a s t"
  note up = cell_up_dist [OF ok tr t j, of "[c]"]
  have left: "min ?C (unat ?v) = min ?C (min (?D (Suc j) ?n + 1) (?D j (Suc ?n) + 1))"
  proof (cases "t > 0")
    case True
    then have "unat (nxt ! (t - 1)) = min ?C (?D j (Suc ?n))" using nxt j by (simp add: band_row_def)
    from capped_min [OF up unat_next [OF ok this, of 1]] True show ?thesis by (simp add: unat_min)
  next
    case False
    with j(1) have "?C \<le> ?D j (Suc ?n) + 1" using dist_gap [of j "Suc ?n" True "la_query a" "w @ [c]"] by linarith
    with False up show ?thesis by (simp add: min.absorb1 min.assoc [symmetric])
  qed
  have old: "unat (fs_row s ! t) = min ?C (?D j ?n)" using tracks_row [OF tr t, of j "[c]"] j by simp
  show ?thesis
    using capped_min [OF left unat_next [OF ok old, of "if la_query a ! j \<noteq> c then 1 else 0"]]
    by (cases "la_query a ! j = c") (simp_all add: cell_edit_def Let_def unat_min)
qed

text \<open>The code looks for a swap only of two different characters; of equal ones, keeping both is cheaper.\<close>

lemma dist_swap_different:
  assumes "w \<noteq> []" "0 < j"
  shows "dist True q (w @ [c]) (Suc j) (Suc (length w)) =
    (let v = min (min (dist True q (w @ [c]) (Suc j) (length w) + 1) (dist True q (w @ [c]) j (Suc (length w)) + 1))
               (dist True q (w @ [c]) j (length w) + (if q ! j = c then 0 else 1))
     in if c \<noteq> last w \<and> c = q ! (j - 1) \<and> last w = q ! j
        then min v (dist True q (w @ [c]) (j - 1) (length w - 1) + 1) else v)"
proof -
  let ?D = "dist True q (w @ [c])" and ?n = "length w"
  have l: "last w = (w @ [c]) ! (?n - 1)" using assms(1) by (simp add: last_conv_nth nth_append)
  have sw: "swapped True q (w @ [c]) j ?n \<longleftrightarrow> q ! j = last w \<and> q ! (j - 1) = c" using assms l by (auto simp: swapped_def)
  show ?thesis
  proof (cases "c = last w \<and> q ! j = c \<and> q ! (j - 1) = c")
    case True
    then have "?D j ?n \<le> ?D (j - 1) (?n - 1)"
      using dist_keep [of q "j - 1" "w @ [c]" "?n - 1" True] assms l by simp
    with True show ?thesis by (simp add: dist.simps(3) Let_def min.commute)
  next
    case False
    then show ?thesis unfolding dist.simps(3) sw Let_def by (auto simp: min.commute)
  qed
qed

lemma step_cell_dist:
  assumes ok: "la_ok a" and tr: "tracks a w s" and nxt: "band_row a (w @ [c]) (Suc (length w)) t nxt"
    and t: "t < la_width a" and j: "j + la_limit a = Suc (length w) + t" "j \<le> length (la_query a)"
  shows "unat (step_cell a s c nxt t j) = min (Suc (la_limit a)) (osa a (w @ [c]) j (Suc (length w)))"
proof (cases j)
  case 0
  then show ?thesis using cell_up_dist [OF ok tr t j, of "[c]"] la_cap [OF ok]
    by (simp add: step_cell_def unat_min min.commute)
next
  case (Suc i)
  let ?C = "Suc (la_limit a)" and ?n = "length w" and ?q = "la_query a" and ?D = "osa a (w @ [c])"
  let ?v = "cell_edit a s c nxt t j"
  let ?V = "min (min (?D j ?n + 1) (?D i (Suc ?n) + 1)) (?D i ?n + (if ?q ! i = c then 0 else 1))"
  have v: "min ?C (unat ?v) = min ?C ?V" using cell_edit_dist [OF ok tr nxt t, of i] j Suc by simp
  have cell: "unat (step_cell a s c nxt t j) = min ?C (unat (cell_swap a s c t j ?v))"
    using la_cap [OF ok] Suc by (simp add: step_cell_def unat_min min.commute)
  show ?thesis
  proof (cases "0 < i \<and> w \<noteq> []")
    case True
    then have p: "fs_prev_char s = Some (last w)" "fs_chars s \<ge> 1" "unat (fs_prev_row s ! t) = min ?C (?D (i - 1) (?n - 1))"
      using tr t j Suc by (simp_all add: tracks_def band_row_def osa_extend word_le_nat_alt Suc_le_eq)
    let ?T = "c \<noteq> last w \<and> c = ?q ! (i - 1) \<and> last w = ?q ! i"
    have sw: "cell_swap a s c t j ?v = (if ?T then min ?v (saturating_add_u8 (fs_prev_row s ! t) 1) else ?v)"
      using True Suc p by (simp add: cell_swap_def numeral_2_eq_2)
    have d: "?D j (Suc ?n) = (if ?T then min ?V (?D (i - 1) (?n - 1) + 1) else ?V)"
      unfolding Suc using True by (subst dist_swap_different) (simp_all add: Let_def)
    have P: "min ?C (unat (saturating_add_u8 (fs_prev_row s ! t) 1)) = min ?C (?D (i - 1) (?n - 1) + 1)"
      using unat_next [OF ok p(3), of 1] by simp
    show ?thesis
    proof (cases ?T)
      case True
      show ?thesis unfolding cell sw d if_P [OF True] unat_min by (rule capped_min [OF v P])
    next
      case False
      show ?thesis unfolding cell sw d if_not_P [OF False] by (rule v)
    qed
  next
    case False
    then have "cell_swap a s c t j ?v = ?v"
      using tr Suc by (auto simp: cell_swap_def tracks_def word_le_nat_alt)
    moreover have "?D j (Suc ?n) = ?V" using False Suc by (auto simp: Let_def swapped_def dist.simps(3) min.commute)
    ultimately show ?thesis unfolding cell using v by simp
  qed
qed

lemma step_row_dist:
  assumes ok: "la_ok a" and tr: "tracks a w s" and chars: "unat (fs_chars s + 1) = Suc (length w)" and m: "m \<le> la_width a"
    and acc: "fold (step_row a s c) [0..<m] (replicate BAND (la_max_edits a + 1), la_max_edits a + 1) = (nxt, best)"
  shows "band_row a (w @ [c]) (Suc (length w)) m nxt
    \<and> (best > la_max_edits a \<longleftrightarrow>
        (\<forall>t < m. \<forall>j \<le> length (la_query a). j + la_limit a = Suc (length w) + t \<longrightarrow> osa a (w @ [c]) j (Suc (length w)) > la_limit a))"
  using m acc
proof (induction m arbitrary: nxt best)
  case 0
  then show ?case using la_cap [OF ok] by (auto simp: band_row_def word_less_nat_alt)
next
  case (Suc m)
  let ?D = "\<lambda>j. osa a (w @ [c]) j (Suc (length w))"
  obtain n' b' where prev: "fold (step_row a s c) [0..<m] (replicate BAND (la_max_edits a + 1), la_max_edits a + 1) = (n', b')"
    by (cases "fold (step_row a s c) [0..<m] (replicate BAND (la_max_edits a + 1), la_max_edits a + 1)")
  have row: "band_row a (w @ [c]) (Suc (length w)) m n'"
    and best: "b' > la_max_edits a \<longleftrightarrow> (\<forall>t < m. \<forall>j \<le> length (la_query a). j + la_limit a = Suc (length w) + t \<longrightarrow> ?D j > la_limit a)"
    using Suc.IH [OF _ prev] Suc.prems(1) by simp_all
  have step: "step_row a s c m (n', b') = (nxt, best)" using Suc.prems(2) prev by simp
  show ?case
  proof (cases "la_column a (fs_chars s + 1) m")
    case None
    then have "nxt = n'" "best = b'" using step by (auto simp: step_row_def)
    with row best la_column_None [OF None] chars show ?thesis by (auto simp: band_row_def less_Suc_eq)
  next
    case (Some j)
    then have j: "j + la_limit a = Suc (length w) + m" "j \<le> length (la_query a)" using la_column_iff chars by auto
    have uniq: "i = j" if "i + la_limit a = Suc (length w + m)" for i using that j(1) by simp
    let ?v = "step_cell a s c n' m j"
    have nb: "nxt = n'[m := ?v]" "best = min b' ?v" using step Some by (auto simp: step_row_def Let_def)
    have v: "unat ?v = min (Suc (la_limit a)) (?D j)"
      using step_cell_dist [OF ok tr row _ j] Suc.prems(1) by simp
    have "m < BAND" using Suc.prems(1) la_width_le_band [OF ok] by simp
    then have "band_row a (w @ [c]) (Suc (length w)) (Suc m) nxt"
      using row v nb(1) uniq by (auto simp: band_row_def less_Suc_eq nth_list_update)
    moreover have "best > la_max_edits a \<longleftrightarrow> b' > la_max_edits a \<and> ?D j > la_limit a"
      unfolding nb(2) word_less_nat_alt unat_min v by auto
    moreover have "(\<forall>i \<le> length (la_query a). i + la_limit a = Suc (length w) + m \<longrightarrow> la_limit a < ?D i) \<longleftrightarrow> la_limit a < ?D j"
      using j uniq by (metis add_Suc)
    ultimately show ?thesis using best by (simp add: All_less_Suc conj_commute)
  qed
qed

lemma dist_row_exceeds:
  assumes "\<forall>j \<le> length q. k < dist True q w j i"
  shows "j \<le> length q \<Longrightarrow> k < dist True q w j (Suc i)"
proof (induction j)
  case 0
  then show ?case using assms by fastforce
next
  case (Suc j)
  have d: "k < dist True q w j i" "k < dist True q w (Suc j) i" "k < dist True q w j (Suc i)" using Suc assms by auto
  moreover have "k < Suc (dist True q w (j - 1) (i - 1))" if "swapped True q w j i"
    using dist_replace [of True q w "j - 1" "i - 1"] that d(1) by (simp add: swapped_def)
  ultimately show ?case using dist_cases [of True q w j i] by linarith
qed

lemma dist_rows_exceed:
  "i \<le> n \<Longrightarrow> \<forall>j \<le> length q. k < dist True q w j i \<Longrightarrow> \<forall>j \<le> length q. k < dist True q w j n"
  by (induction rule: dec_induct) (auto dest: dist_row_exceeds)

definition within :: "lev_automaton \<Rightarrow> rchar list \<Rightarrow> u8 option" where
  "within a w = (let d = osa a w (length (la_query a)) (length w) in if d \<le> la_limit a then Some (word_of_nat d) else None)"

lemma step_char_dist:
  assumes ok: "la_ok a" and tr: "tracks a w s" and len: "Suc (length w) < 2 ^ 32"
  shows "case step_char a s c of
      Dead \<Rightarrow> \<forall>v. within a (w @ c # v) = None
    | ExactAt n \<Rightarrow> False
    | Fuzzy s' \<Rightarrow> tracks a (w @ [c]) s'"
proof -
  let ?q = "la_query a" and ?n = "length w"
  have chars: "unat (fs_chars s + 1) = Suc ?n" using tr len by (simp add: tracks_def unat_word_ariths)
  obtain nxt best where acc: "fold (step_row a s c) [0..<la_width a] (replicate BAND (la_max_edits a + 1), la_max_edits a + 1) = (nxt, best)"
    by (cases "fold (step_row a s c) [0..<la_width a] (replicate BAND (la_max_edits a + 1), la_max_edits a + 1)")
  from step_row_dist [OF ok tr chars order_refl acc]
  have row: "band_row a (w @ [c]) (Suc ?n) (la_width a) nxt"
    and best: "best > la_max_edits a \<longleftrightarrow> (\<forall>t < la_width a. \<forall>j \<le> length ?q. j + la_limit a = Suc ?n + t \<longrightarrow> osa a (w @ [c]) j (Suc ?n) > la_limit a)"
    by simp_all
  show ?thesis
  proof (cases "best > la_max_edits a")
    case True
    have "la_limit a < osa a (w @ [c]) j (Suc ?n)" if "j \<le> length ?q" for j
    proof (cases "Suc ?n \<le> j + la_limit a \<and> j + la_limit a - Suc ?n < la_width a")
      case True
      with best \<open>best > la_max_edits a\<close> that show ?thesis by (metis le_add_diff_inverse)
    next
      case False
      then show ?thesis using dist_gap [of j "Suc ?n" True ?q "w @ [c]"] by (auto simp: la_width_def)
    qed
    then have "\<forall>j \<le> length ?q. la_limit a < osa a (w @ c # v) j (Suc ?n)" for v
      using dist_prefixes [of _ ?q "Suc ?n" "w @ [c]" True "[]" v] by simp
    then have "la_limit a < osa a (w @ c # v) (length ?q) (length (w @ c # v))" for v
      using dist_rows_exceed [of "Suc ?n" "length (w @ c # v)" ?q "la_limit a" "w @ c # v"] by simp
    then show ?thesis using True acc by (simp add: step_char_def within_def Let_def not_le)
  next
    case False
    have "band_row a (w @ [c]) ?n (la_width a) (fs_row s)"
      using tr dist_prefixes [of _ ?q ?n w True "[]" "[c]"] by (simp add: tracks_def band_row_def)
    then show ?thesis using False acc row chars by (simp add: step_char_def tracks_def)
  qed
qed

lemma la_distance_within: "la_ok a \<Longrightarrow> tracks a w s \<Longrightarrow> la_distance a (Fuzzy s) = within a w"
proof -
  assume ok: "la_ok a" and tr: "tracks a w s"
  let ?q = "length (la_query a)" and ?t = "int (length (la_query a)) - int (length w) + int (la_limit a)"
  have n: "unat (fs_chars s) = length w" "fs_utf8_need s = 0" using tr by (simp_all add: tracks_def)
  show ?thesis
  proof (cases "?t < 0 \<or> ?t > 2 * int (la_limit a)")
    case True
    then have "la_limit a < osa a w ?q (length w)" using dist_gap [of ?q "length w" True "la_query a" w] by linarith
    then show ?thesis using True n by (simp add: la_distance_def within_def Let_def)
  next
    case False
    then obtain t where t: "nat ?t = t" "t < la_width a" "?q + la_limit a = length w + t"
      by (intro that [of "nat ?t"]) (auto simp: la_width_def simp del: of_nat_unat)
    then have "unat (fs_row s ! nat ?t) = min (Suc (la_limit a)) (osa a w ?q (length w))"
      using tr unfolding tracks_def band_row_def t(1) by blast
    then have "fs_row s ! nat ?t \<le> la_max_edits a \<longleftrightarrow> osa a w ?q (length w) \<le> la_limit a"
      "osa a w ?q (length w) \<le> la_limit a \<Longrightarrow> fs_row s ! nat ?t = word_of_nat (osa a w ?q (length w))"
      by (auto simp: word_le_nat_alt min_def split: if_splits) (metis of_nat_unat ucast_id)
    then show ?thesis using False n by (simp add: la_distance_def within_def Let_def)
  qed
qed

section \<open>Running over bytes\<close>

lemma step_char_cong:
  assumes "fs_row s = fs_row s'" "fs_prev_row s = fs_prev_row s'" "fs_chars s = fs_chars s'" "fs_prev_char s = fs_prev_char s'"
  shows "step_char a s c = step_char a s' c"
proof -
  have cell: "step_cell a s c = step_cell a s' c"
    by (intro ext) (simp only: step_cell_def cell_swap_def cell_edit_def cell_up_def assms)
  have row: "step_row a s c = step_row a s' c" by (intro ext) (simp only: step_row_def assms(3) cell)
  show ?thesis by (simp only: step_char_def assms row)
qed

lemma step_char_bytes [simp]:
  "step_char a (s\<lparr>fs_utf8 := u\<rparr>) c = step_char a s c" "step_char a (s\<lparr>fs_utf8_len := l\<rparr>) c = step_char a s c"
  "step_char a (s\<lparr>fs_utf8_need := n\<rparr>) c = step_char a s c"
  by (rule step_char_cong; simp)+

lemma distance_loop_char:
  assumes "is_scalar c" "fs_utf8_need s = 0" "length (fs_utf8 s) = 4"
  shows "distance_loop a (utf8_char c @ bs) (Fuzzy s)
    = (if step_char a s c = Dead then None else distance_loop a bs (step_char a s c))"
proof -
  obtain u0 u1 u2 u3 where u: "fs_utf8 s = [u0, u1, u2, u3]"
    using assms(3) by (auto simp: length_Suc_conv numeral_eq_Suc)
  note w = utf8_width_lead [OF assms(1)]
  have enc: "128 \<le> c \<Longrightarrow> from_utf8_char (utf8_char c) = Some c" using from_utf8_char_encoded [OF assms(1)] .
  from assms(1) show ?thesis
  proof (cases rule: utf8_char_cases)
    case one
    then have "utf8_width (byte_of c) = 1" using w by (simp add: byte_of_def)
    with one assms(2) show ?thesis by (simp add: la_accept_def Let_def)
  next
    case (two x y)
    then have "utf8_width (byte_of (192 + x)) = 2" "from_utf8_char [byte_of (192 + x), byte_of (128 + y)] = Some c"
      using w enc by (simp_all add: byte_of_def)
    with two assms(2) u show ?thesis by (simp add: la_accept_def continuation_byte Let_def)
  next
    case (three x y z)
    then have "utf8_width (byte_of (224 + x)) = 3" "from_utf8_char [byte_of (224 + x), byte_of (128 + y), byte_of (128 + z)] = Some c"
      using w enc by (simp_all add: byte_of_def)
    with three assms(2) u show ?thesis by (simp add: la_accept_def continuation_byte Let_def)
  next
    case (four x y z v)
    then have "utf8_width (byte_of (240 + x)) = 4"
      "from_utf8_char [byte_of (240 + x), byte_of (128 + y), byte_of (128 + z), byte_of (128 + v)] = Some c"
      using w enc by (simp_all add: byte_of_def)
    with four assms(2) u show ?thesis by (simp add: la_accept_def continuation_byte Let_def)
  qed
qed

lemma distance_loop_chars:
  assumes "la_ok a"
  shows "tracks a w s \<Longrightarrow> \<forall>c \<in> set v. is_scalar c \<Longrightarrow> length (w @ v) < 2 ^ 32 \<Longrightarrow>
    distance_loop a (as_bytes v) (Fuzzy s) = within a (w @ v)"
proof (induction v arbitrary: w s)
  case Nil
  then show ?case using la_distance_within [OF assms] by simp
next
  case (Cons c v)
  then have "distance_loop a (as_bytes (c # v)) (Fuzzy s)
      = (if step_char a s c = Dead then None else distance_loop a (as_bytes v) (step_char a s c))"
    using distance_loop_char [of c s] by (simp add: tracks_def)
  then show ?case
    using step_char_dist [OF assms Cons.prems(1), of c] Cons.IH [of "w @ [c]"] Cons.prems(2,3)
    by (cases "step_char a s c") auto
qed

lemma initial_fuzzy_tracks:
  assumes "la_ok a"
  shows "\<exists>s. initial_fuzzy a = Fuzzy s \<and> tracks a [] s"
proof -
  let ?f = "\<lambda>t row. case la_column a 0 t of None \<Rightarrow> row | Some j \<Rightarrow> row[t := word_of_nat j]"
  have "band_row a [] 0 m (fold ?f [0..<m] (replicate BAND (la_max_edits a + 1)))" if "m \<le> la_width a" for m
    using that
  proof (induction m)
    case 0
    then show ?case by (simp add: band_row_def)
  next
    case (Suc m)
    let ?row = "fold ?f [0..<m] (replicate BAND (la_max_edits a + 1))"
    have row: "band_row a [] 0 m ?row" using Suc by simp
    show ?case
    proof (cases "la_column a 0 m")
      case None
      then show ?thesis using row la_column_None [OF None] by (auto simp: band_row_def less_Suc_eq)
    next
      case (Some j)
      then have j: "j + la_limit a = m" "j \<le> length (la_query a)" using la_column_iff [of a 0 m j] by auto
      then have "j \<le> la_limit a" "m < BAND" using Suc.prems la_width_le_band [OF assms] by (simp_all add: la_width_def)
      moreover then have "unat (word_of_nat j :: u8) = j" using la_limit_le [OF assms] by (simp add: unat_of_nat)
      ultimately show ?thesis using row Some j by (auto simp: band_row_def less_Suc_eq nth_list_update)
    qed
  qed
  from this [OF order_refl] show ?thesis by (auto simp: initial_fuzzy_def Let_def tracks_def)
qed

lemma distance_loop_exact:
  assumes "la_exact a \<noteq> []" and n: "n < length (la_exact a)"
  shows "distance_loop a bs (ExactAt n) =
    (if prefix (drop n (la_exact a)) bs then distance_loop a (drop (length (la_exact a) - n) bs) (initial_fuzzy a) else None)"
  using n
proof (induction bs arbitrary: n)
  case Nil
  then show ?case by (simp add: la_distance_def)
next
  case (Cons b bs)
  have d: "drop n (la_exact a) = la_exact a ! n # drop (Suc n) (la_exact a)" using Cons.prems by (simp add: Cons_nth_drop_Suc)
  have "initial_fuzzy a \<noteq> Dead" by (simp add: initial_fuzzy_def Let_def)
  then show ?case using Cons.IH [of "Suc n"] Cons.prems unfolding d
    by (cases "Suc n = length (la_exact a)") (auto simp: la_accept_def Let_def Suc_diff_Suc [symmetric])
qed

text \<open>C35. The automaton is exact.  Built from a word with a limit on the edits and a number of leading
  characters that must match, and run over the UTF-8 bytes of another word, it reports \<open>d\<close> if and only if
  that word starts with the locked characters and \<open>d\<close> is the least number of insertions, deletions,
  replacements and swaps of neighbours, no character being touched twice, that turn the rest of the query into
  the rest of the word, and within the limit (of at most 3).  Both words consist of Unicode scalar values, and the
  other word is shorter than the counter of the automaton (32 bits) allows.\<close>

theorem automaton_exact:
  assumes "\<forall>c \<in> set (query @ word). is_scalar c" and "length word < 2 ^ 32"
  shows "distance_to (la_new [] query max_edits locked) word = Some d \<longleftrightarrow>
    (\<exists>rest. word = take locked query @ rest \<and> least_edits True (unat d) (drop locked query) rest \<and> d \<le> min max_edits 3)"
proof -
  let ?a = "la_new [] query max_edits locked"
  have a: "la_exact ?a = as_bytes (take locked query)" "la_query ?a = drop locked query" "la_max_edits ?a = min max_edits 3"
    by (simp_all add: la_new_def split_prefix_def MAX_SUPPORTED_EDITS_def)
  then have ok: "la_ok ?a" by (simp add: la_ok_def)
  have sc: "\<forall>c \<in> set (take locked query @ word). is_scalar c" using assms(1) by (auto dest: in_set_takeD)
  obtain s where s: "initial_fuzzy ?a = Fuzzy s" "tracks ?a [] s" using initial_fuzzy_tracks [OF ok] by blast
  have run: "distance_loop ?a (as_bytes rest) (initial_fuzzy ?a) = within ?a rest" if "word = take locked query @ rest" for rest
    using distance_loop_chars [OF ok s(2), of rest] s(1) that assms by auto
  have start: "distance_to ?a word = (if prefix (la_exact ?a) (as_bytes word)
      then distance_loop ?a (drop (length (la_exact ?a)) (as_bytes word)) (initial_fuzzy ?a) else None)"
    using distance_loop_exact [of ?a 0] by (cases "la_exact ?a = []") (simp_all add: distance_to_def la_start_def)
  have "prefix (la_exact ?a) (as_bytes word) \<longleftrightarrow> (\<exists>rest. word = take locked query @ rest)"
    using as_bytes_prefix [OF sc] unfolding a(1) prefix_def by (metis as_bytes_simps(3))
  then have "distance_to ?a word = Some d \<longleftrightarrow> (\<exists>rest. word = take locked query @ rest \<and> within ?a rest = Some d)"
    unfolding start using run a(1) by (auto split: if_splits)
  moreover have "within ?a rest = Some d \<longleftrightarrow> least_edits True (unat d) (drop locked query) rest \<and> d \<le> min max_edits 3" for rest
  proof -
    have "dist True (drop locked query) rest (length (drop locked query)) (length rest) \<le> unat (min max_edits 3)
        \<Longrightarrow> unat (word_of_nat (dist True (drop locked query) rest (length (drop locked query)) (length rest)) :: u8)
          = dist True (drop locked query) rest (length (drop locked query)) (length rest)"
      using la_limit_le [OF ok] unfolding a(3) by (simp add: unat_of_nat)
    then show ?thesis unfolding within_def least_edits_dist a(2,3) Let_def
      by (auto simp: word_le_nat_alt split: if_splits) (metis of_nat_unat ucast_id)
  qed
  ultimately show ?thesis by simp
qed

theorem automaton_exact_witness:
  "distance_to (la_new [] [115, 101, 114, 97, 99, 104] 2 1) [115, 101, 97, 114, 99, 104] = Some 1
   \<and> least_edits True 1 [101, 114, 97, 99, 104] [101, 97, 114, 99, 104 :: nat]"
proof -
  have d: "distance_to (la_new [] [115, 101, 114, 97, 99, 104] 2 1) [115, 101, 97, 114, 99, 104] = Some 1" by code_simp
  with automaton_exact [of "[115, 101, 114, 97, 99, 104]" "[115, 101, 97, 114, 99, 104]" 2 1 1]
  show ?thesis by (simp add: is_scalar_def)
qed

end
