(* ===== verification/Spec2Isabelle.thy ===== *)
theory Spec2Isabelle
  imports Lsm_Properties Wal_Log Grouped_Exact Store_Faults Lev_Automaton
begin

text \<open>
  \<^bold>\<open>Corelamo: a search database.\<close>

  Corelamo is a document search database in Rust (crates under \<^verbatim>\<open>crates/\<close>).  A write is appended to the
  write-ahead log and to the document store (crate \<^verbatim>\<open>core-storage\<close>), analysed into terms, numbers and
  booleans (crate \<^verbatim>\<open>core-index\<close>, \<^verbatim>\<open>document/\<close>, \<^verbatim>\<open>analyzer/\<close>), applied to a memtable (\<^verbatim>\<open>mem/index.rs\<close>), sealed
  into a generation, flushed to an immutable segment file (\<^verbatim>\<open>segment/\<close>, \<^verbatim>\<open>disk/\<close>) and merged with others
  by compaction (\<^verbatim>\<open>lsm/\<close>).  A query is parsed and planned (crate \<^verbatim>\<open>core-query\<close>), its terms are looked up in a
  snapshot of the index, and the best documents are found by skipping top-k evaluation over BM25 scores
  (\<^verbatim>\<open>wand.rs\<close>, \<^verbatim>\<open>scorer.rs\<close>).  Shards, the HTTP runtime, users and backups (crates \<^verbatim>\<open>core-core\<close>,
  \<^verbatim>\<open>core-runtime\<close>, \<^verbatim>\<open>core-auth\<close>, \<^verbatim>\<open>core-backup\<close>) surround these.

  \<^bold>\<open>How the program is modelled.\<close>  Structs are records, enums datatypes, \<^verbatim>\<open>u8\<close> to \<^verbatim>\<open>u64\<close> words with wrapping
  arithmetic, saturating where the code saturates; \<^verbatim>\<open>usize\<close> is \<open>nat\<close>.  \<open>io::Result\<close> is a sum with the error
  on the left.  A method with \<open>&mut self\<close> returns the new state.  A call that can fail takes a \<open>fault\<close>, and the
  theorems hold for every choice of faults.  A \<open>BTreeMap\<close>, and a hash map whose order the code does not
  observe, is a strictly ascending association list.  Loops are recursive functions with proved termination.
  What belongs to other crates is a parameter: the transducers of \<^verbatim>\<open>fst\<close> (\<open>fst_lawful\<close>), the bitmaps of
  \<^verbatim>\<open>roaring\<close> (\<open>roaring_lawful\<close>), the checksum of \<^verbatim>\<open>crc32fast\<close> (any function of the bytes).  Floating point is a
  record of operations (\<open>float_ops\<close>, \<open>double_ops\<close>, \<open>ratio_ops\<close>).  The skipping searches rely on one fact of it, asked
  of the postings of the query only: the computed score of a posting is not above the computed bound of its term
  (\<open>scores_bounded\<close>, \<open>clause_bounds_ok\<close>); \<open>weights_nonneg\<close> says that rarities and their sums are not negative.  Exact
  real arithmetic satisfies both.

  \<^bold>\<open>Foundations.\<close>
  \<^item> \<open>Prelude\<close>: machine integers, the I/O result type and its sequencing, slices (sorting, searching,
    insertion) as lists.
  \<^item> \<open>Ordered_Map\<close>: ordered maps; the locale \<open>map_store\<close> gives the laws of insertion, removal and lookup.
  \<^item> \<open>Ids\<close> (\<^verbatim>\<open>types.rs\<close>, \<^verbatim>\<open>hash.rs\<close>): packed positions, shard-qualified document ids, term keys and their order,
    the stable hash.
  \<^item> \<open>Codec\<close> (\<^verbatim>\<open>disk/codec.rs\<close>): fixed and variable width integers over byte slices; the locale \<open>byte_codec\<close> is
    the contract of an encoder and its decoder, and its round trips compose.

  \<^bold>\<open>The index\<close> (\<^verbatim>\<open>crates/core-index/src\<close>).
  \<^item> \<open>Posting_List\<close>, \<open>Posting_Ops\<close> (\<^verbatim>\<open>posting/\<close>): posting lists, cursors, both intersections, the heap-based union,
    delete filters, against sets and multisets of postings.
  \<^item> \<open>Wildcard\<close> (\<^verbatim>\<open>wildcard.rs\<close>): the pattern parser and matcher against a glob language; a character is one of
    Isabelle's 8 bit characters here.
  \<^item> \<open>Edit_Distance\<close>, \<open>Lev_Automaton\<close> (\<^verbatim>\<open>fuzzy.rs\<close>): the least number of edits between two words as a relation, the
    table that computes it, and the automaton that computes it within a limit over the UTF-8 bytes of a word.
  \<^item> \<open>Numeric\<close> (\<^verbatim>\<open>numeric_values.rs\<close>, \<^verbatim>\<open>bkd.rs\<close>, \<^verbatim>\<open>document_values.rs\<close>): numeric values, their order-preserving packing,
    the point index and the write buffer.
  \<^item> \<open>Array_Rows\<close> (\<^verbatim>\<open>array_rows.rs\<close>): the ids of array elements.
  \<^item> \<open>Segment\<close> (\<^verbatim>\<open>segment/\<close>), \<open>Mem_Index\<close> (\<^verbatim>\<open>mem/index.rs\<close>): the immutable segment and the memtable.  The locale
    \<open>term_reader\<close> says how a reader answers from the dictionary it holds; \<open>reader_pair\<close> carries answers from one
    reader to another, so that freezing, writing and opening keep every answer.
  \<^item> \<open>Term_Dict\<close> (\<^verbatim>\<open>term_dict.rs\<close>), \<open>Disk_Format\<close>, \<open>Disk_Segment\<close> (\<^verbatim>\<open>disk/\<close>): the term dictionary, every section of
    the segment file, writing and opening it.
  \<^item> \<open>Snapshot\<close>, \<open>Compaction\<close> (\<^verbatim>\<open>lsm/snapshot.rs\<close>, \<^verbatim>\<open>lsm/compaction.rs\<close>): lookups over all sources without the deleted
    documents, the merge of segments.
  \<^item> \<open>Index_Files\<close> (\<^verbatim>\<open>lsm/deletes.rs\<close>, \<^verbatim>\<open>lsm/manifest.rs\<close>): the delete file and the manifest.
  \<^item> \<open>Lsm\<close>, \<open>Lsm_Windows\<close> (\<^verbatim>\<open>lsm/manager.rs\<close>): the manager with its flush queue and the choice of segments to merge.
  \<^item> \<open>Index_View\<close>, \<open>Lsm_Refine\<close>, \<open>Lsm_System\<close>, \<open>Lsm_Properties\<close>: the abstract state of an index, the refinement of
    it by every operation of the manager, and by the interleaved steps of the index worker, the writer and the
    compactor.  An abstract index only changes by applied batches and deletions, and flushes and compactions are
    invisible, with one exception the steps have as a label of their own (\<open>Revive\<close>): installing a compaction that
    drops the tombstones brings back the deleted documents that are still in memory.

  \<^bold>\<open>The write-ahead log\<close> (\<^verbatim>\<open>crates/core-storage/src/wal.rs\<close>).
  \<^item> \<open>Wal\<close>: files as bytes of which a prefix is durable, the record format, opening with repair of the torn tail,
    appending, rotating, removing, resetting, replaying.
  \<^item> \<open>Wal_Log\<close>: the abstract log (a list of records per segment), the invariant, the refinement by every run of
    operations with arbitrary failures, what survives a power loss (which keeps the directory entries and the synced
    bytes), and the ways in which a failed operation leads to a log that no longer replays or rotates: a rotation
    behind a torn append, and the file that a rotation leaves when it fails late (\<open>lg_orphan\<close>).  The theorems on runs
    and crashes state these cases as outcomes; they are not excluded.
  \<^item> \<open>Numbered_Files\<close>: folders whose files are named after numbers, shared by the log and the document store (the
    locale \<open>numbered_files\<close>).

  \<^bold>\<open>The document store\<close> (\<^verbatim>\<open>crates/core-storage/src/binary_store.rs\<close>).
  \<^item> \<open>Doc_Store\<close>: the record format, the maps from ids to places, puts, batches, deletes, gets through the cache,
    visits, syncs, opening by a scan and from the maps file, compaction as plan, run and install.
  \<^item> \<open>Store_Records\<close>, \<open>Store_Map\<close>, \<open>Store_System\<close>: the round trip of records, the documents a store holds
    (\<open>store_inv\<close>), and the refinement of a map from ids to documents by every run of the operations, with failing
    calls, a forgetting cache and a compaction in between, up to the first batch one of whose writes failed
    (\<open>failed_batch\<close>).
  \<^item> \<open>Store_Scan\<close>, \<open>Store_Reopen\<close>: the scan applies the records of a folder in order and cuts a torn one off, so
    that opening restores the documents of a store that was not compacted.
  \<^item> \<open>Store_Faults\<close>: a full scan after a compaction, and a batch that could not be written, return wrong documents.

  \<^bold>\<open>Top-k evaluation\<close> (\<^verbatim>\<open>crates/core-query/src/wand.rs\<close>, \<^verbatim>\<open>scorer.rs\<close>).
  \<^item> \<open>Scorer\<close>: BM25 scores and the upper bound of a term.
  \<^item> \<open>Top_K\<close>: the bounded heap and its result, the \<open>k\<close> best hits by score and then document.
  \<^item> \<open>Doc_Cursor\<close>, \<open>Doc_Align\<close>: the contracts of cursors (\<open>doc_stream\<close>, \<open>doc_cursor\<close>, \<open>doc_view\<close>, \<open>doc_query\<close>) and of
    the loops over them (\<open>wand_loop\<close>: skipping by bounds; \<open>doc_align\<close>: advancing to a common document; \<open>merge_loop\<close>),
    with the exactness of each loop proved once.
  \<^item> \<open>Wand\<close>, \<open>Wand_Exact\<close>, \<open>Conjunction\<close>, \<open>Clause_Cursor\<close>, \<open>Grouped\<close>, \<open>Grouped_Exact\<close>: the four evaluators.  Each is
    equal to the best \<open>k\<close> of all matching documents scored one by one; of the search over clauses with coverage this is
    shown for few allowed documents only, because the skipping loop adds the weights in an order that moves.

  \<^bold>\<open>Bounds.\<close>  Round trips of files assume what the format can hold: counts and offsets that fit their width
  (\<open>segment_fits\<close>, \<open>merge_fits\<close>, \<open>payload_ok\<close>, \<open>doc_fits\<close>); segment numbers are taken not to reach the end of their
  range (\<open>numbers_left\<close>, \<open>run_fits\<close>).  The writers of segment files build the bytes; failing calls are added where the
  file is written (\<open>write_file\<close>).  No definition has fuel: every function is total with its termination
  proved.

  \<^bold>\<open>Not modelled.\<close>  The analysers call into other crates over Unicode text; the candidates of a fuzzy search
  are ranked by a weighted distance in floating point; the vector
  index is approximate by design; the database that joins store and index, query parsing, planning and the tree
  executor, shards and the HTTP runtime, authentication, backups, logging and timing are outside this
  development.  The manifest of the development lists every part.
\<close>

end
